(* ===== verification/Prelude.thy ===== *)
theory Prelude
  imports Main "HOL-Library.Word" "HOL-Library.Sublist" "HOL-Library.List_Lexorder"
begin

text \<open>
  The vocabulary the component theories share: the machine-integer types of the Rust sources,
  the little- and big-endian byte images of a word (\<open>to_le_bytes\<close>, \<open>to_be_bytes\<close> and their
  inverses), the result type of a computation that may fail or may never return, and facts on
  sorted lists used by the index.

  Conventions.  A Rust \<open>uN\<close> is an \<open>N word\<close>; \<open>usize\<close> lengths and offsets are \<open>nat\<close>; a
  \<open>Vec<u8>\<close> or \<open>&[u8]\<close> is a \<open>byte list\<close>; \<open>Result<T, E>\<close> is \<open>'e + 't\<close> with \<open>Inl\<close>
  the error.  A computation containing a loop that need not end has type \<open>('e + 't) option\<close>,
  where \<open>None\<close> is "does not return".
\<close>

named_theorems wire_simps \<open>unfoldings of the wire implementations\<close>
named_theorems le_simps \<open>byte images of machine integers\<close>
named_theorems cursor_simps \<open>reads through a byte cursor\<close>

unbundle bit_operations_syntax

type_synonym byte = "8 word"
type_synonym u16 = "16 word"
type_synonym u32 = "32 word"
type_synonym u64 = "64 word"
type_synonym u128 = "128 word"

subsection \<open>Results\<close>

text \<open>\<open>None\<close>: never returns; \<open>Some (Inl e)\<close>: \<open>Err(e)\<close>; \<open>Some (Inr x)\<close>: \<open>Ok(x)\<close>.\<close>

type_synonym ('e, 'a) res = "('e + 'a) option"

abbreviation Ok :: "'a \<Rightarrow> ('e, 'a) res" where
  "Ok x \<equiv> Some (Inr x)"

abbreviation Err :: "'e \<Rightarrow> ('e, 'a) res" where
  "Err e \<equiv> Some (Inl e)"

text \<open>The \<open>?\<close> operator: continue with the value, hand an error (or a divergence) on.\<close>

definition try_then :: "('e, 'a) res \<Rightarrow> ('a \<Rightarrow> ('e, 'b) res) \<Rightarrow> ('e, 'b) res" where
  "try_then r f = (case r of None \<Rightarrow> None | Some (Inl e) \<Rightarrow> Some (Inl e) | Some (Inr x) \<Rightarrow> f x)"

lemma try_then_simps [simp]:
  "try_then None f = None"
  "try_then (Err e) f = Err e"
  "try_then (Ok x) f = f x"
  by (simp_all add: try_then_def)

lemma try_then_Ok_iff: "try_then r f = Ok y \<longleftrightarrow> (\<exists>x. r = Ok x \<and> f x = Ok y)"
  by (auto simp: try_then_def split: option.splits sum.splits)

definition returns :: "('e, 'a) res \<Rightarrow> bool" where
  "returns r \<longleftrightarrow> r \<noteq> None"

lemma returns_simps [simp]: "returns (Some x)" "\<not> returns None"
  by (simp_all add: returns_def)

lemma returns_try_then [simp]:
  "returns (try_then r f) \<longleftrightarrow> returns r \<and> (\<forall>x. r = Ok x \<longrightarrow> returns (f x))"
  by (auto simp: try_then_def returns_def split: option.splits sum.splits)

text \<open>\<open>map_err(Into::into)\<close> on the error side, as \<open>?\<close> does at a crate boundary.\<close>

definition map_err :: "('e \<Rightarrow> 'f) \<Rightarrow> ('e, 'a) res \<Rightarrow> ('f, 'a) res" where
  "map_err g r = map_option (map_sum g id) r"

lemma map_err_simps [simp]:
  "map_err g None = None"
  "map_err g (Err e) = Err (g e)"
  "map_err g (Ok x) = Ok x"
  by (simp_all add: map_err_def)

lemma map_err_Ok_iff [simp]: "map_err g r = Ok x \<longleftrightarrow> r = Ok x"
  by (cases r) (auto simp: map_err_def map_sum_def split: sum.splits)

lemma returns_map_err [simp]: "returns (map_err g r) \<longleftrightarrow> returns r"
  by (simp add: map_err_def returns_def)

subsection \<open>Byte images of integers\<close>

fun nat_to_le :: "nat \<Rightarrow> nat \<Rightarrow> byte list" where
  "nat_to_le 0 x = []"
| "nat_to_le (Suc n) x = word_of_nat (x mod 256) # nat_to_le n (x div 256)"

fun le_to_nat :: "byte list \<Rightarrow> nat" where
  "le_to_nat [] = 0"
| "le_to_nat (b # bs) = unat b + 256 * le_to_nat bs"

lemma of_nat_word_eq: "a < 2 ^ LENGTH('a) \<Longrightarrow> b < 2 ^ LENGTH('a) \<Longrightarrow> (of_nat a :: 'a::len word) = of_nat b \<longleftrightarrow> a = b"
  by (simp add: word_unat_eq_iff unat_of_nat take_bit_nat_eq_self)

lemma unat_byte_lt: "unat (b :: byte) < 256"
  using unsigned_less [of b, where ?'a = nat] by simp

lemma length_nat_to_le [simp]: "length (nat_to_le n x) = n"
  by (induction n arbitrary: x) auto

lemma le_to_nat_bound: "le_to_nat bs < 256 ^ length bs"
proof (induction bs)
  case Nil
  then show ?case by simp
next
  case (Cons b bs)
  have "unat b + 256 * le_to_nat bs < 256 + 256 * le_to_nat bs"
    by (rule add_less_mono1) (rule unat_byte_lt)
  also have "\<dots> = 256 * Suc (le_to_nat bs)" by simp
  also have "\<dots> \<le> 256 * 256 ^ length bs"
    using Cons.IH by (intro mult_le_mono2) simp
  finally have "unat b + 256 * le_to_nat bs < 256 * 256 ^ length bs" .
  then show ?case by simp
qed

lemma le_to_nat_nat_to_le [simp]: "le_to_nat (nat_to_le n x) = x mod 256 ^ n"
proof (induction n arbitrary: x)
  case 0
  then show ?case by simp
next
  case (Suc n)
  have "unat (word_of_nat (x mod 256) :: byte) = x mod 256"
    by (simp add: unat_of_nat)
  with Suc show ?case
    by (simp add: mod_mult2_eq)
qed

lemma nat_to_le_le_to_nat [simp]: "nat_to_le (length bs) (le_to_nat bs) = bs"
  by (induction bs) (auto simp: unat_byte_lt)

lemma nat_to_le_inject:
  "nat_to_le n x = nat_to_le n y \<Longrightarrow> x < 256 ^ n \<Longrightarrow> y < 256 ^ n \<Longrightarrow> x = y"
  by (metis le_to_nat_nat_to_le mod_less)

lemma le_to_nat_append: "le_to_nat (xs @ ys) = le_to_nat xs + 256 ^ length xs * le_to_nat ys"
  by (induction xs) (auto simp: algebra_simps)

lemma nat_to_le_add: "nat_to_le (m + n) x = nat_to_le m x @ nat_to_le n (x div 256 ^ m)"
  by (induction m arbitrary: x) (auto simp: div_mult2_eq)

lemma nat_to_le_zero: "nat_to_le n 0 = replicate n 0"
  by (induction n) auto

lemma nat_to_le_pad: "x < 256 ^ m \<Longrightarrow> nat_to_le (m + n) x = nat_to_le m x @ replicate n 0"
  by (simp add: nat_to_le_add nat_to_le_zero)

definition to_le_bytes :: "nat \<Rightarrow> 'a::len word \<Rightarrow> byte list" where
  "to_le_bytes n w = nat_to_le n (unat w)"

definition from_le_bytes :: "byte list \<Rightarrow> 'a::len word" where
  "from_le_bytes bs = word_of_nat (le_to_nat bs)"

definition to_be_bytes :: "nat \<Rightarrow> 'a::len word \<Rightarrow> byte list" where
  "to_be_bytes n w = rev (to_le_bytes n w)"

definition from_be_bytes :: "byte list \<Rightarrow> 'a::len word" where
  "from_be_bytes bs = from_le_bytes (rev bs)"

lemma length_to_le_bytes [simp]: "length (to_le_bytes n w) = n"
  by (simp add: to_le_bytes_def)

lemma length_to_be_bytes [simp]: "length (to_be_bytes n w) = n"
  by (simp add: to_be_bytes_def)

lemma pow_256: "(256 :: nat) ^ n = 2 ^ (8 * n)"
  by (simp add: power_mult)

lemma from_le_to_le:
  fixes w :: "'a::len word"
  assumes "LENGTH('a) \<le> 8 * n"
  shows "from_le_bytes (to_le_bytes n w) = w"
proof -
  have "unat w < 2 ^ LENGTH('a)" by (rule unsigned_less)
  also have "\<dots> \<le> 256 ^ n" using assms by (simp add: pow_256 power_increasing)
  finally show ?thesis
    by (simp add: from_le_bytes_def to_le_bytes_def)
qed

lemma to_le_from_le:
  assumes "length bs = n" and "8 * n \<le> LENGTH('a::len)"
  shows "to_le_bytes n (from_le_bytes bs :: 'a word) = bs"
proof -
  have "le_to_nat bs < 256 ^ n" using le_to_nat_bound [of bs] assms(1) by simp
  also have "(256::nat) ^ n \<le> 2 ^ LENGTH('a)" using assms(2) by (simp add: pow_256 power_increasing)
  finally have "unat (word_of_nat (le_to_nat bs) :: 'a word) = le_to_nat bs"
    by (simp add: unat_of_nat)
  then show ?thesis
    using assms(1) by (auto simp: from_le_bytes_def to_le_bytes_def)
qed

lemma from_le_to_le_word [simp, le_simps]:
  "from_le_bytes (to_le_bytes 1 (w8 :: byte)) = w8"
  "from_le_bytes (to_le_bytes 2 (w16 :: u16)) = w16"
  "from_le_bytes (to_le_bytes 4 (w32 :: u32)) = w32"
  "from_le_bytes (to_le_bytes 8 (w64 :: u64)) = w64"
  "from_le_bytes (to_le_bytes 16 (w128 :: u128)) = w128"
  by (simp_all add: from_le_to_le)

lemma from_be_to_be_64 [simp, le_simps]: "from_be_bytes (to_be_bytes 8 (w :: u64)) = w"
  by (simp add: from_be_bytes_def to_be_bytes_def)

lemma to_le_bytes_inject:
  fixes v w :: "'a::len word"
  assumes "LENGTH('a) \<le> 8 * n"
  shows "to_le_bytes n v = to_le_bytes n w \<longleftrightarrow> v = w"
  using assms from_le_to_le by metis

subsection \<open>Big-endian images preserve order\<close>

text \<open>\<open>memcmp\<close> order on byte strings is the lexicographic order of \<open>List_Lexorder\<close>.\<close>

lemma nat_to_le_snoc: "nat_to_le (Suc n) x = nat_to_le n x @ [word_of_nat (x div 256 ^ n mod 256)]"
  by (induction n arbitrary: x) (auto simp: div_mult2_eq)

lemma div_mod_less_iff:
  fixes x y p :: nat
  shows "x < y \<longleftrightarrow> x div p < y div p \<or> x div p = y div p \<and> x mod p < y mod p"
proof (cases "x div p = y div p")
  case True
  then show ?thesis
    by (metis div_mod_decomp nat_add_left_cancel_less nat_neq_iff)
next
  case False
  then show ?thesis
    by (metis div_le_mono le_neq_implies_less less_imp_le_nat not_less)
qed

lemma be_nat_less_iff:
  assumes "x < 256 ^ n" and "y < 256 ^ n"
  shows "rev (nat_to_le n x) < rev (nat_to_le n y) \<longleftrightarrow> x < y"
  using assms
proof (induction n arbitrary: x y)
  case 0
  then show ?case by simp
next
  case (Suc n)
  let ?p = "256 ^ n :: nat"
  have hi: "x div ?p < 256" "y div ?p < 256"
    using Suc.prems by (simp_all add: less_mult_imp_div_less mult.commute)
  have rem: "nat_to_le n x = nat_to_le n (x mod ?p)" for x
    by (metis le_to_nat_nat_to_le length_nat_to_le mod_mod_trivial nat_to_le_le_to_nat)
  have IH: "rev (nat_to_le n x) < rev (nat_to_le n y) \<longleftrightarrow> x mod ?p < y mod ?p"
    by (subst (1 2) rem) (simp add: Suc.IH)
  have less: "(word_of_nat (x div ?p mod 256) :: byte) < word_of_nat (y div ?p mod 256)
      \<longleftrightarrow> x div ?p < y div ?p"
    using hi by (simp add: word_less_nat_alt unat_of_nat)
  have eq: "(word_of_nat (x div ?p mod 256) :: byte) = word_of_nat (y div ?p mod 256)
      \<longleftrightarrow> x div ?p = y div ?p"
    using hi by (simp add: word_unat_eq_iff unat_of_nat)
  have "x < y \<longleftrightarrow> x div ?p < y div ?p \<or> x div ?p = y div ?p \<and> x mod ?p < y mod ?p"
    by (rule div_mod_less_iff)
  then show ?case
    unfolding nat_to_le_snoc by (simp add: less eq IH)
qed

end
