(* ===== verification/Wire.thy ===== *)
theory Wire
  imports Prelude
begin

text \<open>
  The \<open>WaveWire\<close> codec (\<open>crates/wavedb-wire\<close>, \<open>crates/wavedb-wire-derive\<close>).

  The trait is the record \<open>'a wire\<close>: one field per trait item, an implementation is a value of
  the record.  \<open>encode_stack\<close> and \<open>encode_heap\<close> give the bytes the method appends to its
  buffer.  \<open>decode\<close> runs over two byte cursors and returns the value with both cursors moved.
  The contract of the trait is the locale \<open>wave_wire\<close>, with the values an implementation can
  carry (\<open>u32\<close> lengths, scalar \<open>char\<close>s, UTF-8 strings) as its \<open>valid\<close> parameter;
  \<open>total_wire\<close> adds that decoding arbitrary bytes always returns and stays inside the buffers.
\<close>

section \<open>Errors and cursors\<close>

datatype wire_error =
    UnexpectedEof
  | Utf8
  | InvalidChar u32
  | InvalidTag byte
  | InvalidBool byte
  | CrcMismatch u32 u32 \<comment> \<open>stored, computed\<close>

type_synonym 'a wres = "(wire_error, 'a) res"

record cursor =
  buf :: "byte list"
  pos :: nat

definition cursor_new :: "byte list \<Rightarrow> cursor" where
  "cursor_new bs = \<lparr>buf = bs, pos = 0\<rparr>"

definition remaining :: "cursor \<Rightarrow> nat" where
  "remaining c = length (buf c) - pos c"

definition cursor_take :: "nat \<Rightarrow> cursor \<Rightarrow> (byte list \<times> cursor) wres" where
  "cursor_take n c =
     (if remaining c < n then Err UnexpectedEof
      else Ok (take n (drop (pos c) (buf c)), c\<lparr>pos := pos c + n\<rparr>))"

definition cursor_u8 :: "cursor \<Rightarrow> (byte \<times> cursor) wres" where
  "cursor_u8 c = try_then (cursor_take 1 c) (\<lambda>(s, c'). Ok (s ! 0, c'))"

definition cursor_u32 :: "cursor \<Rightarrow> (u32 \<times> cursor) wres" where
  "cursor_u32 c = try_then (cursor_take 4 c) (\<lambda>(s, c'). Ok (from_le_bytes s, c'))"

section \<open>The trait\<close>

record 'a wire =
  STACK_SIZE :: nat
  heap_size :: "'a \<Rightarrow> nat"
  encode_stack :: "'a \<Rightarrow> byte list"
  encode_heap :: "'a \<Rightarrow> byte list"
  decode :: "cursor \<Rightarrow> cursor \<Rightarrow> ('a \<times> cursor \<times> cursor) wres"

definition to_wire :: "'a wire \<Rightarrow> 'a \<Rightarrow> byte list" where
  "to_wire W v = encode_stack W v @ encode_heap W v"

definition to_wire_pair :: "'a wire \<Rightarrow> 'b wire \<Rightarrow> 'a \<Rightarrow> 'b \<Rightarrow> byte list" where
  "to_wire_pair A B a b = encode_stack A a @ encode_stack B b @ encode_heap A a @ encode_heap B b"

definition from_wire :: "'a wire \<Rightarrow> byte list \<Rightarrow> 'a wres" where
  "from_wire W bs =
     (if length bs < STACK_SIZE W then Err UnexpectedEof
      else try_then (decode W (cursor_new (take (STACK_SIZE W) bs)) (cursor_new (drop (STACK_SIZE W) bs)))
             (\<lambda>(v, _). Ok v))"

text \<open>\<open>crc32fast::hash\<close> is a third-party function: a parameter of the checked form.\<close>

definition CRC_PREFIX_LEN :: nat where
  "CRC_PREFIX_LEN = 4"

definition to_wire_checked :: "(byte list \<Rightarrow> u32) \<Rightarrow> 'a wire \<Rightarrow> 'a \<Rightarrow> byte list" where
  "to_wire_checked crc32 W v =
     (let payload = encode_stack W v @ encode_heap W v
      in to_le_bytes CRC_PREFIX_LEN (crc32 payload) @ payload)"

definition from_wire_checked :: "(byte list \<Rightarrow> u32) \<Rightarrow> 'a wire \<Rightarrow> byte list \<Rightarrow> 'a wres" where
  "from_wire_checked crc32 W bs =
     (if length bs < CRC_PREFIX_LEN then Err UnexpectedEof
      else let stored = from_le_bytes (take CRC_PREFIX_LEN bs);
               payload = drop CRC_PREFIX_LEN bs;
               computed = crc32 payload
           in if stored \<noteq> computed then Err (CrcMismatch stored computed)
              else from_wire W payload)"

section \<open>Implementations for the standard types\<close>

subsection \<open>Scalars\<close>

text \<open>
  \<open>wire_le!\<close>: unsigned and signed integers and floats all store their little-endian bytes; a
  signed integer or a float is its bit pattern.
\<close>

definition wire_le :: "nat \<Rightarrow> 'a::len word wire" where
  "wire_le n = \<lparr>
     STACK_SIZE = n,
     heap_size = (\<lambda>_. 0),
     encode_stack = (\<lambda>v. to_le_bytes n v),
     encode_heap = (\<lambda>_. []),
     decode = (\<lambda>sc hc. try_then (cursor_take n sc) (\<lambda>(s, sc'). Ok (from_le_bytes s, sc', hc)))\<rparr>"

abbreviation wire_u8 :: "byte wire" where "wire_u8 \<equiv> wire_le 1"
abbreviation wire_u16 :: "u16 wire" where "wire_u16 \<equiv> wire_le 2"
abbreviation wire_u32 :: "u32 wire" where "wire_u32 \<equiv> wire_le 4"
abbreviation wire_u64 :: "u64 wire" where "wire_u64 \<equiv> wire_le 8"
abbreviation wire_u128 :: "u128 wire" where "wire_u128 \<equiv> wire_le 16"

definition wire_bool :: "bool wire" where
  "wire_bool = \<lparr>
     STACK_SIZE = 1,
     heap_size = (\<lambda>_. 0),
     encode_stack = (\<lambda>v. [if v then 1 else 0]),
     encode_heap = (\<lambda>_. []),
     decode = (\<lambda>sc hc. try_then (cursor_u8 sc) (\<lambda>(b, sc').
        if b = 0 then Ok (False, sc', hc)
        else if b = 1 then Ok (True, sc', hc)
        else Err (InvalidBool b)))\<rparr>"

text \<open>A Rust \<open>char\<close> is a Unicode scalar value: the validity test of \<open>char::from_u32\<close>.\<close>

definition is_scalar :: "u32 \<Rightarrow> bool" where
  "is_scalar c \<longleftrightarrow> c < 0xD800 \<or> 0xE000 \<le> c \<and> c \<le> 0x10FFFF"

definition wire_char :: "u32 wire" where
  "wire_char = \<lparr>
     STACK_SIZE = 4,
     heap_size = (\<lambda>_. 0),
     encode_stack = (\<lambda>v. to_le_bytes 4 v),
     encode_heap = (\<lambda>_. []),
     decode = (\<lambda>sc hc. try_then (cursor_u32 sc) (\<lambda>(scalar, sc').
        if is_scalar scalar then Ok (scalar, sc', hc) else Err (InvalidChar scalar)))\<rparr>"

subsection \<open>Strings\<close>

text \<open>
  A Rust \<open>String\<close> is its UTF-8 bytes.  \<open>utf8_valid\<close> is the acceptance test of
  \<open>String::from_utf8\<close>: the well-formed byte sequences of the Unicode standard (no overlong
  forms, no surrogates, nothing above U+10FFFF).
\<close>

abbreviation cont_byte :: "byte \<Rightarrow> bool" where
  "cont_byte b \<equiv> 0x80 \<le> b \<and> b \<le> 0xBF"

fun utf8_valid :: "byte list \<Rightarrow> bool" where
  "utf8_valid [] = True"
| "utf8_valid (b0 # r0) =
     (if b0 < 0x80 then utf8_valid r0
      else if 0xC2 \<le> b0 \<and> b0 \<le> 0xDF then
        (case r0 of b1 # r1 \<Rightarrow> cont_byte b1 \<and> utf8_valid r1 | _ \<Rightarrow> False)
      else if 0xE0 \<le> b0 \<and> b0 \<le> 0xEF then
        (case r0 of b1 # b2 # r2 \<Rightarrow>
            cont_byte b1 \<and> cont_byte b2 \<and> (b0 = 0xE0 \<longrightarrow> 0xA0 \<le> b1) \<and> (b0 = 0xED \<longrightarrow> b1 \<le> 0x9F)
            \<and> utf8_valid r2
         | _ \<Rightarrow> False)
      else if 0xF0 \<le> b0 \<and> b0 \<le> 0xF4 then
        (case r0 of b1 # b2 # b3 # r3 \<Rightarrow>
            cont_byte b1 \<and> cont_byte b2 \<and> cont_byte b3 \<and> (b0 = 0xF0 \<longrightarrow> 0x90 \<le> b1)
            \<and> (b0 = 0xF4 \<longrightarrow> b1 \<le> 0x8F) \<and> utf8_valid r3
         | _ \<Rightarrow> False)
      else False)"

definition wire_string :: "byte list wire" where
  "wire_string = \<lparr>
     STACK_SIZE = 4,
     heap_size = (\<lambda>s. length s),
     encode_stack = (\<lambda>s. to_le_bytes 4 (word_of_nat (length s) :: u32)),
     encode_heap = (\<lambda>s. s),
     decode = (\<lambda>sc hc. try_then (cursor_u32 sc) (\<lambda>(len, sc').
        try_then (cursor_take (unat len) hc) (\<lambda>(bytes, hc').
          if utf8_valid bytes then Ok (bytes, sc', hc') else Err Utf8)))\<rparr>"

subsection \<open>Vectors, options, arrays\<close>

text \<open>
  The element loop of \<open>Vec::decode\<close>.  An element of stack size 0 that reads no heap leaves
  \<open>cur\<close> where it was, so the loop need not end: \<open>None\<close>.
\<close>

partial_function (option) vec_decode_loop ::
    "'a wire \<Rightarrow> byte list \<Rightarrow> nat \<Rightarrow> 'a list \<Rightarrow> 'a list wres" where
  "vec_decode_loop W region cur out =
     (if cur < length region then
        (if length region < cur + STACK_SIZE W then Err UnexpectedEof
         else (case decode W (cursor_new (take (STACK_SIZE W) (drop cur region)))
                             (cursor_new (drop (cur + STACK_SIZE W) region)) of
             None \<Rightarrow> None
           | Some (Inl e) \<Rightarrow> Some (Inl e)
           | Some (Inr (v, _, eh)) \<Rightarrow>
               vec_decode_loop W region (cur + (STACK_SIZE W + pos eh)) (out @ [v])))
      else Ok out)"

text \<open>The same loop pass by pass, which tells a loop that goes on from one that stops: \<open>Running\<close> holds
  the loop's variables, \<open>Returned\<close> its result, and \<open>Stuck\<close> is an element whose decoder does not return.\<close>

datatype 'a loop_state = Running nat "'a list" | Returned "wire_error + 'a list" | Stuck

definition vec_decode_pass :: "'a wire \<Rightarrow> byte list \<Rightarrow> nat \<Rightarrow> 'a list \<Rightarrow> 'a loop_state" where
  "vec_decode_pass W region cur out =
     (if cur < length region then
        (if length region < cur + STACK_SIZE W then Returned (Inl UnexpectedEof)
         else (case decode W (cursor_new (take (STACK_SIZE W) (drop cur region)))
                             (cursor_new (drop (cur + STACK_SIZE W) region)) of
             None \<Rightarrow> Stuck
           | Some (Inl e) \<Rightarrow> Returned (Inl e)
           | Some (Inr (v, _, eh)) \<Rightarrow> Running (cur + (STACK_SIZE W + pos eh)) (out @ [v])))
      else Returned (Inr out))"

fun vec_decode_passes :: "'a wire \<Rightarrow> byte list \<Rightarrow> nat \<Rightarrow> nat \<Rightarrow> 'a list \<Rightarrow> 'a loop_state" where
  "vec_decode_passes W region 0 cur out = Running cur out"
| "vec_decode_passes W region (Suc k) cur out = (case vec_decode_pass W region cur out of
       Running cur' out' \<Rightarrow> vec_decode_passes W region k cur' out'
     | Returned r \<Rightarrow> Returned r
     | Stuck \<Rightarrow> Stuck)"

definition vec_heap_size :: "'a wire \<Rightarrow> 'a list \<Rightarrow> nat" where
  "vec_heap_size W vs = sum_list (map (\<lambda>e. STACK_SIZE W + heap_size W e) vs)"

definition wire_vec :: "'a wire \<Rightarrow> 'a list wire" where
  "wire_vec W = \<lparr>
     STACK_SIZE = 4,
     heap_size = vec_heap_size W,
     encode_stack = (\<lambda>vs. to_le_bytes 4 (word_of_nat (vec_heap_size W vs) :: u32)),
     encode_heap = (\<lambda>vs. concat (map (\<lambda>e. encode_stack W e @ encode_heap W e) vs)),
     decode = (\<lambda>sc hc. try_then (cursor_u32 sc) (\<lambda>(region_len, sc').
        try_then (cursor_take (unat region_len) hc) (\<lambda>(region, hc').
          try_then (vec_decode_loop W region 0 []) (\<lambda>out. Ok (out, sc', hc')))))\<rparr>"

definition wire_option :: "'a wire \<Rightarrow> 'a option wire" where
  "wire_option W = \<lparr>
     STACK_SIZE = 1,
     heap_size = (\<lambda>v. case v of None \<Rightarrow> 0 | Some x \<Rightarrow> STACK_SIZE W + heap_size W x),
     encode_stack = (\<lambda>v. [if v = None then 0 else 1]),
     encode_heap = (\<lambda>v. case v of None \<Rightarrow> [] | Some x \<Rightarrow> encode_stack W x @ encode_heap W x),
     decode = (\<lambda>sc hc. try_then (cursor_u8 sc) (\<lambda>(flag, sc').
        if flag = 0 then Ok (None, sc', hc)
        else try_then (cursor_take (STACK_SIZE W) hc) (\<lambda>(t_stack, hc').
          try_then (decode W (cursor_new t_stack) hc') (\<lambda>(x, _, hc''). Ok (Some x, sc', hc'')))))\<rparr>"

fun array_decode :: "'a wire \<Rightarrow> nat \<Rightarrow> cursor \<Rightarrow> cursor \<Rightarrow> ('a list \<times> cursor \<times> cursor) wres" where
  "array_decode W 0 sc hc = Ok ([], sc, hc)"
| "array_decode W (Suc n) sc hc =
     try_then (decode W sc hc) (\<lambda>(v, sc', hc').
       try_then (array_decode W n sc' hc') (\<lambda>(vs, sc'', hc''). Ok (v # vs, sc'', hc'')))"

definition wire_array :: "nat \<Rightarrow> 'a wire \<Rightarrow> 'a list wire" where
  "wire_array N W = \<lparr>
     STACK_SIZE = N * STACK_SIZE W,
     heap_size = (\<lambda>vs. sum_list (map (heap_size W) vs)),
     encode_stack = (\<lambda>vs. concat (map (encode_stack W) vs)),
     encode_heap = (\<lambda>vs. concat (map (encode_heap W) vs)),
     decode = array_decode W N\<rparr>"

subsection \<open>Unit, tuples, structs\<close>

definition wire_unit :: "unit wire" where
  "wire_unit = \<lparr>
     STACK_SIZE = 0, heap_size = (\<lambda>_. 0), encode_stack = (\<lambda>_. []), encode_heap = (\<lambda>_. []),
     decode = (\<lambda>sc hc. Ok ((), sc, hc))\<rparr>"

definition wire_tuple2 :: "'a wire \<Rightarrow> 'b wire \<Rightarrow> ('a \<times> 'b) wire" where
  "wire_tuple2 A B = \<lparr>
     STACK_SIZE = STACK_SIZE A + STACK_SIZE B,
     heap_size = (\<lambda>(a, b). heap_size A a + heap_size B b),
     encode_stack = (\<lambda>(a, b). encode_stack A a @ encode_stack B b),
     encode_heap = (\<lambda>(a, b). encode_heap A a @ encode_heap B b),
     decode = (\<lambda>sc hc. try_then (decode A sc hc) (\<lambda>(a, sc1, hc1).
        try_then (decode B sc1 hc1) (\<lambda>(b, sc2, hc2). Ok ((a, b), sc2, hc2))))\<rparr>"

definition wire_tuple3 :: "'a wire \<Rightarrow> 'b wire \<Rightarrow> 'c wire \<Rightarrow> ('a \<times> 'b \<times> 'c) wire" where
  "wire_tuple3 A B C = \<lparr>
     STACK_SIZE = STACK_SIZE A + STACK_SIZE B + STACK_SIZE C,
     heap_size = (\<lambda>(a, b, c). heap_size A a + heap_size B b + heap_size C c),
     encode_stack = (\<lambda>(a, b, c). encode_stack A a @ encode_stack B b @ encode_stack C c),
     encode_heap = (\<lambda>(a, b, c). encode_heap A a @ encode_heap B b @ encode_heap C c),
     decode = (\<lambda>sc hc. try_then (decode A sc hc) (\<lambda>(a, sc1, hc1).
        try_then (decode B sc1 hc1) (\<lambda>(b, sc2, hc2).
          try_then (decode C sc2 hc2) (\<lambda>(c, sc3, hc3). Ok ((a, b, c), sc3, hc3)))))\<rparr>"

definition wire_tuple4 ::
    "'a wire \<Rightarrow> 'b wire \<Rightarrow> 'c wire \<Rightarrow> 'd wire \<Rightarrow> ('a \<times> 'b \<times> 'c \<times> 'd) wire" where
  "wire_tuple4 A B C D = \<lparr>
     STACK_SIZE = STACK_SIZE A + STACK_SIZE B + STACK_SIZE C + STACK_SIZE D,
     heap_size = (\<lambda>(a, b, c, d). heap_size A a + heap_size B b + heap_size C c + heap_size D d),
     encode_stack = (\<lambda>(a, b, c, d).
        encode_stack A a @ encode_stack B b @ encode_stack C c @ encode_stack D d),
     encode_heap = (\<lambda>(a, b, c, d).
        encode_heap A a @ encode_heap B b @ encode_heap C c @ encode_heap D d),
     decode = (\<lambda>sc hc. try_then (decode A sc hc) (\<lambda>(a, sc1, hc1).
        try_then (decode B sc1 hc1) (\<lambda>(b, sc2, hc2).
          try_then (decode C sc2 hc2) (\<lambda>(c, sc3, hc3).
            try_then (decode D sc3 hc3) (\<lambda>(d, sc4, hc4). Ok ((a, b, c, d), sc4, hc4))))))\<rparr>"

text \<open>
  \<open>#[derive(WaveWire)]\<close> on a struct: the fields, in declaration order, as a flattened tuple;
  \<open>parts\<close> takes the struct apart and \<open>build\<close> puts it together.
\<close>

definition wire_struct :: "('s \<Rightarrow> 'f) \<Rightarrow> ('f \<Rightarrow> 's) \<Rightarrow> 'f wire \<Rightarrow> 's wire" where
  "wire_struct parts build F = \<lparr>
     STACK_SIZE = STACK_SIZE F,
     heap_size = heap_size F \<circ> parts,
     encode_stack = encode_stack F \<circ> parts,
     encode_heap = encode_heap F \<circ> parts,
     decode = (\<lambda>sc hc. try_then (decode F sc hc) (\<lambda>(f, sc', hc'). Ok (build f, sc', hc')))\<rparr>"

subsection \<open>Enums\<close>

text \<open>
  \<open>#[derive(WaveWire)]\<close> on an enum whose variants carry fields.  \<open>sel v\<close> is the generated
  match on the value: its tag, the size of its payload and the payload bytes; \<open>arms\<close> are the
  decode arms in declaration order, each reading the payload slice.  \<open>field_sel\<close> and
  \<open>field_arm\<close> are what the macro emits for a variant with fields, over the flattened tuple of
  its field types; \<open>unit_sel\<close> and \<open>unit_arm\<close> for a unit variant.
\<close>

definition unit_sel :: "byte \<Rightarrow> byte \<times> nat \<times> byte list" where
  "unit_sel tag = (tag, 0, [])"

definition field_sel :: "byte \<Rightarrow> 'f wire \<Rightarrow> 'f \<Rightarrow> byte \<times> nat \<times> byte list" where
  "field_sel tag F f = (tag, STACK_SIZE F + heap_size F f, encode_stack F f @ encode_heap F f)"

definition unit_arm :: "'a \<Rightarrow> byte list \<Rightarrow> 'a wres" where
  "unit_arm v payload = Ok v"

definition field_arm :: "'f wire \<Rightarrow> ('f \<Rightarrow> 'a) \<Rightarrow> byte list \<Rightarrow> 'a wres" where
  "field_arm F build payload =
     (if length payload < STACK_SIZE F then Err UnexpectedEof
      else try_then (decode F (cursor_new (take (STACK_SIZE F) payload))
                              (cursor_new (drop (STACK_SIZE F) payload)))
             (\<lambda>(f, _). Ok (build f)))"

definition wire_enum ::
    "('a \<Rightarrow> byte \<times> nat \<times> byte list) \<Rightarrow> (byte list \<Rightarrow> 'a wres) list \<Rightarrow> 'a wire" where
  "wire_enum sel arms = \<lparr>
     STACK_SIZE = 1 + 4,
     heap_size = (\<lambda>v. fst (snd (sel v))),
     encode_stack = (\<lambda>v. fst (sel v) # to_le_bytes 4 (word_of_nat (fst (snd (sel v))) :: u32)),
     encode_heap = (\<lambda>v. snd (snd (sel v))),
     decode = (\<lambda>sc hc. try_then (cursor_u8 sc) (\<lambda>(tag, sc').
        try_then (cursor_u32 sc') (\<lambda>(payload_len, sc'').
          try_then (cursor_take (unat payload_len) hc) (\<lambda>(payload, hc').
            if unat tag < length arms
            then try_then ((arms ! unat tag) payload) (\<lambda>v. Ok (v, sc'', hc'))
            else Err (InvalidTag tag)))))\<rparr>"

text \<open>An enum whose variants are all field-less: one tag byte.\<close>

definition wire_tag_enum :: "('a \<Rightarrow> byte) \<Rightarrow> 'a list \<Rightarrow> 'a wire" where
  "wire_tag_enum tag_of variants = \<lparr>
     STACK_SIZE = 1,
     heap_size = (\<lambda>_. 0),
     encode_stack = (\<lambda>v. [tag_of v]),
     encode_heap = (\<lambda>_. []),
     decode = (\<lambda>sc hc. try_then (cursor_u8 sc) (\<lambda>(tag, sc').
        if unat tag < length variants then Ok (variants ! unat tag, sc', hc)
        else Err (InvalidTag tag)))\<rparr>"

lemmas [wire_simps] = wire_le_def wire_bool_def wire_char_def wire_string_def wire_vec_def
  wire_option_def wire_array_def wire_unit_def wire_tuple2_def wire_tuple3_def wire_tuple4_def
  wire_struct_def wire_enum_def wire_tag_enum_def

text \<open>Sizes and bytes of a composite value, in terms of its parts.\<close>

lemma wire_size_simps [simp]:
  "STACK_SIZE (wire_le n) = n" "heap_size (wire_le n) w = 0"
  "STACK_SIZE (wire_vec W) = 4" "heap_size (wire_vec W) vs = vec_heap_size W vs"
  "STACK_SIZE (wire_option W) = 1" "heap_size (wire_option W) None = 0"
  "heap_size (wire_option W) (Some v) = STACK_SIZE W + heap_size W v"
  "STACK_SIZE (wire_tuple2 A B) = STACK_SIZE A + STACK_SIZE B"
  "heap_size (wire_tuple2 A B) (a, b) = heap_size A a + heap_size B b"
  "STACK_SIZE (wire_tuple3 A B C) = STACK_SIZE A + STACK_SIZE B + STACK_SIZE C"
  "heap_size (wire_tuple3 A B C) (a, b, c) = heap_size A a + heap_size B b + heap_size C c"
  "STACK_SIZE (wire_struct parts build F) = STACK_SIZE F"
  "heap_size (wire_struct parts build F) s = heap_size F (parts s)"
  "STACK_SIZE (wire_enum sel arms) = 5" "heap_size (wire_enum sel arms) v = fst (snd (sel v))"
  "STACK_SIZE wire_bool = 1" "heap_size wire_bool f = 0"
  by (simp_all add: wire_simps)

section \<open>Cursor lemmas\<close>

text \<open>\<open>at_cursor c bs\<close>: the next bytes under the cursor are \<open>bs\<close>.\<close>

definition at_cursor :: "cursor \<Rightarrow> byte list \<Rightarrow> bool" where
  "at_cursor c bs \<longleftrightarrow> pos c \<le> length (buf c) \<and> prefix bs (drop (pos c) (buf c))"

definition advance :: "nat \<Rightarrow> cursor \<Rightarrow> cursor" where
  "advance n c = c\<lparr>pos := pos c + n\<rparr>"

definition wf_cursor :: "cursor \<Rightarrow> bool" where
  "wf_cursor c \<longleftrightarrow> pos c \<le> length (buf c)"

text \<open>\<open>moved c c'\<close>: the cursor went forward inside the same buffer.\<close>

definition moved :: "cursor \<Rightarrow> cursor \<Rightarrow> bool" where
  "moved c c' \<longleftrightarrow> buf c' = buf c \<and> pos c \<le> pos c' \<and> pos c' \<le> length (buf c)"

lemma advance_simps [simp, cursor_simps]:
  "advance 0 c = c" "advance m (advance n c) = advance (n + m) c"
  "pos (advance n c) = pos c + n" "buf (advance n c) = buf c"
  by (simp_all add: advance_def)

lemma at_cursor_new [simp]: "at_cursor (cursor_new bs) xs \<longleftrightarrow> prefix xs bs"
  by (simp add: at_cursor_def cursor_new_def)

lemma pos_cursor_new [simp]: "pos (cursor_new bs) = 0" and buf_cursor_new [simp]: "buf (cursor_new bs) = bs"
  by (simp_all add: cursor_new_def)

lemma wf_cursor_new [simp]: "wf_cursor (cursor_new bs)"
  by (simp add: wf_cursor_def)

lemma at_cursor_append [simp]:
  "at_cursor c (xs @ ys) \<longleftrightarrow> at_cursor c xs \<and> at_cursor (advance (length xs) c) ys"
proof -
  have "prefix (xs @ ys) zs \<longleftrightarrow> prefix xs zs \<and> prefix ys (drop (length xs) zs)" for zs
    by (auto simp: prefix_def)
  then show ?thesis
    by (auto simp: at_cursor_def add.commute dest: prefix_length_le)
qed

lemma at_cursor_Nil [simp]: "at_cursor c [] \<longleftrightarrow> wf_cursor c"
  by (simp add: at_cursor_def wf_cursor_def)

lemma at_cursor_Cons: "at_cursor c (x # xs) \<longleftrightarrow> at_cursor c [x] \<and> at_cursor (advance 1 c) xs"
  using at_cursor_append [of c "[x]" xs] by simp

lemma at_cursor_wf: "at_cursor c bs \<Longrightarrow> wf_cursor c"
  by (simp add: at_cursor_def wf_cursor_def)

lemma cursor_take_at [cursor_simps]:
  "at_cursor c bs \<Longrightarrow> length bs = n \<Longrightarrow> cursor_take n c = Ok (bs, advance n c)"
  by (auto simp: at_cursor_def cursor_take_def remaining_def advance_def prefix_def
      dest: arg_cong [where f = length])

lemma cursor_u8_at [cursor_simps]: "at_cursor c [b] \<Longrightarrow> cursor_u8 c = Ok (b, advance 1 c)"
  by (simp add: cursor_u8_def cursor_take_at)

lemma cursor_u32_at [cursor_simps]:
  "at_cursor c (to_le_bytes 4 w) \<Longrightarrow> cursor_u32 c = Ok (w, advance 4 c)"
  by (simp add: cursor_u32_def cursor_take_at)

lemma cursor_take_returns [simp]: "returns (cursor_take n c)"
  by (simp add: cursor_take_def)

lemma cursor_take_moved:
  "cursor_take n c = Ok (s, c') \<Longrightarrow> wf_cursor c \<Longrightarrow> moved c c' \<and> length s = n \<and> pos c' = pos c + n"
  by (auto simp: cursor_take_def moved_def remaining_def wf_cursor_def split: if_splits)

lemma cursor_u8_returns [simp]: "returns (cursor_u8 c)"
  by (auto simp: cursor_u8_def)

lemma cursor_u32_returns [simp]: "returns (cursor_u32 c)"
  by (auto simp: cursor_u32_def)

lemma cursor_u8_moved: "cursor_u8 c = Ok (b, c') \<Longrightarrow> wf_cursor c \<Longrightarrow> moved c c'"
  by (auto simp: cursor_u8_def try_then_Ok_iff dest!: cursor_take_moved)

lemma cursor_u32_moved: "cursor_u32 c = Ok (w, c') \<Longrightarrow> wf_cursor c \<Longrightarrow> moved c c'"
  by (auto simp: cursor_u32_def try_then_Ok_iff dest!: cursor_take_moved)

lemma moved_wf: "moved c c' \<Longrightarrow> wf_cursor c'"
  by (simp add: moved_def wf_cursor_def)

lemma moved_refl: "wf_cursor c \<Longrightarrow> moved c c"
  by (simp add: moved_def wf_cursor_def)

lemma moved_trans: "moved a b \<Longrightarrow> moved b c \<Longrightarrow> moved a c"
  by (simp add: moved_def)

lemmas moved_intros = moved_refl moved_trans

end
