(* ===== verification/Wire_Laws.thy ===== *)
theory Wire_Laws
  imports Wire
begin

text \<open>
  The contract of \<open>WaveWire\<close> and the proof that every implementation of the codec meets it.

  \<open>wave_wire W valid\<close>: on the values \<open>valid\<close> admits, encoding writes exactly \<open>STACK_SIZE\<close>
  and \<open>heap_size\<close> bytes and decoding them, wherever they stand under the two cursors, gives
  the value back and consumes exactly those bytes.  \<open>total_wire W\<close>: on arbitrary bytes, decoding
  returns, and moves both cursors forward inside their buffers.
\<close>

section \<open>The contract\<close>

locale wave_wire =
  fixes W :: "'a wire" and valid :: "'a \<Rightarrow> bool"
  assumes stack_length: "valid v \<Longrightarrow> length (encode_stack W v) = STACK_SIZE W"
    and heap_length: "valid v \<Longrightarrow> length (encode_heap W v) = heap_size W v"
    and decode_encode:
      "valid v \<Longrightarrow> at_cursor sc (encode_stack W v) \<Longrightarrow> at_cursor hc (encode_heap W v) \<Longrightarrow>
       decode W sc hc = Ok (v, advance (STACK_SIZE W) sc, advance (heap_size W v) hc)"
begin

lemma to_wire_length: "valid v \<Longrightarrow> length (to_wire W v) = STACK_SIZE W + heap_size W v"
  by (simp add: to_wire_def stack_length heap_length)

lemma from_wire_to_wire_append: "valid v \<Longrightarrow> from_wire W (to_wire W v @ rest) = Ok v"
  by (simp add: from_wire_def to_wire_def stack_length decode_encode)

lemma from_wire_to_wire: "valid v \<Longrightarrow> from_wire W (to_wire W v) = Ok v"
  using from_wire_to_wire_append [of v "[]"] by simp

lemma to_wire_inj: "valid v \<Longrightarrow> valid w \<Longrightarrow> to_wire W v = to_wire W w \<Longrightarrow> v = w"
  by (metis Inr_inject from_wire_to_wire option.inject)

lemma checked_roundtrip: "valid v \<Longrightarrow> from_wire_checked crc W (to_wire_checked crc W v) = Ok v"
  using from_wire_to_wire [of v]
  by (simp add: from_wire_checked_def to_wire_checked_def CRC_PREFIX_LEN_def Let_def to_wire_def)

lemma decode_unit_slices:
  "valid v \<Longrightarrow> decode W (cursor_new (encode_stack W v)) (cursor_new (encode_heap W v @ rest)) =
     Ok (v, advance (STACK_SIZE W) (cursor_new (encode_stack W v)),
            advance (heap_size W v) (cursor_new (encode_heap W v @ rest)))"
  by (simp add: decode_encode)

end

locale total_wire =
  fixes W :: "'a wire"
  assumes decode_returns: "wf_cursor sc \<Longrightarrow> wf_cursor hc \<Longrightarrow> returns (decode W sc hc)"
    and decode_moves: "decode W sc hc = Ok (v, sc', hc') \<Longrightarrow> wf_cursor sc \<Longrightarrow> wf_cursor hc \<Longrightarrow>
       moved sc sc' \<and> moved hc hc'"
begin

lemma from_wire_returns: "returns (from_wire W bs)"
  by (auto simp: from_wire_def decode_returns)

lemma from_wire_checked_returns: "returns (from_wire_checked crc W bs)"
  by (simp add: from_wire_checked_def Let_def from_wire_returns)

end

section \<open>Scalars, \<open>bool\<close>, \<open>char\<close>, \<open>String\<close>, the unit type\<close>

lemma wire_le_ok:
  assumes "LENGTH('a::len) \<le> 8 * n"
  shows "wave_wire (wire_le n :: 'a word wire) (\<lambda>_. True)"
  using assms by unfold_locales (auto simp: wire_simps cursor_take_at from_le_to_le)

lemma wire_le_total: "total_wire (wire_le n :: 'a::len word wire)"
  by unfold_locales
    (auto simp: wire_simps try_then_Ok_iff moved_refl dest!: cursor_take_moved)

interpretation wu8: wave_wire wire_u8 "\<lambda>_. True" by (rule wire_le_ok) simp
interpretation wu16: wave_wire wire_u16 "\<lambda>_. True" by (rule wire_le_ok) simp
interpretation wu32: wave_wire wire_u32 "\<lambda>_. True" by (rule wire_le_ok) simp
interpretation wu64: wave_wire wire_u64 "\<lambda>_. True" by (rule wire_le_ok) simp
interpretation wu128: wave_wire wire_u128 "\<lambda>_. True" by (rule wire_le_ok) simp
interpretation wu64t: total_wire wire_u64 by (rule wire_le_total)

interpretation wbool: wave_wire wire_bool "\<lambda>_. True"
  by unfold_locales (auto simp: wire_simps cursor_u8_at)

interpretation wboolt: total_wire wire_bool
  by unfold_locales (auto simp: wire_simps try_then_Ok_iff moved_refl
      split: if_splits dest!: cursor_u8_moved)

interpretation wchar: wave_wire wire_char is_scalar
  by unfold_locales (auto simp: wire_simps cursor_u32_at)

interpretation wchart: total_wire wire_char
  by unfold_locales (auto simp: wire_simps try_then_Ok_iff moved_refl
      split: if_splits dest!: cursor_u32_moved)

definition valid_string :: "byte list \<Rightarrow> bool" where
  "valid_string s \<longleftrightarrow> utf8_valid s \<and> length s < 2 ^ 32"

lemma unat_word_of_nat_32 [simp]: "n < 2 ^ 32 \<Longrightarrow> unat (word_of_nat n :: u32) = n"
  by (simp add: unat_of_nat)

interpretation wstring: wave_wire wire_string valid_string
  by unfold_locales (auto simp: wire_simps valid_string_def cursor_u32_at cursor_take_at)

interpretation wstringt: total_wire wire_string
  by unfold_locales (auto simp: wire_simps try_then_Ok_iff
      split: if_splits dest!: cursor_u32_moved cursor_take_moved)

interpretation wunit: wave_wire wire_unit "\<lambda>_. True"
  by unfold_locales (auto simp: wire_simps)

interpretation wunitt: total_wire wire_unit
  by unfold_locales (auto simp: wire_simps moved_refl)

section \<open>Tuples and structs\<close>

lemma wire_tuple2_ok:
  assumes "wave_wire A va" and "wave_wire B vb"
  shows "wave_wire (wire_tuple2 A B) (\<lambda>(a, b). va a \<and> vb b)"
proof -
  note A = wave_wire.stack_length [OF assms(1)] wave_wire.heap_length [OF assms(1)]
    wave_wire.decode_encode [OF assms(1)]
  note B = wave_wire.stack_length [OF assms(2)] wave_wire.heap_length [OF assms(2)]
    wave_wire.decode_encode [OF assms(2)]
  show ?thesis
    by unfold_locales (auto simp: wire_tuple2_def A B)
qed

lemma wire_tuple2_total:
  assumes "total_wire A" and "total_wire B"
  shows "total_wire (wire_tuple2 A B)"
proof
  fix sc hc assume wf: "wf_cursor sc" "wf_cursor hc"
  have "returns (decode B sc1 hc1)" if "decode A sc hc = Ok (a, sc1, hc1)" for a sc1 hc1
    using total_wire.decode_moves [OF assms(1) that wf] total_wire.decode_returns [OF assms(2)]
    by (blast dest: moved_wf)
  then show "returns (decode (wire_tuple2 A B) sc hc)"
    using wf by (auto simp: wire_tuple2_def total_wire.decode_returns [OF assms(1)])
next
  fix sc hc v sc' hc'
  assume ok: "decode (wire_tuple2 A B) sc hc = Ok (v, sc', hc')" and wf: "wf_cursor sc" "wf_cursor hc"
  from ok obtain a sc1 hc1 b where d: "decode A sc hc = Ok (a, sc1, hc1)"
    "decode B sc1 hc1 = Ok (b, sc', hc')"
    by (auto simp: wire_tuple2_def try_then_Ok_iff)
  have m1: "moved sc sc1 \<and> moved hc hc1" by (rule total_wire.decode_moves [OF assms(1) d(1) wf])
  have m2: "moved sc1 sc' \<and> moved hc1 hc'"
    using total_wire.decode_moves [OF assms(2) d(2)] m1 moved_wf by blast
  from m1 m2 show "moved sc sc' \<and> moved hc hc'" by (blast intro: moved_trans)
qed

lemma wire_ext:
  assumes "STACK_SIZE A = STACK_SIZE B" "heap_size A = heap_size B"
    "encode_stack A = encode_stack B" "encode_heap A = encode_heap B" "decode A = decode B"
  shows "(A :: 'a wire) = B"
  using assms by (simp add: wire.equality)

text \<open>The macro's flat tuples are nested pairs: same bytes, same reads.\<close>

lemma wire_tuple3_nested: "wire_tuple3 A B C = wire_tuple2 A (wire_tuple2 B C)"
  by (rule wire_ext)
    (auto simp: wire_tuple3_def wire_tuple2_def fun_eq_iff try_then_def
      split: option.splits sum.splits)

lemma wire_tuple4_nested: "wire_tuple4 A B C D = wire_tuple2 A (wire_tuple3 B C D)"
  by (rule wire_ext)
    (auto simp: wire_tuple4_def wire_tuple3_def wire_tuple2_def fun_eq_iff try_then_def
      split: option.splits sum.splits)

lemma wire_tuple3_ok:
  "wave_wire A va \<Longrightarrow> wave_wire B vb \<Longrightarrow> wave_wire C vc \<Longrightarrow>
   wave_wire (wire_tuple3 A B C) (\<lambda>(a, b, c). va a \<and> vb b \<and> vc c)"
  unfolding wire_tuple3_nested
  using wire_tuple2_ok [of A va "wire_tuple2 B C" "\<lambda>(b, c). vb b \<and> vc c"] wire_tuple2_ok [of B vb C vc]
  by (simp add: case_prod_unfold)

lemma wire_tuple4_ok:
  "wave_wire A va \<Longrightarrow> wave_wire B vb \<Longrightarrow> wave_wire C vc \<Longrightarrow> wave_wire D vd \<Longrightarrow>
   wave_wire (wire_tuple4 A B C D) (\<lambda>(a, b, c, d). va a \<and> vb b \<and> vc c \<and> vd d)"
  unfolding wire_tuple4_nested
  using wire_tuple2_ok [of A va "wire_tuple3 B C D" "\<lambda>(b, c, d). vb b \<and> vc c \<and> vd d"]
    wire_tuple3_ok [of B vb C vc D vd]
  by (simp add: case_prod_unfold)

lemma wire_struct_ok:
  assumes "wave_wire F vf" and "\<And>s. build (parts s) = s"
  shows "wave_wire (wire_struct parts build F) (\<lambda>s. vf (parts s))"
proof -
  note F = wave_wire.stack_length [OF assms(1)] wave_wire.heap_length [OF assms(1)]
    wave_wire.decode_encode [OF assms(1)]
  show ?thesis
    by unfold_locales (auto simp: wire_struct_def F assms(2))
qed

lemma wire_struct_total: "total_wire F \<Longrightarrow> total_wire (wire_struct parts build F)"
  unfolding total_wire_def
  by (intro conjI allI impI) (auto simp: wire_struct_def try_then_Ok_iff)

section \<open>Vectors\<close>

text \<open>Every encoded element takes at least one byte of the region.\<close>

definition nonempty_units :: "'a wire \<Rightarrow> ('a \<Rightarrow> bool) \<Rightarrow> bool" where
  "nonempty_units W valid \<longleftrightarrow> (\<forall>v. valid v \<longrightarrow> 0 < STACK_SIZE W + heap_size W v)"

definition valid_vec :: "'a wire \<Rightarrow> ('a \<Rightarrow> bool) \<Rightarrow> 'a list \<Rightarrow> bool" where
  "valid_vec W valid vs \<longleftrightarrow> list_all valid vs \<and> vec_heap_size W vs < 2 ^ 32"

lemma vec_heap_size_simps [simp]:
  "vec_heap_size W [] = 0"
  "vec_heap_size W (v # vs) = STACK_SIZE W + heap_size W v + vec_heap_size W vs"
  by (simp_all add: vec_heap_size_def)

lemma vec_heap_size_bound:
  assumes "\<And>v. v \<in> set vs \<Longrightarrow> STACK_SIZE W + heap_size W v \<le> b"
  shows "vec_heap_size W vs \<le> length vs * b"
proof -
  have "sum_list (map (\<lambda>e. STACK_SIZE W + heap_size W e) vs) \<le> sum_list (map (\<lambda>_. b) vs)"
    by (rule sum_list_mono) (use assms in auto)
  then show ?thesis by (simp add: vec_heap_size_def sum_list_triv)
qed

context wave_wire
begin

lemma vec_units_length:
  "list_all valid vs \<Longrightarrow>
   length (concat (map (\<lambda>e. encode_stack W e @ encode_heap W e) vs)) = vec_heap_size W vs"
  by (induction vs) (auto simp: stack_length heap_length)

lemma vec_loop_units:
  assumes "list_all valid vs" and "nonempty_units W valid"
    and "region = pre @ concat (map (\<lambda>e. encode_stack W e @ encode_heap W e) vs)"
  shows "vec_decode_loop W region (length pre) out = Ok (out @ vs)"
  using assms
proof (induction vs arbitrary: pre out)
  case Nil
  then show ?case by (simp add: vec_decode_loop.simps)
next
  case (Cons v vs)
  let ?units = "concat (map (\<lambda>e. encode_stack W e @ encode_heap W e) vs)"
  have v: "valid v" using Cons.prems by simp
  have lens: "length (encode_stack W v) = STACK_SIZE W" "length (encode_heap W v) = heap_size W v"
    using v by (simp_all add: stack_length heap_length)
  have pos: "0 < STACK_SIZE W + heap_size W v"
    using Cons.prems(2) v by (simp add: nonempty_units_def)
  have more: "length pre < length region" and fits: "length pre + STACK_SIZE W \<le> length region"
    using pos lens Cons.prems(3) by auto
  have dec: "decode W (cursor_new (take (STACK_SIZE W) (drop (length pre) region)))
      (cursor_new (drop (length pre + STACK_SIZE W) region))
    = Ok (v, advance (STACK_SIZE W) (cursor_new (encode_stack W v)),
             advance (heap_size W v) (cursor_new (encode_heap W v @ ?units)))"
    using v lens Cons.prems(3) by (simp add: decode_unit_slices)
  have "vec_decode_loop W region (length pre) out =
      vec_decode_loop W region (length pre + (STACK_SIZE W + heap_size W v)) (out @ [v])"
    using lens more fits by (subst vec_decode_loop.simps) (simp add: dec)
  also have "\<dots> = vec_decode_loop W region
      (length (pre @ encode_stack W v @ encode_heap W v)) (out @ [v])"
    by (simp add: lens)
  also have "\<dots> = Ok ((out @ [v]) @ vs)"
    by (rule Cons.IH) (use Cons.prems in auto)
  finally show ?case by simp
qed

lemma wire_vec_ok:
  assumes "nonempty_units W valid"
  shows "wave_wire (wire_vec W) (valid_vec W valid)"
proof
  fix vs assume "valid_vec W valid vs"
  then show "length (encode_heap (wire_vec W) vs) = heap_size (wire_vec W) vs"
    by (simp add: wire_vec_def valid_vec_def vec_units_length)
next
  fix vs sc hc
  assume v: "valid_vec W valid vs"
    and s: "at_cursor sc (encode_stack (wire_vec W) vs)" and h: "at_cursor hc (encode_heap (wire_vec W) vs)"
  let ?units = "concat (map (\<lambda>e. encode_stack W e @ encode_heap W e) vs)"
  have "vec_decode_loop W ?units 0 [] = Ok vs"
    using vec_loop_units [OF _ assms, of vs ?units "[]" "[]"] v by (simp add: valid_vec_def)
  then show "decode (wire_vec W) sc hc =
      Ok (vs, advance (STACK_SIZE (wire_vec W)) sc, advance (heap_size (wire_vec W) vs) hc)"
    using v s h by (simp add: wire_vec_def valid_vec_def cursor_u32_at cursor_take_at vec_units_length)
qed (simp add: wire_vec_def)

end

context total_wire
begin

text \<open>With a positive stack size the loop always ends: each round moves \<open>cur\<close> forward.\<close>

lemma vec_loop_returns:
  assumes "0 < STACK_SIZE W"
  shows "returns (vec_decode_loop W region cur out)"
proof (induction "length region - cur" arbitrary: cur out rule: less_induct)
  case less
  show ?case
  proof (cases "cur < length region \<and> cur + STACK_SIZE W \<le> length region")
    case True
    let ?d = "decode W (cursor_new (take (STACK_SIZE W) (drop cur region)))
        (cursor_new (drop (cur + STACK_SIZE W) region))"
    have "returns ?d" by (simp add: decode_returns)
    then consider e where "?d = Err e" | v es eh where "?d = Ok (v, es, eh)"
      by (metis obj_sumE option.exhaust prod_cases3 returns_def)
    then show ?thesis
    proof cases
      case 1
      with True show ?thesis by (subst vec_decode_loop.simps) simp
    next
      case 2
      have "returns (vec_decode_loop W region (cur + (STACK_SIZE W + pos eh)) (out @ [v]))"
        by (rule less) (use True assms in auto)
      with 2 True show ?thesis by (subst vec_decode_loop.simps) simp
    qed
  next
    case False
    then show ?thesis by (subst vec_decode_loop.simps) auto
  qed
qed

lemma wire_vec_total: "0 < STACK_SIZE W \<Longrightarrow> total_wire (wire_vec W)"
  by unfold_locales (auto simp: wire_vec_def try_then_Ok_iff vec_loop_returns
      dest!: cursor_u32_moved cursor_take_moved)

end

section \<open>Options and arrays\<close>

context wave_wire
begin

lemma wire_option_ok: "wave_wire (wire_option W) (\<lambda>v. case v of None \<Rightarrow> True | Some x \<Rightarrow> valid x)"
proof
  fix v sc hc
  assume v: "case v of None \<Rightarrow> True | Some x \<Rightarrow> valid x"
    and s: "at_cursor sc (encode_stack (wire_option W) v)"
    and h: "at_cursor hc (encode_heap (wire_option W) v)"
  show "decode (wire_option W) sc hc =
      Ok (v, advance (STACK_SIZE (wire_option W)) sc, advance (heap_size (wire_option W) v) hc)"
  proof (cases v)
    case None
    with s h show ?thesis by (simp add: wire_option_def cursor_u8_at)
  next
    case (Some x)
    have "decode W (cursor_new (encode_stack W x)) (advance (STACK_SIZE W) hc) =
        Ok (x, advance (STACK_SIZE W) (cursor_new (encode_stack W x)),
               advance (heap_size W x) (advance (STACK_SIZE W) hc))"
      using Some v h by (intro decode_encode) (auto simp: wire_option_def stack_length)
    moreover have "cursor_take (STACK_SIZE W) hc = Ok (encode_stack W x, advance (STACK_SIZE W) hc)"
      using Some v h by (intro cursor_take_at) (auto simp: wire_option_def stack_length)
    ultimately show ?thesis
      using Some s by (simp add: wire_option_def cursor_u8_at)
  qed
qed (auto simp: wire_option_def stack_length heap_length split: option.splits)

lemma array_decode_units:
  assumes "list_all valid vs" "at_cursor sc (concat (map (encode_stack W) vs))"
    and "at_cursor hc (concat (map (encode_heap W) vs))"
  shows "array_decode W (length vs) sc hc =
     Ok (vs, advance (length vs * STACK_SIZE W) sc, advance (sum_list (map (heap_size W) vs)) hc)"
  using assms
  by (induction vs arbitrary: sc hc) (auto simp: decode_encode stack_length heap_length)

lemma wire_array_ok: "wave_wire (wire_array N W) (\<lambda>vs. length vs = N \<and> list_all valid vs)"
proof
  fix vs assume "length vs = N \<and> list_all valid vs"
  then show "length (encode_stack (wire_array N W) vs) = STACK_SIZE (wire_array N W)"
    by (induction vs arbitrary: N) (auto simp: wire_array_def stack_length)
next
  fix vs assume "length vs = N \<and> list_all valid vs"
  then show "length (encode_heap (wire_array N W) vs) = heap_size (wire_array N W) vs"
    by (induction vs arbitrary: N) (auto simp: wire_array_def heap_length)
next
  fix vs sc hc
  assume "length vs = N \<and> list_all valid vs"
    "at_cursor sc (encode_stack (wire_array N W) vs)" "at_cursor hc (encode_heap (wire_array N W) vs)"
  then show "decode (wire_array N W) sc hc =
      Ok (vs, advance (STACK_SIZE (wire_array N W)) sc, advance (heap_size (wire_array N W) vs) hc)"
    using array_decode_units [of vs sc hc] by (auto simp: wire_array_def)
qed

end

lemma wire_option_total:
  assumes "total_wire W"
  shows "total_wire (wire_option W)"
proof
  fix sc hc assume wf: "wf_cursor sc" "wf_cursor hc"
  then show "returns (decode (wire_option W) sc hc)"
    by (auto simp: wire_option_def dest!: cursor_take_moved moved_wf
        intro: total_wire.decode_returns [OF assms])
next
  fix sc hc v sc' hc'
  assume ok: "decode (wire_option W) sc hc = Ok (v, sc', hc')" and wf: "wf_cursor sc" "wf_cursor hc"
  then show "moved sc sc' \<and> moved hc hc'"
    by (auto simp: wire_option_def try_then_Ok_iff moved_refl split: if_splits
        dest!: cursor_u8_moved cursor_take_moved)
      (meson assms moved_trans moved_wf total_wire.decode_moves wf_cursor_new)
qed

section \<open>Enums\<close>

text \<open>What the derive establishes of a value: its tag names its own arm, and the arm reads its
  payload back.\<close>

definition arm_reads_back ::
    "('a \<Rightarrow> byte \<times> nat \<times> byte list) \<Rightarrow> (byte list \<Rightarrow> 'a wres) list \<Rightarrow> 'a \<Rightarrow> bool" where
  "arm_reads_back sel arms v \<longleftrightarrow> (case sel v of (tag, n, payload) \<Rightarrow>
     unat tag < length arms \<and> length payload = n \<and> n < 2 ^ 32 \<and> (arms ! unat tag) payload = Ok v)"

lemma wire_enum_ok: "wave_wire (wire_enum sel arms) (arm_reads_back sel arms)"
proof
  fix v assume "arm_reads_back sel arms v"
  then show "length (encode_heap (wire_enum sel arms) v) = heap_size (wire_enum sel arms) v"
    by (auto simp: wire_enum_def arm_reads_back_def)
next
  fix v sc hc
  assume v: "arm_reads_back sel arms v"
    and s: "at_cursor sc (encode_stack (wire_enum sel arms) v)"
    and h: "at_cursor hc (encode_heap (wire_enum sel arms) v)"
  obtain tag n payload where sel: "sel v = (tag, n, payload)" by (cases "sel v")
  from s sel have "at_cursor sc [tag]" "at_cursor (advance 1 sc) (to_le_bytes 4 (word_of_nat n :: u32))"
    by (simp_all add: wire_enum_def at_cursor_Cons [of sc tag "to_le_bytes 4 (word_of_nat n :: u32)"])
  with v h sel show "decode (wire_enum sel arms) sc hc =
      Ok (v, advance (STACK_SIZE (wire_enum sel arms)) sc,
          advance (heap_size (wire_enum sel arms) v) hc)"
    by (simp add: wire_enum_def arm_reads_back_def cursor_u8_at cursor_u32_at cursor_take_at)
qed (simp add: wire_enum_def)

context wave_wire
begin

lemma field_arm_reads_back:
  assumes "valid f"
  shows "field_arm W build (encode_stack W f @ encode_heap W f) = Ok (build f)"
  using assms decode_unit_slices [of f "[]"] by (simp add: field_arm_def stack_length)

lemma field_sel_length:
  "valid f \<Longrightarrow> length (snd (snd (field_sel tag W f))) = fst (snd (field_sel tag W f))"
  by (simp add: field_sel_def stack_length heap_length)

end

lemma field_arm_returns: "total_wire F \<Longrightarrow> returns (field_arm F build payload)"
  by (auto simp: field_arm_def total_wire.decode_returns)

lemma unit_arm_returns: "returns (unit_arm v payload)"
  by (simp add: unit_arm_def)

lemma wire_enum_total:
  assumes "\<And>arm payload. arm \<in> set arms \<Longrightarrow> returns (arm payload)"
  shows "total_wire (wire_enum sel arms)"
proof
  fix sc hc
  show "returns (decode (wire_enum sel arms) sc hc)"
    using assms by (auto simp: wire_enum_def)
next
  fix sc hc v sc' hc'
  assume "decode (wire_enum sel arms) sc hc = Ok (v, sc', hc')" "wf_cursor sc" "wf_cursor hc"
  then show "moved sc sc' \<and> moved hc hc'"
    by (auto simp: wire_enum_def try_then_Ok_iff split: if_splits
        dest!: cursor_u8_moved cursor_u32_moved cursor_take_moved)
      (metis moved_trans moved_wf)+
qed


section \<open>Properties\<close>

text \<open>C29: A vector of any well-behaved element type reads back element for element, and its image
  has exactly the announced length, provided its byte region fits the \<open>u32\<close> length slot and every
  element takes at least one byte.\<close>

theorem vec_roundtrip:
  assumes "wave_wire W valid" "nonempty_units W valid" "valid_vec W valid vs"
  shows "from_wire (wire_vec W) (to_wire (wire_vec W) vs) = Ok vs
    \<and> length (to_wire (wire_vec W) vs) = 4 + vec_heap_size W vs"
  using wave_wire.from_wire_to_wire [OF wave_wire.wire_vec_ok [OF assms(1, 2)] assms(3)]
    wave_wire.to_wire_length [OF wave_wire.wire_vec_ok [OF assms(1, 2)] assms(3)]
  by simp_all

theorem vec_roundtrip_witness:
  "from_wire (wire_vec (wire_option wire_u16)) (to_wire (wire_vec (wire_option wire_u16)) [None, Some 7]) = Ok [None, Some 7]"
  by (rule vec_roundtrip [OF wu16.wire_option_ok, THEN conjunct1])
    (simp_all add: nonempty_units_def valid_vec_def)

text \<open>C30: Decoding a vector always returns (a value or an error) on arbitrary bytes when the element
  type's own decoder does and its stack size is positive.\<close>

theorem vec_decode_total:
  assumes "total_wire W" "0 < STACK_SIZE W"
  shows "returns (from_wire (wire_vec W) bs)"
  by (rule total_wire.from_wire_returns [OF total_wire.wire_vec_total [OF assms]])

theorem vec_decode_total_witness: "returns (from_wire (wire_vec wire_u16) [200, 0, 0, 0, 1, 2, 3])"
  by (rule vec_decode_total [OF wire_le_total]) simp

section \<open>Elements without bytes\<close>

text \<open>The loop returns exactly when some number of passes reaches its end, with the same result.\<close>

lemma vec_decode_loop_pass:
  "vec_decode_loop W region cur out = (case vec_decode_pass W region cur out of
       Running cur' out' \<Rightarrow> vec_decode_loop W region cur' out' | Returned r \<Rightarrow> Some r | Stuck \<Rightarrow> None)"
  by (subst vec_decode_loop.simps) (auto simp: vec_decode_pass_def split: option.splits sum.splits)

lemma passes_loop: "vec_decode_passes W region k cur out = Returned r \<Longrightarrow> vec_decode_loop W region cur out = Some r"
proof (induction k arbitrary: cur out)
  case (Suc k)
  then show ?case by (subst vec_decode_loop_pass) (auto split: loop_state.splits)
qed simp

lemma loop_passes:
  assumes "vec_decode_loop W region cur out = Some r"
  shows "\<exists>k. vec_decode_passes W region k cur out = Returned r"
proof (rule vec_decode_loop.raw_induct [where P = "\<lambda>W region cur out r. \<exists>k. vec_decode_passes W region k cur out = Returned r", OF _ assms])
  fix f :: "'a wire \<Rightarrow> byte list \<Rightarrow> nat \<Rightarrow> 'a list \<Rightarrow> 'a list wres" and W region cur out r
  assume IH: "\<And>W region cur out r. f W region cur out = Some r \<Longrightarrow> \<exists>k. vec_decode_passes W region k cur out = Returned r"
    and eq: "(if cur < length region then
        (if length region < cur + STACK_SIZE W then Err UnexpectedEof
         else (case decode W (cursor_new (take (STACK_SIZE W) (drop cur region))) (cursor_new (drop (cur + STACK_SIZE W) region)) of
             None \<Rightarrow> None | Some (Inl e) \<Rightarrow> Some (Inl e)
           | Some (Inr (v, _, eh)) \<Rightarrow> f W region (cur + (STACK_SIZE W + pos eh)) (out @ [v])))
      else Ok out) = Some r"
  have "(\<exists>cur' out'. vec_decode_pass W region cur out = Running cur' out' \<and> f W region cur' out' = Some r)
      \<or> vec_decode_pass W region cur out = Returned r"
    using eq by (auto simp: vec_decode_pass_def split: if_splits option.splits sum.splits)
  then show "\<exists>k. vec_decode_passes W region k cur out = Returned r"
  proof (elim disjE exE conjE)
    fix cur' out' assume pass: "vec_decode_pass W region cur out = Running cur' out'" and "f W region cur' out' = Some r"
    from IH [OF this(2)] obtain k where "vec_decode_passes W region k cur' out' = Returned r" ..
    with pass have "vec_decode_passes W region (Suc k) cur out = Returned r" by simp
    then show ?thesis ..
  next
    assume "vec_decode_pass W region cur out = Returned r"
    then have "vec_decode_passes W region (Suc 0) cur out = Returned r" by simp
    then show ?thesis ..
  qed
qed

text \<open>An element type whose codec keeps the contract and writes no byte at all has one value, and
  decoding it moves neither cursor.\<close>

lemma zero_size_element:
  assumes "wave_wire W valid" "STACK_SIZE W = 0" "valid v" "heap_size W v = 0"
  shows "encode_stack W v = []" "encode_heap W v = []"
    "decode W (cursor_new []) (cursor_new h) = Ok (v, cursor_new [], cursor_new h)"
proof -
  show e: "encode_stack W v = []" "encode_heap W v = []"
    using wave_wire.stack_length [OF assms(1, 3)] wave_wire.heap_length [OF assms(1, 3)] assms(2, 4) by simp_all
  show "decode W (cursor_new []) (cursor_new h) = Ok (v, cursor_new [], cursor_new h)"
    using wave_wire.decode_unit_slices [OF assms(1, 3), of h] e assms(2, 4) by (simp add: advance_def)
qed

lemma zero_size_passes:
  assumes "wave_wire W valid" "STACK_SIZE W = 0" "valid u" "heap_size W u = 0" "cur < length region"
  shows "vec_decode_passes W region k cur out = Running cur (out @ replicate k u)"
proof (induction k arbitrary: out)
  case (Suc k)
  have "vec_decode_pass W region cur out = Running cur (out @ [u])"
    using zero_size_element(3) [OF assms(1-4)] assms(2, 5) by (simp add: vec_decode_pass_def cursor_new_def)
  then show ?case using Suc by simp
qed simp

text \<open>C40: Vectors of a zero-size element are outside the codec's contract.  For every element codec that
  keeps the contract and writes no bytes, a vector of any length is written with region length 0 and reads
  back empty; and on every non-empty region, whatever its bytes, the element loop never ends: after \<open>k\<close>
  passes, for every \<open>k\<close>, it is still running at offset 0 with \<open>k\<close> elements pushed, no element having
  failed, so that decoding does not return.\<close>

theorem vec_of_zero_size_not_supported:
  assumes "wave_wire W valid" "STACK_SIZE W = 0" "\<forall>v. valid v \<longrightarrow> heap_size W v = 0"
    and "valid u" "\<forall>v\<in>set vs. valid v" "region \<noteq> []" "length region < 2 ^ 32"
  shows "from_wire (wire_vec W) (to_wire (wire_vec W) vs) = Ok []
    \<and> (\<forall>k. vec_decode_passes W region k 0 [] = Running 0 (replicate k u))
    \<and> from_wire (wire_vec W) (to_le_bytes 4 (word_of_nat (length region) :: u32) @ region @ rest) = None"
proof (intro conjI allI)
  have "vec_heap_size W vs = 0" "concat (map (\<lambda>e. encode_stack W e @ encode_heap W e) vs) = []"
    using zero_size_element(1, 2) [OF assms(1, 2)] assms(2, 3, 5) by (simp_all add: vec_heap_size_def)
  then show "from_wire (wire_vec W) (to_wire (wire_vec W) vs) = Ok []"
    using cursor_u32_at [of "cursor_new (to_le_bytes 4 (0 :: u32))" 0]
    by (simp add: from_wire_def to_wire_def wire_vec_def cursor_take_def remaining_def vec_decode_loop.simps)
  have on: "vec_decode_passes W region k 0 [] = Running 0 (replicate k u)" for k
    using zero_size_passes [OF assms(1, 2, 4), of 0 region k "[]"] assms(3, 4, 6) by simp
  then show "vec_decode_passes W region k 0 [] = Running 0 (replicate k u)" for k .
  have "vec_decode_loop W region 0 [] = None"
    using loop_passes [of W region 0 "[]"] on by (cases "vec_decode_loop W region 0 []") auto
  then show "from_wire (wire_vec W) (to_le_bytes 4 (word_of_nat (length region) :: u32) @ region @ rest) = None"
    using assms(7) cursor_u32_at [of "cursor_new (to_le_bytes 4 (word_of_nat (length region) :: u32))" "word_of_nat (length region)"]
    by (simp add: from_wire_def wire_vec_def cursor_take_def remaining_def)
qed

theorem vec_of_zero_size_not_supported_witness:
  "from_wire (wire_vec wire_unit) (to_wire (wire_vec wire_unit) [(), ()]) = Ok []
   \<and> vec_decode_passes wire_unit [7] 1000 0 [] = Running 0 (replicate 1000 ())
   \<and> from_wire (wire_vec wire_unit) (to_le_bytes 4 (1 :: u32) @ [7] @ [8, 9]) = None"
  using vec_of_zero_size_not_supported [OF wunit.wave_wire_axioms, where u = "()" and vs = "[(), ()]" and region = "[7]" and rest = "[8, 9]"]
  by (simp add: wire_unit_def)

end
