(* ===== verification/Idents.thy ===== *)
theory Idents
  imports Wire_Laws
begin

text \<open>
  Identifiers (\<open>wavedb-core/src/u48.rs\<close>, \<open>id.rs\<close>, \<open>local_id.rs\<close>), the workspace error type
  (\<open>error.rs\<close>), and the minting of instants and ids (\<open>mint.rs\<close>, \<open>time.rs\<close>).

  A 128-bit \<open>Id\<close> packs \<open>KEY | TENANT | FLAG | SALT\<close>; a \<open>LocalId\<close> is the same without
  the tenant.  Both are ordered the way the derived \<open>Ord\<close> orders them: the raw number, and
  lexicographically by \<open>(key, lower)\<close>.
\<close>

section \<open>Data\<close>

datatype U48 = U48 (u48_get: u64)

datatype wave_id = WaveId (raw: u128)

datatype local_id = LocalId (lid_key: u64) (lid_lower: u16)

datatype shape = Unique | NonUnique

datatype core_error =
    Wire wire_error
  | U48Overflow u64
  | UnknownStructHash u64
  | BpTreeNodeMissing local_id
  | BpTreeNodeBadTag u64
  | LaneBadTag u64
  | ChainNodeMissing local_id
  | PivotMissing local_id
  | RecordMissing wave_id
  | Conflict wave_id
  | ChainCorrupt wave_id
  | KeyMismatch wave_id
  | SecondaryIndexOutOfRange nat
  | FuzzyOutOfRange nat
  | ListOutOfRange nat
  | Unauthorized string
  | IdentityMismatch U48 U48
  | Backend string

type_synonym 'a cres = "(core_error, 'a) res"

instantiation wave_id :: linorder
begin

definition less_eq_wave_id :: "wave_id \<Rightarrow> wave_id \<Rightarrow> bool" where
  "less_eq_wave_id a b \<longleftrightarrow> raw a \<le> raw b"

definition less_wave_id :: "wave_id \<Rightarrow> wave_id \<Rightarrow> bool" where
  "less_wave_id a b \<longleftrightarrow> raw a < raw b"

instance
  by standard (auto simp: less_eq_wave_id_def less_wave_id_def wave_id.expand)

end

instantiation local_id :: linorder
begin

definition less_eq_local_id :: "local_id \<Rightarrow> local_id \<Rightarrow> bool" where
  "less_eq_local_id a b \<longleftrightarrow>
     lid_key a < lid_key b \<or> lid_key a = lid_key b \<and> lid_lower a \<le> lid_lower b"

definition less_local_id :: "local_id \<Rightarrow> local_id \<Rightarrow> bool" where
  "less_local_id a b \<longleftrightarrow>
     lid_key a < lid_key b \<or> lid_key a = lid_key b \<and> lid_lower a < lid_lower b"

instance
  by standard (auto simp: less_eq_local_id_def less_local_id_def local_id.expand)

end

section \<open>\<open>U48\<close>\<close>

definition U48_MASK :: u64 where
  "U48_MASK = push_bit 48 1 - 1"

definition U48_ZERO :: U48 where
  "U48_ZERO = U48 0"

definition U48_MAX :: U48 where
  "U48_MAX = U48 U48_MASK"

definition u48_new :: "u64 \<Rightarrow> core_error + U48" where
  "u48_new v = (if v > U48_MASK then Inl (U48Overflow v) else Inr (U48 v))"

definition u48_from_truncated :: "u64 \<Rightarrow> U48" where
  "u48_from_truncated v = U48 (v AND U48_MASK)"

definition u48_from_u32 :: "u32 \<Rightarrow> U48" where
  "u48_from_u32 v = U48 (ucast v)"

text \<open>The newtype's invariant: every constructor and the decoder stay below \<open>2 ^ 48\<close>.\<close>

definition u48_ok :: "U48 \<Rightarrow> bool" where
  "u48_ok t \<longleftrightarrow> u48_get t \<le> U48_MASK"

definition wire_u48 :: "U48 wire" where
  "wire_u48 = \<lparr>
     STACK_SIZE = 6,
     heap_size = (\<lambda>_. 0),
     encode_stack = (\<lambda>v. take 6 (to_le_bytes 8 (u48_get v))),
     encode_heap = (\<lambda>_. []),
     decode = (\<lambda>sc hc. try_then (cursor_take 6 sc) (\<lambda>(s, sc').
        Ok (U48 (from_le_bytes (s @ [0, 0])), sc', hc)))\<rparr>"

section \<open>\<open>Id\<close>\<close>

definition SALT_MASK :: u128 where
  "SALT_MASK = push_bit 15 1 - 1"

definition id_new :: "u64 \<Rightarrow> U48 \<Rightarrow> bool \<Rightarrow> u16 \<Rightarrow> wave_id" where
  "id_new key tenant flag salt = WaveId
     (push_bit 64 (ucast key) OR push_bit 16 (ucast (u48_get tenant))
      OR push_bit 15 (of_bool flag) OR (ucast salt AND SALT_MASK))"

definition id_key :: "wave_id \<Rightarrow> u64" where
  "id_key i = ucast (drop_bit 64 (raw i))"

definition id_tenant :: "wave_id \<Rightarrow> U48" where
  "id_tenant i = u48_from_truncated (ucast (drop_bit 16 (raw i)))"

definition id_flag :: "wave_id \<Rightarrow> bool" where
  "id_flag i \<longleftrightarrow> drop_bit 15 (raw i) AND 1 = 1"

definition id_salt :: "wave_id \<Rightarrow> u16" where
  "id_salt i = ucast (raw i AND SALT_MASK)"

definition is_unique_anchor :: "wave_id \<Rightarrow> bool" where
  "is_unique_anchor i = id_flag i"

definition created_at :: "wave_id \<Rightarrow> u64 option" where
  "created_at i = (if id_flag i then None else Some (id_key i))"

definition struct_hash_key :: "wave_id \<Rightarrow> u64 option" where
  "struct_hash_key i = (if id_flag i then Some (id_key i) else None)"

definition wire_id :: "wave_id wire" where
  "wire_id = wire_struct raw WaveId wire_u128"

section \<open>\<open>LocalId\<close>\<close>

definition LID_SALT_MASK :: u16 where
  "LID_SALT_MASK = push_bit 15 1 - 1"

definition lid_new :: "u64 \<Rightarrow> bool \<Rightarrow> u16 \<Rightarrow> local_id" where
  "lid_new key flag salt = LocalId key (push_bit 15 (of_bool flag) OR (salt AND LID_SALT_MASK))"

definition lid_flag :: "local_id \<Rightarrow> bool" where
  "lid_flag l \<longleftrightarrow> drop_bit 15 (lid_lower l) AND 1 = 1"

definition lid_salt :: "local_id \<Rightarrow> u16" where
  "lid_salt l = lid_lower l AND LID_SALT_MASK"

definition from_id :: "wave_id \<Rightarrow> local_id" where
  "from_id i = LocalId (id_key i) (ucast (raw i AND 0xFFFF))"

definition to_id :: "local_id \<Rightarrow> U48 \<Rightarrow> wave_id" where
  "to_id l tenant = id_new (lid_key l) tenant (lid_flag l) (lid_salt l)"

definition wire_local_id :: "local_id wire" where
  "wire_local_id = wire_struct (\<lambda>l. (lid_key l, lid_lower l)) (\<lambda>(k, l). LocalId k l)
     (wire_tuple2 wire_u64 wire_u16)"

section \<open>Minting\<close>

definition anchor_flag :: "shape \<Rightarrow> bool" where
  "anchor_flag s \<longleftrightarrow> s = Unique"

definition type_salt :: "u64 \<Rightarrow> u16" where
  "type_salt hash = ucast (hash AND 0x7FFF)"

definition archive_id :: "u64 \<Rightarrow> shape \<Rightarrow> u64 \<Rightarrow> U48 \<Rightarrow> wave_id" where
  "archive_id hash sh instant tenant = id_new instant tenant (\<not> anchor_flag sh) (type_salt hash)"

definition saturating_add :: "'a::len word \<Rightarrow> 'a word \<Rightarrow> 'a word" where
  "saturating_add a b = (if unat a + unat b < 2 ^ LENGTH('a) then a + b else - 1)"

text \<open>
  \<open>key_nanos\<close>: the wall clock (a parameter, read once per call) and the process-wide counter
  \<open>MINT\<close>, which \<open>fetch_add\<close> wraps at \<open>2 ^ 32\<close>.
\<close>

definition key_nanos :: "u64 \<Rightarrow> u32 \<Rightarrow> u64 \<times> u32" where
  "key_nanos unix_nanos MINT =
     (let count = ucast MINT mod 1000000
      in ((unix_nanos div 1000000) * 1000000 + count, MINT + 1))"

text \<open>\<open>mint_instant\<close>: the clock key, the caller's floor, and the static \<open>LAST\<close>.\<close>

definition mint_instant :: "u64 \<Rightarrow> u64 \<Rightarrow> u64 \<Rightarrow> u64 \<times> u64" where
  "mint_instant now watermark LAST =
     (let minted = max (max now (saturating_add watermark 1)) (saturating_add LAST 1)
      in (minted, minted))"

definition mint_floored_id :: "U48 \<Rightarrow> u64 \<Rightarrow> u64 \<Rightarrow> u64 \<Rightarrow> u64 \<Rightarrow> wave_id \<times> u64" where
  "mint_floored_id tenant hash now watermark LAST =
     (let (minted, LAST1) = mint_instant now watermark LAST
      in (id_new minted tenant False (type_salt hash), LAST1))"

definition keyed_id :: "U48 \<Rightarrow> u64 \<Rightarrow> u64 \<Rightarrow> wave_id" where
  "keyed_id tenant hash key = id_new key tenant False (type_salt hash)"

text \<open>A run of mints in one process: each call brings its own clock reading and watermark.\<close>

fun mint_run :: "(u64 \<times> u64) list \<Rightarrow> u64 \<Rightarrow> u64 list" where
  "mint_run [] LAST = []"
| "mint_run ((now, watermark) # calls) LAST =
     (let (minted, LAST1) = mint_instant now watermark LAST in minted # mint_run calls LAST1)"

section \<open>Field lemmas\<close>

lemma U48_MASK_eq: "U48_MASK = mask 48"
  by (simp add: U48_MASK_def mask_eq_exp_minus_1)

lemma SALT_MASK_eq: "SALT_MASK = mask 15"
  by (simp add: SALT_MASK_def mask_eq_exp_minus_1)

lemma LID_SALT_MASK_eq: "LID_SALT_MASK = mask 15"
  by (simp add: LID_SALT_MASK_def mask_eq_exp_minus_1)

lemma bit_64_bound: "bit (w :: u64) n \<Longrightarrow> n < 64"
  using bit_imp_le_length [of w n] by simp

lemma u48_ok_unat: "u48_ok t \<longleftrightarrow> unat (u48_get t) < 2 ^ 48"
  by (auto simp: u48_ok_def U48_MASK_def word_le_nat_alt)

lemma u48_ok_take_bit: "u48_ok t \<longleftrightarrow> take_bit 48 (u48_get t) = u48_get t"
proof -
  have "take_bit 48 (u48_get t) = u48_get t \<longleftrightarrow> take_bit 48 (unat (u48_get t)) = unat (u48_get t)"
    by (simp add: word_unat_eq_iff unsigned_take_bit_eq)
  then show ?thesis
    by (simp add: u48_ok_unat take_bit_nat_eq_self_iff)
qed

lemma u48_ok_bits: "u48_ok t \<Longrightarrow> bit (u48_get t) n \<Longrightarrow> n < 48"
  by (metis bit_take_bit_iff u48_ok_take_bit)

lemma u48_from_truncated_ok: "u48_ok (u48_from_truncated v)"
  by (simp add: u48_ok_take_bit u48_from_truncated_def U48_MASK_eq flip: take_bit_eq_mask)

lemma id_key_new [simp]: "id_key (id_new key tenant flag salt) = key"
  if "u48_ok tenant"
  by (rule bit_word_eqI)
    (use that in \<open>auto simp: id_key_def id_new_def SALT_MASK_eq bit_simps dest: u48_ok_bits\<close>)

lemma id_tenant_new [simp]: "id_tenant (id_new key tenant flag salt) = tenant"
  if "u48_ok tenant"
proof -
  have "u48_get (id_tenant (id_new key tenant flag salt)) = u48_get tenant"
    by (rule bit_word_eqI)
      (use that in \<open>auto simp: id_tenant_def id_new_def u48_from_truncated_def U48_MASK_eq SALT_MASK_eq
         bit_simps dest: u48_ok_bits\<close>)
  then show ?thesis by (simp add: U48.expand)
qed

lemma id_flag_bit: "id_flag i \<longleftrightarrow> bit (raw i) 15"
  by (simp add: id_flag_def and_one_eq odd_iff_mod_2_eq_one bit_iff_odd_drop_bit)

lemma id_flag_new [simp]: "id_flag (id_new key tenant flag salt) = flag"
  by (simp add: id_flag_bit id_new_def SALT_MASK_eq bit_simps)

lemma id_salt_new [simp]: "id_salt (id_new key tenant flag salt) = salt AND mask 15"
  by (rule bit_word_eqI) (auto simp: id_salt_def id_new_def SALT_MASK_eq bit_simps)

lemma lid_flag_bit: "lid_flag l \<longleftrightarrow> bit (lid_lower l) 15"
  by (simp add: lid_flag_def and_one_eq odd_iff_mod_2_eq_one bit_iff_odd_drop_bit)

lemma lid_fields_new [simp]:
  "lid_key (lid_new key flag salt) = key"
  "lid_flag (lid_new key flag salt) = flag"
  "lid_salt (lid_new key flag salt) = salt AND mask 15"
  by (simp_all add: lid_new_def lid_flag_bit lid_salt_def LID_SALT_MASK_eq bit_simps bit_eq_iff)
    auto

lemma lid_lower_bit: "bit (lid_lower l) n \<longleftrightarrow> n = 15 \<and> lid_flag l \<or> bit (lid_salt l) n"
proof -
  have "bit (lid_lower l) n \<Longrightarrow> n < 16"
    using bit_imp_le_length [of "lid_lower l" n] by simp
  then show ?thesis
    by (cases "n = 15") (auto simp: lid_flag_bit lid_salt_def LID_SALT_MASK_eq bit_simps)
qed

lemma lid_salt_bit_bound: "bit (lid_salt l) n \<Longrightarrow> n < 15"
  by (simp add: lid_salt_def LID_SALT_MASK_eq bit_simps)

lemma raw_to_id_bit:
  "n < 16 \<Longrightarrow> bit (raw (to_id l t)) n \<longleftrightarrow> bit (lid_lower l) n"
  by (auto simp: to_id_def id_new_def SALT_MASK_eq bit_simps lid_lower_bit dest: lid_salt_bit_bound)

lemma mask_16: "(0xFFFF :: u128) = mask 16"
  by (simp add: mask_eq_exp_minus_1)

lemma from_id_to_id [simp]: "from_id (to_id l t) = l" if "u48_ok t"
proof (rule local_id.expand, rule conjI)
  show "lid_key (from_id (to_id l t)) = lid_key l"
    using that by (simp add: from_id_def to_id_def)
  show "lid_lower (from_id (to_id l t)) = lid_lower l"
    by (rule bit_word_eqI) (simp add: from_id_def mask_16 raw_to_id_bit bit_simps)
qed

lemma to_id_from_id [simp]: "to_id (from_id i) (id_tenant i) = i"
proof (rule wave_id.expand, rule bit_word_eqI)
  fix n :: nat assume n: "n < LENGTH(128)"
  consider "n < 16" | "16 \<le> n \<and> n < 64" | "64 \<le> n" by linarith
  then show "bit (raw (to_id (from_id i) (id_tenant i))) n \<longleftrightarrow> bit (raw i) n"
  proof cases
    case 1
    then show ?thesis by (simp add: raw_to_id_bit) (simp add: from_id_def mask_16 bit_simps)
  next
    case 2
    then show ?thesis
      by (auto simp: to_id_def id_new_def id_tenant_def u48_from_truncated_def U48_MASK_eq SALT_MASK_eq
          bit_simps)
  next
    case 3
    then show ?thesis
      using n by (auto simp: to_id_def id_new_def id_tenant_def u48_from_truncated_def U48_MASK_eq
          SALT_MASK_eq from_id_def id_key_def bit_simps)
  qed
qed

lemma to_id_inject: "u48_ok t \<Longrightarrow> to_id l t = to_id m t \<longleftrightarrow> l = m"
  by (metis from_id_to_id)

lemma id_tenant_to_id [simp]: "u48_ok t \<Longrightarrow> id_tenant (to_id l t) = t"
  by (simp add: to_id_def)

lemma id_tenant_ok: "u48_ok (id_tenant i)"
  by (simp add: id_tenant_def u48_from_truncated_ok)

text \<open>The four fields determine an id.\<close>

lemma wave_id_eq_iff:
  "i = j \<longleftrightarrow> id_key i = id_key j \<and> id_tenant i = id_tenant j \<and> id_flag i = id_flag j \<and> id_salt i = id_salt j"
  (is "_ \<longleftrightarrow> ?fields")
proof
  assume f: ?fields
  have flag: "lid_flag (from_id i) = id_flag i" for i
    by (simp add: lid_flag_bit id_flag_bit from_id_def mask_16 bit_simps)
  have salt: "lid_salt (from_id i) = id_salt i" for i
    by (rule bit_word_eqI)
      (simp add: lid_salt_def id_salt_def from_id_def mask_16 LID_SALT_MASK_eq SALT_MASK_eq bit_simps)
  have "lid_key (from_id i) = id_key i" for i by (simp add: from_id_def)
  then have "from_id i = from_id j"
    using f flag salt lid_lower_bit by (intro local_id.expand conjI bit_word_eqI) auto
  then show "i = j" using f by (metis to_id_from_id)
qed simp

section \<open>Order\<close>

lemma take_bit_128_raw: "take_bit 128 (unat (r :: u128)) = unat r"
  using unsigned_less [of r, where ?'a = nat] by (simp add: take_bit_nat_eq_self)

lemma unat_id_key: "unat (id_key i) = unat (raw i) div 2 ^ 64"
proof -
  have "unat (raw i) < 2 ^ 128"
    using unsigned_less [of "raw i", where ?'a = nat] by simp
  then have "unat (raw i) div 2 ^ 64 < 2 ^ 64" by (simp add: less_mult_imp_div_less)
  moreover have "unat (id_key i) = take_bit 64 (drop_bit 64 (unat (raw i)))"
    by (simp add: id_key_def unsigned_ucast_eq unsigned_drop_bit_eq take_bit_128_raw)
  ultimately show ?thesis
    by (simp only: take_bit_eq_mod drop_bit_eq_div mod_less)
qed

text \<open>\<open>KEY\<close> is the most significant field.\<close>

lemma id_key_less: "id_key i < id_key j \<Longrightarrow> i < j"
proof -
  assume "id_key i < id_key j"
  then have "unat (raw i) div 2 ^ 64 < unat (raw j) div 2 ^ 64"
    by (simp add: word_less_nat_alt unat_id_key)
  then have "unat (raw i) < unat (raw j)"
    by (intro iffD2 [OF div_mod_less_iff]) (rule disjI1)
  then show "i < j"
    by (simp add: less_wave_id_def word_less_nat_alt)
qed

lemma from_id_less_iff:
  assumes "id_tenant i = id_tenant j"
  shows "from_id i < from_id j \<longleftrightarrow> i < j"
proof -
  have low: "unat (raw i) mod 2 ^ 64 =
      unat (u48_get (id_tenant i)) * 2 ^ 16 + unat (lid_lower (from_id i))" for i
  proof -
    have "unat (u48_get (id_tenant i)) = take_bit 48 (drop_bit 16 (unat (raw i)))"
      by (simp add: id_tenant_def u48_from_truncated_def U48_MASK_eq unsigned_take_bit_eq
          unsigned_ucast_eq unsigned_drop_bit_eq take_bit_128_raw flip: take_bit_eq_mask)
    moreover have "unat (lid_lower (from_id i)) = take_bit 16 (unat (raw i))"
      by (simp add: from_id_def mask_16 unsigned_ucast_eq unsigned_take_bit_eq flip: take_bit_eq_mask)
    moreover have "unat (raw i) mod (2 ^ 16 * 2 ^ 48) =
        2 ^ 16 * (unat (raw i) div 2 ^ 16 mod 2 ^ 48) + unat (raw i) mod 2 ^ 16"
      by (rule mod_mult2_eq)
    ultimately show ?thesis
      by (simp only: take_bit_eq_mod drop_bit_eq_div) (simp add: mult.commute)
  qed
  have key: "lid_key (from_id i) = id_key i" for i by (simp add: from_id_def)
  have "i < j \<longleftrightarrow> unat (id_key i) < unat (id_key j) \<or>
      unat (id_key i) = unat (id_key j) \<and> unat (raw i) mod 2 ^ 64 < unat (raw j) mod 2 ^ 64"
    unfolding less_wave_id_def word_less_nat_alt unat_id_key by (rule div_mod_less_iff)
  also have "unat (raw i) mod 2 ^ 64 < unat (raw j) mod 2 ^ 64 \<longleftrightarrow>
      unat (lid_lower (from_id i)) < unat (lid_lower (from_id j))"
    unfolding low assms by (rule nat_add_left_cancel_less)
  finally show ?thesis
    by (simp add: less_local_id_def key word_less_nat_alt word_unat_eq_iff)
qed

section \<open>Wire images\<close>

interpretation wu48: wave_wire wire_u48 u48_ok
proof
  fix v sc hc
  assume v: "u48_ok v" and s: "at_cursor sc (encode_stack wire_u48 v)"
    and h: "at_cursor hc (encode_heap wire_u48 v)"
  have "to_le_bytes 8 (u48_get v) = nat_to_le 6 (unat (u48_get v)) @ replicate 2 0"
    using v nat_to_le_pad [of "unat (u48_get v)" 6 2] by (simp add: to_le_bytes_def u48_ok_unat)
  moreover have "replicate 2 (0 :: byte) = [0, 0]" by (simp add: numeral_2_eq_2)
  ultimately have "take 6 (to_le_bytes 8 (u48_get v)) @ [0, 0] = to_le_bytes 8 (u48_get v)" by simp
  then show "decode wire_u48 sc hc =
      Ok (v, advance (STACK_SIZE wire_u48) sc, advance (heap_size wire_u48 v) hc)"
    using s by (simp add: wire_u48_def cursor_take_at)
qed (simp_all add: wire_u48_def)

interpretation wid: wave_wire wire_id "\<lambda>_. True"
  using wire_struct_ok [OF wu128.wave_wire_axioms, of WaveId raw] by (simp add: wire_id_def)

interpretation wlid: wave_wire wire_local_id "\<lambda>_. True"
  using wire_struct_ok [OF wire_tuple2_ok [OF wu64.wave_wire_axioms wu16.wave_wire_axioms],
      of "\<lambda>(k, l). LocalId k l" "\<lambda>l. (lid_key l, lid_lower l)"]
  by (simp add: wire_local_id_def)

interpretation wlidt: total_wire wire_local_id
  unfolding wire_local_id_def
  by (intro wire_struct_total wire_tuple2_total wire_le_total)

section \<open>Archives and instants\<close>

text \<open>An archive slot and a live anchor differ in \<open>FLAG\<close>.\<close>

lemma archive_id_flag [simp]: "id_flag (archive_id hash sh instant t) = (\<not> anchor_flag sh)"
  by (simp add: archive_id_def)

lemma archive_id_fields:
  assumes "u48_ok t"
  shows "id_key (archive_id hash sh instant t) = instant" "id_tenant (archive_id hash sh instant t) = t"
  using assms by (simp_all add: archive_id_def)

lemma unat_u64_max: "unat (- 1 :: u64) = 2 ^ 64 - 1"
  by (simp add: unsigned_minus_1_eq_mask mask_eq_exp_minus_1)

lemma unat_less_max: "(a :: u64) \<noteq> - 1 \<Longrightarrow> unat a + 1 < 2 ^ 64"
proof -
  assume "a \<noteq> - 1"
  then have "a < - 1" by (simp add: word_order.not_eq_extremum)
  then have "unat a < unat (- 1 :: u64)" by (simp only: word_less_nat_alt)
  then show ?thesis by (simp add: unat_u64_max)
qed

lemma saturating_add_1: "(a :: u64) \<noteq> - 1 \<Longrightarrow> a < saturating_add a 1"
  using unat_less_max [of a] by (simp add: saturating_add_def word_less_nat_alt unat_word_ariths)

lemma saturating_add_max [simp]: "saturating_add (- 1 :: u64) 1 = - 1"
  by (simp add: saturating_add_def unat_u64_max)

lemma mint_instant_above:
  assumes "mint_instant now watermark LAST = (minted, LAST1)"
  shows "watermark \<noteq> - 1 \<Longrightarrow> watermark < minted" "LAST \<noteq> - 1 \<Longrightarrow> LAST < minted" "now \<le> minted" "LAST1 = minted"
  using assms saturating_add_1 [of watermark] saturating_add_1 [of LAST]
  by (auto simp: mint_instant_def Let_def less_max_iff_disj le_max_iff_disj)

lemma key_nanos_digits:
  assumes "unat unix_nanos < 2 ^ 64 - 1000000"
  shows "unat (fst (key_nanos unix_nanos MINT)) =
    unat unix_nanos div 1000000 * 1000000 + unat MINT mod 1000000"
proof -
  have le: "unat unix_nanos div 1000000 * 1000000 \<le> unat unix_nanos" by simp
  have mul: "unat (unix_nanos div 1000000 * 1000000) = unat unix_nanos div 1000000 * 1000000"
    using assms le by (simp add: unat_word_ariths unat_div)
  have "unat (ucast MINT :: u64) = unat MINT"
    using unsigned_less [of MINT, where ?'a = nat] by (simp add: unsigned_ucast_eq take_bit_nat_eq_self)
  then have cnt: "unat (ucast MINT mod 1000000 :: u64) = unat MINT mod 1000000"
    by (simp add: unat_mod)
  have "unat MINT mod 1000000 < 1000000" by simp
  with assms le have "unat unix_nanos div 1000000 * 1000000 + unat MINT mod 1000000 < 2 ^ 64" by linarith
  then show ?thesis
    by (simp add: key_nanos_def Let_def unat_word_ariths(1) mul cnt)
qed


section \<open>Properties\<close>

text \<open>C31: Under one tenant, dropping the tenant from an id and putting it back is lossless in both
  directions and keeps the order of ids.\<close>

theorem local_id_embedding:
  assumes "u48_ok t"
  shows "from_id (to_id l t) = l \<and> id_tenant (to_id l t) = t \<and> to_id (from_id i) (id_tenant i) = i
    \<and> (to_id l t < to_id m t \<longleftrightarrow> l < m)"
  using assms from_id_less_iff [of "to_id l t" "to_id m t"] by simp_all

theorem local_id_embedding_witness: "to_id (lid_new 5 True 3) (U48 9) < to_id (lid_new 6 False 3) (U48 9)"
  using local_id_embedding [of "U48 9" "lid_new 5 True 3" _ "lid_new 6 False 3"]
  by (simp add: u48_ok_def U48_MASK_def less_local_id_def)

text \<open>C32: The instants one process mints are strictly increasing, whatever the wall clock reads and
  whatever watermarks the callers bring, until the last representable instant is reached.\<close>

theorem mint_run_strictly_increasing:
  assumes "- 1 \<notin> set (LAST # mint_run calls LAST)"
  shows "sorted_wrt (<) (LAST # mint_run calls LAST)"
  using assms
proof (induction calls arbitrary: LAST)
  case (Cons c calls)
  obtain now watermark where c: "c = (now, watermark)" by (cases c)
  obtain minted L where m: "mint_instant now watermark LAST = (minted, L)" by fastforce
  have L: "L = minted" and lt: "LAST < minted"
    using mint_instant_above(2, 4) [OF m] Cons.prems by auto
  have "sorted_wrt (<) (minted # mint_run calls minted)"
    by (rule Cons.IH) (use Cons.prems c m L in auto)
  then show ?case using c m L lt by (auto intro: less_trans)
qed simp

theorem mint_run_strictly_increasing_witness:
  "sorted_wrt (<) ((10 :: u64) # mint_run [(5, 0), (5, 30), (7, 0)] 10)"
  by (rule mint_run_strictly_increasing) (simp add: mint_instant_def saturating_add_def Let_def max_def)

text \<open>C39: The clock key is not monotone within a millisecond: after a million mints the counter digits
  wrap and the next key, under an unchanged clock, is smaller than the one before.\<close>

theorem key_nanos_wraps:
  assumes "unat unix_nanos < 2 ^ 64 - 1000000"
  shows "fst (key_nanos unix_nanos 1000000) < fst (key_nanos unix_nanos 999999)"
  using key_nanos_digits [OF assms] by (simp add: word_less_nat_alt)

theorem key_nanos_wraps_witness: "fst (key_nanos 5000000 1000000) < fst (key_nanos 5000000 999999)"
  by (rule key_nanos_wraps) simp

text \<open>C33: The address of an archived version never equals a live anchor of the same shape, and two
  archives of one type under one tenant share an address only if they were authored at the same
  instant.\<close>

theorem archive_ids_disjoint:
  assumes "u48_ok t"
  shows "(id_flag live = anchor_flag sh \<longrightarrow> archive_id hash sh instant t \<noteq> live)
    \<and> (archive_id hash sh instant t = archive_id hash sh instant' t \<longleftrightarrow> instant = instant')"
  using assms archive_id_flag [of hash sh instant t] by (metis archive_id_fields(1))

theorem archive_ids_disjoint_witness: "archive_id 7 Unique 5 (U48 9) \<noteq> id_new 7 (U48 9) True 0"
  using archive_ids_disjoint [of "U48 9" "id_new 7 (U48 9) True 0" Unique 7 5]
  by (simp add: u48_ok_def U48_MASK_def anchor_flag_def)

end
