(* ===== verification/Store.thy ===== *)
theory Store
  imports Idents
begin

text \<open>
  The backend seam (\<open>wavedb-core/src/store.rs\<close>, \<open>overlay.rs\<close>): the \<open>Write\<close> batch, the
  \<open>Store\<close> trait as a record of operations, its contract as the locale \<open>batch_store\<close>, and three
  providers: the in-memory flat map (\<open>index/mem_store.rs\<close>), the browser store over IndexedDB
  (\<open>wavedb/src/cache/idb_store.rs\<close>, the object store itself being an ordered map from
  16-byte keys to values, with requests that do not fault) and the plan-time \<open>Overlay\<close>, which
  is read-only.
\<close>

section \<open>Writes\<close>

datatype write_op =
    Put wave_id "byte list"
  | Remove u64 wave_id
  | Expect u64 wave_id "byte list option"

primrec write_id :: "write_op \<Rightarrow> wave_id" where
  "write_id (Put i _) = i"
| "write_id (Remove _ i) = i"
| "write_id (Expect _ i _) = i"

primrec write_struct_hash :: "write_op \<Rightarrow> u64 option" where
  "write_struct_hash (Put _ _) = None"
| "write_struct_hash (Remove h _) = Some h"
| "write_struct_hash (Expect h _ _) = Some h"

text \<open>\<open>#[derive(WaveWire)]\<close> on \<open>Write\<close>: tags by declaration order.\<close>

abbreviation wire_put :: "(wave_id \<times> byte list) wire" where
  "wire_put \<equiv> wire_tuple2 wire_id (wire_vec wire_u8)"

abbreviation wire_remove :: "(u64 \<times> wave_id) wire" where
  "wire_remove \<equiv> wire_tuple2 wire_u64 wire_id"

abbreviation wire_expect :: "(u64 \<times> wave_id \<times> byte list option) wire" where
  "wire_expect \<equiv> wire_tuple3 wire_u64 wire_id (wire_option (wire_vec wire_u8))"

fun write_sel :: "write_op \<Rightarrow> byte \<times> nat \<times> byte list" where
  "write_sel (Put i b) = field_sel 0 wire_put (i, b)"
| "write_sel (Remove h i) = field_sel 1 wire_remove (h, i)"
| "write_sel (Expect h i e) = field_sel 2 wire_expect (h, i, e)"

definition write_arms :: "(byte list \<Rightarrow> write_op wres) list" where
  "write_arms = [field_arm wire_put (\<lambda>(i, b). Put i b),
                 field_arm wire_remove (\<lambda>(h, i). Remove h i),
                 field_arm wire_expect (\<lambda>(h, i, e). Expect h i e)]"

definition wire_write :: "write_op wire" where
  "wire_write = wire_enum write_sel write_arms"

section \<open>The trait and its contract\<close>

text \<open>\<open>get_of\<close> and \<open>apply\<close>; a fallible call returns the state unchanged in its error case.\<close>

record 's store =
  get_of :: "'s \<Rightarrow> u64 \<Rightarrow> wave_id \<Rightarrow> byte list option cres"
  apply_batch :: "'s \<Rightarrow> write_op list \<Rightarrow> 's cres"

text \<open>What a batch does to a key-value view, and the first guard it violates.\<close>

type_synonym kv = "wave_id \<rightharpoonup> byte list"

primrec write_effect :: "write_op \<Rightarrow> kv \<Rightarrow> kv" where
  "write_effect (Put i b) m = m(i \<mapsto> b)"
| "write_effect (Remove _ i) m = m(i := None)"
| "write_effect (Expect _ _ _) m = m"

definition batch_effect :: "write_op list \<Rightarrow> kv \<Rightarrow> kv" where
  "batch_effect ws m = fold write_effect ws m"

fun first_conflict :: "write_op list \<Rightarrow> kv \<Rightarrow> wave_id option" where
  "first_conflict [] m = None"
| "first_conflict (Expect h i e # ws) m = (if m i \<noteq> e then Some i else first_conflict ws m)"
| "first_conflict (_ # ws) m = first_conflict ws m"

locale batch_store =
  fixes S :: "'s store" and view :: "'s \<Rightarrow> kv"
  assumes get_view: "get_of S s h i = Ok (view s i)"
    and apply_commit: "first_conflict ws (view s) = None \<Longrightarrow>
      \<exists>s'. apply_batch S s ws = Ok s' \<and> view s' = batch_effect ws (view s)"
    and apply_conflict: "first_conflict ws (view s) = Some i \<Longrightarrow> apply_batch S s ws = Err (Conflict i)"
begin

lemma apply_Ok_iff:
  "apply_batch S s ws = Ok s' \<Longrightarrow> first_conflict ws (view s) = None \<and> view s' = batch_effect ws (view s)"
  using apply_commit [of ws s] apply_conflict [of ws s]
  by (cases "first_conflict ws (view s)") auto

text \<open>All or nothing: a batch either takes full effect or is refused with nothing written.\<close>

lemma apply_atomic:
  obtains s' where "apply_batch S s ws = Ok s'" "view s' = batch_effect ws (view s)"
    "first_conflict ws (view s) = None"
  | i where "apply_batch S s ws = Err (Conflict i)" "first_conflict ws (view s) = Some i"
  using apply_commit [of ws s] apply_conflict [of ws s]
  by (cases "first_conflict ws (view s)") auto

text \<open>A read-plan-commit cycle guarded by what it read wins or loses the race as a whole.\<close>

lemma guarded_apply_loses:
  "view s i \<noteq> e \<Longrightarrow> \<exists>j. apply_batch S s (Expect h i e # ws) = Err (Conflict j)"
  by (intro exI [of _ i] apply_conflict) simp

end

section \<open>Providers\<close>

subsection \<open>The flat in-memory store\<close>

definition mem_apply :: "kv \<Rightarrow> write_op list \<Rightarrow> kv cres" where
  "mem_apply m ws = (case first_conflict ws m of
      Some i \<Rightarrow> Err (Conflict i)
    | None \<Rightarrow> Ok (fold (\<lambda>w m. case w of
          Put i b \<Rightarrow> m(i \<mapsto> b) | Remove _ i \<Rightarrow> m(i := None) | Expect _ _ _ \<Rightarrow> m) ws m))"

definition mem_store :: "kv store" where
  "mem_store = \<lparr>get_of = (\<lambda>m h i. Ok (m i)), apply_batch = mem_apply\<rparr>"

subsection \<open>The browser store\<close>

type_synonym object_store = "byte list \<rightharpoonup> byte list"

definition idb_key :: "wave_id \<Rightarrow> byte list" where
  "idb_key i = to_be_bytes 16 (raw i)"

definition idb_get :: "object_store \<Rightarrow> wave_id \<Rightarrow> byte list option cres" where
  "idb_get os i = Ok (os (idb_key i))"

fun idb_guards :: "object_store \<Rightarrow> write_op list \<Rightarrow> unit cres" where
  "idb_guards os [] = Ok ()"
| "idb_guards os (Expect _ i expected # ws) =
     (if os (idb_key i) \<noteq> expected then Err (Conflict i) else idb_guards os ws)"
| "idb_guards os (_ # ws) = idb_guards os ws"

fun idb_queue :: "write_op list \<Rightarrow> object_store \<Rightarrow> object_store" where
  "idb_queue [] os = os"
| "idb_queue (Put i b # ws) os = idb_queue ws (os(idb_key i \<mapsto> b))"
| "idb_queue (Remove _ i # ws) os = idb_queue ws (os(idb_key i := None))"
| "idb_queue (Expect _ _ _ # ws) os = idb_queue ws os"

definition idb_apply :: "object_store \<Rightarrow> write_op list \<Rightarrow> object_store cres" where
  "idb_apply os batch =
     (if batch = [] then Ok os
      else try_then (idb_guards os batch) (\<lambda>_. Ok (idb_queue batch os)))"

definition idb_store :: "object_store store" where
  "idb_store = \<lparr>get_of = (\<lambda>os h i. idb_get os i), apply_batch = idb_apply\<rparr>"

subsection \<open>The overlay\<close>

text \<open>The read half of a store, \<open>get_of\<close> at a state; what an overlay is laid over.\<close>

type_synonym reader = "u64 \<Rightarrow> wave_id \<Rightarrow> byte list option cres"

record overlay =
  inner :: reader
  pending :: "u128 \<rightharpoonup> byte list option" \<comment> \<open>\<open>Some (Some b)\<close> a pending put, \<open>Some None\<close> a pending remove\<close>

definition overlay_new :: "reader \<Rightarrow> overlay" where
  "overlay_new R = \<lparr>inner = R, pending = Map.empty\<rparr>"

fun overlay_stage :: "write_op list \<Rightarrow> overlay \<Rightarrow> overlay" where
  "overlay_stage [] v = v"
| "overlay_stage (w # ws) v = overlay_stage ws (case w of
      Put i b \<Rightarrow> v\<lparr>pending := (pending v)(raw i \<mapsto> Some b)\<rparr>
    | Remove _ i \<Rightarrow> v\<lparr>pending := (pending v)(raw i \<mapsto> None)\<rparr>
    | Expect _ _ _ \<Rightarrow> v)"

definition overlay_get :: "overlay \<Rightarrow> reader" where
  "overlay_get v h i = (case pending v (raw i) of Some slot \<Rightarrow> Ok slot | None \<Rightarrow> inner v h i)"

definition overlay_apply :: "overlay \<Rightarrow> write_op list \<Rightarrow> overlay cres" where
  "overlay_apply v ws = Err (Backend ''overlay store is read-only'')"

section \<open>The contract holds of the providers\<close>

lemma batch_effect_simps [simp]:
  "batch_effect [] m = m"
  "batch_effect (w # ws) m = batch_effect ws (write_effect w m)"
  "batch_effect (ws @ vs) m = batch_effect vs (batch_effect ws m)"
  by (simp_all add: batch_effect_def)

interpretation mem: batch_store mem_store "\<lambda>m. m"
proof -
  have step: "(\<lambda>w m. case w of Put i b \<Rightarrow> m(i \<mapsto> b) | Remove _ i \<Rightarrow> m(i := None) | Expect _ _ _ \<Rightarrow> m)
      = write_effect"
    by (auto simp: fun_eq_iff split: write_op.splits)
  show "batch_store mem_store (\<lambda>m. m)"
    by unfold_locales (auto simp: mem_store_def mem_apply_def batch_effect_def step)
qed

lemma idb_key_inject: "idb_key i = idb_key j \<longleftrightarrow> i = j"
  by (simp add: idb_key_def to_be_bytes_def to_le_bytes_inject wave_id.expand) (metis wave_id.expand)

lemma idb_guards_first_conflict:
  "idb_guards os ws = (case first_conflict ws (\<lambda>i. os (idb_key i)) of
     None \<Rightarrow> Ok () | Some i \<Rightarrow> Err (Conflict i))"
  by (induction ws "\<lambda>i. os (idb_key i)" rule: first_conflict.induct) auto

lemma idb_queue_effect: "(\<lambda>i. idb_queue ws os (idb_key i)) = batch_effect ws (\<lambda>i. os (idb_key i))"
proof (induction ws arbitrary: os)
  case (Cons w ws)
  have "(\<lambda>i. (os(idb_key j := v)) (idb_key i)) = (\<lambda>i. os (idb_key i))(j := v)" for j v
    by (auto simp: fun_eq_iff idb_key_inject)
  with Cons show ?case by (cases w) auto
qed simp

interpretation idb: batch_store idb_store "\<lambda>os i. os (idb_key i)"
  by unfold_locales
    (auto simp: idb_store_def idb_get_def idb_apply_def idb_guards_first_conflict idb_queue_effect)

text \<open>Reading the overlay after staging is reading the store after the batch.\<close>

abbreviation reads :: "kv \<Rightarrow> reader" where
  "reads m \<equiv> (\<lambda>h i. Ok (m i))"

lemma overlay_new_reads [simp]: "overlay_get (overlay_new R) = R"
  by (simp add: overlay_get_def overlay_new_def fun_eq_iff)

lemma overlay_stage_append: "overlay_stage (ws @ vs) v = overlay_stage vs (overlay_stage ws v)"
  by (induction ws arbitrary: v) simp_all

lemma overlay_put_reads:
  "overlay_get v = reads m \<Longrightarrow> overlay_get (v\<lparr>pending := (pending v)(raw i \<mapsto> slot)\<rparr>) = reads (m(i := slot))"
proof -
  assume v: "overlay_get v = reads m"
  have "overlay_get (v\<lparr>pending := (pending v)(raw i \<mapsto> slot)\<rparr>) h j = (if j = i then Ok slot else overlay_get v h j)" for h j
    by (cases "pending v (raw j)") (auto simp: overlay_get_def wave_id.expand)
  with v show ?thesis by (simp add: fun_eq_iff)
qed

lemma overlay_stage_reads: "overlay_get v = reads m \<Longrightarrow> overlay_get (overlay_stage ws v) = reads (batch_effect ws m)"
proof (induction ws arbitrary: v m)
  case (Cons w ws)
  have "overlay_get (overlay_stage [w] v) = reads (write_effect w m)"
    using Cons.prems overlay_put_reads [OF Cons.prems] by (cases w) simp_all
  from Cons.IH [OF this] show ?case by (simp add: overlay_stage_append [of "[w]" ws, simplified])
qed simp

section \<open>The wire image of a batch\<close>

definition valid_bytes :: "byte list \<Rightarrow> bool" where
  "valid_bytes b \<longleftrightarrow> length b < 2 ^ 32"

lemma vec_heap_size_le [simp]: "vec_heap_size (wire_le n) b = n * length b"
  by (induction b) auto

lemma valid_vec_u8: "valid_vec wire_u8 (\<lambda>_. True) = valid_bytes"
  by (auto simp: fun_eq_iff valid_vec_def valid_bytes_def list_all_iff)

interpretation wbytes: wave_wire "wire_vec wire_u8" valid_bytes
  using wu8.wire_vec_ok unfolding valid_vec_u8 by (simp add: nonempty_units_def)

interpretation wbytest: total_wire "wire_vec wire_u8"
  by (rule total_wire.wire_vec_total [OF wire_le_total]) simp

interpretation wput: wave_wire wire_put "\<lambda>(i, b). valid_bytes b"
  using wire_tuple2_ok [OF wid.wave_wire_axioms wbytes.wave_wire_axioms] by simp

interpretation wremove: wave_wire wire_remove "\<lambda>(h, i). True"
  using wire_tuple2_ok [OF wu64.wave_wire_axioms wid.wave_wire_axioms] by simp

interpretation wexpect: wave_wire wire_expect
  "\<lambda>(h, i, e). case e of None \<Rightarrow> True | Some b \<Rightarrow> valid_bytes b"
  using wire_tuple3_ok [OF wu64.wave_wire_axioms wid.wave_wire_axioms wbytes.wire_option_ok] by simp

text \<open>A write fits the wire when its payload length fits the \<open>u32\<close> slot.\<close>

definition valid_write :: "write_op \<Rightarrow> bool" where
  "valid_write w \<longleftrightarrow> fst (snd (write_sel w)) < 2 ^ 32"

lemma size_le_payload: "n + length b < 2 ^ 32 \<Longrightarrow> valid_bytes b"
  by (simp add: valid_bytes_def)

lemma write_arm_reads_back:
  assumes "valid_write w"
  shows "arm_reads_back write_sel write_arms w"
proof (cases w)
  case (Put i b)
  then have "valid_bytes b" using assms by (auto simp: valid_write_def field_sel_def valid_bytes_def)
  then show ?thesis
    using Put assms wput.field_arm_reads_back [of "(i, b)" "\<lambda>(i, b). Put i b"]
      wput.field_sel_length [of "(i, b)" 0]
    by (simp add: arm_reads_back_def write_arms_def valid_write_def field_sel_def)
next
  case (Remove h i)
  then show ?thesis
    using assms wremove.field_arm_reads_back [of "(h, i)" "\<lambda>(h, i). Remove h i"]
      wremove.field_sel_length [of "(h, i)" 1]
    by (simp add: arm_reads_back_def write_arms_def valid_write_def field_sel_def)
next
  case (Expect h i e)
  then have "case e of None \<Rightarrow> True | Some b \<Rightarrow> valid_bytes b"
    using assms by (auto simp: valid_write_def field_sel_def valid_bytes_def split: option.splits)
  then show ?thesis
    using Expect assms wexpect.field_arm_reads_back [of "(h, i, e)" "\<lambda>(h, i, e). Expect h i e"]
      wexpect.field_sel_length [of "(h, i, e)" 2]
    by (simp add: arm_reads_back_def write_arms_def valid_write_def field_sel_def)
qed

interpretation wwrite: wave_wire wire_write valid_write
  using wire_enum_ok [of write_sel write_arms] write_arm_reads_back
  by (auto simp: wire_write_def wave_wire_def)

interpretation wwritet: total_wire wire_write
proof -
  have "total_wire wire_put" "total_wire wire_remove" "total_wire wire_expect"
    unfolding wire_id_def wire_tuple3_nested
    by (intro wire_tuple2_total wire_struct_total wire_le_total wire_option_total wbytest.total_wire_axioms)+
  then show "total_wire wire_write"
    unfolding wire_write_def
    by (intro wire_enum_total) (auto simp: write_arms_def intro: field_arm_returns)
qed


section \<open>Properties\<close>

text \<open>C27: The browser store implements the same batch contract as the flat store: translating the
  object store's content through the 16-byte keys commutes with applying any batch, conflicts
  included.\<close>

theorem idb_refines_mem:
  "mem_apply (\<lambda>i. os (idb_key i)) ws =
     map_option (map_sum (\<lambda>e. e) (\<lambda>os'. \<lambda>i. os' (idb_key i))) (idb_apply os ws)"
  using idb.apply_commit [of ws os] idb.apply_conflict [of ws os]
    mem.apply_commit [of ws "\<lambda>i. os (idb_key i)"] mem.apply_conflict [of ws "\<lambda>i. os (idb_key i)"]
  by (cases "first_conflict ws (\<lambda>i. os (idb_key i))") (auto simp: idb_store_def mem_store_def)

text \<open>C26: Reading through an overlay is reading the store after the commit: over any store that keeps
  the batch contract, if a staged batch applies, then every read through the overlay already gave
  what the store gives afterwards.\<close>

theorem overlay_reads_ahead:
  assumes "batch_store S view" "apply_batch S s ws = Ok s'"
  shows "overlay_get (overlay_stage ws (overlay_new (get_of S s))) h i = get_of S s' h i"
proof -
  have "overlay_get (overlay_new (get_of S s)) = reads (view s)"
    using batch_store.get_view [OF assms(1)] by (simp add: fun_eq_iff)
  from overlay_stage_reads [OF this, of ws] show ?thesis
    using batch_store.apply_Ok_iff [OF assms] batch_store.get_view [OF assms(1)] by simp
qed

theorem overlay_reads_ahead_witness:
  "\<exists>s'. apply_batch mem_store Map.empty [Put (WaveId 3) [1], Remove 7 (WaveId 3), Put (WaveId 4) [2]] = Ok s' \<and>
     overlay_get (overlay_stage [Put (WaveId 3) [1], Remove 7 (WaveId 3), Put (WaveId 4) [2]]
       (overlay_new (get_of mem_store Map.empty))) 7 (WaveId 4) = get_of mem_store s' 7 (WaveId 4)"
  using overlay_reads_ahead [OF mem.batch_store_axioms,
    of Map.empty "[Put (WaveId 3) [1], Remove 7 (WaveId 3), Put (WaveId 4) [2]]"]
  by (simp add: mem_store_def mem_apply_def)

text \<open>C28: A batch of writes survives the wire: its image decodes back to the same writes in the same
  order, and any bytes at all decode to a batch or an error.\<close>

theorem batch_wire_roundtrip:
  assumes "list_all valid_write ws" "vec_heap_size wire_write ws < 2 ^ 32"
  shows "from_wire (wire_vec wire_write) (to_wire (wire_vec wire_write) ws) = Ok ws
    \<and> returns (from_wire (wire_vec wire_write) bs)"
proof
  have "wave_wire (wire_vec wire_write) (valid_vec wire_write valid_write)"
    by (rule wwrite.wire_vec_ok) (simp add: nonempty_units_def wire_write_def)
  then show "from_wire (wire_vec wire_write) (to_wire (wire_vec wire_write) ws) = Ok ws"
    using assms by (simp add: wave_wire.from_wire_to_wire valid_vec_def)
  show "returns (from_wire (wire_vec wire_write) bs)"
    by (rule total_wire.from_wire_returns [OF wwritet.wire_vec_total]) (simp add: wire_write_def)
qed

theorem batch_wire_roundtrip_witness:
  "from_wire (wire_vec wire_write) (to_wire (wire_vec wire_write) [Expect 7 (WaveId 3) None, Put (WaveId 3) [1, 2]])
     = Ok [Expect 7 (WaveId 3) None, Put (WaveId 3) [1, 2]]"
  by (rule batch_wire_roundtrip [THEN conjunct1])
    (simp_all add: valid_write_def field_sel_def wire_write_def wire_id_def)

end
