(* ===== verification/Metadata.thy ===== *)
theory Metadata
  imports Store
begin

text \<open>
  The per-record header (\<open>wavedb-core/src/metadata.rs\<close>, \<open>permission.rs\<close>) and its wire image:
  the hand-written nine-byte \<open>Succession\<close>, the derived \<open>PermissionRef\<close> enum, and the derived
  \<open>Metadata\<close> struct over seven fields.
\<close>

section \<open>Data\<close>

datatype succession = CreatedAt u64 | Next u64

definition instant_of :: "succession \<Rightarrow> u64" where
  "instant_of s = (case s of CreatedAt t \<Rightarrow> t | Next t \<Rightarrow> t)"

datatype permission_ref = Public | Tenants "U48 list" | Group u64

record metadata =
  previous :: "u64 option"
  succession :: succession
  removed :: bool
  pivot_id :: "local_id option"
  user :: U48
  device_created :: u64
  permission :: "permission_ref option"

definition metadata_default :: metadata where
  "metadata_default = \<lparr>previous = None, succession = CreatedAt 0, removed = False, pivot_id = None,
     user = U48_ZERO, device_created = 0, permission = None\<rparr>"

definition is_live :: "metadata \<Rightarrow> bool" where
  "is_live m = (\<not> removed m)"

section \<open>Wire images\<close>

definition wire_succession :: "succession wire" where
  "wire_succession = \<lparr>
     STACK_SIZE = 9,
     heap_size = (\<lambda>_. 0),
     encode_stack = (\<lambda>s. let (tag, instant) = (case s of CreatedAt t \<Rightarrow> (0, t) | Next t \<Rightarrow> (1, t))
                         in tag # to_le_bytes 8 instant),
     encode_heap = (\<lambda>_. []),
     decode = (\<lambda>sc hc. try_then (cursor_take 1 sc) (\<lambda>(t, sc').
        try_then (cursor_take 8 sc') (\<lambda>(bytes, sc'').
          let tag = t ! 0; instant = from_le_bytes bytes
          in if tag = 0 then Ok (CreatedAt instant, sc'', hc)
             else if tag = 1 then Ok (Next instant, sc'', hc)
             else Err (InvalidTag tag))))\<rparr>"

primrec permission_sel :: "permission_ref \<Rightarrow> byte \<times> nat \<times> byte list" where
  "permission_sel Public = unit_sel 0"
| "permission_sel (Tenants ts) = field_sel 1 (wire_vec wire_u48) ts"
| "permission_sel (Group g) = field_sel 2 wire_u64 g"

definition permission_arms :: "(byte list \<Rightarrow> permission_ref wres) list" where
  "permission_arms = [unit_arm Public, field_arm (wire_vec wire_u48) Tenants, field_arm wire_u64 Group]"

definition wire_permission :: "permission_ref wire" where
  "wire_permission = wire_enum permission_sel permission_arms"

text \<open>\<open>#[derive(WaveWire)]\<close> on \<open>Metadata\<close>: seven fields in declaration order.\<close>

definition wire_metadata :: "metadata wire" where
  "wire_metadata = wire_struct
     (\<lambda>m. (previous m, succession m, removed m, pivot_id m, user m, device_created m, permission m))
     (\<lambda>(p, s, r, pv, u, d, pm). \<lparr>previous = p, succession = s, removed = r, pivot_id = pv, user = u,
        device_created = d, permission = pm\<rparr>)
     (wire_tuple2 (wire_option wire_u64)
     (wire_tuple2 wire_succession
     (wire_tuple2 wire_bool
     (wire_tuple2 (wire_option wire_local_id)
     (wire_tuple2 wire_u48
     (wire_tuple2 wire_u64
        (wire_option wire_permission)))))))"

section \<open>The contract holds\<close>

interpretation wsuccession: wave_wire wire_succession "\<lambda>_. True"
proof
  fix v sc hc
  assume s: "at_cursor sc (encode_stack wire_succession v)"
    and h: "at_cursor hc (encode_heap wire_succession v)"
  have "decode wire_succession sc hc = Ok (v, advance 9 sc, hc)" if "v = CreatedAt t \<or> v = Next t" for t
  proof -
    let ?tag = "if v = CreatedAt t then 0 else 1 :: byte"
    have "at_cursor sc (?tag # to_le_bytes 8 t)" using s that by (auto simp: wire_succession_def)
    then have "at_cursor sc [?tag]" "at_cursor (advance 1 sc) (to_le_bytes 8 t)"
      by (subst (asm) at_cursor_Cons [of sc ?tag "to_le_bytes 8 t"], simp)+
    then show ?thesis
      using that by (auto simp: wire_succession_def cursor_take_at)
  qed
  moreover obtain t where "v = CreatedAt t \<or> v = Next t" by (cases v) auto
  ultimately have "decode wire_succession sc hc = Ok (v, advance 9 sc, hc)" by blast
  then show "decode wire_succession sc hc =
      Ok (v, advance (STACK_SIZE wire_succession) sc, advance (heap_size wire_succession v) hc)"
    by (simp add: wire_succession_def)
qed (simp_all add: wire_succession_def split: succession.splits)

interpretation wsuccessiont: total_wire wire_succession
  by unfold_locales (auto simp: wire_succession_def try_then_Ok_iff Let_def moved_refl
      split: if_splits dest!: cursor_take_moved intro: moved_trans dest: moved_wf)

lemma wire_u48_total: "total_wire wire_u48"
  by unfold_locales (auto simp: wire_u48_def try_then_Ok_iff moved_refl dest!: cursor_take_moved)

definition valid_tenants :: "U48 list \<Rightarrow> bool" where
  "valid_tenants ts \<longleftrightarrow> list_all u48_ok ts \<and> 6 * length ts < 2 ^ 32"

lemma vec_heap_size_u48 [simp]: "vec_heap_size wire_u48 ts = 6 * length ts"
  by (induction ts) (auto simp: wire_u48_def)

lemma valid_vec_u48: "valid_vec wire_u48 u48_ok = valid_tenants"
  by (auto simp: fun_eq_iff valid_vec_def valid_tenants_def)

interpretation wtenants: wave_wire "wire_vec wire_u48" valid_tenants
  using wu48.wire_vec_ok unfolding valid_vec_u48 by (simp add: nonempty_units_def wire_u48_def)

text \<open>A permission fits the wire when its tenant list does; 64 bytes are left for the rest of the
  header around it.\<close>

definition valid_permission :: "permission_ref \<Rightarrow> bool" where
  "valid_permission p \<longleftrightarrow> (case p of Tenants ts \<Rightarrow> list_all u48_ok ts \<and> 6 * length ts + 64 < 2 ^ 32 | _ \<Rightarrow> True)"

lemma permission_arm_reads_back:
  assumes "valid_permission p"
  shows "arm_reads_back permission_sel permission_arms p"
proof (cases p)
  case Public
  then show ?thesis by (simp add: arm_reads_back_def permission_arms_def unit_sel_def unit_arm_def)
next
  case (Tenants ts)
  then have "valid_tenants ts" using assms by (simp add: valid_permission_def valid_tenants_def)
  then show ?thesis
    using Tenants assms wtenants.field_arm_reads_back [of ts Tenants] wtenants.field_sel_length [of ts 1]
    by (simp add: arm_reads_back_def permission_arms_def valid_permission_def field_sel_def)
next
  case (Group g)
  then show ?thesis
    using wu64.field_arm_reads_back [of Group g] wu64.field_sel_length [of 2 g]
    by (simp add: arm_reads_back_def permission_arms_def field_sel_def)
qed

interpretation wpermission: wave_wire wire_permission valid_permission
  using wire_enum_ok [of permission_sel permission_arms] permission_arm_reads_back
  by (auto simp: wire_permission_def wave_wire_def)

interpretation wpermissiont: total_wire wire_permission
proof -
  have "total_wire (wire_vec wire_u48)"
    by (rule total_wire.wire_vec_total [OF wire_u48_total]) (simp add: wire_u48_def)
  then show "total_wire wire_permission"
    unfolding wire_permission_def
    by (intro wire_enum_total)
      (auto simp: permission_arms_def intro: field_arm_returns unit_arm_returns wire_le_total)
qed

text \<open>The values a header can carry on the wire: 48-bit authors, short tenant lists.\<close>

definition valid_metadata :: "metadata \<Rightarrow> bool" where
  "valid_metadata m \<longleftrightarrow> u48_ok (user m) \<and> (case permission m of None \<Rightarrow> True | Some p \<Rightarrow> valid_permission p)"

interpretation wmetadata: wave_wire wire_metadata valid_metadata
  using wire_struct_ok [OF wire_tuple2_ok [OF wu64.wire_option_ok
      wire_tuple2_ok [OF wsuccession.wave_wire_axioms
      wire_tuple2_ok [OF wbool.wave_wire_axioms
      wire_tuple2_ok [OF wlid.wire_option_ok
      wire_tuple2_ok [OF wu48.wave_wire_axioms
      wire_tuple2_ok [OF wu64.wave_wire_axioms wpermission.wire_option_ok]]]]]],
      of "\<lambda>(p, s, r, pv, u, d, pm). \<lparr>previous = p, succession = s, removed = r, pivot_id = pv, user = u,
        device_created = d, permission = pm\<rparr>"
      "\<lambda>m. (previous m, succession m, removed m, pivot_id m, user m, device_created m, permission m)"]
  by (simp add: wire_metadata_def valid_metadata_def [abs_def] option.case_eq_if)

interpretation wmetadatat: total_wire wire_metadata
  unfolding wire_metadata_def
  by (intro wire_struct_total wire_tuple2_total wire_option_total wire_le_total wlidt.total_wire_axioms
      wire_u48_total wboolt.total_wire_axioms wsuccessiont.total_wire_axioms wpermissiont.total_wire_axioms)

lemma metadata_stack_size: "STACK_SIZE wire_metadata = 27"
  by (simp add: wire_metadata_def wire_succession_def wire_u48_def)

text \<open>A valid header fits the \<open>u32\<close> length slot of the record envelope.\<close>

lemma metadata_fits:
  assumes "valid_metadata m"
  shows "length (to_wire wire_metadata m) < 2 ^ 32"
proof -
  have "heap_size (wire_option wire_u64) (previous m) \<le> 8"
    "heap_size (wire_option wire_local_id) (pivot_id m) \<le> 10"
    by (cases "previous m"; simp) (cases "pivot_id m"; simp add: wire_local_id_def)
  moreover have "heap_size (wire_option wire_permission) (permission m) < 2 ^ 32 - 50"
  proof (cases "permission m")
    case (Some p)
    then have "valid_permission p" using assms by (simp add: valid_metadata_def)
    then show ?thesis using Some
      by (cases p) (auto simp: wire_permission_def unit_sel_def field_sel_def valid_permission_def)
  qed simp
  moreover have "heap_size wire_metadata m = heap_size (wire_option wire_u64) (previous m) +
      heap_size (wire_option wire_local_id) (pivot_id m) + heap_size (wire_option wire_permission) (permission m)"
    by (simp add: wire_metadata_def wire_succession_def wire_u48_def)
  ultimately show ?thesis
    using assms by (simp add: wmetadata.to_wire_length metadata_stack_size)
qed

end
