(* ===== verification/Records.thy ===== *)
theory Records
  imports Metadata
begin

text \<open>
  Stored records and the version chain (\<open>wavedb-core/src/record.rs\<close>, \<open>record_unique.rs\<close>): the
  two envelopes, the planning of a chained save, the newest-first history walk, and the
  operations on \<open>Unique\<close> anchors.

  The clock and the static \<open>LAST\<close> of \<open>mint_instant\<close> are explicit: an operation takes the clock
  reading \<open>now\<close> and the current \<open>LAST\<close> and returns the new \<open>LAST\<close>.
\<close>

section \<open>Data\<close>

text \<open>The constants of \<open>WaveDbStruct\<close> and the type's codec.\<close>

record 'v wavedb_struct =
  STRUCT_HASH :: u64
  SHAPE :: shape
  WIRE :: "'v wire"

datatype mutation_kind = Saved | Removed u64

record mutation =
  mut_struct_hash :: u64
  mut_tenant :: U48
  mut_pivot :: "local_id option"
  mut_id :: wave_id
  mut_kind :: mutation_kind
  mut_meta :: "metadata option"
  mut_body :: "byte list"

record save_plan =
  plan_hash :: u64
  plan_shape :: shape
  live_id :: wave_id
  plan_tenant :: U48
  plan_user :: U48
  plan_pivot_id :: "local_id option"
  imposed :: "metadata option"
  plan_floor :: u64
  revives :: bool

section \<open>Envelopes\<close>

definition ENVELOPE_PREFIX :: nat where
  "ENVELOPE_PREFIX = 8"

definition RECORD_PREFIX :: nat where
  "RECORD_PREFIX = ENVELOPE_PREFIX + 4"

definition encode_envelope :: "'v wire \<Rightarrow> u64 \<Rightarrow> 'v \<Rightarrow> byte list" where
  "encode_envelope W hash v = to_le_bytes 8 hash @ to_wire W v"

definition decode_envelope :: "'v wire \<Rightarrow> u64 \<Rightarrow> byte list \<Rightarrow> 'v cres" where
  "decode_envelope W hash bytes =
     (if length bytes < ENVELOPE_PREFIX then Err (UnknownStructHash 0)
      else let got = from_le_bytes (take ENVELOPE_PREFIX bytes)
           in if got \<noteq> hash then Err (UnknownStructHash got)
              else map_err Wire (from_wire W (drop ENVELOPE_PREFIX bytes)))"

definition encode_record_raw :: "u64 \<Rightarrow> metadata \<Rightarrow> byte list \<Rightarrow> byte list" where
  "encode_record_raw hash meta body =
     (let meta_bytes = to_wire wire_metadata meta
      in to_le_bytes 8 hash @ to_le_bytes 4 (word_of_nat (length meta_bytes) :: u32) @ meta_bytes @ body)"

definition encode_record :: "'v wire \<Rightarrow> u64 \<Rightarrow> metadata \<Rightarrow> 'v \<Rightarrow> byte list" where
  "encode_record W hash meta v = encode_record_raw hash meta (to_wire W v)"

definition split_record :: "u64 \<Rightarrow> byte list \<Rightarrow> (metadata \<times> byte list) cres" where
  "split_record hash bytes =
     (if length bytes < ENVELOPE_PREFIX then Err (UnknownStructHash 0)
      else let got = from_le_bytes (take ENVELOPE_PREFIX bytes)
           in if got \<noteq> hash then Err (UnknownStructHash got)
              else if length bytes < RECORD_PREFIX then Err (Wire UnexpectedEof)
              else let len = from_le_bytes (take 4 (drop ENVELOPE_PREFIX bytes)) :: u32;
                       meta_end = RECORD_PREFIX + unat len
                   in if length bytes < meta_end then Err (Wire UnexpectedEof)
                      else try_then (map_err Wire
                             (from_wire wire_metadata (drop RECORD_PREFIX (take meta_end bytes))))
                             (\<lambda>meta. Ok (meta, drop meta_end bytes)))"

definition decode_record :: "'v wire \<Rightarrow> u64 \<Rightarrow> byte list \<Rightarrow> (metadata \<times> 'v) cres" where
  "decode_record W hash bytes =
     try_then (split_record hash bytes) (\<lambda>(meta, body).
       try_then (map_err Wire (from_wire W body)) (\<lambda>v. Ok (meta, v)))"

section \<open>The version chain\<close>

text \<open>The header an authored-here save writes: a first version, or the successor of \<open>old\<close>.\<close>

definition first_meta :: "save_plan \<Rightarrow> u64 \<Rightarrow> u64 \<Rightarrow> metadata \<times> u64" where
  "first_meta plan now LAST = (case imposed plan of
      Some m \<Rightarrow> (m, LAST)
    | None \<Rightarrow> (let (t, LAST1) = mint_instant now (plan_floor plan) LAST
               in (metadata_default\<lparr>succession := CreatedAt t, pivot_id := plan_pivot_id plan,
                     user := plan_user plan\<rparr>, LAST1)))"

definition next_meta :: "save_plan \<Rightarrow> metadata \<Rightarrow> u64 \<Rightarrow> u64 \<Rightarrow> u64 \<Rightarrow> metadata \<times> u64" where
  "next_meta plan old authored now LAST = (case imposed plan of
      Some m \<Rightarrow> (m, LAST)
    | None \<Rightarrow> (let (t, LAST1) = mint_instant now (max authored (plan_floor plan)) LAST
               in (\<lparr>previous = Some authored, succession = CreatedAt t,
                     removed = (\<not> revives plan \<and> removed old), pivot_id = pivot_id old,
                     user = plan_user plan, device_created = 0, permission = permission old\<rparr>, LAST1)))"

text \<open>The batch over an existing version: guard, archive when it precedes, new live record.\<close>

definition chained_writes ::
    "'v wire \<Rightarrow> save_plan \<Rightarrow> byte list \<Rightarrow> metadata \<Rightarrow> byte list \<Rightarrow> u64 \<Rightarrow> metadata \<Rightarrow> u64 \<Rightarrow> 'v \<Rightarrow> write_op list" where
  "chained_writes W plan old_bytes old_meta old_body authored live_meta instant v =
     [Expect (plan_hash plan) (live_id plan) (Some old_bytes)]
     @ (if authored < instant
        then [Put (archive_id (plan_hash plan) (plan_shape plan) authored (plan_tenant plan))
                  (encode_record_raw (plan_hash plan) (old_meta\<lparr>succession := Next instant\<rparr>) old_body)]
        else [])
     @ [Put (live_id plan) (encode_record W (plan_hash plan) live_meta v)]"

definition plan_chained_save ::
    "'s store \<Rightarrow> 's \<Rightarrow> 'v wire \<Rightarrow> save_plan \<Rightarrow> 'v \<Rightarrow> u64 \<Rightarrow> u64
     \<Rightarrow> (write_op list \<times> (u64 \<times> 'v) option \<times> metadata \<times> u64) cres" where
  "plan_chained_save S s W plan v now LAST =
     try_then (get_of S s (plan_hash plan) (live_id plan)) (\<lambda>found. case found of
       None \<Rightarrow> (let (meta, LAST1) = first_meta plan now LAST
                in Ok ([Expect (plan_hash plan) (live_id plan) None,
                        Put (live_id plan) (encode_record W (plan_hash plan) meta v)], None, meta, LAST1))
     | Some old_bytes \<Rightarrow>
         try_then (split_record (plan_hash plan) old_bytes) (\<lambda>(old_meta, old_body).
         try_then (map_err Wire (from_wire W old_body)) (\<lambda>old_value.
         case succession old_meta of
           Next _ \<Rightarrow> Err (ChainCorrupt (live_id plan))
         | CreatedAt authored \<Rightarrow>
             (let (live_meta, LAST1) = next_meta plan old_meta authored now LAST
              in case succession live_meta of
                   Next _ \<Rightarrow> Err (ChainCorrupt (live_id plan))
                 | CreatedAt instant \<Rightarrow>
                     Ok (chained_writes W plan old_bytes old_meta old_body authored live_meta instant v,
                         Some (authored, old_value), live_meta, LAST1)))))"

text \<open>The stream, collected; a cyclic chain makes it infinite, \<open>None\<close>.\<close>

partial_function (option) history_stream ::
    "'s store \<Rightarrow> 's \<Rightarrow> 'v wire \<Rightarrow> u64 \<Rightarrow> shape \<Rightarrow> U48 \<Rightarrow> wave_id option \<Rightarrow> (core_error + metadata \<times> 'v) list option" where
  "history_stream S s W hash sh tenant nxt = (case nxt of
      None \<Rightarrow> Some []
    | Some i \<Rightarrow> (case get_of S s hash i of
        None \<Rightarrow> None
      | Some (Inl e) \<Rightarrow> Some [Inl e]
      | Some (Inr None) \<Rightarrow> Some [Inl (RecordMissing i)]
      | Some (Inr (Some bytes)) \<Rightarrow> (case decode_record W hash bytes of
            None \<Rightarrow> None
          | Some (Inl e) \<Rightarrow> Some [Inl e]
          | Some (Inr (meta, v)) \<Rightarrow>
              Option.bind (history_stream S s W hash sh tenant
                  (map_option (\<lambda>t. archive_id hash sh t tenant) (previous meta)))
                (\<lambda>older. Some (Inr (meta, v) # older)))))"

section \<open>\<open>Unique\<close> anchors\<close>

definition unique_anchor :: "'v wavedb_struct \<Rightarrow> U48 \<Rightarrow> wave_id" where
  "unique_anchor T tenant = id_new (STRUCT_HASH T) tenant True 0"

definition get_unique :: "'s store \<Rightarrow> 's \<Rightarrow> 'v wavedb_struct \<Rightarrow> U48 \<Rightarrow> 'v option cres" where
  "get_unique S s T tenant =
     try_then (get_of S s (STRUCT_HASH T) (unique_anchor T tenant)) (\<lambda>found. case found of
       Some bytes \<Rightarrow> try_then (decode_record (WIRE T) (STRUCT_HASH T) bytes) (\<lambda>(_, v). Ok (Some v))
     | None \<Rightarrow> Ok None)"

text \<open>The store's \<open>note_mutation\<close> hook receives the returned \<open>mutation\<close>.\<close>

definition unique_plan :: "'v wavedb_struct \<Rightarrow> U48 \<Rightarrow> U48 \<Rightarrow> metadata option \<Rightarrow> save_plan" where
  "unique_plan T tenant author imp =
     \<lparr>plan_hash = STRUCT_HASH T, plan_shape = SHAPE T, live_id = unique_anchor T tenant,
      plan_tenant = tenant, plan_user = author, plan_pivot_id = None, imposed = imp, plan_floor = 0,
      revives = False\<rparr>"

definition save_unique_as ::
    "'s store \<Rightarrow> 's \<Rightarrow> 'v wavedb_struct \<Rightarrow> U48 \<Rightarrow> U48 \<Rightarrow> 'v \<Rightarrow> u64 \<Rightarrow> u64 \<Rightarrow> ('s \<times> mutation \<times> u64) cres" where
  "save_unique_as S s T tenant author v now LAST =
     try_then (plan_chained_save S s (WIRE T) (unique_plan T tenant author None) v now LAST)
       (\<lambda>(writes, _, live_meta, LAST1).
         try_then (apply_batch S s writes) (\<lambda>s'.
           Ok (s', \<lparr>mut_struct_hash = STRUCT_HASH T, mut_tenant = tenant, mut_pivot = None,
                    mut_id = unique_anchor T tenant, mut_kind = Saved, mut_meta = Some live_meta,
                    mut_body = to_wire (WIRE T) v\<rparr>, LAST1)))"

definition save_unique ::
    "'s store \<Rightarrow> 's \<Rightarrow> 'v wavedb_struct \<Rightarrow> U48 \<Rightarrow> 'v \<Rightarrow> u64 \<Rightarrow> u64 \<Rightarrow> ('s \<times> mutation \<times> u64) cres" where
  "save_unique S s T tenant v now LAST = save_unique_as S s T tenant tenant v now LAST"

definition adopt_unique ::
    "'s store \<Rightarrow> 's \<Rightarrow> 'v wavedb_struct \<Rightarrow> U48 \<Rightarrow> metadata \<Rightarrow> 'v \<Rightarrow> u64 \<Rightarrow> u64 \<Rightarrow> ('s \<times> u64) cres" where
  "adopt_unique S s T tenant meta v now LAST =
     (let adopt = try_then (plan_chained_save S s (WIRE T)
                    (unique_plan T tenant (user meta) (Some meta)) v now LAST) (\<lambda>(writes, _, _, LAST1).
                      try_then (apply_batch S s writes) (\<lambda>s'. Ok (s', LAST1)))
      in try_then (get_of S s (STRUCT_HASH T) (unique_anchor T tenant)) (\<lambda>found. case found of
           Some bytes \<Rightarrow> try_then (split_record (STRUCT_HASH T) bytes) (\<lambda>(existing, body).
             if existing = meta \<and> body = to_wire (WIRE T) v then Ok (s, LAST) else adopt)
         | None \<Rightarrow> adopt))"

definition unique_history :: "'s store \<Rightarrow> 's \<Rightarrow> 'v wavedb_struct \<Rightarrow> U48 \<Rightarrow> (core_error + metadata \<times> 'v) list option" where
  "unique_history S s T tenant = (case get_of S s (STRUCT_HASH T) (unique_anchor T tenant) of
      None \<Rightarrow> None
    | Some (Inl e) \<Rightarrow> Some [Inl e]
    | Some (Inr None) \<Rightarrow> Some []
    | Some (Inr (Some _)) \<Rightarrow>
        history_stream S s (WIRE T) (STRUCT_HASH T) (SHAPE T) tenant (Some (unique_anchor T tenant)))"

section \<open>Envelope lemmas\<close>

lemma split_encode_record_raw:
  assumes "valid_metadata m"
  shows "split_record hash (encode_record_raw hash m body) = Ok (m, body)"
proof -
  let ?mb = "to_wire wire_metadata m"
  have len: "unat (word_of_nat (length ?mb) :: u32) = length ?mb"
    by (rule unat_word_of_nat_32) (rule metadata_fits [OF assms])
  have "from_wire wire_metadata ?mb = Ok m"
    using assms by (simp add: wmetadata.from_wire_to_wire)
  then show ?thesis
    by (simp add: split_record_def encode_record_raw_def ENVELOPE_PREFIX_def RECORD_PREFIX_def Let_def len)
qed

lemma decode_encode_record:
  assumes "valid_metadata m" and "from_wire W (to_wire W v) = Ok v"
  shows "decode_record W hash (encode_record W hash m v) = Ok (m, v)"
  using assms by (simp add: decode_record_def encode_record_def split_encode_record_raw)

lemma split_record_returns: "returns (split_record hash bytes)"
  by (simp add: split_record_def Let_def wmetadatat.from_wire_returns)

lemma encode_record_inject:
  assumes "encode_record W hash m v = encode_record W hash m' v'" "valid_metadata m" "valid_metadata m'"
  shows "m = m'" "to_wire W v = to_wire W v'"
proof -
  have "split_record hash (encode_record W hash m v) = Ok (m, to_wire W v)"
    "split_record hash (encode_record W hash m' v') = Ok (m', to_wire W v')"
    unfolding encode_record_def using assms(2, 3) by (auto intro: split_encode_record_raw)
  then show "m = m'" "to_wire W v = to_wire W v'"
    unfolding assms(1) by simp_all
qed

section \<open>The chain invariant\<close>

text \<open>
  The archives below instant \<open>succ\<close>, starting at the one \<open>p\<close> names: each sits at its derived
  slot, is older than its successor, and carries its successor's instant as its forward link.
\<close>

abbreviation slot :: "save_plan \<Rightarrow> u64 \<Rightarrow> wave_id" where
  "slot plan t \<equiv> archive_id (plan_hash plan) (plan_shape plan) t (plan_tenant plan)"

definition stored_version :: "'v wire \<Rightarrow> u64 \<Rightarrow> kv \<Rightarrow> wave_id \<Rightarrow> metadata \<times> 'v \<Rightarrow> bool" where
  "stored_version W hash m i ver \<longleftrightarrow> m i = Some (encode_record W hash (fst ver) (snd ver))
     \<and> valid_metadata (fst ver) \<and> from_wire W (to_wire W (snd ver)) = Ok (snd ver)"

fun archived_chain :: "'v wire \<Rightarrow> save_plan \<Rightarrow> kv \<Rightarrow> u64 \<Rightarrow> u64 option \<Rightarrow> (metadata \<times> 'v) list \<Rightarrow> bool" where
  "archived_chain W plan m succ p [] \<longleftrightarrow> p = None"
| "archived_chain W plan m succ p (ver # vers) \<longleftrightarrow> (case p of
      None \<Rightarrow> False
    | Some t \<Rightarrow> t < succ \<and> stored_version W (plan_hash plan) m (slot plan t) ver
        \<and> succession (fst ver) = Next succ \<and> archived_chain W plan m t (previous (fst ver)) vers)"

text \<open>The whole chain, newest first; empty when nothing was ever saved.\<close>

fun live_chain :: "'v wire \<Rightarrow> save_plan \<Rightarrow> kv \<Rightarrow> (metadata \<times> 'v) list \<Rightarrow> bool" where
  "live_chain W plan m [] \<longleftrightarrow> m (live_id plan) = None"
| "live_chain W plan m (ver # vers) \<longleftrightarrow> stored_version W (plan_hash plan) m (live_id plan) ver
     \<and> (case succession (fst ver) of Next _ \<Rightarrow> False
          | CreatedAt t \<Rightarrow> archived_chain W plan m t (previous (fst ver)) vers)"

text \<open>A save addresses an anchor of its shape: \<open>FLAG\<close> is the shape's own.\<close>

definition anchored :: "save_plan \<Rightarrow> bool" where
  "anchored plan \<longleftrightarrow> u48_ok (plan_tenant plan) \<and> id_flag (live_id plan) = anchor_flag (plan_shape plan)"

lemma slot_not_live: "anchored plan \<Longrightarrow> slot plan t \<noteq> live_id plan"
  by (metis anchored_def archive_id_flag)

lemma slot_inject: "anchored plan \<Longrightarrow> slot plan t = slot plan u \<longleftrightarrow> t = u"
  by (metis anchored_def archive_id_fields(1))

lemma archived_chain_frame:
  assumes "archived_chain W plan m succ p vers" "\<And>t. t < succ \<Longrightarrow> m' (slot plan t) = m (slot plan t)"
  shows "archived_chain W plan m' succ p vers"
  using assms
proof (induction vers arbitrary: succ p)
  case (Cons ver vers)
  from Cons.prems(1) obtain t where t: "p = Some t" "t < succ" by (auto split: option.splits)
  have "archived_chain W plan m' t (previous (fst ver)) vers"
    by (rule Cons.IH) (use Cons.prems t in \<open>auto intro: less_trans\<close>)
  then show ?case using Cons.prems t by (simp add: stored_version_def)
qed simp

lemma next_meta_authored:
  assumes "imposed plan = None" "next_meta plan old authored now LAST = (meta, LAST1)" "authored \<noteq> - 1"
  shows "\<exists>t. succession meta = CreatedAt t \<and> authored < t" "previous meta = Some authored"
    "user meta = plan_user plan" "permission meta = permission old"
proof -
  obtain t L where mint: "mint_instant now (max authored (plan_floor plan)) LAST = (t, L)" by fastforce
  have "authored < t"
  proof (cases "max authored (plan_floor plan) = - 1")
    case True
    then have "t = - 1"
      using mint by (auto simp: mint_instant_def Let_def max_def word_order.extremum_uniqueI split: if_splits)
    then show ?thesis using assms(3) by (simp add: word_order.not_eq_extremum)
  next
    case False
    then show ?thesis
      using mint_instant_above(1) [OF mint] by (meson le_less_trans max.cobounded1)
  qed
  then show "\<exists>t. succession meta = CreatedAt t \<and> authored < t" "previous meta = Some authored"
    "user meta = plan_user plan" "permission meta = permission old"
    using assms(1, 2) mint by (auto simp: next_meta_def)
qed


section \<open>Saving and walking over any store\<close>

lemma chained_writes_effect:
  assumes "anchored plan" "live_chain W plan m ((m0, v0) # vers)" "succession m0 = CreatedAt a"
    "a < t" "succession meta = CreatedAt t" "previous meta = Some a" "valid_metadata meta"
    "from_wire W (to_wire W v) = Ok v" "m (live_id plan) = Some old_bytes"
  shows "live_chain W plan
    (batch_effect (chained_writes W plan old_bytes m0 (to_wire W v0) a meta t v) m)
    ((meta, v) # (m0\<lparr>succession := Next t\<rparr>, v0) # vers)"
proof -
  let ?ws = "chained_writes W plan old_bytes m0 (to_wire W v0) a meta t v"
  let ?m' = "batch_effect ?ws m"
  have m': "?m' = m(slot plan a \<mapsto> encode_record W (plan_hash plan) (m0\<lparr>succession := Next t\<rparr>) v0,
      live_id plan \<mapsto> encode_record W (plan_hash plan) meta v)"
    using assms(4) by (simp add: chained_writes_def encode_record_def)
  have "archived_chain W plan m a (previous m0) vers" using assms(2, 3) by simp
  then have "archived_chain W plan ?m' a (previous m0) vers"
    by (rule archived_chain_frame)
      (auto simp: m' slot_not_live [OF assms(1)] slot_inject [OF assms(1)])
  moreover have "valid_metadata (m0\<lparr>succession := Next t\<rparr>)" "from_wire W (to_wire W v0) = Ok v0"
    using assms(2) by (simp_all add: stored_version_def valid_metadata_def)
  ultimately show ?thesis
    unfolding m' using assms(4-8) slot_not_live [OF assms(1), of a] by (simp add: stored_version_def)
qed

context batch_store
begin

lemma history_of_archives:
  assumes "archived_chain W plan (view s) succ p vers"
  shows "history_stream S s W (plan_hash plan) (plan_shape plan) (plan_tenant plan)
      (map_option (slot plan) p) = Some (map Inr vers)"
  using assms
proof (induction vers arbitrary: succ p)
  case Nil
  then show ?case by (subst history_stream.simps) simp
next
  case (Cons ver vers)
  from Cons.prems obtain t where t: "p = Some t"
    and ver: "stored_version W (plan_hash plan) (view s) (slot plan t) ver"
    and rest: "archived_chain W plan (view s) t (previous (fst ver)) vers"
    by (auto split: option.splits)
  show ?case
    using ver Cons.IH [OF rest]
    by (subst history_stream.simps)
      (simp add: t get_view stored_version_def decode_encode_record case_prod_unfold)
qed

text \<open>The walk from the anchor yields the chain, newest first, and ends.\<close>

lemma history_of_live:
  assumes "live_chain W plan (view s) (ver # vers)"
  shows "history_stream S s W (plan_hash plan) (plan_shape plan) (plan_tenant plan) (Some (live_id plan))
    = Some (map Inr (ver # vers))"
proof -
  from assms obtain t where "archived_chain W plan (view s) t (previous (fst ver)) vers"
    by (auto split: succession.splits)
  from history_of_archives [OF this] show ?thesis
    using assms by (subst history_stream.simps)
      (simp add: get_view stored_version_def decode_encode_record case_prod_unfold)
qed

lemma plan_first_save:
  assumes "live_chain W plan (view s) []" "imposed plan = None" "u48_ok (plan_user plan)"
    "from_wire W (to_wire W v) = Ok v"
  shows "\<exists>ws meta LAST1. plan_chained_save S s W plan v now LAST = Ok (ws, None, meta, LAST1)
    \<and> first_conflict ws (view s) = None \<and> user meta = plan_user plan
    \<and> live_chain W plan (batch_effect ws (view s)) [(meta, v)]"
proof -
  obtain t L where "mint_instant now (plan_floor plan) LAST = (t, L)" by fastforce
  then show ?thesis
    using assms by (simp add: plan_chained_save_def get_view first_meta_def stored_version_def
        valid_metadata_def metadata_default_def)
qed

lemma plan_next_save:
  assumes "anchored plan" "live_chain W plan (view s) ((m0, v0) # vers)" "imposed plan = None"
    "u48_ok (plan_user plan)" "from_wire W (to_wire W v) = Ok v" "succession m0 = CreatedAt a" "a \<noteq> - 1"
  shows "\<exists>ws meta LAST1 t. plan_chained_save S s W plan v now LAST = Ok (ws, Some (a, v0), meta, LAST1)
    \<and> first_conflict ws (view s) = None \<and> user meta = plan_user plan
    \<and> succession meta = CreatedAt t \<and> a < t \<and> previous meta = Some a
    \<and> hd ws = Expect (plan_hash plan) (live_id plan) (view s (live_id plan))
    \<and> live_chain W plan (batch_effect ws (view s)) ((meta, v) # (m0\<lparr>succession := Next t\<rparr>, v0) # vers)"
proof -
  obtain meta L where nm: "next_meta plan m0 a now LAST = (meta, L)" by fastforce
  from next_meta_authored [OF assms(3) nm assms(7)] obtain t where
    t: "succession meta = CreatedAt t" "a < t" and meta: "previous meta = Some a"
      "user meta = plan_user plan" "permission meta = permission m0" by blast
  have st: "stored_version W (plan_hash plan) (view s) (live_id plan) (m0, v0)" using assms(2) by simp
  then have live: "view s (live_id plan) = Some (encode_record W (plan_hash plan) m0 v0)"
    and v0: "from_wire W (to_wire W v0) = Ok v0" and m0: "valid_metadata m0"
    by (simp_all add: stored_version_def)
  have vm: "valid_metadata meta" using m0 meta assms(4) by (simp add: valid_metadata_def)
  let ?ws = "chained_writes W plan (encode_record W (plan_hash plan) m0 v0) m0 (to_wire W v0) a meta t v"
  have "plan_chained_save S s W plan v now LAST = Ok (?ws, Some (a, v0), meta, L)"
    using live v0 m0 assms(6) t nm
    by (simp add: plan_chained_save_def get_view encode_record_def split_encode_record_raw)
  moreover have "first_conflict ?ws (view s) = None" using live by (simp add: chained_writes_def)
  moreover have "hd ?ws = Expect (plan_hash plan) (live_id plan) (view s (live_id plan))"
    using live by (simp add: chained_writes_def)
  ultimately show ?thesis
    using chained_writes_effect [OF assms(1, 2, 6) t(2, 1) meta(1) vm assms(5) live] t meta by blast
qed

text \<open>Two saves planned against the same state: whichever commits second is refused.\<close>

lemma second_save_conflicts:
  assumes "hd ws2 = Expect h i (view s i)" "ws2 \<noteq> []" "apply_batch S s ws1 = Ok s'" "view s' i \<noteq> view s i"
  shows "apply_batch S s' ws2 = Err (Conflict i)"
  using assms by (cases ws2) (auto intro!: apply_conflict)

end


section \<open>\<open>Unique\<close> chains\<close>

definition unique_chain :: "'v wavedb_struct \<Rightarrow> U48 \<Rightarrow> kv \<Rightarrow> (metadata \<times> 'v) list \<Rightarrow> bool" where
  "unique_chain T tenant m vers = live_chain (WIRE T) (unique_plan T tenant tenant None) m vers"

lemma archived_chain_addr:
  assumes "plan_hash p = plan_hash q" "plan_shape p = plan_shape q" "plan_tenant p = plan_tenant q"
  shows "archived_chain W p m succ = archived_chain W q m succ"
proof -
  have "archived_chain W p m succ pr vers = archived_chain W q m succ pr vers" for pr vers
    using assms by (induction vers arbitrary: succ pr) (auto split: option.splits)
  then show ?thesis by (simp add: fun_eq_iff)
qed

lemma unique_chain_any: "unique_chain T tenant m vers = live_chain (WIRE T) (unique_plan T tenant author imp) m vers"
proof -
  have "archived_chain (WIRE T) (unique_plan T tenant tenant None) m t =
      archived_chain (WIRE T) (unique_plan T tenant author imp) m t" for t
    by (rule archived_chain_addr) (simp_all add: unique_plan_def)
  then show ?thesis
    by (cases vers) (auto simp: unique_chain_def unique_plan_def split: succession.splits)
qed

lemma unique_plan_anchored:
  "u48_ok tenant \<Longrightarrow> SHAPE T = Unique \<Longrightarrow> anchored (unique_plan T tenant author imp)"
  by (simp add: anchored_def unique_plan_def unique_anchor_def anchor_flag_def)

text \<open>The chain after a save: the new version, then the superseded one with its forward link.\<close>

definition superseded :: "u64 \<Rightarrow> (metadata \<times> 'v) list \<Rightarrow> (metadata \<times> 'v) list" where
  "superseded t vers = (case vers of [] \<Rightarrow> [] | (m0, v0) # r \<Rightarrow> (m0\<lparr>succession := Next t\<rparr>, v0) # r)"

context batch_store
begin

lemma get_unique_chain:
  "unique_chain T tenant (view s) ((meta, v) # vers) \<Longrightarrow> get_unique S s T tenant = Ok (Some v)"
  by (simp add: get_unique_def get_view unique_chain_def unique_plan_def stored_version_def decode_encode_record)

lemma unique_history_chain:
  "unique_chain T tenant (view s) vers \<Longrightarrow> unique_history S s T tenant = Some (map Inr vers)"
  using history_of_live [of "WIRE T" "unique_plan T tenant tenant None" s]
  by (cases vers) (auto simp: unique_chain_def unique_history_def unique_plan_def get_view stored_version_def)

lemma plan_unique_save:
  assumes "SHAPE T = Unique" "u48_ok tenant" "u48_ok author" "from_wire (WIRE T) (to_wire (WIRE T) v) = Ok v"
    and "unique_chain T tenant (view s) vers" "vers \<noteq> [] \<Longrightarrow> succession (fst (hd vers)) \<noteq> CreatedAt (- 1)"
  shows "\<exists>ws old meta LAST1 t.
      plan_chained_save S s (WIRE T) (unique_plan T tenant author None) v now LAST = Ok (ws, old, meta, LAST1)
    \<and> first_conflict ws (view s) = None \<and> user meta = author \<and> succession meta = CreatedAt t
    \<and> hd ws = Expect (STRUCT_HASH T) (unique_anchor T tenant) (view s (unique_anchor T tenant)) \<and> ws \<noteq> []
    \<and> batch_effect ws (view s) (unique_anchor T tenant) \<noteq> view s (unique_anchor T tenant)
    \<and> unique_chain T tenant (batch_effect ws (view s)) ((meta, v) # superseded t vers)"
proof (cases vers)
  case Nil
  obtain t L where "mint_instant now 0 LAST = (t, L)" by fastforce
  then show ?thesis
    using assms Nil by (simp add: unique_chain_def plan_chained_save_def get_view first_meta_def
        stored_version_def valid_metadata_def metadata_default_def unique_plan_def superseded_def)
next
  case (Cons ver r)
  obtain m0 v0 where ver: "ver = (m0, v0)" by (cases ver)
  let ?plan = "unique_plan T tenant author None"
  have chain: "live_chain (WIRE T) ?plan (view s) ((m0, v0) # r)"
    using assms(5) unfolding Cons ver unique_chain_any [of T tenant "view s" _ author None] .
  then obtain a where a: "succession m0 = CreatedAt a" by (auto split: succession.splits)
  have "a \<noteq> - 1" using assms(6) Cons ver a by auto
  with plan_next_save [OF unique_plan_anchored [OF assms(2, 1)] chain _ _ assms(4) a, of now LAST] assms(3)
  obtain ws meta L t where
    plan: "plan_chained_save S s (WIRE T) ?plan v now LAST = Ok (ws, Some (a, v0), meta, L)"
    and fc: "first_conflict ws (view s) = None" and meta: "user meta = author" "succession meta = CreatedAt t" "a < t"
    and hd: "hd ws = Expect (STRUCT_HASH T) (unique_anchor T tenant) (view s (unique_anchor T tenant))"
    and new: "live_chain (WIRE T) ?plan (batch_effect ws (view s)) ((meta, v) # (m0\<lparr>succession := Next t\<rparr>, v0) # r)"
    by (auto simp: unique_plan_def)
  have "ws \<noteq> []" using new chain meta(2, 3) a
    by (auto simp: stored_version_def dest!: encode_record_inject(1))
  moreover have "batch_effect ws (view s) (unique_anchor T tenant) \<noteq> view s (unique_anchor T tenant)"
    using new chain meta(2, 3) a
    by (auto simp: stored_version_def unique_plan_def dest!: encode_record_inject(1))
  moreover have "unique_chain T tenant (batch_effect ws (view s)) ((meta, v) # superseded t vers)"
    using new Cons ver unique_chain_any [of T tenant _ _ author None] by (simp add: superseded_def)
  ultimately show ?thesis
    using plan fc meta hd by blast
qed

lemma plan_over_existing:
  assumes "plan_chained_save S s W plan v now LAST = Ok (ws, old, meta, L)" "view s (live_id plan) = Some bytes"
  shows "\<exists>om ob a t. ws = chained_writes W plan bytes om ob a meta t v \<and> next_meta plan om a now LAST = (meta, L)"
proof -
  from assms obtain om ob ov where *: "(case succession om of
       Next _ \<Rightarrow> Err (ChainCorrupt (live_id plan))
     | CreatedAt authored \<Rightarrow>
         (let (live_meta, LAST1) = next_meta plan om authored now LAST
          in case succession live_meta of
               Next _ \<Rightarrow> Err (ChainCorrupt (live_id plan))
             | CreatedAt instant \<Rightarrow>
                 Ok (chained_writes W plan bytes om ob authored live_meta instant v,
                     Some (authored, ov), live_meta, LAST1))) = Ok (ws, old, meta, L)"
    by (auto simp: plan_chained_save_def get_view try_then_Ok_iff)
  show ?thesis
  proof (cases "succession om")
    case (CreatedAt a)
    obtain lm L1 where nm: "next_meta plan om a now LAST = (lm, L1)" by fastforce
    then show ?thesis using * CreatedAt by (cases "succession lm") auto
  qed (use * in simp)
qed

text \<open>Whatever the plan, its batch leaves the planned version at the anchor.\<close>

lemma plan_writes_live:
  assumes "plan_chained_save S s W plan v now LAST = Ok (ws, old, meta, L)"
  shows "batch_effect ws m (live_id plan) = Some (encode_record W (plan_hash plan) meta v)"
proof (cases "view s (live_id plan)")
  case None
  then show ?thesis using assms by (auto simp: plan_chained_save_def get_view split: prod.splits)
next
  case (Some old_bytes)
  then show ?thesis
    using plan_over_existing [OF assms] by (auto simp: chained_writes_def)
qed

lemma plan_imposed:
  assumes "plan_chained_save S s W plan v now LAST = Ok (ws, old, meta, L)" "imposed plan = Some im"
  shows "meta = im"
proof (cases "view s (live_id plan)")
  case None
  then show ?thesis using assms by (auto simp: plan_chained_save_def get_view first_meta_def)
next
  case (Some old_bytes)
  then show ?thesis
    using plan_over_existing [OF assms(1)] assms(2) by (auto simp: next_meta_def)
qed

lemma adopt_unique_outcome:
  assumes "adopt_unique S s T tenant meta v now LAST = Ok (s', L)" "valid_metadata meta"
  shows "\<exists>bytes. view s' (unique_anchor T tenant) = Some bytes
    \<and> split_record (STRUCT_HASH T) bytes = Ok (meta, to_wire (WIRE T) v)"
proof -
  let ?plan = "unique_plan T tenant (user meta) (Some meta)"
  consider bytes where "s' = s" "view s (unique_anchor T tenant) = Some bytes"
      "split_record (STRUCT_HASH T) bytes = Ok (meta, to_wire (WIRE T) v)"
    | ws old m where "plan_chained_save S s (WIRE T) ?plan v now LAST = Ok (ws, old, m, L)"
      "apply_batch S s ws = Ok s'"
    using assms(1)
    by (auto simp: adopt_unique_def get_view try_then_Ok_iff Let_def split: option.splits if_splits)
  then show ?thesis
  proof cases
    case 2
    have "m = meta" using plan_imposed [OF 2(1)] by (simp add: unique_plan_def)
    moreover have "view s' (live_id ?plan) = Some (encode_record (WIRE T) (plan_hash ?plan) m v)"
      using apply_Ok_iff [OF 2(2)] plan_writes_live [OF 2(1)] by simp
    ultimately show ?thesis
      using split_encode_record_raw [OF assms(2)] by (simp add: unique_plan_def encode_record_def)
  qed simp
qed

end


section \<open>Properties\<close>

text \<open>C16: A stored record reads back: splitting the envelope a save wrote gives the header
  and the value that were saved, for every header and value the wire can carry.\<close>

theorem decode_record_encode_record:
  assumes "wave_wire W valid" "valid v" "valid_metadata m"
  shows "decode_record W hash (encode_record W hash m v) = Ok (m, v)"
  by (rule decode_encode_record [OF assms(3) wave_wire.from_wire_to_wire [OF assms(1, 2)]])

theorem decode_record_encode_record_witness:
  "decode_record wire_u64 7 (encode_record wire_u64 7 metadata_default 42) = Ok (metadata_default, 42)"
  by (rule decode_record_encode_record [OF wu64.wave_wire_axioms])
    (simp_all add: valid_metadata_def metadata_default_def U48_ZERO_def u48_ok_def)

text \<open>C13: Saving a \<open>Unique\<close> record over any store that keeps the batch contract.  From a state
  holding the version chain \<open>vers\<close>, the save commits; the record then reads back as the value
  saved, authored by the caller; and the history walk ends and yields, newest first, the new
  version, the superseded one re-stamped with a forward link to it, and every older version
  untouched.  (The one exception is a live version already authored at the last representable
  instant.)\<close>

theorem save_unique_as_extends_history:
  assumes "batch_store S view" "wave_wire (WIRE T) valid" "valid v" "SHAPE T = Unique" "u48_ok tenant" "u48_ok author"
    and "unique_chain T tenant (view s) vers" "vers \<noteq> [] \<Longrightarrow> succession (fst (hd vers)) \<noteq> CreatedAt (- 1)"
  shows "\<exists>s' mu LAST1 meta t. save_unique_as S s T tenant author v now LAST = Ok (s', mu, LAST1)
    \<and> mut_meta mu = Some meta \<and> user meta = author \<and> succession meta = CreatedAt t
    \<and> get_unique S s' T tenant = Ok (Some v)
    \<and> unique_history S s' T tenant = Some (map Inr ((meta, v) # superseded t vers))
    \<and> unique_chain T tenant (view s') ((meta, v) # superseded t vers)"
proof -
  have rt: "from_wire (WIRE T) (to_wire (WIRE T) v) = Ok v"
    by (rule wave_wire.from_wire_to_wire [OF assms(2, 3)])
  from batch_store.plan_unique_save [OF assms(1, 4-6) rt assms(7, 8)] obtain ws old meta L t where
    plan: "plan_chained_save S s (WIRE T) (unique_plan T tenant author None) v now LAST = Ok (ws, old, meta, L)"
    and fc: "first_conflict ws (view s) = None" and m: "user meta = author" "succession meta = CreatedAt t"
    and new: "unique_chain T tenant (batch_effect ws (view s)) ((meta, v) # superseded t vers)"
    by blast
  from batch_store.apply_commit [OF assms(1) fc] obtain s' where
    s': "apply_batch S s ws = Ok s'" "view s' = batch_effect ws (view s)" by blast
  have "unique_chain T tenant (view s') ((meta, v) # superseded t vers)" using new s'(2) by simp
  note chain = this batch_store.get_unique_chain [OF assms(1) this] batch_store.unique_history_chain [OF assms(1) this]
  show ?thesis
    by (simp add: save_unique_as_def plan s'(1)) (use chain m in auto)
qed

theorem save_unique_as_extends_history_witness:
  "\<exists>s' mu LAST1 meta t.
     save_unique_as mem_store Map.empty \<lparr>STRUCT_HASH = 7, SHAPE = Unique, WIRE = wire_u64\<rparr> (U48 1) (U48 2) 42 100 0
       = Ok (s', mu, LAST1)
    \<and> mut_meta mu = Some meta \<and> user meta = U48 2 \<and> succession meta = CreatedAt t
    \<and> get_unique mem_store s' \<lparr>STRUCT_HASH = 7, SHAPE = Unique, WIRE = wire_u64\<rparr> (U48 1) = Ok (Some 42)
    \<and> unique_history mem_store s' \<lparr>STRUCT_HASH = 7, SHAPE = Unique, WIRE = wire_u64\<rparr> (U48 1) = Some [Inr (meta, 42)]"
  using save_unique_as_extends_history [OF mem.batch_store_axioms, of
      "\<lparr>STRUCT_HASH = 7, SHAPE = Unique, WIRE = wire_u64\<rparr>" "\<lambda>_. True" 42 "U48 1" "U48 2" Map.empty "[]" 100 0]
    wu64.wave_wire_axioms
  by (simp add: unique_chain_def unique_plan_def u48_ok_def U48_MASK_def superseded_def) blast

text \<open>C14: No lost update.  Two saves of one anchor planned against the same state: once the first
  has committed, the second is refused as a conflict on that anchor, and nothing of it is
  written.\<close>

theorem concurrent_unique_save_conflicts:
  assumes "batch_store S view" "wave_wire (WIRE T) valid" "valid v" "valid w" "SHAPE T = Unique"
    and "u48_ok tenant" "u48_ok author1" "u48_ok author2"
    and "unique_chain T tenant (view s) vers" "vers \<noteq> [] \<Longrightarrow> succession (fst (hd vers)) \<noteq> CreatedAt (- 1)"
    and "plan_chained_save S s (WIRE T) (unique_plan T tenant author1 None) v now1 LAST1 = Ok (ws1, old1, meta1, LAST1')"
    and "plan_chained_save S s (WIRE T) (unique_plan T tenant author2 None) w now2 LAST2 = Ok (ws2, old2, meta2, LAST2')"
    and "apply_batch S s ws1 = Ok s'"
  shows "apply_batch S s' ws2 = Err (Conflict (unique_anchor T tenant))"
proof -
  have rt: "from_wire (WIRE T) (to_wire (WIRE T) v) = Ok v" "from_wire (WIRE T) (to_wire (WIRE T) w) = Ok w"
    by (rule wave_wire.from_wire_to_wire [OF assms(2, 3)], rule wave_wire.from_wire_to_wire [OF assms(2, 4)])
  from batch_store.plan_unique_save [OF assms(1, 5-7) rt(1) assms(9, 10), of now1 LAST1] assms(11)
  have "batch_effect ws1 (view s) (unique_anchor T tenant) \<noteq> view s (unique_anchor T tenant)" by auto
  moreover from batch_store.plan_unique_save [OF assms(1, 5, 6, 8) rt(2) assms(9, 10), of now2 LAST2] assms(12)
  have "hd ws2 = Expect (STRUCT_HASH T) (unique_anchor T tenant) (view s (unique_anchor T tenant))" "ws2 \<noteq> []"
    by auto
  ultimately show ?thesis
    using batch_store.second_save_conflicts [OF assms(1) _ _ assms(13)]
      batch_store.apply_Ok_iff [OF assms(1) assms(13)] by metis
qed


theorem concurrent_unique_save_conflicts_witness:
  "\<exists>ws1 o1 m1 L1 ws2 o2 m2 L2 s'. let T = \<lparr>STRUCT_HASH = 7, SHAPE = Unique, WIRE = wire_u64\<rparr> in
     plan_chained_save mem_store Map.empty wire_u64 (unique_plan T (U48 1) (U48 2) None) 42 100 0 = Ok (ws1, o1, m1, L1)
   \<and> plan_chained_save mem_store Map.empty wire_u64 (unique_plan T (U48 1) (U48 3) None) 43 100 0 = Ok (ws2, o2, m2, L2)
   \<and> apply_batch mem_store Map.empty ws1 = Ok s'
   \<and> apply_batch mem_store s' ws2 = Err (Conflict (unique_anchor T (U48 1)))"
proof -
  let ?T = "\<lparr>STRUCT_HASH = 7, SHAPE = Unique, WIRE = wire_u64\<rparr>"
  have ok: "u48_ok (U48 1)" "u48_ok (U48 2)" "u48_ok (U48 3)" by (simp_all add: u48_ok_def U48_MASK_def)
  have chain: "unique_chain ?T (U48 1) Map.empty []" by (simp add: unique_chain_def)
  have wire: "wave_wire (WIRE ?T) (\<lambda>_. True)" by (simp add: wu64.wave_wire_axioms)
  obtain ws1 o1 m1 L1 where p1: "plan_chained_save mem_store Map.empty (WIRE ?T)
      (unique_plan ?T (U48 1) (U48 2) None) 42 100 0 = Ok (ws1, o1, m1, L1)"
    and fc: "first_conflict ws1 Map.empty = None"
    using mem.plan_unique_save [of ?T "U48 1" "U48 2" 42 Map.empty "[]" 100 0] ok chain
      wu64.from_wire_to_wire [of 42] by auto
  obtain ws2 o2 m2 L2 where p2: "plan_chained_save mem_store Map.empty (WIRE ?T)
      (unique_plan ?T (U48 1) (U48 3) None) 43 100 0 = Ok (ws2, o2, m2, L2)"
    using mem.plan_unique_save [of ?T "U48 1" "U48 3" 43 Map.empty "[]" 100 0] ok chain
      wu64.from_wire_to_wire [of 43] by auto
  obtain s' where ap: "apply_batch mem_store Map.empty ws1 = Ok s'"
    using mem.apply_commit [OF fc] by blast
  have "apply_batch mem_store s' ws2 = Err (Conflict (unique_anchor ?T (U48 1)))"
    by (rule concurrent_unique_save_conflicts [OF mem.batch_store_axioms wire _ _ _ ok chain _ p1 p2 ap]) simp_all
  with p1 p2 ap show ?thesis by (auto simp: Let_def)
qed

text \<open>C15: Mirroring is idempotent.  Adopting a node-authored version over any store that keeps the
  batch contract writes its header verbatim, and adopting the same version again changes
  nothing.\<close>

theorem adopt_unique_idempotent:
  assumes "batch_store S view" "wave_wire (WIRE T) valid" "valid v" "valid_metadata meta"
    and "adopt_unique S s T tenant meta v now LAST = Ok (s', LAST1)"
  shows "\<exists>bytes. view s' (unique_anchor T tenant) = Some bytes
      \<and> decode_record (WIRE T) (STRUCT_HASH T) bytes = Ok (meta, v)
      \<and> adopt_unique S s' T tenant meta v now' LAST' = Ok (s', LAST')"
proof -
  let ?a = "unique_anchor T tenant" and ?h = "STRUCT_HASH T"
  have rt: "from_wire (WIRE T) (to_wire (WIRE T) v) = Ok v"
    by (rule wave_wire.from_wire_to_wire [OF assms(2, 3)])
  note get = batch_store.get_view [OF assms(1)]
  obtain bytes where b: "view s' ?a = Some bytes" "split_record ?h bytes = Ok (meta, to_wire (WIRE T) v)"
    using batch_store.adopt_unique_outcome [OF assms(1, 5, 4)] by blast
  then show ?thesis
    by (simp add: decode_record_def rt adopt_unique_def get)
qed

theorem adopt_unique_idempotent_witness:
  "\<exists>s' LAST1. let T = \<lparr>STRUCT_HASH = 7, SHAPE = Unique, WIRE = wire_u64\<rparr> in
     adopt_unique mem_store Map.empty T (U48 1) metadata_default 42 5 6 = Ok (s', LAST1)
   \<and> adopt_unique mem_store s' T (U48 1) metadata_default 42 8 9 = Ok (s', 9)"
proof -
  let ?T = "\<lparr>STRUCT_HASH = 7, SHAPE = Unique, WIRE = wire_u64\<rparr>"
  obtain s' L where ad: "adopt_unique mem_store Map.empty ?T (U48 1) metadata_default 42 5 6 = Ok (s', L)"
    by (simp add: adopt_unique_def plan_chained_save_def first_meta_def unique_plan_def mem_store_def mem_apply_def)
  have "valid_metadata metadata_default"
    by (simp add: valid_metadata_def metadata_default_def U48_ZERO_def u48_ok_def)
  with adopt_unique_idempotent [OF mem.batch_store_axioms _ _ _ ad, of "\<lambda>_. True" 8 9] ad
  show ?thesis by (auto simp: Let_def wu64.wave_wire_axioms)
qed

end
