(* ===== verification/Index_Key.thy ===== *)
theory Index_Key
  imports Records
begin

text \<open>
  The index key space (\<open>wavedb-core/src/index/key.rs\<close>, \<open>mod.rs\<close>, \<open>node_key.rs\<close>): the
  order-preserving encodings of \<open>IndexKey\<close>, the search range \<open>Bound\<close>, and the \<open>NodeKey\<close>
  interface a B+tree is generic over, with its two instances.

  \<open>memcmp\<close> order is the lexicographic order of \<open>List_Lexorder\<close>.  The contract of an encoding
  is the locale \<open>index_key\<close>: the images of two different values already differ, the right way
  round, whatever follows them, which is what makes concatenation order-preserving.  The contract of
  a tree key is the locale \<open>node_key_ok\<close>: pruning is conservative.
\<close>

section \<open>Encodings\<close>

definition key_unsigned :: "nat \<Rightarrow> 'a::len word \<Rightarrow> byte list" where
  "key_unsigned n v = to_be_bytes n v"

text \<open>A signed integer is its two's-complement word.\<close>

definition key_signed :: "nat \<Rightarrow> 'a::len word \<Rightarrow> byte list" where
  "key_signed n v = to_be_bytes n (v XOR push_bit (LENGTH('a) - 1) 1)"

definition key_bool :: "bool \<Rightarrow> byte list" where
  "key_bool b = [of_bool b]"

definition key_char :: "u32 \<Rightarrow> byte list" where
  "key_char c = to_be_bytes 4 c"

definition key_u48 :: "U48 \<Rightarrow> byte list" where
  "key_u48 v = drop 2 (to_be_bytes 8 (u48_get v))"

definition key_local_id :: "local_id \<Rightarrow> byte list" where
  "key_local_id l = to_be_bytes 8 (lid_key l) @
     to_be_bytes 2 (push_bit 15 (of_bool (lid_flag l)) OR lid_salt l)"

definition key_str :: "byte list \<Rightarrow> byte list" where
  "key_str s = s @ [0]"

definition key_tuple2 :: "('a \<Rightarrow> byte list) \<Rightarrow> ('b \<Rightarrow> byte list) \<Rightarrow> 'a \<times> 'b \<Rightarrow> byte list" where
  "key_tuple2 ka kb p = ka (fst p) @ kb (snd p)"

definition key_tuple3 ::
    "('a \<Rightarrow> byte list) \<Rightarrow> ('b \<Rightarrow> byte list) \<Rightarrow> ('c \<Rightarrow> byte list) \<Rightarrow> 'a \<times> 'b \<times> 'c \<Rightarrow> byte list" where
  "key_tuple3 ka kb kc p = ka (fst p) @ kb (fst (snd p)) @ kc (snd (snd p))"

section \<open>Bounds\<close>

datatype bound = All | Exact "byte list" | Range "byte list" "byte list" | Prefix "byte list"

fun bound_contains :: "bound \<Rightarrow> byte list \<Rightarrow> bool" where
  "bound_contains All key = True"
| "bound_contains (Exact k) key = (key = k)"
| "bound_contains (Range lo hi) key = (key \<ge> lo \<and> key < hi)"
| "bound_contains (Prefix p) key = prefix p key"

definition as_u64 :: "byte list \<Rightarrow> u64 option" where
  "as_u64 b = (if length b = 8 then Some (from_be_bytes b) else None)"

fun created_at_range :: "bound \<Rightarrow> (u64 \<times> u64) option" where
  "created_at_range All = None"
| "created_at_range (Exact k) = (case as_u64 k of None \<Rightarrow> None | Some k \<Rightarrow> Some (k, k))"
| "created_at_range (Range lo hi) = (case (as_u64 lo, as_u64 hi) of
      (Some lo, Some hi) \<Rightarrow> if hi = 0 then Some (1, 0) else Some (lo, hi - 1)
    | _ \<Rightarrow> None)"
| "created_at_range (Prefix p) = (if length p > 8 then None
     else Some (from_be_bytes (p @ replicate (8 - length p) 0), from_be_bytes (p @ replicate (8 - length p) 0xFF)))"

section \<open>Tree keys\<close>

record 'k node_key =
  key_wire :: "'k wire"
  key_record :: "'k \<Rightarrow> local_id"
  key_matches :: "'k \<Rightarrow> bound \<Rightarrow> bool"
  may_intersect :: "bound \<Rightarrow> 'k option \<Rightarrow> 'k option \<Rightarrow> bool"

definition lid_matches :: "local_id \<Rightarrow> bound \<Rightarrow> bool" where
  "lid_matches k b = (case b of All \<Rightarrow> True | _ \<Rightarrow> bound_contains b (to_be_bytes 8 (lid_key k)))"

definition lid_may_intersect :: "bound \<Rightarrow> local_id option \<Rightarrow> local_id option \<Rightarrow> bool" where
  "lid_may_intersect b mn mx = (case created_at_range b of
      None \<Rightarrow> True
    | Some (lo, hi) \<Rightarrow>
        (let win_min = (case mn of None \<Rightarrow> 0 | Some k \<Rightarrow> lid_key k);
             win_max = (case mx of None \<Rightarrow> - 1 | Some k \<Rightarrow> lid_key k)
         in win_max \<ge> lo \<and> win_min \<le> hi))"

definition lid_node_key :: "local_id node_key" where
  "lid_node_key = \<lparr>key_wire = wire_local_id, key_record = (\<lambda>k. k), key_matches = lid_matches,
     may_intersect = lid_may_intersect\<rparr>"

datatype sec_key = SecKey (sk_field: "byte list") (sk_rec: local_id)

instantiation sec_key :: linorder
begin

definition less_eq_sec_key :: "sec_key \<Rightarrow> sec_key \<Rightarrow> bool" where
  "less_eq_sec_key a b \<longleftrightarrow> sk_field a < sk_field b \<or> sk_field a = sk_field b \<and> sk_rec a \<le> sk_rec b"

definition less_sec_key :: "sec_key \<Rightarrow> sec_key \<Rightarrow> bool" where
  "less_sec_key a b \<longleftrightarrow> sk_field a < sk_field b \<or> sk_field a = sk_field b \<and> sk_rec a < sk_rec b"

instance
  by standard (auto simp: less_eq_sec_key_def less_sec_key_def sec_key.expand)

end

definition wire_sec_key :: "sec_key wire" where
  "wire_sec_key = wire_struct (\<lambda>k. (sk_field k, sk_rec k)) (\<lambda>(f, r). SecKey f r)
     (wire_tuple2 (wire_vec wire_u8) wire_local_id)"

fun le_prefix_max :: "byte list \<Rightarrow> byte list \<Rightarrow> bool" where
  "le_prefix_max (a # x) (b # p) = (if a \<noteq> b then a < b else le_prefix_max x p)"
| "le_prefix_max _ _ = True"

definition sec_may_intersect :: "bound \<Rightarrow> sec_key option \<Rightarrow> sec_key option \<Rightarrow> bool" where
  "sec_may_intersect b mn mx =
     (let lo = map_option sk_field mn; hi = map_option sk_field mx;
          none_or = (\<lambda>P x. case x of None \<Rightarrow> True | Some y \<Rightarrow> P y)
      in case b of
           All \<Rightarrow> True
         | Exact k \<Rightarrow> none_or (\<lambda>h. h \<ge> k) hi \<and> none_or (\<lambda>l. l \<le> k) lo
         | Range b_lo b_hi \<Rightarrow> none_or (\<lambda>h. h \<ge> b_lo) hi \<and> none_or (\<lambda>l. l < b_hi) lo
         | Prefix p \<Rightarrow> none_or (\<lambda>h. h \<ge> p) hi \<and> none_or (\<lambda>l. le_prefix_max l p) lo)"

definition sec_node_key :: "sec_key node_key" where
  "sec_node_key = \<lparr>key_wire = wire_sec_key, key_record = sk_rec,
     key_matches = (\<lambda>k b. bound_contains b (sk_field k)), may_intersect = sec_may_intersect\<rparr>"

section \<open>Order lemmas\<close>

lemma same_length_less_append:
  fixes xs ys :: "'a::order list"
  shows "length xs = length ys \<Longrightarrow> xs < ys \<Longrightarrow> xs @ r < ys @ s"
  by (induction xs ys rule: list_induct2) auto

lemma append_less_iff:
  fixes zs :: "'a::order list"
  shows "zs @ xs < zs @ ys \<longleftrightarrow> xs < ys"
  by (induction zs) auto

lemma be_word_less_iff:
  fixes v w :: "'a::len word"
  assumes "LENGTH('a) \<le> 8 * n"
  shows "to_be_bytes n v < to_be_bytes n w \<longleftrightarrow> v < w"
proof -
  have "unat u < 256 ^ n" for u :: "'a word"
  proof -
    have "unat u < 2 ^ LENGTH('a)" by (rule unsigned_less)
    also have "\<dots> \<le> 256 ^ n" using assms by (simp add: pow_256 power_increasing)
    finally show ?thesis .
  qed
  then show ?thesis
    by (simp add: to_be_bytes_def to_le_bytes_def be_nat_less_iff word_less_nat_alt)
qed

section \<open>The encoding contract\<close>

locale index_key =
  fixes enc :: "'a \<Rightarrow> byte list" and valid :: "'a \<Rightarrow> bool" and lt :: "'a \<Rightarrow> 'a \<Rightarrow> bool"
  assumes enc_less: "valid a \<Longrightarrow> valid b \<Longrightarrow> lt a b \<Longrightarrow> enc a @ r < enc b @ s"
    and lt_total: "valid a \<Longrightarrow> valid b \<Longrightarrow> a \<noteq> b \<Longrightarrow> lt a b \<or> lt b a"
    and lt_irrefl: "\<not> lt a a"
begin

lemma enc_less_append_iff:
  assumes "valid a" "valid b" "a \<noteq> b"
  shows "enc a @ r < enc b @ s \<longleftrightarrow> lt a b"
  using assms enc_less [of a b r s] enc_less [of b a s r] lt_total [of a b] by auto

lemma enc_less_iff: "valid a \<Longrightarrow> valid b \<Longrightarrow> enc a < enc b \<longleftrightarrow> lt a b"
  using enc_less_append_iff [of a b "[]" "[]"] lt_irrefl by (cases "a = b") auto

lemma enc_inject: "valid a \<Longrightarrow> valid b \<Longrightarrow> enc a = enc b \<Longrightarrow> a = b"
  by (metis enc_less_iff lt_total order_less_irrefl)

end

lemma fixed_width_index_key:
  assumes "\<And>a b. valid a \<Longrightarrow> valid b \<Longrightarrow> lt a b \<Longrightarrow> length (enc a) = length (enc b) \<and> enc a < enc b"
    and "\<And>a b. valid a \<Longrightarrow> valid b \<Longrightarrow> a \<noteq> b \<Longrightarrow> lt a b \<or> lt b a" "\<And>a. \<not> lt a a"
  shows "index_key enc valid lt"
  using assms by unfold_locales (auto intro: same_length_less_append)

lemma key_unsigned_ok:
  "LENGTH('a::len) \<le> 8 * n \<Longrightarrow> index_key (key_unsigned n :: 'a word \<Rightarrow> byte list) (\<lambda>_. True) (<)"
  by (rule fixed_width_index_key) (auto simp: key_unsigned_def be_word_less_iff)

interpretation ik64: index_key "key_unsigned 8 :: u64 \<Rightarrow> byte list" "\<lambda>_. True" "(<)"
  by (rule key_unsigned_ok) simp

text \<open>Flipping the sign bit turns signed order into unsigned order.\<close>

lemma xor_sign_bit:
  fixes v :: "'a::len word"
  shows "uint (v XOR push_bit (LENGTH('a) - 1) 1) = sint v + 2 ^ (LENGTH('a) - 1)"
proof -
  define n where "n = LENGTH('a) - 1"
  have len: "LENGTH('a) = Suc n" using len_gt_0 [where 'a = 'a] unfolding n_def by linarith
  have "uint (push_bit n 1 :: 'a word) = push_bit n 1"
    unfolding unsigned_push_bit_eq len by (simp add: take_bit_push_bit)
  then have "uint (v XOR push_bit n 1) = flip_bit n (uint v)"
    by (simp only: flip_bit_eq_xor unsigned_xor_eq)
  also have "\<dots> = (if bit (uint v) n then uint v - 2 ^ n else uint v + 2 ^ n)"
    by (simp add: flip_bit_eq_if set_bit_eq unset_bit_eq)
  finally have x: "uint (v XOR push_bit n 1) = \<dots>" .
  have "take_bit LENGTH('a) (uint v) = uint v" by (metis take_bit_length_eq unsigned_take_bit_eq)
  then have "take_bit (Suc n) (uint v) = uint v" by (simp add: len)
  then have "sint v = uint v - 2 ^ Suc n * of_bool (bit (uint v) n)"
    by (simp add: sint_uint len signed_take_bit_eq_take_bit_minus)
  then show ?thesis
    unfolding n_def [symmetric] x by simp
qed

lemma key_signed_ok:
  "LENGTH('a::len) \<le> 8 * n \<Longrightarrow>
   index_key (key_signed n :: 'a word \<Rightarrow> byte list) (\<lambda>_. True) (\<lambda>a b. sint a < sint b)"
proof (rule fixed_width_index_key)
  fix a b :: "'a word"
  assume "LENGTH('a) \<le> 8 * n" "sint a < sint b"
  then show "length (key_signed n a) = length (key_signed n b) \<and> key_signed n a < key_signed n b"
    using xor_sign_bit [of a] xor_sign_bit [of b]
    by (simp add: key_signed_def be_word_less_iff word_less_def)
next
  fix a b :: "'a word" assume "a \<noteq> b"
  then show "sint a < sint b \<or> sint b < sint a" by (metis linorder_neq_iff word_eq_iff_signed)
qed simp

interpretation iki64: index_key "key_signed 8 :: u64 \<Rightarrow> byte list" "\<lambda>_. True" "\<lambda>a b. sint a < sint b"
  by (rule key_signed_ok) simp

interpretation ikbool: index_key key_bool "\<lambda>_. True" "(<)"
  by (rule fixed_width_index_key) (auto simp: key_bool_def)

interpretation ikchar: index_key key_char is_scalar "(<)"
  by (rule fixed_width_index_key) (auto simp: key_char_def be_word_less_iff)

lemma key_u48_bytes: "u48_ok v \<Longrightarrow> key_u48 v = rev (nat_to_le 6 (unat (u48_get v)))"
  using nat_to_le_pad [of "unat (u48_get v)" 6 2]
  by (simp add: key_u48_def to_be_bytes_def to_le_bytes_def u48_ok_unat)

interpretation iku48: index_key key_u48 u48_ok "\<lambda>a b. u48_get a < u48_get b"
proof (rule fixed_width_index_key)
  fix a b assume "u48_ok a" "u48_ok b" "u48_get a < u48_get b"
  then show "length (key_u48 a) = length (key_u48 b) \<and> key_u48 a < key_u48 b"
    by (simp add: key_u48_bytes be_nat_less_iff word_less_nat_alt u48_ok_unat)
next
  fix a b :: U48 assume "a \<noteq> b"
  then show "u48_get a < u48_get b \<or> u48_get b < u48_get a" by (metis U48.expand linorder_neq_iff)
qed simp

lemma lower_of_parts: "push_bit 15 (of_bool (lid_flag l)) OR lid_salt l = lid_lower l"
  by (rule bit_word_eqI) (auto simp: bit_simps lid_lower_bit)

interpretation iklid: index_key key_local_id "\<lambda>_. True" "(<)"
proof (rule fixed_width_index_key)
  fix a b :: local_id assume "a < b"
  then show "length (key_local_id a) = length (key_local_id b) \<and> key_local_id a < key_local_id b"
    by (auto simp: key_local_id_def lower_of_parts less_local_id_def append_less_iff be_word_less_iff
        intro: same_length_less_append)
qed auto

text \<open>A string is terminated by a zero byte: alone it keeps its order, and before another component
  it does so if it contains no zero byte itself.\<close>

lemma nil_less_iff: "[] < (xs :: 'a::order list) \<longleftrightarrow> xs \<noteq> []"
  by (cases xs) auto

lemma key_str_less_iff: "key_str s < key_str t \<longleftrightarrow> s < t"
proof (induction s arbitrary: t)
  case Nil
  then show ?case by (cases t) (auto simp: key_str_def nil_less_iff word_gt_0)
next
  case (Cons a s)
  then show ?case by (cases t) (auto simp: key_str_def)
qed

lemma key_str_less_append:
  assumes "0 \<notin> set s" "0 \<notin> set t" "s < t"
  shows "key_str s @ q < key_str t @ r"
  using assms
proof (induction s arbitrary: t)
  case Nil
  then show ?case by (cases t) (auto simp: key_str_def word_gt_0)
next
  case (Cons a s)
  then show ?case by (cases t) (auto simp: key_str_def)
qed

interpretation ikstr: index_key key_str "\<lambda>s. 0 \<notin> set s" "(<)"
  by unfold_locales (auto intro: key_str_less_append)

lemma key_tuple2_ok:
  assumes "index_key ka va la" "index_key kb vb lb"
  shows "index_key (key_tuple2 ka kb) (\<lambda>(a, b). va a \<and> vb b)
    (\<lambda>(a, b) (c, d). la a c \<or> a = c \<and> lb b d)"
proof
  fix x y r s
  assume "(\<lambda>(a, b). va a \<and> vb b) x" "(\<lambda>(a, b). va a \<and> vb b) y"
    "(\<lambda>(a, b) (c, d). la a c \<or> a = c \<and> lb b d) x y"
  then show "key_tuple2 ka kb x @ r < key_tuple2 ka kb y @ s"
    using index_key.enc_less [OF assms(1)] index_key.enc_less [OF assms(2)]
    by (auto simp: key_tuple2_def append_less_iff)
qed (use index_key.lt_total [OF assms(1)] index_key.lt_total [OF assms(2)] index_key.lt_irrefl [OF assms(1)]
  index_key.lt_irrefl [OF assms(2)] in fastforce)+

lemma key_tuple3_nested: "key_tuple3 ka kb kc = key_tuple2 ka (key_tuple2 kb kc)"
  by (simp add: fun_eq_iff key_tuple3_def key_tuple2_def)

section \<open>The tree-key contract\<close>

text \<open>A window \<open>[mn, mx]\<close> with \<open>None\<close> unbounded.\<close>

definition in_window :: "'k::linorder option \<Rightarrow> 'k option \<Rightarrow> 'k \<Rightarrow> bool" where
  "in_window mn mx k \<longleftrightarrow> (case mn of None \<Rightarrow> True | Some l \<Rightarrow> l \<le> k) \<and> (case mx of None \<Rightarrow> True | Some h \<Rightarrow> k \<le> h)"

locale node_key_ok =
  fixes NK :: "'k::linorder node_key" and vk :: "'k \<Rightarrow> bool" and kb :: nat
  assumes key_wire_ok: "wave_wire (key_wire NK) vk"
    and key_wire_total: "total_wire (key_wire NK)"
    and key_stack_pos: "0 < STACK_SIZE (key_wire NK)"
    and key_bytes: "vk k \<Longrightarrow> STACK_SIZE (key_wire NK) + heap_size (key_wire NK) k \<le> kb"
    and prune_safe: "in_window mn mx k \<Longrightarrow> key_matches NK k b \<Longrightarrow> may_intersect NK b mn mx"

lemma to_be_from_be_8: "length b = 8 \<Longrightarrow> to_be_bytes 8 (from_be_bytes b :: u64) = b"
  by (simp add: to_be_bytes_def from_be_bytes_def to_le_from_le)

lemma created_at_range_covers:
  assumes "bound_contains b (to_be_bytes 8 (k :: u64))" "created_at_range b = Some (lo, hi)"
  shows "lo \<le> k \<and> k \<le> hi"
proof (cases b)
  case (Exact e)
  then show ?thesis using assms by (auto simp: as_u64_def split: if_splits)
next
  case (Range l h)
  then have len: "length l = 8" "length h = 8" using assms(2) by (auto simp: as_u64_def split: if_splits)
  let ?l = "from_be_bytes l :: u64" and ?h = "from_be_bytes h :: u64"
  have "\<not> to_be_bytes 8 k < to_be_bytes 8 ?l" "to_be_bytes 8 k < to_be_bytes 8 ?h"
    using assms(1) Range len by (simp_all add: to_be_from_be_8 not_less)
  then have k: "?l \<le> k" "k < ?h" by (simp_all add: be_word_less_iff)
  then have "?h \<noteq> 0" by auto
  then have "unat (?h - 1) = unat ?h - 1" by (rule unat_minus_one)
  then have "k \<le> ?h - 1" using k(2) by (simp add: word_le_nat_alt word_less_nat_alt)
  then show ?thesis
    using assms(2) Range len k(1) \<open>?h \<noteq> 0\<close> by (auto simp: as_u64_def split: if_splits)
next
  case (Prefix p)
  then obtain r where r: "to_be_bytes 8 k = p @ r" using assms(1) by (auto simp: prefix_def)
  then have len: "length r = 8 - length p" "length p \<le> 8" by (metis length_to_be_bytes length_append diff_add_inverse, metis length_to_be_bytes length_append le_add1)
  have z: "\<not> r < replicate (length r) 0" for r :: "byte list" by (induction r) auto
  have f: "\<not> replicate (length r) 0xFF < r" for r :: "byte list"
  proof (induction r)
    case (Cons a r)
    have "a \<le> 0xFF" using unat_byte_lt [of a] by (simp add: word_le_nat_alt)
    with Cons show ?case by auto
  qed simp
  have "\<not> to_be_bytes 8 k < to_be_bytes 8 lo" "\<not> to_be_bytes 8 hi < to_be_bytes 8 k"
    using assms(2) Prefix r len z [of r] f [of r] by (auto simp: to_be_from_be_8 append_less_iff split: if_splits)
  then show ?thesis by (simp add: be_word_less_iff not_less)
qed (use assms in simp)

lemma wire_local_id_size [simp]: "STACK_SIZE wire_local_id = 10" "heap_size wire_local_id l = 0"
  by (simp_all add: wire_local_id_def)

interpretation nklid: node_key_ok lid_node_key "\<lambda>_. True" 10
proof (rule node_key_ok.intro)
  fix mn mx k b
  assume w: "in_window mn mx k" and m: "key_matches lid_node_key k b"
  have le: "lid_key a \<le> lid_key c" if "a \<le> c" for a c using that by (auto simp: less_eq_local_id_def)
  show "may_intersect lid_node_key b mn mx"
  proof (cases "created_at_range b")
    case (Some r)
    obtain lo hi where r: "r = (lo, hi)" by (cases r)
    have "bound_contains b (to_be_bytes 8 (lid_key k))" using m by (cases b) (auto simp: lid_node_key_def lid_matches_def)
    then have "lo \<le> lid_key k \<and> lid_key k \<le> hi" using Some r created_at_range_covers by blast
    then show ?thesis
      using w Some r le by (auto simp: lid_node_key_def lid_may_intersect_def in_window_def
          split: option.splits intro: order_trans)
  qed (simp add: lid_node_key_def lid_may_intersect_def)
qed (simp_all add: lid_node_key_def wlid.wave_wire_axioms wlidt.total_wire_axioms wire_local_id_size)

lemma le_prefix_max_prefix: "prefix p f \<Longrightarrow> l \<le> f \<Longrightarrow> le_prefix_max l p"
  by (induction l p arbitrary: f rule: le_prefix_max.induct) (fastforce simp: prefix_def)+

lemma prefix_le: "prefix p f \<Longrightarrow> p \<le> (f :: byte list)"
  by (induction p arbitrary: f) (auto simp: prefix_def)

text \<open>Field encodings up to one mebibyte: then a full node fits its \<open>u32\<close> length slots.\<close>

definition valid_sec_key :: "sec_key \<Rightarrow> bool" where
  "valid_sec_key k \<longleftrightarrow> length (sk_field k) \<le> 2 ^ 20"

lemma wire_sec_key_ok: "wave_wire wire_sec_key (\<lambda>k. valid_bytes (sk_field k))"
  using wire_struct_ok [OF wire_tuple2_ok [OF wbytes.wave_wire_axioms wlid.wave_wire_axioms],
      of "\<lambda>(f, r). SecKey f r" "\<lambda>k. (sk_field k, sk_rec k)"]
  by (simp add: wire_sec_key_def)

interpretation wsec: wave_wire wire_sec_key valid_sec_key
  using wire_sec_key_ok by (auto simp: wave_wire_def valid_sec_key_def valid_bytes_def)

interpretation nksec: node_key_ok sec_node_key valid_sec_key "2 ^ 20 + 14"
proof (rule node_key_ok.intro)
  show "total_wire (key_wire sec_node_key)"
    unfolding sec_node_key_def node_key.simps wire_sec_key_def
    by (intro wire_struct_total wire_tuple2_total wbytest.total_wire_axioms wlidt.total_wire_axioms)
next
  fix mn mx k b
  assume w: "in_window mn mx k" and m: "key_matches sec_node_key k b"
  have le: "sk_field a \<le> sk_field c" if "a \<le> c" for a c using that by (auto simp: less_eq_sec_key_def)
  show "may_intersect sec_node_key b mn mx"
    using w m by (cases b) (auto simp: sec_node_key_def sec_may_intersect_def in_window_def Let_def
        split: option.splits dest!: le intro: order_trans le_prefix_max_prefix dest: prefix_le)
qed (simp_all add: sec_node_key_def wsec.wave_wire_axioms, simp_all add: wire_sec_key_def valid_sec_key_def)


section \<open>Properties\<close>

text \<open>C35: Byte order is value order for composite keys: for any two component encodings that keep the
  \<open>IndexKey\<close> contract, the concatenated images compare as the pairs do, first component
  first.\<close>

theorem tuple_key_order:
  assumes "index_key ka va la" "index_key kb vb lb" "va a" "va c" "vb b" "vb d"
  shows "key_tuple2 ka kb (a, b) < key_tuple2 ka kb (c, d) \<longleftrightarrow> la a c \<or> a = c \<and> lb b d"
  using index_key.enc_less_iff [OF key_tuple2_ok [OF assms(1, 2)], of "(a, b)" "(c, d)"] assms(3-6) by simp

theorem tuple_key_order_witness:
  "key_tuple2 (key_signed 8 :: u64 \<Rightarrow> byte list) key_str (- 5, [97]) < key_tuple2 (key_signed 8) key_str (3 :: u64, [])"
  using tuple_key_order [OF iki64.index_key_axioms ikstr.index_key_axioms,
      where a = "- 5" and c = 3 and b = "[97]" and d = "[]"] by simp

text \<open>C37: A string key keeps string order, for every string.\<close>

theorem string_key_order: "key_str s < key_str t \<longleftrightarrow> s < t"
  by (rule key_str_less_iff)

text \<open>C38: Strings that contain a zero byte break composite keys: two different pairs of strings get
  the same key.\<close>

theorem string_tuple_key_collision:
  "key_tuple2 key_str key_str (s, 0 # t) = key_tuple2 key_str key_str (s @ [0], t) \<and> (s, 0 # t) \<noteq> (s @ [0], t)"
  by (simp add: key_tuple2_def key_str_def)

text \<open>C36: Search pruning never loses a match: if a key inside a subtree's separator window satisfies the
  bound, the window is not pruned, for the primary and for the secondary key.\<close>

theorem pruning_conservative:
  "(in_window mn mx k \<and> lid_matches k b \<longrightarrow> lid_may_intersect b mn mx) \<and>
   (in_window smn smx sk \<and> bound_contains b (sk_field sk) \<longrightarrow> sec_may_intersect b smn smx)"
  using nklid.prune_safe [of mn mx k b] nksec.prune_safe [of smn smx sk b]
  by (simp add: lid_node_key_def sec_node_key_def)

theorem pruning_conservative_witness:
  "lid_may_intersect (Exact (to_be_bytes 8 (5 :: u64))) (Some (LocalId 3 0)) (Some (LocalId 9 0))"
  using pruning_conservative [of "Some (LocalId 3 0)" "Some (LocalId 9 0)" "LocalId 5 0"
      "Exact (to_be_bytes 8 (5 :: u64))" None None "SecKey [] (LocalId 0 0)"]
  by (simp add: in_window_def less_eq_local_id_def lid_matches_def)

end
