(* ===== verification/Bp_Tree.thy ===== *)
theory Bp_Tree
  imports Index_Key
begin

text \<open>
  The B+tree over a \<open>Store\<close> (\<open>wavedb-core/src/index/node.rs\<close>, \<open>tree.rs\<close>, \<open>tree_insert.rs\<close>,
  \<open>tree_delete.rs\<close>): node values and their byte form, the handle, lookups, the search walk, and
  the planning of inserts and removals.

  A tree lives in the store, one node per value; the descents therefore follow ids and need not end
  on a corrupt store (\<open>partial_function\<close>).  The path stack keeps its top at the head of the list.
  The ids \<open>mint_node_id\<close> returns within one operation are the parameter \<open>mint\<close>: \<open>mint 0\<close>,
  \<open>mint 1\<close>, \<open>\<dots>\<close> in call order.
\<close>

section \<open>Nodes\<close>

datatype 'k node_body = Leaf "'k list" | Internal local_id "('k \<times> local_id) list"

definition BPTREE_NODE_STRUCT_HASH :: u64 where
  "BPTREE_NODE_STRUCT_HASH = 0x4250545245450001"

definition NODE_PREFIX :: nat where
  "NODE_PREFIX = 8"

abbreviation KIND_LEAF :: byte where "KIND_LEAF \<equiv> 0"
abbreviation KIND_INTERNAL :: byte where "KIND_INTERNAL \<equiv> 1"

abbreviation leaf_wire :: "'k node_key \<Rightarrow> 'k list wire" where
  "leaf_wire NK \<equiv> wire_vec (key_wire NK)"

abbreviation entries_wire :: "'k node_key \<Rightarrow> ('k \<times> local_id) list wire" where
  "entries_wire NK \<equiv> wire_vec (wire_tuple2 (key_wire NK) wire_local_id)"

definition node_to_bytes :: "'k node_key \<Rightarrow> 'k node_body \<Rightarrow> byte list" where
  "node_to_bytes NK b = to_le_bytes 8 BPTREE_NODE_STRUCT_HASH @ (case b of
      Leaf keys \<Rightarrow> KIND_LEAF # to_wire (leaf_wire NK) keys
    | Internal leftmost entries \<Rightarrow>
        KIND_INTERNAL # to_wire wire_local_id leftmost @ to_wire (entries_wire NK) entries)"

definition node_from_bytes :: "'k node_key \<Rightarrow> byte list \<Rightarrow> 'k node_body cres" where
  "node_from_bytes NK bytes =
     (if length bytes < NODE_PREFIX then Err (BpTreeNodeBadTag 0)
      else let tag = from_le_bytes (take NODE_PREFIX bytes)
           in if tag \<noteq> BPTREE_NODE_STRUCT_HASH then Err (BpTreeNodeBadTag tag)
              else if length bytes \<le> NODE_PREFIX then Err (BpTreeNodeBadTag tag)
              else let kind = bytes ! NODE_PREFIX; payload = drop (NODE_PREFIX + 1) bytes
                   in if kind = KIND_LEAF then
                        try_then (map_err Wire (from_wire (leaf_wire NK) payload)) (\<lambda>keys. Ok (Leaf keys))
                      else if kind = KIND_INTERNAL then
                        (let split = STACK_SIZE wire_local_id
                         in if length payload < split then Err (Wire UnexpectedEof)
                            else try_then (map_err Wire (from_wire wire_local_id (take split payload)))
                              (\<lambda>leftmost. try_then (map_err Wire (from_wire (entries_wire NK) (drop split payload)))
                                (\<lambda>entries. Ok (Internal leftmost entries))))
                      else Err (BpTreeNodeBadTag tag))"

definition mint_node_id :: "u64 \<Rightarrow> u32 \<Rightarrow> local_id \<times> u32" where
  "mint_node_id unix_nanos MINT =
     (let (key, MINT1) = key_nanos unix_nanos MINT
      in (lid_new key True (type_salt BPTREE_NODE_STRUCT_HASH), MINT1))"

section \<open>The handle\<close>

record bptree =
  bp_root :: local_id
  bp_tenant :: U48
  leaf_cap :: nat
  internal_cap :: nat

definition DEFAULT_LEAF_CAP :: nat where "DEFAULT_LEAF_CAP = 1819"
definition DEFAULT_INTERNAL_CAP :: nat where "DEFAULT_INTERNAL_CAP = 1630"

definition bp_at :: "local_id \<Rightarrow> U48 \<Rightarrow> bptree" where
  "bp_at root tenant = \<lparr>bp_root = root, bp_tenant = tenant, leaf_cap = DEFAULT_LEAF_CAP,
     internal_cap = DEFAULT_INTERNAL_CAP\<rparr>"

definition with_caps :: "nat \<Rightarrow> nat \<Rightarrow> bptree \<Rightarrow> bptree" where
  "with_caps leaf internal T = T\<lparr>leaf_cap := leaf, internal_cap := internal\<rparr>"

definition put_node :: "'k node_key \<Rightarrow> bptree \<Rightarrow> local_id \<Rightarrow> 'k node_body \<Rightarrow> write_op" where
  "put_node NK T node n = Put (to_id node (bp_tenant T)) (node_to_bytes NK n)"

definition remove_node :: "bptree \<Rightarrow> local_id \<Rightarrow> write_op" where
  "remove_node T node = Remove BPTREE_NODE_STRUCT_HASH (to_id node (bp_tenant T))"

definition load_node :: "'k node_key \<Rightarrow> 's store \<Rightarrow> 's \<Rightarrow> bptree \<Rightarrow> local_id \<Rightarrow> 'k node_body cres" where
  "load_node NK S s T node =
     try_then (get_of S s BPTREE_NODE_STRUCT_HASH (to_id node (bp_tenant T))) (\<lambda>found. case found of
       None \<Rightarrow> Err (BpTreeNodeMissing node)
     | Some bytes \<Rightarrow> node_from_bytes NK bytes)"

definition plan_create :: "'k node_key \<Rightarrow> U48 \<Rightarrow> (nat \<Rightarrow> local_id) \<Rightarrow> bptree \<times> write_op" where
  "plan_create NK tenant mint =
     (let root = mint 0; tree = bp_at root tenant in (tree, put_node NK tree root (Leaf [])))"

definition bp_create :: "'k node_key \<Rightarrow> 's store \<Rightarrow> 's \<Rightarrow> U48 \<Rightarrow> (nat \<Rightarrow> local_id) \<Rightarrow> ('s \<times> bptree) cres" where
  "bp_create NK S s tenant mint =
     (case plan_create NK tenant mint of (tree, write) \<Rightarrow>
        try_then (apply_batch S s [write]) (\<lambda>s'. Ok (s', tree)))"

section \<open>Lookups\<close>

text \<open>\<open>slice::binary_search\<close> on a strictly sorted slice: the index of the element, or where to
  insert it.\<close>

definition binary_search :: "'k::linorder list \<Rightarrow> 'k \<Rightarrow> nat + nat" where
  "binary_search xs t =
     (let i = length (takeWhile (\<lambda>x. x < t) xs) in if i < length xs \<and> xs ! i = t then Inr i else Inl i)"

definition child_and_index ::
    "local_id \<Rightarrow> ('k::linorder \<times> local_id) list \<Rightarrow> 'k \<Rightarrow> local_id \<times> nat" where
  "child_and_index leftmost entries target = (case binary_search (map fst entries) target of
      Inr i \<Rightarrow> (snd (entries ! i), i + 1)
    | Inl i \<Rightarrow> if i = 0 then (leftmost, 0) else (snd (entries ! (i - 1)), i))"

definition child_for :: "local_id \<Rightarrow> ('k::linorder \<times> local_id) list \<Rightarrow> 'k \<Rightarrow> local_id" where
  "child_for leftmost entries target = fst (child_and_index leftmost entries target)"

partial_function (option) contains_loop ::
    "'k::linorder node_key \<Rightarrow> 's store \<Rightarrow> 's \<Rightarrow> bptree \<Rightarrow> 'k \<Rightarrow> local_id \<Rightarrow> bool cres" where
  "contains_loop NK S s T target node = (case load_node NK S s T node of
      None \<Rightarrow> None
    | Some (Inl e) \<Rightarrow> Err e
    | Some (Inr (Leaf keys)) \<Rightarrow> Ok (\<not> isl (binary_search keys target))
    | Some (Inr (Internal leftmost entries)) \<Rightarrow>
        contains_loop NK S s T target (child_for leftmost entries target))"

definition bp_contains :: "'k::linorder node_key \<Rightarrow> 's store \<Rightarrow> 's \<Rightarrow> bptree \<Rightarrow> 'k \<Rightarrow> bool cres" where
  "bp_contains NK S s T target = contains_loop NK S s T target (bp_root T)"

partial_function (option) max_key_loop ::
    "'k node_key \<Rightarrow> 's store \<Rightarrow> 's \<Rightarrow> bptree \<Rightarrow> local_id \<Rightarrow> 'k option cres" where
  "max_key_loop NK S s T node = (case load_node NK S s T node of
      None \<Rightarrow> None
    | Some (Inl e) \<Rightarrow> Err e
    | Some (Inr (Leaf keys)) \<Rightarrow> Ok (if keys = [] then None else Some (last keys))
    | Some (Inr (Internal leftmost entries)) \<Rightarrow>
        max_key_loop NK S s T (if entries = [] then leftmost else snd (last entries)))"

definition max_key :: "'k node_key \<Rightarrow> 's store \<Rightarrow> 's \<Rightarrow> bptree \<Rightarrow> 'k option cres" where
  "max_key NK S s T = max_key_loop NK S s T (bp_root T)"

text \<open>The search walk: the queued nodes, front first; a missing or undecodable node yields an error
  item and the walk goes on.\<close>

definition expand_children ::
    "'k node_key \<Rightarrow> bound \<Rightarrow> local_id list \<Rightarrow> local_id \<Rightarrow> ('k \<times> local_id) list \<Rightarrow> local_id list" where
  "expand_children NK bnd nodes leftmost entries =
     (let keep = (\<lambda>i. may_intersect NK bnd
                   (if i = 0 then None else Some (fst (entries ! (i - 1))))
                   (if i < length entries then Some (fst (entries ! i)) else None));
          nodes1 = fold (\<lambda>(i, child) ns. if keep (i + 1) then child # ns else ns)
                     (rev (enumerate 0 (map snd entries))) nodes
      in if keep 0 then leftmost # nodes1 else nodes1)"

partial_function (option) search_walk ::
    "'k node_key \<Rightarrow> 's store \<Rightarrow> 's \<Rightarrow> U48 \<Rightarrow> bound \<Rightarrow> local_id list \<Rightarrow> (core_error + 'k) list option" where
  "search_walk NK S s tenant bnd nodes = (case nodes of
      [] \<Rightarrow> Some []
    | node # rest \<Rightarrow> (case get_of S s BPTREE_NODE_STRUCT_HASH (to_id node tenant) of
        None \<Rightarrow> None
      | Some (Inl e) \<Rightarrow> Option.bind (search_walk NK S s tenant bnd rest) (\<lambda>out. Some (Inl e # out))
      | Some (Inr None) \<Rightarrow>
          Option.bind (search_walk NK S s tenant bnd rest) (\<lambda>out. Some (Inl (BpTreeNodeMissing node) # out))
      | Some (Inr (Some bytes)) \<Rightarrow> (case node_from_bytes NK bytes of
            None \<Rightarrow> None
          | Some (Inl e) \<Rightarrow> Option.bind (search_walk NK S s tenant bnd rest) (\<lambda>out. Some (Inl e # out))
          | Some (Inr (Leaf keys)) \<Rightarrow>
              Option.bind (search_walk NK S s tenant bnd rest)
                (\<lambda>out. Some (map Inr (filter (\<lambda>k. key_matches NK k bnd) keys) @ out))
          | Some (Inr (Internal leftmost entries)) \<Rightarrow>
              search_walk NK S s tenant bnd (expand_children NK bnd rest leftmost entries))))"

definition search_keys ::
    "'k node_key \<Rightarrow> 's store \<Rightarrow> 's \<Rightarrow> bptree \<Rightarrow> bound \<Rightarrow> (core_error + 'k) list option" where
  "search_keys NK S s T bnd = search_walk NK S s (bp_tenant T) bnd [bp_root T]"

definition bp_search ::
    "'k node_key \<Rightarrow> 's store \<Rightarrow> 's \<Rightarrow> bptree \<Rightarrow> bound \<Rightarrow> (core_error + wave_id) list option" where
  "bp_search NK S s T bnd =
     map_option (map (map_sum (\<lambda>e. e) (\<lambda>k. to_id (key_record NK k) (bp_tenant T)))) (search_keys NK S s T bnd)"

section \<open>Descent\<close>

record 'k path_frame =
  pf_node_id :: local_id
  pf_leftmost :: local_id
  pf_entries :: "('k \<times> local_id) list"
  pf_child_idx :: nat

partial_function (option) descend ::
    "'k::linorder node_key \<Rightarrow> 's store \<Rightarrow> 's \<Rightarrow> bptree \<Rightarrow> 'k \<Rightarrow> 'k path_frame list \<Rightarrow> local_id
     \<Rightarrow> ('k path_frame list \<times> local_id \<times> 'k list) cres" where
  "descend NK S s T target path node_id = (case load_node NK S s T node_id of
      None \<Rightarrow> None
    | Some (Inl e) \<Rightarrow> Err e
    | Some (Inr (Leaf keys)) \<Rightarrow> Ok (path, node_id, keys)
    | Some (Inr (Internal leftmost entries)) \<Rightarrow>
        (case child_and_index leftmost entries target of (nxt, child_idx) \<Rightarrow>
           descend NK S s T target
             (\<lparr>pf_node_id = node_id, pf_leftmost = leftmost, pf_entries = entries, pf_child_idx = child_idx\<rparr> # path)
             nxt))"

section \<open>Insert\<close>

definition insert_at :: "nat \<Rightarrow> 'a \<Rightarrow> 'a list \<Rightarrow> 'a list" where
  "insert_at i x xs = take i xs @ x # drop i xs"

definition remove_at :: "nat \<Rightarrow> 'a list \<Rightarrow> 'a list" where
  "remove_at i xs = take i xs @ drop (i + 1) xs"

fun propagate ::
    "'k node_key \<Rightarrow> (nat \<Rightarrow> local_id) \<Rightarrow> bptree \<Rightarrow> 'k path_frame list \<Rightarrow> nat \<Rightarrow> local_id \<Rightarrow> 'k \<Rightarrow> local_id
     \<Rightarrow> write_op list \<Rightarrow> write_op list \<times> bptree" where
  "propagate NK mint T [] n node_id sep right batch =
     (let new_root = mint n
      in (batch @ [put_node NK T new_root (Internal node_id [(sep, right)])], T\<lparr>bp_root := new_root\<rparr>))"
| "propagate NK mint T (f # path) n node_id sep right batch =
     (let entries = insert_at (pf_child_idx f) (sep, right) (pf_entries f)
      in if length entries \<le> internal_cap T
         then (batch @ [put_node NK T (pf_node_id f) (Internal (pf_leftmost f) entries)], T)
         else let mid = length entries div 2;
                  promote = entries ! mid;
                  right_internal = mint n
              in propagate NK mint T path (n + 1) (pf_node_id f) (fst promote) right_internal
                   (batch @ [put_node NK T (pf_node_id f) (Internal (pf_leftmost f) (take mid entries)),
                             put_node NK T right_internal (Internal (snd promote) (drop (mid + 1) entries))]))"

definition plan_insert ::
    "'k::linorder node_key \<Rightarrow> 's store \<Rightarrow> 's \<Rightarrow> (nat \<Rightarrow> local_id) \<Rightarrow> bptree \<Rightarrow> 'k \<Rightarrow> (write_op list \<times> bptree) cres" where
  "plan_insert NK S s mint T target =
     try_then (descend NK S s T target [] (bp_root T)) (\<lambda>(path, node_id, leaf_keys).
       case binary_search leaf_keys target of
         Inr _ \<Rightarrow> Ok ([], T)
       | Inl p \<Rightarrow>
           (let keys = insert_at p target leaf_keys
            in if length keys \<le> leaf_cap T then Ok ([put_node NK T node_id (Leaf keys)], T)
               else let mid = length keys div 2;
                        right_keys = drop mid keys;
                        right_id = mint 0
                    in Ok (propagate NK mint T path 1 node_id (right_keys ! 0) right_id
                         [put_node NK T node_id (Leaf (take mid keys)), put_node NK T right_id (Leaf right_keys)])))"

definition bp_insert ::
    "'k::linorder node_key \<Rightarrow> 's store \<Rightarrow> 's \<Rightarrow> (nat \<Rightarrow> local_id) \<Rightarrow> bptree \<Rightarrow> 'k \<Rightarrow> ('s \<times> bptree) cres" where
  "bp_insert NK S s mint T target =
     try_then (plan_insert NK S s mint T target) (\<lambda>(batch, T').
       try_then (apply_batch S s batch) (\<lambda>s'. Ok (s', T')))"

section \<open>Remove\<close>

definition is_underfull :: "bptree \<Rightarrow> 'k node_body \<Rightarrow> bool" where
  "is_underfull T node = (case node of
      Leaf keys \<Rightarrow> length keys < leaf_cap T div 4
    | Internal _ entries \<Rightarrow> length entries < internal_cap T div 4)"

fun merge :: "bptree \<Rightarrow> 'k node_body \<Rightarrow> 'k node_body \<Rightarrow> 'k \<Rightarrow> 'k node_body option" where
  "merge T (Leaf l) (Leaf r) sep =
     (if length l + length r \<le> leaf_cap T * 3 div 4 then Some (Leaf (l @ r)) else None)"
| "merge T (Internal l_lm l_e) (Internal r_lm r_e) sep =
     (if length l_e + length r_e + 1 \<le> internal_cap T * 3 div 4
      then Some (Internal l_lm (l_e @ [(sep, r_lm)] @ r_e)) else None)"
| "merge T _ _ sep = None"

fun redistribute :: "'k node_body \<Rightarrow> 'k node_body \<Rightarrow> 'k \<Rightarrow> 'k node_body \<times> 'k node_body \<times> 'k" where
  "redistribute (Leaf l) (Leaf r) sep =
     (let combined = l @ r; mid = length combined div 2; right_keys = drop mid combined
      in (Leaf (take mid combined), Leaf right_keys, right_keys ! 0))"
| "redistribute (Internal l_lm l_e) (Internal r_lm r_e) sep =
     (let combined = l_e @ [(sep, r_lm)] @ r_e; mid = length combined div 2; right_entries = drop mid combined
      in (Internal l_lm (take mid combined),
          Internal (snd (right_entries ! 0)) (drop 1 right_entries),
          fst (right_entries ! 0)))"
| "redistribute l r sep = (l, r, sep)"

datatype 'k rebalanced = ParentPending local_id "'k node_body" | Done

definition rebalance ::
    "'k node_key \<Rightarrow> 's store \<Rightarrow> 's \<Rightarrow> bptree \<Rightarrow> write_op list \<Rightarrow> local_id \<Rightarrow> 'k node_body \<Rightarrow> 'k path_frame
     \<Rightarrow> (write_op list \<times> 'k rebalanced) cres" where
  "rebalance NK S s T batch node_id current f =
     (let parent_id = pf_node_id f; leftmost = pf_leftmost f; entries = pf_entries f; child_idx = pf_child_idx f
      in if entries = []
         then Ok (batch @ [put_node NK T node_id current], ParentPending parent_id (Internal leftmost entries))
         else let left_idx = child_idx - 1;
                  child_id = (\<lambda>c. if c = 0 then leftmost else snd (entries ! (c - 1)));
                  left_id = child_id left_idx;
                  right_id = child_id (left_idx + 1);
                  pair = (if child_idx = left_idx
                          then try_then (load_node NK S s T right_id) (\<lambda>right. Ok (current, right))
                          else try_then (load_node NK S s T left_id) (\<lambda>left. Ok (left, current)))
              in try_then pair (\<lambda>(left, right).
                   let sep = fst (entries ! left_idx)
                   in case merge T left right sep of
                        Some merged \<Rightarrow>
                          Ok (batch @ [put_node NK T left_id merged, remove_node T right_id],
                              ParentPending parent_id (Internal leftmost (remove_at left_idx entries)))
                      | None \<Rightarrow>
                          (case redistribute left right sep of (new_left, new_right, new_sep) \<Rightarrow>
                             Ok (batch @ [put_node NK T left_id new_left, put_node NK T right_id new_right,
                                   put_node NK T parent_id
                                     (Internal leftmost (entries[left_idx := (new_sep, snd (entries ! left_idx))]))],
                                 Done))))"

fun finish_at_root :: "'k node_key \<Rightarrow> bptree \<Rightarrow> write_op list \<Rightarrow> local_id \<Rightarrow> 'k node_body \<Rightarrow> write_op list \<times> bptree" where
  "finish_at_root NK T batch root_id (Internal leftmost []) =
     (batch @ [remove_node T root_id], T\<lparr>bp_root := leftmost\<rparr>)"
| "finish_at_root NK T batch root_id root = (batch @ [put_node NK T root_id root], T)"

fun remove_up ::
    "'k node_key \<Rightarrow> 's store \<Rightarrow> 's \<Rightarrow> bptree \<Rightarrow> 'k path_frame list \<Rightarrow> write_op list \<Rightarrow> local_id \<Rightarrow> 'k node_body
     \<Rightarrow> (write_op list \<times> bptree) cres" where
  "remove_up NK S s T [] batch node_id current = Ok (finish_at_root NK T batch node_id current)"
| "remove_up NK S s T (f # path) batch node_id current =
     (if \<not> is_underfull T current then Ok (batch @ [put_node NK T node_id current], T)
      else try_then (rebalance NK S s T batch node_id current f) (\<lambda>(batch', r).
             case r of
               ParentPending i node \<Rightarrow> remove_up NK S s T path batch' i node
             | Done \<Rightarrow> Ok (batch', T)))"

definition plan_remove ::
    "'k::linorder node_key \<Rightarrow> 's store \<Rightarrow> 's \<Rightarrow> bptree \<Rightarrow> 'k \<Rightarrow> ((write_op list \<times> bptree) option) cres" where
  "plan_remove NK S s T target =
     try_then (descend NK S s T target [] (bp_root T)) (\<lambda>(path, node_id, keys).
       case binary_search keys target of
         Inl _ \<Rightarrow> Ok None
       | Inr p \<Rightarrow>
           try_then (remove_up NK S s T path [] node_id (Leaf (remove_at p keys))) (\<lambda>r. Ok (Some r)))"

definition bp_remove ::
    "'k::linorder node_key \<Rightarrow> 's store \<Rightarrow> 's \<Rightarrow> bptree \<Rightarrow> 'k \<Rightarrow> ('s \<times> bptree \<times> bool) cres" where
  "bp_remove NK S s T target =
     try_then (plan_remove NK S s T target) (\<lambda>planned. case planned of
       Some (batch, T') \<Rightarrow> try_then (apply_batch S s batch) (\<lambda>s'. Ok (s', T', True))
     | None \<Rightarrow> Ok (s, T, False))"

section \<open>Searching a sorted list\<close>

lemma binary_search_cases:
  assumes "sorted_wrt (<) xs"
  obtains (found) a b where "xs = a @ k # b" "binary_search xs k = Inr (length a)" "\<forall>x\<in>set a. x < k" "\<forall>x\<in>set b. k < x"
  | (absent) a b where "xs = a @ b" "binary_search xs k = Inl (length a)" "\<forall>x\<in>set a. x < k" "\<forall>x\<in>set b. k < x"
proof -
  let ?a = "takeWhile (\<lambda>x. x < k) xs" and ?b = "dropWhile (\<lambda>x. x < k) xs"
  have xs: "xs = ?a @ ?b" by simp
  have a: "\<forall>x\<in>set ?a. x < k" by (auto dest: set_takeWhileD)
  show thesis
  proof (cases ?b)
    case Nil
    then have all: "?a = xs" by (metis append_Nil2 takeWhile_dropWhile_id)
    then have "binary_search xs k = Inl (length xs)" unfolding binary_search_def Let_def all by simp
    moreover have "\<forall>x\<in>set xs. x < k" using all by simp
    ultimately show thesis by (intro absent [of xs "[]"]) simp_all
  next
    case (Cons y ys)
    have y: "\<not> y < k" using Cons by (metis dropWhile_eq_Cons_conv)
    have s: "sorted_wrt (<) (y # ys)" using assms xs Cons by (metis sorted_wrt_append)
    have nth: "xs ! length ?a = y" using xs Cons by (metis nth_append_length)
    have lt: "length ?a < length xs" using xs Cons by (metis length_append length_Cons less_add_Suc1 add_Suc_right)
    show thesis
    proof (cases "y = k")
      case True
      then have "binary_search xs k = Inr (length ?a)" using nth lt by (simp add: binary_search_def)
      moreover have "\<forall>x\<in>set ys. k < x" using s True by auto
      ultimately show thesis using found [of ?a ys] a xs Cons True by simp
    next
      case False
      then have "binary_search xs k = Inl (length ?a)" using nth lt by (simp add: binary_search_def)
      moreover have "\<forall>x\<in>set ?b. k < x" using s y False Cons by auto
      ultimately show thesis using absent [of ?a ?b] a by simp
    qed
  qed
qed

end
