(* ===== verification/Bp_Laws.thy ===== *)
theory Bp_Laws
  imports Bp_Tree "HOL-Library.Product_Lexorder" "HOL-Library.Multiset"
begin

text \<open>
  What the B+tree operations do.

  The nodes a handle reaches form an abstract tree \<open>'k bpt\<close>; \<open>bp_inv\<close> says that the store holds
  exactly its nodes' bytes and that it is a B+tree: leaves at one depth, keys strictly ascending and
  on the right side of their separators, nodes within capacity, non-root nodes not underfull.  The
  order part is one statement: \<open>flat t\<close> lists keys \<open>(k, True)\<close> and separators \<open>(s, False)\<close> from
  left to right, and is strictly sorted; a separator stands before an equal key.  Splits, merges and
  rotations of internal nodes leave \<open>flat\<close> as it is.
\<close>

section \<open>Node images\<close>

text \<open>Keys and size of a node body; a body within the handle's capacity fits the wire.\<close>

fun body_keys :: "'k node_body \<Rightarrow> 'k list" where
  "body_keys (Leaf ks) = ks"
| "body_keys (Internal _ es) = map fst es"

fun within_cap :: "bptree \<Rightarrow> 'k node_body \<Rightarrow> bool" where
  "within_cap T (Leaf ks) \<longleftrightarrow> length ks \<le> leaf_cap T"
| "within_cap T (Internal _ es) \<longleftrightarrow> length es \<le> internal_cap T"

definition caps_ok :: "nat \<Rightarrow> bptree \<Rightarrow> bool" where
  "caps_ok kb T \<longleftrightarrow> 4 \<le> leaf_cap T \<and> 4 \<le> internal_cap T \<and> u48_ok (bp_tenant T)
     \<and> leaf_cap T * kb < 2 ^ 32 \<and> internal_cap T * (kb + 10) < 2 ^ 32"

context node_key_ok
begin

lemma leaf_wire_ok: "wave_wire (leaf_wire NK) (valid_vec (key_wire NK) vk)"
  by (rule wave_wire.wire_vec_ok [OF key_wire_ok]) (simp add: nonempty_units_def key_stack_pos)

lemma entries_wire_ok:
  "wave_wire (entries_wire NK) (valid_vec (wire_tuple2 (key_wire NK) wire_local_id) (\<lambda>(k, _). vk k))"
proof -
  have "wave_wire (wire_tuple2 (key_wire NK) wire_local_id) (\<lambda>(k, _). vk k)"
    using wire_tuple2_ok [OF key_wire_ok wlid.wave_wire_axioms] by simp
  then show ?thesis
    by (rule wave_wire.wire_vec_ok) (auto simp: nonempty_units_def key_stack_pos)
qed

lemma node_roundtrip:
  assumes "list_all vk (body_keys b)" "within_cap T b" "caps_ok kb T"
  shows "node_from_bytes NK (node_to_bytes NK b) = Ok b"
proof (cases b)
  case (Leaf ks)
  have "vec_heap_size (key_wire NK) ks \<le> length ks * kb"
    by (rule vec_heap_size_bound) (use assms(1) Leaf key_bytes in \<open>auto simp: list_all_iff\<close>)
  also have "\<dots> \<le> leaf_cap T * kb" using assms(2) Leaf by simp
  also have "\<dots> < 2 ^ 32" using assms(3) by (simp add: caps_ok_def)
  finally have "valid_vec (key_wire NK) vk ks" using assms(1) Leaf by (simp add: valid_vec_def)
  then show ?thesis
    using Leaf wave_wire.from_wire_to_wire [OF leaf_wire_ok]
    by (simp add: node_from_bytes_def node_to_bytes_def NODE_PREFIX_def Let_def nth_append)
next
  case (Internal lm es)
  let ?W = "wire_tuple2 (key_wire NK) wire_local_id"
  have "vec_heap_size ?W es \<le> length es * (kb + 10)"
    by (rule vec_heap_size_bound) (use assms(1) Internal key_bytes in \<open>fastforce simp: list_all_iff\<close>)
  also have "\<dots> \<le> internal_cap T * (kb + 10)" using assms(2) Internal by (intro mult_le_mono1) simp
  also have "\<dots> < 2 ^ 32" using assms(3) by (simp add: caps_ok_def)
  finally have "valid_vec ?W (\<lambda>(k, _). vk k) es"
    using assms(1) Internal by (auto simp: valid_vec_def list_all_iff)
  moreover have "length (to_wire wire_local_id lm) = 10" by (simp add: wlid.to_wire_length)
  ultimately show ?thesis
    using Internal wave_wire.from_wire_to_wire [OF entries_wire_ok] wlid.from_wire_to_wire [of lm]
    by (simp add: node_from_bytes_def node_to_bytes_def NODE_PREFIX_def Let_def nth_append)
qed

text \<open>Any bytes at all decode to a node or an error.\<close>

lemma node_from_bytes_returns: "returns (node_from_bytes NK bytes)"
proof -
  have "total_wire (leaf_wire NK)"
    by (rule total_wire.wire_vec_total [OF key_wire_total key_stack_pos])
  moreover have "total_wire (entries_wire NK)"
    by (rule total_wire.wire_vec_total [OF wire_tuple2_total [OF key_wire_total wlidt.total_wire_axioms]])
      (simp add: key_stack_pos)
  ultimately have "returns (from_wire (leaf_wire NK) bs) \<and> returns (from_wire (entries_wire NK) bs)" for bs
    by (auto intro: total_wire.from_wire_returns)
  then show ?thesis
    using wlidt.from_wire_returns by (auto simp: node_from_bytes_def Let_def)
qed

end

section \<open>Abstract trees\<close>

datatype 'k bpt = L local_id "'k list" | N local_id "'k bpt list" "'k list"

fun root_id :: "'k bpt \<Rightarrow> local_id" where
  "root_id (L i _) = i"
| "root_id (N i _ _) = i"

fun body_of :: "'k bpt \<Rightarrow> 'k node_body" where
  "body_of (L _ ks) = Leaf ks"
| "body_of (N _ ts ss) = Internal (root_id (hd ts)) (zip ss (map root_id (tl ts)))"

fun below :: "'k bpt \<Rightarrow> (local_id \<times> 'k node_body) list" and
    nodes :: "'k bpt \<Rightarrow> (local_id \<times> 'k node_body) list" where
  "below (L _ _) = []"
| "below (N _ ts _) = concat (map nodes ts)"
| "nodes t = (root_id t, body_of t) # below t"

fun shaped :: "nat \<Rightarrow> 'k bpt \<Rightarrow> bool" where
  "shaped 0 (L _ _) = True"
| "shaped (Suc h) (N _ ts ss) = (length ts = Suc (length ss) \<and> list_all (shaped h) ts)"
| "shaped _ _ = False"

text \<open>The blocks of the children with the separators between them.\<close>

definition weave :: "('k \<times> bool) list list \<Rightarrow> 'k list \<Rightarrow> ('k \<times> bool) list" where
  "weave xs ss = (case xs of [] \<Rightarrow> [] | x # ys \<Rightarrow> x @ concat (map2 (\<lambda>s y. (s, False) # y) ss ys))"

fun flat :: "'k bpt \<Rightarrow> ('k \<times> bool) list" where
  "flat (L _ ks) = map (\<lambda>k. (k, True)) ks"
| "flat (N _ ts ss) = weave (map flat ts) ss"

definition keys_of :: "('k \<times> bool) list \<Rightarrow> 'k list" where
  "keys_of xs = map fst (filter snd xs)"

text \<open>An internal node separates at least two children.\<close>

fun solid :: "'k node_body \<Rightarrow> bool" where
  "solid (Leaf _) = True"
| "solid (Internal _ es) = (es \<noteq> [])"

definition node_good :: "('k \<Rightarrow> bool) \<Rightarrow> bptree \<Rightarrow> 'k node_body \<Rightarrow> bool" where
  "node_good vk T b \<longleftrightarrow> list_all vk (body_keys b) \<and> within_cap T b \<and> solid b"

text \<open>A property of all bodies of a node list.\<close>

definition every :: "('b \<Rightarrow> bool) \<Rightarrow> (local_id \<times> 'b) list \<Rightarrow> bool" where
  "every P ns \<longleftrightarrow> (\<forall>x\<in>set ns. P (snd x))"

lemma every_simps [simp]:
  "every P []" "every P ((i, b) # ns) \<longleftrightarrow> P b \<and> every P ns" "every P (ns @ ns') \<longleftrightarrow> every P ns \<and> every P ns'"
  by (auto simp: every_def)

lemma every_mono: "every P ns \<Longrightarrow> set ns' \<subseteq> set ns \<Longrightarrow> every P ns'"
  by (auto simp: every_def)

lemma every_set: "set ns' = set ns \<Longrightarrow> every P ns' = every P ns"
  by (simp add: every_def)

abbreviation filled :: "bptree \<Rightarrow> (local_id \<times> 'k node_body) list \<Rightarrow> bool" where
  "filled T \<equiv> every (\<lambda>b. \<not> is_underfull T b)"

definition wf_bpt :: "('k::linorder \<Rightarrow> bool) \<Rightarrow> bptree \<Rightarrow> nat \<Rightarrow> 'k bpt \<Rightarrow> bool" where
  "wf_bpt vk T h t \<longleftrightarrow> shaped h t \<and> sorted_wrt (<) (flat t) \<and> distinct (map fst (nodes t))
     \<and> every (node_good vk T) (nodes t) \<and> filled T (below t)"

text \<open>The store holds these nodes.\<close>

definition heap :: "'k node_key \<Rightarrow> bptree \<Rightarrow> kv \<Rightarrow> (local_id \<times> 'k node_body) list \<Rightarrow> bool" where
  "heap NK T m ns \<longleftrightarrow> (\<forall>(i, b)\<in>set ns. m (to_id i (bp_tenant T)) = Some (node_to_bytes NK b))"

lemma heap_simps [simp]:
  "heap NK T m []"
  "heap NK T m ((i, b) # ns) \<longleftrightarrow> m (to_id i (bp_tenant T)) = Some (node_to_bytes NK b) \<and> heap NK T m ns"
  "heap NK T m (ns @ ns') \<longleftrightarrow> heap NK T m ns \<and> heap NK T m ns'"
  by (auto simp: heap_def)

lemma heap_mono: "heap NK T m ns \<Longrightarrow> set ns' \<subseteq> set ns \<Longrightarrow> heap NK T m ns'"
  by (auto simp: heap_def)

definition bp_inv :: "'k::linorder node_key \<Rightarrow> ('k \<Rightarrow> bool) \<Rightarrow> bptree \<Rightarrow> kv \<Rightarrow> 'k bpt \<Rightarrow> nat \<Rightarrow> bool" where
  "bp_inv NK vk T m t h \<longleftrightarrow> wf_bpt vk T h t \<and> root_id t = bp_root T \<and> heap NK T m (nodes t)"

subsection \<open>Weaving\<close>

lemma weave_simps [simp]:
  "weave [] ss = []"
  "weave [x] [] = x"
  "xs \<noteq> [] \<Longrightarrow> weave (x # xs) (s # ss) = x @ (s, False) # weave xs ss"
  by (auto simp: weave_def split: list.splits)

lemma weave_append:
  "length xs = Suc (length sa) \<Longrightarrow> ys \<noteq> [] \<Longrightarrow>
   weave (xs @ ys) (sa @ s # sb) = weave xs sa @ (s, False) # weave ys sb"
proof (induction sa arbitrary: xs)
  case Nil
  then show ?case by (cases xs) auto
next
  case (Cons a sa)
  then obtain x xs' where "xs = x # xs'" "xs' \<noteq> []" by (cases xs; cases "tl xs") auto
  with Cons show ?case by simp
qed

definition wpre :: "'k bpt list \<Rightarrow> 'k list \<Rightarrow> ('k \<times> bool) list" where
  "wpre ts ss = concat (map2 (\<lambda>t s. flat t @ [(s, False)]) ts ss)"

definition wpost :: "'k list \<Rightarrow> 'k bpt list \<Rightarrow> ('k \<times> bool) list" where
  "wpost ss ts = concat (map2 (\<lambda>s t. (s, False) # flat t) ss ts)"

lemma weave_around:
  "length lts = length lss \<Longrightarrow>
   weave (map flat (lts @ t # rts)) (lss @ rss) = wpre lts lss @ flat t @ wpost rss rts"
proof (induction lts lss rule: list_induct2)
  case Nil
  then show ?case by (simp add: weave_def wpre_def wpost_def comp_def case_prod_unfold map2_map_map zip_map2)
next
  case (Cons l lts s lss)
  then show ?case by (simp add: wpre_def)
qed

subsection \<open>Frames and contexts\<close>

datatype 'k frame = Frame (fr_id: local_id) (fr_lts: "'k bpt list") (fr_lss: "'k list")
  (fr_rss: "'k list") (fr_rts: "'k bpt list")

definition plug :: "'k frame \<Rightarrow> 'k bpt \<Rightarrow> 'k bpt" where
  "plug F t = N (fr_id F) (fr_lts F @ t # fr_rts F) (fr_lss F @ fr_rss F)"

definition frame_ok :: "nat \<Rightarrow> 'k frame \<Rightarrow> bool" where
  "frame_ok h F \<longleftrightarrow> length (fr_lts F) = length (fr_lss F) \<and> length (fr_rts F) = length (fr_rss F)
     \<and> list_all (shaped h) (fr_lts F) \<and> list_all (shaped h) (fr_rts F)"

definition fr_children :: "'k frame \<Rightarrow> local_id \<Rightarrow> local_id list" where
  "fr_children F r = map root_id (fr_lts F) @ r # map root_id (fr_rts F)"

definition fr_entries :: "'k frame \<Rightarrow> local_id \<Rightarrow> ('k \<times> local_id) list" where
  "fr_entries F r = zip (fr_lss F @ fr_rss F) (tl (fr_children F r))"

definition fbody :: "'k frame \<Rightarrow> local_id \<Rightarrow> 'k node_body" where
  "fbody F r = Internal (hd (fr_children F r)) (fr_entries F r)"

definition sibs :: "'k frame \<Rightarrow> (local_id \<times> 'k node_body) list" where
  "sibs F = concat (map nodes (fr_lts F)) @ concat (map nodes (fr_rts F))"

fun plugs :: "'k frame list \<Rightarrow> 'k bpt \<Rightarrow> 'k bpt" where
  "plugs [] t = t"
| "plugs (F # C) t = plugs C (plug F t)"

fun ctx_ok :: "nat \<Rightarrow> 'k frame list \<Rightarrow> bool" where
  "ctx_ok h [] = True"
| "ctx_ok h (F # C) = (frame_ok h F \<and> ctx_ok (Suc h) C)"

fun ctx_pre :: "'k frame list \<Rightarrow> ('k \<times> bool) list" where
  "ctx_pre [] = []"
| "ctx_pre (F # C) = ctx_pre C @ wpre (fr_lts F) (fr_lss F)"

fun ctx_post :: "'k frame list \<Rightarrow> ('k \<times> bool) list" where
  "ctx_post [] = []"
| "ctx_post (F # C) = wpost (fr_rss F) (fr_rts F) @ ctx_post C"

fun ctx_nodes :: "'k frame list \<Rightarrow> local_id \<Rightarrow> (local_id \<times> 'k node_body) list" where
  "ctx_nodes [] r = []"
| "ctx_nodes (F # C) r = (fr_id F, fbody F r) # sibs F @ ctx_nodes C (fr_id F)"

fun ctx_filled :: "bptree \<Rightarrow> 'k frame list \<Rightarrow> local_id \<Rightarrow> bool" where
  "ctx_filled T [] r = True"
| "ctx_filled T (F # C) r \<longleftrightarrow> (C \<noteq> [] \<longrightarrow> \<not> is_underfull T (fbody F r))
     \<and> filled T (sibs F) \<and> ctx_filled T C (fr_id F)"

definition pframe :: "'k frame \<Rightarrow> local_id \<Rightarrow> 'k path_frame" where
  "pframe F r = \<lparr>pf_node_id = fr_id F, pf_leftmost = hd (fr_children F r), pf_entries = fr_entries F r,
     pf_child_idx = length (fr_lts F)\<rparr>"

fun path_of :: "'k frame list \<Rightarrow> local_id \<Rightarrow> 'k path_frame list" where
  "path_of [] r = []"
| "path_of (F # C) r = pframe F r # path_of C (fr_id F)"

lemma root_id_plug [simp]: "root_id (plug F t) = fr_id F"
  by (simp add: plug_def)

lemma body_plug: "body_of (plug F t) = fbody F (root_id t)"
  by (cases "fr_lts F") (auto simp: plug_def fbody_def fr_children_def fr_entries_def)

lemma shaped_plug: "frame_ok h F \<Longrightarrow> shaped (Suc h) (plug F t) \<longleftrightarrow> shaped h t"
  by (auto simp: frame_ok_def plug_def)

lemma flat_plug: "frame_ok h F \<Longrightarrow>
   flat (plug F t) = wpre (fr_lts F) (fr_lss F) @ flat t @ wpost (fr_rss F) (fr_rts F)"
  by (simp add: plug_def frame_ok_def weave_around del: map_append)

lemma below_plug: "mset (below (plug F t)) = mset (sibs F) + mset (nodes t)"
  by (simp add: plug_def sibs_def)

lemma shaped_plugs: "ctx_ok h C \<Longrightarrow> shaped (h + length C) (plugs C t) \<longleftrightarrow> shaped h t"
  by (induction C arbitrary: h t) (auto simp: shaped_plug simp flip: add_Suc)

lemma flat_plugs: "ctx_ok h C \<Longrightarrow> flat (plugs C t) = ctx_pre C @ flat t @ ctx_post C"
  by (induction C arbitrary: h t) (auto simp: flat_plug)

lemma nodes_plugs: "mset (nodes (plugs C t)) = mset (ctx_nodes C (root_id t)) + mset (nodes t)"
  by (induction C arbitrary: t) (auto simp: body_plug below_plug)

lemma set_nodes_plugs: "set (nodes (plugs C t)) = set (ctx_nodes C (root_id t)) \<union> set (nodes t)"
  using nodes_plugs [of C t] by (metis mset_append set_append set_mset_mset)

lemma distinct_nodes_plugs:
  "distinct (map fst (nodes (plugs C t))) \<longleftrightarrow> distinct (map fst (ctx_nodes C (root_id t) @ nodes t))"
  by (rule mset_eq_imp_distinct_iff) (simp only: mset_map nodes_plugs mset_append)


lemmas nodes_eq = nodes.simps

lemma nodes_node [simp]:
  "nodes (L i ks) = [(i, Leaf ks)]"
  "nodes (N i ts ss) = (i, body_of (N i ts ss)) # concat (map nodes ts)"
  by simp_all

declare nodes.simps [simp del]

lemma filled_plugs:
  "filled T (below (plugs C t)) \<longleftrightarrow> ctx_filled T C (root_id t) \<and> filled T (below t)
     \<and> (C \<noteq> [] \<longrightarrow> \<not> is_underfull T (body_of t))"
proof (induction C arbitrary: t)
  case (Cons F C)
  have "set (below (plug F t)) = set (sibs F @ nodes t)"
    using below_plug [of F t] by (metis mset_append set_mset_mset)
  then have "filled T (below (plug F t)) \<longleftrightarrow> filled T (sibs F @ nodes t)" by (rule every_set)
  with Cons [of "plug F t"] show ?case by (auto simp: body_plug nodes_eq)
qed simp

lemma wf_plugs:
  assumes "ctx_ok h C"
  shows "wf_bpt vk T (h + length C) (plugs C t) \<longleftrightarrow>
    shaped h t \<and> sorted_wrt (<) (ctx_pre C @ flat t @ ctx_post C)
    \<and> distinct (map fst (ctx_nodes C (root_id t) @ nodes t))
    \<and> every (node_good vk T) (ctx_nodes C (root_id t) @ nodes t)
    \<and> ctx_filled T C (root_id t) \<and> filled T (below t) \<and> (C \<noteq> [] \<longrightarrow> \<not> is_underfull T (body_of t))"
proof -
  have "every (node_good vk T) (nodes (plugs C t)) = every (node_good vk T) (ctx_nodes C (root_id t) @ nodes t)"
    by (rule every_set) (simp add: set_nodes_plugs)
  then show ?thesis
    unfolding wf_bpt_def shaped_plugs [OF assms] flat_plugs [OF assms] distinct_nodes_plugs filled_plugs by blast
qed

lemma heap_plugs: "heap NK T m (nodes (plugs C t)) \<longleftrightarrow> heap NK T m (ctx_nodes C (root_id t) @ nodes t)"
  by (simp only: heap_def set_nodes_plugs set_append)

lemma child_and_index_cases:
  assumes "sorted_wrt (<) ss" "length is = Suc (length ss)"
  obtains sa sb where "ss = sa @ sb" "\<forall>s\<in>set sa. s \<le> k" "\<forall>s\<in>set sb. k < s"
    "child_and_index (hd is) (zip ss (tl is)) k = (is ! length sa, length sa)"
  using assms(1)
proof (cases rule: binary_search_cases [where k = k])
  case (found a b)
  have "map fst (zip ss (tl is)) = ss" using assms(2) by simp
  then have "child_and_index (hd is) (zip ss (tl is)) k = (is ! length (a @ [k]), length (a @ [k]))"
    using found assms(2) by (simp add: child_and_index_def nth_tl)
  with found that [of "a @ [k]" b] show thesis by (auto simp: less_imp_le)
next
  case (absent a b)
  have "map fst (zip ss (tl is)) = ss" using assms(2) by simp
  moreover have "is \<noteq> []" using assms(2) by auto
  moreover have "snd (zip ss (tl is) ! (length a - 1)) = is ! length a" if "a \<noteq> []"
    using that absent(1) assms(2) by (cases a) (simp_all add: nth_tl)
  ultimately have "child_and_index (hd is) (zip ss (tl is)) k = (is ! length a, length a)"
    using absent(1, 2) by (auto simp: child_and_index_def hd_conv_nth)
  with absent that [of a b] show thesis by (auto simp: less_imp_le)
qed

lemma sep_in_weave: "length xs = Suc (length ss) \<Longrightarrow> s \<in> set ss \<Longrightarrow> (s, False) \<in> set (weave xs ss)"
proof (induction ss arbitrary: xs)
  case (Cons a ss)
  then obtain x xs' where "xs = x # xs'" "xs' \<noteq> []" by (cases xs; cases "tl xs") auto
  with Cons show ?case by auto
qed simp

lemma sorted_seps:
  "length xs = Suc (length ss) \<Longrightarrow> sorted_wrt (<) (weave xs ss) \<Longrightarrow> sorted_wrt (<) (ss :: 'k::linorder list)"
proof (induction ss arbitrary: xs)
  case (Cons a ss)
  then obtain x xs' where xs: "xs = x # xs'" "xs' \<noteq> []" by (cases xs; cases "tl xs") auto
  have "(s, False) \<in> set (weave xs' ss)" if "s \<in> set ss" for s
    using Cons.prems xs that by (intro sep_in_weave) auto
  with Cons xs show ?case by (fastforce simp: sorted_wrt_append)
qed simp


subsection \<open>Descent\<close>

lemma wpre_below:
  assumes "sorted_wrt (<) (wpre ts ss)" "length ts = length ss" "\<forall>s\<in>set ss. s \<le> (k :: 'k::linorder)"
  shows "\<forall>x\<in>set (wpre ts ss). x < (k, True)"
proof (cases ss rule: rev_exhaust)
  case (snoc sa s)
  then obtain ta t where ts: "ts = ta @ [t]" "length ta = length sa" using assms(2) by (cases ts rule: rev_exhaust) auto
  have split: "wpre ts ss = wpre ta sa @ flat t @ [(s, False)]" by (simp add: wpre_def snoc ts)
  have "x < (s, False)" if "x \<in> set (wpre ta sa @ flat t)" for x
    using assms(1) that unfolding split by (auto simp: sorted_wrt_append)
  moreover have "(s, False) < (k, True)" using assms(3) snoc by (auto simp: less_prod_simp)
  ultimately have "x < (k, True)" if "x \<in> set (wpre ta sa @ flat t) \<or> x = (s, False)" for x
    using that by (blast intro: less_trans)
  moreover have "set (wpre ts ss) = {x. x \<in> set (wpre ta sa @ flat t) \<or> x = (s, False)}" unfolding split by auto
  ultimately show ?thesis by blast
qed (simp add: wpre_def)

lemma wpost_above:
  assumes "sorted_wrt (<) (wpost ss ts)" "length ts = length ss" "\<forall>s\<in>set ss. (k :: 'k::linorder) < s"
  shows "\<forall>x\<in>set (wpost ss ts). (k, True) < x"
proof (cases ss)
  case (Cons s sb)
  then obtain t tb where ts: "ts = t # tb" using assms(2) by (cases ts) auto
  have split: "wpost ss ts = (s, False) # flat t @ wpost sb tb" by (simp add: wpost_def Cons ts)
  have "(s, False) < x" if "x \<in> set (flat t @ wpost sb tb)" for x
    using assms(1) that unfolding split by auto
  moreover have "(k, True) < (s, False)" using assms(3) Cons by (simp add: less_prod_simp)
  ultimately have "(k, True) < x" if "x \<in> set (flat t @ wpost sb tb) \<or> x = (s, False)" for x
    using that by (blast intro: less_trans)
  moreover have "set (wpost ss ts) = {x. x \<in> set (flat t @ wpost sb tb) \<or> x = (s, False)}" unfolding split by auto
  ultimately show ?thesis by blast
qed (simp add: wpost_def)

text \<open>The tree whose hole a key belongs in.\<close>

definition routed :: "'k::linorder \<Rightarrow> 'k frame list \<Rightarrow> bool" where
  "routed k C \<longleftrightarrow> (\<forall>x\<in>set (ctx_pre C). x < (k, True)) \<and> (\<forall>x\<in>set (ctx_post C). (k, True) < x)"

lemma route_child:
  assumes "shaped (Suc h) (N i ts ss)" "sorted_wrt (<) (flat (N i ts ss))"
  obtains F t where "N i ts ss = plug F t" "frame_ok h F" "shaped h t" "fr_id F = i"
    "child_and_index (root_id (hd ts)) (zip ss (map root_id (tl ts))) k = (root_id t, length (fr_lts F))"
    "\<forall>x\<in>set (wpre (fr_lts F) (fr_lss F)). x < (k, True)" "\<forall>x\<in>set (wpost (fr_rss F) (fr_rts F)). (k, True) < x"
proof -
  have len: "length ts = Suc (length ss)" "list_all (shaped h) ts" using assms(1) by auto
  have ne: "ts \<noteq> []" using len by auto
  have "sorted_wrt (<) ss" by (rule sorted_seps [of "map flat ts"]) (use len assms(2) in auto)
  from child_and_index_cases [OF this, of "map root_id ts" k] obtain sa sb where
    ss: "ss = sa @ sb" and sa: "\<forall>s\<in>set sa. s \<le> k" and sb: "\<forall>s\<in>set sb. k < s"
    and ci: "child_and_index (hd (map root_id ts)) (zip ss (tl (map root_id ts))) k =
      (map root_id ts ! length sa, length sa)"
    using len by auto
  let ?t = "ts ! length sa"
  let ?F = "Frame i (take (length sa) ts) sa sb (drop (Suc (length sa)) ts)"
  have ts: "ts = take (length sa) ts @ ?t # drop (Suc (length sa)) ts"
    using len ss by (intro id_take_nth_drop) simp
  have plug: "N i ts ss = plug ?F ?t" using ts ss by (simp add: plug_def)
  have ok: "frame_ok h ?F"
    using len ss by (auto simp: frame_ok_def list_all_iff dest: in_set_takeD in_set_dropD)
  have srt: "sorted_wrt (<) (wpre (take (length sa) ts) sa)" "sorted_wrt (<) (wpost sb (drop (Suc (length sa)) ts))"
    using assms(2) flat_plug [OF ok, of ?t] unfolding plug by (auto simp: sorted_wrt_append)
  show thesis
  proof (rule that [OF plug ok])
    show "shaped h ?t" using len ss by (simp add: list_all_length)
    show "child_and_index (root_id (hd ts)) (zip ss (map root_id (tl ts))) k = (root_id ?t, length (fr_lts ?F))"
      using ci len ss ne by (simp add: hd_map map_tl)
    show "\<forall>x\<in>set (wpre (fr_lts ?F) (fr_lss ?F)). x < (k, True)"
      using wpre_below [OF srt(1) _ sa] len ss by simp
    show "\<forall>x\<in>set (wpost (fr_rss ?F) (fr_rts ?F)). (k, True) < x"
      using wpost_above [OF srt(2) _ sb] len ss by simp
  qed simp
qed

locale bp_store = node_key_ok NK vk kb + batch_store S view
  for NK :: "'k::linorder node_key" and vk kb and S :: "'s store" and view
begin

lemma load_at:
  assumes "view s (to_id i (bp_tenant T)) = Some (node_to_bytes NK b)" "node_good vk T b" "caps_ok kb T"
  shows "load_node NK S s T i = Ok b"
  using assms node_roundtrip [of b T] by (simp add: load_node_def get_view node_good_def)

lemma descend_reaches:
  assumes "ctx_ok h C" "shaped h t" "sorted_wrt (<) (flat t)" "heap NK T (view s) (nodes t)"
    "every (node_good vk T) (nodes t)" "caps_ok kb T" "routed k C"
  shows "\<exists>C' i ks. descend NK S s T k (path_of C (root_id t)) (root_id t) = Ok (path_of C' i, i, ks)
    \<and> plugs C' (L i ks) = plugs C t \<and> ctx_ok 0 C' \<and> length C' = h + length C \<and> routed k C'"
  using assms
proof (induction h arbitrary: C t)
  case 0
  then obtain i ks where t: "t = L i ks" by (cases t) auto
  have "load_node NK S s T i = Ok (Leaf ks)" using 0 t by (intro load_at) (auto simp: nodes_eq)
  then show ?case
    using 0 t by (subst descend.simps) auto
next
  case (Suc h)
  then obtain i ts ss where t: "t = N i ts ss" by (cases t) auto
  have sh: "shaped (Suc h) (N i ts ss)" and so: "sorted_wrt (<) (flat (N i ts ss))" using Suc.prems t by auto
  obtain F u where F: "N i ts ss = plug F u" "frame_ok h F" "shaped h u" "fr_id F = i"
    and ci: "child_and_index (root_id (hd ts)) (zip ss (map root_id (tl ts))) k = (root_id u, length (fr_lts F))"
    and bnd: "\<forall>x\<in>set (wpre (fr_lts F) (fr_lss F)). x < (k, True)"
      "\<forall>x\<in>set (wpost (fr_rss F) (fr_rts F)). (k, True) < x"
    by (rule route_child [OF sh so, of k])
  have ld: "load_node NK S s T i = Ok (body_of t)" using Suc.prems t by (intro load_at) (auto simp: nodes_eq)
  have bd: "body_of t = fbody F (root_id u)" using body_plug [of F u] F(1) t by simp
  have "descend NK S s T k (path_of C (root_id t)) (root_id t) =
      descend NK S s T k (path_of (F # C) (root_id u)) (root_id u)"
    using ld ci bd F(4) t by (subst descend.simps) (simp add: pframe_def fbody_def)
  moreover have "\<exists>C' i ks. descend NK S s T k (path_of (F # C) (root_id u)) (root_id u) = Ok (path_of C' i, i, ks)
    \<and> plugs C' (L i ks) = plugs (F # C) u \<and> ctx_ok 0 C' \<and> length C' = h + length (F # C) \<and> routed k C'"
  proof (rule Suc.IH)
    have sub: "set (nodes u) \<subseteq> set (nodes t)" using t F(1) by (auto simp: plug_def)
    show "heap NK T (view s) (nodes u)" using Suc.prems(4) sub by (rule heap_mono)
    show "every (node_good vk T) (nodes u)" using Suc.prems(5) sub by (rule every_mono)
    show "sorted_wrt (<) (flat u)"
      using Suc.prems(3) flat_plug [OF F(2), of u] t F(1) by (auto simp: sorted_wrt_append)
    show "routed k (F # C)" using Suc.prems(7) bnd by (simp add: routed_def ball_Un)
  qed (use Suc.prems F in simp_all)
  moreover have "plugs (F # C) u = plugs C t" using F(1) t by simp
  ultimately show ?case by simp
qed

lemma contains_descend:
  assumes "descend NK S s T k path node = Ok (path', i, ks)"
  shows "contains_loop NK S s T k node = Ok (\<not> isl (binary_search ks k))"
proof -
  have "\<forall>path' i ks. y = Inr (path', i, ks) \<longrightarrow> contains_loop NK S s T k node = Ok (\<not> isl (binary_search ks k))"
    if "descend NK S s T k path node = Some y" for y
    using that
    by (rule descend.raw_induct [rotated], subst contains_loop.simps)
      (auto simp: child_for_def split: option.splits sum.splits node_body.splits prod.splits)
  with assms show ?thesis by blast
qed

end

end
