(* ===== verification/Bp_Insert.thy ===== *)
theory Bp_Insert
  imports Bp_Laws
begin

text \<open>
  Inserting into a B+tree: the leaf insertion, the split propagation and the growth of a new root
  keep \<open>bp_inv\<close> and add exactly the key.
\<close>

section \<open>Writes of one operation\<close>

text \<open>The writes are unguarded and go to nodes with ids in \<open>I\<close>.\<close>

definition touches :: "bptree \<Rightarrow> local_id set \<Rightarrow> write_op list \<Rightarrow> bool" where
  "touches T I ws \<longleftrightarrow> (\<forall>w\<in>set ws. write_id w \<in> (\<lambda>i. to_id i (bp_tenant T)) ` I
     \<and> (case w of Expect _ _ _ \<Rightarrow> False | _ \<Rightarrow> True))"

lemma touches_simps [simp]:
  "touches T I []"
  "touches T I (put_node NK T i b # ws) \<longleftrightarrow> to_id i (bp_tenant T) \<in> (\<lambda>i. to_id i (bp_tenant T)) ` I \<and> touches T I ws"
  "touches T I (remove_node T i # ws) \<longleftrightarrow> to_id i (bp_tenant T) \<in> (\<lambda>i. to_id i (bp_tenant T)) ` I \<and> touches T I ws"
  "touches T I (ws @ ws') \<longleftrightarrow> touches T I ws \<and> touches T I ws'"
  by (auto simp: touches_def put_node_def remove_node_def)

lemma touches_mono: "touches T I ws \<Longrightarrow> I \<subseteq> J \<Longrightarrow> touches T J ws"
  unfolding touches_def by blast

lemma touches_frame: "touches T I ws \<Longrightarrow> x \<notin> (\<lambda>i. to_id i (bp_tenant T)) ` I \<Longrightarrow> batch_effect ws m x = m x"
proof (induction ws arbitrary: m)
  case (Cons w ws)
  then have "write_id w \<noteq> x" by (auto simp: touches_def)
  then have "write_effect w m x = m x" by (cases w) auto
  moreover have "touches T I ws" using Cons.prems by (simp add: touches_def)
  ultimately show ?case using Cons by simp
qed simp

lemma touches_no_conflict: "touches T I ws \<Longrightarrow> first_conflict ws m = None"
  by (induction ws m rule: first_conflict.induct) (auto simp: touches_def)

lemma node_write_effect [simp]:
  "write_effect (put_node NK T i b) m = m(to_id i (bp_tenant T) \<mapsto> node_to_bytes NK b)"
  "write_effect (remove_node T i) m = m(to_id i (bp_tenant T) := None)"
  by (simp_all add: put_node_def remove_node_def)

lemma heap_put:
  assumes "heap NK T m ns" "i \<notin> fst ` set ns" "u48_ok (bp_tenant T)"
  shows "heap NK T (m(to_id i (bp_tenant T) \<mapsto> v)) ns"
  using assms by (force simp: heap_def to_id_inject)

section \<open>Nodes as child and separator lists\<close>

lemma wpost_Cons [simp]: "wpost (s # ss) (t # ts) = (s, False) # flat t @ wpost ss ts"
  by (simp add: wpost_def)

lemma fr_entries_split:
  assumes "frame_ok h F"
  shows "fr_entries F r = zip (fr_lss F) (tl (map root_id (fr_lts F) @ [r])) @ zip (fr_rss F) (map root_id (fr_rts F))"
proof -
  have "tl (fr_children F r) = tl (map root_id (fr_lts F) @ [r]) @ map root_id (fr_rts F)"
    by (cases "fr_lts F") (simp_all add: fr_children_def)
  then show ?thesis using assms by (simp add: fr_entries_def frame_ok_def zip_append)
qed

text \<open>A frame whose hole is filled by two neighbours.\<close>

definition plug2 :: "'k frame \<Rightarrow> 'k bpt \<Rightarrow> 'k \<Rightarrow> 'k bpt \<Rightarrow> 'k bpt" where
  "plug2 F lt sep rt = N (fr_id F) (fr_lts F @ lt # rt # fr_rts F) (fr_lss F @ sep # fr_rss F)"

lemma body_plug2:
  assumes "frame_ok h F"
  shows "body_of (plug2 F lt sep rt) = Internal (hd (fr_children F (root_id lt)))
     (insert_at (length (fr_lts F)) (sep, root_id rt) (fr_entries F (root_id lt)))"
proof -
  have "map root_id (tl (fr_lts F @ lt # rt # fr_rts F)) =
      tl (map root_id (fr_lts F) @ [root_id lt]) @ root_id rt # map root_id (fr_rts F)"
    by (cases "fr_lts F") simp_all
  moreover have "root_id (hd (fr_lts F @ lt # rt # fr_rts F)) = hd (fr_children F (root_id lt))"
    by (cases "fr_lts F") (simp_all add: fr_children_def)
  ultimately show ?thesis
    using assms by (simp add: plug2_def fr_entries_split [OF assms] frame_ok_def insert_at_def zip_append)
qed

lemma flat_plug2:
  "frame_ok h F \<Longrightarrow> flat (plug2 F lt sep rt) =
     wpre (fr_lts F) (fr_lss F) @ flat lt @ (sep, False) # flat rt @ wpost (fr_rss F) (fr_rts F)"
  using weave_around [of "fr_lts F" "fr_lss F" lt "rt # fr_rts F" "sep # fr_rss F"]
  by (simp add: plug2_def frame_ok_def del: map_append)

lemma nodes_plug2:
  "mset (nodes (plug2 F lt sep rt)) =
   add_mset (fr_id F, body_of (plug2 F lt sep rt)) (mset (sibs F) + mset (nodes lt) + mset (nodes rt))"
  by (simp add: plug2_def sibs_def)

lemma shaped_plug2: "frame_ok h F \<Longrightarrow> shaped h lt \<Longrightarrow> shaped h rt \<Longrightarrow> shaped (Suc h) (plug2 F lt sep rt)"
  by (simp add: plug2_def frame_ok_def)

text \<open>Cutting an internal node at separator \<open>mid\<close>.\<close>

definition cut_left :: "nat \<Rightarrow> 'k bpt \<Rightarrow> 'k bpt" where
  "cut_left mid t = (case t of N i ts ss \<Rightarrow> N i (take (Suc mid) ts) (take mid ss) | L i ks \<Rightarrow> L i ks)"

definition cut_right :: "local_id \<Rightarrow> nat \<Rightarrow> 'k bpt \<Rightarrow> 'k bpt" where
  "cut_right j mid t = (case t of N i ts ss \<Rightarrow> N j (drop (Suc mid) ts) (drop (Suc mid) ss) | L i ks \<Rightarrow> L j ks)"

lemma cut_structure:
  assumes "shaped (Suc h) (N i ts ss)" "mid < length ss"
  shows "shaped (Suc h) (cut_left mid (N i ts ss))" "shaped (Suc h) (cut_right j mid (N i ts ss))"
    and "flat (N i ts ss) = flat (cut_left mid (N i ts ss)) @ (ss ! mid, False) # flat (cut_right j mid (N i ts ss))"
    and "mset (below (N i ts ss)) = mset (below (cut_left mid (N i ts ss))) + mset (below (cut_right j mid (N i ts ss)))"
    and "root_id (cut_left mid (N i ts ss)) = i" "root_id (cut_right j mid (N i ts ss)) = j"
proof -
  have len: "length ts = Suc (length ss)" "list_all (shaped h) ts" using assms(1) by auto
  show "shaped (Suc h) (cut_left mid (N i ts ss))" "shaped (Suc h) (cut_right j mid (N i ts ss))"
    using len assms(2) by (auto simp: cut_left_def cut_right_def list_all_iff dest: in_set_takeD in_set_dropD)
  have ss: "ss = take mid ss @ ss ! mid # drop (Suc mid) ss" using assms(2) by (rule id_take_nth_drop)
  have "weave (map flat (take (Suc mid) ts) @ map flat (drop (Suc mid) ts)) (take mid ss @ ss ! mid # drop (Suc mid) ss)
      = weave (map flat (take (Suc mid) ts)) (take mid ss) @ (ss ! mid, False) # weave (map flat (drop (Suc mid) ts)) (drop (Suc mid) ss)"
    by (rule weave_append) (use len assms(2) in auto)
  moreover have "map flat (take (Suc mid) ts) @ map flat (drop (Suc mid) ts) = map flat ts"
    by (simp flip: map_append)
  ultimately show "flat (N i ts ss) = flat (cut_left mid (N i ts ss)) @ (ss ! mid, False) # flat (cut_right j mid (N i ts ss))"
    using ss by (simp add: cut_left_def cut_right_def)
  have "concat (map nodes ts) = concat (map nodes (take (Suc mid) ts)) @ concat (map nodes (drop (Suc mid) ts))"
    by (simp flip: concat_append map_append)
  then show "mset (below (N i ts ss)) = mset (below (cut_left mid (N i ts ss))) + mset (below (cut_right j mid (N i ts ss)))"
    by (simp add: cut_left_def cut_right_def)
  show "root_id (cut_left mid (N i ts ss)) = i" "root_id (cut_right j mid (N i ts ss)) = j"
    by (simp_all add: cut_left_def cut_right_def)
qed

lemma cut_bodies:
  assumes "length ts = Suc (length ss)" "mid < length ss" "body_of (N i ts ss) = Internal lm es"
  shows "body_of (cut_left mid (N i ts ss)) = Internal lm (take mid es)"
    "body_of (cut_right j mid (N i ts ss)) = Internal (snd (es ! mid)) (drop (Suc mid) es)"
    "fst (es ! mid) = ss ! mid" "length es = length ss"
proof -
  have es: "lm = root_id (hd ts)" "es = zip ss (map root_id (tl ts))" using assms(3) by auto
  obtain t us where ts: "ts = t # us" "length us = length ss" using assms(1) by (cases ts) auto
  have "hd (drop mid us) = us ! mid" "tl (drop mid us) = drop (Suc mid) us"
    using ts assms(2) by (simp_all add: hd_drop_conv_nth tl_drop drop_Suc)
  then show "body_of (cut_left mid (N i ts ss)) = Internal lm (take mid es)"
    "body_of (cut_right j mid (N i ts ss)) = Internal (snd (es ! mid)) (drop (Suc mid) es)"
    "fst (es ! mid) = ss ! mid" "length es = length ss"
    using es ts assms(2)
    by (simp_all add: cut_left_def cut_right_def take_zip drop_zip take_map drop_map)
qed


section \<open>Split propagation\<close>

lemma underfull_root [simp]: "is_underfull (T\<lparr>bp_root := r\<rparr>) = is_underfull T"
  by (rule ext) (simp add: is_underfull_def split: node_body.splits)

lemma within_cap_root [simp]: "within_cap (T\<lparr>bp_root := r\<rparr>) = within_cap T"
  by (rule ext) (rule node_body.induct; simp)

lemma bp_root_update [simp]:
  "node_good vk (T\<lparr>bp_root := r\<rparr>) = node_good vk T" "heap NK (T\<lparr>bp_root := r\<rparr>) m ns = heap NK T m ns"
  by (simp_all add: node_good_def [abs_def] heap_def)

lemma wf_bpt_root [simp]: "wf_bpt vk (T\<lparr>bp_root := r\<rparr>) h t = wf_bpt vk T h t"
  by (simp add: wf_bpt_def)

definition ctx_root :: "'k frame list \<Rightarrow> local_id \<Rightarrow> local_id" where
  "ctx_root C r = (if C = [] then r else fr_id (last C))"

lemma ctx_root_simps [simp]: "ctx_root [] r = r" "ctx_root (F # C) r = ctx_root C (fr_id F)"
  by (simp_all add: ctx_root_def)

lemma root_id_plugs: "root_id (plugs C t) = ctx_root C (root_id t)"
  by (induction C arbitrary: t) auto

lemma underfull_longer:
  "length es \<le> length es' \<Longrightarrow> \<not> is_underfull T (Internal lm es) \<Longrightarrow> \<not> is_underfull T (Internal lm' es')"
  by (simp add: is_underfull_def)

context node_key_ok
begin

text \<open>Two neighbours \<open>lt\<close>, \<open>rt\<close> with the separator between them, in the hole of \<open>C\<close>, all written
  except that the parent does not know \<open>rt\<close> yet.\<close>

definition pending :: "bptree \<Rightarrow> nat \<Rightarrow> 'k frame list \<Rightarrow> 'k bpt \<Rightarrow> 'k \<Rightarrow> 'k bpt \<Rightarrow> kv \<Rightarrow> bool" where
  "pending T h C lt sep rt m \<longleftrightarrow> ctx_ok h C \<and> shaped h lt \<and> shaped h rt \<and> vk sep
   \<and> sorted_wrt (<) (ctx_pre C @ flat lt @ (sep, False) # flat rt @ ctx_post C)
   \<and> distinct (map fst (ctx_nodes C (root_id lt) @ nodes lt @ nodes rt))
   \<and> every (node_good vk T) (ctx_nodes C (root_id lt) @ nodes lt @ nodes rt)
   \<and> ctx_filled T C (root_id lt) \<and> filled T (nodes lt @ nodes rt)
   \<and> heap NK T m (ctx_nodes C (root_id lt) @ nodes lt @ nodes rt) \<and> ctx_root C (root_id lt) = bp_root T"

text \<open>Growing a new root.\<close>

lemma pending_root:
  assumes "pending T h [] lt sep rt m" "caps_ok kb T" "j \<notin> fst ` set (nodes lt @ nodes rt)"
  shows "bp_inv NK vk (T\<lparr>bp_root := j\<rparr>)
    (m(to_id j (bp_tenant T) \<mapsto> node_to_bytes NK (Internal (root_id lt) [(sep, root_id rt)]))) (N j [lt, rt] [sep]) (Suc h)"
proof -
  have "node_good vk T (Internal (root_id lt) [(sep, root_id rt)])"
    using assms(1, 2) by (simp add: pending_def node_good_def caps_ok_def)
  moreover have "heap NK T (m(to_id j (bp_tenant T) \<mapsto> v)) (nodes lt @ nodes rt)" for v
    by (rule heap_put) (use assms in \<open>auto simp: pending_def caps_ok_def\<close>)
  ultimately show ?thesis
    using assms by (auto simp: bp_inv_def wf_bpt_def pending_def)
qed

text \<open>The parent has room.\<close>

lemma pending_fits:
  assumes p: "pending T h (F # C) lt sep rt m" and caps: "caps_ok kb T"
    and fits: "length (fr_entries F (root_id lt)) < internal_cap T"
  shows "bp_inv NK vk T (m(to_id (fr_id F) (bp_tenant T) \<mapsto> node_to_bytes NK (body_of (plug2 F lt sep rt))))
    (plugs C (plug2 F lt sep rt)) (Suc h + length C)"
proof -
  let ?u = "plug2 F lt sep rt"
  have ok: "frame_ok h F" "ctx_ok (Suc h) C" using p by (auto simp: pending_def)
  have b: "body_of ?u = Internal (hd (fr_children F (root_id lt)))
      (insert_at (length (fr_lts F)) (sep, root_id rt) (fr_entries F (root_id lt)))"
    by (rule body_plug2 [OF ok(1)])
  have r: "root_id ?u = fr_id F" by (simp add: plug2_def)
  have fb: "node_good vk T (fbody F (root_id lt))" using p by (auto simp: pending_def)
  have good: "node_good vk T (body_of ?u)"
    using fb fits p unfolding b
    by (auto simp: node_good_def fbody_def insert_at_def pending_def list_all_iff dest: in_set_takeD in_set_dropD)
  have ms: "mset (ctx_nodes C (fr_id F) @ nodes ?u) =
      add_mset (fr_id F, body_of ?u) (mset (sibs F @ ctx_nodes C (fr_id F) @ nodes lt @ nodes rt))"
    by (simp add: nodes_plug2)
  then have st: "set (ctx_nodes C (fr_id F) @ nodes ?u) =
      insert (fr_id F, body_of ?u) (set (sibs F @ ctx_nodes C (fr_id F) @ nodes lt @ nodes rt))"
    by (metis set_mset_add_mset_insert set_mset_mset)
  let ?rest = "sibs F @ ctx_nodes C (fr_id F) @ nodes lt @ nodes rt"
  have dist: "distinct (map fst ((fr_id F, body_of ?u) # ?rest))"
    using p by (auto simp: pending_def)
  then have "distinct (map fst (ctx_nodes C (fr_id F) @ nodes ?u))"
    using ms by (metis mset.simps(2) mset_eq_imp_distinct_iff mset_map)
  moreover have "filled T (below ?u) \<longleftrightarrow> filled T (sibs F @ nodes lt @ nodes rt)"
    by (rule every_set) (auto simp: plug2_def sibs_def)
  moreover have "every (node_good vk T) (ctx_nodes C (fr_id F) @ nodes ?u) \<longleftrightarrow>
      every (node_good vk T) ((fr_id F, body_of ?u) # ?rest)"
    by (rule every_set) (use st in simp)
  moreover have "C \<noteq> [] \<longrightarrow> \<not> is_underfull T (body_of ?u)"
    using p unfolding b by (auto simp: pending_def fbody_def is_underfull_def insert_at_def)
  moreover have "sorted_wrt (<) (ctx_pre C @ flat ?u @ ctx_post C)"
    using p by (simp add: pending_def flat_plug2 [OF ok(1)])
  ultimately have "wf_bpt vk T (Suc h + length C) (plugs C ?u)"
    unfolding wf_plugs [OF ok(2)] r using p good shaped_plug2 [OF ok(1)]
    by (simp add: pending_def)
  moreover have "heap NK T (m(to_id (fr_id F) (bp_tenant T) \<mapsto> node_to_bytes NK (body_of ?u))) ?rest"
    by (rule heap_put) (use p dist caps in \<open>auto simp: pending_def caps_ok_def\<close>)
  then have "heap NK T (m(to_id (fr_id F) (bp_tenant T) \<mapsto> node_to_bytes NK (body_of ?u))) ((fr_id F, body_of ?u) # ?rest)"
    by simp
  then have "heap NK T (m(to_id (fr_id F) (bp_tenant T) \<mapsto> node_to_bytes NK (body_of ?u))) (ctx_nodes C (fr_id F) @ nodes ?u)"
    by (rule heap_mono) (use st in simp)
  ultimately show ?thesis
    using p r by (simp add: bp_inv_def heap_plugs root_id_plugs pending_def)
qed

text \<open>The parent overflows: it is cut in two and the split moves up.\<close>

lemma pending_splits:
  assumes p: "pending T h (F # C) lt sep rt m" and caps: "caps_ok kb T"
    and full: "internal_cap T \<le> length (fr_entries F (root_id lt))"
    and fresh: "j \<notin> fst ` set (ctx_nodes (F # C) (root_id lt) @ nodes lt @ nodes rt)"
    and mid: "mid = length (fr_lss F @ sep # fr_rss F) div 2"
    and u: "u = plug2 F lt sep rt"
  shows "pending T (Suc h) C (cut_left mid u) ((fr_lss F @ sep # fr_rss F) ! mid) (cut_right j mid u)
    (m(to_id (fr_id F) (bp_tenant T) \<mapsto> node_to_bytes NK (body_of (cut_left mid u)),
       to_id j (bp_tenant T) \<mapsto> node_to_bytes NK (body_of (cut_right j mid u))))"
    and "mset (map fst (ctx_nodes C (fr_id F) @ nodes (cut_left mid u) @ nodes (cut_right j mid u)))
      = add_mset j (mset (map fst (ctx_nodes (F # C) (root_id lt) @ nodes lt @ nodes rt)))"
proof -
  let ?ss = "fr_lss F @ sep # fr_rss F" and ?ts = "fr_lts F @ lt # rt # fr_rts F"
  let ?l = "cut_left mid u" and ?r = "cut_right j mid u"
  have un: "u = N (fr_id F) ?ts ?ss" by (simp add: u plug2_def)
  have ok: "frame_ok h F" "ctx_ok (Suc h) C" using p by (auto simp: pending_def)
  have len: "length (fr_lts F) = length (fr_lss F)" "length (fr_rts F) = length (fr_rss F)"
    using ok by (auto simp: frame_ok_def)
  have ml: "mid < length ?ss" using mid by simp
  have fl: "length (fr_entries F (root_id lt)) = length (fr_lss F) + length (fr_rss F)"
    using len by (simp add: fr_entries_def fr_children_def)
  have cap: "length ?ss = Suc (internal_cap T)"
    using full p fl by (auto simp: pending_def node_good_def fbody_def)
  have sh: "shaped h lt" "shaped h rt" using p by (auto simp: pending_def)
  have shu: "shaped (Suc h) (N (fr_id F) ?ts ?ss)" using shaped_plug2 [OF ok(1) sh, of sep] by (simp add: plug2_def)
  have st: "shaped (Suc h) ?l" "shaped (Suc h) ?r" "flat u = flat ?l @ (?ss ! mid, False) # flat ?r"
    "mset (below u) = mset (below ?l) + mset (below ?r)" "root_id ?l = fr_id F" "root_id ?r = j"
    unfolding un using cut_structure [OF shu ml] by blast+
  obtain lm es where body: "body_of u = Internal lm es" by (simp add: un)
  have lts: "length ?ts = Suc (length ?ss)" using len by simp
  have bd: "body_of ?l = Internal lm (take mid es)" "body_of ?r = Internal (snd (es ! mid)) (drop (Suc mid) es)"
    "fst (es ! mid) = ?ss ! mid" "length es = length ?ss"
    unfolding un using cut_bodies [OF lts ml body [unfolded un]] by blast+
  have keys: "list_all vk ?ss"
    using p len by (auto simp: pending_def node_good_def fbody_def fr_entries_def fr_children_def)
  have fst_es: "map fst es = ?ss" using body lts by (auto simp: un)
  have "length (take mid es) = mid" "length (drop (Suc mid) es) = internal_cap T - mid"
    using bd(4) ml cap by simp_all
  moreover have "set (map fst (take mid es)) \<subseteq> set ?ss" "set (map fst (drop (Suc mid) es)) \<subseteq> set ?ss"
    unfolding fst_es [symmetric] by (auto dest: in_set_takeD in_set_dropD)
  moreover have "0 < mid" "0 < internal_cap T - mid" "mid \<le> internal_cap T"
    using caps cap mid by (auto simp: caps_ok_def)
  ultimately have gl: "node_good vk T (body_of ?l)" and gr: "node_good vk T (body_of ?r)"
    using keys unfolding bd(1, 2) node_good_def by (fastforce simp: list_all_iff)+
  have ul: "\<not> is_underfull T (body_of ?l)" and ur: "\<not> is_underfull T (body_of ?r)"
    using bd(4) ml cap mid unfolding bd(1, 2) by (auto simp: is_underfull_def)
  have bu: "mset (below u) = mset (sibs F @ nodes lt @ nodes rt)" by (simp add: u plug2_def sibs_def)
  have ms: "mset (ctx_nodes C (fr_id F) @ nodes ?l @ nodes ?r) =
      mset ((fr_id F, body_of ?l) # (j, body_of ?r) # ctx_nodes C (fr_id F) @ sibs F @ nodes lt @ nodes rt)"
    using st(4) bu by (simp add: nodes_eq st(5, 6))
  show ids: "mset (map fst (ctx_nodes C (fr_id F) @ nodes ?l @ nodes ?r))
      = add_mset j (mset (map fst (ctx_nodes (F # C) (root_id lt) @ nodes lt @ nodes rt)))"
    using ms by (simp only: mset_map) simp
  have "distinct (j # map fst (ctx_nodes (F # C) (root_id lt) @ nodes lt @ nodes rt))"
    using p fresh by (simp add: pending_def image_Un)
  then have dist: "distinct (map fst (ctx_nodes C (fr_id F) @ nodes ?l @ nodes ?r))"
    using ids by (metis mset.simps(2) mset_eq_imp_distinct_iff)
  let ?rest = "ctx_nodes C (fr_id F) @ sibs F @ nodes lt @ nodes rt"
  let ?m = "m(to_id (fr_id F) (bp_tenant T) \<mapsto> node_to_bytes NK (body_of ?l), to_id j (bp_tenant T) \<mapsto> node_to_bytes NK (body_of ?r))"
  have set: "set (ctx_nodes C (fr_id F) @ nodes ?l @ nodes ?r) = set ((fr_id F, body_of ?l) # (j, body_of ?r) # ?rest)"
    using ms by (metis set_mset_mset)
  have "heap NK T ?m ?rest"
    by (intro heap_put) (use p fresh caps in \<open>auto simp: pending_def caps_ok_def\<close>)
  moreover have "to_id j (bp_tenant T) \<noteq> to_id (fr_id F) (bp_tenant T)"
    using fresh caps by (auto simp: to_id_inject caps_ok_def)
  ultimately have "heap NK T ?m ((fr_id F, body_of ?l) # (j, body_of ?r) # ?rest)" by simp
  then have hp: "heap NK T ?m (ctx_nodes C (fr_id F) @ nodes ?l @ nodes ?r)"
    by (rule heap_mono) (use set in simp)
  have "every (node_good vk T) (ctx_nodes C (fr_id F) @ nodes ?l @ nodes ?r) =
      every (node_good vk T) ((fr_id F, body_of ?l) # (j, body_of ?r) # ?rest)" using set by (rule every_set)
  moreover have "filled T (nodes ?l @ nodes ?r)"
  proof -
    have "set (below u) = set (below ?l @ below ?r)" using st(4) by (metis mset_append set_mset_mset)
    moreover have "set (below u) = set (sibs F @ nodes lt @ nodes rt)" using bu by (metis set_mset_mset)
    moreover have "filled T (sibs F @ nodes lt @ nodes rt)" using p by (simp add: pending_def)
    ultimately have "filled T (below ?l @ below ?r)" using every_set [of "below ?l @ below ?r" "below u"]
        every_set [of "below u" "sibs F @ nodes lt @ nodes rt"] by simp
    then show ?thesis using ul ur by (simp add: nodes_eq)
  qed
  moreover have "sorted_wrt (<) (ctx_pre C @ flat ?l @ (?ss ! mid, False) # flat ?r @ ctx_post C)"
  proof -
    have "sorted_wrt (<) (ctx_pre C @ flat u @ ctx_post C)"
      using p flat_plug2 [OF ok(1), of lt sep rt] by (simp add: pending_def u)
    then show ?thesis unfolding st(3) by simp
  qed
  moreover have "vk (?ss ! mid)" using keys ml by (metis list_all_length)
  ultimately show "pending T (Suc h) C ?l (?ss ! mid) ?r ?m"
    using p gl gr dist hp st(1, 2, 5, 6) ok by (simp add: pending_def)
qed

text \<open>The whole loop: a new tree with the pending separator in place, written by \<open>ws\<close>.\<close>

lemma propagate_builds:
  assumes "pending T h C lt sep rt (batch_effect batch m)" "caps_ok kb T"
    and "inj_on mint {n..n + length C}"
    and "\<forall>j\<in>{n..n + length C}. mint j \<notin> fst ` set (ctx_nodes C (root_id lt) @ nodes lt @ nodes rt)"
  shows "\<exists>ws t' h' r. propagate NK mint T (path_of C (root_id lt)) n (root_id lt) sep (root_id rt) batch
       = (batch @ ws, T\<lparr>bp_root := r\<rparr>)
    \<and> bp_inv NK vk (T\<lparr>bp_root := r\<rparr>) (batch_effect (batch @ ws) m) t' h'
    \<and> flat t' = ctx_pre C @ flat lt @ (sep, False) # flat rt @ ctx_post C
    \<and> fst ` set (ctx_nodes C (root_id lt) @ nodes lt @ nodes rt) \<subseteq> fst ` set (nodes t')
    \<and> fst ` set (nodes t') \<subseteq> fst ` set (ctx_nodes C (root_id lt) @ nodes lt @ nodes rt) \<union> mint ` {n..n + length C}
    \<and> touches T (fst ` set (nodes t')) ws \<and> h' \<le> Suc (h + length C)"
  using assms
proof (induction C arbitrary: h lt sep rt batch n)
  case Nil
  let ?ws = "[put_node NK T (mint n) (Internal (root_id lt) [(sep, root_id rt)])]"
  have "bp_inv NK vk (T\<lparr>bp_root := mint n\<rparr>) (batch_effect (batch @ ?ws) m) (N (mint n) [lt, rt] [sep]) (Suc h)"
    using pending_root [OF Nil.prems(1, 2), of "mint n"] Nil.prems(4) by simp
  then show ?case
    by (intro exI [of _ ?ws] exI [of _ "N (mint n) [lt, rt] [sep]"] exI [of _ "Suc h"] exI [of _ "mint n"])
      (auto simp: Let_def fun_upd_def)
next
  case (Cons F C)
  have ok: "frame_ok h F" "ctx_ok (Suc h) C" using Cons.prems(1) by (auto simp: pending_def)
  let ?es = "insert_at (length (fr_lts F)) (sep, root_id rt) (fr_entries F (root_id lt))"
  let ?u = "plug2 F lt sep rt" and ?old = "ctx_nodes (F # C) (root_id lt) @ nodes lt @ nodes rt"
  have body: "body_of ?u = Internal (hd (fr_children F (root_id lt))) ?es" by (rule body_plug2 [OF ok(1)])
  have les: "length ?es = Suc (length (fr_entries F (root_id lt)))"
    using ok(1) by (simp add: insert_at_def fr_entries_def fr_children_def frame_ok_def)
  show ?case
  proof (cases "length ?es \<le> internal_cap T")
    case True
    let ?ws = "[put_node NK T (fr_id F) (body_of ?u)]" and ?t = "plugs C ?u"
    have inv: "bp_inv NK vk T (batch_effect (batch @ ?ws) m) ?t (Suc h + length C)"
      using pending_fits [OF Cons.prems(1, 2)] True les by simp
    have st: "set (nodes ?t) = set (ctx_nodes C (fr_id F)) \<union> set (nodes ?u)"
      using set_nodes_plugs [of C ?u] by (simp add: plug2_def)
    have ids: "fst ` set (nodes ?t) = fst ` set ?old"
      unfolding st by (auto simp: plug2_def sibs_def image_Un)
    have root: "T\<lparr>bp_root := bp_root T\<rparr> = T" by simp
    show ?thesis
      using True inv ids flat_plugs [OF ok(2), of ?u] flat_plug2 [OF ok(1), of lt sep rt]
      by (intro exI [of _ ?ws] exI [of _ ?t] exI [of _ "Suc h + length C"] exI [of _ "bp_root T"])
        (auto simp: pframe_def body Let_def root ids fun_upd_def)
  next
    case False
    let ?mid = "length ?es div 2" and ?ss = "fr_lss F @ sep # fr_rss F"
    let ?l = "cut_left ?mid ?u" and ?r = "cut_right (mint n) ?mid ?u"
    let ?b = "batch @ [put_node NK T (fr_id F) (body_of ?l), put_node NK T (mint n) (body_of ?r)]"
    have lss: "length ?es = length ?ss"
      unfolding les using ok(1) by (simp add: fr_entries_def fr_children_def frame_ok_def)
    have fresh: "mint n \<notin> fst ` set ?old" using Cons.prems(4) by simp
    note ps = pending_splits [OF Cons.prems(1, 2) _ fresh, of ?mid ?u]
    have pend: "pending T (Suc h) C ?l (?ss ! ?mid) ?r (batch_effect ?b m)"
      using ps(1) False les lss by simp
    have ids: "mset (map fst (ctx_nodes C (fr_id F) @ nodes ?l @ nodes ?r)) = add_mset (mint n) (mset (map fst ?old))"
      using ps(2) False les lss by simp
    then have idset: "fst ` set (ctx_nodes C (fr_id F) @ nodes ?l @ nodes ?r) = insert (mint n) (fst ` set ?old)"
      by (metis image_set set_mset_add_mset_insert set_mset_mset)
    have un: "?u = N (fr_id F) (fr_lts F @ lt # rt # fr_rts F) ?ss" by (simp add: plug2_def)
    have lts: "length (fr_lts F @ lt # rt # fr_rts F) = Suc (length ?ss)" using ok(1) by (simp add: frame_ok_def)
    have ml: "?mid < length ?ss" using lss les by simp
    note bd = cut_bodies [OF lts ml body [unfolded un]]
    have rid: "root_id ?l = fr_id F" "root_id ?r = mint n" by (simp_all add: cut_left_def cut_right_def un)
    have ne: "mint j \<noteq> mint n" if "j \<in> {Suc n..Suc n + length C}" for j
      using that inj_onD [OF Cons.prems(3), of j n] by auto
    have IHpre: "inj_on mint {Suc n..Suc n + length C}"
      "\<forall>j\<in>{Suc n..Suc n + length C}. mint j \<notin> fst ` set (ctx_nodes C (root_id ?l) @ nodes ?l @ nodes ?r)"
      using Cons.prems(3, 4) ne unfolding rid idset by (auto simp: inj_on_def)
    have fl: "flat ?u = flat ?l @ (?ss ! ?mid, False) # flat ?r"
      unfolding un
      by (rule cut_structure(3)) (use Cons.prems(1) ok ml shaped_plug2 [OF ok(1), of lt rt sep] in \<open>auto simp: pending_def plug2_def\<close>)
    have "propagate NK mint T (path_of (F # C) (root_id lt)) n (root_id lt) sep (root_id rt) batch =
        propagate NK mint T (path_of C (fr_id F)) (Suc n) (fr_id F) (?ss ! ?mid) (mint n) ?b"
      using False bd by (simp add: pframe_def Let_def un)
    moreover from Cons.IH [OF pend Cons.prems(2) IHpre] obtain ws t' h' r where
      IH: "propagate NK mint T (path_of C (fr_id F)) (Suc n) (fr_id F) (?ss ! ?mid) (mint n) ?b = (?b @ ws, T\<lparr>bp_root := r\<rparr>)"
        "bp_inv NK vk (T\<lparr>bp_root := r\<rparr>) (batch_effect (?b @ ws) m) t' h'"
        "flat t' = ctx_pre C @ flat ?l @ (?ss ! ?mid, False) # flat ?r @ ctx_post C"
        "insert (mint n) (fst ` set ?old) \<subseteq> fst ` set (nodes t')"
        "fst ` set (nodes t') \<subseteq> insert (mint n) (fst ` set ?old) \<union> mint ` {Suc n..Suc n + length C}"
        "touches T (fst ` set (nodes t')) ws" "h' \<le> Suc (Suc h + length C)"
      unfolding rid idset by blast
    let ?ws = "[put_node NK T (fr_id F) (body_of ?l), put_node NK T (mint n) (body_of ?r)] @ ws"
    have "fst ` set (nodes t') \<subseteq> fst ` set ?old \<union> mint ` {n..n + length (F # C)}"
    proof
      fix x assume "x \<in> fst ` set (nodes t')"
      then consider "x = mint n" | "x \<in> fst ` set ?old" | "x \<in> mint ` {Suc n..Suc n + length C}"
        using IH(5) by blast
      then show "x \<in> fst ` set ?old \<union> mint ` {n..n + length (F # C)}" by cases (auto simp: image_iff)
    qed
    moreover have "touches T (fst ` set (nodes t')) ?ws" using IH(4, 6) by auto
    moreover have "flat t' = ctx_pre (F # C) @ flat lt @ (sep, False) # flat rt @ ctx_post (F # C)"
      using IH(3) fl flat_plug2 [OF ok(1), of lt sep rt] by simp
    moreover have "(?b @ ws, T\<lparr>bp_root := r\<rparr>) = (batch @ ?ws, T\<lparr>bp_root := r\<rparr>)"
      "batch_effect (?b @ ws) m = batch_effect (batch @ ?ws) m" by simp_all
    ultimately show ?thesis
      using IH(1, 2, 4, 7) by (intro exI [of _ ?ws] exI [of _ t'] exI [of _ h'] exI [of _ r]) auto
  qed
qed

end

section \<open>The insert\<close>

lemma keys_of_append [simp]: "keys_of (xs @ ys) = keys_of xs @ keys_of ys"
  by (simp add: keys_of_def)

lemma keys_of_simps [simp]:
  "keys_of [] = []" "keys_of ((s, False) # xs) = keys_of xs" "keys_of ((k, True) # xs) = k # keys_of xs"
  "keys_of (map (\<lambda>k. (k, True)) ks) = ks"
  by (simp_all add: keys_of_def comp_def filter_map)

lemma set_keys_of: "k \<in> set (keys_of xs) \<longleftrightarrow> (k, True) \<in> set xs"
  by (force simp: keys_of_def)

lemma sorted_leaf: "sorted_wrt (<) (map (\<lambda>k. (k, True)) ks) \<longleftrightarrow> sorted_wrt (<) (ks :: 'k::linorder list)"
  by (simp add: sorted_wrt_map less_prod_simp)

text \<open>A key routed to a leaf is in the tree exactly if it is in the leaf.\<close>

lemma routed_member:
  assumes "ctx_ok 0 C" "routed k C"
  shows "k \<in> set (keys_of (flat (plugs C (L i ks)))) \<longleftrightarrow> k \<in> set ks"
proof -
  have "(k, True) \<notin> set (ctx_pre C)" "(k, True) \<notin> set (ctx_post C)"
    using assms(2) by (auto simp: routed_def simp del: less_prod_simp)
  then show ?thesis by (auto simp: set_keys_of flat_plugs [OF assms(1)])
qed

lemma sorted_insert_key:
  assumes "sorted_wrt (<) (pre @ map (\<lambda>k. (k, True)) (a @ b) @ post)"
    and "\<forall>x\<in>set pre. x < (k, True)" "\<forall>x\<in>set post. (k, True) < x" "\<forall>x\<in>set a. x < k" "\<forall>x\<in>set b. (k :: 'k::linorder) < x"
  shows "sorted_wrt (<) (pre @ map (\<lambda>k. (k, True)) (a @ k # b) @ post)"
  using assms by (auto simp: sorted_wrt_append sorted_wrt_map)

lemma sorted_insert_sep:
  assumes "sorted_wrt (<) (pre @ map (\<lambda>k. (k, True)) (a @ s # b) @ post)" "a \<noteq> []"
  shows "sorted_wrt (<) (pre @ map (\<lambda>k. (k, True)) a @ (s :: 'k::linorder, False) # map (\<lambda>k. (k, True)) (s # b) @ post)"
proof -
  obtain a0 a' where a: "a = a0 # a'" using assms(2) by (cases a) auto
  have "a0 < s" using assms(1) a by (auto simp: sorted_wrt_append)
  then have "(a0, True) < (s, False)" by (simp add: less_prod_simp)
  moreover have "\<forall>x\<in>set pre. x < (a0, True)" using assms(1) a by (auto simp: sorted_wrt_append)
  ultimately have "\<forall>x\<in>set pre. x < (s, False)" by (blast intro: less_trans)
  moreover have "\<forall>x\<in>set post. (s, False) < x"
  proof
    fix x assume "x \<in> set post"
    then have "(s, True) < x" using assms(1) by (auto simp: sorted_wrt_append)
    moreover have "(s, False) < (s, True)" by (simp add: less_prod_simp)
    ultimately show "(s, False) < x" by (blast intro: less_trans)
  qed
  moreover have "\<forall>x\<in>set b. s < x" using assms(1) by (auto simp: sorted_wrt_append ball_Un)
  ultimately show ?thesis
    using assms(1) by (auto simp: sorted_wrt_append sorted_wrt_map less_imp_le)
qed

text \<open>Replacing the leaf a context surrounds.\<close>

lemma replace_leaf:
  assumes "ctx_ok 0 C" "wf_bpt vk T (length C) (plugs C (L i ks))" "heap NK T m (nodes (plugs C (L i ks)))"
    "u48_ok (bp_tenant T)" "node_good vk T (Leaf ks')" "C \<noteq> [] \<Longrightarrow> \<not> is_underfull T (Leaf ks')"
    "sorted_wrt (<) (ctx_pre C @ map (\<lambda>k. (k, True)) ks' @ ctx_post C)"
  shows "wf_bpt vk T (length C) (plugs C (L i ks'))"
    "heap NK T (m(to_id i (bp_tenant T) \<mapsto> node_to_bytes NK (Leaf ks'))) (nodes (plugs C (L i ks')))"
    "map fst (nodes (plugs C (L i ks'))) = map fst (nodes (plugs C (L i ks)))"
proof -
  have w: "wf_bpt vk T (0 + length C) (plugs C (L i ks))" using assms(2) by simp
  have "wf_bpt vk T (0 + length C) (plugs C (L i ks'))"
    using w assms(5-7) unfolding wf_plugs [OF assms(1)] by simp
  then show "wf_bpt vk T (length C) (plugs C (L i ks'))" by simp
  have i: "i \<notin> fst ` set (ctx_nodes C i)" using w unfolding wf_plugs [OF assms(1)] by simp
  have "heap NK T (m(to_id i (bp_tenant T) \<mapsto> node_to_bytes NK (Leaf ks'))) (ctx_nodes C i)"
    by (rule heap_put [OF _ i assms(4)]) (use assms(3) heap_plugs [of NK T m C "L i ks"] in simp)
  then show "heap NK T (m(to_id i (bp_tenant T) \<mapsto> node_to_bytes NK (Leaf ks'))) (nodes (plugs C (L i ks')))"
    unfolding heap_plugs by simp
  have "map fst (nodes (plugs C t)) = map fst (nodes (plugs C u))"
    if "root_id t = root_id u" "map fst (nodes t) = map fst (nodes u)" for C :: "'a frame list" and t u
    using that by (induction C arbitrary: t u) (simp_all add: plug_def map_concat comp_def)
  then show "map fst (nodes (plugs C (L i ks'))) = map fst (nodes (plugs C (L i ks)))" by simp
qed

context bp_store
begin

lemma leaf_split_pending:
  assumes "ctx_ok 0 C" "wf_bpt vk T (length C) (plugs C (L i ks))" "heap NK T m (nodes (plugs C (L i ks)))"
    "caps_ok kb T" "list_all vk ks'" "length ks' = Suc (leaf_cap T)" "ctx_root C i = bp_root T"
    "sorted_wrt (<) (ctx_pre C @ map (\<lambda>k. (k, True)) ks' @ ctx_post C)"
    "j \<notin> fst ` set (ctx_nodes C i @ [(i, Leaf ks)])" "mid = length ks' div 2"
  shows "pending T 0 C (L i (take mid ks')) (drop mid ks' ! 0) (L j (drop mid ks'))
    (m(to_id i (bp_tenant T) \<mapsto> node_to_bytes NK (Leaf (take mid ks')),
       to_id j (bp_tenant T) \<mapsto> node_to_bytes NK (Leaf (drop mid ks'))))"
proof -
  have w: "wf_bpt vk T (0 + length C) (plugs C (L i ks))" using assms(2) by simp
  have cap: "1 \<le> leaf_cap T" "u48_ok (bp_tenant T)" using assms(4) by (auto simp: caps_ok_def)
  have mid: "0 < mid" "mid < length ks'" "mid \<le> leaf_cap T" "length ks' - mid \<le> leaf_cap T"
    "leaf_cap T div 4 \<le> mid" "leaf_cap T div 4 \<le> length ks' - mid"
    using assms(6, 10) cap by auto
  have ks': "ks' = take mid ks' @ drop mid ks' ! 0 # drop (Suc mid) ks'"
    using mid by (simp add: id_take_nth_drop [symmetric])
  have dr: "drop mid ks' = drop mid ks' ! 0 # drop (Suc mid) ks'" using mid by (simp add: Cons_nth_drop_Suc)
  have vk: "list_all vk (take mid ks')" "list_all vk (drop mid ks')" "vk (drop mid ks' ! 0)"
    using assms(5) mid by (auto simp: list_all_iff dest: in_set_takeD in_set_dropD)
  have "sorted_wrt (<) (ctx_pre C @ map (\<lambda>k. (k, True)) (take mid ks') @ (drop mid ks' ! 0, False) #
      map (\<lambda>k. (k, True)) (drop mid ks' ! 0 # drop (Suc mid) ks') @ ctx_post C)"
    by (rule sorted_insert_sep) (use assms(8) ks' mid in auto)
  then have srt: "sorted_wrt (<) (ctx_pre C @ map (\<lambda>k. (k, True)) (take mid ks') @ (drop mid ks' ! 0, False) #
      map (\<lambda>k. (k, True)) (drop mid ks') @ ctx_post C)"
    using dr by simp
  have i: "i \<notin> fst ` set (ctx_nodes C i)" "j \<notin> fst ` set (ctx_nodes C i)" "j \<noteq> i"
    using w assms(9) unfolding wf_plugs [OF assms(1)] by auto
  have "heap NK T m (ctx_nodes C i)" using assms(3) unfolding heap_plugs by simp
  then have "heap NK T (m(to_id i (bp_tenant T) \<mapsto> v, to_id j (bp_tenant T) \<mapsto> u)) (ctx_nodes C i)" for u v
    by (intro heap_put i cap(2))
  moreover have "to_id j (bp_tenant T) \<noteq> to_id i (bp_tenant T)" using i(3) cap(2) by (simp add: to_id_inject)
  ultimately show ?thesis
    using w assms(1, 7) srt vk mid i unfolding wf_plugs [OF assms(1)]
    by (simp add: pending_def node_good_def is_underfull_def not_less)
qed

text \<open>Where the descent from the root arrives.\<close>

lemma descend_from_root:
  assumes "bp_inv NK vk T (view s) t h" "caps_ok kb T"
  obtains C i ks where "descend NK S s T k [] (bp_root T) = Ok (path_of C i, i, ks)"
    "t = plugs C (L i ks)" "ctx_ok 0 C" "length C = h" "routed k C" "sorted_wrt (<) ks"
proof -
  have inv: "shaped h t" "sorted_wrt (<) (flat t)" "heap NK T (view s) (nodes t)" "every (node_good vk T) (nodes t)"
    "root_id t = bp_root T"
    using assms(1) by (auto simp: bp_inv_def wf_bpt_def)
  from descend_reaches [of h "[]" t T s k] inv assms(2) obtain C i ks where
    C: "descend NK S s T k [] (bp_root T) = Ok (path_of C i, i, ks)"
      "plugs C (L i ks) = t" "ctx_ok 0 C" "length C = h" "routed k C"
    by (auto simp: routed_def)
  moreover have "sorted_wrt (<) ks"
    using inv(2) flat_plugs [OF C(3), of "L i ks"] C(2) by (simp add: sorted_wrt_append sorted_leaf)
  ultimately show thesis using that by blast
qed

lemma contains_correct:
  assumes "bp_inv NK vk T (view s) t h" "caps_ok kb T"
  shows "bp_contains NK S s T k = Ok (k \<in> set (keys_of (flat t)))"
proof -
  obtain C i ks where
    C: "descend NK S s T k [] (bp_root T) = Ok (path_of C i, i, ks)"
      "t = plugs C (L i ks)" "ctx_ok 0 C" "length C = h" "routed k C" "sorted_wrt (<) ks"
    by (rule descend_from_root [OF assms, of k])
  have "\<not> isl (binary_search ks k) \<longleftrightarrow> k \<in> set ks"
    using C(6) by (cases rule: binary_search_cases [where k = k]) auto
  then show ?thesis
    using contains_descend [OF C(1)] routed_member [OF C(3, 5)] C(2) by (simp add: bp_contains_def)
qed

lemma plan_insert_correct:
  assumes inv: "bp_inv NK vk T (view s) t h" and caps: "caps_ok kb T" and k: "vk k"
    and inj: "inj_on mint {0..Suc h}" and fresh: "\<forall>j\<in>{0..Suc h}. mint j \<notin> fst ` set (nodes t)"
  shows "\<exists>ws r t' h'. plan_insert NK S s mint T k = Ok (ws, T\<lparr>bp_root := r\<rparr>)
    \<and> bp_inv NK vk (T\<lparr>bp_root := r\<rparr>) (batch_effect ws (view s)) t' h'
    \<and> set (keys_of (flat t')) = insert k (set (keys_of (flat t)))
    \<and> fst ` set (nodes t) \<subseteq> fst ` set (nodes t') \<and> fst ` set (nodes t') \<subseteq> fst ` set (nodes t) \<union> mint ` {0..Suc h}
    \<and> touches T (fst ` set (nodes t')) ws \<and> h' \<le> Suc h"
proof -
  obtain C i ks where
    C: "descend NK S s T k [] (bp_root T) = Ok (path_of C i, i, ks)"
      "t = plugs C (L i ks)" "ctx_ok 0 C" "length C = h" "routed k C" "sorted_wrt (<) ks"
    by (rule descend_from_root [OF inv caps, of k])
  have wf: "wf_bpt vk T (length C) (plugs C (L i ks))" and hp: "heap NK T (view s) (nodes (plugs C (L i ks)))"
    and root: "ctx_root C i = bp_root T"
    using inv C(2, 4) root_id_plugs [of C "L i ks"] by (auto simp: bp_inv_def)
  have w0: "wf_bpt vk T (0 + length C) (plugs C (L i ks))" using wf by simp
  have ten: "u48_ok (bp_tenant T)" using caps by (simp add: caps_ok_def)
  note rt = C(5) [unfolded routed_def]
  from C(6) show ?thesis
  proof (cases rule: binary_search_cases [where k = k])
    case (found a b)
    have "plan_insert NK S s mint T k = Ok ([], T)" using C(1) found by (simp add: plan_insert_def)
    moreover have "k \<in> set (keys_of (flat t))" using routed_member [OF C(3, 5)] C(2) found(1) by simp
    ultimately show ?thesis
      using inv by (intro exI [of _ "[]"] exI [of _ "bp_root T"] exI [of _ t] exI [of _ h]) (auto simp: insert_absorb)
  next
    case (absent a b)
    let ?ks = "a @ k # b"
    have ins: "insert_at (length a) k ks = ?ks" using absent(1) by (simp add: insert_at_def)
    have srt: "sorted_wrt (<) (ctx_pre C @ map (\<lambda>k. (k, True)) ?ks @ ctx_post C)"
      by (rule sorted_insert_key) (use wf absent rt flat_plugs [OF C(3)] in \<open>auto simp: wf_bpt_def\<close>)
    have good: "list_all vk ?ks" "length ks \<le> leaf_cap T"
      using w0 absent(1) k unfolding wf_plugs [OF C(3)] by (auto simp: node_good_def)
    have keys: "set (keys_of (flat (plugs C (L i ks)))) = set (keys_of (ctx_pre C)) \<union> set ks \<union> set (keys_of (ctx_post C))"
      for ks :: "'k list" by (auto simp: flat_plugs [OF C(3)])
    show ?thesis
    proof (cases "length ?ks \<le> leaf_cap T")
      case True
      let ?t = "plugs C (L i ?ks)" and ?ws = "[put_node NK T i (Leaf ?ks)]"
      have uf: "C \<noteq> [] \<Longrightarrow> \<not> is_underfull T (Leaf ?ks)"
        using w0 absent(1) unfolding wf_plugs [OF C(3)] by (auto simp: is_underfull_def)
      have "node_good vk T (Leaf ?ks)" using good True by (simp add: node_good_def)
      note rl = replace_leaf [OF C(3) wf hp ten this uf srt]
      have "plan_insert NK S s mint T k = Ok (?ws, T)" using C(1) absent(2) ins True by (simp add: plan_insert_def)
      moreover have "bp_inv NK vk T (batch_effect ?ws (view s)) ?t h"
        using rl(1, 2) root C(4) root_id_plugs [of C "L i ?ks"] by (simp add: bp_inv_def)
      moreover have ids: "fst ` set (nodes ?t) = fst ` set (nodes t)" using rl(3) C(2) by (metis image_set)
      moreover have "i \<in> fst ` set (nodes ?t)" using set_nodes_plugs [of C "L i ?ks"] by force
      ultimately show ?thesis
        using keys [of ?ks] keys [of ks] C(2) absent(1)
        by (intro exI [of _ ?ws] exI [of _ "bp_root T"] exI [of _ ?t] exI [of _ h]) auto
    next
      case False
      let ?mid = "length ?ks div 2"
      let ?lt = "L i (take ?mid ?ks)" and ?rt = "L (mint 0) (drop ?mid ?ks)" and ?sep = "drop ?mid ?ks ! 0"
      let ?b = "[put_node NK T i (Leaf (take ?mid ?ks)), put_node NK T (mint 0) (Leaf (drop ?mid ?ks))]"
      have ids: "fst ` set (ctx_nodes C i @ [(i, Leaf ks)]) = fst ` set (nodes t)"
        using set_nodes_plugs [of C "L i ks"] C(2) by auto
      have len: "length ?ks = Suc (leaf_cap T)" using False good(2) absent(1) by simp
      have "mint 0 \<notin> fst ` set (ctx_nodes C i @ [(i, Leaf ks)])" unfolding ids using fresh by simp
      then have pend: "pending T 0 C ?lt ?sep ?rt (batch_effect ?b (view s))"
        using leaf_split_pending [OF C(3) wf hp caps good(1) len root srt _ refl] by simp
      have new: "fst ` set (ctx_nodes C (root_id ?lt) @ nodes ?lt @ nodes ?rt) = insert (mint 0) (fst ` set (nodes t))"
        using ids by auto
      have ne: "mint j \<noteq> mint 0" if "j \<in> {1..Suc h}" for j using that inj_onD [OF inj, of j 0] by auto
      have pre: "inj_on mint {1..1 + length C}"
        "\<forall>j\<in>{1..1 + length C}. mint j \<notin> fst ` set (ctx_nodes C (root_id ?lt) @ nodes ?lt @ nodes ?rt)"
        unfolding new using inj fresh ne C(4) by (auto simp: inj_on_def)
      obtain ws t' h' r where
        P: "propagate NK mint T (path_of C i) 1 i ?sep (mint 0) ?b = (?b @ ws, T\<lparr>bp_root := r\<rparr>)"
          "bp_inv NK vk (T\<lparr>bp_root := r\<rparr>) (batch_effect (?b @ ws) (view s)) t' h'"
          "flat t' = ctx_pre C @ flat ?lt @ (?sep, False) # flat ?rt @ ctx_post C"
          "insert (mint 0) (fst ` set (nodes t)) \<subseteq> fst ` set (nodes t')"
          "fst ` set (nodes t') \<subseteq> insert (mint 0) (fst ` set (nodes t)) \<union> mint ` {1..1 + length C}"
          "touches T (fst ` set (nodes t')) ws" "h' \<le> Suc (0 + length C)"
        using propagate_builds [OF pend caps pre] unfolding new unfolding root_id.simps
        by (elim exE conjE) (rule that; assumption)
      have "plan_insert NK S s mint T k = Ok (?b @ ws, T\<lparr>bp_root := r\<rparr>)"
        using C(1) absent(2) ins False P(1) by (simp add: plan_insert_def Let_def)
      moreover have "keys_of (flat t') = keys_of (ctx_pre C) @ (take ?mid ?ks @ drop ?mid ?ks) @ keys_of (ctx_post C)"
        unfolding P(3) by (simp del: take_append drop_append append_take_drop_id)
      then have "keys_of (flat t') = keys_of (ctx_pre C) @ ?ks @ keys_of (ctx_post C)"
        by (simp only: append_take_drop_id)
      then have "set (keys_of (flat t')) = insert k (set (keys_of (flat t)))"
        using keys [of ks] C(2) absent(1) by auto
      moreover have "fst ` set (nodes t') \<subseteq> fst ` set (nodes t) \<union> mint ` {0..Suc h}"
      proof -
        have "mint ` {1..1 + length C} \<subseteq> mint ` {0..Suc h}" using C(4) by (intro image_mono) auto
        moreover have "mint 0 \<in> mint ` {0..Suc h}" by simp
        ultimately show ?thesis by (intro order_trans [OF P(5)]) (simp add: le_supI2)
      qed
      moreover have "touches T (fst ` set (nodes t')) (?b @ ws)"
      proof -
        have "i \<in> fst ` set (nodes t)" using ids by force
        then show ?thesis using P(4, 6) by auto
      qed
      ultimately show ?thesis
        using P(2, 4, 7) C(4) by (intro exI [of _ "?b @ ws"] exI [of _ r] exI [of _ t'] exI [of _ h']) auto
    qed
  qed
qed

end

end
