(* ===== verification/Bp_Delete.thy ===== *)
theory Bp_Delete
  imports Bp_Insert
begin

text \<open>
  Removing from a B+tree: the leaf removal, merges and redistributions on the way up and the
  collapse of the root keep \<open>bp_inv\<close>, take out exactly the key, and remove from the store every node
  that is no longer part of the tree.
\<close>

section \<open>Joining and rebalancing two neighbours\<close>

lemma insert_at_facts [simp]:
  assumes "n \<le> length xs"
  shows "insert_at n x xs ! n = x" "remove_at n (insert_at n x xs) = xs"
    "(insert_at n x xs)[n := y] = insert_at n y xs" "i < n \<Longrightarrow> insert_at n x xs ! i = xs ! i"
  using assms by (simp_all add: insert_at_def remove_at_def nth_append list_update_append)

lemma insert_at_contents:
  assumes "n \<le> length xs"
  shows "set (insert_at n x xs) = insert x (set xs)" "length (insert_at n x xs) = Suc (length xs)"
proof -
  have "set xs = set (take n xs) \<union> set (drop n xs)" by (metis append_take_drop_id set_append)
  then show "set (insert_at n x xs) = insert x (set xs)" by (simp add: insert_at_def)
  show "length (insert_at n x xs) = Suc (length xs)" using assms by (simp add: insert_at_def)
qed

lemma to_id_image: "u48_ok ten \<Longrightarrow> to_id i ten \<in> (\<lambda>i. to_id i ten) ` A \<longleftrightarrow> i \<in> A"
  unfolding image_iff by (metis to_id_inject)

lemma shaped_pair:
  assumes "shaped h l" "shaped h r"
  obtains (leaves) i ks j ks' where "l = L i ks" "r = L j ks'" "h = 0"
  | (inner) i ts ss j ts' ss' h' where "l = N i ts ss" "r = N j ts' ss'" "h = Suc h'"
  using assms by (cases h; cases l; cases r) auto

lemma body_N: "body_of (N i ts ss) = Internal (root_id (hd ts)) (zip ss (map root_id (tl ts)))"
  by simp

text \<open>Two internal neighbours joined over the separator between them.\<close>

lemma join_body:
  assumes "length ts = Suc (length ss)" "length ts' = Suc (length ss')"
    "body_of (N i ts ss) = Internal l_lm l_e" "body_of (N j ts' ss') = Internal r_lm r_e"
  shows "body_of (N i (ts @ ts') (ss @ s # ss')) = Internal l_lm (l_e @ [(s, r_lm)] @ r_e)"
proof -
  obtain a as b bs where "ts = a # as" "ts' = b # bs" using assms(1, 2) by (cases ts; cases ts') auto
  then show ?thesis using assms by auto
qed

lemma merge_tree:
  assumes "shaped h l" "shaped h r" "merge T (body_of l) (body_of r) s = Some b"
  obtains u where "root_id u = root_id l" "shaped h u" "body_of u = b"
    "mset (below u) = mset (below l @ below r)"
    "flat u = flat l @ flat r \<or> flat u = flat l @ (s, False) # flat r"
  using assms(1, 2)
proof (cases rule: shaped_pair)
  case (leaves i ks j ks')
  with assms(3) have "b = Leaf (ks @ ks')" by (auto split: if_splits)
  with leaves that [of "L i (ks @ ks')"] show thesis by simp
next
  case (inner i ts ss j ts' ss' h')
  have len: "length ts = Suc (length ss)" "length ts' = Suc (length ss')" using assms(1, 2) inner by auto
  have ne: "map flat ts' \<noteq> []" using len by auto
  obtain l_lm l_e r_lm r_e where b: "body_of l = Internal l_lm l_e" "body_of r = Internal r_lm r_e"
    using inner by auto
  then have m: "b = Internal l_lm (l_e @ [(s, r_lm)] @ r_e)" using assms(3) by (auto split: if_splits)
  let ?u = "N i (ts @ ts') (ss @ s # ss')"
  have "body_of ?u = b" unfolding m by (rule join_body [OF len]) (use b inner in auto)
  moreover have "flat ?u = flat l @ (s, False) # flat r"
    using weave_append [of "map flat ts" ss "map flat ts'" s ss'] ne len inner by simp
  ultimately show thesis using that [of ?u] inner assms(1, 2) by auto
qed

lemma redistribute_tree:
  assumes "shaped h l" "shaped h r" "merge T (body_of l) (body_of r) s = None"
    "4 \<le> leaf_cap T" "4 \<le> internal_cap T"
    "sorted_wrt (<) (pre @ flat l @ (s :: 'k::linorder, False) # flat r @ post)"
  obtains l' s' r' where "redistribute (body_of l) (body_of r) s = (body_of l', body_of r', s')"
    "root_id l' = root_id l" "root_id r' = root_id r" "shaped h l'" "shaped h r'"
    "mset (below l' @ below r') = mset (below l @ below r)"
    "keys_of (flat l' @ flat r') = keys_of (flat l @ flat r)"
    "sorted_wrt (<) (pre @ flat l' @ (s', False) # flat r' @ post)"
  using assms(1, 2)
proof (cases rule: shaped_pair)
  case (leaves i ks j ks')
  define c where "c = ks @ ks'"
  define mid where "mid = length c div 2"
  let ?lt = "take mid c" and ?rt = "drop mid c"
  have "2 \<le> length c" using assms(3, 4) leaves by (auto simp: c_def split: if_splits)
  then have mid: "0 < mid" "mid < length c" by (simp_all add: mid_def)
  then have dr: "?rt = ?rt ! 0 # drop (Suc mid) c" by (simp add: Cons_nth_drop_Suc)
  then have cc: "?lt @ ?rt ! 0 # drop (Suc mid) c = c" by (metis append_take_drop_id)
  have "sorted_wrt (<) (pre @ map (\<lambda>k. (k, True)) c @ post)"
    using assms(6) leaves by (auto simp: sorted_wrt_append c_def)
  then have "sorted_wrt (<) (pre @ map (\<lambda>k. (k, True)) ?lt @ (?rt ! 0, False) #
      map (\<lambda>k. (k, True)) (?rt ! 0 # drop (Suc mid) c) @ post)"
    by (intro sorted_insert_sep) (use mid cc in auto)
  then have "sorted_wrt (<) (pre @ flat (L i ?lt) @ (?rt ! 0, False) # flat (L j ?rt) @ post)"
    using dr by simp
  moreover have "keys_of (flat (L i ?lt) @ flat (L j ?rt)) = c"
    unfolding keys_of_append flat.simps keys_of_simps by simp
  moreover have "redistribute (body_of l) (body_of r) s = (body_of (L i ?lt), body_of (L j ?rt), ?rt ! 0)"
    using leaves by (simp add: Let_def c_def mid_def del: take_append drop_append)
  ultimately show thesis
    using leaves by (intro that [of "L i ?lt" "L j ?rt" "?rt ! 0"]) (simp_all add: c_def)
next
  case (inner i ts ss j ts' ss' h')
  have len: "length ts = Suc (length ss)" "length ts' = Suc (length ss')" using assms(1, 2) inner by auto
  have ne: "map flat ts' \<noteq> []" using len by auto
  obtain l_lm l_e r_lm r_e where b: "body_of l = Internal l_lm l_e" "body_of r = Internal r_lm r_e"
    using inner by auto
  let ?ts = "ts @ ts'" and ?ss = "ss @ s # ss'" and ?es = "l_e @ [(s, r_lm)] @ r_e"
  let ?u = "N i ?ts ?ss" and ?mid = "length ?es div 2"
  have bu: "body_of ?u = Internal l_lm ?es" by (rule join_body [OF len]) (use b inner in auto)
  have fu: "flat ?u = flat l @ (s, False) # flat r"
    using weave_append [of "map flat ts" ss "map flat ts'" s ss'] ne len inner by simp
  have lu: "length ?ts = Suc (length ?ss)" using len by simp
  have le: "length ?es = length ?ss" using cut_bodies(4) [OF lu _ bu, of 0] by simp
  then have mid: "?mid < length ?ss" by simp
  have sh: "shaped (Suc h') ?u" using inner assms(1, 2) by simp
  note cs = cut_structure [OF sh mid] and cb = cut_bodies [OF lu mid bu]
  have dr: "drop ?mid ?es ! 0 = ?es ! ?mid" "drop 1 (drop ?mid ?es) = drop (Suc ?mid) ?es"
    using mid le by (simp_all del: drop_append append.simps)
  have eq: "flat l @ (s, False) # flat r = flat (cut_left ?mid ?u) @ (?ss ! ?mid, False) # flat (cut_right j ?mid ?u)"
    using cs(3) [of j] unfolding fu .
  show thesis
  proof (rule that [of "cut_left ?mid ?u" "cut_right j ?mid ?u"])
    show "redistribute (body_of l) (body_of r) s = (body_of (cut_left ?mid ?u), body_of (cut_right j ?mid ?u), ?ss ! ?mid)"
      unfolding b redistribute.simps Let_def dr cb(1-3) ..
    show "mset (below (cut_left ?mid ?u) @ below (cut_right j ?mid ?u)) = mset (below l @ below r)"
      using cs(4) [of j] inner by simp
    show "keys_of (flat (cut_left ?mid ?u) @ flat (cut_right j ?mid ?u)) = keys_of (flat l @ flat r)"
      using arg_cong [OF eq, of keys_of] by (simp del: flat.simps)
    have "sorted_wrt (<) (pre @ (flat l @ (s, False) # flat r) @ post)" using assms(6) by simp
    then show "sorted_wrt (<) (pre @ flat (cut_left ?mid ?u) @ (?ss ! ?mid, False) # flat (cut_right j ?mid ?u) @ post)"
      unfolding eq by (simp only: append.assoc append.simps)
    show "root_id (cut_left ?mid ?u) = root_id l" "root_id (cut_right j ?mid ?u) = root_id r"
      using cs(5, 6) inner by simp_all
    show "shaped h (cut_left ?mid ?u)" "shaped h (cut_right j ?mid ?u)" using cs(1, 2) inner(3) by simp_all
  qed
qed

text \<open>Sizes and keys of the results.\<close>

lemma halves:
  assumes "c * 3 div 4 < n" "n \<le> c + c div 4" "4 \<le> (c :: nat)"
  shows "n div 2 \<le> c" "n - n div 2 \<le> c" "c div 4 \<le> n div 2" "c div 4 \<le> n - n div 2" "c div 4 \<le> n - n div 2 - 1" "1 \<le> c div 4"
  using assms by linarith+

lemma merge_good:
  assumes "merge T x y s = Some b" "list_all vk (body_keys x)" "list_all vk (body_keys y)" "vk s"
    "\<not> is_underfull T x \<or> \<not> is_underfull T y"
  shows "node_good vk T b" "\<not> is_underfull T b"
proof -
  consider l r where "x = Leaf l" "y = Leaf r" | a l c r where "x = Internal a l" "y = Internal c r"
    using assms(1) by (cases x; cases y) auto
  then have "node_good vk T b \<and> \<not> is_underfull T b"
    using assms by cases (auto simp: node_good_def is_underfull_def split: if_splits)
  then show "node_good vk T b" "\<not> is_underfull T b" by auto
qed

lemma redistribute_good:
  assumes "redistribute x y s = (x', y', s')" "merge T x y s = None"
    "list_all vk (body_keys x)" "list_all vk (body_keys y)" "vk s" "within_cap T x" "within_cap T y"
    "is_underfull T x \<or> is_underfull T y" "4 \<le> leaf_cap T" "4 \<le> internal_cap T"
    "(\<exists>l r. x = Leaf l \<and> y = Leaf r) \<or> (\<exists>a l c r. x = Internal a l \<and> y = Internal c r)"
  shows "node_good vk T x'" "node_good vk T y'" "vk s'" "\<not> is_underfull T x'" "\<not> is_underfull T y'"
proof -
  have "node_good vk T x' \<and> node_good vk T y' \<and> vk s' \<and> \<not> is_underfull T x' \<and> \<not> is_underfull T y'"
    using assms(11)
  proof (elim disjE exE conjE)
    fix l r assume xy: "x = Leaf l" "y = Leaf r"
    let ?c = "l @ r"
    let ?mid = "length ?c div 2"
    have out: "x' = Leaf (take ?mid ?c)" "y' = Leaf (drop ?mid ?c)" "s' = drop ?mid ?c ! 0"
      using assms(1) xy by (auto simp add: Let_def simp del: take_append drop_append)
    have n: "leaf_cap T * 3 div 4 < length ?c" "length ?c \<le> leaf_cap T + leaf_cap T div 4"
      using assms(2, 6-8) xy by (auto simp: is_underfull_def split: if_splits)
    have v: "list_all vk ?c" using assms(3, 4) xy by simp
    then have "list_all vk (take ?mid ?c)" "list_all vk (drop ?mid ?c)" "vk (drop ?mid ?c ! 0)"
      using n assms(9) by (auto simp only: list_all_iff nth_drop intro!: nth_mem dest: in_set_takeD in_set_dropD)
    moreover have "length (take ?mid ?c) = ?mid" "length (drop ?mid ?c) = length ?c - ?mid" by simp_all
    ultimately show ?thesis
      unfolding out using halves [OF n assms(9)] by (simp add: node_good_def is_underfull_def del: take_append drop_append)
  next
    fix a l c r assume xy: "x = Internal a l" "y = Internal c r"
    define es where "es = l @ [(s, c)] @ r"
    define mid where "mid = length es div 2"
    have out: "x' = Internal a (take mid es)" "y' = Internal (snd (drop mid es ! 0)) (drop 1 (drop mid es))"
      "s' = fst (drop mid es ! 0)"
      using assms(1) xy by (simp_all only: es_def mid_def redistribute.simps Let_def prod.inject)
    have n: "internal_cap T * 3 div 4 < length es" "length es \<le> internal_cap T + internal_cap T div 4"
      using assms(2, 6-8) xy by (auto simp: is_underfull_def es_def split: if_splits)
    note hv = halves [OF n assms(10), folded mid_def]
    have v: "\<forall>e\<in>set es. vk (fst e)" using assms(3-5) xy by (auto simp: list_all_iff es_def)
    have lt: "mid < length es" using hv by linarith
    have "list_all vk (map fst (take mid es))" "list_all vk (map fst (drop 1 (drop mid es)))" "vk (fst (drop mid es ! 0))"
      using v lt by (auto simp: list_all_iff dest: in_set_takeD in_set_dropD)
    moreover have "length (take mid es) = mid" "length (drop 1 (drop mid es)) = length es - mid - 1"
      "take mid es \<noteq> []" "drop 1 (drop mid es) \<noteq> []"
      using lt hv by auto
    ultimately show ?thesis
      unfolding out using hv by (simp add: node_good_def is_underfull_def)
  qed
  then show "node_good vk T x'" "node_good vk T y'" "vk s'" "\<not> is_underfull T x'" "\<not> is_underfull T y'" by auto
qed

lemma distinct_sub:
  assumes "mset xs \<subseteq># mset ys" "distinct ys"
  shows "distinct xs"
proof -
  obtain zs where "mset ys = mset (xs @ zs)"
    using assms(1) by (metis ex_mset mset_append mset_subset_eq_exists_conv)
  then have "distinct (xs @ zs)" using assms(2) mset_eq_imp_distinct_iff by blast
  then show ?thesis by simp
qed

lemma distinct_swap: "distinct (x # xs @ ys) \<Longrightarrow> distinct zs \<Longrightarrow> set zs \<subseteq> set ys \<Longrightarrow> distinct (x # xs @ zs)"
  by auto

lemma subset_swap: "set (x # xs @ ys) \<subseteq> I \<Longrightarrow> set zs \<subseteq> set ys \<Longrightarrow> set (x # xs @ zs) \<subseteq> I"
  by auto

lemma sorted_drop_one: "sorted_wrt R (xs @ x # ys) \<Longrightarrow> sorted_wrt R (xs @ ys)"
  by (simp add: sorted_wrt_append)

section \<open>A child and its neighbour\<close>

lemma fr_child_at:
  assumes "frame_ok h F"
  shows "length (fr_lts F) \<le> length (fr_entries F r)"
    "(if length (fr_lts F) = 0 then hd (fr_children F r) else snd (fr_entries F r ! (length (fr_lts F) - 1))) = r"
proof -
  have len: "length (fr_lss F) = length (fr_lts F)" using assms by (simp add: frame_ok_def)
  then show "length (fr_lts F) \<le> length (fr_entries F r)" by (simp add: fr_entries_split [OF assms])
  show "(if length (fr_lts F) = 0 then hd (fr_children F r) else snd (fr_entries F r ! (length (fr_lts F) - 1))) = r"
  proof (cases "fr_lts F")
    case (Cons t ts)
    then have "length (fr_lss F) = Suc (length ts)" using len by simp
    then show ?thesis
      using Cons by (simp add: fr_entries_split [OF assms] nth_append nth_zip)
  qed (simp add: fr_children_def)
qed

text \<open>The pair \<open>rebalance\<close> works on: the child with its left neighbour, or the leftmost child with
  its right one.\<close>

definition paired :: "nat \<Rightarrow> 'k frame \<Rightarrow> 'k bpt \<Rightarrow> 'k frame \<Rightarrow> 'k bpt \<Rightarrow> 'k \<Rightarrow> 'k bpt \<Rightarrow> bool" where
  "paired h F t G l sep r \<longleftrightarrow> plug F t = plug2 G l sep r \<and> frame_ok h G \<and> fr_id G = fr_id F \<and> shaped h l \<and> shaped h r
   \<and> length (fr_lts G) = length (fr_lts F) - 1
   \<and> (fr_lts F = [] \<and> l = t \<and> mset (sibs F) = mset (sibs G @ nodes r)
      \<or> fr_lts F \<noteq> [] \<and> r = t \<and> mset (sibs F) = mset (sibs G @ nodes l))"

lemma neighbours:
  assumes "frame_ok h F" "fr_entries F (root_id t) \<noteq> []" "shaped h t"
  obtains G l sep r where "paired h F t G l sep r"
proof (cases "fr_lts F" rule: rev_exhaust)
  case Nil
  then obtain r rts sep rss where "fr_rts F = r # rts" "fr_rss F = sep # rss"
    using assms(1, 2) by (cases "fr_rts F"; cases "fr_rss F") (auto simp: frame_ok_def fr_entries_def fr_children_def)
  with Nil assms show thesis
    by (intro that [of "Frame (fr_id F) [] [] rss rts" t sep r]) (auto simp: paired_def plug_def plug2_def frame_ok_def sibs_def)
next
  case (snoc lts l)
  then obtain lss sep where "fr_lss F = lss @ [sep]"
    using assms(1) by (cases "fr_lss F" rule: rev_exhaust) (auto simp: frame_ok_def)
  with snoc assms show thesis
    by (intro that [of "Frame (fr_id F) lts lss (fr_rss F) (fr_rts F)" l sep t])
      (auto simp: paired_def plug_def plug2_def frame_ok_def sibs_def)
qed

lemma pframe_pair:
  assumes "plug F t = plug2 G l sep r" "frame_ok h G"
  shows "hd (fr_children F (root_id t)) = hd (fr_children G (root_id l))"
    "fr_entries F (root_id t) = insert_at (length (fr_lts G)) (sep, root_id r) (fr_entries G (root_id l))"
  using body_plug [of F t] body_plug2 [OF assms(2), of l sep r] assms(1) by (simp_all add: fbody_def)

context bp_store
begin

text \<open>One rebalancing step on that pair.\<close>

lemma rebalance_pair:
  assumes pl: "plug F t = plug2 G l sep r" and ok: "frame_ok h G" and id: "fr_id G = fr_id F"
    and idx: "length (fr_lts G) = length (fr_lts F) - 1"
    and side: "fr_lts F = [] \<and> l = t \<and> load_node NK S s T (root_id r) = Ok (body_of r)
      \<or> fr_lts F \<noteq> [] \<and> r = t \<and> load_node NK S s T (root_id l) = Ok (body_of l)"
  shows "rebalance NK S s T batch (root_id t) (body_of t) (pframe F (root_id t)) =
    (case merge T (body_of l) (body_of r) sep of
       Some merged \<Rightarrow> Ok (batch @ [put_node NK T (root_id l) merged, remove_node T (root_id r)],
                         ParentPending (fr_id G) (fbody G (root_id l)))
     | None \<Rightarrow> (case redistribute (body_of l) (body_of r) sep of (nl, nr, ns) \<Rightarrow>
         Ok (batch @ [put_node NK T (root_id l) nl, put_node NK T (root_id r) nr,
           put_node NK T (fr_id G) (Internal (hd (fr_children G (root_id l)))
             (insert_at (length (fr_lts G)) (ns, root_id r) (fr_entries G (root_id l))))], Done)))"
proof -
  let ?n = "length (fr_lts G)" and ?E = "fr_entries G (root_id l)" and ?lm = "hd (fr_children G (root_id l))"
  note pp = pframe_pair [OF pl ok] and ca = fr_child_at [OF ok, of "root_id l"]
  let ?es = "insert_at ?n (sep, root_id r) ?E"
  have ne: "?es \<noteq> []" by (simp add: insert_at_def)
  have left: "(if ?n = 0 then ?lm else snd (?es ! (?n - 1))) = root_id l" using ca by auto
  have right: "?es ! ?n = (sep, root_id r)" using ca(1) by simp
  have upd: "remove_at ?n ?es = ?E" "?es[?n := (ns, root_id r)] = insert_at ?n (ns, root_id r) ?E" for ns
    using ca(1) by simp_all
  have pf: "pframe F (root_id t) = \<lparr>pf_node_id = fr_id G, pf_leftmost = ?lm, pf_entries = ?es,
      pf_child_idx = length (fr_lts F)\<rparr>"
    unfolding pframe_def pp id ..
  have pair: "(if length (fr_lts F) = ?n
       then try_then (load_node NK S s T (root_id r)) (\<lambda>right. Ok (body_of t, right))
       else try_then (load_node NK S s T (root_id l)) (\<lambda>left. Ok (left, body_of t))) = Ok (body_of l, body_of r)"
    using side idx by (cases "fr_lts F") auto
  have sel: "length (fr_lts F) - 1 = ?n" "?n + 1 \<noteq> 0" "?n + 1 - 1 = ?n" using idx by simp_all
  show ?thesis
    unfolding rebalance_def pf path_frame.select_convs Let_def sel(1) sel(3) if_not_P [OF ne] if_not_P [OF sel(2)]
      left right snd_conv pair fst_conv upd
    by (simp add: fbody_def split: option.split prod.split)
qed

text \<open>A tree \<open>t\<close> in the hole of \<open>C\<close> whose own root is not written yet and may be too small; \<open>I\<close> are
  the ids the removal may touch, those outside the tree being gone from the store.\<close>

definition cleared :: "bptree \<Rightarrow> local_id set \<Rightarrow> kv \<Rightarrow> (local_id \<times> 'b) list \<Rightarrow> bool" where
  "cleared T I m ns \<longleftrightarrow> (\<forall>i\<in>I. i \<notin> fst ` set ns \<longrightarrow> m (to_id i (bp_tenant T)) = None)"

definition loose :: "bptree \<Rightarrow> local_id set \<Rightarrow> kv \<Rightarrow> nat \<Rightarrow> 'k frame list \<Rightarrow> 'k bpt \<Rightarrow> write_op list \<Rightarrow> bool" where
  "loose T I m h C t ws \<longleftrightarrow> ctx_ok h C \<and> shaped h t \<and> sorted_wrt (<) (ctx_pre C @ flat t @ ctx_post C)
   \<and> distinct (map fst (ctx_nodes C (root_id t) @ nodes t)) \<and> fst ` set (ctx_nodes C (root_id t) @ nodes t) \<subseteq> I
   \<and> every (node_good vk T) (ctx_nodes C (root_id t) @ below t)
   \<and> list_all vk (body_keys (body_of t)) \<and> within_cap T (body_of t)
   \<and> ctx_filled T C (root_id t) \<and> filled T (below t) \<and> heap NK T m (ctx_nodes C (root_id t))
   \<and> heap NK T (batch_effect ws m) (ctx_nodes C (root_id t) @ below t) \<and> ctx_root C (root_id t) = bp_root T
   \<and> touches T I ws \<and> cleared T I (batch_effect ws m) (ctx_nodes C (root_id t) @ nodes t)"

text \<open>What a finished removal leaves.\<close>

definition settled :: "bptree \<Rightarrow> local_id set \<Rightarrow> kv \<Rightarrow> 'k list \<Rightarrow> nat \<Rightarrow> write_op list \<Rightarrow> bptree \<Rightarrow> bool" where
  "settled T I m ks n ws T' \<longleftrightarrow> (\<exists>r t h. T' = T\<lparr>bp_root := r\<rparr> \<and> bp_inv NK vk T' (batch_effect ws m) t h
     \<and> keys_of (flat t) = ks \<and> fst ` set (nodes t) \<subseteq> I \<and> touches T I ws \<and> cleared T I (batch_effect ws m) (nodes t)
     \<and> h \<le> n)"

lemma cleared_mono: "cleared T I m ns \<Longrightarrow> fst ` set ns \<subseteq> fst ` set ns' \<Longrightarrow> cleared T I m ns'"
  by (auto simp: cleared_def)

lemma cleared_put:
  assumes "cleared T I m ns" "i \<in> fst ` set ns" "u48_ok (bp_tenant T)"
  shows "cleared T I (m(to_id i (bp_tenant T) \<mapsto> v)) ns"
  using assms by (auto simp: cleared_def to_id_inject)

text \<open>Writing the root of the hole's tree ends the removal.\<close>

lemma loose_write:
  assumes lo: "loose T I m h C t ws" and caps: "caps_ok kb T" and solid: "solid (body_of t)"
    and fill: "C \<noteq> [] \<longrightarrow> \<not> is_underfull T (body_of t)"
  shows "settled T I m (keys_of (ctx_pre C @ flat t @ ctx_post C)) (h + length C) (ws @ [put_node NK T (root_id t) (body_of t)]) T"
proof -
  let ?r = "root_id t" and ?ws = "ws @ [put_node NK T (root_id t) (body_of t)]" and ?t = "plugs C t"
  have ten: "u48_ok (bp_tenant T)" using caps by (simp add: caps_ok_def)
  have ok: "ctx_ok h C" using lo by (simp add: loose_def)
  have fresh: "?r \<notin> fst ` set (ctx_nodes C ?r @ below t)" using lo by (auto simp: loose_def nodes_eq)
  have "wf_bpt vk T (h + length C) ?t"
    unfolding wf_plugs [OF ok] using lo solid fill by (simp add: loose_def node_good_def nodes_eq)
  moreover have "heap NK T (batch_effect ?ws m) (ctx_nodes C ?r @ below t)"
    using heap_put [OF _ fresh ten, of NK "batch_effect ws m"] lo by (simp add: loose_def)
  then have "heap NK T (batch_effect ?ws m) (nodes ?t)" unfolding heap_plugs by (simp add: nodes_eq)
  ultimately have "bp_inv NK vk T (batch_effect ?ws m) ?t (h + length C)"
    using lo by (simp add: bp_inv_def root_id_plugs loose_def)
  moreover have ids: "fst ` set (nodes ?t) = fst ` set (ctx_nodes C ?r @ nodes t)"
    by (simp add: set_nodes_plugs)
  moreover have "cleared T I (batch_effect ?ws m) (nodes ?t)"
    using lo cleared_put [of T I "batch_effect ws m" "nodes ?t" ?r] ten ids
    by (auto simp: loose_def nodes_eq cleared_def to_id_inject)
  moreover have "touches T I ?ws" using lo by (auto simp: loose_def nodes_eq)
  ultimately show ?thesis
    unfolding settled_def using lo
    by (intro exI [of _ "bp_root T"] exI [of _ ?t] exI [of _ "h + length C"])
      (simp add: flat_plugs [OF ok] loose_def)
qed

text \<open>The root: written, or collapsed into its only child.\<close>

lemma loose_finish:
  assumes lo: "loose T I m h [] t ws" and caps: "caps_ok kb T"
    and fin: "finish_at_root NK T ws (root_id t) (body_of t) = (ws', T')"
  shows "settled T I m (keys_of (flat t)) h ws' T'"
proof (cases "solid (body_of t)")
  case True
  then have "(ws', T') = (ws @ [put_node NK T (root_id t) (body_of t)], T)"
    using fin by (cases "(NK, T, ws, root_id t, body_of t)" rule: finish_at_root.cases) auto
  then show ?thesis using loose_write [OF lo caps True] by simp
next
  case False
  then obtain i ts ss h' where t: "t = N i ts ss" "h = Suc h'" using lo by (cases t; cases h) (auto simp: loose_def)
  then have len: "length ts = Suc (length ss)" using lo by (simp add: loose_def)
  then have "ss = []" using False t by (cases ss; cases ts; cases "tl ts") auto
  then obtain c where c: "ts = [c]" using len by (cases ts) auto
  have tt: "t = N i [c] []" using t c \<open>ss = []\<close> by simp
  have out: "ws' = ws @ [remove_node T i]" "T' = T\<lparr>bp_root := root_id c\<rparr>" using fin tt by auto
  have fresh: "i \<notin> fst ` set (nodes c)" and ten: "u48_ok (bp_tenant T)"
    using lo tt caps by (auto simp: loose_def caps_ok_def)
  have "heap NK T (batch_effect ws' m) (nodes c)"
    using lo tt fresh ten unfolding out by (force simp: loose_def heap_def to_id_inject)
  moreover have "wf_bpt vk T h' c"
    using lo tt t(2) by (simp add: wf_bpt_def loose_def nodes_eq)
  ultimately have "bp_inv NK vk T' (batch_effect ws' m) c h'" by (simp add: bp_inv_def out)
  moreover have "cleared T I (batch_effect ws' m) (nodes c)"
    using lo tt ten unfolding out by (auto simp: cleared_def loose_def to_id_inject)
  moreover have "touches T I ws'" "fst ` set (nodes c) \<subseteq> I" "keys_of (flat c) = keys_of (flat t)"
    using lo tt unfolding out by (auto simp: loose_def)
  moreover have "h' \<le> h" using t(2) by simp
  ultimately show ?thesis unfolding settled_def out(2) by blast
qed

text \<open>The parent becomes the pending node: below it, \<open>sib\<close> and the hole's root are replaced by \<open>new\<close>.\<close>

lemma loose_up:
  assumes lo: "loose T I m h (F # C) t ws" and caps: "caps_ok kb T"
    and u: "root_id u = fr_id F" "shaped (Suc h) u" "sorted_wrt (<) (ctx_pre C @ flat u @ ctx_post C)"
      "list_all vk (body_keys (body_of u))" "within_cap T (body_of u)"
    and old: "mset (sibs F @ below t) = mset (rest @ sib)" and below: "mset (below u) = mset (rest @ new)"
    and ids: "mset (map fst new) \<subseteq># mset (root_id t # map fst sib)"
    and vs: "touches T (set (root_id t # map fst sib)) vs"
    and eff: "\<And>m. heap NK T (batch_effect vs m) new \<and> cleared T (set (root_id t # map fst sib)) (batch_effect vs m) new"
    and good: "every (node_good vk T) new" "filled T new"
  shows "loose T I m (Suc h) C u (ws @ vs)"
proof -
  let ?old = "ctx_nodes C (fr_id F) @ rest" and ?g = "root_id t # map fst sib" and ?m = "batch_effect ws m"
  have ten: "u48_ok (bp_tenant T)" using caps by (simp add: caps_ok_def)
  have all: "mset (map fst (ctx_nodes (F # C) (root_id t) @ nodes t)) =
      mset (fr_id F # map fst ?old @ ?g)"
    using arg_cong [OF old, of "image_mset fst"] by (simp add: nodes_eq)
  then have D: "distinct (fr_id F # map fst ?old @ ?g)"
    using lo unfolding loose_def by (metis mset_eq_imp_distinct_iff)
  have A: "fst ` set (ctx_nodes (F # C) (root_id t) @ nodes t) = set (fr_id F # map fst ?old @ ?g)"
    using arg_cong [OF all, of set_mset] by (simp only: set_mset_mset set_map)
  have new: "mset (map fst (ctx_nodes C (root_id u) @ nodes u)) = mset (fr_id F # map fst ?old @ map fst new)"
    using arg_cong [OF below, of "image_mset fst"] u(1) by (simp add: nodes_eq)
  have N: "fst ` set (ctx_nodes C (root_id u) @ nodes u) = set (fr_id F # map fst ?old @ map fst new)"
    using arg_cong [OF new, of set_mset] by (simp only: set_mset_mset set_map)
  have sub: "set (map fst new) \<subseteq> set ?g" using set_mset_mono [OF ids] by (simp only: set_mset_mset)
  have dn: "distinct (map fst new)"
    by (rule distinct_sub [OF ids]) (use D in auto)
  have dist: "distinct (map fst (ctx_nodes C (root_id u) @ nodes u))"
    unfolding mset_eq_imp_distinct_iff [OF new] by (rule distinct_swap [OF D dn sub])
  have rest: "set rest \<subseteq> set (sibs F @ below t)" using arg_cong [OF old, of set_mset] by auto
  have bel: "set (below u) = set (rest @ new)" using arg_cong [OF below, of set_mset] by simp
  have hm: "heap NK T (batch_effect vs ?m) ?old"
  proof -
    have h0: "heap NK T ?m ?old"
      by (rule heap_mono [of _ _ _ "ctx_nodes (F # C) (root_id t) @ below t"]) (use lo rest in \<open>auto simp: loose_def\<close>)
    have "batch_effect vs ?m (to_id i (bp_tenant T)) = ?m (to_id i (bp_tenant T))" if "i \<in> set (map fst ?old)" for i
    proof (rule touches_frame [OF vs])
      have "set (map fst ?old) \<inter> set ?g = {}" using D by (simp only: distinct.simps distinct_append)
      then have "i \<notin> set ?g" using that by blast
      then show "to_id i (bp_tenant T) \<notin> (\<lambda>i. to_id i (bp_tenant T)) ` set ?g"
        by (simp only: to_id_image [OF ten] not_False_eq_True)
    qed
    with h0 show ?thesis by (force simp: heap_def)
  qed
  have "cleared T I (batch_effect vs ?m) (ctx_nodes C (root_id u) @ nodes u)"
    unfolding cleared_def
  proof (intro ballI impI)
    fix i assume i: "i \<in> I" "i \<notin> fst ` set (ctx_nodes C (root_id u) @ nodes u)"
    show "batch_effect vs ?m (to_id i (bp_tenant T)) = None"
    proof (cases "i \<in> set ?g")
      case True
      then show ?thesis using eff [of ?m] i(2) N by (auto simp: cleared_def)
    next
      case False
      then have "i \<notin> fst ` set (ctx_nodes (F # C) (root_id t) @ nodes t)" using i(2) N A by auto
      then have "?m (to_id i (bp_tenant T)) = None" using lo i(1) by (simp add: loose_def cleared_def)
      moreover have "to_id i (bp_tenant T) \<notin> (\<lambda>i. to_id i (bp_tenant T)) ` set ?g"
        using False by (simp only: to_id_image [OF ten] not_False_eq_True)
      ultimately show ?thesis using touches_frame [OF vs] by simp
    qed
  qed
  moreover have "fst ` set (ctx_nodes C (root_id u) @ nodes u) \<subseteq> I" "touches T I vs"
  proof -
    have "set (fr_id F # map fst ?old @ ?g) \<subseteq> I" using lo A by (simp only: loose_def)
    then show "fst ` set (ctx_nodes C (root_id u) @ nodes u) \<subseteq> I" unfolding N using sub by (rule subset_swap)
    show "touches T I vs" by (rule touches_mono [OF vs]) (use \<open>set (fr_id F # map fst ?old @ ?g) \<subseteq> I\<close> in auto)
  qed
  moreover have "heap NK T (batch_effect vs ?m) (ctx_nodes C (root_id u) @ below u)"
    by (rule heap_mono [of _ _ _ "?old @ new"]) (use hm eff [of ?m] bel u(1) in auto)
  moreover have "every (node_good vk T) (ctx_nodes C (root_id u) @ below u)"
    by (rule every_mono [of _ "(ctx_nodes (F # C) (root_id t) @ below t) @ new"])
      (use lo good rest bel u(1) in \<open>auto simp: loose_def\<close>)
  moreover have "filled T (below u)"
    by (rule every_mono [of _ "(sibs F @ below t) @ new"]) (use lo good rest bel in \<open>auto simp: loose_def\<close>)
  ultimately show ?thesis
    using lo u dist by (simp add: loose_def)
qed

lemma paired_facts:
  assumes lo: "loose T I (view s) h (F # C) t ws" and caps: "caps_ok kb T" and pr: "paired h F t G l sep r"
  shows "root_id l \<noteq> root_id r" and "list_all vk (body_keys (body_of l))" "list_all vk (body_keys (body_of r))" "vk sep"
    and "within_cap T (body_of l)" "within_cap T (body_of r)"
    and "\<exists>sib. mset (sibs F @ below t) = mset ((sibs G @ below l @ below r) @ sib)
      \<and> mset (root_id t # map fst sib) = {#root_id l, root_id r#}"
    and "\<forall>e\<in>set (fr_entries G (root_id l)). vk (fst e)" "length (fr_entries G (root_id l)) < internal_cap T"
    and "sorted_wrt (<) (ctx_pre C @ flat (plug2 G l sep r) @ ctx_post C)"
    and "C \<noteq> [] \<longrightarrow> internal_cap T div 4 \<le> Suc (length (fr_entries G (root_id l)))"
    and "fr_lts F = [] \<and> l = t \<and> \<not> is_underfull T (body_of r) \<and> load_node NK S s T (root_id r) = Ok (body_of r)
      \<or> fr_lts F \<noteq> [] \<and> r = t \<and> \<not> is_underfull T (body_of l) \<and> load_node NK S s T (root_id l) = Ok (body_of l)"
proof -
  have pl: "plug F t = plug2 G l sep r" "frame_ok h G" using pr by (auto simp: paired_def)
  have ok: "frame_ok h F" using lo by (simp add: loose_def)
  have load: "load_node NK S s T (root_id x) = Ok (body_of x) \<and> node_good vk T (body_of x) \<and> \<not> is_underfull T (body_of x)"
    if "mset (sibs F) = mset (sibs G @ nodes x)" for x
  proof -
    have "(root_id x, body_of x) \<in> set (sibs F)"
      using arg_cong [OF that, of set_mset] by (auto simp: nodes_eq)
    moreover have "heap NK T (view s) (sibs F)" "every (node_good vk T) (sibs F)" "filled T (sibs F)"
      using lo by (simp_all add: loose_def)
    ultimately have "view s (to_id (root_id x) (bp_tenant T)) = Some (node_to_bytes NK (body_of x))"
      "node_good vk T (body_of x)" "\<not> is_underfull T (body_of x)"
      unfolding heap_def every_def by fastforce+
    then show ?thesis using load_at caps by blast
  qed
  have gf: "node_good vk T (fbody F (root_id t))" and fF: "C \<noteq> [] \<longrightarrow> \<not> is_underfull T (fbody F (root_id t))"
    using lo by (auto simp: loose_def)
  have fb: "fbody F (root_id t) = Internal (hd (fr_children G (root_id l)))
      (insert_at (length (fr_lts G)) (sep, root_id r) (fr_entries G (root_id l)))"
    using pframe_pair [OF pl] by (simp add: fbody_def)
  note EE = insert_at_contents [OF fr_child_at(1) [OF pl(2), of "root_id l"]]
  show "vk sep" "\<forall>e\<in>set (fr_entries G (root_id l)). vk (fst e)" "length (fr_entries G (root_id l)) < internal_cap T"
    using gf EE unfolding fb by (auto simp: node_good_def list_all_iff)
  show "C \<noteq> [] \<longrightarrow> internal_cap T div 4 \<le> Suc (length (fr_entries G (root_id l)))"
    using fF EE unfolding fb by (auto simp: is_underfull_def)
  show "sorted_wrt (<) (ctx_pre C @ flat (plug2 G l sep r) @ ctx_post C)"
    using lo flat_plug [OF ok, of t] unfolding pl(1) by (simp add: loose_def)
  show "fr_lts F = [] \<and> l = t \<and> \<not> is_underfull T (body_of r) \<and> load_node NK S s T (root_id r) = Ok (body_of r)
      \<or> fr_lts F \<noteq> [] \<and> r = t \<and> \<not> is_underfull T (body_of l) \<and> load_node NK S s T (root_id l) = Ok (body_of l)"
    using pr load by (auto simp: paired_def)
  have both: "(list_all vk (body_keys (body_of l)) \<and> list_all vk (body_keys (body_of r)))
      \<and> (within_cap T (body_of l) \<and> within_cap T (body_of r))"
    using pr load lo by (auto simp: paired_def loose_def node_good_def)
  then show "list_all vk (body_keys (body_of l))" "list_all vk (body_keys (body_of r))"
    "within_cap T (body_of l)" "within_cap T (body_of r)" by simp_all
  show old: "\<exists>sib. mset (sibs F @ below t) = mset ((sibs G @ below l @ below r) @ sib)
      \<and> mset (root_id t # map fst sib) = {#root_id l, root_id r#}"
  proof (cases "fr_lts F = []")
    case True
    then show ?thesis using pr by (intro exI [of _ "[(root_id r, body_of r)]"]) (simp add: paired_def nodes_eq)
  next
    case False
    then show ?thesis using pr by (intro exI [of _ "[(root_id l, body_of l)]"]) (simp add: paired_def nodes_eq)
  qed
  show "root_id l \<noteq> root_id r"
  proof -
    obtain sib where sib: "mset (sibs F @ below t) = mset ((sibs G @ below l @ below r) @ sib)"
      "mset (root_id t # map fst sib) = {#root_id l, root_id r#}" using old by blast
    have "distinct (map fst (sibs F @ nodes t))" using lo by (auto simp: loose_def)
    moreover have "mset (map fst (sibs F @ nodes t)) =
        mset (root_id t # map fst sib) + mset (map fst (sibs G @ below l @ below r))"
      using arg_cong [OF sib(1), of "image_mset fst"] by (simp add: nodes_eq ac_simps)
    then have "mset [root_id l, root_id r] \<subseteq># mset (map fst (sibs F @ nodes t))" unfolding sib(2) by simp
    ultimately have "distinct [root_id l, root_id r]" by (meson distinct_sub)
    then show ?thesis by simp
  qed
qed

text \<open>The pair is merged: the parent loses a child.\<close>

lemma loose_merge:
  assumes lo: "loose T I (view s) h (F # C) t ws" and caps: "caps_ok kb T" and pr: "paired h F t G l sep r"
    and mg: "merge T (body_of l) (body_of r) sep = Some b"
  shows "\<exists>p. loose T I (view s) (Suc h) C p (ws @ [put_node NK T (root_id l) b, remove_node T (root_id r)])
    \<and> root_id p = fr_id G \<and> body_of p = fbody G (root_id l)
    \<and> keys_of (ctx_pre C @ flat p @ ctx_post C) = keys_of (ctx_pre (F # C) @ flat t @ ctx_post (F # C))"
proof -
  note pf = paired_facts [OF lo caps pr]
  have pl: "plug F t = plug2 G l sep r" "frame_ok h G" "fr_id G = fr_id F" "shaped h l" "shaped h r"
    using pr by (auto simp: paired_def)
  have ok: "frame_ok h F" using lo by (simp add: loose_def)
  have ten: "u48_ok (bp_tenant T)" using caps by (simp add: caps_ok_def)
  obtain u where u: "root_id u = root_id l" "shaped h u" "body_of u = b" "mset (below u) = mset (below l @ below r)"
    "flat u = flat l @ flat r \<or> flat u = flat l @ (sep, False) # flat r"
    by (rule merge_tree [OF pl(4, 5) mg])
  obtain sib where sib: "mset (sibs F @ below t) = mset ((sibs G @ below l @ below r) @ sib)"
    "mset (root_id t # map fst sib) = {#root_id l, root_id r#}" using pf(7) by blast
  then have g: "set (root_id t # map fst sib) = {root_id l, root_id r}"
    by (metis set_mset_mset set_mset_add_mset_insert set_mset_empty)
  have uf: "\<not> is_underfull T (body_of l) \<or> \<not> is_underfull T (body_of r)" using pf(12) by blast
  note mgood = merge_good [OF mg pf(2-4) uf]
  let ?p = "plug G u" and ?vs = "[put_node NK T (root_id l) b, remove_node T (root_id r)]"
  have bp: "body_of ?p = fbody G (root_id l)" using body_plug [of G u] u(1) by simp
  have fp: "flat ?p = wpre (fr_lts G) (fr_lss G) @ flat u @ wpost (fr_rss G) (fr_rts G)"
    "flat (plug2 G l sep r) = wpre (fr_lts G) (fr_lss G) @ flat l @ (sep, False) # flat r @ wpost (fr_rss G) (fr_rts G)"
    by (rule flat_plug [OF pl(2)], rule flat_plug2 [OF pl(2)])
  have ft: "flat (plug2 G l sep r) = wpre (fr_lts F) (fr_lss F) @ flat t @ wpost (fr_rss F) (fr_rts F)"
    using flat_plug [OF ok, of t] pl(1) by simp
  have keys: "keys_of (flat ?p) = keys_of (flat (plug2 G l sep r))" unfolding fp using u(5) by auto
  have "loose T I (view s) (Suc h) C ?p (ws @ ?vs)"
  proof (rule loose_up [OF lo caps, where rest = "sibs G @ below l @ below r" and sib = sib and new = "[(root_id l, b)]"])
    show "sorted_wrt (<) (ctx_pre C @ flat ?p @ ctx_post C)"
      using u(5)
    proof
      assume fu: "flat u = flat l @ flat r"
      have "sorted_wrt (<) ((ctx_pre C @ wpre (fr_lts G) (fr_lss G) @ flat l) @ (sep, False) #
          (flat r @ wpost (fr_rss G) (fr_rts G) @ ctx_post C))"
        using pf(10) unfolding fp by simp
      from sorted_drop_one [OF this] show ?thesis unfolding fp fu by simp
    next
      assume fu: "flat u = flat l @ (sep, False) # flat r"
      show ?thesis using pf(10) unfolding fp fu by simp
    qed
    show "mset (below ?p) = mset ((sibs G @ below l @ below r) @ [(root_id l, b)])"
      using below_plug [of G u] u by (simp add: nodes_eq)
    show "mset (map fst [(root_id l, b)]) \<subseteq># mset (root_id t # map fst sib)" unfolding sib(2) by simp
    show "touches T (set (root_id t # map fst sib)) ?vs" unfolding g by simp
    show "heap NK T (batch_effect ?vs m) [(root_id l, b)] \<and>
        cleared T (set (root_id t # map fst sib)) (batch_effect ?vs m) [(root_id l, b)]" for m
      unfolding g using pf(1) ten by (simp add: to_id_inject cleared_def)
    show "shaped (Suc h) ?p" using u(2) shaped_plug [OF pl(2)] by blast
    show "list_all vk (body_keys (body_of ?p))" "within_cap T (body_of ?p)"
      using pf(8, 9) unfolding bp by (simp_all add: fbody_def list_all_iff)
  qed (use pl(3) sib(1) mgood in simp_all)
  with bp keys ft show ?thesis by (intro exI [of _ ?p]) simp
qed

text \<open>The pair shares its entries evenly: the removal is finished.\<close>

lemma loose_redistribute:
  assumes lo: "loose T I (view s) h (F # C) t ws" and caps: "caps_ok kb T" and pr: "paired h F t G l sep r"
    and mg: "merge T (body_of l) (body_of r) sep = None" and small: "is_underfull T (body_of t)"
  shows "\<exists>nl nr ns. redistribute (body_of l) (body_of r) sep = (nl, nr, ns)
    \<and> settled T I (view s) (keys_of (ctx_pre (F # C) @ flat t @ ctx_post (F # C))) (Suc h + length C)
        (ws @ [put_node NK T (root_id l) nl, put_node NK T (root_id r) nr,
           put_node NK T (fr_id G) (Internal (hd (fr_children G (root_id l)))
             (insert_at (length (fr_lts G)) (ns, root_id r) (fr_entries G (root_id l))))]) T"
proof -
  note pf = paired_facts [OF lo caps pr]
  have pl: "plug F t = plug2 G l sep r" "frame_ok h G" "fr_id G = fr_id F" "shaped h l" "shaped h r"
    using pr by (auto simp: paired_def)
  have ok: "frame_ok h F" using lo by (simp add: loose_def)
  have cap: "u48_ok (bp_tenant T)" "4 \<le> leaf_cap T" "4 \<le> internal_cap T" using caps by (auto simp: caps_ok_def)
  let ?pre = "ctx_pre C @ wpre (fr_lts G) (fr_lss G)" and ?post = "wpost (fr_rss G) (fr_rts G) @ ctx_post C"
  have "sorted_wrt (<) (?pre @ flat l @ (sep, False) # flat r @ ?post)"
    using pf(10) unfolding flat_plug2 [OF pl(2)] by simp
  from redistribute_tree [OF pl(4, 5) mg cap(2, 3) this] obtain l' ns r' where
    rd: "redistribute (body_of l) (body_of r) sep = (body_of l', body_of r', ns)"
      "root_id l' = root_id l" "root_id r' = root_id r" "shaped h l'" "shaped h r'"
      "mset (below l' @ below r') = mset (below l @ below r)"
      "keys_of (flat l' @ flat r') = keys_of (flat l @ flat r)"
      "sorted_wrt (<) (?pre @ flat l' @ (ns, False) # flat r' @ ?post)"
    by blast
  have kinds: "(\<exists>a b. body_of l = Leaf a \<and> body_of r = Leaf b) \<or> (\<exists>a b c d. body_of l = Internal a b \<and> body_of r = Internal c d)"
    using pl(4, 5) by (cases rule: shaped_pair) auto
  have uf: "is_underfull T (body_of l) \<or> is_underfull T (body_of r)" using pf(12) small by blast
  note rgood = redistribute_good [OF rd(1) mg pf(2-6) uf cap(2, 3) kinds]
  obtain sib where sib: "mset (sibs F @ below t) = mset ((sibs G @ below l @ below r) @ sib)"
    "mset (root_id t # map fst sib) = {#root_id l, root_id r#}" using pf(7) by blast
  then have g: "set (root_id t # map fst sib) = {root_id l, root_id r}"
    by (metis set_mset_mset set_mset_add_mset_insert set_mset_empty)
  let ?p = "plug2 G l' ns r'" and ?vs = "[put_node NK T (root_id l) (body_of l'), put_node NK T (root_id r) (body_of r')]"
  let ?new = "[(root_id l, body_of l'), (root_id r, body_of r')]"
  let ?es = "insert_at (length (fr_lts G)) (ns, root_id r) (fr_entries G (root_id l))"
  have bp: "body_of ?p = Internal (hd (fr_children G (root_id l))) ?es"
    unfolding body_plug2 [OF pl(2)] rd(2, 3) ..
  have rp: "root_id ?p = fr_id G" by (simp add: plug2_def)
  note EE = insert_at_contents [OF fr_child_at(1) [OF pl(2), of "root_id l"]]
  have keys: "keys_of (flat ?p) = keys_of (flat (plug2 G l sep r))"
    unfolding flat_plug2 [OF pl(2)] using rd(7) by simp
  have ft: "flat (plug2 G l sep r) = wpre (fr_lts F) (fr_lss F) @ flat t @ wpost (fr_rss F) (fr_rts F)"
    using flat_plug [OF ok, of t] pl(1) by simp
  have lp: "loose T I (view s) (Suc h) C ?p (ws @ ?vs)"
  proof (rule loose_up [OF lo caps, where rest = "sibs G @ below l @ below r" and sib = sib and new = ?new])
    show "sorted_wrt (<) (ctx_pre C @ flat ?p @ ctx_post C)"
      using rd(8) unfolding flat_plug2 [OF pl(2)] by simp
    show "mset (below ?p) = mset ((sibs G @ below l @ below r) @ ?new)"
      using rd(2, 3, 6) by (simp add: plug2_def sibs_def nodes_eq ac_simps)
    show "mset (map fst ?new) \<subseteq># mset (root_id t # map fst sib)" unfolding sib(2) by simp
    show "touches T (set (root_id t # map fst sib)) ?vs" unfolding g by simp
    show "heap NK T (batch_effect ?vs m) ?new \<and> cleared T (set (root_id t # map fst sib)) (batch_effect ?vs m) ?new" for m
      unfolding g using pf(1) cap(1) by (simp add: to_id_inject cleared_def)
    show "shaped (Suc h) ?p" by (rule shaped_plug2 [OF pl(2) rd(4, 5)])
    show "list_all vk (body_keys (body_of ?p))" "within_cap T (body_of ?p)"
      using pf(8, 9) rgood(3) EE unfolding bp by (simp_all add: list_all_iff)
  qed (use pl(3) rp sib(1) rgood in simp_all)
  have "settled T I (view s) (keys_of (ctx_pre C @ flat ?p @ ctx_post C)) (Suc h + length C) ((ws @ ?vs) @ [put_node NK T (root_id ?p) (body_of ?p)]) T"
    by (rule loose_write [OF lp caps]) (use pf(11) EE in \<open>auto simp: bp is_underfull_def insert_at_def\<close>)
  then have "settled T I (view s) (keys_of (ctx_pre (F # C) @ flat t @ ctx_post (F # C))) (Suc h + length C)
      (ws @ ?vs @ [put_node NK T (fr_id G) (Internal (hd (fr_children G (root_id l))) ?es)]) T"
    unfolding bp rp using keys ft by simp
  with rd(1) show ?thesis by simp
qed

section \<open>The removal\<close>

lemma remove_up_settles:
  assumes "loose T I (view s) h C t ws" "caps_ok kb T"
  shows "\<exists>ws' T'. remove_up NK S s T (path_of C (root_id t)) ws (root_id t) (body_of t) = Ok (ws', T')
    \<and> settled T I (view s) (keys_of (ctx_pre C @ flat t @ ctx_post C)) (h + length C) ws' T'"
  using assms
proof (induction C arbitrary: h t ws)
  case Nil
  obtain ws' T' where "finish_at_root NK T ws (root_id t) (body_of t) = (ws', T')" by fastforce
  with loose_finish [OF Nil this] show ?case by simp
next
  case (Cons F C)
  note lo = Cons.prems(1) and caps = Cons.prems(2)
  show ?case
  proof (cases "is_underfull T (body_of t)")
    case False
    have "solid (body_of t)" using False caps by (cases "body_of t") (auto simp: is_underfull_def caps_ok_def)
    with loose_write [OF lo caps this] False show ?thesis by simp
  next
    case True
    have ok: "frame_ok h F" "shaped h t" and "node_good vk T (fbody F (root_id t))" using lo by (auto simp: loose_def)
    then have "fr_entries F (root_id t) \<noteq> []" by (simp add: node_good_def fbody_def)
    from neighbours [OF ok(1) this ok(2)] obtain G l sep r where pr: "paired h F t G l sep r" by blast
    have pl: "plug F t = plug2 G l sep r" "frame_ok h G" "fr_id G = fr_id F" "length (fr_lts G) = length (fr_lts F) - 1"
      using pr by (auto simp: paired_def)
    have side: "fr_lts F = [] \<and> l = t \<and> load_node NK S s T (root_id r) = Ok (body_of r)
      \<or> fr_lts F \<noteq> [] \<and> r = t \<and> load_node NK S s T (root_id l) = Ok (body_of l)"
      using paired_facts(12) [OF lo caps pr] by blast
    note rb = rebalance_pair [OF pl side, of ws]
    show ?thesis
    proof (cases "merge T (body_of l) (body_of r) sep")
      case None
      from loose_redistribute [OF lo caps pr None True] show ?thesis using True rb None by force
    next
      case (Some b)
      from loose_merge [OF lo caps pr Some] obtain p where
        p: "loose T I (view s) (Suc h) C p (ws @ [put_node NK T (root_id l) b, remove_node T (root_id r)])"
          "root_id p = fr_id G" "body_of p = fbody G (root_id l)"
          "keys_of (ctx_pre C @ flat p @ ctx_post C) = keys_of (ctx_pre (F # C) @ flat t @ ctx_post (F # C))"
        by blast
      from Cons.IH [OF p(1) caps] show ?thesis
        unfolding p(2-4) using True rb Some pl(3) by simp
    qed
  qed
qed

lemma plan_remove_correct:
  assumes inv: "bp_inv NK vk T (view s) t h" and caps: "caps_ok kb T"
  shows "if k \<in> set (keys_of (flat t))
    then \<exists>ws T'. plan_remove NK S s T k = Ok (Some (ws, T'))
      \<and> settled T (fst ` set (nodes t)) (view s) (removeAll k (keys_of (flat t))) h ws T'
    else plan_remove NK S s T k = Ok None"
proof -
  obtain C i ks where
    C: "descend NK S s T k [] (bp_root T) = Ok (path_of C i, i, ks)"
      "t = plugs C (L i ks)" "ctx_ok 0 C" "length C = h" "routed k C" "sorted_wrt (<) ks"
    by (rule descend_from_root [OF inv caps, of k])
  have wf: "wf_bpt vk T (0 + length C) (plugs C (L i ks))" and hp: "heap NK T (view s) (ctx_nodes C i @ nodes (L i ks))"
    and root: "ctx_root C i = bp_root T"
    using inv C(2, 4) root_id_plugs [of C "L i ks"] heap_plugs [of NK T "view s" C "L i ks"] by (auto simp: bp_inv_def)
  note w = wf [unfolded wf_plugs [OF C(3)]]
  have mem: "k \<in> set (keys_of (flat t)) \<longleftrightarrow> k \<in> set ks" using routed_member [OF C(3, 5)] C(2) by simp
  have ids: "fst ` set (nodes t) = fst ` set (ctx_nodes C i @ [(i, Leaf ks')])" for ks'
    unfolding C(2) set_nodes_plugs by (simp add: image_Un)
  from C(6) show ?thesis
  proof (cases rule: binary_search_cases [where k = k])
    case (absent a b)
    then have "k \<notin> set ks" by auto
    with mem show ?thesis using C(1) absent(2) by (simp add: plan_remove_def)
  next
    case (found a b)
    let ?ks = "a @ b"
    have rm: "remove_at (length a) ks = ?ks" using found(1) by (simp add: remove_at_def)
    have "loose T (fst ` set (nodes t)) (view s) 0 C (L i ?ks) []"
      unfolding loose_def cleared_def ids [of ?ks]
      using w hp root C(3) found(1) by (auto simp: node_good_def sorted_wrt_append nodes_eq)
    from remove_up_settles [OF this caps] obtain ws T' where
      up: "remove_up NK S s T (path_of C i) [] i (Leaf ?ks) = Ok (ws, T')"
        "settled T (fst ` set (nodes t)) (view s) (keys_of (ctx_pre C @ flat (L i ?ks) @ ctx_post C)) h ws T'"
      using C(4) by auto
    have rt: "(k, True) \<notin> set (ctx_pre C)" "(k, True) \<notin> set (ctx_post C)"
      using C(5) by (auto simp: routed_def simp del: less_prod_simp)
    have "k \<notin> set (keys_of (ctx_pre C))" "k \<notin> set (keys_of (ctx_post C))" "k \<notin> set a" "k \<notin> set b"
      using rt found(3, 4) by (auto simp: set_keys_of)
    then have "removeAll k (keys_of (flat t)) = keys_of (ctx_pre C @ flat (L i ?ks) @ ctx_post C)"
      by (simp add: C(2) flat_plugs [OF C(3)] found(1))
    moreover have "plan_remove NK S s T k = Ok (Some (ws, T'))"
      using C(1) found(2) rm up(1) by (simp add: plan_remove_def)
    ultimately show ?thesis using up(2) mem found(1) by simp
  qed
qed

section \<open>Applied to the store\<close>

lemma bp_insert_correct:
  assumes "bp_inv NK vk T (view s) t h" "caps_ok kb T" "vk k"
    "inj_on mint {0..Suc h}" "\<forall>j\<in>{0..Suc h}. mint j \<notin> fst ` set (nodes t)"
  shows "\<exists>s' r t' h'. bp_insert NK S s mint T k = Ok (s', T\<lparr>bp_root := r\<rparr>)
    \<and> bp_inv NK vk (T\<lparr>bp_root := r\<rparr>) (view s') t' h'
    \<and> set (keys_of (flat t')) = insert k (set (keys_of (flat t)))
    \<and> fst ` set (nodes t) \<subseteq> fst ` set (nodes t') \<and> fst ` set (nodes t') \<subseteq> fst ` set (nodes t) \<union> mint ` {0..Suc h}
    \<and> (\<forall>x. x \<notin> (\<lambda>i. to_id i (bp_tenant T)) ` fst ` set (nodes t') \<longrightarrow> view s' x = view s x)
    \<and> h' \<le> Suc h"
proof -
  obtain ws r t' h' where
    P: "plan_insert NK S s mint T k = Ok (ws, T\<lparr>bp_root := r\<rparr>)"
      "bp_inv NK vk (T\<lparr>bp_root := r\<rparr>) (batch_effect ws (view s)) t' h'"
      "set (keys_of (flat t')) = insert k (set (keys_of (flat t)))"
      "fst ` set (nodes t) \<subseteq> fst ` set (nodes t')" "fst ` set (nodes t') \<subseteq> fst ` set (nodes t) \<union> mint ` {0..Suc h}"
      "touches T (fst ` set (nodes t')) ws" "h' \<le> Suc h"
    using plan_insert_correct [OF assms] by (elim exE conjE) (rule that; assumption)
  obtain s' where s': "apply_batch S s ws = Ok s'" "view s' = batch_effect ws (view s)"
    using apply_commit [OF touches_no_conflict [OF P(6)]] by blast
  have "bp_insert NK S s mint T k = Ok (s', T\<lparr>bp_root := r\<rparr>)" using P(1) s'(1) by (simp add: bp_insert_def)
  moreover have "\<forall>x. x \<notin> (\<lambda>i. to_id i (bp_tenant T)) ` fst ` set (nodes t') \<longrightarrow> view s' x = view s x"
    using touches_frame [OF P(6)] s'(2) by simp
  moreover have "bp_inv NK vk (T\<lparr>bp_root := r\<rparr>) (view s') t' h'" using P(2) s'(2) by simp
  ultimately show ?thesis using P(3-5, 7) by (intro exI conjI) assumption+
qed

lemma bp_remove_correct:
  assumes "bp_inv NK vk T (view s) t h" "caps_ok kb T"
  shows "\<exists>s' r t' h'. bp_remove NK S s T k = Ok (s', T\<lparr>bp_root := r\<rparr>, k \<in> set (keys_of (flat t)))
    \<and> bp_inv NK vk (T\<lparr>bp_root := r\<rparr>) (view s') t' h'
    \<and> keys_of (flat t') = removeAll k (keys_of (flat t))
    \<and> fst ` set (nodes t') \<subseteq> fst ` set (nodes t)
    \<and> (\<forall>i\<in>fst ` set (nodes t). i \<notin> fst ` set (nodes t') \<longrightarrow> view s' (to_id i (bp_tenant T)) = None)
    \<and> (\<forall>x. x \<notin> (\<lambda>i. to_id i (bp_tenant T)) ` fst ` set (nodes t) \<longrightarrow> view s' x = view s x)
    \<and> h' \<le> h"
proof (cases "k \<in> set (keys_of (flat t))")
  case False
  then have "plan_remove NK S s T k = Ok None" using plan_remove_correct [OF assms, of k] by simp
  with False assms(1) show ?thesis
    by (intro exI [of _ s] exI [of _ "bp_root T"] exI [of _ t] exI [of _ h]) (simp add: bp_remove_def)
next
  case True
  then obtain ws T' where P: "plan_remove NK S s T k = Ok (Some (ws, T'))"
    "settled T (fst ` set (nodes t)) (view s) (removeAll k (keys_of (flat t))) h ws T'"
    using plan_remove_correct [OF assms, of k] by auto
  from P(2) obtain r t' h' where
    Q: "T' = T\<lparr>bp_root := r\<rparr>" "bp_inv NK vk T' (batch_effect ws (view s)) t' h'"
      "keys_of (flat t') = removeAll k (keys_of (flat t))" "fst ` set (nodes t') \<subseteq> fst ` set (nodes t)"
      "touches T (fst ` set (nodes t)) ws" "cleared T (fst ` set (nodes t)) (batch_effect ws (view s)) (nodes t')"
      "h' \<le> h"
    unfolding settled_def by (elim exE conjE) (rule that; assumption)
  obtain s' where s': "apply_batch S s ws = Ok s'" "view s' = batch_effect ws (view s)"
    using apply_commit [OF touches_no_conflict [OF Q(5)]] by blast
  have "bp_remove NK S s T k = Ok (s', T\<lparr>bp_root := r\<rparr>, k \<in> set (keys_of (flat t)))"
    using P(1) s'(1) Q(1) True by (simp add: bp_remove_def)
  moreover have "\<forall>x. x \<notin> (\<lambda>i. to_id i (bp_tenant T)) ` fst ` set (nodes t) \<longrightarrow> view s' x = view s x"
    using touches_frame [OF Q(5)] s'(2) by simp
  moreover have "bp_inv NK vk (T\<lparr>bp_root := r\<rparr>) (view s') t' h'" using Q(1, 2) s'(2) by simp
  moreover have "\<forall>i\<in>fst ` set (nodes t). i \<notin> fst ` set (nodes t') \<longrightarrow> view s' (to_id i (bp_tenant T)) = None"
    using Q(6) s'(2) by (simp add: cleared_def)
  ultimately show ?thesis using Q(3, 4, 7) by (intro exI conjI) assumption+
qed

end

end
