(* ===== verification/Bp_Query.thy ===== *)
theory Bp_Query
  imports Bp_Delete
begin

text \<open>
  Reading a B+tree: the search walk returns exactly the matching keys in ascending order whatever it
  prunes, and the rightmost descent the largest key.  A created tree is empty.  The laws of the tree
  are then instantiated for the primary index over the in-memory store and for secondary indexes over
  the browser's object store.
\<close>

section \<open>The keys below a node\<close>

lemma keys_of_weave:
  "length xs = Suc (length ss) \<Longrightarrow> keys_of (weave xs ss) = concat (map keys_of xs)"
proof (induction ss arbitrary: xs)
  case Nil
  then obtain x where "xs = [x]" by (cases xs) auto
  then show ?case by simp
next
  case (Cons a ss)
  then obtain x xs' where "xs = x # xs'" "xs' \<noteq> []" by (cases xs; cases "tl xs") auto
  with Cons show ?case by simp
qed

lemma keys_of_node:
  "length ts = Suc (length ss) \<Longrightarrow> keys_of (flat (N i ts ss)) = concat (map (\<lambda>t. keys_of (flat t)) ts)"
  using keys_of_weave [of "map flat ts" ss] by (simp add: comp_def)

lemma sorted_keys: "sorted_wrt (<) xs \<Longrightarrow> sorted_wrt (<) (keys_of xs :: 'k::linorder list)"
proof -
  assume "sorted_wrt (<) xs"
  then have "sorted_wrt (<) (filter snd xs)" by (rule sorted_wrt_filter)
  then have "sorted_wrt (\<lambda>x y. fst x < fst y) (filter snd xs)"
    by (rule sorted_wrt_mono_rel [rotated]) (auto simp: less_prod_simp)
  then show ?thesis by (simp add: keys_of_def sorted_wrt_map)
qed

lemma flat_around:
  assumes "length ts = Suc (length ss)" "j < length ts"
  shows "flat (N i ts ss) = wpre (take j ts) (take j ss) @ flat (ts ! j) @ wpost (drop j ss) (drop (Suc j) ts)"
proof -
  have "weave (map flat (take j ts @ ts ! j # drop (Suc j) ts)) (take j ss @ drop j ss) =
      wpre (take j ts) (take j ss) @ flat (ts ! j) @ wpost (drop j ss) (drop (Suc j) ts)"
    by (rule weave_around) (use assms in simp)
  then show ?thesis unfolding append_take_drop_id id_take_nth_drop [OF assms(2), symmetric] by simp
qed

text \<open>The keys below child \<open>j\<close> lie between the separators around it.\<close>

lemma child_window:
  assumes "length ts = Suc (length ss)" "sorted_wrt (<) (flat (N i ts ss))" "j < length ts"
    "k \<in> set (keys_of (flat (ts ! j)))"
  shows "in_window (if j = 0 then None else Some (ss ! (j - 1))) (if j < length ss then Some (ss ! j) else None) k"
proof -
  have "sorted_wrt (<) (wpre (take j ts) (take j ss) @ flat (ts ! j) @ wpost (drop j ss) (drop (Suc j) ts))"
    using assms(2) unfolding flat_around [OF assms(1, 3)] .
  moreover have k: "(k, True) \<in> set (flat (ts ! j))" using assms(4) by (simp add: set_keys_of)
  ultimately have bnd: "\<forall>x\<in>set (wpre (take j ts) (take j ss)). x < (k, True)"
    "\<forall>x\<in>set (wpost (drop j ss) (drop (Suc j) ts)). (k, True) < x"
    by (auto simp: sorted_wrt_append)
  have "ss ! (j - 1) \<le> k" if j: "j \<noteq> 0"
  proof -
    have "(ts ! (j - 1), ss ! (j - 1)) \<in> set (zip (take j ts) (take j ss))"
      using assms(1, 3) j by (auto simp: set_zip intro!: exI [of _ "j - 1"])
    then have "(ss ! (j - 1), False) \<in> set (wpre (take j ts) (take j ss))" by (force simp: wpre_def)
    with bnd(1) have "(ss ! (j - 1), False) < (k, True)" by blast
    then show ?thesis by (auto simp: less_prod_simp)
  qed
  moreover have "k < ss ! j" if j: "j < length ss"
  proof -
    have "drop j ss = ss ! j # drop (Suc j) ss" using j by (simp add: Cons_nth_drop_Suc)
    moreover obtain t us where "drop (Suc j) ts = t # us" using j assms(1) by (cases "drop (Suc j) ts") auto
    ultimately have "(ss ! j, False) \<in> set (wpost (drop j ss) (drop (Suc j) ts))" by simp
    with bnd(2) have "(k, True) < (ss ! j, False)" by blast
    then show ?thesis by (auto simp: less_prod_simp)
  qed
  ultimately show ?thesis by (auto simp: in_window_def)
qed

section \<open>Search\<close>

definition kept :: "(nat \<Rightarrow> bool) \<Rightarrow> nat \<Rightarrow> 'a list \<Rightarrow> 'a list" where
  "kept keep n xs = map snd (filter (keep \<circ> fst) (enumerate n xs))"

lemma kept_simps [simp]:
  "kept keep n [] = []"
  "kept keep n (x # xs) = (if keep n then x # kept keep (Suc n) xs else kept keep (Suc n) xs)"
  by (simp_all add: kept_def)

lemma kept_map: "kept keep n (map f xs) = map f (kept keep n xs)"
  by (induction xs arbitrary: n) simp_all

lemma kept_subset: "set (kept keep n xs) \<subseteq> set xs"
  by (induction xs arbitrary: n) (simp_all add: subset_insertI2)

lemma kept_concat:
  assumes "\<And>j. j < length xs \<Longrightarrow> \<not> keep (n + j) \<Longrightarrow> f (xs ! j) = []"
  shows "concat (map f (kept keep n xs)) = concat (map f xs)"
  using assms
proof (induction xs arbitrary: n)
  case (Cons x xs)
  have "f x = []" if "\<not> keep n" using Cons.prems [of 0] that by simp
  moreover have "concat (map f (kept keep (Suc n) xs)) = concat (map f xs)"
    by (rule Cons.IH) (use Cons.prems [of "Suc _"] in simp)
  ultimately show ?case by simp
qed simp

lemma fold_kept:
  "fold (\<lambda>(i, c) ns. if keep (i + 1) then c # ns else ns) (rev (enumerate n xs)) ns = kept keep (Suc n) xs @ ns"
  unfolding foldr_conv_fold [symmetric] by (induction xs arbitrary: n) simp_all

lemma expand_children_kept:
  "expand_children NK bnd ns lm es = kept (\<lambda>i. may_intersect NK bnd
     (if i = 0 then None else Some (fst (es ! (i - 1)))) (if i < length es then Some (fst (es ! i)) else None))
     0 (lm # map snd es) @ ns"
  by (simp only: expand_children_def Let_def fold_kept) simp

context bp_store
begin

lemma search_walk_tree:
  assumes "shaped h t" "sorted_wrt (<) (flat t)" "heap NK T (view s) (nodes t)" "every (node_good vk T) (nodes t)"
    "caps_ok kb T"
  shows "search_walk NK S s (bp_tenant T) bnd (root_id t # rest) =
    Option.bind (search_walk NK S s (bp_tenant T) bnd rest)
      (\<lambda>out. Some (map Inr (filter (\<lambda>k. key_matches NK k bnd) (keys_of (flat t))) @ out))"
  using assms
proof (induction h arbitrary: t rest)
  case 0
  then obtain i ks where t: "t = L i ks" by (cases t) auto
  have "node_from_bytes NK (node_to_bytes NK (Leaf ks)) = Ok (Leaf ks)"
    by (rule node_roundtrip) (use 0 t in \<open>auto simp: node_good_def\<close>)
  then show ?case using 0 t by (subst search_walk.simps) (simp add: get_view)
next
  case (Suc h)
  then obtain i ts ss where t: "t = N i ts ss" by (cases t) auto
  have len: "length ts = Suc (length ss)" and sh: "list_all (shaped h) ts" using Suc.prems(1) t by auto
  let ?mt = "\<lambda>t. filter (\<lambda>k. key_matches NK k bnd) (keys_of (flat t))"
  let ?es = "zip ss (map root_id (tl ts))"
  let ?keep = "\<lambda>i. may_intersect NK bnd (if i = 0 then None else Some (fst (?es ! (i - 1))))
     (if i < length ?es then Some (fst (?es ! i)) else None)"
  have les: "length ?es = length ss" "\<And>i. i < length ss \<Longrightarrow> fst (?es ! i) = ss ! i" using len by simp_all
  have ids: "root_id (hd ts) # map snd ?es = map root_id ts" using len by (cases ts) simp_all
  have node: "node_from_bytes NK (node_to_bytes NK (body_of t)) = Ok (body_of t)"
    by (rule node_roundtrip) (use Suc.prems t in \<open>auto simp: node_good_def\<close>)
  have below: "search_walk NK S s (bp_tenant T) bnd (map root_id us @ rest) =
      Option.bind (search_walk NK S s (bp_tenant T) bnd rest) (\<lambda>out. Some (map Inr (concat (map ?mt us)) @ out))"
    if "set us \<subseteq> set ts" for us
    using that
  proof (induction us)
    case (Cons u us)
    obtain j where j: "j < length ts" "ts ! j = u" using Cons.prems by (metis in_set_conv_nth list.set_intros(1) subset_iff)
    have sub: "set (nodes u) \<subseteq> set (nodes t)" using Cons.prems t by auto
    have "sorted_wrt (<) (flat u)"
      using Suc.prems(2) unfolding t flat_around [OF len j(1)] j(2) by (simp add: sorted_wrt_append)
    then have "search_walk NK S s (bp_tenant T) bnd (root_id u # map root_id us @ rest) =
        Option.bind (search_walk NK S s (bp_tenant T) bnd (map root_id us @ rest)) (\<lambda>out. Some (map Inr (?mt u) @ out))"
      using Suc.prems(5) sh Cons.prems
      by (intro Suc.IH heap_mono [OF Suc.prems(3) sub] every_mono [OF Suc.prems(4) sub]) (auto simp: list_all_iff)
    then show ?case using Cons by (simp add: bind_assoc)
  qed simp
  have pruned: "?mt (ts ! j) = []" if "j < length ts" "\<not> ?keep (0 + j)" for j
  proof -
    have "\<not> key_matches NK k bnd" if "k \<in> set (keys_of (flat (ts ! j)))" for k
    proof
      assume "key_matches NK k bnd"
      with child_window [OF len _ \<open>j < length ts\<close> that] Suc.prems(2) t have window:
        "may_intersect NK bnd (if j = 0 then None else Some (ss ! (j - 1))) (if j < length ss then Some (ss ! j) else None)"
        using prune_safe by blast
      have eq: "?keep j = may_intersect NK bnd (if j = 0 then None else Some (ss ! (j - 1))) (if j < length ss then Some (ss ! j) else None)"
        using les \<open>j < length ts\<close> len by (cases j) (auto simp del: zip_eq_Nil_iff)
      have "?keep (0 + j)" unfolding add_0 eq by (rule window)
      with \<open>\<not> ?keep (0 + j)\<close> show False by contradiction
    qed
    then show ?thesis by simp
  qed
  have exp: "expand_children NK bnd rest (root_id (hd ts)) ?es = map root_id (kept ?keep 0 ts) @ rest"
    unfolding expand_children_kept ids kept_map ..
  have "search_walk NK S s (bp_tenant T) bnd (root_id t # rest) =
      search_walk NK S s (bp_tenant T) bnd (map root_id (kept ?keep 0 ts) @ rest)"
    using Suc.prems(3) t node exp by (subst search_walk.simps) (simp add: get_view)
  also have "\<dots> = Option.bind (search_walk NK S s (bp_tenant T) bnd rest)
      (\<lambda>out. Some (map Inr (concat (map ?mt (kept ?keep 0 ts))) @ out))"
    by (rule below [OF kept_subset])
  also have "concat (map ?mt (kept ?keep 0 ts)) = concat (map ?mt ts)"
    by (rule kept_concat) (rule pruned)
  also have "concat (map ?mt ts) = ?mt t"
    unfolding t keys_of_node [OF len] by (simp add: filter_concat comp_def)
  finally show ?case .
qed

lemma search_correct:
  assumes "bp_inv NK vk T (view s) t h" "caps_ok kb T"
  shows "search_keys NK S s T bnd = Some (map Inr (filter (\<lambda>k. key_matches NK k bnd) (keys_of (flat t))))"
proof -
  have inv: "shaped h t" "sorted_wrt (<) (flat t)" "heap NK T (view s) (nodes t)" "every (node_good vk T) (nodes t)"
    "root_id t = bp_root T"
    using assms(1) by (auto simp: bp_inv_def wf_bpt_def)
  have "search_walk NK S s (bp_tenant T) bnd [] = Some []" by (subst search_walk.simps) simp
  then show ?thesis
    using search_walk_tree [OF inv(1-4) assms(2), of bnd "[]"] inv(5) by (simp add: search_keys_def)
qed

section \<open>The largest key\<close>

lemma filled_has_keys:
  assumes "shaped h t" "filled T (nodes t)" "caps_ok kb T"
  shows "keys_of (flat t) \<noteq> []"
  using assms
proof (induction h arbitrary: t)
  case 0
  then show ?case by (cases t) (auto simp: is_underfull_def caps_ok_def)
next
  case (Suc h)
  then obtain i c ts ss where t: "t = N i (c # ts) ss" by (cases t; cases "case t of N _ ts _ \<Rightarrow> ts") auto
  have "keys_of (flat c) \<noteq> []" by (rule Suc.IH) (use Suc.prems t in auto)
  then show ?case using Suc.prems(1) t keys_of_node [of "c # ts" ss i] by simp
qed

lemma max_key_loop_tree:
  assumes "shaped h t" "heap NK T (view s) (nodes t)" "every (node_good vk T) (nodes t)" "filled T (below t)"
    "caps_ok kb T"
  shows "max_key_loop NK S s T (root_id t) =
    Ok (if keys_of (flat t) = [] then None else Some (last (keys_of (flat t))))"
  using assms
proof (induction h arbitrary: t)
  case 0
  then obtain i ks where t: "t = L i ks" by (cases t) auto
  have "load_node NK S s T i = Ok (Leaf ks)" using 0 t by (intro load_at) auto
  then show ?case using t by (subst max_key_loop.simps) simp
next
  case (Suc h)
  then obtain i ts ss where t: "t = N i ts ss" by (cases t) auto
  have len: "length ts = Suc (length ss)" and sh: "list_all (shaped h) ts" using Suc.prems(1) t by auto
  then have ne: "ts \<noteq> []" by auto
  let ?c = "last ts"
  have c: "?c \<in> set ts" using ne by simp
  have ld: "load_node NK S s T i = Ok (body_of t)" using Suc.prems t by (intro load_at) auto
  have ss: "ss \<noteq> []" using Suc.prems(3) t len by (cases ss; cases ts) (auto simp: node_good_def)
  then have entne: "zip ss (map root_id (tl ts)) \<noteq> []" using len by (cases ts; cases ss; cases "tl ts") auto
  have lst: "snd (last (zip ss (map root_id (tl ts)))) = root_id ?c"
    using len ss by (cases ts rule: rev_exhaust; cases ss rule: rev_exhaust)
      (auto simp: tl_append split: list.splits)
  have "filled T (nodes ?c)" by (rule every_mono [OF Suc.prems(4)]) (use c t in auto)
  then have fc: "filled T (below ?c)" "keys_of (flat ?c) \<noteq> []"
    using filled_has_keys [of h ?c T] sh c Suc.prems(5) by (auto simp: nodes_eq list_all_iff)
  have sub: "set (nodes ?c) \<subseteq> set (nodes t)" using c t by auto
  have "max_key_loop NK S s T (root_id ?c) = Ok (Some (last (keys_of (flat ?c))))"
    using Suc.IH [of ?c] heap_mono [OF Suc.prems(2) sub] every_mono [OF Suc.prems(3) sub] fc sh c Suc.prems(5)
    by (simp add: list_all_iff)
  moreover have "max_key_loop NK S s T i = max_key_loop NK S s T (root_id ?c)"
    using ld t lst entne by (subst max_key_loop.simps) simp
  moreover have "keys_of (flat t) = concat (map (\<lambda>t. keys_of (flat t)) (butlast ts)) @ keys_of (flat ?c)"
    unfolding t keys_of_node [OF len]
    by (subst append_butlast_last_id [OF ne, symmetric]) (simp only: map_append concat_append, simp)
  ultimately show ?case using t fc(2) by simp
qed

lemma max_key_correct:
  assumes "bp_inv NK vk T (view s) t h" "caps_ok kb T"
  shows "max_key NK S s T = Ok (if keys_of (flat t) = [] then None else Some (last (keys_of (flat t))))"
  using max_key_loop_tree [of h t T s] assms by (simp add: bp_inv_def wf_bpt_def max_key_def)

section \<open>Creation\<close>

lemma create_correct:
  assumes "caps_ok kb (bp_at (mint 0) tenant)"
  shows "\<exists>s'. bp_create NK S s tenant mint = Ok (s', bp_at (mint 0) tenant)
    \<and> bp_inv NK vk (bp_at (mint 0) tenant) (view s') (L (mint 0) []) 0"
proof -
  obtain w where w: "plan_create NK tenant mint = (bp_at (mint 0) tenant, w)" "first_conflict [w] (view s) = None"
    by (simp add: plan_create_def Let_def put_node_def)
  obtain s' where s': "apply_batch S s [w] = Ok s'" "view s' = batch_effect [w] (view s)"
    using apply_commit [OF w(2)] by blast
  have "bp_inv NK vk (bp_at (mint 0) tenant) (batch_effect [w] (view s)) (L (mint 0) []) 0"
    using w(1) assms
    by (auto simp: plan_create_def Let_def bp_inv_def wf_bpt_def node_good_def bp_at_def caps_ok_def put_node_def heap_def)
  with w(1) s' show ?thesis by (auto simp: bp_create_def)
qed

section \<open>Sequences of operations\<close>

end

text \<open>A client that inserts and removes keys; operation \<open>j\<close> mints from \<open>mints j\<close>.\<close>

datatype 'k bp_op = Ins 'k | Del 'k

fun bp_run ::
    "'k::linorder node_key \<Rightarrow> 's store \<Rightarrow> (nat \<Rightarrow> nat \<Rightarrow> local_id) \<Rightarrow> nat \<Rightarrow> 'k bp_op list \<Rightarrow> 's \<times> bptree
     \<Rightarrow> ('s \<times> bptree) cres" where
  "bp_run NK S mints j [] (s, T) = Ok (s, T)"
| "bp_run NK S mints j (Ins k # ops) (s, T) =
     try_then (bp_insert NK S s (mints j) T k) (bp_run NK S mints (Suc j) ops)"
| "bp_run NK S mints j (Del k # ops) (s, T) =
     try_then (bp_remove NK S s T k) (\<lambda>(s', T', _). bp_run NK S mints (Suc j) ops (s', T'))"

primrec spec_op :: "'k bp_op \<Rightarrow> 'k set \<Rightarrow> 'k set" where
  "spec_op (Ins k) K = insert k K"
| "spec_op (Del k) K = K - {k}"

primrec op_key :: "'k bp_op \<Rightarrow> 'k" where
  "op_key (Ins k) = k"
| "op_key (Del k) = k"

definition minted_before :: "(nat \<Rightarrow> nat \<Rightarrow> local_id) \<Rightarrow> nat \<Rightarrow> local_id set" where
  "minted_before mints j = {mints i n |i n. i < j \<and> n \<le> i}"

text \<open>A tree of height \<open>h\<close> needs at most \<open>h + 2\<close> ids per insert, and an insert adds at most one level.\<close>

definition distinct_mints :: "(nat \<Rightarrow> nat \<Rightarrow> local_id) \<Rightarrow> nat \<Rightarrow> bool" where
  "distinct_mints mints m \<longleftrightarrow> inj_on (\<lambda>(i, n). mints i n) {(i, n). n \<le> i \<and> i < m}"

lemma distinct_mintsD:
  "distinct_mints mints m \<Longrightarrow> mints a n = mints b k \<Longrightarrow> n \<le> a \<Longrightarrow> a < m \<Longrightarrow> k \<le> b \<Longrightarrow> b < m \<Longrightarrow> a = b \<and> n = k"
  unfolding distinct_mints_def by (drule inj_onD [where x = "(a, n)" and y = "(b, k)"]) auto

lemma minted_before_mono: "minted_before mints j \<subseteq> minted_before mints (Suc j)"
  unfolding minted_before_def using less_SucI by blast

lemma caps_ok_root [simp]: "caps_ok kb (T\<lparr>bp_root := r\<rparr>) = caps_ok kb T"
  by (simp add: caps_ok_def)

context bp_store
begin

lemma bp_run_correct:
  assumes "bp_inv NK vk T (view s) t h" "caps_ok kb T" "fst ` set (nodes t) \<subseteq> minted_before mints j"
    "distinct_mints mints (j + length ops)" "h < j" "\<forall>p\<in>set ops. vk (op_key p)"
  shows "\<exists>s' r t' h'. bp_run NK S mints j ops (s, T) = Ok (s', T\<lparr>bp_root := r\<rparr>)
    \<and> bp_inv NK vk (T\<lparr>bp_root := r\<rparr>) (view s') t' h'
    \<and> set (keys_of (flat t')) = fold spec_op ops (set (keys_of (flat t)))"
  using assms
proof (induction ops arbitrary: T s t h j)
  case Nil
  then show ?case by (intro exI [of _ s] exI [of _ "bp_root T"] exI [of _ t] exI [of _ h]) simp
next
  case (Cons p ops)
  note inj = distinct_mintsD [OF Cons.prems(4)]
  have "\<exists>s' r t' h'. bp_run NK S mints j (p # ops) (s, T) = bp_run NK S mints (Suc j) ops (s', T\<lparr>bp_root := r\<rparr>)
    \<and> bp_inv NK vk (T\<lparr>bp_root := r\<rparr>) (view s') t' h' \<and> set (keys_of (flat t')) = spec_op p (set (keys_of (flat t)))
    \<and> fst ` set (nodes t') \<subseteq> minted_before mints (Suc j) \<and> h' < Suc j"
  proof (cases p)
    case (Ins k)
    have new: "mints j n \<notin> minted_before mints j" if "n \<le> Suc h" for n
      using inj [of j n] that Cons.prems(5) by (fastforce simp: minted_before_def)
    have fresh1: "inj_on (mints j) {0..Suc h}" using inj [of j _ j] Cons.prems(5) by (auto simp: inj_on_def)
    have fresh2: "\<forall>n\<in>{0..Suc h}. mints j n \<notin> fst ` set (nodes t)"
    proof
      fix n assume "n \<in> {0..Suc h}"
      then have "mints j n \<notin> minted_before mints j" by (intro new) simp
      then show "mints j n \<notin> fst ` set (nodes t)" by (rule contra_subsetD [OF Cons.prems(3)])
    qed
    have vk: "vk k" using Cons.prems(6) Ins by simp
    from bp_insert_correct [OF Cons.prems(1, 2) vk fresh1 fresh2] obtain s' r t' h' where
      I: "bp_insert NK S s (mints j) T k = Ok (s', T\<lparr>bp_root := r\<rparr>)"
        "bp_inv NK vk (T\<lparr>bp_root := r\<rparr>) (view s') t' h'" "set (keys_of (flat t')) = insert k (set (keys_of (flat t)))"
        "fst ` set (nodes t') \<subseteq> fst ` set (nodes t) \<union> mints j ` {0..Suc h}" "h' \<le> Suc h"
      by (elim exE conjE) (rule that; assumption)
    have "mints j ` {0..Suc h} \<subseteq> minted_before mints (Suc j)"
    proof (rule image_subsetI)
      fix n assume "n \<in> {0..Suc h}"
      then have "j < Suc j \<and> n \<le> j" using Cons.prems(5) by simp
      then show "mints j n \<in> minted_before mints (Suc j)" unfolding minted_before_def by blast
    qed
    then have "fst ` set (nodes t') \<subseteq> minted_before mints (Suc j)"
      by (intro order_trans [OF I(4)] Un_least order_trans [OF Cons.prems(3) minted_before_mono])
    with I(1-3, 5) Ins Cons.prems(5) show ?thesis
      by (intro exI [of _ s'] exI [of _ r] exI [of _ t'] exI [of _ h']) simp
  next
    case (Del k)
    from bp_remove_correct [OF Cons.prems(1, 2), of k] obtain s' r t' h' where
      R: "bp_remove NK S s T k = Ok (s', T\<lparr>bp_root := r\<rparr>, k \<in> set (keys_of (flat t)))"
        "bp_inv NK vk (T\<lparr>bp_root := r\<rparr>) (view s') t' h'" "keys_of (flat t') = removeAll k (keys_of (flat t))"
        "fst ` set (nodes t') \<subseteq> fst ` set (nodes t)" "h' \<le> h"
      by (elim exE conjE) (rule that; assumption)
    have "fst ` set (nodes t') \<subseteq> minted_before mints (Suc j)"
      by (rule order_trans [OF R(4) order_trans [OF Cons.prems(3) minted_before_mono]])
    with R(1-3, 5) Del Cons.prems(5) show ?thesis
      by (intro exI [of _ s'] exI [of _ r] exI [of _ t'] exI [of _ h']) simp
  qed
  then obtain s' r t' h' where
    st: "bp_run NK S mints j (p # ops) (s, T) = bp_run NK S mints (Suc j) ops (s', T\<lparr>bp_root := r\<rparr>)"
      "bp_inv NK vk (T\<lparr>bp_root := r\<rparr>) (view s') t' h'" "set (keys_of (flat t')) = spec_op p (set (keys_of (flat t)))"
      "fst ` set (nodes t') \<subseteq> minted_before mints (Suc j)" "h' < Suc j"
    by (elim exE conjE) (rule that; assumption)
  from Cons.IH [OF st(2) _ st(4) _ st(5)] Cons.prems(2, 4, 6) show ?case unfolding st(1) by (simp add: st(3))
qed

text \<open>From creation on, every query answers as the finite set of the keys put in and not taken out.\<close>

lemma bp_history:
  assumes "caps_ok kb (bp_at (mints 0 0) tenant)" "distinct_mints mints (1 + length ops)"
    "\<forall>p\<in>set ops. vk (op_key p)"
  shows "\<exists>s0 T s' T'. bp_create NK S s tenant (mints 0) = Ok (s0, T) \<and> bp_run NK S mints 1 ops (s0, T) = Ok (s', T')
    \<and> (\<forall>bnd. search_keys NK S s' T' bnd =
          Some (map Inr (filter (\<lambda>k. key_matches NK k bnd) (sorted_list_of_set (fold spec_op ops {})))))
    \<and> (\<forall>k. bp_contains NK S s' T' k = Ok (k \<in> fold spec_op ops {}))
    \<and> max_key NK S s' T' = Ok (if fold spec_op ops {} = {} then None else Some (Max (fold spec_op ops {})))"
proof -
  let ?T = "bp_at (mints 0 0) tenant"
  obtain s0 where s0: "bp_create NK S s tenant (mints 0) = Ok (s0, ?T)"
    and inv: "bp_inv NK vk ?T (view s0) (L (mints 0 0) []) 0"
    using create_correct [of "mints 0" tenant s, OF assms(1)] by blast
  have "fst ` set (nodes (L (mints 0 0) [])) \<subseteq> minted_before mints 1" by (auto simp: minted_before_def)
  from bp_run_correct [OF inv assms(1) this assms(2) _ assms(3)] obtain s' r t' h' where
    R: "bp_run NK S mints 1 ops (s0, ?T) = Ok (s', ?T\<lparr>bp_root := r\<rparr>)"
      "bp_inv NK vk (?T\<lparr>bp_root := r\<rparr>) (view s') t' h'" "set (keys_of (flat t')) = fold spec_op ops {}"
    by auto
  have caps: "caps_ok kb (?T\<lparr>bp_root := r\<rparr>)" using assms(1) by simp
  let ?ks = "keys_of (flat t')"
  have srt: "sorted_wrt (<) ?ks" using R(2) by (auto simp: bp_inv_def wf_bpt_def intro: sorted_keys)
  then have list: "sorted_list_of_set (fold spec_op ops {}) = ?ks"
    unfolding R(3) [symmetric] by (metis sorted_list_of_set_unique finite_set strict_sorted_iff distinct_card)
  have "Max (set ?ks) = last ?ks" if "?ks \<noteq> []"
    using that srt by (cases ?ks rule: rev_exhaust) (auto simp: sorted_wrt_append less_imp_le intro!: Max_eqI)
  then have mx: "(if fold spec_op ops {} = {} then None else Some (Max (fold spec_op ops {}))) =
      (if ?ks = [] then None else Some (last ?ks))"
    unfolding R(3) [symmetric] by simp
  show ?thesis
    unfolding list mx
    using s0 R(1) search_correct [OF R(2) caps] contains_correct [OF R(2) caps] max_key_correct [OF R(2) caps] R(3)
    by (intro exI [of _ s0] exI [of _ ?T] exI [of _ s'] exI [of _ "?T\<lparr>bp_root := r\<rparr>"]) simp
qed

end

section \<open>The indexes of the system\<close>

interpretation primary: bp_store lid_node_key "\<lambda>_. True" 10 mem_store "\<lambda>m. m"
  by (rule bp_store.intro) (rule nklid.node_key_ok_axioms, rule mem.batch_store_axioms)

interpretation secondary: bp_store sec_node_key valid_sec_key "2 ^ 20 + 14" idb_store "\<lambda>os i. os (idb_key i)"
  by (rule bp_store.intro) (rule nksec.node_key_ok_axioms, rule idb.batch_store_axioms)

text \<open>The default capacities satisfy the size conditions of both key types.\<close>

lemma default_caps: "u48_ok tenant \<Longrightarrow> kb \<le> 2 ^ 20 + 14 \<Longrightarrow> caps_ok kb (bp_at root tenant)"
  by (simp add: caps_ok_def bp_at_def DEFAULT_LEAF_CAP_def DEFAULT_INTERNAL_CAP_def)

text \<open>A small tree for the examples below: one full leaf, capacities 4.\<close>

definition small_mints :: "nat \<Rightarrow> nat \<Rightarrow> local_id" where
  "small_mints i n = LocalId (of_nat i) (of_nat n)"

definition small_bpt :: "local_id bpt" where
  "small_bpt = L (LocalId 0 0) [LocalId 1 0, LocalId 2 0, LocalId 3 0, LocalId 4 0]"

definition small_tree :: bptree where
  "small_tree = with_caps 4 4 (bp_at (LocalId 0 0) (U48 7))"

definition small_store :: kv where
  "small_store = [to_id (LocalId 0 0) (U48 7) \<mapsto> node_to_bytes lid_node_key (body_of small_bpt)]"

lemma small_mints_distinct: "m \<le> 2 ^ 16 \<Longrightarrow> distinct_mints small_mints m"
  by (auto simp: distinct_mints_def inj_on_def small_mints_def of_nat_word_eq)

lemma small_caps: "caps_ok 10 small_tree"
  by (simp add: caps_ok_def small_tree_def with_caps_def bp_at_def u48_ok_def U48_MASK_def)

lemma small_inv: "bp_inv lid_node_key (\<lambda>_. True) small_tree small_store small_bpt 0"
  by (simp add: bp_inv_def wf_bpt_def small_bpt_def small_tree_def small_store_def with_caps_def bp_at_def
      node_good_def less_local_id_def)

section \<open>Properties\<close>

text \<open>C8: An index is a finite set of keys.  For every lawful key type and every lawful store: create a
  tree, run any sequence of inserts and removals with fresh node ids, and every operation succeeds;
  afterwards each search returns exactly the keys put in and not taken out that match the bound, in
  ascending order, \<open>contains\<close> is membership and \<open>max_key\<close> the greatest key.\<close>

theorem bptree_refines_set:
  assumes "bp_store NK vk kb S view" "caps_ok kb (bp_at (mints 0 0) tenant)"
    "distinct_mints mints (1 + length ops)" "\<forall>p\<in>set ops. vk (op_key p)"
  shows "\<exists>s0 T s' T'. bp_create NK S s tenant (mints 0) = Ok (s0, T) \<and> bp_run NK S mints 1 ops (s0, T) = Ok (s', T')
    \<and> (\<forall>bnd. search_keys NK S s' T' bnd =
          Some (map Inr (filter (\<lambda>k. key_matches NK k bnd) (sorted_list_of_set (fold spec_op ops {})))))
    \<and> (\<forall>k. bp_contains NK S s' T' k = Ok (k \<in> fold spec_op ops {}))
    \<and> max_key NK S s' T' = Ok (if fold spec_op ops {} = {} then None else Some (Max (fold spec_op ops {})))"
  by (rule bp_store.bp_history [OF assms])

theorem bptree_refines_set_witness:
  "\<exists>s0 T s' T'. bp_create lid_node_key mem_store Map.empty (U48 7) (small_mints 0) = Ok (s0, T)
    \<and> bp_run lid_node_key mem_store small_mints 1 [Ins (LocalId 5 0), Ins (LocalId 3 1), Del (LocalId 5 0)] (s0, T) = Ok (s', T')
    \<and> search_keys lid_node_key mem_store s' T' All = Some [Inr (LocalId 3 1)]
    \<and> bp_contains lid_node_key mem_store s' T' (LocalId 3 1) = Ok True
    \<and> max_key lid_node_key mem_store s' T' = Ok (Some (LocalId 3 1))"
proof -
  let ?ops = "[Ins (LocalId 5 0), Ins (LocalId 3 1), Del (LocalId 5 0)]"
  have K: "fold spec_op ?ops {} = {LocalId 3 1}" by auto
  have caps: "caps_ok 10 (bp_at (small_mints 0 0) (U48 7))" by (rule default_caps) (simp_all add: u48_ok_def U48_MASK_def)
  have fresh: "distinct_mints small_mints (1 + length ?ops)" by (rule small_mints_distinct) simp
  have m: "key_matches lid_node_key (LocalId 3 1) All" by (simp add: lid_node_key_def lid_matches_def)
  have keys: "\<forall>p\<in>set ?ops. True" by simp
  obtain s0 T s' T' where run: "bp_create lid_node_key mem_store Map.empty (U48 7) (small_mints 0) = Ok (s0, T)"
    "bp_run lid_node_key mem_store small_mints 1 ?ops (s0, T) = Ok (s', T')"
    and srch: "\<forall>bnd. search_keys lid_node_key mem_store s' T' bnd =
      Some (map Inr (filter (\<lambda>k. key_matches lid_node_key k bnd) (sorted_list_of_set {LocalId 3 1})))"
    and cont: "\<forall>k. bp_contains lid_node_key mem_store s' T' k = Ok (k \<in> {LocalId 3 1})"
    and mx: "max_key lid_node_key mem_store s' T' = Ok (if {LocalId 3 1} = {} then None else Some (Max {LocalId 3 1}))"
    using bptree_refines_set [OF primary.bp_store_axioms caps fresh keys, of Map.empty] unfolding K by blast
  have "search_keys lid_node_key mem_store s' T' All = Some [Inr (LocalId 3 1)]"
    "bp_contains lid_node_key mem_store s' T' (LocalId 3 1) = Ok True"
    "max_key lid_node_key mem_store s' T' = Ok (Some (LocalId 3 1))"
    using srch [THEN spec, of All] cont [THEN spec, of "LocalId 3 1"] mx m by simp_all
  with run show ?thesis by blast
qed

text \<open>C10: Inserting into a well-formed tree succeeds, adds exactly the key, leaves a well-formed tree (leaf and
  internal splits and a new root included) and changes nothing else in the store.\<close>

theorem insert_keeps_bptree:
  assumes "bp_store NK vk kb S view" "bp_inv NK vk T (view s) t h" "caps_ok kb T" "vk k"
    "inj_on mint {0..Suc h}" "\<forall>j\<in>{0..Suc h}. mint j \<notin> fst ` set (nodes t)"
  shows "\<exists>s' r t' h'. bp_insert NK S s mint T k = Ok (s', T\<lparr>bp_root := r\<rparr>)
    \<and> bp_inv NK vk (T\<lparr>bp_root := r\<rparr>) (view s') t' h'
    \<and> set (keys_of (flat t')) = insert k (set (keys_of (flat t)))
    \<and> (\<forall>x. x \<notin> (\<lambda>i. to_id i (bp_tenant T)) ` fst ` set (nodes t') \<longrightarrow> view s' x = view s x)"
  using bp_store.bp_insert_correct [OF assms] by (elim exE conjE) (intro exI conjI; assumption)

theorem insert_keeps_bptree_witness:
  "\<exists>s' r t' h'. bp_insert lid_node_key mem_store small_store (small_mints 1) small_tree (LocalId 9 0) = Ok (s', small_tree\<lparr>bp_root := r\<rparr>)
    \<and> bp_inv lid_node_key (\<lambda>_. True) (small_tree\<lparr>bp_root := r\<rparr>) s' t' h'
    \<and> set (keys_of (flat t')) = {LocalId 1 0, LocalId 2 0, LocalId 3 0, LocalId 4 0, LocalId 9 0}"
proof -
  have "inj_on (small_mints 1) {0..Suc 0}" "\<forall>j\<in>{0..Suc 0}. small_mints 1 j \<notin> fst ` set (nodes small_bpt)"
    by (auto simp: small_mints_def small_bpt_def inj_on_def less_Suc_eq_le le_Suc_eq)
  then obtain s' r t' h' where
    "bp_insert lid_node_key mem_store small_store (small_mints 1) small_tree (LocalId 9 0) = Ok (s', small_tree\<lparr>bp_root := r\<rparr>)"
    "bp_inv lid_node_key (\<lambda>_. True) (small_tree\<lparr>bp_root := r\<rparr>) s' t' h'"
    "set (keys_of (flat t')) = insert (LocalId 9 0) (set (keys_of (flat small_bpt)))"
    using insert_keeps_bptree [OF primary.bp_store_axioms, OF small_inv small_caps TrueI, of "small_mints 1" "LocalId 9 0"]
    by blast
  moreover have "insert (LocalId 9 0) (set (keys_of (flat small_bpt))) =
      {LocalId 1 0, LocalId 2 0, LocalId 3 0, LocalId 4 0, LocalId 9 0}"
    by (auto simp: small_bpt_def)
  ultimately show ?thesis by metis
qed

text \<open>C9: Removing from a well-formed tree succeeds, reports whether the key was present, takes out exactly
  the key, leaves a well-formed tree (merges, redistributions and root collapses included), deletes from
  the store every node that left the tree and changes nothing outside the tree's nodes.\<close>

theorem remove_keeps_bptree:
  assumes "bp_store NK vk kb S view" "bp_inv NK vk T (view s) t h" "caps_ok kb T"
  shows "\<exists>s' r t' h'. bp_remove NK S s T k = Ok (s', T\<lparr>bp_root := r\<rparr>, k \<in> set (keys_of (flat t)))
    \<and> bp_inv NK vk (T\<lparr>bp_root := r\<rparr>) (view s') t' h'
    \<and> keys_of (flat t') = removeAll k (keys_of (flat t))
    \<and> (\<forall>i\<in>fst ` set (nodes t). i \<notin> fst ` set (nodes t') \<longrightarrow> view s' (to_id i (bp_tenant T)) = None)
    \<and> (\<forall>x. x \<notin> (\<lambda>i. to_id i (bp_tenant T)) ` fst ` set (nodes t) \<longrightarrow> view s' x = view s x)"
  using bp_store.bp_remove_correct [OF assms, of k] by (elim exE conjE) (intro exI conjI; assumption)

theorem remove_keeps_bptree_witness:
  "\<exists>s' r t' h'. bp_remove lid_node_key mem_store small_store small_tree (LocalId 2 0) = Ok (s', small_tree\<lparr>bp_root := r\<rparr>, True)
    \<and> bp_inv lid_node_key (\<lambda>_. True) (small_tree\<lparr>bp_root := r\<rparr>) s' t' h'
    \<and> keys_of (flat t') = [LocalId 1 0, LocalId 3 0, LocalId 4 0]"
proof -
  have ks: "keys_of (flat small_bpt) = [LocalId 1 0, LocalId 2 0, LocalId 3 0, LocalId 4 0]" by (simp add: small_bpt_def)
  obtain s' r t' h' where
    "bp_remove lid_node_key mem_store small_store small_tree (LocalId 2 0) =
      Ok (s', small_tree\<lparr>bp_root := r\<rparr>, LocalId 2 0 \<in> set (keys_of (flat small_bpt)))"
    "bp_inv lid_node_key (\<lambda>_. True) (small_tree\<lparr>bp_root := r\<rparr>) s' t' h'"
    "keys_of (flat t') = removeAll (LocalId 2 0) (keys_of (flat small_bpt))"
    using remove_keeps_bptree [OF primary.bp_store_axioms, OF small_inv small_caps, of "LocalId 2 0"] by blast
  then have "bp_remove lid_node_key mem_store small_store small_tree (LocalId 2 0) = Ok (s', small_tree\<lparr>bp_root := r\<rparr>, True)"
    "bp_inv lid_node_key (\<lambda>_. True) (small_tree\<lparr>bp_root := r\<rparr>) s' t' h'"
    "keys_of (flat t') = [LocalId 1 0, LocalId 3 0, LocalId 4 0]"
    by (simp_all add: ks)
  then show ?thesis by blast
qed

text \<open>C11: A search yields, without error items, the record ids of exactly the stored keys that satisfy the
  bound, in key order; pruned subtrees lose nothing.\<close>

theorem search_exact:
  assumes "bp_store NK vk kb S view" "bp_inv NK vk T (view s) t h" "caps_ok kb T"
  shows "bp_search NK S s T bnd =
    Some (map (\<lambda>k. Inr (to_id (key_record NK k) (bp_tenant T))) (filter (\<lambda>k. key_matches NK k bnd) (keys_of (flat t))))"
  using bp_store.search_correct [OF assms, of bnd] by (simp add: bp_search_def comp_def)

theorem search_exact_witness:
  "bp_search lid_node_key mem_store small_store small_tree (Range (to_be_bytes 8 (2 :: u64)) (to_be_bytes 8 (4 :: u64))) =
    Some [Inr (to_id (LocalId 2 0) (U48 7)), Inr (to_id (LocalId 3 0) (U48 7))]"
proof -
  have "to_be_bytes 8 (a :: u64) < to_be_bytes 8 b \<longleftrightarrow> a < b" "to_be_bytes 8 (a :: u64) \<le> to_be_bytes 8 b \<longleftrightarrow> a \<le> b" for a b
    using ik64.enc_less_iff [of a b] ik64.enc_less_iff [of b a] by (simp_all add: key_unsigned_def flip: not_less)
  moreover have "\<not> (2 :: u64) \<le> 1" by (simp add: word_le_nat_alt)
  ultimately show ?thesis
    using search_exact [OF primary.bp_store_axioms, OF small_inv small_caps, of "Range (to_be_bytes 8 (2 :: u64)) (to_be_bytes 8 (4 :: u64))"]
    by (simp add: small_bpt_def small_tree_def with_caps_def bp_at_def lid_node_key_def lid_matches_def)
qed

text \<open>C34: Any byte string decodes to a node or an error, and a node within capacity decodes from its own
  image to itself.\<close>

theorem node_image_total_roundtrip:
  assumes "node_key_ok NK vk kb"
  shows "returns (node_from_bytes NK bytes)
    \<and> (list_all vk (body_keys b) \<and> within_cap T b \<and> caps_ok kb T \<longrightarrow> node_from_bytes NK (node_to_bytes NK b) = Ok b)"
  using node_key_ok.node_from_bytes_returns [OF assms] node_key_ok.node_roundtrip [OF assms] by blast

theorem node_image_total_roundtrip_witness:
  "node_from_bytes sec_node_key (node_to_bytes sec_node_key (Internal (LocalId 1 0) [(SecKey [7] (LocalId 2 0), LocalId 3 0)]))
    = Ok (Internal (LocalId 1 0) [(SecKey [7] (LocalId 2 0), LocalId 3 0)])"
  using node_image_total_roundtrip [OF nksec.node_key_ok_axioms, of "[]" "Internal (LocalId 1 0) [(SecKey [7] (LocalId 2 0), LocalId 3 0)]"
      "bp_at (LocalId 1 0) (U48 7)"] default_caps [of "U48 7" "2 ^ 20 + 14" "LocalId 1 0"]
  by (simp add: valid_sec_key_def u48_ok_def U48_MASK_def bp_at_def DEFAULT_INTERNAL_CAP_def)

end
