(* ===== verification/Sparse_Index.thy ===== *)
theory Sparse_Index
  imports Bp_Tree
begin

text \<open>
  Chain segments and the sparse index above them (\<open>wavedb-core/src/index/segment.rs\<close>, \<open>sparse.rs\<close>,
  \<open>sparse_write.rs\<close>): the values, their byte forms, the descents by key and by offset, and the planning
  of upserts and removals.

  Plans only read the store, so they take its read half.  The ids \<open>mint_lane_id\<close> returns within one
  operation are the parameter \<open>mint\<close>: \<open>mint 0\<close>, \<open>mint 1\<close>, \<open>\<dots>\<close> in call order.  \<open>seahash\<close> is a parameter.
\<close>

section \<open>Lanes\<close>

datatype lane = Records | Recency | Dead | Index

definition lane_tag :: "lane \<Rightarrow> byte list" where
  "lane_tag l = (case l of
      Records \<Rightarrow> [0x57, 0x44, 0x42, 0x2E, 0x53, 0x45, 0x47]
    | Recency \<Rightarrow> [0x57, 0x44, 0x42, 0x2E, 0x52, 0x45, 0x43]
    | Dead \<Rightarrow> [0x57, 0x44, 0x42, 0x2E, 0x44, 0x45, 0x41, 0x44]
    | Index \<Rightarrow> [0x57, 0x44, 0x42, 0x2E, 0x49, 0x44, 0x58])"

definition lane_hash :: "(byte list \<Rightarrow> u64) \<Rightarrow> lane \<Rightarrow> u64 \<Rightarrow> u64" where
  "lane_hash seahash l struct_hash = seahash (lane_tag l @ to_le_bytes 8 struct_hash)"

definition mint_lane_id :: "u64 \<Rightarrow> u32 \<Rightarrow> u64 \<Rightarrow> local_id \<times> u32" where
  "mint_lane_id unix_nanos MINT lane =
     (let (key, MINT1) = key_nanos unix_nanos MINT in (lid_new key True (type_salt lane), MINT1))"

definition LANE_PREFIX :: nat where
  "LANE_PREFIX = 8"

section \<open>Segments\<close>

record 'p segment =
  seg_prev :: "local_id option"
  seg_next :: "local_id option"
  seg_entries :: "(sec_key \<times> 'p) list"

definition seg_new :: "local_id option \<Rightarrow> local_id option \<Rightarrow> 'p segment" where
  "seg_new prev next = \<lparr>seg_prev = prev, seg_next = next, seg_entries = []\<rparr>"

definition with_entries :: "local_id option \<Rightarrow> local_id option \<Rightarrow> (sec_key \<times> 'p) list \<Rightarrow> 'p segment" where
  "with_entries prev next entries = \<lparr>seg_prev = prev, seg_next = next, seg_entries = entries\<rparr>"

definition seg_extend :: "(sec_key \<times> 'p) list \<Rightarrow> 'p segment \<Rightarrow> 'p segment" where
  "seg_extend entries s = s\<lparr>seg_entries := seg_entries s @ entries\<rparr>"

definition seg_len :: "'p segment \<Rightarrow> nat" where
  "seg_len s = length (seg_entries s)"

definition seg_first_key :: "'p segment \<Rightarrow> sec_key option" where
  "seg_first_key s = (case seg_entries s of [] \<Rightarrow> None | (k, _) # _ \<Rightarrow> Some k)"

definition seg_last_key :: "'p segment \<Rightarrow> sec_key option" where
  "seg_last_key s = (if seg_entries s = [] then None else Some (fst (last (seg_entries s))))"

definition seg_position :: "sec_key \<Rightarrow> 'p segment \<Rightarrow> nat + nat" where
  "seg_position k s = binary_search (map fst (seg_entries s)) k"

definition seg_get :: "sec_key \<Rightarrow> 'p segment \<Rightarrow> 'p option" where
  "seg_get k s = (case seg_position k s of Inr i \<Rightarrow> Some (snd (seg_entries s ! i)) | Inl _ \<Rightarrow> None)"

definition seg_insert :: "sec_key \<Rightarrow> 'p \<Rightarrow> 'p segment \<Rightarrow> 'p option \<times> 'p segment" where
  "seg_insert k p s = (case seg_position k s of
      Inr i \<Rightarrow> (Some (snd (seg_entries s ! i)), s\<lparr>seg_entries := (seg_entries s)[i := (fst (seg_entries s ! i), p)]\<rparr>)
    | Inl i \<Rightarrow> (None, s\<lparr>seg_entries := insert_at i (k, p) (seg_entries s)\<rparr>))"

definition seg_remove :: "sec_key \<Rightarrow> 'p segment \<Rightarrow> 'p option \<times> 'p segment" where
  "seg_remove k s = (case seg_position k s of
      Inr i \<Rightarrow> (Some (snd (seg_entries s ! i)), s\<lparr>seg_entries := remove_at i (seg_entries s)\<rparr>)
    | Inl _ \<Rightarrow> (None, s))"

definition wire_segment :: "'p wire \<Rightarrow> 'p segment wire" where
  "wire_segment P = wire_struct (\<lambda>s. (seg_prev s, seg_next s, seg_entries s)) (\<lambda>(p, n, es). with_entries p n es)
     (wire_tuple3 (wire_option wire_local_id) (wire_option wire_local_id) (wire_vec (wire_tuple2 wire_sec_key P)))"

definition segment_to_bytes :: "'p wire \<Rightarrow> u64 \<Rightarrow> 'p segment \<Rightarrow> byte list" where
  "segment_to_bytes P lane s = to_le_bytes 8 lane @ to_wire (wire_segment P) s"

definition segment_from_bytes :: "'p wire \<Rightarrow> u64 \<Rightarrow> byte list \<Rightarrow> 'p segment cres" where
  "segment_from_bytes P lane bytes =
     (if length bytes < LANE_PREFIX then Err (LaneBadTag 0)
      else let tag = from_le_bytes (take LANE_PREFIX bytes)
           in if tag \<noteq> lane then Err (LaneBadTag tag)
              else map_err Wire (from_wire (wire_segment P) (drop LANE_PREFIX bytes)))"

section \<open>Index nodes\<close>

datatype slot = Slot (slot_first: sec_key) (slot_seg: local_id) (slot_count: u64)

datatype branch = Branch (branch_first: sec_key) (branch_node: local_id) (branch_count: u64)

datatype sparse_node = SparseLeaf "slot list" | SparseInternal "branch list"

datatype step = StepSegment slot u64 | StepChild local_id u64

definition wire_slot :: "slot wire" where
  "wire_slot = wire_struct (\<lambda>s. (slot_first s, slot_seg s, slot_count s)) (\<lambda>(f, s, c). Slot f s c)
     (wire_tuple3 wire_sec_key wire_local_id wire_u64)"

definition wire_branch :: "branch wire" where
  "wire_branch = wire_struct (\<lambda>b. (branch_first b, branch_node b, branch_count b)) (\<lambda>(f, n, c). Branch f n c)
     (wire_tuple3 wire_sec_key wire_local_id wire_u64)"

fun node_total :: "sparse_node \<Rightarrow> u64" where
  "node_total (SparseLeaf slots) = sum_list (map slot_count slots)"
| "node_total (SparseInternal branches) = sum_list (map branch_count branches)"

fun node_len :: "sparse_node \<Rightarrow> nat" where
  "node_len (SparseLeaf slots) = length slots"
| "node_len (SparseInternal branches) = length branches"

fun node_first_key :: "sparse_node \<Rightarrow> sec_key option" where
  "node_first_key (SparseLeaf slots) = (case slots of [] \<Rightarrow> None | s # _ \<Rightarrow> Some (slot_first s))"
| "node_first_key (SparseInternal branches) = (case branches of [] \<Rightarrow> None | b # _ \<Rightarrow> Some (branch_first b))"

text \<open>The lower half, and the upper half with its least key when there is one; \<open>div_ceil(2)\<close> is
  \<open>(n + 1) div 2\<close>.\<close>

definition split_off_half :: "sparse_node \<Rightarrow> sparse_node \<times> (sec_key \<times> sparse_node) option" where
  "split_off_half node =
     (let at = (node_len node + 1) div 2;
          (lower, upper) = (case node of
              SparseLeaf slots \<Rightarrow> (SparseLeaf (take at slots), SparseLeaf (drop at slots))
            | SparseInternal branches \<Rightarrow> (SparseInternal (take at branches), SparseInternal (drop at branches)))
      in (lower, map_option (\<lambda>first. (first, upper)) (node_first_key upper)))"

function bisect :: "(nat \<Rightarrow> bool) \<Rightarrow> nat \<Rightarrow> nat \<Rightarrow> nat" where
  "bisect at_or_below lo hi =
     (if lo < hi then
        let mid = lo + (hi - lo) div 2
        in if at_or_below mid then bisect at_or_below (mid + 1) hi else bisect at_or_below lo mid
      else lo)"
  by pat_completeness auto
termination by (relation "measure (\<lambda>(_, lo, hi). hi - lo)") auto

definition last_at_or_below :: "sec_key list \<Rightarrow> sec_key \<Rightarrow> nat option" where
  "last_at_or_below keys key =
     (let lo = bisect (\<lambda>i. keys ! i \<le> key) 0 (length keys) in if lo = 0 then None else Some (lo - 1))"

fun containing :: "u64 \<Rightarrow> u64 \<Rightarrow> nat \<Rightarrow> u64 list \<Rightarrow> (nat \<times> u64) option" where
  "containing offset seen i [] = None"
| "containing offset seen i (c # counts) =
     (if offset < seen + c then Some (i, offset - seen) else containing offset (seen + c) (i + 1) counts)"

fun step_to_key :: "sparse_node \<Rightarrow> sec_key \<Rightarrow> step option" where
  "step_to_key (SparseLeaf slots) key =
     map_option (\<lambda>i. StepSegment (slots ! i) 0) (last_at_or_below (map slot_first slots) key)"
| "step_to_key (SparseInternal branches) key =
     map_option (\<lambda>i. StepChild (branch_node (branches ! i)) 0) (last_at_or_below (map branch_first branches) key)"

fun step_to_offset :: "sparse_node \<Rightarrow> u64 \<Rightarrow> step option" where
  "step_to_offset (SparseLeaf slots) offset =
     map_option (\<lambda>(i, within). StepSegment (slots ! i) within) (containing offset 0 0 (map slot_count slots))"
| "step_to_offset (SparseInternal branches) offset =
     map_option (\<lambda>(i, within). StepChild (branch_node (branches ! i)) within) (containing offset 0 0 (map branch_count branches))"

definition sparse_to_bytes :: "u64 \<Rightarrow> sparse_node \<Rightarrow> byte list" where
  "sparse_to_bytes lane node = to_le_bytes 8 lane @ (case node of
      SparseLeaf slots \<Rightarrow> KIND_LEAF # to_wire (wire_vec wire_slot) slots
    | SparseInternal branches \<Rightarrow> KIND_INTERNAL # to_wire (wire_vec wire_branch) branches)"

definition sparse_from_bytes :: "u64 \<Rightarrow> byte list \<Rightarrow> sparse_node cres" where
  "sparse_from_bytes lane bytes =
     (if length bytes < LANE_PREFIX then Err (LaneBadTag 0)
      else let tag = from_le_bytes (take LANE_PREFIX bytes)
           in if tag \<noteq> lane then Err (LaneBadTag tag)
              else if length bytes \<le> LANE_PREFIX then Err (LaneBadTag tag)
              else let kind = bytes ! LANE_PREFIX; payload = drop (LANE_PREFIX + 1) bytes
                   in if kind = KIND_LEAF then try_then (map_err Wire (from_wire (wire_vec wire_slot) payload)) (\<lambda>slots. Ok (SparseLeaf slots))
                      else if kind = KIND_INTERNAL then
                        try_then (map_err Wire (from_wire (wire_vec wire_branch) payload)) (\<lambda>branches. Ok (SparseInternal branches))
                      else Err (LaneBadTag tag))"

section \<open>The tree\<close>

definition DEFAULT_SPARSE_CAP :: nat where "DEFAULT_SPARSE_CAP = 700"

record sparse_tree =
  st_root :: local_id
  st_tenant :: U48
  st_lane :: u64
  st_cap :: nat

record sparse_frame =
  sf_id :: local_id
  sf_entries :: "branch list"
  sf_idx :: nat

definition sparse_at :: "(byte list \<Rightarrow> u64) \<Rightarrow> local_id \<Rightarrow> U48 \<Rightarrow> u64 \<Rightarrow> sparse_tree" where
  "sparse_at seahash root tenant struct_hash =
     \<lparr>st_root = root, st_tenant = tenant, st_lane = lane_hash seahash Index struct_hash, st_cap = DEFAULT_SPARSE_CAP\<rparr>"

definition sparse_with_cap :: "nat \<Rightarrow> sparse_tree \<Rightarrow> sparse_tree" where
  "sparse_with_cap cap T = T\<lparr>st_cap := cap\<rparr>"

definition sparse_put :: "sparse_tree \<Rightarrow> local_id \<Rightarrow> sparse_node \<Rightarrow> write_op" where
  "sparse_put T i node = Put (to_id i (st_tenant T)) (sparse_to_bytes (st_lane T) node)"

definition sparse_load :: "reader \<Rightarrow> sparse_tree \<Rightarrow> local_id \<Rightarrow> sparse_node cres" where
  "sparse_load R T i = try_then (R (st_lane T) (to_id i (st_tenant T))) (\<lambda>found. case found of
      None \<Rightarrow> Err (ChainNodeMissing i)
    | Some bytes \<Rightarrow> sparse_from_bytes (st_lane T) bytes)"

definition sparse_create :: "(byte list \<Rightarrow> u64) \<Rightarrow> U48 \<Rightarrow> u64 \<Rightarrow> local_id \<Rightarrow> sparse_tree \<times> write_op" where
  "sparse_create seahash tenant struct_hash minted =
     (let tree = sparse_at seahash minted tenant struct_hash in (tree, sparse_put tree (st_root tree) (SparseLeaf [])))"

partial_function (option) sparse_find_from :: "reader \<Rightarrow> sparse_tree \<Rightarrow> sec_key \<Rightarrow> local_id \<Rightarrow> slot option cres" where
  "sparse_find_from R T key i = (case sparse_load R T i of
      None \<Rightarrow> None
    | Some (Inl e) \<Rightarrow> Err e
    | Some (Inr node) \<Rightarrow> (case step_to_key node key of
          None \<Rightarrow> Ok None
        | Some (StepSegment s _) \<Rightarrow> Ok (Some s)
        | Some (StepChild n _) \<Rightarrow> sparse_find_from R T key n))"

definition sparse_find :: "reader \<Rightarrow> sparse_tree \<Rightarrow> sec_key \<Rightarrow> slot option cres" where
  "sparse_find R T key = sparse_find_from R T key (st_root T)"

partial_function (option) find_offset_from :: "reader \<Rightarrow> sparse_tree \<Rightarrow> local_id \<Rightarrow> u64 \<Rightarrow> (slot \<times> u64) option cres" where
  "find_offset_from R T i at = (case sparse_load R T i of
      None \<Rightarrow> None
    | Some (Inl e) \<Rightarrow> Err e
    | Some (Inr node) \<Rightarrow> (case step_to_offset node at of
          None \<Rightarrow> Ok None
        | Some (StepSegment s within) \<Rightarrow> Ok (Some (s, within))
        | Some (StepChild n within) \<Rightarrow> find_offset_from R T n within))"

definition find_offset :: "reader \<Rightarrow> sparse_tree \<Rightarrow> u64 \<Rightarrow> (slot \<times> u64) option cres" where
  "find_offset R T offset = find_offset_from R T (st_root T) offset"

definition sparse_total :: "reader \<Rightarrow> sparse_tree \<Rightarrow> u64 cres" where
  "sparse_total R T = try_then (sparse_load R T (st_root T)) (\<lambda>node. Ok (node_total node))"

text \<open>\<open>partition_point\<close> of entries that ascend.\<close>

definition branch_for :: "branch list \<Rightarrow> sec_key \<Rightarrow> nat" where
  "branch_for entries key = length (takeWhile (\<lambda>b. branch_first b \<le> key) entries) - 1"

text \<open>The path keeps its top at the head of the list.\<close>

partial_function (option) sparse_descend ::
    "reader \<Rightarrow> sparse_tree \<Rightarrow> sec_key \<Rightarrow> sparse_frame list \<Rightarrow> local_id \<Rightarrow> (sparse_frame list \<times> local_id \<times> slot list) cres" where
  "sparse_descend R T key path i = (case sparse_load R T i of
      None \<Rightarrow> None
    | Some (Inl e) \<Rightarrow> Err e
    | Some (Inr (SparseLeaf slots)) \<Rightarrow> Ok (path, i, slots)
    | Some (Inr (SparseInternal entries)) \<Rightarrow>
        (let idx = branch_for entries key
         in if length entries \<le> idx then Err (ChainNodeMissing i)
            else sparse_descend R T key (\<lparr>sf_id = i, sf_entries = entries, sf_idx = idx\<rparr> # path) (branch_node (entries ! idx))))"

text \<open>The node that stays, the branch of the upper half, the mints used so far and the writes.\<close>

definition split_sibling ::
    "(nat \<Rightarrow> local_id) \<Rightarrow> sparse_tree \<Rightarrow> nat \<Rightarrow> sparse_node \<Rightarrow> write_op list \<Rightarrow> sparse_node \<times> branch option \<times> nat \<times> write_op list" where
  "split_sibling mint T n node writes =
     (if node_len node \<le> st_cap T then (node, None, n, writes)
      else case split_off_half node of
          (lower, None) \<Rightarrow> (lower, None, n, writes)
        | (lower, Some (first, upper)) \<Rightarrow>
            (lower, Some (Branch first (mint n) (node_total upper)), n + 1, writes @ [sparse_put T (mint n) upper]))"

definition climb_root :: "(nat \<Rightarrow> local_id) \<Rightarrow> sparse_tree \<Rightarrow> nat \<Rightarrow> sparse_node \<Rightarrow> write_op list \<Rightarrow> nat \<times> write_op list" where
  "climb_root mint T n node writes =
     (let (n2, node2, writes2) = (case split_sibling mint T n node writes of
            (node1, None, n1, writes1) \<Rightarrow> (n1, node1, writes1)
          | (node1, Some upper, n1, writes1) \<Rightarrow>
              let lower_id = mint n1;
                  lower = (case node_first_key node1 of None \<Rightarrow> [] | Some first \<Rightarrow> [Branch first lower_id (node_total node1)])
              in (n1 + 1, SparseInternal (lower @ [upper]), writes1 @ [sparse_put T lower_id node1]));
          node3 = (if node2 = SparseInternal [] then SparseLeaf [] else node2)
      in (n2, writes2 @ [sparse_put T (st_root T) node3]))"

fun climb ::
    "(nat \<Rightarrow> local_id) \<Rightarrow> sparse_tree \<Rightarrow> nat \<Rightarrow> sparse_frame list \<Rightarrow> local_id \<Rightarrow> sparse_node \<Rightarrow> write_op list \<Rightarrow> nat \<times> write_op list" where
  "climb mint T n [] i node writes = climb_root mint T n node writes"
| "climb mint T n (f # path) i node writes = (case node_first_key node of
      None \<Rightarrow> climb mint T n path (sf_id f) (SparseInternal (remove_at (sf_idx f) (sf_entries f)))
                (writes @ [Remove (st_lane T) (to_id i (st_tenant T))])
    | Some first \<Rightarrow> (case split_sibling mint T n node writes of (node1, carry, n1, writes1) \<Rightarrow>
        let entries = (sf_entries f)[sf_idx f := Branch first i (node_total node1)];
            entries1 = (case carry of None \<Rightarrow> entries | Some b \<Rightarrow> insert_at (sf_idx f + 1) b entries)
        in climb mint T n1 path (sf_id f) (SparseInternal entries1) (writes1 @ [sparse_put T i node1])))"

definition sparse_upsert :: "reader \<Rightarrow> (nat \<Rightarrow> local_id) \<Rightarrow> sparse_tree \<Rightarrow> nat \<Rightarrow> slot \<Rightarrow> (nat \<times> write_op list) cres" where
  "sparse_upsert R mint T n s =
     try_then (sparse_descend R T (slot_first s) [] (st_root T)) (\<lambda>(path, leaf_id, slots).
       let slots1 = (case binary_search (map slot_first slots) (slot_first s) of
             Inr i \<Rightarrow> slots[i := s] | Inl i \<Rightarrow> insert_at i s slots)
       in Ok (climb mint T n path leaf_id (SparseLeaf slots1) []))"

definition sparse_remove :: "reader \<Rightarrow> (nat \<Rightarrow> local_id) \<Rightarrow> sparse_tree \<Rightarrow> nat \<Rightarrow> sec_key \<Rightarrow> (nat \<times> write_op list) cres" where
  "sparse_remove R mint T n first =
     try_then (sparse_descend R T first [] (st_root T)) (\<lambda>(path, leaf_id, slots).
       case binary_search (map slot_first slots) first of
         Inl _ \<Rightarrow> Ok (n, [])
       | Inr i \<Rightarrow> Ok (climb mint T n path leaf_id (SparseLeaf (remove_at i slots)) []))"

end
