(* ===== verification/Record_Chain.thy ===== *)
theory Record_Chain
  imports Sparse_Index
begin

text \<open>
  Record chains (\<open>wavedb-core/src/index/chain.rs\<close>, \<open>chain_remove.rs\<close>): a doubly linked run of sorted
  segments with a sparse index above it, or without one for the removal log; lookups, and the planning of
  inserts with splits and of removals with merges and redistributions.

  A plan in progress is its overlay, the writes so far and how many ids have been minted; \<open>mint l n\<close> is
  what the \<open>n\<close>-th call of \<open>mint_lane_id\<close> returns for the lane \<open>l\<close>.  The payload type's codec is the
  argument \<open>P\<close>.
\<close>

section \<open>Handles\<close>

definition DEFAULT_SEGMENT_MIN :: nat where "DEFAULT_SEGMENT_MIN = 16"

definition DEFAULT_DEAD_MIN :: nat where "DEFAULT_DEAD_MIN = 256"

record record_chain =
  ch_head :: local_id
  ch_tail :: local_id
  ch_tenant :: U48
  ch_lane :: u64
  ch_index :: "sparse_tree option"
  ch_min :: nat

datatype chain_roots = ChainRoots (roots_head: local_id) (roots_tail: local_id) (roots_index: local_id)

datatype log_roots = LogRoots (log_head: local_id) (log_tail: local_id)

definition chain_at :: "(byte list \<Rightarrow> u64) \<Rightarrow> local_id \<Rightarrow> local_id \<Rightarrow> local_id \<Rightarrow> U48 \<Rightarrow> u64 \<Rightarrow> lane \<Rightarrow> record_chain" where
  "chain_at seahash head tail index_root tenant struct_hash lane =
     \<lparr>ch_head = head, ch_tail = tail, ch_tenant = tenant, ch_lane = lane_hash seahash lane struct_hash,
      ch_index = Some (sparse_at seahash index_root tenant struct_hash), ch_min = DEFAULT_SEGMENT_MIN\<rparr>"

definition log_at :: "(byte list \<Rightarrow> u64) \<Rightarrow> local_id \<Rightarrow> local_id \<Rightarrow> U48 \<Rightarrow> u64 \<Rightarrow> lane \<Rightarrow> record_chain" where
  "log_at seahash head tail tenant struct_hash lane =
     \<lparr>ch_head = head, ch_tail = tail, ch_tenant = tenant, ch_lane = lane_hash seahash lane struct_hash,
      ch_index = None, ch_min = DEFAULT_DEAD_MIN\<rparr>"

definition with_min :: "nat \<Rightarrow> record_chain \<Rightarrow> record_chain" where
  "with_min n C = C\<lparr>ch_min := n\<rparr>"

definition with_index_cap :: "nat \<Rightarrow> record_chain \<Rightarrow> record_chain" where
  "with_index_cap cap C = (case ch_index C of None \<Rightarrow> C | Some index \<Rightarrow> C\<lparr>ch_index := Some (sparse_with_cap cap index)\<rparr>)"

definition chain_roots_of :: "record_chain \<Rightarrow> chain_roots" where
  "chain_roots_of C = ChainRoots (ch_head C) (ch_tail C) (case ch_index C of None \<Rightarrow> LocalId 0 0 | Some ix \<Rightarrow> st_root ix)"

definition log_roots_of :: "record_chain \<Rightarrow> log_roots" where
  "log_roots_of C = LogRoots (ch_head C) (ch_tail C)"

text \<open>\<open>min.saturating_mul(2)\<close> at \<open>usize\<close>.\<close>

definition twice_min :: "record_chain \<Rightarrow> nat" where
  "twice_min C = (if ch_min C * 2 < 2 ^ 64 then ch_min C * 2 else 2 ^ 64 - 1)"

definition chain_put :: "'p wire \<Rightarrow> record_chain \<Rightarrow> local_id \<Rightarrow> 'p segment \<Rightarrow> write_op" where
  "chain_put P C i seg = Put (to_id i (ch_tenant C)) (segment_to_bytes P (ch_lane C) seg)"

definition chain_load :: "'p wire \<Rightarrow> reader \<Rightarrow> record_chain \<Rightarrow> local_id \<Rightarrow> 'p segment cres" where
  "chain_load P R C i = try_then (R (ch_lane C) (to_id i (ch_tenant C))) (\<lambda>found. case found of
      None \<Rightarrow> Err (ChainNodeMissing i)
    | Some bytes \<Rightarrow> segment_from_bytes P (ch_lane C) bytes)"

section \<open>Creation\<close>

definition chain_seed ::
    "'p wire \<Rightarrow> (byte list \<Rightarrow> u64) \<Rightarrow> U48 \<Rightarrow> u64 \<Rightarrow> lane \<Rightarrow> sparse_tree option \<Rightarrow> nat \<Rightarrow> local_id \<Rightarrow> record_chain \<times> write_op" where
  "chain_seed P seahash tenant struct_hash lane index least only =
     (let chain = \<lparr>ch_head = only, ch_tail = only, ch_tenant = tenant, ch_lane = lane_hash seahash lane struct_hash,
                   ch_index = index, ch_min = least\<rparr>
      in (chain, chain_put P chain only (seg_new None None)))"

text \<open>The index mints first.\<close>

definition chain_create ::
    "'p wire \<Rightarrow> (byte list \<Rightarrow> u64) \<Rightarrow> (u64 \<Rightarrow> nat \<Rightarrow> local_id) \<Rightarrow> nat \<Rightarrow> U48 \<Rightarrow> u64 \<Rightarrow> lane \<Rightarrow> record_chain \<times> nat \<times> write_op list" where
  "chain_create P seahash mint n tenant struct_hash lane =
     (let (index, index_write) = sparse_create seahash tenant struct_hash (mint (lane_hash seahash Index struct_hash) n);
          (chain, seed) = chain_seed P seahash tenant struct_hash lane (Some index) DEFAULT_SEGMENT_MIN
                            (mint (lane_hash seahash lane struct_hash) (n + 1))
      in (chain, n + 2, [seed, index_write]))"

definition chain_create_log ::
    "'p wire \<Rightarrow> (byte list \<Rightarrow> u64) \<Rightarrow> (u64 \<Rightarrow> nat \<Rightarrow> local_id) \<Rightarrow> nat \<Rightarrow> U48 \<Rightarrow> u64 \<Rightarrow> lane \<Rightarrow> record_chain \<times> nat \<times> write_op list" where
  "chain_create_log P seahash mint n tenant struct_hash lane =
     (let (chain, seed) = chain_seed P seahash tenant struct_hash lane None DEFAULT_DEAD_MIN (mint (lane_hash seahash lane struct_hash) n)
      in (chain, n + 1, [seed]))"

section \<open>Lookups\<close>

partial_function (option) walk_back_to :: "'p wire \<Rightarrow> reader \<Rightarrow> record_chain \<Rightarrow> sec_key \<Rightarrow> local_id \<Rightarrow> (local_id \<times> 'p segment) cres" where
  "walk_back_to P R C key i = (case chain_load P R C i of
      None \<Rightarrow> None
    | Some (Inl e) \<Rightarrow> Err e
    | Some (Inr seg) \<Rightarrow>
        (let above = (case seg_first_key seg of None \<Rightarrow> False | Some first \<Rightarrow> key < first)
         in case seg_prev seg of
              Some prev \<Rightarrow> if above then walk_back_to P R C key prev else Ok (i, seg)
            | None \<Rightarrow> Ok (i, seg)))"

definition chain_locate :: "'p wire \<Rightarrow> reader \<Rightarrow> record_chain \<Rightarrow> sec_key \<Rightarrow> (local_id \<times> 'p segment) cres" where
  "chain_locate P R C key = (case ch_index C of
      None \<Rightarrow> walk_back_to P R C key (ch_tail C)
    | Some index \<Rightarrow> try_then (sparse_find R index key) (\<lambda>found.
        let i = (case found of Some s \<Rightarrow> slot_seg s | None \<Rightarrow> ch_head C)
        in try_then (chain_load P R C i) (\<lambda>seg. Ok (i, seg))))"

definition chain_get :: "'p wire \<Rightarrow> reader \<Rightarrow> record_chain \<Rightarrow> sec_key \<Rightarrow> 'p option cres" where
  "chain_get P R C key = try_then (chain_locate P R C key) (\<lambda>(_, seg). Ok (seg_get key seg))"

section \<open>Plans\<close>

record plan =
  pl_view :: overlay
  pl_writes :: "write_op list"
  pl_next :: nat

definition plan_new :: "reader \<Rightarrow> nat \<Rightarrow> plan" where
  "plan_new R n = \<lparr>pl_view = overlay_new R, pl_writes = [], pl_next = n\<rparr>"

text \<open>\<open>view.stage(&batch); writes.extend(batch)\<close>, with the mints the batch used.\<close>

definition plan_stage :: "write_op list \<Rightarrow> nat \<Rightarrow> plan \<Rightarrow> plan" where
  "plan_stage ws n pl = \<lparr>pl_view = overlay_stage ws (pl_view pl), pl_writes = pl_writes pl @ ws, pl_next = n\<rparr>"

definition chain_emit :: "'p wire \<Rightarrow> record_chain \<Rightarrow> local_id \<Rightarrow> 'p segment \<Rightarrow> plan \<Rightarrow> plan" where
  "chain_emit P C i seg pl = plan_stage [chain_put P C i seg] (pl_next pl) pl"

definition chain_erase :: "record_chain \<Rightarrow> local_id \<Rightarrow> plan \<Rightarrow> plan" where
  "chain_erase C i pl = plan_stage [Remove (ch_lane C) (to_id i (ch_tenant C))] (pl_next pl) pl"

definition chain_relink :: "'p wire \<Rightarrow> record_chain \<Rightarrow> local_id \<Rightarrow> local_id option \<Rightarrow> bool \<Rightarrow> plan \<Rightarrow> plan cres" where
  "chain_relink P C i to set_next pl =
     try_then (chain_load P (overlay_get (pl_view pl)) C i) (\<lambda>seg.
       Ok (chain_emit P C i (if set_next then seg\<lparr>seg_next := to\<rparr> else seg\<lparr>seg_prev := to\<rparr>) pl))"

definition index_remove :: "(u64 \<Rightarrow> nat \<Rightarrow> local_id) \<Rightarrow> sparse_tree \<Rightarrow> sec_key \<Rightarrow> plan \<Rightarrow> plan cres" where
  "index_remove mint T old pl =
     try_then (sparse_remove (overlay_get (pl_view pl)) (mint (st_lane T)) T (pl_next pl) old) (\<lambda>(n, batch). Ok (plan_stage batch n pl))"

definition index_upsert :: "(u64 \<Rightarrow> nat \<Rightarrow> local_id) \<Rightarrow> sparse_tree \<Rightarrow> slot \<Rightarrow> plan \<Rightarrow> plan cres" where
  "index_upsert mint T s pl =
     try_then (sparse_upsert (overlay_get (pl_view pl)) (mint (st_lane T)) T (pl_next pl) s) (\<lambda>(n, batch). Ok (plan_stage batch n pl))"

definition chain_reindex ::
    "(u64 \<Rightarrow> nat \<Rightarrow> local_id) \<Rightarrow> record_chain \<Rightarrow> sec_key option \<Rightarrow> local_id \<Rightarrow> 'p segment \<Rightarrow> plan \<Rightarrow> plan cres" where
  "chain_reindex mint C was i seg pl = (case ch_index C of
      None \<Rightarrow> Ok pl
    | Some index \<Rightarrow>
        (let now = seg_first_key seg
         in try_then (case was of
                Some old \<Rightarrow> if was \<noteq> now then index_remove mint index old pl else Ok pl
              | None \<Rightarrow> Ok pl)
              (\<lambda>pl1. case now of
                  None \<Rightarrow> Ok pl1
                | Some first \<Rightarrow> index_upsert mint index (Slot first i (of_nat (seg_len seg))) pl1)))"

section \<open>Inserts\<close>

definition chain_split ::
    "'p wire \<Rightarrow> (u64 \<Rightarrow> nat \<Rightarrow> local_id) \<Rightarrow> record_chain \<Rightarrow> local_id \<Rightarrow> 'p segment \<Rightarrow> sec_key option \<Rightarrow> plan \<Rightarrow> (record_chain \<times> plan) cres" where
  "chain_split P mint C i seg was pl =
     (let prev = seg_prev seg; next = seg_next seg;
          at = length (seg_entries seg) div 2;
          lower = take at (seg_entries seg); upper = drop at (seg_entries seg);
          fresh = mint (ch_lane C) (pl_next pl);
          pl0 = pl\<lparr>pl_next := pl_next pl + 1\<rparr>
      in try_then
           (if i = ch_tail C then
              let made = with_entries prev (Some i) lower; kept = with_entries (Some fresh) next upper
              in case prev of
                   Some outer \<Rightarrow> try_then (chain_relink P C outer (Some fresh) True pl0) (\<lambda>pl1. Ok (C, kept, made, pl1))
                 | None \<Rightarrow> Ok (C\<lparr>ch_head := fresh\<rparr>, kept, made, pl0)
            else
              let made = with_entries (Some i) next upper; kept = with_entries prev (Some fresh) lower
              in case next of
                   Some outer \<Rightarrow> try_then (chain_relink P C outer (Some fresh) False pl0) (\<lambda>pl1. Ok (C, kept, made, pl1))
                 | None \<Rightarrow> Ok (C\<lparr>ch_tail := fresh\<rparr>, kept, made, pl0))
           (\<lambda>(C1, kept, made, pl1).
             let pl2 = chain_emit P C1 fresh made (chain_emit P C1 i kept pl1);
                 (low_id, low, high_id, high) = (if i = ch_tail C1 then (fresh, made, i, kept) else (i, kept, fresh, made))
             in try_then (chain_reindex mint C1 was low_id low pl2) (\<lambda>pl3.
                try_then (chain_reindex mint C1 None high_id high pl3) (\<lambda>pl4. Ok (C1, pl4)))))"

definition chain_insert ::
    "'p wire \<Rightarrow> reader \<Rightarrow> (u64 \<Rightarrow> nat \<Rightarrow> local_id) \<Rightarrow> record_chain \<Rightarrow> nat \<Rightarrow> sec_key \<Rightarrow> 'p \<Rightarrow> (record_chain \<times> nat \<times> write_op list) cres" where
  "chain_insert P R mint C n key payload =
     (let view = plan_new R n
      in try_then (chain_locate P (overlay_get (pl_view view)) C key) (\<lambda>(i, seg0).
           let was = seg_first_key seg0; seg = snd (seg_insert key payload seg0)
           in try_then
                (if twice_min C \<le> seg_len seg then chain_split P mint C i seg was view
                 else try_then (chain_reindex mint C was i seg (chain_emit P C i seg view)) (\<lambda>pl. Ok (C, pl)))
                (\<lambda>(C1, pl). Ok (C1, pl_next pl, pl_writes pl))))"

section \<open>Removals\<close>

record 'p side =
  side_id :: local_id
  side_seg :: "'p segment"
  side_was :: "sec_key option"

text \<open>\<open>take_entries\<close> empties both segments before \<open>extend\<close> refills them.\<close>

definition chain_redistribute :: "'p wire \<Rightarrow> (u64 \<Rightarrow> nat \<Rightarrow> local_id) \<Rightarrow> record_chain \<Rightarrow> 'p side \<Rightarrow> 'p side \<Rightarrow> plan \<Rightarrow> plan cres" where
  "chain_redistribute P mint C left right pl =
     (let entries = seg_entries (side_seg left) @ seg_entries (side_seg right);
          at = (length entries + 1) div 2;
          left_seg = seg_extend (take at entries) ((side_seg left)\<lparr>seg_entries := []\<rparr>);
          right_seg = seg_extend (drop at entries) ((side_seg right)\<lparr>seg_entries := []\<rparr>);
          pl1 = chain_emit P C (side_id right) right_seg (chain_emit P C (side_id left) left_seg pl)
      in try_then (chain_reindex mint C (side_was left) (side_id left) left_seg pl1) (\<lambda>pl2.
           chain_reindex mint C (side_was right) (side_id right) right_seg pl2))"

definition chain_merge :: "'p wire \<Rightarrow> (u64 \<Rightarrow> nat \<Rightarrow> local_id) \<Rightarrow> record_chain \<Rightarrow> 'p side \<Rightarrow> 'p side \<Rightarrow> plan \<Rightarrow> (record_chain \<times> plan) cres" where
  "chain_merge P mint C left right pl =
     (let keep_left = (side_id left = ch_head C \<or> side_id right \<noteq> ch_tail C);
          entries = seg_entries (side_seg left) @ seg_entries (side_seg right);
          left0 = left\<lparr>side_seg := (side_seg left)\<lparr>seg_entries := []\<rparr>\<rparr>;
          right0 = right\<lparr>side_seg := (side_seg right)\<lparr>seg_entries := []\<rparr>\<rparr>;
          (kept, gone) = (if keep_left then (left0, right0) else (right0, left0));
          seg = seg_extend entries (side_seg kept)
      in try_then
           (if keep_left then
              let seg1 = seg\<lparr>seg_next := seg_next (side_seg gone)\<rparr>
              in case seg_next (side_seg gone) of
                   Some outer \<Rightarrow> try_then (chain_relink P C outer (Some (side_id kept)) False pl) (\<lambda>pl1. Ok (C, seg1, pl1))
                 | None \<Rightarrow> Ok (C\<lparr>ch_tail := side_id kept\<rparr>, seg1, pl)
            else
              let seg1 = seg\<lparr>seg_prev := seg_prev (side_seg gone)\<rparr>
              in case seg_prev (side_seg gone) of
                   Some outer \<Rightarrow> try_then (chain_relink P C outer (Some (side_id kept)) True pl) (\<lambda>pl1. Ok (C, seg1, pl1))
                 | None \<Rightarrow> Ok (C\<lparr>ch_head := side_id kept\<rparr>, seg1, pl))
           (\<lambda>(C1, seg1, pl1).
             let pl2 = chain_emit P C1 (side_id kept) seg1 (chain_erase C1 (side_id gone) pl1)
             in try_then (case (ch_index C1, side_was gone) of
                    (Some index, Some old) \<Rightarrow> index_remove mint index old pl2
                  | _ \<Rightarrow> Ok pl2) (\<lambda>pl3.
                try_then (chain_reindex mint C1 (side_was kept) (side_id kept) seg1 pl3) (\<lambda>pl4. Ok (C1, pl4)))))"

definition chain_rebalance :: "'p wire \<Rightarrow> (u64 \<Rightarrow> nat \<Rightarrow> local_id) \<Rightarrow> record_chain \<Rightarrow> 'p side \<Rightarrow> local_id \<Rightarrow> plan \<Rightarrow> (record_chain \<times> plan) cres" where
  "chain_rebalance P mint C starved other pl =
     try_then (chain_load P (overlay_get (pl_view pl)) C other) (\<lambda>seg.
       let mate = \<lparr>side_id = other, side_seg = seg, side_was = seg_first_key seg\<rparr>;
           (left, right) = (if seg_next (side_seg starved) = Some other then (starved, mate) else (mate, starved))
       in if twice_min C \<le> seg_len (side_seg left) + seg_len (side_seg right)
          then try_then (chain_redistribute P mint C left right pl) (\<lambda>pl1. Ok (C, pl1))
          else chain_merge P mint C left right pl)"

definition chain_remove ::
    "'p wire \<Rightarrow> reader \<Rightarrow> (u64 \<Rightarrow> nat \<Rightarrow> local_id) \<Rightarrow> record_chain \<Rightarrow> nat \<Rightarrow> sec_key \<Rightarrow> (record_chain \<times> nat \<times> write_op list option) cres" where
  "chain_remove P R mint C n key =
     (let view = plan_new R n
      in try_then (chain_locate P (overlay_get (pl_view view)) C key) (\<lambda>(i, seg0).
           let was = seg_first_key seg0
           in case seg_remove key seg0 of
                (None, _) \<Rightarrow> Ok (C, n, None)
              | (Some _, seg) \<Rightarrow>
                  let mate = (case seg_next seg of Some next \<Rightarrow> Some next | None \<Rightarrow> seg_prev seg)
                  in try_then
                       (case mate of
                          Some other \<Rightarrow>
                            if seg_len seg \<le> ch_min C div 2
                            then chain_rebalance P mint C \<lparr>side_id = i, side_seg = seg, side_was = was\<rparr> other view
                            else try_then (chain_reindex mint C was i seg (chain_emit P C i seg view)) (\<lambda>pl. Ok (C, pl))
                        | None \<Rightarrow> try_then (chain_reindex mint C was i seg (chain_emit P C i seg view)) (\<lambda>pl. Ok (C, pl)))
                       (\<lambda>(C1, pl). Ok (C1, pl_next pl, Some (pl_writes pl)))))"

end
