(* ===== verification/Sparse_Laws.thy ===== *)
theory Sparse_Laws
  imports Sparse_Index "HOL-Library.Multiset"
begin

text \<open>
  The sparse index as the list of its slots: the byte forms read back, a lookup by key returns the last
  slot at or below it, and upserts and removals edit the list, keeping the tree's shape, the root's id and
  every count.
\<close>

section \<open>Byte forms\<close>

definition valid_slot :: "slot \<Rightarrow> bool" where
  "valid_slot s \<longleftrightarrow> valid_sec_key (slot_first s)"

definition valid_branch :: "branch \<Rightarrow> bool" where
  "valid_branch b \<longleftrightarrow> valid_sec_key (branch_first b)"

interpretation wslot: wave_wire wire_slot valid_slot
proof -
  have "wave_wire wire_slot (\<lambda>s. (\<lambda>(f, s, c). valid_sec_key f \<and> True \<and> True) (slot_first s, slot_seg s, slot_count s))"
    unfolding wire_slot_def
    by (rule wire_struct_ok [OF wire_tuple3_ok [OF wsec.wave_wire_axioms wlid.wave_wire_axioms wu64.wave_wire_axioms]]) simp
  then show "wave_wire wire_slot valid_slot" by (simp add: valid_slot_def [abs_def])
qed

interpretation wbranch: wave_wire wire_branch valid_branch
proof -
  have "wave_wire wire_branch (\<lambda>s. (\<lambda>(f, s, c). valid_sec_key f \<and> True \<and> True) (branch_first s, branch_node s, branch_count s))"
    unfolding wire_branch_def
    by (rule wire_struct_ok [OF wire_tuple3_ok [OF wsec.wave_wire_axioms wlid.wave_wire_axioms wu64.wave_wire_axioms]]) simp
  then show "wave_wire wire_branch valid_branch" by (simp add: valid_branch_def [abs_def])
qed

fun node_firsts :: "sparse_node \<Rightarrow> sec_key list" where
  "node_firsts (SparseLeaf slots) = map slot_first slots"
| "node_firsts (SparseInternal branches) = map branch_first branches"

text \<open>A node within capacity, keys of at most a mebibyte: its image stays below the format's limit.\<close>

definition sparse_caps :: "sparse_tree \<Rightarrow> bool" where
  "sparse_caps T \<longleftrightarrow> 2 \<le> st_cap T \<and> st_cap T \<le> 4000 \<and> u48_ok (st_tenant T)"

lemma sparse_roundtrip:
  assumes "list_all valid_sec_key (node_firsts node)" "node_len node \<le> 4000"
  shows "sparse_from_bytes lane (sparse_to_bytes lane node) = Ok node"
proof (cases node)
  case (SparseLeaf slots)
  have "vec_heap_size wire_slot slots \<le> length slots * (2 ^ 20 + 40)"
    by (rule vec_heap_size_bound) (use assms(1) SparseLeaf in \<open>auto simp: list_all_iff wire_slot_def wire_sec_key_def valid_sec_key_def\<close>)
  then have "valid_vec wire_slot valid_slot slots"
    using assms SparseLeaf by (simp add: valid_vec_def list_all_iff valid_slot_def)
  then show ?thesis
    using SparseLeaf wave_wire.from_wire_to_wire [OF wslot.wire_vec_ok]
    by (simp add: sparse_from_bytes_def sparse_to_bytes_def LANE_PREFIX_def Let_def nth_append nonempty_units_def wire_slot_def)
next
  case (SparseInternal branches)
  have "vec_heap_size wire_branch branches \<le> length branches * (2 ^ 20 + 40)"
    by (rule vec_heap_size_bound) (use assms(1) SparseInternal in \<open>auto simp: list_all_iff wire_branch_def wire_sec_key_def valid_sec_key_def\<close>)
  then have "valid_vec wire_branch valid_branch branches"
    using assms SparseInternal by (simp add: valid_vec_def list_all_iff valid_branch_def)
  then show ?thesis
    using SparseInternal wave_wire.from_wire_to_wire [OF wbranch.wire_vec_ok]
    by (simp add: sparse_from_bytes_def sparse_to_bytes_def LANE_PREFIX_def Let_def nth_append nonempty_units_def wire_branch_def)
qed

section \<open>Abstract trees\<close>

datatype spt = SL local_id "slot list" | SN local_id "spt list"

fun sp_id :: "spt \<Rightarrow> local_id" where
  "sp_id (SL i _) = i"
| "sp_id (SN i _) = i"

fun sp_slots :: "spt \<Rightarrow> slot list" where
  "sp_slots (SL _ ss) = ss"
| "sp_slots (SN _ ts) = concat (map sp_slots ts)"

definition sp_count :: "spt \<Rightarrow> u64" where
  "sp_count t = sum_list (map slot_count (sp_slots t))"

definition sp_branch :: "spt \<Rightarrow> branch" where
  "sp_branch t = Branch (slot_first (hd (sp_slots t))) (sp_id t) (sp_count t)"

lemma sp_branch_simps [simp]:
  "branch_first (sp_branch t) = slot_first (hd (sp_slots t))" "branch_node (sp_branch t) = sp_id t" "branch_count (sp_branch t) = sp_count t"
  by (simp_all add: sp_branch_def)

fun sp_body :: "spt \<Rightarrow> sparse_node" where
  "sp_body (SL _ ss) = SparseLeaf ss"
| "sp_body (SN _ ts) = SparseInternal (map sp_branch ts)"

fun sp_below :: "spt \<Rightarrow> (local_id \<times> sparse_node) list" and
    sp_nodes :: "spt \<Rightarrow> (local_id \<times> sparse_node) list" where
  "sp_below (SL _ _) = []"
| "sp_below (SN _ ts) = concat (map sp_nodes ts)"
| "sp_nodes t = (sp_id t, sp_body t) # sp_below t"

declare sp_nodes.simps [simp del]

lemma sp_nodes_eq: "sp_nodes t = (sp_id t, sp_body t) # sp_below t"
  by (cases t) (simp_all add: sp_nodes.simps)

text \<open>Uniform height, nodes within capacity, nothing empty below the root.\<close>

fun sp_good :: "nat \<Rightarrow> nat \<Rightarrow> spt \<Rightarrow> bool" where
  "sp_good cap 0 (SL _ ss) \<longleftrightarrow> length ss \<le> cap"
| "sp_good cap (Suc h) (SN _ ts) \<longleftrightarrow> ts \<noteq> [] \<and> length ts \<le> cap \<and> (\<forall>t\<in>set ts. sp_good cap h t \<and> sp_slots t \<noteq> [])"
| "sp_good cap _ _ \<longleftrightarrow> False"

abbreviation ascending :: "slot list \<Rightarrow> bool" where
  "ascending ss \<equiv> sorted_wrt (<) (map slot_first ss)"

definition sp_heap :: "sparse_tree \<Rightarrow> kv \<Rightarrow> (local_id \<times> sparse_node) list \<Rightarrow> bool" where
  "sp_heap T m ns \<longleftrightarrow> (\<forall>(i, b)\<in>set ns. m (to_id i (st_tenant T)) = Some (sparse_to_bytes (st_lane T) b))"

lemma sp_heap_simps [simp]:
  "sp_heap T m []"
  "sp_heap T m ((i, b) # ns) \<longleftrightarrow> m (to_id i (st_tenant T)) = Some (sparse_to_bytes (st_lane T) b) \<and> sp_heap T m ns"
  "sp_heap T m (ns @ ns') \<longleftrightarrow> sp_heap T m ns \<and> sp_heap T m ns'"
  by (auto simp: sp_heap_def)

lemma sp_heap_mono: "sp_heap T m ns \<Longrightarrow> set ns' \<subseteq> set ns \<Longrightarrow> sp_heap T m ns'"
  by (auto simp: sp_heap_def)

definition sp_inv :: "sparse_tree \<Rightarrow> kv \<Rightarrow> spt \<Rightarrow> nat \<Rightarrow> bool" where
  "sp_inv T m t h \<longleftrightarrow> sp_good (st_cap T) h t \<and> ascending (sp_slots t) \<and> list_all valid_slot (sp_slots t)
     \<and> distinct (map fst (sp_nodes t)) \<and> sp_id t = st_root T \<and> sp_heap T m (sp_nodes t)"

lemma sp_firsts_in:
  assumes "sp_good cap h t" "k \<in> set (node_firsts (sp_body t))"
  shows "k \<in> slot_first ` set (sp_slots t)"
proof (cases t)
  case (SN i ts)
  then obtain u where u: "u \<in> set ts" "k = slot_first (hd (sp_slots u))" using assms(2) by auto
  then have "sp_slots u \<noteq> []" using assms(1) SN by (cases h) auto
  then have "hd (sp_slots u) \<in> set (sp_slots u)" by simp
  then have "hd (sp_slots u) \<in> set (sp_slots t)" using u(1) SN by auto
  then show ?thesis using u(2) by blast
qed (use assms(2) in auto)

lemma sp_load:
  assumes "sp_good (st_cap T) h t" "list_all valid_slot (sp_slots t)" "sparse_caps T"
    "m (to_id (sp_id t) (st_tenant T)) = Some (sparse_to_bytes (st_lane T) (sp_body t))"
  shows "sparse_load (reads m) T (sp_id t) = Ok (sp_body t)"
proof -
  have "list_all valid_sec_key (node_firsts (sp_body t))"
    using sp_firsts_in [OF assms(1)] assms(2) by (auto simp: list_all_iff valid_slot_def)
  moreover have "node_len (sp_body t) \<le> 4000"
    using assms(1, 3) by (cases "(st_cap T, h, t)" rule: sp_good.cases) (auto simp: sparse_caps_def)
  ultimately show ?thesis using assms(4) by (simp add: sparse_load_def sparse_roundtrip)
qed

section \<open>Lookups\<close>

text \<open>The bisection finds where the entries at or below the key end.\<close>

lemma bisect_partition:
  assumes "lo \<le> hi" "\<And>i. lo \<le> i \<Longrightarrow> i < p \<Longrightarrow> at_or_below i" "\<And>i. p \<le> i \<Longrightarrow> i < hi \<Longrightarrow> \<not> at_or_below i" "lo \<le> p" "p \<le> hi"
  shows "bisect at_or_below lo hi = p"
  using assms
proof (induction at_or_below lo hi rule: bisect.induct)
  case (1 P lo hi)
  let ?mid = "lo + (hi - lo) div 2"
  show ?case
  proof (cases "lo < hi")
    case True
    then have mid: "lo \<le> ?mid" "?mid < hi" by auto
    show ?thesis
    proof (cases "P ?mid")
      case True
      then have "?mid < p" using 1(5) mid by (meson not_le)
      then have "bisect P (?mid + 1) hi = p" using 1(1) [OF \<open>lo < hi\<close> refl True] 1(4-7) mid by auto
      then show ?thesis using True \<open>lo < hi\<close> by (subst bisect.simps) simp
    next
      case False
      then have "p \<le> ?mid" using 1(4) mid by (meson not_le)
      then have "bisect P lo ?mid = p" using 1(2) [OF \<open>lo < hi\<close> refl False] 1(4-7) mid by auto
      then show ?thesis using False \<open>lo < hi\<close> by (subst bisect.simps) simp
    qed
  next
    case False
    then show ?thesis using 1(6, 7) by (subst bisect.simps) simp
  qed
qed

lemma last_at_or_below_split:
  assumes "\<forall>k\<in>set as. k \<le> key" "\<forall>k\<in>set bs. key < k"
  shows "last_at_or_below (as @ bs) key = (if as = [] then None else Some (length as - 1))"
proof -
  have "bisect (\<lambda>i. (as @ bs) ! i \<le> key) 0 (length (as @ bs)) = length as"
  proof (rule bisect_partition)
    fix i assume "length as \<le> i" "i < length (as @ bs)"
    then have "(as @ bs) ! i \<in> set bs" by (simp add: nth_append)
    then show "\<not> (as @ bs) ! i \<le> key" using assms(2) by auto
  qed (use assms(1) in \<open>auto simp: nth_append\<close>)
  then show ?thesis by (simp add: last_at_or_below_def)
qed

text \<open>The slot that covers a key: the last one at or below it.\<close>

definition covering :: "sec_key \<Rightarrow> slot list \<Rightarrow> slot option" where
  "covering key ss = (let ys = filter (\<lambda>s. slot_first s \<le> key) ss in if ys = [] then None else Some (last ys))"

lemma covering_split:
  assumes "\<forall>s\<in>set as. slot_first s \<le> key" "\<forall>s\<in>set bs. key < slot_first s"
  shows "covering key (as @ bs) = (if as = [] then None else Some (last as))"
proof -
  have "filter (\<lambda>s. slot_first s \<le> key) as = as" "filter (\<lambda>s. slot_first s \<le> key) bs = []"
    using assms by (auto simp: filter_id_conv filter_empty_conv)
  then show ?thesis by (simp add: covering_def)
qed

text \<open>Where a key goes among the children of a node.\<close>

lemma route_children:
  assumes "ascending (concat (map sp_slots ts))" "\<forall>t\<in>set ts. sp_slots t \<noteq> []"
  obtains (before) "\<forall>s\<in>set (concat (map sp_slots ts)). key < slot_first s"
  | (inside) lts t rts where "ts = lts @ t # rts" "slot_first (hd (sp_slots t)) \<le> key"
      "\<forall>s\<in>set (concat (map sp_slots lts)). slot_first s < slot_first (hd (sp_slots t))"
      "\<forall>s\<in>set (concat (map sp_slots rts)). key < slot_first s"
  using assms
proof (induction ts arbitrary: thesis rule: rev_induct)
  case (snoc u ts)
  have u: "sp_slots u \<noteq> []" "hd (sp_slots u) \<in> set (sp_slots u)" using snoc.prems(4) by simp_all
  have asc: "ascending (concat (map sp_slots ts))" "ascending (sp_slots u)"
    "\<forall>s\<in>set (concat (map sp_slots ts)). \<forall>r\<in>set (sp_slots u). slot_first s < slot_first r"
    using snoc.prems(3) by (auto simp: sorted_wrt_append)
  have all: "\<forall>s\<in>set (sp_slots u). slot_first (hd (sp_slots u)) \<le> slot_first s"
    using asc(2) u(1) by (cases "sp_slots u") (auto simp: less_imp_le)
  show ?case
  proof (cases "slot_first (hd (sp_slots u)) \<le> key")
    case True
    show ?thesis using asc(3) u(2) True by (intro snoc.prems(2) [of ts u "[]"]) auto
  next
    case False
    then have above: "\<forall>s\<in>set (sp_slots u). key < slot_first s" using all by (meson less_le_trans not_le)
    show ?thesis
    proof (rule snoc.IH [OF _ _ asc(1)])
      assume "\<forall>s\<in>set (concat (map sp_slots ts)). key < slot_first s"
      then show thesis using above by (intro snoc.prems(1)) auto
    next
      fix lts t rts
      assume "ts = lts @ t # rts" "slot_first (hd (sp_slots t)) \<le> key"
        "\<forall>s\<in>set (concat (map sp_slots lts)). slot_first s < slot_first (hd (sp_slots t))"
        "\<forall>s\<in>set (concat (map sp_slots rts)). key < slot_first s"
      then show thesis using above by (intro snoc.prems(2) [of lts t "rts @ [u]"]) auto
    qed (use snoc.prems(4) in simp)
  qed
qed simp

text \<open>The branches' least keys then split the same way.\<close>

lemma branch_firsts_below:
  assumes "\<forall>s\<in>set (concat (map sp_slots ts)). P (slot_first s)" "\<forall>t\<in>set ts. sp_slots t \<noteq> []"
  shows "\<forall>k\<in>set (map branch_first (map sp_branch ts)). P k"
  using assms by (auto simp: dest!: bspec)

lemma slots_partition:
  assumes "ascending ss"
  obtains as bs where "ss = as @ bs" "\<forall>s\<in>set as. slot_first s \<le> key" "\<forall>s\<in>set bs. key < slot_first s"
proof
  let ?P = "\<lambda>s. slot_first s \<le> key"
  show "ss = takeWhile ?P ss @ dropWhile ?P ss" by simp
  show "\<forall>s\<in>set (takeWhile ?P ss). ?P s" by (blast dest: set_takeWhileD)
  show "\<forall>s\<in>set (dropWhile ?P ss). key < slot_first s"
    using assms by (induction ss) (auto intro: less_trans)
qed

lemma covering_inside:
  assumes "\<forall>s\<in>set as. slot_first s < slot_first (hd ss)" "ss \<noteq> []" "slot_first (hd ss) \<le> key" "\<forall>s\<in>set bs. key < slot_first s"
  shows "covering key (as @ ss @ bs) = covering key ss"
proof -
  have "filter (\<lambda>s. slot_first s \<le> key) bs = []" using assms(4) by (auto simp: filter_empty_conv)
  moreover have "filter (\<lambda>s. slot_first s \<le> key) ss \<noteq> []" using assms(2, 3) by (cases ss) auto
  ultimately show ?thesis by (auto simp: covering_def Let_def)
qed

lemma sparse_find_ok:
  assumes "sp_good (st_cap T) h t" "ascending (sp_slots t)" "list_all valid_slot (sp_slots t)" "sparse_caps T" "sp_heap T m (sp_nodes t)"
  shows "sparse_find_from (reads m) T key (sp_id t) = Ok (covering key (sp_slots t))"
  using assms
proof (induction h arbitrary: t)
  case 0
  then obtain i ss where t: "t = SL i ss" by (cases t) auto
  have l: "sparse_load (reads m) T i = Ok (SparseLeaf ss)"
    using sp_load [OF 0(1, 3, 4)] 0(5) t by (simp add: sp_nodes_eq)
  obtain as bs where s: "ss = as @ bs" "\<forall>s\<in>set as. slot_first s \<le> key" "\<forall>s\<in>set bs. key < slot_first s"
    using slots_partition 0(2) t by (metis sp_slots.simps(1))
  have "last_at_or_below (map slot_first ss) key = (if as = [] then None else Some (length as - 1))"
    using last_at_or_below_split [of "map slot_first as" key "map slot_first bs"] s by simp
  then show ?case using covering_split [OF s(2, 3)] l t s(1)
    by (subst sparse_find_from.simps) (auto simp: last_conv_nth nth_append)
next
  case (Suc h)
  then obtain i ts where t: "t = SN i ts" by (cases t) auto
  have l: "sparse_load (reads m) T i = Ok (SparseInternal (map sp_branch ts))"
    using sp_load [OF Suc.prems(1, 3, 4)] Suc.prems(5) t by (simp add: sp_nodes_eq)
  have ne: "\<forall>t\<in>set ts. sp_slots t \<noteq> []" and asc: "ascending (concat (map sp_slots ts))" using Suc.prems(1, 2) t by simp_all
  from asc ne show ?case
  proof (cases rule: route_children [where key = key])
    case before
    have "last_at_or_below (map branch_first (map sp_branch ts)) key = None"
      using last_at_or_below_split [of "[]" key "map branch_first (map sp_branch ts)"] branch_firsts_below [OF before ne] by simp
    moreover have "covering key (sp_slots t) = None" using covering_split [of "[]" key "sp_slots t"] before t by simp
    ultimately show ?thesis using l t by (subst sparse_find_from.simps) simp
  next
    case (inside lts u rts)
    have "u \<in> set ts" using inside(1) by simp
    then have "sp_slots u \<noteq> []" and u: "sp_good (st_cap T) h u" "ascending (sp_slots u)" "list_all valid_slot (sp_slots u)" "sp_heap T m (sp_nodes u)"
      using Suc.prems(1-3, 5) t inside(1) by (auto simp: sorted_wrt_append sp_nodes_eq)
    have "\<forall>k\<in>set (map branch_first (map sp_branch lts)). k < slot_first (hd (sp_slots u))"
      by (rule branch_firsts_below [OF inside(3)]) (use ne inside(1) in auto)
    moreover have "\<forall>k\<in>set (map branch_first (map sp_branch rts)). key < k"
      by (rule branch_firsts_below [OF inside(4)]) (use ne inside(1) in auto)
    ultimately have "last_at_or_below (map branch_first (map sp_branch ts)) key = Some (length lts)"
      using last_at_or_below_split [of "map branch_first (map sp_branch (lts @ [u]))" key "map branch_first (map sp_branch rts)"] inside(1, 2)
      by fastforce
    then have "step_to_key (SparseInternal (map sp_branch ts)) key = Some (StepChild (sp_id u) 0)" by (simp add: inside(1) nth_append)
    then have "sparse_find_from (reads m) T key i = sparse_find_from (reads m) T key (sp_id u)"
      using l by (subst sparse_find_from.simps) (simp del: step_to_key.simps)
    also have "\<dots> = Ok (covering key (sp_slots u))" by (rule Suc.IH [OF u(1-3) Suc.prems(4) u(4)])
    also have "covering key (sp_slots u) = covering key (sp_slots t)"
      using covering_inside [OF inside(3) \<open>sp_slots u \<noteq> []\<close> inside(2, 4)] t inside(1) by simp
    finally show ?thesis using t by simp
  qed
qed

section \<open>Contexts\<close>

datatype sp_frame = SF (sf_node: local_id) (sf_left: "spt list") (sf_right: "spt list")

definition sp_plug :: "sp_frame \<Rightarrow> spt \<Rightarrow> spt" where
  "sp_plug F t = SN (sf_node F) (sf_left F @ t # sf_right F)"

fun sp_plugs :: "sp_frame list \<Rightarrow> spt \<Rightarrow> spt" where
  "sp_plugs [] t = t"
| "sp_plugs (F # C) t = sp_plugs C (sp_plug F t)"

fun ctx_before :: "sp_frame list \<Rightarrow> slot list" where
  "ctx_before [] = []"
| "ctx_before (F # C) = ctx_before C @ concat (map sp_slots (sf_left F))"

fun ctx_after :: "sp_frame list \<Rightarrow> slot list" where
  "ctx_after [] = []"
| "ctx_after (F # C) = concat (map sp_slots (sf_right F)) @ ctx_after C"

definition frame_nodes :: "sp_frame \<Rightarrow> (local_id \<times> sparse_node) list" where
  "frame_nodes F = concat (map sp_nodes (sf_left F)) @ concat (map sp_nodes (sf_right F))"

text \<open>The ids of a context, and the nodes beside the path, which an edit leaves alone.\<close>

fun ctx_ids :: "sp_frame list \<Rightarrow> local_id list" where
  "ctx_ids [] = []"
| "ctx_ids (F # C) = sf_node F # map fst (frame_nodes F) @ ctx_ids C"

fun ctx_nodes :: "sp_frame list \<Rightarrow> (local_id \<times> sparse_node) list" where
  "ctx_nodes [] = []"
| "ctx_nodes (F # C) = frame_nodes F @ ctx_nodes C"

fun ctx_good :: "nat \<Rightarrow> nat \<Rightarrow> sp_frame list \<Rightarrow> bool" where
  "ctx_good cap h [] \<longleftrightarrow> True"
| "ctx_good cap h (F # C) \<longleftrightarrow> length (sf_left F) + length (sf_right F) < cap
     \<and> (\<forall>t\<in>set (sf_left F) \<union> set (sf_right F). sp_good cap h t \<and> sp_slots t \<noteq> []) \<and> ctx_good cap (Suc h) C"

definition frame_of :: "sp_frame \<Rightarrow> sparse_frame \<Rightarrow> bool" where
  "frame_of F f \<longleftrightarrow> sf_id f = sf_node F \<and> sf_idx f = length (sf_left F)
     \<and> (\<exists>b. sf_entries f = map sp_branch (sf_left F) @ b # map sp_branch (sf_right F))"

abbreviation path_of :: "sp_frame list \<Rightarrow> sparse_frame list \<Rightarrow> bool" where
  "path_of \<equiv> list_all2 frame_of"

lemma slots_plugs: "sp_slots (sp_plugs C t) = ctx_before C @ sp_slots t @ ctx_after C"
  by (induction C arbitrary: t) (simp_all add: sp_plug_def)

lemma sp_nodes_plugs:
  "mset (map fst (sp_nodes (sp_plugs C t))) = mset (ctx_ids C) + mset (map fst (sp_nodes t))"
  "set (ctx_nodes C) \<subseteq> set (sp_nodes (sp_plugs C t))" "set (sp_nodes t) \<subseteq> set (sp_nodes (sp_plugs C t))"
  by (induction C arbitrary: t) (auto simp: sp_plug_def frame_nodes_def sp_nodes_eq [of "SN _ _"] subset_iff)

lemma good_plugs: "sp_good cap (h + length C) (sp_plugs C t) \<Longrightarrow> length C \<le> h + length C \<Longrightarrow> ctx_good cap h C \<and> sp_good cap h t \<and> (C \<noteq> [] \<longrightarrow> sp_slots t \<noteq> [])"
proof (induction C arbitrary: h t)
  case (Cons F C)
  then show ?case using Cons.IH [of "Suc h" "sp_plug F t"] by (auto simp: sp_plug_def)
qed simp

definition sp_routed :: "sec_key \<Rightarrow> sp_frame list \<Rightarrow> bool" where
  "sp_routed key C \<longleftrightarrow> (\<forall>s\<in>set (ctx_before C). slot_first s < key) \<and> (\<forall>s\<in>set (ctx_after C). key < slot_first s)"

lemma branch_for_inside:
  assumes "\<forall>k\<in>set (map branch_first as). k \<le> key" "branch_first b \<le> key" "\<forall>k\<in>set (map branch_first bs). key < k"
  shows "branch_for (as @ b # bs) key = length as"
proof -
  have "takeWhile (\<lambda>b. branch_first b \<le> key) bs = []" using assms(3) by (cases bs) auto
  then show ?thesis using assms(1, 2) by (simp add: branch_for_def takeWhile_append2)
qed

lemma sparse_descend_ok:
  assumes "sp_good (st_cap T) h t" "ascending (sp_slots t)" "list_all valid_slot (sp_slots t)" "sparse_caps T" "sp_heap T m (sp_nodes t)"
    "path_of C path" "sp_routed key C"
  obtains C' path' i ss where "sparse_descend (reads m) T key path (sp_id t) = Ok (path', i, ss)" "path_of C' path'"
    "sp_plugs C' (SL i ss) = sp_plugs C t" "length C' = h + length C" "sp_routed key C'"
  using assms
proof (induction h arbitrary: t C path thesis)
  case 0
  obtain i ss where t: "t = SL i ss" using 0(2) by (cases t) auto
  have "sparse_load (reads m) T i = Ok (SparseLeaf ss)"
    using sp_load [OF 0(2, 4, 5)] 0(6) t by (simp add: sp_nodes_eq)
  then have "sparse_descend (reads m) T key path (sp_id t) = Ok (path, i, ss)" using t by (subst sparse_descend.simps) simp
  from 0(1) [OF this 0(7)] show ?case using t 0(8) by simp
next
  case (Suc h)
  obtain i ts where t: "t = SN i ts" using Suc.prems(2) by (cases t) auto
  have l: "sparse_load (reads m) T i = Ok (SparseInternal (map sp_branch ts))"
    using sp_load [OF Suc.prems(2, 4, 5)] Suc.prems(6) t by (simp add: sp_nodes_eq)
  have ne: "\<forall>t\<in>set ts. sp_slots t \<noteq> []" "ts \<noteq> []" and asc: "ascending (concat (map sp_slots ts))" using Suc.prems(2, 3) t by simp_all
  obtain lts u rts where split: "ts = lts @ u # rts" "branch_for (map sp_branch ts) key = length lts"
    "\<forall>s\<in>set (concat (map sp_slots lts)). slot_first s < key" "\<forall>s\<in>set (concat (map sp_slots rts)). key < slot_first s"
  proof (rule route_children [OF asc ne(1), of key])
    assume b: "\<forall>s\<in>set (concat (map sp_slots ts)). key < slot_first s"
    obtain u rts where "ts = u # rts" using ne(2) by (cases ts) auto
    then show thesis using branch_firsts_below [OF b ne(1)] b by (intro that [of "[]" u rts]) (auto simp: branch_for_def)
  next
    fix lts u rts
    assume r: "ts = lts @ u # rts" "slot_first (hd (sp_slots u)) \<le> key"
      "\<forall>s\<in>set (concat (map sp_slots lts)). slot_first s < slot_first (hd (sp_slots u))"
      "\<forall>s\<in>set (concat (map sp_slots rts)). key < slot_first s"
    have "\<forall>k\<in>set (map branch_first (map sp_branch lts)). k < slot_first (hd (sp_slots u))"
      by (rule branch_firsts_below [OF r(3)]) (use ne r(1) in auto)
    moreover have "\<forall>k\<in>set (map branch_first (map sp_branch rts)). key < k"
      by (rule branch_firsts_below [OF r(4)]) (use ne r(1) in auto)
    ultimately have "branch_for (map sp_branch ts) key = length lts"
      using branch_for_inside [of "map sp_branch lts" key "sp_branch u" "map sp_branch rts"] r(1, 2) by fastforce
    then show thesis using that [OF r(1)] r(2-4) by (meson less_le_trans)
  qed
  let ?F = "SF i lts rts" and ?f = "\<lparr>sf_id = i, sf_entries = map sp_branch ts, sf_idx = length lts\<rparr>"
  have f: "path_of (?F # C) (?f # path)" using Suc.prems(7) split(1) frame_of_def [of ?F ?f] by simp
  have r: "sp_routed key (?F # C)" using Suc.prems(8) split(3, 4) by (auto simp: sp_routed_def)
  have u: "sp_good (st_cap T) h u" "ascending (sp_slots u)" "list_all valid_slot (sp_slots u)" "sp_heap T m (sp_nodes u)"
    using Suc.prems(2-4, 6) t split(1) by (auto simp: sorted_wrt_append sp_nodes_eq)
  obtain C' path' i' ss where d: "sparse_descend (reads m) T key (?f # path) (sp_id u) = Ok (path', i', ss)" "path_of C' path'"
    "sp_plugs C' (SL i' ss) = sp_plugs (?F # C) u" "length C' = h + length (?F # C)" "sp_routed key C'"
    by (rule Suc.IH [OF _ u(1-3) Suc.prems(5) u(4) f r])
  have "sparse_descend (reads m) T key path (sp_id t) = Ok (path', i', ss)"
    using l t split(1, 2) d(1) by (subst sparse_descend.simps) (simp add: nth_append)
  from Suc.prems(1) [OF this d(2) _ _ d(5)] show ?case using d(3, 4) t split(1) by (simp add: sp_plug_def)
qed

section \<open>Batches of edits\<close>

text \<open>Puts and removals of the values under some ids.\<close>

definition edits :: "U48 \<Rightarrow> local_id set \<Rightarrow> write_op list \<Rightarrow> bool" where
  "edits tenant I ws \<longleftrightarrow> (\<forall>w\<in>set ws. (\<exists>i\<in>I. write_id w = to_id i tenant) \<and> (\<forall>h x e. w \<noteq> Expect h x e))"

lemma edits_simps [simp]:
  "edits tenant I []" "edits tenant I (ws @ vs) \<longleftrightarrow> edits tenant I ws \<and> edits tenant I vs"
  "edits tenant I (Put (to_id i tenant) b # ws) \<longleftrightarrow> (\<exists>j\<in>I. to_id i tenant = to_id j tenant) \<and> edits tenant I ws"
  "edits tenant I (Remove h (to_id i tenant) # ws) \<longleftrightarrow> (\<exists>j\<in>I. to_id i tenant = to_id j tenant) \<and> edits tenant I ws"
  by (auto simp: edits_def)

lemma edits_mono: "edits tenant I ws \<Longrightarrow> I \<subseteq> J \<Longrightarrow> edits tenant J ws"
  by (auto simp: edits_def) blast

lemma edits_frame:
  assumes "edits tenant I ws" "\<forall>i\<in>I. x \<noteq> to_id i tenant"
  shows "batch_effect ws m x = m x"
  using assms
proof (induction ws arbitrary: m)
  case (Cons w ws)
  then have "write_effect w m x = m x" by (cases w) (auto simp: edits_def)
  moreover have "edits tenant I ws" using Cons.prems(1) by (simp add: edits_def)
  ultimately show ?case using Cons.IH [of "write_effect w m"] Cons.prems(2) by simp
qed simp

lemma edits_keep:
  assumes "edits tenant I ws" "i \<notin> I" "u48_ok tenant"
  shows "batch_effect ws m (to_id i tenant) = m (to_id i tenant)"
  by (rule edits_frame [OF assms(1)]) (use assms(2, 3) in \<open>auto simp: to_id_inject\<close>)

lemma edits_no_conflict: "edits tenant I ws \<Longrightarrow> first_conflict ws m = None"
  by (induction ws m rule: first_conflict.induct) (auto simp: edits_def)

lemma heap_keep:
  assumes "sp_heap T m ns" "edits (st_tenant T) I ws" "I \<inter> fst ` set ns = {}" "u48_ok (st_tenant T)"
  shows "sp_heap T (batch_effect ws m) ns"
  unfolding sp_heap_def
proof (intro ballI, clarify)
  fix i b assume "(i, b) \<in> set ns"
  then have "i \<notin> I" "m (to_id i (st_tenant T)) = Some (sparse_to_bytes (st_lane T) b)" using assms(1, 3) by (force simp: sp_heap_def)+
  then show "batch_effect ws m (to_id i (st_tenant T)) = Some (sparse_to_bytes (st_lane T) b)" using edits_keep [OF assms(2) _ assms(4)] by simp
qed

section \<open>Climbing\<close>

text \<open>The node being edited: its children are in order, its own length may be one over the capacity or zero.\<close>

fun sp_focus :: "nat \<Rightarrow> nat \<Rightarrow> spt \<Rightarrow> bool" where
  "sp_focus cap 0 (SL _ ss) \<longleftrightarrow> length ss \<le> Suc cap"
| "sp_focus cap (Suc h) (SN _ ts) \<longleftrightarrow> length ts \<le> Suc cap \<and> (\<forall>t\<in>set ts. sp_good cap h t \<and> sp_slots t \<noteq> [])"
| "sp_focus cap _ _ \<longleftrightarrow> False"

lemma focus_first:
  "sp_focus cap h t \<Longrightarrow> node_first_key (sp_body t) = (if sp_slots t = [] then None else Some (slot_first (hd (sp_slots t))))"
  by (cases "(cap, h, t)" rule: sp_focus.cases) (auto split: list.splits)

lemma body_total: "node_total (sp_body t) = sp_count t"
proof (cases t)
  case (SN i ts)
  have "sum_list (map slot_count (concat (map sp_slots ts))) = sum_list (map sp_count ts)"
    by (induction ts) (simp_all add: sp_count_def)
  then show ?thesis using SN sp_count_def [of t] by (simp add: comp_def)
qed (simp add: sp_count_def)

lemma focus_good: "sp_focus cap h t \<Longrightarrow> node_len (sp_body t) \<le> cap \<Longrightarrow> sp_slots t \<noteq> [] \<Longrightarrow> sp_good cap h t"
  by (cases "(cap, h, t)" rule: sp_focus.cases) auto

text \<open>The two halves of a node over capacity, under given ids.\<close>

fun sp_lower :: "local_id \<Rightarrow> spt \<Rightarrow> spt" where
  "sp_lower i (SL _ ss) = SL i (take ((length ss + 1) div 2) ss)"
| "sp_lower i (SN _ ts) = SN i (take ((length ts + 1) div 2) ts)"

fun sp_upper :: "local_id \<Rightarrow> spt \<Rightarrow> spt" where
  "sp_upper i (SL _ ss) = SL i (drop ((length ss + 1) div 2) ss)"
| "sp_upper i (SN _ ts) = SN i (drop ((length ts + 1) div 2) ts)"

lemma halves_simps [simp]:
  "sp_id (sp_lower i t) = i" "sp_id (sp_upper i t) = i" "sp_slots (sp_lower i t) @ sp_slots (sp_upper j t) = sp_slots t"
  "sp_below (sp_lower i t) @ sp_below (sp_upper j t) = sp_below t"
  by (cases t; simp flip: concat_append map_append)+

lemma lower_body: "sp_body (sp_lower i t) = sp_body (sp_lower j t)"
  by (cases t) simp_all

lemma halves_good:
  assumes "sp_focus cap h t" "cap < node_len (sp_body t)" "2 \<le> cap"
  shows "sp_good cap h (sp_lower i t)" "sp_good cap h (sp_upper i t)" "sp_slots (sp_lower i t) \<noteq> []" "sp_slots (sp_upper i t) \<noteq> []"
proof -
  have "sp_good cap h (sp_lower i t) \<and> sp_good cap h (sp_upper i t) \<and> sp_slots (sp_lower i t) \<noteq> [] \<and> sp_slots (sp_upper i t) \<noteq> []"
  proof (cases t)
    case (SL j ss)
    then have "h = 0" "length ss = Suc cap" using assms(1, 2) by (cases h; auto)+
    then show ?thesis using SL assms(3) by (auto dest: arg_cong [of _ _ length])
  next
    case (SN j ts)
    then obtain h' where h: "h = Suc h'" "length ts = Suc cap" "\<forall>t\<in>set ts. sp_good cap h' t \<and> sp_slots t \<noteq> []" using assms(1, 2) by (cases h) auto
    let ?n = "(length ts + 1) div 2"
    have n: "take ?n ts \<noteq> []" "drop ?n ts \<noteq> []" "length (take ?n ts) \<le> cap" "length (drop ?n ts) \<le> cap" using h(2) assms(3) by auto
    have ne: "concat (map sp_slots us) \<noteq> []" if "us \<noteq> []" "set us \<subseteq> set ts" for us using that h(3) by (cases us) auto
    have sub: "set (take ?n ts) \<subseteq> set ts" "set (drop ?n ts) \<subseteq> set ts" by (auto dest: in_set_takeD in_set_dropD)
    show ?thesis using SN h(1, 3) n sub ne [OF n(1) sub(1)] ne [OF n(2) sub(2)] by auto
  qed
  then show "sp_good cap h (sp_lower i t)" "sp_good cap h (sp_upper i t)" "sp_slots (sp_lower i t) \<noteq> []" "sp_slots (sp_upper i t) \<noteq> []"
    by simp_all
qed

lemma good_first:
  "sp_good cap h t \<Longrightarrow> node_first_key (sp_body t) = (if sp_slots t = [] then None else Some (slot_first (hd (sp_slots t))))"
  by (cases "(cap, h, t)" rule: sp_good.cases) (auto split: list.splits)

lemma split_half:
  assumes "sp_focus cap h t" "cap < node_len (sp_body t)" "2 \<le> cap"
  shows "split_off_half (sp_body t) = (sp_body (sp_lower i t), Some (slot_first (hd (sp_slots (sp_upper j t))), sp_body (sp_upper j t)))"
proof -
  have first: "node_first_key (sp_body (sp_upper j t)) = Some (slot_first (hd (sp_slots (sp_upper j t))))"
    using good_first [OF halves_good(2) [OF assms]] halves_good(4) [OF assms] by simp
  show ?thesis
  proof (cases t)
    case (SL k ss)
    then show ?thesis using first by (simp add: split_off_half_def Let_def del: node_first_key.simps)
  next
    case (SN k ts)
    have "split_off_half (sp_body t) = (sp_body (sp_lower i t), map_option (\<lambda>first. (first, sp_body (sp_upper j t))) (node_first_key (sp_body (sp_upper j t))))"
      using SN by (simp add: split_off_half_def Let_def take_map drop_map)
    then show ?thesis unfolding first by simp
  qed
qed

lemma split_sibling_ok:
  assumes "sp_focus (st_cap T) h t" "2 \<le> st_cap T"
  shows "split_sibling mint T n (sp_body t) writes = (if node_len (sp_body t) \<le> st_cap T then (sp_body t, None, n, writes)
    else (sp_body (sp_lower i t), Some (sp_branch (sp_upper (mint n) t)), n + 1, writes @ [sparse_put T (mint n) (sp_body (sp_upper (mint n) t))]))"
  using split_half [OF assms(1) _ assms(2), of i "mint n"] by (auto simp: split_sibling_def sp_branch_def body_total)

text \<open>One level up: the edited node leaves no, one or two trees in its place.\<close>

definition replaced :: "sparse_tree \<Rightarrow> (nat \<Rightarrow> local_id) \<Rightarrow> nat \<Rightarrow> spt \<Rightarrow> spt list" where
  "replaced T mint n t = (if sp_slots t = [] then [] else if node_len (sp_body t) \<le> st_cap T then [t] else [sp_lower (sp_id t) t, sp_upper (mint n) t])"

definition replacing :: "sparse_tree \<Rightarrow> (nat \<Rightarrow> local_id) \<Rightarrow> nat \<Rightarrow> spt \<Rightarrow> write_op list" where
  "replacing T mint n t = (case replaced T mint n t of
      [lo, up] \<Rightarrow> [sparse_put T (mint n) (sp_body up), sparse_put T (sp_id t) (sp_body lo)]
    | [u] \<Rightarrow> [sparse_put T (sp_id t) (sp_body u)]
    | _ \<Rightarrow> [Remove (st_lane T) (to_id (sp_id t) (st_tenant T))])"

abbreviation minted :: "sparse_tree \<Rightarrow> (nat \<Rightarrow> local_id) \<Rightarrow> nat \<Rightarrow> spt \<Rightarrow> nat" where
  "minted T mint n t \<equiv> (if length (replaced T mint n t) = 2 then n + 1 else n)"

lemma climb_step:
  assumes "sp_focus (st_cap T) h t" "2 \<le> st_cap T" "frame_of F f"
  shows "climb mint T n (f # path) (sp_id t) (sp_body t) writes
    = climb mint T (minted T mint n t) path (sf_node F) (SparseInternal (map sp_branch (sf_left F @ replaced T mint n t @ sf_right F)))
        (writes @ replacing T mint n t)"
proof -
  obtain b where f: "sf_id f = sf_node F" "sf_idx f = length (sf_left F)" "sf_entries f = map sp_branch (sf_left F) @ b # map sp_branch (sf_right F)"
    using assms(3) by (auto simp: frame_of_def)
  have upd: "(sf_entries f)[sf_idx f := x] = map sp_branch (sf_left F) @ x # map sp_branch (sf_right F)" for x
    using f(2, 3) by (simp add: list_update_append)
  note first = focus_first [OF assms(1)] and split = split_sibling_ok [OF assms(1, 2), of mint n writes "sp_id t"]
  show ?thesis
  proof (cases "sp_slots t = []")
    case True
    then show ?thesis using first f by (simp add: remove_at_def replaced_def replacing_def)
  next
    case False
    have lo: "slot_first (hd (sp_slots t)) = slot_first (hd (sp_slots (sp_lower (sp_id t) t)))"
      if "st_cap T < node_len (sp_body t)"
      using halves_good(3) [OF assms(1) that assms(2)] halves_simps(3) [of "sp_id t" t "sp_id t"] by (metis hd_append2)
    show ?thesis
      using False first split f(1, 2) upd lo
      by (auto simp: replaced_def replacing_def sp_branch_def body_total insert_at_def not_le)
  qed
qed

abbreviation sp_ids :: "spt \<Rightarrow> local_id list" where
  "sp_ids t \<equiv> sp_id t # map fst (sp_below t)"

lemma sp_ids_nodes: "map fst (sp_nodes t) = sp_ids t"
  by (simp add: sp_nodes_eq)

lemma put_heap:
  assumes "sp_heap T m ns" "i \<notin> fst ` set ns" "u48_ok (st_tenant T)"
  shows "sp_heap T (m(to_id i (st_tenant T) \<mapsto> sparse_to_bytes (st_lane T) b)) ((i, b) # ns)"
  using heap_keep [of T m ns "{i}" "[sparse_put T i b]"] assms by (simp add: sparse_put_def)

lemma replaced_facts:
  assumes "sp_focus (st_cap T) h t" "2 \<le> st_cap T"
  shows "\<forall>r\<in>set (replaced T mint n t). sp_good (st_cap T) h r \<and> sp_slots r \<noteq> []" "length (replaced T mint n t) \<le> 2"
    "concat (map sp_slots (replaced T mint n t)) = sp_slots t"
    "edits (st_tenant T) (insert (sp_id t) (mint ` {n..<minted T mint n t})) (replacing T mint n t)"
  using halves_good [OF assms(1) _ assms(2)] focus_good [OF assms(1)]
  by (auto simp: replaced_def replacing_def sparse_put_def)

lemma replaced_nodes:
  assumes "sp_focus (st_cap T) h t" "sparse_caps T" "sp_heap T m (sp_below t)" "distinct (sp_ids t)" "mint n \<notin> set (sp_ids t)"
  shows "distinct (map fst (concat (map sp_nodes (replaced T mint n t))))"
    "fst ` set (concat (map sp_nodes (replaced T mint n t))) \<subseteq> set (sp_ids t) \<union> mint ` {n..<minted T mint n t}"
    "sp_heap T (batch_effect (replacing T mint n t) m) (concat (map sp_nodes (replaced T mint n t)))"
proof -
  let ?lo = "sp_lower (sp_id t) t" and ?up = "sp_upper (mint n) t"
  have ten: "u48_ok (st_tenant T)" using assms(2) by (simp add: sparse_caps_def)
  define A B where "A = sp_below ?lo" and "B = sp_below ?up"
  have below: "sp_below t = A @ B" by (simp add: A_def B_def)
  have nodes: "sp_nodes ?lo = (sp_id t, sp_body ?lo) # A" "sp_nodes ?up = (mint n, sp_body ?up) # B" by (simp_all add: sp_nodes_eq A_def B_def)
  have "mint n \<notin> fst ` set (A @ B)" "sp_heap T m (A @ B)" using assms(3, 5) below by auto
  from put_heap [OF this(2, 1) ten, of "sp_body ?up"]
  have up: "sp_heap T (m(to_id (mint n) (st_tenant T) \<mapsto> sparse_to_bytes (st_lane T) (sp_body ?up))) ((mint n, sp_body ?up) # A @ B)" .
  have "sp_id t \<notin> fst ` set ((mint n, sp_body ?up) # A @ B)" using assms(4, 5) below by auto
  from put_heap [OF up this ten, of "sp_body ?lo"]
  have two: "sp_heap T (batch_effect [sparse_put T (mint n) (sp_body ?up), sparse_put T (sp_id t) (sp_body ?lo)] m)
      ((sp_id t, sp_body ?lo) # (mint n, sp_body ?up) # A @ B)" by (simp add: sparse_put_def)
  have one: "sp_heap T (batch_effect [sparse_put T (sp_id t) (sp_body t)] m) (sp_nodes t)"
    using put_heap [OF assms(3) _ ten, of "sp_id t" "sp_body t"] assms(4) by (auto simp: sparse_put_def sp_nodes_eq)
  show "distinct (map fst (concat (map sp_nodes (replaced T mint n t))))"
    using assms(4, 5) by (auto simp: replaced_def nodes below sp_nodes_eq [of t])
  show "fst ` set (concat (map sp_nodes (replaced T mint n t))) \<subseteq> set (sp_ids t) \<union> mint ` {n..<minted T mint n t}"
    by (auto simp: replaced_def nodes below sp_nodes_eq [of t])
  show "sp_heap T (batch_effect (replacing T mint n t) m) (concat (map sp_nodes (replaced T mint n t)))"
    using one two by (auto simp: replaced_def replacing_def nodes simp del: batch_effect_simps)
qed

text \<open>At the root: it keeps its id, growing a level when it overflows and turning into an empty leaf when
  it lost its last child.\<close>

lemma climb_root_ok:
  assumes "sparse_caps T" "sp_focus (st_cap T) h t" "sp_id t = st_root T" "sp_heap T m (sp_below t)" "distinct (sp_ids t)"
    "mint n \<notin> set (sp_ids t)" "mint (n + 1) \<notin> set (sp_ids t)" "mint n \<noteq> mint (n + 1)"
  obtains n' ws t' h' where "\<forall>writes. climb_root mint T n (sp_body t) writes = (n', writes @ ws)" "n \<le> n'" "n' \<le> n + 2"
    "sp_good (st_cap T) h' t'" "sp_id t' = st_root T" "sp_slots t' = sp_slots t" "distinct (sp_ids t')"
    "set (sp_ids t') \<subseteq> set (sp_ids t) \<union> mint ` {n..<n'}" "sp_heap T (batch_effect ws m) (sp_nodes t')"
    "edits (st_tenant T) (set (sp_ids t) \<union> mint ` {n..<n'}) ws" "h' \<le> Suc h"
proof -
  have ten: "u48_ok (st_tenant T)" and cap: "2 \<le> st_cap T" using assms(1) by (simp_all add: sparse_caps_def)
  note split = split_sibling_ok [OF assms(2) cap, of mint n _ "mint (n + 1)"]
  show thesis
  proof (cases "node_len (sp_body t) \<le> st_cap T")
    case True
    define u where "u = (if sp_body t = SparseInternal [] then SL (st_root T) [] else t)"
    have "climb_root mint T n (sp_body t) writes = (n, writes @ [sparse_put T (st_root T) (sp_body u)])" for writes
      using True split [of writes] by (simp add: climb_root_def Let_def u_def)
    moreover have empty: "sp_slots t = []" "sp_below t = []" if "sp_body t = SparseInternal []" using that by (cases t; simp)+
    have "\<exists>h'\<le>Suc h. sp_good (st_cap T) h' u"
    proof (cases "sp_slots t = []")
      case True
      then have "u = SL (st_root T) []" using assms(2, 3) by (cases "(st_cap T, h, t)" rule: sp_focus.cases) (auto simp: u_def)
      then have "sp_good (st_cap T) 0 u" by simp
      then show ?thesis by blast
    next
      case False
      then show ?thesis using focus_good [OF assms(2) True False] empty(1) by (intro exI [of _ h]) (auto simp: u_def)
    qed
    then obtain h' where "sp_good (st_cap T) h' u" "h' \<le> Suc h" by blast
    moreover have u: "sp_id u = st_root T" "sp_slots u = sp_slots t" "sp_below u = sp_below t" using assms(3) empty by (auto simp: u_def)
    have "st_root T \<notin> fst ` set (sp_below t)" using assms(3, 5) by simp
    from put_heap [OF assms(4) this ten, of "sp_body u"]
    have "sp_heap T (batch_effect [sparse_put T (st_root T) (sp_body u)] m) (sp_nodes u)" using u(1, 3) by (simp add: sparse_put_def sp_nodes_eq)
    ultimately show thesis using that [of n "[sparse_put T (st_root T) (sp_body u)]" h' u] u assms(3, 5) by (auto simp: sparse_put_def)
  next
    case False
    let ?lo = "sp_lower (mint (n + 1)) t" and ?up = "sp_upper (mint n) t"
    have over: "st_cap T < node_len (sp_body t)" using False by simp
    note g = halves_good [OF assms(2) over cap]
    define A B where "A = sp_below ?lo" and "B = sp_below ?up"
    have below: "sp_below t = A @ B" by (simp add: A_def B_def)
    have nodes: "sp_nodes ?lo = (mint (n + 1), sp_body ?lo) # A" "sp_nodes ?up = (mint n, sp_body ?up) # B" by (simp_all add: sp_nodes_eq A_def B_def)
    let ?u = "SN (st_root T) [?lo, ?up]"
    let ?ws = "[sparse_put T (mint n) (sp_body ?up), sparse_put T (mint (n + 1)) (sp_body ?lo), sparse_put T (st_root T) (sp_body ?u)]"
    have c: "climb_root mint T n (sp_body t) writes = (n + 2, writes @ ?ws)" for writes
      using False split [of writes] good_first [OF g(1)] g(3) by (simp add: climb_root_def Let_def sp_branch_def body_total)
    have "sp_heap T m (A @ B)" "mint n \<notin> fst ` set (A @ B)" using assms(4, 6) below by auto
    from put_heap [OF this ten, of "sp_body ?up"] have h1: "sp_heap T (batch_effect [sparse_put T (mint n) (sp_body ?up)] m) ((mint n, sp_body ?up) # A @ B)"
      by (simp add: sparse_put_def)
    have "mint (n + 1) \<notin> fst ` set ((mint n, sp_body ?up) # A @ B)" using assms(7, 8) below by auto
    from put_heap [OF h1 this ten, of "sp_body ?lo"]
    have h2: "sp_heap T (batch_effect [sparse_put T (mint n) (sp_body ?up), sparse_put T (mint (n + 1)) (sp_body ?lo)] m)
      ((mint (n + 1), sp_body ?lo) # (mint n, sp_body ?up) # A @ B)" by (simp add: sparse_put_def)
    have "st_root T \<notin> fst ` set ((mint (n + 1), sp_body ?lo) # (mint n, sp_body ?up) # A @ B)" using assms(3, 5-7) below by auto
    from put_heap [OF h2 this ten, of "sp_body ?u"]
    have all: "sp_heap T (batch_effect ?ws m) ((st_root T, sp_body ?u) # (mint (n + 1), sp_body ?lo) # (mint n, sp_body ?up) # A @ B)"
      unfolding sparse_put_def batch_effect_simps write_effect.simps .
    have all_nodes: "sp_nodes ?u = (st_root T, sp_body ?u) # sp_nodes ?lo @ sp_nodes ?up" by (subst sp_nodes_eq) simp
    have h3: "sp_heap T (batch_effect ?ws m) (sp_nodes ?u)" by (rule sp_heap_mono [OF all]) (unfold all_nodes nodes, auto)
    have ids: "sp_ids ?u = st_root T # mint (n + 1) # map fst A @ mint n # map fst B" using nodes by simp
    have d: "distinct (sp_ids ?u)" unfolding ids using assms(3, 5-8) below by auto
    have r: "{n..<n + 2} = {n, n + 1}" by auto
    have sub: "set (sp_ids ?u) \<subseteq> set (sp_ids t) \<union> mint ` {n..<n + 2}" unfolding ids r using assms(3) below by auto
    have gu: "sp_good (st_cap T) (Suc h) ?u" using g cap by simp
    have e: "edits (st_tenant T) (set (sp_ids t) \<union> mint ` {n..<n + 2}) ?ws" unfolding r using assms(3) by (auto simp: sparse_put_def)
    have sl: "sp_slots ?u = sp_slots t" by simp
    show thesis by (rule that [OF _ _ _ gu _ sl d sub h3 e order_refl]) (use c in auto)
  qed
qed

lemma id_plugs: "sp_id (sp_plugs C t) = (if C = [] then sp_id t else sf_node (last C))"
  by (induction C arbitrary: t) (auto simp: sp_plug_def)

lemma disjoint_cover: "M \<inter> (I \<union> X) = {} \<Longrightarrow> M \<inter> N = {} \<Longrightarrow> R \<subseteq> I \<union> N \<Longrightarrow> M \<inter> (X \<union> R) = {}"
  by blast

lemma covered_union: "R \<subseteq> I \<union> N \<Longrightarrow> M \<subseteq> K \<Longrightarrow> N \<subseteq> K \<Longrightarrow> X \<union> R \<union> M \<subseteq> I \<union> X \<union> K"
  by blast

lemma ctx_nodes_ids: "fst ` set (ctx_nodes C) \<subseteq> set (ctx_ids C)"
  by (induction C) auto

lemma climb_ok:
  assumes "sparse_caps T" "ctx_good (st_cap T) h C" "sp_focus (st_cap T) h t" "path_of C path" "sp_id (sp_plugs C t) = st_root T"
    "sp_heap T m (sp_below t)" "sp_heap T m (ctx_nodes C)" "distinct (sp_ids t @ ctx_ids C)"
    "inj_on mint {n..n + length C + 1}" "mint ` {n..n + length C + 1} \<inter> set (sp_ids t @ ctx_ids C) = {}"
  obtains n' ws t' h' where "\<forall>writes. climb mint T n path (sp_id t) (sp_body t) writes = (n', writes @ ws)" "n \<le> n'" "n' \<le> n + length C + 2"
    "sp_good (st_cap T) h' t'" "sp_id t' = st_root T" "sp_slots t' = ctx_before C @ sp_slots t @ ctx_after C" "distinct (sp_ids t')"
    "set (sp_ids t') \<subseteq> set (sp_ids t @ ctx_ids C) \<union> mint ` {n..<n'}" "sp_heap T (batch_effect ws m) (sp_nodes t')"
    "edits (st_tenant T) (set (sp_ids t @ ctx_ids C) \<union> mint ` {n..<n'}) ws" "h' \<le> Suc (h + length C)"
  using assms(2-)
proof (induction C arbitrary: h t path m n thesis)
  case Nil
  have r: "{n..n + length ([] :: sp_frame list) + 1} = {n, n + 1}" by auto
  have m: "mint n \<notin> set (sp_ids t)" "mint (n + 1) \<notin> set (sp_ids t)" "mint n \<noteq> mint (n + 1)"
    using Nil.prems(9, 10) unfolding r by auto
  have root: "sp_id t = st_root T" "distinct (sp_ids t)" "path = []" using Nil.prems(4, 5, 8) by simp_all
  obtain n' ws t' h' where c: "\<forall>writes. climb_root mint T n (sp_body t) writes = (n', writes @ ws)" "n \<le> n'" "n' \<le> n + 2"
    "sp_good (st_cap T) h' t'" "sp_id t' = st_root T" "sp_slots t' = sp_slots t" "distinct (sp_ids t')"
    "set (sp_ids t') \<subseteq> set (sp_ids t) \<union> mint ` {n..<n'}" "sp_heap T (batch_effect ws m) (sp_nodes t')"
    "edits (st_tenant T) (set (sp_ids t) \<union> mint ` {n..<n'}) ws" "h' \<le> Suc h"
    by (rule climb_root_ok [OF assms(1) Nil.prems(3) root(1) Nil.prems(6) root(2) m])
  show ?case by (rule Nil.prems(1) [OF _ c(2) _ c(4, 5) _ c(7) _ c(9)]) (use c(1, 3, 6, 8, 10, 11) root(3) in simp_all)
next
  case (Cons F C)
  obtain f path' where path: "path = f # path'" "frame_of F f" "path_of C path'" using Cons.prems(4) by (auto simp: list_all2_Cons1)
  have ten: "u48_ok (st_tenant T)" and cap: "2 \<le> st_cap T" using assms(1) by (simp_all add: sparse_caps_def)
  define rs ws0 n1 where "rs = replaced T mint n t" and "ws0 = replacing T mint n t" and "n1 = minted T mint n t"
  define u where "u = SN (sf_node F) (sf_left F @ rs @ sf_right F)"
  have n1: "n \<le> n1" "n1 \<le> n + 1" by (auto simp: n1_def)
  have "mint n \<in> mint ` {n..n + length (F # C) + 1}" by simp
  then have fresh: "mint n \<notin> set (sp_ids t @ ctx_ids (F # C))" using Cons.prems(10) by blast
  note r = replaced_facts [OF Cons.prems(3) cap, of mint n, folded rs_def ws0_def n1_def]
  have dt: "distinct (sp_ids t)" "mint n \<notin> set (sp_ids t)" using Cons.prems(8) fresh by auto
  note q = replaced_nodes [where mint = mint and n = n, OF Cons.prems(3) assms(1) Cons.prems(6) dt, folded rs_def ws0_def n1_def]
  have step: "climb mint T n path (sp_id t) (sp_body t) writes = climb mint T n1 path' (sp_id u) (sp_body u) (writes @ ws0)" for writes
    unfolding path(1) climb_step [OF Cons.prems(3) cap path(2)] by (simp add: u_def rs_def ws0_def n1_def)
  have used: "insert (sp_id t) (mint ` {n..<n1}) \<subseteq> set (sp_ids t) \<union> {mint n}"
  proof -
    have "{n..<n1} \<subseteq> {n}" using n1 by auto
    then show ?thesis by auto
  qed
  have apart: "(set (sp_ids t) \<union> {mint n}) \<inter> set (ctx_ids (F # C)) = {}"
    using fresh Cons.prems(8) unfolding distinct_append set_append by blast
  have keep: "sp_heap T (batch_effect ws0 m) ns" if "sp_heap T m ns" "fst ` set ns \<subseteq> set (ctx_ids (F # C))" for ns
    by (rule heap_keep [OF that(1) r(4) _ ten]) (use that(2) used apart in blast)
  have below: "sp_below u = concat (map sp_nodes (sf_left F)) @ concat (map sp_nodes rs) @ concat (map sp_nodes (sf_right F))" by (simp add: u_def)
  have sib: "sp_heap T (batch_effect ws0 m) (frame_nodes F)" "sp_heap T (batch_effect ws0 m) (ctx_nodes C)"
    by (rule keep; use Cons.prems(7) ctx_nodes_ids [of C] in \<open>simp add: le_supI2 subset_insertI2\<close>)+
  have heap: "sp_heap T (batch_effect ws0 m) (sp_below u)" unfolding below using sib(1) q(3) by (simp add: frame_nodes_def)
  have focus: "sp_focus (st_cap T) (Suc h) u" using Cons.prems(2) r(1, 2) by (auto simp: u_def)
  have ctx: "ctx_good (st_cap T) (Suc h) C" using Cons.prems(2) by simp
  have root: "sp_id (sp_plugs C u) = st_root T" using Cons.prems(5) by (simp add: id_plugs u_def sp_plug_def split: if_splits)
  have rs: "fst ` set (concat (map sp_nodes rs)) \<subseteq> set (sp_ids t) \<union> mint ` {n..<n1}" by (rule q(2))
  have ids: "set (sp_ids u @ ctx_ids C) = set (ctx_ids (F # C)) \<union> fst ` set (concat (map sp_nodes rs))"
    by (auto simp: u_def frame_nodes_def)
  have d: "distinct (sp_ids u @ ctx_ids C)"
  proof -
    have "distinct (ctx_ids (F # C))" "distinct (map fst (concat (map sp_nodes rs)))" using Cons.prems(8) q(1) by simp_all
    moreover have "fst ` set (concat (map sp_nodes rs)) \<inter> set (ctx_ids (F # C)) = {}"
      using rs used apart by blast
    moreover have "mset (sp_ids u @ ctx_ids C) = mset (ctx_ids (F # C)) + mset (map fst (concat (map sp_nodes rs)))"
      by (simp add: u_def frame_nodes_def)
    ultimately show ?thesis by (metis distinct_append mset_append mset_eq_imp_distinct_iff set_map inf_commute)
  qed
  have range: "{n1..n1 + length C + 1} \<subseteq> {n..n + length (F # C) + 1}" using n1 by auto
  have inj: "inj_on mint {n1..n1 + length C + 1}" by (rule inj_on_subset [OF Cons.prems(9) range])
  have dis: "mint ` {n1..n1 + length C + 1} \<inter> set (sp_ids u @ ctx_ids C) = {}"
  proof -
    have "mint ` {n1..n1 + length C + 1} \<inter> (set (sp_ids t) \<union> set (ctx_ids (F # C))) = {}"
      using range Cons.prems(10) unfolding set_append by blast
    moreover have "mint ` {n1..n1 + length C + 1} \<inter> mint ` {n..<n1} = {}"
      using Cons.prems(9) n1 by (auto simp: inj_on_def) fastforce
    ultimately show ?thesis unfolding ids by (rule disjoint_cover [OF _ _ rs])
  qed
  obtain n' ws t' h' where c: "\<forall>writes. climb mint T n1 path' (sp_id u) (sp_body u) writes = (n', writes @ ws)" "n1 \<le> n'" "n' \<le> n1 + length C + 2"
    "sp_good (st_cap T) h' t'" "sp_id t' = st_root T" "sp_slots t' = ctx_before C @ sp_slots u @ ctx_after C" "distinct (sp_ids t')"
    "set (sp_ids t') \<subseteq> set (sp_ids u @ ctx_ids C) \<union> mint ` {n1..<n'}" "sp_heap T (batch_effect ws (batch_effect ws0 m)) (sp_nodes t')"
    "edits (st_tenant T) (set (sp_ids u @ ctx_ids C) \<union> mint ` {n1..<n'}) ws" "h' \<le> Suc (Suc h + length C)"
    by (rule Cons.IH [OF _ ctx focus path(3) root heap sib(2) d inj dis])
  let ?I = "set (sp_ids t @ ctx_ids (F # C)) \<union> mint ` {n..<n'}"
  have sub: "set (sp_ids u @ ctx_ids C) \<union> mint ` {n1..<n'} \<subseteq> ?I"
  proof -
    have "mint ` {n1..<n'} \<subseteq> mint ` {n..<n'}" "mint ` {n..<n1} \<subseteq> mint ` {n..<n'}" using c(2) n1 by auto
    then show ?thesis unfolding ids set_append [of "sp_ids t"] by (rule covered_union [OF rs])
  qed
  have "insert (sp_id t) (mint ` {n..<n1}) \<subseteq> ?I" using c(2) by auto
  then have e: "edits (st_tenant T) ?I (ws0 @ ws)" using edits_mono [OF r(4)] edits_mono [OF c(10) sub] by simp
  have sl: "sp_slots t' = ctx_before (F # C) @ sp_slots t @ ctx_after (F # C)" using c(6) r(3) by (simp add: u_def)
  have hp: "sp_heap T (batch_effect (ws0 @ ws) m) (sp_nodes t')" using c(9) by simp
  show ?case
    by (rule Cons.prems(1) [OF _ _ _ c(4, 5) sl c(7) subset_trans [OF c(8) sub] hp e]) (use step c(1-3, 11) n1 in simp_all)
qed

section \<open>Upserts and removals\<close>

definition put_slot :: "slot \<Rightarrow> slot list \<Rightarrow> slot list" where
  "put_slot s ss = filter (\<lambda>x. slot_first x < slot_first s) ss @ s # filter (\<lambda>x. slot_first s < slot_first x) ss"

definition drop_slot :: "sec_key \<Rightarrow> slot list \<Rightarrow> slot list" where
  "drop_slot k ss = filter (\<lambda>x. slot_first x \<noteq> k) ss"

lemma put_slot_split:
  assumes "\<forall>x\<in>set as. slot_first x < slot_first s" "\<forall>x\<in>set bs. slot_first s < slot_first x" "\<forall>x\<in>set os. slot_first x = slot_first s"
  shows "put_slot s (as @ os @ bs) = as @ s # bs"
proof -
  have "filter (\<lambda>x. slot_first x < slot_first s) as = as" "filter (\<lambda>x. slot_first s < slot_first x) bs = bs" using assms by simp_all
  moreover have "filter (\<lambda>x. slot_first x < slot_first s) os = []" "filter (\<lambda>x. slot_first s < slot_first x) os = []"
    using assms(3) by (simp_all add: filter_empty_conv)
  moreover have "filter (\<lambda>x. slot_first x < slot_first s) bs = []" "filter (\<lambda>x. slot_first s < slot_first x) as = []"
    using assms(1, 2) by (simp_all add: filter_empty_conv order.strict_implies_not_eq not_less less_imp_le)
  ultimately show ?thesis by (simp add: put_slot_def)
qed

lemma drop_slot_split:
  assumes "\<forall>x\<in>set as. slot_first x < k" "\<forall>x\<in>set bs. k < slot_first x" "\<forall>x\<in>set os. slot_first x = k"
  shows "drop_slot k (as @ os @ bs) = as @ bs"
proof -
  have "filter (\<lambda>x. slot_first x \<noteq> k) os = []" using assms(3) by (simp add: filter_empty_conv)
  moreover have "filter (\<lambda>x. slot_first x \<noteq> k) as = as" "filter (\<lambda>x. slot_first x \<noteq> k) bs = bs"
    using assms(1, 2) by (auto simp: filter_id_conv)
  ultimately show ?thesis by (simp add: drop_slot_def)
qed

lemma slots_put_ok:
  assumes "ascending ss" "list_all valid_slot ss" "valid_slot s"
  shows "ascending (put_slot s ss)" "list_all valid_slot (put_slot s ss)"
  using assms by (auto simp: put_slot_def sorted_wrt_append list_all_iff sorted_wrt_map sorted_wrt_filter)

lemma slots_drop_ok:
  assumes "ascending ss" "list_all valid_slot ss"
  shows "ascending (drop_slot k ss)" "list_all valid_slot (drop_slot k ss)"
  using assms by (auto simp: drop_slot_def list_all_iff sorted_wrt_map sorted_wrt_filter)

text \<open>An edit of the leaf a descent reached.\<close>

lemma edit_leaf:
  assumes "sparse_caps T" "sp_inv T m t h" "path_of C path" "sp_plugs C (SL i ss) = t" "length C = h" "length ss' \<le> Suc (length ss)"
    "ascending (ctx_before C @ ss' @ ctx_after C)" "list_all valid_slot (ctx_before C @ ss' @ ctx_after C)"
    "inj_on mint {n..n + h + 1}" "mint ` {n..n + h + 1} \<inter> set (sp_ids t) = {}"
  obtains n' ws t' h' where "climb mint T n path i (SparseLeaf ss') [] = (n', ws)" "n \<le> n'" "n' \<le> n + h + 2"
    "sp_inv T (batch_effect ws m) t' h'" "sp_slots t' = ctx_before C @ ss' @ ctx_after C"
    "set (sp_ids t') \<subseteq> set (sp_ids t) \<union> mint ` {n..<n'}" "edits (st_tenant T) (set (sp_ids t) \<union> mint ` {n..<n'}) ws" "h' \<le> Suc h"
proof -
  have inv: "sp_good (st_cap T) (0 + length C) (sp_plugs C (SL i ss))" "distinct (map fst (sp_nodes t))" "sp_id t = st_root T" "sp_heap T m (sp_nodes t)"
    using assms(2, 4, 5) by (simp_all add: sp_inv_def)
  have g: "ctx_good (st_cap T) 0 C" "sp_good (st_cap T) 0 (SL i ss)" using good_plugs [OF inv(1)] by simp_all
  have focus: "sp_focus (st_cap T) 0 (SL i ss')" using g(2) assms(6) by simp
  have root: "sp_id (sp_plugs C (SL i ss')) = st_root T" using inv(3) unfolding assms(4) [symmetric] id_plugs by (simp split: if_splits)
  have perm: "mset (sp_ids t) = mset (ctx_ids C) + mset [i]"
    using sp_nodes_plugs(1) [of C "SL i ss"] unfolding assms(4) sp_ids_nodes by simp
  then have perm': "mset (sp_ids (SL i ss') @ ctx_ids C) = mset (sp_ids t)" by simp
  then have ids: "set (sp_ids t) = set (sp_ids (SL i ss') @ ctx_ids C)" by (rule mset_eq_setD [symmetric])
  have d: "distinct (sp_ids (SL i ss') @ ctx_ids C)"
    using inv(2) mset_eq_imp_distinct_iff [OF perm'] unfolding sp_ids_nodes by blast
  have heap: "sp_heap T m (ctx_nodes C)" by (rule sp_heap_mono [OF inv(4)]) (use sp_nodes_plugs(2) assms(4) in blast)
  have dis: "mint ` {n..n + length C + 1} \<inter> set (sp_ids (SL i ss') @ ctx_ids C) = {}"
    unfolding ids [symmetric] assms(5) by (rule assms(10))
  have inj: "inj_on mint {n..n + length C + 1}" using assms(5, 9) by simp
  obtain n' ws t' h' where c: "\<forall>writes. climb mint T n path (sp_id (SL i ss')) (sp_body (SL i ss')) writes = (n', writes @ ws)" "n \<le> n'" "n' \<le> n + length C + 2"
    "sp_good (st_cap T) h' t'" "sp_id t' = st_root T" "sp_slots t' = ctx_before C @ sp_slots (SL i ss') @ ctx_after C" "distinct (sp_ids t')"
    "set (sp_ids t') \<subseteq> set (sp_ids (SL i ss') @ ctx_ids C) \<union> mint ` {n..<n'}" "sp_heap T (batch_effect ws m) (sp_nodes t')"
    "edits (st_tenant T) (set (sp_ids (SL i ss') @ ctx_ids C) \<union> mint ` {n..<n'}) ws" "h' \<le> Suc (0 + length C)"
    by (rule climb_ok [OF assms(1) g(1) focus assms(3) root _ heap d inj dis]) simp_all
  have "sp_inv T (batch_effect ws m) t' h'"
    using c(4-7, 9) assms(7, 8) unfolding sp_inv_def sp_ids_nodes by simp
  then show thesis using that [of n' ws t' h'] c(1-3, 6, 8, 10, 11) assms(5) unfolding ids [symmetric] by simp
qed

lemma binary_search_by:
  assumes "sorted_wrt (<) (map f xs)"
  obtains as os bs where "xs = as @ os @ bs" "length os \<le> 1" "\<forall>x\<in>set as. f x < k" "\<forall>x\<in>set bs. k < f x" "\<forall>x\<in>set os. f x = k"
    "binary_search (map f xs) k = (if os = [] then Inl (length as) else Inr (length as))"
proof (rule binary_search_cases [OF assms, of k], goal_cases found absent)
  case (found a b)
  then obtain as x bs where "xs = as @ x # bs" "map f as = a" "f x = k" "map f bs = b"
    by (auto simp: map_eq_append_conv)
  then show thesis using found by (intro that [of as "[x]" bs]) auto
next
  case (absent a b)
  then obtain as bs where "xs = as @ bs" "map f as = a" "map f bs = b" by (auto simp: map_eq_append_conv)
  then show thesis using absent by (intro that [of as "[]" bs]) auto
qed

text \<open>Upserts and removals leave a tree of the edited slots.\<close>

lemma sparse_upsert_ok:
  assumes "sparse_caps T" "sp_inv T m t h" "valid_slot s" "inj_on mint {n..n + h + 1}" "mint ` {n..n + h + 1} \<inter> set (sp_ids t) = {}"
  obtains n' ws t' h' where "sparse_upsert (reads m) mint T n s = Ok (n', ws)" "n \<le> n'" "n' \<le> n + h + 2"
    "sp_inv T (batch_effect ws m) t' h'" "sp_slots t' = put_slot s (sp_slots t)"
    "set (sp_ids t') \<subseteq> set (sp_ids t) \<union> mint ` {n..<n'}" "edits (st_tenant T) (set (sp_ids t) \<union> mint ` {n..<n'}) ws" "h' \<le> Suc h"
proof -
  have inv: "sp_good (st_cap T) h t" "ascending (sp_slots t)" "list_all valid_slot (sp_slots t)" "sp_heap T m (sp_nodes t)" "sp_id t = st_root T"
    using assms(2) by (simp_all add: sp_inv_def)
  obtain C path i ss where d: "sparse_descend (reads m) T (slot_first s) [] (sp_id t) = Ok (path, i, ss)" "path_of C path"
    "sp_plugs C (SL i ss) = sp_plugs [] t" "length C = h + length []" "sp_routed (slot_first s) C"
    by (rule sparse_descend_ok [OF inv(1-3) assms(1) inv(4), of "[]" "[]" "slot_first s"]) (simp_all add: sp_routed_def)
  have sl: "sp_slots t = ctx_before C @ ss @ ctx_after C" using slots_plugs [of C "SL i ss"] d(3) by simp
  have asc: "sorted_wrt (<) (map slot_first ss)" using inv(2) unfolding sl by (simp add: sorted_wrt_append)
  obtain as os bs where p: "ss = as @ os @ bs" "length os \<le> 1" "\<forall>x\<in>set as. slot_first x < slot_first s" "\<forall>x\<in>set bs. slot_first s < slot_first x" "\<forall>x\<in>set os. slot_first x = slot_first s"
    "binary_search (map slot_first ss) (slot_first s) = (if os = [] then Inl (length as) else Inr (length as))"
    by (rule binary_search_by [OF asc])
  have os: "os = [] \<or> (\<exists>x. os = [x])" using p(2) by (cases os) auto
  have edit: "(case binary_search (map slot_first ss) (slot_first s) of Inr i \<Rightarrow> ss[i := s] | Inl i \<Rightarrow> insert_at i s ss) = as @ s # bs"
    using os unfolding p(6) unfolding p(1) by (auto simp: insert_at_def)
  have put: "put_slot s (sp_slots t) = ctx_before C @ (as @ s # bs) @ ctx_after C"
    using put_slot_split [of "ctx_before C @ as" s "bs @ ctx_after C" os] p(3-5) d(5) unfolding sl p(1) by (simp add: sp_routed_def ball_Un)
  note ok = slots_put_ok [OF inv(2, 3) assms(3), unfolded put]
  have c: "climb mint T n path i (SparseLeaf (as @ s # bs)) [] = (n', ws) \<Longrightarrow> sparse_upsert (reads m) mint T n s = Ok (n', ws)" for n' ws
    unfolding sparse_upsert_def inv(5) [symmetric] d(1) by (simp add: edit)
  have "sp_plugs C (SL i ss) = t" "length C = h" "length (as @ s # bs) \<le> Suc (length ss)" using d(3, 4) p(1) by simp_all
  then obtain n' ws t' h' where e: "climb mint T n path i (SparseLeaf (as @ s # bs)) [] = (n', ws)" "n \<le> n'" "n' \<le> n + h + 2"
    "sp_inv T (batch_effect ws m) t' h'" "sp_slots t' = ctx_before C @ (as @ s # bs) @ ctx_after C"
    "set (sp_ids t') \<subseteq> set (sp_ids t) \<union> mint ` {n..<n'}" "edits (st_tenant T) (set (sp_ids t) \<union> mint ` {n..<n'}) ws" "h' \<le> Suc h"
    by (rule edit_leaf [OF assms(1, 2) d(2) _ _ _ ok assms(4, 5)])
  show thesis by (rule that [OF c [OF e(1)] e(2-4) e(5) [folded put] e(6-8)])
qed

lemma sparse_remove_ok:
  assumes "sparse_caps T" "sp_inv T m t h" "inj_on mint {n..n + h + 1}" "mint ` {n..n + h + 1} \<inter> set (sp_ids t) = {}"
  obtains n' ws t' h' where "sparse_remove (reads m) mint T n k = Ok (n', ws)" "n \<le> n'" "n' \<le> n + h + 2"
    "sp_inv T (batch_effect ws m) t' h'" "sp_slots t' = drop_slot k (sp_slots t)"
    "set (sp_ids t') \<subseteq> set (sp_ids t) \<union> mint ` {n..<n'}" "edits (st_tenant T) (set (sp_ids t) \<union> mint ` {n..<n'}) ws" "h' \<le> Suc h"
proof -
  have inv: "sp_good (st_cap T) h t" "ascending (sp_slots t)" "list_all valid_slot (sp_slots t)" "sp_heap T m (sp_nodes t)" "sp_id t = st_root T"
    using assms(2) by (simp_all add: sp_inv_def)
  obtain C path i ss where d: "sparse_descend (reads m) T k [] (sp_id t) = Ok (path, i, ss)" "path_of C path"
    "sp_plugs C (SL i ss) = sp_plugs [] t" "length C = h + length []" "sp_routed k C"
    by (rule sparse_descend_ok [OF inv(1-3) assms(1) inv(4), of "[]" "[]" k]) (simp_all add: sp_routed_def)
  have sl: "sp_slots t = ctx_before C @ ss @ ctx_after C" using slots_plugs [of C "SL i ss"] d(3) by simp
  have asc: "sorted_wrt (<) (map slot_first ss)" using inv(2) unfolding sl by (simp add: sorted_wrt_append)
  obtain as os bs where p: "ss = as @ os @ bs" "length os \<le> 1" "\<forall>x\<in>set as. slot_first x < k" "\<forall>x\<in>set bs. k < slot_first x" "\<forall>x\<in>set os. slot_first x = k"
    "binary_search (map slot_first ss) k = (if os = [] then Inl (length as) else Inr (length as))"
    by (rule binary_search_by [OF asc])
  have gone: "drop_slot k (sp_slots t) = ctx_before C @ (as @ bs) @ ctx_after C"
    using drop_slot_split [of "ctx_before C @ as" k "bs @ ctx_after C" os] p(3-5) d(5) unfolding sl p(1) by (simp add: sp_routed_def ball_Un)
  show thesis
  proof (cases os)
    case Nil
    then have "sparse_remove (reads m) mint T n k = Ok (n, [])" unfolding sparse_remove_def inv(5) [symmetric] d(1) by (simp add: p(6))
    moreover have "sp_slots t = drop_slot k (sp_slots t)" unfolding gone using sl p(1) Nil by simp
    ultimately show thesis using assms(2) by (intro that [of n "[]" t h]) simp_all
  next
    case (Cons x os')
    then have os: "os = [x]" using p(2) by simp
    note ok = slots_drop_ok [OF inv(2, 3), of k, unfolded gone]
    have c: "climb mint T n path i (SparseLeaf (as @ bs)) [] = (n', ws) \<Longrightarrow> sparse_remove (reads m) mint T n k = Ok (n', ws)" for n' ws
      unfolding sparse_remove_def inv(5) [symmetric] d(1) by (simp add: p(6) os) (simp add: p(1) os remove_at_def)
    have "sp_plugs C (SL i ss) = t" "length C = h" "length (as @ bs) \<le> Suc (length ss)" using d(3, 4) p(1) by simp_all
    then obtain n' ws t' h' where e: "climb mint T n path i (SparseLeaf (as @ bs)) [] = (n', ws)" "n \<le> n'" "n' \<le> n + h + 2"
      "sp_inv T (batch_effect ws m) t' h'" "sp_slots t' = ctx_before C @ (as @ bs) @ ctx_after C"
      "set (sp_ids t') \<subseteq> set (sp_ids t) \<union> mint ` {n..<n'}" "edits (st_tenant T) (set (sp_ids t) \<union> mint ` {n..<n'}) ws" "h' \<le> Suc h"
      by (rule edit_leaf [OF assms(1, 2) d(2) _ _ _ ok assms(3, 4)])
    show thesis by (rule that [OF c [OF e(1)] e(2-4) e(5) [folded gone] e(6-8)])
  qed
qed

end
