(* ===== verification/Chain_Laws.thy ===== *)
theory Chain_Laws
  imports Record_Chain Sparse_Laws
begin

text \<open>
  A record chain as the run of its segments: the ids, the links and the entries in order.  A lookup finds
  the segment whose range covers the key; an edit of one segment keeps the entries, the links, the size
  band and the index in step.
\<close>

section \<open>Segments on bytes\<close>

locale chain_payload = wave_wire P vp for P :: "'p wire" and vp :: "'p \<Rightarrow> bool" +
  fixes pb :: nat
  assumes payload_bound: "vp p \<Longrightarrow> STACK_SIZE P + heap_size P p \<le> pb"

definition valid_entry :: "('p \<Rightarrow> bool) \<Rightarrow> sec_key \<times> 'p \<Rightarrow> bool" where
  "valid_entry vp e \<longleftrightarrow> valid_sec_key (fst e) \<and> vp (snd e)"

text \<open>Segments of at most \<open>2N\<close> entries stay below the format's size limit.\<close>

definition chain_caps :: "nat \<Rightarrow> record_chain \<Rightarrow> bool" where
  "chain_caps pb C \<longleftrightarrow> 1 \<le> ch_min C \<and> u48_ok (ch_tenant C) \<and> 2 * ch_min C * (2 ^ 20 + 40 + pb) < 2 ^ 32
     \<and> (case ch_index C of None \<Rightarrow> True | Some T \<Rightarrow> sparse_caps T \<and> st_tenant T = ch_tenant C)"

lemma chain_capsD:
  assumes "chain_caps pb C"
  shows "1 \<le> ch_min C" "u48_ok (ch_tenant C)" "2 * ch_min C * (2 ^ 20 + 40 + pb) < 2 ^ 32" "twice_min C = 2 * ch_min C"
    "ch_index C = Some T \<Longrightarrow> sparse_caps T" "ch_index C = Some T \<Longrightarrow> st_tenant T = ch_tenant C"
proof -
  show "1 \<le> ch_min C" "u48_ok (ch_tenant C)" "ch_index C = Some T \<Longrightarrow> sparse_caps T" "ch_index C = Some T \<Longrightarrow> st_tenant T = ch_tenant C"
    using assms by (simp_all add: chain_caps_def)
  show b: "2 * ch_min C * (2 ^ 20 + 40 + pb) < 2 ^ 32" using assms unfolding chain_caps_def by blast
  have "2 * ch_min C \<le> 2 * ch_min C * (2 ^ 20 + 40 + pb)" using mult_le_mono2 [of 1 "2 ^ 20 + 40 + pb" "2 * ch_min C"] by simp
  also note b
  also have "(2 :: nat) ^ 32 < 2 ^ 64" by simp
  finally have "ch_min C * 2 < 2 ^ 64" by (simp only: mult.commute)
  then show "twice_min C = 2 * ch_min C" by (simp add: twice_min_def)
qed

context chain_payload
begin

lemma wire_entry_ok: "wave_wire (wire_tuple2 wire_sec_key P) (valid_entry vp)"
proof -
  have "wave_wire (wire_tuple2 wire_sec_key P) (\<lambda>(k, p). valid_sec_key k \<and> vp p)"
    by (rule wire_tuple2_ok [OF wsec.wave_wire_axioms wave_wire_axioms])
  then show ?thesis by (simp add: valid_entry_def [abs_def] case_prod_unfold)
qed

lemma segment_roundtrip:
  assumes "list_all (valid_entry vp) es" "length es * (2 ^ 20 + 40 + pb) < 2 ^ 32"
  shows "segment_from_bytes P lane (segment_to_bytes P lane (with_entries prev next es)) = Ok (with_entries prev next es)"
proof -
  have "vec_heap_size (wire_tuple2 wire_sec_key P) es \<le> length es * (2 ^ 20 + 40 + pb)"
  proof (rule vec_heap_size_bound)
    fix e assume "e \<in> set es"
    then have "valid_sec_key (fst e)" "STACK_SIZE P + heap_size P (snd e) \<le> pb"
      using assms(1) payload_bound by (auto simp: list_all_iff valid_entry_def)
    then show "STACK_SIZE (wire_tuple2 wire_sec_key P) + heap_size (wire_tuple2 wire_sec_key P) e \<le> 2 ^ 20 + 40 + pb"
      by (cases e) (auto simp: wire_tuple2_def wire_sec_key_def valid_sec_key_def)
  qed
  then have v: "valid_vec (wire_tuple2 wire_sec_key P) (valid_entry vp) es" using assms by (simp add: valid_vec_def)
  have ne: "nonempty_units (wire_tuple2 wire_sec_key P) (valid_entry vp)"
    by (simp add: nonempty_units_def wire_tuple2_def wire_sec_key_def)
  have w: "wave_wire (wire_segment P) (\<lambda>s. (\<lambda>(p, n, es). (case p of None \<Rightarrow> True | Some x \<Rightarrow> True) \<and> (case n of None \<Rightarrow> True | Some x \<Rightarrow> True)
      \<and> valid_vec (wire_tuple2 wire_sec_key P) (valid_entry vp) es) (seg_prev s, seg_next s, seg_entries s))"
    unfolding wire_segment_def
    by (rule wire_struct_ok [OF wire_tuple3_ok [OF wlid.wire_option_ok wlid.wire_option_ok wave_wire.wire_vec_ok [OF wire_entry_ok ne]]])
      (simp add: with_entries_def)
  have "from_wire (wire_segment P) (to_wire (wire_segment P) (with_entries prev next es)) = Ok (with_entries prev next es)"
    by (rule wave_wire.from_wire_to_wire [OF w]) (use v in \<open>simp add: with_entries_def split: option.split\<close>)
  then show ?thesis by (simp add: segment_from_bytes_def segment_to_bytes_def LANE_PREFIX_def Let_def)
qed

end

interpretation unit_payload: chain_payload wire_unit "\<lambda>_. True" 0
  by unfold_locales (simp add: wire_unit_def)

lemma wave_wire_weaken: "wave_wire W v \<Longrightarrow> (\<And>x. v' x \<Longrightarrow> v x) \<Longrightarrow> wave_wire W v'"
  by (simp add: wave_wire_def)

interpretation bytes_payload: chain_payload "wire_vec wire_u8" "\<lambda>b. length b \<le> 2 ^ 20" "2 ^ 20 + 8"
proof (rule chain_payload.intro)
  show "wave_wire (wire_vec wire_u8) (\<lambda>b. length b \<le> 2 ^ 20)"
    by (rule wave_wire_weaken [OF wbytes.wave_wire_axioms]) (simp add: valid_bytes_def)
  have "vec_heap_size wire_u8 p \<le> length p * 1" for p by (rule vec_heap_size_bound) simp
  then show "chain_payload_axioms (wire_vec wire_u8) (\<lambda>b. length b \<le> 2 ^ 20) (2 ^ 20 + 8)"
    by unfold_locales (auto simp: wire_vec_def intro: order_trans)
qed

section \<open>Runs of segments\<close>

type_synonym 'p run = "(local_id \<times> (sec_key \<times> 'p) list) list"

abbreviation run_entries :: "'p run \<Rightarrow> (sec_key \<times> 'p) list" where
  "run_entries segs \<equiv> concat (map snd segs)"

definition first_of :: "(sec_key \<times> 'p) list \<Rightarrow> sec_key option" where
  "first_of es = (if es = [] then None else Some (fst (hd es)))"

definition seg_slot :: "local_id \<Rightarrow> (sec_key \<times> 'p) list \<Rightarrow> slot list" where
  "seg_slot i es = (if es = [] then [] else [Slot (fst (hd es)) i (of_nat (length es))])"

definition run_slots :: "'p run \<Rightarrow> slot list" where
  "run_slots segs = concat (map (\<lambda>(i, es). seg_slot i es) segs)"

definition id_first :: "'p run \<Rightarrow> local_id option \<Rightarrow> local_id option" where
  "id_first segs after = (case segs of [] \<Rightarrow> after | (i, _) # _ \<Rightarrow> Some i)"

definition id_last :: "local_id option \<Rightarrow> 'p run \<Rightarrow> local_id option" where
  "id_last before segs = (if segs = [] then before else Some (fst (last segs)))"

fun links :: "local_id option \<Rightarrow> 'p run \<Rightarrow> local_id option \<Rightarrow> (local_id \<times> 'p segment) list" where
  "links before [] after = []"
| "links before ((i, es) # segs) after = (i, with_entries before (id_first segs after) es) # links (Some i) segs after"

lemma run_simps [simp]:
  "run_slots [] = []" "run_slots ((i, es) # segs) = seg_slot i es @ run_slots segs" "run_slots (segs @ segs') = run_slots segs @ run_slots segs'"
  "id_first [] a = a" "id_first ((i, es) # segs) a = Some i" "id_first (segs @ segs') a = id_first segs (id_first segs' a)"
  "id_last b [] = b" "id_last b ((i, es) # segs) = id_last (Some i) segs" "id_last b (segs @ segs') = id_last (id_last b segs) segs'"
  by (auto simp: run_slots_def id_first_def id_last_def split: list.split)

lemma links_append [simp]: "links b (segs @ segs') a = links b segs (id_first segs' a) @ links (id_last b segs) segs' a"
  by (induction segs arbitrary: b) auto

lemma links_ids [simp]: "fst ` set (links b segs a) = fst ` set segs"
  by (induction b segs a rule: links.induct) simp_all

lemma links_entries: "(i, s) \<in> set (links b segs a) \<Longrightarrow> (i, seg_entries s) \<in> set segs"
  by (induction b segs a rule: links.induct) (auto simp: with_entries_def)

lemma with_entries_simps [simp]:
  "seg_prev (with_entries p n es) = p" "seg_next (with_entries p n es) = n" "seg_entries (with_entries p n es) = es"
  "(with_entries p n es)\<lparr>seg_prev := p'\<rparr> = with_entries p' n es" "(with_entries p n es)\<lparr>seg_next := n'\<rparr> = with_entries p n' es"
  "(with_entries p n es)\<lparr>seg_entries := es'\<rparr> = with_entries p n es'" "seg_len (with_entries p n es) = length es"
  "seg_extend es' (with_entries p n es) = with_entries p n (es @ es')" "seg_first_key (with_entries p n es) = first_of es"
  by (auto simp: with_entries_def seg_len_def seg_extend_def seg_first_key_def first_of_def split: list.split)

definition seg_heap :: "'p wire \<Rightarrow> record_chain \<Rightarrow> kv \<Rightarrow> (local_id \<times> 'p segment) list \<Rightarrow> bool" where
  "seg_heap P C m ns \<longleftrightarrow> (\<forall>(i, s)\<in>set ns. m (to_id i (ch_tenant C)) = Some (segment_to_bytes P (ch_lane C) s))"

lemma seg_heap_simps [simp]:
  "seg_heap P C m []"
  "seg_heap P C m ((i, s) # ns) \<longleftrightarrow> m (to_id i (ch_tenant C)) = Some (segment_to_bytes P (ch_lane C) s) \<and> seg_heap P C m ns"
  "seg_heap P C m (ns @ ns') \<longleftrightarrow> seg_heap P C m ns \<and> seg_heap P C m ns'"
  "seg_heap P (C\<lparr>ch_head := i\<rparr>) m ns = seg_heap P C m ns" "seg_heap P (C\<lparr>ch_tail := i\<rparr>) m ns = seg_heap P C m ns"
  by (auto simp: seg_heap_def)

lemma seg_heap_edits:
  assumes "seg_heap P C m ns" "edits (ch_tenant C) J ws" "J \<inter> fst ` set ns = {}" "u48_ok (ch_tenant C)"
  shows "seg_heap P C (batch_effect ws m) ns"
proof -
  have "batch_effect ws m (to_id i (ch_tenant C)) = m (to_id i (ch_tenant C))" if "(i, s) \<in> set ns" for i s
    by (rule edits_keep [OF assms(2) _ assms(4)]) (use that assms(3) in force)
  then show ?thesis using assms(1) by (auto simp: seg_heap_def)
qed

lemma seg_heap_upd:
  assumes "u48_ok (ch_tenant C)" "i \<notin> fst ` set ns"
  shows "seg_heap P C (m(to_id i (ch_tenant C) := x)) ns \<longleftrightarrow> seg_heap P C m ns"
  using assms by (force simp: seg_heap_def to_id_inject image_iff split: prod.splits)

section \<open>The invariant\<close>

text \<open>The index, when there is one, is a tree of height \<open>h\<close> over the ids \<open>I\<close> that holds these slots.\<close>

definition index_ok :: "record_chain \<Rightarrow> kv \<Rightarrow> slot list \<Rightarrow> local_id set \<Rightarrow> nat \<Rightarrow> bool" where
  "index_ok C m slots I h \<longleftrightarrow> (case ch_index C of
      None \<Rightarrow> I = {}
    | Some T \<Rightarrow> \<exists>t. sp_inv T m t h \<and> sp_slots t = slots \<and> set (sp_ids t) = I)"

definition banded :: "nat \<Rightarrow> 'p run \<Rightarrow> bool" where
  "banded n segs \<longleftrightarrow> (\<forall>(i, es)\<in>set segs. length es < 2 * n \<and> (length segs = 1 \<or> n div 2 < length es))"

definition entries_ok :: "('p \<Rightarrow> bool) \<Rightarrow> (sec_key \<times> 'p) list \<Rightarrow> bool" where
  "entries_ok vp es \<longleftrightarrow> sorted_wrt (<) (map fst es) \<and> list_all (valid_entry vp) es"

definition chain_inv :: "'p wire \<Rightarrow> ('p \<Rightarrow> bool) \<Rightarrow> record_chain \<Rightarrow> kv \<Rightarrow> 'p run \<Rightarrow> local_id set \<Rightarrow> nat \<Rightarrow> bool" where
  "chain_inv P vp C m segs I h \<longleftrightarrow> segs \<noteq> [] \<and> ch_head C = fst (hd segs) \<and> ch_tail C = fst (last segs)
     \<and> entries_ok vp (run_entries segs) \<and> banded (ch_min C) segs \<and> distinct (map fst segs) \<and> I \<inter> fst ` set segs = {}
     \<and> seg_heap P C m (links None segs None) \<and> index_ok C m (run_slots segs) I h"

lemma entries_ok_append:
  "entries_ok vp (es @ es') \<longleftrightarrow> entries_ok vp es \<and> entries_ok vp es' \<and> (\<forall>e\<in>set es. \<forall>e'\<in>set es'. fst e < fst e')"
  by (auto simp: entries_ok_def sorted_wrt_append)

lemma entries_ok_segD:
  assumes "entries_ok vp (run_entries (L @ (i, es) # R))"
  shows "entries_ok vp es" "sorted_wrt (<) (map fst es)" "entries_ok vp (run_entries L)" "entries_ok vp (run_entries R)"
    "\<forall>e\<in>set (run_entries L). \<forall>e'\<in>set es. fst e < fst e'" "\<forall>e\<in>set es. \<forall>e'\<in>set (run_entries R). fst e < fst e'"
proof -
  have "entries_ok vp (run_entries L @ es @ run_entries R)" using assms by simp
  note ok = this [unfolded entries_ok_append set_append]
  show "entries_ok vp es" "entries_ok vp (run_entries L)" "entries_ok vp (run_entries R)"
    "\<forall>e\<in>set (run_entries L). \<forall>e'\<in>set es. fst e < fst e'" "\<forall>e\<in>set es. \<forall>e'\<in>set (run_entries R). fst e < fst e'"
    using ok by blast+
  then show "sorted_wrt (<) (map fst es)" by (simp add: entries_ok_def)
qed

lemma banded_split:
  "banded n (L @ (i, es) # R) \<Longrightarrow> length es < 2 * n \<and> (L = [] \<and> R = [] \<or> n div 2 < length es)"
  by (auto simp: banded_def)

lemma first_slot: "es \<noteq> [] \<Longrightarrow> seg_slot i es = [Slot (fst (hd es)) i (of_nat (length es))]"
  by (simp add: seg_slot_def)

lemma run_slot_entry: "s \<in> set (run_slots segs) \<Longrightarrow> slot_first s \<in> fst ` set (run_entries segs)"
  by (force simp: run_slots_def seg_slot_def split: if_splits)

lemma sp_inv_find:
  assumes "sp_inv T m t h" "sparse_caps T"
  shows "sparse_find (reads m) T key = Ok (covering key (sp_slots t))"
  using assms sparse_find_ok [of T h t m key] by (simp add: sp_inv_def sparse_find_def)

section \<open>Lookups\<close>

definition spans :: "sec_key \<Rightarrow> 'p run \<Rightarrow> 'p run \<Rightarrow> bool" where
  "spans key L R \<longleftrightarrow> (\<forall>e\<in>set (run_entries L). fst e < key) \<and> (\<forall>e\<in>set (run_entries R). key < fst e)"

text \<open>The last segment that starts at or below the key, if any, covers it.\<close>

lemma covering_run:
  assumes "entries_ok vp (run_entries segs)" "\<forall>(i, es)\<in>set segs. es \<noteq> []" "segs \<noteq> []"
  shows "case covering key (run_slots segs) of
      None \<Rightarrow> \<exists>i es R. segs = (i, es) # R \<and> spans key [] R
    | Some s \<Rightarrow> \<exists>L es R. segs = L @ (slot_seg s, es) # R \<and> spans key L R"
  using assms
proof (induction segs rule: rev_induct)
  case (snoc seg L)
  obtain i es where seg: "seg = (i, es)" by (cases seg)
  have ne: "es \<noteq> []" using snoc.prems(2) seg by simp
  have ok: "entries_ok vp (run_entries L)" "\<forall>e\<in>set (run_entries L). \<forall>e'\<in>set es. fst e < fst e'" "sorted_wrt (<) (map fst es)"
    using snoc.prems(1) seg by (simp_all add: entries_ok_append) (simp add: entries_ok_def)
  have cov: "covering key (run_slots (L @ [seg])) = (if fst (hd es) \<le> key then Some (Slot (fst (hd es)) i (of_nat (length es))) else covering key (run_slots L))"
    by (simp add: seg first_slot [OF ne] covering_def Let_def)
  show ?case
  proof (cases "fst (hd es) \<le> key")
    case True
    then have "spans key L []" using ok(2) ne unfolding spans_def by (metis hd_in_set order_less_le_trans concat.simps(1) list.map(1) empty_iff list.set(1))
    then show ?thesis using cov seg True by auto
  next
    case False
    have above: "\<forall>e\<in>set es. key < fst e" using False ok(3) ne by (cases es) (auto intro: order.strict_trans)
    show ?thesis
    proof (cases "L = []")
      case True
      then show ?thesis using cov seg False by (simp add: covering_def spans_def)
    next
      case False': False
      have grow: "spans key A B \<Longrightarrow> spans key A (B @ [seg])" for A B using above seg by (auto simp: spans_def)
      have "case covering key (run_slots L) of None \<Rightarrow> \<exists>i es R. L = (i, es) # R \<and> spans key [] R | Some s \<Rightarrow> \<exists>A es R. L = A @ (slot_seg s, es) # R \<and> spans key A R"
        using snoc.IH ok(1) snoc.prems(2) False' by simp
      then show ?thesis unfolding cov using False grow by (fastforce split: option.splits)
    qed
  qed
qed simp

context chain_payload
begin

lemma segment_fits:
  assumes "chain_caps pb C" "entries_ok vp es" "length es \<le> 2 * ch_min C"
  shows "segment_from_bytes P lane (segment_to_bytes P lane (with_entries prev next es)) = Ok (with_entries prev next es)"
proof (rule segment_roundtrip)
  have "length es * (2 ^ 20 + 40 + pb) \<le> 2 * ch_min C * (2 ^ 20 + 40 + pb)" by (rule mult_le_mono1 [OF assms(3)])
  then show "length es * (2 ^ 20 + 40 + pb) < 2 ^ 32" using chain_capsD(3) [OF assms(1)] by (rule le_less_trans)
qed (use assms(2) in \<open>simp add: entries_ok_def\<close>)

lemma chain_load_ok:
  assumes "seg_heap P C m [(i, with_entries prev next es)]" "chain_caps pb C" "entries_ok vp es" "length es \<le> 2 * ch_min C"
  shows "chain_load P (reads m) C i = Ok (with_entries prev next es)"
  using assms(1) segment_fits [OF assms(2-4)] by (simp add: chain_load_def)

lemma chain_load_at:
  assumes "chain_inv P vp C m (L @ (i, es) # R) I h" "chain_caps pb C"
  shows "chain_load P (reads m) C i = Ok (with_entries (id_last None L) (id_first R None) es)"
proof (rule chain_load_ok [OF _ assms(2)])
  show "seg_heap P C m [(i, with_entries (id_last None L) (id_first R None) es)]" using assms(1) by (simp add: chain_inv_def)
  show "entries_ok vp es" using assms(1) by (simp add: chain_inv_def entries_ok_append)
  show "length es \<le> 2 * ch_min C" using assms(1) banded_split [of "ch_min C" L i es R] by (simp add: chain_inv_def)
qed

lemma walk_back_ok:
  assumes "chain_inv P vp C m (L @ (i, es) # R) I h" "chain_caps pb C" "\<forall>e\<in>set (run_entries R). key < fst e"
    "\<forall>(i, es)\<in>set (L @ (i, es) # R). L @ R = [] \<or> es \<noteq> []"
  shows "\<exists>A j fs B. L @ (i, es) # R = A @ (j, fs) # B \<and> spans key A B
    \<and> walk_back_to P (reads m) C key i = Ok (j, with_entries (id_last None A) (id_first B None) fs)"
  using assms
proof (induction L arbitrary: i es R rule: rev_induct)
  case Nil
  have "walk_back_to P (reads m) C key i = Ok (i, with_entries None (id_first R None) es)"
    using chain_load_at [OF Nil.prems(1, 2)] by (subst walk_back_to.simps) simp
  moreover have "spans key [] R" using Nil.prems(3) by (simp add: spans_def)
  ultimately show ?case by (intro exI [of _ "[]"] exI [of _ i] exI [of _ es] exI [of _ R]) simp
next
  case (snoc seg L)
  obtain j fs where seg: "seg = (j, fs)" by (cases seg)
  have ne: "es \<noteq> []" using snoc.prems(4) by simp
  have asc: "\<forall>e\<in>set (run_entries (L @ [seg])). \<forall>e'\<in>set es. fst e < fst e'" "sorted_wrt (<) (map fst es)"
    using entries_ok_segD [of vp "L @ [seg]" i es R] snoc.prems(1) unfolding chain_inv_def by blast+
  note load = chain_load_at [OF snoc.prems(1, 2)]
  show ?case
  proof (cases "key < fst (hd es)")
    case True
    then have "\<forall>e\<in>set es. key < fst e" using asc(2) by (cases es) auto
    then have "\<forall>e\<in>set (run_entries ((i, es) # R)). key < fst e" using snoc.prems(3) by auto
    moreover have "walk_back_to P (reads m) C key i = walk_back_to P (reads m) C key j"
      using load True ne seg by (subst walk_back_to.simps) (simp add: first_of_def)
    ultimately show ?thesis
      using snoc.IH [of j fs "(i, es) # R"] snoc.prems(1, 2, 4) seg by (auto simp: case_prod_unfold)
  next
    case False
    then have "walk_back_to P (reads m) C key i = Ok (i, with_entries (id_last None (L @ [seg])) (id_first R None) es)"
      using load ne seg by (subst walk_back_to.simps) (simp add: first_of_def)
    moreover have "spans key (L @ [seg]) R" using False asc(1) ne snoc.prems(3) unfolding spans_def by (metis hd_in_set not_less order_less_le_trans)
    ultimately show ?thesis by (intro exI [of _ "L @ [seg]"] exI [of _ i] exI [of _ es] exI [of _ R]) simp
  qed
qed

lemma nonempty_segments: "banded n segs \<Longrightarrow> \<forall>(i, es)\<in>set segs. length segs = 1 \<or> es \<noteq> []"
  by (auto simp: banded_def)

lemma chain_locate_ok:
  assumes "chain_inv P vp C m segs I h" "chain_caps pb C"
  obtains L i es R where "segs = L @ (i, es) # R" "spans key L R"
    "chain_locate P (reads m) C key = Ok (i, with_entries (id_last None L) (id_first R None) es)"
proof -
  have inv: "segs \<noteq> []" "ch_head C = fst (hd segs)" "ch_tail C = fst (last segs)" "entries_ok vp (run_entries segs)"
    "\<forall>(i, es)\<in>set segs. length segs = 1 \<or> es \<noteq> []" "index_ok C m (run_slots segs) I h"
    using assms(1) nonempty_segments [of "ch_min C" segs] by (simp_all add: chain_inv_def)
  show thesis
  proof (cases "ch_index C")
    case None
    obtain L i es where segs: "segs = L @ [(i, es)]" using inv(1) by (metis rev_exhaust surj_pair)
    have "\<exists>A j fs B. segs = A @ (j, fs) # B \<and> spans key A B
      \<and> walk_back_to P (reads m) C key i = Ok (j, with_entries (id_last None A) (id_first B None) fs)"
      unfolding segs by (rule walk_back_ok [OF assms(1) [unfolded segs] assms(2)]) (use inv(5) segs in auto)
    then obtain A j fs B where w: "segs = A @ (j, fs) # B" "spans key A B"
      "walk_back_to P (reads m) C key i = Ok (j, with_entries (id_last None A) (id_first B None) fs)" by blast
    have "ch_tail C = i" using inv(3) segs by simp
    then show thesis using w(3) None by (intro that [OF w(1, 2)]) (simp add: chain_locate_def)
  next
    case (Some T)
    obtain t where t: "sp_inv T m t h" "sp_slots t = run_slots segs" using inv(6) Some by (auto simp: index_ok_def)
    note find = sp_inv_find [OF t(1) chain_capsD(5) [OF assms(2) Some], of key, unfolded t(2)]
    have "\<exists>L i es R. segs = L @ (i, es) # R \<and> spans key L R
      \<and> i = (case covering key (run_slots segs) of Some s \<Rightarrow> slot_seg s | None \<Rightarrow> ch_head C)"
    proof (cases "\<forall>(i, es)\<in>set segs. es \<noteq> []")
      case True
      from covering_run [OF inv(4) True inv(1), of key] show ?thesis using inv(2) by (auto split: option.splits) fastforce
    next
      case False
      then obtain i where "segs = [(i, [])]" using inv(5) by (auto simp: length_Suc_conv)
      then show ?thesis
        using inv(2) by (intro exI [of _ "[]"] exI [of _ i]) (simp add: covering_def seg_slot_def spans_def)
    qed
    then obtain L i es R where l: "segs = L @ (i, es) # R" "spans key L R"
      "i = (case covering key (run_slots segs) of Some s \<Rightarrow> slot_seg s | None \<Rightarrow> ch_head C)" by blast
    have "chain_locate P (reads m) C key = Ok (i, with_entries (id_last None L) (id_first R None) es)"
      using chain_load_at [OF assms(1) [unfolded l(1)] assms(2)] by (simp add: chain_locate_def Some find l(3) [symmetric])
    with l(1, 2) show thesis by (rule that)
  qed
qed

end

section \<open>Edits of one segment\<close>

lemma map_of_edit:
  fixes k :: "'k::linorder"
  assumes "\<forall>e\<in>set as. fst e < k" "\<forall>e\<in>set bs. k < fst e" "\<forall>e\<in>set os. fst e = k"
  shows "map_of (as @ (k, p) # bs) = (map_of (as @ os @ bs))(k \<mapsto> p)" "map_of (as @ bs) = (map_of (as @ os @ bs))(k := None)"
    "map_of (as @ os @ bs) k = map_of os k"
proof -
  have none: "map_of as k = None" "map_of bs k = None" using assms(1, 2) by (auto simp: map_of_eq_None_iff)
  have other: "map_of os x = None" if "x \<noteq> k" for x using assms(3) that by (force simp: map_of_eq_None_iff)
  show "map_of (as @ (k, p) # bs) = (map_of (as @ os @ bs))(k \<mapsto> p)" "map_of (as @ bs) = (map_of (as @ os @ bs))(k := None)"
    "map_of (as @ os @ bs) k = map_of os k"
    using none other by (auto simp: fun_eq_iff map_add_def split: option.splits)
qed

text \<open>How a segment that covers the key changes, and the run with it.\<close>

lemma segment_edits:
  assumes "entries_ok vp (run_entries (L @ (i, es) # R))" "spans key L R"
  obtains as os bs where "es = as @ os @ bs" "length os \<le> 1" "\<And>b n. seg_get key (with_entries b n es) = map_of (run_entries (L @ (i, es) # R)) key"
    "\<And>b n. snd (seg_insert key p (with_entries b n es)) = with_entries b n (as @ (key, p) # bs)"
    "\<And>b n. seg_remove key (with_entries b n es) = (map_of (run_entries (L @ (i, es) # R)) key, with_entries b n (as @ bs))"
    "valid_entry vp (key, p) \<longrightarrow> entries_ok vp (run_entries (L @ (i, as @ (key, p) # bs) # R))" "entries_ok vp (run_entries (L @ (i, as @ bs) # R))"
    "map_of (run_entries (L @ (i, as @ (key, p) # bs) # R)) = (map_of (run_entries (L @ (i, es) # R)))(key \<mapsto> p)"
    "map_of (run_entries (L @ (i, as @ bs) # R)) = (map_of (run_entries (L @ (i, es) # R)))(key := None)"
    "os = [] \<longleftrightarrow> map_of (run_entries (L @ (i, es) # R)) key = None"
proof -
  note ok = entries_ok_segD [OF assms(1)]
  obtain as os bs where e: "es = as @ os @ bs" "length os \<le> 1" "\<forall>x\<in>set as. fst x < key" "\<forall>x\<in>set bs. key < fst x" "\<forall>x\<in>set os. fst x = key"
    "binary_search (map fst es) key = (if os = [] then Inl (length as) else Inr (length as))"
    by (rule binary_search_by [OF ok(2)])
  let ?A = "run_entries L @ as" and ?B = "bs @ run_entries R"
  have A: "\<forall>x\<in>set ?A. fst x < key" and B: "\<forall>x\<in>set ?B. key < fst x" using assms(2) e(3, 4) by (auto simp: spans_def)
  have run: "run_entries (L @ (i, es) # R) = ?A @ os @ ?B" "run_entries (L @ (i, as @ (key, p) # bs) # R) = ?A @ (key, p) # ?B"
    "run_entries (L @ (i, as @ bs) # R) = ?A @ ?B" by (simp_all add: e(1))
  note m = map_of_edit(1) [where p = p, OF A B e(5), folded run(1)] map_of_edit(2, 3) [OF A B e(5), folded run(1)]
  have all: "entries_ok vp (?A @ os @ ?B)" using assms(1) unfolding run(1) .
  have AB: "entries_ok vp ?A" "entries_ok vp ?B" "\<forall>x\<in>set ?A. \<forall>y\<in>set ?B. fst x < fst y"
    using all unfolding entries_ok_append [of _ ?A] entries_ok_append [of _ os] set_append [of os] by blast+
  have ins: "valid_entry vp (key, p) \<longrightarrow> entries_ok vp (?A @ [(key, p)] @ ?B)"
    unfolding entries_ok_append [of _ ?A] entries_ok_append [of _ "[(key, p)]"] using AB A B by (auto simp: entries_ok_def)
  have del: "entries_ok vp (?A @ ?B)" unfolding entries_ok_append [of _ ?A] using AB by blast
  have os: "os = [] \<or> (\<exists>q. os = [(key, q)])" using e(2, 5) by (cases os) auto
  have seg: "seg_get key (with_entries b n es) = map_of os key" "snd (seg_insert key p (with_entries b n es)) = with_entries b n (as @ (key, p) # bs)"
    "seg_remove key (with_entries b n es) = (map_of os key, with_entries b n (as @ bs))" for b n
    unfolding seg_get_def seg_insert_def seg_remove_def seg_position_def with_entries_simps e(6)
    using os by (auto simp: e(1) insert_at_def remove_at_def)
  have ins': "valid_entry vp (key, p) \<longrightarrow> entries_ok vp (run_entries (L @ (i, as @ (key, p) # bs) # R))" using ins unfolding run(2) by simp
  have del': "entries_ok vp (run_entries (L @ (i, as @ bs) # R))" using del unfolding run(3) .
  have "os = [] \<longleftrightarrow> map_of (run_entries (L @ (i, es) # R)) key = None" unfolding m(3) using os by auto
  then show thesis
    by (rule that [OF e(1, 2) seg(1) [folded m(3)] seg(2) seg(3) [folded m(3)] ins' del' m(1) [folded run(2)] m(2) [folded run(3)]])
qed

section \<open>Fresh ids\<close>

definition issued :: "(u64 \<Rightarrow> nat \<Rightarrow> local_id) \<Rightarrow> nat \<Rightarrow> nat \<Rightarrow> local_id set" where
  "issued mint a b = (\<Union>l. mint l ` {a..<b})"

definition fresh_ids :: "(u64 \<Rightarrow> nat \<Rightarrow> local_id) \<Rightarrow> nat \<Rightarrow> nat \<Rightarrow> local_id set \<Rightarrow> bool" where
  "fresh_ids mint n b U \<longleftrightarrow> (\<forall>l l' i j. n \<le> i \<and> i < b \<and> n \<le> j \<and> j < b \<and> mint l i = mint l' j \<longrightarrow> i = j) \<and> issued mint n b \<inter> U = {}"

lemma issued_mono: "a' \<le> a \<Longrightarrow> b \<le> b' \<Longrightarrow> issued mint a b \<subseteq> issued mint a' b'"
  unfolding issued_def by (intro UN_mono image_mono) auto

lemma issued_same [simp]: "issued mint n n = {}"
  by (simp add: issued_def)

lemma fresh_next:
  assumes "fresh_ids mint n b U" "n \<le> n'" "n' \<le> b" "U' \<subseteq> U \<union> issued mint n n'"
  shows "fresh_ids mint n' b U'"
proof -
  have d: "i = j" if "n \<le> i" "i < b" "n \<le> j" "j < b" "mint l i = mint l' j" for l l' i j
    using assms(1) that unfolding fresh_ids_def by blast
  have "issued mint n' b \<inter> issued mint n n' = {}"
  proof -
    have "\<not> (mint l i = mint l' j)" if "n' \<le> i" "i < b" "n \<le> j" "j < n'" for l l' i j using d [of i j l l'] that assms(2, 3) by auto
    then show ?thesis by (auto simp: issued_def)
  qed
  moreover have "issued mint n' b \<inter> U = {}" using assms(1) issued_mono [OF assms(2) order_refl, of mint b] unfolding fresh_ids_def by blast
  ultimately have "issued mint n' b \<inter> U' = {}" using assms(4) by blast
  moreover have "\<forall>l l' i j. n' \<le> i \<and> i < b \<and> n' \<le> j \<and> j < b \<and> mint l i = mint l' j \<longrightarrow> i = j"
    using d assms(2) le_trans by blast
  ultimately show ?thesis by (simp add: fresh_ids_def)
qed

lemma fresh_mint:
  assumes "fresh_ids mint n b U" "n + k \<le> b"
  shows "inj_on (mint l) {n..<n + k}" "mint l ` {n..<n + k} \<inter> U = {}"
proof -
  show "inj_on (mint l) {n..<n + k}"
    using assms unfolding fresh_ids_def inj_on_def by (metis atLeastLessThan_iff less_le_trans)
  have "mint l ` {n..<n + k} \<subseteq> mint l ` {n..<b}" using assms(2) by auto
  also have "\<dots> \<subseteq> issued mint n b" by (auto simp: issued_def)
  finally have "mint l ` {n..<n + k} \<subseteq> issued mint n b" .
  then show "mint l ` {n..<n + k} \<inter> U = {}" using assms(1) unfolding fresh_ids_def by blast
qed

text \<open>What \<open>k\<close> more index operations may mint from height \<open>h\<close>, each growing the tree by a level at most.\<close>

definition room :: "nat \<Rightarrow> nat \<Rightarrow> nat \<Rightarrow> nat \<Rightarrow> nat \<Rightarrow> bool" where
  "room n h k b H \<longleftrightarrow> n + k * (h + k + 1) \<le> b \<and> h + k \<le> H"

lemma room_step: "room n h (Suc k) b H \<Longrightarrow> n' \<le> n + h + 2 \<Longrightarrow> h' \<le> Suc h \<Longrightarrow> room n' h' k b H"
proof -
  assume r: "room n h (Suc k) b H" "n' \<le> n + h + 2" "h' \<le> Suc h"
  have "k * (h' + k + 1) \<le> k * (h + k + 2)" using r(3) by (intro mult_le_mono2) simp
  moreover have "Suc k * (h + Suc k + 1) = k * (h + k + 2) + (h + k + 2)" by simp
  ultimately show ?thesis using r unfolding room_def by linarith
qed

lemma room_top: "room n h (Suc k) b H \<Longrightarrow> n + (h + 2) \<le> b"
  by (simp add: room_def)

section \<open>The index in step\<close>

definition index_at :: "record_chain \<Rightarrow> (u64 \<Rightarrow> nat \<Rightarrow> local_id) \<Rightarrow> nat \<Rightarrow> nat \<Rightarrow> local_id set \<Rightarrow> nat \<Rightarrow> kv \<Rightarrow> nat \<Rightarrow> slot list \<Rightarrow> local_id set \<Rightarrow> nat \<Rightarrow> bool" where
  "index_at C mint b H X k m n slots I h \<longleftrightarrow> index_ok C m slots I h \<and> fresh_ids mint n b (X \<union> I) \<and> room n h k b H \<and> X \<inter> I = {}"

definition index_step :: "(u64 \<Rightarrow> nat \<Rightarrow> local_id) \<Rightarrow> U48 \<Rightarrow> nat \<Rightarrow> local_id set \<Rightarrow> write_op list \<Rightarrow> nat \<Rightarrow> local_id set \<Rightarrow> bool" where
  "index_step mint tenant n I ws n' I' \<longleftrightarrow> n \<le> n' \<and> I' \<subseteq> I \<union> issued mint n n' \<and> edits tenant (I \<union> issued mint n n') ws"

lemma index_step_refl: "index_step mint tenant n I [] n I"
  by (simp add: index_step_def)

lemma index_step_trans:
  assumes "index_step mint tenant n I ws n1 I1" "index_step mint tenant n1 I1 ws1 n2 I2"
  shows "index_step mint tenant n I (ws @ ws1) n2 I2"
proof -
  have n: "n \<le> n1" "n1 \<le> n2" using assms by (simp_all add: index_step_def)
  have i: "issued mint n n1 \<subseteq> issued mint n n2" "issued mint n1 n2 \<subseteq> issued mint n n2" by (rule issued_mono; use n in simp)+
  have "I1 \<union> issued mint n1 n2 \<subseteq> I \<union> issued mint n n2" using assms(1) i unfolding index_step_def by blast
  then show ?thesis
    using assms n i edits_mono unfolding index_step_def edits_simps by (meson le_trans subset_trans Un_mono order_refl Un_upper1)
qed

lemma plan_stage_simps [simp]:
  "pl_next (plan_stage ws n pl) = n" "pl_writes (plan_stage ws n pl) = pl_writes pl @ ws"
  "plan_stage ws' n' (plan_stage ws n pl) = plan_stage (ws @ ws') n' pl" "plan_stage [] (pl_next pl) pl = pl"
  by (simp_all add: plan_stage_def overlay_stage_append)

lemma plan_stage_reads: "overlay_get (pl_view pl) = reads m \<Longrightarrow> overlay_get (pl_view (plan_stage ws n pl)) = reads (batch_effect ws m)"
  by (simp add: plan_stage_def overlay_stage_reads)

lemma index_advance:
  assumes "ch_index C = Some T" "index_at C mint b H X (Suc k) m n slots I h" "sp_inv T (batch_effect ws m) t' h'"
    "n \<le> n'" "n' \<le> n + h + 2" "set (sp_ids t') \<subseteq> I \<union> mint (st_lane T) ` {n..<n'}" "edits tenant (I \<union> mint (st_lane T) ` {n..<n'}) ws" "h' \<le> Suc h"
  shows "index_at C mint b H X k (batch_effect ws m) n' (sp_slots t') (set (sp_ids t')) h'" "index_step mint tenant n I ws n' (set (sp_ids t'))"
proof -
  have at: "fresh_ids mint n b (X \<union> I)" "room n h (Suc k) b H" "X \<inter> I = {}" using assms(2) by (simp_all add: index_at_def)
  have new: "mint (st_lane T) ` {n..<n'} \<subseteq> issued mint n n'" by (auto simp: issued_def)
  have b: "n' \<le> b" using room_top [OF at(2)] assms(5) by simp
  have "issued mint n n' \<subseteq> issued mint n b" by (rule issued_mono) (use b in simp_all)
  then have "issued mint n n' \<inter> X = {}" using at(1) unfolding fresh_ids_def by blast
  then have "X \<inter> set (sp_ids t') = {}" using assms(6) new at(3) by blast
  moreover have "X \<union> set (sp_ids t') \<subseteq> X \<union> I \<union> issued mint n n'" using assms(6) new by blast
  from fresh_next [OF at(1) assms(4) b this] have "fresh_ids mint n' b (X \<union> set (sp_ids t'))" .
  moreover have "room n' h' k b H" by (rule room_step [OF at(2) assms(5, 8)])
  ultimately show "index_at C mint b H X k (batch_effect ws m) n' (sp_slots t') (set (sp_ids t')) h'"
    using assms(1, 3) unfolding index_at_def index_ok_def by auto
  have "edits tenant (I \<union> issued mint n n') ws" by (rule edits_mono [OF assms(7)]) (use new in blast)
  moreover have "set (sp_ids t') \<subseteq> I \<union> issued mint n n'" using assms(6) new by blast
  ultimately show "index_step mint tenant n I ws n' (set (sp_ids t'))" using assms(4) by (simp add: index_step_def)
qed

lemma index_tree:
  assumes "ch_index C = Some T" "index_at C mint b H X (Suc k) m n slots I h" "chain_caps pb C"
  obtains t where "sp_inv T m t h" "sp_slots t = slots" "set (sp_ids t) = I" "sparse_caps T" "st_tenant T = ch_tenant C"
    "inj_on (mint (st_lane T)) {n..n + h + 1}" "mint (st_lane T) ` {n..n + h + 1} \<inter> set (sp_ids t) = {}"
proof -
  obtain t where t: "sp_inv T m t h" "sp_slots t = slots" "set (sp_ids t) = I" using assms(1, 2) unfolding index_at_def index_ok_def by auto
  have at: "fresh_ids mint n b (X \<union> I)" "room n h (Suc k) b H" using assms(2) by (simp_all add: index_at_def)
  have r: "{n..n + h + 1} = {n..<n + (h + 2)}" by auto
  have "inj_on (mint (st_lane T)) {n..n + h + 1}" "mint (st_lane T) ` {n..n + h + 1} \<inter> (X \<union> I) = {}"
    unfolding r by (rule fresh_mint [OF at(1) room_top [OF at(2)]])+
  then show thesis using that [OF t chain_capsD(5, 6) [OF assms(3, 1)]] unfolding t(3) by blast
qed

lemma index_remove_at:
  assumes "ch_index C = Some T" "index_at C mint b H X (Suc k) m (pl_next pl) slots I h" "chain_caps pb C" "overlay_get (pl_view pl) = reads m"
  obtains ws n' I' h' where "index_remove mint T old pl = Ok (plan_stage ws n' pl)"
    "index_at C mint b H X k (batch_effect ws m) n' (drop_slot old slots) I' h'" "index_step mint (ch_tenant C) (pl_next pl) I ws n' I'"
proof -
  obtain t where t: "sp_inv T m t h" "sp_slots t = slots" "set (sp_ids t) = I" "sparse_caps T" "st_tenant T = ch_tenant C"
    "inj_on (mint (st_lane T)) {pl_next pl..pl_next pl + h + 1}" "mint (st_lane T) ` {pl_next pl..pl_next pl + h + 1} \<inter> set (sp_ids t) = {}"
    by (rule index_tree [OF assms(1-3)])
  obtain n' ws t' h' where r: "sparse_remove (reads m) (mint (st_lane T)) T (pl_next pl) old = Ok (n', ws)" "pl_next pl \<le> n'" "n' \<le> pl_next pl + h + 2"
    "sp_inv T (batch_effect ws m) t' h'" "sp_slots t' = drop_slot old (sp_slots t)" "set (sp_ids t') \<subseteq> set (sp_ids t) \<union> mint (st_lane T) ` {pl_next pl..<n'}"
    "edits (st_tenant T) (set (sp_ids t) \<union> mint (st_lane T) ` {pl_next pl..<n'}) ws" "h' \<le> Suc h"
    by (rule sparse_remove_ok [OF t(4, 1, 6, 7)])
  note s = index_advance [OF assms(1, 2) r(4, 2, 3) r(6, 7) [unfolded t(3)] r(8), unfolded t(5) r(5) t(2)]
  show thesis by (rule that [OF _ s]) (simp add: index_remove_def assms(4) r(1))
qed

lemma index_upsert_at:
  assumes "ch_index C = Some T" "index_at C mint b H X (Suc k) m (pl_next pl) slots I h" "chain_caps pb C" "overlay_get (pl_view pl) = reads m"
    "valid_slot s"
  obtains ws n' I' h' where "index_upsert mint T s pl = Ok (plan_stage ws n' pl)"
    "index_at C mint b H X k (batch_effect ws m) n' (put_slot s slots) I' h'" "index_step mint (ch_tenant C) (pl_next pl) I ws n' I'"
proof -
  obtain t where t: "sp_inv T m t h" "sp_slots t = slots" "set (sp_ids t) = I" "sparse_caps T" "st_tenant T = ch_tenant C"
    "inj_on (mint (st_lane T)) {pl_next pl..pl_next pl + h + 1}" "mint (st_lane T) ` {pl_next pl..pl_next pl + h + 1} \<inter> set (sp_ids t) = {}"
    by (rule index_tree [OF assms(1-3)])
  obtain n' ws t' h' where r: "sparse_upsert (reads m) (mint (st_lane T)) T (pl_next pl) s = Ok (n', ws)" "pl_next pl \<le> n'" "n' \<le> pl_next pl + h + 2"
    "sp_inv T (batch_effect ws m) t' h'" "sp_slots t' = put_slot s (sp_slots t)" "set (sp_ids t') \<subseteq> set (sp_ids t) \<union> mint (st_lane T) ` {pl_next pl..<n'}"
    "edits (st_tenant T) (set (sp_ids t) \<union> mint (st_lane T) ` {pl_next pl..<n'}) ws" "h' \<le> Suc h"
    by (rule sparse_upsert_ok [OF t(4, 1) assms(5) t(6, 7)])
  note s = index_advance [OF assms(1, 2) r(4, 2, 3) r(6, 7) [unfolded t(3)] r(8), unfolded t(5) r(5) t(2)]
  show thesis by (rule that [OF _ s]) (simp add: index_upsert_def assms(4) r(1))
qed

text \<open>Refiling a segment: what it does to the slots.\<close>

definition refile :: "sec_key option \<Rightarrow> local_id \<Rightarrow> (sec_key \<times> 'p) list \<Rightarrow> slot list \<Rightarrow> slot list" where
  "refile was i es slots =
     (let slots1 = (case was of Some old \<Rightarrow> if was \<noteq> first_of es then drop_slot old slots else slots | None \<Rightarrow> slots)
      in if es = [] then slots1 else put_slot (Slot (fst (hd es)) i (of_nat (length es))) slots1)"

lemma refile_at:
  assumes "\<forall>s\<in>set A. \<forall>k\<in>set_option (first_of es) \<union> set_option (first_of es'). slot_first s < k"
    "\<forall>s\<in>set B. \<forall>k\<in>set_option (first_of es) \<union> set_option (first_of es'). k < slot_first s"
  shows "refile (first_of es) i es' (A @ seg_slot j es @ B) = A @ seg_slot i es' @ B"
proof -
  have one: "drop_slot (fst (hd es)) (A @ seg_slot j es @ B) = A @ B" if "es \<noteq> []"
    by (rule drop_slot_split) (use assms that in \<open>auto simp: first_of_def seg_slot_def\<close>)
  have two: "put_slot (Slot (fst (hd es')) i n) (A @ os @ B) = A @ Slot (fst (hd es')) i n # B"
    if "es' \<noteq> []" "\<forall>s\<in>set os. slot_first s = fst (hd es')" for os n
    by (rule put_slot_split) (use assms that in \<open>auto simp: first_of_def\<close>)
  show ?thesis
    using one two [of "[]"] two [of "seg_slot j es"]
    by (cases "es = []"; cases "es' = []") (auto simp: refile_def first_of_def seg_slot_def Let_def)
qed

lemma index_at_shrink: "index_at C mint b H X (Suc k) m n slots I h \<Longrightarrow> index_at C mint b H X k m n slots I h"
  using room_step [of n h k b H n h] by (simp add: index_at_def)

lemma index_at_none: "ch_index C = None \<Longrightarrow> index_at C mint b H X k m n slots I h \<Longrightarrow> index_at C mint b H X k m' n slots' I h"
  by (auto simp: index_at_def index_ok_def)

lemma chain_reindex_at:
  assumes "index_at C mint b H X (Suc (Suc k)) m (pl_next pl) slots I h" "chain_caps pb C" "overlay_get (pl_view pl) = reads m" "entries_ok vp es"
  obtains ws n' I' h' where "chain_reindex mint C was i (with_entries q q' es) pl = Ok (plan_stage ws n' pl)"
    "index_at C mint b H X k (batch_effect ws m) n' (refile was i es slots) I' h'" "index_step mint (ch_tenant C) (pl_next pl) I ws n' I'"
proof (cases "ch_index C")
  case None
  show thesis
    by (rule that [of "[]" "pl_next pl" I h])
      (use None index_at_none [OF None index_at_shrink [OF index_at_shrink [OF assms(1)]]] in
        \<open>simp_all add: chain_reindex_def index_step_refl\<close>)
next
  case (Some T)
  define slots1 where "slots1 = (case was of Some old \<Rightarrow> if was \<noteq> first_of es then drop_slot old slots else slots | None \<Rightarrow> slots)"
  have re: "refile was i es slots = (if es = [] then slots1 else put_slot (Slot (fst (hd es)) i (of_nat (length es))) slots1)"
    unfolding refile_def slots1_def by (simp only: Let_def)
  define r1 where "r1 = (case was of Some old \<Rightarrow> if was \<noteq> first_of es then index_remove mint T old pl else Ok pl | None \<Rightarrow> Ok pl)"
  have "\<exists>ws n' I' h'. r1 = Ok (plan_stage ws n' pl) \<and> index_at C mint b H X (Suc k) (batch_effect ws m) n' slots1 I' h'
    \<and> index_step mint (ch_tenant C) (pl_next pl) I ws n' I'"
  proof (cases "was = None \<or> was = first_of es")
    case True
    then have "r1 = Ok (plan_stage [] (pl_next pl) pl)" "slots1 = slots" by (auto simp: r1_def slots1_def split: option.splits)
    then show ?thesis using index_at_shrink [OF assms(1)] index_step_refl by (metis batch_effect_simps(1))
  next
    case False
    then obtain old where "was = Some old" "was \<noteq> first_of es" by (cases was) auto
    then have e: "r1 = index_remove mint T old pl" "slots1 = drop_slot old slots" by (auto simp: r1_def slots1_def)
    show ?thesis unfolding e by (rule index_remove_at [OF Some assms(1-3)]) blast
  qed
  then obtain ws1 n1 I1 h1 where r: "r1 = Ok (plan_stage ws1 n1 pl)" "index_at C mint b H X (Suc k) (batch_effect ws1 m) n1 slots1 I1 h1"
    "index_step mint (ch_tenant C) (pl_next pl) I ws1 n1 I1" by blast
  have run: "chain_reindex mint C was i (with_entries q q' es) pl = (case first_of es of None \<Rightarrow> Ok (plan_stage ws1 n1 pl)
      | Some first \<Rightarrow> index_upsert mint T (Slot first i (of_nat (length es))) (plan_stage ws1 n1 pl))"
    using r(1) unfolding r1_def by (simp add: chain_reindex_def Some Let_def split: option.split)
  show thesis
  proof (cases "es = []")
    case True
    have "refile was i es slots = slots1" unfolding re using True by simp
    moreover have "index_at C mint b H X k (batch_effect ws1 m) n1 slots1 I1 h1" by (rule index_at_shrink [OF r(2)])
    ultimately show thesis using run True r(3) by (intro that [of ws1 n1 I1 h1]) (simp_all add: first_of_def)
  next
    case False
    let ?s = "Slot (fst (hd es)) i (of_nat (length es))"
    have v: "valid_slot ?s" using False assms(4) by (cases es) (auto simp: valid_slot_def entries_ok_def valid_entry_def)
    obtain ws2 n2 I2 h2 where u: "index_upsert mint T ?s (plan_stage ws1 n1 pl) = Ok (plan_stage ws2 n2 (plan_stage ws1 n1 pl))"
      "index_at C mint b H X k (batch_effect ws2 (batch_effect ws1 m)) n2 (put_slot ?s slots1) I2 h2"
      "index_step mint (ch_tenant C) (pl_next (plan_stage ws1 n1 pl)) I1 ws2 n2 I2"
      by (rule index_upsert_at [OF Some _ assms(2) plan_stage_reads [OF assms(3)] v]) (use r(2) in simp_all)
    have "refile was i es slots = put_slot ?s slots1" using False by (simp add: re)
    then show thesis
      using run False u(1, 2) index_step_trans [OF r(3) u(3) [unfolded plan_stage_simps(1)]]
      by (intro that [of "ws1 @ ws2" n2 I2 h2]) (simp_all add: first_of_def)
  qed
qed

section \<open>Planned operations\<close>

definition same_handle :: "record_chain \<Rightarrow> record_chain \<Rightarrow> bool" where
  "same_handle C C' \<longleftrightarrow> (\<exists>head tail. C' = C\<lparr>ch_head := head, ch_tail := tail\<rparr>)"

lemma same_handleD:
  assumes "same_handle C C'"
  shows "ch_tenant C' = ch_tenant C" "ch_lane C' = ch_lane C" "ch_index C' = ch_index C" "ch_min C' = ch_min C"
  using assms by (auto simp: same_handle_def)

lemma handle_moves [simp]:
  "same_handle C C" "same_handle C (C\<lparr>ch_head := i\<rparr>)" "same_handle C (C\<lparr>ch_tail := i\<rparr>)"
proof -
  show "same_handle C C" unfolding same_handle_def by (rule exI [of _ "ch_head C"], rule exI [of _ "ch_tail C"]) simp
  show "same_handle C (C\<lparr>ch_head := i\<rparr>)" unfolding same_handle_def by (rule exI [of _ i], rule exI [of _ "ch_tail C"]) simp
  show "same_handle C (C\<lparr>ch_tail := i\<rparr>)" unfolding same_handle_def by (rule exI [of _ "ch_head C"], rule exI [of _ i]) simp
qed

lemma same_handle_caps: "same_handle C C' \<Longrightarrow> chain_caps pb C' = chain_caps pb C"
  by (simp add: chain_caps_def same_handleD split: option.split)

lemma same_handle_index: "same_handle C C' \<Longrightarrow> index_at C' = index_at C"
  by (simp add: fun_eq_iff index_at_def index_ok_def same_handleD)

lemma same_handle_put: "same_handle C C' \<Longrightarrow> chain_put P C' = chain_put P C" "same_handle C C' \<Longrightarrow> seg_heap P C' = seg_heap P C"
  by (simp_all add: fun_eq_iff chain_put_def seg_heap_def same_handleD)

text \<open>What a planned edit of the run achieves once its writes are applied.\<close>

definition chain_result :: "'p wire \<Rightarrow> ('p \<Rightarrow> bool) \<Rightarrow> (u64 \<Rightarrow> nat \<Rightarrow> local_id) \<Rightarrow> nat \<Rightarrow> nat \<Rightarrow> record_chain \<Rightarrow> kv \<Rightarrow> nat \<Rightarrow> local_id set
    \<Rightarrow> record_chain \<Rightarrow> nat \<Rightarrow> write_op list \<Rightarrow> 'p run \<Rightarrow> bool" where
  "chain_result P vp mint b H C m n U C' n' ws segs' \<longleftrightarrow> same_handle C C' \<and> n \<le> n' \<and> n' \<le> b \<and> edits (ch_tenant C) (U \<union> issued mint n n') ws
     \<and> (\<exists>I' h'. chain_inv P vp C' (batch_effect ws m) segs' I' h' \<and> h' \<le> H \<and> fst ` set segs' \<union> I' \<subseteq> U \<union> issued mint n n')"

lemma index_frame:
  assumes "index_ok C m slots I h" "edits (ch_tenant C) J ws" "J \<inter> I = {}" "chain_caps pb C"
  shows "index_ok C (batch_effect ws m) slots I h"
proof (cases "ch_index C")
  case None
  then show ?thesis using assms(1) by (simp add: index_ok_def)
next
  case (Some T)
  obtain t where t: "sp_inv T m t h" "sp_slots t = slots" "set (sp_ids t) = I" using assms(1) Some by (auto simp: index_ok_def)
  have ids: "fst ` set (sp_nodes t) = I" using t(3) sp_ids_nodes [of t] by (metis set_map)
  have "sp_heap T m (sp_nodes t)" using t(1) unfolding sp_inv_def by blast
  moreover have "edits (st_tenant T) J ws" using assms(2) chain_capsD(6) [OF assms(4) Some] by simp
  moreover have "J \<inter> fst ` set (sp_nodes t) = {}" unfolding ids by (rule assms(3))
  moreover have "u48_ok (st_tenant T)" using chain_capsD(5) [OF assms(4) Some] by (simp add: sparse_caps_def)
  ultimately have "sp_heap T (batch_effect ws m) (sp_nodes t)" by (rule heap_keep)
  then have "sp_inv T (batch_effect ws m) t h" using t(1) unfolding sp_inv_def by blast
  then show ?thesis using t(2, 3) Some by (auto simp: index_ok_def)
qed

text \<open>The segment half of an edit goes first and leaves the index alone.\<close>

lemma index_starts:
  assumes "chain_inv P vp C m segs I h" "chain_caps pb C" "fresh_ids mint n b (fst ` set segs \<union> I)" "n \<le> n1" "room n1 h k b H"
    "edits (ch_tenant C) (fst ` set segs \<union> issued mint n n1) ws"
  shows "index_at C mint b H (fst ` set segs \<union> issued mint n n1) k (batch_effect ws m) n1 (run_slots segs) I h"
proof -
  have n1: "n1 \<le> b" using assms(5) by (simp add: room_def)
  have "issued mint n n1 \<subseteq> issued mint n b" by (rule issued_mono) (use n1 in simp_all)
  then have "issued mint n n1 \<inter> I = {}" using assms(3) unfolding fresh_ids_def by blast
  moreover have inv: "I \<inter> fst ` set segs = {}" "index_ok C m (run_slots segs) I h" using assms(1) by (simp_all add: chain_inv_def)
  ultimately have d: "(fst ` set segs \<union> issued mint n n1) \<inter> I = {}" by blast
  have "fresh_ids mint n1 b (fst ` set segs \<union> issued mint n n1 \<union> I)" by (rule fresh_next [OF assms(3, 4) n1]) blast
  then show ?thesis using index_frame [OF inv(2) assms(6) d assms(2)] d assms(5) by (simp add: index_at_def)
qed

lemma disjoint_fresh: "A \<subseteq> B \<Longrightarrow> I \<inter> S = {} \<Longrightarrow> B \<inter> (S \<union> I) = {} \<Longrightarrow> I \<inter> (S \<union> A) = {}"
  by blast

lemma disjoint_cut: "N \<inter> X = {} \<Longrightarrow> I \<inter> X = {} \<Longrightarrow> S \<subseteq> X \<Longrightarrow> (I \<union> N) \<inter> S = {}"
  by blast

lemma chain_finish:
  assumes "chain_inv P vp C m segs I h" "chain_caps pb C" "same_handle C C'"
    "edits (ch_tenant C) (fst ` set segs \<union> issued mint n n1) ws" "n \<le> n1" "seg_heap P C (batch_effect ws m) (links None segs' None)"
    "fst ` set segs' \<subseteq> fst ` set segs \<union> issued mint n n1" "distinct (map fst segs')" "entries_ok vp (run_entries segs')" "banded (ch_min C) segs'"
    "segs' \<noteq> []" "ch_head C' = fst (hd segs')" "ch_tail C' = fst (last segs')"
    "index_at C mint b H (fst ` set segs \<union> issued mint n n1) k (batch_effect (ws @ ws') m) n' (run_slots segs') I' h'"
    "index_step mint (ch_tenant C) n1 I ws' n' I'" "fresh_ids mint n b (fst ` set segs \<union> I)"
  shows "chain_result P vp mint b H C m n (fst ` set segs \<union> I) C' n' (ws @ ws') segs'"
proof -
  have st: "n1 \<le> n'" "I' \<subseteq> I \<union> issued mint n1 n'" "edits (ch_tenant C) (I \<union> issued mint n1 n') ws'"
    using assms(15) by (simp_all add: index_step_def)
  have at: "index_ok C (batch_effect (ws @ ws') m) (run_slots segs') I' h'" "n' \<le> b" "h' \<le> H" "(fst ` set segs \<union> issued mint n n1) \<inter> I' = {}"
    using assms(14) by (simp_all add: index_at_def room_def)
  have i: "issued mint n n1 \<subseteq> issued mint n n'" "issued mint n1 n' \<subseteq> issued mint n n'" by (rule issued_mono; use st(1) assms(5) in simp)+
  have e: "edits (ch_tenant C) (fst ` set segs \<union> I \<union> issued mint n n') (ws @ ws')"
    unfolding edits_simps by (rule conjI; rule edits_mono; (rule assms(4) st(3))?; use i in blast)
  have sub: "fst ` set segs' \<union> I' \<subseteq> fst ` set segs \<union> I \<union> issued mint n n'" using assms(7) st(2) i by blast
  have "fresh_ids mint n1 b (fst ` set segs \<union> issued mint n n1 \<union> I)"
    by (rule fresh_next [OF assms(16, 5)]) (use st(1) at(2) in auto)
  then have "issued mint n1 n' \<inter> (fst ` set segs \<union> issued mint n n1) = {}"
    using issued_mono [OF order_refl at(2), of mint n1] unfolding fresh_ids_def by blast
  moreover have "I \<inter> (fst ` set segs \<union> issued mint n n1) = {}"
  proof -
    have "issued mint n n1 \<subseteq> issued mint n b" by (rule issued_mono) (use st(1) at(2) in simp_all)
    moreover have "I \<inter> fst ` set segs = {}" using assms(1) by (simp add: chain_inv_def)
    moreover have "issued mint n b \<inter> (fst ` set segs \<union> I) = {}" using assms(16) by (simp add: fresh_ids_def)
    ultimately show ?thesis by (rule disjoint_fresh)
  qed
  ultimately have d: "(I \<union> issued mint n1 n') \<inter> fst ` set (links None segs' None) = {}"
    unfolding links_ids by (rule disjoint_cut [OF _ _ assms(7)])
  have "seg_heap P C (batch_effect ws' (batch_effect ws m)) (links None segs' None)"
    by (rule seg_heap_edits [OF assms(6) st(3) d(1) chain_capsD(2) [OF assms(2)]])
  moreover have "I' \<inter> fst ` set segs' = {}" using at(4) assms(7) by blast
  ultimately have "chain_inv P vp C' (batch_effect (ws @ ws') m) segs' I' h'"
    using assms(8-13) at(1) unfolding chain_inv_def index_ok_def same_handle_put(2) [OF assms(3)] same_handleD [OF assms(3)] by simp
  with at(3) sub have "\<exists>I' h'. chain_inv P vp C' (batch_effect (ws @ ws') m) segs' I' h' \<and> h' \<le> H
      \<and> fst ` set segs' \<union> I' \<subseteq> fst ` set segs \<union> I \<union> issued mint n n'"
    by (intro exI [of _ I'] exI [of _ h'] conjI)
  then show ?thesis using assms(3, 5) st(1) at(2) e by (simp add: chain_result_def)
qed

lemma chain_put_effect [simp]:
  "write_effect (chain_put P C i s) m = m(to_id i (ch_tenant C) \<mapsto> segment_to_bytes P (ch_lane C) s)"
  by (simp add: chain_put_def)

lemma chain_put_edits: "i \<in> J \<Longrightarrow> edits (ch_tenant C) J ws \<Longrightarrow> edits (ch_tenant C) J (chain_put P C i s # ws)"
  by (auto simp: chain_put_def)

lemma slots_apart:
  assumes "entries_ok vp (run_entries (L @ (i, es) # R))" "k \<in> set_option (first_of es)"
  shows "\<forall>s\<in>set (run_slots L). slot_first s < k" "\<forall>s\<in>set (run_slots R). k < slot_first s"
proof -
  obtain e where e: "e \<in> set es" "fst e = k" using assms(2) by (cases es) (auto simp: first_of_def)
  note o = entries_ok_segD(5, 6) [OF assms(1)]
  show "\<forall>s\<in>set (run_slots L). slot_first s < k"
  proof
    fix s assume "s \<in> set (run_slots L)"
    then obtain x where "x \<in> set (run_entries L)" "fst x = slot_first s" using run_slot_entry [of s L] by force
    then show "slot_first s < k" using o(1) e by metis
  qed
  show "\<forall>s\<in>set (run_slots R). k < slot_first s"
  proof
    fix s assume "s \<in> set (run_slots R)"
    then obtain x where "x \<in> set (run_entries R)" "fst x = slot_first s" using run_slot_entry [of s R] by force
    then show "k < slot_first s" using o(2) e by metis
  qed
qed

lemma refile_run:
  assumes "entries_ok vp (run_entries (L @ (j, es) # R))" "entries_ok vp (run_entries (L @ (i, es') # R))"
  shows "refile (first_of es) i es' (run_slots (L @ (j, es) # R)) = run_slots (L @ (i, es') # R)"
proof -
  have "refile (first_of es) i es' (run_slots L @ seg_slot j es @ run_slots R) = run_slots L @ seg_slot i es' @ run_slots R"
    by (rule refile_at) (use slots_apart [OF assms(1)] slots_apart [OF assms(2)] in blast)+
  then show ?thesis by simp
qed

context chain_payload
begin

text \<open>An edit that stays within the band.\<close>

lemma plain_edit:
  assumes "chain_inv P vp C m (L @ (i, es) # R) I h" "chain_caps pb C" "entries_ok vp (run_entries (L @ (i, es') # R))"
    "banded (ch_min C) (L @ (i, es') # R)" "overlay_get (pl_view pl) = reads m" "fresh_ids mint (pl_next pl) b (fst ` set (L @ (i, es) # R) \<union> I)"
    "room (pl_next pl) h 2 b H"
  obtains ws n' where "chain_reindex mint C (first_of es) i (with_entries (id_last None L) (id_first R None) es')
      (chain_emit P C i (with_entries (id_last None L) (id_first R None) es') pl) = Ok (plan_stage ws n' pl)"
    "chain_result P vp mint b H C m (pl_next pl) (fst ` set (L @ (i, es) # R) \<union> I) C n' ws (L @ (i, es') # R)"
proof -
  let ?s = "with_entries (id_last None L) (id_first R None) es'" and ?segs = "L @ (i, es) # R" and ?segs' = "L @ (i, es') # R"
  let ?ws = "[chain_put P C i ?s]" and ?n = "pl_next pl" and ?X = "fst ` set (L @ (i, es) # R) \<union> issued mint (pl_next pl) (pl_next pl)"
  have inv: "entries_ok vp (run_entries ?segs)" "distinct (map fst ?segs)" "seg_heap P C m (links None ?segs None)"
    "ch_head C = fst (hd ?segs)" "ch_tail C = fst (last ?segs)" using assms(1) unfolding chain_inv_def by blast+
  have e: "edits (ch_tenant C) ?X ?ws" by (rule chain_put_edits) simp_all
  have "index_at C mint b H ?X 2 (batch_effect ?ws m) ?n (run_slots ?segs) I h"
    by (rule index_starts [OF assms(1, 2, 6) order_refl assms(7) e])
  then have at: "index_at C mint b H ?X (Suc (Suc 0)) (batch_effect ?ws m) (pl_next (chain_emit P C i ?s pl)) (run_slots ?segs) I h"
    by (simp add: chain_emit_def numeral_2_eq_2)
  have view: "overlay_get (pl_view (chain_emit P C i ?s pl)) = reads (batch_effect ?ws m)"
    unfolding chain_emit_def by (rule plan_stage_reads [OF assms(5)])
  obtain ws n' I' h' where r: "chain_reindex mint C (first_of es) i ?s (chain_emit P C i ?s pl) = Ok (plan_stage ws n' (chain_emit P C i ?s pl))"
    "index_at C mint b H ?X 0 (batch_effect ws (batch_effect ?ws m)) n' (refile (first_of es) i es' (run_slots ?segs)) I' h'"
    "index_step mint (ch_tenant C) (pl_next (chain_emit P C i ?s pl)) I ws n' I'"
    by (rule chain_reindex_at [OF at assms(2) view entries_ok_segD(1) [OF assms(3)]])
  have heap: "seg_heap P C (batch_effect ?ws m) (links None ?segs' None)"
    using inv(2, 3) chain_capsD(2) [OF assms(2)] by (simp add: seg_heap_upd)
  have "chain_result P vp mint b H C m ?n (fst ` set ?segs \<union> I) C n' (?ws @ ws) ?segs'"
    by (rule chain_finish [OF assms(1, 2) handle_moves(1) e order_refl heap _ _ assms(3, 4) _ _ _ _ _ assms(6)])
      (use inv(2, 4, 5) r(2, 3) refile_run [OF inv(1) assms(3)] in \<open>auto simp: chain_emit_def hd_append split: if_splits\<close>)
  moreover have "chain_reindex mint C (first_of es) i ?s (chain_emit P C i ?s pl) = Ok (plan_stage (?ws @ ws) n' pl)"
    using r(1) by (simp add: chain_emit_def)
  ultimately show thesis using that by blast
qed

end

text \<open>Two neighbours refiled one after the other.\<close>

lemma first_of_mem: "k \<in> set_option (first_of es) \<Longrightarrow> \<exists>e\<in>set es. fst e = k"
  by (cases es) (auto simp: first_of_def)

lemma refile_two:
  assumes "entries_ok vp (run_entries (L @ (j, es) # (j', fs) # R))" "entries_ok vp (run_entries (L @ (i, es') # (i', fs') # R))"
    "\<forall>k\<in>set_option (first_of es'). \<forall>k'\<in>set_option (first_of fs). k < k'"
  shows "refile (first_of fs) i' fs' (refile (first_of es) i es' (run_slots (L @ (j, es) # (j', fs) # R))) = run_slots (L @ (i, es') # (i', fs') # R)"
proof -
  note o = slots_apart [OF assms(1)] slots_apart [OF assms(2)]
  have p: "entries_ok vp (run_entries ((L @ [(j, es)]) @ (j', fs) # R))" "entries_ok vp (run_entries ((L @ [(i, es')]) @ (i', fs') # R))"
    using assms(1, 2) by simp_all
  note q = slots_apart [OF p(1)] slots_apart [OF p(2)]
  have after: "\<forall>s\<in>set (seg_slot j' fs @ run_slots R). \<forall>k\<in>set_option (first_of es) \<union> set_option (first_of es'). k < slot_first s"
  proof -
    have "slot_first s \<in> set_option (first_of fs)" if "s \<in> set (seg_slot j' fs)" for s using that by (auto simp: seg_slot_def first_of_def split: if_splits)
    then show ?thesis using o(2) o(4) assms(3) by (auto split: if_splits)
  qed
  have "refile (first_of es) i es' (run_slots L @ seg_slot j es @ (seg_slot j' fs @ run_slots R)) = run_slots L @ seg_slot i es' @ (seg_slot j' fs @ run_slots R)"
    by (rule refile_at [OF _ after]) (use o(1, 3) in blast)
  moreover have "refile (first_of fs) i' fs' ((run_slots L @ seg_slot i es') @ seg_slot j' fs @ run_slots R) = (run_slots L @ seg_slot i es') @ seg_slot i' fs' @ run_slots R"
  proof (rule refile_at)
    have "slot_first s \<in> set_option (first_of es')" if "s \<in> set (seg_slot i es')" for s using that by (auto simp: seg_slot_def first_of_def split: if_splits)
    then show "\<forall>s\<in>set (run_slots L @ seg_slot i es'). \<forall>k\<in>set_option (first_of fs) \<union> set_option (first_of fs'). slot_first s < k"
      using q(1, 3) assms(3) by auto
    show "\<forall>s\<in>set (run_slots R). \<forall>k\<in>set_option (first_of fs) \<union> set_option (first_of fs'). k < slot_first s" using q(2, 4) by blast
  qed
  ultimately show ?thesis by simp
qed

lemma reindex_two:
  assumes "index_at C mint b H X 4 m (pl_next pl) (run_slots (L @ (j, es) # (j', fs) # R)) I h" "chain_caps pb C" "overlay_get (pl_view pl) = reads m"
    "entries_ok vp (run_entries (L @ (j, es) # (j', fs) # R))" "entries_ok vp (run_entries (L @ (i, es') # (i', fs') # R))"
    "\<forall>k\<in>set_option (first_of es'). \<forall>k'\<in>set_option (first_of fs). k < k'"
  obtains pl1 ws n' I' h' where "chain_reindex mint C (first_of es) i (with_entries p q es') pl = Ok pl1"
    "chain_reindex mint C (first_of fs) i' (with_entries p' q' fs') pl1 = Ok (plan_stage ws n' pl)"
    "index_at C mint b H X 0 (batch_effect ws m) n' (run_slots (L @ (i, es') # (i', fs') # R)) I' h'" "index_step mint (ch_tenant C) (pl_next pl) I ws n' I'"
proof -
  have at: "index_at C mint b H X (Suc (Suc 2)) m (pl_next pl) (run_slots (L @ (j, es) # (j', fs) # R)) I h" using assms(1) by (simp add: eval_nat_numeral)
  have ok: "entries_ok vp es'" "entries_ok vp fs'" using entries_ok_segD(1) [OF assms(5)] entries_ok_segD(1) [of vp "L @ [(i, es')]" i' fs' R] assms(5) by simp_all
  obtain ws1 n1 I1 h1 where r: "chain_reindex mint C (first_of es) i (with_entries p q es') pl = Ok (plan_stage ws1 n1 pl)"
    "index_at C mint b H X 2 (batch_effect ws1 m) n1 (refile (first_of es) i es' (run_slots (L @ (j, es) # (j', fs) # R))) I1 h1"
    "index_step mint (ch_tenant C) (pl_next pl) I ws1 n1 I1"
    by (rule chain_reindex_at [OF at assms(2, 3) ok(1)])
  have at1: "index_at C mint b H X (Suc (Suc 0)) (batch_effect ws1 m) (pl_next (plan_stage ws1 n1 pl)) (refile (first_of es) i es' (run_slots (L @ (j, es) # (j', fs) # R))) I1 h1"
    using r(2) by (simp add: eval_nat_numeral)
  obtain ws2 n2 I2 h2 where r': "chain_reindex mint C (first_of fs) i' (with_entries p' q' fs') (plan_stage ws1 n1 pl) = Ok (plan_stage ws2 n2 (plan_stage ws1 n1 pl))"
    "index_at C mint b H X 0 (batch_effect ws2 (batch_effect ws1 m)) n2 (refile (first_of fs) i' fs' (refile (first_of es) i es' (run_slots (L @ (j, es) # (j', fs) # R)))) I2 h2"
    "index_step mint (ch_tenant C) (pl_next (plan_stage ws1 n1 pl)) I1 ws2 n2 I2"
    by (rule chain_reindex_at [OF at1 assms(2) plan_stage_reads [OF assms(3)] ok(2)])
  have s: "index_step mint (ch_tenant C) (pl_next pl) I (ws1 @ ws2) n2 I2" by (rule index_step_trans [OF r(3)]) (use r'(3) in simp)
  have fin: "index_at C mint b H X 0 (batch_effect (ws1 @ ws2) m) n2 (run_slots (L @ (i, es') # (i', fs') # R)) I2 h2"
    using r'(2) unfolding refile_two [OF assms(4-6)] by simp
  show thesis by (rule that [OF r(1) _ fin s]) (use r'(1) in simp)
qed

end
