(* ===== verification/Chain_Insert.thy ===== *)
theory Chain_Insert
  imports Chain_Laws
begin

text \<open>
  Inserting into a record chain: an edit in place, or a split that hands the fresh id to the interior half
  and relinks the neighbour beyond it.
\<close>

section \<open>Splits\<close>

context chain_payload
begin

lemma relink_ok:
  assumes "chain_inv P vp C m (L @ (o', es) # R) I h" "chain_caps pb C" "overlay_get (pl_view pl) = reads m"
  shows "chain_relink P C o' to b pl = Ok (plan_stage [chain_put P C o' (if b then with_entries (id_last None L) to es else with_entries to (id_first R None) es)] (pl_next pl) pl)"
  using chain_load_at [OF assms(1, 2)] assms(3) by (simp add: chain_relink_def chain_emit_def)

lemma tail_iff: "chain_inv P vp C m (L @ (i, es) # R) I h \<Longrightarrow> i = ch_tail C \<longleftrightarrow> R = []"
  by (auto simp: chain_inv_def dest: last_in_set)

lemma head_iff: "chain_inv P vp C m (L @ (i, es) # R) I h \<Longrightarrow> i = ch_head C \<longleftrightarrow> L = []"
  by (auto simp: chain_inv_def hd_append dest: hd_in_set)

lemma split_segments:
  assumes "chain_inv P vp C m (L @ (i, es) # R) I h" "chain_caps pb C" "overlay_get (pl_view pl) = reads m" "f \<notin> fst ` set (L @ (i, es) # R)"
  obtains C1 kept made ws low high where
    "(if i = ch_tail C
      then case id_last None L of
          Some outer \<Rightarrow> try_then (chain_relink P C outer (Some f) True pl) (\<lambda>pl1. Ok (C, with_entries (Some f) (id_first R None) upper, with_entries (id_last None L) (Some i) lower, pl1))
        | None \<Rightarrow> Ok (C\<lparr>ch_head := f\<rparr>, with_entries (Some f) (id_first R None) upper, with_entries (id_last None L) (Some i) lower, pl)
      else case id_first R None of
          Some outer \<Rightarrow> try_then (chain_relink P C outer (Some f) False pl) (\<lambda>pl1. Ok (C, with_entries (id_last None L) (Some f) lower, with_entries (Some i) (id_first R None) upper, pl1))
        | None \<Rightarrow> Ok (C\<lparr>ch_tail := f\<rparr>, with_entries (id_last None L) (Some f) lower, with_entries (Some i) (id_first R None) upper, pl))
      = Ok (C1, kept, made, plan_stage ws (pl_next pl) pl)"
    "same_handle C C1" "(if i = ch_tail C1 then (f, made, i, kept) else (i, kept, f, made))
      = (low, with_entries (id_last None L) (Some high) lower, high, with_entries (Some low) (id_first R None) upper)"
    "{low, high} = {i, f}" "ch_head C1 = fst (hd (L @ (low, lower) # (high, upper) # R))" "ch_tail C1 = fst (last (L @ (low, lower) # (high, upper) # R))"
    "edits (ch_tenant C) (insert f (fst ` set (L @ (i, es) # R))) (ws @ [chain_put P C i kept, chain_put P C f made])"
    "seg_heap P C (batch_effect (ws @ [chain_put P C i kept, chain_put P C f made]) m) (links None (L @ (low, lower) # (high, upper) # R) None)"
proof -
  have inv: "distinct (map fst (L @ (i, es) # R))" "seg_heap P C m (links None (L @ (i, es) # R) None)"
    "ch_head C = fst (hd (L @ (i, es) # R))" "ch_tail C = fst (last (L @ (i, es) # R))" using assms(1) unfolding chain_inv_def by blast+
  have ten: "u48_ok (ch_tenant C)" by (rule chain_capsD(2) [OF assms(2)])
  note tail = tail_iff [OF assms(1)]
  have e: "edits (ch_tenant C) (insert f (fst ` set (L @ (i, es) # R))) (ws @ [chain_put P C i kept, chain_put P C f made])"
    if "edits (ch_tenant C) (insert f (fst ` set (L @ (i, es) # R))) ws" for ws kept made
    unfolding edits_simps using that by (auto intro!: chain_put_edits)
  show thesis
  proof (cases R)
    case Nil
    show thesis
    proof (cases L rule: rev_cases)
      case L: Nil
      show thesis
        by (rule that [of "C\<lparr>ch_head := f\<rparr>" "with_entries (Some f) None upper" "with_entries None (Some i) lower" "[]" f i])
          (use Nil L tail inv assms(4) ten e [of "[]"] in \<open>auto simp: seg_heap_upd to_id_inject image_Un\<close>)
    next
      case (snoc L' seg)
      obtain q qs where seg: "seg = (q, qs)" by (cases seg)
      let ?o = "with_entries (id_last None L') (Some f) qs"
      have segs: "L @ (i, es) # R = L' @ (q, qs) # ((i, es) # R)" using snoc seg by simp
      have r: "chain_relink P C q (Some f) True pl = Ok (plan_stage [chain_put P C q ?o] (pl_next pl) pl)"
        using relink_ok [OF assms(1) [unfolded segs] assms(2, 3), of "Some f" True] by simp
      have e1: "edits (ch_tenant C) (insert f (fst ` set (L @ (i, es) # R))) [chain_put P C q ?o]"
        by (rule chain_put_edits) (simp_all add: segs)
      show thesis
        by (rule that [of C "with_entries (Some f) None upper" "with_entries (Some q) (Some i) lower" "[chain_put P C q ?o]" f i])
          (use Nil snoc seg tail inv assms(4) ten e [OF e1] r in \<open>auto simp: seg_heap_upd to_id_inject hd_append image_Un\<close>)
    qed
  next
    case (Cons seg R')
    obtain q qs where seg: "seg = (q, qs)" by (cases seg)
    let ?o = "with_entries (Some f) (id_first R' None) qs"
    have segs: "L @ (i, es) # R = (L @ [(i, es)]) @ (q, qs) # R'" using Cons seg by simp
    have r: "chain_relink P C q (Some f) False pl = Ok (plan_stage [chain_put P C q ?o] (pl_next pl) pl)"
      using relink_ok [OF assms(1) [unfolded segs] assms(2, 3), of "Some f" False] by simp
    have e1: "edits (ch_tenant C) (insert f (fst ` set (L @ (i, es) # R))) [chain_put P C q ?o]"
      by (rule chain_put_edits) (simp_all add: segs)
    show thesis
      by (rule that [of C "with_entries (id_last None L) (Some f) lower" "with_entries (Some i) (Some q) upper" "[chain_put P C q ?o]" i f])
        (use Cons seg tail inv assms(4) ten e [OF e1] r in \<open>auto simp: seg_heap_upd to_id_inject hd_append image_Un\<close>)
  qed
qed

lemma banded_replace:
  assumes "banded n (L @ S @ R)" "S \<noteq> []" "\<forall>(i, es)\<in>set S'. n div 2 < length es \<and> length es < 2 * n" "L @ R = [] \<or> length (L @ S @ R) \<noteq> 1"
  shows "banded n (L @ S' @ R)"
proof -
  have "length es < 2 * n \<and> n div 2 < length es" if "(i, es) \<in> set (L @ R)" for i es
    using assms(1, 2, 4) that unfolding banded_def by (cases S) auto
  then show ?thesis using assms(3) unfolding banded_def by (auto simp: Ball_def)
qed

lemma split_edit:
  assumes "chain_inv P vp C m (L @ (i, es) # R) I h" "chain_caps pb C" "entries_ok vp (run_entries (L @ (i, es') # R))" "length es' = 2 * ch_min C"
    "overlay_get (pl_view pl) = reads m" "fresh_ids mint (pl_next pl) b (fst ` set (L @ (i, es) # R) \<union> I)" "room (Suc (pl_next pl)) h 4 b H"
  obtains C' ws n' segs' where "chain_split P mint C i (with_entries (id_last None L) (id_first R None) es') (first_of es) pl = Ok (C', plan_stage ws n' pl)"
    "chain_result P vp mint b H C m (pl_next pl) (fst ` set (L @ (i, es) # R) \<union> I) C' n' ws segs'" "run_entries segs' = run_entries (L @ (i, es') # R)"
proof -
  let ?segs = "L @ (i, es) # R" and ?n = "pl_next pl" and ?pl0 = "pl\<lparr>pl_next := Suc (pl_next pl)\<rparr>"
  define f lower upper where "f = mint (ch_lane C) ?n" and "lower = take (ch_min C) es'" and "upper = drop (ch_min C) es'"
  have es': "es' = lower @ upper" "length lower = ch_min C" "length upper = ch_min C" using assms(4) by (simp_all add: lower_def upper_def)
  have inv: "entries_ok vp (run_entries ?segs)" "distinct (map fst ?segs)" "banded (ch_min C) ?segs" using assms(1) unfolding chain_inv_def by blast+
  have nb: "Suc ?n \<le> b" using assms(7) by (simp add: room_def)
  have new: "issued mint ?n (Suc ?n) \<subseteq> issued mint ?n b" by (rule issued_mono) (use nb in simp_all)
  have fi: "f \<in> issued mint ?n (Suc ?n)" by (auto simp: f_def issued_def)
  have f: "f \<notin> fst ` set ?segs" using fi new assms(6) unfolding fresh_ids_def by blast
  have pl0: "overlay_get (pl_view ?pl0) = reads m" "?pl0 = plan_stage [] (Suc ?n) pl" using assms(5) by (simp_all add: plan_stage_def)
  obtain C1 kept made ws low high where s:
    "(if i = ch_tail C
      then case id_last None L of
          Some outer \<Rightarrow> try_then (chain_relink P C outer (Some f) True ?pl0) (\<lambda>pl1. Ok (C, with_entries (Some f) (id_first R None) upper, with_entries (id_last None L) (Some i) lower, pl1))
        | None \<Rightarrow> Ok (C\<lparr>ch_head := f\<rparr>, with_entries (Some f) (id_first R None) upper, with_entries (id_last None L) (Some i) lower, ?pl0)
      else case id_first R None of
          Some outer \<Rightarrow> try_then (chain_relink P C outer (Some f) False ?pl0) (\<lambda>pl1. Ok (C, with_entries (id_last None L) (Some f) lower, with_entries (Some i) (id_first R None) upper, pl1))
        | None \<Rightarrow> Ok (C\<lparr>ch_tail := f\<rparr>, with_entries (id_last None L) (Some f) lower, with_entries (Some i) (id_first R None) upper, ?pl0))
      = Ok (C1, kept, made, plan_stage ws (pl_next ?pl0) ?pl0)"
    "same_handle C C1" "(if i = ch_tail C1 then (f, made, i, kept) else (i, kept, f, made))
      = (low, with_entries (id_last None L) (Some high) lower, high, with_entries (Some low) (id_first R None) upper)"
    "{low, high} = {i, f}" "ch_head C1 = fst (hd (L @ (low, lower) # (high, upper) # R))" "ch_tail C1 = fst (last (L @ (low, lower) # (high, upper) # R))"
    "edits (ch_tenant C) (insert f (fst ` set ?segs)) (ws @ [chain_put P C i kept, chain_put P C f made])"
    "seg_heap P C (batch_effect (ws @ [chain_put P C i kept, chain_put P C f made]) m) (links None (L @ (low, lower) # (high, upper) # R) None)"
    by (rule split_segments [OF assms(1, 2) pl0(1) f])
  let ?ws = "ws @ [chain_put P C i kept, chain_put P C f made]" and ?segs' = "L @ (low, lower) # (high, upper) # R"
  let ?X = "fst ` set ?segs \<union> issued mint ?n (Suc ?n)"
  define pl2 where "pl2 = chain_emit P C1 f made (chain_emit P C1 i kept (plan_stage ws (pl_next ?pl0) ?pl0))"
  have pl2: "pl2 = plan_stage ?ws (Suc ?n) pl" unfolding pl2_def chain_emit_def same_handle_put(1) [OF s(2)] by (simp add: pl0(2))
  have e: "edits (ch_tenant C) ?X ?ws" by (rule edits_mono [OF s(7)]) (use fi in blast)
  have run: "run_entries ?segs' = run_entries (L @ (i, es') # R)" by (simp add: es'(1))
  have ok: "entries_ok vp (run_entries ?segs')" unfolding run by (rule assms(3))
  have ok0: "entries_ok vp (run_entries (L @ (i, es) # (i, []) # R))" using inv(1) by simp
  have "index_at C mint b H ?X 4 (batch_effect ?ws m) (Suc ?n) (run_slots ?segs) I h" by (rule index_starts [OF assms(1, 2, 6) _ assms(7) e]) simp
  then have at: "index_at C1 mint b H ?X 4 (batch_effect ?ws m) (pl_next pl2) (run_slots (L @ (i, es) # (i, []) # R)) I h"
    unfolding pl2 same_handle_index [OF s(2)] by (simp add: seg_slot_def)
  have view: "overlay_get (pl_view pl2) = reads (batch_effect ?ws m)" unfolding pl2 by (rule plan_stage_reads [OF assms(5)])
  have caps: "chain_caps pb C1" using assms(2) same_handle_caps [OF s(2)] by simp
  obtain pl3 ws' n' I' h' where r: "chain_reindex mint C1 (first_of es) low (with_entries (id_last None L) (Some high) lower) pl2 = Ok pl3"
    "chain_reindex mint C1 (first_of ([] :: (sec_key \<times> 'p) list)) high (with_entries (Some low) (id_first R None) upper) pl3 = Ok (plan_stage ws' n' pl2)"
    "index_at C1 mint b H ?X 0 (batch_effect ws' (batch_effect ?ws m)) n' (run_slots ?segs') I' h'" "index_step mint (ch_tenant C1) (pl_next pl2) I ws' n' I'"
    by (rule reindex_two [OF at caps view ok0 ok]) (simp add: first_of_def)
  have d: "distinct (map fst ?segs')" using inv(2) f s(4) by (auto simp: doubleton_eq_iff)
  have bd: "banded (ch_min C) (L @ [(low, lower), (high, upper)] @ R)"
    by (rule banded_replace [of _ _ "[(i, es)]"]) (use inv(3) chain_capsD(1) [OF assms(2)] es'(2, 3) in auto)
  have sub: "fst ` set ?segs' \<subseteq> ?X" using s(4) fi by (auto simp: doubleton_eq_iff)
  have res: "chain_result P vp mint b H C m ?n (fst ` set ?segs \<union> I) C1 n' (?ws @ ws') ?segs'"
    by (rule chain_finish [OF assms(1, 2) s(2) e _ s(8) sub d ok _ _ s(5, 6) _ _ assms(6)])
      (use bd r(3, 4) same_handle_index [OF s(2)] same_handleD(1) [OF s(2)] pl2 in simp_all)
  have "chain_split P mint C i (with_entries (id_last None L) (id_first R None) es') (first_of es) pl = Ok (C1, plan_stage (?ws @ ws') n' pl)"
  proof -
    have l: "length es' div 2 = ch_min C" using assms(4) by simp
    have "chain_split P mint C i (with_entries (id_last None L) (id_first R None) es') (first_of es) pl
      = try_then (Ok (C1, kept, made, plan_stage ws (pl_next ?pl0) ?pl0)) (\<lambda>(C1, kept, made, pl1).
             let pl2 = chain_emit P C1 f made (chain_emit P C1 i kept pl1);
                 (low_id, low, high_id, high) = (if i = ch_tail C1 then (f, made, i, kept) else (i, kept, f, made))
             in try_then (chain_reindex mint C1 (first_of es) low_id low pl2) (\<lambda>pl3.
                try_then (chain_reindex mint C1 None high_id high pl3) (\<lambda>pl4. Ok (C1, pl4))))"
      using s(1) unfolding chain_split_def Let_def with_entries_simps l f_def lower_def upper_def Suc_eq_plus1 by (simp only:)
    also have "\<dots> = Ok (C1, plan_stage (?ws @ ws') n' pl)"
      using r(1, 2) unfolding try_then_simps prod.case Let_def pl2_def [symmetric] s(3) by (simp add: pl2 first_of_def)
    finally show ?thesis .
  qed
  then show thesis by (rule that [OF _ res run])
qed

lemma plan_new_simps [simp]: "overlay_get (pl_view (plan_new R n)) = R" "pl_next (plan_new R n) = n" "pl_writes (plan_new R n) = []"
  by (simp_all add: plan_new_def)

lemma room_less: "room (Suc n) h 4 b H \<Longrightarrow> room n h 2 b H"
  by (simp add: room_def)

lemma banded_edit:
  assumes "banded n (L @ (i, es) # R)" "length es' < 2 * n" "L @ R = [] \<or> n div 2 < length es'"
  shows "banded n (L @ (i, es') # R)"
  using assms by (auto simp: banded_def)

text \<open>An insert puts exactly its entry into the chain.\<close>

lemma chain_insert_ok:
  assumes "chain_inv P vp C m segs I h" "chain_caps pb C" "valid_entry vp (key, p)" "fresh_ids mint n b (fst ` set segs \<union> I)" "room (Suc n) h 4 b H"
  obtains C' n' ws segs' where "chain_insert P (reads m) mint C n key p = Ok (C', n', ws)"
    "chain_result P vp mint b H C m n (fst ` set segs \<union> I) C' n' ws segs'" "map_of (run_entries segs') = (map_of (run_entries segs))(key \<mapsto> p)"
proof -
  obtain L i es R where l: "segs = L @ (i, es) # R" "spans key L R"
    "chain_locate P (reads m) C key = Ok (i, with_entries (id_last None L) (id_first R None) es)" by (rule chain_locate_ok [OF assms(1, 2)])
  note inv = assms(1) [unfolded l(1)]
  have ok: "entries_ok vp (run_entries (L @ (i, es) # R))" "banded (ch_min C) (L @ (i, es) # R)" using inv unfolding chain_inv_def by blast+
  obtain as os bs where e: "es = as @ os @ bs" "length os \<le> 1"
    "\<And>b n. snd (seg_insert key p (with_entries b n es)) = with_entries b n (as @ (key, p) # bs)"
    "valid_entry vp (key, p) \<longrightarrow> entries_ok vp (run_entries (L @ (i, as @ (key, p) # bs) # R))"
    "map_of (run_entries (L @ (i, as @ (key, p) # bs) # R)) = (map_of (run_entries (L @ (i, es) # R)))(key \<mapsto> p)"
    by (rule segment_edits [OF ok(1) l(2), of p]) (rule that; assumption)
  let ?es = "as @ (key, p) # bs" and ?pl = "plan_new (reads m) n"
  have ok': "entries_ok vp (run_entries (L @ (i, ?es) # R))" using e(4) assms(3) by blast
  have pl: "overlay_get (pl_view ?pl) = reads m" "fresh_ids mint (pl_next ?pl) b (fst ` set (L @ (i, es) # R) \<union> I)" "room (Suc (pl_next ?pl)) h 4 b H"
    using assms(4, 5) l(1) by simp_all
  have len: "length ?es \<le> Suc (length es)" "length es \<le> length ?es" "length es < 2 * ch_min C" "L @ R = [] \<or> ch_min C div 2 < length es"
    using e(1, 2) banded_split [OF ok(2)] by auto
  have run: "chain_insert P (reads m) mint C n key p = try_then
      (if twice_min C \<le> length ?es then chain_split P mint C i (with_entries (id_last None L) (id_first R None) ?es) (first_of es) ?pl
       else try_then (chain_reindex mint C (first_of es) i (with_entries (id_last None L) (id_first R None) ?es)
               (chain_emit P C i (with_entries (id_last None L) (id_first R None) ?es) ?pl)) (\<lambda>pl. Ok (C, pl)))
      (\<lambda>(C1, pl). Ok (C1, pl_next pl, pl_writes pl))"
    by (simp only: chain_insert_def Let_def plan_new_simps l(3) try_then_simps prod.case with_entries_simps e(3))
  show thesis
  proof (cases "2 * ch_min C \<le> length ?es")
    case True
    then have full: "length ?es = 2 * ch_min C" using len(1, 3) by simp
    obtain C' ws n' segs' where s: "chain_split P mint C i (with_entries (id_last None L) (id_first R None) ?es) (first_of es) ?pl = Ok (C', plan_stage ws n' ?pl)"
      "chain_result P vp mint b H C m (pl_next ?pl) (fst ` set (L @ (i, es) # R) \<union> I) C' n' ws segs'" "run_entries segs' = run_entries (L @ (i, ?es) # R)"
      by (rule split_edit [OF inv assms(2) ok' full pl])
    show thesis
      by (rule that [of C' n' ws segs']) (use run s True chain_capsD(4) [OF assms(2)] e(5) l(1) in simp_all)
  next
    case False
    have bd: "banded (ch_min C) (L @ (i, ?es) # R)" by (rule banded_edit [OF ok(2)]) (use False len(2, 4) in auto)
    obtain ws n' where s: "chain_reindex mint C (first_of es) i (with_entries (id_last None L) (id_first R None) ?es)
        (chain_emit P C i (with_entries (id_last None L) (id_first R None) ?es) ?pl) = Ok (plan_stage ws n' ?pl)"
      "chain_result P vp mint b H C m (pl_next ?pl) (fst ` set (L @ (i, es) # R) \<union> I) C n' ws (L @ (i, ?es) # R)"
      by (rule plain_edit [OF inv assms(2) ok' bd pl(1, 2) room_less [OF pl(3)]])
    show thesis
      by (rule that [of C n' ws "L @ (i, ?es) # R"]) (use run s False chain_capsD(4) [OF assms(2)] e(5) l(1) in simp_all)
  qed
qed

end

end
