(* ===== verification/Chain_Remove.thy ===== *)
theory Chain_Remove
  imports Chain_Insert
begin

text \<open>
  Removing from a record chain: an edit in place, or the rebalancing of a starved segment against its
  neighbour by a merge or a redistribution; and the lookup.
\<close>

section \<open>Merges and redistributions\<close>

definition pair_sides :: "'p run \<Rightarrow> 'p run \<Rightarrow> local_id \<Rightarrow> (sec_key \<times> 'p) list \<Rightarrow> (sec_key \<times> 'p) list \<Rightarrow> local_id \<Rightarrow> (sec_key \<times> 'p) list \<Rightarrow> (sec_key \<times> 'p) list
    \<Rightarrow> 'p side \<times> 'p side" where
  "pair_sides L R l ls ls' r rs rs' =
     (\<lparr>side_id = l, side_seg = with_entries (id_last None L) (Some r) ls', side_was = first_of ls\<rparr>,
      \<lparr>side_id = r, side_seg = with_entries (Some l) (id_first R None) rs', side_was = first_of rs\<rparr>)"

lemma half_bounds:
  fixes a n :: nat
  assumes "2 * n \<le> a" "a + 2 \<le> 4 * n" "1 \<le> n"
  shows "n div 2 < (a + 1) div 2" "(a + 1) div 2 < 2 * n" "n div 2 < a div 2" "a div 2 < 2 * n"
proof -
  have "n \<le> a div 2" "a div 2 \<le> (a + 1) div 2" "n div 2 < n" "(a + 1) div 2 < 2 * n" using assms by auto
  then show "n div 2 < (a + 1) div 2" "(a + 1) div 2 < 2 * n" "n div 2 < a div 2" "a div 2 < 2 * n" by linarith+
qed

lemma run_pair: "run_entries (L @ (l, ls) # (r, rs) # R) = run_entries L @ (ls @ rs) @ run_entries R"
  by simp

context chain_payload
begin

lemma redistribute_edit:
  assumes "chain_inv P vp C m (L @ (l, ls) # (r, rs) # R) I h" "chain_caps pb C" "entries_ok vp (run_entries (L @ (l, ls') # (r, rs') # R))"
    "set ls' \<subseteq> set ls" "length ls' < 2 * ch_min C" "length rs' < 2 * ch_min C" "2 * ch_min C \<le> length ls' + length rs'"
    "overlay_get (pl_view pl) = reads m" "fresh_ids mint (pl_next pl) b (fst ` set (L @ (l, ls) # (r, rs) # R) \<union> I)" "room (pl_next pl) h 4 b H"
    "pair_sides L R l ls ls' r rs rs' = (left, right)"
  obtains ws n' segs' where "chain_redistribute P mint C left right pl = Ok (plan_stage ws n' pl)"
    "chain_result P vp mint b H C m (pl_next pl) (fst ` set (L @ (l, ls) # (r, rs) # R) \<union> I) C n' ws segs'"
    "run_entries segs' = run_entries (L @ (l, ls') # (r, rs') # R)"
proof -
  let ?segs = "L @ (l, ls) # (r, rs) # R" and ?n = "pl_next pl" and ?X = "fst ` set (L @ (l, ls) # (r, rs) # R) \<union> issued mint (pl_next pl) (pl_next pl)"
  define lo up where "lo = take ((length (ls' @ rs') + 1) div 2) (ls' @ rs')" and "up = drop ((length (ls' @ rs') + 1) div 2) (ls' @ rs')"
  let ?segs' = "L @ (l, lo) # (r, up) # R" and ?sl = "with_entries (id_last None L) (Some r) lo" and ?sr = "with_entries (Some l) (id_first R None) up"
  let ?ws = "[chain_put P C l ?sl, chain_put P C r ?sr]"
  have all: "lo @ up = ls' @ rs'" "length lo = (length ls' + length rs' + 1) div 2" "length up = (length ls' + length rs') div 2"
    unfolding lo_def up_def append_take_drop_id length_take length_drop length_append by (simp, presburger+)
  have inv: "entries_ok vp (run_entries ?segs)" "distinct (map fst ?segs)" "banded (ch_min C) ?segs" "seg_heap P C m (links None ?segs None)"
    "ch_head C = fst (hd ?segs)" "ch_tail C = fst (last ?segs)" using assms(1) unfolding chain_inv_def by blast+
  have run: "run_entries ?segs' = run_entries (L @ (l, ls') # (r, rs') # R)" unfolding run_pair all(1) ..
  have ok: "entries_ok vp (run_entries ?segs')" unfolding run by (rule assms(3))
  have e: "edits (ch_tenant C) ?X ?ws" by (auto intro!: chain_put_edits)
  have heap: "seg_heap P C (batch_effect ?ws m) (links None ?segs' None)"
    using inv(2, 4) chain_capsD(2) [OF assms(2)] by (auto simp: seg_heap_upd to_id_inject)
  define pl1 where "pl1 = chain_emit P C r ?sr (chain_emit P C l ?sl pl)"
  have pl1: "pl1 = plan_stage ?ws ?n pl" by (simp add: pl1_def chain_emit_def)
  have "index_at C mint b H ?X 4 (batch_effect ?ws m) ?n (run_slots ?segs) I h" by (rule index_starts [OF assms(1, 2, 9) order_refl assms(10) e])
  then have at: "index_at C mint b H ?X 4 (batch_effect ?ws m) (pl_next pl1) (run_slots ?segs) I h" by (simp add: pl1)
  have view: "overlay_get (pl_view pl1) = reads (batch_effect ?ws m)" unfolding pl1 by (rule plan_stage_reads [OF assms(8)])
  have ne: "ls' \<noteq> []" using assms(6, 7) by auto
  have less: "\<forall>k\<in>set_option (first_of lo). \<forall>k'\<in>set_option (first_of rs). k < k'"
  proof -
    have "first_of lo = first_of ls'" using ne by (cases ls') (auto simp: lo_def first_of_def)
    moreover have "\<forall>e\<in>set ls. \<forall>e'\<in>set rs. fst e < fst e'" using entries_ok_segD(6) [of vp L l ls "(r, rs) # R"] inv(1) by simp
    ultimately show ?thesis using first_of_mem [of _ ls'] first_of_mem [of _ rs] assms(4) by (metis subsetD)
  qed
  obtain pl2 ws' n' I' h' where x: "chain_reindex mint C (first_of ls) l ?sl pl1 = Ok pl2" "chain_reindex mint C (first_of rs) r ?sr pl2 = Ok (plan_stage ws' n' pl1)"
    "index_at C mint b H ?X 0 (batch_effect ws' (batch_effect ?ws m)) n' (run_slots ?segs') I' h'" "index_step mint (ch_tenant C) (pl_next pl1) I ws' n' I'"
    by (rule reindex_two [OF at assms(2) view inv(1) ok less])
  have half: "ch_min C div 2 < length lo" "length lo < 2 * ch_min C" "ch_min C div 2 < length up" "length up < 2 * ch_min C"
    using half_bounds [of "ch_min C" "length ls' + length rs'"] assms(5-7) chain_capsD(1) [OF assms(2)] unfolding all(2, 3) by simp_all
  have bd: "banded (ch_min C) (L @ [(l, lo), (r, up)] @ R)"
    by (rule banded_replace [of _ _ "[(l, ls), (r, rs)]"]) (use inv(3) half in auto)
  have res: "chain_result P vp mint b H C m ?n (fst ` set ?segs \<union> I) C n' (?ws @ ws') ?segs'"
    by (rule chain_finish [OF assms(1, 2) handle_moves(1) e order_refl heap _ _ ok _ _ _ _ _ _ assms(9)])
      (use inv(2, 5, 6) bd x(3, 4) in \<open>auto simp: pl1 hd_append split: if_splits\<close>)
  have lr: "left = \<lparr>side_id = l, side_seg = with_entries (id_last None L) (Some r) ls', side_was = first_of ls\<rparr>"
    "right = \<lparr>side_id = r, side_seg = with_entries (Some l) (id_first R None) rs', side_was = first_of rs\<rparr>"
    using assms(11) by (simp_all add: pair_sides_def)
  have "chain_redistribute P mint C left right pl = try_then (chain_reindex mint C (first_of ls) l ?sl pl1) (chain_reindex mint C (first_of rs) r ?sr)"
    unfolding lr pl1_def lo_def up_def by (simp only: chain_redistribute_def Let_def side.simps with_entries_simps append_Nil)
  then have "chain_redistribute P mint C left right pl = Ok (plan_stage (?ws @ ws') n' pl)" using x(1, 2) by (simp add: pl1)
  then show thesis by (rule that [OF _ res run])
qed

lemma merge_segments:
  assumes "chain_inv P vp C m (L @ (l, ls) # (r, rs) # R) I h" "chain_caps pb C" "overlay_get (pl_view pl) = reads m"
    "keep_left = (l = ch_head C \<or> r \<noteq> ch_tail C)" "seg = with_entries (id_last None L) (id_first R None) es"
    "kept = (if keep_left then l else r)" "gone = (if keep_left then r else l)"
  obtains C1 ws where
    "(if keep_left
      then case id_first R None of
          Some outer \<Rightarrow> try_then (chain_relink P C outer (Some l) False pl) (\<lambda>pl1. Ok (C, seg, pl1))
        | None \<Rightarrow> Ok (C\<lparr>ch_tail := l\<rparr>, seg, pl)
      else case id_last None L of
          Some outer \<Rightarrow> try_then (chain_relink P C outer (Some r) True pl) (\<lambda>pl1. Ok (C, seg, pl1))
        | None \<Rightarrow> Ok (C\<lparr>ch_head := r\<rparr>, seg, pl)) = Ok (C1, seg, plan_stage ws (pl_next pl) pl)"
    "same_handle C C1" "ch_head C1 = fst (hd (L @ (kept, es) # R))" "ch_tail C1 = fst (last (L @ (kept, es) # R))"
    "edits (ch_tenant C) (fst ` set (L @ (l, ls) # (r, rs) # R)) (ws @ [Remove (ch_lane C) (to_id gone (ch_tenant C)), chain_put P C kept seg])"
    "seg_heap P C (batch_effect (ws @ [Remove (ch_lane C) (to_id gone (ch_tenant C)), chain_put P C kept seg]) m) (links None (L @ (kept, es) # R) None)"
proof -
  let ?segs = "L @ (l, ls) # (r, rs) # R"
  have inv: "distinct (map fst ?segs)" "seg_heap P C m (links None ?segs None)" "ch_head C = fst (hd ?segs)" "ch_tail C = fst (last ?segs)"
    using assms(1) unfolding chain_inv_def by blast+
  have ten: "u48_ok (ch_tenant C)" by (rule chain_capsD(2) [OF assms(2)])
  have inv': "chain_inv P vp C m ((L @ [(l, ls)]) @ (r, rs) # R) I h" using assms(1) by simp
  have keep: "keep_left = (L = [] \<or> R \<noteq> [])" using assms(4) head_iff [OF assms(1)] tail_iff [OF inv'] by blast
  have e: "edits (ch_tenant C) (fst ` set ?segs) (ws @ [Remove (ch_lane C) (to_id gone (ch_tenant C)), chain_put P C kept seg])"
    if "edits (ch_tenant C) (fst ` set ?segs) ws" for ws
    unfolding edits_simps(2) by (rule conjI [OF that]) (use assms(6, 7) in \<open>auto intro!: chain_put_edits\<close>)
  show thesis
  proof (cases keep_left)
    case True
    show thesis
    proof (cases R)
      case Nil
      show thesis
        by (rule that [of "C\<lparr>ch_tail := l\<rparr>" "[]"])
          (use True Nil assms(5-7) inv ten e [of "[]"] in \<open>auto simp: seg_heap_upd to_id_inject hd_append image_Un\<close>)
    next
      case (Cons q R')
      obtain o' qs where q: "q = (o', qs)" by (cases q)
      let ?o = "with_entries (Some l) (id_first R' None) qs"
      have segs: "?segs = (L @ [(l, ls), (r, rs)]) @ (o', qs) # R'" using Cons q by simp
      have x: "chain_relink P C o' (Some l) False pl = Ok (plan_stage [chain_put P C o' ?o] (pl_next pl) pl)"
        using relink_ok [OF assms(1) [unfolded segs] assms(2, 3), of "Some l" False] by simp
      have e1: "edits (ch_tenant C) (fst ` set ?segs) [chain_put P C o' ?o]" by (rule chain_put_edits) (simp_all add: segs)
      show thesis
        by (rule that [of C "[chain_put P C o' ?o]"])
          (use True Cons q assms(5-7) inv ten e [OF e1] x in \<open>auto simp: seg_heap_upd to_id_inject hd_append image_Un\<close>)
    qed
  next
    case False
    then obtain L' q where L: "L = L' @ [q]" and R: "R = []" using keep by (cases L rule: rev_cases) auto
    obtain o' qs where q: "q = (o', qs)" by (cases q)
    let ?o = "with_entries (id_last None L') (Some r) qs"
    have segs: "?segs = L' @ (o', qs) # ((l, ls) # (r, rs) # R)" using L q by simp
    have x: "chain_relink P C o' (Some r) True pl = Ok (plan_stage [chain_put P C o' ?o] (pl_next pl) pl)"
      using relink_ok [OF assms(1) [unfolded segs] assms(2, 3), of "Some r" True] by simp
    have e1: "edits (ch_tenant C) (fst ` set ?segs) [chain_put P C o' ?o]" by (rule chain_put_edits) (simp_all add: segs)
    show thesis
      by (rule that [of C "[chain_put P C o' ?o]"])
        (use False L R q assms(5-7) inv ten e [OF e1] x in \<open>auto simp: seg_heap_upd to_id_inject hd_append image_Un\<close>)
  qed
qed

end

lemma unfile_at:
  assumes "index_at C mint b H X (Suc k) m (pl_next pl) slots I h" "chain_caps pb C" "overlay_get (pl_view pl) = reads m"
  obtains ws n' I' h' where "(case (ch_index C, was) of (Some index, Some old) \<Rightarrow> index_remove mint index old pl | _ \<Rightarrow> Ok pl) = Ok (plan_stage ws n' pl)"
    "index_at C mint b H X k (batch_effect ws m) n' (case was of None \<Rightarrow> slots | Some old \<Rightarrow> drop_slot old slots) I' h'"
    "index_step mint (ch_tenant C) (pl_next pl) I ws n' I'"
proof (cases "ch_index C = None \<or> was = None")
  case True
  have "index_at C mint b H X k m (pl_next pl) (case was of None \<Rightarrow> slots | Some old \<Rightarrow> drop_slot old slots) I h"
    using True index_at_shrink [OF assms(1)] index_at_none by (auto split: option.split)
  then show thesis using True by (intro that [of "[]" "pl_next pl" I h]) (auto simp: index_step_refl split: option.split)
next
  case False
  then obtain T old where c: "ch_index C = Some T" "was = Some old" by auto
  show thesis by (rule index_remove_at [OF c(1) assms, of old]) (use c that in simp)
qed

lemma drop_pair:
  assumes "entries_ok vp (run_entries (L @ (l, ls) # (r, rs) # R))"
  shows "(case first_of rs of None \<Rightarrow> run_slots (L @ (l, ls) # (r, rs) # R) | Some k \<Rightarrow> drop_slot k (run_slots (L @ (l, ls) # (r, rs) # R))) = run_slots (L @ (l, ls) # R)"
    "(case first_of ls of None \<Rightarrow> run_slots (L @ (l, ls) # (r, rs) # R) | Some k \<Rightarrow> drop_slot k (run_slots (L @ (l, ls) # (r, rs) # R))) = run_slots (L @ (r, rs) # R)"
proof -
  have ok: "entries_ok vp (run_entries ((L @ [(l, ls)]) @ (r, rs) # R))" "entries_ok vp (run_entries (L @ (l, ls) # ((r, rs) # R)))" using assms by simp_all
  have one: "drop_slot k ((run_slots (L @ [(l, ls)])) @ seg_slot r rs @ run_slots R) = run_slots (L @ [(l, ls)]) @ run_slots R" if "first_of rs = Some k" for k
    by (rule drop_slot_split) (use slots_apart [OF ok(1), of k] that in \<open>auto simp: seg_slot_def first_of_def split: if_splits\<close>)
  have two: "drop_slot k (run_slots L @ seg_slot l ls @ run_slots ((r, rs) # R)) = run_slots L @ run_slots ((r, rs) # R)" if "first_of ls = Some k" for k
    by (rule drop_slot_split) (use slots_apart [OF ok(2), of k] that in \<open>auto simp: seg_slot_def first_of_def split: if_splits\<close>)
  show "(case first_of rs of None \<Rightarrow> run_slots (L @ (l, ls) # (r, rs) # R) | Some k \<Rightarrow> drop_slot k (run_slots (L @ (l, ls) # (r, rs) # R))) = run_slots (L @ (l, ls) # R)"
    using one by (cases "first_of rs") (auto simp: seg_slot_def first_of_def split: if_splits)
  show "(case first_of ls of None \<Rightarrow> run_slots (L @ (l, ls) # (r, rs) # R) | Some k \<Rightarrow> drop_slot k (run_slots (L @ (l, ls) # (r, rs) # R))) = run_slots (L @ (r, rs) # R)"
    using two by (cases "first_of ls") (auto simp: seg_slot_def first_of_def split: if_splits)
qed

lemma entries_ok_drop: "entries_ok vp (A @ B @ D) \<Longrightarrow> entries_ok vp (A @ D)"
  unfolding entries_ok_append set_append by blast

lemma entries_ok_pair:
  assumes "entries_ok vp (run_entries (L @ (l, ls) # (r, rs) # R))"
  shows "entries_ok vp (run_entries (L @ (i, ls) # R))" "entries_ok vp (run_entries (L @ (i, rs) # R))"
  using entries_ok_drop [of vp "run_entries L @ ls" rs "run_entries R"] entries_ok_drop [of vp "run_entries L" ls "rs @ run_entries R"] assms by simp_all

context chain_payload
begin

lemma merge_edit:
  assumes "chain_inv P vp C m (L @ (l, ls) # (r, rs) # R) I h" "chain_caps pb C" "entries_ok vp (run_entries (L @ (l, ls') # (r, rs') # R))"
    "length ls' + length rs' < 2 * ch_min C" "ch_min C div 2 < length ls' + length rs'"
    "overlay_get (pl_view pl) = reads m" "fresh_ids mint (pl_next pl) b (fst ` set (L @ (l, ls) # (r, rs) # R) \<union> I)" "room (pl_next pl) h 3 b H"
    "pair_sides L R l ls ls' r rs rs' = (left, right)"
  obtains C' ws n' segs' where "chain_merge P mint C left right pl = Ok (C', plan_stage ws n' pl)"
    "chain_result P vp mint b H C m (pl_next pl) (fst ` set (L @ (l, ls) # (r, rs) # R) \<union> I) C' n' ws segs'"
    "run_entries segs' = run_entries (L @ (l, ls') # (r, rs') # R)"
proof -
  let ?segs = "L @ (l, ls) # (r, rs) # R" and ?n = "pl_next pl" and ?X = "fst ` set (L @ (l, ls) # (r, rs) # R) \<union> issued mint (pl_next pl) (pl_next pl)"
  define keep_left where "keep_left = (l = ch_head C \<or> r \<noteq> ch_tail C)"
  define es seg where "es = ls' @ rs'" and "seg = with_entries (id_last None L) (id_first R None) (ls' @ rs')"
  define kept gone ks gs where "kept = (if keep_left then l else r)" and "gone = (if keep_left then r else l)"
    and "ks = (if keep_left then ls else rs)" and "gs = (if keep_left then rs else ls)"
  have inv: "entries_ok vp (run_entries ?segs)" "distinct (map fst ?segs)" "banded (ch_min C) ?segs" using assms(1) unfolding chain_inv_def by blast+
  have sg: "seg = with_entries (id_last None L) (id_first R None) es" by (simp add: seg_def es_def)
  obtain C1 ws where s:
    "(if keep_left
      then case id_first R None of
          Some outer \<Rightarrow> try_then (chain_relink P C outer (Some l) False pl) (\<lambda>pl1. Ok (C, seg, pl1))
        | None \<Rightarrow> Ok (C\<lparr>ch_tail := l\<rparr>, seg, pl)
      else case id_last None L of
          Some outer \<Rightarrow> try_then (chain_relink P C outer (Some r) True pl) (\<lambda>pl1. Ok (C, seg, pl1))
        | None \<Rightarrow> Ok (C\<lparr>ch_head := r\<rparr>, seg, pl)) = Ok (C1, seg, plan_stage ws (pl_next pl) pl)"
    "same_handle C C1" "ch_head C1 = fst (hd (L @ (kept, es) # R))" "ch_tail C1 = fst (last (L @ (kept, es) # R))"
    "edits (ch_tenant C) (fst ` set ?segs) (ws @ [Remove (ch_lane C) (to_id gone (ch_tenant C)), chain_put P C kept seg])"
    "seg_heap P C (batch_effect (ws @ [Remove (ch_lane C) (to_id gone (ch_tenant C)), chain_put P C kept seg]) m) (links None (L @ (kept, es) # R) None)"
    by (rule merge_segments [OF assms(1, 2, 6) keep_left_def sg kept_def gone_def])
  let ?ws = "ws @ [Remove (ch_lane C) (to_id gone (ch_tenant C)), chain_put P C kept seg]" and ?segs' = "L @ (kept, es) # R"
  define pl2 where "pl2 = chain_emit P C1 kept seg (chain_erase C1 gone (plan_stage ws (pl_next pl) pl))"
  have pl2: "pl2 = plan_stage ?ws ?n pl"
    unfolding pl2_def chain_emit_def chain_erase_def same_handle_put(1) [OF s(2)] same_handleD [OF s(2)] by simp
  have e: "edits (ch_tenant C) ?X ?ws" by (rule edits_mono [OF s(5)]) simp
  have run: "run_entries ?segs' = run_entries (L @ (l, ls') # (r, rs') # R)" by (simp add: es_def)
  have ok: "entries_ok vp (run_entries ?segs')" unfolding run by (rule assms(3))
  have ok1: "entries_ok vp (run_entries (L @ (kept, ks) # R))" using entries_ok_pair [OF inv(1)] by (simp add: ks_def)
  have "index_at C mint b H ?X 3 (batch_effect ?ws m) ?n (run_slots ?segs) I h" by (rule index_starts [OF assms(1, 2, 7) order_refl assms(8) e])
  then have at: "index_at C1 mint b H ?X (Suc 2) (batch_effect ?ws m) (pl_next pl2) (run_slots ?segs) I h"
    unfolding pl2 same_handle_index [OF s(2)] by (simp add: eval_nat_numeral)
  have view: "overlay_get (pl_view pl2) = reads (batch_effect ?ws m)" unfolding pl2 by (rule plan_stage_reads [OF assms(6)])
  have caps: "chain_caps pb C1" using assms(2) same_handle_caps [OF s(2)] by simp
  obtain ws1 n1 I1 h1 where u: "(case (ch_index C1, first_of gs) of (Some index, Some old) \<Rightarrow> index_remove mint index old pl2 | _ \<Rightarrow> Ok pl2) = Ok (plan_stage ws1 n1 pl2)"
    "index_at C1 mint b H ?X 2 (batch_effect ws1 (batch_effect ?ws m)) n1 (case first_of gs of None \<Rightarrow> run_slots ?segs | Some old \<Rightarrow> drop_slot old (run_slots ?segs)) I1 h1"
    "index_step mint (ch_tenant C1) (pl_next pl2) I ws1 n1 I1"
    by (rule unfile_at [OF at caps view])
  have gone: "(case first_of gs of None \<Rightarrow> run_slots ?segs | Some old \<Rightarrow> drop_slot old (run_slots ?segs)) = run_slots (L @ (kept, ks) # R)"
    using drop_pair [OF inv(1)] by (simp add: gs_def ks_def kept_def)
  have at1: "index_at C1 mint b H ?X (Suc (Suc 0)) (batch_effect ws1 (batch_effect ?ws m)) (pl_next (plan_stage ws1 n1 pl2)) (run_slots (L @ (kept, ks) # R)) I1 h1"
    using u(2) unfolding gone by (simp add: eval_nat_numeral)
  obtain ws2 n2 I2 h2 where x: "chain_reindex mint C1 (first_of ks) kept seg (plan_stage ws1 n1 pl2) = Ok (plan_stage ws2 n2 (plan_stage ws1 n1 pl2))"
    "index_at C1 mint b H ?X 0 (batch_effect ws2 (batch_effect ws1 (batch_effect ?ws m))) n2 (refile (first_of ks) kept es (run_slots (L @ (kept, ks) # R))) I2 h2"
    "index_step mint (ch_tenant C1) (pl_next (plan_stage ws1 n1 pl2)) I1 ws2 n2 I2"
    by (rule chain_reindex_at [OF at1 caps plan_stage_reads [OF view] entries_ok_segD(1) [OF ok],
          where was = "first_of ks" and i = kept and q = "id_last None L" and q' = "id_first R None", folded sg])
  have st: "index_step mint (ch_tenant C) ?n I (ws1 @ ws2) n2 I2"
    using index_step_trans [OF u(3) x(3) [unfolded plan_stage_simps(1)]] same_handleD(1) [OF s(2)] by (simp add: pl2)
  have fin: "index_at C mint b H ?X 0 (batch_effect (?ws @ ws1 @ ws2) m) n2 (run_slots ?segs') I2 h2"
    using x(2) unfolding refile_run [OF ok1 ok] same_handle_index [OF s(2)] by simp
  have bd: "banded (ch_min C) (L @ [(kept, es)] @ R)"
    by (rule banded_replace [of _ _ "[(l, ls), (r, rs)]"]) (use inv(3) assms(4, 5) in \<open>auto simp: es_def\<close>)
  have res: "chain_result P vp mint b H C m ?n (fst ` set ?segs \<union> I) C1 n2 (?ws @ ws1 @ ws2) ?segs'"
    by (rule chain_finish [OF assms(1, 2) s(2) e order_refl s(6) _ _ ok _ _ s(3, 4) fin st assms(7)])
      (use inv(2) bd in \<open>auto simp: kept_def\<close>)
  have lr: "left = \<lparr>side_id = l, side_seg = with_entries (id_last None L) (Some r) ls', side_was = first_of ls\<rparr>"
    "right = \<lparr>side_id = r, side_seg = with_entries (Some l) (id_first R None) rs', side_was = first_of rs\<rparr>"
    using assms(9) by (simp_all add: pair_sides_def)
  have "chain_merge P mint C left right pl = Ok (C1, plan_stage (?ws @ ws1 @ ws2) n2 pl)"
  proof -
    have "chain_merge P mint C left right pl = try_then (Ok (C1, seg, plan_stage ws (pl_next pl) pl)) (\<lambda>(C1, seg1, pl1).
             let pl2 = chain_emit P C1 kept seg1 (chain_erase C1 gone pl1)
             in try_then (case (ch_index C1, first_of gs) of (Some index, Some old) \<Rightarrow> index_remove mint index old pl2 | _ \<Rightarrow> Ok pl2) (\<lambda>pl3.
                try_then (chain_reindex mint C1 (first_of ks) kept seg1 pl3) (\<lambda>pl4. Ok (C1, pl4))))"
    proof (cases keep_left)
      case True
      then have k: "(l = ch_head C \<or> r \<noteq> ch_tail C) = True" "kept = l" "gone = r" "ks = ls" "gs = rs"
        by (simp_all add: keep_left_def kept_def gone_def ks_def gs_def)
      show ?thesis
        using s(1) [unfolded if_P [OF True]] unfolding seg_def
        by (simp only: chain_merge_def lr Let_def k if_True side.select_convs side.update_convs prod.case with_entries_simps append_Nil)
    next
      case False
      then have k: "(l = ch_head C \<or> r \<noteq> ch_tail C) = False" "kept = r" "gone = l" "ks = rs" "gs = ls"
        by (simp_all add: keep_left_def kept_def gone_def ks_def gs_def)
      show ?thesis
        using s(1) [unfolded if_not_P [OF False]] unfolding seg_def
        by (simp only: chain_merge_def lr Let_def k if_False side.select_convs side.update_convs prod.case with_entries_simps append_Nil)
    qed
    also have "\<dots> = Ok (C1, plan_stage (?ws @ ws1 @ ws2) n2 pl)" 
      unfolding try_then_simps prod.case Let_def pl2_def [symmetric] u(1) [unfolded prod.case] x(1) by (simp add: pl2)
    finally show ?thesis .
  qed
  then show thesis by (rule that [OF _ res run])
qed

lemma pair_edit:
  assumes "chain_inv P vp C m (L @ (l, ls) # (r, rs) # R) I h" "chain_caps pb C" "entries_ok vp (run_entries (L @ (l, ls') # (r, rs') # R))"
    "set ls' \<subseteq> set ls" "length ls' < 2 * ch_min C" "length rs' < 2 * ch_min C" "ch_min C div 2 < length ls' + length rs'"
    "overlay_get (pl_view pl) = reads m" "fresh_ids mint (pl_next pl) b (fst ` set (L @ (l, ls) # (r, rs) # R) \<union> I)" "room (Suc (pl_next pl)) h 4 b H"
    "pair_sides L R l ls ls' r rs rs' = (left, right)"
  obtains C' ws n' segs' where "(if twice_min C \<le> seg_len (side_seg left) + seg_len (side_seg right)
      then try_then (chain_redistribute P mint C left right pl) (\<lambda>pl1. Ok (C, pl1)) else chain_merge P mint C left right pl) = Ok (C', plan_stage ws n' pl)"
    "chain_result P vp mint b H C m (pl_next pl) (fst ` set (L @ (l, ls) # (r, rs) # R) \<union> I) C' n' ws segs'"
    "run_entries segs' = run_entries (L @ (l, ls') # (r, rs') # R)"
proof -
  have len: "seg_len (side_seg left) + seg_len (side_seg right) = length ls' + length rs'" using assms(11) by (auto simp: pair_sides_def)
  have rm: "room (pl_next pl) h 4 b H" "room (pl_next pl) h 3 b H" using assms(10) by (simp_all add: room_def)
  note tw = chain_capsD(4) [OF assms(2)]
  show thesis
  proof (cases "2 * ch_min C \<le> length ls' + length rs'")
    case True
    obtain ws n' segs' where s: "chain_redistribute P mint C left right pl = Ok (plan_stage ws n' pl)"
      "chain_result P vp mint b H C m (pl_next pl) (fst ` set (L @ (l, ls) # (r, rs) # R) \<union> I) C n' ws segs'"
      "run_entries segs' = run_entries (L @ (l, ls') # (r, rs') # R)"
      by (rule redistribute_edit [OF assms(1-6) True assms(8, 9) rm(1) assms(11)])
    show thesis by (rule that [OF _ s(2, 3)]) (use s(1) True len tw in simp)
  next
    case False
    then have less: "length ls' + length rs' < 2 * ch_min C" by simp
    obtain C' ws n' segs' where s: "chain_merge P mint C left right pl = Ok (C', plan_stage ws n' pl)"
      "chain_result P vp mint b H C m (pl_next pl) (fst ` set (L @ (l, ls) # (r, rs) # R) \<union> I) C' n' ws segs'"
      "run_entries segs' = run_entries (L @ (l, ls') # (r, rs') # R)"
      by (rule merge_edit [OF assms(1-3) less assms(7-9) rm(2) assms(11)])
    show thesis by (rule that [OF _ s(2, 3)]) (use s(1) False len tw in simp)
  qed
qed

text \<open>A starved segment is rebalanced against its neighbour.\<close>

lemma rebalance_edit:
  assumes "chain_inv P vp C m (L @ (i, es) # R) I h" "chain_caps pb C" "entries_ok vp (run_entries (L @ (i, es') # R))" "set es' \<subseteq> set es"
    "length es' < 2 * ch_min C" "(case id_first R None of Some j \<Rightarrow> Some j | None \<Rightarrow> id_last None L) = Some other"
    "overlay_get (pl_view pl) = reads m" "fresh_ids mint (pl_next pl) b (fst ` set (L @ (i, es) # R) \<union> I)" "room (Suc (pl_next pl)) h 4 b H"
  obtains C' ws n' segs' where "chain_rebalance P mint C \<lparr>side_id = i, side_seg = with_entries (id_last None L) (id_first R None) es', side_was = first_of es\<rparr> other pl
      = Ok (C', plan_stage ws n' pl)"
    "chain_result P vp mint b H C m (pl_next pl) (fst ` set (L @ (i, es) # R) \<union> I) C' n' ws segs'" "run_entries segs' = run_entries (L @ (i, es') # R)"
proof (cases R)
  case (Cons q R')
  obtain j fs where q: "q = (j, fs)" by (cases q)
  have segs: "L @ (i, es) # R = (L @ [(i, es)]) @ (j, fs) # R'" "L @ (i, es) # R = L @ (i, es) # (j, fs) # R'" using Cons q by simp_all
  have o': "other = j" using assms(6) Cons q by simp
  have bd: "banded (ch_min C) ((L @ [(i, es)]) @ (j, fs) # R')" using assms(1) unfolding segs(1) chain_inv_def by blast
  have fs: "length fs < 2 * ch_min C" "ch_min C div 2 < length fs" using banded_split [OF bd] by auto
  have load: "chain_load P (overlay_get (pl_view pl)) C j = Ok (with_entries (Some i) (id_first R' None) fs)"
    using chain_load_at [OF assms(1) [unfolded segs(1)] assms(2)] assms(7) by simp
  obtain left right where lr: "pair_sides L R' i es es' j fs fs = (left, right)" by (cases "pair_sides L R' i es es' j fs fs")
  obtain C' ws n' segs' where x: "(if twice_min C \<le> seg_len (side_seg left) + seg_len (side_seg right)
      then try_then (chain_redistribute P mint C left right pl) (\<lambda>pl1. Ok (C, pl1)) else chain_merge P mint C left right pl) = Ok (C', plan_stage ws n' pl)"
    "chain_result P vp mint b H C m (pl_next pl) (fst ` set (L @ (i, es) # (j, fs) # R') \<union> I) C' n' ws segs'"
    "run_entries segs' = run_entries (L @ (i, es') # (j, fs) # R')"
    by (rule pair_edit [OF assms(1) [unfolded segs(2)] assms(2) assms(3) [unfolded Cons q] assms(4, 5) fs(1) _ assms(7) assms(8) [unfolded segs(2)] assms(9) lr])
      (use fs(2) in simp_all)
  have "chain_rebalance P mint C \<lparr>side_id = i, side_seg = with_entries (id_last None L) (id_first R None) es', side_was = first_of es\<rparr> other pl = Ok (C', plan_stage ws n' pl)"
    using load x(1) lr Cons q by (auto simp: chain_rebalance_def o' pair_sides_def Let_def)
  then show thesis by (rule that [OF _ x(2) [folded segs(2)]]) (use x(3) Cons q in simp)
next
  case Nil
  then obtain L' j fs where L: "L = L' @ [(j, fs)]" using assms(6) by (cases L rule: rev_cases) auto
  have segs: "L @ (i, es) # R = L' @ (j, fs) # ((i, es) # [])" using Nil L by simp
  have o': "other = j" using assms(6) Nil L by simp
  have bd: "banded (ch_min C) (L' @ (j, fs) # ((i, es) # []))" using assms(1) unfolding segs chain_inv_def by blast
  have fs: "length fs < 2 * ch_min C" "ch_min C div 2 < length fs" using banded_split [OF bd] by auto
  have load: "chain_load P (overlay_get (pl_view pl)) C j = Ok (with_entries (id_last None L') (Some i) fs)"
    using chain_load_at [OF assms(1) [unfolded segs] assms(2)] assms(7) by simp
  obtain left right where lr: "pair_sides L' [] j fs fs i es es' = (left, right)" by (cases "pair_sides L' [] j fs fs i es es'")
  obtain C' ws n' segs' where x: "(if twice_min C \<le> seg_len (side_seg left) + seg_len (side_seg right)
      then try_then (chain_redistribute P mint C left right pl) (\<lambda>pl1. Ok (C, pl1)) else chain_merge P mint C left right pl) = Ok (C', plan_stage ws n' pl)"
    "chain_result P vp mint b H C m (pl_next pl) (fst ` set (L' @ (j, fs) # (i, es) # []) \<union> I) C' n' ws segs'"
    "run_entries segs' = run_entries (L' @ (j, fs) # (i, es') # [])"
    by (rule pair_edit [OF assms(1) [unfolded segs] assms(2) _ subset_refl fs(1) assms(5) _ assms(7) assms(8) [unfolded segs] assms(9) lr])
      (use fs(2) assms(3) Nil L in simp_all)
  have "chain_rebalance P mint C \<lparr>side_id = i, side_seg = with_entries (id_last None L) (id_first R None) es', side_was = first_of es\<rparr> other pl = Ok (C', plan_stage ws n' pl)"
    using load x(1) lr Nil L by (auto simp: chain_rebalance_def o' pair_sides_def Let_def)
  then show thesis by (rule that [OF _ x(2) [folded segs]]) (use x(3) Nil L in simp)
qed

text \<open>A removal takes exactly its key out, and plans nothing when there is nothing to take.\<close>

lemma chain_remove_ok:
  assumes "chain_inv P vp C m segs I h" "chain_caps pb C" "fresh_ids mint n b (fst ` set segs \<union> I)" "room (Suc n) h 4 b H"
  obtains C' n' w segs' where "chain_remove P (reads m) mint C n key = Ok (C', n', w)"
    "w = None \<longleftrightarrow> map_of (run_entries segs) key = None"
    "chain_result P vp mint b H C m n (fst ` set segs \<union> I) C' n' (case w of None \<Rightarrow> [] | Some ws \<Rightarrow> ws) segs'"
    "map_of (run_entries segs') = (map_of (run_entries segs))(key := None)"
proof -
  obtain L i es R where l: "segs = L @ (i, es) # R" "spans key L R"
    "chain_locate P (reads m) C key = Ok (i, with_entries (id_last None L) (id_first R None) es)" by (rule chain_locate_ok [OF assms(1, 2)])
  note inv = assms(1) [unfolded l(1)]
  have ok: "entries_ok vp (run_entries (L @ (i, es) # R))" "banded (ch_min C) (L @ (i, es) # R)" using inv unfolding chain_inv_def by blast+
  obtain as os bs where e: "es = as @ os @ bs" "length os \<le> 1"
    "\<And>b n. seg_remove key (with_entries b n es) = (map_of (run_entries (L @ (i, es) # R)) key, with_entries b n (as @ bs))"
    "entries_ok vp (run_entries (L @ (i, as @ bs) # R))" "map_of (run_entries (L @ (i, as @ bs) # R)) = (map_of (run_entries (L @ (i, es) # R)))(key := None)"
    "os = [] \<longleftrightarrow> map_of (run_entries (L @ (i, es) # R)) key = None"
    by (rule segment_edits [OF ok(1) l(2)]) (rule that; assumption)
  let ?es = "as @ bs" and ?pl = "plan_new (reads m) n" and ?seg = "with_entries (id_last None L) (id_first R None) (as @ bs)"
  have pl: "overlay_get (pl_view ?pl) = reads m" "fresh_ids mint (pl_next ?pl) b (fst ` set (L @ (i, es) # R) \<union> I)" "room (Suc (pl_next ?pl)) h 4 b H"
    using assms(3, 4) l(1) by simp_all
  have len: "length ?es \<le> length es" "length es < 2 * ch_min C" using e(1) banded_split [OF ok(2)] by auto
  show thesis
  proof (cases "map_of (run_entries (L @ (i, es) # R)) key")
    case None
    then have "chain_remove P (reads m) mint C n key = Ok (C, n, None)"
      by (simp only: chain_remove_def Let_def plan_new_simps l(3) try_then_simps prod.case e(3) option.case)
    moreover have "chain_result P vp mint b H C m n (fst ` set segs \<union> I) C n [] segs"
      using assms(1, 4) by (auto simp: chain_result_def room_def intro!: exI [of _ I] exI [of _ h])
    moreover have "map_of (run_entries segs) = (map_of (run_entries segs))(key := None)" using None l(1) by (simp add: fun_eq_iff)
    ultimately show thesis using None l(1) by (intro that [of C n None segs]) simp_all
  next
    case (Some v)
    define mate where "mate = (case id_first R None of Some j \<Rightarrow> Some j | None \<Rightarrow> id_last None L)"
    define plain where "plain = try_then (chain_reindex mint C (first_of es) i ?seg (chain_emit P C i ?seg ?pl)) (\<lambda>pl. Ok (C, pl))"
    define act where "act = (case mate of
        Some other \<Rightarrow> if length ?es \<le> ch_min C div 2 then chain_rebalance P mint C \<lparr>side_id = i, side_seg = ?seg, side_was = first_of es\<rparr> other ?pl else plain
      | None \<Rightarrow> plain)"
    have run: "chain_remove P (reads m) mint C n key = try_then act (\<lambda>(C1, pl). Ok (C1, pl_next pl, Some (pl_writes pl)))"
      unfolding act_def plain_def mate_def
      by (simp only: chain_remove_def Let_def plan_new_simps l(3) try_then_simps prod.case e(3) Some option.case with_entries_simps)
    have "\<exists>C' ws n' segs'. act = Ok (C', plan_stage ws n' ?pl) \<and> chain_result P vp mint b H C m n (fst ` set segs \<union> I) C' n' ws segs'
      \<and> run_entries segs' = run_entries (L @ (i, ?es) # R)"
    proof (cases "mate \<noteq> None \<and> length ?es \<le> ch_min C div 2")
      case True
      then obtain other where o': "mate = Some other" by blast
      obtain C' ws n' segs' where x: "chain_rebalance P mint C \<lparr>side_id = i, side_seg = ?seg, side_was = first_of es\<rparr> other ?pl = Ok (C', plan_stage ws n' ?pl)"
        "chain_result P vp mint b H C m (pl_next ?pl) (fst ` set (L @ (i, es) # R) \<union> I) C' n' ws segs'" "run_entries segs' = run_entries (L @ (i, ?es) # R)"
        by (rule rebalance_edit [OF inv assms(2) e(4) _ _ o' [unfolded mate_def] pl]) (use e(1) len in auto)
      then show ?thesis using True o' l(1) by (intro exI [of _ C'] exI [of _ ws] exI [of _ n'] exI [of _ segs']) (simp add: act_def)
    next
      case False
      then have act: "act = plain" by (auto simp: act_def split: option.split)
      have "mate = None \<Longrightarrow> L @ R = []" by (auto simp: mate_def id_first_def id_last_def split: list.splits if_splits)
      then have bd: "banded (ch_min C) (L @ (i, ?es) # R)" by (intro banded_edit [OF ok(2)]) (use False len in auto)
      obtain ws n' where x: "chain_reindex mint C (first_of es) i ?seg (chain_emit P C i ?seg ?pl) = Ok (plan_stage ws n' ?pl)"
        "chain_result P vp mint b H C m (pl_next ?pl) (fst ` set (L @ (i, es) # R) \<union> I) C n' ws (L @ (i, ?es) # R)"
        by (rule plain_edit [OF inv assms(2) e(4) bd pl(1, 2) room_less [OF pl(3)]])
      then show ?thesis
        using l(1) by (intro exI [of _ C] exI [of _ ws] exI [of _ n'] exI [of _ "L @ (i, ?es) # R"]) (simp add: act plain_def)
    qed
    then obtain C' ws n' segs' where x: "act = Ok (C', plan_stage ws n' ?pl)" "chain_result P vp mint b H C m n (fst ` set segs \<union> I) C' n' ws segs'"
      "run_entries segs' = run_entries (L @ (i, ?es) # R)" by blast
    show thesis by (rule that [of C' n' "Some ws" segs']) (use run x Some l(1) e(5) in simp_all)
  qed
qed

lemma chain_get_ok:
  assumes "chain_inv P vp C m segs I h" "chain_caps pb C"
  shows "chain_get P (reads m) C key = Ok (map_of (run_entries segs) key)"
proof -
  obtain L i es R where l: "segs = L @ (i, es) # R" "spans key L R"
    "chain_locate P (reads m) C key = Ok (i, with_entries (id_last None L) (id_first R None) es)" by (rule chain_locate_ok [OF assms])
  have ok: "entries_ok vp (run_entries (L @ (i, es) # R))" using assms(1) unfolding l(1) chain_inv_def by blast
  have "seg_get key (with_entries (id_last None L) (id_first R None) es) = map_of (run_entries segs) key"
    unfolding l(1) by (rule segment_edits [OF ok l(2)]) blast
  then show ?thesis by (simp add: chain_get_def l(3))
qed

end

end
