(* ===== verification/Chain_Props.thy ===== *)
theory Chain_Props
  imports Chain_Remove
begin

text \<open>
  Record chains from their creation on: over every lawful payload type and every lawful store, any
  sequence of inserts and removals leaves a chain that answers as a finite map, with or without an index.
\<close>

section \<open>Creation\<close>

context chain_payload
begin

lemma chain_create_ok:
  assumes "chain_create P seahash mint n tenant struct_hash lane = (C, n', ws)" "u48_ok tenant" "1 \<le> k"
    "mint (lane_hash seahash Index struct_hash) n \<noteq> mint (lane_hash seahash lane struct_hash) (n + 1)"
  shows "n' = n + 2" "ch_tenant C = tenant" "ch_index C = Some (sparse_at seahash (mint (lane_hash seahash Index struct_hash) n) tenant struct_hash)"
    "chain_inv P vp (with_index_cap cap (with_min k C)) (batch_effect ws m) [(mint (lane_hash seahash lane struct_hash) (n + 1), [])]
      {mint (lane_hash seahash Index struct_hash) n} 0"
    "edits tenant {mint (lane_hash seahash Index struct_hash) n, mint (lane_hash seahash lane struct_hash) (n + 1)} ws"
  using assms
  by (auto simp: chain_create_def chain_seed_def sparse_create_def sparse_put_def chain_put_def Let_def with_index_cap_def with_min_def sparse_with_cap_def
      sparse_at_def chain_inv_def entries_ok_def banded_def seg_slot_def index_ok_def sp_inv_def sp_nodes_eq seg_new_def with_entries_def to_id_inject
      intro!: exI [of _ "SL (mint (lane_hash seahash Index struct_hash) n) []"])

lemma chain_create_log_ok:
  assumes "chain_create_log P seahash mint n tenant struct_hash lane = (C, n', ws)" "u48_ok tenant" "1 \<le> k"
  shows "n' = n + 1" "ch_tenant C = tenant" "ch_index C = None"
    "chain_inv P vp (with_index_cap cap (with_min k C)) (batch_effect ws m) [(mint (lane_hash seahash lane struct_hash) n, [])] {} 0"
    "edits tenant {mint (lane_hash seahash lane struct_hash) n} ws"
  using assms
  by (auto simp: chain_create_log_def chain_seed_def chain_put_def Let_def with_index_cap_def with_min_def
      chain_inv_def entries_ok_def banded_def seg_slot_def index_ok_def seg_new_def with_entries_def)

end

section \<open>Histories\<close>

datatype 'p chain_op = ChPut sec_key 'p | ChDel sec_key

fun chain_spec :: "'p chain_op \<Rightarrow> (sec_key \<rightharpoonup> 'p) \<Rightarrow> (sec_key \<rightharpoonup> 'p)" where
  "chain_spec (ChPut k p) f = f(k \<mapsto> p)"
| "chain_spec (ChDel k) f = f(k := None)"

fun valid_op :: "('p \<Rightarrow> bool) \<Rightarrow> 'p chain_op \<Rightarrow> bool" where
  "valid_op vp (ChPut k p) \<longleftrightarrow> valid_entry vp (k, p)"
| "valid_op vp (ChDel k) \<longleftrightarrow> True"

text \<open>Each operation is planned against the store and its batch applied before the next one.\<close>

fun chain_run ::
    "'p wire \<Rightarrow> 's store \<Rightarrow> (u64 \<Rightarrow> nat \<Rightarrow> local_id) \<Rightarrow> 'p chain_op list \<Rightarrow> record_chain \<times> nat \<times> 's \<Rightarrow> (record_chain \<times> nat \<times> 's) cres" where
  "chain_run P S mint [] st = Ok st"
| "chain_run P S mint (ChPut k p # ops) (C, n, s) =
     try_then (chain_insert P (get_of S s) mint C n k p) (\<lambda>(C1, n1, ws).
       try_then (apply_batch S s ws) (\<lambda>s1. chain_run P S mint ops (C1, n1, s1)))"
| "chain_run P S mint (ChDel k # ops) (C, n, s) =
     try_then (chain_remove P (get_of S s) mint C n k) (\<lambda>(C1, n1, w). case w of
         None \<Rightarrow> chain_run P S mint ops (C1, n1, s)
       | Some ws \<Rightarrow> try_then (apply_batch S s ws) (\<lambda>s1. chain_run P S mint ops (C1, n1, s1)))"

text \<open>How many ids \<open>k\<close> operations may mint: an operation on an index of height \<open>h\<close> takes at most \<open>4h + 21\<close>
  and adds at most four levels.\<close>

definition chain_mints :: "nat \<Rightarrow> nat" where
  "chain_mints k = 2 + k * (16 * k + 21)"

lemma fresh_less: "fresh_ids mint n b U \<Longrightarrow> b' \<le> b \<Longrightarrow> fresh_ids mint n b' U"
  using issued_mono [of n n b' b mint] unfolding fresh_ids_def by (meson disjoint_iff less_le_trans order_refl subsetD)

lemma result_facts:
  assumes "chain_result P vp mint b H C m n U C' n' ws segs'" "chain_caps pb C" "fresh_ids mint n B U" "b \<le> B" "U \<subseteq> issued mint 0 n"
  obtains I' h' where "chain_inv P vp C' (batch_effect ws m) segs' I' h'" "chain_caps pb C'" "ch_tenant C' = ch_tenant C" "h' \<le> H" "n' \<le> b"
    "fresh_ids mint n' B (fst ` set segs' \<union> I')" "fst ` set segs' \<union> I' \<subseteq> issued mint 0 n'"
    "\<And>x. (\<forall>i\<in>issued mint 0 n'. x \<noteq> to_id i (ch_tenant C)) \<Longrightarrow> batch_effect ws m x = m x" "n \<le> n'"
proof -
  obtain I' h' where r: "same_handle C C'" "n \<le> n'" "n' \<le> b" "edits (ch_tenant C) (U \<union> issued mint n n') ws"
    "chain_inv P vp C' (batch_effect ws m) segs' I' h'" "h' \<le> H" "fst ` set segs' \<union> I' \<subseteq> U \<union> issued mint n n'"
    using assms(1) unfolding chain_result_def by blast
  have i: "issued mint 0 n \<subseteq> issued mint 0 n'" "issued mint n n' \<subseteq> issued mint 0 n'" by (rule issued_mono; use r(2) in simp)+
  have f: "fresh_ids mint n' B (fst ` set segs' \<union> I')" by (rule fresh_next [OF assms(3) r(2) _ r(7)]) (use r(3) assms(4) in simp)
  have sub: "U \<union> issued mint n n' \<subseteq> issued mint 0 n'" using assms(5) i by blast
  have frame: "batch_effect ws m x = m x" if "\<forall>i\<in>issued mint 0 n'. x \<noteq> to_id i (ch_tenant C)" for x
    by (rule edits_frame [OF r(4)]) (use that sub in blast)
  show thesis
    by (rule that [OF r(5) _ _ r(6, 3) f subset_trans [OF r(7) sub] frame r(2)])
      (use assms(2) same_handle_caps [OF r(1)] same_handleD(1) [OF r(1)] in simp_all)
qed

locale chain_store = chain_payload P vp pb + batch_store S view
  for P :: "'p wire" and vp and pb and S :: "'s store" and view
begin

lemma reader_eq: "get_of S s = reads (view s)"
  by (simp add: fun_eq_iff get_view)

lemma result_applies:
  assumes "chain_result P vp mint b H C (view s) n U C' n' ws segs'"
  obtains s' where "apply_batch S s ws = Ok s'" "view s' = batch_effect ws (view s)"
  using assms apply_commit [OF edits_no_conflict, of "ch_tenant C" _ ws s] unfolding chain_result_def by blast

lemma chain_op_ok:
  assumes "chain_inv P vp C (view s) segs I h" "chain_caps pb C" "valid_op vp p" "fresh_ids mint n B (fst ` set segs \<union> I)"
    "n + (4 * h + 21) \<le> B" "fst ` set segs \<union> I \<subseteq> issued mint 0 n"
  obtains C' s' n' segs' I' h' where "\<And>ops. chain_run P S mint (p # ops) (C, n, s) = chain_run P S mint ops (C', n', s')"
    "chain_inv P vp C' (view s') segs' I' h'" "chain_caps pb C'" "ch_tenant C' = ch_tenant C" "h' \<le> h + 4" "n' \<le> n + (4 * h + 21)"
    "fresh_ids mint n' B (fst ` set segs' \<union> I')" "fst ` set segs' \<union> I' \<subseteq> issued mint 0 n'"
    "\<And>x. (\<forall>i\<in>issued mint 0 n'. x \<noteq> to_id i (ch_tenant C)) \<Longrightarrow> view s' x = view s x"
    "map_of (run_entries segs') = chain_spec p (map_of (run_entries segs))" "n \<le> n'"
proof -
  let ?b = "n + (4 * h + 21)"
  have rm: "room (Suc n) h 4 ?b (h + 4)" by (simp add: room_def)
  have fr: "fresh_ids mint n ?b (fst ` set segs \<union> I)" by (rule fresh_less [OF assms(4, 5)])
  show thesis
  proof (cases p)
    case (ChPut k v)
    have v: "valid_entry vp (k, v)" using assms(3) ChPut by simp
    obtain C' n' ws segs' where r: "chain_insert P (reads (view s)) mint C n k v = Ok (C', n', ws)"
      "chain_result P vp mint ?b (h + 4) C (view s) n (fst ` set segs \<union> I) C' n' ws segs'" "map_of (run_entries segs') = (map_of (run_entries segs))(k \<mapsto> v)"
      by (rule chain_insert_ok [OF assms(1, 2) v fr rm])
    obtain s' where s': "apply_batch S s ws = Ok s'" "view s' = batch_effect ws (view s)" by (rule result_applies [OF r(2)])
    show thesis
      by (rule result_facts [OF r(2) assms(2, 4, 5, 6), folded s'(2)], rule that) (assumption | simp add: ChPut reader_eq r s'(1))+
  next
    case (ChDel k)
    obtain C' n' w segs' where r: "chain_remove P (reads (view s)) mint C n k = Ok (C', n', w)"
      "chain_result P vp mint ?b (h + 4) C (view s) n (fst ` set segs \<union> I) C' n' (case w of None \<Rightarrow> [] | Some ws \<Rightarrow> ws) segs'"
      "map_of (run_entries segs') = (map_of (run_entries segs))(k := None)"
      by (rule chain_remove_ok [OF assms(1, 2) fr rm])
    show thesis
    proof (cases w)
      case None
      note q = r(2) [unfolded None option.case]
      show thesis
        by (rule result_facts [OF q assms(2, 4, 5, 6), unfolded batch_effect_simps], rule that) (assumption | simp add: ChDel reader_eq r None)+
    next
      case (Some ws)
      note q = r(2) [unfolded Some option.case]
      obtain s' where s': "apply_batch S s ws = Ok s'" "view s' = batch_effect ws (view s)" by (rule result_applies [OF q])
      show thesis
        by (rule result_facts [OF q assms(2, 4, 5, 6), folded s'(2)], rule that) (assumption | simp add: ChDel reader_eq r Some s'(1))+
    qed
  qed
qed

lemma chain_run_ok:
  assumes "chain_inv P vp C (view s) segs I h" "chain_caps pb C" "list_all (valid_op vp) ops" "fresh_ids mint n (chain_mints k) (fst ` set segs \<union> I)"
    "fst ` set segs \<union> I \<subseteq> issued mint 0 n" "h \<le> 4 * j" "n \<le> 2 + j * (16 * k + 21)" "j + length ops \<le> k"
  shows "\<exists>C' n' s' segs' I' h'. chain_run P S mint ops (C, n, s) = Ok (C', n', s') \<and> chain_inv P vp C' (view s') segs' I' h' \<and> chain_caps pb C'
    \<and> map_of (run_entries segs') = fold chain_spec ops (map_of (run_entries segs)) \<and> n \<le> n' \<and> n' \<le> chain_mints k
    \<and> (\<forall>x. (\<forall>i\<in>issued mint 0 n'. x \<noteq> to_id i (ch_tenant C)) \<longrightarrow> view s' x = view s x)"
  using assms
proof (induction ops arbitrary: C s segs I h n j)
  case Nil
  have "j * (16 * k + 21) \<le> k * (16 * k + 21)" using Nil.prems(8) by (intro mult_le_mono1) simp
  then have "n \<le> chain_mints k" using Nil.prems(7) unfolding chain_mints_def by linarith
  then show ?case using Nil.prems(1, 2) by (intro exI [of _ C] exI [of _ n] exI [of _ s] exI [of _ segs] exI [of _ I] exI [of _ h]) simp
next
  case (Cons p ops)
  have j: "Suc j * (16 * k + 21) \<le> k * (16 * k + 21)" using Cons.prems(8) by (intro mult_le_mono1) simp
  have h: "4 * h \<le> 16 * k" using Cons.prems(6, 8) by simp
  then have step: "n + (4 * h + 21) \<le> 2 + Suc j * (16 * k + 21)" using Cons.prems(7) by simp
  then have room: "n + (4 * h + 21) \<le> chain_mints k" using j unfolding chain_mints_def by linarith
  have v: "valid_op vp p" "list_all (valid_op vp) ops" using Cons.prems(3) by simp_all
  obtain C1 s1 n1 segs1 I1 h1 where o1: "\<And>ops. chain_run P S mint (p # ops) (C, n, s) = chain_run P S mint ops (C1, n1, s1)"
    "chain_inv P vp C1 (view s1) segs1 I1 h1" "chain_caps pb C1" "ch_tenant C1 = ch_tenant C" "h1 \<le> h + 4" "n1 \<le> n + (4 * h + 21)"
    "fresh_ids mint n1 (chain_mints k) (fst ` set segs1 \<union> I1)" "fst ` set segs1 \<union> I1 \<subseteq> issued mint 0 n1"
    "\<And>x. (\<forall>i\<in>issued mint 0 n1. x \<noteq> to_id i (ch_tenant C)) \<Longrightarrow> view s1 x = view s x"
    "map_of (run_entries segs1) = chain_spec p (map_of (run_entries segs))" "n \<le> n1"
    by (rule chain_op_ok [OF Cons.prems(1, 2) v(1) Cons.prems(4) room Cons.prems(5)]) (rule that; assumption)
  have "h1 \<le> 4 * Suc j" "n1 \<le> 2 + Suc j * (16 * k + 21)" "Suc j + length ops \<le> k" using o1(5, 6) step Cons.prems(6, 8) by simp_all
  from Cons.IH [OF o1(2, 3) v(2) o1(7, 8) this] obtain C' n' s' segs' I' h' where r: "chain_run P S mint ops (C1, n1, s1) = Ok (C', n', s')"
    "chain_inv P vp C' (view s') segs' I' h'" "chain_caps pb C'" "map_of (run_entries segs') = fold chain_spec ops (map_of (run_entries segs1))" "n1 \<le> n'" "n' \<le> chain_mints k"
    "\<forall>x. (\<forall>i\<in>issued mint 0 n'. x \<noteq> to_id i (ch_tenant C1)) \<longrightarrow> view s' x = view s1 x" by blast
  have sub: "issued mint 0 n1 \<subseteq> issued mint 0 n'" by (rule issued_mono) (use r(5) in simp_all)
  have "view s' x = view s x" if "\<forall>i\<in>issued mint 0 n'. x \<noteq> to_id i (ch_tenant C)" for x
    using r(7) o1(4) o1(9) [of x] that sub by (simp add: subset_iff)
  then show ?case
    using r(1-6) o1(1, 10, 11) by (intro exI [of _ C'] exI [of _ n'] exI [of _ s'] exI [of _ segs'] exI [of _ I'] exI [of _ h']) simp
qed

text \<open>From creation on, a chain answers as the finite map of what was put in and not taken out.\<close>

lemma chain_history:
  assumes "chain_create P seahash mint 0 tenant struct_hash lane = (C0, n0, ws0) \<or> chain_create_log P seahash mint 0 tenant struct_hash lane = (C0, n0, ws0)"
    "u48_ok tenant" "1 \<le> N" "2 * N * (2 ^ 20 + 40 + pb) < 2 ^ 32" "2 \<le> cap" "cap \<le> 4000"
    "fresh_ids mint 0 (chain_mints (length ops)) {}" "list_all (valid_op vp) ops"
  shows "\<exists>s0 C n s' segs I h. apply_batch S s ws0 = Ok s0 \<and> chain_run P S mint ops (with_index_cap cap (with_min N C0), n0, s0) = Ok (C, n, s')
    \<and> (\<forall>k. chain_get P (get_of S s') C k = Ok (fold chain_spec ops Map.empty k))
    \<and> chain_inv P vp C (view s') segs I h \<and> map_of (run_entries segs) = fold chain_spec ops Map.empty
    \<and> (\<forall>x. (\<forall>i\<in>issued mint 0 n. x \<noteq> to_id i tenant) \<longrightarrow> view s' x = view s x)"
proof -
  let ?C = "with_index_cap cap (with_min N C0)"
  define root where "root = mint (lane_hash seahash Index struct_hash) 0"
  have two: "n0 \<le> 2" and ten: "ch_tenant C0 = tenant" and ed: "edits tenant (issued mint 0 n0) ws0" and
    inv: "\<exists>segs I. chain_inv P vp ?C (batch_effect ws0 (view s)) segs I 0 \<and> run_entries segs = [] \<and> fst ` set segs \<union> I \<subseteq> issued mint 0 n0" and
    ix: "ch_index C0 = None \<or> ch_index C0 = Some (sparse_at seahash root tenant struct_hash)"
  proof -
    have d: "i = j" if "mint l i = mint l' j" "i < 2" "j < 2" for l l' i j
    proof -
      have "i < chain_mints (length ops)" "j < chain_mints (length ops)" using that(2, 3) by (simp_all add: chain_mints_def)
      with that(1) assms(7) show ?thesis unfolding fresh_ids_def by blast
    qed
    have m: "mint l i \<in> issued mint 0 b" if "i < b" for l i b unfolding issued_def by (intro UN_I [of l] imageI) (use that in simp_all)
    from assms(1) have "n0 \<le> 2 \<and> ch_tenant C0 = tenant \<and> edits tenant (issued mint 0 n0) ws0
      \<and> (\<exists>segs I. chain_inv P vp ?C (batch_effect ws0 (view s)) segs I 0 \<and> run_entries segs = [] \<and> fst ` set segs \<union> I \<subseteq> issued mint 0 n0)
      \<and> (ch_index C0 = None \<or> ch_index C0 = Some (sparse_at seahash root tenant struct_hash))"
    proof
      assume a: "chain_create P seahash mint 0 tenant struct_hash lane = (C0, n0, ws0)"
      have ne: "mint (lane_hash seahash Index struct_hash) 0 \<noteq> mint (lane_hash seahash lane struct_hash) (0 + 1)" using d by fastforce
      note c = chain_create_ok(1-3, 5) [OF a assms(2, 3) ne] chain_create_ok(4) [OF a assms(2, 3) ne, of cap "view s"]
      have "edits tenant (issued mint 0 n0) ws0" by (rule edits_mono [OF c(4)]) (use c(1) m in auto)
      moreover have "\<exists>segs I. chain_inv P vp ?C (batch_effect ws0 (view s)) segs I 0 \<and> run_entries segs = [] \<and> fst ` set segs \<union> I \<subseteq> issued mint 0 n0"
        by (intro exI conjI, rule c(5)) (use c(1) m in auto)
      ultimately show ?thesis using c(1-3) by (simp add: root_def)
    next
      assume a: "chain_create_log P seahash mint 0 tenant struct_hash lane = (C0, n0, ws0)"
      note g = chain_create_log_ok(1-3, 5) [OF a assms(2, 3)] chain_create_log_ok(4) [OF a assms(2, 3), of cap "view s"]
      have "edits tenant (issued mint 0 n0) ws0" by (rule edits_mono [OF g(4)]) (use g(1) m in auto)
      moreover have "\<exists>segs I. chain_inv P vp ?C (batch_effect ws0 (view s)) segs I 0 \<and> run_entries segs = [] \<and> fst ` set segs \<union> I \<subseteq> issued mint 0 n0"
        by (intro exI conjI, rule g(5)) (use g(1) m in auto)
      ultimately show ?thesis using g(1-3) by simp
    qed
    then show "n0 \<le> 2" "ch_tenant C0 = tenant" "edits tenant (issued mint 0 n0) ws0"
      "\<exists>segs I. chain_inv P vp ?C (batch_effect ws0 (view s)) segs I 0 \<and> run_entries segs = [] \<and> fst ` set segs \<union> I \<subseteq> issued mint 0 n0"
      "ch_index C0 = None \<or> ch_index C0 = Some (sparse_at seahash root tenant struct_hash)" by blast+
  qed
  have caps: "chain_caps pb ?C" "ch_tenant ?C = tenant"
    using ix ten assms(2-6) by (auto simp: chain_caps_def with_index_cap_def with_min_def sparse_with_cap_def sparse_at_def sparse_caps_def)
  obtain s0 where s0: "apply_batch S s ws0 = Ok s0" "view s0 = batch_effect ws0 (view s)" using apply_commit [OF edits_no_conflict [OF ed], of s] by blast
  obtain segs I where i: "chain_inv P vp ?C (view s0) segs I 0" "run_entries segs = []" "fst ` set segs \<union> I \<subseteq> issued mint 0 n0" using inv s0(2) by auto
  have fr: "fresh_ids mint n0 (chain_mints (length ops)) (fst ` set segs \<union> I)"
    by (rule fresh_next [OF assms(7)]) (use two i(3) in \<open>auto simp: chain_mints_def\<close>)
  from chain_run_ok [OF i(1) caps(1) assms(8) fr i(3), of 0] two obtain C n s' segs' I' h' where
    r: "chain_run P S mint ops (?C, n0, s0) = Ok (C, n, s')" "chain_inv P vp C (view s') segs' I' h'" "chain_caps pb C"
      "map_of (run_entries segs') = fold chain_spec ops (map_of (run_entries segs))" "n0 \<le> n"
      "\<forall>x. (\<forall>i\<in>issued mint 0 n. x \<noteq> to_id i (ch_tenant ?C)) \<longrightarrow> view s' x = view s0 x" by auto
  have sub: "issued mint 0 n0 \<subseteq> issued mint 0 n" by (rule issued_mono) (use r(5) in simp_all)
  have "view s' x = view s x" if "\<forall>i\<in>issued mint 0 n. x \<noteq> to_id i tenant" for x
    using r(6) edits_frame [OF ed, of x "view s"] that sub unfolding caps(2) s0(2) by (simp add: subset_iff)
  moreover have map: "map_of (run_entries segs') = fold chain_spec ops Map.empty" using r(4) i(2) by simp
  moreover have "chain_get P (get_of S s') C k = Ok (fold chain_spec ops Map.empty k)" for k
    unfolding reader_eq chain_get_ok [OF r(2, 3)] map ..
  ultimately show ?thesis
    using s0(1) r(1, 2) by (intro exI [of _ s0] exI [of _ C] exI [of _ n] exI [of _ s'] exI [of _ segs'] exI [of _ I'] exI [of _ h']) simp
qed

end

section \<open>The chains of the system\<close>

text \<open>Declared lists hold record bytes; the recency chain and the removal log hold no payload.\<close>

interpretation list_chain: chain_store "wire_vec wire_u8" "\<lambda>b. length b \<le> 2 ^ 20" "2 ^ 20 + 8" mem_store "\<lambda>m. m"
  by (rule chain_store.intro) (rule bytes_payload.chain_payload_axioms, rule mem.batch_store_axioms)

interpretation recency_chain: chain_store wire_unit "\<lambda>_. True" 0 idb_store "\<lambda>os i. os (idb_key i)"
  by (rule chain_store.intro) (rule unit_payload.chain_payload_axioms, rule idb.batch_store_axioms)

text \<open>Ids and a hash for the example below.\<close>

definition demo_lane_mint :: "u64 \<Rightarrow> nat \<Rightarrow> local_id" where
  "demo_lane_mint l n = LocalId (of_nat n) 0"

definition demo_seahash :: "byte list \<Rightarrow> u64" where
  "demo_seahash bs = of_nat (length bs)"

lemma demo_lane_fresh: "b \<le> 2 ^ 32 \<Longrightarrow> fresh_ids demo_lane_mint 0 b {}"
  by (auto simp: fresh_ids_def demo_lane_mint_def of_nat_word_eq)

section \<open>Properties\<close>

text \<open>C12: A record chain is a finite map.  For every lawful payload type and every lawful store: create a
  chain, indexed or index-less, with any size band and index capacity within the format's limits, run any
  sequence of inserts and removals with fresh ids, and every operation succeeds; afterwards every lookup
  returns what was put in last and not taken out, the segments are linked both ways from head to tail,
  ascend, keep the size band (\<open>N/2\<close> exclusive to \<open>2N\<close>, a lone segment excepted), the index names each of them
  with its least key and its count, and nothing outside the chain's own ids has changed in the store.\<close>

theorem record_chain_refines_map:
  assumes "chain_store P vp pb S view"
    "chain_create P seahash mint 0 tenant struct_hash lane = (C0, n0, ws0) \<or> chain_create_log P seahash mint 0 tenant struct_hash lane = (C0, n0, ws0)"
    "u48_ok tenant" "1 \<le> N" "2 * N * (2 ^ 20 + 40 + pb) < 2 ^ 32" "2 \<le> cap" "cap \<le> 4000"
    "fresh_ids mint 0 (chain_mints (length ops)) {}" "list_all (valid_op vp) ops"
  shows "\<exists>s0 C n s' segs I h. apply_batch S s ws0 = Ok s0 \<and> chain_run P S mint ops (with_index_cap cap (with_min N C0), n0, s0) = Ok (C, n, s')
    \<and> (\<forall>k. chain_get P (get_of S s') C k = Ok (fold chain_spec ops Map.empty k))
    \<and> chain_inv P vp C (view s') segs I h \<and> map_of (run_entries segs) = fold chain_spec ops Map.empty
    \<and> (\<forall>x. (\<forall>i\<in>issued mint 0 n. x \<noteq> to_id i tenant) \<longrightarrow> view s' x = view s x)"
  by (rule chain_store.chain_history [OF assms])

theorem record_chain_refines_map_witness:
  "\<exists>C0 n0 ws0 s0 C n s'. chain_create (wire_vec wire_u8) demo_seahash demo_lane_mint 0 (U48 7) 5 Records = (C0, n0, ws0)
    \<and> apply_batch mem_store Map.empty ws0 = Ok s0
    \<and> chain_run (wire_vec wire_u8) mem_store demo_lane_mint [ChPut (SecKey [1] (LocalId 1 0)) [8], ChPut (SecKey [2] (LocalId 2 0)) [9], ChDel (SecKey [1] (LocalId 1 0))]
        (with_index_cap 3 (with_min 1 C0), n0, s0) = Ok (C, n, s')
    \<and> chain_get (wire_vec wire_u8) (get_of mem_store s') C (SecKey [2] (LocalId 2 0)) = Ok (Some [9])
    \<and> chain_get (wire_vec wire_u8) (get_of mem_store s') C (SecKey [1] (LocalId 1 0)) = Ok None"
proof -
  let ?W = "wire_vec wire_u8" and ?ops = "[ChPut (SecKey [1] (LocalId 1 0)) [8], ChPut (SecKey [2] (LocalId 2 0)) [9], ChDel (SecKey [1] (LocalId 1 0))]"
  obtain C0 n0 ws0 where c: "chain_create ?W demo_seahash demo_lane_mint 0 (U48 7) 5 Records = (C0, n0, ws0)" by (rule prod_cases3)
  have f: "fresh_ids demo_lane_mint 0 (chain_mints (length ?ops)) {}" by (rule demo_lane_fresh) (simp add: chain_mints_def)
  have v: "list_all (valid_op (\<lambda>b. length b \<le> 2 ^ 20)) ?ops" by (simp add: valid_entry_def valid_sec_key_def)
  have t: "u48_ok (U48 7)" by (simp add: u48_ok_def U48_MASK_def)
  have k: "1 \<le> (1 :: nat)" "2 * 1 * (2 ^ 20 + 40 + (2 ^ 20 + 8)) < (2 ^ 32 :: nat)" "2 \<le> (3 :: nat)" "3 \<le> (4000 :: nat)" by simp_all
  obtain s0 C n s' where r: "apply_batch mem_store Map.empty ws0 = Ok s0"
    "chain_run ?W mem_store demo_lane_mint ?ops (with_index_cap 3 (with_min 1 C0), n0, s0) = Ok (C, n, s')"
    "\<forall>k. chain_get ?W (get_of mem_store s') C k = Ok (fold chain_spec ?ops Map.empty k)"
    using record_chain_refines_map [OF list_chain.chain_store_axioms disjI1 [OF c] t k f v, of Map.empty] by blast
  have "chain_get ?W (get_of mem_store s') C (SecKey [2] (LocalId 2 0)) = Ok (Some [9])" "chain_get ?W (get_of mem_store s') C (SecKey [1] (LocalId 1 0)) = Ok None"
    unfolding r(3) [rule_format] by simp_all
  then show ?thesis using c r(1, 2) by blast
qed

end
