(* ===== verification/Journal.thy ===== *)
theory Journal
  imports Store
begin

text \<open>
  The write-ahead log of the storage engine (\<open>wavedb-storage/src/journal.rs\<close>, \<open>error.rs\<close>): the
  length-and-checksum frame every engine structure uses, the journal frames, appending, replay with
  truncation of a torn tail, and the directory scan.

  A directory is a record \<open>fs\<close>: the current content of each file and the content its last
  \<open>sync_all\<close> made durable.  System calls do not fault; a missing file and an existing target of
  \<open>create_new\<close> are errors.  \<open>crc32\<close> is the third-party \<open>crc32fast::hash\<close>, a parameter.
  The clock instant \<open>last_sync\<close> is left out.
\<close>

section \<open>Storage errors\<close>

datatype storage_error =
    Io string
  | BadMagic
  | BadVersion u32
  | OutOfBounds nat nat \<comment> \<open>need, have\<close>
  | RunOverflow nat nat \<comment> \<open>got, cap\<close>
  | Corrupt string
  | UnregisteredStructHash u64
  | EngineBusy
  | Core core_error

type_synonym 'a sres = "(storage_error, 'a) res"

section \<open>The frame envelope\<close>

text \<open>\<open>[payload_len (u32 LE)][to_wire_checked(value)]\<close>: the prefix and the checked form as
  \<open>write_frame\<close>, \<open>SlotPage::to_bytes\<close>, \<open>Dictionary::to_bytes\<close> and \<open>edit::encode\<close> build it.\<close>

abbreviation FRAME_PREFIX :: nat where "FRAME_PREFIX \<equiv> 4"

definition frame_image :: "(byte list \<Rightarrow> u32) \<Rightarrow> 'a wire \<Rightarrow> 'a \<Rightarrow> byte list" where
  "frame_image crc32 W v =
     (let payload = to_wire_checked crc32 W v
      in to_le_bytes FRAME_PREFIX (of_nat (length payload) :: u32) @ payload)"

text \<open>The slice of the frame at a position, when the prefix and the whole payload are there.\<close>

definition frame_len :: "byte list \<Rightarrow> nat \<Rightarrow> nat" where
  "frame_len bs p = unat (from_le_bytes (take FRAME_PREFIX (drop p bs)) :: u32)"

lemma length_frame_image: "length (frame_image crc W v) = 4 + length (to_wire_checked crc W v)"
  by (simp add: frame_image_def Let_def)

lemma length_checked: "length (to_wire_checked crc W v) = 4 + length (to_wire W v)"
  by (simp add: to_wire_checked_def to_wire_def CRC_PREFIX_LEN_def Let_def)

text \<open>A value whose image fits the 32-bit length.\<close>

definition frame_fits :: "'a wire \<Rightarrow> 'a \<Rightarrow> bool" where
  "frame_fits W v \<longleftrightarrow> 4 + length (to_wire W v) < 2 ^ 32"

lemma frame_len_image:
  assumes "frame_fits W v" "drop p bs = frame_image crc W v @ rest"
  shows "frame_len bs p = length (to_wire_checked crc W v)"
proof -
  have "length (to_wire_checked crc W v) < 2 ^ 32"
    using assms(1) by (simp add: frame_fits_def length_checked)
  then show ?thesis using assms(2) by (simp add: frame_len_def frame_image_def Let_def del: of_nat_numeral)
qed

section \<open>Journal frames\<close>

datatype commit_frame = CommitFrame (journal_ts: u64) (commit_head: u64)

datatype journal_frame =
    Batch "write_op list"
  | Commit commit_frame

definition wire_commit_frame :: "commit_frame wire" where
  "wire_commit_frame = wire_struct (\<lambda>c. (journal_ts c, commit_head c)) (\<lambda>(t, h). CommitFrame t h)
     (wire_tuple2 wire_u64 wire_u64)"

fun frame_sel :: "journal_frame \<Rightarrow> byte \<times> nat \<times> byte list" where
  "frame_sel (Batch ws) = field_sel 0 (wire_vec wire_write) ws"
| "frame_sel (Commit c) = field_sel 1 wire_commit_frame c"

definition frame_arms :: "(byte list \<Rightarrow> journal_frame wres) list" where
  "frame_arms = [field_arm (wire_vec wire_write) Batch, field_arm wire_commit_frame Commit]"

definition wire_frame :: "journal_frame wire" where
  "wire_frame = wire_enum frame_sel frame_arms"

section \<open>Files\<close>

record fs =
  content :: "string \<rightharpoonup> byte list"
  synced :: "string \<rightharpoonup> byte list"

text \<open>\<open>write_all_at\<close>: bytes past the end of the file are zero-filled up to the offset.\<close>

definition write_at :: "nat \<Rightarrow> byte list \<Rightarrow> byte list \<Rightarrow> byte list" where
  "write_at off b c = take off (c @ replicate (off - length c) 0) @ b @ drop (off + length b) c"

definition fs_write_at :: "string \<Rightarrow> nat \<Rightarrow> byte list \<Rightarrow> fs \<Rightarrow> fs sres" where
  "fs_write_at p off b d = (case content d p of
      None \<Rightarrow> Err (Io ''not found'')
    | Some c \<Rightarrow> Ok (d\<lparr>content := (content d)(p \<mapsto> write_at off b c)\<rparr>))"

definition fs_sync :: "string \<Rightarrow> fs \<Rightarrow> fs sres" where
  "fs_sync p d = (case content d p of
      None \<Rightarrow> Err (Io ''not found'')
    | Some c \<Rightarrow> Ok (d\<lparr>synced := (synced d)(p \<mapsto> c)\<rparr>))"

text \<open>\<open>set_len\<close> to a length within the file.\<close>

definition fs_set_len :: "string \<Rightarrow> nat \<Rightarrow> fs \<Rightarrow> fs sres" where
  "fs_set_len p n d = (case content d p of
      None \<Rightarrow> Err (Io ''not found'')
    | Some c \<Rightarrow> Ok (d\<lparr>content := (content d)(p \<mapsto> take n (c @ replicate (n - length c) 0))\<rparr>))"

definition fs_remove :: "string \<Rightarrow> fs \<Rightarrow> fs sres" where
  "fs_remove p d = (case content d p of
      None \<Rightarrow> Err (Io ''not found'')
    | Some _ \<Rightarrow> Ok (d\<lparr>content := (content d)(p := None), synced := (synced d)(p := None)\<rparr>))"

section \<open>The journal\<close>

record journal =
  j_path :: string
  j_ts :: u64
  j_end :: nat
  j_syncs :: nat

text \<open>Decimal rendering of a number and \<open>str::parse::<u64>\<close>, which accepts a leading \<open>+\<close>.\<close>

definition digit_char :: "nat \<Rightarrow> char" where
  "digit_char d = char_of (48 + d)"

fun show_dec :: "nat \<Rightarrow> string" where
  "show_dec n = (if n < 10 then [digit_char n] else show_dec (n div 10) @ [digit_char (n mod 10)])"

declare show_dec.simps [simp del]

definition is_digit :: "char \<Rightarrow> bool" where
  "is_digit c \<longleftrightarrow> 48 \<le> (of_char c :: nat) \<and> (of_char c :: nat) \<le> 57"

definition dec_value :: "string \<Rightarrow> nat" where
  "dec_value s = foldl (\<lambda>acc c. acc * 10 + (of_char c - 48)) 0 s"

definition parse_u64 :: "string \<Rightarrow> u64 option" where
  "parse_u64 s =
     (let t = (case s of c # cs \<Rightarrow> if c = CHR ''+'' then cs else s | [] \<Rightarrow> s)
      in if t \<noteq> [] \<and> list_all is_digit t \<and> dec_value t < 2 ^ 64 then Some (of_nat (dec_value t)) else None)"

definition strip_prefix :: "string \<Rightarrow> string \<Rightarrow> string option" where
  "strip_prefix p s = (if take (length p) s = p then Some (drop (length p) s) else None)"

definition strip_suffix :: "string \<Rightarrow> string \<Rightarrow> string option" where
  "strip_suffix p s = map_option rev (strip_prefix (rev p) (rev s))"

definition journal_name :: "u64 \<Rightarrow> string" where
  "journal_name ts = ''journal_'' @ show_dec (unat ts) @ ''.log''"

definition parse_journal_name :: "string \<Rightarrow> u64 option" where
  "parse_journal_name name =
     Option.bind (strip_prefix ''journal_'' name) (\<lambda>r. Option.bind (strip_suffix ''.log'' r) parse_u64)"

text \<open>\<open>read_dir\<close> yields the names in any order: an argument.\<close>

definition scan :: "string list \<Rightarrow> (u64 \<times> string) list" where
  "scan entries = sort_key fst (List.map_filter (\<lambda>name. map_option (\<lambda>ts. (ts, name)) (parse_journal_name name)) entries)"

definition journal_create :: "u64 \<Rightarrow> fs \<Rightarrow> (journal \<times> fs) sres" where
  "journal_create ts d =
     (let path = journal_name ts
      in if content d path \<noteq> None then Err (Io ''already exists'')
         else Ok (\<lparr>j_path = path, j_ts = ts, j_end = 0, j_syncs = 0\<rparr>, d\<lparr>content := (content d)(path \<mapsto> [])\<rparr>))"

definition journal_open :: "string \<Rightarrow> u64 \<Rightarrow> fs \<Rightarrow> journal sres" where
  "journal_open path ts d = (case content d path of
      None \<Rightarrow> Err (Io ''not found'')
    | Some c \<Rightarrow> Ok \<lparr>j_path = path, j_ts = ts, j_end = length c, j_syncs = 0\<rparr>)"

definition write_frame :: "(byte list \<Rightarrow> u32) \<Rightarrow> journal_frame \<Rightarrow> journal \<times> fs \<Rightarrow> (journal \<times> fs) sres" where
  "write_frame crc32 frame = (\<lambda>(j, d).
     let bytes = frame_image crc32 wire_frame frame
     in try_then (fs_write_at (j_path j) (j_end j) bytes d) (\<lambda>d'.
        Ok (j\<lparr>j_end := j_end j + length bytes\<rparr>, d')))"

definition journal_sync :: "journal \<times> fs \<Rightarrow> (journal \<times> fs) sres" where
  "journal_sync = (\<lambda>(j, d). try_then (fs_sync (j_path j) d) (\<lambda>d'. Ok (j\<lparr>j_syncs := j_syncs j + 1\<rparr>, d')))"

definition append :: "(byte list \<Rightarrow> u32) \<Rightarrow> journal_frame \<Rightarrow> journal \<times> fs \<Rightarrow> (journal \<times> fs) sres" where
  "append crc32 frame jd = try_then (write_frame crc32 frame jd) journal_sync"

definition append_deferred :: "(byte list \<Rightarrow> u32) \<Rightarrow> journal_frame \<Rightarrow> journal \<times> fs \<Rightarrow> (journal \<times> fs) sres" where
  "append_deferred crc32 frame jd = write_frame crc32 frame jd"

text \<open>The loop of \<open>replay\<close>: the frames read from a position on, and the end of the last whole one.\<close>

function replay_loop :: "(byte list \<Rightarrow> u32) \<Rightarrow> byte list \<Rightarrow> nat \<Rightarrow> (journal_frame list \<times> nat) option" where
  "replay_loop crc32 bs p =
     (if p + FRAME_PREFIX \<le> length bs then
        let len = frame_len bs p; body_start = p + FRAME_PREFIX; body_end = body_start + len
        in if body_end > length bs then Some ([], p)
           else (case from_wire_checked crc32 wire_frame (take len (drop body_start bs)) of
               None \<Rightarrow> None
             | Err _ \<Rightarrow> Some ([], p)
             | Ok frame \<Rightarrow> map_option (\<lambda>(frames, good_end). (frame # frames, good_end)) (replay_loop crc32 bs body_end))
      else Some ([], p))"
  by pat_completeness auto
termination
  by (relation "measure (\<lambda>(crc, bs, p). length bs - p)") auto

declare replay_loop.simps [simp del]

definition replay :: "(byte list \<Rightarrow> u32) \<Rightarrow> journal \<times> fs \<Rightarrow> (journal_frame list \<times> journal \<times> fs) sres" where
  "replay crc32 = (\<lambda>(j, d). case content d (j_path j) of
      None \<Rightarrow> Err (Io ''not found'')
    | Some c \<Rightarrow>
        if length c < j_end j then Err (Io ''unexpected end of file'')
        else (case replay_loop crc32 (take (j_end j) c) 0 of
            None \<Rightarrow> None
          | Some (frames, good_end) \<Rightarrow>
              if good_end < j_end j
              then try_then (fs_set_len (j_path j) good_end d) (\<lambda>d1.
                   try_then (fs_sync (j_path j) d1) (\<lambda>d2. Ok (frames, j\<lparr>j_end := good_end\<rparr>, d2)))
              else Ok (frames, j, d)))"

definition delete_file :: "string \<Rightarrow> fs \<Rightarrow> fs sres" where
  "delete_file path d = fs_remove path d"

text \<open>\<open>after + 1\<close> wraps in a release build.\<close>

definition next_ts :: "u64 \<Rightarrow> u64 \<Rightarrow> u64" where
  "next_ts now after = max now (after + 1)"

definition require_journal_for :: "bool \<Rightarrow> (u64 \<times> string) list \<Rightarrow> unit sres" where
  "require_journal_for data_bin_existed journals =
     (if data_bin_existed \<and> journals = []
      then Err (Corrupt ''data.bin present but no journal -- recovery root lost'') else Ok ())"

end
