(* ===== verification/Journal_Laws.thy ===== *)
theory Journal_Laws
  imports Journal
begin

text \<open>
  The journal survives a crash: replay reads whole frames back, stops at the first torn one, and
  leaves a file the next append extends cleanly.
\<close>

section \<open>The wire image of a frame\<close>

interpretation wbatch: wave_wire "wire_vec wire_write" "valid_vec wire_write valid_write"
  by (rule wwrite.wire_vec_ok) (simp add: nonempty_units_def wire_write_def)

interpretation wbatcht: total_wire "wire_vec wire_write"
  by (rule wwritet.wire_vec_total) (simp add: wire_write_def)

interpretation wcommit: wave_wire wire_commit_frame "\<lambda>_. True"
  using wire_struct_ok [OF wire_tuple2_ok [OF wu64.wave_wire_axioms wu64.wave_wire_axioms],
      of "\<lambda>(t, h). CommitFrame t h" "\<lambda>c. (journal_ts c, commit_head c)"]
  by (simp add: wire_commit_frame_def)

interpretation wcommitt: total_wire wire_commit_frame
  unfolding wire_commit_frame_def by (intro wire_struct_total wire_tuple2_total wire_le_total)

text \<open>A frame a journal can hold: its writes and its length fit their \<open>u32\<close> slots.\<close>

fun valid_frame :: "journal_frame \<Rightarrow> bool" where
  "valid_frame (Batch ws) \<longleftrightarrow> list_all valid_write ws \<and> vec_heap_size wire_write ws < 2 ^ 32 - 20"
| "valid_frame (Commit c) \<longleftrightarrow> True"

lemma frame_arm_reads_back:
  assumes "valid_frame f"
  shows "arm_reads_back frame_sel frame_arms f"
proof (cases f)
  case (Batch ws)
  then have "valid_vec wire_write valid_write ws" using assms by (simp add: valid_vec_def)
  then show ?thesis
    using Batch assms wbatch.field_arm_reads_back [of ws Batch] wbatch.field_sel_length [of ws 0]
    by (simp add: arm_reads_back_def frame_arms_def field_sel_def wire_vec_def)
next
  case (Commit c)
  then show ?thesis
    using wcommit.field_arm_reads_back [of Commit c] wcommit.field_sel_length [of 1 c]
    by (simp add: arm_reads_back_def frame_arms_def field_sel_def wire_commit_frame_def wire_struct_def wire_tuple2_def)
qed

interpretation wframe: wave_wire wire_frame valid_frame
  using wire_enum_ok [of frame_sel frame_arms] frame_arm_reads_back
  by (auto simp: wire_frame_def wave_wire_def)

interpretation wframet: total_wire wire_frame
  unfolding wire_frame_def
  by (intro wire_enum_total)
    (auto simp: frame_arms_def intro: field_arm_returns wbatcht.total_wire_axioms wcommitt.total_wire_axioms)

lemma frame_fits_valid: "valid_frame f \<Longrightarrow> frame_fits wire_frame f"
  unfolding frame_fits_def wframe.to_wire_length
  by (cases f) (simp_all add: wire_frame_def wire_enum_def field_sel_def wire_vec_def
      wire_commit_frame_def wire_struct_def wire_tuple2_def)

section \<open>Replaying a byte string\<close>

lemma drop_plus: "drop (p + n) xs = drop n (drop p xs)"
  by (simp add: add.commute)

abbreviation fimage :: "(byte list \<Rightarrow> u32) \<Rightarrow> journal_frame \<Rightarrow> byte list" where
  "fimage crc \<equiv> frame_image crc wire_frame"

definition log_image :: "(byte list \<Rightarrow> u32) \<Rightarrow> journal_frame list \<Rightarrow> byte list" where
  "log_image crc frames = concat (map (fimage crc) frames)"

lemma log_image_simps [simp]:
  "log_image crc [] = []"
  "log_image crc (f # fs) = fimage crc f @ log_image crc fs"
  "log_image crc (fs @ gs) = log_image crc fs @ log_image crc gs"
  by (simp_all add: log_image_def)

lemma replay_loop_frame:
  assumes "drop p bs = fimage crc f @ rest" "valid_frame f"
  shows "replay_loop crc bs p =
    map_option (\<lambda>(frames, e). (f # frames, e)) (replay_loop crc bs (p + length (fimage crc f)))"
proof -
  note len = frame_len_image [OF frame_fits_valid [OF assms(2)] assms(1)]
  have "length (drop p bs) = length (fimage crc f) + length rest" using assms(1) by simp
  then have room: "p + 4 + length (to_wire_checked crc wire_frame f) \<le> length bs"
    by (simp add: length_frame_image)
  have "drop (p + 4) bs = to_wire_checked crc wire_frame f @ rest"
    using assms(1) unfolding drop_plus by (simp add: frame_image_def Let_def)
  then have "take (length (to_wire_checked crc wire_frame f)) (drop (p + 4) bs) = to_wire_checked crc wire_frame f"
    by simp
  then show ?thesis
    using room wframe.checked_roundtrip [OF assms(2)]
    by (subst replay_loop.simps) (simp add: len length_frame_image add.assoc)
qed

lemma replay_loop_log:
  assumes "drop p bs = log_image crc fs @ rest" "list_all valid_frame fs"
  shows "replay_loop crc bs p =
    map_option (\<lambda>(frames, e). (fs @ frames, e)) (replay_loop crc bs (p + length (log_image crc fs)))"
  using assms
proof (induction fs arbitrary: p)
  case (Cons f fs)
  have "drop (p + length (fimage crc f)) bs = log_image crc fs @ rest"
    using Cons.prems(1) unfolding drop_plus by simp
  from Cons.IH [OF this] Cons.prems(2) replay_loop_frame [of p bs crc f "log_image crc fs @ rest"] Cons.prems(1)
  show ?case by (simp add: option.map_comp comp_def case_prod_unfold add.assoc)
qed (simp add: option.map_id)

lemma replay_loop_returns: "replay_loop crc bs p \<noteq> None"
proof (induction crc bs p rule: replay_loop.induct)
  case (1 crc bs p)
  obtain r where r: "from_wire_checked crc wire_frame (take (frame_len bs p) (drop (p + 4) bs)) = Some r"
    using wframet.from_wire_checked_returns unfolding returns_def by blast
  show ?case
    using 1 [OF _ refl refl refl _ r] r by (subst replay_loop.simps, cases r) (auto simp: Let_def)
qed

text \<open>A proper prefix of a frame is a torn tail.\<close>

lemma replay_loop_torn:
  assumes "drop p bs = take n (fimage crc f)" "n < length (fimage crc f)" "valid_frame f" "p \<le> length bs"
  shows "replay_loop crc bs p = Some ([], p)"
proof (cases "p + 4 \<le> length bs")
  case True
  have n: "length bs = p + n" using arg_cong [OF assms(1), of length] assms(2, 4) by simp
  with True have "4 \<le> n" by simp
  then have "take 4 (drop p bs) = to_le_bytes 4 (of_nat (length (to_wire_checked crc wire_frame f)) :: u32)"
    by (simp add: assms(1) min_def) (simp add: frame_image_def Let_def)
  then have "frame_len bs p = length (to_wire_checked crc wire_frame f)"
    using frame_fits_valid [OF assms(3)] by (simp add: frame_len_def frame_fits_def length_checked del: of_nat_add)
  with True n assms(2) show ?thesis
    by (subst replay_loop.simps) (simp add: length_frame_image)
qed (subst replay_loop.simps, simp)

lemma replay_loop_whole: "list_all valid_frame fs \<Longrightarrow> replay_loop crc (log_image crc fs) 0 = Some (fs, length (log_image crc fs))"
  using replay_loop_log [of 0 "log_image crc fs" crc fs "[]"] by (simp add: replay_loop.simps)

text \<open>Any prefix of a log replays to the frames that are whole in it.\<close>

lemma log_prefix_split:
  assumes "n \<le> length (log_image crc fs)"
  obtains m where "m \<le> length fs" "take n (log_image crc fs) = log_image crc (take m fs)"
  | m k where "m < length fs" "k < length (fimage crc (fs ! m))"
    "take n (log_image crc fs) = log_image crc (take m fs) @ take k (fimage crc (fs ! m))"
  using assms
proof (induction fs arbitrary: n thesis)
  case Nil
  show ?case by (rule Nil.prems(1) [of 0]) simp_all
next
  case (Cons f fs)
  show ?case
  proof (cases "n < length (fimage crc f)")
    case True
    then show ?thesis by (intro Cons.prems(2) [of 0 n]) simp_all
  next
    case False
    then obtain k where k: "n = length (fimage crc f) + k" by (metis le_Suc_ex not_less)
    show ?thesis
    proof (rule Cons.IH [of k])
      fix m assume "m \<le> length fs" "take k (log_image crc fs) = log_image crc (take m fs)"
      then show thesis by (intro Cons.prems(1) [of "Suc m"]) (simp_all add: k)
    next
      fix m k' assume "m < length fs" "k' < length (fimage crc (fs ! m))"
        "take k (log_image crc fs) = log_image crc (take m fs) @ take k' (fimage crc (fs ! m))"
      then show thesis by (intro Cons.prems(2) [of "Suc m" k']) (simp_all add: k)
    next
      show "k \<le> length (log_image crc fs)" using Cons.prems(3) k by simp
    qed
  qed
qed

lemma replay_loop_prefix:
  assumes "list_all valid_frame fs" "n \<le> length (log_image crc fs)"
  obtains m where "m \<le> length fs" "length (log_image crc (take m fs)) \<le> n"
    "m < length fs \<Longrightarrow> n < length (log_image crc (take (Suc m) fs))"
    "replay_loop crc (take n (log_image crc fs)) 0 = Some (take m fs, length (log_image crc (take m fs)))"
    "take (length (log_image crc (take m fs))) (take n (log_image crc fs)) = log_image crc (take m fs)"
  using assms(2)
proof (cases rule: log_prefix_split)
  case (1 m)
  have v: "list_all valid_frame (take m fs)" using assms(1) by (simp add: list_all_length)
  have n: "n = length (log_image crc (take m fs))" using arg_cong [OF 1(2), of length] assms(2) by simp
  show ?thesis
  proof (rule that [of m])
    assume "m < length fs"
    then show "n < length (log_image crc (take (Suc m) fs))"
      by (simp add: n take_Suc_conv_app_nth length_frame_image)
  qed (use 1 v n in \<open>simp_all add: replay_loop_whole\<close>)
next
  case (2 m k)
  have v: "list_all valid_frame (take m fs)" "valid_frame (fs ! m)"
    using assms(1) 2(1) by (simp_all add: list_all_length)
  let ?b = "take n (log_image crc fs)" and ?l = "length (log_image crc (take m fs))"
  have n: "n = ?l + k" using arg_cong [OF 2(3), of length] 2(2) assms(2) by simp
  have "replay_loop crc ?b ?l = Some ([], ?l)"
    by (rule replay_loop_torn [OF _ 2(2) v(2)]) (simp_all add: 2(3))
  then have "replay_loop crc ?b 0 = Some (take m fs, ?l)"
    using replay_loop_log [of 0 ?b crc "take m fs" "take k (fimage crc (fs ! m))"] v(1) 2(3) by simp
  then show ?thesis
  proof (rule that [rotated 3])
    show "n < length (log_image crc (take (Suc m) fs))"
      using 2 n by (simp add: take_Suc_conv_app_nth)
  qed (use 2 n in simp_all)
qed

section \<open>Journal sessions\<close>

text \<open>What a journal does between its creation and a crash.\<close>

datatype j_op = JAppend journal_frame | JDeferred journal_frame | JSync

fun journal_op :: "(byte list \<Rightarrow> u32) \<Rightarrow> j_op \<Rightarrow> journal \<times> fs \<Rightarrow> (journal \<times> fs) sres" where
  "journal_op crc (JAppend f) jd = append crc f jd"
| "journal_op crc (JDeferred f) jd = append_deferred crc f jd"
| "journal_op crc JSync jd = journal_sync jd"

fun journal_run :: "(byte list \<Rightarrow> u32) \<Rightarrow> j_op list \<Rightarrow> journal \<times> fs \<Rightarrow> (journal \<times> fs) sres" where
  "journal_run crc [] jd = Ok jd"
| "journal_run crc (x # xs) jd = try_then (journal_op crc x jd) (journal_run crc xs)"

fun op_frames :: "j_op \<Rightarrow> journal_frame list" where
  "op_frames (JAppend f) = [f]"
| "op_frames (JDeferred f) = [f]"
| "op_frames JSync = []"

definition written :: "j_op list \<Rightarrow> journal_frame list" where
  "written ops = concat (map op_frames ops)"

text \<open>The number of frames a barrier covers: those written up to the last one.\<close>

fun is_barrier :: "j_op \<Rightarrow> bool" where
  "is_barrier (JDeferred _) = False"
| "is_barrier _ = True"

definition durable_ops :: "j_op list \<Rightarrow> j_op list" where
  "durable_ops ops = rev (dropWhile (\<lambda>x. \<not> is_barrier x) (rev ops))"

text \<open>The open journal: its file is exactly the log, its end the file's, and the durable image the log at
  the last barrier.\<close>

definition journal_holds :: "(byte list \<Rightarrow> u32) \<Rightarrow> journal \<times> fs \<Rightarrow> journal_frame list \<Rightarrow> journal_frame list \<Rightarrow> bool" where
  "journal_holds crc = (\<lambda>(j, d) fs safe. content d (j_path j) = Some (log_image crc fs)
     \<and> j_end j = length (log_image crc fs) \<and> (case synced d (j_path j) of None \<Rightarrow> [] | Some s \<Rightarrow> s) = log_image crc safe)"

lemma write_at_end [simp]: "write_at (length c) b c = c @ b"
  by (simp add: write_at_def)

lemma write_frame_holds:
  assumes "journal_holds crc jd fs safe"
  obtains jd' where "write_frame crc f jd = Ok jd'" "journal_holds crc jd' (fs @ [f]) safe"
    "j_path (fst jd') = j_path (fst jd)"
  using assms by (cases jd) (auto simp: journal_holds_def write_frame_def fs_write_at_def Let_def)

lemma journal_sync_holds:
  assumes "journal_holds crc jd fs safe"
  obtains jd' where "journal_sync jd = Ok jd'" "journal_holds crc jd' fs fs" "j_path (fst jd') = j_path (fst jd)"
  using assms by (cases jd) (auto simp: journal_holds_def journal_sync_def fs_sync_def)

lemma append_holds:
  assumes "journal_holds crc jd fs safe"
  obtains jd' where "append crc f jd = Ok jd'" "journal_holds crc jd' (fs @ [f]) (fs @ [f])"
    "j_path (fst jd') = j_path (fst jd)"
proof -
  obtain jd1 where 1: "write_frame crc f jd = Ok jd1" "journal_holds crc jd1 (fs @ [f]) safe"
    "j_path (fst jd1) = j_path (fst jd)"
    by (rule write_frame_holds [OF assms])
  obtain jd2 where 2: "journal_sync jd1 = Ok jd2" "journal_holds crc jd2 (fs @ [f]) (fs @ [f])"
    "j_path (fst jd2) = j_path (fst jd1)"
    by (rule journal_sync_holds [OF 1(2)])
  show ?thesis by (rule that [OF _ 2(2)]) (simp_all add: append_def 1 2)
qed

lemma durable_ops_snoc:
  "durable_ops (ops @ [x]) = (if is_barrier x then ops @ [x] else durable_ops ops)"
  by (simp add: durable_ops_def)

lemma written_simps [simp]:
  "written [] = []" "written (ops @ [x]) = written ops @ op_frames x" "written (x # ops) = op_frames x @ written ops"
  by (simp_all add: written_def)

lemma journal_run_snoc: "journal_run crc (ops @ [x]) jd = try_then (journal_run crc ops jd) (journal_op crc x)"
proof (induction ops arbitrary: jd)
  case (Cons y ops)
  then show ?case by (cases "journal_op crc y jd") (auto simp: try_then_def split: sum.splits)
qed (simp add: try_then_def split: option.splits sum.splits)

lemma journal_run_holds:
  assumes "journal_create ts d = Ok jd0" "synced d (journal_name ts) = None"
  obtains jd where "journal_run crc ops jd0 = Ok jd" "journal_holds crc jd (written ops) (written (durable_ops ops))"
    "j_path (fst jd) = journal_name ts"
proof (induction ops arbitrary: thesis rule: rev_induct)
  case Nil
  show ?case
    by (rule Nil [of jd0])
      (use assms in \<open>auto simp: journal_create_def journal_holds_def durable_ops_def Let_def split: if_splits\<close>)
next
  case (snoc x ops)
  obtain jd where r: "journal_run crc ops jd0 = Ok jd"
    and h: "journal_holds crc jd (written ops) (written (durable_ops ops))" "j_path (fst jd) = journal_name ts"
    by (rule snoc.IH)
  show ?case
  proof (cases x)
    case (JAppend f)
    obtain jd' where "append crc f jd = Ok jd'" "journal_holds crc jd' (written ops @ [f]) (written ops @ [f])"
      "j_path (fst jd') = j_path (fst jd)" by (rule append_holds [OF h(1)])
    then show ?thesis by (intro snoc.prems [of jd']) (simp_all add: JAppend journal_run_snoc r h(2) durable_ops_snoc)
  next
    case (JDeferred f)
    obtain jd' where "write_frame crc f jd = Ok jd'" "journal_holds crc jd' (written ops @ [f]) (written (durable_ops ops))"
      "j_path (fst jd') = j_path (fst jd)" by (rule write_frame_holds [OF h(1)])
    then show ?thesis
      by (intro snoc.prems [of jd']) (simp_all add: JDeferred append_deferred_def journal_run_snoc r h(2) durable_ops_snoc)
  next
    case JSync
    obtain jd' where "journal_sync jd = Ok jd'" "journal_holds crc jd' (written ops) (written ops)"
      "j_path (fst jd') = j_path (fst jd)" by (rule journal_sync_holds [OF h(1)])
    then show ?thesis by (intro snoc.prems [of jd']) (simp_all add: JSync journal_run_snoc r h(2) durable_ops_snoc)
  qed
qed

section \<open>Recovery\<close>

text \<open>Replay never moves its end past the file, and cutting the file there changes nothing.\<close>

lemma replay_loop_end:
  "replay_loop crc bs p = Some (fs, e) \<Longrightarrow> p \<le> length bs \<Longrightarrow> p \<le> e \<and> e \<le> length bs"
proof (induction crc bs p arbitrary: fs e rule: replay_loop.induct)
  case (1 crc bs p)
  show ?case
  proof (cases "p + 4 \<le> length bs \<and> p + 4 + frame_len bs p \<le> length bs")
    case True
    then show ?thesis
      using 1(1) [OF _ refl refl refl] 1(2)
      by (subst (asm) (2) replay_loop.simps) (fastforce simp: Let_def split: option.splits sum.splits if_splits)
  next
    case False
    then show ?thesis using 1(2, 3) by (subst (asm) replay_loop.simps) (auto simp: Let_def split: if_splits)
  qed
qed

lemma replay_recovers:
  assumes "content d (j_path j) = Some c" "j_end j = length c" "replay_loop crc c 0 = Some (fs, e)"
  obtains j' d' where "replay crc (j, d) = Ok (fs, j', d')" "content d' (j_path j') = Some (take e c)"
    "j_end j' = e" "j_path j' = j_path j" "e \<le> length c"
proof -
  have e: "e \<le> length c" using replay_loop_end [OF assms(3)] by simp
  show ?thesis
  proof (cases "e < length c")
    case True
    then show ?thesis
      by (intro that [of "j\<lparr>j_end := e\<rparr>"
          "d\<lparr>content := (content d)(j_path j \<mapsto> take e c), synced := (synced d)(j_path j \<mapsto> take e c)\<rparr>"])
        (use assms e in \<open>simp_all add: replay_def fs_set_len_def fs_sync_def\<close>)
  next
    case False
    then show ?thesis by (intro that [of j d]) (use assms e in \<open>simp_all add: replay_def\<close>)
  qed
qed

text \<open>The file system after a crash that left the journal's file with other bytes.\<close>

definition crashed :: "string \<Rightarrow> byte list \<Rightarrow> fs \<Rightarrow> fs" where
  "crashed p c d = d\<lparr>content := (content d)(p \<mapsto> c), synced := (synced d)(p \<mapsto> c)\<rparr>"

lemma open_crashed: "journal_open p ts (crashed p c d) = Ok \<lparr>j_path = p, j_ts = ts, j_end = length c, j_syncs = 0\<rparr>"
  by (simp add: journal_open_def crashed_def)

lemma durable_split: "ops = durable_ops ops @ rev (takeWhile (\<lambda>x. \<not> is_barrier x) (rev ops))"
  unfolding durable_ops_def by (metis rev_append rev_rev_ident takeWhile_dropWhile_id)

lemma written_append: "written (xs @ ys) = written xs @ written ys"
  by (simp add: written_def)

lemma durable_take: "written (durable_ops ops) = take (length (written (durable_ops ops))) (written ops)"
  by (subst (3) durable_split) (simp add: written_append)

lemma durable_le: "length (written (durable_ops ops)) \<le> length (written ops)"
  using arg_cong [OF durable_take [of ops], of length] by simp

text \<open>A log recovered whole takes the next append.\<close>

lemma append_after_recovery:
  assumes "content d (j_path j) = Some (log_image crc fs)" "j_end j = length (log_image crc fs)"
    "list_all valid_frame fs" "valid_frame f"
  shows "\<exists>j' d' j'' r. append crc f (j, d) = Ok (j', d') \<and> journal_open (j_path j) ts d' = Ok j''
    \<and> replay crc (j'', d') = Ok (fs @ [f], r)"
proof -
  define safe where "safe = fs"
  have c: "append crc f (j, d) = Ok (j\<lparr>j_end := length (log_image crc (fs @ [f])), j_syncs := j_syncs j + 1\<rparr>,
      d\<lparr>content := (content d)(j_path j \<mapsto> log_image crc (fs @ [f])),
        synced := (synced d)(j_path j \<mapsto> log_image crc (fs @ [f]))\<rparr>)"
    (is "_ = Ok (?j, ?d)")
    by (simp add: append_def write_frame_def journal_sync_def fs_write_at_def fs_sync_def assms(1, 2) Let_def)
  have o: "journal_open (j_path j) ts ?d = Ok \<lparr>j_path = j_path j, j_ts = ts,
      j_end = length (log_image crc (fs @ [f])), j_syncs = 0\<rparr>" (is "_ = Ok ?o")
    by (simp add: journal_open_def)
  have "replay_loop crc (log_image crc (fs @ [f])) 0 = Some (fs @ [f], length (log_image crc (fs @ [f])))"
    by (rule replay_loop_whole) (use assms in simp)
  then have "replay crc (?o, ?d) = Ok (fs @ [f], ?o, ?d)"
    by (simp add: replay_def)
  with c o show ?thesis by blast
qed

section \<open>Properties\<close>

text \<open>C21: A journal survives a crash.  After any sequence of appends, deferred appends and syncs, let the
  crash keep the file up to any byte not before the last barrier: reopening and replaying yields the
  frames that are whole in it, a prefix of what was written that includes every frame a barrier
  covered, and a frame appended next is read back after them.  If instead arbitrary bytes follow the
  synced image, replay still yields every covered frame first.\<close>

theorem journal_crash_recovery:
  assumes "journal_create ts d0 = Ok jd0" "synced d0 (journal_name ts) = None"
    "list_all valid_frame (written ops)" "journal_run crc32 ops jd0 = Ok (j, d)"
    "content d (j_path j) = Some c" "(case synced d (j_path j) of None \<Rightarrow> [] | Some s \<Rightarrow> s) = s"
    "length s \<le> n" "n \<le> length c" "valid_frame f"
  shows "(\<exists>m j1 j2 d2. length (written (durable_ops ops)) \<le> m \<and> m \<le> length (written ops)
      \<and> journal_open (j_path j) ts (crashed (j_path j) (take n c) d) = Ok j1
      \<and> replay crc32 (j1, crashed (j_path j) (take n c) d) = Ok (take m (written ops), j2, d2)
      \<and> (\<exists>j3 d3 j4 r. append crc32 f (j2, d2) = Ok (j3, d3) \<and> journal_open (j_path j) ts d3 = Ok j4
          \<and> replay crc32 (j4, d3) = Ok (take m (written ops) @ [f], r)))
    \<and> (\<exists>j1 extra r. journal_open (j_path j) ts (crashed (j_path j) (s @ junk) d) = Ok j1
      \<and> replay crc32 (j1, crashed (j_path j) (s @ junk) d) = Ok (written (durable_ops ops) @ extra, r))"
    (is "?prefix \<and> ?junk")
proof
  obtain jd where "journal_run crc32 ops jd0 = Ok jd"
    "journal_holds crc32 jd (written ops) (written (durable_ops ops))"
    by (rule journal_run_holds [OF assms(1, 2)])
  then have c: "c = log_image crc32 (written ops)" and s: "s = log_image crc32 (written (durable_ops ops))"
    using assms(4-6) by (auto simp: journal_holds_def)
  define k where "k = length (written (durable_ops ops))"
  have sk: "s = log_image crc32 (take k (written ops))" using s durable_take [of ops] by (simp add: k_def)
  have vd: "list_all valid_frame (written (durable_ops ops))"
    using assms(3) by (subst durable_take) (simp add: list_all_length)
  show ?prefix
  proof (rule replay_loop_prefix [OF assms(3), of n crc32])
    show "n \<le> length (log_image crc32 (written ops))" using assms(8) c by simp
    fix m assume m: "m \<le> length (written ops)" "length (log_image crc32 (take m (written ops))) \<le> n"
      "m < length (written ops) \<Longrightarrow> n < length (log_image crc32 (take (Suc m) (written ops)))"
      "replay_loop crc32 (take n (log_image crc32 (written ops))) 0
        = Some (take m (written ops), length (log_image crc32 (take m (written ops))))"
      "take (length (log_image crc32 (take m (written ops)))) (take n (log_image crc32 (written ops)))
        = log_image crc32 (take m (written ops))"
    have "k \<le> m"
    proof (rule ccontr)
      assume "\<not> k \<le> m"
      then obtain i where i: "k = Suc m + i" by (metis less_iff_Suc_add not_le add_Suc add_Suc_right)
      then have "length (log_image crc32 (take (Suc m) (written ops))) \<le> length s"
        by (simp only: sk i take_add log_image_simps) simp
      with m(3) assms(7) i durable_le [of ops] show False by (simp add: k_def)
    qed
    let ?j1 = "\<lparr>j_path = j_path j, j_ts = ts, j_end = length (take n c), j_syncs = 0\<rparr>"
    obtain j2 d2 where r: "replay crc32 (?j1, crashed (j_path j) (take n c) d) = Ok (take m (written ops), j2, d2)"
      "content d2 (j_path j2) = Some (log_image crc32 (take m (written ops)))"
      "j_end j2 = length (log_image crc32 (take m (written ops)))" "j_path j2 = j_path j"
    proof (rule replay_recovers [of "crashed (j_path j) (take n c) d" ?j1 "take n c" crc32])
      show "replay_loop crc32 (take n c) 0 = Some (take m (written ops), length (log_image crc32 (take m (written ops))))"
        using m(4) c by simp
    qed (use m(5) c in \<open>auto simp: crashed_def intro: that\<close>)
    have "list_all valid_frame (take m (written ops))" using assms(3) by (simp add: list_all_length)
    from append_after_recovery [OF r(2, 3) this assms(9), of ts] r \<open>k \<le> m\<close> m(1) open_crashed [of "j_path j" ts "take n c" d]
    show ?prefix by (auto simp: k_def)
  qed
  show ?junk
  proof -
    obtain extra e where "replay_loop crc32 (s @ junk) 0 = Some (written (durable_ops ops) @ extra, e)"
      using replay_loop_log [of 0 "s @ junk" crc32 "written (durable_ops ops)" junk] vd
        replay_loop_returns [of crc32 "s @ junk" "length s"] by (auto simp: s)
    moreover have "content (crashed (j_path j) (s @ junk) d) (j_path j) = Some (s @ junk)" by (simp add: crashed_def)
    ultimately obtain j' d' where "replay crc32 (\<lparr>j_path = j_path j, j_ts = ts, j_end = length (s @ junk), j_syncs = 0\<rparr>,
        crashed (j_path j) (s @ junk) d) = Ok (written (durable_ops ops) @ extra, j', d')"
      using replay_recovers [of "crashed (j_path j) (s @ junk) d"
          "\<lparr>j_path = j_path j, j_ts = ts, j_end = length (s @ junk), j_syncs = 0\<rparr>" "s @ junk" crc32]
      by fastforce
    then show ?junk using open_crashed [of "j_path j" ts "s @ junk" d] by blast
  qed
qed

text \<open>An example session: one durable batch, one deferred commit frame, 29 bytes of it torn at byte 20.\<close>

abbreviation demo_ops :: "j_op list" where
  "demo_ops \<equiv> [JAppend (Batch []), JDeferred (Commit (CommitFrame 4 0))]"

abbreviation demo_fs :: fs where
  "demo_fs \<equiv> \<lparr>content = Map.empty, synced = Map.empty\<rparr>"

lemma length_image: "valid_frame f \<Longrightarrow> length (fimage crc f) = 8 + (STACK_SIZE wire_frame + heap_size wire_frame f)"
  by (simp add: length_frame_image length_checked wframe.to_wire_length)

theorem journal_crash_recovery_witness:
  "\<exists>jd0 j d m j1 r. journal_create 5 demo_fs = Ok jd0 \<and> journal_run (\<lambda>_. 0) demo_ops jd0 = Ok (j, d)
     \<and> 1 \<le> m \<and> m \<le> 2 \<and> journal_open (j_path j) 5 (crashed (j_path j) (take 20 (the (content d (j_path j)))) d) = Ok j1
     \<and> replay (\<lambda>_. 0) (j1, crashed (j_path j) (take 20 (the (content d (j_path j)))) d) = Ok (take m (written demo_ops), r)"
proof -
  obtain jd0 where c: "journal_create 5 demo_fs = Ok jd0" by (simp add: journal_create_def Let_def)
  obtain jd where r: "journal_run (\<lambda>_. 0) demo_ops jd0 = Ok jd"
    and h: "journal_holds (\<lambda>_. 0) jd (written demo_ops) (written (durable_ops demo_ops))"
    by (rule journal_run_holds [OF c]) simp
  obtain j d where jd: "jd = (j, d)" by (cases jd)
  have d: "written (durable_ops demo_ops) = [Batch []]" by (simp add: durable_ops_def)
  have len: "length (fimage (\<lambda>_. 0) (Batch [])) = 17" "length (fimage (\<lambda>_. 0) (Commit (CommitFrame 4 0))) = 29"
    by (simp_all add: length_image) (simp_all add: wire_frame_def wire_enum_def field_sel_def wire_vec_def
        wire_commit_frame_def wire_struct_def wire_tuple2_def wire_le_def)
  have "content d (j_path j) = Some (log_image (\<lambda>_. 0) (written demo_ops))"
    "(case synced d (j_path j) of None \<Rightarrow> [] | Some s \<Rightarrow> s) = log_image (\<lambda>_. 0) [Batch []]"
    using h jd d by (simp_all add: journal_holds_def)
  note img = this
  have prem: "synced demo_fs (journal_name 5) = None" "list_all valid_frame (written demo_ops)"
    "length (log_image (\<lambda>_. 0) [Batch []]) \<le> 20" "20 \<le> length (log_image (\<lambda>_. 0) (written demo_ops))"
    "valid_frame (Commit (CommitFrame 0 0))"
    by (simp_all add: len)
  have "\<exists>m j1 j2 d2. length (written (durable_ops demo_ops)) \<le> m \<and> m \<le> length (written demo_ops)
      \<and> journal_open (j_path j) 5 (crashed (j_path j) (take 20 (log_image (\<lambda>_. 0) (written demo_ops))) d) = Ok j1
      \<and> replay (\<lambda>_. 0) (j1, crashed (j_path j) (take 20 (log_image (\<lambda>_. 0) (written demo_ops))) d)
          = Ok (take m (written demo_ops), j2, d2)"
    using journal_crash_recovery [OF c prem(1, 2) r [unfolded jd] img prem(3-5), of "[]", THEN conjunct1] by blast
  then obtain m j1 j2 d2 where "length (written (durable_ops demo_ops)) \<le> m" "m \<le> length (written demo_ops)"
      "journal_open (j_path j) 5 (crashed (j_path j) (take 20 (the (content d (j_path j)))) d) = Ok j1"
      "replay (\<lambda>_. 0) (j1, crashed (j_path j) (take 20 (the (content d (j_path j)))) d) = Ok (take m (written demo_ops), j2, d2)"
    unfolding img(1) option.sel by blast
  with c r [unfolded jd] d show ?thesis by (intro exI conjI) (assumption | simp)+
qed

section \<open>Replaying twice\<close>

lemma frame_len_take: "p + 4 \<le> n \<Longrightarrow> frame_len (take n bs) p = frame_len bs p"
  by (simp add: frame_len_def drop_take min_def)

lemma replay_loop_cut:
  "replay_loop crc bs p = Some (fs, e) \<Longrightarrow> p \<le> length bs \<Longrightarrow> replay_loop crc (take e bs) p = Some (fs, e)"
proof (induction crc bs p arbitrary: fs e rule: replay_loop.induct)
  case (1 crc bs p)
  have e: "p \<le> e" "e \<le> length bs" using replay_loop_end [OF 1(2, 3)] by simp_all
  show ?case
  proof (cases "p + 4 \<le> length bs \<and> p + 4 + frame_len bs p \<le> length bs \<and>
      (\<exists>f. from_wire_checked crc wire_frame (take (frame_len bs p) (drop (p + 4) bs)) = Ok f)")
    case True
    then obtain f where f: "from_wire_checked crc wire_frame (take (frame_len bs p) (drop (p + 4) bs)) = Ok f" by blast
    define q where "q = p + 4 + frame_len bs p"
    from 1(2) True f obtain fs' where fs': "fs = f # fs'" "replay_loop crc bs q = Some (fs', e)"
      by (subst (asm) replay_loop.simps) (auto simp: Let_def q_def)
    have "q \<le> e" using replay_loop_end [OF fs'(2)] True by (simp add: q_def)
    have "replay_loop crc (take e bs) q = Some (fs', e)"
      using 1(1) [OF _ refl refl refl _ f refl] fs'(2) True by (simp add: q_def)
    moreover have "take (frame_len bs p) (drop (p + 4) (take e bs)) = take (frame_len bs p) (drop (p + 4) bs)"
      using \<open>q \<le> e\<close> by (simp add: drop_take min_def q_def)
    moreover have "length (take e bs) = e" using e by simp
    ultimately show ?thesis
      using \<open>q \<le> e\<close> f by (subst replay_loop.simps) (simp add: Let_def q_def fs'(1) frame_len_take)
  next
    case False
    then have "e = p" "fs = []"
      using 1(2) by (auto simp: Let_def replay_loop.simps [of crc bs p] split: if_splits option.splits sum.splits)
    then show ?thesis by (subst replay_loop.simps) simp
  qed
qed

text \<open>C22: Replay always returns, whatever bytes the journal's file holds, and settles it: replaying the file
  it left yields the same frames and leaves that file as it is.\<close>

theorem replay_total_idempotent:
  assumes "content d (j_path j) = Some bytes" "j_end j = length bytes"
  shows "\<exists>frames j' d'. replay crc32 (j, d) = Ok (frames, j', d') \<and> j_path j' = j_path j
    \<and> (\<exists>kept rest. bytes = kept @ rest \<and> content d' (j_path j) = Some kept \<and> j_end j' = length kept)
    \<and> replay crc32 (j', d') = Ok (frames, j', d')"
proof -
  obtain frames e where l: "replay_loop crc32 bytes 0 = Some (frames, e)"
    using replay_loop_returns [of crc32 bytes 0] by auto
  obtain j' d' where r: "replay crc32 (j, d) = Ok (frames, j', d')" "content d' (j_path j') = Some (take e bytes)"
    "j_end j' = e" "j_path j' = j_path j" "e \<le> length bytes"
    by (rule replay_recovers [OF assms l])
  have "replay crc32 (j', d') = Ok (frames, j', d')"
    using replay_loop_cut [OF l] r by (simp add: replay_def min_def)
  moreover have "bytes = take e bytes @ drop e bytes" "length (take e bytes) = e" using r(5) by simp_all
  ultimately show ?thesis using r by metis
qed

theorem replay_total_idempotent_witness:
  "\<exists>frames j' d'. replay (\<lambda>_. 0) (\<lparr>j_path = ''j'', j_ts = 1, j_end = 5, j_syncs = 0\<rparr>,
      \<lparr>content = [''j'' \<mapsto> [200, 0, 0, 0, 7]], synced = Map.empty\<rparr>) = Ok (frames, j', d')
    \<and> replay (\<lambda>_. 0) (j', d') = Ok (frames, j', d')"
  using replay_total_idempotent [of "\<lparr>content = [''j'' \<mapsto> [200, 0, 0, 0, 7]], synced = Map.empty\<rparr>"
      "\<lparr>j_path = ''j'', j_ts = 1, j_end = 5, j_syncs = 0\<rparr>" "[200, 0, 0, 0, 7]" "\<lambda>_. 0"]
  by auto

section \<open>Finding the journals\<close>

lemma of_char_digit [simp]: "d < 10 \<Longrightarrow> of_char (digit_char d) = 48 + d"
  by (simp add: digit_char_def of_char_of)

lemma is_digit_char [simp]: "d < 10 \<Longrightarrow> is_digit (digit_char d)"
  by (simp add: is_digit_def)

lemma dec_value_snoc: "dec_value (s @ [c]) = dec_value s * 10 + (of_char c - 48)"
  by (simp add: dec_value_def)

lemma show_dec_parses: "dec_value (show_dec n) = n" "list_all is_digit (show_dec n)" "show_dec n \<noteq> []"
proof -
  have "dec_value (show_dec n) = n \<and> list_all is_digit (show_dec n) \<and> show_dec n \<noteq> []"
  proof (induction n rule: show_dec.induct)
    case (1 n)
    then show ?case
      by (subst (1 2 3) show_dec.simps) (auto simp: dec_value_snoc, simp add: dec_value_def)
  qed
  then show "dec_value (show_dec n) = n" "list_all is_digit (show_dec n)" "show_dec n \<noteq> []" by simp_all
qed

lemma parse_show: "parse_u64 (show_dec (unat ts)) = Some ts"
proof -
  have "hd (show_dec (unat ts)) \<noteq> CHR ''+''"
    using show_dec_parses(2, 3) [of "unat ts"] by (cases "show_dec (unat ts)") (auto simp: is_digit_def)
  moreover have "unat ts < 2 ^ 64" using unsigned_less [of ts, where ?'a = nat] by simp
  ultimately show ?thesis
    using show_dec_parses [of "unat ts"] by (auto simp: parse_u64_def Let_def split: list.splits)
qed

lemma parse_journal_name [simp]: "parse_journal_name (journal_name ts) = Some ts"
  by (simp add: parse_journal_name_def journal_name_def strip_prefix_def strip_suffix_def parse_show)

lemma journal_name_inject: "journal_name a = journal_name b \<longleftrightarrow> a = b"
  by (metis option.inject parse_journal_name)

lemma set_scan: "set (scan entries) = {(ts, name). name \<in> set entries \<and> parse_journal_name name = Some ts}"
  by (force simp: scan_def map_filter_def image_iff)

lemma sorted_scan: "sorted (map fst (scan entries))"
  by (simp add: scan_def)

lemma next_ts_greater: "after \<noteq> - 1 \<Longrightarrow> after < next_ts now after"
proof -
  assume "after \<noteq> - 1"
  then have "1 + after \<noteq> 0" by (simp add: add_eq_0_iff)
  then have "after < 1 + after" by (simp add: word_less_nat_alt unatSuc)
  then show ?thesis by (simp add: next_ts_def less_max_iff_disj add.commute)
qed

end
