(* ===== verification/Ordered_Maps.thy ===== *)
theory Ordered_Maps
  imports Main "HOL-Library.Product_Lexorder"
begin

text \<open>
  \<open>std::collections::BTreeMap\<close> and \<open>BTreeSet\<close> as lists in iteration order: the operations the
  storage engine uses and their laws.  A map is well formed when its keys strictly increase.
\<close>

section \<open>Operations\<close>

definition bt_insert :: "'a::linorder \<Rightarrow> 'b \<Rightarrow> ('a \<times> 'b) list \<Rightarrow> ('a \<times> 'b) list" where
  "bt_insert k v m = takeWhile (\<lambda>(k', _). k' < k) m @ (k, v) # dropWhile (\<lambda>(k', _). k' \<le> k) m"

definition bt_remove :: "'a \<Rightarrow> ('a \<times> 'b) list \<Rightarrow> ('a \<times> 'b) list" where
  "bt_remove k m = filter (\<lambda>(k', _). k' \<noteq> k) m"

text \<open>\<open>iter().next_back()\<close> and \<open>range(..k).next_back()\<close>.\<close>

definition bt_last :: "'a list \<Rightarrow> 'a option" where
  "bt_last m = (if m = [] then None else Some (last m))"

definition bt_below :: "'a::linorder \<Rightarrow> ('a \<times> 'b) list \<Rightarrow> ('a \<times> 'b) option" where
  "bt_below k m = bt_last (filter (\<lambda>(k', _). k' < k) m)"

definition bs_insert :: "'a::linorder \<Rightarrow> 'a list \<Rightarrow> 'a list" where
  "bs_insert x s = takeWhile (\<lambda>y. y < x) s @ x # dropWhile (\<lambda>y. y \<le> x) s"

definition bs_remove :: "'a \<Rightarrow> 'a list \<Rightarrow> 'a list" where
  "bs_remove x s = filter (\<lambda>y. y \<noteq> x) s"

definition bs_from :: "'a::linorder \<Rightarrow> 'a list \<Rightarrow> 'a option" where
  "bs_from x s = find (\<lambda>y. x \<le> y) s"

section \<open>Laws\<close>

lemma sorted_fst_takeWhile:
  assumes "sorted_wrt (<) (map fst m)"
  shows "takeWhile (\<lambda>(k', _). k' < (k :: 'a::linorder)) m = filter (\<lambda>(k', _). k' < k) m"
    "dropWhile (\<lambda>(k', _). k' \<le> k) m = filter (\<lambda>(k', _). k < k') m"
proof -
  have "takeWhile (\<lambda>(k', _). k' < k) m = filter (\<lambda>(k', _). k' < k) m
    \<and> dropWhile (\<lambda>(k', _). k' \<le> k) m = filter (\<lambda>(k', _). k < k') m"
    using assms
  proof (induction m)
    case (Cons p m)
    obtain a b where p: "p = (a, b)" by fastforce
    have lt: "\<forall>x\<in>set m. a < fst x" using Cons.prems p by auto
    have "filter (\<lambda>(k', _). k' < k) m = []" if "\<not> a < k" using lt that by (force simp: filter_empty_conv)
    moreover have "filter (\<lambda>(k', _). k < k') m = m" if "k < a" using lt that by (force simp: filter_id_conv)
    ultimately show ?case using Cons p by (auto simp: not_less not_le)
  qed simp
  then show "takeWhile (\<lambda>(k', _). k' < k) m = filter (\<lambda>(k', _). k' < k) m"
    "dropWhile (\<lambda>(k', _). k' \<le> k) m = filter (\<lambda>(k', _). k < k') m" by auto
qed

lemma bt_insert_sorted:
  assumes "sorted_wrt (<) (map fst m)"
  shows "sorted_wrt (<) (map fst (bt_insert k v m))"
    "set (bt_insert k v m) = insert (k :: 'a::linorder, v) {x\<in>set m. fst x \<noteq> k}"
proof -
  have "sorted_wrt (\<lambda>x y. fst x < fst y) m" using assms by (simp add: sorted_wrt_map)
  then have "sorted_wrt (\<lambda>x y. fst x < fst y) (filter P m)" for P by (rule sorted_wrt_filter)
  then show "sorted_wrt (<) (map fst (bt_insert k v m))"
    unfolding bt_insert_def sorted_fst_takeWhile [OF assms]
    by (auto simp: sorted_wrt_append sorted_wrt_map intro: less_trans)
  show "set (bt_insert k v m) = insert (k, v) {x\<in>set m. fst x \<noteq> k}"
    unfolding bt_insert_def sorted_fst_takeWhile [OF assms] by auto
qed

lemma bs_insert_sorted:
  assumes "sorted_wrt (<) s"
  shows "sorted_wrt (<) (bs_insert x s)" "set (bs_insert (x :: 'a::linorder) s) = insert x (set s)"
proof -
  have "sorted_wrt (<) (map fst (map (\<lambda>y. (y, ())) s))" using assms by (simp add: comp_def)
  note bt = bt_insert_sorted [OF this, of x "()"]
  have "map fst (bt_insert x () (map (\<lambda>y. (y, ())) s)) = bs_insert x s"
    by (simp add: bt_insert_def bs_insert_def takeWhile_map dropWhile_map comp_def)
  then have eq: "bs_insert x s = map fst (bt_insert x () (map (\<lambda>y. (y, ())) s))" by simp
  show "sorted_wrt (<) (bs_insert x s)" unfolding eq by (rule bt(1))
  show "set (bs_insert x s) = insert x (set s)" unfolding eq set_map bt(2) by force
qed

lemma bt_remove_facts:
  "sorted_wrt (<) (map fst m) \<Longrightarrow> sorted_wrt (<) (map fst (bt_remove k m))"
  "set (bt_remove k m) = {x\<in>set m. fst x \<noteq> k}"
  by (auto simp: bt_remove_def sorted_wrt_map intro: sorted_wrt_filter)

lemma bs_remove_facts:
  "sorted_wrt (<) s \<Longrightarrow> sorted_wrt (<) (bs_remove x s)" "set (bs_remove x s) = set s - {x}"
  by (auto simp: bs_remove_def intro: sorted_wrt_filter)

lemma bt_last_cases:
  assumes "sorted_wrt (<) (map fst m)"
  obtains (none) "bt_last m = None" "m = []"
  | (some) k v where "bt_last m = Some (k :: 'a::linorder, v)" "(k, v) \<in> set m" "\<forall>x\<in>set m. fst x \<le> k"
proof (cases m rule: rev_exhaust)
  case Nil
  then show ?thesis using none by (simp add: bt_last_def)
next
  case (snoc m' p)
  obtain k v where p: "p = (k, v)" by fastforce
  show ?thesis
    by (rule some [of k v]) (use assms snoc p in \<open>auto simp: bt_last_def sorted_wrt_append\<close>)
qed

lemma bt_below_cases:
  assumes "sorted_wrt (<) (map fst m)"
  obtains (none) "bt_below b m = None" "\<forall>x\<in>set m. b \<le> fst x"
  | (some) k v where "bt_below b m = Some (k :: 'a::linorder, v)" "(k, v) \<in> set m" "k < b" "\<forall>x\<in>set m. fst x < b \<longrightarrow> fst x \<le> k"
proof -
  have "sorted_wrt (<) (map fst (filter (\<lambda>(k', _). k' < b) m))"
    using assms by (simp add: sorted_wrt_map sorted_wrt_filter)
  then show ?thesis
  proof (cases rule: bt_last_cases)
    case none'': none
    then show ?thesis by (intro none) (auto simp: bt_below_def filter_empty_conv not_less split: prod.splits)
  next
    case some'': (some k v)
    then show ?thesis by (intro some [of k v]) (auto simp: bt_below_def)
  qed
qed

lemma bt_get:
  "sorted_wrt (<) (map fst m) \<Longrightarrow> map_of m k = Some v \<longleftrightarrow> (k :: 'a::linorder, v) \<in> set m"
  by (simp add: strict_sorted_iff)

lemma bs_from_cases:
  assumes "sorted_wrt (<) s"
  obtains (none) "bs_from x s = None" "\<forall>y\<in>set s. y < (x :: 'a::linorder)"
  | (some) y where "bs_from x s = Some y" "y \<in> set s" "x \<le> y" "\<forall>z\<in>set s. x \<le> z \<longrightarrow> y \<le> z"
proof (cases "bs_from x s")
  case None
  then show ?thesis by (intro none) (auto simp: bs_from_def find_None_iff not_le)
next
  case (Some y)
  then obtain i where i: "i < length s" "x \<le> s ! i" "s ! i = y" "\<forall>j<i. \<not> x \<le> s ! j"
    by (auto simp: bs_from_def find_Some_iff)
  have "y \<le> z" if z: "z \<in> set s" "x \<le> z" for z
  proof -
    obtain j where j: "j < length s" "s ! j = z" using z(1) by (auto simp: in_set_conv_nth)
    then have "\<not> j < i" using i(4) z(2) by auto
    then show ?thesis using sorted_wrt_nth_less [OF assms, of i j] i j by (cases "i = j") (auto simp: less_imp_le)
  qed
  with i Some show ?thesis by (intro some [of y]) auto
qed

text \<open>Lookup after an update, in the vocabulary of maps.\<close>

abbreviation bt_ok :: "('a::linorder \<times> 'b) list \<Rightarrow> bool" where
  "bt_ok m \<equiv> sorted_wrt (<) (map fst m)"

lemma bt_insert_ok [simp]: "bt_ok m \<Longrightarrow> bt_ok (bt_insert k v m)"
  by (rule bt_insert_sorted(1))

lemma bt_insert_nonempty [simp]: "bt_insert k v m \<noteq> []"
  by (simp add: bt_insert_def)

lemma bt_remove_ok [simp]: "bt_ok m \<Longrightarrow> bt_ok (bt_remove k m)"
  by (rule bt_remove_facts(1))

lemma map_of_bt_insert [simp]:
  assumes "bt_ok m"
  shows "map_of (bt_insert k v m) = (map_of m)(k \<mapsto> v)"
proof
  fix x
  show "map_of (bt_insert k v m) x = ((map_of m)(k \<mapsto> v)) x"
  proof (cases "map_of (bt_insert k v m) x")
    case None
    then have "x \<notin> fst ` set (bt_insert k v m)" by (simp add: map_of_eq_None_iff)
    then have "x \<noteq> k" "x \<notin> fst ` set m" unfolding bt_insert_sorted(2) [OF assms] by force+
    then show ?thesis using None by (simp add: map_of_eq_None_iff [symmetric])
  next
    case (Some y)
    then have "(x, y) \<in> set (bt_insert k v m)" using bt_get [OF bt_insert_sorted(1) [OF assms]] by metis
    then consider "x = k" "y = v" | "x \<noteq> k" "map_of m x = Some y"
      using bt_get [OF assms, of x y] unfolding bt_insert_sorted(2) [OF assms] by auto
    then show ?thesis using Some by cases simp_all
  qed
qed

lemma map_of_bt_remove [simp]: "map_of (bt_remove k m) = (map_of m)(k := None)"
proof
  show "map_of (bt_remove k m) x = ((map_of m)(k := None)) x" for x
    by (induction m) (auto simp: bt_remove_def)
qed

text \<open>\<open>collect()\<close> of entries that already come in key order.\<close>

lemma bt_insert_last: "\<forall>x\<in>set m. fst x < k \<Longrightarrow> bt_insert k v m = m @ [(k, v)]"
  by (auto simp: bt_insert_def case_prod_unfold takeWhile_eq_all_conv dropWhile_eq_Nil_conv less_imp_le)

lemma bt_collect:
  assumes "bt_ok m" shows "fold (\<lambda>(k, v) m. bt_insert k v m) m [] = m"
  using assms
proof (induction m rule: rev_induct)
  case (snoc x m)
  then show ?case by (auto simp: sorted_wrt_append bt_insert_last case_prod_unfold)
qed simp

end
