(* ===== verification/Block_Alloc.thy ===== *)
theory Block_Alloc
  imports Wire_Laws Ordered_Maps
begin

text \<open>
  The block layer of the storage engine (\<open>wavedb-storage/src/block.rs\<close>, \<open>alloc.rs\<close>): runs of
  blocks, the packed 64-bit descriptor, and the free-space manager.

  Block numbers are \<open>nat\<close>: they stay below the file length, which a descriptor limits to 40 bits.
  The debug assertions of the source are
  preconditions of the lemmas.
\<close>

section \<open>Runs and descriptors\<close>

datatype run = Run (run_start: nat) (run_count: nat)

abbreviation BLOCK_SIZE :: nat where "BLOCK_SIZE \<equiv> 4096"

definition run_end :: "run \<Rightarrow> nat" where
  "run_end r = run_start r + run_count r"

definition byte_offset :: "run \<Rightarrow> nat" where
  "byte_offset r = run_start r * BLOCK_SIZE"

definition byte_len :: "run \<Rightarrow> nat" where
  "byte_len r = run_count r * BLOCK_SIZE"

datatype block_descriptor = BlockDescriptor (desc_raw: u64)

abbreviation START_SHIFT :: nat where "START_SHIFT \<equiv> 24"
abbreviation COUNT_SHIFT :: nat where "COUNT_SHIFT \<equiv> 4"

definition START_MASK :: u64 where "START_MASK = push_bit 40 1 - 1"
definition COUNT_MASK :: u64 where "COUNT_MASK = push_bit 20 1 - 1"
definition OCC_MASK :: u64 where "OCC_MASK = push_bit 4 1 - 1"

definition desc_new :: "u64 \<Rightarrow> u64 \<Rightarrow> byte \<Rightarrow> block_descriptor" where
  "desc_new start count occupation = BlockDescriptor
     (push_bit START_SHIFT (start AND START_MASK) OR push_bit COUNT_SHIFT (count AND COUNT_MASK)
      OR (ucast occupation AND OCC_MASK))"

definition desc_EMPTY :: block_descriptor where
  "desc_EMPTY = BlockDescriptor 0"

definition desc_start :: "block_descriptor \<Rightarrow> u64" where
  "desc_start d = drop_bit START_SHIFT (desc_raw d) AND START_MASK"

definition desc_count :: "block_descriptor \<Rightarrow> u64" where
  "desc_count d = drop_bit COUNT_SHIFT (desc_raw d) AND COUNT_MASK"

definition desc_occupation :: "block_descriptor \<Rightarrow> byte" where
  "desc_occupation d = ucast (desc_raw d AND OCC_MASK)"

definition is_allocated :: "block_descriptor \<Rightarrow> bool" where
  "is_allocated d \<longleftrightarrow> desc_count d \<noteq> 0"

definition desc_run :: "block_descriptor \<Rightarrow> run" where
  "desc_run d = Run (unat (desc_start d)) (unat (desc_count d))"

definition with_occupation :: "byte \<Rightarrow> block_descriptor \<Rightarrow> block_descriptor" where
  "with_occupation occupation d = desc_new (desc_start d) (desc_count d) occupation"

definition from_run :: "run \<Rightarrow> byte \<Rightarrow> block_descriptor" where
  "from_run r occupation = desc_new (of_nat (run_start r)) (of_nat (run_count r)) occupation"

text \<open>\<open>saturating_mul\<close> on \<open>u64\<close>.\<close>

definition occupation_of :: "nat \<Rightarrow> nat \<Rightarrow> byte" where
  "occupation_of used capacity =
     (if capacity = 0 then 0 else of_nat (min (min (used * 16) (2 ^ 64 - 1) div capacity) 15))"

definition from_run_used :: "run \<Rightarrow> nat \<Rightarrow> block_descriptor" where
  "from_run_used r used_bytes = from_run r (occupation_of used_bytes (byte_len r))"

definition wire_descriptor :: "block_descriptor wire" where
  "wire_descriptor = wire_struct desc_raw BlockDescriptor wire_u64"

section \<open>The allocator\<close>

record allocator =
  by_pos :: "(nat \<times> nat) list"
  by_size :: "(nat \<times> nat) list"
  total_blocks :: nat
  protected :: "(nat \<times> nat) list"
  previous_gen :: "(nat \<times> nat) list"
  deferred :: "run list"

definition alloc_new :: allocator where
  "alloc_new = \<lparr>by_pos = [], by_size = [], total_blocks = 0, protected = [], previous_gen = [], deferred = []\<rparr>"

definition insert_extent :: "nat \<Rightarrow> nat \<Rightarrow> allocator \<Rightarrow> allocator" where
  "insert_extent start count a =
     a\<lparr>by_pos := bt_insert start count (by_pos a), by_size := bs_insert (count, start) (by_size a)\<rparr>"

definition remove_extent :: "nat \<Rightarrow> nat \<Rightarrow> allocator \<Rightarrow> allocator" where
  "remove_extent start count a =
     a\<lparr>by_pos := bt_remove start (by_pos a), by_size := bs_remove (count, start) (by_size a)\<rparr>"

definition from_layout :: "nat \<Rightarrow> run list \<Rightarrow> allocator" where
  "from_layout len used =
     (let runs = sort_key run_start (filter (\<lambda>r. 0 < run_count r) used);
          (a, cursor) = fold (\<lambda>r (a, cursor).
             (if cursor < run_start r then insert_extent cursor (run_start r - cursor) a else a, run_end r))
             runs (alloc_new\<lparr>total_blocks := len\<rparr>, 0)
      in if cursor < len then insert_extent cursor (len - cursor) a else a)"

definition free_blocks :: "allocator \<Rightarrow> nat" where
  "free_blocks a = sum_list (map fst (by_size a))"

definition deferred_blocks :: "allocator \<Rightarrow> nat" where
  "deferred_blocks a = sum_list (map run_count (deferred a))"

definition largest_free_extent :: "allocator \<Rightarrow> nat" where
  "largest_free_extent a = (case bt_last (by_size a) of None \<Rightarrow> 0 | Some (count, _) \<Rightarrow> count)"

definition free_neighbours :: "allocator \<Rightarrow> run \<Rightarrow> nat \<times> nat" where
  "free_neighbours a r =
     ((case bt_below (run_start r) (by_pos a) of
         None \<Rightarrow> 0 | Some (start, count) \<Rightarrow> if start + count = run_start r then count else 0),
      (case map_of (by_pos a) (run_end r) of None \<Rightarrow> 0 | Some count \<Rightarrow> count))"

definition covers :: "(nat \<times> nat) list \<Rightarrow> run \<Rightarrow> bool" where
  "covers m r = (case bt_below (run_end r) m of
      None \<Rightarrow> False | Some (start, count) \<Rightarrow> run_start r < start + count)"

definition is_protected :: "allocator \<Rightarrow> run \<Rightarrow> bool" where
  "is_protected a r \<longleftrightarrow> covers (protected a) r \<or> covers (previous_gen a) r"

text \<open>A zero count panics: \<open>None\<close>.\<close>

definition alloc_tail :: "nat \<Rightarrow> allocator \<Rightarrow> (run \<times> allocator) option" where
  "alloc_tail count a =
     (if count = 0 then None
      else Some (case bt_last (by_pos a) of
          Some (start, n) \<Rightarrow>
            if start + n = total_blocks a \<and> \<not> is_protected a (Run start (min count n))
            then let a1 = remove_extent start n a
                 in (Run start count,
                     if count < n then insert_extent (start + count) (n - count) a1
                     else a1\<lparr>total_blocks := start + count\<rparr>)
            else (Run (total_blocks a) count, a\<lparr>total_blocks := total_blocks a + count\<rparr>)
        | None \<Rightarrow> (Run (total_blocks a) count, a\<lparr>total_blocks := total_blocks a + count\<rparr>)))"

definition alloc :: "nat \<Rightarrow> allocator \<Rightarrow> (run \<times> allocator) option" where
  "alloc count a =
     (if count = 0 then None
      else Some (case bs_from (count, 0) (by_size a) of
          Some (extent_count, start) \<Rightarrow>
            let a1 = remove_extent start extent_count a; leftover = extent_count - count
            in (Run start count, if 0 < leftover then insert_extent (start + count) leftover a1 else a1)
        | None \<Rightarrow> (Run (total_blocks a) count, a\<lparr>total_blocks := total_blocks a + count\<rparr>)))"

definition free :: "run \<Rightarrow> allocator \<Rightarrow> allocator" where
  "free r a =
     (if run_count r = 0 then a
      else if is_protected a r then a\<lparr>deferred := deferred a @ [r]\<rparr>
      else let (start, count, a1) =
                 (case bt_below (run_start r) (by_pos a) of
                    Some (p_start, p_count) \<Rightarrow>
                      if p_start + p_count = run_start r
                      then (p_start, run_count r + p_count, remove_extent p_start p_count a)
                      else (run_start r, run_count r, a)
                  | None \<Rightarrow> (run_start r, run_count r, a));
               (count, a2) =
                 (case map_of (by_pos a1) (start + count) of
                    Some succ_count \<Rightarrow> (count + succ_count, remove_extent (start + count) succ_count a1)
                  | None \<Rightarrow> (count, a1))
           in insert_extent start count a2)"

definition retry_pending :: "allocator \<Rightarrow> allocator" where
  "retry_pending a = fold free (deferred a) (a\<lparr>deferred := []\<rparr>)"

definition set_protected :: "run list \<Rightarrow> allocator \<Rightarrow> allocator" where
  "set_protected runs a =
     (let fresh = fold (\<lambda>r m. bt_insert (run_start r) (run_count r) m) (filter (\<lambda>r. 0 < run_count r) runs) []
      in retry_pending (a\<lparr>protected := fresh, previous_gen := protected a\<rparr>))"

definition release_previous :: "allocator \<Rightarrow> allocator" where
  "release_previous a = retry_pending (a\<lparr>previous_gen := []\<rparr>)"

definition truncate :: "allocator \<Rightarrow> nat \<times> allocator" where
  "truncate a = (case bt_last (by_pos a) of
      None \<Rightarrow> (0, a)
    | Some (start, count) \<Rightarrow>
        if start + count = total_blocks a
        then (count, (remove_extent start count a)\<lparr>total_blocks := start\<rparr>) else (0, a))"

end
