(* ===== verification/Directory.thy ===== *)
theory Directory
  imports Block_Alloc
begin

text \<open>
  The page directory of a type (\<open>wavedb-storage/src/directory.rs\<close>): one descriptor per bucket and
  linear hashing, which grows the directory one bucket at a time and moves only the records of the
  bucket being split.  \<open>seahash::hash_seeded\<close> is a third-party function: a parameter.
\<close>

section \<open>Linear hashing\<close>

fun ilog2 :: "nat \<Rightarrow> nat" where
  "ilog2 n = (if n < 2 then 0 else Suc (ilog2 (n div 2)))"

declare ilog2.simps [simp del]

definition bucket_index :: "u64 \<Rightarrow> u64 \<Rightarrow> nat" where
  "bucket_index dir_len hash =
     (let level = ilog2 (unat dir_len);
          base = push_bit level 1;
          split = dir_len - base;
          b = hash AND (base - 1)
      in unat (if b < split then hash AND (push_bit 1 base - 1) else b))"

definition next_split_bucket :: "u64 \<Rightarrow> u64" where
  "next_split_bucket dir_len = dir_len - push_bit (ilog2 (unat dir_len)) 1"

section \<open>The directory\<close>

type_synonym seed = "u64 \<times> u64 \<times> u64 \<times> u64"

type_synonym hasher = "byte list \<Rightarrow> seed \<Rightarrow> u64"

definition hash_of :: "hasher \<Rightarrow> u128 \<Rightarrow> seed \<Rightarrow> u64" where
  "hash_of hash_seeded i seed = hash_seeded (to_le_bytes 16 i) seed"

record directory =
  dir_slots :: "block_descriptor list"
  dir_seed :: seed

definition dir_new :: "seed \<Rightarrow> directory" where
  "dir_new seed = \<lparr>dir_slots = [desc_EMPTY], dir_seed = seed\<rparr>"

text \<open>Panics on an empty vector.\<close>

definition from_slots :: "block_descriptor list \<Rightarrow> seed \<Rightarrow> directory option" where
  "from_slots slots seed = (if slots = [] then None else Some \<lparr>dir_slots = slots, dir_seed = seed\<rparr>)"

definition dir_len :: "directory \<Rightarrow> nat" where
  "dir_len d = length (dir_slots d)"

definition dir_hash :: "hasher \<Rightarrow> directory \<Rightarrow> u128 \<Rightarrow> u64" where
  "dir_hash H d i = hash_of H i (dir_seed d)"

definition bucket_of :: "hasher \<Rightarrow> directory \<Rightarrow> u128 \<Rightarrow> nat" where
  "bucket_of H d i = bucket_index (of_nat (dir_len d)) (dir_hash H d i)"

text \<open>Indexing past the end panics: \<open>None\<close>.\<close>

definition descriptor :: "directory \<Rightarrow> nat \<Rightarrow> block_descriptor option" where
  "descriptor d bucket = (if bucket < dir_len d then Some (dir_slots d ! bucket) else None)"

definition set_descriptor :: "nat \<Rightarrow> block_descriptor \<Rightarrow> directory \<Rightarrow> directory option" where
  "set_descriptor bucket desc d =
     (if bucket < dir_len d then Some (d\<lparr>dir_slots := (dir_slots d)[bucket := desc]\<rparr>) else None)"

definition push_bucket :: "block_descriptor \<Rightarrow> directory \<Rightarrow> nat \<times> directory" where
  "push_bucket desc d = (dir_len d, d\<lparr>dir_slots := dir_slots d @ [desc]\<rparr>)"

definition dir_next_split :: "directory \<Rightarrow> u64" where
  "dir_next_split d = next_split_bucket (of_nat (dir_len d))"

definition split_bit :: "directory \<Rightarrow> nat" where
  "split_bit d = ilog2 (dir_len d)"

section \<open>Addressing laws\<close>

lemma ilog2_bounds: "0 < n \<Longrightarrow> 2 ^ ilog2 n \<le> n \<and> n < 2 ^ Suc (ilog2 n)"
proof (induction n rule: ilog2.induct)
  case (1 n)
  show ?case
  proof (cases "n < 2")
    case False
    then have "2 ^ ilog2 (n div 2) \<le> n div 2" "n div 2 < 2 ^ Suc (ilog2 (n div 2))" using 1 by auto
    with False show ?thesis by (subst (1 2) ilog2.simps) (simp, linarith)
  qed (use 1 in \<open>subst (1 2) ilog2.simps; simp\<close>)
qed

lemma ilog2_unique: "2 ^ l \<le> n \<Longrightarrow> n < 2 ^ Suc l \<Longrightarrow> ilog2 n = l"
proof -
  assume n: "2 ^ l \<le> n" "n < 2 ^ Suc l"
  then have p: "0 < n" by (metis gr0I le_zero_eq power_not_zero zero_neq_numeral)
  from ilog2_bounds [OF this] n have "2 ^ l < (2::nat) ^ Suc (ilog2 n)" "2 ^ ilog2 n < (2::nat) ^ Suc l"
    by linarith+
  then have "l < Suc (ilog2 n)" "ilog2 n < Suc l" by (simp_all only: power_strict_increasing_iff)
  then show ?thesis by simp
qed

text \<open>The addressing function on numbers: a hash below the split point takes one more bit.\<close>

definition lin_hash :: "nat \<Rightarrow> nat \<Rightarrow> nat" where
  "lin_hash n h = (let l = ilog2 n; b = h mod 2 ^ l in if b < n - 2 ^ l then h mod 2 ^ Suc l else b)"

lemma mod_Suc_bit: "h mod 2 ^ Suc l = h mod 2 ^ l + (if bit h l then 2 ^ l else 0)" for h :: nat
  using take_bit_Suc_from_most [of l h] by (auto simp: take_bit_eq_mod simp del: power_Suc)

lemma lin_hash_less:
  assumes "0 < n"
  shows "lin_hash n h < n"
proof -
  define l where "l = ilog2 n"
  have l: "2 ^ l \<le> n" using ilog2_bounds [OF assms] by (simp add: l_def)
  have b: "h mod 2 ^ l < 2 ^ l" by simp
  show ?thesis unfolding lin_hash_def Let_def mod_Suc_bit l_def [symmetric]
    using l b by (cases "bit h l"; cases "h mod 2 ^ l < n - 2 ^ l"; simp only: if_True if_False; linarith)
qed

lemma lin_hash_grow:
  assumes "0 < n"
  shows "lin_hash (Suc n) h =
    (if lin_hash n h = n - 2 ^ ilog2 n then (if bit h (ilog2 n) then n else n - 2 ^ ilog2 n) else lin_hash n h)"
proof -
  define l where "l = ilog2 n"
  define s where "s = n - 2 ^ l"
  define b where "b = h mod 2 ^ l"
  have n: "2 ^ l \<le> n" "n < 2 * 2 ^ l" using ilog2_bounds [OF assms] by (simp_all add: l_def)
  then have ns: "n = 2 ^ l + s" "s < 2 ^ l" by (auto simp: s_def)
  have b: "b < 2 ^ l" by (simp add: b_def)
  have old: "lin_hash n h = (if b < s then b + (if bit h l then 2 ^ l else 0) else b)"
    unfolding lin_hash_def Let_def mod_Suc_bit l_def [symmetric] b_def [symmetric] s_def ..
  show ?thesis
  proof (cases "Suc n < 2 * 2 ^ l")
    case True
    then have "ilog2 (Suc n) = l" using n by (intro ilog2_unique) simp_all
    then have "lin_hash (Suc n) h = (if b < Suc s then b + (if bit h l then 2 ^ l else 0) else b)"
      unfolding lin_hash_def Let_def mod_Suc_bit using ns by (simp add: b_def)
    then show ?thesis unfolding l_def [symmetric] s_def [symmetric] old using b ns by auto
  next
    case False
    then have S: "Suc n = 2 ^ Suc l" "Suc s = 2 ^ l" using n ns by auto
    then have "ilog2 (Suc n) = Suc l" by (intro ilog2_unique) simp_all
    then have "lin_hash (Suc n) h = b + (if bit h l then 2 ^ l else 0)"
      unfolding lin_hash_def Let_def using S by (simp add: mod_Suc_bit b_def del: power_Suc)
    then show ?thesis unfolding l_def [symmetric] s_def [symmetric] old using b ns S by auto
  qed
qed

text \<open>The word arithmetic of the source computes it for every directory length.\<close>

lemma unat_lt_64: "unat (w :: u64) < 2 ^ 64"
  using unsigned_less [of w, where ?'a = nat] by simp

lemma push_bit_one: "push_bit l (1 :: u64) = 2 ^ l"
  by simp

lemma low_bits: "hash AND (2 ^ l - 1) = take_bit l (hash :: u64)"
  by (simp add: take_bit_eq_mask mask_eq_exp_minus_1)

lemma ilog2_less_64: "0 < unat (n :: u64) \<Longrightarrow> ilog2 (unat n) < 64"
proof -
  assume "0 < unat n"
  then have "2 ^ ilog2 (unat n) < (2::nat) ^ 64" using ilog2_bounds [of "unat n"] unat_lt_64 [of n] by linarith
  then show ?thesis by (rule power_less_imp_less_exp [rotated]) simp
qed

lemma unat_split_point:
  assumes "0 < unat (n :: u64)"
  shows "unat (n - 2 ^ ilog2 (unat n)) = unat n - 2 ^ ilog2 (unat n)"
proof -
  have "(2::nat) ^ ilog2 (unat n) < 2 ^ 64" using ilog2_less_64 [OF assms] by (intro power_strict_increasing) simp_all
  then have "unat (of_nat (2 ^ ilog2 (unat n)) :: u64) = 2 ^ ilog2 (unat n)"
    by (subst unat_of_nat) (simp add: take_bit_nat_eq_self)
  then have "unat (2 ^ ilog2 (unat n) :: u64) = 2 ^ ilog2 (unat n)" by simp
  moreover from this have "2 ^ ilog2 (unat n) \<le> n"
    using ilog2_bounds [OF assms] by (simp add: word_le_nat_alt)
  ultimately show ?thesis by (simp add: unat_sub)
qed

lemma bucket_index_lin_hash:
  assumes "0 < unat n"
  shows "bucket_index n h = lin_hash (unat n) (unat h)"
proof -
  have "push_bit 1 (2 ^ l :: u64) = 2 ^ Suc l" for l by (simp add: push_bit_eq_mult)
  moreover have "unat (take_bit l h) = unat h mod 2 ^ l" for l
    by (simp only: unsigned_take_bit_eq take_bit_eq_mod [where ?'a = nat])
  ultimately show ?thesis
    unfolding bucket_index_def lin_hash_def Let_def push_bit_one
    by (simp only: low_bits word_less_nat_alt unat_split_point [OF assms] if_distrib [of unat])
qed

lemma bit_unat: "bit (unat h) l \<longleftrightarrow> bit h l" for h :: u64
  by (simp add: bit_unsigned_iff)

lemma unat_next_split: "0 < unat n \<Longrightarrow> unat (next_split_bucket n) = unat n - 2 ^ ilog2 (unat n)"
  unfolding next_split_bucket_def push_bit_one by (rule unat_split_point)

definition dir_ok :: "directory \<Rightarrow> bool" where
  "dir_ok d \<longleftrightarrow> 0 < dir_len d \<and> dir_len d < 2 ^ 32"

lemma unat_dir_len: "dir_ok d \<Longrightarrow> unat (of_nat (dir_len d) :: u64) = dir_len d"
  by (simp add: dir_ok_def unat_of_nat take_bit_nat_eq_self)

lemma dir_ok_pos: "dir_ok d \<Longrightarrow> 0 < unat (of_nat (dir_len d) :: u64)"
  using unat_dir_len [of d] by (simp add: dir_ok_def)

lemma bucket_of_lin_hash: "dir_ok d \<Longrightarrow> bucket_of H d i = lin_hash (dir_len d) (unat (dir_hash H d i))"
  unfolding bucket_of_def using bucket_index_lin_hash [OF dir_ok_pos] unat_dir_len by simp

lemma bucket_of_less: "dir_ok d \<Longrightarrow> bucket_of H d i < dir_len d"
  by (simp add: bucket_of_lin_hash lin_hash_less dir_ok_def)

lemma next_split_dir: "dir_ok d \<Longrightarrow> unat (dir_next_split d) = dir_len d - 2 ^ ilog2 (dir_len d)"
  unfolding dir_next_split_def using unat_next_split [OF dir_ok_pos] unat_dir_len by simp

lemma next_split_less: "dir_ok d \<Longrightarrow> unat (dir_next_split d) < dir_len d"
  by (simp add: next_split_dir dir_ok_def)

text \<open>Growing the directory by one bucket.\<close>

lemma push_bucket_routes:
  assumes "dir_ok d"
  shows "bucket_of H (snd (push_bucket e d)) i =
    (if bucket_of H d i = unat (dir_next_split d)
     then if bit (dir_hash H d i) (split_bit d) then fst (push_bucket e d) else unat (dir_next_split d)
     else bucket_of H d i)"
proof -
  have p: "0 < dir_len d" "Suc (dir_len d) < 2 ^ 64" using assms by (simp_all add: dir_ok_def)
  have g: "dir_len (snd (push_bucket e d)) = Suc (dir_len d)" "fst (push_bucket e d) = dir_len d"
    "dir_hash H (snd (push_bucket e d)) i = dir_hash H d i"
    by (simp_all add: push_bucket_def dir_len_def dir_hash_def)
  have w: "unat (of_nat (Suc (dir_len d)) :: u64) = Suc (dir_len d)"
    using p(2) by (simp only: unat_of_nat take_bit_nat_eq_self len_num0 len_num1 len_bit0 len_bit1 mult_2) simp
  have "bucket_of H (snd (push_bucket e d)) i = lin_hash (Suc (dir_len d)) (unat (dir_hash H d i))"
    unfolding bucket_of_def g using bucket_index_lin_hash [of "of_nat (Suc (dir_len d))"] w by simp
  then show ?thesis
    using lin_hash_grow [OF p(1), of "unat (dir_hash H d i)"]
    by (simp add: bucket_of_lin_hash [OF assms] next_split_dir [OF assms] split_bit_def g(2) bit_unat)
qed

section \<open>Properties\<close>

text \<open>C23: Linear hashing on the source's 64-bit words: over any non-empty directory every hash routes to one of
  its buckets, and growing the directory by one bucket moves only hashes of the bucket whose turn it is,
  which stay or go to the new bucket as the level bit of the hash says.\<close>

theorem linear_hashing_split:
  assumes "n \<noteq> 0" "n \<noteq> - 1"
  shows "bucket_index n hash < unat n
    \<and> bucket_index (n + 1) hash =
       (if bucket_index n hash = unat (next_split_bucket n)
        then if bit hash (ilog2 (unat n)) then unat n else unat (next_split_bucket n)
        else bucket_index n hash)"
proof
  have p: "0 < unat n" using assms(1) by (simp add: unat_gt_0)
  have s: "unat (n + 1) = Suc (unat n)"
    using assms(2) unatSuc [of n] by (simp add: add_eq_0_iff add.commute)
  show "bucket_index n hash < unat n"
    by (simp add: bucket_index_lin_hash [OF p] lin_hash_less [OF p])
  show "bucket_index (n + 1) hash =
      (if bucket_index n hash = unat (next_split_bucket n)
       then if bit hash (ilog2 (unat n)) then unat n else unat (next_split_bucket n)
       else bucket_index n hash)"
    using lin_hash_grow [OF p, of "unat hash"] bucket_index_lin_hash [of "n + 1" hash]
    by (simp add: s bucket_index_lin_hash [OF p] unat_next_split [OF p] bit_unat)
qed

theorem linear_hashing_split_witness:
  "bucket_index 5 13 < 5 \<and> bucket_index (5 + 1) 13 =
       (if bucket_index 5 13 = unat (next_split_bucket 5)
        then if bit (13 :: u64) (ilog2 (unat (5 :: u64))) then unat (5 :: u64) else unat (next_split_bucket 5)
        else bucket_index 5 13)"
  using linear_hashing_split [of 5 13] by simp

end
