(* ===== verification/Page.thy ===== *)
theory Page
  imports Journal_Laws Directory
begin

text \<open>
  Pages and dictionaries (\<open>wavedb-storage/src/page.rs\<close>, \<open>dictionary.rs\<close>): the in-memory page of one
  type's records, its stored image behind the checked frame, and the append-only dictionary a
  compressed page binds a prefix of.

  The third-party functions the engine calls are the fields of a record \<open>libs\<close>, a parameter of the
  definitions: \<open>crc32fast::hash\<close>, \<open>seahash::hash_seeded\<close> and the two directions of
  \<open>zstd::bulk\<close> with a dictionary.  Compression faults (allocation-class) are not modelled.
\<close>

record libs =
  crc32 :: "byte list \<Rightarrow> u32"
  hash_seeded :: hasher
  zstd_compress :: "byte list \<Rightarrow> byte list \<Rightarrow> byte list" \<comment> \<open>dictionary, data\<close>
  zstd_decompress :: "byte list \<Rightarrow> byte list \<Rightarrow> nat \<Rightarrow> byte list option" \<comment> \<open>dictionary, frame, capacity\<close>

text \<open>What the engine relies on of zstd: a frame decompresses, against the dictionary that made it and
  with the exact capacity, to the data it was made from.\<close>

definition zstd_ok :: "libs \<Rightarrow> bool" where
  "zstd_ok E \<longleftrightarrow> (\<forall>dict data. zstd_decompress E dict (zstd_compress E dict data) (length data) = Some data)"

section \<open>Reading a frame back from a padded run\<close>

definition framed_body :: "string \<Rightarrow> string \<Rightarrow> byte list \<Rightarrow> byte list sres" where
  "framed_body truncated out_of_range bs =
     (if length bs < 4 then Err (Corrupt truncated)
      else let len = frame_len bs 0
           in if 4 + len \<le> length bs then Ok (take len (drop 4 bs)) else Err (Corrupt out_of_range))"

section \<open>The dictionary\<close>

abbreviation DICT_CAP :: nat where "DICT_CAP \<equiv> 65536"

datatype dictionary = Dictionary (dict_buf: "byte list")

definition dict_new :: dictionary where
  "dict_new = Dictionary []"

definition dict_sample :: "byte list \<Rightarrow> dictionary \<Rightarrow> dictionary" where
  "dict_sample rec d =
     (let room = DICT_CAP - length (dict_buf d)
      in if room = 0 then d else Dictionary (dict_buf d @ take (min (length rec) room) rec))"

definition dict_len :: "dictionary \<Rightarrow> nat" where
  "dict_len d = length (dict_buf d)"

definition dict_prefix :: "dictionary \<Rightarrow> nat \<Rightarrow> byte list option" where
  "dict_prefix d n = (if n \<le> length (dict_buf d) then Some (take n (dict_buf d)) else None)"

definition dict_latest :: "dictionary \<Rightarrow> byte list" where
  "dict_latest d = dict_buf d"

definition dict_to_bytes :: "libs \<Rightarrow> dictionary \<Rightarrow> byte list" where
  "dict_to_bytes E d = frame_image (crc32 E) (wire_vec wire_u8) (dict_buf d)"

definition dict_from_bytes :: "libs \<Rightarrow> byte list \<Rightarrow> dictionary sres" where
  "dict_from_bytes E bs =
     try_then (framed_body ''dictionary length truncated'' ''dictionary length out of range'' bs) (\<lambda>body.
     try_then (map_err (\<lambda>_. Corrupt ''dictionary body'') (from_wire_checked (crc32 E) (wire_vec wire_u8) body)) (\<lambda>b.
     Ok (Dictionary b)))"

record dict_state =
  ds_enabled :: bool
  ds_dict :: dictionary
  ds_desc :: block_descriptor

definition ds_new :: "bool \<Rightarrow> dict_state" where
  "ds_new on = \<lparr>ds_enabled = on, ds_dict = dict_new, ds_desc = desc_EMPTY\<rparr>"

text \<open>The returned flag: whether the buffer grew.\<close>

definition ds_sample :: "byte list \<Rightarrow> dict_state \<Rightarrow> bool \<times> dict_state" where
  "ds_sample rec s =
     (if \<not> ds_enabled s then (False, s)
      else let d = dict_sample rec (ds_dict s) in (dict_len d \<noteq> dict_len (ds_dict s), s\<lparr>ds_dict := d\<rparr>))"

definition ds_image :: "libs \<Rightarrow> dict_state \<Rightarrow> byte list" where
  "ds_image E s = dict_to_bytes E (ds_dict s)"

definition ds_repoint :: "block_descriptor \<Rightarrow> dict_state \<Rightarrow> block_descriptor \<times> dict_state" where
  "ds_repoint desc s = (ds_desc s, s\<lparr>ds_desc := desc\<rparr>)"

definition ds_load :: "dictionary \<Rightarrow> block_descriptor \<Rightarrow> dict_state \<Rightarrow> dict_state" where
  "ds_load dict desc s = s\<lparr>ds_dict := dict, ds_desc := desc\<rparr>"

definition ds_reset :: "dict_state \<Rightarrow> dict_state" where
  "ds_reset s = s\<lparr>ds_dict := dict_new, ds_desc := desc_EMPTY\<rparr>"

section \<open>Pages\<close>

datatype page_payload =
    Raw "byte list"
  | Zstd u32 u32 "byte list" \<comment> \<open>dict\_len, raw\_len, bytes\<close>

datatype page_envelope = PageEnvelope (env_struct_hash: u64) (env_payload: page_payload)

type_synonym records = "(u128 \<times> byte list) list"

abbreviation wire_zstd :: "(u32 \<times> u32 \<times> byte list) wire" where
  "wire_zstd \<equiv> wire_tuple3 wire_u32 wire_u32 (wire_vec wire_u8)"

fun payload_sel :: "page_payload \<Rightarrow> byte \<times> nat \<times> byte list" where
  "payload_sel (Raw b) = field_sel 0 (wire_vec wire_u8) b"
| "payload_sel (Zstd d r b) = field_sel 1 wire_zstd (d, r, b)"

definition payload_arms :: "(byte list \<Rightarrow> page_payload wres) list" where
  "payload_arms = [field_arm (wire_vec wire_u8) Raw, field_arm wire_zstd (\<lambda>(d, r, b). Zstd d r b)]"

definition wire_payload :: "page_payload wire" where
  "wire_payload = wire_enum payload_sel payload_arms"

definition wire_envelope :: "page_envelope wire" where
  "wire_envelope = wire_struct (\<lambda>e. (env_struct_hash e, env_payload e)) (\<lambda>(h, p). PageEnvelope h p)
     (wire_tuple2 wire_u64 wire_payload)"

definition wire_body :: "records wire" where
  "wire_body = wire_vec (wire_tuple2 wire_u128 (wire_vec wire_u8))"

record slot_page =
  sp_struct_hash :: u64
  sp_records :: records

definition page_new :: "u64 \<Rightarrow> slot_page" where
  "page_new h = \<lparr>sp_struct_hash = h, sp_records = []\<rparr>"

definition page_upsert :: "wave_id \<Rightarrow> byte list \<Rightarrow> slot_page \<Rightarrow> slot_page" where
  "page_upsert i b p = p\<lparr>sp_records := bt_insert (raw i) b (sp_records p)\<rparr>"

definition page_get :: "slot_page \<Rightarrow> wave_id \<Rightarrow> byte list option" where
  "page_get p i = map_of (sp_records p) (raw i)"

definition page_remove :: "wave_id \<Rightarrow> slot_page \<Rightarrow> slot_page" where
  "page_remove i p = p\<lparr>sp_records := bt_remove (raw i) (sp_records p)\<rparr>"

definition page_entries :: "slot_page \<Rightarrow> (wave_id \<times> byte list) list" where
  "page_entries p = map (\<lambda>(r, b). (WaveId r, b)) (sp_records p)"

definition page_to_bytes :: "libs \<Rightarrow> dictionary \<Rightarrow> bool \<Rightarrow> slot_page \<Rightarrow> byte list" where
  "page_to_bytes E dict compress p =
     (let body = to_wire wire_body (sp_records p);
          payload =
            (if compress then
               let z = zstd_compress E (dict_latest dict) body
               in if length z < length body
                  then Zstd (of_nat (dict_len dict)) (of_nat (length body)) z
                  else Raw body
             else Raw body)
      in frame_image (crc32 E) wire_envelope (PageEnvelope (sp_struct_hash p) payload))"

definition unpack_payload :: "libs \<Rightarrow> dictionary \<Rightarrow> page_payload \<Rightarrow> byte list sres" where
  "unpack_payload E dict payload = (case payload of
      Raw b \<Rightarrow> Ok b
    | Zstd n raw_len b \<Rightarrow>
        (case dict_prefix dict (unat n) of
           None \<Rightarrow> Err (Corrupt ''page dictionary state unknown'')
         | Some state \<Rightarrow>
             (case zstd_decompress E state b (unat raw_len) of
                None \<Rightarrow> Err (Corrupt ''page decompress'') | Some b' \<Rightarrow> Ok b')))"

definition page_from_bytes :: "libs \<Rightarrow> dictionary \<Rightarrow> byte list \<Rightarrow> slot_page sres" where
  "page_from_bytes E dict bs =
     try_then (framed_body ''page length truncated'' ''page length out of range'' bs) (\<lambda>body.
     try_then (map_err (\<lambda>_. Corrupt ''page envelope'') (from_wire_checked (crc32 E) wire_envelope body)) (\<lambda>envelope.
     try_then (unpack_payload E dict (env_payload envelope)) (\<lambda>b.
     try_then (map_err (\<lambda>_. Corrupt ''page body'') (from_wire wire_body b)) (\<lambda>records.
     Ok \<lparr>sp_struct_hash = env_struct_hash envelope,
          sp_records = fold (\<lambda>(k, b) m. bt_insert k b m) records []\<rparr>))))"

section \<open>Round trips\<close>

lemma framed_body_image:
  assumes "frame_fits W v"
  shows "framed_body e1 e2 (frame_image crc W v @ pad) = Ok (to_wire_checked crc W v)"
  using frame_len_image [OF assms, of 0 "frame_image crc W v @ pad" crc pad]
  by (simp add: framed_body_def length_frame_image Let_def) (simp add: frame_image_def Let_def)

context wave_wire
begin

text \<open>Every engine structure reads back from the zero-padded run that holds its frame.\<close>

lemma framed_roundtrip:
  assumes "valid v" "frame_fits W v"
  shows "try_then (framed_body e1 e2 (frame_image crc W v @ pad)) (\<lambda>body. map_err err (from_wire_checked crc W body)) = Ok v"
  by (simp add: framed_body_image [OF assms(2)] checked_roundtrip [OF assms(1)])

end

subsection \<open>The dictionary is append-only\<close>

lemma dict_sample_extends: "\<exists>more. dict_buf (dict_sample rec d) = dict_buf d @ more"
  by (simp add: dict_sample_def Let_def)

lemma dict_sample_cap: "length (dict_buf d) \<le> DICT_CAP \<Longrightarrow> length (dict_buf (dict_sample rec d)) \<le> DICT_CAP"
  by (auto simp: dict_sample_def Let_def min_def)

definition dict_extends :: "dictionary \<Rightarrow> dictionary \<Rightarrow> bool" where
  "dict_extends d d' \<longleftrightarrow> (\<exists>more. dict_buf d' = dict_buf d @ more)"

lemma dict_extends_refl [simp]: "dict_extends d d"
  by (simp add: dict_extends_def)

lemma dict_extends_trans: "dict_extends a b \<Longrightarrow> dict_extends b c \<Longrightarrow> dict_extends a c"
  by (auto simp: dict_extends_def)

lemma dict_extends_sample: "dict_extends d (dict_sample rec d)"
  using dict_sample_extends by (simp add: dict_extends_def)

lemma dict_prefix_extends: "dict_extends d d' \<Longrightarrow> dict_prefix d n = Some x \<Longrightarrow> dict_prefix d' n = Some x"
  by (auto simp: dict_extends_def dict_prefix_def split: if_splits)

lemma dict_prefix_len [simp]: "dict_prefix d (dict_len d) = Some (dict_latest d)"
  by (simp add: dict_prefix_def dict_len_def dict_latest_def)

lemma dict_roundtrip:
  assumes "length (dict_buf d) \<le> DICT_CAP"
  shows "dict_from_bytes E (dict_to_bytes E d @ pad) = Ok d"
proof -
  have "valid_bytes (dict_buf d)" "frame_fits (wire_vec wire_u8) (dict_buf d)"
    using assms wbytes.to_wire_length [of "dict_buf d"]
    by (simp_all add: valid_bytes_def frame_fits_def wire_vec_def)
  then show ?thesis
    by (simp add: dict_from_bytes_def dict_to_bytes_def framed_body_image wbytes.checked_roundtrip del: One_nat_def)
qed

subsection \<open>Page images\<close>

interpretation wrec: wave_wire "wire_tuple2 wire_u128 (wire_vec wire_u8)" "\<lambda>(k, b). valid_bytes b"
  using wire_tuple2_ok [OF wu128.wave_wire_axioms wbytes.wave_wire_axioms] by simp

definition valid_records :: "records \<Rightarrow> bool" where
  "valid_records rs \<longleftrightarrow> list_all (\<lambda>(k, b). valid_bytes b) rs \<and> sum_list (map (\<lambda>(k, b). 20 + length b) rs) < 2 ^ 32"

lemma vec_heap_records: "vec_heap_size (wire_tuple2 wire_u128 (wire_vec wire_u8)) rs = sum_list (map (\<lambda>(k, b). 20 + length b) rs)"
  by (induction rs) (auto simp: wire_tuple2_def wire_vec_def)

interpretation wbody: wave_wire wire_body valid_records
proof -
  have "wave_wire (wire_vec (wire_tuple2 wire_u128 (wire_vec wire_u8)))
      (valid_vec (wire_tuple2 wire_u128 (wire_vec wire_u8)) (\<lambda>(k, b). valid_bytes b))"
    by (rule wrec.wire_vec_ok) (auto simp: nonempty_units_def wire_tuple2_def)
  then show "wave_wire wire_body valid_records"
    unfolding wire_body_def valid_vec_def [abs_def] valid_records_def [abs_def] vec_heap_records .
qed

text \<open>A page whose body fits the \<open>u32\<close> fields of its envelope with room for the envelope itself.\<close>

definition page_fits :: "records \<Rightarrow> bool" where
  "page_fits rs \<longleftrightarrow> sum_list (map (\<lambda>(k, b). 20 + length b) rs) < 2 ^ 32 - 8192"

lemma page_fits_valid: "page_fits rs \<Longrightarrow> valid_records rs"
proof -
  assume f: "page_fits rs"
  have "length b < 2 ^ 32" if "(k, b) \<in> set rs" for k b
  proof -
    have "20 + length b \<in> set (map (\<lambda>(k, b). 20 + length b) rs)" using that by force
    from member_le_sum_list [OF this] f show ?thesis by (simp add: page_fits_def)
  qed
  with f show ?thesis by (auto simp: valid_records_def page_fits_def valid_bytes_def list_all_iff)
qed

lemma length_body: "page_fits rs \<Longrightarrow> length (to_wire wire_body rs) = 4 + sum_list (map (\<lambda>(k, b). 20 + length b) rs)"
  using wbody.to_wire_length [OF page_fits_valid, of rs] by (simp add: wire_body_def vec_heap_records del: One_nat_def)

interpretation wzstd: wave_wire wire_zstd "\<lambda>(d, r, b). valid_bytes b"
  using wire_tuple3_ok [OF wu32.wave_wire_axioms wu32.wave_wire_axioms wbytes.wave_wire_axioms] by simp

fun payload_bytes :: "page_payload \<Rightarrow> byte list" where
  "payload_bytes (Raw b) = b"
| "payload_bytes (Zstd _ _ b) = b"

definition valid_payload :: "page_payload \<Rightarrow> bool" where
  "valid_payload p \<longleftrightarrow> length (payload_bytes p) < 2 ^ 32 - 4096"

lemma payload_arm_reads_back:
  assumes "valid_payload p"
  shows "arm_reads_back payload_sel payload_arms p"
proof (cases p)
  case (Raw b)
  then have "valid_bytes b" using assms by (simp add: valid_payload_def valid_bytes_def)
  then show ?thesis
    using Raw assms wbytes.field_arm_reads_back [of b Raw] wbytes.field_sel_length [of b 0]
    by (simp add: arm_reads_back_def payload_arms_def field_sel_def valid_payload_def)
next
  case (Zstd d r b)
  then have "valid_bytes b" using assms by (simp add: valid_payload_def valid_bytes_def)
  then show ?thesis
    using Zstd assms wzstd.field_arm_reads_back [of "(d, r, b)" "\<lambda>(d, r, b). Zstd d r b"]
      wzstd.field_sel_length [of "(d, r, b)" 1]
    by (simp add: arm_reads_back_def payload_arms_def field_sel_def valid_payload_def)
qed

interpretation wpayload: wave_wire wire_payload valid_payload
  using wire_enum_ok [of payload_sel payload_arms] payload_arm_reads_back
  by (auto simp: wire_payload_def wave_wire_def)

interpretation wenvelope: wave_wire wire_envelope "\<lambda>e. valid_payload (env_payload e)"
  using wire_struct_ok [OF wire_tuple2_ok [OF wu64.wave_wire_axioms wpayload.wave_wire_axioms],
      of "\<lambda>(h, p). PageEnvelope h p" "\<lambda>e. (env_struct_hash e, env_payload e)"]
  by (simp add: wire_envelope_def)

lemma length_envelope:
  "valid_payload (env_payload e) \<Longrightarrow> length (to_wire wire_envelope e) \<le> 30 + length (payload_bytes (env_payload e))"
  by (cases "env_payload e")
    (simp_all add: wenvelope.to_wire_length, simp_all add: wire_envelope_def wire_payload_def field_sel_def)

lemma envelope_fits: "valid_payload (env_payload e) \<Longrightarrow> frame_fits wire_envelope e"
  using length_envelope [of e] by (simp add: frame_fits_def valid_payload_def)

text \<open>The payload \<open>to_bytes\<close> chooses.\<close>

definition payload_of :: "libs \<Rightarrow> dictionary \<Rightarrow> bool \<Rightarrow> byte list \<Rightarrow> page_payload" where
  "payload_of E dict compress b =
     (if compress \<and> length (zstd_compress E (dict_latest dict) b) < length b
      then Zstd (of_nat (dict_len dict)) (of_nat (length b)) (zstd_compress E (dict_latest dict) b) else Raw b)"

lemma page_to_bytes_eq: "page_to_bytes E dict compress p = frame_image (crc32 E) wire_envelope
    (PageEnvelope (sp_struct_hash p) (payload_of E dict compress (to_wire wire_body (sp_records p))))"
  by (simp add: page_to_bytes_def payload_of_def Let_def)

lemma payload_of_shorter: "length (payload_bytes (payload_of E dict compress b)) \<le> length b"
  by (simp add: payload_of_def)

lemma valid_payload_of: "page_fits rs \<Longrightarrow> valid_payload (payload_of E dict compress (to_wire wire_body rs))"
  using payload_of_shorter [of E dict compress "to_wire wire_body rs"] length_body [of rs]
  by (simp add: valid_payload_def page_fits_def)

definition page_ok :: "slot_page \<Rightarrow> bool" where
  "page_ok p \<longleftrightarrow> bt_ok (sp_records p)"

lemma page_image_length:
  assumes "page_fits (sp_records p)"
  shows "length (page_to_bytes E dict compress p) < 2 ^ 32 - 4096"
    "5 \<le> length (page_to_bytes E dict compress p)"
proof -
  let ?e = "PageEnvelope (sp_struct_hash p) (payload_of E dict compress (to_wire wire_body (sp_records p)))"
  have "length (to_wire wire_envelope ?e) \<le> 30 + length (payload_bytes (env_payload ?e))"
    by (rule length_envelope) (simp add: valid_payload_of assms)
  then show "length (page_to_bytes E dict compress p) < 2 ^ 32 - 4096" "5 \<le> length (page_to_bytes E dict compress p)"
    using payload_of_shorter [of E dict compress "to_wire wire_body (sp_records p)"] length_body [OF assms] assms
    by (simp_all add: page_to_bytes_eq length_frame_image length_checked page_fits_def)
qed

lemma page_reads_back:
  assumes "zstd_ok E" "page_ok p" "page_fits (sp_records p)" "dict_len dict \<le> DICT_CAP" "dict_extends dict dict'"
  shows "page_from_bytes E dict' (page_to_bytes E dict compress p @ pad) = Ok p"
proof -
  let ?b = "to_wire wire_body (sp_records p)"
  let ?e = "PageEnvelope (sp_struct_hash p) (payload_of E dict compress ?b)"
  have e: "valid_payload (env_payload ?e)" using valid_payload_of [OF assms(3)] by simp
  have b: "from_wire wire_body ?b = Ok (sp_records p)"
    by (rule wbody.from_wire_to_wire [OF page_fits_valid [OF assms(3)]])
  have c: "fold (\<lambda>(k, b) m. bt_insert k b m) (sp_records p) [] = sp_records p"
    using bt_collect assms(2) by (simp add: page_ok_def)
  have l: "length ?b < 2 ^ 32" using length_body [OF assms(3)] assms(3) by (simp add: page_fits_def)
  have d: "dict_prefix dict' (dict_len dict) = Some (dict_latest dict)"
    by (rule dict_prefix_extends [OF assms(5) dict_prefix_len])
  have z: "zstd_decompress E (dict_latest dict) (zstd_compress E (dict_latest dict) ?b) (length ?b) = Some ?b"
    using assms(1) by (simp add: zstd_ok_def)
  show ?thesis
    unfolding page_from_bytes_def page_to_bytes_eq framed_body_image [OF envelope_fits [OF e]] try_then_simps
      wenvelope.checked_roundtrip [OF e] map_err_simps page_envelope.sel
    using b c l d z assms(4) by (simp add: payload_of_def unpack_payload_def)
qed

section \<open>Properties\<close>

text \<open>C24: A page reads back.  Whatever the compression policy, a stored page decodes from its run, padding and
  all, to the same records, also when the dictionary has sampled more records since; and compressing costs at most the
  seven bytes by which the two extra length fields can outweigh the gain.\<close>

theorem page_survives_dictionary_growth:
  assumes "zstd_ok E" "page_ok p" "page_fits (sp_records p)" "dict_len dict \<le> DICT_CAP"
  shows "page_from_bytes E (fold dict_sample later dict) (page_to_bytes E dict compress p @ padding) = Ok p
    \<and> length (page_to_bytes E dict True p) \<le> length (page_to_bytes E dict False p) + 7"
proof
  have "dict_extends dict (fold dict_sample later dict)"
    by (induction later arbitrary: dict) (auto intro: dict_extends_trans dict_extends_sample)
  then show "page_from_bytes E (fold dict_sample later dict) (page_to_bytes E dict compress p @ padding) = Ok p"
    by (rule page_reads_back [OF assms])
  have v: "valid_payload (payload_of E dict c (to_wire wire_body (sp_records p)))" for c
    by (rule valid_payload_of [OF assms(3)])
  show "length (page_to_bytes E dict True p) \<le> length (page_to_bytes E dict False p) + 7"
    using v [of True] v [of False] wenvelope.to_wire_length
      [of "PageEnvelope (sp_struct_hash p) (payload_of E dict c (to_wire wire_body (sp_records p)))" for c]
    by (simp add: page_to_bytes_eq length_frame_image length_checked)
      (simp add: payload_of_def wire_envelope_def wire_payload_def field_sel_def)
qed

text \<open>A codec that strips the dictionary off the front of the data.\<close>

definition strip_libs :: libs where
  "strip_libs = \<lparr>crc32 = (\<lambda>bs. of_nat (length bs)), hash_seeded = (\<lambda>bs s. from_le_bytes (take 8 bs)),
     zstd_compress = (\<lambda>d x. if take (length d) x = d then 1 # drop (length d) x else 0 # x),
     zstd_decompress = (\<lambda>d f n. case f of [] \<Rightarrow> None | t # r \<Rightarrow> if t = 1 then Some (d @ r) else Some r)\<rparr>"

lemma strip_libs_ok: "zstd_ok strip_libs"
  by (auto simp: zstd_ok_def strip_libs_def) (metis append_take_drop_id)

lemma encode_stack_vec: "encode_stack (wire_vec W) vs = to_le_bytes 4 (of_nat (vec_heap_size W vs) :: u32)"
  by (simp add: wire_vec_def)

text \<open>The cost is real: a body that shrinks by one byte makes a longer page.\<close>

lemma compressed_page_grows:
  "length (page_to_bytes strip_libs (Dictionary [23, 0]) True \<lparr>sp_struct_hash = 7, sp_records = [(5, [1, 2, 3])]\<rparr>)
   = length (page_to_bytes strip_libs (Dictionary [23, 0]) False \<lparr>sp_struct_hash = 7, sp_records = [(5, [1, 2, 3])]\<rparr>) + 7"
proof -
  define body where "body = to_wire wire_body [(5, [1, 2, 3])]"
  have f: "page_fits [(5, [1, 2, 3])]" by (simp add: page_fits_def)
  have b: "take 2 body = [23, 0]" "length body = 27"
  proof -
    have "encode_stack wire_body [(5, [1, 2, 3])] = to_le_bytes 4 (23 :: u32)"
      unfolding wire_body_def encode_stack_vec vec_heap_records by simp
    also have "\<dots> = nat_to_le (Suc (Suc (Suc (Suc 0)))) 23"
      unfolding to_le_bytes_def by (rule arg_cong2 [where f = nat_to_le]) simp_all
    also have "\<dots> = [23, 0, 0, 0]" by simp
    finally show "take 2 body = [23, 0]" by (simp add: body_def to_wire_def numeral_2_eq_2)
    show "length body = 27" using length_body [OF f] by (simp add: body_def)
  qed
  then have "zstd_compress strip_libs [23, 0] body = 1 # drop 2 body"
    by (simp add: strip_libs_def numeral_2_eq_2)
  then have "payload_of strip_libs (Dictionary [23, 0]) True body = Zstd 2 27 (1 # drop 2 body)"
    using b by (simp add: payload_of_def dict_latest_def dict_len_def)
  moreover have "payload_of strip_libs (Dictionary [23, 0]) False body = Raw body" by (simp add: payload_of_def)
  moreover have "valid_payload (Zstd 2 27 (1 # drop 2 body))" "valid_payload (Raw body)"
    using b by (simp_all add: valid_payload_def)
  ultimately show ?thesis
    using b by (simp add: page_to_bytes_eq length_frame_image length_checked body_def [symmetric] wenvelope.to_wire_length)
      (simp add: wire_envelope_def wire_payload_def field_sel_def)
qed

theorem page_survives_dictionary_growth_witness:
  "page_from_bytes strip_libs (fold dict_sample [[9, 9], [1]] (Dictionary [23, 0, 0, 0]))
     (page_to_bytes strip_libs (Dictionary [23, 0, 0, 0]) True \<lparr>sp_struct_hash = 7, sp_records = [(5, [1, 2, 3])]\<rparr> @ [0, 0])
   = Ok \<lparr>sp_struct_hash = 7, sp_records = [(5, [1, 2, 3])]\<rparr>"
  by (rule page_survives_dictionary_growth [OF strip_libs_ok, THEN conjunct1])
    (simp_all add: page_ok_def page_fits_def dict_len_def)

end
