(* ===== verification/Alloc_Laws.thy ===== *)
theory Alloc_Laws
  imports Block_Alloc
begin

text \<open>
  What the block layer guarantees.  A descriptor unpacks to what was packed.  In every state a client
  can reach, the free extents, the live runs and the deferred frees partition the file, the free
  extents are maximal and indexed by size without error, and no allocation touches a block a recovery
  root names.
\<close>

section \<open>Free extents\<close>

definition blocks :: "run \<Rightarrow> nat set" where
  "blocks r = {run_start r..<run_end r}"

definition ext_blocks :: "(nat \<times> nat) set \<Rightarrow> nat set" where
  "ext_blocks E = (\<Union>(s, c)\<in>E. {s..<s + c})"

text \<open>Non-empty and separated by at least one block; non-empty and disjoint.\<close>

definition separated :: "(nat \<times> nat) set \<Rightarrow> bool" where
  "separated E \<longleftrightarrow> (\<forall>s c. (s, c) \<in> E \<longrightarrow> 0 < c)
     \<and> (\<forall>s c s' c'. (s, c) \<in> E \<longrightarrow> (s', c') \<in> E \<longrightarrow> s < s' \<longrightarrow> s + c < s')
     \<and> (\<forall>s c c'. (s, c) \<in> E \<longrightarrow> (s, c') \<in> E \<longrightarrow> c' = c)"

definition apart :: "(nat \<times> nat) set \<Rightarrow> bool" where
  "apart E \<longleftrightarrow> (\<forall>s c. (s, c) \<in> E \<longrightarrow> 0 < c)
     \<and> (\<forall>s c s' c'. (s, c) \<in> E \<longrightarrow> (s', c') \<in> E \<longrightarrow> s < s' \<longrightarrow> s + c \<le> s')"

definition alloc_inv :: "allocator \<Rightarrow> bool" where
  "alloc_inv a \<longleftrightarrow> sorted_wrt (<) (map fst (by_pos a)) \<and> sorted_wrt (<) (by_size a)
     \<and> set (by_size a) = prod.swap ` set (by_pos a) \<and> separated (set (by_pos a))
     \<and> (\<forall>(s, c)\<in>set (by_pos a). s + c \<le> total_blocks a)"

abbreviation extents :: "allocator \<Rightarrow> (nat \<times> nat) set" where
  "extents a \<equiv> set (by_pos a)"

definition free_set :: "allocator \<Rightarrow> nat set" where
  "free_set a = ext_blocks (extents a)"

lemma ext_blocks_simps [simp]:
  "ext_blocks {} = {}" "ext_blocks (insert (s, c) E) = {s..<s + c} \<union> ext_blocks E"
  "ext_blocks (E \<union> F) = ext_blocks E \<union> ext_blocks F"
  by (auto simp: ext_blocks_def)

lemma separatedD:
  assumes "separated E" "(s, c) \<in> E"
  shows "0 < c" "(s', c') \<in> E \<Longrightarrow> s < s' \<Longrightarrow> s + c < s'" "(s, c') \<in> E \<Longrightarrow> c' = c"
  using assms unfolding separated_def by blast+

lemma separated_disjoint:
  assumes "separated E" "(s, c) \<in> E" "(s', c') \<in> E" "(s', c') \<noteq> (s, c)"
  shows "{s'..<s' + c'} \<inter> {s..<s + c} = {}"
proof (cases s s' rule: linorder_cases)
  case less
  then have "s + c < s'" by (rule separatedD(2) [OF assms(1-3)])
  then show ?thesis by auto
next
  case equal
  then show ?thesis using separatedD(3) [OF assms(1, 2)] assms(3, 4) by auto
next
  case greater
  then have "s' + c' < s" by (rule separatedD(2) [OF assms(1, 3, 2)])
  then show ?thesis by auto
qed

lemma ext_blocks_remove:
  assumes "separated E" "(s, c) \<in> E"
  shows "ext_blocks (E - {(s, c)}) = ext_blocks E - {s..<s + c}"
  using separated_disjoint [OF assms] assms(2) unfolding ext_blocks_def by fastforce

lemma separated_subset: "separated E \<Longrightarrow> F \<subseteq> E \<Longrightarrow> separated F"
  unfolding separated_def by blast

text \<open>A new extent that touches none of the others.\<close>

definition clear_of :: "nat \<Rightarrow> nat \<Rightarrow> (nat \<times> nat) set \<Rightarrow> bool" where
  "clear_of s c E \<longleftrightarrow> (\<forall>s' c'. (s', c') \<in> E \<longrightarrow> s' + c' < s \<or> s + c < s')"

lemma separated_insert:
  assumes "separated E" "clear_of s c E" "0 < c"
  shows "separated (insert (s, c) E)"
proof -
  have cl: "s' + c' < s \<or> s + c < s'" if "(s', c') \<in> E" for s' c' using assms(2) that by (simp add: clear_of_def)
  show ?thesis
    unfolding separated_def
  proof (intro conjI allI impI)
    show "0 < y" if "(x, y) \<in> insert (s, c) E" for x y
      using that assms(3) separatedD(1) [OF assms(1)] by auto
    show "x + y < x'" if "(x, y) \<in> insert (s, c) E" "(x', y') \<in> insert (s, c) E" "x < x'" for x y x' y'
      using that(1, 2)
    proof (elim insertE)
      assume "(x, y) \<in> E" "(x', y') \<in> E"
      then show ?thesis using that(3) by (rule separatedD(2) [OF assms(1)])
    qed (use cl [of x y] cl [of x' y'] that(3) in auto)
    show "y' = y" if "(x, y) \<in> insert (s, c) E" "(x, y') \<in> insert (s, c) E" for x y y'
      using that
    proof (elim insertE)
      assume "(x, y) \<in> E" "(x, y') \<in> E"
      then show ?thesis by (rule separatedD(3) [OF assms(1)])
    qed (use cl [of x y] cl [of x y'] in auto)
  qed
qed

text \<open>The two index updates as set operations.\<close>

lemma alloc_invD:
  assumes "alloc_inv a"
  shows "sorted_wrt (<) (map fst (by_pos a))" "sorted_wrt (<) (by_size a)"
    "set (by_size a) = prod.swap ` extents a" "separated (extents a)" "(s, c) \<in> extents a \<Longrightarrow> s + c \<le> total_blocks a"
  using assms unfolding alloc_inv_def by auto

lemma remove_unique: "(\<And>x. x \<in> A \<Longrightarrow> f x = k \<Longrightarrow> x = y) \<Longrightarrow> f y = k \<Longrightarrow> {x\<in>A. f x \<noteq> k} = A - {y}"
  by blast

lemma remove_extent_facts:
  assumes "alloc_inv a" "(s, c) \<in> extents a"
  shows "alloc_inv (remove_extent s c a)" "extents (remove_extent s c a) = extents a - {(s, c)}"
    "free_set (remove_extent s c a) = free_set a - {s..<s + c}"
proof -
  note inv = alloc_invD [OF assms(1)]
  show ext: "extents (remove_extent s c a) = extents a - {(s, c)}"
  proof -
    have "x = (s, c)" if "x \<in> extents a" "fst x = s" for x
    proof -
      have "(s, snd x) \<in> extents a" using that by (metis prod.collapse)
      then have "snd x = c" by (rule separatedD(3) [OF inv(4) assms(2)])
      with that(2) show ?thesis by (metis prod.collapse)
    qed
    then have "{x\<in>extents a. fst x \<noteq> s} = extents a - {(s, c)}" by (rule remove_unique) simp_all
    then show ?thesis by (simp add: remove_extent_def bt_remove_facts)
  qed
  have "sorted_wrt (<) (map fst (by_pos (remove_extent s c a)))" "sorted_wrt (<) (by_size (remove_extent s c a))"
    using inv(1, 2) by (simp_all add: remove_extent_def bt_remove_facts bs_remove_facts)
  moreover have "set (by_size (remove_extent s c a)) = prod.swap ` extents (remove_extent s c a)"
    unfolding ext by (auto simp: remove_extent_def bs_remove_facts inv(3))
  moreover have "separated (extents (remove_extent s c a))"
    unfolding ext by (rule separated_subset [OF inv(4)]) auto
  ultimately show "alloc_inv (remove_extent s c a)"
    using inv(5) ext unfolding alloc_inv_def by (auto simp: remove_extent_def)
  show "free_set (remove_extent s c a) = free_set a - {s..<s + c}"
    unfolding free_set_def ext by (rule ext_blocks_remove [OF inv(4) assms(2)])
qed

lemma insert_extent_facts:
  assumes "alloc_inv a" "clear_of s c (extents a)" "0 < c" "s + c \<le> total_blocks a"
  shows "alloc_inv (insert_extent s c a)" "extents (insert_extent s c a) = insert (s, c) (extents a)"
    "free_set (insert_extent s c a) = free_set a \<union> {s..<s + c}"
proof -
  note inv = alloc_invD [OF assms(1)]
  have new: "\<forall>x\<in>extents a. fst x \<noteq> s" using assms(2, 3) by (fastforce simp: clear_of_def)
  then have "{x\<in>extents a. fst x \<noteq> s} = extents a" by auto
  then show ext: "extents (insert_extent s c a) = insert (s, c) (extents a)"
    using bt_insert_sorted(2) [OF inv(1), of s c] by (simp add: insert_extent_def)
  have "sorted_wrt (<) (map fst (by_pos (insert_extent s c a)))" "sorted_wrt (<) (by_size (insert_extent s c a))"
    using inv(1, 2) by (simp_all add: insert_extent_def bt_insert_sorted bs_insert_sorted)
  moreover have "set (by_size (insert_extent s c a)) = prod.swap ` extents (insert_extent s c a)"
    unfolding ext by (simp add: insert_extent_def bs_insert_sorted inv(2, 3))
  moreover have "separated (extents (insert_extent s c a))"
    unfolding ext by (rule separated_insert [OF inv(4) assms(2, 3)])
  ultimately show "alloc_inv (insert_extent s c a)"
    using inv(5) ext assms(4) unfolding alloc_inv_def by (auto simp: insert_extent_def)
  show "free_set (insert_extent s c a) = free_set a \<union> {s..<s + c}"
    unfolding free_set_def ext by auto
qed

lemma extent_update_simps [simp]:
  "total_blocks (insert_extent s c a) = total_blocks a" "total_blocks (remove_extent s c a) = total_blocks a"
  "protected (insert_extent s c a) = protected a" "protected (remove_extent s c a) = protected a"
  "previous_gen (insert_extent s c a) = previous_gen a" "previous_gen (remove_extent s c a) = previous_gen a"
  "deferred (insert_extent s c a) = deferred a" "deferred (remove_extent s c a) = deferred a"
  by (simp_all add: insert_extent_def remove_extent_def)

lemma alloc_inv_grow: "alloc_inv a \<Longrightarrow> total_blocks a \<le> n \<Longrightarrow> alloc_inv (a\<lparr>total_blocks := n\<rparr>)"
  unfolding alloc_inv_def by fastforce

text \<open>Cutting a run off the front of a free extent.\<close>

lemma split_extent:
  assumes "alloc_inv a" "(s, c) \<in> extents a" "0 < n" "n < c"
  shows "alloc_inv (insert_extent (s + n) (c - n) (remove_extent s c a))"
    "free_set (insert_extent (s + n) (c - n) (remove_extent s c a)) = free_set a - {s..<s + n}"
    "extents (insert_extent (s + n) (c - n) (remove_extent s c a)) = insert (s + n, c - n) (extents a - {(s, c)})"
proof -
  note inv = alloc_invD [OF assms(1)] and re = remove_extent_facts [OF assms(1, 2)]
  have "clear_of (s + n) (c - n) (extents (remove_extent s c a))"
    unfolding clear_of_def re(2)
  proof (intro allI impI)
    fix s' c' assume x: "(s', c') \<in> extents a - {(s, c)}"
    show "s' + c' < s + n \<or> s + n + (c - n) < s'"
    proof (cases s s' rule: linorder_cases)
      case less
      then have "s + c < s'" using separatedD(2) [OF inv(4) assms(2)] x by blast
      then show ?thesis using assms(4) by simp
    next
      case equal
      then show ?thesis using separatedD(3) [OF inv(4) assms(2), of c'] x by auto
    next
      case greater
      then have "s' + c' < s" using separatedD(2) [OF inv(4) _ assms(2)] x by blast
      then show ?thesis by simp
    qed
  qed
  note ie = insert_extent_facts [OF re(1) this]
  show "alloc_inv (insert_extent (s + n) (c - n) (remove_extent s c a))"
    using ie(1) assms(3, 4) inv(5) [OF assms(2)] by simp
  show "extents (insert_extent (s + n) (c - n) (remove_extent s c a)) = insert (s + n, c - n) (extents a - {(s, c)})"
    using ie(2) re(2) assms(3, 4) inv(5) [OF assms(2)] by simp
  have "{s..<s + c} \<subseteq> free_set a" using assms(2) by (auto simp: free_set_def ext_blocks_def)
  moreover have "free_set (insert_extent (s + n) (c - n) (remove_extent s c a)) =
      free_set a - {s..<s + c} \<union> {s + n..<s + n + (c - n)}"
    using ie(3) re(3) assms(3, 4) inv(5) [OF assms(2)] by simp
  ultimately show "free_set (insert_extent (s + n) (c - n) (remove_extent s c a)) = free_set a - {s..<s + n}"
    using assms(3, 4) by auto
qed

section \<open>Protection\<close>

text \<open>On disjoint runs one probe decides whether any block is covered.\<close>

lemma covers_iff:
  assumes "sorted_wrt (<) (map fst m)" "apart (set m)"
  shows "covers m r \<longleftrightarrow> (\<exists>s c. (s, c) \<in> set m \<and> s < run_end r \<and> run_start r < s + c)"
  using assms(1)
proof (cases rule: bt_below_cases [where b = "run_end r"])
  case none
  then show ?thesis by (fastforce simp: covers_def)
next
  case (some k v)
  have "run_start r < k + v" if x: "(s, c) \<in> set m" "s < run_end r" "run_start r < s + c" for s c
  proof (cases "s = k")
    case True
    then have "c = v" using x(1) some(2) assms(1) by (metis bt_get option.inject)
    then show ?thesis using x(3) True by simp
  next
    case False
    then have "s < k" using some(4) x by fastforce
    then have "s + c \<le> k" using assms(2) x(1) some(2) unfolding apart_def by blast
    then show ?thesis using x(3) by simp
  qed
  then show ?thesis using some(1-3) by (auto simp: covers_def)
qed

definition gen_ok :: "(nat \<times> nat) list \<Rightarrow> bool" where
  "gen_ok m \<longleftrightarrow> sorted_wrt (<) (map fst m) \<and> apart (set m)"

lemma gen_ok_Nil [simp]: "gen_ok []"
  by (simp add: gen_ok_def apart_def)

lemma covers_blocks:
  assumes "gen_ok m" "0 < run_count r"
  shows "covers m r \<longleftrightarrow> blocks r \<inter> ext_blocks (set m) \<noteq> {}"
proof
  assume "covers m r"
  then obtain s c where x: "(s, c) \<in> set m" "s < run_end r" "run_start r < s + c"
    using covers_iff assms(1) by (auto simp: gen_ok_def)
  have "0 < c" using assms(1) x(1) by (auto simp: gen_ok_def apart_def)
  then have "max s (run_start r) \<in> blocks r \<inter> {s..<s + c}"
    using x assms(2) by (auto simp: blocks_def run_end_def)
  then show "blocks r \<inter> ext_blocks (set m) \<noteq> {}" using x(1) unfolding ext_blocks_def by blast
next
  assume "blocks r \<inter> ext_blocks (set m) \<noteq> {}"
  then obtain s c b where "(s, c) \<in> set m" "b \<in> blocks r" "b \<in> {s..<s + c}" unfolding ext_blocks_def by blast
  then show "covers m r" using covers_iff assms(1) by (fastforce simp: gen_ok_def blocks_def)
qed

section \<open>Freeing\<close>

text \<open>The predecessor that ends where the run starts, if there is one.\<close>

lemma pred_extent:
  assumes "alloc_inv a"
  shows "(case bt_below b (by_pos a) of Some (p, n) \<Rightarrow> if p + n = b then Some (p, n) else None | None \<Rightarrow> None) = Some (p, n)
    \<longleftrightarrow> (p, n) \<in> extents a \<and> p + n = b"
  using alloc_invD(1) [OF assms]
proof (cases rule: bt_below_cases [where b = b])
  case none
  then show ?thesis using separatedD(1) [OF alloc_invD(4) [OF assms], of p n] by auto
next
  case (some k v)
  have "(p, n) = (k, v)" if x: "(p, n) \<in> extents a" "p + n = b"
  proof (cases "p = k")
    case True
    then show ?thesis using separatedD(3) [OF alloc_invD(4) [OF assms] some(2), of n] x by auto
  next
    case False
    have "p < b" using separatedD(1) [OF alloc_invD(4) [OF assms] x(1)] x(2) by simp
    then have "p < k" using some(4) x(1) False by fastforce
    then have "p + n < k" by (rule separatedD(2) [OF alloc_invD(4) [OF assms] x(1) some(2)])
    then show ?thesis using x(2) some(3) by simp
  qed
  then show ?thesis using some(1, 2) by (auto split: if_splits)
qed

lemma free_set_extent: "(s, c) \<in> extents a \<Longrightarrow> {s..<s + c} \<subseteq> free_set a"
  unfolding free_set_def ext_blocks_def by blast

lemma disjoint_sides:
  assumes "{a..<b} \<inter> {c..<d} = {}" "a < b" "c < (d :: nat)"
  shows "b \<le> c \<or> d \<le> a"
proof (rule ccontr)
  assume "\<not> (b \<le> c \<or> d \<le> a)"
  then have "max a c \<in> {a..<b} \<inter> {c..<d}" using assms(2, 3) by auto
  with assms(1) show False by blast
qed

text \<open>A range of blocks outside the free set that no extent touches.\<close>

lemma clear_of_range:
  assumes "alloc_inv a" "0 < n" "{s..<s + n} \<inter> free_set a = {}"
    "\<And>p m. (p, m) \<in> extents a \<Longrightarrow> p + m \<noteq> s" "\<And>m. (s + n, m) \<notin> extents a"
  shows "clear_of s n (extents a)"
  unfolding clear_of_def
proof (intro allI impI)
  fix p m assume x: "(p, m) \<in> extents a"
  have "{p..<p + m} \<inter> {s..<s + n} = {}" using free_set_extent [OF x] assms(3) by blast
  then have "p + m \<le> s \<or> s + n \<le> p"
    using disjoint_sides [of p "p + m" s "s + n"] separatedD(1) [OF alloc_invD(4) [OF assms(1)] x] assms(2) by simp
  moreover have "p + m \<noteq> s" "p \<noteq> s + n" using assms(4, 5) x by auto
  ultimately show "p + m < s \<or> s + n < p" by auto
qed

lemma no_extent_ends:
  assumes "alloc_inv a" "(s, c) \<in> extents a" "(p, m) \<in> extents a"
  shows "p + m \<noteq> s"
proof
  assume e: "p + m = s"
  then have "p < s" using separatedD(1) [OF alloc_invD(4) [OF assms(1)] assms(3)] by simp
  from separatedD(2) [OF alloc_invD(4) [OF assms(1)] assms(3, 2) this] e show False by simp
qed

text \<open>Coalescing to the left.\<close>

definition join_left :: "nat \<Rightarrow> nat \<Rightarrow> allocator \<Rightarrow> nat \<times> nat \<times> allocator" where
  "join_left s n a = (case bt_below s (by_pos a) of
      Some (p, m) \<Rightarrow> if p + m = s then (p, n + m, remove_extent p m a) else (s, n, a)
    | None \<Rightarrow> (s, n, a))"

lemma join_left_facts:
  assumes "alloc_inv a" "0 < n" "{s..<s + n} \<inter> free_set a = {}" "join_left s n a = (s', n', a')"
  shows "alloc_inv a'" "s' + n' = s + n" "0 < n'" "{s'..<s' + n'} \<inter> free_set a' = {}"
    "free_set a' \<union> {s'..<s' + n'} = free_set a \<union> {s..<s + n}" "(p, m) \<in> extents a' \<Longrightarrow> p + m \<noteq> s'"
    "total_blocks a' = total_blocks a" "extents a' \<subseteq> extents a"
    "protected a' = protected a" "previous_gen a' = previous_gen a" "deferred a' = deferred a"
proof -
  have "alloc_inv a' \<and> s' + n' = s + n \<and> 0 < n' \<and> {s'..<s' + n'} \<inter> free_set a' = {}
    \<and> free_set a' \<union> {s'..<s' + n'} = free_set a \<union> {s..<s + n} \<and> (\<forall>p m. (p, m) \<in> extents a' \<longrightarrow> p + m \<noteq> s')
    \<and> total_blocks a' = total_blocks a \<and> extents a' \<subseteq> extents a
    \<and> protected a' = protected a \<and> previous_gen a' = previous_gen a \<and> deferred a' = deferred a"
  proof (cases "\<exists>p m. (p, m) \<in> extents a \<and> p + m = s")
    case True
    then obtain p m where x: "(p, m) \<in> extents a" "p + m = s" by blast
    then have "bt_below s (by_pos a) = Some (p, m)"
      using pred_extent [OF assms(1), of s p m] by (auto split: option.splits if_splits)
    then have out: "s' = p" "n' = n + m" "a' = remove_extent p m a" using assms(4) x(2) by (auto simp: join_left_def)
    note re = remove_extent_facts [OF assms(1) x(1)]
    have "{p..<s} \<subseteq> free_set a" using free_set_extent [OF x(1)] x(2) by simp
    then have "free_set a - {p..<s} \<union> {p..<s + n} = free_set a \<union> {s..<s + n}" using x(2) by auto
    moreover have "{p..<p + (n + m)} \<inter> (free_set a - {p..<s}) = {}"
    proof -
      have "{p..<p + (n + m)} = {p..<s} \<union> {s..<s + n}" using x(2) by auto
      then show ?thesis using assms(3) by blast
    qed
    moreover have "q + k \<noteq> p" if "(q, k) \<in> extents a" for q k using no_extent_ends [OF assms(1) x(1) that] .
    ultimately show ?thesis unfolding out re(2, 3) using re(1, 3) x(2) assms(2) by (auto simp: add.commute add.left_commute)
  next
    case False
    have "p + m \<noteq> s" if "bt_below s (by_pos a) = Some (p, m)" for p m
      using pred_extent [OF assms(1), of s p m] False that by auto
    then have "(s', n', a') = (s, n, a)"
      using assms(4) by (cases "bt_below s (by_pos a)") (auto simp: join_left_def)
    then show ?thesis using False assms by auto
  qed
  then show "alloc_inv a'" "s' + n' = s + n" "0 < n'" "{s'..<s' + n'} \<inter> free_set a' = {}"
    "free_set a' \<union> {s'..<s' + n'} = free_set a \<union> {s..<s + n}" "(p, m) \<in> extents a' \<Longrightarrow> p + m \<noteq> s'"
    "total_blocks a' = total_blocks a" "extents a' \<subseteq> extents a"
    "protected a' = protected a" "previous_gen a' = previous_gen a" "deferred a' = deferred a"
    by blast+
qed

text \<open>Coalescing to the right, then inserting.\<close>

definition join_right :: "nat \<Rightarrow> nat \<Rightarrow> allocator \<Rightarrow> nat \<times> allocator" where
  "join_right s n a = (case map_of (by_pos a) (s + n) of
      Some m \<Rightarrow> (n + m, remove_extent (s + n) m a)
    | None \<Rightarrow> (n, a))"

lemma join_right_insert:
  assumes "alloc_inv a" "0 < n" "{s..<s + n} \<inter> free_set a = {}" "s + n \<le> total_blocks a"
    "\<And>p m. (p, m) \<in> extents a \<Longrightarrow> p + m \<noteq> s" "join_right s n a = (n', a')"
  shows "alloc_inv (insert_extent s n' a')" "free_set (insert_extent s n' a') = free_set a \<union> {s..<s + n}"
    "total_blocks a' = total_blocks a" "protected a' = protected a" "previous_gen a' = previous_gen a" "deferred a' = deferred a"
proof -
  have srt: "sorted_wrt (<) (map fst (by_pos a))" using alloc_invD(1) [OF assms(1)] .
  have "alloc_inv (insert_extent s n' a') \<and> free_set (insert_extent s n' a') = free_set a \<union> {s..<s + n}
    \<and> total_blocks a' = total_blocks a \<and> protected a' = protected a \<and> previous_gen a' = previous_gen a \<and> deferred a' = deferred a"
  proof (cases "map_of (by_pos a) (s + n)")
    case None
    then have out: "n' = n" "a' = a" using assms(6) by (auto simp: join_right_def)
    have "(s + n, m) \<notin> extents a" for m using bt_get [OF srt, of "s + n" m] None by simp
    then have "clear_of s n (extents a)" using assms(1-3, 5) by (intro clear_of_range) auto
    from insert_extent_facts [OF assms(1) this assms(2, 4)] show ?thesis unfolding out by simp
  next
    case (Some m)
    then have x: "(s + n, m) \<in> extents a" using bt_get [OF srt] by simp
    have out: "n' = n + m" "a' = remove_extent (s + n) m a" using assms(6) Some by (auto simp: join_right_def)
    note re = remove_extent_facts [OF assms(1) x]
    have sub: "{s + n..<s + n + m} \<subseteq> free_set a" by (rule free_set_extent [OF x])
    have "clear_of s (n + m) (extents (remove_extent (s + n) m a))"
    proof (rule clear_of_range [OF re(1)])
      show "{s..<s + (n + m)} \<inter> free_set (remove_extent (s + n) m a) = {}"
      proof -
        have "{s..<s + (n + m)} = {s..<s + n} \<union> {s + n..<s + n + m}" by auto
        then show ?thesis using assms(3) re(3) by blast
      qed
      show "p + k \<noteq> s" if "(p, k) \<in> extents (remove_extent (s + n) m a)" for p k
        using that assms(5) re(2) by blast
      show "(s + (n + m), k) \<notin> extents (remove_extent (s + n) m a)" for k
        using no_extent_ends [OF assms(1) _ x, of "s + (n + m)" k] re(2) by (auto simp: add.assoc)
    qed (use assms(2) in simp)
    from insert_extent_facts [OF re(1) this] have "alloc_inv (insert_extent s n' a')"
      "free_set (insert_extent s n' a') = free_set a - {s + n..<s + n + m} \<union> {s..<s + (n + m)}"
      unfolding out re(3) using assms(2) alloc_invD(5) [OF assms(1) x] by simp_all
    then show ?thesis using sub out by auto
  qed
  then show "alloc_inv (insert_extent s n' a')" "free_set (insert_extent s n' a') = free_set a \<union> {s..<s + n}"
    "total_blocks a' = total_blocks a" "protected a' = protected a" "previous_gen a' = previous_gen a" "deferred a' = deferred a"
    by blast+
qed

lemma free_eq:
  "free r a = (if run_count r = 0 then a
     else if is_protected a r then a\<lparr>deferred := deferred a @ [r]\<rparr>
     else case join_left (run_start r) (run_count r) a of (s, n, a1) \<Rightarrow>
       case join_right s n a1 of (n', a2) \<Rightarrow> insert_extent s n' a2)"
  unfolding free_def join_left_def join_right_def Let_def
  by (simp add: case_prod_unfold split: option.splits prod.splits if_splits)

lemma free_unprotected:
  assumes "alloc_inv a" "0 < run_count r" "run_end r \<le> total_blocks a" "blocks r \<inter> free_set a = {}" "\<not> is_protected a r"
  shows "alloc_inv (free r a)" "free_set (free r a) = free_set a \<union> blocks r" "total_blocks (free r a) = total_blocks a"
    "protected (free r a) = protected a" "previous_gen (free r a) = previous_gen a" "deferred (free r a) = deferred a"
proof -
  obtain s n a1 where l: "join_left (run_start r) (run_count r) a = (s, n, a1)" by (cases "join_left (run_start r) (run_count r) a")
  obtain n' a2 where r: "join_right s n a1 = (n', a2)" by (cases "join_right s n a1")
  have bl: "{run_start r..<run_start r + run_count r} = blocks r" by (simp add: blocks_def run_end_def)
  note L = join_left_facts [OF assms(1, 2) _ l, unfolded bl, OF assms(4)]
  have "s + n \<le> total_blocks a1" using L(2, 7) assms(3) by (simp add: run_end_def)
  note R = join_right_insert [OF L(1, 3, 4) this L(6) r]
  have f: "free r a = insert_extent s n' a2" using assms(2, 5) l r by (simp add: free_eq)
  show "alloc_inv (free r a)" "free_set (free r a) = free_set a \<union> blocks r" "total_blocks (free r a) = total_blocks a"
    "protected (free r a) = protected a" "previous_gen (free r a) = previous_gen a" "deferred (free r a) = deferred a"
    unfolding f using R L(5, 7, 9-11) by simp_all
qed

section \<open>Allocating\<close>

text \<open>The run comes from free blocks and from beyond the end of the file.\<close>

definition taken :: "allocator \<Rightarrow> run \<Rightarrow> allocator \<Rightarrow> bool" where
  "taken a r a' \<longleftrightarrow> alloc_inv a' \<and> 0 < run_count r \<and> blocks r \<inter> {..<total_blocks a} \<subseteq> free_set a
   \<and> free_set a' = free_set a - blocks r \<and> {..<total_blocks a'} = {..<total_blocks a} \<union> blocks r
   \<and> protected a' = protected a \<and> previous_gen a' = previous_gen a \<and> deferred a' = deferred a"

lemma free_set_bound: "alloc_inv a \<Longrightarrow> free_set a \<subseteq> {..<total_blocks a}"
  unfolding free_set_def ext_blocks_def using alloc_invD(5) by fastforce

lemma taken_tail:
  assumes "alloc_inv a" "0 < n"
  shows "taken a (Run (total_blocks a) n) (a\<lparr>total_blocks := total_blocks a + n\<rparr>)"
proof -
  have "alloc_inv (a\<lparr>total_blocks := total_blocks a + n\<rparr>)" by (rule alloc_inv_grow [OF assms(1)]) simp
  moreover have "free_set (a\<lparr>total_blocks := total_blocks a + n\<rparr>) = free_set a" by (simp add: free_set_def)
  moreover have "blocks (Run (total_blocks a) n) = {total_blocks a..<total_blocks a + n}" by (simp add: blocks_def run_end_def)
  moreover have "free_set a \<inter> {total_blocks a..<total_blocks a + n} = {}" using free_set_bound [OF assms(1)] by auto
  ultimately show ?thesis using assms(2) by (auto simp: taken_def)
qed

lemma taken_extent:
  assumes "alloc_inv a" "(s, c) \<in> extents a" "0 < n" "n \<le> c"
  shows "taken a (Run s n) (if n < c then insert_extent (s + n) (c - n) (remove_extent s c a) else remove_extent s c a)"
proof -
  have bl: "blocks (Run s n) = {s..<s + n}" by (simp add: blocks_def run_end_def)
  have sub: "{s..<s + n} \<subseteq> free_set a" using free_set_extent [OF assms(2)] assms(4) by auto
  then have tot: "{..<total_blocks a} = {..<total_blocks a} \<union> {s..<s + n}" using free_set_bound [OF assms(1)] by blast
  show ?thesis
  proof (cases "n < c")
    case True
    then show ?thesis
      using split_extent [OF assms(1-3) True] sub tot assms(3) unfolding taken_def bl by auto
  next
    case False
    then have "n = c" using assms(4) by simp
    then show ?thesis
      using remove_extent_facts [OF assms(1, 2)] sub tot assms(3) unfolding taken_def bl by auto
  qed
qed

lemma alloc_takes:
  assumes "alloc_inv a" "0 < n"
  obtains r a' where "alloc n a = Some (r, a')" "run_count r = n" "taken a r a'"
  using alloc_invD(2) [OF assms(1)]
proof (cases rule: bs_from_cases [where x = "(n, 0)"])
  case none
  then show thesis using assms that [OF _ _ taken_tail [OF assms]] by (simp add: alloc_def)
next
  case (some y)
  obtain c s where y: "y = (c, s)" by fastforce
  have x: "(s, c) \<in> extents a" using some(2) y alloc_invD(3) [OF assms(1)] by auto
  have nc: "n \<le> c" using some(3) y by (auto simp: less_eq_prod_def)
  note t = taken_extent [OF assms(1) x assms(2) nc]
  show thesis
    by (rule that [OF _ _ t]) (use assms(2) some(1) y nc in \<open>auto simp: alloc_def Let_def\<close>)
qed

lemma alloc_tail_takes:
  assumes "alloc_inv a" "0 < n"
  obtains r a' where "alloc_tail n a = Some (r, a')" "run_count r = n" "taken a r a'"
  using alloc_invD(1) [OF assms(1)]
proof (cases rule: bt_last_cases)
  case none
  then show thesis using assms that [OF _ _ taken_tail [OF assms]] by (simp add: alloc_tail_def)
next
  case (some s c)
  show thesis
  proof (cases "s + c = total_blocks a \<and> \<not> is_protected a (Run s (min n c))")
    case False
    then show thesis using assms some that [OF _ _ taken_tail [OF assms]] by (auto simp: alloc_tail_def)
  next
    case True
    show thesis
    proof (cases "n \<le> c")
      case le: True
      note t = taken_extent [OF assms(1) some(2) assms(2) le]
      have tot: "n = c \<Longrightarrow> s + n = total_blocks a" using True by simp
      show thesis
        by (rule that [OF _ _ t]) (use assms(2) some(1) True le tot in \<open>auto simp: alloc_tail_def Let_def remove_extent_def\<close>)
    next
      case gt: False
      let ?a = "(remove_extent s c a)\<lparr>total_blocks := s + n\<rparr>"
      note re = remove_extent_facts [OF assms(1) some(2)]
      have bl: "blocks (Run s n) = {s..<s + n}" by (simp add: blocks_def run_end_def)
      have inv: "alloc_inv ?a" by (rule alloc_inv_grow [OF re(1)]) (use gt True in simp)
      have sub: "{s..<s + c} \<subseteq> free_set a" by (rule free_set_extent [OF some(2)])
      have fs: "free_set ?a = free_set a - {s..<s + n}"
      proof -
        have "free_set ?a = free_set a - {s..<s + c}" using re(3) by (simp add: free_set_def)
        moreover have "free_set a \<subseteq> {..<s + c}" using free_set_bound [OF assms(1)] True by simp
        ultimately show ?thesis using gt by auto
      qed
      have "{s..<s + n} \<inter> {..<total_blocks a} = {s..<s + c}" "{..<s + n} = {..<total_blocks a} \<union> {s..<s + n}"
        using True gt by auto
      then have "taken a (Run s n) ?a" unfolding taken_def bl using inv fs assms(2) sub by simp
      then show thesis
        by (rule that [rotated 2]) (use assms(2) some(1) True gt in \<open>auto simp: alloc_tail_def Let_def\<close>)
    qed
  qed
qed

section \<open>A client of the allocator\<close>

text \<open>How many of the runs hold a block.\<close>

definition owners :: "nat \<Rightarrow> run list \<Rightarrow> nat" where
  "owners b rs = length (filter (\<lambda>r. b \<in> blocks r) rs)"

lemma owners_simps [simp]:
  "owners b [] = 0" "owners b (r # rs) = of_bool (b \<in> blocks r) + owners b rs"
  "owners b (rs @ qs) = owners b rs + owners b qs"
  by (simp_all add: owners_def)

lemma owners_remove1: "r \<in> set rs \<Longrightarrow> owners b rs = of_bool (b \<in> blocks r) + owners b (remove1 r rs)"
  by (induction rs) auto

lemma owners_pos: "r \<in> set rs \<Longrightarrow> b \<in> blocks r \<Longrightarrow> 0 < owners b rs"
  by (induction rs) auto

text \<open>Every block of the file is free, or belongs to exactly one of the runs.\<close>

definition tiles :: "allocator \<Rightarrow> run list \<Rightarrow> bool" where
  "tiles a rs \<longleftrightarrow> (\<forall>b. owners b rs + of_bool (b \<in> free_set a) = of_bool (b < total_blocks a))
     \<and> (\<forall>r\<in>set rs. 0 < run_count r)"

abbreviation roots :: "allocator \<Rightarrow> nat set" where
  "roots a \<equiv> ext_blocks (set (protected a) \<union> set (previous_gen a))"

definition guarded :: "allocator \<Rightarrow> bool" where
  "guarded a \<longleftrightarrow> gen_ok (protected a) \<and> gen_ok (previous_gen a) \<and> roots a \<subseteq> {..<total_blocks a} - free_set a"

definition alloc_wf :: "allocator \<Rightarrow> run list \<Rightarrow> bool" where
  "alloc_wf a live \<longleftrightarrow> alloc_inv a \<and> guarded a \<and> tiles a (live @ deferred a)"

inductive alloc_step :: "allocator \<times> run list \<Rightarrow> allocator \<times> run list \<Rightarrow> bool" where
  "alloc n a = Some (r, a') \<Longrightarrow> alloc_step (a, live) (a', r # live)"
| "alloc_tail n a = Some (r, a') \<Longrightarrow> alloc_step (a, live) (a', r # live)"
| "r \<in> set live \<Longrightarrow> alloc_step (a, live) (free r a, remove1 r live)"
| "set runs \<subseteq> set live \<Longrightarrow> alloc_step (a, live) (set_protected runs a, live)"
| "alloc_step (a, live) (release_previous a, live)"
| "alloc_step (a, live) (snd (truncate a), live)"

lemma tiles_block:
  assumes "tiles a rs" "r \<in> set rs"
  shows "blocks r \<inter> free_set a = {}" "blocks r \<subseteq> {..<total_blocks a}" "0 < run_count r" "run_end r \<le> total_blocks a"
proof -
  have "b \<notin> free_set a \<and> b < total_blocks a" if "b \<in> blocks r" for b
  proof -
    have "0 < owners b rs" by (rule owners_pos [OF assms(2) that])
    moreover have "owners b rs + of_bool (b \<in> free_set a) = of_bool (b < total_blocks a)"
      using assms(1) by (simp add: tiles_def)
    ultimately show ?thesis by (cases "b \<in> free_set a"; cases "b < total_blocks a") auto
  qed
  then show "blocks r \<inter> free_set a = {}" and bl: "blocks r \<subseteq> {..<total_blocks a}" by auto
  show "0 < run_count r" using assms by (simp add: tiles_def)
  then have "run_end r - 1 \<in> blocks r" by (auto simp: blocks_def run_end_def)
  then have "run_end r - 1 < total_blocks a" using bl by auto
  then show "run_end r \<le> total_blocks a" by simp
qed

lemma tiles_disjoint:
  assumes "tiles a rs" "r \<in> set rs" "q \<in> set rs" "r \<noteq> q"
  shows "blocks r \<inter> blocks q = {}"
proof (rule ccontr)
  assume "blocks r \<inter> blocks q \<noteq> {}"
  then obtain b where b: "b \<in> blocks r" "b \<in> blocks q" by blast
  have "owners b rs = 1 + owners b (remove1 r rs)" using owners_remove1 [OF assms(2), of b] b(1) by simp
  moreover have "0 < owners b (remove1 r rs)" by (rule owners_pos [of q]) (use assms(3, 4) b(2) in auto)
  moreover have "owners b rs + of_bool (b \<in> free_set a) = of_bool (b < total_blocks a)"
    using assms(1) by (simp add: tiles_def)
  then have "owners b rs \<le> 1" by (cases "b < total_blocks a") auto
  ultimately show False by simp
qed

lemma tiles_take:
  assumes "taken a r a'" "tiles a rs"
  shows "tiles a' (r # rs)"
  unfolding tiles_def
proof (intro conjI allI)
  fix b
  have "owners b rs + of_bool (b \<in> free_set a) = of_bool (b < total_blocks a)" using assms(2) by (simp add: tiles_def)
  moreover have "b \<in> free_set a' \<longleftrightarrow> b \<in> free_set a \<and> b \<notin> blocks r" using assms(1) by (simp add: taken_def)
  moreover have "b < total_blocks a' \<longleftrightarrow> b < total_blocks a \<or> b \<in> blocks r"
    using assms(1) by (auto simp: taken_def set_eq_iff)
  moreover have "b \<in> blocks r \<Longrightarrow> b < total_blocks a \<Longrightarrow> b \<in> free_set a" using assms(1) by (auto simp: taken_def)
  ultimately show "owners b (r # rs) + of_bool (b \<in> free_set a') = of_bool (b < total_blocks a')"
    by (cases "b \<in> blocks r"; cases "b < total_blocks a"; cases "b \<in> free_set a") auto
qed (use assms in \<open>auto simp: taken_def tiles_def\<close>)

lemma taken_wf:
  assumes "taken a r a'" "alloc_wf a live"
  shows "alloc_wf a' (r # live)" "blocks r \<inter> roots a = {}" "q \<in> set (live @ deferred a) \<Longrightarrow> blocks r \<inter> blocks q = {}"
proof -
  have sub: "blocks r \<inter> {..<total_blocks a} \<subseteq> free_set a" using assms(1) by (simp add: taken_def)
  have g: "roots a \<subseteq> {..<total_blocks a} - free_set a" using assms(2) by (simp add: alloc_wf_def guarded_def)
  show dis: "blocks r \<inter> roots a = {}" using sub g by blast
  have t: "tiles a' (r # live @ deferred a)" using tiles_take [OF assms(1)] assms(2) by (simp add: alloc_wf_def)
  have "guarded a'"
    using assms g dis unfolding guarded_def alloc_wf_def taken_def by auto
  with t assms(1) show "alloc_wf a' (r # live)" by (simp add: alloc_wf_def taken_def)
  show "blocks r \<inter> blocks q = {}" if "q \<in> set (live @ deferred a)"
    using tiles_block(1, 2) [OF _ that, of a] assms(2) sub unfolding alloc_wf_def by blast
qed

lemma is_protected_iff:
  assumes "guarded a" "0 < run_count r"
  shows "is_protected a r \<longleftrightarrow> blocks r \<inter> roots a \<noteq> {}"
  using covers_blocks [OF _ assms(2)] assms(1) unfolding is_protected_def guarded_def by auto

text \<open>Freeing one of the runs: it leaves the list, or moves to the deferred ones.\<close>

lemma free_run:
  assumes "alloc_inv a" "guarded a" "tiles a (rs @ deferred a @ r # qs)"
  shows "alloc_inv (free r a)" "guarded (free r a)" "tiles (free r a) (rs @ deferred (free r a) @ qs)"
proof -
  let ?all = "rs @ deferred a @ r # qs"
  note tb = tiles_block [OF assms(3), of r, simplified]
  have "alloc_inv (free r a) \<and> guarded (free r a) \<and> tiles (free r a) (rs @ deferred (free r a) @ qs)"
  proof (cases "is_protected a r")
    case True
    then have f: "free r a = a\<lparr>deferred := deferred a @ [r]\<rparr>" using tb(3) by (simp add: free_def)
    have "alloc_inv (free r a)" using assms(1) by (simp add: f alloc_inv_def)
    moreover have "free_set (free r a) = free_set a" by (simp add: f free_set_def)
    ultimately show ?thesis using assms(2, 3) by (auto simp: f guarded_def tiles_def)
  next
    case False
    note fu = free_unprotected [OF assms(1) tb(3, 4, 1) False]
    have "blocks r \<inter> roots a = {}" using False is_protected_iff [OF assms(2) tb(3)] by simp
    then have "guarded (free r a)" using assms(2) fu by (auto simp: guarded_def)
    moreover have "tiles (free r a) (rs @ deferred (free r a) @ qs)"
      unfolding tiles_def
    proof (intro conjI allI)
      fix b
      have "owners b ?all + of_bool (b \<in> free_set a) = of_bool (b < total_blocks a)" using assms(3) by (simp add: tiles_def)
      then show "owners b (rs @ deferred (free r a) @ qs) + of_bool (b \<in> free_set (free r a)) = of_bool (b < total_blocks (free r a))"
        using fu(2, 3, 6) tb(1) by (cases "b \<in> blocks r"; cases "b \<in> free_set a") auto
    qed (use assms(3) fu(6) in \<open>auto simp: tiles_def\<close>)
    ultimately show ?thesis using fu(1) by simp
  qed
  then show "alloc_inv (free r a)" "guarded (free r a)" "tiles (free r a) (rs @ deferred (free r a) @ qs)" by auto
qed

lemma retry_wf:
  assumes "alloc_inv a" "guarded a" "tiles a (live @ deferred a)"
  shows "alloc_wf (retry_pending a) live"
proof -
  have "alloc_wf (fold free qs c) live"
    if "alloc_inv c" "guarded c" "tiles c (live @ deferred c @ qs)" for c qs
    using that
  proof (induction qs arbitrary: c)
    case Nil
    then show ?case by (simp add: alloc_wf_def)
  next
    case (Cons r qs)
    note fr = free_run [OF Cons.prems]
    show ?case using Cons.IH [OF fr] by simp
  qed
  moreover have "alloc_inv (a\<lparr>deferred := []\<rparr>)" "guarded (a\<lparr>deferred := []\<rparr>)"
    "free_set (a\<lparr>deferred := []\<rparr>) = free_set a"
    using assms(1, 2) by (auto simp: alloc_inv_def guarded_def free_set_def)
  ultimately show ?thesis using assms(3) by (auto simp: retry_pending_def tiles_def)
qed

text \<open>Installing a generation of live runs.\<close>

lemma fold_bt_insert:
  assumes "sorted_wrt (<) (map fst m)" "\<forall>r\<in>set rs. \<forall>q\<in>set rs. run_start r = run_start q \<longrightarrow> r = q"
    "\<forall>r\<in>set rs. \<forall>x\<in>set m. fst x = run_start r \<longrightarrow> snd x = run_count r"
  shows "sorted_wrt (<) (map fst (fold (\<lambda>r m. bt_insert (run_start r) (run_count r) m) rs m))
    \<and> set (fold (\<lambda>r m. bt_insert (run_start r) (run_count r) m) rs m) = set m \<union> (\<lambda>r. (run_start r, run_count r)) ` set rs"
  using assms
proof (induction rs arbitrary: m)
  case (Cons r rs)
  let ?m = "bt_insert (run_start r) (run_count r) m"
  note bi = bt_insert_sorted [OF Cons.prems(1), of "run_start r" "run_count r"]
  have eq: "set ?m = insert (run_start r, run_count r) (set m)"
    unfolding bi(2) using Cons.prems(3) by (auto simp: prod_eq_iff)
  have "\<forall>q\<in>set rs. \<forall>x\<in>set ?m. fst x = run_start q \<longrightarrow> snd x = run_count q"
    unfolding eq using Cons.prems(2, 3) by fastforce
  with Cons.IH [OF bi(1)] Cons.prems(2) eq show ?case by auto
qed simp

lemma set_protected_wf:
  assumes "alloc_wf a live" "set runs \<subseteq> set live"
  shows "alloc_wf (set_protected runs a) live"
proof -
  let ?rs = "filter (\<lambda>r. 0 < run_count r) runs"
  define fresh where "fresh = fold (\<lambda>r m. bt_insert (run_start r) (run_count r) m) ?rs []"
  have t: "tiles a (live @ deferred a)" and g: "guarded a" "alloc_inv a" using assms(1) by (auto simp: alloc_wf_def)
  have in_live: "r \<in> set (live @ deferred a)" if "r \<in> set ?rs" for r using that assms(2) by auto
  have dis: "run_start r + run_count r \<le> run_start q \<or> run_start q + run_count q \<le> run_start r"
    if "r \<in> set ?rs" "q \<in> set ?rs" "r \<noteq> q" for r q
    using tiles_disjoint [OF t in_live [OF that(1)] in_live [OF that(2)] that(3)] that(1, 2)
      disjoint_sides [of "run_start r" "run_end r" "run_start q" "run_end q"] by (auto simp: blocks_def run_end_def)
  have "\<forall>r\<in>set ?rs. \<forall>q\<in>set ?rs. run_start r = run_start q \<longrightarrow> r = q" using dis by fastforce
  from fold_bt_insert [of "[]", OF _ this] have f: "sorted_wrt (<) (map fst fresh)"
    "set fresh = (\<lambda>r. (run_start r, run_count r)) ` set ?rs" by (simp_all add: fresh_def)
  have "apart (set fresh)"
    unfolding apart_def f(2)
  proof (intro conjI allI impI)
    fix s c s' c' assume "(s, c) \<in> (\<lambda>r. (run_start r, run_count r)) ` set ?rs"
      "(s', c') \<in> (\<lambda>r. (run_start r, run_count r)) ` set ?rs" "s < s'"
    then obtain r q where "r \<in> set ?rs" "q \<in> set ?rs" "s = run_start r" "c = run_count r" "s' = run_start q" by auto
    then show "s + c \<le> s'" using dis [of r q] \<open>s < s'\<close> by (cases "r = q") auto
  qed auto
  moreover have "ext_blocks (set fresh) \<subseteq> {..<total_blocks a} - free_set a"
  proof
    fix b assume "b \<in> ext_blocks (set fresh)"
    then obtain r where r: "r \<in> set ?rs" "b \<in> blocks r" unfolding f(2) ext_blocks_def by (auto simp: blocks_def run_end_def)
    then show "b \<in> {..<total_blocks a} - free_set a" using tiles_block(1, 2) [OF t in_live [OF r(1)]] by blast
  qed
  ultimately have "guarded (a\<lparr>protected := fresh, previous_gen := protected a\<rparr>)"
    using g(1) f(1) by (auto simp: guarded_def gen_ok_def free_set_def)
  moreover have "alloc_inv (a\<lparr>protected := fresh, previous_gen := protected a\<rparr>)" using g(2) by (simp add: alloc_inv_def)
  moreover have "tiles (a\<lparr>protected := fresh, previous_gen := protected a\<rparr>) (live @ deferred a)"
    using t by (simp add: tiles_def free_set_def)
  ultimately show ?thesis
    unfolding set_protected_def Let_def fresh_def [symmetric] by (intro retry_wf) simp_all
qed

lemma release_wf: "alloc_wf a live \<Longrightarrow> alloc_wf (release_previous a) live"
  unfolding release_previous_def
  by (rule retry_wf) (auto simp: alloc_wf_def guarded_def alloc_inv_def tiles_def free_set_def)

lemma truncate_wf:
  assumes "alloc_wf a live"
  shows "alloc_wf (snd (truncate a)) live"
proof -
  have inv: "alloc_inv a" and g: "guarded a" and t: "tiles a (live @ deferred a)" using assms by (auto simp: alloc_wf_def)
  from alloc_invD(1) [OF inv] show ?thesis
  proof (cases rule: bt_last_cases)
    case none
    then show ?thesis using assms by (simp add: truncate_def)
  next
    case (some s c)
    show ?thesis
    proof (cases "s + c = total_blocks a")
      case False
      then show ?thesis using assms some by (simp add: truncate_def)
    next
      case True
      let ?a = "(remove_extent s c a)\<lparr>total_blocks := s\<rparr>"
      note re = remove_extent_facts [OF inv some(2)]
      have out: "snd (truncate a) = ?a" using some(1) True by (simp add: truncate_def)
      have "p + m \<le> s" if "(p, m) \<in> extents a" "(p, m) \<noteq> (s, c)" for p m
      proof (cases "p = s")
        case True
        then show ?thesis using separatedD(3) [OF alloc_invD(4) [OF inv] some(2)] that by auto
      next
        case False
        then have "p < s" using some(3) that(1) by fastforce
        from separatedD(2) [OF alloc_invD(4) [OF inv] that(1) some(2) this] show ?thesis by simp
      qed
      then have inv': "alloc_inv ?a" using re(1, 2) unfolding alloc_inv_def by auto
      have fs: "free_set ?a = free_set a - {s..<total_blocks a}" using re(3) True by (simp add: free_set_def)
      have sub: "{s..<total_blocks a} \<subseteq> free_set a" using free_set_extent [OF some(2)] True by simp
      have "tiles ?a (live @ deferred ?a)"
        unfolding tiles_def fs
      proof (intro conjI allI)
        fix b
        have "owners b (live @ deferred a) + of_bool (b \<in> free_set a) = of_bool (b < total_blocks a)"
          using t by (simp add: tiles_def)
        moreover have "s \<le> b \<Longrightarrow> b < total_blocks a \<Longrightarrow> b \<in> free_set a" using sub by auto
        moreover have "b \<in> free_set a \<Longrightarrow> b < total_blocks a" using free_set_bound [OF inv] by auto
        moreover have "s \<le> total_blocks a" using True by simp
        ultimately show "owners b (live @ deferred ?a) + of_bool (b \<in> free_set a - {s..<total_blocks a}) = of_bool (b < total_blocks ?a)"
          by (cases "b < s"; cases "b \<in> free_set a") auto
      qed (use t in \<open>auto simp: tiles_def\<close>)
      moreover have "roots ?a \<subseteq> {..<total_blocks ?a} - free_set ?a"
      proof -
        have "roots a \<subseteq> {..<total_blocks a} - free_set a" using g by (simp add: guarded_def)
        moreover have "{..<total_blocks a} = {..<s} \<union> {s..<total_blocks a}" using True by auto
        then have "{..<total_blocks a} - free_set a \<subseteq> {..<s} - free_set ?a" using sub fs by blast
        ultimately have "roots a \<subseteq> {..<s} - free_set ?a" by (rule order_trans)
        then show ?thesis by simp
      qed
      then have "guarded ?a" using g by (simp add: guarded_def)
      ultimately show ?thesis using inv' unfolding out alloc_wf_def by simp
    qed
  qed
qed

lemma alloc_step_wf: "alloc_step (a, live) (a', live') \<Longrightarrow> alloc_wf a live \<Longrightarrow> alloc_wf a' live'"
proof (induction "(a, live)" "(a', live')" rule: alloc_step.induct)
  case (1 n r)
  then have "0 < n" "alloc_inv a" by (auto simp: alloc_def alloc_wf_def split: if_splits)
  with 1 show ?case by (metis alloc_takes option.inject prod.inject taken_wf(1))
next
  case (2 n r)
  then have "0 < n" "alloc_inv a" by (auto simp: alloc_tail_def alloc_wf_def split: if_splits)
  with 2 show ?case by (metis alloc_tail_takes option.inject prod.inject taken_wf(1))
next
  case (3 r)
  have "tiles a (remove1 r live @ deferred a @ [r])"
    using 3 owners_remove1 [OF 3(1)] set_remove1_subset [of r live]
    by (auto simp: alloc_wf_def tiles_def add.assoc add.left_commute add.commute)
  from free_run [OF _ _ this] 3 show ?case by (simp add: alloc_wf_def)
next
  case (4 runs)
  from set_protected_wf [OF 4(4) 4(1)] 4(2, 3) show ?case by simp
next
  case 5
  from release_wf [OF 5(3)] 5(1, 2) show ?case by simp
next
  case 6
  from truncate_wf [OF 6(3)] 6(1, 2) show ?case by simp
qed

section \<open>Rebuilding from a layout\<close>

lemma owners_sort [simp]: "owners b (sort_key f rs) = owners b rs"
  by (simp add: owners_def filter_sort)

lemma disjoint_sorted:
  assumes "sorted (map run_start rs)" "\<And>b. owners b rs \<le> 1" "\<forall>r\<in>set rs. 0 < run_count r"
  shows "sorted_wrt (\<lambda>r q. run_end r \<le> run_start q) rs"
  using assms
proof (induction rs)
  case (Cons r rs)
  have "run_end r \<le> run_start q" if q: "q \<in> set rs" for q
  proof (rule ccontr)
    assume "\<not> run_end r \<le> run_start q"
    then have "run_start q \<in> blocks r" "run_start q \<in> blocks q"
      using Cons.prems(1, 3) q by (auto simp: blocks_def run_end_def)
    with owners_pos [OF q, of "run_start q"] Cons.prems(2) [of "run_start q"] show False by simp
  qed
  moreover have "owners b rs \<le> 1" for b using Cons.prems(2) [of b] by simp
  ultimately show ?case using Cons by simp
qed simp

definition layout_at :: "run list \<Rightarrow> allocator \<Rightarrow> nat \<Rightarrow> bool" where
  "layout_at done a cursor \<longleftrightarrow> alloc_inv a \<and> (\<forall>p m. (p, m) \<in> extents a \<longrightarrow> p + m < cursor) \<and> cursor \<le> total_blocks a
     \<and> (\<forall>b. owners b done + of_bool (b \<in> free_set a) = of_bool (b < cursor))"

lemma layout_gap:
  assumes "layout_at done a cursor" "cursor < stop" "stop \<le> total_blocks a"
  shows "alloc_inv (insert_extent cursor (stop - cursor) a)"
    "free_set (insert_extent cursor (stop - cursor) a) = free_set a \<union> {cursor..<stop}"
    "extents (insert_extent cursor (stop - cursor) a) = insert (cursor, stop - cursor) (extents a)"
proof -
  have "clear_of cursor (stop - cursor) (extents a)" using assms(1) by (auto simp: layout_at_def clear_of_def)
  from insert_extent_facts [OF _ this] assms show "alloc_inv (insert_extent cursor (stop - cursor) a)"
    "free_set (insert_extent cursor (stop - cursor) a) = free_set a \<union> {cursor..<stop}"
    "extents (insert_extent cursor (stop - cursor) a) = insert (cursor, stop - cursor) (extents a)"
    by (auto simp: layout_at_def)
qed

lemma layout_run:
  assumes "layout_at done a cursor" "0 < run_count r" "cursor \<le> run_start r" "run_end r \<le> total_blocks a"
  shows "layout_at (r # done) (if cursor < run_start r then insert_extent cursor (run_start r - cursor) a else a) (run_end r)"
proof (cases "cursor < run_start r")
  case True
  have "run_start r \<le> total_blocks a" using assms(4) by (simp add: run_end_def)
  note gap = layout_gap [OF assms(1) True this]
  have "owners b (r # done) + of_bool (b \<in> free_set a \<union> {cursor..<run_start r}) = of_bool (b < run_end r)" for b
  proof -
    have "owners b done + of_bool (b \<in> free_set a) = of_bool (b < cursor)" using assms(1) by (simp add: layout_at_def)
    then show ?thesis
      using True assms(2) by (cases "b < cursor"; cases "b < run_start r"; cases "b \<in> free_set a") (auto simp: blocks_def run_end_def)
  qed
  moreover have "p + m < run_end r" if "(p, m) \<in> insert (cursor, run_start r - cursor) (extents a)" for p m
    using that assms True by (fastforce simp: layout_at_def run_end_def)
  ultimately show ?thesis using True gap assms(4) by (simp add: layout_at_def)
next
  case False
  then have eq: "cursor = run_start r" using assms(3) by simp
  have "owners b (r # done) + of_bool (b \<in> free_set a) = of_bool (b < run_end r)" for b
  proof -
    have "owners b done + of_bool (b \<in> free_set a) = of_bool (b < cursor)" using assms(1) by (simp add: layout_at_def)
    then show ?thesis using eq by (cases "b < cursor"; cases "b \<in> free_set a") (auto simp: blocks_def run_end_def)
  qed
  moreover have "p + m < run_end r" if "(p, m) \<in> extents a" for p m
  proof -
    have "p + m < cursor" using assms(1) that by (simp add: layout_at_def)
    then show ?thesis using eq by (simp add: run_end_def)
  qed
  ultimately show ?thesis using False assms(1, 4) by (auto simp: layout_at_def)
qed

lemma layout_fold:
  assumes "layout_at done a cursor" "sorted_wrt (\<lambda>r q. run_end r \<le> run_start q) rs"
    "\<forall>r\<in>set rs. 0 < run_count r \<and> cursor \<le> run_start r \<and> run_end r \<le> total_blocks a"
    "fold (\<lambda>r (a, cursor). (if cursor < run_start r then insert_extent cursor (run_start r - cursor) a else a, run_end r)) rs (a, cursor) = (a', cursor')"
  shows "\<exists>dn. layout_at dn a' cursor' \<and> (\<forall>b. owners b dn = owners b (done @ rs)) \<and> total_blocks a' = total_blocks a
    \<and> protected a' = protected a \<and> previous_gen a' = previous_gen a \<and> deferred a' = deferred a"
  using assms
proof (induction rs arbitrary: "done" a cursor)
  case Nil
  then show ?case by auto
next
  case (Cons r rs)
  let ?a = "if cursor < run_start r then insert_extent cursor (run_start r - cursor) a else a"
  have l: "layout_at (r # done) ?a (run_end r)" by (rule layout_run) (use Cons.prems in auto)
  have "\<exists>dn. layout_at dn a' cursor' \<and> (\<forall>b. owners b dn = owners b ((r # done) @ rs)) \<and> total_blocks a' = total_blocks ?a
    \<and> protected a' = protected ?a \<and> previous_gen a' = previous_gen ?a \<and> deferred a' = deferred ?a"
    by (rule Cons.IH [OF l]) (use Cons.prems in auto)
  then show ?case by (auto simp: add.assoc add.left_commute)
qed

lemma from_layout_wf:
  assumes "\<And>b. owners b used \<le> 1" "\<forall>r\<in>set used. run_end r \<le> n"
  shows "alloc_wf (from_layout n used) (filter (\<lambda>r. 0 < run_count r) used)" "total_blocks (from_layout n used) = n"
    "protected (from_layout n used) = []"
proof -
  let ?used = "filter (\<lambda>r. 0 < run_count r) used"
  let ?rs = "sort_key run_start ?used" and ?a = "alloc_new\<lparr>total_blocks := n\<rparr>"
  have own: "owners b ?used = owners b used" for b
    unfolding owners_def by (induction used) (auto simp: blocks_def run_end_def)
  obtain a' cursor' where f: "fold (\<lambda>r (a, cursor). (if cursor < run_start r then insert_extent cursor (run_start r - cursor) a else a, run_end r)) ?rs (?a, 0) = (a', cursor')"
    by fastforce
  have l0: "layout_at [] ?a 0"
    by (simp add: layout_at_def alloc_inv_def alloc_new_def separated_def free_set_def)
  have srt: "sorted_wrt (\<lambda>r q. run_end r \<le> run_start q) ?rs"
    by (rule disjoint_sorted) (use assms(1) own in auto)
  from layout_fold [OF l0 srt _ f] assms(2) obtain dn where
    L: "layout_at dn a' cursor'" "\<forall>b. owners b dn = owners b used" "total_blocks a' = n"
      "protected a' = []" "previous_gen a' = []" "deferred a' = []"
    using own by (auto simp: alloc_new_def)
  let ?out = "if cursor' < n then insert_extent cursor' (n - cursor') a' else a'"
  have out: "from_layout n used = ?out" using f by (simp add: from_layout_def)
  have "alloc_inv ?out \<and> tiles ?out ?used"
  proof (cases "cursor' < n")
    case True
    note gap = layout_gap [OF L(1) True] 
    have "owners b ?used + of_bool (b \<in> free_set a' \<union> {cursor'..<n}) = of_bool (b < n)" for b
    proof -
      have "owners b ?used + of_bool (b \<in> free_set a') = of_bool (b < cursor')" using L(1, 2) own by (simp add: layout_at_def)
      then show ?thesis using True by (cases "b < cursor'"; cases "b \<in> free_set a'") auto
    qed
    then show ?thesis using gap L(3) True by (simp add: tiles_def)
  next
    case False
    then have "cursor' = n" using L(1, 3) by (simp add: layout_at_def)
    then show ?thesis using L own by (simp add: layout_at_def tiles_def)
  qed
  then show "alloc_wf (from_layout n used) ?used" "total_blocks (from_layout n used) = n" "protected (from_layout n used) = []"
    unfolding out using L by (auto simp: alloc_wf_def guarded_def)
qed

section \<open>Reachable states\<close>

text \<open>A client starts from an empty file or from a recovered layout.\<close>

inductive alloc_reach :: "allocator \<Rightarrow> run list \<Rightarrow> bool" where
  fresh: "alloc_reach alloc_new []"
| recovered: "(\<forall>b. owners b used \<le> 1) \<Longrightarrow> (\<forall>r\<in>set used. run_end r \<le> n) \<Longrightarrow>
    alloc_reach (from_layout n used) (filter (\<lambda>r. 0 < run_count r) used)"
| step: "alloc_reach a live \<Longrightarrow> alloc_step (a, live) (a', live') \<Longrightarrow> alloc_reach a' live'"

lemma alloc_reach_wf: "alloc_reach a live \<Longrightarrow> alloc_wf a live"
proof (induction rule: alloc_reach.induct)
  case fresh
  show ?case
    by (simp add: alloc_wf_def alloc_inv_def alloc_new_def separated_def guarded_def tiles_def free_set_def)
next
  case (recovered used n)
  then show ?case by (intro from_layout_wf(1)) auto
next
  case (step a live a' live')
  then show ?case using alloc_step_wf by blast
qed

section \<open>Descriptors\<close>

lemma mask_values: "START_MASK = mask 40" "COUNT_MASK = mask 20" "OCC_MASK = mask 4"
  by (simp_all add: START_MASK_def COUNT_MASK_def OCC_MASK_def mask_eq_exp_minus_1 push_bit_eq_mult)

lemma desc_unpack:
  "desc_start (desc_new s c occ) = s AND START_MASK" "desc_count (desc_new s c occ) = c AND COUNT_MASK"
  "desc_occupation (desc_new s c occ) = occ AND mask 4"
  unfolding desc_start_def desc_count_def desc_occupation_def desc_new_def mask_values block_descriptor.sel
  by (rule bit_word_eqI, auto simp: bit_simps)+

lemma word_and_mask_small: "unat (w :: 'a::len word) < 2 ^ n \<Longrightarrow> w AND mask n = w"
  by (metis take_bit_eq_mask take_bit_nat_eq_self unsigned_take_bit_eq word_unat_eq_iff)

interpretation wdesc: wave_wire wire_descriptor "\<lambda>_. True"
  using wire_struct_ok [OF wu64.wave_wire_axioms, of BlockDescriptor desc_raw] by (simp add: wire_descriptor_def)

section \<open>Properties\<close>

text \<open>C17: In every state a client of the allocator can reach, each block of the file is either free or held by
  exactly one live or deferred run, blocks beyond the end are neither, and the free extents are maximal:
  none ends where another begins.\<close>

theorem allocator_partition:
  assumes "alloc_reach a live"
  shows "(\<forall>b. owners b (live @ deferred a) + of_bool (b \<in> free_set a) = of_bool (b < total_blocks a))
    \<and> (\<forall>s c s' c'. (s, c) \<in> extents a \<and> (s', c') \<in> extents a \<longrightarrow> s + c \<noteq> s')"
  using alloc_reach_wf [OF assms] no_extent_ends unfolding alloc_wf_def tiles_def by blast

text \<open>An example state: three runs allocated, the middle one protected and then freed.\<close>

definition demo_alloc :: allocator where
  "demo_alloc = \<lparr>by_pos = [], by_size = [], total_blocks = 6, protected = [(1, 2)], previous_gen = [], deferred = [Run 1 2]\<rparr>"

lemma demo_reach: "alloc_reach demo_alloc [Run 3 3, Run 0 1]"
proof -
  let ?a = "\<lambda>n. alloc_new\<lparr>total_blocks := n\<rparr>"
  have "alloc_step (alloc_new, []) (?a 1, [Run 0 1])"
    by (rule alloc_step.intros(1) [of 1]) (simp add: alloc_def alloc_new_def bs_from_def)
  moreover have "alloc_step (?a 1, [Run 0 1]) (?a 3, [Run 1 2, Run 0 1])"
    by (rule alloc_step.intros(1) [of 2]) (simp add: alloc_def alloc_new_def bs_from_def)
  moreover have "alloc_step (?a 3, [Run 1 2, Run 0 1]) (?a 6, [Run 3 3, Run 1 2, Run 0 1])"
    by (rule alloc_step.intros(2) [of 3]) (simp add: alloc_tail_def alloc_new_def bt_last_def)
  moreover have "alloc_step (?a 6, [Run 3 3, Run 1 2, Run 0 1]) (?a 6\<lparr>protected := [(1, 2)]\<rparr>, [Run 3 3, Run 1 2, Run 0 1])"
    using alloc_step.intros(4) [of "[Run 1 2]" "[Run 3 3, Run 1 2, Run 0 1]" "?a 6"]
    by (simp add: set_protected_def retry_pending_def alloc_new_def bt_insert_def)
  moreover have "alloc_step (?a 6\<lparr>protected := [(1, 2)]\<rparr>, [Run 3 3, Run 1 2, Run 0 1]) (demo_alloc, [Run 3 3, Run 0 1])"
    using alloc_step.intros(3) [of "Run 1 2" "[Run 3 3, Run 1 2, Run 0 1]" "?a 6\<lparr>protected := [(1, 2)]\<rparr>"]
    by (simp add: free_def is_protected_def covers_def bt_below_def bt_last_def run_end_def alloc_new_def demo_alloc_def)
  ultimately show ?thesis by (meson alloc_reach.intros)
qed

theorem allocator_partition_witness:
  "owners 2 [Run 3 3, Run 0 1, Run 1 2] = 1 \<and> free_set demo_alloc = {}"
  using allocator_partition [OF demo_reach]
  by (simp add: demo_alloc_def blocks_def run_end_def free_set_def)

text \<open>C18: In every reachable state, a run handed out by \<open>alloc\<close> or \<open>alloc_tail\<close> shares no block with
  a run either recovery generation names, with a live run or with a deferred one; so a crash can reopen
  from either root.\<close>

theorem alloc_spares_recovery_roots:
  assumes "alloc_reach a live" "alloc n a = Some (r, a') \<or> alloc_tail n a = Some (r, a')"
  shows "blocks r \<inter> ext_blocks (set (protected a) \<union> set (previous_gen a)) = {}
    \<and> (\<forall>q\<in>set (live @ deferred a). blocks r \<inter> blocks q = {})"
proof -
  have wf: "alloc_wf a live" by (rule alloc_reach_wf [OF assms(1)])
  have "0 < n" "alloc_inv a" using assms(2) wf by (auto simp: alloc_def alloc_tail_def alloc_wf_def split: if_splits)
  then have "taken a r a'"
    using assms(2) by (metis alloc_takes alloc_tail_takes option.inject prod.inject)
  from taken_wf(2, 3) [OF this wf] show ?thesis by blast
qed

theorem alloc_spares_recovery_roots_witness:
  "blocks (Run 6 2) \<inter> {1..<3} = {} \<and> blocks (Run 6 2) \<inter> blocks (Run 3 3) = {}"
proof -
  have "alloc 2 demo_alloc = Some (Run 6 2, demo_alloc\<lparr>total_blocks := 8\<rparr>)"
    by (simp add: alloc_def demo_alloc_def bs_from_def)
  from alloc_spares_recovery_roots [OF demo_reach disjI1 [OF this]] show ?thesis
    by (simp add: demo_alloc_def numeral_3_eq_3)
qed

text \<open>C19: Allocation is best fit with ties broken by position: the run is the front of a free extent that is
  large enough, smaller than any other that is or of the same size at a lower address; what is left of
  that extent stays free, no other extent changes and the file does not grow.  Only when no extent is large
  enough is the run put at the end of the file.\<close>

theorem alloc_best_fit:
  assumes "alloc_reach a live" "0 < n"
  shows "(\<exists>s c a'. (s, c) \<in> extents a \<and> n \<le> c \<and> alloc n a = Some (Run s n, a')
      \<and> (\<forall>s' c'. (s', c') \<in> extents a \<and> n \<le> c' \<longrightarrow> c < c' \<or> c = c' \<and> s \<le> s')
      \<and> extents a' = (extents a - {(s, c)}) \<union> (if n < c then {(s + n, c - n)} else {}) \<and> total_blocks a' = total_blocks a)
    \<or> (\<forall>s c. (s, c) \<in> extents a \<longrightarrow> c < n) \<and> alloc n a = Some (Run (total_blocks a) n, a\<lparr>total_blocks := total_blocks a + n\<rparr>)"
proof -
  have inv: "alloc_inv a" using alloc_reach_wf [OF assms(1)] by (simp add: alloc_wf_def)
  have mem: "(c, s) \<in> set (by_size a) \<longleftrightarrow> (s, c) \<in> extents a" for s c
    using alloc_invD(3) [OF inv] by auto
  from alloc_invD(2) [OF inv] show ?thesis
  proof (cases rule: bs_from_cases [where x = "(n, 0)"])
    case none
    then have "\<forall>s c. (s, c) \<in> extents a \<longrightarrow> c < n" using mem by (fastforce simp: less_prod_simp)
    then show ?thesis using none(1) assms(2) by (simp add: alloc_def)
  next
    case (some y)
    obtain c s where y: "y = (c, s)" by fastforce
    have nc: "n \<le> c" using some(3) y by (auto simp: less_eq_prod_def)
    have x: "(s, c) \<in> extents a" using mem some(2) y by blast
    define a' where "a' = (if n < c then insert_extent (s + n) (c - n) (remove_extent s c a) else remove_extent s c a)"
    have "c < c' \<or> c = c' \<and> s \<le> s'" if "(s', c') \<in> extents a" "n \<le> c'" for s' c'
    proof -
      have "(n, 0) \<le> (c', s')" using that(2) by (auto simp: less_eq_prod_def)
      then have "(c, s) \<le> (c', s')" using some(4) mem that(1) y by blast
      then show ?thesis by (auto simp: less_eq_prod_def)
    qed
    moreover have "alloc n a = Some (Run s n, a')"
      using some(1) y assms(2) by (simp add: alloc_def Let_def a'_def)
    moreover have "extents a' = (extents a - {(s, c)}) \<union> (if n < c then {(s + n, c - n)} else {})"
      using split_extent(3) [OF inv x assms(2)] remove_extent_facts(2) [OF inv x] by (simp add: a'_def)
    moreover have "total_blocks a' = total_blocks a" by (simp add: a'_def)
    ultimately show ?thesis using x nc by blast
  qed
qed

text \<open>Three holes, of three blocks and twice of two: one block comes from the first of the smaller two.\<close>

definition demo_holes :: allocator where
  "demo_holes = from_layout 15 [Run 0 2, Run 5 1, Run 8 2, Run 12 3]"

lemma demo_holes_reach: "alloc_reach demo_holes [Run 0 2, Run 5 1, Run 8 2, Run 12 3]"
  using alloc_reach.recovered [of "[Run 0 2, Run 5 1, Run 8 2, Run 12 3]" 15]
  by (simp add: demo_holes_def blocks_def run_end_def)

lemma demo_holes_pos: "by_pos demo_holes = [(2, 3), (6, 2), (10, 2)]"
  by code_simp

theorem alloc_best_fit_witness:
  "\<exists>a'. alloc 1 demo_holes = Some (Run 6 1, a') \<and> extents a' = {(2, 3), (7, 1), (10, 2)}"
proof -
  have "\<not> (\<forall>s c. (s, c) \<in> extents demo_holes \<longrightarrow> c < 1)" by (auto simp: demo_holes_pos)
  with alloc_best_fit [OF demo_holes_reach, of 1] obtain s c a' where
    x: "(s, c) \<in> extents demo_holes" "alloc 1 demo_holes = Some (Run s 1, a')"
      "extents a' = (extents demo_holes - {(s, c)}) \<union> (if 1 < c then {(s + 1, c - 1)} else {})"
    and best: "\<forall>s' c'. (s', c') \<in> extents demo_holes \<and> 1 \<le> c' \<longrightarrow> c < c' \<or> c = c' \<and> s \<le> s'" by auto
  have sc: "s = 6" "c = 2" using x(1) best [rule_format, of 6 2] by (auto simp: demo_holes_pos)
  have "extents a' = {(2, 3), (7, 1), (10, 2)}"
    using x(3) unfolding sc demo_holes_pos by (simp add: insert_Diff_if insert_commute)
  with x(2) show ?thesis unfolding sc by blast
qed

text \<open>C20: A descriptor unpacks to the start, count and occupation it was packed from, and reads back from the
  wire.\<close>

theorem descriptor_roundtrip:
  assumes "unat s < 2 ^ 40" "unat c < 2 ^ 20" "unat occ < 2 ^ 4"
  shows "desc_start (desc_new s c occ) = s \<and> desc_count (desc_new s c occ) = c \<and> desc_occupation (desc_new s c occ) = occ
    \<and> desc_run (with_occupation occ' (desc_new s c occ)) = Run (unat s) (unat c)
    \<and> from_wire wire_descriptor (to_wire wire_descriptor (desc_new s c occ)) = Ok (desc_new s c occ)"
proof -
  have "s AND START_MASK = s" "c AND COUNT_MASK = c" "occ AND mask 4 = occ"
    using assms by (simp_all add: mask_values word_and_mask_small)
  then show ?thesis
    using wdesc.from_wire_to_wire [of "desc_new s c occ"] by (simp add: desc_unpack with_occupation_def desc_run_def)
qed

theorem descriptor_roundtrip_witness:
  "desc_run (with_occupation 12 (desc_new 100 8 3)) = Run 100 8"
  using descriptor_roundtrip [of 100 8 3 12] by simp

end
