(* ===== verification/Block_File.thy ===== *)
theory Block_File
  imports Page Alloc_Laws
begin

text \<open>
  \<open>data.bin\<close> as an array of blocks (\<open>wavedb-storage/src/block_file.rs\<close>) and the page cache in front of
  it (\<open>page_cache.rs\<close>).

  The file is its bytes, with the bytes its last \<open>sync_all\<close> made durable.  System calls do not fault,
  the random seed of a new file is an argument, and the I/O counters are left out.
\<close>

section \<open>The page cache\<close>

record page_cache =
  pc_pages :: "(nat \<times> nat \<times> byte list) list" \<comment> \<open>first block, blocks, image\<close>
  pc_fifo :: "nat list"
  pc_bytes :: nat
  pc_budget :: nat

definition pc_new :: "nat \<Rightarrow> page_cache" where
  "pc_new budget = \<lparr>pc_pages = [], pc_fifo = [], pc_bytes = 0, pc_budget = budget\<rparr>"

definition pc_get :: "run \<Rightarrow> page_cache \<Rightarrow> byte list option" where
  "pc_get r c = (case map_of (pc_pages c) (run_start r) of
      Some (n, bytes) \<Rightarrow> if n = run_count r then Some bytes else None
    | None \<Rightarrow> None)"

definition drop_at :: "nat \<Rightarrow> page_cache \<Rightarrow> page_cache" where
  "drop_at start c = (case map_of (pc_pages c) start of
      None \<Rightarrow> c
    | Some (_, old) \<Rightarrow> c\<lparr>pc_pages := bt_remove start (pc_pages c), pc_bytes := pc_bytes c - length old\<rparr>)"

text \<open>The eviction loop of \<open>insert\<close>.\<close>

function pc_evict :: "page_cache \<Rightarrow> page_cache" where
  "pc_evict c = (if pc_budget c < pc_bytes c
     then case pc_fifo c of [] \<Rightarrow> c | oldest # rest \<Rightarrow> pc_evict (drop_at oldest (c\<lparr>pc_fifo := rest\<rparr>))
     else c)"
  by pat_completeness auto
termination
  by (relation "measure (\<lambda>c. length (pc_fifo c))") (auto simp: drop_at_def split: option.splits)

declare pc_evict.simps [simp del]

definition pc_insert :: "run \<Rightarrow> byte list \<Rightarrow> page_cache \<Rightarrow> page_cache" where
  "pc_insert r bytes c =
     (if pc_budget c = 0 \<or> pc_budget c < length bytes then c
      else let c1 = drop_at (run_start r) c
           in pc_evict (c1\<lparr>pc_bytes := pc_bytes c1 + length bytes,
                           pc_pages := bt_insert (run_start r) (run_count r, bytes) (pc_pages c1),
                           pc_fifo := pc_fifo c1 @ [run_start r]\<rparr>))"

text \<open>Entries below the end of the run, from the last down, while they reach into it.\<close>

definition pc_doomed :: "run \<Rightarrow> page_cache \<Rightarrow> nat list" where
  "pc_doomed r c = map fst (takeWhile (\<lambda>(start, n, _). run_start r < start + n)
     (rev (filter (\<lambda>(start, _). start < run_end r) (pc_pages c))))"

definition pc_invalidate :: "run \<Rightarrow> page_cache \<Rightarrow> page_cache" where
  "pc_invalidate r c = fold drop_at (pc_doomed r c) c"

definition pc_clear :: "page_cache \<Rightarrow> page_cache" where
  "pc_clear c = c\<lparr>pc_pages := [], pc_fifo := [], pc_bytes := 0\<rparr>"

section \<open>The block file\<close>

abbreviation RESERVED_BLOCKS :: nat where "RESERVED_BLOCKS \<equiv> 1"
abbreviation FORMAT_VERSION :: u32 where "FORMAT_VERSION \<equiv> 1"

definition MAGIC :: "byte list" where
  "MAGIC = [0x57, 0x41, 0x56, 0x45, 0x44, 0x42, 0x49, 0x4E]"

datatype superblock_body = SuperblockBody (sb_version: u32) (sb_seed: "u64 list")

definition wire_superblock :: "superblock_body wire" where
  "wire_superblock = wire_struct (\<lambda>b. (sb_version b, sb_seed b)) (\<lambda>(v, s). SuperblockBody v s)
     (wire_tuple2 wire_u32 (wire_array 4 wire_u64))"

abbreviation BODY_CHECKED_LEN :: nat where "BODY_CHECKED_LEN \<equiv> 40"

record block_file =
  bf_bytes :: "byte list"
  bf_durable :: "byte list"
  bf_seed :: seed
  bf_cache :: page_cache

definition seed_list :: "seed \<Rightarrow> u64 list" where
  "seed_list = (\<lambda>(a, b, c, d). [a, b, c, d])"

fun seed_of :: "u64 list \<Rightarrow> seed" where
  "seed_of [a, b, c, d] = (a, b, c, d)"
| "seed_of _ = (0, 0, 0, 0)" \<comment> \<open>not reached: the array has four elements\<close>

definition set_file_len :: "nat \<Rightarrow> byte list \<Rightarrow> byte list" where
  "set_file_len n bs = take n (bs @ replicate (n - length bs) 0)"

definition ensure_len :: "nat \<Rightarrow> byte list \<Rightarrow> byte list" where
  "ensure_len n bs = (if length bs < n then set_file_len n bs else bs)"

definition write_superblock :: "libs \<Rightarrow> block_file \<Rightarrow> block_file" where
  "write_superblock E f =
     (let body = to_wire_checked (crc32 E) wire_superblock (SuperblockBody FORMAT_VERSION (seed_list (bf_seed f)));
          block = MAGIC @ body @ replicate (BLOCK_SIZE - 8 - length body) 0
      in f\<lparr>bf_bytes := write_at 0 block (ensure_len BLOCK_SIZE (bf_bytes f))\<rparr>)"

definition read_and_check_superblock :: "libs \<Rightarrow> byte list \<Rightarrow> superblock_body sres" where
  "read_and_check_superblock E bs =
     (if length bs < BLOCK_SIZE then Err (OutOfBounds BLOCK_SIZE (length bs))
      else if take 8 bs \<noteq> MAGIC then Err BadMagic
      else try_then (map_err (\<lambda>_. Corrupt ''superblock'')
             (from_wire_checked (crc32 E) wire_superblock (take BODY_CHECKED_LEN (drop 8 bs)))) (\<lambda>body.
           if sb_version body \<noteq> FORMAT_VERSION then Err (BadVersion (sb_version body)) else Ok body))"

abbreviation DEFAULT_BUDGET_BYTES :: nat where "DEFAULT_BUDGET_BYTES \<equiv> 67108864"

definition bf_open :: "libs \<Rightarrow> seed \<Rightarrow> byte list \<Rightarrow> block_file sres" where
  "bf_open E random_seed bs =
     (if bs = [] then
        let f = write_superblock E
              \<lparr>bf_bytes = bs, bf_durable = bs, bf_seed = random_seed, bf_cache = pc_new DEFAULT_BUDGET_BYTES\<rparr>
        in Ok (f\<lparr>bf_durable := bf_bytes f\<rparr>)
      else try_then (read_and_check_superblock E bs) (\<lambda>body.
        Ok \<lparr>bf_bytes = bs, bf_durable = bs, bf_seed = seed_of (sb_seed body), bf_cache = pc_new DEFAULT_BUDGET_BYTES\<rparr>))"

definition len_blocks :: "block_file \<Rightarrow> nat" where
  "len_blocks f = length (bf_bytes f) div BLOCK_SIZE"

definition read_run :: "block_file \<Rightarrow> run \<Rightarrow> byte list sres" where
  "read_run f r =
     (let have = length (bf_bytes f); need = run_end r * BLOCK_SIZE
      in if have < need then Err (OutOfBounds need have)
         else Ok (take (byte_len r) (drop (byte_offset r) (bf_bytes f))))"

definition write_run :: "run \<Rightarrow> byte list \<Rightarrow> block_file \<Rightarrow> block_file sres" where
  "write_run r bytes f =
     (if byte_len r < length bytes then Err (RunOverflow (length bytes) (byte_len r))
      else Ok (f\<lparr>bf_cache := pc_invalidate r (bf_cache f),
                 bf_bytes := write_at (byte_offset r) bytes (ensure_len (run_end r * BLOCK_SIZE) (bf_bytes f))\<rparr>))"

definition read_run_shared :: "run \<Rightarrow> block_file \<Rightarrow> (byte list \<times> block_file) sres" where
  "read_run_shared r f = (case pc_get r (bf_cache f) of
      Some hit \<Rightarrow> Ok (hit, f)
    | None \<Rightarrow> try_then (read_run f r) (\<lambda>bytes. Ok (bytes, f\<lparr>bf_cache := pc_insert r bytes (bf_cache f)\<rparr>)))"

definition bf_sync :: "block_file \<Rightarrow> block_file" where
  "bf_sync f = f\<lparr>bf_durable := bf_bytes f\<rparr>"

definition truncate_to_blocks :: "nat \<Rightarrow> block_file \<Rightarrow> block_file" where
  "truncate_to_blocks n f = f\<lparr>bf_bytes := set_file_len (n * BLOCK_SIZE) (bf_bytes f)\<rparr>"

section \<open>Reads after writes\<close>

lemma length_set_file_len [simp]: "length (set_file_len n bs) = n"
  by (simp add: set_file_len_def)

lemma length_ensure_len [simp]: "length (ensure_len n bs) = max n (length bs)"
  by (simp add: ensure_len_def)

lemma take_ensure_len: "take (length bs) (ensure_len n bs) = bs"
  by (auto simp: ensure_len_def set_file_len_def)

lemma write_at_within:
  "off + length b \<le> length c \<Longrightarrow> write_at off b c = take off c @ b @ drop (off + length b) c"
  by (simp add: write_at_def)

definition run_slice :: "run \<Rightarrow> byte list \<Rightarrow> byte list" where
  "run_slice r bs = take (byte_len r) (drop (byte_offset r) bs)"

lemma read_run_Ok: "read_run f r = Ok b \<longleftrightarrow> run_end r * BLOCK_SIZE \<le> length (bf_bytes f) \<and> b = run_slice r (bf_bytes f)"
  by (auto simp: read_run_def Let_def run_slice_def not_less)

lemma run_bytes: "byte_offset r + byte_len r = run_end r * BLOCK_SIZE"
  by (simp add: byte_offset_def byte_len_def run_end_def algebra_simps)

text \<open>A write leaves the bytes of every other run in place and puts its own at the front of its run.\<close>

lemma slice_outside:
  fixes c b :: "byte list"
  assumes "off + length b \<le> length c" "o' + n \<le> off \<or> off + length b \<le> o'" "o' + n \<le> length c"
  shows "take n (drop o' (take off c @ b @ drop (off + length b) c)) = take n (drop o' c)"
proof (cases "o' + n \<le> off")
  case True
  have cut: "take n (drop o' (take off c @ x)) = take n (drop o' (take off c))" for x
    using True assms(1) by simp
  have "take n (drop o' c) = take n (drop o' (take off c @ drop off c))" by simp
  then show ?thesis unfolding cut by (rule sym)
next
  case False
  then have "off + length b \<le> o'" using assms(2) by simp
  then obtain k where k: "o' = off + length b + k" using le_Suc_ex by blast
  then show ?thesis using assms by (simp add: add.commute add.left_commute)
qed

lemma write_run_read_other:
  assumes "write_run w bytes f = Ok f'" "read_run f r = Ok b" "run_end r \<le> run_start w \<or> run_end w \<le> run_start r"
  shows "read_run f' r = Ok b"
proof -
  let ?c = "ensure_len (run_end w * BLOCK_SIZE) (bf_bytes f)"
  have w: "length bytes \<le> byte_len w" "bf_bytes f' = write_at (byte_offset w) bytes ?c"
    using assms(1) by (auto simp: write_run_def split: if_splits)
  have r: "run_end r * BLOCK_SIZE \<le> length (bf_bytes f)" "b = run_slice r (bf_bytes f)" using assms(2) by (auto simp: read_run_Ok)
  have fit: "byte_offset w + length bytes \<le> length ?c" using w(1) run_bytes [of w] by simp
  have len: "length (bf_bytes f') = length ?c"
    unfolding w(2) write_at_within [OF fit] using fit by simp
  have "run_slice r (bf_bytes f') = run_slice r ?c"
    unfolding run_slice_def w(2) write_at_within [OF fit]
  proof (rule slice_outside [OF fit])
    show "byte_offset r + byte_len r \<le> length ?c" using r(1) by (simp add: run_bytes)
    show "byte_offset r + byte_len r \<le> byte_offset w \<or> byte_offset w + length bytes \<le> byte_offset r"
      using assms(3) w(1) run_bytes [of w] run_bytes [of r] unfolding byte_offset_def by linarith
  qed
  also have "\<dots> = run_slice r (bf_bytes f)"
  proof -
    have "?c = bf_bytes f @ drop (length (bf_bytes f)) ?c" using take_ensure_len append_take_drop_id by metis
    then have "run_slice r ?c = run_slice r (bf_bytes f @ drop (length (bf_bytes f)) ?c)" by simp
    also have "\<dots> = run_slice r (bf_bytes f)" using r(1) run_bytes [of r] by (simp add: run_slice_def)
    finally show ?thesis .
  qed
  finally show ?thesis using r len by (simp add: read_run_Ok)
qed

text \<open>A sub-run of a written window reads the bytes the window holds there.\<close>

lemma write_run_read_window:
  assumes "write_run w bytes f = Ok f'" "length bytes = byte_len w" "run_start w \<le> run_start r" "run_end r \<le> run_end w"
  shows "read_run f' r = Ok (take (byte_len r) (drop (byte_offset r - byte_offset w) bytes))"
proof -
  let ?c = "ensure_len (run_end w * BLOCK_SIZE) (bf_bytes f)"
  have w: "bf_bytes f' = write_at (byte_offset w) bytes ?c"
    using assms(1) by (auto simp: write_run_def split: if_splits)
  have fit: "byte_offset w + length bytes \<le> length ?c" using assms(2) run_bytes [of w] by simp
  have r: "byte_offset w \<le> byte_offset r" "byte_offset r + byte_len r \<le> byte_offset w + byte_len w"
    using assms(3, 4) run_bytes [of w] run_bytes [of r] unfolding byte_offset_def by linarith+
  then obtain k where k: "byte_offset r = byte_offset w + k" "k + byte_len r \<le> length bytes"
    using assms(2) le_Suc_ex by (metis add.assoc add_le_cancel_left)
  have "length (bf_bytes f') = length ?c" unfolding w write_at_within [OF fit] using fit by simp
  moreover have "run_end r * BLOCK_SIZE \<le> length ?c" using assms(4) by simp
  moreover have "run_slice r (bf_bytes f') = take (byte_len r) (drop k bytes)"
    unfolding run_slice_def w write_at_within [OF fit] using k fit by simp
  ultimately show ?thesis using k(1) by (simp add: read_run_Ok)
qed

section \<open>The cache holds what the file holds\<close>

abbreviation cached :: "page_cache \<Rightarrow> (nat \<times> nat \<times> byte list) set" where
  "cached c \<equiv> set (pc_pages c)"

definition image_bytes :: "(nat \<times> nat \<times> byte list) list \<Rightarrow> nat" where
  "image_bytes ps = sum_list (map (\<lambda>(s, n, b). length b) ps)"

lemma image_bytes_simps [simp]:
  "image_bytes [] = 0" "image_bytes (ps @ qs) = image_bytes ps + image_bytes qs"
  "image_bytes ((s, n, b) # ps) = length b + image_bytes ps"
  by (simp_all add: image_bytes_def)

text \<open>Keys strictly increase, the byte count is the images' and within budget, every key is queued for
  eviction.\<close>

definition pc_inv :: "page_cache \<Rightarrow> bool" where
  "pc_inv c \<longleftrightarrow> bt_ok (pc_pages c) \<and> pc_bytes c = image_bytes (pc_pages c) \<and> fst ` cached c \<subseteq> set (pc_fifo c)"

lemma image_bytes_remove:
  assumes "bt_ok m" "map_of m k = Some (n, b)"
  shows "image_bytes m = length b + image_bytes (bt_remove k m)"
  using assms
proof (induction m)
  case (Cons x m)
  obtain k' n' b' where x: "x = (k', n', b')" by (cases x)
  show ?case
  proof (cases "k' = k")
    case True
    have "k \<notin> fst ` set m" using Cons.prems(1) True x by auto
    then have "bt_remove k m = m" unfolding bt_remove_def filter_id_conv by force
    then show ?thesis using Cons.prems x True by (simp add: bt_remove_def)
  next
    case False
    then have "image_bytes m = length b + image_bytes (bt_remove k m)" using Cons x by simp
    then show ?thesis using False x by (simp add: bt_remove_def)
  qed
qed simp

lemma image_bytes_insert:
  assumes "k \<notin> fst ` set m"
  shows "image_bytes (bt_insert k (n, b) m) = length b + image_bytes m"
proof -
  have "dropWhile (\<lambda>(k', _). k' \<le> k) m = dropWhile (\<lambda>(k', _). k' < k) m"
    using assms by (intro dropWhile_cong) (force simp: order_le_less)+
  moreover have "image_bytes m = image_bytes (takeWhile (\<lambda>(k', _). k' < k) m @ dropWhile (\<lambda>(k', _). k' < k) m)"
    by simp
  ultimately show ?thesis by (simp add: bt_insert_def del: takeWhile_dropWhile_id)
qed

lemma drop_at_facts:
  assumes "pc_inv c"
  shows "pc_inv (drop_at k c)" "cached (drop_at k c) = {x\<in>cached c. fst x \<noteq> k}"
    "pc_budget (drop_at k c) = pc_budget c" "pc_fifo (drop_at k c) = pc_fifo c"
proof -
  have "pc_inv (drop_at k c) \<and> cached (drop_at k c) = {x\<in>cached c. fst x \<noteq> k}
    \<and> pc_budget (drop_at k c) = pc_budget c \<and> pc_fifo (drop_at k c) = pc_fifo c"
  proof (cases "map_of (pc_pages c) k")
    case None
    then have "k \<notin> fst ` cached c" by (simp add: map_of_eq_None_iff)
    then show ?thesis using assms None by (force simp: drop_at_def)
  next
    case (Some x)
    then obtain n b where "map_of (pc_pages c) k = Some (n, b)" by (cases x) auto
    then show ?thesis
      using assms image_bytes_remove [of "pc_pages c" k n b]
      by (auto simp: drop_at_def pc_inv_def bt_remove_facts)
  qed
  then show "pc_inv (drop_at k c)" "cached (drop_at k c) = {x\<in>cached c. fst x \<noteq> k}"
    "pc_budget (drop_at k c) = pc_budget c" "pc_fifo (drop_at k c) = pc_fifo c" by simp_all
qed

lemma drop_at_bytes: "pc_bytes (drop_at k c) \<le> pc_bytes c"
  by (simp add: drop_at_def split: option.splits)

lemma drop_all_facts:
  "pc_inv c \<Longrightarrow> pc_inv (fold drop_at ks c) \<and> cached (fold drop_at ks c) = {x\<in>cached c. fst x \<notin> set ks}
     \<and> pc_budget (fold drop_at ks c) = pc_budget c \<and> pc_bytes (fold drop_at ks c) \<le> pc_bytes c"
proof (induction ks arbitrary: c)
  case (Cons k ks)
  from Cons.IH [OF drop_at_facts(1) [OF Cons.prems], of k] drop_at_bytes [of k c] drop_at_facts(2, 3) [OF Cons.prems, of k]
  show ?case by auto
qed simp

text \<open>Eviction may run between the queue's head and the entries: the invariant it keeps drops the head.\<close>

lemma pc_evict_facts:
  assumes "pc_inv c"
  shows "pc_inv (pc_evict c)" "cached (pc_evict c) \<subseteq> cached c" "pc_budget (pc_evict c) = pc_budget c"
    "pc_bytes (pc_evict c) \<le> pc_budget (pc_evict c)"
proof -
  have "pc_inv (pc_evict c) \<and> cached (pc_evict c) \<subseteq> cached c \<and> pc_budget (pc_evict c) = pc_budget c
    \<and> pc_bytes (pc_evict c) \<le> pc_budget (pc_evict c)"
    using assms
  proof (induction c rule: pc_evict.induct)
    case (1 c)
    show ?case
    proof (cases "pc_budget c < pc_bytes c")
      case over: True
      show ?thesis
      proof (cases "pc_fifo c")
        case Nil
        then have "pc_pages c = []" using 1(2) by (auto simp: pc_inv_def)
        then show ?thesis using 1(2) over by (simp add: pc_inv_def)
      next
        case (Cons k rest)
        let ?c = "drop_at k (c\<lparr>pc_fifo := rest\<rparr>)"
        have inv: "pc_inv ?c"
        proof (cases "map_of (pc_pages c) k")
          case None
          then have "k \<notin> fst ` cached c" by (simp add: map_of_eq_None_iff)
          then show ?thesis using 1(2) Cons None by (force simp: pc_inv_def drop_at_def)
        next
          case (Some x)
          then obtain n b where "map_of (pc_pages c) k = Some (n, b)" by (cases x) auto
          then show ?thesis
            using 1(2) Cons image_bytes_remove [of "pc_pages c" k n b]
            by (force simp: pc_inv_def drop_at_def bt_remove_facts)
        qed
        have sub: "cached ?c \<subseteq> cached c" "pc_budget ?c = pc_budget c"
          by (auto simp: drop_at_def bt_remove_facts split: option.splits)
        show ?thesis using 1(1) [OF over Cons inv] sub over Cons by (subst (1 2 3 4 5) pc_evict.simps) auto
      qed
    qed (use 1 in \<open>simp add: pc_evict.simps [of c]\<close>)
  qed
  then show "pc_inv (pc_evict c)" "cached (pc_evict c) \<subseteq> cached c" "pc_budget (pc_evict c) = pc_budget c"
    "pc_bytes (pc_evict c) \<le> pc_budget (pc_evict c)" by simp_all
qed

lemma pc_insert_facts:
  assumes "pc_inv c" "pc_bytes c \<le> pc_budget c"
  shows "pc_inv (pc_insert r b c)" "cached (pc_insert r b c) \<subseteq> insert (run_start r, run_count r, b) (cached c)"
    "pc_bytes (pc_insert r b c) \<le> pc_budget (pc_insert r b c)"
proof -
  let ?d = "drop_at (run_start r) c"
  let ?i = "?d\<lparr>pc_bytes := pc_bytes ?d + length b, pc_pages := bt_insert (run_start r) (run_count r, b) (pc_pages ?d),
      pc_fifo := pc_fifo ?d @ [run_start r]\<rparr>"
  note d = drop_at_facts [OF assms(1), of "run_start r"]
  have ok: "bt_ok (pc_pages ?d)" using d(1) by (simp add: pc_inv_def)
  have new: "set (bt_insert (run_start r) (run_count r, b) (pc_pages ?d)) = insert (run_start r, run_count r, b) (cached ?d)"
    unfolding bt_insert_sorted(2) [OF ok] d(2) by auto
  have inv: "pc_inv ?i"
  proof -
    have "run_start r \<notin> fst ` cached ?d" unfolding d(2) by auto
    from image_bytes_insert [OF this, of "run_count r" b] d(1, 4) ok new show ?thesis
      by (auto simp: pc_inv_def)
  qed
  show "pc_inv (pc_insert r b c)" "pc_bytes (pc_insert r b c) \<le> pc_budget (pc_insert r b c)"
    using pc_evict_facts(1, 4) [OF inv] assms by (simp_all add: pc_insert_def Let_def)
  show "cached (pc_insert r b c) \<subseteq> insert (run_start r, run_count r, b) (cached c)"
    using pc_evict_facts(2) [OF inv] new d(2) by (auto simp: pc_insert_def Let_def)
qed

subsection \<open>Invalidation\<close>

definition runs_apart :: "run \<Rightarrow> run \<Rightarrow> bool" where
  "runs_apart a b \<longleftrightarrow> run_end a \<le> run_start b \<or> run_end b \<le> run_start a"

definition cached_runs :: "page_cache \<Rightarrow> run set" where
  "cached_runs c = {Run s n |s n. \<exists>b. (s, n, b) \<in> cached c}"

definition disjoint_runs :: "run set \<Rightarrow> bool" where
  "disjoint_runs R \<longleftrightarrow> (\<forall>a\<in>R. 0 < run_count a) \<and> (\<forall>a\<in>R. \<forall>b\<in>R. a \<noteq> b \<longrightarrow> runs_apart a b)"

lemma takeWhile_filter:
  assumes "sorted_wrt (\<lambda>x y. \<not> P x \<longrightarrow> \<not> P y) xs"
  shows "takeWhile P xs = filter P xs"
  using assms by (induction xs) (auto simp: filter_empty_conv)

lemma doomed_overlap:
  assumes "pc_inv c" "disjoint_runs (cached_runs c)"
  shows "set (pc_doomed w c) = {s. \<exists>n b. (s, n, b) \<in> cached c \<and> s < run_end w \<and> run_start w < s + n}"
proof -
  let ?P = "\<lambda>(s, n, b :: byte list). run_start w < s + n" and ?f = "filter (\<lambda>(s, _). s < run_end w) (pc_pages c)"
  have "sorted_wrt (\<lambda>x y. fst x < fst y) (pc_pages c)" using assms(1) by (simp add: pc_inv_def sorted_wrt_map)
  then have "sorted_wrt (\<lambda>x y. fst x < fst y) ?f" by (rule sorted_wrt_filter)
  moreover have "x \<in> set ?f \<Longrightarrow> x \<in> cached c" for x by simp
  ultimately have "sorted_wrt (\<lambda>y x. \<not> ?P x \<longrightarrow> \<not> ?P y) ?f"
  proof (elim sorted_wrt_mono_rel [rotated], goal_cases)
    case (1 y x)
    obtain s n b s' n' b' where xy: "x = (s, n, b)" "y = (s', n', b')" by (cases x; cases y)
    have "Run s n \<in> cached_runs c" "Run s' n' \<in> cached_runs c" using 1(1-3) xy by (force simp: cached_runs_def)+
    with assms(2) 1(4) xy have "s' + n' \<le> s"
      by (fastforce simp: disjoint_runs_def runs_apart_def run_end_def)
    then show ?case using xy by auto
  qed
  then have "sorted_wrt (\<lambda>x y. \<not> ?P x \<longrightarrow> \<not> ?P y) (rev ?f)" by (simp add: sorted_wrt_rev)
  from takeWhile_filter [OF this] show ?thesis
    unfolding pc_doomed_def by (force simp: image_iff)
qed

lemma invalidate_facts:
  assumes "pc_inv c" "disjoint_runs (cached_runs c)"
  shows "pc_inv (pc_invalidate w c)" "pc_budget (pc_invalidate w c) = pc_budget c"
    "pc_bytes (pc_invalidate w c) \<le> pc_bytes c" "cached (pc_invalidate w c) = {(s, n, b) \<in> cached c. runs_apart (Run s n) w}"
proof -
  note d = drop_all_facts [OF assms(1), of "pc_doomed w c"]
  then show "pc_inv (pc_invalidate w c)" "pc_budget (pc_invalidate w c) = pc_budget c"
    "pc_bytes (pc_invalidate w c) \<le> pc_bytes c"
    by (simp_all add: pc_invalidate_def)
  have key: "n = n' \<and> b = b'" if "(s, n, b) \<in> cached c" "(s, n', b') \<in> cached c" for s n b n' b'
  proof -
    have "map_of (pc_pages c) s = Some (n, b)" "map_of (pc_pages c) s = Some (n', b')"
      using that assms(1) bt_get [of "pc_pages c" s] unfolding pc_inv_def by blast+
    then show ?thesis by simp
  qed
  show "cached (pc_invalidate w c) = {(s, n, b) \<in> cached c. runs_apart (Run s n) w}"
    using d unfolding pc_invalidate_def doomed_overlap [OF assms]
    by (auto simp: runs_apart_def run_end_def not_less dest: key) (use key in fastforce)
qed

section \<open>The superblock\<close>

interpretation wsuper: wave_wire wire_superblock "\<lambda>b. length (sb_seed b) = 4"
proof -
  have a: "wave_wire (wire_array 4 wire_u64) (\<lambda>vs. length vs = 4 \<and> list_all (\<lambda>_. True) vs)"
    by (rule wu64.wire_array_ok)
  show "wave_wire wire_superblock (\<lambda>b. length (sb_seed b) = 4)"
    using wire_struct_ok [OF wire_tuple2_ok [OF wu32.wave_wire_axioms a],
        of "\<lambda>(v, s). SuperblockBody v s" "\<lambda>b. (sb_version b, sb_seed b)"]
    by (simp add: wire_superblock_def list_all_iff)
qed

lemma seed_of_list [simp]: "seed_of (seed_list s) = s" "length (seed_list s) = 4"
  by (cases s; simp add: seed_list_def)+

lemma length_super: "length (to_wire_checked crc wire_superblock (SuperblockBody v (seed_list s))) = 40"
  by (simp add: length_checked wsuper.to_wire_length) (simp add: wire_superblock_def wire_array_def)

text \<open>A database reopens with the seed it was created with, whatever was written after the superblock.\<close>

lemma reopen_keeps_seed:
  assumes "bf_open E seed [] = Ok f"
  shows "\<exists>f'. bf_open E seed' (bf_bytes f @ rest) = Ok f' \<and> bf_seed f' = seed"
proof -
  let ?body = "to_wire_checked (crc32 E) wire_superblock (SuperblockBody 1 (seed_list seed))"
  have b: "bf_bytes f = MAGIC @ ?body @ replicate 4048 0"
    using assms by (auto simp: bf_open_def write_superblock_def Let_def write_at_def ensure_len_def length_super MAGIC_def)
  then show ?thesis
    using wsuper.checked_roundtrip [of "SuperblockBody 1 (seed_list seed)" "crc32 E"]
    by (simp add: bf_open_def read_and_check_superblock_def length_super MAGIC_def)
qed

section \<open>A client that reads what it has written\<close>

text \<open>The engine's discipline: live runs are disjoint and only they are read through the cache; a window is
  written over blocks no live run holds, and the runs carved out of it become live.\<close>

inductive bf_reach :: "block_file \<Rightarrow> run set \<Rightarrow> bool" where
  start: "bf_cache f = pc_new budget \<Longrightarrow> disjoint_runs live \<Longrightarrow> bf_reach f live"
| read: "bf_reach f live \<Longrightarrow> r \<in> live \<Longrightarrow> read_run_shared r f = Ok (b, f') \<Longrightarrow> bf_reach f' live"
| "write": "bf_reach f live \<Longrightarrow> write_run w bytes f = Ok f' \<Longrightarrow> \<forall>r\<in>live. runs_apart r w \<Longrightarrow>
    disjoint_runs fresh \<Longrightarrow> \<forall>r\<in>fresh. run_start w \<le> run_start r \<and> run_end r \<le> run_end w \<Longrightarrow>
    bf_reach f' (live \<union> fresh)"
| free: "bf_reach f live \<Longrightarrow> live' \<subseteq> live \<Longrightarrow> bf_reach f live'"
| sync: "bf_reach f live \<Longrightarrow> bf_reach (bf_sync f) live"

definition cache_true :: "block_file \<Rightarrow> run set \<Rightarrow> bool" where
  "cache_true f live \<longleftrightarrow> pc_inv (bf_cache f) \<and> pc_bytes (bf_cache f) \<le> pc_budget (bf_cache f)
     \<and> disjoint_runs (cached_runs (bf_cache f)) \<and> disjoint_runs live
     \<and> (\<forall>a\<in>cached_runs (bf_cache f). \<forall>r\<in>live. a \<noteq> r \<longrightarrow> runs_apart a r)
     \<and> (\<forall>(s, n, b)\<in>cached (bf_cache f). read_run f (Run s n) = Ok b)"

lemma cache_trueD:
  assumes "cache_true f live"
  shows "pc_inv (bf_cache f)" "pc_bytes (bf_cache f) \<le> pc_budget (bf_cache f)"
    "disjoint_runs (cached_runs (bf_cache f))" "disjoint_runs live"
    "\<forall>a\<in>cached_runs (bf_cache f). \<forall>r\<in>live. a \<noteq> r \<longrightarrow> runs_apart a r"
    "\<forall>(s, n, b)\<in>cached (bf_cache f). read_run f (Run s n) = Ok b"
  using assms by (simp_all add: cache_true_def)

lemma disjoint_runs_insert:
  "disjoint_runs R \<Longrightarrow> 0 < run_count r \<Longrightarrow> \<forall>a\<in>R. runs_apart a r \<Longrightarrow> disjoint_runs (insert r R)"
  unfolding disjoint_runs_def by (metis insert_iff runs_apart_def)

lemma disjoint_runs_union:
  "disjoint_runs R \<Longrightarrow> disjoint_runs S \<Longrightarrow> \<forall>a\<in>R. \<forall>b\<in>S. runs_apart a b \<Longrightarrow> disjoint_runs (R \<union> S)"
  unfolding disjoint_runs_def by (metis Un_iff runs_apart_def)

lemma disjoint_runs_subset: "disjoint_runs R \<Longrightarrow> S \<subseteq> R \<Longrightarrow> disjoint_runs S"
  unfolding disjoint_runs_def by blast

lemma runs_apart_sym: "runs_apart a b \<longleftrightarrow> runs_apart b a"
  by (auto simp: runs_apart_def)

lemma cached_runs_mono: "cached c \<subseteq> cached d \<Longrightarrow> cached_runs c \<subseteq> cached_runs d"
  by (auto simp: cached_runs_def)

lemma read_run_sync [simp]: "read_run (f\<lparr>bf_cache := c\<rparr>) r = read_run f r" "read_run (bf_sync f) r = read_run f r"
  by (simp_all add: read_run_def bf_sync_def Let_def)

lemma hit_is_true:
  assumes "cache_true f live" "r \<in> live"
  shows "pc_get r (bf_cache f) = Some b \<Longrightarrow> read_run f r = Ok b"
    "pc_get r (bf_cache f) = None \<Longrightarrow> r \<notin> cached_runs (bf_cache f)"
proof -
  have ok: "bt_ok (pc_pages (bf_cache f))" using assms(1) by (simp add: cache_true_def pc_inv_def)
  show "read_run f r = Ok b" if "pc_get r (bf_cache f) = Some b"
  proof -
    have "map_of (pc_pages (bf_cache f)) (run_start r) = Some (run_count r, b)"
      using that by (auto simp: pc_get_def split: option.splits if_splits)
    then have "(run_start r, run_count r, b) \<in> cached (bf_cache f)" using bt_get [OF ok] by metis
    then show ?thesis using assms(1) by (cases r) (auto simp: cache_true_def)
  qed
  show "r \<notin> cached_runs (bf_cache f)" if "pc_get r (bf_cache f) = None"
  proof
    assume "r \<in> cached_runs (bf_cache f)"
    then obtain b where "(run_start r, run_count r, b) \<in> cached (bf_cache f)" by (auto simp: cached_runs_def)
    then have "map_of (pc_pages (bf_cache f)) (run_start r) = Some (run_count r, b)" using bt_get [OF ok] by metis
    with that show False by (simp add: pc_get_def)
  qed
qed

lemma cache_true_read:
  assumes "cache_true f live" "r \<in> live" "read_run_shared r f = Ok (b, f')"
  shows "cache_true f' live"
proof (cases "pc_get r (bf_cache f)")
  case None
  then have f': "read_run f r = Ok b" "f' = f\<lparr>bf_cache := pc_insert r b (bf_cache f)\<rparr>"
    using assms(3) by (auto simp: read_run_shared_def try_then_Ok_iff)
  note ins = pc_insert_facts [of "bf_cache f" r b]
  have inv: "pc_inv (bf_cache f)" "pc_bytes (bf_cache f) \<le> pc_budget (bf_cache f)"
    using assms(1) by (simp_all add: cache_true_def)
  have runs: "cached_runs (bf_cache f') \<subseteq> insert r (cached_runs (bf_cache f))"
    using ins(2) [OF inv] by (cases r) (auto simp: cached_runs_def f'(2))
  have apart: "\<forall>a\<in>cached_runs (bf_cache f). runs_apart a r"
    using hit_is_true(2) [OF assms(1, 2) None] cache_trueD(5) [OF assms(1)] assms(2) by metis
  have "0 < run_count r" using cache_trueD(4) [OF assms(1)] assms(2) by (simp add: disjoint_runs_def)
  then have "disjoint_runs (insert r (cached_runs (bf_cache f)))"
    using disjoint_runs_insert [OF cache_trueD(3) [OF assms(1)]] apart by blast
  then have "disjoint_runs (cached_runs (bf_cache f'))" by (rule disjoint_runs_subset [OF _ runs])
  moreover have "\<forall>a\<in>cached_runs (bf_cache f'). \<forall>q\<in>live. a \<noteq> q \<longrightarrow> runs_apart a q"
    using runs cache_trueD(4, 5) [OF assms(1)] assms(2) unfolding disjoint_runs_def by (metis insertE subsetD)
  moreover have "\<forall>(s, n, b)\<in>cached (bf_cache f'). read_run f' (Run s n) = Ok b"
    using ins(2) [OF inv] f' assms(1) by (cases r) (auto simp: cache_true_def)
  ultimately show ?thesis using ins(1, 3) [OF inv] assms(1) f'(2) by (simp add: cache_true_def)
next
  case (Some hit)
  then show ?thesis using assms by (simp add: read_run_shared_def)
qed

lemma cache_true_write:
  assumes "cache_true f live" "write_run w bytes f = Ok f'" "\<forall>r\<in>live. runs_apart r w"
    "disjoint_runs fresh" "\<forall>r\<in>fresh. run_start w \<le> run_start r \<and> run_end r \<le> run_end w"
  shows "cache_true f' (live \<union> fresh)"
proof -
  have c: "bf_cache f' = pc_invalidate w (bf_cache f)" using assms(2) by (auto simp: write_run_def split: if_splits)
  note a = cache_trueD [OF assms(1)]
  note i = invalidate_facts [of "bf_cache f" w]
  have keep: "cached (bf_cache f') = {(s, n, b) \<in> cached (bf_cache f). runs_apart (Run s n) w}" using i(4) [OF a(1, 3)] c by simp
  then have sub: "cached_runs (bf_cache f') \<subseteq> cached_runs (bf_cache f)" by (auto simp: cached_runs_def)
  have away: "\<forall>a\<in>cached_runs (bf_cache f'). runs_apart a w" unfolding cached_runs_def keep by auto
  have inside: "runs_apart a r" if "runs_apart a w" "r \<in> fresh" for a r
    using that assms(5) unfolding runs_apart_def by (meson le_trans)
  have "\<forall>(s, n, b)\<in>cached (bf_cache f'). read_run f' (Run s n) = Ok b"
  proof (clarify)
    fix s n b assume "(s, n, b) \<in> cached (bf_cache f')"
    then have "read_run f (Run s n) = Ok b" "runs_apart (Run s n) w" using a(6) keep by auto
    then show "read_run f' (Run s n) = Ok b" using write_run_read_other [OF assms(2)] unfolding runs_apart_def by blast
  qed
  moreover have "disjoint_runs (live \<union> fresh)"
    by (rule disjoint_runs_union [OF a(4) assms(4)]) (use assms(3) inside in blast)
  moreover have "\<forall>a\<in>cached_runs (bf_cache f'). \<forall>r\<in>live \<union> fresh. a \<noteq> r \<longrightarrow> runs_apart a r"
    using a(5) sub away inside by (metis UnE subsetD)
  ultimately show ?thesis
    using i(1) [OF a(1, 3)] i(2) [OF a(1, 3)] i(3) [OF a(1, 3)] a(2) disjoint_runs_subset [OF a(3) sub]
    by (simp add: cache_true_def c)
qed

lemma bf_reach_true: "bf_reach f live \<Longrightarrow> cache_true f live"
proof (induction rule: bf_reach.induct)
  case (start f budget live)
  then show ?case by (simp add: cache_true_def pc_new_def pc_inv_def cached_runs_def disjoint_runs_def)
next
  case (free f live live')
  note t = cache_trueD [OF free.IH]
  have "\<forall>a\<in>cached_runs (bf_cache f). \<forall>r\<in>live'. a \<noteq> r \<longrightarrow> runs_apart a r" using t(5) free.hyps(2) by blast
  with t disjoint_runs_subset [OF t(4) free.hyps(2)] show ?case by (simp add: cache_true_def)
next
  case (sync f live)
  then show ?case by (simp add: cache_true_def) (simp add: bf_sync_def)
qed (auto intro: cache_true_read cache_true_write)

section \<open>Properties\<close>

text \<open>C25: The page cache is transparent.  Whatever a client that keeps to its live runs has read and written,
  a read through the cache of a live run gives what a read of the file gives, and the cache counts its
  bytes exactly and holds no more than its budget.\<close>

theorem page_cache_transparent:
  assumes "bf_reach f live" "r \<in> live"
  shows "map_option (map_sum (\<lambda>e. e) fst) (read_run_shared r f) = read_run f r
    \<and> pc_bytes (bf_cache f) = sum_list (map (\<lambda>(s, n, b). length b) (pc_pages (bf_cache f)))
    \<and> pc_bytes (bf_cache f) \<le> pc_budget (bf_cache f)"
proof -
  note t = bf_reach_true [OF assms(1)]
  have "map_option (map_sum (\<lambda>e. e) fst) (read_run_shared r f) = read_run f r"
  proof (cases "pc_get r (bf_cache f)")
    case None
    then show ?thesis by (cases "read_run f r") (auto simp: read_run_shared_def try_then_def split: sum.splits)
  next
    case (Some b)
    then show ?thesis using hit_is_true(1) [OF t assms(2) Some] by (simp add: read_run_shared_def)
  qed
  then show ?thesis using t by (simp add: cache_true_def pc_inv_def image_bytes_def)
qed

abbreviation demo_file :: block_file where
  "demo_file \<equiv> \<lparr>bf_bytes = replicate 8192 7, bf_durable = [], bf_seed = (1, 2, 3, 4), bf_cache = pc_new 10000\<rparr>"

theorem page_cache_transparent_witness:
  "\<exists>b f. read_run_shared (Run 1 1) demo_file = Ok (b, f)
    \<and> map_option (map_sum (\<lambda>e. e) fst) (read_run_shared (Run 1 1) f) = read_run f (Run 1 1)
    \<and> pc_bytes (bf_cache f) \<le> pc_budget (bf_cache f)"
proof -
  have s: "bf_reach demo_file {Run 1 1}"
    by (rule bf_reach.start [of _ 10000]) (simp_all add: disjoint_runs_def)
  have "read_run demo_file (Run 1 1) = Ok (run_slice (Run 1 1) (replicate 8192 7))"
    by (simp add: read_run_Ok run_end_def)
  then obtain b f where r: "read_run_shared (Run 1 1) demo_file = Ok (b, f)"
    by (auto simp: read_run_shared_def pc_get_def pc_new_def)
  from page_cache_transparent [OF bf_reach.read [OF s _ r], of "Run 1 1"] r show ?thesis by auto
qed

end
