(* ===== verification/Slot_Plan.thy ===== *)
theory Slot_Plan
  imports Block_File
begin

text \<open>
  One type's storage slot (\<open>wavedb-storage/src/struct_storage.rs\<close>), page reads through its directory
  (\<open>directory_pages.rs\<close>) and the first phase of a checkpoint, which turns a round of touched ids into
  page images (\<open>plan.rs\<close>).

  The locks of a slot are taken one operation at a time, so a slot is a record passed along.  Pages are
  read through the page cache in the source; here they are read from the file, which
  \<open>page_cache_transparent\<close> shows to be the same.  \<open>None\<close> as a result is a panic.
\<close>

section \<open>Storage slots\<close>

record struct_storage =
  ss_hash :: u64
  ss_cache :: records
  ss_dir :: "directory option"
  ss_dict :: dict_state
  ss_dead :: "u128 list"

definition ss_new :: "u64 \<Rightarrow> struct_storage" where
  "ss_new h = \<lparr>ss_hash = h, ss_cache = [], ss_dir = None, ss_dict = ds_new True, ss_dead = []\<rparr>"

definition without_compression :: "u64 \<Rightarrow> struct_storage" where
  "without_compression h = \<lparr>ss_hash = h, ss_cache = [], ss_dir = None, ss_dict = ds_new False, ss_dead = []\<rparr>"

definition ss_get :: "struct_storage \<Rightarrow> wave_id \<Rightarrow> byte list option" where
  "ss_get s i = map_of (ss_cache s) (raw i)"

definition cached_len :: "struct_storage \<Rightarrow> nat" where
  "cached_len s = length (ss_cache s)"

definition cached_bytes :: "struct_storage \<Rightarrow> nat" where
  "cached_bytes s = sum_list (map (\<lambda>(k, b). length b) (ss_cache s))"

text \<open>The bytes freed and the entries left.\<close>

fun evict_loop :: "nat \<Rightarrow> nat \<Rightarrow> records \<Rightarrow> nat \<times> records" where
  "evict_loop target freed [] = (freed, [])"
| "evict_loop target freed ((k, b) # cache) =
     (if freed < target then evict_loop target (freed + length b) cache else (freed, (k, b) # cache))"

definition evict_up_to :: "nat \<Rightarrow> struct_storage \<Rightarrow> nat \<times> struct_storage" where
  "evict_up_to target s = (let (freed, cache) = evict_loop target 0 (ss_cache s) in (freed, s\<lparr>ss_cache := cache\<rparr>))"

definition mark_removed :: "wave_id \<Rightarrow> struct_storage \<Rightarrow> struct_storage" where
  "mark_removed i s = s\<lparr>ss_dead := bs_insert (raw i) (ss_dead s)\<rparr>"

definition clear_removed :: "wave_id \<Rightarrow> struct_storage \<Rightarrow> struct_storage" where
  "clear_removed i s = s\<lparr>ss_dead := bs_remove (raw i) (ss_dead s)\<rparr>"

definition is_removed :: "struct_storage \<Rightarrow> wave_id \<Rightarrow> bool" where
  "is_removed s i \<longleftrightarrow> raw i \<in> set (ss_dead s)"

definition ss_reset :: "struct_storage \<Rightarrow> struct_storage" where
  "ss_reset s = s\<lparr>ss_cache := [], ss_dir := None, ss_dict := ds_reset (ss_dict s), ss_dead := []\<rparr>"

section \<open>Page reads\<close>

definition read_page :: "libs \<Rightarrow> block_file \<Rightarrow> u64 \<Rightarrow> dict_state \<Rightarrow> directory \<Rightarrow> nat \<Rightarrow> slot_page sres" where
  "read_page E f h dict dir bucket = (case descriptor dir bucket of
      None \<Rightarrow> None
    | Some desc \<Rightarrow>
        if \<not> is_allocated desc then Ok (page_new h)
        else try_then (read_run f (desc_run desc)) (\<lambda>bytes. page_from_bytes E (ds_dict dict) bytes))"

definition get_record :: "libs \<Rightarrow> block_file \<Rightarrow> u64 \<Rightarrow> dict_state \<Rightarrow> directory \<Rightarrow> wave_id \<Rightarrow> byte list option sres" where
  "get_record E f h dict dir i =
     try_then (read_page E f h dict dir (bucket_of (hash_seeded E) dir (raw i))) (\<lambda>page. Ok (page_get page i))"

definition read_from_pages :: "libs \<Rightarrow> block_file \<Rightarrow> struct_storage \<Rightarrow> wave_id \<Rightarrow> byte list option sres" where
  "read_from_pages E f s i =
     (if is_removed s i then Ok None
      else case ss_dir s of
          None \<Rightarrow> Ok None
        | Some dir \<Rightarrow> get_record E f (ss_hash s) (ss_dict s) dir i)"

section \<open>Planning a round\<close>

abbreviation MAX_SPLITS_PER_ROUND :: nat where "MAX_SPLITS_PER_ROUND \<equiv> 64"

type_synonym staged = "(nat \<times> slot_page) list"
type_synonym images = "(nat \<times> byte list) list"

record slot_plan =
  pl_idx :: nat
  pl_dir :: directory
  pl_pages :: images
  pl_dict :: "byte list option"
  pl_cleared :: "wave_id list"

definition verbatim :: "nat \<Rightarrow> directory \<Rightarrow> slot_plan" where
  "verbatim idx dir = \<lparr>pl_idx = idx, pl_dir = dir, pl_pages = [], pl_dict = None, pl_cleared = []\<rparr>"

definition blocks_of :: "byte list \<Rightarrow> nat" where
  "blocks_of b = (length b + BLOCK_SIZE - 1) div BLOCK_SIZE"

definition planned_blocks :: "directory \<Rightarrow> images \<Rightarrow> nat \<Rightarrow> nat option" where
  "planned_blocks dir pages bucket = (case map_of pages bucket of
      Some b \<Rightarrow> Some (blocks_of b)
    | None \<Rightarrow> map_option (\<lambda>d. unat (desc_count d)) (descriptor dir bucket))"

definition staged_page ::
    "libs \<Rightarrow> block_file \<Rightarrow> u64 \<Rightarrow> dict_state \<Rightarrow> directory \<Rightarrow> nat \<Rightarrow> staged \<Rightarrow> (slot_page \<times> staged) sres" where
  "staged_page E f h dict dir bucket staged = (case map_of staged bucket of
      Some page \<Rightarrow> Ok (page, staged)
    | None \<Rightarrow> try_then (read_page E f h dict dir bucket) (\<lambda>page. Ok (page, bt_insert bucket page staged)))"

record plan_acc =
  pa_dict :: dict_state
  pa_staged :: staged
  pa_cleared :: "wave_id list"
  pa_grew :: bool

text \<open>The loop over the ids.  The dictionary is the slot's own, so what it sampled stays sampled when the
  plan fails.\<close>

fun plan_ids ::
    "libs \<Rightarrow> block_file \<Rightarrow> struct_storage \<Rightarrow> directory \<Rightarrow> wave_id list \<Rightarrow> plan_acc \<Rightarrow> dict_state \<times> plan_acc sres" where
  "plan_ids E f s dir [] acc = (pa_dict acc, Ok acc)"
| "plan_ids E f s dir (i # ids) acc =
     (let bucket = bucket_of (hash_seeded E) dir (raw i)
      in case staged_page E f (ss_hash s) (pa_dict acc) dir bucket (pa_staged acc) of
          None \<Rightarrow> (pa_dict acc, None)
        | Err e \<Rightarrow> (pa_dict acc, Err e)
        | Ok (page, staged) \<Rightarrow>
            (case ss_get s i of
               Some bytes \<Rightarrow>
                 let (grew, dict) = ds_sample bytes (pa_dict acc)
                 in plan_ids E f s dir ids (acc\<lparr>pa_dict := dict, pa_grew := pa_grew acc \<or> grew,
                      pa_staged := bt_insert bucket (page_upsert i bytes page) staged\<rparr>)
             | None \<Rightarrow>
                 plan_ids E f s dir ids (acc\<lparr>pa_cleared := pa_cleared acc @ [i],
                   pa_staged := bt_insert bucket (page_remove i page) staged\<rparr>)))"

definition image_of :: "libs \<Rightarrow> dict_state \<Rightarrow> slot_page \<Rightarrow> byte list" where
  "image_of E dict page = page_to_bytes E (ds_dict dict) (ds_enabled dict) page"

text \<open>Where the records of a page go when its bucket is split.\<close>

definition split_page :: "libs \<Rightarrow> u64 \<Rightarrow> directory \<Rightarrow> slot_page \<Rightarrow> slot_page \<times> slot_page" where
  "split_page E h dir page =
     (let level = split_bit dir
      in fold (\<lambda>(i, bytes) (keep, moved).
           if drop_bit level (dir_hash (hash_seeded E) dir (raw i)) AND 1 = 0
           then (page_upsert i bytes keep, moved) else (keep, page_upsert i bytes moved))
         (page_entries page) (page_new h, page_new h))"

fun plan_splits ::
    "libs \<Rightarrow> block_file \<Rightarrow> u64 \<Rightarrow> nat \<Rightarrow> dict_state \<Rightarrow> nat \<Rightarrow> directory \<times> staged \<times> images \<Rightarrow> (directory \<times> staged \<times> images) sres" where
  "plan_splits E f h tgt dict 0 st = Ok st"
| "plan_splits E f h tgt dict (Suc n) (dir, staged, pages) =
     (let source = unat (dir_next_split dir)
      in case planned_blocks dir pages source of
          None \<Rightarrow> None
        | Some blks \<Rightarrow>
            if blks \<le> tgt then Ok (dir, staged, pages)
            else try_then (staged_page E f h dict dir source staged) (\<lambda>(page, staged1).
              let (keep, moved) = split_page E h dir page;
                  (target, dir1) = push_bucket desc_EMPTY dir
              in plan_splits E f h tgt dict n
                   (dir1, bt_insert target moved (bt_insert source keep staged1),
                    bt_insert target (image_of E dict moved) (bt_insert source (image_of E dict keep) pages))))"

definition plan_slot ::
    "libs \<Rightarrow> block_file \<Rightarrow> seed \<Rightarrow> nat \<Rightarrow> nat \<Rightarrow> wave_id list \<Rightarrow> struct_storage \<Rightarrow> struct_storage \<times> slot_plan sres" where
  "plan_slot E f seed tgt idx ids s =
     (let dir = (case ss_dir s of Some d \<Rightarrow> d | None \<Rightarrow> dir_new seed);
          (dict, r) = plan_ids E f s dir ids \<lparr>pa_dict = ss_dict s, pa_staged = [], pa_cleared = [], pa_grew = False\<rparr>
      in (s\<lparr>ss_dict := dict\<rparr>, try_then r (\<lambda>acc.
           let pages = map (\<lambda>(b, p). (b, image_of E (pa_dict acc) p)) (pa_staged acc)
           in try_then (plan_splits E f (ss_hash s) tgt (pa_dict acc) MAX_SPLITS_PER_ROUND (dir, pa_staged acc, pages))
                (\<lambda>(dir1, staged1, pages1).
                  Ok \<lparr>pl_idx = idx, pl_dir = dir1, pl_pages = pages1,
                      pl_dict = (if pa_grew acc then Some (ds_image E (pa_dict acc)) else None),
                      pl_cleared = pa_cleared acc\<rparr>))))"

end
