(* ===== verification/Slot_Laws.thy ===== *)
theory Slot_Laws
  imports Slot_Plan
begin

text \<open>
  Planning a round loses nothing: over the staged pages and, where none is staged, the settled ones,
  every record of the slot is where linear hashing looks for it, before and after the splits.
\<close>

section \<open>Pages through a directory\<close>

lemma unpack_extends:
  "unpack_payload E d pl = Ok b \<Longrightarrow> dict_extends d d' \<Longrightarrow> unpack_payload E d' pl = Ok b"
  using dict_prefix_extends [of d d'] unfolding unpack_payload_def
  by (cases pl) (auto split: option.splits)

lemma page_from_bytes_extends:
  assumes "page_from_bytes E d b = Ok p" "dict_extends d d'"
  shows "page_from_bytes E d' b = Ok p"
proof -
  obtain body env raw' where "framed_body ''page length truncated'' ''page length out of range'' b = Ok body"
    "from_wire_checked (crc32 E) wire_envelope body = Ok env" "unpack_payload E d (env_payload env) = Ok raw'"
    using assms(1) unfolding page_from_bytes_def try_then_Ok_iff map_err_Ok_iff by (elim exE conjE)
  with assms unpack_extends [OF this(3) assms(2)] show ?thesis by (simp add: page_from_bytes_def)
qed

lemma read_page_extends:
  assumes "read_page E f h d dir b = Ok p" "dict_extends (ds_dict d) (ds_dict d')"
  shows "read_page E f h d' dir b = Ok p"
proof -
  obtain desc where d: "descriptor dir b = Some desc" using assms(1) by (auto simp: read_page_def split: option.splits)
  show ?thesis
  proof (cases "is_allocated desc")
    case True
    then obtain bytes where "read_run f (desc_run desc) = Ok bytes" "page_from_bytes E (ds_dict d) bytes = Ok p"
      using assms(1) d by (auto simp: read_page_def try_then_Ok_iff)
    then show ?thesis using d True page_from_bytes_extends [OF _ assms(2)] by (simp add: read_page_def)
  qed (use assms(1) d in \<open>simp add: read_page_def\<close>)
qed

abbreviation recs :: "slot_page \<Rightarrow> u128 \<rightharpoonup> byte list" where
  "recs p \<equiv> map_of (sp_records p)"

text \<open>A page of the slot at a bucket: ordered, of the slot's type, and holding only ids that route there.\<close>

definition placed :: "libs \<Rightarrow> u64 \<Rightarrow> directory \<Rightarrow> nat \<Rightarrow> slot_page \<Rightarrow> bool" where
  "placed E h dir b p \<longleftrightarrow> page_ok p \<and> sp_struct_hash p = h
     \<and> (\<forall>k\<in>dom (recs p). bucket_of (hash_seeded E) dir k = b)"

definition stage :: "libs \<Rightarrow> block_file \<Rightarrow> u64 \<Rightarrow> dict_state \<Rightarrow> directory \<Rightarrow> staged \<Rightarrow> nat \<Rightarrow> slot_page sres" where
  "stage E f h dict dir staged b = (case map_of staged b of Some p \<Rightarrow> Ok p | None \<Rightarrow> read_page E f h dict dir b)"

definition staged_ok :: "libs \<Rightarrow> block_file \<Rightarrow> u64 \<Rightarrow> dict_state \<Rightarrow> directory \<Rightarrow> staged \<Rightarrow> bool" where
  "staged_ok E f h dict dir staged \<longleftrightarrow> dir_ok dir \<and> bt_ok staged \<and> (\<forall>b\<in>dom (map_of staged). b < dir_len dir)
     \<and> (\<forall>b<dir_len dir. \<exists>p. stage E f h dict dir staged b = Ok p \<and> placed E h dir b p)"

definition stage_view :: "libs \<Rightarrow> block_file \<Rightarrow> u64 \<Rightarrow> dict_state \<Rightarrow> directory \<Rightarrow> staged \<Rightarrow> u128 \<rightharpoonup> byte list" where
  "stage_view E f h dict dir staged k =
     (case stage E f h dict dir staged (bucket_of (hash_seeded E) dir k) of Ok p \<Rightarrow> recs p k | _ \<Rightarrow> None)"

text \<open>Pages whose wire images stay within their length fields.\<close>

definition stage_fits :: "libs \<Rightarrow> block_file \<Rightarrow> u64 \<Rightarrow> dict_state \<Rightarrow> directory \<Rightarrow> staged \<Rightarrow> bool" where
  "stage_fits E f h dict dir staged \<longleftrightarrow>
     (\<forall>b<dir_len dir. \<forall>p. stage E f h dict dir staged b = Ok p \<longrightarrow> page_fits (sp_records p))"

lemma page_fits_subset:
  assumes "page_ok p" "page_ok q" "recs q \<subseteq>\<^sub>m recs p" "page_fits (sp_records p)"
  shows "page_fits (sp_records q)"
proof -
  let ?g = "\<lambda>(k :: u128, b :: byte list). 20 + length b"
  have d: "distinct (sp_records p)" "distinct (sp_records q)"
    using assms(1, 2) distinct_map unfolding page_ok_def by (metis strict_sorted_iff)+
  have "(k, b) \<in> set (sp_records p)" if "(k, b) \<in> set (sp_records q)" for k b
    using that assms(1-3) bt_get unfolding page_ok_def map_le_def by (metis domI)
  then have "set (sp_records q) \<subseteq> set (sp_records p)" by auto
  then have "sum ?g (set (sp_records q)) \<le> sum ?g (set (sp_records p))" by (intro sum_mono2) auto
  then show ?thesis using assms(4) d by (simp add: page_fits_def sum_list_distinct_conv_sum_set)
qed

lemma staged_okD:
  assumes "staged_ok E f h dict dir staged" "b < dir_len dir"
  obtains p where "stage E f h dict dir staged b = Ok p" "placed E h dir b p"
  using assms unfolding staged_ok_def by blast

lemma stage_view_page:
  assumes "staged_ok E f h dict dir staged" "stage E f h dict dir staged b = Ok p" "b < dir_len dir" "k \<in> dom (recs p)"
  shows "stage_view E f h dict dir staged k = recs p k"
proof -
  obtain q where "stage E f h dict dir staged b = Ok q" "placed E h dir b q" by (rule staged_okD [OF assms(1, 3)])
  then have "placed E h dir b p" using assms(2) by simp
  then have "bucket_of (hash_seeded E) dir k = b" using assms(4) by (simp add: placed_def)
  then show ?thesis using assms(2) by (simp add: stage_view_def)
qed

lemma staged_page_stage:
  assumes "staged_ok E f h dict dir staged" "b < dir_len dir"
  obtains p staged' where "staged_page E f h dict dir b staged = Ok (p, staged')" "placed E h dir b p"
    "stage E f h dict dir staged b = Ok p" "bt_ok staged'" "map_of staged' = (map_of staged)(b \<mapsto> p)"
proof -
  obtain p where p: "stage E f h dict dir staged b = Ok p" "placed E h dir b p" by (rule staged_okD [OF assms])
  have ok: "bt_ok staged" using assms(1) by (simp add: staged_ok_def)
  show ?thesis
  proof (cases "map_of staged b")
    case None
    then show ?thesis
      by (intro that [of p "bt_insert b p staged"]) (use p ok in \<open>simp_all add: staged_page_def stage_def\<close>)
  next
    case (Some q)
    then have "q = p" using p(1) by (simp add: stage_def)
    with Some p ok show ?thesis
      by (intro that [of p staged]) (auto simp: staged_page_def fun_upd_idem)
  qed
qed

lemma stage_update:
  "map_of staged' = (map_of staged)(b \<mapsto> p) \<Longrightarrow>
    stage E f h dict dir staged' b' = (if b' = b then Ok p else stage E f h dict dir staged b')"
  by (simp add: stage_def)

text \<open>Replacing the page of one bucket.\<close>

lemma staged_ok_update:
  assumes "staged_ok E f h dict dir staged" "b < dir_len dir" "placed E h dir b p" "bt_ok staged'"
    "map_of staged' = (map_of staged)(b \<mapsto> p)"
  shows "staged_ok E f h dict dir staged'"
    "stage_view E f h dict dir staged' k =
      (if bucket_of (hash_seeded E) dir k = b then recs p k else stage_view E f h dict dir staged k)"
  using assms stage_update [OF assms(5)] by (auto simp: staged_ok_def stage_view_def split: if_splits)

lemma staged_ok_extends:
  assumes "staged_ok E f h dict dir staged" "dict_extends (ds_dict dict) (ds_dict dict')"
  shows "staged_ok E f h dict' dir staged"
    "\<And>k. stage_view E f h dict' dir staged k = stage_view E f h dict dir staged k"
proof -
  have s: "stage E f h dict' dir staged b = stage E f h dict dir staged b" if b: "b < dir_len dir" for b
  proof -
    obtain p where p: "stage E f h dict dir staged b = Ok p" by (rule staged_okD [OF assms(1) b])
    then show ?thesis using read_page_extends [OF _ assms(2)]
      by (auto simp: stage_def split: option.splits)
  qed
  then show "staged_ok E f h dict' dir staged" using assms(1) by (simp add: staged_ok_def)
  have "dir_ok dir" using assms(1) by (simp add: staged_ok_def)
  then show "stage_view E f h dict' dir staged k = stage_view E f h dict dir staged k" for k
    using s [OF bucket_of_less] by (simp add: stage_view_def)
qed

section \<open>Applying the ids\<close>

lemma placed_upsert:
  "placed E h dir (bucket_of (hash_seeded E) dir (raw i)) p \<Longrightarrow>
    placed E h dir (bucket_of (hash_seeded E) dir (raw i)) (page_upsert i b p)"
  by (auto simp: placed_def page_upsert_def page_ok_def)

lemma placed_remove: "placed E h dir b p \<Longrightarrow> placed E h dir b (page_remove i p)"
  by (auto simp: placed_def page_remove_def page_ok_def)

lemma recs_upsert: "page_ok p \<Longrightarrow> recs (page_upsert i b p) = (recs p)(raw i \<mapsto> b)"
  by (simp add: page_upsert_def page_ok_def)

lemma recs_remove: "recs (page_remove i p) = (recs p)(raw i := None)"
  by (simp add: page_remove_def)

lemma ds_sample_facts:
  assumes "ds_sample b d = (grew, d')"
  shows "dict_extends (ds_dict d) (ds_dict d')" "ds_enabled d' = ds_enabled d" "ds_desc d' = ds_desc d"
    "dict_len (ds_dict d) \<le> DICT_CAP \<Longrightarrow> dict_len (ds_dict d') \<le> DICT_CAP" "\<not> grew \<Longrightarrow> d' = d"
    "grew \<Longrightarrow> ds_enabled d"
proof -
  have same: "dict_len (dict_sample b c) = dict_len c \<Longrightarrow> dict_sample b c = c" for c
    by (cases c) (auto simp: dict_sample_def dict_len_def Let_def)
  show "dict_extends (ds_dict d) (ds_dict d')" "ds_enabled d' = ds_enabled d" "ds_desc d' = ds_desc d" "\<not> grew \<Longrightarrow> d' = d"
    "grew \<Longrightarrow> ds_enabled d"
    using assms same by (auto simp: ds_sample_def Let_def dict_extends_sample split: if_splits)
  show "dict_len (ds_dict d) \<le> DICT_CAP \<Longrightarrow> dict_len (ds_dict d') \<le> DICT_CAP"
    using assms dict_sample_cap [of "ds_dict d" b] by (auto simp: ds_sample_def Let_def dict_len_def split: if_splits)
qed

lemma plan_ids_correct:
  assumes "staged_ok E f (ss_hash s) (pa_dict acc) dir (pa_staged acc)"
  shows "\<exists>acc'. plan_ids E f s dir ids acc = (pa_dict acc', Ok acc')
    \<and> staged_ok E f (ss_hash s) (pa_dict acc') dir (pa_staged acc')
    \<and> stage_view E f (ss_hash s) (pa_dict acc') dir (pa_staged acc') =
        (\<lambda>k. if k \<in> raw ` set ids then map_of (ss_cache s) k else stage_view E f (ss_hash s) (pa_dict acc) dir (pa_staged acc) k)
    \<and> dict_extends (ds_dict (pa_dict acc)) (ds_dict (pa_dict acc'))
    \<and> ds_enabled (pa_dict acc') = ds_enabled (pa_dict acc) \<and> ds_desc (pa_dict acc') = ds_desc (pa_dict acc)
    \<and> (dict_len (ds_dict (pa_dict acc)) \<le> DICT_CAP \<longrightarrow> dict_len (ds_dict (pa_dict acc')) \<le> DICT_CAP)
    \<and> pa_cleared acc' = pa_cleared acc @ filter (\<lambda>i. ss_get s i = None) ids
    \<and> (\<not> pa_grew acc' \<longrightarrow> pa_dict acc' = pa_dict acc)
    \<and> (pa_grew acc' \<longrightarrow> pa_grew acc \<or> ds_enabled (pa_dict acc))
    \<and> (pa_grew acc \<longrightarrow> pa_grew acc')
    \<and> (ids \<noteq> [] \<or> pa_staged acc \<noteq> [] \<longrightarrow> pa_staged acc' \<noteq> [])"
  using assms
proof (induction ids arbitrary: acc)
  case Nil
  then show ?case by (auto simp: fun_eq_iff)
next
  case (Cons i ids)
  let ?b = "bucket_of (hash_seeded E) dir (raw i)"
  have b: "?b < dir_len dir" using Cons.prems by (simp add: bucket_of_less staged_ok_def)
  obtain p st where p: "staged_page E f (ss_hash s) (pa_dict acc) dir ?b (pa_staged acc) = Ok (p, st)"
    "placed E (ss_hash s) dir ?b p" "stage E f (ss_hash s) (pa_dict acc) dir (pa_staged acc) ?b = Ok p"
    "bt_ok st" "map_of st = (map_of (pa_staged acc))(?b \<mapsto> p)"
    by (rule staged_page_stage [OF Cons.prems b])
  have sv: "stage_view E f (ss_hash s) (pa_dict acc) dir (pa_staged acc) k = recs p k"
    if "bucket_of (hash_seeded E) dir k = ?b" for k
    using that p(3) by (simp add: stage_view_def)
  have up: "map_of (bt_insert ?b q st) = (map_of (pa_staged acc))(?b \<mapsto> q)" "bt_ok (bt_insert ?b q st)" for q
    using p(4, 5) by simp_all
  show ?case
  proof (cases "ss_get s i")
    case None
    let ?acc = "acc\<lparr>pa_cleared := pa_cleared acc @ [i], pa_staged := bt_insert ?b (page_remove i p) st\<rparr>"
    note u = staged_ok_update [OF Cons.prems b placed_remove [OF p(2), of i] up(2) up(1)]
    have "plan_ids E f s dir (i # ids) acc = plan_ids E f s dir ids ?acc"
      by (simp add: p(1) None Let_def)
    moreover have view: "stage_view E f (ss_hash s) (pa_dict acc) dir (bt_insert ?b (page_remove i p) st) k =
        (if k = raw i then None else stage_view E f (ss_hash s) (pa_dict acc) dir (pa_staged acc) k)" for k
      using u(2) [of k] sv [of k] by (auto simp: recs_remove)
    ultimately show ?thesis
      using Cons.IH [of ?acc] u(1) None by (auto simp: fun_eq_iff ss_get_def)
  next
    case (Some bytes)
    obtain grew d where d: "ds_sample bytes (pa_dict acc) = (grew, d)" by fastforce
    note df = ds_sample_facts [OF d]
    let ?acc = "acc\<lparr>pa_dict := d, pa_grew := pa_grew acc \<or> grew, pa_staged := bt_insert ?b (page_upsert i bytes p) st\<rparr>"
    note u = staged_ok_update [OF Cons.prems b placed_upsert [OF p(2), of bytes] up(2) up(1)]
    note x = staged_ok_extends [OF u(1) df(1)]
    have "plan_ids E f s dir (i # ids) acc = plan_ids E f s dir ids ?acc"
      by (simp add: p(1) Some d Let_def)
    moreover have view: "stage_view E f (ss_hash s) d dir (bt_insert ?b (page_upsert i bytes p) st) k =
        (if k = raw i then Some bytes else stage_view E f (ss_hash s) (pa_dict acc) dir (pa_staged acc) k)" for k
      using x(2) [of k] u(2) [of k] sv [of k] p(2) by (auto simp: recs_upsert placed_def)
    ultimately show ?thesis
      using Cons.IH [of ?acc] x(1) Some df
      by (auto simp: fun_eq_iff ss_get_def intro: dict_extends_trans)
  qed
qed

section \<open>Splits\<close>

lemma drop_bit_zero: "drop_bit n w AND 1 = 0 \<longleftrightarrow> \<not> bit w n" for w :: u64
  by (simp add: and_one_eq bit_iff_odd_drop_bit even_iff_mod_2_eq_zero)

lemma split_page_recs:
  assumes "page_ok p" "split_page E h dir p = (keep, gone)"
  shows "page_ok keep" "page_ok gone" "sp_struct_hash keep = h" "sp_struct_hash gone = h"
    "recs keep k = (if bit (dir_hash (hash_seeded E) dir k) (split_bit dir) then None else recs p k)"
    "recs gone k = (if bit (dir_hash (hash_seeded E) dir k) (split_bit dir) then recs p k else None)"
proof -
  let ?bit = "\<lambda>k. bit (dir_hash (hash_seeded E) dir k) (split_bit dir)"
  let ?step = "\<lambda>(i, bytes) (keep, gone).
      if drop_bit (split_bit dir) (dir_hash (hash_seeded E) dir (raw i)) AND 1 = 0
      then (page_upsert i bytes keep, gone) else (keep, page_upsert i bytes gone)"
  have "\<exists>keep gone. fold ?step (map (\<lambda>(r, b). (WaveId r, b)) rs) (page_new h, page_new h) = (keep, gone)
    \<and> page_ok keep \<and> page_ok gone \<and> sp_struct_hash keep = h \<and> sp_struct_hash gone = h
    \<and> (\<forall>k. recs keep k = (if ?bit k then None else map_of rs k)) \<and> (\<forall>k. recs gone k = (if ?bit k then map_of rs k else None))"
    if "distinct (map fst rs)" for rs
    using that
  proof (induction rs rule: rev_induct)
    case Nil
    then show ?case by (simp add: page_new_def page_ok_def)
  next
    case (snoc x rs)
    obtain r b where x: "x = (r, b)" by fastforce
    have d: "distinct (map fst rs)" using snoc.prems by simp
    from snoc.IH [OF d] obtain keep gone where 1: "fold ?step (map (\<lambda>(r, b). (WaveId r, b)) rs) (page_new h, page_new h) = (keep, gone)"
      "page_ok keep" "page_ok gone" "sp_struct_hash keep = h" "sp_struct_hash gone = h"
      "\<forall>k. recs keep k = (if ?bit k then None else map_of rs k)" "\<forall>k. recs gone k = (if ?bit k then map_of rs k else None)"
      by (elim exE conjE) (rule that; assumption)
    have "map_of rs r = None" using snoc.prems x by (simp add: map_of_eq_None_iff)
    then have m: "map_of (rs @ [x]) = (map_of rs)(r \<mapsto> b)"
      by (auto simp: fun_eq_iff x map_add_def split: option.splits)
    show ?case
    proof (cases "?bit r")
      case True
      with 1 show ?thesis unfolding m
        by (intro exI [of _ keep] exI [of _ "page_upsert (WaveId r) b gone"])
          (simp add: x drop_bit_zero page_ok_def page_upsert_def)
    next
      case False
      with 1 show ?thesis unfolding m
        by (intro exI [of _ "page_upsert (WaveId r) b keep"] exI [of _ gone])
          (simp add: x drop_bit_zero page_ok_def page_upsert_def)
    qed
  qed
  moreover have "distinct (map fst (sp_records p))" using assms(1) by (simp add: page_ok_def strict_sorted_iff)
  ultimately obtain keep' gone' where f: "fold ?step (map (\<lambda>(r, b). (WaveId r, b)) (sp_records p)) (page_new h, page_new h) = (keep', gone')"
      "page_ok keep'" "page_ok gone'" "sp_struct_hash keep' = h" "sp_struct_hash gone' = h"
      "\<forall>k. recs keep' k = (if ?bit k then None else recs p k)" "\<forall>k. recs gone' k = (if ?bit k then recs p k else None)"
    by blast
  moreover have "keep' = keep" "gone' = gone"
    using assms(2) f(1) unfolding split_page_def page_entries_def Let_def by simp_all
  ultimately show "page_ok keep" "page_ok gone" "sp_struct_hash keep = h" "sp_struct_hash gone = h"
    "recs keep k = (if ?bit k then None else recs p k)" "recs gone k = (if ?bit k then recs p k else None)"
    by simp_all
qed

lemma descriptor_push:
  "b < dir_len dir \<Longrightarrow> descriptor (snd (push_bucket e dir)) b = descriptor dir b"
  by (simp add: descriptor_def push_bucket_def dir_len_def nth_append)

lemma read_page_push:
  "b < dir_len dir \<Longrightarrow> read_page E f h dict (snd (push_bucket e dir)) b = read_page E f h dict dir b"
  by (simp add: read_page_def descriptor_push)

text \<open>One split: the source page's records stay findable, everything else is untouched.\<close>

lemma split_step:
  assumes "staged_ok E f h dict dir staged" "dir_len dir + 1 < 2 ^ 32"
    "stage E f h dict dir staged (unat (dir_next_split dir)) = Ok page"
    "split_page E h dir page = (keep, gone)" "push_bucket e dir = (target, dir1)" "bt_ok staged2"
    "map_of staged2 = (map_of staged)(unat (dir_next_split dir) \<mapsto> keep, target \<mapsto> gone)"
  shows "staged_ok E f h dict dir1 staged2"
    "stage_view E f h dict dir1 staged2 k = stage_view E f h dict dir staged k"
    "stage_fits E f h dict dir staged \<Longrightarrow> stage_fits E f h dict dir1 staged2"
proof -
  let ?src = "unat (dir_next_split dir)" and ?H = "hash_seeded E"
  have ok: "dir_ok dir" using assms(1) by (simp add: staged_ok_def)
  have src: "?src < dir_len dir" by (rule next_split_less [OF ok])
  have d1: "dir1 = snd (push_bucket e dir)" "target = dir_len dir" using assms(5) by (simp_all add: push_bucket_def)
  have len: "dir_len dir1 = Suc (dir_len dir)" by (simp add: d1 push_bucket_def dir_len_def)
  obtain q where "stage E f h dict dir staged ?src = Ok q" "placed E h dir ?src q" by (rule staged_okD [OF assms(1) src])
  then have page: "placed E h dir ?src page" using assms(3) by simp
  have pok: "page_ok page" using page by (simp add: placed_def)
  note sp = split_page_recs [OF pok assms(4)]
  have route: "bucket_of ?H dir1 k = (if bucket_of ?H dir k = ?src
      then if bit (dir_hash ?H dir k) (split_bit dir) then target else ?src else bucket_of ?H dir k)" for k
    unfolding d1 by (subst push_bucket_routes [OF ok]) (simp add: push_bucket_def)
  have st: "stage E f h dict dir1 staged2 b = (if b = target then Ok gone else if b = ?src then Ok keep
      else stage E f h dict dir staged b)" if "b < dir_len dir1" for b
    using assms(7) that len by (auto simp: stage_def d1 read_page_push split: option.splits)
  have keep: "placed E h dir1 ?src keep"
    using sp page unfolding placed_def by (auto simp: route dom_def split: if_splits)
  have gone: "placed E h dir1 target gone"
    using sp page unfolding placed_def by (auto simp: route dom_def split: if_splits)
  have other: "placed E h dir1 b p" if "placed E h dir b p" "b \<noteq> ?src" for b p
    using that unfolding placed_def by (auto simp: route)
  show "staged_ok E f h dict dir1 staged2"
    unfolding staged_ok_def
  proof (intro conjI ballI allI impI)
    show "dir_ok dir1" using assms(2) by (simp add: dir_ok_def len)
    show "bt_ok staged2" by (rule assms(6))
    fix b assume "b \<in> dom (map_of staged2)"
    then show "b < dir_len dir1"
      using assms(1, 7) src by (auto simp: len d1(2) staged_ok_def less_Suc_eq)
  next
    fix b assume b: "b < dir_len dir1"
    show "\<exists>p. stage E f h dict dir1 staged2 b = Ok p \<and> placed E h dir1 b p"
    proof (cases "b = target \<or> b = ?src")
      case False
      then have "b < dir_len dir" using b len d1(2) by simp
      then obtain p where "stage E f h dict dir staged b = Ok p" "placed E h dir b p" by (rule staged_okD [OF assms(1)])
      then show ?thesis using st [OF b] False other by auto
    qed (use st [OF b] keep gone in auto)
  qed
  have "bucket_of ?H dir1 k < dir_len dir1" using bucket_of_less [OF ok, of ?H k] src by (auto simp: route len d1(2))
  moreover have "target \<noteq> bucket_of ?H dir k" "target \<noteq> ?src"
    using bucket_of_less [OF ok, of ?H k] src by (simp_all add: d1(2))
  ultimately show "stage_view E f h dict dir1 staged2 k = stage_view E f h dict dir staged k"
    using st [of "bucket_of ?H dir1 k"] sp(5, 6) [of k] assms(3) by (auto simp: stage_view_def route)
  assume fits: "stage_fits E f h dict dir staged"
  have "page_fits (sp_records page)" using fits src assms(3) by (simp add: stage_fits_def)
  then have "page_fits (sp_records keep)" "page_fits (sp_records gone)"
    using page_fits_subset [OF pok sp(1)] page_fits_subset [OF pok sp(2)] sp(5, 6)
    by (auto simp: map_le_def dom_def split: if_splits)
  then show "stage_fits E f h dict dir1 staged2"
    using fits st len d1(2) unfolding stage_fits_def by (auto simp: less_Suc_eq split: if_splits)
qed

lemma plan_splits_correct:
  assumes "staged_ok E f h dict dir staged" "dir_len dir + n < 2 ^ 32"
    "bt_ok pages" "map_of pages = map_option (image_of E dict) \<circ> map_of staged"
  shows "\<exists>dir' staged' pages' m. plan_splits E f h tgt dict n (dir, staged, pages) = Ok (dir', staged', pages')
    \<and> staged_ok E f h dict dir' staged' \<and> stage_view E f h dict dir' staged' = stage_view E f h dict dir staged
    \<and> bt_ok pages' \<and> map_of pages' = map_option (image_of E dict) \<circ> map_of staged'
    \<and> m \<le> n \<and> dir_slots dir' = dir_slots dir @ replicate m desc_EMPTY \<and> dir_seed dir' = dir_seed dir
    \<and> dom (map_of staged) \<union> {dir_len dir..<dir_len dir'} \<subseteq> dom (map_of staged')
    \<and> (stage_fits E f h dict dir staged \<longrightarrow> stage_fits E f h dict dir' staged')"
  using assms
proof (induction n arbitrary: dir staged pages)
  case 0
  then show ?case by (intro exI [of _ dir] exI [of _ staged] exI [of _ pages] exI [of _ 0]) simp
next
  case (Suc n)
  let ?src = "unat (dir_next_split dir)"
  have src: "?src < dir_len dir" using Suc.prems(1) next_split_less by (simp add: staged_ok_def)
  then obtain blks where blks: "planned_blocks dir pages ?src = Some blks"
    by (cases "map_of pages ?src") (auto simp: planned_blocks_def descriptor_def)
  show ?case
  proof (cases "blks \<le> tgt")
    case True
    with blks Suc.prems show ?thesis
      by (intro exI [of _ dir] exI [of _ staged] exI [of _ pages] exI [of _ 0]) (simp add: Let_def)
  next
    case False
    obtain page st where p: "staged_page E f h dict dir ?src staged = Ok (page, st)"
      "stage E f h dict dir staged ?src = Ok page" "bt_ok st" "map_of st = (map_of staged)(?src \<mapsto> page)"
      by (rule staged_page_stage [OF Suc.prems(1) src])
    obtain keep gone where sp: "split_page E h dir page = (keep, gone)" by fastforce
    obtain target dir1 where pb: "push_bucket desc_EMPTY dir = (target, dir1)" by fastforce
    let ?st = "bt_insert target gone (bt_insert ?src keep st)"
    let ?pg = "bt_insert target (image_of E dict gone) (bt_insert ?src (image_of E dict keep) pages)"
    have st: "bt_ok ?st" "map_of ?st = (map_of staged)(?src \<mapsto> keep, target \<mapsto> gone)" using p(3, 4) by simp_all
    have pg: "bt_ok ?pg" "map_of ?pg = map_option (image_of E dict) \<circ> map_of ?st"
      using Suc.prems(3, 4) st by (simp_all add: fun_eq_iff)
    note ss = split_step [OF Suc.prems(1) _ p(2) sp pb st]
    have len: "dir_len dir1 = Suc (dir_len dir)" "target = dir_len dir" "dir_slots dir1 = dir_slots dir @ [desc_EMPTY]"
      "dir_seed dir1 = dir_seed dir"
      using pb by (auto simp: push_bucket_def dir_len_def)
    have lt: "dir_len dir + 1 < 2 ^ 32" "dir_len dir1 + n < 2 ^ 32" using Suc.prems(2) len by simp_all
    obtain dir' staged' pages' m where r: "plan_splits E f h tgt dict n (dir1, ?st, ?pg) = Ok (dir', staged', pages')"
      "staged_ok E f h dict dir' staged'" "stage_view E f h dict dir' staged' = stage_view E f h dict dir1 ?st"
      "bt_ok pages'" "map_of pages' = map_option (image_of E dict) \<circ> map_of staged'" "m \<le> n"
      "dir_slots dir' = dir_slots dir1 @ replicate m desc_EMPTY" "dir_seed dir' = dir_seed dir1"
      "dom (map_of ?st) \<union> {dir_len dir1..<dir_len dir'} \<subseteq> dom (map_of staged')"
      "stage_fits E f h dict dir1 ?st \<longrightarrow> stage_fits E f h dict dir' staged'"
      using Suc.IH [OF ss(1) [OF lt(1)] lt(2) pg] by blast
    have "plan_splits E f h tgt dict (Suc n) (dir, staged, pages) = Ok (dir', staged', pages')"
      using r(1) False by (simp add: blks p(1) sp pb Let_def)
    moreover have "stage_view E f h dict dir' staged' = stage_view E f h dict dir staged"
      using r(3) ss(2) [OF lt(1)] by (simp add: fun_eq_iff)
    moreover have "dir_slots dir' = dir_slots dir @ replicate (Suc m) desc_EMPTY" using r(7) len(3) by simp
    moreover have "dom (map_of staged) \<union> {dir_len dir..<dir_len dir'} \<subseteq> dom (map_of staged')"
    proof -
      have "insert target (insert ?src (dom (map_of staged))) \<subseteq> dom (map_of ?st)" unfolding st(2) by auto
      moreover have "{dir_len dir..<dir_len dir'} \<subseteq> insert target {dir_len dir1..<dir_len dir'}" using len by auto
      ultimately show ?thesis using r(9) by blast
    qed
    ultimately show ?thesis
      using r(2, 4, 5, 6, 8, 10) len(4) ss(3) [OF lt(1)]
      by (intro exI [of _ dir'] exI [of _ staged'] exI [of _ pages'] exI [of _ "Suc m"]) simp
  qed
qed

section \<open>The plan of a slot\<close>

definition slot_dir :: "seed \<Rightarrow> struct_storage \<Rightarrow> directory" where
  "slot_dir seed s = (case ss_dir s of Some d \<Rightarrow> d | None \<Rightarrow> dir_new seed)"

definition slot_pages_ok :: "libs \<Rightarrow> block_file \<Rightarrow> seed \<Rightarrow> struct_storage \<Rightarrow> bool" where
  "slot_pages_ok E f seed s \<longleftrightarrow> staged_ok E f (ss_hash s) (ss_dict s) (slot_dir seed s) []
     \<and> dict_len (ds_dict (ss_dict s)) \<le> DICT_CAP"

definition page_view :: "libs \<Rightarrow> block_file \<Rightarrow> seed \<Rightarrow> struct_storage \<Rightarrow> u128 \<rightharpoonup> byte list" where
  "page_view E f seed s = stage_view E f (ss_hash s) (ss_dict s) (slot_dir seed s) []"

lemma stage_Nil [simp]: "stage E f h dict dir [] b = read_page E f h dict dir b"
  by (simp add: stage_def)

lemma is_allocated_EMPTY [simp]: "\<not> is_allocated desc_EMPTY"
  by (simp add: is_allocated_def desc_EMPTY_def desc_count_def)

lemma dir_new_facts [simp]: "dir_len (dir_new seed) = 1" "dir_ok (dir_new seed)" "dir_slots (dir_new seed) = [desc_EMPTY]"
  "dir_seed (dir_new seed) = seed"
  by (simp_all add: dir_new_def dir_len_def dir_ok_def)

lemma fresh_dir_ok: "staged_ok E f h dict (dir_new seed) []"
  by (auto simp: staged_ok_def read_page_def descriptor_def placed_def page_new_def page_ok_def)

lemma slot_fresh_ok: "ss_dir s = None \<Longrightarrow> dict_len (ds_dict (ss_dict s)) \<le> DICT_CAP \<Longrightarrow> slot_pages_ok E f seed s"
  by (simp add: slot_pages_ok_def slot_dir_def fresh_dir_ok)

text \<open>What a plan records: page images of a staging that finds every record.\<close>

definition plan_ok ::
    "libs \<Rightarrow> block_file \<Rightarrow> seed \<Rightarrow> struct_storage \<Rightarrow> wave_id list \<Rightarrow> dict_state \<Rightarrow> slot_plan \<Rightarrow> staged \<Rightarrow> bool" where
  "plan_ok E f seed s ids d plan staged \<longleftrightarrow>
     staged_ok E f (ss_hash s) d (pl_dir plan) staged
   \<and> stage_view E f (ss_hash s) d (pl_dir plan) staged =
       (\<lambda>k. if k \<in> raw ` set ids then map_of (ss_cache s) k else page_view E f seed s k)
   \<and> bt_ok (pl_pages plan) \<and> map_of (pl_pages plan) = map_option (image_of E d) \<circ> map_of staged
   \<and> pl_cleared plan = filter (\<lambda>i. ss_get s i = None) ids
   \<and> (pl_dict plan = None \<longrightarrow> d = ss_dict s) \<and> (\<forall>b. pl_dict plan = Some b \<longrightarrow> b = ds_image E d)
   \<and> dict_extends (ds_dict (ss_dict s)) (ds_dict d) \<and> dict_len (ds_dict d) \<le> DICT_CAP
   \<and> ds_enabled d = ds_enabled (ss_dict s) \<and> ds_desc d = ds_desc (ss_dict s)
   \<and> (\<exists>m\<le>MAX_SPLITS_PER_ROUND. dir_slots (pl_dir plan) = dir_slots (slot_dir seed s) @ replicate m desc_EMPTY)
   \<and> dir_seed (pl_dir plan) = dir_seed (slot_dir seed s)
   \<and> {dir_len (slot_dir seed s)..<dir_len (pl_dir plan)} \<subseteq> dom (map_of staged)
   \<and> (ids \<noteq> [] \<longrightarrow> pl_pages plan \<noteq> [])"

lemma map_of_images: "map_of (map (\<lambda>(b, p). (b, g p)) st) = map_option g \<circ> map_of st"
  by (induction st) (auto simp: fun_eq_iff)

lemma bt_ok_images: "bt_ok (map (\<lambda>(b, p). (b, g p)) st) \<longleftrightarrow> bt_ok st"
  by (simp add: comp_def case_prod_unfold)

text \<open>The pages a round stages stay within their length fields.\<close>

definition ids_fit :: "libs \<Rightarrow> block_file \<Rightarrow> seed \<Rightarrow> struct_storage \<Rightarrow> wave_id list \<Rightarrow> bool" where
  "ids_fit E f seed s ids \<longleftrightarrow>
     (case plan_ids E f s (slot_dir seed s) ids \<lparr>pa_dict = ss_dict s, pa_staged = [], pa_cleared = [], pa_grew = False\<rparr> of
        (_, Ok acc) \<Rightarrow> list_all (\<lambda>(b, p). page_fits (sp_records p)) (pa_staged acc)
      | _ \<Rightarrow> False)"

lemma stage_fits_extends:
  assumes "staged_ok E f h d dir []" "stage_fits E f h d dir []" "dict_extends (ds_dict d) (ds_dict d')"
    "list_all (\<lambda>(b, p). page_fits (sp_records p)) staged"
  shows "stage_fits E f h d' dir staged"
  unfolding stage_fits_def
proof (intro allI impI)
  fix b p assume b: "b < dir_len dir" "stage E f h d' dir staged b = Ok p"
  show "page_fits (sp_records p)"
  proof (cases "map_of staged b")
    case None
    obtain q where q: "read_page E f h d dir b = Ok q" using staged_okD [OF assms(1) b(1)] by (auto simp: stage_def)
    with read_page_extends [OF q assms(3)] None b assms(2) show ?thesis by (auto simp: stage_def stage_fits_def)
  next
    case (Some q)
    then have "(b, q) \<in> set staged" by (rule map_of_SomeD)
    then show ?thesis using Some b(2) assms(4) by (auto simp: stage_def list_all_iff)
  qed
qed

lemma plan_slot_correct:
  assumes "slot_pages_ok E f seed s" "dir_len (slot_dir seed s) + MAX_SPLITS_PER_ROUND < 2 ^ 32"
  obtains d plan staged where "plan_slot E f seed tgt idx ids s = (s\<lparr>ss_dict := d\<rparr>, Ok plan)" "pl_idx plan = idx"
    "plan_ok E f seed s ids d plan staged"
    "stage_fits E f (ss_hash s) (ss_dict s) (slot_dir seed s) [] \<Longrightarrow> ids_fit E f seed s ids \<Longrightarrow>
      stage_fits E f (ss_hash s) d (pl_dir plan) staged"
proof -
  let ?acc = "\<lparr>pa_dict = ss_dict s, pa_staged = [], pa_cleared = [], pa_grew = False\<rparr>" and ?dir = "slot_dir seed s"
  have s0: "staged_ok E f (ss_hash s) (pa_dict ?acc) ?dir (pa_staged ?acc)" using assms(1) by (simp add: slot_pages_ok_def)
  obtain acc where a: "plan_ids E f s ?dir ids ?acc = (pa_dict acc, Ok acc)"
    "staged_ok E f (ss_hash s) (pa_dict acc) ?dir (pa_staged acc)"
    "stage_view E f (ss_hash s) (pa_dict acc) ?dir (pa_staged acc) =
        (\<lambda>k. if k \<in> raw ` set ids then map_of (ss_cache s) k else page_view E f seed s k)"
    "dict_extends (ds_dict (ss_dict s)) (ds_dict (pa_dict acc))"
    "ds_enabled (pa_dict acc) = ds_enabled (ss_dict s)" "ds_desc (pa_dict acc) = ds_desc (ss_dict s)"
    "dict_len (ds_dict (pa_dict acc)) \<le> DICT_CAP" "pa_cleared acc = filter (\<lambda>i. ss_get s i = None) ids"
    "\<not> pa_grew acc \<Longrightarrow> pa_dict acc = ss_dict s" "ids \<noteq> [] \<Longrightarrow> pa_staged acc \<noteq> []"
    using plan_ids_correct [OF s0, of ids, unfolded plan_acc.simps, folded page_view_def] assms(1)
    by (auto simp: slot_pages_ok_def)
  let ?pages = "map (\<lambda>(b, p). (b, image_of E (pa_dict acc) p)) (pa_staged acc)"
  have "bt_ok ?pages" unfolding bt_ok_images using a(2) by (simp add: staged_ok_def)
  from plan_splits_correct [OF a(2) assms(2) this map_of_images, of tgt]
  obtain dir' staged' pages' m where r: "plan_splits E f (ss_hash s) tgt (pa_dict acc) MAX_SPLITS_PER_ROUND (?dir, pa_staged acc, ?pages) = Ok (dir', staged', pages')"
    "staged_ok E f (ss_hash s) (pa_dict acc) dir' staged'"
    "stage_view E f (ss_hash s) (pa_dict acc) dir' staged' = stage_view E f (ss_hash s) (pa_dict acc) ?dir (pa_staged acc)"
    "bt_ok pages'" "map_of pages' = map_option (image_of E (pa_dict acc)) \<circ> map_of staged'" "m \<le> MAX_SPLITS_PER_ROUND"
    "dir_slots dir' = dir_slots ?dir @ replicate m desc_EMPTY" "dir_seed dir' = dir_seed ?dir"
    "dom (map_of (pa_staged acc)) \<union> {dir_len ?dir..<dir_len dir'} \<subseteq> dom (map_of staged')"
    "stage_fits E f (ss_hash s) (pa_dict acc) ?dir (pa_staged acc) \<longrightarrow> stage_fits E f (ss_hash s) (pa_dict acc) dir' staged'"
    by (elim exE conjE) (rule that; assumption)
  let ?plan = "\<lparr>pl_idx = idx, pl_dir = dir', pl_pages = pages',
    pl_dict = (if pa_grew acc then Some (ds_image E (pa_dict acc)) else None), pl_cleared = pa_cleared acc\<rparr>"
  show ?thesis
  proof (rule that [of "pa_dict acc" ?plan staged'])
    show "plan_slot E f seed tgt idx ids s = (s\<lparr>ss_dict := pa_dict acc\<rparr>, Ok ?plan)"
      using a(1) r(1) by (simp add: plan_slot_def slot_dir_def Let_def)
    have "pages' \<noteq> []" if "ids \<noteq> []"
    proof -
      have "dom (map_of (pa_staged acc)) \<noteq> {}" using a(10) [OF that] by (cases "pa_staged acc") auto
      then have "dom (map_of staged') \<noteq> {}" using r(9) by blast
      moreover have "dom (map_of pages') = dom (map_of staged')" unfolding r(5) by auto
      ultimately have "dom (map_of pages') \<noteq> {}" by simp
      then show ?thesis by auto
    qed
    then show "plan_ok E f seed s ids (pa_dict acc) ?plan staged'"
      using a(1-9) r unfolding plan_ok_def by (auto split: if_splits)
    assume "stage_fits E f (ss_hash s) (ss_dict s) ?dir []" "ids_fit E f seed s ids"
    with stage_fits_extends [of E f "ss_hash s" "ss_dict s" ?dir "pa_dict acc" "pa_staged acc"] s0 a(1, 4)
    have "stage_fits E f (ss_hash s) (pa_dict acc) ?dir (pa_staged acc)" by (simp add: ids_fit_def)
    then show "stage_fits E f (ss_hash s) (pa_dict acc) (pl_dir ?plan) staged'" using r(10) by simp
  qed simp
qed

end
