(* ===== verification/Edit_Log.thy ===== *)
theory Edit_Log
  imports Slot_Laws
begin

text \<open>
  The addressing log (\<open>wavedb-storage/src/edit.rs\<close>, \<open>meta_log.rs\<close>): the chunk of descriptor changes
  each settle window carries, the chain of chunks in \<open>data.bin\<close>, the walk that finds it again, the
  fold that rebuilds the directories, and the bookkeeping that decides when to write a snapshot.
  \<open>chunk_of\<close> and its helpers, which read the store, are in the theory of the store.
\<close>

section \<open>Chunks\<close>

abbreviation MAX_EDIT_CHUNKS :: nat where "MAX_EDIT_CHUNKS \<equiv> 1024"

record slot_edit =
  se_hash :: u64
  se_buckets :: u32
  se_changed :: "(u32 \<times> u64) list"
  se_dict :: "u64 option"

record edit_chunk =
  ec_prev :: u64
  ec_slots :: "slot_edit list"

definition wire_slot_edit :: "slot_edit wire" where
  "wire_slot_edit = wire_struct (\<lambda>e. (se_hash e, se_buckets e, se_changed e, se_dict e))
     (\<lambda>(h, n, c, d). \<lparr>se_hash = h, se_buckets = n, se_changed = c, se_dict = d\<rparr>)
     (wire_tuple4 wire_u64 wire_u32 (wire_vec (wire_tuple2 wire_u32 wire_u64)) (wire_option wire_u64))"

definition wire_edit_chunk :: "edit_chunk wire" where
  "wire_edit_chunk = wire_struct (\<lambda>c. (ec_prev c, ec_slots c)) (\<lambda>(p, s). \<lparr>ec_prev = p, ec_slots = s\<rparr>)
     (wire_tuple2 wire_u64 (wire_vec wire_slot_edit))"

definition edit_encode :: "libs \<Rightarrow> edit_chunk \<Rightarrow> byte list" where
  "edit_encode E c = frame_image (crc32 E) wire_edit_chunk c"

definition read_chunk :: "libs \<Rightarrow> block_file \<Rightarrow> run \<Rightarrow> edit_chunk sres" where
  "read_chunk E f r =
     try_then (read_run f r) (\<lambda>bytes.
     try_then (framed_body ''edit chunk header'' ''edit chunk length'' bytes) (\<lambda>body.
     map_err (\<lambda>_. Corrupt ''edit chunk'') (from_wire_checked (crc32 E) wire_edit_chunk body)))"

function walk_loop :: "libs \<Rightarrow> block_file \<Rightarrow> block_descriptor \<Rightarrow> block_descriptor list \<Rightarrow> block_descriptor list sres" where
  "walk_loop E f cursor chain =
     (if is_allocated cursor then
        if length chain > MAX_EDIT_CHUNKS then Err (Corrupt ''edit chain too long'')
        else (case read_chunk E f (desc_run cursor) of
            None \<Rightarrow> None
          | Err e \<Rightarrow> Err e
          | Ok chunk \<Rightarrow> walk_loop E f (BlockDescriptor (ec_prev chunk)) (chain @ [cursor]))
      else Ok (rev chain))"
  by pat_completeness auto
termination
  by (relation "measure (\<lambda>(E, f, cursor, chain). 1025 - length chain)") auto

declare walk_loop.simps [simp del]

definition walk :: "libs \<Rightarrow> block_file \<Rightarrow> block_descriptor \<Rightarrow> block_descriptor list sres" where
  "walk E f head = walk_loop E f head []"

definition every_bucket :: "block_descriptor list \<Rightarrow> (u32 \<times> u64) list" where
  "every_bucket slots = map (\<lambda>(b, d). (of_nat b, desc_raw d)) (enumerate 0 slots)"

section \<open>Replay\<close>

record replay_state =
  rp_slots :: "(u64 \<times> u64 list) list"
  rp_dicts :: "(u64 \<times> u64) list"

definition replay_empty :: replay_state where
  "replay_empty = \<lparr>rp_slots = [], rp_dicts = []\<rparr>"

fun apply_changed :: "(u32 \<times> u64) list \<Rightarrow> u64 list \<Rightarrow> u64 list sres" where
  "apply_changed [] addresses = Ok addresses"
| "apply_changed ((bucket, r) # changed) addresses =
     (if unat bucket < length addresses then apply_changed changed (addresses[unat bucket := r])
      else Err (Corrupt ''edit chunk bucket out of range''))"

definition apply_edit :: "slot_edit \<Rightarrow> replay_state \<Rightarrow> replay_state sres" where
  "apply_edit e r =
     (let old = (case map_of (rp_slots r) (se_hash e) of Some a \<Rightarrow> a | None \<Rightarrow> []);
          addresses = (if length old < unat (se_buckets e) then old @ replicate (unat (se_buckets e) - length old) 0 else old)
      in try_then (apply_changed (se_changed e) addresses) (\<lambda>a.
           Ok (r\<lparr>rp_slots := bt_insert (se_hash e) a (rp_slots r),
                 rp_dicts := (case se_dict e of None \<Rightarrow> rp_dicts r | Some d \<Rightarrow> bt_insert (se_hash e) d (rp_dicts r))\<rparr>)))"

fun apply_edits :: "slot_edit list \<Rightarrow> replay_state \<Rightarrow> replay_state sres" where
  "apply_edits [] r = Ok r"
| "apply_edits (e # es) r = try_then (apply_edit e r) (apply_edits es)"

definition replay_apply :: "edit_chunk \<Rightarrow> replay_state \<Rightarrow> replay_state sres" where
  "replay_apply chunk r = apply_edits (ec_slots chunk) r"

section \<open>The log's bookkeeping\<close>

abbreviation COMPACT_FLOOR_BLOCKS :: nat where "COMPACT_FLOOR_BLOCKS \<equiv> 16"

record meta_log =
  ml_snapshot :: block_descriptor
  ml_edits :: "block_descriptor list"
  ml_edit_blocks :: nat

definition meta_default :: meta_log where
  "meta_default = \<lparr>ml_snapshot = desc_EMPTY, ml_edits = [], ml_edit_blocks = 0\<rparr>"

definition meta_restored :: "block_descriptor list \<Rightarrow> meta_log" where
  "meta_restored chain =
     (let snapshot = (case chain of [] \<Rightarrow> desc_EMPTY | d # _ \<Rightarrow> d); edits = tl chain
      in \<lparr>ml_snapshot = snapshot, ml_edits = edits,
          ml_edit_blocks = sum_list (map (\<lambda>d. unat (desc_count d)) edits)\<rparr>)"

definition wants_snapshot :: "meta_log \<Rightarrow> bool" where
  "wants_snapshot m \<longleftrightarrow> length (ml_edits m) \<ge> MAX_EDIT_CHUNKS
     \<or> ml_edit_blocks m \<ge> max (unat (desc_count (ml_snapshot m))) COMPACT_FLOOR_BLOCKS"

text \<open>The runs superseded and the log after the chunk.\<close>

definition meta_record :: "block_descriptor \<Rightarrow> bool \<Rightarrow> meta_log \<Rightarrow> run list \<times> meta_log" where
  "meta_record chunk full m =
     (if \<not> full then ([], m\<lparr>ml_edit_blocks := ml_edit_blocks m + unat (desc_count chunk), ml_edits := ml_edits m @ [chunk]\<rparr>)
      else (map desc_run (ml_edits m) @ (if is_allocated (ml_snapshot m) then [desc_run (ml_snapshot m)] else []),
            \<lparr>ml_snapshot = chunk, ml_edits = [], ml_edit_blocks = 0\<rparr>))"

definition meta_runs :: "meta_log \<Rightarrow> run list" where
  "meta_runs m = map desc_run (filter is_allocated (ml_edits m @ [ml_snapshot m]))"

definition meta_head :: "meta_log \<Rightarrow> u64" where
  "meta_head m = desc_raw (if ml_edits m = [] then ml_snapshot m else last (ml_edits m))"

section \<open>The chain is found again\<close>

interpretation wpair: wave_wire "wire_tuple2 wire_u32 wire_u64" "\<lambda>_. True"
  using wire_tuple2_ok [OF wu32.wave_wire_axioms wu64.wave_wire_axioms] by (simp add: case_prod_unfold)

lemma vec_heap_pairs [simp]: "vec_heap_size (wire_tuple2 wire_u32 wire_u64) c = 12 * length c"
  by (induction c) auto

definition valid_slot_edit :: "slot_edit \<Rightarrow> bool" where
  "valid_slot_edit e \<longleftrightarrow> 12 * length (se_changed e) < 2 ^ 32"

interpretation wedit: wave_wire wire_slot_edit valid_slot_edit
proof -
  have v: "wave_wire (wire_vec (wire_tuple2 wire_u32 wire_u64)) (valid_vec (wire_tuple2 wire_u32 wire_u64) (\<lambda>_. True))"
    by (rule wpair.wire_vec_ok) (simp add: nonempty_units_def)
  show "wave_wire wire_slot_edit valid_slot_edit"
    using wire_struct_ok [OF wire_tuple4_ok [OF wu64.wave_wire_axioms wu32.wave_wire_axioms v wu64.wire_option_ok],
        of "\<lambda>(h, n, c, d). \<lparr>se_hash = h, se_buckets = n, se_changed = c, se_dict = d\<rparr>"
          "\<lambda>e. (se_hash e, se_buckets e, se_changed e, se_dict e)"]
    by (simp add: wire_slot_edit_def valid_vec_def list_all_iff valid_slot_edit_def [abs_def] option.case_eq_if)
qed

definition edit_bytes :: "slot_edit \<Rightarrow> nat" where
  "edit_bytes e = 17 + 12 * length (se_changed e) + (case se_dict e of None \<Rightarrow> 0 | Some _ \<Rightarrow> 8)"

definition valid_chunk :: "edit_chunk \<Rightarrow> bool" where
  "valid_chunk c \<longleftrightarrow> sum_list (map edit_bytes (ec_slots c)) < 2 ^ 32 - 4200"

lemma valid_chunk_edits: "valid_chunk c \<Longrightarrow> e \<in> set (ec_slots c) \<Longrightarrow> valid_slot_edit e"
proof -
  assume c: "valid_chunk c" "e \<in> set (ec_slots c)"
  then have "edit_bytes e \<in> set (map edit_bytes (ec_slots c))" by simp
  from member_le_sum_list [OF this] c(1) show ?thesis
    by (simp add: valid_chunk_def valid_slot_edit_def edit_bytes_def)
qed

lemma edit_unit: "STACK_SIZE wire_slot_edit + heap_size wire_slot_edit e = edit_bytes e"
  by (simp add: wire_slot_edit_def edit_bytes_def wire_tuple4_nested split: option.splits)

lemma vec_heap_edits: "vec_heap_size wire_slot_edit es = sum_list (map edit_bytes es)"
  by (induction es) (simp_all add: edit_unit)

interpretation wchunk: wave_wire wire_edit_chunk
  "\<lambda>c. list_all valid_slot_edit (ec_slots c) \<and> vec_heap_size wire_slot_edit (ec_slots c) < 2 ^ 32"
proof -
  have v: "wave_wire (wire_vec wire_slot_edit) (valid_vec wire_slot_edit valid_slot_edit)"
    by (rule wedit.wire_vec_ok) (simp add: nonempty_units_def wire_slot_edit_def wire_tuple4_nested)
  show "wave_wire wire_edit_chunk (\<lambda>c. list_all valid_slot_edit (ec_slots c) \<and> vec_heap_size wire_slot_edit (ec_slots c) < 2 ^ 32)"
    using wire_struct_ok [OF wire_tuple2_ok [OF wu64.wave_wire_axioms v],
        of "\<lambda>(p, s). \<lparr>ec_prev = p, ec_slots = s\<rparr>" "\<lambda>c. (ec_prev c, ec_slots c)"]
    by (simp add: wire_edit_chunk_def valid_vec_def)
qed

lemma valid_chunk_wire:
  assumes "valid_chunk c"
  shows "list_all valid_slot_edit (ec_slots c) \<and> vec_heap_size wire_slot_edit (ec_slots c) < 2 ^ 32"
  using assms valid_chunk_edits [OF assms] by (auto simp: list_all_iff vec_heap_edits valid_chunk_def)

lemma length_chunk: "valid_chunk c \<Longrightarrow> length (to_wire wire_edit_chunk c) = 12 + sum_list (map edit_bytes (ec_slots c))"
  using wchunk.to_wire_length [OF valid_chunk_wire, of c] by (simp add: wire_edit_chunk_def vec_heap_edits)

text \<open>The length of a chunk depends on its shape only: the reservation pass predicts the final one.\<close>

lemma length_edit_encode: "valid_chunk c \<Longrightarrow> length (edit_encode E c) = 20 + sum_list (map edit_bytes (ec_slots c))"
  by (simp add: edit_encode_def length_frame_image length_checked length_chunk)

lemma chunk_reads_back:
  assumes "valid_chunk c" "read_run f r = Ok (edit_encode E c @ pad)"
  shows "read_chunk E f r = Ok c"
proof -
  have "frame_fits wire_edit_chunk c" using length_chunk [OF assms(1)] assms(1) by (simp add: frame_fits_def valid_chunk_def)
  then show ?thesis
    using assms(2) wchunk.checked_roundtrip [OF valid_chunk_wire [OF assms(1)]]
    by (simp add: read_chunk_def edit_encode_def framed_body_image)
qed

text \<open>Each chunk of the chain names the one before it.\<close>

fun links :: "libs \<Rightarrow> block_file \<Rightarrow> block_descriptor \<Rightarrow> block_descriptor list \<Rightarrow> bool" where
  "links E f p [] \<longleftrightarrow> True"
| "links E f p (c # cs) \<longleftrightarrow> is_allocated c
     \<and> (\<exists>chunk. read_chunk E f (desc_run c) = Ok chunk \<and> ec_prev chunk = desc_raw p) \<and> links E f c cs"

lemma links_snoc:
  "links E f p (cs @ [c]) \<longleftrightarrow> links E f p cs \<and> is_allocated c
     \<and> (\<exists>chunk. read_chunk E f (desc_run c) = Ok chunk \<and> ec_prev chunk = desc_raw (last (p # cs)))"
  by (induction cs arbitrary: p) auto

lemma walk_loop_links:
  "links E f p cs \<Longrightarrow> \<not> is_allocated p \<Longrightarrow> length cs + length acc \<le> MAX_EDIT_CHUNKS + 1 \<Longrightarrow>
    walk_loop E f (last (p # cs)) acc = Ok (cs @ rev acc)"
proof (induction cs arbitrary: acc rule: rev_induct)
  case Nil
  then show ?case by (subst walk_loop.simps) simp
next
  case (snoc c cs)
  then obtain chunk where c: "links E f p cs" "is_allocated c" "read_chunk E f (desc_run c) = Ok chunk"
    "ec_prev chunk = desc_raw (last (p # cs))"
    unfolding links_snoc by blast
  then have "walk_loop E f c acc = walk_loop E f (last (p # cs)) (acc @ [c])"
    using snoc.prems(3) by (subst walk_loop.simps) (simp del: last.simps)
  then show ?case using snoc.IH [OF c(1) snoc.prems(2), of "acc @ [c]"] snoc.prems(3) by (simp del: last.simps) simp
qed

lemma walk_links:
  "links E f desc_EMPTY cs \<Longrightarrow> length cs \<le> MAX_EDIT_CHUNKS + 1 \<Longrightarrow> walk E f (last (desc_EMPTY # cs)) = Ok cs"
  using walk_loop_links [of E f desc_EMPTY cs "[]"] by (simp add: walk_def)

text \<open>The walk always returns, however the pointers run: the chain is cut at the bound.\<close>

lemma read_chunk_returns: "returns (read_chunk E f r)"
proof -
  have "total_wire wire_edit_chunk"
    unfolding wire_edit_chunk_def wire_slot_edit_def wire_tuple4_nested wire_tuple3_nested
    by (intro wire_struct_total wire_tuple2_total wire_le_total total_wire.wire_vec_total wire_option_total) simp_all
  then show ?thesis
    by (simp add: read_chunk_def read_run_def Let_def framed_body_def total_wire.from_wire_checked_returns)
qed

lemma walk_loop_returns: "returns (walk_loop E f c chain)"
proof (induction E f c chain rule: walk_loop.induct)
  case (1 E f c chain)
  obtain r where r: "read_chunk E f (desc_run c) = Some r" using read_chunk_returns unfolding returns_def by blast
  show ?case using 1 [OF _ _ r] r by (subst walk_loop.simps, cases r) auto
qed

end
