(* ===== verification/Page_Store.thy ===== *)
theory Page_Store
  imports Edit_Log
begin

text \<open>
  The page store (\<open>wavedb-storage/src/page_store.rs\<close>, \<open>apply.rs\<close>, \<open>read_through.rs\<close>, \<open>settle.rs\<close>,
  \<open>checkpoint.rs\<close>, and the store-reading half of \<open>edit.rs\<close>): committing a batch to the journal and the
  per-type caches, settling queued ids into pages one window at a time, and evicting settled entries.

  The store is a record; an operation that can fail half-way returns the state it leaves together with
  its result, \<open>None\<close> being a panic.  Operations are sequential, as the locks order them.  The registry
  is sorted by struct hash without duplicates, so the binary search of the source is the position of the
  hash.
\<close>

section \<open>State\<close>

type_synonym touched = "(nat \<times> wave_id list) list"

record page_store =
  ps_file :: block_file
  ps_fs :: fs
  ps_journal :: journal
  ps_alloc :: allocator
  ps_meta :: meta_log
  ps_retiring :: "(journal \<times> nat) option"
  ps_types :: "struct_storage list"
  ps_seed :: seed
  ps_target :: nat
  ps_pending :: touched
  ps_relaxed :: bool \<comment> \<open>a durability window was asked for\<close>

fun slot_pos :: "u64 \<Rightarrow> struct_storage list \<Rightarrow> nat option" where
  "slot_pos h [] = None"
| "slot_pos h (s # ss) = (if ss_hash s = h then Some 0 else map_option Suc (slot_pos h ss))"

definition slot_of :: "page_store \<Rightarrow> u64 \<Rightarrow> struct_storage option" where
  "slot_of ps h = map_option (\<lambda>i. ps_types ps ! i) (slot_pos h (ps_types ps))"

section \<open>Reads\<close>

definition read_of :: "libs \<Rightarrow> page_store \<Rightarrow> u64 \<Rightarrow> wave_id \<Rightarrow> byte list option sres" where
  "read_of E ps h i = (case slot_of ps h of
      None \<Rightarrow> Ok None
    | Some s \<Rightarrow> (case ss_get s i of Some b \<Rightarrow> Ok (Some b) | None \<Rightarrow> read_from_pages E (ps_file ps) s i))"

fun read_any_pages :: "libs \<Rightarrow> block_file \<Rightarrow> wave_id \<Rightarrow> struct_storage list \<Rightarrow> byte list option sres" where
  "read_any_pages E f i [] = Ok None"
| "read_any_pages E f i (s # ss) = try_then (read_from_pages E f s i) (\<lambda>r.
     case r of Some b \<Rightarrow> Ok (Some b) | None \<Rightarrow> read_any_pages E f i ss)"

definition read_any :: "libs \<Rightarrow> page_store \<Rightarrow> wave_id \<Rightarrow> byte list option sres" where
  "read_any E ps i = (case List.find (\<lambda>s. ss_get s i \<noteq> None) (ps_types ps) of
      Some s \<Rightarrow> Ok (ss_get s i)
    | None \<Rightarrow> read_any_pages E (ps_file ps) i (ps_types ps))"

section \<open>Committing a batch\<close>

definition struct_hash_of :: "byte list \<Rightarrow> u64 sres" where
  "struct_hash_of b = (if length b < 8 then Err (Corrupt ''record shorter than STRUCT_HASH'') else Ok (from_le_bytes (take 8 b)))"

definition write_hash :: "write_op \<Rightarrow> u64 sres" where
  "write_hash w = (case w of Put _ b \<Rightarrow> struct_hash_of b | Remove h _ \<Rightarrow> Ok h | Expect h _ _ \<Rightarrow> Ok h)"

fun route_batch :: "page_store \<Rightarrow> write_op list \<Rightarrow> unit sres" where
  "route_batch ps [] = Ok ()"
| "route_batch ps (w # ws) = try_then (write_hash w) (\<lambda>h.
     if slot_of ps h = None then Err (UnregisteredStructHash h) else route_batch ps ws)"

fun note_touched :: "nat \<Rightarrow> wave_id \<Rightarrow> touched \<Rightarrow> touched" where
  "note_touched idx i [] = [(idx, [i])]"
| "note_touched idx i ((j, ids) # t) = (if j = idx then (j, ids @ [i]) # t else (j, ids) # note_touched idx i t)"

definition merge_touched :: "touched \<Rightarrow> touched \<Rightarrow> touched" where
  "merge_touched rnd queue = fold (\<lambda>(idx, ids) p. fold (note_touched idx) ids p) rnd queue"

text \<open>A write the route check did not accept panics.\<close>

fun commit_to_caches :: "write_op list \<Rightarrow> struct_storage list \<times> touched \<Rightarrow> (struct_storage list \<times> touched) option" where
  "commit_to_caches [] st = Some st"
| "commit_to_caches (Put i b # ws) (types, touched) =
     (case struct_hash_of b of
        Ok h \<Rightarrow> (case slot_pos h types of
            None \<Rightarrow> None
          | Some idx \<Rightarrow>
              let s = types ! idx
              in commit_to_caches ws
                   (types[idx := clear_removed i (s\<lparr>ss_cache := bt_insert (raw i) b (ss_cache s)\<rparr>)], note_touched idx i touched))
      | _ \<Rightarrow> None)"
| "commit_to_caches (Remove h i # ws) (types, touched) =
     (case slot_pos h types of
        None \<Rightarrow> None
      | Some idx \<Rightarrow>
          let s = types ! idx
          in commit_to_caches ws
               (types[idx := mark_removed i (s\<lparr>ss_cache := bt_remove (raw i) (ss_cache s)\<rparr>)], note_touched idx i touched))"
| "commit_to_caches (Expect _ _ _ # ws) st = commit_to_caches ws st"

fun check_guards :: "libs \<Rightarrow> page_store \<Rightarrow> write_op list \<Rightarrow> unit sres" where
  "check_guards E ps [] = Ok ()"
| "check_guards E ps (Expect h i expected # ws) = try_then (read_of E ps h i) (\<lambda>cur.
     if cur \<noteq> expected then Err (Core (Conflict i)) else check_guards E ps ws)"
| "check_guards E ps (_ # ws) = check_guards E ps ws"

definition is_expect :: "write_op \<Rightarrow> bool" where
  "is_expect w \<longleftrightarrow> (case w of Expect _ _ _ \<Rightarrow> True | _ \<Rightarrow> False)"

text \<open>\<open>elapsed\<close>: whether the durability window has passed since the last barrier, a clock reading.\<close>

definition apply_inner :: "libs \<Rightarrow> bool \<Rightarrow> write_op list \<Rightarrow> page_store \<Rightarrow> page_store sres" where
  "apply_inner E elapsed batch ps =
     try_then (route_batch ps batch) (\<lambda>_.
     try_then (check_guards E ps batch) (\<lambda>_.
     let effective = filter (\<lambda>w. \<not> is_expect w) batch;
         frame = Batch effective
     in try_then (if \<not> ps_relaxed ps then append (crc32 E) frame (ps_journal ps, ps_fs ps)
                  else try_then (append_deferred (crc32 E) frame (ps_journal ps, ps_fs ps)) (\<lambda>jd.
                       if elapsed then journal_sync jd else Ok jd)) (\<lambda>(j, d).
        case commit_to_caches effective (ps_types ps, []) of
          None \<Rightarrow> None
        | Some (types, touched) \<Rightarrow>
            Ok (ps\<lparr>ps_journal := j, ps_fs := d, ps_types := types, ps_pending := merge_touched touched (ps_pending ps)\<rparr>))))"

definition ps_flush :: "page_store \<Rightarrow> page_store sres" where
  "ps_flush ps = try_then (journal_sync (ps_journal ps, ps_fs ps)) (\<lambda>(j, d). Ok (ps\<lparr>ps_journal := j, ps_fs := d\<rparr>))"

section \<open>The edit chunk of a round\<close>

type_synonym dict_runs = "(nat \<times> block_descriptor) list"

text \<open>The descriptor of a planned bucket.  A directory index out of range would panic; plans only hold
  buckets of their directory.\<close>

definition planned_edit :: "page_store \<Rightarrow> bool \<Rightarrow> dict_runs \<Rightarrow> nat \<Rightarrow> slot_plan \<Rightarrow> slot_edit" where
  "planned_edit ps full dicts plan work =
     (let s = ps_types ps ! pl_idx work
      in \<lparr>se_hash = ss_hash s,
          se_buckets = of_nat (dir_len (pl_dir work)),
          se_changed = (if full then every_bucket (dir_slots (pl_dir work))
                        else map (\<lambda>(b, _). (of_nat b, desc_raw (dir_slots (pl_dir work) ! b))) (pl_pages work)),
          se_dict = (if pl_dict work \<noteq> None
                     then Some (case map_of dicts plan of None \<Rightarrow> 0 | Some d \<Rightarrow> desc_raw d)
                     else if full then Some (desc_raw (ds_desc (ss_dict s))) else None)\<rparr>)"

definition resident_edit :: "struct_storage \<Rightarrow> slot_edit option" where
  "resident_edit s = (case ss_dir s of
      None \<Rightarrow> None
    | Some dir \<Rightarrow> Some \<lparr>se_hash = ss_hash s, se_buckets = of_nat (dir_len dir),
        se_changed = every_bucket (dir_slots dir), se_dict = Some (desc_raw (ds_desc (ss_dict s)))\<rparr>)"

definition chunk_of :: "page_store \<Rightarrow> slot_plan list \<Rightarrow> bool \<Rightarrow> dict_runs \<Rightarrow> u64 \<Rightarrow> edit_chunk" where
  "chunk_of ps plans full dicts prev =
     \<lparr>ec_prev = prev,
      ec_slots = map (\<lambda>(n, work). planned_edit ps full dicts n work) (enumerate 0 plans) @
        (if full then List.map_filter (\<lambda>(idx, s). if \<exists>w\<in>set plans. pl_idx w = idx then None else resident_edit s)
                        (enumerate 0 (ps_types ps))
         else [])\<rparr>"

section \<open>Placing a round\<close>

datatype placement = BestFit | Tail

datatype target = TPage nat nat | TDict nat | TEdit

definition targets_of :: "slot_plan list \<Rightarrow> target list" where
  "targets_of plans = concat (map (\<lambda>(n, work).
     map (\<lambda>(b, _). TPage n b) (pl_pages work) @ (if pl_dict work \<noteq> None then [TDict n] else [])) (enumerate 0 plans))"

definition image_at :: "slot_plan list \<Rightarrow> byte list \<Rightarrow> target \<Rightarrow> byte list" where
  "image_at plans chunk t = (case t of
      TPage n b \<Rightarrow> (case map_of (pl_pages (plans ! n)) b of None \<Rightarrow> [] | Some x \<Rightarrow> x)
    | TDict n \<Rightarrow> (case pl_dict (plans ! n) of None \<Rightarrow> [] | Some x \<Rightarrow> x)
    | TEdit \<Rightarrow> chunk)"

definition size_of :: "slot_plan list \<Rightarrow> byte list \<Rightarrow> target \<Rightarrow> nat" where
  "size_of plans chunk t = blocks_of (image_at plans chunk t)"

fun carve_from :: "nat \<Rightarrow> nat list \<Rightarrow> run option list" where
  "carve_from cursor [] = []"
| "carve_from cursor (n # ns) =
     (if 0 < n then Some (Run cursor n) # carve_from (cursor + n) ns else None # carve_from cursor ns)"

definition carve :: "run \<Rightarrow> nat list \<Rightarrow> run option list" where
  "carve window sizes = carve_from (run_start window) sizes"

text \<open>Descriptors out of range panic.\<close>

fun install :: "(target \<times> run option) list \<Rightarrow> slot_plan list \<times> run list \<Rightarrow> (slot_plan list \<times> run list) option" where
  "install [] st = Some st"
| "install ((TPage n b, r) # ts) (plans, freed) =
     (let work = plans ! n;
          used = length (case map_of (pl_pages work) b of None \<Rightarrow> [] | Some x \<Rightarrow> x);
          desc = (case r of None \<Rightarrow> desc_EMPTY | Some run \<Rightarrow> from_run_used run used)
      in case (descriptor (pl_dir work) b, set_descriptor b desc (pl_dir work)) of
           (Some old, Some dir) \<Rightarrow>
             install ts (plans[n := work\<lparr>pl_dir := dir\<rparr>], if is_allocated old then freed @ [desc_run old] else freed)
         | _ \<Rightarrow> None)"
| "install (_ # ts) st = install ts st"

definition dict_run :: "target list \<Rightarrow> run option list \<Rightarrow> nat \<Rightarrow> run option" where
  "dict_run targets runs plan = (case List.find (\<lambda>(t, _). t = TDict plan) (zip targets runs) of
      None \<Rightarrow> None | Some (_, r) \<Rightarrow> r)"

definition dict_descriptors :: "slot_plan list \<Rightarrow> target list \<Rightarrow> run option list \<Rightarrow> dict_runs" where
  "dict_descriptors plans targets runs = List.map_filter (\<lambda>(n, work).
     map_option (\<lambda>r. (n, from_run_used r (length (case pl_dict work of None \<Rightarrow> [] | Some x \<Rightarrow> x))))
       (dict_run targets runs n)) (enumerate 0 plans)"

text \<open>A copy outside the window panics.\<close>

fun assemble_into :: "run \<Rightarrow> slot_plan list \<Rightarrow> byte list \<Rightarrow> (target \<times> run option) list \<Rightarrow> byte list \<Rightarrow> byte list option" where
  "assemble_into window plans chunk [] b = Some b"
| "assemble_into window plans chunk ((t, None) # ts) b = assemble_into window plans chunk ts b"
| "assemble_into window plans chunk ((t, Some r) # ts) b =
     (let bytes = image_at plans chunk t; at = (run_start r - run_start window) * BLOCK_SIZE
      in if at + length bytes \<le> length b then assemble_into window plans chunk ts (write_at at bytes b) else None)"

definition assemble :: "run \<Rightarrow> slot_plan list \<Rightarrow> target list \<Rightarrow> run option list \<Rightarrow> byte list \<Rightarrow> byte list option" where
  "assemble window plans targets runs chunk =
     assemble_into window plans chunk (zip targets runs) (replicate (byte_len window) 0)"

fun repoint_dicts :: "dict_runs \<Rightarrow> (nat \<times> slot_plan) list \<Rightarrow> struct_storage list \<times> allocator \<Rightarrow> struct_storage list \<times> allocator" where
  "repoint_dicts dicts [] st = st"
| "repoint_dicts dicts ((n, work) # ws) (types, a) =
     (case map_of dicts n of
        None \<Rightarrow> repoint_dicts dicts ws (types, a)
      | Some desc \<Rightarrow>
          let s = types ! pl_idx work; (old, d) = ds_repoint desc (ss_dict s)
          in repoint_dicts dicts ws (types[pl_idx work := s\<lparr>ss_dict := d\<rparr>], if is_allocated old then free (desc_run old) a else a))"

fun publish_dirs :: "slot_plan list \<Rightarrow> struct_storage list \<Rightarrow> struct_storage list" where
  "publish_dirs [] types = types"
| "publish_dirs (work # ws) types =
     publish_dirs ws (types[pl_idx work :=
       (fold clear_removed (pl_cleared work) (types ! pl_idx work))\<lparr>ss_dir := Some (pl_dir work)\<rparr>])"

definition publish :: "slot_plan list \<Rightarrow> dict_runs \<Rightarrow> struct_storage list \<times> allocator \<Rightarrow> struct_storage list \<times> allocator" where
  "publish plans dicts st =
     (let (types, a) = repoint_dicts dicts (enumerate 0 plans) st in (publish_dirs plans types, a))"

definition place_in :: "libs \<Rightarrow> slot_plan list \<Rightarrow> placement \<Rightarrow> page_store \<Rightarrow> page_store \<times> unit sres" where
  "place_in E plans placement ps =
     (let targets0 = targets_of plans
      in if targets0 = [] then (ps, Ok ())
         else
           let full = wants_snapshot (ps_meta ps);
               prev = (if full then 0 else meta_head (ps_meta ps));
               reserved = edit_encode E (chunk_of ps plans full [] prev);
               targets = targets0 @ [TEdit];
               sizes = map (size_of plans reserved) targets;
               total = sum_list sizes
           in case (case placement of BestFit \<Rightarrow> alloc total (ps_alloc ps) | Tail \<Rightarrow> alloc_tail total (ps_alloc ps)) of
               None \<Rightarrow> (ps, None)
             | Some (window, a) \<Rightarrow>
                 let ps1 = ps\<lparr>ps_alloc := a\<rparr>; runs = carve window sizes
                 in case install (zip targets runs) (plans, []) of
                     None \<Rightarrow> (ps1, None)
                   | Some (plans1, freed) \<Rightarrow>
                       let dicts = dict_descriptors plans1 targets runs;
                           chunk = edit_encode E (chunk_of ps plans1 full dicts prev)
                       in if length reserved < length chunk then (ps1, Err (Corrupt ''edit chunk outgrew its window''))
                          else case assemble window plans1 targets runs chunk of
                              None \<Rightarrow> (ps1, None)
                            | Some bytes \<Rightarrow>
                                (case write_run window bytes (ps_file ps) of
                                   None \<Rightarrow> (ps1, None)
                                 | Err e \<Rightarrow> (ps1, Err e)
                                 | Ok file1 \<Rightarrow>
                                     let a1 = fold free freed a;
                                         (stale, meta1) =
                                           (case last runs of
                                              None \<Rightarrow> ([], ps_meta ps)
                                            | Some r \<Rightarrow> meta_record (from_run_used r (length chunk)) full (ps_meta ps));
                                         a2 = fold free stale a1;
                                         (types1, a3) = publish plans1 dicts (ps_types ps, a2)
                                     in (ps\<lparr>ps_file := file1, ps_alloc := a3, ps_meta := meta1, ps_types := types1\<rparr>, Ok ())))"

section \<open>Settling\<close>

fun plan_all :: "libs \<Rightarrow> touched \<Rightarrow> page_store \<Rightarrow> page_store \<times> slot_plan list sres" where
  "plan_all E [] ps = (ps, Ok [])"
| "plan_all E ((idx, ids) # rnd) ps =
     (if idx < length (ps_types ps) then
        let (s, r) = plan_slot E (ps_file ps) (ps_seed ps) (ps_target ps) idx ids (ps_types ps ! idx);
            ps1 = ps\<lparr>ps_types := (ps_types ps)[idx := s]\<rparr>
        in case r of
            None \<Rightarrow> (ps1, None)
          | Err e \<Rightarrow> (ps1, Err e)
          | Ok plan \<Rightarrow> (case plan_all E rnd ps1 of (ps2, rs) \<Rightarrow> (ps2, try_then rs (\<lambda>plans. Ok (plan # plans))))
      else (ps, None))"

definition settle :: "libs \<Rightarrow> touched \<Rightarrow> page_store \<Rightarrow> page_store \<times> unit sres" where
  "settle E rnd ps = (case plan_all E rnd ps of
      (ps1, None) \<Rightarrow> (ps1, None)
    | (ps1, Err e) \<Rightarrow> (ps1, Err e)
    | (ps1, Ok plans) \<Rightarrow> place_in E plans BestFit ps1)"

definition relocate :: "libs \<Rightarrow> slot_plan list \<Rightarrow> page_store \<Rightarrow> page_store \<times> unit sres" where
  "relocate E plans ps = place_in E plans Tail ps"

datatype progress = Settled | Done

definition USIZE_MAX :: nat where
  "USIZE_MAX = 2 ^ 64 - 1"

text \<open>The loop of \<open>take_round\<close> works from the back of the queue: the queue is given reversed.\<close>

fun take_back :: "nat \<Rightarrow> touched \<Rightarrow> touched \<times> touched" where
  "take_back room [] = ([], [])"
| "take_back room ((idx, ids) # rest) =
     (if room = 0 then ([], (idx, ids) # rest)
      else if length ids \<le> room then
        let (rnd, left) = take_back (room - length ids) rest in ((idx, ids) # rnd, left)
      else let keep = length ids - room in ([(idx, drop keep ids)], (idx, take keep ids) # rest))"

definition take_round :: "nat \<Rightarrow> touched \<Rightarrow> touched \<times> touched" where
  "take_round budget queue =
     (if budget = USIZE_MAX then (queue, [])
      else let (rnd, left) = take_back budget (rev queue) in (rnd, rev left))"

fun extend_slot :: "nat \<Rightarrow> wave_id list \<Rightarrow> touched \<Rightarrow> touched" where
  "extend_slot idx ids [] = [(idx, ids)]"
| "extend_slot idx ids ((j, old) # t) = (if j = idx then (j, old @ ids) # t else (j, old) # extend_slot idx ids t)"

definition requeue :: "touched \<Rightarrow> touched \<Rightarrow> touched" where
  "requeue rnd queue = fold (\<lambda>(idx, ids) p. extend_slot idx ids p) rnd queue"

definition settle_step :: "libs \<Rightarrow> nat \<Rightarrow> page_store \<Rightarrow> page_store \<times> progress sres" where
  "settle_step E budget ps =
     (let (rnd, left) = take_round budget (ps_pending ps); ps1 = ps\<lparr>ps_pending := left\<rparr>
      in if rnd = [] then (ps1, Ok Done)
         else case settle E rnd ps1 of
             (ps2, Ok _) \<Rightarrow> (ps2, Ok Settled)
           | (ps2, Err e) \<Rightarrow> (ps2\<lparr>ps_pending := requeue rnd (ps_pending ps2)\<rparr>, Err e)
           | (ps2, None) \<Rightarrow> (ps2, None))"

text \<open>Nothing in the source bounds the loop: not returning is \<open>None\<close>.\<close>

partial_function (option) drain :: "libs \<Rightarrow> page_store \<Rightarrow> (page_store \<times> unit sres) option" where
  "drain E ps = (case settle_step E USIZE_MAX ps of
      (ps1, Ok p) \<Rightarrow> if p = Settled then drain E ps1 else Some (ps1, Ok ())
    | (ps1, Err e) \<Rightarrow> Some (ps1, Err e)
    | (ps1, None) \<Rightarrow> Some (ps1, None))"

definition has_pending :: "page_store \<Rightarrow> bool" where
  "has_pending ps \<longleftrightarrow> ps_pending ps \<noteq> []"

section \<open>Eviction\<close>

fun evict_types :: "nat \<Rightarrow> nat \<Rightarrow> struct_storage list \<Rightarrow> struct_storage list" where
  "evict_types budget used [] = []"
| "evict_types budget used (s # ss) =
     (if used \<le> budget then s # ss
      else let (freed, s1) = evict_up_to (used - budget) s in s1 # evict_types budget (used - freed) ss)"

definition evict_settled :: "nat \<Rightarrow> page_store \<Rightarrow> page_store" where
  "evict_settled budget ps =
     (if ps_pending ps \<noteq> [] then ps
      else ps\<lparr>ps_types := evict_types budget (sum_list (map cached_bytes (ps_types ps))) (ps_types ps)\<rparr>)"

section \<open>The store trait\<close>

text \<open>\<open>show\<close> is the \<open>Display\<close> text that the error derive generates.\<close>

definition to_core :: "(storage_error \<Rightarrow> string) \<Rightarrow> storage_error \<Rightarrow> core_error" where
  "to_core show e = (case e of Core c \<Rightarrow> c | other \<Rightarrow> Backend (show other))"

definition page_store_impl :: "libs \<Rightarrow> (storage_error \<Rightarrow> string) \<Rightarrow> bool \<Rightarrow> page_store store" where
  "page_store_impl E show elapsed =
     \<lparr>get_of = (\<lambda>ps h i. map_err (to_core show) (read_of E ps h i)),
      apply_batch = (\<lambda>ps batch. map_err (to_core show) (apply_inner E elapsed batch ps))\<rparr>"

end
