(* ===== verification/Engine_View.thy ===== *)
theory Engine_View
  imports Page_Store
begin

text \<open>
  What the page store answers: the view of a slot (cache over removals over settled pages), the
  invariant that ties the caches, the removal marks and the settle queue to the pages, and that
  committing a batch has exactly the batch's effect on the view.
\<close>

section \<open>The view of a slot\<close>

definition slot_view :: "libs \<Rightarrow> block_file \<Rightarrow> seed \<Rightarrow> struct_storage \<Rightarrow> u128 \<rightharpoonup> byte list" where
  "slot_view E f seed s k = (case map_of (ss_cache s) k of
      Some b \<Rightarrow> Some b
    | None \<Rightarrow> if k \<in> set (ss_dead s) then None else page_view E f seed s k)"

lemma page_view_fresh: "ss_dir s = None \<Longrightarrow> page_view E f seed s k = None"
  using bucket_of_less [of "dir_new seed" "hash_seeded E" k]
  by (simp add: page_view_def stage_view_def slot_dir_def read_page_def descriptor_def page_new_def)

lemma read_from_pages_view:
  assumes "slot_pages_ok E f seed s"
  shows "read_from_pages E f s i = Ok (if raw i \<in> set (ss_dead s) then None else page_view E f seed s (raw i))"
proof (cases "ss_dir s")
  case None
  then show ?thesis by (simp add: read_from_pages_def is_removed_def page_view_fresh)
next
  case (Some dir)
  let ?b = "bucket_of (hash_seeded E) dir (raw i)"
  have ok: "staged_ok E f (ss_hash s) (ss_dict s) dir []" using assms Some by (simp add: slot_pages_ok_def slot_dir_def)
  then have "?b < dir_len dir" by (intro bucket_of_less) (simp add: staged_ok_def)
  with ok obtain p where "stage E f (ss_hash s) (ss_dict s) dir [] ?b = Ok p" by (rule staged_okD)
  then show ?thesis
    using Some by (simp add: read_from_pages_def is_removed_def get_record_def page_view_def stage_view_def slot_dir_def page_get_def)
qed

text \<open>The pages depend only on the type, the directory and the dictionary.\<close>

lemma pages_cong:
  assumes "ss_hash s' = ss_hash s" "ss_dir s' = ss_dir s" "ss_dict s' = ss_dict s"
  shows "page_view E f seed s' = page_view E f seed s" "slot_pages_ok E f seed s' = slot_pages_ok E f seed s"
  using assms by (simp_all add: page_view_def slot_pages_ok_def slot_dir_def)

text \<open>\<open>P\<close>: the keys queued for settling.  What is cached and not queued is settled; a queued key without
  a cached value is one whose record is gone.\<close>

definition slot_ok :: "libs \<Rightarrow> block_file \<Rightarrow> seed \<Rightarrow> u128 set \<Rightarrow> struct_storage \<Rightarrow> bool" where
  "slot_ok E f seed P s \<longleftrightarrow> slot_pages_ok E f seed s \<and> bt_ok (ss_cache s) \<and> sorted_wrt (<) (ss_dead s)
     \<and> set (ss_dead s) \<inter> dom (map_of (ss_cache s)) = {} \<and> set (ss_dead s) \<subseteq> P
     \<and> (\<forall>k b. map_of (ss_cache s) k = Some b \<longrightarrow> k \<notin> P \<longrightarrow> page_view E f seed s k = Some b)
     \<and> (\<forall>k\<in>P. map_of (ss_cache s) k = None \<longrightarrow> k \<notin> set (ss_dead s) \<longrightarrow> page_view E f seed s k = None)"

lemma slot_okD:
  assumes "slot_ok E f seed P s"
  shows "slot_pages_ok E f seed s" "bt_ok (ss_cache s)" "sorted_wrt (<) (ss_dead s)"
    "set (ss_dead s) \<inter> dom (map_of (ss_cache s)) = {}" "set (ss_dead s) \<subseteq> P"
    "\<And>k b. map_of (ss_cache s) k = Some b \<Longrightarrow> k \<notin> P \<Longrightarrow> page_view E f seed s k = Some b"
    "\<And>k. k \<in> P \<Longrightarrow> map_of (ss_cache s) k = None \<Longrightarrow> k \<notin> set (ss_dead s) \<Longrightarrow> page_view E f seed s k = None"
  using assms unfolding slot_ok_def by blast+

lemma slot_view_unqueued:
  assumes "slot_ok E f seed P s" "k \<notin> P"
  shows "slot_view E f seed s k = page_view E f seed s k"
  using slot_okD [OF assms(1)] assms(2) by (auto simp: slot_view_def split: option.splits)

definition put_slot :: "wave_id \<Rightarrow> byte list \<Rightarrow> struct_storage \<Rightarrow> struct_storage" where
  "put_slot i b s = clear_removed i (s\<lparr>ss_cache := bt_insert (raw i) b (ss_cache s)\<rparr>)"

definition remove_slot :: "wave_id \<Rightarrow> struct_storage \<Rightarrow> struct_storage" where
  "remove_slot i s = mark_removed i (s\<lparr>ss_cache := bt_remove (raw i) (ss_cache s)\<rparr>)"

lemma put_slot_fields [simp]: "ss_hash (put_slot i b s) = ss_hash s" "ss_dir (put_slot i b s) = ss_dir s"
  "ss_dict (put_slot i b s) = ss_dict s" "ss_cache (put_slot i b s) = bt_insert (raw i) b (ss_cache s)"
  "ss_dead (put_slot i b s) = bs_remove (raw i) (ss_dead s)"
  by (simp_all add: put_slot_def clear_removed_def)

lemma remove_slot_fields [simp]: "ss_hash (remove_slot i s) = ss_hash s" "ss_dir (remove_slot i s) = ss_dir s"
  "ss_dict (remove_slot i s) = ss_dict s" "ss_cache (remove_slot i s) = bt_remove (raw i) (ss_cache s)"
  "ss_dead (remove_slot i s) = bs_insert (raw i) (ss_dead s)"
  by (simp_all add: remove_slot_def mark_removed_def)

lemma put_slot_ok:
  assumes "slot_ok E f seed P s"
  shows "slot_ok E f seed (insert (raw i) P) (put_slot i b s)"
    "slot_view E f seed (put_slot i b s) = (slot_view E f seed s)(raw i \<mapsto> b)"
proof -
  note ok = slot_okD [OF assms]
  have pages: "page_view E f seed (put_slot i b s) = page_view E f seed s"
    "slot_pages_ok E f seed (put_slot i b s)"
    using pages_cong [of "put_slot i b s" s E f seed] ok(1) by simp_all
  show "slot_ok E f seed (insert (raw i) P) (put_slot i b s)"
    unfolding slot_ok_def pages using ok pages by (auto simp: bs_remove_facts)
  show "slot_view E f seed (put_slot i b s) = (slot_view E f seed s)(raw i \<mapsto> b)"
    using ok(2) by (auto simp: fun_eq_iff slot_view_def pages bs_remove_facts split: option.splits)
qed

lemma remove_slot_ok:
  assumes "slot_ok E f seed P s"
  shows "slot_ok E f seed (insert (raw i) P) (remove_slot i s)"
    "slot_view E f seed (remove_slot i s) = (slot_view E f seed s)(raw i := None)"
proof -
  note ok = slot_okD [OF assms]
  have pages: "page_view E f seed (remove_slot i s) = page_view E f seed s"
    "slot_pages_ok E f seed (remove_slot i s)"
    using pages_cong [of "remove_slot i s" s E f seed] ok(1) by simp_all
  show "slot_ok E f seed (insert (raw i) P) (remove_slot i s)"
    unfolding slot_ok_def pages using ok pages by (auto simp: bs_insert_sorted)
  show "slot_view E f seed (remove_slot i s) = (slot_view E f seed s)(raw i := None)"
    using ok(3) by (auto simp: fun_eq_iff slot_view_def pages bs_insert_sorted split: option.splits)
qed

section \<open>The settle queue\<close>

definition pend_ids :: "touched \<Rightarrow> nat \<Rightarrow> u128 set" where
  "pend_ids q idx = (\<Union>(j, ids)\<in>set q. if j = idx then raw ` set ids else {})"

definition queue_ok :: "nat \<Rightarrow> touched \<Rightarrow> bool" where
  "queue_ok n q \<longleftrightarrow> distinct (map fst q) \<and> (\<forall>(idx, ids)\<in>set q. idx < n \<and> ids \<noteq> [])"

lemma pend_ids_simps [simp]:
  "pend_ids [] idx = {}"
  "pend_ids ((j, ids) # q) idx = (if j = idx then raw ` set ids \<union> pend_ids q idx else pend_ids q idx)"
  "pend_ids (q @ r) idx = pend_ids q idx \<union> pend_ids r idx"
  by (auto simp: pend_ids_def)

lemma pend_ids_rev [simp]: "pend_ids (rev q) idx = pend_ids q idx"
  by (simp add: pend_ids_def)

lemma queue_ok_simps [simp]:
  "queue_ok n []"
  "queue_ok n ((j, ids) # q) \<longleftrightarrow> j < n \<and> ids \<noteq> [] \<and> j \<notin> fst ` set q \<and> queue_ok n q"
  by (auto simp: queue_ok_def)

lemma note_touched_facts:
  "pend_ids (note_touched idx i q) j = (if j = idx then insert (raw i) (pend_ids q j) else pend_ids q j)"
  "fst ` set (note_touched idx i q) = insert idx (fst ` set q)"
  "queue_ok n q \<Longrightarrow> idx < n \<Longrightarrow> queue_ok n (note_touched idx i q)"
proof -
  show *: "fst ` set (note_touched idx i q) = insert idx (fst ` set q)" for q
    by (induction idx i q rule: note_touched.induct) auto
  show "pend_ids (note_touched idx i q) j = (if j = idx then insert (raw i) (pend_ids q j) else pend_ids q j)"
    by (cases "j = idx"; induction q) (simp_all add: split_paired_all)
  show "queue_ok n q \<Longrightarrow> idx < n \<Longrightarrow> queue_ok n (note_touched idx i q)"
  proof (induction q)
    case (Cons p q)
    then show ?case by (cases p; cases "fst p = idx") (simp_all add: *)
  qed simp
qed

lemma note_all_facts:
  "pend_ids (fold (note_touched idx) ids q) j = (if j = idx then raw ` set ids \<union> pend_ids q j else pend_ids q j)"
  "queue_ok n q \<Longrightarrow> idx < n \<Longrightarrow> queue_ok n (fold (note_touched idx) ids q)"
  by (induction ids arbitrary: q) (auto simp: note_touched_facts)

lemma merge_touched_facts:
  "pend_ids (merge_touched rnd q) j = pend_ids rnd j \<union> pend_ids q j"
  "queue_ok n rnd \<Longrightarrow> queue_ok n q \<Longrightarrow> queue_ok n (merge_touched rnd q)"
  by (induction rnd arbitrary: q) (auto simp: merge_touched_def note_all_facts split: if_splits)

section \<open>Routing\<close>

lemma slot_pos_Some: "slot_pos h ss = Some n \<Longrightarrow> n < length ss \<and> ss_hash (ss ! n) = h"
  by (induction ss arbitrary: n) (auto split: if_splits)

lemma slot_pos_None: "slot_pos h ss = None \<longleftrightarrow> h \<notin> ss_hash ` set ss"
  by (induction ss) auto

lemma slot_pos_hashes: "slot_pos h ss = slot_pos h ss'" if "map ss_hash ss = map ss_hash ss'"
  using map_eq_imp_length_eq [OF that] that by (induction ss ss' rule: list_induct2) simp_all

lemma slot_pos_nth: "distinct (map ss_hash ss) \<Longrightarrow> n < length ss \<Longrightarrow> slot_pos (ss_hash (ss ! n)) ss = Some n"
  by (induction ss arbitrary: n) (force simp: nth_Cons image_iff split: nat.splits)+

type_synonym typed_view = "u64 \<Rightarrow> u128 \<rightharpoonup> byte list"

definition types_view :: "libs \<Rightarrow> block_file \<Rightarrow> seed \<Rightarrow> struct_storage list \<Rightarrow> typed_view" where
  "types_view E f seed types h =
     (case slot_pos h types of None \<Rightarrow> Map.empty | Some n \<Rightarrow> slot_view E f seed (types ! n))"

abbreviation engine_view :: "libs \<Rightarrow> page_store \<Rightarrow> typed_view" where
  "engine_view E ps \<equiv> types_view E (ps_file ps) (ps_seed ps) (ps_types ps)"

definition types_ok :: "libs \<Rightarrow> block_file \<Rightarrow> seed \<Rightarrow> (nat \<Rightarrow> u128 set) \<Rightarrow> struct_storage list \<Rightarrow> bool" where
  "types_ok E f seed P types \<longleftrightarrow> distinct (map ss_hash types)
     \<and> (\<forall>n<length types. slot_ok E f seed (P n) (types ! n))"

lemma types_ok_update:
  assumes "types_ok E f seed P types" "n < length types" "ss_hash s = ss_hash (types ! n)" "slot_ok E f seed Q s"
  shows "types_ok E f seed (P(n := Q)) (types[n := s])" "map ss_hash (types[n := s]) = map ss_hash types"
proof -
  show h: "map ss_hash (types[n := s]) = map ss_hash types"
    using assms(2, 3) by (intro nth_equalityI) (auto simp: nth_list_update)
  show "types_ok E f seed (P(n := Q)) (types[n := s])"
    unfolding types_ok_def h using assms by (simp add: types_ok_def nth_list_update)
qed

lemma types_view_update:
  assumes "distinct (map ss_hash types)" "n < length types" "ss_hash s = ss_hash (types ! n)"
  shows "types_view E f seed (types[n := s]) = (types_view E f seed types)(ss_hash s := slot_view E f seed s)"
proof -
  have "map ss_hash (types[n := s]) = map ss_hash types"
    using assms(2, 3) by (intro nth_equalityI) (auto simp: nth_list_update)
  then have pos: "slot_pos h (types[n := s]) = slot_pos h types" for h by (rule slot_pos_hashes)
  have "slot_pos (ss_hash s) types = Some n" using slot_pos_nth [OF assms(1, 2)] assms(3) by simp
  moreover have "m \<noteq> n" if "slot_pos h types = Some m" "h \<noteq> ss_hash s" for h m
    using slot_pos_Some [OF that(1)] that(2) assms(3) by auto
  ultimately show ?thesis
    using assms(2) by (intro ext) (auto simp: types_view_def pos nth_list_update split: option.splits)
qed

lemma types_view_pos: "slot_pos h types = Some n \<Longrightarrow> types_view E f seed types h = slot_view E f seed (types ! n)"
  by (simp add: types_view_def)

section \<open>Committing a batch\<close>

text \<open>The effect of a batch on the typed view: a put routes by the hash that heads its bytes.\<close>

fun typed_effect :: "write_op list \<Rightarrow> typed_view \<Rightarrow> typed_view" where
  "typed_effect [] V = V"
| "typed_effect (Put i b # ws) V =
     (let h = from_le_bytes (take 8 b) in typed_effect ws (V(h := (V h)(raw i \<mapsto> b))))"
| "typed_effect (Remove h i # ws) V = typed_effect ws (V(h := (V h)(raw i := None)))"
| "typed_effect (Expect _ _ _ # ws) V = typed_effect ws V"

fun typed_conflict :: "write_op list \<Rightarrow> typed_view \<Rightarrow> wave_id option" where
  "typed_conflict [] V = None"
| "typed_conflict (Expect h i e # ws) V = (if V h (raw i) \<noteq> e then Some i else typed_conflict ws V)"
| "typed_conflict (_ # ws) V = typed_conflict ws V"

definition routable :: "struct_storage list \<Rightarrow> write_op \<Rightarrow> bool" where
  "routable types w \<longleftrightarrow> (\<exists>h. write_hash w = Ok h \<and> h \<in> ss_hash ` set types)"

lemma write_hash_returns: "returns (write_hash w)"
  by (simp add: write_hash_def struct_hash_of_def split: write_op.splits)

lemma route_batch_Ok: "route_batch ps ws = Ok () \<longleftrightarrow> list_all (routable (ps_types ps)) ws"
  by (induction ws) (auto simp: routable_def slot_of_def slot_pos_None try_then_Ok_iff)

lemma route_batch_returns: "returns (route_batch ps ws)"
  by (induction ws) (auto simp: write_hash_returns)

lemma routable_hashes: "map ss_hash types' = map ss_hash types \<Longrightarrow> routable types' = routable types"
  unfolding routable_def by (drule arg_cong [of _ _ set]) simp

text \<open>One write: the slot at its position is replaced and its id queued.\<close>

lemma commit_write:
  assumes "types_ok E f seed (\<lambda>n. pend_ids q n \<union> Q n) types" "queue_ok (length types) q" "slot_pos h types = Some n"
    "slot_ok E f seed (insert (raw i) (pend_ids q n \<union> Q n)) s'"
    "ss_hash s' = ss_hash (types ! n)" "ss_dir s' = ss_dir (types ! n)" "ss_dict s' = ss_dict (types ! n)"
  shows "types_ok E f seed (\<lambda>m. pend_ids (note_touched n i q) m \<union> Q m) (types[n := s'])"
    "queue_ok (length (types[n := s'])) (note_touched n i q)" "map ss_hash (types[n := s']) = map ss_hash types"
    "map ss_dir (types[n := s']) = map ss_dir types" "map ss_dict (types[n := s']) = map ss_dict types"
    "types_view E f seed (types[n := s']) = (types_view E f seed types)(h := slot_view E f seed s')"
proof -
  note pos = slot_pos_Some [OF assms(3)]
  note u = types_ok_update [OF assms(1) conjunct1 [OF pos] assms(5, 4)]
  have "(\<lambda>m. pend_ids (note_touched n i q) m \<union> Q m) = (\<lambda>n. pend_ids q n \<union> Q n)(n := insert (raw i) (pend_ids q n \<union> Q n))"
    by (auto simp: fun_eq_iff note_touched_facts)
  with u show "types_ok E f seed (\<lambda>m. pend_ids (note_touched n i q) m \<union> Q m) (types[n := s'])"
    "map ss_hash (types[n := s']) = map ss_hash types" by simp_all
  show "queue_ok (length (types[n := s'])) (note_touched n i q)" using assms(2) pos by (simp add: note_touched_facts)
  show "map ss_dir (types[n := s']) = map ss_dir types" "map ss_dict (types[n := s']) = map ss_dict types"
    using assms(6, 7) by (simp_all add: map_update list_update_same_conv pos)
  show "types_view E f seed (types[n := s']) = (types_view E f seed types)(h := slot_view E f seed s')"
    using types_view_update [OF _ conjunct1 [OF pos] assms(5)] assms(1, 5) pos by (simp add: types_ok_def)
qed

lemma commit_to_caches_ok:
  assumes "types_ok E f seed (\<lambda>n. pend_ids q n \<union> Q n) types" "list_all (routable types) ws" "queue_ok (length types) q"
  shows "\<exists>types' q'. commit_to_caches ws (types, q) = Some (types', q')
    \<and> types_ok E f seed (\<lambda>n. pend_ids q' n \<union> Q n) types' \<and> queue_ok (length types') q'
    \<and> map ss_hash types' = map ss_hash types \<and> map ss_dir types' = map ss_dir types \<and> map ss_dict types' = map ss_dict types
    \<and> types_view E f seed types' = typed_effect ws (types_view E f seed types)"
  using assms
proof (induction ws arbitrary: types q)
  case (Cons w ws)
  then have ws: "list_all (routable types) ws" by simp
  have slot: "slot_ok E f seed (pend_ids q n \<union> Q n) (types ! n)" if "slot_pos h types = Some n" for h n
    using Cons.prems(1) slot_pos_Some [OF that] by (simp add: types_ok_def)
  show ?case
  proof (cases w)
    case (Put i b)
    then obtain h where h: "struct_hash_of b = Ok h" "h \<in> ss_hash ` set types"
      using Cons.prems(2) by (auto simp: routable_def write_hash_def)
    then obtain n where n: "slot_pos h types = Some n" using slot_pos_None [of h types] by auto
    have eq: "from_le_bytes (take 8 b) = h" using h(1) by (simp add: struct_hash_of_def split: if_splits)
    let ?s = "put_slot i b (types ! n)"
    note s = put_slot_ok [OF slot [OF n], of i b]
    note c = commit_write [OF Cons.prems(1, 3) n s(1), simplified]
    have "commit_to_caches (w # ws) (types, q) = commit_to_caches ws (types[n := ?s], note_touched n i q)"
      using Put h(1) n by (simp add: put_slot_def [symmetric] Let_def)
    moreover have "typed_effect (w # ws) (types_view E f seed types) = typed_effect ws (types_view E f seed (types[n := ?s]))"
      using Put by (simp add: eq c(6) s(2) types_view_pos [OF n])
    moreover note Cons.IH [of "note_touched n i q" "types[n := ?s]"]
    ultimately show ?thesis using c(1-5) ws routable_hashes [OF c(3)] by simp
  next
    case (Remove h i)
    then have "h \<in> ss_hash ` set types" using Cons.prems(2) by (auto simp: routable_def write_hash_def)
    then obtain n where n: "slot_pos h types = Some n" using slot_pos_None [of h types] by auto
    let ?s = "remove_slot i (types ! n)"
    note s = remove_slot_ok [OF slot [OF n], of i]
    note c = commit_write [OF Cons.prems(1, 3) n s(1), simplified]
    have "commit_to_caches (w # ws) (types, q) = commit_to_caches ws (types[n := ?s], note_touched n i q)"
      using Remove n by (simp add: remove_slot_def [symmetric] Let_def)
    moreover have "typed_effect (w # ws) (types_view E f seed types) = typed_effect ws (types_view E f seed (types[n := ?s]))"
      using Remove by (simp add: c(6) s(2) types_view_pos [OF n])
    moreover note Cons.IH [of "note_touched n i q" "types[n := ?s]"]
    ultimately show ?thesis using c(1-5) ws routable_hashes [OF c(3)] by simp
  next
    case (Expect h i e)
    then show ?thesis using Cons.IH [OF Cons.prems(1) ws Cons.prems(3)] by simp
  qed
qed auto

section \<open>The batch contract\<close>

text \<open>What every operation keeps of the engine: distinct types, a well-formed queue, and slots that agree
  with it.\<close>

definition engine_ok :: "libs \<Rightarrow> page_store \<Rightarrow> bool" where
  "engine_ok E ps \<longleftrightarrow> types_ok E (ps_file ps) (ps_seed ps) (pend_ids (ps_pending ps)) (ps_types ps)
     \<and> queue_ok (length (ps_types ps)) (ps_pending ps)"

text \<open>The open journal holds these frames, the first of them through a barrier.\<close>

definition journaled :: "libs \<Rightarrow> page_store \<Rightarrow> journal_frame list \<Rightarrow> journal_frame list \<Rightarrow> bool" where
  "journaled E ps frames safe \<longleftrightarrow> journal_holds (crc32 E) (ps_journal ps, ps_fs ps) frames safe"

lemma read_of_view:
  assumes "engine_ok E ps"
  shows "read_of E ps h i = Ok (engine_view E ps h (raw i))"
proof (cases "slot_pos h (ps_types ps)")
  case (Some n)
  then have "slot_pages_ok E (ps_file ps) (ps_seed ps) (ps_types ps ! n)"
    using assms slot_pos_Some [OF Some] by (simp add: engine_ok_def types_ok_def slot_ok_def)
  from read_from_pages_view [OF this] Some show ?thesis
    by (simp add: read_of_def slot_of_def types_view_def slot_view_def ss_get_def split: option.splits)
qed (simp add: read_of_def slot_of_def types_view_def)

lemma check_guards_view:
  assumes "engine_ok E ps"
  shows "check_guards E ps ws = (case typed_conflict ws (engine_view E ps) of None \<Rightarrow> Ok () | Some i \<Rightarrow> Err (Core (Conflict i)))"
  by (induction ws "engine_view E ps" rule: typed_conflict.induct) (simp_all add: read_of_view [OF assms])

lemma typed_effect_filter: "typed_effect (filter (\<lambda>w. \<not> is_expect w) ws) V = typed_effect ws V"
proof (induction ws arbitrary: V)
  case (Cons w ws)
  then show ?case by (cases w) (simp_all add: is_expect_def Let_def fun_upd_def)
qed simp

definition log_batch :: "libs \<Rightarrow> bool \<Rightarrow> journal_frame \<Rightarrow> page_store \<Rightarrow> (journal \<times> fs) sres" where
  "log_batch E elapsed frame ps =
     (if \<not> ps_relaxed ps then append (crc32 E) frame (ps_journal ps, ps_fs ps)
      else try_then (append_deferred (crc32 E) frame (ps_journal ps, ps_fs ps)) (\<lambda>jd.
           if elapsed then journal_sync jd else Ok jd))"

lemma log_batch_holds:
  assumes "journaled E ps frames safe"
  obtains jd where "log_batch E elapsed frame ps = Ok jd"
    "journal_holds (crc32 E) jd (frames @ [frame]) (if ps_relaxed ps \<and> \<not> elapsed then safe else frames @ [frame])"
proof -
  have j: "journal_holds (crc32 E) (ps_journal ps, ps_fs ps) frames safe" using assms by (simp add: journaled_def)
  obtain jd where app: "append (crc32 E) frame (ps_journal ps, ps_fs ps) = Ok jd"
    "journal_holds (crc32 E) jd (frames @ [frame]) (frames @ [frame])"
    by (rule append_holds [OF j])
  obtain jw where wr: "write_frame (crc32 E) frame (ps_journal ps, ps_fs ps) = Ok jw" "journal_holds (crc32 E) jw (frames @ [frame]) safe"
    by (rule write_frame_holds [OF j])
  obtain js where sy: "journal_sync jw = Ok js" "journal_holds (crc32 E) js (frames @ [frame]) (frames @ [frame])"
    by (rule journal_sync_holds [OF wr(2)])
  consider "\<not> ps_relaxed ps" | "ps_relaxed ps" "elapsed" | "ps_relaxed ps" "\<not> elapsed" by blast
  then show ?thesis
    by cases (use that app wr sy in \<open>auto simp: log_batch_def append_deferred_def\<close>)
qed

lemma apply_inner_cases:
  assumes "engine_ok E ps" "journaled E ps frames safe"
  obtains (unroutable) e where "apply_inner E elapsed batch ps = Err e" "route_batch ps batch = Err e"
  | (conflict) i where "apply_inner E elapsed batch ps = Err (Core (Conflict i))"
      "list_all (routable (ps_types ps)) batch" "typed_conflict batch (engine_view E ps) = Some i"
  | (commit) ps' where "apply_inner E elapsed batch ps = Ok ps'" "list_all (routable (ps_types ps)) batch"
      "typed_conflict batch (engine_view E ps) = None" "engine_ok E ps'"
      "engine_view E ps' = typed_effect batch (engine_view E ps)"
      "journaled E ps' (frames @ [Batch (filter (\<lambda>w. \<not> is_expect w) batch)])
         (if ps_relaxed ps \<and> \<not> elapsed then safe else frames @ [Batch (filter (\<lambda>w. \<not> is_expect w) batch)])"
      "map ss_hash (ps_types ps') = map ss_hash (ps_types ps)"
      "map ss_dir (ps_types ps') = map ss_dir (ps_types ps)" "map ss_dict (ps_types ps') = map ss_dict (ps_types ps)"
      "ps' = ps\<lparr>ps_journal := ps_journal ps', ps_fs := ps_fs ps', ps_types := ps_types ps', ps_pending := ps_pending ps'\<rparr>"
proof (cases "route_batch ps batch = Ok ()")
  case False
  then obtain e where "route_batch ps batch = Err e"
    using route_batch_returns [of ps batch] by (cases "route_batch ps batch") (auto simp: returns_def split: sum.splits elim: sum.exhaust)
  then show ?thesis by (intro unroutable) (simp_all add: apply_inner_def)
next
  case True
  then have routed: "list_all (routable (ps_types ps)) batch" by (simp add: route_batch_Ok)
  show ?thesis
  proof (cases "typed_conflict batch (engine_view E ps)")
    case (Some i)
    with True routed show ?thesis by (intro conflict) (simp_all add: apply_inner_def check_guards_view [OF assms(1)])
  next
    case None
    let ?ws = "filter (\<lambda>w. \<not> is_expect w) batch"
    obtain jd where jd: "log_batch E elapsed (Batch ?ws) ps = Ok jd"
      "journal_holds (crc32 E) jd (frames @ [Batch ?ws]) (if ps_relaxed ps \<and> \<not> elapsed then safe else frames @ [Batch ?ws])"
      by (rule log_batch_holds [OF assms(2)])
    have "types_ok E (ps_file ps) (ps_seed ps) (\<lambda>n. pend_ids [] n \<union> pend_ids (ps_pending ps) n) (ps_types ps)"
      using assms(1) by (simp add: engine_ok_def)
    from commit_to_caches_ok [OF this, of ?ws] routed obtain types q where
      c: "commit_to_caches ?ws (ps_types ps, []) = Some (types, q)"
        "types_ok E (ps_file ps) (ps_seed ps) (\<lambda>n. pend_ids q n \<union> pend_ids (ps_pending ps) n) types" "queue_ok (length types) q"
        "map ss_hash types = map ss_hash (ps_types ps)" "map ss_dir types = map ss_dir (ps_types ps)"
        "map ss_dict types = map ss_dict (ps_types ps)"
        "types_view E (ps_file ps) (ps_seed ps) types = typed_effect ?ws (engine_view E ps)"
      by (auto simp: list_all_iff)
    let ?ps = "ps\<lparr>ps_journal := fst jd, ps_fs := snd jd, ps_types := types, ps_pending := merge_touched q (ps_pending ps)\<rparr>"
    show ?thesis
    proof (rule commit [of ?ps])
      show "apply_inner E elapsed batch ps = Ok ?ps"
        using True None jd(1) c(1)
        by (simp add: apply_inner_def check_guards_view [OF assms(1)] log_batch_def [symmetric] Let_def case_prod_unfold)
      have "length types = length (ps_types ps)" using c(4) by (rule map_eq_imp_length_eq)
      then show "engine_ok E ?ps"
        using c(2, 3) assms(1) by (simp add: engine_ok_def merge_touched_facts(2) types_ok_def merge_touched_facts(1))
      show "journaled E ?ps (frames @ [Batch ?ws]) (if ps_relaxed ps \<and> \<not> elapsed then safe else frames @ [Batch ?ws])"
        using jd(2) by (simp add: journaled_def)
    qed (use routed None c in \<open>simp_all add: typed_effect_filter\<close>)
  qed
qed

end
