(* ===== verification/Space_Laws.thy ===== *)
theory Space_Laws
  imports Engine_View "HOL-Library.Multiset"
begin

text \<open>
  Who owns which blocks.  The live runs of the store as a multiset (superblock, pages, dictionaries, log
  chunks), allocator well-formedness up to the order of the live runs, and the window of a round: carved
  into consecutive runs, assembled in one buffer, and read back image by image.
\<close>

section \<open>Ownership up to order\<close>

lemma owners_mset: "owners b rs = size (filter_mset (\<lambda>r. b \<in> blocks r) (mset rs))"
  by (simp add: owners_def flip: mset_filter)

lemma alloc_wf_mset: "mset rs = mset qs \<Longrightarrow> alloc_wf a rs \<longleftrightarrow> alloc_wf a qs"
  using mset_eq_setD [of rs qs] by (simp add: alloc_wf_def tiles_def owners_mset)

definition alloc_owns :: "allocator \<Rightarrow> run multiset \<Rightarrow> bool" where
  "alloc_owns a M \<longleftrightarrow> (\<exists>live. mset live = M \<and> alloc_wf a live)"

lemma alloc_owns_iff: "mset live = M \<Longrightarrow> alloc_owns a M \<longleftrightarrow> alloc_wf a live"
  unfolding alloc_owns_def using alloc_wf_mset by blast

lemma owns_free:
  assumes "alloc_owns a (M + {#r#})"
  shows "alloc_owns (free r a) M"
proof -
  obtain live where live: "mset live = M + {#r#}" "alloc_wf a live" using assms by (auto simp: alloc_owns_def)
  have "r \<in># mset live" unfolding live(1) by simp
  then have r: "r \<in> set live" by simp
  have "alloc_wf (free r a) (remove1 r live)" by (rule alloc_step_wf [OF alloc_step.intros(3) [OF r] live(2)])
  moreover have "mset (remove1 r live) = M" using live(1) by simp
  ultimately show ?thesis unfolding alloc_owns_def by blast
qed

lemma owns_free_all: "alloc_owns a (M + mset rs) \<Longrightarrow> alloc_owns (fold free rs a) M"
proof (induction rs arbitrary: a)
  case (Cons r rs)
  then show ?case using owns_free [of a "M + mset rs" r] by simp
qed simp

lemma blocks_apart: "0 < run_count r \<Longrightarrow> 0 < run_count q \<Longrightarrow> blocks r \<inter> blocks q = {} \<longleftrightarrow> runs_apart r q"
  by (auto simp: blocks_def runs_apart_def run_end_def disjoint_iff)

lemma owns_positive: "alloc_owns a M \<Longrightarrow> r \<in># M \<Longrightarrow> 0 < run_count r"
  by (auto simp: alloc_owns_def alloc_wf_def tiles_def)

lemma owns_taken:
  assumes "alloc_owns a M" "taken a w a'"
  shows "alloc_owns a' (M + {#w#})" "q \<in># M \<Longrightarrow> runs_apart q w"
proof -
  obtain live where live: "mset live = M" "alloc_wf a live" using assms(1) by (auto simp: alloc_owns_def)
  note t = taken_wf [OF assms(2) live(2)]
  show "alloc_owns a' (M + {#w#})" using t(1) live(1) by (auto simp: alloc_owns_def intro!: exI [of _ "w # live"])
  assume q: "q \<in># M"
  then have "q \<in> set (live @ deferred a)" using live(1) by auto
  from t(3) [OF this] owns_positive [OF assms(1) q] assms(2) blocks_apart [of w q]
  show "runs_apart q w" by (simp add: taken_def runs_apart_sym)
qed

section \<open>Live runs\<close>

definition desc_m :: "block_descriptor \<Rightarrow> run multiset" where
  "desc_m d = (if is_allocated d then {#desc_run d#} else {#})"

definition dir_m :: "directory \<Rightarrow> run multiset" where
  "dir_m dir = sum_list (map desc_m (dir_slots dir))"

definition slot_m :: "struct_storage \<Rightarrow> run multiset" where
  "slot_m s = (case ss_dir s of None \<Rightarrow> {#} | Some dir \<Rightarrow> dir_m dir) + desc_m (ds_desc (ss_dict s))"

definition live_m :: "page_store \<Rightarrow> run multiset" where
  "live_m ps = {#Run 0 RESERVED_BLOCKS#} + sum_list (map slot_m (ps_types ps)) + mset (meta_runs (ps_meta ps))"

lemma desc_m_EMPTY [simp]: "desc_m desc_EMPTY = {#}"
  by (simp add: desc_m_def)

lemma in_sum_list_mset: "x \<in># sum_list xs \<longleftrightarrow> (\<exists>M\<in>set xs. x \<in># M)"
  by (induction xs) auto

lemma sum_list_update_mset:
  "n < length xs \<Longrightarrow> sum_list (map f (xs[n := x])) + f (xs ! n) = sum_list (map f xs) + (f x :: 'a multiset)"
proof (induction xs arbitrary: n)
  case (Cons y xs)
  then show ?case by (cases n) (simp_all add: union_commute union_assoc union_lcomm)
qed simp

lemma mset_exchange:
  fixes A B C D :: "'a multiset"
  assumes "A + C = B + D" "D + F = C + G"
  shows "A + F = B + G"
proof (rule multiset_eqI)
  fix x
  from assms have "count A x + count C x = count B x + count D x" "count D x + count F x = count C x + count G x"
    by (metis count_union)+
  then show "count (A + F) x = count (B + G) x" by simp
qed

lemma mset_regroup:
  fixes A B C D :: "'a multiset"
  assumes "A + B = C + D" "C + F = G + H"
  shows "A + (F + B) = G + (H + D)"
proof (rule multiset_eqI)
  fix x
  from assms have "count A x + count B x = count C x + count D x" "count C x + count F x = count G x + count H x"
    by (metis count_union)+
  then show "count (A + (F + B)) x = count (G + (H + D)) x" by simp
qed

lemma dir_run_live:
  assumes "s \<in> set (ps_types ps)" "ss_dir s = Some dir" "b < dir_len dir" "is_allocated (dir_slots dir ! b)"
  shows "desc_run (dir_slots dir ! b) \<in># live_m ps"
proof -
  have "desc_run (dir_slots dir ! b) \<in># dir_m dir"
    using assms(3, 4) by (auto simp: dir_m_def in_sum_list_mset dir_len_def desc_m_def intro!: bexI [of _ "dir_slots dir ! b"])
  then have "desc_run (dir_slots dir ! b) \<in># slot_m s" using assms(2) by (simp add: slot_m_def)
  then show ?thesis using assms(1) by (auto simp: live_m_def in_sum_list_mset)
qed

section \<open>The window of a round\<close>

fun tile_from :: "nat \<Rightarrow> nat list \<Rightarrow> run list" where
  "tile_from c [] = []"
| "tile_from c (n # ns) = Run c n # tile_from (c + n) ns"

lemma carve_tiles: "list_all (\<lambda>n. 0 < n) sizes \<Longrightarrow> carve_from c sizes = map Some (tile_from c sizes)"
  by (induction sizes arbitrary: c) auto

lemma tile_facts:
  "length (tile_from c sizes) = length sizes"
  "i < length sizes \<Longrightarrow> tile_from c sizes ! i = Run (c + sum_list (take i sizes)) (sizes ! i)"
  "owners b (tile_from c sizes) = of_bool (c \<le> b \<and> b < c + sum_list sizes)"
proof -
  show "length (tile_from c sizes) = length sizes" by (induction sizes arbitrary: c) auto
  show "i < length sizes \<Longrightarrow> tile_from c sizes ! i = Run (c + sum_list (take i sizes)) (sizes ! i)"
    by (induction sizes arbitrary: c i) (auto simp: nth_Cons split: nat.splits)
  show "owners b (tile_from c sizes) = of_bool (c \<le> b \<and> b < c + sum_list sizes)"
    by (induction sizes arbitrary: c) (auto simp: blocks_def run_end_def)
qed

lemma owns_carve:
  assumes "alloc_owns a (M + {#w#})" "list_all (\<lambda>n. 0 < n) sizes" "sum_list sizes = run_count w"
  shows "alloc_owns a (M + mset (tile_from (run_start w) sizes))"
proof -
  obtain live where live: "mset live = M" by (rule ex_mset [THEN exE])
  let ?t = "tile_from (run_start w) sizes"
  have wf: "alloc_wf a (w # live)" using assms(1) alloc_owns_iff [of "w # live"] live by simp
  have "owners b ?t = of_bool (b \<in> blocks w)" for b
    using assms(3) by (auto simp: tile_facts blocks_def run_end_def)
  moreover have "\<forall>r\<in>set ?t. 0 < run_count r"
    using assms(2) by (auto simp: in_set_conv_nth tile_facts list_all_length)
  ultimately have "alloc_wf a (?t @ live)" using wf by (simp add: alloc_wf_def tiles_def add.assoc ball_Un)
  then show ?thesis using alloc_owns_iff [of "?t @ live"] live by (simp add: union_commute)
qed

definition padded :: "nat \<Rightarrow> byte list \<Rightarrow> byte list" where
  "padded n b = b @ replicate (n * BLOCK_SIZE - length b) 0"

lemma length_padded [simp]: "length b \<le> n * BLOCK_SIZE \<Longrightarrow> length (padded n b) = n * BLOCK_SIZE"
  by (simp add: padded_def)

lemma slice_concat:
  "i < length xs \<Longrightarrow> take (length (xs ! i)) (drop (sum_list (map length (take i xs))) (concat xs)) = xs ! i"
  by (induction xs arbitrary: i) (auto simp: nth_Cons split: nat.splits)

lemma assemble_tiles:
  assumes "length sizes = length ts" "\<forall>i<length ts. length (image_at plans chunk (ts ! i)) \<le> sizes ! i * BLOCK_SIZE"
    "length pre = (c - run_start w) * BLOCK_SIZE" "run_start w \<le> c"
  shows "assemble_into w plans chunk (zip ts (map Some (tile_from c sizes))) (pre @ replicate (sum_list sizes * BLOCK_SIZE) 0)
    = Some (pre @ concat (map2 (\<lambda>n t. padded n (image_at plans chunk t)) sizes ts))"
  using assms
proof (induction ts arbitrary: c sizes pre)
  case (Cons t ts)
  then obtain n ns where sizes: "sizes = n # ns" "length ns = length ts" by (cases sizes) auto
  let ?img = "image_at plans chunk t"
  have img: "length ?img \<le> n * BLOCK_SIZE" using Cons.prems(2) sizes by auto
  have rest: "\<forall>i<length ts. length (image_at plans chunk (ts ! i)) \<le> ns ! i * BLOCK_SIZE"
    using Cons.prems(2) sizes by auto
  have "write_at (length pre) ?img (pre @ replicate (sum_list sizes * BLOCK_SIZE) 0)
      = (pre @ padded n ?img) @ replicate (sum_list ns * BLOCK_SIZE) 0"
    using img by (simp add: write_at_def sizes padded_def add_mult_distrib flip: replicate_add)
  moreover have "length (pre @ padded n ?img) = (c + n - run_start w) * BLOCK_SIZE"
    using img Cons.prems(3, 4) by (simp add: diff_mult_distrib add_mult_distrib)
  moreover have "length pre + length ?img \<le> length (pre @ replicate (sum_list sizes * BLOCK_SIZE) 0)"
    using img sizes by (simp add: add_mult_distrib)
  ultimately show ?case
    using Cons.IH [OF sizes(2) rest, of "pre @ padded n ?img" "c + n"] Cons.prems(3, 4) sizes
    by (simp add: Let_def)
qed simp

lemma window_length:
  assumes "length sizes = length ts" "\<forall>i<length ts. length (image_at plans chunk (ts ! i)) \<le> sizes ! i * BLOCK_SIZE"
  shows "map length (map2 (\<lambda>n t. padded n (image_at plans chunk t)) sizes ts) = map (\<lambda>n. n * BLOCK_SIZE) sizes"
    "length (concat (map2 (\<lambda>n t. padded n (image_at plans chunk t)) sizes ts)) = sum_list sizes * BLOCK_SIZE"
proof -
  show l: "map length (map2 (\<lambda>n t. padded n (image_at plans chunk t)) sizes ts) = map (\<lambda>n. n * BLOCK_SIZE) sizes"
    using assms by (intro nth_equalityI) auto
  show "length (concat (map2 (\<lambda>n t. padded n (image_at plans chunk t)) sizes ts)) = sum_list sizes * BLOCK_SIZE"
    unfolding length_concat l by (simp add: sum_list_mult_const)
qed

text \<open>After the window is written, each carved run holds its image, zero-padded.\<close>

lemma window_reads_back:
  assumes "write_run w bytes f = Ok f'" "bytes = concat (map2 (\<lambda>n t. padded n (image_at plans chunk t)) sizes ts)"
    "length sizes = length ts" "sum_list sizes = run_count w"
    "\<forall>i<length ts. length (image_at plans chunk (ts ! i)) \<le> sizes ! i * BLOCK_SIZE" "i < length ts"
  shows "read_run f' (tile_from (run_start w) sizes ! i) = Ok (padded (sizes ! i) (image_at plans chunk (ts ! i)))"
proof -
  let ?xs = "map2 (\<lambda>n t. padded n (image_at plans chunk t)) sizes ts"
  note lens = window_length(1) [OF assms(3, 5)]
  have len: "length (?xs ! i) = sizes ! i * BLOCK_SIZE" using assms(3, 5, 6) by simp
  let ?r = "Run (run_start w + sum_list (take i sizes)) (sizes ! i)"
  have split: "sum_list sizes = sum_list (take i sizes) + sizes ! i + sum_list (drop (Suc i) sizes)"
    using assms(3, 6) by (metis Cons_nth_drop_Suc append_take_drop_id add.assoc sum_list.Cons sum_list_append)
  have "length bytes = byte_len w"
    using window_length(2) [OF assms(3, 5)] assms(2, 4) by (simp add: byte_len_def)
  moreover have "run_start w \<le> run_start ?r" "run_end ?r \<le> run_end w"
    using split assms(4) by (simp_all add: run_end_def)
  moreover have "byte_offset ?r - byte_offset w = sum_list (map length (take i ?xs))"
    using arg_cong [OF lens, of "\<lambda>l. sum_list (take i l)"]
    by (simp add: byte_offset_def take_map add_mult_distrib sum_list_mult_const)
  ultimately show ?thesis
    using write_run_read_window [OF assms(1), of ?r] slice_concat [of i ?xs] len assms(2, 3, 6)
    by (simp add: tile_facts byte_len_def)
qed

end
