(* ===== verification/Place_Laws.thy ===== *)
theory Place_Laws
  imports Space_Laws
begin

text \<open>
  Placing a round: where every target goes, what the planned directories become, which runs are given
  back, and that nothing is lost or owned twice.
\<close>

section \<open>Targets\<close>

definition plan_targets :: "nat \<Rightarrow> slot_plan \<Rightarrow> target list" where
  "plan_targets n work = map (\<lambda>(b, _). TPage n b) (pl_pages work) @ (if pl_dict work \<noteq> None then [TDict n] else [])"

lemma targets_of_eq: "targets_of plans = concat (map (\<lambda>(n, work). plan_targets n work) (enumerate 0 plans))"
  by (simp add: targets_of_def plan_targets_def)

lemma set_plan_targets:
  "set (plan_targets n work) = TPage n ` fst ` set (pl_pages work) \<union> (if pl_dict work \<noteq> None then {TDict n} else {})"
  by (force simp: plan_targets_def)

lemma set_targets:
  "set (targets_of plans) = (\<Union>n<length plans. set (plan_targets n (plans ! n)))"
  unfolding targets_of_eq by (auto simp: enumerate_eq_zip set_zip)

lemma TPage_target: "TPage n b \<in> set (targets_of plans) \<longleftrightarrow> n < length plans \<and> b \<in> fst ` set (pl_pages (plans ! n))"
  unfolding set_targets by (auto simp: set_plan_targets)

lemma TDict_target: "TDict n \<in> set (targets_of plans) \<longleftrightarrow> n < length plans \<and> pl_dict (plans ! n) \<noteq> None"
  unfolding set_targets by (auto simp: set_plan_targets split: if_splits)

lemma TEdit_target: "TEdit \<notin> set (targets_of plans)"
  unfolding set_targets by (auto simp: set_plan_targets split: if_splits)

lemma distinct_plan_targets:
  assumes "distinct (map fst (pl_pages work))"
  shows "distinct (plan_targets n work)"
proof -
  have "plan_targets n work = map (TPage n) (map fst (pl_pages work)) @ (if pl_dict work \<noteq> None then [TDict n] else [])"
    by (simp add: plan_targets_def case_prod_unfold)
  moreover have "distinct (map (TPage n) (map fst (pl_pages work)))"
    unfolding distinct_map [of "TPage n"] using assms by (simp add: inj_on_def)
  moreover have "TDict n \<notin> set (map (TPage n) xs)" for xs by auto
  ultimately show ?thesis by (simp del: map_map set_map)
qed

primrec target_plan :: "target \<Rightarrow> nat option" where
  "target_plan (TPage n _) = Some n"
| "target_plan (TDict n) = Some n"
| "target_plan TEdit = None"

lemma plan_targets_number: "t \<in> set (plan_targets n work) \<Longrightarrow> target_plan t = Some n"
  by (auto simp: set_plan_targets split: if_splits)

lemma distinct_targets:
  assumes "\<forall>work\<in>set plans. distinct (map fst (pl_pages work))"
  shows "distinct (targets_of plans)"
proof -
  have "distinct (concat (map (\<lambda>(n, work). plan_targets n work) (enumerate k plans)))" for k
    using assms
  proof (induction plans arbitrary: k)
    case (Cons work plans)
    have "set (plan_targets k work) \<inter> set (concat (map (\<lambda>(n, work). plan_targets n work) (enumerate (Suc k) plans))) = {}"
      using plan_targets_number [of _ k work] by (auto simp: in_set_enumerate_eq disjoint_iff dest!: plan_targets_number)
    then show ?case using Cons by (simp add: distinct_plan_targets)
  qed simp
  then show ?thesis by (simp add: targets_of_eq)
qed

section \<open>Installing the descriptors\<close>

definition page_image :: "slot_plan \<Rightarrow> nat \<Rightarrow> byte list" where
  "page_image work b = (case map_of (pl_pages work) b of None \<Rightarrow> [] | Some x \<Rightarrow> x)"

definition new_desc :: "slot_plan \<Rightarrow> nat \<Rightarrow> run option \<Rightarrow> block_descriptor" where
  "new_desc work b r = (case r of None \<Rightarrow> desc_EMPTY | Some run \<Rightarrow> from_run_used run (length (page_image work b)))"

definition installed :: "(target \<times> run option) list \<Rightarrow> nat \<Rightarrow> slot_plan \<Rightarrow> slot_plan" where
  "installed ts n work = work\<lparr>pl_dir := (pl_dir work)\<lparr>dir_slots := map (\<lambda>b. case map_of ts (TPage n b) of
       None \<Rightarrow> dir_slots (pl_dir work) ! b | Some r \<Rightarrow> new_desc work b r) [0..<dir_len (pl_dir work)]\<rparr>\<rparr>"

definition plans_m :: "slot_plan list \<Rightarrow> run multiset" where
  "plans_m plans = sum_list (map (\<lambda>work. dir_m (pl_dir work)) plans)"

definition pages_m :: "slot_plan list \<Rightarrow> (target \<times> run option) list \<Rightarrow> run multiset" where
  "pages_m plans ts = sum_list (map (\<lambda>(t, r). case t of TPage n b \<Rightarrow> desc_m (new_desc (plans ! n) b r) | _ \<Rightarrow> {#}) ts)"

definition page_targets_ok :: "slot_plan list \<Rightarrow> (target \<times> run option) list \<Rightarrow> bool" where
  "page_targets_ok plans ts \<longleftrightarrow>
     (\<forall>n b. TPage n b \<in> fst ` set ts \<longrightarrow> n < length plans \<and> b < dir_len (pl_dir (plans ! n)))"

lemma new_desc_cong: "pl_pages work' = pl_pages work \<Longrightarrow> new_desc work' b r = new_desc work b r"
  by (simp add: new_desc_def page_image_def split: option.splits)

lemma installed_Nil [simp]: "installed [] n work = work"
  by (simp add: installed_def dir_len_def map_nth)

lemma installed_other:
  "\<forall>b. TPage n b \<noteq> t \<Longrightarrow> installed ((t, r) # ts) n work = installed ts n work"
  by (simp add: installed_def)

lemma install_ok:
  assumes "page_targets_ok plans ts" "distinct (map fst ts)"
  shows "\<exists>freed'. install ts (plans, freed) = Some (map (\<lambda>n. installed ts n (plans ! n)) [0..<length plans], freed @ freed')
    \<and> plans_m (map (\<lambda>n. installed ts n (plans ! n)) [0..<length plans]) + mset freed' = plans_m plans + pages_m plans ts"
  using assms
proof (induction ts arbitrary: plans freed)
  case Nil
  then show ?case by (simp add: map_nth pages_m_def)
next
  case (Cons x ts)
  obtain t r where x: "x = (t, r)" by fastforce
  have ok: "page_targets_ok plans ts" "distinct (map fst ts)" using Cons.prems by (auto simp: page_targets_ok_def)
  show ?case
  proof (cases t)
    case (TPage n b)
    let ?work = "plans ! n" and ?d = "new_desc (plans ! n) b r"
    let ?dir = "(pl_dir ?work)\<lparr>dir_slots := (dir_slots (pl_dir ?work))[b := ?d]\<rparr>"
    let ?plans = "plans[n := ?work\<lparr>pl_dir := ?dir\<rparr>]" and ?old = "dir_slots (pl_dir ?work) ! b"
    have n: "n < length plans" "b < dir_len (pl_dir ?work)" using Cons.prems(1) x TPage by (auto simp: page_targets_ok_def)
    have same: "pl_pages (?plans ! m) = pl_pages (plans ! m)" "dir_len (pl_dir (?plans ! m)) = dir_len (pl_dir (plans ! m))" for m
      using n by (cases "m = n"; simp add: dir_len_def)+
    have ok': "page_targets_ok ?plans ts" using ok(1) same(2) by (simp add: page_targets_ok_def)
    have notin: "map_of ts (TPage n b) = None" using Cons.prems(2) x TPage by (simp add: map_of_eq_None_iff)
    have "installed ts m (?plans ! m) = installed (x # ts) m (plans ! m)" if "m < length plans" for m
    proof (cases "m = n")
      case True
      then show ?thesis
        using n notin x TPage
        by (auto simp: installed_def dir_len_def new_desc_def page_image_def nth_list_update split: option.splits intro!: map_cong)
    next
      case False
      then show ?thesis using x TPage by (simp add: installed_def cong: option.case_cong)
    qed
    then have inst: "map (\<lambda>m. installed ts m (?plans ! m)) [0..<length ?plans] = map (\<lambda>m. installed (x # ts) m (plans ! m)) [0..<length plans]"
      by simp
    have step: "install (x # ts) (plans, freed) = install ts (?plans, freed @ (if is_allocated ?old then [desc_run ?old] else []))"
      using n by (simp add: x TPage descriptor_def set_descriptor_def dir_len_def Let_def new_desc_def page_image_def
          split: option.splits)
    have "plans_m ?plans + dir_m (pl_dir ?work) = plans_m plans + dir_m ?dir"
      using sum_list_update_mset [OF n(1), of "\<lambda>w. dir_m (pl_dir w)"] by (simp add: plans_m_def)
    moreover have "dir_m ?dir + desc_m ?old = dir_m (pl_dir ?work) + desc_m ?d"
      using sum_list_update_mset [of b "dir_slots (pl_dir ?work)" desc_m ?d] n(2) by (simp add: dir_m_def dir_len_def)
    ultimately have m: "plans_m ?plans + desc_m ?old = plans_m plans + desc_m ?d" by (rule mset_exchange)
    have pm: "pages_m ?plans ts = pages_m plans ts"
      using new_desc_cong [OF same(1)] unfolding pages_m_def
      by (intro arg_cong [of _ _ sum_list] map_cong) (auto split: target.splits)
    from Cons.IH [OF ok' ok(2), of "freed @ (if is_allocated ?old then [desc_run ?old] else [])"] obtain freed' where
      f: "install ts (?plans, freed @ (if is_allocated ?old then [desc_run ?old] else []))
          = Some (map (\<lambda>m. installed (x # ts) m (plans ! m)) [0..<length plans], (freed @ (if is_allocated ?old then [desc_run ?old] else [])) @ freed')"
        "plans_m (map (\<lambda>m. installed (x # ts) m (plans ! m)) [0..<length plans]) + mset freed' = plans_m ?plans + pages_m plans ts"
      unfolding inst pm by blast
    have "plans_m (map (\<lambda>m. installed (x # ts) m (plans ! m)) [0..<length plans]) + mset ((if is_allocated ?old then [desc_run ?old] else []) @ freed')
      = plans_m plans + pages_m plans (x # ts)"
    proof -
      have "mset (if is_allocated ?old then [desc_run ?old] else []) = desc_m ?old" by (simp add: desc_m_def)
      moreover have "pages_m plans (x # ts) = desc_m ?d + pages_m plans ts" by (simp add: pages_m_def x TPage)
      ultimately show ?thesis using mset_regroup [OF f(2) m] by (simp only: mset_append)
    qed
    then show ?thesis using step f(1) by auto
  next
    case (TDict n)
    then show ?thesis using Cons.IH [OF ok, of freed] x installed_other [of _ "TDict n"] by (simp add: pages_m_def)
  next
    case TEdit
    then show ?thesis using Cons.IH [OF ok, of freed] x installed_other [of _ TEdit] by (simp add: pages_m_def)
  qed
qed

section \<open>Updating the slots\<close>

definition upd_all :: "(nat \<times> ('a \<Rightarrow> 'a)) list \<Rightarrow> 'a list \<Rightarrow> 'a list" where
  "upd_all ups xs = fold (\<lambda>(i, g) xs. xs[i := g (xs ! i)]) ups xs"

lemma upd_all_simps [simp]:
  "upd_all [] xs = xs" "upd_all ((i, g) # ups) xs = upd_all ups (xs[i := g (xs ! i)])"
  by (simp_all add: upd_all_def)

lemma length_upd_all [simp]: "length (upd_all ups xs) = length xs"
  by (induction ups arbitrary: xs) auto

lemma upd_all_nth:
  "distinct (map fst ups) \<Longrightarrow> i < length xs \<Longrightarrow>
    upd_all ups xs ! i = (case map_of ups i of None \<Rightarrow> xs ! i | Some g \<Rightarrow> g (xs ! i))"
proof (induction ups arbitrary: xs)
  case (Cons u ups)
  obtain j g where u: "u = (j, g)" by fastforce
  show ?case
  proof (cases "i = j")
    case True
    then have "map_of ups i = None" using Cons.prems(1) u by (simp add: map_of_eq_None_iff)
    then show ?thesis using Cons u True by simp
  qed (use Cons u in \<open>simp split: option.splits\<close>)
qed simp

lemma upd_all_sum:
  fixes m :: "'a \<Rightarrow> 'b multiset"
  assumes "distinct (map fst ups)" "\<forall>u\<in>set ups. fst u < length xs"
  shows "sum_list (map m (upd_all ups xs)) + sum_list (map (\<lambda>(i, g). m (xs ! i)) ups)
    = sum_list (map m xs) + sum_list (map (\<lambda>(i, g). m (g (xs ! i))) ups)"
  using assms
proof (induction ups arbitrary: xs)
  case (Cons u ups)
  obtain j g where u: "u = (j, g)" by fastforce
  let ?xs = "xs[j := g (xs ! j)]"
  have same: "?xs ! i = xs ! i" if "(i, f) \<in> set ups" for i f
    using that Cons.prems(1) u by (cases "i = j") force+
  have "sum_list (map m (upd_all ups ?xs)) + sum_list (map (\<lambda>(i, g). m (?xs ! i)) ups)
      = sum_list (map m ?xs) + sum_list (map (\<lambda>(i, g). m (g (?xs ! i))) ups)"
    using Cons u by simp
  moreover have "map (\<lambda>(i, g). m (?xs ! i)) ups = map (\<lambda>(i, g). m (xs ! i)) ups"
    "map (\<lambda>(i, g). m (g (?xs ! i))) ups = map (\<lambda>(i, g). m (g (xs ! i))) ups"
    using same by (auto intro!: map_cong)
  moreover have "sum_list (map m ?xs) + m (xs ! j) = sum_list (map m xs) + m (g (xs ! j))"
    using sum_list_update_mset [of j xs m] Cons.prems(2) u by simp
  ultimately have "sum_list (map m (upd_all ups ?xs)) + (m (xs ! j) + sum_list (map (\<lambda>(i, g). m (xs ! i)) ups))
      = sum_list (map m xs) + (m (g (xs ! j)) + sum_list (map (\<lambda>(i, g). m (g (xs ! i))) ups))"
    by (intro mset_regroup) simp_all
  then show ?case by (simp add: u)
qed simp

section \<open>Publishing\<close>

lemma dict_run_map: "dict_run targets runs n = (case map_of (zip targets runs) (TDict n) of None \<Rightarrow> None | Some r \<Rightarrow> r)"
proof -
  have "(case List.find (\<lambda>(t, _). t = TDict n) ts of None \<Rightarrow> None | Some (_, r) \<Rightarrow> r)
      = (case map_of ts (TDict n) of None \<Rightarrow> None | Some r \<Rightarrow> r)" for ts :: "(target \<times> run option) list"
    by (induction ts) auto
  then show ?thesis by (simp add: dict_run_def)
qed

definition dict_image :: "slot_plan \<Rightarrow> byte list" where
  "dict_image work = (case pl_dict work of None \<Rightarrow> [] | Some x \<Rightarrow> x)"

lemma map_of_dicts:
  "map_of (dict_descriptors plans targets runs) n =
     (if n < length plans then map_option (\<lambda>r. from_run_used r (length (dict_image (plans ! n)))) (dict_run targets runs n) else None)"
proof -
  let ?f = "\<lambda>(n, work). map_option (\<lambda>r. (n, from_run_used r (length (dict_image work)))) (dict_run targets runs n)"
  have "map_of (List.map_filter ?f (enumerate k plans)) n =
     (if k \<le> n \<and> n < k + length plans then map_option (\<lambda>r. from_run_used r (length (dict_image (plans ! (n - k))))) (dict_run targets runs n) else None)" for k
  proof (induction plans arbitrary: k)
    case (Cons work plans)
    have step: "List.map_filter ?f (enumerate k (work # plans)) =
        (case dict_run targets runs k of None \<Rightarrow> [] | Some r \<Rightarrow> [(k, from_run_used r (length (dict_image work)))])
        @ List.map_filter ?f (enumerate (Suc k) plans)"
      by (simp add: List.map_filter_def split: option.splits)
    show ?case
    proof (cases "n = k")
      case True
      then show ?thesis unfolding step map_of_append using Cons [of "Suc k"] by (simp add: map_add_def split: option.splits)
    next
      case False
      then have "(work # plans) ! (n - k) = plans ! (n - Suc k)" if "k \<le> n" using that by (simp add: nth_Cons split: nat.splits) (metis Suc_diff_Suc diff_Suc_Suc nat.inject le_neq_implies_less)
      then show ?thesis
        unfolding step map_of_append using Cons [of "Suc k"] False by (auto simp: map_add_def split: option.splits)
    qed
  qed (auto simp: List.map_filter_def)
  from this [of 0] show ?thesis by (simp add: dict_descriptors_def dict_image_def)
qed

definition repointed :: "dict_runs \<Rightarrow> nat \<Rightarrow> struct_storage \<Rightarrow> struct_storage" where
  "repointed dicts n s = (case map_of dicts n of None \<Rightarrow> s | Some d \<Rightarrow> s\<lparr>ss_dict := (ss_dict s)\<lparr>ds_desc := d\<rparr>\<rparr>)"

definition published :: "slot_plan \<Rightarrow> struct_storage \<Rightarrow> struct_storage" where
  "published work s = (fold clear_removed (pl_cleared work) s)\<lparr>ss_dir := Some (pl_dir work)\<rparr>"

definition old_dicts :: "dict_runs \<Rightarrow> (nat \<times> slot_plan) list \<Rightarrow> struct_storage list \<Rightarrow> run list" where
  "old_dicts dicts ws types = concat (map (\<lambda>(n, work). case map_of dicts n of None \<Rightarrow> []
     | Some d \<Rightarrow> let old = ds_desc (ss_dict (types ! pl_idx work)) in if is_allocated old then [desc_run old] else []) ws)"

lemma repoint_dicts_eq:
  "distinct (map (\<lambda>(n, work). pl_idx work) ws) \<Longrightarrow>
   repoint_dicts dicts ws (types, a) =
     (upd_all (map (\<lambda>(n, work). (pl_idx work, repointed dicts n)) ws) types, fold free (old_dicts dicts ws types) a)"
proof (induction ws arbitrary: types a)
  case (Cons w ws)
  obtain n work where w: "w = (n, work)" by fastforce
  let ?types = "types[pl_idx work := repointed dicts n (types ! pl_idx work)]"
  have "?types ! pl_idx x = types ! pl_idx x" if "(m, x) \<in> set ws" for m x
    using that Cons.prems w by (cases "pl_idx x = pl_idx work") force+
  then have old: "old_dicts dicts ws ?types = old_dicts dicts ws types"
    unfolding old_dicts_def by (auto intro!: arg_cong [of _ _ concat] map_cong split: option.splits)
  show ?case
  proof (cases "map_of dicts n")
    case None
    then have "?types = types" by (simp add: repointed_def)
    then show ?thesis using Cons None w by (simp add: old_dicts_def)
  next
    case (Some d)
    let ?old = "ds_desc (ss_dict (types ! pl_idx work))"
    have "repoint_dicts dicts (w # ws) (types, a) = repoint_dicts dicts ws (?types, if is_allocated ?old then free (desc_run ?old) a else a)"
      using Some w by (simp add: repointed_def ds_repoint_def Let_def)
    moreover have "old_dicts dicts (w # ws) types = (if is_allocated ?old then [desc_run ?old] else []) @ old_dicts dicts ws types"
      using Some w by (simp add: old_dicts_def)
    ultimately show ?thesis using Cons old w by simp
  qed
qed (simp add: old_dicts_def)

lemma publish_dirs_eq: "publish_dirs ws types = upd_all (map (\<lambda>work. (pl_idx work, published work)) ws) types"
  by (induction ws arbitrary: types) (simp_all add: published_def)

lemma fold_clear_fields [simp]:
  "ss_hash (fold clear_removed ids s) = ss_hash s" "ss_dir (fold clear_removed ids s) = ss_dir s"
  "ss_dict (fold clear_removed ids s) = ss_dict s" "ss_cache (fold clear_removed ids s) = ss_cache s"
  "ss_dead (fold clear_removed ids s) = filter (\<lambda>k. k \<notin> raw ` set ids) (ss_dead s)"
  by (induction ids arbitrary: s) (auto simp: clear_removed_def bs_remove_def intro: filter_cong)

end
