(* ===== verification/Round_Laws.thy ===== *)
theory Round_Laws
  imports Place_Laws
begin

text \<open>
  One round into one window: \<open>place_in\<close> succeeds on well-formed plans that fit the address space, every
  image is found again at the descriptor it was given, every run that stays live keeps its bytes, and the
  allocator owns exactly the runs that the store refers to afterwards.
\<close>

section \<open>Descriptors and sizes\<close>

lemma desc_run_used:
  assumes "run_start r < 2 ^ 40" "run_count r < 2 ^ 20"
  shows "desc_run (from_run_used r u) = r" "is_allocated (from_run_used r u) \<longleftrightarrow> 0 < run_count r"
proof -
  have w: "unat (of_nat (run_start r) :: u64) = run_start r" "unat (of_nat (run_count r) :: u64) = run_count r"
    using assms by (simp_all add: unat_of_nat take_bit_nat_eq_self)
  have "desc_start (from_run_used r u) = of_nat (run_start r)" "desc_count (from_run_used r u) = of_nat (run_count r)"
    using assms w by (simp_all add: from_run_used_def from_run_def desc_unpack mask_values word_and_mask_small)
  with w show "desc_run (from_run_used r u) = r" "is_allocated (from_run_used r u) \<longleftrightarrow> 0 < run_count r"
    by (cases r; simp add: desc_run_def is_allocated_def unat_eq_0 [symmetric])+
qed

lemma desc_m_used: "run_start r < 2 ^ 40 \<Longrightarrow> run_count r < 2 ^ 20 \<Longrightarrow> 0 < run_count r \<Longrightarrow> desc_m (from_run_used r u) = {#r#}"
  by (simp add: desc_m_def desc_run_used)

lemma blocks_of_facts:
  "0 < length b \<Longrightarrow> 0 < blocks_of b" "length b \<le> blocks_of b * BLOCK_SIZE" "length b \<le> 2 ^ 32 - 4096 \<Longrightarrow> blocks_of b < 2 ^ 20"
  unfolding blocks_of_def by (simp_all add: div_greater_zero_iff Suc_le_eq)

section \<open>The edit chunk keeps its length\<close>

definition same_shape :: "slot_plan \<Rightarrow> slot_plan \<Rightarrow> bool" where
  "same_shape w v \<longleftrightarrow> pl_idx w = pl_idx v \<and> pl_pages w = pl_pages v \<and> pl_dict w = pl_dict v \<and> pl_cleared w = pl_cleared v
     \<and> dir_len (pl_dir w) = dir_len (pl_dir v) \<and> dir_seed (pl_dir w) = dir_seed (pl_dir v)"

lemma installed_shape: "same_shape (installed ts n work) work"
  by (simp add: same_shape_def installed_def dir_len_def)

lemma planned_edit_bytes:
  "same_shape w v \<Longrightarrow> edit_bytes (planned_edit ps full dicts n w) = edit_bytes (planned_edit ps full dicts' n v)"
  by (simp add: same_shape_def edit_bytes_def planned_edit_def every_bucket_def dir_len_def Let_def split: option.splits)

lemma chunk_of_bytes:
  assumes "length ws = length vs" "\<forall>n<length ws. same_shape (ws ! n) (vs ! n)"
  shows "map edit_bytes (ec_slots (chunk_of ps ws full dicts prev)) = map edit_bytes (ec_slots (chunk_of ps vs full dicts' prev))"
proof -
  have "map pl_idx ws = map pl_idx vs" using assms by (intro nth_equalityI) (auto simp: same_shape_def)
  from arg_cong [OF this, of set] have idx: "pl_idx ` set ws = pl_idx ` set vs" by simp
  have "(\<exists>w\<in>set ws. pl_idx w = i) = (\<exists>w\<in>set vs. pl_idx w = i)" for i using idx by (metis imageE imageI)
  moreover have "map (edit_bytes \<circ> (\<lambda>(n, work). planned_edit ps full dicts n work)) (enumerate 0 ws)
      = map (edit_bytes \<circ> (\<lambda>(n, work). planned_edit ps full dicts' n work)) (enumerate 0 vs)"
    using assms by (intro nth_equalityI) (auto simp: nth_enumerate_eq intro: planned_edit_bytes)
  ultimately show ?thesis by (simp add: chunk_of_def)
qed

lemma valid_chunk_bytes: "map edit_bytes (ec_slots c) = map edit_bytes (ec_slots d) \<Longrightarrow> valid_chunk c \<longleftrightarrow> valid_chunk d"
  by (simp add: valid_chunk_def)

lemma edit_encode_length:
  "map edit_bytes (ec_slots c) = map edit_bytes (ec_slots d) \<Longrightarrow> valid_chunk d \<Longrightarrow> length (edit_encode E c) = length (edit_encode E d)"
  using length_edit_encode [of c E] length_edit_encode [of d E] valid_chunk_bytes [of c d] by simp

section \<open>Accounting\<close>

definition opt_dir_m :: "struct_storage \<Rightarrow> run multiset" where
  "opt_dir_m s = (case ss_dir s of None \<Rightarrow> {#} | Some dir \<Rightarrow> dir_m dir)"

lemma slot_m_opt: "slot_m s = opt_dir_m s + desc_m (ds_desc (ss_dict s))"
  by (simp add: slot_m_def opt_dir_m_def)

definition dicts_m :: "dict_runs \<Rightarrow> nat \<Rightarrow> run multiset" where
  "dicts_m dicts N = sum_list (map (\<lambda>n. case map_of dicts n of None \<Rightarrow> {#} | Some d \<Rightarrow> desc_m d) [0..<N])"

lemma mset_balance:
  fixes T :: "'a multiset"
  assumes "T + (P + D) = S + (P' + X)" "X + O1 = D + N" "P' + F = P + G"
  shows "T + F + O1 = S + G + N"
proof (rule multiset_eqI)
  fix x
  from assms have "count T x + (count P x + count D x) = count S x + (count P' x + count X x)"
    "count X x + count O1 x = count D x + count N x" "count P' x + count F x = count P x + count G x"
    by (metis count_union)+
  then show "count (T + F + O1) x = count (S + G + N) x" by simp
qed

lemma sum_list_zip_plus: "sum_list (map (\<lambda>x. f x + g x) xs) = sum_list (map f xs) + (sum_list (map g xs) :: 'a multiset)"
  by (simp add: sum_list_addf)

text \<open>Publishing the installed plans, and freeing what they replace, balances.\<close>

lemma publish_balance:
  assumes "distinct (map pl_idx plans)" "\<forall>work\<in>set plans. pl_idx work < length types"
    "\<forall>work\<in>set plans. dir_m (pl_dir work) = opt_dir_m (types ! pl_idx work)"
    "length plans1 = length plans" "\<forall>n<length plans. pl_idx (plans1 ! n) = pl_idx (plans ! n)"
    "plans_m plans1 + mset freed = plans_m plans + G"
  shows "sum_list (map slot_m (upd_all (map (\<lambda>work. (pl_idx work, published work)) plans1)
        (upd_all (map (\<lambda>(n, work). (pl_idx work, repointed dicts n)) (enumerate 0 plans1)) types)))
      + mset freed + mset (old_dicts dicts (enumerate 0 plans1) types)
    = sum_list (map slot_m types) + G + dicts_m dicts (length plans)"
proof -
  let ?N = "length plans"
  let ?up1 = "map (\<lambda>(n, work). (pl_idx work, repointed dicts n)) (enumerate 0 plans1)"
  let ?up2 = "map (\<lambda>work. (pl_idx work, published work)) plans1"
  let ?both = "map (\<lambda>(n, work). (pl_idx work, published work \<circ> repointed dicts n)) (enumerate 0 plans1)"
  let ?s = "\<lambda>n. types ! pl_idx (plans ! n)" and ?D = "\<lambda>n. desc_m (ds_desc (ss_dict (types ! pl_idx (plans ! n))))"
  let ?X = "\<lambda>n. case map_of dicts n of None \<Rightarrow> ?D n | Some d \<Rightarrow> desc_m d"
  have idx: "map pl_idx plans1 = map pl_idx plans" using assms(4, 5) by (intro nth_equalityI) auto
  have en: "enumerate 0 plans1 = map (\<lambda>n. (n, plans1 ! n)) [0..<?N]"
    using assms(4) by (intro nth_equalityI) (auto simp: nth_enumerate_eq)
  have pl: "plans1 = map (\<lambda>n. plans1 ! n) [0..<?N]" "plans = map (\<lambda>n. plans ! n) [0..<?N]"
    using map_nth [of plans1] map_nth [of plans] assms(4) by simp_all
  have i: "pl_idx (plans ! n) < length types" if "n < ?N" for n using assms(2) that by simp
  have d1: "distinct (map fst ?up1)" "distinct (map fst ?up2)" "distinct (map fst ?both)"
    using assms(1) idx by (simp_all add: comp_def case_prod_unfold flip: map_map [of pl_idx snd, unfolded comp_def])
  have "upd_all ?up2 (upd_all ?up1 types) = upd_all ?both types"
  proof (rule nth_equalityI)
    fix k assume "k < length (upd_all ?up2 (upd_all ?up1 types))"
    then have k: "k < length types" by simp
    have m: "map_of (map (\<lambda>(n, work). (pl_idx work, h n work)) ns) k = map_option (\<lambda>(n, work). h n work) (List.find (\<lambda>(n, work). pl_idx work = k) ns)"
      for h :: "nat \<Rightarrow> slot_plan \<Rightarrow> struct_storage \<Rightarrow> struct_storage" and ns
      by (induction ns) auto
    have "?up2 = map (\<lambda>(n, work). (pl_idx work, published work)) (enumerate 0 plans1)"
      unfolding en by (subst (1) pl(1)) simp
    then show "upd_all ?up2 (upd_all ?up1 types) ! k = upd_all ?both types ! k"
      using upd_all_nth [OF d1(1) k] upd_all_nth [OF d1(2), of k "upd_all ?up1 types"] upd_all_nth [OF d1(3) k] k
      by (simp add: m [of "\<lambda>n work. published work"] m [of "\<lambda>n work. repointed dicts n"] m [of "\<lambda>n work. published work \<circ> repointed dicts n"]
          split: option.splits)
  qed simp
  moreover have "sum_list (map slot_m (upd_all ?both types)) + sum_list (map (\<lambda>n. slot_m (?s n)) [0..<?N])
      = sum_list (map slot_m types) + sum_list (map (\<lambda>n. slot_m (published (plans1 ! n) (repointed dicts n (?s n)))) [0..<?N])"
  proof -
    have eq: "map (\<lambda>n. slot_m (types ! pl_idx (plans1 ! n))) [0..<?N] = map (\<lambda>n. slot_m (?s n)) [0..<?N]"
      "map (\<lambda>n. slot_m (published (plans1 ! n) (repointed dicts n (types ! pl_idx (plans1 ! n))))) [0..<?N]
        = map (\<lambda>n. slot_m (published (plans1 ! n) (repointed dicts n (?s n)))) [0..<?N]"
      using assms(5) by (auto intro!: map_cong)
    from upd_all_sum [OF d1(3), of types slot_m] i assms(5)
    have "sum_list (map slot_m (upd_all ?both types)) + sum_list (map (\<lambda>n. slot_m (types ! pl_idx (plans1 ! n))) [0..<?N])
      = sum_list (map slot_m types) + sum_list (map (\<lambda>n. slot_m (published (plans1 ! n) (repointed dicts n (types ! pl_idx (plans1 ! n))))) [0..<?N])"
      by (simp add: en comp_def)
    then show ?thesis unfolding eq .
  qed
  moreover have "sum_list (map (\<lambda>n. slot_m (?s n)) [0..<?N]) = plans_m plans + sum_list (map ?D [0..<?N])"
  proof -
    have "map (\<lambda>n. slot_m (?s n)) [0..<?N] = map (\<lambda>n. dir_m (pl_dir (plans ! n)) + ?D n) [0..<?N]"
      using assms(3) by (auto simp: slot_m_opt intro!: map_cong)
    moreover have "plans_m plans = sum_list (map (\<lambda>n. dir_m (pl_dir (plans ! n))) [0..<?N])"
      using arg_cong [OF pl(2), of plans_m] by (simp add: plans_m_def comp_def)
    ultimately show ?thesis by (simp only: sum_list_zip_plus)
  qed
  moreover have "sum_list (map (\<lambda>n. slot_m (published (plans1 ! n) (repointed dicts n (?s n)))) [0..<?N])
      = plans_m plans1 + sum_list (map ?X [0..<?N])"
  proof -
    have "slot_m (published (plans1 ! n) (repointed dicts n (?s n))) = dir_m (pl_dir (plans1 ! n)) + ?X n" for n
      by (simp add: slot_m_def published_def repointed_def split: option.splits)
    moreover have "plans_m plans1 = sum_list (map (\<lambda>n. dir_m (pl_dir (plans1 ! n))) [0..<?N])"
      using arg_cong [OF pl(1), of plans_m] by (simp add: plans_m_def comp_def)
    ultimately show ?thesis by (simp only: sum_list_zip_plus)
  qed
  ultimately have "sum_list (map slot_m (upd_all ?up2 (upd_all ?up1 types))) + (plans_m plans + sum_list (map ?D [0..<?N]))
      = sum_list (map slot_m types) + (plans_m plans1 + sum_list (map ?X [0..<?N]))"
    by (simp only:)
  moreover have "sum_list (map ?X [0..<?N]) + mset (old_dicts dicts (enumerate 0 plans1) types)
      = sum_list (map ?D [0..<?N]) + dicts_m dicts ?N"
  proof -
    have "mset (old_dicts dicts (enumerate 0 plans1) types) =
        sum_list (map (\<lambda>n. case map_of dicts n of None \<Rightarrow> {#} | Some d \<Rightarrow> ?D n) [0..<?N])"
      unfolding old_dicts_def en mset_concat
      using assms(5) by (auto simp: comp_def desc_m_def Let_def intro!: arg_cong [of _ _ sum_list] map_cong split: option.splits)
    then show ?thesis
      unfolding dicts_m_def by (simp flip: sum_list_zip_plus) (auto intro!: arg_cong [of _ _ sum_list] map_cong split: option.splits)
  qed
  ultimately show ?thesis using assms(6) by (rule mset_balance)
qed

lemma dict_target_sum:
  fixes g :: "run option \<Rightarrow> 'a multiset"
  assumes "distinct (map fst ts)" "\<And>n. TDict n \<in> fst ` set ts \<Longrightarrow> n < N"
  shows "sum_list (map (\<lambda>n. case map_of ts (TDict n) of None \<Rightarrow> {#} | Some r \<Rightarrow> g r) [0..<N])
    = sum_list (map (\<lambda>(t, r). case t of TDict n \<Rightarrow> g r | _ \<Rightarrow> {#}) ts)"
  using assms
proof (induction ts)
  case Nil
  then show ?case by (induction N) auto
next
  case (Cons x ts)
  obtain t r where x: "x = (t, r)" by fastforce
  let ?f = "\<lambda>ts n. case map_of ts (TDict n) of None \<Rightarrow> {#} | Some r \<Rightarrow> g r"
  have IH: "sum_list (map (?f ts) [0..<N]) = sum_list (map (\<lambda>(t, r). case t of TDict n \<Rightarrow> g r | _ \<Rightarrow> {#}) ts)"
    using Cons.IH Cons.prems by simp
  show ?case
  proof (cases "\<exists>n. t = TDict n")
    case True
    then obtain n where n: "t = TDict n" by blast
    have "map_of ts (TDict n) = None" using Cons.prems(1) x n by (simp add: map_of_eq_None_iff)
    then have zero: "?f ts n = {#}" by simp
    have "n < N" using Cons.prems(2) [of n] x n by simp
    moreover have "map (?f (x # ts)) [0..<N] = (map (?f ts) [0..<N])[n := g r]"
      using x n by (intro nth_equalityI) (auto simp: nth_list_update)
    ultimately show ?thesis
      using sum_list_update_mset [of n "map (?f ts) [0..<N]" "\<lambda>m. m" "g r"] zero IH x n by (simp add: union_commute)
  next
    case False
    then have "?f (x # ts) n = ?f ts n" for n using x by auto
    then show ?thesis using IH x False by (auto split: target.splits)
  qed
qed

lemma carve_balance:
  assumes "targets = T @ [TEdit]" "distinct targets" "length rs = length targets"
    "\<forall>r\<in>set rs. run_start r < 2 ^ 40 \<and> run_count r < 2 ^ 20 \<and> 0 < run_count r"
    "\<And>n. TDict n \<in> set targets \<Longrightarrow> n < length plans1"
  shows "mset rs = pages_m plans (zip targets (map Some rs))
    + dicts_m (dict_descriptors plans1 targets (map Some rs)) (length plans1) + {#last rs#}"
proof -
  let ?ts = "zip targets (map Some rs)"
  let ?page = "\<lambda>(t, r :: run option). case t of TPage _ _ \<Rightarrow> {#the r#} | _ \<Rightarrow> {#}"
  let ?dict = "\<lambda>(t, r :: run option). case t of TDict _ \<Rightarrow> {#the r#} | _ \<Rightarrow> {#}"
  let ?edit = "\<lambda>(t, r :: run option). case t of TEdit \<Rightarrow> {#the r#} | _ \<Rightarrow> {#}"
  have used: "desc_m (from_run_used r u) = {#r#}" if "(t, Some r) \<in> set ?ts" for t r u
  proof -
    have "r \<in> set rs" using set_zip_rightD [OF that] by auto
    then show ?thesis using assms(4) by (simp add: desc_m_used)
  qed
  have rs: "\<exists>q. r = Some q" if "(t, r) \<in> set ?ts" for t r using set_zip_rightD [OF that] by auto
  have "pages_m plans ?ts = sum_list (map ?page ?ts)"
  proof -
    have "(case t of TPage n b \<Rightarrow> desc_m (new_desc (plans ! n) b r) | _ \<Rightarrow> {#}) = ?page (t, r)" if "(t, r) \<in> set ?ts" for t r
      using rs [OF that] used that by (auto simp: new_desc_def split: target.splits)
    then show ?thesis unfolding pages_m_def by (intro arg_cong [of _ _ sum_list] map_cong) auto
  qed
  moreover have "dicts_m (dict_descriptors plans1 targets (map Some rs)) (length plans1) = sum_list (map ?dict ?ts)"
  proof -
    have "(case map_of (dict_descriptors plans1 targets (map Some rs)) n of None \<Rightarrow> {#} | Some d \<Rightarrow> desc_m d)
        = (case map_of ?ts (TDict n) of None \<Rightarrow> {#} | Some r \<Rightarrow> {#the r#})" if "n < length plans1" for n
      using that used rs [OF map_of_SomeD]
      by (auto simp: map_of_dicts dict_run_map split: option.splits dest!: map_of_SomeD dest: rs)
    then have "dicts_m (dict_descriptors plans1 targets (map Some rs)) (length plans1)
        = sum_list (map (\<lambda>n. case map_of ?ts (TDict n) of None \<Rightarrow> {#} | Some r \<Rightarrow> {#the r#}) [0..<length plans1])"
      unfolding dicts_m_def by (intro arg_cong [of _ _ sum_list] map_cong) auto
    also have "\<dots> = sum_list (map (\<lambda>(t, r). case t of TDict n \<Rightarrow> {#the r#} | _ \<Rightarrow> {#}) ?ts)"
      by (rule dict_target_sum) (use assms(2, 3, 5) in \<open>auto dest: set_zip_leftD\<close>)
    finally show ?thesis .
  qed
  moreover have "sum_list (map ?edit ?ts) = {#last rs#}"
  proof -
    obtain qs q where q: "rs = qs @ [q]" "length qs = length T" using assms(1, 3) by (cases rs rule: rev_cases) auto
    have "?edit x = {#}" if "x \<in> set (zip T (map Some qs))" for x
    proof -
      have "fst x \<in> set T" using that set_zip_leftD by (metis prod.collapse)
      then have "fst x \<noteq> TEdit" using assms(1, 2) by auto
      then show ?thesis by (cases x) (auto split: target.splits)
    qed
    moreover have "sum_list (map ?edit xs) = {#}" if "\<forall>x\<in>set xs. ?edit x = {#}" for xs
      using that by (induction xs) auto
    ultimately have "sum_list (map ?edit (zip T (map Some qs))) = {#}" by blast
    then show ?thesis using q assms(1) by simp
  qed
  moreover have "mset rs = sum_list (map (\<lambda>x. ?page x + ?dict x + ?edit x) ?ts)"
  proof -
    have "map (\<lambda>x. ?page x + ?dict x + ?edit x) ?ts = map (\<lambda>x. {#the (snd x)#}) ?ts"
      by (auto intro!: map_cong split: target.splits)
    also have "\<dots> = map (\<lambda>r. {#r#}) rs" using assms(3) by (intro nth_equalityI) auto
    finally have eq: "map (\<lambda>x. ?page x + ?dict x + ?edit x) ?ts = map (\<lambda>r. {#r#}) rs" .
    have "mset rs = sum_list (map (\<lambda>r. {#r#}) rs)" by (induction rs) simp_all
    then show ?thesis unfolding eq .
  qed
  ultimately show ?thesis by (simp add: sum_list_zip_plus)
qed

section \<open>A placed round\<close>

definition stored_at :: "block_file \<Rightarrow> byte list \<Rightarrow> block_descriptor \<Rightarrow> bool" where
  "stored_at f img d \<longleftrightarrow> is_allocated d \<and> (\<exists>pad. read_run f (desc_run d) = Ok (img @ pad))"

definition fits_run :: "byte list \<Rightarrow> bool" where
  "fits_run b \<longleftrightarrow> 0 < length b \<and> length b \<le> 2 ^ 32 - 4096"

text \<open>Plans of distinct slots, with images that fit a run and directories that still hold the slot's runs.\<close>

definition plans_ok :: "page_store \<Rightarrow> slot_plan list \<Rightarrow> bool" where
  "plans_ok ps plans \<longleftrightarrow> distinct (map pl_idx plans)
     \<and> (\<forall>work\<in>set plans. pl_idx work < length (ps_types ps) \<and> distinct (map fst (pl_pages work))
          \<and> (\<forall>(b, img)\<in>set (pl_pages work). b < dir_len (pl_dir work) \<and> fits_run img)
          \<and> (\<forall>img. pl_dict work = Some img \<longrightarrow> fits_run img)
          \<and> dir_m (pl_dir work) = opt_dir_m (ps_types ps ! pl_idx work))"

definition prev_link :: "meta_log \<Rightarrow> u64" where
  "prev_link m = (if wants_snapshot m then 0 else meta_head m)"

definition round_chunk :: "page_store \<Rightarrow> slot_plan list \<Rightarrow> dict_runs \<Rightarrow> edit_chunk" where
  "round_chunk ps plans dicts = chunk_of ps plans (wants_snapshot (ps_meta ps)) dicts (prev_link (ps_meta ps))"

definition round_sizes :: "libs \<Rightarrow> page_store \<Rightarrow> slot_plan list \<Rightarrow> nat list" where
  "round_sizes E ps plans = map (size_of plans (edit_encode E (round_chunk ps plans []))) (targets_of plans @ [TEdit])"

text \<open>The round fits the descriptors' address space and the chunk's length fields.\<close>

definition round_fits :: "libs \<Rightarrow> page_store \<Rightarrow> slot_plan list \<Rightarrow> bool" where
  "round_fits E ps plans \<longleftrightarrow> valid_chunk (round_chunk ps plans [])
     \<and> total_blocks (ps_alloc ps) + sum_list (round_sizes E ps plans) \<le> 2 ^ 40"

definition space_ok :: "page_store \<Rightarrow> bool" where
  "space_ok ps \<longleftrightarrow> alloc_owns (ps_alloc ps) (live_m ps) \<and> list_all is_allocated (ml_edits (ps_meta ps))"

definition slots_after :: "slot_plan list \<Rightarrow> dict_runs \<Rightarrow> struct_storage list \<Rightarrow> struct_storage list" where
  "slots_after plans1 dicts types = upd_all (map (\<lambda>work. (pl_idx work, published work)) plans1)
     (upd_all (map (\<lambda>(n, work). (pl_idx work, repointed dicts n)) (enumerate 0 plans1)) types)"

text \<open>What a round spares: the seed and the durable image of the file, the protected generations, and the
  contents of every run inside them and of the superblock.\<close>

definition spares :: "page_store \<Rightarrow> page_store \<Rightarrow> bool" where
  "spares ps ps' \<longleftrightarrow> bf_seed (ps_file ps') = bf_seed (ps_file ps) \<and> bf_durable (ps_file ps') = bf_durable (ps_file ps)
     \<and> protected (ps_alloc ps') = protected (ps_alloc ps) \<and> previous_gen (ps_alloc ps') = previous_gen (ps_alloc ps)
     \<and> (\<forall>r b. 0 < run_count r \<longrightarrow> blocks r \<subseteq> insert 0 (roots (ps_alloc ps)) \<longrightarrow> read_run (ps_file ps) r = Ok b \<longrightarrow> read_run (ps_file ps') r = Ok b)"

lemma spares_refl [simp]: "spares ps ps"
  by (simp add: spares_def)

lemma spares_roots: "spares ps ps' \<Longrightarrow> roots (ps_alloc ps') = roots (ps_alloc ps)"
  by (simp add: spares_def)

lemma spares_trans: "spares ps ps1 \<Longrightarrow> spares ps1 ps2 \<Longrightarrow> spares ps ps2"
  using spares_roots [of ps ps1] by (simp add: spares_def)

definition placed_round ::
    "libs \<Rightarrow> page_store \<Rightarrow> slot_plan list \<Rightarrow> page_store \<Rightarrow> slot_plan list \<Rightarrow> dict_runs \<Rightarrow> block_descriptor \<Rightarrow> bool" where
  "placed_round E ps plans ps' plans1 dicts cd \<longleftrightarrow>
     ps' = ps\<lparr>ps_file := ps_file ps', ps_alloc := ps_alloc ps', ps_meta := ps_meta ps', ps_types := ps_types ps'\<rparr>
   \<and> length plans1 = length plans \<and> (\<forall>n<length plans. same_shape (plans1 ! n) (plans ! n))
   \<and> ps_types ps' = slots_after plans1 dicts (ps_types ps)
   \<and> space_ok ps' \<and> spares ps ps'
   \<and> (\<forall>r b. r \<in># live_m ps \<longrightarrow> read_run (ps_file ps) r = Ok b \<longrightarrow> read_run (ps_file ps') r = Ok b)
   \<and> (\<forall>n<length plans. \<forall>b<dir_len (pl_dir (plans ! n)). case map_of (pl_pages (plans ! n)) b of
         None \<Rightarrow> dir_slots (pl_dir (plans1 ! n)) ! b = dir_slots (pl_dir (plans ! n)) ! b
       | Some img \<Rightarrow> stored_at (ps_file ps') img (dir_slots (pl_dir (plans1 ! n)) ! b))
   \<and> (\<forall>n<length plans. case pl_dict (plans ! n) of
         None \<Rightarrow> map_of dicts n = None
       | Some img \<Rightarrow> \<exists>d. map_of dicts n = Some d \<and> stored_at (ps_file ps') img d)
   \<and> stored_at (ps_file ps') (edit_encode E (round_chunk ps plans1 dicts)) cd \<and> valid_chunk (round_chunk ps plans1 dicts)
   \<and> ps_meta ps' = snd (meta_record cd (wants_snapshot (ps_meta ps)) (ps_meta ps))"

lemma taken_end:
  assumes "taken a w a'"
  shows "run_end w \<le> total_blocks a + run_count w"
proof (rule ccontr)
  assume "\<not> ?thesis"
  then have s: "total_blocks a < run_start w" by (simp add: run_end_def)
  have t: "{..<total_blocks a'} = {..<total_blocks a} \<union> {run_start w..<run_end w}" "0 < run_count w"
    using assms by (simp_all add: taken_def blocks_def)
  have "run_start w \<in> {..<total_blocks a'}" unfolding t(1) using t(2) by (simp add: run_end_def)
  then have "total_blocks a \<in> {..<total_blocks a'}" using s by simp
  then show False unfolding t(1) using s by simp
qed

lemma meta_record_balance:
  assumes "meta_record cd full m = (stale, m')" "is_allocated cd" "list_all is_allocated (ml_edits m)"
  shows "mset (meta_runs m') + mset stale = mset (meta_runs m) + {#desc_run cd#}" "list_all is_allocated (ml_edits m')"
proof -
  have "filter is_allocated (ml_edits m) = ml_edits m" using assms(3) by (simp add: filter_id_conv list_all_iff)
  with assms show "mset (meta_runs m') + mset stale = mset (meta_runs m) + {#desc_run cd#}" "list_all is_allocated (ml_edits m')"
    by (auto simp: meta_record_def meta_runs_def simp del: mset_filter mset_map split: if_splits)
qed

lemma plans_okD:
  assumes "plans_ok ps plans" "n < length plans"
  shows "pl_idx (plans ! n) < length (ps_types ps)" "distinct (map fst (pl_pages (plans ! n)))"
    "(b, img) \<in> set (pl_pages (plans ! n)) \<Longrightarrow> b < dir_len (pl_dir (plans ! n)) \<and> fits_run img"
    "pl_dict (plans ! n) = Some img \<Longrightarrow> fits_run img"
    "dir_m (pl_dir (plans ! n)) = opt_dir_m (ps_types ps ! pl_idx (plans ! n))"
proof -
  have w: "plans ! n \<in> set plans" using assms(2) by simp
  show "pl_idx (plans ! n) < length (ps_types ps)" "distinct (map fst (pl_pages (plans ! n)))"
    "pl_dict (plans ! n) = Some img \<Longrightarrow> fits_run img"
    "dir_m (pl_dir (plans ! n)) = opt_dir_m (ps_types ps ! pl_idx (plans ! n))"
    using assms(1) w unfolding plans_ok_def by blast+
  show "(b, img) \<in> set (pl_pages (plans ! n)) \<Longrightarrow> b < dir_len (pl_dir (plans ! n)) \<and> fits_run img"
    using assms(1) w unfolding plans_ok_def by fast
qed

lemma page_target:
  assumes "plans_ok ps plans" "TPage n b \<in> set (targets_of plans)"
  obtains img where "n < length plans" "b < dir_len (pl_dir (plans ! n))" "map_of (pl_pages (plans ! n)) b = Some img" "fits_run img"
proof -
  have n: "n < length plans" "b \<in> fst ` set (pl_pages (plans ! n))" using assms(2) TPage_target [of n b plans] by simp_all
  then obtain img where "(b, img) \<in> set (pl_pages (plans ! n))" by auto
  with that n(1) plans_okD [OF assms(1) n(1)] show ?thesis by (metis map_of_is_SomeI)
qed

lemma dict_target:
  assumes "plans_ok ps plans" "TDict n \<in> set (targets_of plans)"
  obtains img where "n < length plans" "pl_dict (plans ! n) = Some img" "fits_run img"
proof -
  have n: "n < length plans" "pl_dict (plans ! n) \<noteq> None" using assms(2) TDict_target [of n plans] by simp_all
  then show ?thesis using that plans_okD(4) [OF assms(1) n(1)] by blast
qed

lemma image_fits:
  assumes "plans_ok ps plans" "fits_run chunk" "t \<in> set (targets_of plans @ [TEdit])"
  shows "fits_run (image_at plans chunk t)"
proof (cases t)
  case (TPage n b)
  with assms(3) have "TPage n b \<in> set (targets_of plans)" by simp
  then obtain img where "map_of (pl_pages (plans ! n)) b = Some img" "fits_run img" by (rule page_target [OF assms(1)])
  then show ?thesis using TPage by (simp add: image_at_def)
next
  case (TDict n)
  with assms(3) have "TDict n \<in> set (targets_of plans)" by simp
  then obtain img where "pl_dict (plans ! n) = Some img" "fits_run img" by (rule dict_target [OF assms(1)])
  then show ?thesis using TDict by (simp add: image_at_def)
qed (use assms(2) in \<open>simp add: image_at_def\<close>)

lemma image_at_shape:
  assumes "length plans1 = length plans" "\<forall>n<length plans. same_shape (plans1 ! n) (plans ! n)" "plans_ok ps plans"
    "t \<in> set (targets_of plans @ [TEdit])" "t = TEdit \<longrightarrow> length chunk = length chunk'"
  shows "size_of plans1 chunk t = size_of plans chunk' t" "t \<noteq> TEdit \<Longrightarrow> image_at plans1 chunk t = image_at plans chunk' t"
proof -
  show i: "t \<noteq> TEdit \<Longrightarrow> image_at plans1 chunk t = image_at plans chunk' t"
    using assms(2, 4) TPage_target TDict_target
    by (cases t) (auto simp: image_at_def same_shape_def split: option.splits)
  show "size_of plans1 chunk t = size_of plans chunk' t"
    using i assms(5) by (cases "t = TEdit") (simp_all add: size_of_def image_at_def blocks_of_def)
qed

lemma alloc_placement:
  assumes "space_ok ps" "0 < n"
  obtains w a where "(case placement of BestFit \<Rightarrow> alloc n (ps_alloc ps) | Tail \<Rightarrow> alloc_tail n (ps_alloc ps)) = Some (w, a)"
    "run_count w = n" "taken (ps_alloc ps) w a"
proof -
  have inv: "alloc_inv (ps_alloc ps)" using assms(1) by (auto simp: space_ok_def alloc_owns_def alloc_wf_def)
  show ?thesis
  proof (cases placement)
    case BestFit
    then show ?thesis using alloc_takes [OF inv assms(2)] that by auto
  next
    case Tail
    then show ?thesis using alloc_tail_takes [OF inv assms(2)] that by auto
  qed
qed

lemma tiles_in_range:
  assumes "sum_list sizes = run_count w" "run_end w \<le> 2 ^ 40" "\<forall>n\<in>set sizes. 0 < n \<and> n < 2 ^ 20" "r \<in> set (tile_from (run_start w) sizes)"
  shows "run_start r < 2 ^ 40" "run_count r < 2 ^ 20" "0 < run_count r" "run_start w \<le> run_start r" "run_end r \<le> run_end w"
proof -
  obtain i where i: "i < length sizes" "r = Run (run_start w + sum_list (take i sizes)) (sizes ! i)"
    using assms(4) by (auto simp: in_set_conv_nth tile_facts)
  have split: "sum_list sizes = sum_list (take i sizes) + sizes ! i + sum_list (drop (Suc i) sizes)"
    using i(1) by (metis Cons_nth_drop_Suc append_take_drop_id add.assoc sum_list.Cons sum_list_append)
  show c: "run_count r < 2 ^ 20" "0 < run_count r" "run_start w \<le> run_start r" using assms(3) i by simp_all
  show e: "run_end r \<le> run_end w" using split assms(1) i(2) by (simp add: run_end_def)
  show "run_start r < 2 ^ 40" using e c(2) assms(2) by (simp add: run_end_def)
qed

text \<open>After freeing what the round replaced, the allocator owns exactly the live runs.\<close>

lemma round_space:
  assumes "space_ok ps" "plans_ok ps plans" "alloc_owns a (live_m ps + mset rs)"
    "mset rs = G + dicts_m dicts (length plans) + {#last rs#}" "plans_m plans1 + mset freed = plans_m plans + G"
    "length plans1 = length plans" "\<forall>n<length plans. same_shape (plans1 ! n) (plans ! n)"
    "meta_record cd full (ps_meta ps) = (stale, meta1)" "is_allocated cd" "desc_run cd = last rs"
  shows "space_ok (ps\<lparr>ps_file := f1,
    ps_alloc := fold free (old_dicts dicts (enumerate 0 plans1) (ps_types ps)) (fold free stale (fold free freed a)),
    ps_meta := meta1, ps_types := slots_after plans1 dicts (ps_types ps)\<rparr>)"
    (is "space_ok ?ps")
proof -
  let ?olds = "old_dicts dicts (enumerate 0 plans1) (ps_types ps)"
  have p: "distinct (map pl_idx plans)" "\<forall>work\<in>set plans. pl_idx work < length (ps_types ps)"
    "\<forall>work\<in>set plans. dir_m (pl_dir work) = opt_dir_m (ps_types ps ! pl_idx work)"
    "\<forall>n<length plans. pl_idx (plans1 ! n) = pl_idx (plans ! n)"
    using assms(2, 7) by (simp_all add: plans_ok_def same_shape_def)
  have ed: "list_all is_allocated (ml_edits (ps_meta ps))" using assms(1) by (simp add: space_ok_def)
  note m = meta_record_balance [OF assms(8, 9) ed]
  have b: "sum_list (map slot_m (slots_after plans1 dicts (ps_types ps))) + mset freed + mset ?olds
      = sum_list (map slot_m (ps_types ps)) + G + dicts_m dicts (length plans)"
    unfolding slots_after_def by (rule publish_balance [OF p(1-3) assms(6) p(4) assms(5)])
  have "live_m ps + mset rs = live_m ?ps + mset ?olds + mset stale + mset freed"
  proof (rule multiset_eqI)
    fix x
    from arg_cong [OF b, of "\<lambda>M. count M x"] arg_cong [OF m(1), of "\<lambda>M. count M x"] arg_cong [OF assms(4), of "\<lambda>M. count M x"]
    show "count (live_m ps + mset rs) x = count (live_m ?ps + mset ?olds + mset stale + mset freed) x"
      by (auto simp: live_m_def assms(10) split: if_splits)
  qed
  then have "alloc_owns a (live_m ?ps + mset ?olds + mset stale + mset freed)" using assms(3) by simp
  then show ?thesis using m(2) owns_free_all by (simp add: space_ok_def live_m_def)
qed

text \<open>The body of \<open>place_in\<close> past the allocation, with its intermediate values named.\<close>

lemma place_in_eq:
  assumes "targets_of plans \<noteq> []" "targets = targets_of plans @ [TEdit]"
    "(case placement of BestFit \<Rightarrow> alloc (sum_list (round_sizes E ps plans)) (ps_alloc ps)
        | Tail \<Rightarrow> alloc_tail (sum_list (round_sizes E ps plans)) (ps_alloc ps)) = Some (w, a)"
    "carve w (round_sizes E ps plans) = map Some rs" "rs \<noteq> []"
    "install (zip targets (map Some rs)) (plans, []) = Some (plans1, freed)"
    "dicts = dict_descriptors plans1 targets (map Some rs)" "chunk = edit_encode E (round_chunk ps plans1 dicts)"
    "length chunk = length (edit_encode E (round_chunk ps plans []))"
    "assemble w plans1 targets (map Some rs) chunk = Some bytes" "write_run w bytes (ps_file ps) = Ok file1"
    "meta_record (from_run_used (last rs) (length chunk)) (wants_snapshot (ps_meta ps)) (ps_meta ps) = (stale, meta1)"
    "publish plans1 dicts (ps_types ps, fold free stale (fold free freed a)) = (types1, a3)"
  shows "place_in E plans placement ps = (ps\<lparr>ps_file := file1, ps_alloc := a3, ps_meta := meta1, ps_types := types1\<rparr>, Ok ())"
proof -
  have "last (map Some rs) = Some (last rs)" using assms(5) by (simp add: last_map)
  moreover note assms [unfolded round_sizes_def round_chunk_def prev_link_def]
  ultimately show ?thesis unfolding place_in_def Let_def by (simp only: if_False option.case sum.case prod.case refl less_irrefl)
qed

lemma free_gens: "protected (free r a) = protected a" "previous_gen (free r a) = previous_gen a"
  by (auto simp: free_def insert_extent_def remove_extent_def Let_def split: option.splits prod.splits if_splits)

lemma free_all_gens: "protected (fold free rs a) = protected a" "previous_gen (fold free rs a) = previous_gen a"
  by (induction rs arbitrary: a) (simp_all add: free_gens)

lemma round_spares:
  assumes "space_ok ps" "taken (ps_alloc ps) w a" "write_run w bytes (ps_file ps) = Ok f1"
  shows "spares ps (ps\<lparr>ps_file := f1, ps_alloc := fold free xs (fold free ys (fold free zs a)), ps_meta := m, ps_types := types\<rparr>)"
proof -
  obtain live where live: "alloc_wf (ps_alloc ps) live" using assms(1) by (auto simp: space_ok_def alloc_owns_def)
  have r: "blocks w \<inter> roots (ps_alloc ps) = {}" and n: "0 < run_count w"
    using taken_wf(2) [OF assms(2) live] assms(2) by (simp_all add: taken_def)
  have "runs_apart (Run 0 RESERVED_BLOCKS) w"
    using owns_taken(2) [OF _ assms(2), of "live_m ps" "Run 0 RESERVED_BLOCKS"] assms(1) by (simp add: space_ok_def live_m_def)
  then have "0 \<notin> blocks w" using n by (auto simp: runs_apart_def blocks_def run_end_def)
  have "read_run f1 r = Ok b" if "0 < run_count r" "blocks r \<subseteq> insert 0 (roots (ps_alloc ps))" "read_run (ps_file ps) r = Ok b" for r b
  proof -
    have "blocks r \<inter> blocks w = {}" using that(2) r \<open>0 \<notin> blocks w\<close> by blast
    then have "runs_apart r w" using blocks_apart [OF that(1) n] by blast
    then show ?thesis using write_run_read_other [OF assms(3) that(3)] by (simp add: runs_apart_def)
  qed
  moreover have "protected a = protected (ps_alloc ps)" "previous_gen a = previous_gen (ps_alloc ps)" using assms(2) by (simp_all add: taken_def)
  moreover have "bf_seed f1 = bf_seed (ps_file ps)" "bf_durable f1 = bf_durable (ps_file ps)"
    using assms(3) by (auto simp: write_run_def split: if_splits)
  ultimately show ?thesis by (simp add: spares_def free_all_gens)
qed

lemma place_in_ok:
  assumes "space_ok ps" "plans_ok ps plans" "round_fits E ps plans" "targets_of plans \<noteq> []"
  obtains ps' plans1 dicts cd where "place_in E plans placement ps = (ps', Ok ())"
    "placed_round E ps plans ps' plans1 dicts cd"
proof -
  let ?full = "wants_snapshot (ps_meta ps)"
  define targets where "targets = targets_of plans @ [TEdit]"
  define reserved where "reserved = edit_encode E (round_chunk ps plans [])"
  define sizes where "sizes = map (size_of plans reserved) targets"
  have sizes_eq: "round_sizes E ps plans = sizes" by (simp add: round_sizes_def sizes_def reserved_def targets_def)
  have vc: "valid_chunk (round_chunk ps plans [])" and room: "total_blocks (ps_alloc ps) + sum_list sizes \<le> 2 ^ 40"
    using assms(3) sizes_eq by (simp_all add: round_fits_def)
  have res: "fits_run reserved"
    using length_edit_encode [OF vc, of E] vc by (simp add: fits_run_def reserved_def valid_chunk_def)
  have tg: "distinct targets"
    using distinct_targets [of plans] TEdit_target [of plans] assms(2) by (simp add: targets_def plans_ok_def)
  have sz: "\<forall>n\<in>set sizes. 0 < n \<and> n < 2 ^ 20"
    using image_fits [OF assms(2) res] blocks_of_facts(1, 3) by (auto simp: sizes_def size_of_def fits_run_def targets_def)
  then have pos: "list_all (\<lambda>n. 0 < n) sizes" by (simp add: list_all_iff)
  have total: "0 < sum_list sizes" using pos by (simp add: sizes_def targets_def list_all_iff)
  obtain w a where w: "(case placement of BestFit \<Rightarrow> alloc (sum_list sizes) (ps_alloc ps) | Tail \<Rightarrow> alloc_tail (sum_list sizes) (ps_alloc ps)) = Some (w, a)"
    "run_count w = sum_list sizes" "taken (ps_alloc ps) w a"
    by (rule alloc_placement [OF assms(1) total])
  have wend: "run_end w \<le> 2 ^ 40" using taken_end [OF w(3)] w(2) room by simp
  define rs where "rs = tile_from (run_start w) sizes"
  note tile = tiles_in_range [OF w(2) [symmetric] wend sz, folded rs_def]
  have runs: "carve w sizes = map Some rs" by (simp add: carve_def carve_tiles [OF pos] rs_def)
  have len: "length rs = length targets" "length sizes = length targets" by (simp_all add: rs_def tile_facts sizes_def)
  define ts where "ts = zip targets (map Some rs)"
  have fst_ts: "map fst ts = targets" using len by (simp add: ts_def)
  have pt: "page_targets_ok plans ts"
    unfolding page_targets_ok_def
  proof (intro allI impI)
    fix n b assume "TPage n b \<in> fst ` set ts"
    then have "TPage n b \<in> set targets" by (metis fst_ts set_map)
    then have "TPage n b \<in> set (targets_of plans)" by (simp add: targets_def)
    then show "n < length plans \<and> b < dir_len (pl_dir (plans ! n))" by (rule page_target [OF assms(2)]) simp
  qed
  define plans1 where "plans1 = map (\<lambda>n. installed ts n (plans ! n)) [0..<length plans]"
  obtain freed where inst: "install ts (plans, []) = Some (plans1, freed)" "plans_m plans1 + mset freed = plans_m plans + pages_m plans ts"
    using install_ok [OF pt, of "[]"] tg fst_ts by (auto simp: plans1_def)
  have shape: "length plans1 = length plans" "\<forall>n<length plans. same_shape (plans1 ! n) (plans ! n)"
    by (simp_all add: plans1_def installed_shape)
  define dicts where "dicts = dict_descriptors plans1 targets (map Some rs)"
  define chunk where "chunk = edit_encode E (round_chunk ps plans1 dicts)"
  have eb: "map edit_bytes (ec_slots (round_chunk ps plans1 dicts)) = map edit_bytes (ec_slots (round_chunk ps plans []))"
    unfolding round_chunk_def using chunk_of_bytes [OF shape(1)] shape by simp
  have vc1: "valid_chunk (round_chunk ps plans1 dicts)" using vc valid_chunk_bytes [OF eb] by simp
  have clen: "length chunk = length reserved" unfolding chunk_def reserved_def by (rule edit_encode_length [OF eb vc])
  have imgs: "\<forall>i<length targets. length (image_at plans1 chunk (targets ! i)) \<le> sizes ! i * BLOCK_SIZE"
  proof (intro allI impI)
    fix i assume i: "i < length targets"
    then have "targets ! i \<in> set (targets_of plans @ [TEdit])" unfolding targets_def by (rule nth_mem)
    from image_at_shape(1) [OF shape assms(2) this, of chunk reserved] clen i
    have "blocks_of (image_at plans1 chunk (targets ! i)) = sizes ! i" by (simp add: sizes_def size_of_def)
    then show "length (image_at plans1 chunk (targets ! i)) \<le> sizes ! i * BLOCK_SIZE" using blocks_of_facts(2) by metis
  qed
  define bytes where "bytes = concat (map2 (\<lambda>n t. padded n (image_at plans1 chunk t)) sizes targets)"
  have asm: "assemble w plans1 targets (map Some rs) chunk = Some bytes"
    using assemble_tiles [OF len(2) imgs, of "[]" "run_start w" w] w(2) by (simp add: assemble_def byte_len_def rs_def bytes_def)
  have "length bytes = byte_len w" unfolding bytes_def window_length(2) [OF len(2) imgs] by (simp add: byte_len_def w(2))
  then obtain f1 where f1: "write_run w bytes (ps_file ps) = Ok f1" by (simp add: write_run_def)
  have at: "\<exists>r. map_of ts t = Some (Some r) \<and> r \<in> set rs \<and> (\<exists>pad. read_run f1 r = Ok (image_at plans1 chunk t @ pad))"
    if t: "t \<in> set targets" for t
  proof -
    obtain i where i: "i < length targets" "targets ! i = t" using t by (auto simp: in_set_conv_nth)
    have "map_of ts t = Some (Some (rs ! i))" using i len tg by (auto simp: ts_def map_of_zip_nth intro!: map_of_is_SomeI simp: set_zip)
    then show ?thesis
      using window_reads_back [OF f1 bytes_def len(2) w(2) [symmetric] imgs i(1)] i len by (auto simp: rs_def padded_def)
  qed
  define cd where "cd = from_run_used (last rs) (length chunk)"
  obtain stale meta1 where meta: "meta_record cd ?full (ps_meta ps) = (stale, meta1)" by fastforce
  have idx: "map pl_idx plans1 = map pl_idx plans" using shape by (intro nth_equalityI) (auto simp: same_shape_def)
  have di: "distinct (map (\<lambda>(n, work). pl_idx work) (enumerate 0 plans1))"
    using assms(2) idx by (simp add: plans_ok_def case_prod_unfold flip: map_map [of pl_idx snd, unfolded comp_def])
  define types1 where "types1 = slots_after plans1 dicts (ps_types ps)"
  define a3 where "a3 = fold free (old_dicts dicts (enumerate 0 plans1) (ps_types ps)) (fold free stale (fold free freed a))"
  have pub: "publish plans1 dicts (ps_types ps, fold free stale (fold free freed a)) = (types1, a3)"
    using repoint_dicts_eq [OF di] by (simp add: publish_def publish_dirs_eq types1_def slots_after_def a3_def)
  have rs: "rs \<noteq> []" using len(1) by (auto simp: targets_def)
  define ps' where "ps' = ps\<lparr>ps_file := f1, ps_alloc := a3, ps_meta := meta1, ps_types := types1\<rparr>"
  have place: "place_in E plans placement ps = (ps', Ok ())"
    unfolding ps'_def
    by (rule place_in_eq [OF assms(4) targets_def w(1) [folded sizes_eq] runs [folded sizes_eq] rs inst(1) [unfolded ts_def]
          dicts_def chunk_def clen [unfolded reserved_def] asm f1 meta [unfolded cd_def] pub])
  have edit: "last rs \<in> set rs" using rs by simp
  have cd: "is_allocated cd" "desc_run cd = last rs" using desc_run_used tile [OF edit] by (simp_all add: cd_def)
  have own: "alloc_owns a (live_m ps + {#w#})" and apart: "\<And>q. q \<in># live_m ps \<Longrightarrow> runs_apart q w"
    using owns_taken [OF _ w(3)] assms(1) by (auto simp: space_ok_def)
  have bal: "mset rs = pages_m plans ts + dicts_m dicts (length plans) + {#last rs#}"
    unfolding ts_def dicts_def shape(1) [symmetric]
    by (rule carve_balance [OF targets_def tg len(1)]) (use tile TDict_target shape(1) in \<open>auto simp: targets_def\<close>)
  have space: "space_ok ps'"
    unfolding ps'_def types1_def a3_def
    by (rule round_space [OF assms(1, 2) owns_carve [OF own pos w(2) [symmetric], folded rs_def] bal inst(2) shape meta cd])
  have keep: "read_run f1 r = Ok b" if "r \<in># live_m ps" "read_run (ps_file ps) r = Ok b" for r b
    using write_run_read_other [OF f1 that(2)] apart [OF that(1)] by (simp add: runs_apart_def)
  have spare: "spares ps ps'"
    unfolding ps'_def a3_def by (rule round_spares [OF assms(1) w(3) f1])
  have pages: "case map_of (pl_pages (plans ! n)) b of
         None \<Rightarrow> dir_slots (pl_dir (plans1 ! n)) ! b = dir_slots (pl_dir (plans ! n)) ! b
       | Some img \<Rightarrow> stored_at f1 img (dir_slots (pl_dir (plans1 ! n)) ! b)"
    if n: "n < length plans" "b < dir_len (pl_dir (plans ! n))" for n b
  proof -
    have slot: "dir_slots (pl_dir (plans1 ! n)) ! b = (case map_of ts (TPage n b) of
        None \<Rightarrow> dir_slots (pl_dir (plans ! n)) ! b | Some r \<Rightarrow> new_desc (plans ! n) b r)"
      using n by (simp add: plans1_def installed_def split: option.splits)
    show ?thesis
    proof (cases "map_of (pl_pages (plans ! n)) b")
      case None
      then have "TPage n b \<notin> set targets" using TPage_target [of n b plans] by (simp add: targets_def map_of_eq_None_iff)
      then have "map_of ts (TPage n b) = None" by (simp add: map_of_eq_None_iff fst_ts flip: set_map)
      then show ?thesis using None slot by simp
    next
      case (Some img)
      then have "TPage n b \<in> set targets"
        using TPage_target [of n b plans] n(1) by (auto simp: targets_def image_iff dest!: map_of_SomeD intro!: bexI)
      then obtain r pad where r: "map_of ts (TPage n b) = Some (Some r)" "r \<in> set rs" "read_run f1 r = Ok (image_at plans1 chunk (TPage n b) @ pad)"
        using at by blast
      have "image_at plans1 chunk (TPage n b) = img" using Some shape n(1) by (simp add: image_at_def same_shape_def)
      then show ?thesis
        using Some slot r desc_run_used tile [OF r(2)] by (auto simp: stored_at_def new_desc_def)
    qed
  qed
  have dict: "case pl_dict (plans ! n) of None \<Rightarrow> map_of dicts n = None | Some img \<Rightarrow> \<exists>d. map_of dicts n = Some d \<and> stored_at f1 img d"
    if n: "n < length plans" for n
  proof -
    have mo: "map_of dicts n = map_option (\<lambda>r. from_run_used r (length (dict_image (plans1 ! n))))
        (case map_of ts (TDict n) of None \<Rightarrow> None | Some r \<Rightarrow> r)"
      using n shape(1) by (simp add: dicts_def map_of_dicts dict_run_map ts_def)
    show ?thesis
    proof (cases "pl_dict (plans ! n)")
      case None
      then have "TDict n \<notin> set targets" using TDict_target [of n plans] by (simp add: targets_def)
      then have "map_of ts (TDict n) = None" by (simp add: map_of_eq_None_iff fst_ts flip: set_map)
      then show ?thesis using None mo by simp
    next
      case (Some img)
      then have "TDict n \<in> set targets" using TDict_target [of n plans] n by (simp add: targets_def)
      then obtain r pad where r: "map_of ts (TDict n) = Some (Some r)" "r \<in> set rs" "read_run f1 r = Ok (image_at plans1 chunk (TDict n) @ pad)"
        using at by blast
      have "image_at plans1 chunk (TDict n) = img" using Some shape n by (simp add: image_at_def same_shape_def)
      then show ?thesis using Some mo r desc_run_used tile [OF r(2)] by (auto simp: stored_at_def)
    qed
  qed
  have ch: "stored_at f1 chunk cd"
  proof -
    have "map_of ts TEdit = Some (Some (last rs))"
      using len(1) tg rs by (auto simp: ts_def targets_def in_set_zip last_conv_nth intro!: map_of_is_SomeI exI [of _ "length (targets_of plans)"])
    then show ?thesis using at [of TEdit] cd by (auto simp: stored_at_def targets_def image_at_def)
  qed
  have "placed_round E ps plans ps' plans1 dicts cd"
  proof -
    have f: "ps_file ps' = f1" by (simp add: ps'_def)
    show ?thesis
      unfolding placed_round_def f chunk_def [symmetric]
      using keep pages dict ch vc1 shape space spare meta
      by (intro conjI allI impI) (simp_all add: ps'_def types1_def)
  qed
  then show ?thesis using place that by blast
qed

section \<open>Reading off a placed round\<close>

lemma placed_roundD:
  assumes "placed_round E ps plans ps' plans1 dicts cd"
  shows "ps' = ps\<lparr>ps_file := ps_file ps', ps_alloc := ps_alloc ps', ps_meta := ps_meta ps', ps_types := ps_types ps'\<rparr>"
    "length plans1 = length plans" "n < length plans \<Longrightarrow> same_shape (plans1 ! n) (plans ! n)"
    "ps_types ps' = slots_after plans1 dicts (ps_types ps)" "space_ok ps'"
    "r \<in># live_m ps \<Longrightarrow> read_run (ps_file ps) r = Ok b \<Longrightarrow> read_run (ps_file ps') r = Ok b"
    "n < length plans \<Longrightarrow> i < dir_len (pl_dir (plans ! n)) \<Longrightarrow> map_of (pl_pages (plans ! n)) i = None \<Longrightarrow>
       dir_slots (pl_dir (plans1 ! n)) ! i = dir_slots (pl_dir (plans ! n)) ! i"
    "n < length plans \<Longrightarrow> i < dir_len (pl_dir (plans ! n)) \<Longrightarrow> map_of (pl_pages (plans ! n)) i = Some img \<Longrightarrow>
       stored_at (ps_file ps') img (dir_slots (pl_dir (plans1 ! n)) ! i)"
    "n < length plans \<Longrightarrow> pl_dict (plans ! n) = None \<Longrightarrow> map_of dicts n = None"
    "n < length plans \<Longrightarrow> pl_dict (plans ! n) = Some img \<Longrightarrow> \<exists>d. map_of dicts n = Some d \<and> stored_at (ps_file ps') img d"
    "stored_at (ps_file ps') (edit_encode E (round_chunk ps plans1 dicts)) cd" "valid_chunk (round_chunk ps plans1 dicts)"
    "ps_meta ps' = snd (meta_record cd (wants_snapshot (ps_meta ps)) (ps_meta ps))" "spares ps ps'"
proof -
  note r = assms [unfolded placed_round_def]
  show "ps' = ps\<lparr>ps_file := ps_file ps', ps_alloc := ps_alloc ps', ps_meta := ps_meta ps', ps_types := ps_types ps'\<rparr>"
    "length plans1 = length plans" "ps_types ps' = slots_after plans1 dicts (ps_types ps)" "space_ok ps'"
    "stored_at (ps_file ps') (edit_encode E (round_chunk ps plans1 dicts)) cd" "valid_chunk (round_chunk ps plans1 dicts)"
    "ps_meta ps' = snd (meta_record cd (wants_snapshot (ps_meta ps)) (ps_meta ps))" "spares ps ps'"
    using r by - (elim conjE, assumption)+
  have shape: "\<forall>n<length plans. same_shape (plans1 ! n) (plans ! n)"
    and keep: "\<forall>r b. r \<in># live_m ps \<longrightarrow> read_run (ps_file ps) r = Ok b \<longrightarrow> read_run (ps_file ps') r = Ok b"
    and pages: "\<forall>n<length plans. \<forall>b<dir_len (pl_dir (plans ! n)). case map_of (pl_pages (plans ! n)) b of
         None \<Rightarrow> dir_slots (pl_dir (plans1 ! n)) ! b = dir_slots (pl_dir (plans ! n)) ! b
       | Some img \<Rightarrow> stored_at (ps_file ps') img (dir_slots (pl_dir (plans1 ! n)) ! b)"
    and dict: "\<forall>n<length plans. case pl_dict (plans ! n) of
         None \<Rightarrow> map_of dicts n = None
       | Some img \<Rightarrow> \<exists>d. map_of dicts n = Some d \<and> stored_at (ps_file ps') img d"
    using r by - (elim conjE, assumption)+
  show "n < length plans \<Longrightarrow> same_shape (plans1 ! n) (plans ! n)" using shape by simp
  show "r \<in># live_m ps \<Longrightarrow> read_run (ps_file ps) r = Ok b \<Longrightarrow> read_run (ps_file ps') r = Ok b" using keep by blast
  show "dir_slots (pl_dir (plans1 ! n)) ! i = dir_slots (pl_dir (plans ! n)) ! i"
    if "n < length plans" "i < dir_len (pl_dir (plans ! n))" "map_of (pl_pages (plans ! n)) i = None"
    using pages [rule_format, OF that(1, 2)] that(3) by simp
  show "stored_at (ps_file ps') img (dir_slots (pl_dir (plans1 ! n)) ! i)"
    if "n < length plans" "i < dir_len (pl_dir (plans ! n))" "map_of (pl_pages (plans ! n)) i = Some img"
    using pages [rule_format, OF that(1, 2)] that(3) by simp
  show "map_of dicts n = None" if "n < length plans" "pl_dict (plans ! n) = None"
    using dict [rule_format, OF that(1)] that(2) by simp
  show "\<exists>d. map_of dicts n = Some d \<and> stored_at (ps_file ps') img d" if "n < length plans" "pl_dict (plans ! n) = Some img"
    using dict [rule_format, OF that(1)] that(2) by simp
qed

lemma slots_after_nth:
  assumes "distinct (map pl_idx plans1)" "k < length types"
  shows "n < length plans1 \<Longrightarrow> pl_idx (plans1 ! n) = k \<Longrightarrow>
      slots_after plans1 dicts types ! k = published (plans1 ! n) (repointed dicts n (types ! k))"
    "k \<notin> pl_idx ` set plans1 \<Longrightarrow> slots_after plans1 dicts types ! k = types ! k"
    "length (slots_after plans1 dicts types) = length types"
proof -
  let ?up1 = "map (\<lambda>(n, work). (pl_idx work, repointed dicts n)) (enumerate 0 plans1)"
  let ?up2 = "map (\<lambda>work. (pl_idx work, published work)) plans1"
  have d: "distinct (map fst ?up1)" "distinct (map fst ?up2)"
    using assms(1) by (simp_all add: comp_def case_prod_unfold flip: map_map [of pl_idx snd, unfolded comp_def])
  have eq: "slots_after plans1 dicts types ! k = (case map_of ?up2 k of None \<Rightarrow> upd_all ?up1 types ! k | Some g \<Rightarrow> g (upd_all ?up1 types ! k))"
    using upd_all_nth [OF d(2), of k "upd_all ?up1 types"] assms(2) by (simp add: slots_after_def)
  note eq1 = upd_all_nth [OF d(1) assms(2)]
  show "length (slots_after plans1 dicts types) = length types" by (simp add: slots_after_def)
  show "slots_after plans1 dicts types ! k = types ! k" if "k \<notin> pl_idx ` set plans1"
  proof -
    have "map_of ?up2 k = None" "map_of ?up1 k = None"
      using that by (auto simp: map_of_eq_None_iff in_set_enumerate_eq)
    then show ?thesis by (simp add: eq eq1)
  qed
  show "slots_after plans1 dicts types ! k = published (plans1 ! n) (repointed dicts n (types ! k))"
    if n: "n < length plans1" "pl_idx (plans1 ! n) = k"
  proof -
    have "map_of ?up2 k = Some (published (plans1 ! n))"
      by (rule map_of_is_SomeI [OF d(2)]) (use n in force)
    moreover have "map_of ?up1 k = Some (repointed dicts n)"
      by (rule map_of_is_SomeI [OF d(1)]) (use n in \<open>force simp: in_set_enumerate_eq\<close>)
    ultimately show ?thesis by (simp add: eq eq1)
  qed
qed

end
