(* ===== verification/Checkpoint.thy ===== *)
theory Checkpoint
  imports Page_Store Bp_Tree
begin

text \<open>
  Checkpoints and opening (\<open>wavedb-storage/src/commit.rs\<close>, \<open>retire.rs\<close>, \<open>defrag.rs\<close>, and the opening half
  of \<open>page_store.rs\<close>): rotating the journal, settling what it covers, appending the commit frame,
  retiring the previous generation, relocating isolated pages, and rebuilding the store from the
  journals and the addressing log.

  The wall clock (\<open>now\<close>), the order \<open>read_dir\<close> yields names in, the random seed of a new file and whether
  another store of the process is open are arguments.  Opening returns no store on an error; what a
  failed opening leaves on disk is not modelled.
\<close>

section \<open>Retirement\<close>

definition dispose :: "journal \<times> nat \<Rightarrow> page_store \<Rightarrow> page_store \<times> unit sres" where
  "dispose retiring ps =
     (let ps1 = ps\<lparr>ps_alloc := release_previous (ps_alloc ps)\<rparr>
      in case delete_file (j_path (fst retiring)) (ps_fs ps1) of
          None \<Rightarrow> (ps1, None)
        | Err e \<Rightarrow> (ps1, Err e)
        | Ok d \<Rightarrow> (ps1\<lparr>ps_fs := d\<rparr>, Ok ()))"

definition is_retiring :: "page_store \<Rightarrow> bool" where
  "is_retiring ps \<longleftrightarrow> ps_retiring ps \<noteq> None"

text \<open>The journal rotated out is handed back: a sync counts on it.\<close>

definition retire_previous :: "(journal \<times> nat) option \<Rightarrow> journal \<Rightarrow> page_store \<Rightarrow> page_store \<times> journal \<times> unit sres" where
  "retire_previous prior carrier ps = (case prior of
      None \<Rightarrow> (ps, carrier, Ok ())
    | Some retiring \<Rightarrow>
        if j_syncs carrier \<le> snd retiring
        then (case journal_sync (carrier, ps_fs ps) of
            None \<Rightarrow> (ps, carrier, None)
          | Err e \<Rightarrow> (ps, carrier, Err e)
          | Ok (carrier1, d) \<Rightarrow> (case dispose retiring (ps\<lparr>ps_fs := d\<rparr>) of (ps1, r) \<Rightarrow> (ps1, carrier1, r)))
        else (case dispose retiring ps of (ps1, r) \<Rightarrow> (ps1, carrier, r)))"

definition force_retirement :: "page_store \<Rightarrow> page_store \<times> unit sres" where
  "force_retirement ps =
     (if \<not> is_retiring ps then (ps, Ok ())
      else case journal_sync (ps_journal ps, ps_fs ps) of
          None \<Rightarrow> (ps, None)
        | Err e \<Rightarrow> (ps, Err e)
        | Ok (j, d) \<Rightarrow>
            let ps1 = ps\<lparr>ps_journal := j, ps_fs := d, ps_retiring := None\<rparr>
            in (case ps_retiring ps of None \<Rightarrow> (ps1, Ok ()) | Some retiring \<Rightarrow> dispose retiring ps1))"

section \<open>Checkpoint\<close>

definition slot_runs :: "struct_storage \<Rightarrow> run list" where
  "slot_runs s =
     (case ss_dir s of None \<Rightarrow> [] | Some dir \<Rightarrow> map desc_run (filter is_allocated (dir_slots dir)))
     @ (if is_allocated (ds_desc (ss_dict s)) then [desc_run (ds_desc (ss_dict s))] else [])"

definition used_runs :: "page_store \<Rightarrow> run list" where
  "used_runs ps = Run 0 RESERVED_BLOCKS # concat (map slot_runs (ps_types ps)) @ meta_runs (ps_meta ps)"

text \<open>Steps 4 and 5, on a drained store: protect what the frame will reach, sync the pages, append the
  frame and hold the retirement.\<close>

definition seal :: "libs \<Rightarrow> journal \<Rightarrow> page_store \<Rightarrow> page_store \<times> unit sres" where
  "seal E old ps =
     (let ps1 = ps\<lparr>ps_alloc := set_protected (used_runs ps) (ps_alloc ps), ps_file := bf_sync (ps_file ps)\<rparr>
      in case append_deferred (crc32 E) (Commit (CommitFrame (j_ts old) (meta_head (ps_meta ps1)))) (ps_journal ps1, ps_fs ps1) of
          None \<Rightarrow> (ps1, None)
        | Err e \<Rightarrow> (ps1, Err e)
        | Ok (j, d) \<Rightarrow> (ps1\<lparr>ps_journal := j, ps_fs := d, ps_retiring := Some (old, j_syncs j)\<rparr>, Ok ()))"

text \<open>\<open>None\<close> only if the drain does not return.\<close>

definition commit_journal :: "libs \<Rightarrow> u64 \<Rightarrow> page_store \<Rightarrow> (page_store \<times> unit sres) option" where
  "commit_journal E now ps =
     (let prior = ps_retiring ps; ps0 = ps\<lparr>ps_retiring := None\<rparr>
      in case journal_create (next_ts now (j_ts (ps_journal ps0))) (ps_fs ps0) of
          None \<Rightarrow> Some (ps0, None)
        | Err e \<Rightarrow> Some (ps0, Err e)
        | Ok (fresh, d) \<Rightarrow>
            (case retire_previous prior (ps_journal ps0) (ps0\<lparr>ps_journal := fresh, ps_fs := d\<rparr>) of
               (ps1, old, Ok _) \<Rightarrow>
                 Option.bind (drain E ps1) (\<lambda>(ps2, r). case r of
                     None \<Rightarrow> Some (ps2, None)
                   | Err e \<Rightarrow> Some (ps2, Err e)
                   | Ok _ \<Rightarrow> Some (seal E old ps2))
             | (ps1, _, Err e) \<Rightarrow> Some (ps1, Err e)
             | (ps1, _, None) \<Rightarrow> Some (ps1, None)))"

section \<open>Defragmentation\<close>

record defrag_report =
  moved_pages :: nat
  moved_blocks :: nat
  largest_before :: nat
  largest_after :: nat

record candidate =
  cd_slot :: nat
  cd_bucket :: nat
  cd_run :: run
  cd_coalesced :: nat

text \<open>The products stay below \<open>2 ^ 64\<close>: block numbers are below \<open>2 ^ 40\<close> and run lengths below \<open>2 ^ 20\<close>.\<close>

definition slot_candidates :: "allocator \<Rightarrow> nat \<Rightarrow> directory \<Rightarrow> candidate list" where
  "slot_candidates a idx dir = List.map_filter (\<lambda>(bucket, desc).
     if \<not> is_allocated desc then None
     else let r = desc_run desc; (before, after) = free_neighbours a r; coalesced = before + run_count r + after
          in if coalesced < run_count r * 2 then None
             else if run_end r + after = total_blocks a then None
             else Some \<lparr>cd_slot = idx, cd_bucket = bucket, cd_run = r, cd_coalesced = coalesced\<rparr>) (enumerate 0 (dir_slots dir))"

definition candidates :: "page_store \<Rightarrow> candidate list" where
  "candidates ps = concat (map (\<lambda>(idx, s). case ss_dir s of None \<Rightarrow> [] | Some dir \<Rightarrow> slot_candidates (ps_alloc ps) idx dir)
     (enumerate 0 (ps_types ps)))"

definition page_bytes :: "block_file \<Rightarrow> run \<Rightarrow> byte list option sres" where
  "page_bytes f r = try_then (read_run f r) (\<lambda>b.
     if length b < 4 then Ok None
     else let len = 4 + frame_len b 0 in if length b < len then Ok None else Ok (Some (take len b)))"

text \<open>\<open>sort_by\<close> with the comparison of the source is a stable sort by the ratio of merged to copied
  blocks, largest first; runs of candidates are not empty.\<close>

definition better :: "candidate \<Rightarrow> candidate \<Rightarrow> bool" where
  "better c d \<longleftrightarrow> cd_coalesced d * run_count (cd_run c) < cd_coalesced c * run_count (cd_run d)"

fun insert_by_value :: "candidate \<Rightarrow> candidate list \<Rightarrow> candidate list" where
  "insert_by_value c [] = [c]"
| "insert_by_value c (d # ds) = (if better c d then c # d # ds else d # insert_by_value c ds)"

definition sort_by_value :: "candidate list \<Rightarrow> candidate list" where
  "sort_by_value cs = fold insert_by_value cs []"

text \<open>The plans by slot, the blocks and the pages moved.\<close>

fun take_candidates :: "page_store \<Rightarrow> nat \<Rightarrow> candidate list \<Rightarrow> (nat \<times> slot_plan) list \<times> nat \<times> nat \<Rightarrow> ((nat \<times> slot_plan) list \<times> nat \<times> nat) sres" where
  "take_candidates ps budget [] st = Ok st"
| "take_candidates ps budget (c # cs) (plans, copied, pages) =
     (if budget < copied + run_count (cd_run c) then Ok (plans, copied, pages)
      else try_then (page_bytes (ps_file ps) (cd_run c)) (\<lambda>r. case r of
          None \<Rightarrow> take_candidates ps budget cs (plans, copied, pages)
        | Some bytes \<Rightarrow>
            (case (case map_of plans (cd_slot c) of
                     Some plan \<Rightarrow> Some plan
                   | None \<Rightarrow> map_option (verbatim (cd_slot c)) (ss_dir (ps_types ps ! cd_slot c))) of
               None \<Rightarrow> take_candidates ps budget cs (plans, copied, pages)
             | Some plan \<Rightarrow>
                 take_candidates ps budget cs
                   (bt_insert (cd_slot c) (plan\<lparr>pl_pages := bt_insert (cd_bucket c) bytes (pl_pages plan)\<rparr>) plans,
                    copied + run_count (cd_run c), pages + 1))))"

definition defragment :: "libs \<Rightarrow> nat \<Rightarrow> page_store \<Rightarrow> page_store \<times> defrag_report sres" where
  "defragment E budget ps =
     (let before = largest_free_extent (ps_alloc ps)
      in case take_candidates ps budget (sort_by_value (candidates ps)) ([], 0, 0) of
          None \<Rightarrow> (ps, None)
        | Err e \<Rightarrow> (ps, Err e)
        | Ok (plans, copied, pages) \<Rightarrow>
            (case (if plans \<noteq> [] then relocate E (map snd plans) ps else (ps, Ok ())) of
               (ps1, Ok _) \<Rightarrow> (ps1, Ok \<lparr>moved_pages = pages, moved_blocks = copied, largest_before = before,
                                       largest_after = largest_free_extent (ps_alloc ps1)\<rparr>)
             | (ps1, Err e) \<Rightarrow> (ps1, Err e)
             | (ps1, None) \<Rightarrow> (ps1, None)))"

section \<open>Recovery\<close>

record recovered =
  rc_alloc :: allocator
  rc_journal :: journal
  rc_replay :: "write_op list list"
  rc_meta :: meta_log
  rc_file :: block_file
  rc_fs :: fs
  rc_types :: "struct_storage list"

definition fresh_alloc :: "block_file \<Rightarrow> allocator \<times> block_file" where
  "fresh_alloc f = ((case alloc RESERVED_BLOCKS alloc_new of Some (_, a) \<Rightarrow> a | None \<Rightarrow> alloc_new), truncate_to_blocks RESERVED_BLOCKS f)"

definition commit_slot_of :: "struct_storage list \<Rightarrow> u64 \<Rightarrow> nat sres" where
  "commit_slot_of types h = (case slot_pos h types of None \<Rightarrow> Err (UnregisteredStructHash h) | Some n \<Rightarrow> Ok n)"

fun replay_chain :: "libs \<Rightarrow> block_file \<Rightarrow> block_descriptor list \<Rightarrow> replay_state \<Rightarrow> replay_state sres" where
  "replay_chain E f [] rp = Ok rp"
| "replay_chain E f (d # ds) rp = try_then (read_chunk E f (desc_run d)) (\<lambda>chunk.
     try_then (replay_apply chunk rp) (replay_chain E f ds))"

fun load_dirs :: "seed \<Rightarrow> (u64 \<times> u64 list) list \<Rightarrow> struct_storage list \<times> run list \<Rightarrow> (struct_storage list \<times> run list) sres" where
  "load_dirs seed [] st = Ok st"
| "load_dirs seed ((h, addresses) # slots) (types, used) =
     try_then (commit_slot_of types h) (\<lambda>n.
       if addresses = [] then load_dirs seed slots (types, used)
       else let descs = map BlockDescriptor addresses
            in load_dirs seed slots (types[n := (types ! n)\<lparr>ss_dir := from_slots descs seed\<rparr>],
                 used @ map desc_run (filter is_allocated descs)))"

fun load_dicts :: "libs \<Rightarrow> block_file \<Rightarrow> (u64 \<times> u64) list \<Rightarrow> struct_storage list \<times> run list \<Rightarrow> (struct_storage list \<times> run list) sres" where
  "load_dicts E f [] st = Ok st"
| "load_dicts E f ((h, r) # dicts) (types, used) =
     try_then (commit_slot_of types h) (\<lambda>n.
       let desc = BlockDescriptor r
       in if \<not> is_allocated desc then load_dicts E f dicts (types, used)
          else try_then (read_run f (desc_run desc)) (\<lambda>bytes.
               try_then (dict_from_bytes E bytes) (\<lambda>dict.
                 load_dicts E f dicts (types[n := (types ! n)\<lparr>ss_dict := ds_load dict desc (ss_dict (types ! n))\<rparr>],
                   used @ [desc_run desc]))))"

definition load_commit ::
    "libs \<Rightarrow> block_file \<Rightarrow> commit_frame \<Rightarrow> struct_storage list \<Rightarrow> (allocator \<times> meta_log \<times> struct_storage list) sres" where
  "load_commit E f c types =
     try_then (walk E f (BlockDescriptor (commit_head c))) (\<lambda>chain.
     try_then (replay_chain E f chain replay_empty) (\<lambda>rp.
     try_then (load_dirs (bf_seed f) (rp_slots rp) (types, Run 0 RESERVED_BLOCKS # map desc_run chain)) (\<lambda>st.
     try_then (load_dicts E f (rp_dicts rp) st) (\<lambda>(types1, used).
       Ok (set_protected used (from_layout (len_blocks f) used), meta_restored chain, types1)))))"

fun open_journals :: "libs \<Rightarrow> (u64 \<times> string) list \<Rightarrow> fs \<Rightarrow> ((u64 \<times> journal \<times> journal_frame list) list \<times> fs) sres" where
  "open_journals E [] d = Ok ([], d)"
| "open_journals E ((ts, path) # found) d =
     try_then (journal_open path ts d) (\<lambda>j0.
     try_then (replay (crc32 E) (j0, d)) (\<lambda>(frames, j, d1).
     try_then (open_journals E found d1) (\<lambda>(js, d2). Ok ((ts, j, frames) # js, d2))))"

definition newest_commit :: "journal_frame list \<Rightarrow> commit_frame option" where
  "newest_commit frames = fold (\<lambda>f c. case f of Commit c' \<Rightarrow> Some c' | Batch _ \<Rightarrow> c) frames None"

definition batches_of :: "journal_frame list \<Rightarrow> write_op list list" where
  "batches_of frames = List.map_filter (\<lambda>f. case f of Batch b \<Rightarrow> Some b | Commit _ \<Rightarrow> None) frames"

text \<open>The journals a commit covers are deleted; the batches of the others are replayed, and the last of
  them is the journal to append to.\<close>

fun collect_replay ::
    "commit_frame option \<Rightarrow> (u64 \<times> journal \<times> journal_frame list) list \<Rightarrow> journal option \<Rightarrow> fs \<Rightarrow>
     (write_op list list \<times> journal option \<times> fs) sres" where
  "collect_replay c [] cur d = Ok ([], cur, d)"
| "collect_replay c ((ts, j, frames) # js) cur d =
     (if c \<noteq> None \<and> ts \<le> journal_ts (the c)
      then try_then (delete_file (j_path j) d) (collect_replay c js cur)
      else try_then (collect_replay c js (Some j) d) (\<lambda>(bs, cur', d'). Ok (batches_of frames @ bs, cur', d')))"

definition restore :: "libs \<Rightarrow> u64 \<Rightarrow> string list \<Rightarrow> bool \<Rightarrow> block_file \<Rightarrow> fs \<Rightarrow> struct_storage list \<Rightarrow> recovered sres" where
  "restore E now entries existed f d types =
     (let found = scan entries
      in try_then (require_journal_for existed found) (\<lambda>_.
         if found = [] then
           try_then (journal_create (next_ts now 0) d) (\<lambda>(j, d1).
             let (a, f1) = fresh_alloc f
             in Ok \<lparr>rc_alloc = a, rc_journal = j, rc_replay = [], rc_meta = meta_default, rc_file = f1, rc_fs = d1, rc_types = types\<rparr>)
         else
           try_then (open_journals E found d) (\<lambda>(js, d1).
             let commit = newest_commit (concat (map (\<lambda>(_, _, fr). fr) js))
             in try_then (case commit of
                    Some c \<Rightarrow> try_then (load_commit E f c types) (\<lambda>(a, m, ts). Ok (a, m, ts, f))
                  | None \<Rightarrow> (let (a, f1) = fresh_alloc f in Ok (a, meta_default, types, f1))) (\<lambda>(a, m, types1, f1).
                try_then (collect_replay commit js None d1) (\<lambda>(batches, cur, d2).
                try_then (case cur of
                      Some j \<Rightarrow> Ok (j, d2)
                    | None \<Rightarrow> journal_create (next_ts now (case commit of Some c \<Rightarrow> journal_ts c | None \<Rightarrow> 0)) d2) (\<lambda>(j, d3).
                  Ok \<lparr>rc_alloc = a, rc_journal = j, rc_replay = batches, rc_meta = m, rc_file = f1, rc_fs = d3, rc_types = types1\<rparr>))))))"

section \<open>Opening\<close>

abbreviation DEFAULT_TARGET_BLOCKS_PER_BUCKET :: nat where "DEFAULT_TARGET_BLOCKS_PER_BUCKET \<equiv> 8"

definition BPTREE_NODE_STORAGE :: struct_storage where
  "BPTREE_NODE_STORAGE = without_compression BPTREE_NODE_STRUCT_HASH"

fun dedup_slots :: "struct_storage list \<Rightarrow> struct_storage list" where
  "dedup_slots (s # t # ss) = (if ss_hash t = ss_hash s then dedup_slots (s # ss) else s # dedup_slots (t # ss))"
| "dedup_slots ss = ss"

definition registry :: "struct_storage list \<Rightarrow> struct_storage list" where
  "registry types = map ss_reset (dedup_slots (sort_key ss_hash (types @ [BPTREE_NODE_STORAGE])))"

fun replay_batches :: "libs \<Rightarrow> write_op list list \<Rightarrow> page_store \<Rightarrow> page_store sres" where
  "replay_batches E [] ps = Ok ps"
| "replay_batches E (b # bs) ps =
     try_then (route_batch ps b) (\<lambda>_. case commit_to_caches b (ps_types ps, []) of
         None \<Rightarrow> None
       | Some (types, touched) \<Rightarrow>
           (case settle E touched (ps\<lparr>ps_types := types\<rparr>) of
              (ps1, Ok _) \<Rightarrow> replay_batches E bs ps1
            | (ps1, Err e) \<Rightarrow> Err e
            | (ps1, None) \<Rightarrow> None))"

definition open_with ::
    "libs \<Rightarrow> u64 \<Rightarrow> seed \<Rightarrow> bool \<Rightarrow> string list \<Rightarrow> byte list option \<Rightarrow> fs \<Rightarrow> struct_storage list \<Rightarrow> bool \<Rightarrow> page_store sres" where
  "open_with E now random_seed busy entries data d types relaxed =
     (if busy then Err EngineBusy
      else try_then (bf_open E random_seed (case data of None \<Rightarrow> [] | Some bs \<Rightarrow> bs)) (\<lambda>f.
           try_then (restore E now entries (data \<noteq> None) f d (registry types)) (\<lambda>rc.
             replay_batches E (rc_replay rc)
               \<lparr>ps_file = rc_file rc, ps_fs = rc_fs rc, ps_journal = rc_journal rc, ps_alloc = rc_alloc rc, ps_meta = rc_meta rc,
                ps_retiring = None, ps_types = rc_types rc, ps_seed = bf_seed f, ps_target = DEFAULT_TARGET_BLOCKS_PER_BUCKET,
                ps_pending = [], ps_relaxed = relaxed\<rparr>)))"

definition cache_len :: "page_store \<Rightarrow> nat" where
  "cache_len ps = sum_list (map cached_len (ps_types ps))"

definition bucket_count :: "page_store \<Rightarrow> u64 \<Rightarrow> nat" where
  "bucket_count ps h = (case slot_of ps h of None \<Rightarrow> 0 | Some s \<Rightarrow> (case ss_dir s of None \<Rightarrow> 0 | Some dir \<Rightarrow> dir_len dir))"

end
