(* ===== verification/Log_Laws.thy ===== *)
theory Log_Laws
  imports Round_Laws Checkpoint
begin

text \<open>
  The addressing log names the store's state: the chain of chunks a store's log names is found again from its
  head, and replaying it gives every slot's bucket descriptors and dictionary run.  Each round keeps this,
  by a delta over the chain or by a snapshot that starts a new one.
\<close>

lemma try_then_Ok_right: "try_then r Ok = r"
  by (simp add: try_then_def split: option.split sum.split)

lemma try_then_assoc: "try_then (try_then r f) g = try_then r (\<lambda>x. try_then (f x) g)"
  by (simp add: try_then_def split: option.split sum.split)

section \<open>Chains\<close>

definition chain_of :: "meta_log \<Rightarrow> block_descriptor list" where
  "chain_of m = (if is_allocated (ml_snapshot m) then [ml_snapshot m] else []) @ ml_edits m"

definition meta_ok :: "meta_log \<Rightarrow> bool" where
  "meta_ok m \<longleftrightarrow> list_all is_allocated (ml_edits m) \<and> (is_allocated (ml_snapshot m) \<or> ml_snapshot m = desc_EMPTY)
     \<and> length (ml_edits m) \<le> MAX_EDIT_CHUNKS"

lemma meta_default_ok: "meta_ok meta_default" "chain_of meta_default = []"
  by (simp_all add: meta_ok_def meta_default_def chain_of_def)

lemma chain_head: "meta_ok m \<Longrightarrow> BlockDescriptor (meta_head m) = last (desc_EMPTY # chain_of m)"
  by (auto simp: meta_ok_def meta_head_def chain_of_def)

lemma chain_runs: "meta_ok m \<Longrightarrow> mset (map desc_run (chain_of m)) = mset (meta_runs m)"
  by (auto simp: meta_ok_def chain_of_def meta_runs_def list_all_iff filter_id_conv simp flip: mset_map)

lemma chain_restored: "list_all is_allocated chain \<Longrightarrow> length chain \<le> MAX_EDIT_CHUNKS + 1 \<Longrightarrow>
    meta_ok (meta_restored chain) \<and> chain_of (meta_restored chain) = chain"
  by (cases chain) (simp_all add: meta_restored_def meta_ok_def chain_of_def Let_def)

lemma links_allocated: "links E f p chain \<Longrightarrow> list_all is_allocated chain"
  by (induction chain arbitrary: p) auto

lemma chain_recorded:
  assumes "meta_ok m" "is_allocated cd"
  shows "meta_ok (snd (meta_record cd (wants_snapshot m) m))"
    "chain_of (snd (meta_record cd (wants_snapshot m) m)) = (if wants_snapshot m then [cd] else chain_of m @ [cd])"
  using assms by (auto simp: meta_ok_def meta_record_def chain_of_def wants_snapshot_def)

lemma read_chunk_kept: "(\<And>b. read_run f r = Ok b \<Longrightarrow> read_run f' r = Ok b) \<Longrightarrow> read_chunk E f r = Ok c \<Longrightarrow> read_chunk E f' r = Ok c"
  by (auto simp: read_chunk_def try_then_Ok_iff)

lemma links_kept:
  assumes "\<And>r b. r \<in> desc_run ` set chain \<Longrightarrow> read_run f r = Ok b \<Longrightarrow> read_run f' r = Ok b" "links E f p chain"
  shows "links E f' p chain"
  using assms
proof (induction chain arbitrary: p)
  case (Cons c chain)
  then show ?case using read_chunk_kept [of f "desc_run c" f' E] by fastforce
qed simp

lemma replay_chain_kept:
  assumes "\<And>r b. r \<in> desc_run ` set chain \<Longrightarrow> read_run f r = Ok b \<Longrightarrow> read_run f' r = Ok b" "replay_chain E f chain rp = Ok rp'"
  shows "replay_chain E f' chain rp = Ok rp'"
  using assms
proof (induction chain arbitrary: rp)
  case (Cons c chain)
  then obtain chunk rp1 where c: "read_chunk E f (desc_run c) = Ok chunk" "replay_apply chunk rp = Ok rp1" "replay_chain E f chain rp1 = Ok rp'"
    by (auto simp: try_then_Ok_iff)
  have "read_chunk E f' (desc_run c) = Ok chunk" using read_chunk_kept [OF _ c(1)] Cons.prems(1) by simp
  moreover have "replay_chain E f' chain rp1 = Ok rp'" using Cons.IH [OF _ c(3)] Cons.prems(1) by simp
  ultimately show ?case using c(2) by simp
qed simp

lemma replay_chain_snoc:
  "replay_chain E f (chain @ [d]) rp = try_then (replay_chain E f chain rp) (\<lambda>rp1.
     try_then (read_chunk E f (desc_run d)) (\<lambda>chunk. replay_apply chunk rp1))"
proof (induction chain arbitrary: rp)
  case Nil
  have "replay_chain E f [] = Ok" by (simp add: fun_eq_iff)
  then show ?case by (simp add: try_then_Ok_right)
next
  case (Cons c chain)
  then have "replay_chain E f (chain @ [d]) = (\<lambda>rp. try_then (replay_chain E f chain rp) (\<lambda>rp1.
     try_then (read_chunk E f (desc_run d)) (\<lambda>chunk. replay_apply chunk rp1)))" by blast
  then show ?case by (simp add: try_then_assoc)
qed

section \<open>Applying edits\<close>

definition resized :: "slot_edit \<Rightarrow> u64 list \<Rightarrow> u64 list" where
  "resized e old = old @ replicate (unat (se_buckets e) - length old) 0"

definition new_addr :: "slot_edit \<Rightarrow> u64 list \<Rightarrow> u64 list" where
  "new_addr e old = fold (\<lambda>(b, r) a. a[unat b := r]) (se_changed e) (resized e old)"

definition edit_ok :: "slot_edit \<Rightarrow> bool" where
  "edit_ok e \<longleftrightarrow> (\<forall>(b, r)\<in>set (se_changed e). unat b < unat (se_buckets e)) \<and> distinct (map fst (se_changed e))"

lemma length_updates: "length (fold (\<lambda>(b, r) a. a[unat b := r]) changed a) = length a"
  by (induction changed arbitrary: a) auto

lemma length_new_addr: "length (new_addr e old) = max (length old) (unat (se_buckets e))"
  by (simp add: new_addr_def length_updates resized_def)

lemma apply_changed_ok:
  "\<forall>(b, r)\<in>set changed. unat b < length a \<Longrightarrow> apply_changed changed a = Ok (fold (\<lambda>(b, r) a. a[unat b := r]) changed a)"
  by (induction changed a rule: apply_changed.induct) auto

lemma updates_nth:
  assumes "distinct (map fst changed)" "i < length a"
  shows "fold (\<lambda>(b, r) a. a[unat b := r]) changed a ! i
    = (case map_of (map (\<lambda>(b, r). (unat b, r)) changed) i of None \<Rightarrow> a ! i | Some r \<Rightarrow> r)"
  using assms
proof (induction changed arbitrary: a)
  case (Cons c changed)
  obtain b r where c: "c = (b, r)" by fastforce
  have "map_of (map (\<lambda>(b, r). (unat b, r)) changed) (unat b) = None"
    using Cons.prems(1) by (auto simp: c map_of_eq_None_iff image_iff) (metis fst_conv word_unat_eq_iff)
  then show ?case using Cons.IH [of "a[unat b := r]"] Cons.prems by (auto simp: c split: option.split)
qed simp

lemma apply_edit_ok:
  assumes "edit_ok e"
  shows "apply_edit e rp = Ok (rp\<lparr>rp_slots := bt_insert (se_hash e)
       (new_addr e (case map_of (rp_slots rp) (se_hash e) of Some a \<Rightarrow> a | None \<Rightarrow> [])) (rp_slots rp),
     rp_dicts := (case se_dict e of None \<Rightarrow> rp_dicts rp | Some d \<Rightarrow> bt_insert (se_hash e) d (rp_dicts rp))\<rparr>)"
proof -
  let ?old = "case map_of (rp_slots rp) (se_hash e) of Some a \<Rightarrow> a | None \<Rightarrow> []"
  have r: "(if length ?old < unat (se_buckets e) then ?old @ replicate (unat (se_buckets e) - length ?old) 0 else ?old) = resized e ?old"
    by (simp add: resized_def)
  have "\<forall>(b, r)\<in>set (se_changed e). unat b < length (resized e ?old)" using assms by (fastforce simp: edit_ok_def resized_def)
  from apply_changed_ok [OF this] show ?thesis unfolding apply_edit_def Let_def r by (simp add: new_addr_def)
qed

definition edit_of :: "slot_edit list \<Rightarrow> u64 \<rightharpoonup> slot_edit" where
  "edit_of es = map_of (map (\<lambda>e. (se_hash e, e)) es)"

lemma apply_edits_ok:
  assumes "list_all edit_ok es" "distinct (map se_hash es)" "bt_ok (rp_slots rp)" "bt_ok (rp_dicts rp)"
  shows "\<exists>rp'. apply_edits es rp = Ok rp' \<and> bt_ok (rp_slots rp') \<and> bt_ok (rp_dicts rp')
    \<and> (\<forall>h. map_of (rp_slots rp') h = (case edit_of es h of None \<Rightarrow> map_of (rp_slots rp) h
         | Some e \<Rightarrow> Some (new_addr e (case map_of (rp_slots rp) h of Some a \<Rightarrow> a | None \<Rightarrow> []))))
    \<and> (\<forall>h. map_of (rp_dicts rp') h = (case Option.bind (edit_of es h) se_dict of None \<Rightarrow> map_of (rp_dicts rp) h | Some d \<Rightarrow> Some d))"
  using assms
proof (induction es arbitrary: rp)
  case (Cons e es)
  define rp1 where "rp1 = rp\<lparr>rp_slots := bt_insert (se_hash e)
       (new_addr e (case map_of (rp_slots rp) (se_hash e) of Some a \<Rightarrow> a | None \<Rightarrow> [])) (rp_slots rp),
     rp_dicts := (case se_dict e of None \<Rightarrow> rp_dicts rp | Some d \<Rightarrow> bt_insert (se_hash e) d (rp_dicts rp))\<rparr>"
  have "apply_edit e rp = Ok rp1" using apply_edit_ok [of e rp] Cons.prems(1) by (simp add: rp1_def)
  moreover have ok: "bt_ok (rp_slots rp1)" "bt_ok (rp_dicts rp1)"
    using Cons.prems(3, 4) by (simp_all add: rp1_def split: option.splits)
  moreover have none: "edit_of es (se_hash e) = None" using Cons.prems(2) by (auto simp: edit_of_def map_of_eq_None_iff)
  moreover have "list_all edit_ok es" "distinct (map se_hash es)" using Cons.prems by simp_all
  ultimately obtain rp' where r: "apply_edits (e # es) rp = Ok rp'" "bt_ok (rp_slots rp')" "bt_ok (rp_dicts rp')"
    "\<forall>h. map_of (rp_slots rp') h = (case edit_of es h of None \<Rightarrow> map_of (rp_slots rp1) h
         | Some e \<Rightarrow> Some (new_addr e (case map_of (rp_slots rp1) h of Some a \<Rightarrow> a | None \<Rightarrow> [])))"
    "\<forall>h. map_of (rp_dicts rp') h = (case Option.bind (edit_of es h) se_dict of None \<Rightarrow> map_of (rp_dicts rp1) h | Some d \<Rightarrow> Some d)"
    using Cons.IH [of rp1] by auto
  have step: "edit_of (e # es) h = (if h = se_hash e then Some e else edit_of es h)" for h by (simp add: edit_of_def)
  have s1: "map_of (rp_slots rp1) h = (if h = se_hash e then Some (new_addr e (case map_of (rp_slots rp) (se_hash e) of Some a \<Rightarrow> a | None \<Rightarrow> []))
      else map_of (rp_slots rp) h)"
    "map_of (rp_dicts rp1) h = (if h = se_hash e \<and> se_dict e \<noteq> None then se_dict e else map_of (rp_dicts rp) h)" for h
    using Cons.prems(3, 4) by (auto simp: rp1_def split: option.splits)
  show ?case
  proof (intro exI [of _ rp'] conjI allI r(1-3))
    fix h
    show "map_of (rp_slots rp') h = (case edit_of (e # es) h of None \<Rightarrow> map_of (rp_slots rp) h
         | Some e \<Rightarrow> Some (new_addr e (case map_of (rp_slots rp) h of Some a \<Rightarrow> a | None \<Rightarrow> [])))"
      unfolding r(4) [rule_format, of h] using none Cons.prems(3) s1 by (cases "h = se_hash e"; cases "edit_of es h") (simp_all add: step)
    show "map_of (rp_dicts rp') h = (case Option.bind (edit_of (e # es) h) se_dict of None \<Rightarrow> map_of (rp_dicts rp) h | Some d \<Rightarrow> Some d)"
      unfolding r(5) [rule_format, of h] using none s1(2) by (cases "h = se_hash e"; cases "edit_of es h") (auto simp: step split: option.split)
  qed
qed (simp add: edit_of_def)

section \<open>The edits of a round\<close>

lemma edit_of_keyed:
  assumes "distinct (map fst L)" "\<forall>(k, e)\<in>set L. se_hash e = g k" "inj_on g K" "fst ` set L \<subseteq> K"
  shows "distinct (map se_hash (map snd L))" "k \<in> K \<Longrightarrow> edit_of (map snd L) (g k) = map_of L k"
proof -
  have g: "map se_hash (map snd L) = map g (map fst L)" using assms(2) by auto
  show "distinct (map se_hash (map snd L))"
    unfolding g by (subst distinct_map) (use assms(1, 3, 4) in \<open>auto intro: inj_on_subset\<close>)
  show "edit_of (map snd L) (g k) = map_of L k" if "k \<in> K"
    using assms(2-4)
  proof (induction L)
    case (Cons x L)
    obtain j e where x: "x = (j, e)" by fastforce
    have "g k = g j \<longleftrightarrow> k = j" using Cons.prems that by (auto simp: x inj_on_def)
    then show ?case using Cons by (auto simp: x edit_of_def)
  qed (simp add: edit_of_def)
qed

definition resident_edits :: "slot_plan list \<Rightarrow> (nat \<times> struct_storage) list \<Rightarrow> (nat \<times> slot_edit) list" where
  "resident_edits plans xs = List.map_filter (\<lambda>(k, s). if \<exists>w\<in>set plans. pl_idx w = k then None else map_option (Pair k) (resident_edit s)) xs"

lemma resident_edits_simps [simp]:
  "resident_edits plans [] = []"
  "resident_edits plans ((k, s) # xs) = (if k \<in> pl_idx ` set plans then resident_edits plans xs
     else case resident_edit s of None \<Rightarrow> resident_edits plans xs | Some e \<Rightarrow> (k, e) # resident_edits plans xs)"
  by (auto simp: resident_edits_def map_filter_simps image_iff split: option.splits)

lemma resident_edits_facts:
  "map snd (resident_edits plans xs) = List.map_filter (\<lambda>(k, s). if \<exists>w\<in>set plans. pl_idx w = k then None else resident_edit s) xs"
  "(k, e) \<in> set (resident_edits plans xs) \<longleftrightarrow> k \<notin> pl_idx ` set plans \<and> (\<exists>s. (k, s) \<in> set xs \<and> resident_edit s = Some e)"
  "distinct (map fst xs) \<Longrightarrow> distinct (map fst (resident_edits plans xs))"
proof -
  show "map snd (resident_edits plans xs) = List.map_filter (\<lambda>(k, s). if \<exists>w\<in>set plans. pl_idx w = k then None else resident_edit s) xs"
    by (induction xs) (auto simp: map_filter_simps image_iff split: option.splits if_splits)
  show mem: "(k, e) \<in> set (resident_edits plans xs) \<longleftrightarrow> k \<notin> pl_idx ` set plans \<and> (\<exists>s. (k, s) \<in> set xs \<and> resident_edit s = Some e)"
    for k e xs by (induction xs) (auto split: option.splits if_splits)
  show "distinct (map fst xs) \<Longrightarrow> distinct (map fst (resident_edits plans xs))"
  proof (induction xs)
    case (Cons x xs)
    obtain k s where x: "x = (k, s)" by fastforce
    have "k \<notin> fst ` set (resident_edits plans xs)" using Cons.prems mem [of k _ xs] by (auto simp: x image_iff) (metis fst_conv)
    with Cons show ?case by (simp add: x split: option.split)
  qed simp
qed

definition edits_of :: "page_store \<Rightarrow> slot_plan list \<Rightarrow> bool \<Rightarrow> dict_runs \<Rightarrow> (nat \<times> slot_edit) list" where
  "edits_of ps plans full dicts = map (\<lambda>(n, work). (pl_idx work, planned_edit ps full dicts n work)) (enumerate 0 plans)
     @ (if full then resident_edits plans (enumerate 0 (ps_types ps)) else [])"

lemma resident_edit_hash: "resident_edit s = Some e \<Longrightarrow> se_hash e = ss_hash s"
  by (auto simp: resident_edit_def split: option.splits)

lemma edits_of_chunk: "ec_slots (chunk_of ps plans full dicts prev) = map snd (edits_of ps plans full dicts)"
  by (simp add: chunk_of_def edits_of_def resident_edits_facts(1) case_prod_unfold comp_def)

lemma edits_of_facts:
  assumes "distinct (map pl_idx plans)" "\<forall>w\<in>set plans. pl_idx w < length (ps_types ps)"
  shows "distinct (map fst (edits_of ps plans full dicts))" "fst ` set (edits_of ps plans full dicts) \<subseteq> {..<length (ps_types ps)}"
    "\<forall>(k, e)\<in>set (edits_of ps plans full dicts). se_hash e = ss_hash (ps_types ps ! k)"
    "n < length plans \<Longrightarrow> map_of (edits_of ps plans full dicts) (pl_idx (plans ! n)) = Some (planned_edit ps full dicts n (plans ! n))"
    "k < length (ps_types ps) \<Longrightarrow> k \<notin> pl_idx ` set plans \<Longrightarrow>
      map_of (edits_of ps plans full dicts) k = (if full then resident_edit (ps_types ps ! k) else None)"
proof -
  have p: "map fst (map (\<lambda>(n, work). (pl_idx work, planned_edit ps full dicts n work)) (enumerate 0 plans)) = map pl_idx plans"
    by (simp add: comp_def case_prod_unfold flip: map_map [of pl_idx snd, unfolded comp_def])
  have d: "distinct (map fst (resident_edits plans (enumerate 0 (ps_types ps))))" by (rule resident_edits_facts(3)) simp
  have r: "(k, e) \<in> set (resident_edits plans (enumerate 0 (ps_types ps)))
      \<longleftrightarrow> k \<notin> pl_idx ` set plans \<and> k < length (ps_types ps) \<and> resident_edit (ps_types ps ! k) = Some e" for k e
    by (auto simp: resident_edits_facts(2) in_set_enumerate_eq)
  show dist: "distinct (map fst (edits_of ps plans full dicts))"
    using assms(1) d r by (auto simp: edits_of_def p simp del: map_map)
  show "fst ` set (edits_of ps plans full dicts) \<subseteq> {..<length (ps_types ps)}"
    using assms(2) r by (auto simp: edits_of_def in_set_enumerate_eq)
  show "\<forall>(k, e)\<in>set (edits_of ps plans full dicts). se_hash e = ss_hash (ps_types ps ! k)"
    using r by (auto simp: edits_of_def planned_edit_def Let_def resident_edit_hash)
  show "map_of (edits_of ps plans full dicts) (pl_idx (plans ! n)) = Some (planned_edit ps full dicts n (plans ! n))" if "n < length plans"
    using dist that by (intro map_of_is_SomeI) (auto simp: edits_of_def in_set_enumerate_eq image_iff intro!: bexI [of _ "(n, plans ! n)"])
  show "map_of (edits_of ps plans full dicts) k = (if full then resident_edit (ps_types ps ! k) else None)"
    if k: "k < length (ps_types ps)" "k \<notin> pl_idx ` set plans"
  proof (cases "full \<and> resident_edit (ps_types ps ! k) \<noteq> None")
    case True
    then obtain e where e: "resident_edit (ps_types ps ! k) = Some e" by auto
    then have "(k, e) \<in> set (edits_of ps plans full dicts)" using True k r by (simp add: edits_of_def)
    with dist e True show ?thesis by (simp add: map_of_is_SomeI)
  next
    case False
    then have "k \<notin> fst ` set (edits_of ps plans full dicts)" using k r by (auto simp: edits_of_def in_set_enumerate_eq)
    with False show ?thesis by (auto simp: map_of_eq_None_iff)
  qed
qed

section \<open>The log names the store\<close>

definition slot_addr :: "struct_storage \<Rightarrow> u64 list option" where
  "slot_addr s = map_option (\<lambda>dir. map desc_raw (dir_slots dir)) (ss_dir s)"

definition replays :: "replay_state \<Rightarrow> struct_storage list \<Rightarrow> bool" where
  "replays rp types \<longleftrightarrow> bt_ok (rp_slots rp) \<and> bt_ok (rp_dicts rp)
     \<and> dom (map_of (rp_slots rp)) \<union> dom (map_of (rp_dicts rp)) \<subseteq> ss_hash ` set types
     \<and> (\<forall>s\<in>set types. map_of (rp_slots rp) (ss_hash s) = slot_addr s
          \<and> (case map_of (rp_dicts rp) (ss_hash s) of None \<Rightarrow> 0 | Some r \<Rightarrow> r) = desc_raw (ds_desc (ss_dict s)))"

definition addr_ok :: "libs \<Rightarrow> block_file \<Rightarrow> meta_log \<Rightarrow> struct_storage list \<Rightarrow> bool" where
  "addr_ok E f m types \<longleftrightarrow> meta_ok m \<and> links E f desc_EMPTY (chain_of m)
     \<and> (\<exists>rp. replay_chain E f (chain_of m) replay_empty = Ok rp \<and> replays rp types)
     \<and> (\<forall>s\<in>set types. ss_dir s = None \<longrightarrow> ds_desc (ss_dict s) = desc_EMPTY)"

text \<open>The directory of a plan extends the slot's: old buckets first, then unallocated ones.\<close>

definition plan_extends :: "page_store \<Rightarrow> slot_plan \<Rightarrow> bool" where
  "plan_extends ps work \<longleftrightarrow> dir_len (pl_dir work) < 2 ^ 32
     \<and> (\<exists>m. map desc_raw (dir_slots (pl_dir work)) = (case slot_addr (ps_types ps ! pl_idx work) of None \<Rightarrow> [] | Some a \<Rightarrow> a) @ replicate m 0)"

lemma unat_bucket: "n < 2 ^ 32 \<Longrightarrow> b \<le> n \<Longrightarrow> unat (of_nat b :: u32) = b"
  by (simp add: unat_of_nat take_bit_nat_eq_self)

lemma every_bucket_edit:
  assumes "length slots < 2 ^ 32" "se_changed e = every_bucket slots" "se_buckets e = of_nat (length slots)" "length old \<le> length slots"
  shows "edit_ok e" "new_addr e old = map desc_raw slots"
proof -
  have fst: "map fst (every_bucket slots) = map of_nat [0..<length slots]"
    by (simp add: every_bucket_def case_prod_unfold comp_def flip: map_map [of of_nat fst, unfolded comp_def])
  have inj: "inj_on (of_nat :: nat \<Rightarrow> u32) {0..<length slots}"
    by (rule inj_onI) (metis assms(1) atLeastLessThan_iff less_imp_le unat_bucket)
  have bk: "unat (se_buckets e) = length slots" using assms(1, 3) unat_bucket by simp
  show ok: "edit_ok e"
    unfolding edit_ok_def assms(2) fst using inj bk unat_bucket [OF assms(1)]
    by (auto simp: distinct_map every_bucket_def in_set_enumerate_eq)
  have m: "map (\<lambda>(b, r). (unat b, r)) (every_bucket slots) = map (\<lambda>(b, d). (b, desc_raw d)) (enumerate 0 slots)"
    using unat_bucket [OF assms(1)] by (auto simp: every_bucket_def in_set_enumerate_eq)
  have look: "map_of (map (\<lambda>(b, d). (b, desc_raw d)) (enumerate 0 slots)) i = Some (desc_raw (slots ! i))" if "i < length slots" for i
  proof (rule map_of_is_SomeI)
    have "(i, slots ! i) \<in> set (enumerate 0 slots)" using that by (simp add: in_set_enumerate_eq)
    from imageI [OF this, of "\<lambda>(b, d). (b, desc_raw d)"]
    show "(i, desc_raw (slots ! i)) \<in> set (map (\<lambda>(b, d). (b, desc_raw d)) (enumerate 0 slots))" by simp
  qed (simp add: comp_def case_prod_unfold)
  show "new_addr e old = map desc_raw slots"
  proof (rule nth_equalityI)
    fix i assume "i < length (new_addr e old)"
    then have i: "i < length slots" "i < length (resized e old)" using assms(4) bk by (simp_all add: length_new_addr resized_def)
    have "new_addr e old ! i = (case map_of (map (\<lambda>(b, r). (unat b, r)) (se_changed e)) i of None \<Rightarrow> resized e old ! i | Some r \<Rightarrow> r)"
      unfolding new_addr_def by (rule updates_nth) (use ok i in \<open>simp_all add: edit_ok_def\<close>)
    then show "new_addr e old ! i = map desc_raw slots ! i" using look [OF i(1)] i unfolding assms(2) m by simp
  qed (use assms(4) bk in \<open>simp add: length_new_addr\<close>)
qed

lemma delta_edit:
  assumes "dir_len dir < 2 ^ 32" "distinct (map fst pages)" "\<forall>(b, img)\<in>set pages. b < dir_len dir" "dir_len dir1 = dir_len dir"
    "\<forall>b<dir_len dir. map_of pages b = None \<longrightarrow> dir_slots dir1 ! b = dir_slots dir ! b"
    "map desc_raw (dir_slots dir) = old @ replicate m 0"
    "se_changed e = map (\<lambda>(b, _). (of_nat b, desc_raw (dir_slots dir1 ! b))) pages" "se_buckets e = of_nat (dir_len dir)"
  shows "edit_ok e" "new_addr e old = map desc_raw (dir_slots dir1)"
proof -
  have b: "unat (of_nat b :: u32) = b" if "b < dir_len dir" for b using unat_bucket [OF assms(1)] that by simp
  have bk: "unat (se_buckets e) = dir_len dir" using assms(1, 8) unat_bucket by simp
  have "map fst (se_changed e) = map of_nat (map fst pages)" by (simp add: assms(7) comp_def case_prod_unfold)
  moreover have "inj_on (of_nat :: nat \<Rightarrow> u32) (fst ` set pages)"
    using assms(3) b by (intro inj_onI) (metis (mono_tags, lifting) case_prodD imageE prod.collapse)
  ultimately have "distinct (map fst (se_changed e))" using assms(2) by (simp only: distinct_map [of of_nat "map fst pages"] set_map)
  then show ok: "edit_ok e" unfolding edit_ok_def using assms(3) bk b by (auto simp: assms(7))
  have rs: "resized e old = map desc_raw (dir_slots dir)"
  proof -
    have "length old + m = dir_len dir" using arg_cong [OF assms(6), of length] by (simp add: dir_len_def)
    then show ?thesis unfolding assms(6) resized_def bk by simp
  qed
  have m: "map (\<lambda>(b, r). (unat b, r)) (se_changed e) = map (\<lambda>(b, _). (b, desc_raw (dir_slots dir1 ! b))) pages"
    unfolding assms(7) using assms(3) b by auto
  have look: "map_of (map (\<lambda>(b, _). (b, desc_raw (dir_slots dir1 ! b))) pages) i
      = (if map_of pages i = None then None else Some (desc_raw (dir_slots dir1 ! i)))" for i
    by (induction pages) auto
  show "new_addr e old = map desc_raw (dir_slots dir1)"
  proof (rule nth_equalityI)
    fix i assume "i < length (new_addr e old)"
    then have i: "i < dir_len dir" using bk arg_cong [OF assms(6), of length] by (simp add: length_new_addr dir_len_def)
    have "new_addr e old ! i = (case map_of (map (\<lambda>(b, r). (unat b, r)) (se_changed e)) i of None \<Rightarrow> resized e old ! i | Some r \<Rightarrow> r)"
      unfolding new_addr_def by (rule updates_nth) (use ok i rs in \<open>simp_all add: edit_ok_def dir_len_def\<close>)
    then show "new_addr e old ! i = map desc_raw (dir_slots dir1) ! i"
      using i assms(4, 5) unfolding m look rs by (auto simp: dir_len_def)
  qed (use bk assms(4) arg_cong [OF assms(6), of length] in \<open>simp add: length_new_addr dir_len_def\<close>)
qed

text \<open>What the replay holds before the round's chunk: nothing under a snapshot, the old state under a delta.\<close>

definition base_addr :: "bool \<Rightarrow> struct_storage \<Rightarrow> u64 list" where
  "base_addr full s = (if full then [] else case slot_addr s of None \<Rightarrow> [] | Some a \<Rightarrow> a)"

lemma planned_edit_ok:
  assumes "placed_round E ps plans ps' plans1 dicts cd" "plans_ok ps plans" "n < length plans" "plan_extends ps (plans ! n)"
  shows "edit_ok (planned_edit ps full dicts n (plans1 ! n))"
    "new_addr (planned_edit ps full dicts n (plans1 ! n)) (base_addr full (ps_types ps ! pl_idx (plans ! n)))
       = map desc_raw (dir_slots (pl_dir (plans1 ! n)))"
proof -
  let ?w = "plans ! n" and ?w1 = "plans1 ! n" and ?e = "planned_edit ps full dicts n (plans1 ! n)"
  have sh: "same_shape ?w1 ?w" by (rule placed_roundD(3) [OF assms(1, 3)])
  then have len: "dir_len (pl_dir ?w1) = dir_len (pl_dir ?w)" "pl_pages ?w1 = pl_pages ?w" by (simp_all add: same_shape_def)
  obtain m where x: "dir_len (pl_dir ?w) < 2 ^ 32"
    "map desc_raw (dir_slots (pl_dir ?w)) = (case slot_addr (ps_types ps ! pl_idx ?w) of None \<Rightarrow> [] | Some a \<Rightarrow> a) @ replicate m 0"
    using assms(4) by (auto simp: plan_extends_def)
  have bk: "se_buckets ?e = of_nat (dir_len (pl_dir ?w))" using len by (simp add: planned_edit_def Let_def)
  show "edit_ok ?e" "new_addr ?e (base_addr full (ps_types ps ! pl_idx ?w)) = map desc_raw (dir_slots (pl_dir ?w1))"
  proof (atomize (full), cases full)
    case True
    have "se_changed ?e = every_bucket (dir_slots (pl_dir ?w1))" using True by (simp add: planned_edit_def Let_def)
    from every_bucket_edit [OF _ this, of "[]"] show "edit_ok ?e \<and> new_addr ?e (base_addr full (ps_types ps ! pl_idx ?w)) = map desc_raw (dir_slots (pl_dir ?w1))"
      using True x(1) bk len by (simp add: base_addr_def dir_len_def)
  next
    case False
    have c: "se_changed ?e = map (\<lambda>(b, _). (of_nat b, desc_raw (dir_slots (pl_dir ?w1) ! b))) (pl_pages ?w)"
      using False len by (simp add: planned_edit_def Let_def)
    have p: "distinct (map fst (pl_pages ?w))" "\<forall>(b, img)\<in>set (pl_pages ?w). b < dir_len (pl_dir ?w)"
      using plans_okD(2, 3) [OF assms(2, 3)] by auto
    have k: "\<forall>b<dir_len (pl_dir ?w). map_of (pl_pages ?w) b = None \<longrightarrow> dir_slots (pl_dir ?w1) ! b = dir_slots (pl_dir ?w) ! b"
      using placed_roundD(7) [OF assms(1, 3)] by blast
    from delta_edit [OF x(1) p len(1) k x(2) c bk]
    show "edit_ok ?e \<and> new_addr ?e (base_addr full (ps_types ps ! pl_idx ?w)) = map desc_raw (dir_slots (pl_dir ?w1))"
      using False by (simp add: base_addr_def)
  qed
qed

lemma resident_edit_ok:
  assumes "resident_edit s = Some e" "\<forall>dir. ss_dir s = Some dir \<longrightarrow> dir_len dir < 2 ^ 32"
  shows "edit_ok e" "slot_addr s = Some (new_addr e [])" "se_dict e = Some (desc_raw (ds_desc (ss_dict s)))"
proof -
  obtain dir where d: "ss_dir s = Some dir" "e = \<lparr>se_hash = ss_hash s, se_buckets = of_nat (dir_len dir),
        se_changed = every_bucket (dir_slots dir), se_dict = Some (desc_raw (ds_desc (ss_dict s)))\<rparr>"
    using assms(1) by (auto simp: resident_edit_def split: option.splits)
  then show "edit_ok e" "slot_addr s = Some (new_addr e [])" "se_dict e = Some (desc_raw (ds_desc (ss_dict s)))"
    using every_bucket_edit [of "dir_slots dir" e "[]"] assms(2) by (simp_all add: slot_addr_def dir_len_def)
qed

text \<open>The edit a round writes for the \<open>k\<close>th slot, if any, takes the replayed state to the slot's new one.\<close>

lemma round_edit:
  assumes "placed_round E ps plans ps' plans1 dicts cd" "plans_ok ps plans" "\<forall>w\<in>set plans. plan_extends ps w" "k < length (ps_types ps)"
    "\<forall>dir. ss_dir (ps_types ps ! k) = Some dir \<longrightarrow> dir_len dir < 2 ^ 32" "ss_dir (ps_types ps ! k) = None \<longrightarrow> ds_desc (ss_dict (ps_types ps ! k)) = desc_EMPTY"
  shows "case map_of (edits_of ps plans1 full dicts) k of
      None \<Rightarrow> slot_addr (ps_types ps' ! k) = (if full then None else slot_addr (ps_types ps ! k))
        \<and> desc_raw (ds_desc (ss_dict (ps_types ps' ! k))) = (if full then 0 else desc_raw (ds_desc (ss_dict (ps_types ps ! k))))
    | Some e \<Rightarrow> edit_ok e \<and> slot_addr (ps_types ps' ! k) = Some (new_addr e (base_addr full (ps_types ps ! k)))
        \<and> desc_raw (ds_desc (ss_dict (ps_types ps' ! k))) = (case se_dict e of Some d \<Rightarrow> d | None \<Rightarrow> if full then 0 else desc_raw (ds_desc (ss_dict (ps_types ps ! k))))"
proof -
  note r = placed_roundD [OF assms(1)]
  have idx: "map pl_idx plans1 = map pl_idx plans" using r(2, 3) by (intro nth_equalityI) (auto simp: same_shape_def)
  have d1: "distinct (map pl_idx plans1)" using assms(2) idx by (simp add: plans_ok_def)
  have s1: "\<forall>w\<in>set plans1. pl_idx w < length (ps_types ps)"
  proof
    fix w assume "w \<in> set plans1"
    then have "pl_idx w \<in> set (map pl_idx plans)" unfolding idx [symmetric] by simp
    then show "pl_idx w < length (ps_types ps)" using assms(2) by (auto simp: plans_ok_def)
  qed
  note ef = edits_of_facts [OF d1 s1, where full = full and dicts = dicts]
  note sa = slots_after_nth [OF d1 assms(4), where dicts = dicts]
  show ?thesis
  proof (cases "k \<in> pl_idx ` set plans1")
    case True
    then obtain n where n: "n < length plans1" "pl_idx (plans1 ! n) = k" by (auto simp: in_set_conv_nth image_iff)
    have np: "n < length plans" "pl_idx (plans ! n) = k"
      using n r(2) r(3) [of n] by (simp_all add: same_shape_def)
    let ?e = "planned_edit ps full dicts n (plans1 ! n)"
    have e: "map_of (edits_of ps plans1 full dicts) k = Some ?e" using ef(4) [OF n(1)] n(2) by simp
    have s': "ps_types ps' ! k = published (plans1 ! n) (repointed dicts n (ps_types ps ! k))" using sa(1) [OF n] r(4) by simp
    have dirs: "ss_dir (ps_types ps' ! k) = Some (pl_dir (plans1 ! n))" by (simp add: s' published_def)
    have fold: "ss_dict (fold clear_removed xs s) = ss_dict s" for xs s by (induction xs arbitrary: s) (simp_all add: clear_removed_def)
    have dict: "ds_desc (ss_dict (ps_types ps' ! k)) = (case map_of dicts n of None \<Rightarrow> ds_desc (ss_dict (ps_types ps ! k)) | Some d \<Rightarrow> d)"
      by (simp add: s' published_def repointed_def fold split: option.split)
    have pd: "pl_dict (plans1 ! n) = pl_dict (plans ! n)" using r(3) [OF np(1)] by (simp add: same_shape_def)
    have "se_dict ?e = (case map_of dicts n of Some d \<Rightarrow> Some (desc_raw d)
        | None \<Rightarrow> if full then Some (desc_raw (ds_desc (ss_dict (ps_types ps ! k)))) else None)"
    proof (cases "pl_dict (plans ! n)")
      case None
      then show ?thesis using r(9) [OF np(1)] pd n(2) by (simp add: planned_edit_def Let_def)
    next
      case (Some img)
      then show ?thesis using r(10) [OF np(1)] pd by (auto simp: planned_edit_def Let_def)
    qed
    moreover have "plan_extends ps (plans ! n)" using assms(3) np(1) by simp
    ultimately show ?thesis
      using planned_edit_ok [OF assms(1, 2) np(1), of full] dict np(2) dirs by (simp add: e slot_addr_def split: option.split)
  next
    case False
    have s': "ps_types ps' ! k = ps_types ps ! k" using sa(2) [OF False] r(4) by simp
    have e: "map_of (edits_of ps plans1 full dicts) k = (if full then resident_edit (ps_types ps ! k) else None)"
      by (rule ef(5) [OF assms(4) False])
    show ?thesis
    proof (cases full)
      case True
      show ?thesis
      proof (cases "resident_edit (ps_types ps ! k)")
        case None
        then have "ss_dir (ps_types ps ! k) = None" by (simp add: resident_edit_def split: option.splits)
        with None True assms(6) show ?thesis unfolding e s' by (simp add: slot_addr_def desc_EMPTY_def)
      next
        case (Some ed)
        with True resident_edit_ok [OF Some assms(5)] show ?thesis unfolding e s' by (simp add: base_addr_def)
      qed
    next
      case False
      then show ?thesis unfolding e s' by simp
    qed
  qed
qed

lemma upd_all_hash:
  assumes "\<forall>(i, g)\<in>set us. \<forall>s. ss_hash (g s) = ss_hash s"
  shows "map ss_hash (upd_all us types) = map ss_hash types"
  using assms
proof (induction us arbitrary: types)
  case (Cons u us)
  obtain i g where u: "u = (i, g)" by fastforce
  have "map ss_hash (types[i := g (types ! i)]) = map ss_hash types"
    using Cons.prems by (intro nth_equalityI) (auto simp: u, metis nth_list_update_eq nth_list_update_neq)
  then show ?case using Cons by (simp add: u)
qed simp

lemma slots_after_hash: "map ss_hash (slots_after plans1 dicts types) = map ss_hash types"
proof -
  have "ss_hash (fold clear_removed xs s) = ss_hash s" for xs s by (induction xs arbitrary: s) (simp_all add: clear_removed_def)
  then show ?thesis unfolding slots_after_def
    by (subst upd_all_hash, force simp: published_def)+ (rule upd_all_hash, auto simp: repointed_def split: option.split)
qed

lemma live_chain: "meta_ok (ps_meta ps) \<Longrightarrow> r \<in> desc_run ` set (chain_of (ps_meta ps)) \<Longrightarrow> r \<in># live_m ps"
  using arg_cong [OF chain_runs [of "ps_meta ps"], of set_mset] by (simp add: live_m_def)

lemma addr_round:
  assumes "placed_round E ps plans ps' plans1 dicts cd" "plans_ok ps plans" "\<forall>w\<in>set plans. plan_extends ps w"
    "addr_ok E (ps_file ps) (ps_meta ps) (ps_types ps)" "distinct (map ss_hash (ps_types ps))"
    "\<forall>s\<in>set (ps_types ps). \<forall>dir. ss_dir s = Some dir \<longrightarrow> dir_len dir < 2 ^ 32"
  shows "addr_ok E (ps_file ps') (ps_meta ps') (ps_types ps')"
proof -
  let ?full = "wants_snapshot (ps_meta ps)" and ?f = "ps_file ps" and ?f' = "ps_file ps'" and ?ts = "ps_types ps" and ?ts' = "ps_types ps'"
  note r = placed_roundD [OF assms(1)]
  obtain rp where a: "meta_ok (ps_meta ps)" "links E ?f desc_EMPTY (chain_of (ps_meta ps))"
    "replay_chain E ?f (chain_of (ps_meta ps)) replay_empty = Ok rp" "replays rp ?ts"
    "\<forall>s\<in>set ?ts. ss_dir s = None \<longrightarrow> ds_desc (ss_dict s) = desc_EMPTY" using assms(4) by (auto simp: addr_ok_def)
  have keep: "read_run ?f' q = Ok b" if "q \<in> desc_run ` set (chain_of (ps_meta ps))" "read_run ?f q = Ok b" for q b
    using r(6) [OF live_chain [OF a(1) that(1)] that(2)] .
  have cd: "is_allocated cd" and chunk: "read_chunk E ?f' (desc_run cd) = Ok (round_chunk ps plans1 dicts)"
    using r(11) chunk_reads_back [OF r(12)] by (auto simp: stored_at_def)
  note rec = chain_recorded [OF a(1) cd, folded r(13)]
  have prev: "ec_prev (round_chunk ps plans1 dicts) = desc_raw (last (desc_EMPTY # (if ?full then [] else chain_of (ps_meta ps))))"
    using arg_cong [OF chain_head [OF a(1)], of desc_raw] by (simp add: round_chunk_def chunk_of_def prev_link_def desc_EMPTY_def)
  have links: "links E ?f' desc_EMPTY (chain_of (ps_meta ps'))"
    unfolding rec(2) using links_kept [OF keep a(2)] cd chunk prev by (simp add: links_snoc)
  define rp0 where "rp0 = (if ?full then replay_empty else rp)"
  have bt0: "bt_ok (rp_slots rp0)" "bt_ok (rp_dicts rp0)" using a(4) by (simp_all add: rp0_def replays_def replay_empty_def)
  have idx: "map pl_idx plans1 = map pl_idx plans" using r(2, 3) by (intro nth_equalityI) (auto simp: same_shape_def)
  have d1: "distinct (map pl_idx plans1)" using assms(2) idx by (simp add: plans_ok_def)
  have s1: "\<forall>w\<in>set plans1. pl_idx w < length ?ts"
  proof
    fix w assume "w \<in> set plans1"
    then have "pl_idx w \<in> set (map pl_idx plans)" unfolding idx [symmetric] by simp
    then show "pl_idx w < length ?ts" using assms(2) by (auto simp: plans_ok_def)
  qed
  define L where "L = edits_of ps plans1 ?full dicts"
  note ef = edits_of_facts [OF d1 s1, where full = ?full and dicts = dicts, folded L_def]
  have inj: "inj_on (\<lambda>k. ss_hash (?ts ! k)) {..<length ?ts}"
    using assms(5) by (auto simp: inj_on_def distinct_conv_nth)
  note key = edit_of_keyed [OF ef(1, 3) inj ef(2)]
  have re: "case map_of L k of
      None \<Rightarrow> slot_addr (?ts' ! k) = (if ?full then None else slot_addr (?ts ! k))
        \<and> desc_raw (ds_desc (ss_dict (?ts' ! k))) = (if ?full then 0 else desc_raw (ds_desc (ss_dict (?ts ! k))))
    | Some e \<Rightarrow> edit_ok e \<and> slot_addr (?ts' ! k) = Some (new_addr e (base_addr ?full (?ts ! k)))
        \<and> desc_raw (ds_desc (ss_dict (?ts' ! k))) = (case se_dict e of Some d \<Rightarrow> d | None \<Rightarrow> if ?full then 0 else desc_raw (ds_desc (ss_dict (?ts ! k))))"
    if "k < length ?ts" for k
    unfolding L_def by (rule round_edit [OF assms(1-3) that]) (use assms(6) a(5) that in auto)
  have eok: "list_all edit_ok (map snd L)"
    unfolding list_all_iff
  proof
    fix e assume "e \<in> set (map snd L)"
    then obtain k where k: "(k, e) \<in> set L" by auto
    then have "map_of L k = Some e" "k < length ?ts" using ef(1, 2) by (auto intro: map_of_is_SomeI)
    with re [of k] show "edit_ok e" by simp
  qed
  obtain rp' where rp': "apply_edits (map snd L) rp0 = Ok rp'" "bt_ok (rp_slots rp')" "bt_ok (rp_dicts rp')"
    "\<forall>h. map_of (rp_slots rp') h = (case edit_of (map snd L) h of None \<Rightarrow> map_of (rp_slots rp0) h
         | Some e \<Rightarrow> Some (new_addr e (case map_of (rp_slots rp0) h of Some a \<Rightarrow> a | None \<Rightarrow> [])))"
    "\<forall>h. map_of (rp_dicts rp') h = (case Option.bind (edit_of (map snd L) h) se_dict of None \<Rightarrow> map_of (rp_dicts rp0) h | Some d \<Rightarrow> Some d)"
    using apply_edits_ok [OF eok key(1) bt0] by blast
  have base: "replay_chain E ?f' (if ?full then [] else chain_of (ps_meta ps)) replay_empty = Ok rp0"
    using replay_chain_kept [OF keep a(3)] by (simp add: rp0_def)
  have "ec_slots (round_chunk ps plans1 dicts) = map snd L" by (simp add: round_chunk_def edits_of_chunk L_def)
  then have "replay_chain E ?f' ((if ?full then [] else chain_of (ps_meta ps)) @ [cd]) replay_empty = Ok rp'"
    unfolding replay_chain_snoc base using chunk rp'(1) by (simp add: replay_apply_def)
  then have "replay_chain E ?f' (chain_of (ps_meta ps')) replay_empty = Ok rp'" unfolding rec(2) by (simp split: if_splits)
  moreover have hash: "map ss_hash ?ts' = map ss_hash ?ts" unfolding r(4) by (rule slots_after_hash)
  have len: "length ?ts' = length ?ts" using arg_cong [OF hash, of length] by simp
  have old: "map_of (rp_slots rp0) (ss_hash (?ts ! k)) = (if ?full then None else slot_addr (?ts ! k))"
    "(case map_of (rp_dicts rp0) (ss_hash (?ts ! k)) of None \<Rightarrow> 0 | Some d \<Rightarrow> d) = (if ?full then 0 else desc_raw (ds_desc (ss_dict (?ts ! k))))"
    if "k < length ?ts" for k
    using a(4) that by (simp_all add: rp0_def replays_def replay_empty_def)
  have each: "map_of (rp_slots rp') (ss_hash (?ts' ! k)) = slot_addr (?ts' ! k)
      \<and> (case map_of (rp_dicts rp') (ss_hash (?ts' ! k)) of None \<Rightarrow> 0 | Some d \<Rightarrow> d) = desc_raw (ds_desc (ss_dict (?ts' ! k)))"
    if k: "k < length ?ts" for k
  proof -
    have h: "ss_hash (?ts' ! k) = ss_hash (?ts ! k)" using arg_cong [OF hash, of "\<lambda>xs. xs ! k"] k len by simp
    have e: "edit_of (map snd L) (ss_hash (?ts ! k)) = map_of L k" by (rule key(2)) (use k in simp)
    have ba: "(case map_of (rp_slots rp0) (ss_hash (?ts ! k)) of Some a \<Rightarrow> a | None \<Rightarrow> []) = base_addr ?full (?ts ! k)"
      unfolding old(1) [OF k] by (simp add: base_addr_def)
    show ?thesis
    proof (cases "map_of L k")
      case None
      then show ?thesis using re [OF k] old [OF k] unfolding h rp'(4) [rule_format] rp'(5) [rule_format] e by simp
    next
      case (Some ed)
      then show ?thesis using re [OF k] old(2) [OF k] unfolding h rp'(4) [rule_format] rp'(5) [rule_format] e ba by (cases "se_dict ed") simp_all
    qed
  qed
  have dom: "h \<in> ss_hash ` set ?ts" if "map_of (rp_slots rp') h \<noteq> None \<or> map_of (rp_dicts rp') h \<noteq> None" for h
  proof (cases "edit_of (map snd L) h")
    case None
    then have "map_of (rp_slots rp0) h \<noteq> None \<or> map_of (rp_dicts rp0) h \<noteq> None"
      using that unfolding rp'(4) [rule_format] rp'(5) [rule_format] by simp
    then show ?thesis using a(4) by (auto simp: rp0_def replays_def replay_empty_def split: if_splits)
  next
    case (Some e)
    then obtain k where "(k, e) \<in> set L" "se_hash e = h" by (auto simp: edit_of_def dest!: map_of_SomeD)
    then show ?thesis using ef(2, 3) by force
  qed
  have "replays rp' ?ts'"
    unfolding replays_def all_set_conv_all_nth len using rp'(2, 3) each dom arg_cong [OF hash, of set] by auto
  moreover have "\<forall>s\<in>set ?ts'. ss_dir s = None \<longrightarrow> ds_desc (ss_dict s) = desc_EMPTY"
    unfolding all_set_conv_all_nth len
  proof (intro allI impI)
    fix k assume k: "k < length ?ts" "ss_dir (?ts' ! k) = None"
    have "k \<notin> pl_idx ` set plans1"
    proof
      assume "k \<in> pl_idx ` set plans1"
      then obtain n where "n < length plans1" "pl_idx (plans1 ! n) = k" by (auto simp: in_set_conv_nth image_iff)
      from slots_after_nth(1) [OF d1 k(1) this] r(4) k(2) show False by (simp add: published_def)
    qed
    then have "?ts' ! k = ?ts ! k" using slots_after_nth(2) [OF d1 k(1)] r(4) by simp
    then show "ds_desc (ss_dict (?ts' ! k)) = desc_EMPTY" using a(5) k by simp
  qed
  ultimately show ?thesis using rec(1) links by (auto simp: addr_ok_def)
qed

lemma addr_cong:
  assumes "map ss_hash types' = map ss_hash types" "map ss_dir types' = map ss_dir types"
    "map (\<lambda>s. ds_desc (ss_dict s)) types' = map (\<lambda>s. ds_desc (ss_dict s)) types" "addr_ok E f m types"
  shows "addr_ok E f m types'"
proof -
  have len: "length types' = length types" using assms(1) by (rule map_eq_imp_length_eq)
  have nth: "ss_hash (types' ! k) = ss_hash (types ! k)" "ss_dir (types' ! k) = ss_dir (types ! k)"
    "ds_desc (ss_dict (types' ! k)) = ds_desc (ss_dict (types ! k))" if "k < length types" for k
    using that len arg_cong [OF assms(1), of "\<lambda>xs. xs ! k"] arg_cong [OF assms(2), of "\<lambda>xs. xs ! k"] arg_cong [OF assms(3), of "\<lambda>xs. xs ! k"]
    by simp_all
  have "ss_hash ` set types' = ss_hash ` set types" using arg_cong [OF assms(1), of set] by simp
  then show ?thesis using assms(4) nth unfolding addr_ok_def replays_def all_set_conv_all_nth len slot_addr_def by simp
qed

section \<open>Dictionaries and seeds\<close>

definition dict_ok :: "libs \<Rightarrow> block_file \<Rightarrow> struct_storage \<Rightarrow> bool" where
  "dict_ok E f s \<longleftrightarrow> (if is_allocated (ds_desc (ss_dict s))
     then \<exists>bytes. read_run f (desc_run (ds_desc (ss_dict s))) = Ok bytes \<and> dict_from_bytes E bytes = Ok (ds_dict (ss_dict s))
     else ds_dict (ss_dict s) = dict_new \<and> ds_desc (ss_dict s) = desc_EMPTY)"

definition slot_logged :: "libs \<Rightarrow> block_file \<Rightarrow> seed \<Rightarrow> struct_storage \<Rightarrow> bool" where
  "slot_logged E f seed s \<longleftrightarrow> dict_ok E f s \<and> dir_seed (slot_dir seed s) = seed"

definition log_ok :: "libs \<Rightarrow> page_store \<Rightarrow> bool" where
  "log_ok E ps \<longleftrightarrow> addr_ok E (ps_file ps) (ps_meta ps) (ps_types ps) \<and> ps_seed ps = bf_seed (ps_file ps)
     \<and> (\<forall>s\<in>set (ps_types ps). slot_logged E (ps_file ps) (ps_seed ps) s)"

lemma log_okD:
  assumes "log_ok E ps"
  shows "addr_ok E (ps_file ps) (ps_meta ps) (ps_types ps)" "ps_seed ps = bf_seed (ps_file ps)"
    "s \<in> set (ps_types ps) \<Longrightarrow> slot_logged E (ps_file ps) (ps_seed ps) s"
  using assms unfolding log_ok_def by blast+

lemma dict_ok_kept:
  "dict_ok E f s \<Longrightarrow> ss_dict s' = ss_dict s \<Longrightarrow>
    (\<And>b. is_allocated (ds_desc (ss_dict s)) \<Longrightarrow> read_run f (desc_run (ds_desc (ss_dict s))) = Ok b \<Longrightarrow> read_run f' (desc_run (ds_desc (ss_dict s))) = Ok b) \<Longrightarrow>
    dict_ok E f' s'"
  by (auto simp: dict_ok_def split: if_splits)

lemma live_dict: "s \<in> set (ps_types ps) \<Longrightarrow> is_allocated (ds_desc (ss_dict s)) \<Longrightarrow> desc_run (ds_desc (ss_dict s)) \<in># live_m ps"
  by (force simp: live_m_def slot_m_def desc_m_def in_sum_list_mset)

lemma log_cong:
  assumes "map ss_hash (ps_types ps') = map ss_hash (ps_types ps)" "map ss_dir (ps_types ps') = map ss_dir (ps_types ps)"
    "map ss_dict (ps_types ps') = map ss_dict (ps_types ps)" "ps_file ps' = ps_file ps" "ps_seed ps' = ps_seed ps" "ps_meta ps' = ps_meta ps" "log_ok E ps"
  shows "log_ok E ps'"
proof -
  let ?ts = "ps_types ps" and ?ts' = "ps_types ps'"
  have len: "length ?ts' = length ?ts" using assms(1) by (rule map_eq_imp_length_eq)
  have nth: "ss_dir (?ts' ! k) = ss_dir (?ts ! k)" "ss_dict (?ts' ! k) = ss_dict (?ts ! k)" if "k < length ?ts" for k
    using that len arg_cong [OF assms(2), of "\<lambda>xs. xs ! k"] arg_cong [OF assms(3), of "\<lambda>xs. xs ! k"] by simp_all
  have "addr_ok E (ps_file ps) (ps_meta ps) ?ts'"
    by (rule addr_cong [OF assms(1, 2)]) (use assms(7) arg_cong [OF assms(3), of "map ds_desc"] in \<open>simp_all add: log_ok_def comp_def\<close>)
  moreover have "slot_logged E f seed (?ts' ! k) = slot_logged E f seed (?ts ! k)" if "k < length ?ts" for E f seed k
    using nth [OF that] by (simp add: slot_logged_def dict_ok_def slot_dir_def)
  ultimately show ?thesis using assms(7) unfolding log_ok_def all_set_conv_all_nth len assms(4-6) by blast
qed

end
