(* ===== verification/Settle_Laws.thy ===== *)
theory Settle_Laws
  imports Log_Laws
begin

text \<open>
  Settling and eviction change where records live, never what the store answers: a planned round is
  placed, published and taken off the queue without changing the view, repeated rounds drain the queue,
  and eviction drops only what the pages already hold.
\<close>

section \<open>Pages after a round\<close>

lemma pages_transfer:
  assumes "staged_ok E f h d dir staged" "dir_len dir' = dir_len dir" "dir_seed dir' = dir_seed dir"
    "\<forall>b<dir_len dir. read_page E f' h d' dir' b = stage E f h d dir staged b"
  shows "staged_ok E f' h d' dir' []" "stage_view E f' h d' dir' [] = stage_view E f h d dir staged"
    "stage_fits E f h d dir staged \<Longrightarrow> stage_fits E f' h d' dir' []"
proof -
  have route: "bucket_of H dir' k = bucket_of H dir k" for H k
    using assms(2, 3) by (simp add: bucket_of_def dir_hash_def)
  have ok: "dir_ok dir" using assms(1) by (simp add: staged_ok_def)
  have placed: "placed E h dir' b p = placed E h dir b p" for b p by (simp add: placed_def route)
  show "staged_ok E f' h d' dir' []"
    using assms ok unfolding staged_ok_def by (auto simp: placed dir_ok_def)
  show "stage_view E f' h d' dir' [] = stage_view E f h d dir staged"
    using assms(4) bucket_of_less [OF ok] by (simp add: stage_view_def route fun_eq_iff)
  show "stage_fits E f h d dir staged \<Longrightarrow> stage_fits E f' h d' dir' []"
    using assms(2, 4) by (simp add: stage_fits_def)
qed

lemma read_page_dict: "ds_dict d' = ds_dict d \<Longrightarrow> read_page E f h d' dir b = read_page E f h d dir b"
  by (cases "descriptor dir b") (simp_all add: read_page_def)

lemma read_page_kept:
  assumes "read_page E f h d dir b = Ok p" "ds_dict d' = ds_dict d" "b < dir_len dir'" "dir_slots dir' ! b = dir_slots dir ! b"
    "b < dir_len dir" "is_allocated (dir_slots dir ! b) \<Longrightarrow>
      (\<And>bytes. read_run f (desc_run (dir_slots dir ! b)) = Ok bytes \<Longrightarrow> read_run f' (desc_run (dir_slots dir ! b)) = Ok bytes)"
  shows "read_page E f' h d' dir' b = Ok p"
proof (cases "is_allocated (dir_slots dir ! b)")
  case True
  then obtain bytes where "read_run f (desc_run (dir_slots dir ! b)) = Ok bytes" "page_from_bytes E (ds_dict d) bytes = Ok p"
    using assms(1, 5) by (auto simp: read_page_def descriptor_def try_then_Ok_iff)
  with assms(6) [OF True] True assms(2-5) show ?thesis by (simp add: read_page_def descriptor_def)
qed (use assms in \<open>simp add: read_page_def descriptor_def\<close>)

text \<open>What a plan promises of its slot: a staging of every bucket whose images decode to it.\<close>

definition work_ok :: "libs \<Rightarrow> block_file \<Rightarrow> seed \<Rightarrow> struct_storage \<Rightarrow> slot_plan \<Rightarrow> staged \<Rightarrow> bool" where
  "work_ok E f seed s work staged \<longleftrightarrow> staged_ok E f (ss_hash s) (ss_dict s) (pl_dir work) staged
     \<and> dom (map_of (pl_pages work)) = dom (map_of staged)
     \<and> (\<forall>b img p pad. map_of (pl_pages work) b = Some img \<longrightarrow> map_of staged b = Some p \<longrightarrow>
          page_from_bytes E (ds_dict (ss_dict s)) (img @ pad) = Ok p)
     \<and> (\<exists>m. dir_slots (pl_dir work) = dir_slots (slot_dir seed s) @ replicate m desc_EMPTY)
     \<and> {dir_len (slot_dir seed s)..<dir_len (pl_dir work)} \<subseteq> dom (map_of staged)"

lemma placed_read_planned:
  assumes "placed_round E ps plans ps' plans1 dicts cd" "n < length plans" "s = ps_types ps ! pl_idx (plans ! n)"
    "pl_idx (plans ! n) < length (ps_types ps)" "work_ok E (ps_file ps) seed s (plans ! n) staged"
    "b < dir_len (pl_dir (plans ! n))" "ds_dict d' = ds_dict (ss_dict s)"
  shows "read_page E (ps_file ps') (ss_hash s) d' (pl_dir (plans1 ! n)) b
    = stage E (ps_file ps) (ss_hash s) (ss_dict s) (pl_dir (plans ! n)) staged b"
proof -
  note r = placed_roundD [OF assms(1)]
  have len: "b < dir_len (pl_dir (plans1 ! n))" using r(3) [OF assms(2)] assms(6) by (simp add: same_shape_def)
  have w: "staged_ok E (ps_file ps) (ss_hash s) (ss_dict s) (pl_dir (plans ! n)) staged"
    "dom (map_of (pl_pages (plans ! n))) = dom (map_of staged)"
    "{dir_len (slot_dir seed s)..<dir_len (pl_dir (plans ! n))} \<subseteq> dom (map_of staged)"
    using assms(5) by (simp_all add: work_ok_def)
  obtain m where m: "dir_slots (pl_dir (plans ! n)) = dir_slots (slot_dir seed s) @ replicate m desc_EMPTY"
    using assms(5) by (auto simp: work_ok_def)
  obtain p where p: "stage E (ps_file ps) (ss_hash s) (ss_dict s) (pl_dir (plans ! n)) staged b = Ok p"
    by (rule staged_okD [OF w(1) assms(6)])
  show ?thesis
  proof (cases "map_of staged b")
    case (Some q)
    then obtain img where img: "map_of (pl_pages (plans ! n)) b = Some img" using w(2) by blast
    then have "stored_at (ps_file ps') img (dir_slots (pl_dir (plans1 ! n)) ! b)" by (rule r(8) [OF assms(2, 6)])
    moreover have "page_from_bytes E (ds_dict (ss_dict s)) (img @ pad) = Ok q" for pad
      using assms(5) img Some by (simp add: work_ok_def)
    ultimately show ?thesis using Some len assms(7) by (auto simp: stored_at_def read_page_def descriptor_def stage_def)
  next
    case None
    then have img: "map_of (pl_pages (plans ! n)) b = None" using w(2) by blast
    have old: "b < dir_len (slot_dir seed s)" using w(3) assms(6) None by (meson atLeastLessThan_iff domIff not_le subsetD)
    have "read_run (ps_file ps') (desc_run (dir_slots (pl_dir (plans ! n)) ! b)) = Ok bytes"
      if "is_allocated (dir_slots (pl_dir (plans ! n)) ! b)" "read_run (ps_file ps) (desc_run (dir_slots (pl_dir (plans ! n)) ! b)) = Ok bytes" for bytes
    proof (rule r(6) [OF _ that(2)])
      have eq: "dir_slots (pl_dir (plans ! n)) ! b = dir_slots (slot_dir seed s) ! b"
        using m old by (simp add: nth_append dir_len_def)
      then have "is_allocated (dir_slots (slot_dir seed s) ! b)" using that(1) by simp
      moreover from this obtain dir where "ss_dir s = Some dir" using old by (cases "ss_dir s") (auto simp: slot_dir_def)
      ultimately show "desc_run (dir_slots (pl_dir (plans ! n)) ! b) \<in># live_m ps"
        using dir_run_live [of s ps dir b] assms(3, 4) old eq by (simp add: slot_dir_def)
    qed
    moreover have "read_page E (ps_file ps) (ss_hash s) (ss_dict s) (pl_dir (plans ! n)) b = Ok p" using p None by (simp add: stage_def)
    ultimately show ?thesis
      using read_page_kept [OF _ assms(7) len r(7) [OF assms(2, 6) img] assms(6)] p by simp
  qed
qed

lemma placed_read_other:
  assumes "placed_round E ps plans ps' plans1 dicts cd" "s \<in> set (ps_types ps)"
    "staged_ok E (ps_file ps) (ss_hash s) (ss_dict s) (slot_dir seed s) []" "b < dir_len (slot_dir seed s)"
  shows "read_page E (ps_file ps') (ss_hash s) (ss_dict s) (slot_dir seed s) b
    = stage E (ps_file ps) (ss_hash s) (ss_dict s) (slot_dir seed s) [] b"
proof -
  obtain p where p: "read_page E (ps_file ps) (ss_hash s) (ss_dict s) (slot_dir seed s) b = Ok p"
    using staged_okD [OF assms(3, 4)] by (auto simp: stage_def)
  have "desc_run (dir_slots (slot_dir seed s) ! b) \<in># live_m ps" if "is_allocated (dir_slots (slot_dir seed s) ! b)"
  proof -
    from that assms(4) obtain dir where "ss_dir s = Some dir" by (cases "ss_dir s") (auto simp: slot_dir_def)
    then show ?thesis using dir_run_live [OF assms(2)] that assms(4) by (simp add: slot_dir_def)
  qed
  then show ?thesis
    using read_page_kept [OF p refl assms(4) refl assms(4)] placed_roundD(6) [OF assms(1)] p by (simp add: stage_def)
qed

section \<open>A slot after its round\<close>

lemma settled_slot_ok:
  assumes "slot_ok E f seed (P \<union> R) s" "slot_pages_ok E f' seed s'" "ss_cache s' = ss_cache s"
    "page_view E f' seed s' = (\<lambda>k. if k \<in> R then map_of (ss_cache s) k else page_view E f seed s k)"
    "ss_dead s' = filter (\<lambda>k. k \<notin> gone) (ss_dead s)" "gone = {k\<in>R. map_of (ss_cache s) k = None}"
  shows "slot_ok E f' seed P s'" "slot_view E f' seed s' = slot_view E f seed s"
proof -
  note ok = slot_okD [OF assms(1)]
  have cache: "map_of (ss_cache s) k = None" if "k \<in> set (ss_dead s)" for k using ok(4) that by blast
  have dead: "set (ss_dead s') = set (ss_dead s) - R" using assms(5, 6) cache by auto
  have "set (ss_dead s') \<subseteq> P" using dead ok(5) by blast
  moreover have "sorted_wrt (<) (ss_dead s')" using ok(3) assms(5) by (simp add: sorted_wrt_filter)
  moreover have "set (ss_dead s') \<inter> dom (map_of (ss_cache s')) = {}" using dead ok(4) assms(3) by auto
  moreover have "page_view E f' seed s' k = Some b" if "map_of (ss_cache s') k = Some b" "k \<notin> P" for k b
    using that ok(6) [of k b] assms(3, 4) by auto
  moreover have "page_view E f' seed s' k = None" if "k \<in> P" "map_of (ss_cache s') k = None" "k \<notin> set (ss_dead s')" for k
    using that ok(7) [of k] assms(3, 4) dead by auto
  ultimately show "slot_ok E f' seed P s'" using assms(2, 3) ok(2) by (simp add: slot_ok_def)
  show "slot_view E f' seed s' = slot_view E f seed s"
  proof
    fix k
    show "slot_view E f' seed s' k = slot_view E f seed s k"
    proof (cases "map_of (ss_cache s) k")
      case None
      then show ?thesis using assms(3, 4) dead ok(7) [of k] by (auto simp: slot_view_def)
    qed (simp add: slot_view_def assms(3))
  qed
qed

lemma slot_dict_extends:
  assumes "slot_pages_ok E f seed s" "dict_extends (ds_dict (ss_dict s)) (ds_dict d)" "dict_len (ds_dict d) \<le> DICT_CAP"
  shows "slot_pages_ok E f seed (s\<lparr>ss_dict := d\<rparr>)" "page_view E f seed (s\<lparr>ss_dict := d\<rparr>) = page_view E f seed s"
  using staged_ok_extends [of E f "ss_hash s" "ss_dict s" "slot_dir seed s" "[]" d] assms
  by (simp_all add: slot_pages_ok_def page_view_def slot_dir_def fun_eq_iff)

lemma published_slot:
  assumes "placed_round E ps plans ps' plans1 dicts cd" "plans_ok ps plans" "n < length plans"
    "s = ps_types ps ! pl_idx (plans ! n)" "work_ok E (ps_file ps) seed s (plans ! n) staged"
    "dir_seed (pl_dir (plans ! n)) = dir_seed (slot_dir seed s)" "dict_len (ds_dict (ss_dict s)) \<le> DICT_CAP"
    "s' = ps_types ps' ! pl_idx (plans ! n)"
  shows "slot_pages_ok E (ps_file ps') seed s'"
    "page_view E (ps_file ps') seed s' = stage_view E (ps_file ps) (ss_hash s) (ss_dict s) (pl_dir (plans ! n)) staged"
    "stage_fits E (ps_file ps) (ss_hash s) (ss_dict s) (pl_dir (plans ! n)) staged \<Longrightarrow>
      stage_fits E (ps_file ps') (ss_hash s') (ss_dict s') (slot_dir seed s') []"
    "ss_hash s' = ss_hash s" "ss_cache s' = ss_cache s"
    "ss_dead s' = filter (\<lambda>k. k \<notin> raw ` set (pl_cleared (plans ! n))) (ss_dead s)" "slot_dir seed s' = pl_dir (plans1 ! n)"
proof -
  note r = placed_roundD [OF assms(1)]
  note sh = r(3) [OF assms(3), unfolded same_shape_def]
  have idx: "map pl_idx plans1 = map pl_idx plans"
    using r(2, 3) by (intro nth_equalityI) (auto simp: same_shape_def)
  have d: "distinct (map pl_idx plans1)" using assms(2) idx by (simp add: plans_ok_def)
  have s': "s' = published (plans1 ! n) (repointed dicts n s)"
    using slots_after_nth(1) [OF d plans_okD(1) [OF assms(2, 3)], of n] r(2, 4) assms(3, 4, 8) sh by simp
  have f: "ss_hash s' = ss_hash s" "ss_cache s' = ss_cache s" "ds_dict (ss_dict s') = ds_dict (ss_dict s)"
    "slot_dir seed s' = pl_dir (plans1 ! n)" "ss_dead s' = filter (\<lambda>k. k \<notin> raw ` set (pl_cleared (plans ! n))) (ss_dead s)"
    using sh by (simp_all add: s' published_def repointed_def slot_dir_def split: option.splits)
  have read: "\<forall>b<dir_len (pl_dir (plans ! n)). read_page E (ps_file ps') (ss_hash s) (ss_dict s') (pl_dir (plans1 ! n)) b
    = stage E (ps_file ps) (ss_hash s) (ss_dict s) (pl_dir (plans ! n)) staged b"
    using placed_read_planned [OF assms(1, 3, 4) plans_okD(1) [OF assms(2, 3)] assms(5)] f(3) by blast
  have st: "staged_ok E (ps_file ps) (ss_hash s) (ss_dict s) (pl_dir (plans ! n)) staged" using assms(5) by (simp add: work_ok_def)
  note t = pages_transfer [OF st _ _ read]
  show "slot_pages_ok E (ps_file ps') seed s'" using t(1) sh assms(7) by (simp add: slot_pages_ok_def f)
  show "page_view E (ps_file ps') seed s' = stage_view E (ps_file ps) (ss_hash s) (ss_dict s) (pl_dir (plans ! n)) staged"
    using t(2) sh by (simp add: page_view_def f)
  show "stage_fits E (ps_file ps) (ss_hash s) (ss_dict s) (pl_dir (plans ! n)) staged \<Longrightarrow>
      stage_fits E (ps_file ps') (ss_hash s') (ss_dict s') (slot_dir seed s') []"
    using t(3) sh by (simp add: f)
  show "ss_hash s' = ss_hash s" "ss_cache s' = ss_cache s" "slot_dir seed s' = pl_dir (plans1 ! n)"
    "ss_dead s' = filter (\<lambda>k. k \<notin> raw ` set (pl_cleared (plans ! n))) (ss_dead s)"
    by (fact f)+
qed

section \<open>Planning a round\<close>

definition slot_planned :: "libs \<Rightarrow> block_file \<Rightarrow> seed \<Rightarrow> struct_storage \<Rightarrow> wave_id list \<Rightarrow> struct_storage \<Rightarrow> slot_plan \<Rightarrow> bool" where
  "slot_planned E f seed s ids s' plan \<longleftrightarrow> (\<exists>d staged. s' = s\<lparr>ss_dict := d\<rparr> \<and> plan_ok E f seed s ids d plan staged
     \<and> (stage_fits E f (ss_hash s) (ss_dict s) (slot_dir seed s) [] \<longrightarrow> ids_fit E f seed s ids \<longrightarrow>
          stage_fits E f (ss_hash s) d (pl_dir plan) staged))"

definition slot_plannable :: "libs \<Rightarrow> block_file \<Rightarrow> seed \<Rightarrow> struct_storage \<Rightarrow> bool" where
  "slot_plannable E f seed s \<longleftrightarrow> slot_pages_ok E f seed s \<and> dir_len (slot_dir seed s) + MAX_SPLITS_PER_ROUND < 2 ^ 32"

lemma plan_all_ok:
  assumes "queue_ok (length (ps_types ps)) rnd"
    "\<forall>(idx, ids)\<in>set rnd. slot_plannable E (ps_file ps) (ps_seed ps) (ps_types ps ! idx)"
  shows "\<exists>types' plans. plan_all E rnd ps = (ps\<lparr>ps_types := types'\<rparr>, Ok plans) \<and> length plans = length rnd
    \<and> length types' = length (ps_types ps) \<and> (\<forall>k. k \<notin> fst ` set rnd \<longrightarrow> types' ! k = ps_types ps ! k)
    \<and> (\<forall>n<length rnd. pl_idx (plans ! n) = fst (rnd ! n)
         \<and> slot_planned E (ps_file ps) (ps_seed ps) (ps_types ps ! fst (rnd ! n)) (snd (rnd ! n)) (types' ! fst (rnd ! n)) (plans ! n))"
  using assms
proof (induction rnd arbitrary: ps)
  case Nil
  then show ?case by (intro exI [of _ "ps_types ps"] exI [of _ "[]"]) simp
next
  case (Cons x rnd)
  obtain idx ids where x: "x = (idx, ids)" by fastforce
  let ?s = "ps_types ps ! idx"
  have i: "idx < length (ps_types ps)" "idx \<notin> fst ` set rnd" "queue_ok (length (ps_types ps)) rnd" using Cons.prems(1) x by simp_all
  have s: "slot_pages_ok E (ps_file ps) (ps_seed ps) ?s" "dir_len (slot_dir (ps_seed ps) ?s) + MAX_SPLITS_PER_ROUND < 2 ^ 32"
    using Cons.prems(2) x by (simp_all add: slot_plannable_def)
  obtain d plan staged where p: "plan_slot E (ps_file ps) (ps_seed ps) (ps_target ps) idx ids ?s = (?s\<lparr>ss_dict := d\<rparr>, Ok plan)" "pl_idx plan = idx"
    "plan_ok E (ps_file ps) (ps_seed ps) ?s ids d plan staged"
    "stage_fits E (ps_file ps) (ss_hash ?s) (ss_dict ?s) (slot_dir (ps_seed ps) ?s) [] \<longrightarrow> ids_fit E (ps_file ps) (ps_seed ps) ?s ids \<longrightarrow>
      stage_fits E (ps_file ps) (ss_hash ?s) d (pl_dir plan) staged"
    by (rule plan_slot_correct [OF s, of "ps_target ps" idx ids]) (rule that; blast)
  let ?ps = "ps\<lparr>ps_types := (ps_types ps)[idx := ?s\<lparr>ss_dict := d\<rparr>]\<rparr>"
  have other: "ps_types ?ps ! k = ps_types ps ! k" if "k \<in> fst ` set rnd" for k using that i(2) by (cases "k = idx") simp_all
  have q: "queue_ok (length (ps_types ?ps)) rnd" using i(3) by simp
  have pl: "\<forall>(k, ids)\<in>set rnd. slot_plannable E (ps_file ?ps) (ps_seed ?ps) (ps_types ?ps ! k)"
    using Cons.prems(2) other by (force simp: image_iff)
  from Cons.IH [OF q pl] obtain types' plans where t: "plan_all E rnd ?ps = (?ps\<lparr>ps_types := types'\<rparr>, Ok plans)" "length plans = length rnd"
      "length types' = length (ps_types ?ps)" "\<forall>k. k \<notin> fst ` set rnd \<longrightarrow> types' ! k = ps_types ?ps ! k"
      "\<forall>n<length rnd. pl_idx (plans ! n) = fst (rnd ! n)
         \<and> slot_planned E (ps_file ?ps) (ps_seed ?ps) (ps_types ?ps ! fst (rnd ! n)) (snd (rnd ! n)) (types' ! fst (rnd ! n)) (plans ! n)"
    by (elim exE conjE) (rule that; assumption)
  have head: "types' ! idx = ?s\<lparr>ss_dict := d\<rparr>" using t(4) i(1, 2) by simp
  have "slot_planned E (ps_file ps) (ps_seed ps) ?s ids (types' ! idx) plan"
    unfolding slot_planned_def head using p(3, 4) by blast
  moreover have "ps_types ?ps ! fst (rnd ! n) = ps_types ps ! fst (rnd ! n)" if "n < length rnd" for n
    using other [of "fst (rnd ! n)"] that by simp
  ultimately have "\<forall>n<length (x # rnd). pl_idx ((plan # plans) ! n) = fst ((x # rnd) ! n)
      \<and> slot_planned E (ps_file ps) (ps_seed ps) (ps_types ps ! fst ((x # rnd) ! n)) (snd ((x # rnd) ! n)) (types' ! fst ((x # rnd) ! n)) ((plan # plans) ! n)"
    using t(5) p(2) x by (auto simp: nth_Cons split: nat.splits)
  moreover have "\<forall>k. k \<notin> fst ` set (x # rnd) \<longrightarrow> types' ! k = ps_types ps ! k" using t(4) x by simp
  moreover have "plan_all E (x # rnd) ps = (ps\<lparr>ps_types := types'\<rparr>, Ok (plan # plans))"
    using p(1) t(1) i(1) x by (simp add: Let_def)
  ultimately show ?case using t(2, 3) by (intro exI [of _ types'] exI [of _ "plan # plans"]) simp
qed

text \<open>A plan of the planner is one the placement accepts.\<close>

lemma fits_ds_image: "dict_len (ds_dict d) \<le> DICT_CAP \<Longrightarrow> fits_run (ds_image E d)"
  using wbytes.to_wire_length [of "dict_buf (ds_dict d)"]
  by (simp add: fits_run_def ds_image_def dict_to_bytes_def length_frame_image length_checked dict_len_def valid_bytes_def)

lemma planned_work_ok:
  assumes "zstd_ok E" "plan_ok E f seed s ids d plan staged" "stage_fits E f (ss_hash s) d (pl_dir plan) staged"
  shows "work_ok E f seed (s\<lparr>ss_dict := d\<rparr>) plan staged"
    "map_of (pl_pages plan) b = Some img \<Longrightarrow> b < dir_len (pl_dir plan) \<and> fits_run img"
proof -
  note p = assms(2) [unfolded plan_ok_def]
  have st: "staged_ok E f (ss_hash s) d (pl_dir plan) staged" using p by simp
  have img: "map_of (pl_pages plan) = map_option (image_of E d) \<circ> map_of staged" using p by simp
  have page: "b < dir_len (pl_dir plan) \<and> page_ok q \<and> page_fits (sp_records q)" if "map_of staged b = Some q" for b q
  proof -
    have b: "b < dir_len (pl_dir plan)" using st that by (auto simp: staged_ok_def)
    then have "stage E f (ss_hash s) d (pl_dir plan) staged b = Ok q" using that by (simp add: stage_def)
    with b staged_okD [OF st b] assms(3) show ?thesis by (auto simp: stage_fits_def placed_def)
  qed
  show "map_of (pl_pages plan) b = Some img \<Longrightarrow> b < dir_len (pl_dir plan) \<and> fits_run img"
    using page page_image_length by (auto simp: img image_of_def fits_run_def intro: less_imp_le) (metis zero_less_numeral less_le_trans length_greater_0_conv)
  have "page_from_bytes E (ds_dict d) (img @ pad) = Ok q" if "map_of (pl_pages plan) b = Some img" "map_of staged b = Some q" for b img q pad
    using that page [OF that(2)] page_reads_back [OF assms(1), of q "ds_dict d" "ds_dict d"] p by (auto simp: img image_of_def)
  moreover have "dom (map_of (pl_pages plan)) = dom (map_of staged)" unfolding img by auto
  ultimately show "work_ok E f seed (s\<lparr>ss_dict := d\<rparr>) plan staged"
    using p by (auto simp: work_ok_def slot_dir_def)
qed

definition types_fit :: "libs \<Rightarrow> page_store \<Rightarrow> bool" where
  "types_fit E ps \<longleftrightarrow> (\<forall>s\<in>set (ps_types ps).
     stage_fits E (ps_file ps) (ss_hash s) (ss_dict s) (slot_dir (ps_seed ps) s) [])"

text \<open>The round stays within the format's limits: page and chunk length fields, bucket numbers, and the
  descriptors' address space.\<close>

definition settle_fits :: "libs \<Rightarrow> touched \<Rightarrow> page_store \<Rightarrow> bool" where
  "settle_fits E rnd ps \<longleftrightarrow> (\<forall>(idx, ids)\<in>set rnd. ids_fit E (ps_file ps) (ps_seed ps) (ps_types ps ! idx) ids
       \<and> dir_len (slot_dir (ps_seed ps) (ps_types ps ! idx)) + MAX_SPLITS_PER_ROUND < 2 ^ 32)
     \<and> (case plan_all E rnd ps of (ps1, Ok plans) \<Rightarrow> round_fits E ps1 plans | _ \<Rightarrow> True)"

lemma settle_fitsD:
  assumes "settle_fits E rnd ps" "n < length rnd"
  shows "ids_fit E (ps_file ps) (ps_seed ps) (ps_types ps ! fst (rnd ! n)) (snd (rnd ! n))"
proof -
  have "(fst (rnd ! n), snd (rnd ! n)) \<in> set rnd" using assms(2) by simp
  then show ?thesis using assms(1) unfolding settle_fits_def by blast
qed

lemma plan_dir_m:
  assumes "plan_ok E f seed s ids d plan staged"
  shows "dir_m (pl_dir plan) = opt_dir_m s" "ds_desc d = ds_desc (ss_dict s)"
proof -
  obtain m where m: "dir_slots (pl_dir plan) = dir_slots (slot_dir seed s) @ replicate m desc_EMPTY"
    using assms by (auto simp: plan_ok_def)
  have "sum_list (map desc_m (replicate m desc_EMPTY)) = {#}" by (induction m) auto
  then show "dir_m (pl_dir plan) = opt_dir_m s"
    unfolding dir_m_def m by (cases "ss_dir s") (simp_all add: slot_dir_def opt_dir_m_def dir_m_def)
  show "ds_desc d = ds_desc (ss_dict s)" using assms by (simp add: plan_ok_def)
qed

section \<open>Settling a round\<close>

lemma live_m_types:
  assumes "length types = length (ps_types ps)" "\<forall>k<length types. slot_m (types ! k) = slot_m (ps_types ps ! k)"
  shows "live_m (ps\<lparr>ps_types := types\<rparr>) = live_m ps"
proof -
  have "map slot_m types = map slot_m (ps_types ps)" using assms by (intro nth_equalityI) auto
  then show ?thesis by (simp add: live_m_def)
qed

lemma slot_planned_m: "slot_planned E f seed s ids s' plan \<Longrightarrow> slot_m s' = slot_m s"
  unfolding slot_planned_def slot_m_def by (elim exE conjE) (simp add: plan_dir_m(2))

lemma slot_ok_planned:
  assumes "slot_planned E f seed s ids s' plan" "slot_ok E f seed P s"
  shows "slot_ok E f seed P s'" "slot_view E f seed s' = slot_view E f seed s"
proof -
  obtain d staged where d: "s' = s\<lparr>ss_dict := d\<rparr>" "plan_ok E f seed s ids d plan staged" using assms(1) by (auto simp: slot_planned_def)
  have x: "slot_pages_ok E f seed s'" "page_view E f seed s' = page_view E f seed s"
    using slot_dict_extends [OF slot_okD(1) [OF assms(2)], of d] d by (auto simp: plan_ok_def)
  show "slot_ok E f seed P s'" using assms(2) x d(1) by (simp add: slot_ok_def)
  show "slot_view E f seed s' = slot_view E f seed s" using x(2) d(1) by (auto simp: slot_view_def split: option.splits intro!: ext)
qed

lemma planned_round:
  assumes "zstd_ok E" "queue_ok (length (ps_types ps)) rnd" "types_fit E ps"
    "\<forall>(idx, ids)\<in>set rnd. slot_pages_ok E (ps_file ps) (ps_seed ps) (ps_types ps ! idx)" "settle_fits E rnd ps" "space_ok ps" "rnd \<noteq> []"
  obtains types' plans where "plan_all E rnd ps = (ps\<lparr>ps_types := types'\<rparr>, Ok plans)" "length plans = length rnd"
    "length types' = length (ps_types ps)" "\<forall>k. k \<notin> fst ` set rnd \<longrightarrow> types' ! k = ps_types ps ! k"
    "\<forall>n<length rnd. pl_idx (plans ! n) = fst (rnd ! n)
       \<and> slot_planned E (ps_file ps) (ps_seed ps) (ps_types ps ! fst (rnd ! n)) (snd (rnd ! n)) (types' ! fst (rnd ! n)) (plans ! n)"
    "plans_ok (ps\<lparr>ps_types := types'\<rparr>) plans" "space_ok (ps\<lparr>ps_types := types'\<rparr>)"
    "round_fits E (ps\<lparr>ps_types := types'\<rparr>) plans" "targets_of plans \<noteq> []"
proof -
  have pl: "\<forall>(idx, ids)\<in>set rnd. slot_plannable E (ps_file ps) (ps_seed ps) (ps_types ps ! idx)"
    using assms(4, 5) by (auto simp: settle_fits_def slot_plannable_def)
  obtain types' plans where t: "plan_all E rnd ps = (ps\<lparr>ps_types := types'\<rparr>, Ok plans)" "length plans = length rnd"
    "length types' = length (ps_types ps)" "\<forall>k. k \<notin> fst ` set rnd \<longrightarrow> types' ! k = ps_types ps ! k"
    "\<forall>n<length rnd. pl_idx (plans ! n) = fst (rnd ! n)
       \<and> slot_planned E (ps_file ps) (ps_seed ps) (ps_types ps ! fst (rnd ! n)) (snd (rnd ! n)) (types' ! fst (rnd ! n)) (plans ! n)"
    using plan_all_ok [OF assms(2) pl] by (elim exE conjE) (rule that; assumption)
  let ?ps = "ps\<lparr>ps_types := types'\<rparr>"
  have in_rnd: "fst (rnd ! n) < length (ps_types ps) \<and> snd (rnd ! n) \<noteq> []" if "n < length rnd" for n
    using assms(2) nth_mem [OF that] by (auto simp: queue_ok_def)
  have pn: "n < length plans \<Longrightarrow> \<exists>d staged. types' ! fst (rnd ! n) = (ps_types ps ! fst (rnd ! n))\<lparr>ss_dict := d\<rparr>
      \<and> plan_ok E (ps_file ps) (ps_seed ps) (ps_types ps ! fst (rnd ! n)) (snd (rnd ! n)) d (plans ! n) staged
      \<and> stage_fits E (ps_file ps) (ss_hash (ps_types ps ! fst (rnd ! n))) d (pl_dir (plans ! n)) staged" for n
  proof -
    assume n: "n < length plans"
    then have "ids_fit E (ps_file ps) (ps_seed ps) (ps_types ps ! fst (rnd ! n)) (snd (rnd ! n))"
      using settle_fitsD [OF assms(5)] t(2) by simp
    moreover have "ps_types ps ! fst (rnd ! n) \<in> set (ps_types ps)" using in_rnd n t(2) by simp
    ultimately show ?thesis using t(2, 5) n assms(3) unfolding slot_planned_def types_fit_def by metis
  qed
  have idx: "map pl_idx plans = map fst rnd" using t(2, 5) by (intro nth_equalityI) auto
  have ok: "pl_idx work < length types' \<and> distinct (map fst (pl_pages work))
      \<and> (\<forall>(b, img)\<in>set (pl_pages work). b < dir_len (pl_dir work) \<and> fits_run img)
      \<and> (\<forall>img. pl_dict work = Some img \<longrightarrow> fits_run img) \<and> dir_m (pl_dir work) = opt_dir_m (types' ! pl_idx work)
      \<and> pl_pages work \<noteq> []" if w: "work \<in> set plans" for work
  proof -
    obtain n where n: "n < length plans" "work = plans ! n" using w by (auto simp: in_set_conv_nth)
    obtain d staged where d: "types' ! fst (rnd ! n) = (ps_types ps ! fst (rnd ! n))\<lparr>ss_dict := d\<rparr>"
      "plan_ok E (ps_file ps) (ps_seed ps) (ps_types ps ! fst (rnd ! n)) (snd (rnd ! n)) d (plans ! n) staged"
      "stage_fits E (ps_file ps) (ss_hash (ps_types ps ! fst (rnd ! n))) d (pl_dir (plans ! n)) staged"
      using pn [OF n(1)] by blast
    have bt: "bt_ok (pl_pages work)" using d(2) n(2) by (simp add: plan_ok_def)
    then have dist: "distinct (map fst (pl_pages work))" by (simp add: strict_sorted_iff)
    have "b < dir_len (pl_dir work) \<and> fits_run img" if "(b, img) \<in> set (pl_pages work)" for b img
      using planned_work_ok(2) [OF assms(1) d(2, 3), of b img] that n(2) dist by simp
    moreover have "fits_run img" if "pl_dict work = Some img" for img
      using d(2) that n(2) fits_ds_image by (auto simp: plan_ok_def)
    moreover have "dir_m (pl_dir work) = opt_dir_m (types' ! pl_idx work)"
      using plan_dir_m(1) [OF d(2)] d(1) t(2, 5) n by (simp add: opt_dir_m_def)
    moreover have "pl_pages work \<noteq> []" using d(2) in_rnd n t(2) by (simp add: plan_ok_def)
    ultimately show ?thesis using dist in_rnd t(2, 3, 5) n by auto
  qed
  have "live_m ?ps = live_m ps"
  proof (rule live_m_types [OF t(3)], intro allI impI)
    fix k assume "k < length types'"
    show "slot_m (types' ! k) = slot_m (ps_types ps ! k)"
    proof (cases "k \<in> fst ` set rnd")
      case True
      then obtain n where "n < length rnd" "fst (rnd ! n) = k" by (auto simp: in_set_conv_nth)
      then show ?thesis using t(5) slot_planned_m by blast
    qed (use t(4) in simp)
  qed
  then have "space_ok ?ps" using assms(6) by (simp add: space_ok_def)
  moreover have "plans_ok ?ps plans" using ok idx assms(2) by (simp add: plans_ok_def queue_ok_def)
  moreover have "round_fits E ?ps plans" using assms(5) t(1) by (simp add: settle_fits_def)
  moreover have "targets_of plans \<noteq> []"
  proof -
    have p: "plans ! 0 \<in> set plans" "0 < length plans" using assms(7) t(2) by auto
    obtain b img where "(b, img) \<in> set (pl_pages (plans ! 0))" using ok [OF p(1)] by (metis list.set_intros(1) neq_Nil_conv surj_pair)
    then have "TPage 0 b \<in> set (targets_of plans)" using p(2) TPage_target [of 0 b plans] by force
    then show ?thesis by auto
  qed
  ultimately show ?thesis using that t by blast
qed

lemma pend_ids_nth:
  assumes "queue_ok N q" "n < length q"
  shows "pend_ids q (fst (q ! n)) = raw ` set (snd (q ! n))"
  using assms
proof (induction q arbitrary: n)
  case (Cons x q)
  obtain j ids where x: "x = (j, ids)" by fastforce
  have other: "pend_ids q k = {}" if "k \<notin> fst ` set q" for k using that by (force simp: pend_ids_def split: if_splits)
  show ?case
  proof (cases n)
    case (Suc m)
    then have "fst (q ! m) \<noteq> j" using Cons.prems x nth_mem [of m q] by auto
    then show ?thesis using Cons Suc x by simp
  qed (use other Cons.prems x in auto)
qed simp

lemma pend_ids_none: "k \<notin> fst ` set q \<Longrightarrow> pend_ids q k = {}"
  by (force simp: pend_ids_def split: if_splits)

text \<open>One slot through a placed round.\<close>

lemma settled_planned:
  assumes "placed_round E ps1 plans ps' plans1 dicts cd" "plans_ok ps1 plans" "n < length plans"
    "s1 = ps_types ps1 ! pl_idx (plans ! n)" "zstd_ok E" "slot_planned E (ps_file ps1) seed s ids s1 (plans ! n)"
    "slot_ok E (ps_file ps1) seed (P \<union> raw ` set ids) s"
    "stage_fits E (ps_file ps1) (ss_hash s) (ss_dict s) (slot_dir seed s) []" "ids_fit E (ps_file ps1) seed s ids"
    "s' = ps_types ps' ! pl_idx (plans ! n)"
  shows "slot_ok E (ps_file ps') seed P s'" "slot_view E (ps_file ps') seed s' = slot_view E (ps_file ps1) seed s"
    "stage_fits E (ps_file ps') (ss_hash s') (ss_dict s') (slot_dir seed s') []" "ss_hash s' = ss_hash s"
proof -
  obtain d staged where d: "s1 = s\<lparr>ss_dict := d\<rparr>" "plan_ok E (ps_file ps1) seed s ids d (plans ! n) staged"
    "stage_fits E (ps_file ps1) (ss_hash s) d (pl_dir (plans ! n)) staged"
    using assms(6, 8, 9) unfolding slot_planned_def by blast
  note p = d(2) [unfolded plan_ok_def]
  have w: "work_ok E (ps_file ps1) seed s1 (plans ! n) staged" unfolding d(1) by (rule planned_work_ok(1) [OF assms(5) d(2, 3)])
  note ok = slot_okD [OF assms(7)]
  have x: "slot_ok E (ps_file ps1) seed (P \<union> raw ` set ids) s1" "slot_view E (ps_file ps1) seed s1 = slot_view E (ps_file ps1) seed s"
    by (rule slot_ok_planned [OF assms(6, 7)])+
  have pv: "page_view E (ps_file ps1) seed s1 = page_view E (ps_file ps1) seed s"
    using slot_dict_extends(2) [OF ok(1)] p d(1) by simp
  have seed: "dir_seed (pl_dir (plans ! n)) = dir_seed (slot_dir seed s1)" "dict_len (ds_dict (ss_dict s1)) \<le> DICT_CAP"
    using p d(1) by (simp_all add: slot_dir_def)
  note pub = published_slot [OF assms(1-4) w seed assms(10)]
  have c: "ss_cache s1 = ss_cache s" "ss_dict s1 = d" "ss_hash s1 = ss_hash s" by (simp_all add: d(1))
  have view: "page_view E (ps_file ps') seed s' = (\<lambda>k. if k \<in> raw ` set ids then map_of (ss_cache s1) k else page_view E (ps_file ps1) seed s1 k)"
    unfolding pub(2) pv c using p by simp
  have gone: "raw ` set (pl_cleared (plans ! n)) = {k \<in> raw ` set ids. map_of (ss_cache s1) k = None}"
    using p d(1) by (auto simp: ss_get_def)
  note fin = settled_slot_ok [OF x(1) pub(1) pub(5) view pub(6) gone]
  show "slot_ok E (ps_file ps') seed P s'" "slot_view E (ps_file ps') seed s' = slot_view E (ps_file ps1) seed s"
    using fin x(2) by simp_all
  show "stage_fits E (ps_file ps') (ss_hash s') (ss_dict s') (slot_dir seed s') []" using pub(3) d(1, 3) by simp
  show "ss_hash s' = ss_hash s" using pub(4) d(1) by simp
qed

lemma settled_other:
  assumes "placed_round E ps1 plans ps' plans1 dicts cd" "s \<in> set (ps_types ps1)" "slot_ok E (ps_file ps1) seed P s"
    "stage_fits E (ps_file ps1) (ss_hash s) (ss_dict s) (slot_dir seed s) []"
  shows "slot_ok E (ps_file ps') seed P s" "slot_view E (ps_file ps') seed s = slot_view E (ps_file ps1) seed s"
    "stage_fits E (ps_file ps') (ss_hash s) (ss_dict s) (slot_dir seed s) []"
proof -
  have st: "staged_ok E (ps_file ps1) (ss_hash s) (ss_dict s) (slot_dir seed s) []" "dict_len (ds_dict (ss_dict s)) \<le> DICT_CAP"
    using slot_okD(1) [OF assms(3)] by (simp_all add: slot_pages_ok_def)
  note t = pages_transfer [OF st(1) refl refl, of "ps_file ps'" "ss_dict s"] placed_read_other [OF assms(1, 2) st(1)]
  have x: "slot_pages_ok E (ps_file ps') seed s" "page_view E (ps_file ps') seed s = page_view E (ps_file ps1) seed s"
    using t st(2) by (simp_all add: slot_pages_ok_def page_view_def)
  show "slot_ok E (ps_file ps') seed P s" using assms(3) x by (simp add: slot_ok_def)
  show "slot_view E (ps_file ps') seed s = slot_view E (ps_file ps1) seed s"
    using x(2) by (auto simp: slot_view_def split: option.splits intro!: ext)
  show "stage_fits E (ps_file ps') (ss_hash s) (ss_dict s) (slot_dir seed s) []" using t assms(4) by simp
qed

lemma types_view_cong:
  assumes "map ss_hash types' = map ss_hash types" "\<forall>k<length types. slot_view E f' seed (types' ! k) = slot_view E f seed (types ! k)"
  shows "types_view E f' seed types' = types_view E f seed types"
  using slot_pos_hashes [OF assms(1)] assms(2) slot_pos_Some
  by (fastforce simp: types_view_def fun_eq_iff split: option.splits)

text \<open>What the addressing log needs of a plan: the slot with the dictionary the plan was made for, and a directory
  that extends the slot's.\<close>

definition slot_drafted :: "libs \<Rightarrow> seed \<Rightarrow> struct_storage \<Rightarrow> struct_storage \<Rightarrow> slot_plan \<Rightarrow> bool" where
  "slot_drafted E seed s s1 plan \<longleftrightarrow> (\<exists>d. s1 = s\<lparr>ss_dict := d\<rparr> \<and> ds_desc d = ds_desc (ss_dict s) \<and> dict_len (ds_dict d) \<le> DICT_CAP
     \<and> (pl_dict plan = None \<longrightarrow> d = ss_dict s) \<and> (\<forall>b. pl_dict plan = Some b \<longrightarrow> b = ds_image E d))
   \<and> dir_len (pl_dir plan) < 2 ^ 32 \<and> dir_seed (pl_dir plan) = dir_seed (slot_dir seed s)
   \<and> (\<exists>m. dir_slots (pl_dir plan) = dir_slots (slot_dir seed s) @ replicate m desc_EMPTY)"

lemma planned_drafted:
  assumes "slot_planned E f seed s ids s1 plan"
  shows "slot_drafted E seed s s1 plan"
proof -
  obtain d staged where d: "s1 = s\<lparr>ss_dict := d\<rparr>" "plan_ok E f seed s ids d plan staged"
    using assms by (auto simp: slot_planned_def)
  note p = d(2) [unfolded plan_ok_def]
  have "dir_len (pl_dir plan) < 2 ^ 32" "\<exists>m. dir_slots (pl_dir plan) = dir_slots (slot_dir seed s) @ replicate m desc_EMPTY"
    using p by (auto simp: staged_ok_def dir_ok_def)
  then show ?thesis using p d(1) unfolding slot_drafted_def by (intro conjI exI [of _ d]) simp_all
qed

lemma drafted_extends:
  assumes "slot_drafted E seed s s1 plan" "ps_types ps1 ! pl_idx plan = s1"
  shows "plan_extends ps1 plan"
proof -
  obtain d m where d: "s1 = s\<lparr>ss_dict := d\<rparr>" "dir_len (pl_dir plan) < 2 ^ 32"
    "dir_slots (pl_dir plan) = dir_slots (slot_dir seed s) @ replicate m desc_EMPTY"
    using assms(1) unfolding slot_drafted_def by blast
  note d(2)
  moreover have "\<exists>m. map desc_raw (dir_slots (pl_dir plan)) = (case slot_addr s1 of None \<Rightarrow> [] | Some a \<Rightarrow> a) @ replicate m 0"
  proof (cases "ss_dir s")
    case None
    then show ?thesis using d(1, 3) by (intro exI [of _ "Suc m"]) (simp add: slot_addr_def slot_dir_def desc_EMPTY_def)
  next
    case (Some dir)
    then show ?thesis using d(1, 3) by (intro exI [of _ m]) (simp add: slot_addr_def slot_dir_def desc_EMPTY_def)
  qed
  ultimately show ?thesis using assms(2) by (simp add: plan_extends_def)
qed

lemma logged_drafted:
  assumes "placed_round E ps1 plans ps' plans1 dicts cd" "plans_ok ps1 plans" "n < length plans"
    "slot_drafted E seed s (ps_types ps1 ! pl_idx (plans ! n)) (plans ! n)"
    "slot_logged E (ps_file ps1) seed s"
  shows "slot_logged E (ps_file ps') seed (ps_types ps' ! pl_idx (plans ! n))"
proof -
  note r = placed_roundD [OF assms(1)]
  let ?s1 = "ps_types ps1 ! pl_idx (plans ! n)" and ?s' = "ps_types ps' ! pl_idx (plans ! n)"
  have idx: "map pl_idx plans1 = map pl_idx plans" using r(2, 3) by (intro nth_equalityI) (auto simp: same_shape_def)
  have d: "distinct (map pl_idx plans1)" using assms(2) idx by (simp add: plans_ok_def)
  have sh: "pl_idx (plans1 ! n) = pl_idx (plans ! n)" "dir_seed (pl_dir (plans1 ! n)) = dir_seed (pl_dir (plans ! n))"
    using r(3) [OF assms(3)] by (simp_all add: same_shape_def)
  have s': "?s' = published (plans1 ! n) (repointed dicts n ?s1)"
    using slots_after_nth(1) [OF d plans_okD(1) [OF assms(2, 3)], of n] r(2, 4) assms(3) sh(1) by simp
  obtain d where p: "?s1 = s\<lparr>ss_dict := d\<rparr>" "dict_len (ds_dict d) \<le> DICT_CAP" "pl_dict (plans ! n) = None \<longrightarrow> d = ss_dict s"
    "\<forall>b. pl_dict (plans ! n) = Some b \<longrightarrow> b = ds_image E d"
    using assms(4) unfolding slot_drafted_def by (elim exE conjE) (rule that)
  have seed: "dir_seed (pl_dir (plans ! n)) = dir_seed (slot_dir seed s)" using assms(4) unfolding slot_drafted_def by blast
  have cap: "length (dict_buf (ds_dict d)) \<le> DICT_CAP" using p(2) unfolding dict_len_def .
  have fold: "ss_dict (fold clear_removed xs s) = ss_dict s" for xs s by (induction xs arbitrary: s) (simp_all add: clear_removed_def)
  have dict: "dict_ok E (ps_file ps') ?s'"
  proof (cases "pl_dict (plans ! n)")
    case None
    have m: "map_of dicts n = None" by (rule r(9) [OF assms(3) None])
    have e1: "ss_dict ?s1 = ss_dict s" unfolding p(1) p(3) [rule_format, OF None] by simp
    have e: "ss_dict ?s' = ss_dict s" unfolding s' using e1 m by (simp add: published_def fold repointed_def)
    have "?s1 \<in> set (ps_types ps1)" using plans_okD(1) [OF assms(2, 3)] by simp
    note live = live_dict [OF this, unfolded e1]
    have "dict_ok E (ps_file ps1) s" using assms(5) by (simp add: slot_logged_def)
    then show ?thesis by (rule dict_ok_kept [OF _ e]) (rule r(6) [OF live])
  next
    case (Some img)
    then obtain desc pad where k: "map_of dicts n = Some desc" "is_allocated desc" "read_run (ps_file ps') (desc_run desc) = Ok (img @ pad)"
      using r(10) [OF assms(3)] by (auto simp: stored_at_def)
    have "ss_dict ?s' = d\<lparr>ds_desc := desc\<rparr>" using k(1) p(1) by (simp add: s' published_def fold repointed_def)
    then show ?thesis using k p(4) [rule_format, OF Some] dict_roundtrip [OF cap] by (simp add: dict_ok_def ds_image_def)
  qed
  have "slot_dir seed ?s' = pl_dir (plans1 ! n)" by (simp add: s' published_def slot_dir_def)
  then show ?thesis using dict sh(2) seed assms(5) by (simp add: slot_logged_def)
qed

lemma log_drafted:
  assumes "placed_round E (ps\<lparr>ps_types := types1\<rparr>) plans ps' plans1 dicts cd" "plans_ok (ps\<lparr>ps_types := types1\<rparr>) plans"
    "\<And>n. n < length plans \<Longrightarrow> slot_drafted E (ps_seed ps) (ps_types ps ! pl_idx (plans ! n))
      (ps_types (ps\<lparr>ps_types := types1\<rparr>) ! pl_idx (plans ! n)) (plans ! n)"
    "\<And>n. n < length plans \<Longrightarrow> pl_idx (plans ! n) < length (ps_types ps)"
    "length types1 = length (ps_types ps)" "\<And>k. k \<notin> X \<Longrightarrow> types1 ! k = ps_types ps ! k" "pl_idx ` set plans1 = X"
    "distinct (map ss_hash (ps_types ps))" "\<forall>s\<in>set (ps_types ps). dir_len (slot_dir (ps_seed ps) s) < 2 ^ 32" "log_ok E ps"
  shows "log_ok E ps'"
proof -
  let ?ps1 = "ps\<lparr>ps_types := types1\<rparr>" and ?ts = "ps_types ps" and ?ts' = "ps_types ps'"
  note r = placed_roundD [OF assms(1)]
  have idx: "map pl_idx plans1 = map pl_idx plans" using r(2, 3) by (intro nth_equalityI) (auto simp: same_shape_def)
  have d1: "distinct (map pl_idx plans1)" using assms(2) idx by (simp add: plans_ok_def)
  have X: "X = pl_idx ` set plans" using assms(7) arg_cong [OF idx, of set] by simp
  have same: "ss_hash (types1 ! k) = ss_hash (?ts ! k) \<and> ss_dir (types1 ! k) = ss_dir (?ts ! k)
      \<and> ds_desc (ss_dict (types1 ! k)) = ds_desc (ss_dict (?ts ! k))" if "k < length ?ts" for k
  proof (cases "k \<in> X")
    case True
    then obtain n where n: "n < length plans" "pl_idx (plans ! n) = k" unfolding X by (auto simp: in_set_conv_nth image_iff)
    from assms(3) [OF n(1)] n(2) show ?thesis by (auto simp: slot_drafted_def)
  qed (use assms(6) in simp)
  have maps: "map ss_hash types1 = map ss_hash ?ts" "map ss_dir types1 = map ss_dir ?ts"
    "map (\<lambda>s. ds_desc (ss_dict s)) types1 = map (\<lambda>s. ds_desc (ss_dict s)) ?ts"
    using same assms(5) by (auto intro: nth_equalityI)
  have lg: "addr_ok E (ps_file ps) (ps_meta ps) ?ts" "ps_seed ps = bf_seed (ps_file ps)"
    "k < length ?ts \<Longrightarrow> slot_logged E (ps_file ps) (ps_seed ps) (?ts ! k)" for k using log_okD [OF assms(10)] by simp_all
  have addr: "addr_ok E (ps_file ps') (ps_meta ps') ?ts'"
  proof (rule addr_round [OF assms(1, 2)])
    show "\<forall>w\<in>set plans. plan_extends ?ps1 w"
      unfolding all_set_conv_all_nth using drafted_extends [OF assms(3)] by blast
    show "addr_ok E (ps_file ?ps1) (ps_meta ?ps1) (ps_types ?ps1)" using addr_cong [OF maps lg(1)] by simp
    show "distinct (map ss_hash (ps_types ?ps1))" using assms(8) maps(1) by simp
    show "\<forall>s\<in>set (ps_types ?ps1). \<forall>dir. ss_dir s = Some dir \<longrightarrow> dir_len dir < 2 ^ 32"
      unfolding all_set_conv_all_nth
    proof (intro allI impI)
      fix k dir assume k: "k < length (ps_types ?ps1)" "ss_dir (ps_types ?ps1 ! k) = Some dir"
      then have i: "k < length ?ts" and "slot_dir (ps_seed ps) (?ts ! k) = dir" using same [of k] assms(5) by (simp_all add: slot_dir_def)
      with assms(9) [rule_format, OF nth_mem [OF i]] show "dir_len dir < 2 ^ 32" by simp
    qed
  qed
  have len: "length ?ts' = length ?ts" using r(4) assms(5) by (simp add: slots_after_def)
  have seed: "ps_seed ps' = ps_seed ps" using arg_cong [OF r(1), of ps_seed] by simp
  have each: "slot_logged E (ps_file ps') (ps_seed ps) (?ts' ! k)" if k: "k < length ?ts" for k
  proof (cases "k \<in> X")
    case True
    then obtain n where n: "n < length plans" "pl_idx (plans ! n) = k" unfolding X by (auto simp: in_set_conv_nth image_iff)
    have "slot_logged E (ps_file ?ps1) (ps_seed ps) (?ts ! pl_idx (plans ! n))" using lg(3) k n(2) by simp
    from logged_drafted [OF assms(1, 2) n(1) assms(3) [OF n(1)] this] n(2) show ?thesis by simp
  next
    case False
    have s: "?ts' ! k = ?ts ! k" using False assms(5-7) k slots_after_nth(2) [OF d1, of k types1] r(4) by simp
    have "?ts ! k \<in> set (ps_types ?ps1)" using assms(6) [OF False] k assms(5) nth_mem [of k types1] by simp
    from dict_ok_kept [of E "ps_file ps" "?ts ! k" "?ts ! k" "ps_file ps'"] r(6) [OF live_dict [OF this]] lg(3) [OF k]
    show ?thesis unfolding s by (simp add: slot_logged_def)
  qed
  have "bf_seed (ps_file ps') = bf_seed (ps_file ps)" using r(14) by (simp add: spares_def)
  then show ?thesis using addr each lg(2) unfolding log_ok_def all_set_conv_all_nth len seed by simp
qed

lemma settle_ok:
  assumes "zstd_ok E" "queue_ok (length (ps_types ps)) rnd" "rnd \<noteq> []"
    "types_ok E (ps_file ps) (ps_seed ps) (\<lambda>n. P n \<union> pend_ids rnd n) (ps_types ps)" "space_ok ps" "types_fit E ps" "settle_fits E rnd ps"
  obtains ps' where "settle E rnd ps = (ps', Ok ())" "types_ok E (ps_file ps') (ps_seed ps) P (ps_types ps')"
    "types_view E (ps_file ps') (ps_seed ps) (ps_types ps') = types_view E (ps_file ps) (ps_seed ps) (ps_types ps)"
    "space_ok ps'" "types_fit E ps'" "map ss_hash (ps_types ps') = map ss_hash (ps_types ps)"
    "ps' = ps\<lparr>ps_file := ps_file ps', ps_alloc := ps_alloc ps', ps_meta := ps_meta ps', ps_types := ps_types ps'\<rparr>"
    "spares ps ps'" "log_ok E ps \<longrightarrow> log_ok E ps'"
proof -
  have slot: "slot_ok E (ps_file ps) (ps_seed ps) (P k \<union> pend_ids rnd k) (ps_types ps ! k)" if "k < length (ps_types ps)" for k
    using assms(4) that by (simp add: types_ok_def)
  have sp: "\<forall>(idx, ids)\<in>set rnd. slot_pages_ok E (ps_file ps) (ps_seed ps) (ps_types ps ! idx)"
  proof (clarify)
    fix idx ids assume "(idx, ids) \<in> set rnd"
    then have "idx < length (ps_types ps)" using assms(2) by (auto simp: queue_ok_def)
    then show "slot_pages_ok E (ps_file ps) (ps_seed ps) (ps_types ps ! idx)" by (rule slot_okD(1) [OF slot])
  qed
  obtain types1 plans where t: "plan_all E rnd ps = (ps\<lparr>ps_types := types1\<rparr>, Ok plans)" "length plans = length rnd"
    "length types1 = length (ps_types ps)" "\<forall>k. k \<notin> fst ` set rnd \<longrightarrow> types1 ! k = ps_types ps ! k"
    "\<forall>n<length rnd. pl_idx (plans ! n) = fst (rnd ! n)
       \<and> slot_planned E (ps_file ps) (ps_seed ps) (ps_types ps ! fst (rnd ! n)) (snd (rnd ! n)) (types1 ! fst (rnd ! n)) (plans ! n)"
    "plans_ok (ps\<lparr>ps_types := types1\<rparr>) plans" "space_ok (ps\<lparr>ps_types := types1\<rparr>)"
    "round_fits E (ps\<lparr>ps_types := types1\<rparr>) plans" "targets_of plans \<noteq> []"
    by (rule planned_round [OF assms(1, 2, 6) sp assms(7, 5, 3)])
  let ?ps1 = "ps\<lparr>ps_types := types1\<rparr>"
  obtain ps' plans1 dicts cd where p: "place_in E plans BestFit ?ps1 = (ps', Ok ())" "placed_round E ?ps1 plans ps' plans1 dicts cd"
    by (rule place_in_ok [OF t(7, 6, 8, 9)])
  note r = placed_roundD [OF p(2)]
  have idx: "map pl_idx plans1 = map pl_idx plans" using r(2, 3) by (intro nth_equalityI) (auto simp: same_shape_def)
  have pd: "distinct (map pl_idx plans1)" using t(6) idx by (simp add: plans_ok_def)
  have pr: "pl_idx ` set plans1 = fst ` set rnd"
  proof -
    have "map pl_idx plans1 = map fst rnd" unfolding idx using t(2, 5) by (intro nth_equalityI) auto
    from arg_cong [OF this, of set] show ?thesis by simp
  qed
  have fits: "stage_fits E (ps_file ps) (ss_hash s) (ss_dict s) (slot_dir (ps_seed ps) s) []" if "s \<in> set (ps_types ps)" for s
    using assms(6) that by (simp add: types_fit_def)
  have len: "length (ps_types ps') = length (ps_types ps)" using r(4) t(3) by (simp add: slots_after_def)
  have each: "slot_ok E (ps_file ps') (ps_seed ps) (P k) (ps_types ps' ! k)
      \<and> slot_view E (ps_file ps') (ps_seed ps) (ps_types ps' ! k) = slot_view E (ps_file ps) (ps_seed ps) (ps_types ps ! k)
      \<and> stage_fits E (ps_file ps') (ss_hash (ps_types ps' ! k)) (ss_dict (ps_types ps' ! k)) (slot_dir (ps_seed ps) (ps_types ps' ! k)) []
      \<and> ss_hash (ps_types ps' ! k) = ss_hash (ps_types ps ! k)" if k: "k < length (ps_types ps)" for k
  proof (cases "k \<in> fst ` set rnd")
    case True
    then obtain n where n: "n < length rnd" "fst (rnd ! n) = k" by (auto simp: in_set_conv_nth)
    have "slot_ok E (ps_file ps) (ps_seed ps) (P k \<union> raw ` set (snd (rnd ! n))) (ps_types ps ! k)"
      using slot [OF k] pend_ids_nth [OF assms(2) n(1)] n(2) by simp
    moreover have "ids_fit E (ps_file ps) (ps_seed ps) (ps_types ps ! k) (snd (rnd ! n))"
      using settle_fitsD [OF assms(7) n(1)] n(2) by simp
    moreover have "slot_planned E (ps_file ?ps1) (ps_seed ps) (ps_types ps ! k) (snd (rnd ! n)) (ps_types ?ps1 ! pl_idx (plans ! n)) (plans ! n)"
      "pl_idx (plans ! n) = k" using t(5) [rule_format, OF n(1)] n(2) by simp_all
    moreover have "stage_fits E (ps_file ps) (ss_hash (ps_types ps ! k)) (ss_dict (ps_types ps ! k)) (slot_dir (ps_seed ps) (ps_types ps ! k)) []"
      by (rule fits) (simp add: k)
    moreover have "n < length plans" using n t(2) by simp
    ultimately show ?thesis
      using settled_planned [OF p(2) t(6) _ refl assms(1), of n "ps_seed ps" "ps_types ps ! k" "snd (rnd ! n)" "P k" "ps_types ps' ! k"]
      by simp
  next
    case False
    have "types1 ! k = ps_types ps ! k" "ps_types ps' ! k = types1 ! k" "pend_ids rnd k = {}"
      using False t(3, 4) k slots_after_nth(2) [OF pd, of k types1] pr r(4) pend_ids_none by simp_all
    moreover have "ps_types ps ! k \<in> set (ps_types ?ps1)" using calculation(1) k t(3) nth_mem [of k types1] by simp
    moreover have "stage_fits E (ps_file ps) (ss_hash (ps_types ps ! k)) (ss_dict (ps_types ps ! k)) (slot_dir (ps_seed ps) (ps_types ps ! k)) []"
      by (rule fits) (simp add: k)
    ultimately show ?thesis
      using settled_other [OF p(2), of "ps_types ps ! k" "ps_seed ps" "P k"] slot [OF k] by simp
  qed
  have hash: "map ss_hash (ps_types ps') = map ss_hash (ps_types ps)" using each len by (intro nth_equalityI) auto
  have seed: "ps_seed ps' = ps_seed ps" using arg_cong [OF r(1), of ps_seed] by simp
  have dist: "distinct (map ss_hash (ps_types ps))" using assms(4) by (simp add: types_ok_def)
  have planned: "slot_planned E (ps_file ?ps1) (ps_seed ps) (ps_types ps ! pl_idx (plans ! n)) (snd (rnd ! n))
      (ps_types ?ps1 ! pl_idx (plans ! n)) (plans ! n)" "pl_idx (plans ! n) < length (ps_types ps)" if "n < length plans" for n
    using t(2) t(5) [rule_format, of n] that plans_okD(1) [OF t(6) that] t(3) by simp_all
  have dirs: "\<forall>s\<in>set (ps_types ps). dir_len (slot_dir (ps_seed ps) s) < 2 ^ 32"
    unfolding all_set_conv_all_nth using slot_okD(1) [OF slot] by (simp add: slot_pages_ok_def staged_ok_def dir_ok_def)
  have log: "log_ok E ps'" if "log_ok E ps"
    by (rule log_drafted [OF p(2) t(6) planned_drafted [OF planned(1)] planned(2) t(3) _ pr dist dirs that]) (use t(4) in blast)+
  show ?thesis
  proof (rule that [of ps'])
    show "settle E rnd ps = (ps', Ok ())" using t(1) p(1) by (simp add: settle_def)
    show "types_ok E (ps_file ps') (ps_seed ps) P (ps_types ps')" using each len hash assms(4) by (simp add: types_ok_def)
    show "types_view E (ps_file ps') (ps_seed ps) (ps_types ps') = types_view E (ps_file ps) (ps_seed ps) (ps_types ps)"
      by (rule types_view_cong [OF hash]) (use each in simp)
    show "types_fit E ps'" unfolding types_fit_def all_set_conv_all_nth len seed using each by blast
    show "ps' = ps\<lparr>ps_file := ps_file ps', ps_alloc := ps_alloc ps', ps_meta := ps_meta ps', ps_types := ps_types ps'\<rparr>"
      using r(1) by simp
    show "spares ps ps'" using r(14) by (simp add: spares_def)
  qed (use r(5) hash log in simp_all)
qed

end
