(* ===== verification/Engine_Steps.thy ===== *)
theory Engine_Steps
  imports Settle_Laws
begin

text \<open>
  The maintenance steps of the page store and what they keep: rounds taken off the settle queue
  (\<open>settle.rs\<close>), the drain loop, eviction, and the engine invariant that every operation preserves.
\<close>

section \<open>Taking a round off the queue\<close>

definition queued :: "touched \<Rightarrow> nat" where
  "queued q = sum_list (map (length \<circ> snd) q)"

lemma queued_simps [simp]:
  "queued [] = 0" "queued ((j, ids) # q) = length ids + queued q" "queued (q @ r) = queued q + queued r" "queued (rev q) = queued q"
  by (simp_all add: queued_def rev_map [symmetric] del: rev_map)

lemma queue_ok_rev [simp]: "queue_ok n (rev q) = queue_ok n q"
  by (simp add: queue_ok_def rev_map [symmetric])

lemma queued_pos: "queue_ok n q \<Longrightarrow> q \<noteq> [] \<Longrightarrow> 0 < queued q"
  by (cases q) auto

lemma take_back_facts:
  assumes "take_back room q = (rnd, left)"
  shows "pend_ids rnd k \<union> pend_ids left k = pend_ids q k" "queued rnd + queued left = queued q" "queued rnd \<le> room"
    "fst ` set rnd \<subseteq> fst ` set q" "fst ` set left \<subseteq> fst ` set q"
    "queue_ok n q \<Longrightarrow> queue_ok n rnd \<and> queue_ok n left" "0 < room \<Longrightarrow> q \<noteq> [] \<Longrightarrow> rnd \<noteq> []"
proof (atomize (full), use assms in \<open>induction room q arbitrary: rnd left rule: take_back.induct\<close>)
  case (2 room idx ids rest)
  consider "room = 0" | "0 < room" "length ids \<le> room" | "0 < room" "room < length ids" by linarith
  then show ?case
  proof cases
    case 2
    obtain rnd1 left1 where t: "take_back (room - length ids) rest = (rnd1, left1)" by fastforce
    with 2 "2.prems" have eq: "rnd = (idx, ids) # rnd1" "left = left1" by simp_all
    have "room \<noteq> 0" using 2 by simp
    from "2.IH" [OF this 2(2) t] show ?thesis unfolding eq using 2(2) by auto
  next
    case 3
    with "2.prems" have eq: "rnd = [(idx, drop (length ids - room) ids)]" "left = (idx, take (length ids - room) ids) # rest"
      by (simp_all add: Let_def)
    have "set (drop m ids) \<union> set (take m ids) = set ids" for m
      by (metis append_take_drop_id set_append sup_commute)
    then have "raw ` set (drop m ids) \<union> (raw ` set (take m ids) \<union> X) = raw ` set ids \<union> X" for m X
      by (metis image_Un sup_assoc)
    with 3 show ?thesis unfolding eq by (simp add: not_le)
  qed (use "2.prems" in auto)
qed simp_all

lemma take_round_facts:
  assumes "take_round budget q = (rnd, left)"
  shows "pend_ids rnd k \<union> pend_ids left k = pend_ids q k" "queued rnd + queued left = queued q"
    "queue_ok n q \<Longrightarrow> queue_ok n rnd" "queue_ok n q \<Longrightarrow> queue_ok n left" "0 < budget \<Longrightarrow> q \<noteq> [] \<Longrightarrow> rnd \<noteq> []"
    "budget \<noteq> USIZE_MAX \<Longrightarrow> queued rnd \<le> budget" "q = [] \<Longrightarrow> rnd = [] \<and> left = []"
proof (atomize (full), goal_cases)
  case 1
  show ?case
  proof (cases "budget = USIZE_MAX")
    case False
    obtain left1 where t: "take_back budget (rev q) = (rnd, left1)" "left = rev left1"
      using assms False by (auto simp: take_round_def split: prod.splits)
    show ?thesis using take_back_facts [OF t(1)] t by auto
  qed (use assms in \<open>auto simp: take_round_def\<close>)
qed

section \<open>The engine invariant\<close>

lemma log_ok_updates [simp]:
  "log_ok E (ps\<lparr>ps_pending := q\<rparr>) = log_ok E ps" "log_ok E (ps\<lparr>ps_journal := j\<rparr>) = log_ok E ps"
  "log_ok E (ps\<lparr>ps_fs := d\<rparr>) = log_ok E ps" "log_ok E (ps\<lparr>ps_retiring := r\<rparr>) = log_ok E ps" "log_ok E (ps\<lparr>ps_alloc := a\<rparr>) = log_ok E ps"
  by (simp_all add: log_ok_def)

lemma space_ok_updates [simp]:
  "space_ok (ps\<lparr>ps_pending := q\<rparr>) = space_ok ps" "space_ok (ps\<lparr>ps_journal := j\<rparr>) = space_ok ps"
  "space_ok (ps\<lparr>ps_fs := d\<rparr>) = space_ok ps" "space_ok (ps\<lparr>ps_retiring := r\<rparr>) = space_ok ps"
  by (simp_all add: space_ok_def live_m_def)

lemma types_fit_updates [simp]:
  "types_fit E (ps\<lparr>ps_pending := q\<rparr>) = types_fit E ps" "types_fit E (ps\<lparr>ps_journal := j\<rparr>) = types_fit E ps"
  "types_fit E (ps\<lparr>ps_fs := d\<rparr>) = types_fit E ps" "types_fit E (ps\<lparr>ps_retiring := r\<rparr>) = types_fit E ps" "types_fit E (ps\<lparr>ps_alloc := a\<rparr>) = types_fit E ps"
  by (simp_all add: types_fit_def)

definition engine_inv :: "libs \<Rightarrow> page_store \<Rightarrow> bool" where
  "engine_inv E ps \<longleftrightarrow> engine_ok E ps \<and> space_ok ps \<and> types_fit E ps \<and> log_ok E ps"

text \<open>The round a step takes stays within the format's limits.\<close>

definition step_fits :: "libs \<Rightarrow> nat \<Rightarrow> page_store \<Rightarrow> bool" where
  "step_fits E budget ps \<longleftrightarrow> (case take_round budget (ps_pending ps) of (rnd, left) \<Rightarrow>
     rnd = [] \<or> settle_fits E rnd (ps\<lparr>ps_pending := left\<rparr>))"

lemma settle_step_ok:
  assumes "zstd_ok E" "engine_inv E ps" "step_fits E budget ps" "take_round budget (ps_pending ps) = (rnd, left)"
  obtains ps' where "settle_step E budget ps = (ps', Ok (if rnd = [] then progress.Done else Settled))" "engine_inv E ps'"
    "engine_view E ps' = engine_view E ps" "ps_pending ps' = left" "map ss_hash (ps_types ps') = map ss_hash (ps_types ps)"
    "ps' = ps\<lparr>ps_file := ps_file ps', ps_alloc := ps_alloc ps', ps_meta := ps_meta ps', ps_types := ps_types ps', ps_pending := left\<rparr>"
    "spares ps ps'"
proof (cases "rnd = []")
  case True
  have "pend_ids left = pend_ids (ps_pending ps)" using take_round_facts(1) [OF assms(4)] True by auto
  moreover have "queue_ok (length (ps_types ps)) left"
    using take_round_facts(4) [OF assms(4)] assms(2) by (simp add: engine_inv_def engine_ok_def)
  ultimately have "engine_inv E (ps\<lparr>ps_pending := left\<rparr>)"
    using assms(2) by (simp add: engine_inv_def engine_ok_def)
  with True assms(4) show thesis by (intro that [of "ps\<lparr>ps_pending := left\<rparr>"]) (simp_all add: settle_step_def spares_def)
next
  case False
  let ?ps1 = "ps\<lparr>ps_pending := left\<rparr>"
  have inv: "engine_ok E ps" "space_ok ps" "types_fit E ps" "log_ok E ?ps1" using assms(2) by (simp_all add: engine_inv_def)
  have q: "queue_ok (length (ps_types ps)) (ps_pending ps)" using inv(1) by (simp add: engine_ok_def)
  have pend: "pend_ids (ps_pending ps) = (\<lambda>n. pend_ids left n \<union> pend_ids rnd n)"
    using take_round_facts(1) [OF assms(4)] by (auto simp: fun_eq_iff)
  have a: "zstd_ok E" "queue_ok (length (ps_types ?ps1)) rnd" "rnd \<noteq> []"
    "types_ok E (ps_file ?ps1) (ps_seed ?ps1) (\<lambda>n. pend_ids left n \<union> pend_ids rnd n) (ps_types ?ps1)"
    "space_ok ?ps1" "types_fit E ?ps1" "settle_fits E rnd ?ps1"
    using assms(1, 3, 4) False inv(2, 3) take_round_facts(3) [OF assms(4) q] inv(1) [unfolded engine_ok_def pend]
    by (simp_all add: step_fits_def)
  obtain ps' where s: "settle E rnd ?ps1 = (ps', Ok ())" "types_ok E (ps_file ps') (ps_seed ?ps1) (pend_ids left) (ps_types ps')"
    "types_view E (ps_file ps') (ps_seed ?ps1) (ps_types ps') = types_view E (ps_file ?ps1) (ps_seed ?ps1) (ps_types ?ps1)"
    "space_ok ps'" "types_fit E ps'" "map ss_hash (ps_types ps') = map ss_hash (ps_types ?ps1)"
    "ps' = ?ps1\<lparr>ps_file := ps_file ps', ps_alloc := ps_alloc ps', ps_meta := ps_meta ps', ps_types := ps_types ps'\<rparr>"
    "spares ?ps1 ps'" "log_ok E ?ps1 \<longrightarrow> log_ok E ps'"
    by (rule settle_ok [OF a])
  have k: "ps_pending ps' = left" "ps_seed ps' = ps_seed ps"
    using arg_cong [OF s(7), of ps_pending] arg_cong [OF s(7), of ps_seed] by simp_all
  have len: "length (ps_types ps') = length (ps_types ps)" using arg_cong [OF s(6), of length] by simp
  show thesis
  proof (rule that [of ps'])
    show "settle_step E budget ps = (ps', Ok (if rnd = [] then progress.Done else Settled))"
      using assms(4) s(1) False by (simp add: settle_step_def)
    show "engine_inv E ps'" using s(2, 4, 5, 9) inv(4) k len take_round_facts(4) [OF assms(4) q] by (simp add: engine_inv_def engine_ok_def)
    show "spares ps ps'" using s(8) by (simp add: spares_def)
    show "engine_view E ps' = engine_view E ps" using s(3) k by simp
    show "ps' = ps\<lparr>ps_file := ps_file ps', ps_alloc := ps_alloc ps', ps_meta := ps_meta ps', ps_types := ps_types ps', ps_pending := left\<rparr>"
      by (subst s(7)) simp
  qed (use s(6) k in simp_all)
qed

section \<open>The drain loop\<close>

text \<open>The loop ends whatever the rounds do: an unbounded round empties the queue or reports an error.\<close>

lemma plan_all_pending: "ps_pending (fst (plan_all E rnd ps)) = ps_pending ps"
  by (induction rnd arbitrary: ps) (auto simp: Let_def case_prod_unfold split: option.split sum.split)

lemma place_in_pending: "ps_pending (fst (place_in E plans p ps)) = ps_pending ps"
  unfolding place_in_def Let_def by (simp split: prod.split option.split sum.split)

lemma settle_pending: "ps_pending (fst (settle E rnd ps)) = ps_pending ps"
  using plan_all_pending [of E rnd ps] place_in_pending
  by (auto simp: settle_def split: prod.split option.split sum.split)

lemma take_all: "take_round USIZE_MAX q = (q, [])"
  by (simp add: take_round_def)

lemma drain_empty: "ps_pending ps = [] \<Longrightarrow> drain E ps = Some (ps, Ok ())"
  by (subst drain.simps) (simp add: settle_step_def take_all)

lemma drain_returns: "\<exists>r. drain E ps = Some r"
proof -
  obtain ps1 r where s: "settle_step E USIZE_MAX ps = (ps1, r)" by fastforce
  have "ps_pending ps1 = []" if "r = Ok Settled"
    using s that settle_pending [of E "ps_pending ps" "ps\<lparr>ps_pending := []\<rparr>"]
    by (auto simp: settle_step_def take_all Let_def split: prod.splits option.splits sum.splits if_splits)
  then show ?thesis
    by (subst drain.simps) (auto simp: s drain_empty split: option.splits sum.splits)
qed

lemma drain_ok:
  assumes "zstd_ok E" "engine_inv E ps" "step_fits E USIZE_MAX ps"
  obtains ps' where "drain E ps = Some (ps', Ok ())" "engine_inv E ps'" "engine_view E ps' = engine_view E ps" "ps_pending ps' = []"
    "map ss_hash (ps_types ps') = map ss_hash (ps_types ps)"
    "ps' = ps\<lparr>ps_file := ps_file ps', ps_alloc := ps_alloc ps', ps_meta := ps_meta ps', ps_types := ps_types ps', ps_pending := []\<rparr>"
    "spares ps ps'"
proof -
  obtain ps' where s: "settle_step E USIZE_MAX ps = (ps', Ok (if ps_pending ps = [] then progress.Done else Settled))"
    "engine_inv E ps'" "engine_view E ps' = engine_view E ps" "ps_pending ps' = []" "map ss_hash (ps_types ps') = map ss_hash (ps_types ps)"
    "ps' = ps\<lparr>ps_file := ps_file ps', ps_alloc := ps_alloc ps', ps_meta := ps_meta ps', ps_types := ps_types ps', ps_pending := []\<rparr>" "spares ps ps'"
    by (rule settle_step_ok [OF assms take_all])
  have "drain E ps = Some (ps', Ok ())" by (subst drain.simps) (simp add: s(1) drain_empty [OF s(4)])
  with s(2-) show thesis by (intro that) assumption+
qed

section \<open>Eviction\<close>

abbreviation bytes_of :: "records \<Rightarrow> nat" where
  "bytes_of cache \<equiv> sum_list (map (\<lambda>(k, b). length b) cache)"

abbreviation cached :: "struct_storage list \<Rightarrow> nat" where
  "cached types \<equiv> sum_list (map cached_bytes types)"

text \<open>Eviction only trims the front of a cache.\<close>

definition trimmed :: "struct_storage \<Rightarrow> struct_storage \<Rightarrow> bool" where
  "trimmed s s' \<longleftrightarrow> (\<exists>j. s' = s\<lparr>ss_cache := drop j (ss_cache s)\<rparr>)"

lemma trimmed_refl [simp]: "trimmed s s"
  unfolding trimmed_def by (rule exI [of _ 0]) simp

lemma evict_loop_facts:
  assumes "evict_loop target freed cache = (freed', cache')"
  shows "\<exists>j. cache' = drop j cache" "freed' + bytes_of cache' = freed + bytes_of cache" "freed' < target \<Longrightarrow> cache' = []"
proof (atomize (full), use assms in \<open>induction target freed cache rule: evict_loop.induct\<close>)
  case (2 target freed k b cache)
  then show ?case
  proof (cases "freed < target")
    case True
    with 2 have h: "(\<exists>j. cache' = drop j cache) \<and> freed' + bytes_of cache' = freed + length b + bytes_of cache \<and> (freed' < target \<longrightarrow> cache' = [])"
      by simp
    then obtain j where "cache' = drop (Suc j) ((k, b) # cache)" by auto
    with h show ?thesis by (intro conjI exI [of _ "Suc j"]) simp_all
  next
    case False
    with 2 show ?thesis by (auto intro: exI [of _ 0])
  qed
qed simp

lemma evict_up_to_facts:
  assumes "evict_up_to target s = (freed, s')"
  shows "trimmed s s'" "freed + cached_bytes s' = cached_bytes s" "freed < target \<Longrightarrow> cached_bytes s' = 0"
  using assms evict_loop_facts [of target 0 "ss_cache s" freed "ss_cache s'"]
  by (auto simp: evict_up_to_def trimmed_def cached_bytes_def split: prod.splits)

lemma evict_types_under: "used \<le> budget \<Longrightarrow> evict_types budget used types = types"
  by (cases types) simp_all

lemma evict_types_facts:
  assumes "cached types \<le> used"
  shows "list_all2 trimmed types (evict_types budget used types)"
    "cached (evict_types budget used types) \<le> budget + (used - cached types)"
proof (atomize (full), use assms in \<open>induction budget used types rule: evict_types.induct\<close>)
  case (2 budget used s ss)
  show ?case
  proof (cases "used \<le> budget")
    case False
    obtain freed s1 where e: "evict_up_to (used - budget) s = (freed, s1)" by fastforce
    note f = evict_up_to_facts [OF e]
    have "cached ss \<le> used - freed" using "2.prems" f(2) by simp
    from "2.IH" [OF False e [symmetric] refl this] f "2.prems" False e show ?thesis
      by (cases "freed < used - budget") (auto simp: evict_types_under)
  qed (use "2.prems" in \<open>simp_all add: list_all2_refl\<close>)
qed simp

lemma trimmed_map_of: "bt_ok cache \<Longrightarrow> map_of (drop j cache) k = Some b \<Longrightarrow> map_of cache k = Some b"
  by (simp add: bt_get sorted_wrt_drop drop_map [symmetric]) (meson in_set_dropD)

lemma trimmed_ok:
  assumes "trimmed s s'" "slot_ok E f seed {} s"
  shows "slot_ok E f seed {} s'" "slot_view E f seed s' = slot_view E f seed s" "ss_hash s' = ss_hash s" "slot_m s' = slot_m s"
    "ss_dir s' = ss_dir s" "ss_dict s' = ss_dict s"
proof -
  obtain j where j: "s' = s\<lparr>ss_cache := drop j (ss_cache s)\<rparr>" using assms(1) by (auto simp: trimmed_def)
  show same: "ss_hash s' = ss_hash s" "ss_dir s' = ss_dir s" "ss_dict s' = ss_dict s" unfolding j by simp_all
  then show "slot_m s' = slot_m s" by (simp add: slot_m_def)
  note p = pages_cong [OF same, of E f seed]
  note o = slot_okD [OF assms(2)]
  have dead: "ss_dead s = []" "ss_dead s' = []" using o(5) unfolding j by simp_all
  have sub: "map_of (ss_cache s') k = Some b \<Longrightarrow> map_of (ss_cache s) k = Some b" for k b
    unfolding j using trimmed_map_of [OF o(2)] by simp
  show ok: "slot_ok E f seed {} s'"
    unfolding slot_ok_def p dead using o(1, 2, 6) sub unfolding j by (simp add: sorted_wrt_drop drop_map [symmetric])
  show "slot_view E f seed s' = slot_view E f seed s"
    using slot_view_unqueued [OF ok] slot_view_unqueued [OF assms(2)] unfolding p by (simp add: fun_eq_iff)
qed

lemma evict_settled_ok:
  assumes "engine_inv E ps"
  shows "engine_inv E (evict_settled budget ps)" "engine_view E (evict_settled budget ps) = engine_view E ps"
    "map ss_hash (ps_types (evict_settled budget ps)) = map ss_hash (ps_types ps)"
    "ps_pending ps = [] \<Longrightarrow> cached (ps_types (evict_settled budget ps)) \<le> budget"
proof (atomize (full), goal_cases)
  case 1
  show ?case
  proof (cases "ps_pending ps = []")
    case True
    define types where "types = evict_types budget (cached (ps_types ps)) (ps_types ps)"
    have e: "evict_settled budget ps = ps\<lparr>ps_types := types\<rparr>" using True by (simp add: evict_settled_def types_def)
    have all: "list_all2 trimmed (ps_types ps) types" "cached types \<le> budget"
      using evict_types_facts [of "ps_types ps" "cached (ps_types ps)" budget] unfolding types_def by simp_all
    have ok: "distinct (map ss_hash (ps_types ps))" "n < length (ps_types ps) \<Longrightarrow> slot_ok E (ps_file ps) (ps_seed ps) {} (ps_types ps ! n)" for n
      using assms True by (simp_all add: engine_inv_def engine_ok_def types_ok_def)
    have len: "length types = length (ps_types ps)" using all(1) by (simp add: list_all2_lengthD)
    note each = trimmed_ok [OF list_all2_nthD [OF all(1)] ok(2)]
    have hash: "map ss_hash types = map ss_hash (ps_types ps)" and m: "map slot_m types = map slot_m (ps_types ps)"
      using len each by (auto intro: nth_equalityI)
    have "engine_ok E (ps\<lparr>ps_types := types\<rparr>)" using each(1) ok hash len True by (simp add: engine_ok_def types_ok_def)
    moreover have "space_ok (ps\<lparr>ps_types := types\<rparr>)" using assms m by (simp add: engine_inv_def space_ok_def live_m_def)
    moreover have "types_fit E (ps\<lparr>ps_types := types\<rparr>)"
      using assms len each(3, 5, 6) by (simp add: engine_inv_def types_fit_def all_set_conv_all_nth slot_dir_def)
    moreover have "log_ok E (ps\<lparr>ps_types := types\<rparr>)"
      by (rule log_cong [of _ ps]) (use hash len each(5, 6) assms in \<open>auto simp: engine_inv_def intro: nth_equalityI\<close>)
    moreover have "types_view E (ps_file ps) (ps_seed ps) types = engine_view E ps"
      by (rule types_view_cong [OF hash]) (use each(2) in simp)
    ultimately show ?thesis using hash all(2) by (simp add: e engine_inv_def)
  qed (use assms in \<open>simp add: evict_settled_def\<close>)
qed

section \<open>Settling terminates\<close>

definition settle_times :: "libs \<Rightarrow> nat \<Rightarrow> nat \<Rightarrow> page_store \<Rightarrow> page_store" where
  "settle_times E budget n ps = ((\<lambda>ps. fst (settle_step E budget ps)) ^^ n) ps"

lemma settle_times_simps [simp]:
  "settle_times E budget 0 ps = ps"
  "settle_times E budget (Suc n) ps = settle_times E budget n (fst (settle_step E budget ps))"
  by (simp_all add: settle_times_def funpow_Suc_right del: funpow.simps(2))

lemma settle_drains:
  assumes "zstd_ok E" "0 < budget" "engine_inv E ps" "\<forall>n. step_fits E budget (settle_times E budget n ps)"
  shows "\<exists>n\<le>queued (ps_pending ps). let ps' = settle_times E budget n ps in
    ps_pending ps' = [] \<and> engine_inv E ps' \<and> engine_view E ps' = engine_view E ps
    \<and> (\<forall>m<n. snd (settle_step E budget (settle_times E budget m ps)) = Ok Settled) \<and> settle_step E budget ps' = (ps', Ok progress.Done)"
  using assms(3, 4)
proof (induction "queued (ps_pending ps)" arbitrary: ps rule: less_induct)
  case less
  obtain rnd left where t: "take_round budget (ps_pending ps) = (rnd, left)" by fastforce
  note tf = take_round_facts [OF t]
  have fits: "step_fits E budget ps" using less.prems(2) [rule_format, of 0] by simp
  show ?case
  proof (cases "ps_pending ps = []")
    case True
    then have "settle_step E budget ps = (ps, Ok progress.Done)" using t tf(7) by (simp add: settle_step_def)
    with True less.prems(1) show ?thesis by (intro exI [of _ 0]) simp
  next
    case False
    obtain ps1 where s: "settle_step E budget ps = (ps1, Ok (if rnd = [] then progress.Done else Settled))" "engine_inv E ps1"
      "engine_view E ps1 = engine_view E ps" "ps_pending ps1 = left"
      by (rule settle_step_ok [OF assms(1) less.prems(1) fits t])
    have q: "queue_ok (length (ps_types ps)) (ps_pending ps)" using less.prems(1) by (simp add: engine_inv_def engine_ok_def)
    have rnd: "rnd \<noteq> []" using tf(5) assms(2) False by blast
    have "0 < queued rnd" using queued_pos [OF tf(3) [OF q] rnd] .
    then have less': "queued (ps_pending ps1) < queued (ps_pending ps)" using tf(2) s(4) by simp
    have "\<forall>n. step_fits E budget (settle_times E budget n ps1)"
    proof
      fix n show "step_fits E budget (settle_times E budget n ps1)" using less.prems(2) [rule_format, of "Suc n"] s(1) by simp
    qed
    from less.hyps [OF less' s(2) this] obtain n where n: "n \<le> queued (ps_pending ps1)" "let ps' = settle_times E budget n ps1 in
      ps_pending ps' = [] \<and> engine_inv E ps' \<and> engine_view E ps' = engine_view E ps1
      \<and> (\<forall>m<n. snd (settle_step E budget (settle_times E budget m ps1)) = Ok Settled) \<and> settle_step E budget ps' = (ps', Ok progress.Done)"
      by blast
    have "snd (settle_step E budget (settle_times E budget m ps)) = Ok Settled" if "m < Suc n" for m
      using that n(2) s(1) rnd by (cases m) (simp_all add: Let_def)
    then show ?thesis using n less' s(1, 3) by (intro exI [of _ "Suc n"]) (simp add: Let_def)
  qed
qed

end
