(* ===== verification/Relocation.thy ===== *)
theory Relocation
  imports Engine_Steps
begin

text \<open>
  Defragmentation (\<open>wavedb-storage/src/defrag.rs\<close>): a pass copies pages verbatim to the tail of the file.
  It succeeds, copies no more than its budget, keeps the engine's invariant, and no read changes.
\<close>

section \<open>A page without its padding\<close>

lemma page_trimmed:
  assumes "4 + frame_len b 0 \<le> length b"
  shows "page_from_bytes E d (take (4 + frame_len b 0) b @ pad) = page_from_bytes E d b"
proof -
  let ?t = "take (4 + frame_len b 0) b @ pad"
  have len: "frame_len ?t 0 = frame_len b 0" using assms by (simp add: frame_len_def min_def)
  have "framed_body e1 e2 ?t = framed_body e1 e2 b" for e1 e2
    using assms by (simp add: framed_body_def len Let_def take_drop [symmetric] drop_take)
  then show ?thesis by (simp add: page_from_bytes_def)
qed

lemma desc_run_count: "run_count (desc_run d) < 2 ^ 20"
  by (simp only: desc_run_def desc_count_def mask_values run.sel unsigned_take_bit_eq take_bit_nat_less_exp flip: take_bit_eq_mask)

text \<open>A page to move: a live page of the directory, and its bytes up to the length they announce.\<close>

definition moved_page :: "block_file \<Rightarrow> directory \<Rightarrow> nat \<Rightarrow> byte list \<Rightarrow> bool" where
  "moved_page f dir b img \<longleftrightarrow> b < dir_len dir \<and> is_allocated (dir_slots dir ! b)
     \<and> (\<exists>bytes. read_run f (desc_run (dir_slots dir ! b)) = Ok bytes \<and> 4 + frame_len bytes 0 \<le> length bytes
          \<and> img = take (4 + frame_len bytes 0) bytes)"

lemma moved_page_fits: "moved_page f dir b img \<Longrightarrow> b < dir_len dir \<and> fits_run img"
proof -
  assume "moved_page f dir b img"
  then obtain bytes where b: "b < dir_len dir" "read_run f (desc_run (dir_slots dir ! b)) = Ok bytes"
    "4 + frame_len bytes 0 \<le> length bytes" "img = take (4 + frame_len bytes 0) bytes" by (auto simp: moved_page_def)
  have "length bytes \<le> byte_len (desc_run (dir_slots dir ! b))" using b(2) by (auto simp: read_run_def Let_def split: if_splits)
  moreover have "byte_len (desc_run (dir_slots dir ! b)) \<le> (2 ^ 20 - 1) * BLOCK_SIZE"
    using desc_run_count [of "dir_slots dir ! b"] by (simp add: byte_len_def)
  ultimately show ?thesis using b by (simp add: fits_run_def)
qed

lemma moved_page_reads:
  assumes "moved_page f dir b img"
  shows "page_from_bytes E (ds_dict d) (img @ pad) = read_page E f h d dir b"
  using assms page_trimmed by (auto simp: moved_page_def read_page_def descriptor_def)

section \<open>Candidates\<close>

definition cand_ok :: "page_store \<Rightarrow> candidate \<Rightarrow> bool" where
  "cand_ok ps c \<longleftrightarrow> cd_slot c < length (ps_types ps) \<and> (\<exists>dir. ss_dir (ps_types ps ! cd_slot c) = Some dir
     \<and> cd_bucket c < dir_len dir \<and> is_allocated (dir_slots dir ! cd_bucket c) \<and> cd_run c = desc_run (dir_slots dir ! cd_bucket c))"

lemma in_set_map_filter: "y \<in> set (List.map_filter f xs) \<longleftrightarrow> (\<exists>x\<in>set xs. f x = Some y)"
  by (induction xs) (auto simp: List.map_filter_simps split: option.splits)

lemma slot_candidates_ok:
  assumes "c \<in> set (slot_candidates a idx dir)"
  shows "cd_slot c = idx \<and> cd_bucket c < dir_len dir \<and> is_allocated (dir_slots dir ! cd_bucket c)
    \<and> cd_run c = desc_run (dir_slots dir ! cd_bucket c)"
proof -
  obtain bucket desc where x: "(bucket, desc) \<in> set (enumerate 0 (dir_slots dir))" "is_allocated desc"
    "cd_slot c = idx" "cd_bucket c = bucket" "cd_run c = desc_run desc"
    using assms unfolding slot_candidates_def in_set_map_filter by (auto simp: Let_def case_prod_unfold split: if_splits)
  then show ?thesis by (auto simp: in_set_enumerate_eq dir_len_def)
qed

lemma candidates_ok: "c \<in> set (candidates ps) \<Longrightarrow> cand_ok ps c"
  by (auto simp: candidates_def in_set_enumerate_eq cand_ok_def eq_commute [of "Some _" "ss_dir _"] split: option.splits dest!: slot_candidates_ok)

lemma set_insert_by_value: "set (insert_by_value c cs) = insert c (set cs)"
  by (induction cs) auto

lemma set_sort_by_value: "set (sort_by_value cs) = set cs"
proof -
  have "set (fold insert_by_value cs ds) = set cs \<union> set ds" for ds
    by (induction cs arbitrary: ds) (auto simp: set_insert_by_value)
  then show ?thesis by (simp add: sort_by_value_def)
qed

section \<open>Plans that move pages\<close>

definition moves_ok :: "page_store \<Rightarrow> slot_plan \<Rightarrow> bool" where
  "moves_ok ps plan \<longleftrightarrow> pl_idx plan < length (ps_types ps) \<and> ss_dir (ps_types ps ! pl_idx plan) = Some (pl_dir plan)
     \<and> pl_dict plan = None \<and> pl_cleared plan = [] \<and> bt_ok (pl_pages plan)
     \<and> (\<forall>(b, img)\<in>set (pl_pages plan). moved_page (ps_file ps) (pl_dir plan) b img)"

definition taken_plans :: "page_store \<Rightarrow> (nat \<times> slot_plan) list \<Rightarrow> bool" where
  "taken_plans ps plans \<longleftrightarrow> bt_ok plans \<and> (\<forall>(i, plan)\<in>set plans. pl_idx plan = i \<and> moves_ok ps plan \<and> pl_pages plan \<noteq> [])"

lemma taken_plans_add:
  assumes "taken_plans ps plans" "cand_ok ps c" "moved_page (ps_file ps) (pl_dir plan) (cd_bucket c) bytes"
    "plan = (case map_of plans (cd_slot c) of Some p \<Rightarrow> p | None \<Rightarrow> verbatim (cd_slot c) (the (ss_dir (ps_types ps ! cd_slot c))))"
  shows "taken_plans ps (bt_insert (cd_slot c) (plan\<lparr>pl_pages := bt_insert (cd_bucket c) bytes (pl_pages plan)\<rparr>) plans)"
proof -
  have p: "pl_idx plan = cd_slot c \<and> moves_ok ps plan"
  proof (cases "map_of plans (cd_slot c)")
    case None
    then show ?thesis using assms(2, 4) by (auto simp: cand_ok_def moves_ok_def verbatim_def)
  next
    case (Some q)
    then have "(cd_slot c, q) \<in> set plans" by (rule map_of_SomeD)
    then show ?thesis using assms(1, 4) Some by (auto simp: taken_plans_def)
  qed
  then have "moves_ok ps (plan\<lparr>pl_pages := bt_insert (cd_bucket c) bytes (pl_pages plan)\<rparr>)"
    using assms(3) bt_insert_sorted(2) [of "pl_pages plan" "cd_bucket c" bytes] by (auto simp: moves_ok_def)
  then show ?thesis using p assms(1) bt_insert_sorted(2) [of plans "cd_slot c"] by (auto simp: taken_plans_def)
qed

lemma page_bytes_cases:
  assumes "read_run f r = Ok bytes"
  obtains "page_bytes f r = Ok None"
  | "4 + frame_len bytes 0 \<le> length bytes" "page_bytes f r = Ok (Some (take (4 + frame_len bytes 0) bytes))"
  using assms that by (cases "4 + frame_len bytes 0 \<le> length bytes") (auto simp: page_bytes_def Let_def split: if_splits)

lemma take_candidates_ok:
  assumes "\<forall>c\<in>set cs. cand_ok ps c \<and> (\<exists>bytes. read_run (ps_file ps) (cd_run c) = Ok bytes)" "taken_plans ps plans" "copied \<le> budget"
  shows "\<exists>plans' copied' pages'. take_candidates ps budget cs (plans, copied, pages) = Ok (plans', copied', pages')
    \<and> taken_plans ps plans' \<and> copied' \<le> budget"
  using assms
proof (induction cs arbitrary: plans copied pages)
  case (Cons c cs)
  let ?next = "\<lambda>st. take_candidates ps budget cs st"
  obtain bytes dir where c: "cand_ok ps c" "read_run (ps_file ps) (cd_run c) = Ok bytes" "ss_dir (ps_types ps ! cd_slot c) = Some dir"
    "cd_bucket c < dir_len dir" "is_allocated (dir_slots dir ! cd_bucket c)" "cd_run c = desc_run (dir_slots dir ! cd_bucket c)"
    using Cons.prems(1) by (auto simp: cand_ok_def)
  show ?case
  proof (cases "budget < copied + run_count (cd_run c)")
    case False
    show ?thesis
      using c(2)
    proof (cases rule: page_bytes_cases)
      case 1
      then show ?thesis using Cons False by simp
    next
      case 2
      let ?img = "take (4 + frame_len bytes 0) bytes"
      let ?plan = "case map_of plans (cd_slot c) of Some p \<Rightarrow> p | None \<Rightarrow> verbatim (cd_slot c) (the (ss_dir (ps_types ps ! cd_slot c)))"
      let ?plans = "bt_insert (cd_slot c) (?plan\<lparr>pl_pages := bt_insert (cd_bucket c) ?img (pl_pages ?plan)\<rparr>) plans"
      have dir: "pl_dir ?plan = dir"
        using Cons.prems(2) c(3) by (auto simp: verbatim_def taken_plans_def moves_ok_def split: option.splits dest!: map_of_SomeD)
      have "moved_page (ps_file ps) (pl_dir ?plan) (cd_bucket c) ?img"
        unfolding dir using c 2 by (auto simp: moved_page_def)
      then have "taken_plans ps ?plans" by (rule taken_plans_add [OF Cons.prems(2) c(1) _ refl])
      moreover have "take_candidates ps budget (c # cs) (plans, copied, pages) = ?next (?plans, copied + run_count (cd_run c), pages + 1)"
        using False 2 c(3) by (simp split: option.splits)
      ultimately show ?thesis using Cons False by simp
    qed
  qed (use Cons in simp)
qed simp

section \<open>Slots whose pages moved\<close>

lemma map_of_keyed: "map_of (map (\<lambda>(b, _). (b, g b)) xs) b = map_option (\<lambda>_. g b) (map_of xs b)"
  by (induction xs) auto

lemma moves_work_ok:
  assumes "moves_ok ps plan" "s = ps_types ps ! pl_idx plan" "slot_pages_ok E (ps_file ps) seed s"
  obtains staged where "work_ok E (ps_file ps) seed s plan staged"
    "\<forall>b<dir_len (pl_dir plan). stage E (ps_file ps) (ss_hash s) (ss_dict s) (pl_dir plan) staged b
      = stage E (ps_file ps) (ss_hash s) (ss_dict s) (slot_dir seed s) [] b"
proof -
  let ?f = "ps_file ps" and ?h = "ss_hash s" and ?d = "ss_dict s" and ?dir = "pl_dir plan"
  have dir: "slot_dir seed s = ?dir" using assms(1, 2) by (simp add: moves_ok_def slot_dir_def)
  have st: "staged_ok E ?f ?h ?d ?dir []" using assms(3) dir by (simp add: slot_pages_ok_def)
  define pg where "pg b = (case read_page E ?f ?h ?d ?dir b of Ok p \<Rightarrow> p | _ \<Rightarrow> page_new ?h)" for b
  define staged where "staged = map (\<lambda>(b, _). (b, pg b)) (pl_pages plan)"
  have pg: "read_page E ?f ?h ?d ?dir b = Ok (pg b)" if "b < dir_len ?dir" for b
    by (rule staged_okD [OF st that]) (simp add: pg_def)
  have mo: "map_of staged b = map_option (\<lambda>_. pg b) (map_of (pl_pages plan) b)" for b
    unfolding staged_def by (rule map_of_keyed)
  have same: "stage E ?f ?h ?d ?dir staged b = read_page E ?f ?h ?d ?dir b" if "b < dir_len ?dir" for b
    using pg [OF that] by (simp add: stage_def mo split: option.splits)
  have img: "moved_page ?f ?dir b x" if "map_of (pl_pages plan) b = Some x" for b x
    using assms(1) map_of_SomeD [OF that] by (auto simp: moves_ok_def)
  have bound: "\<forall>b\<in>dom (map_of staged). b < dir_len ?dir" using img moved_page_fits by (fastforce simp: mo)
  have keys: "map fst staged = map fst (pl_pages plan)" by (simp add: staged_def case_prod_unfold)
  have "staged_ok E ?f ?h ?d ?dir staged"
    using st same bound assms(1) by (simp add: staged_ok_def keys moves_ok_def)
  moreover have "page_from_bytes E (ds_dict ?d) (x @ pad) = Ok p" if "map_of (pl_pages plan) b = Some x" "map_of staged b = Some p" for b x p pad
    using moved_page_reads [OF img [OF that(1)], of E ?d pad ?h] pg moved_page_fits [OF img [OF that(1)]] that by (simp add: mo)
  moreover have "dom (map_of (pl_pages plan)) = dom (map_of staged)" by (auto simp: mo)
  ultimately have "work_ok E ?f seed s plan staged" by (simp add: work_ok_def dir)
  then show thesis by (rule that) (simp add: dir same)
qed

lemma moved_slot:
  assumes "placed_round E ps plans ps' plans1 dicts cd" "plans_ok ps plans" "n < length plans" "moves_ok ps (plans ! n)"
    "s = ps_types ps ! pl_idx (plans ! n)" "slot_ok E (ps_file ps) seed P s"
    "stage_fits E (ps_file ps) (ss_hash s) (ss_dict s) (slot_dir seed s) []" "s' = ps_types ps' ! pl_idx (plans ! n)"
  shows "slot_ok E (ps_file ps') seed P s'" "slot_view E (ps_file ps') seed s' = slot_view E (ps_file ps) seed s"
    "stage_fits E (ps_file ps') (ss_hash s') (ss_dict s') (slot_dir seed s') []" "ss_hash s' = ss_hash s"
proof -
  let ?f = "ps_file ps" and ?h = "ss_hash s" and ?d = "ss_dict s" and ?dir = "pl_dir (plans ! n)"
  have ok: "slot_pages_ok E ?f seed s" by (rule slot_okD(1) [OF assms(6)])
  obtain staged where w: "work_ok E ?f seed s (plans ! n) staged"
    "\<forall>b<dir_len ?dir. stage E ?f ?h ?d ?dir staged b = stage E ?f ?h ?d (slot_dir seed s) [] b"
    by (rule moves_work_ok [OF assms(4, 5) ok])
  have dir: "slot_dir seed s = ?dir" and cl: "pl_cleared (plans ! n) = []" using assms(4, 5) by (simp_all add: moves_ok_def slot_dir_def)
  have d: "dir_seed ?dir = dir_seed (slot_dir seed s)" "dict_len (ds_dict ?d) \<le> DICT_CAP" "dir_ok ?dir"
    using ok dir by (simp_all add: slot_pages_ok_def staged_ok_def)
  note pub = published_slot [OF assms(1-3, 5) w(1) d(1, 2) assms(8)]
  have view: "page_view E (ps_file ps') seed s' = (\<lambda>k. if k \<in> {} then map_of (ss_cache s) k else page_view E ?f seed s k)"
    unfolding pub(2) page_view_def [of E ?f] using w(2) bucket_of_less [OF d(3)] by (simp add: stage_view_def dir fun_eq_iff)
  have dead: "ss_dead s' = filter (\<lambda>k. k \<notin> {}) (ss_dead s)" using pub(6) cl by simp
  have "slot_ok E ?f seed (P \<union> {}) s" using assms(6) by simp
  note fin = settled_slot_ok [OF this pub(1, 5) view dead]
  show "slot_ok E (ps_file ps') seed P s'" "slot_view E (ps_file ps') seed s' = slot_view E ?f seed s" using fin by simp_all
  have "stage_fits E ?f ?h ?d ?dir staged" using assms(7) w(2) by (simp add: stage_fits_def dir)
  then show "stage_fits E (ps_file ps') (ss_hash s') (ss_dict s') (slot_dir seed s') []" by (rule pub(3))
  show "ss_hash s' = ss_hash s" by (rule pub(4))
qed

lemma moves_drafted:
  assumes "moves_ok ps plan" "s = ps_types ps ! pl_idx plan" "slot_pages_ok E f seed s"
  shows "slot_drafted E seed s s plan"
proof -
  have "slot_dir seed s = pl_dir plan" using assms(1, 2) by (simp add: moves_ok_def slot_dir_def)
  then show ?thesis
    using assms unfolding slot_drafted_def
    by (intro conjI exI [of _ "ss_dict s"] exI [of _ 0]) (simp_all add: moves_ok_def slot_pages_ok_def staged_ok_def dir_ok_def)
qed

section \<open>Relocating pages\<close>

lemma moves_plans_ok:
  assumes "\<forall>plan\<in>set plans. moves_ok ps plan" "distinct (map pl_idx plans)"
  shows "plans_ok ps plans"
proof -
  have "distinct (map fst (pl_pages plan))" if "plan \<in> set plans" for plan
    using assms(1) that by (simp add: moves_ok_def strict_sorted_iff)
  moreover have "\<forall>(b, img)\<in>set (pl_pages plan). b < dir_len (pl_dir plan) \<and> fits_run img" if "plan \<in> set plans" for plan
    using assms(1) that moved_page_fits by (fastforce simp: moves_ok_def)
  ultimately show ?thesis using assms by (simp add: plans_ok_def moves_ok_def opt_dir_m_def)
qed

lemma relocate_ok:
  assumes "engine_inv E ps" "\<forall>plan\<in>set plans. moves_ok ps plan \<and> pl_pages plan \<noteq> []" "distinct (map pl_idx plans)" "plans \<noteq> []"
    "round_fits E ps plans"
  obtains ps' where "relocate E plans ps = (ps', Ok ())" "engine_inv E ps'" "engine_view E ps' = engine_view E ps"
    "map ss_hash (ps_types ps') = map ss_hash (ps_types ps)"
    "ps' = ps\<lparr>ps_file := ps_file ps', ps_alloc := ps_alloc ps', ps_meta := ps_meta ps', ps_types := ps_types ps'\<rparr>" "spares ps ps'"
proof -
  let ?P = "pend_ids (ps_pending ps)" and ?ts = "ps_types ps"
  have inv: "types_ok E (ps_file ps) (ps_seed ps) ?P ?ts" "queue_ok (length ?ts) (ps_pending ps)" "space_ok ps" "types_fit E ps" "log_ok E ps"
    using assms(1) by (simp_all add: engine_inv_def engine_ok_def)
  have po: "plans_ok ps plans" by (rule moves_plans_ok) (use assms(2, 3) in auto)
  have "targets_of plans \<noteq> []"
  proof -
    have p: "plans ! 0 \<in> set plans" "0 < length plans" using assms(4) by auto
    then obtain b img where "(b, img) \<in> set (pl_pages (plans ! 0))" using assms(2) by (metis list.set_intros(1) neq_Nil_conv surj_pair)
    then have "TPage 0 b \<in> set (targets_of plans)" using p(2) TPage_target [of 0 b plans] by force
    then show ?thesis by auto
  qed
  then obtain ps' plans1 dicts cd where p: "place_in E plans Tail ps = (ps', Ok ())" "placed_round E ps plans ps' plans1 dicts cd"
    by (rule place_in_ok [OF inv(3) po assms(5)])
  note r = placed_roundD [OF p(2)]
  have idx: "map pl_idx plans1 = map pl_idx plans" using r(2, 3) by (intro nth_equalityI) (auto simp: same_shape_def)
  have pd: "distinct (map pl_idx plans1)" using assms(3) idx by simp
  have pr: "pl_idx ` set plans1 = pl_idx ` set plans" using arg_cong [OF idx, of set] by simp
  have len: "length (ps_types ps') = length ?ts" using r(4) by (simp add: slots_after_def)
  have slot: "slot_ok E (ps_file ps) (ps_seed ps) (?P k) (?ts ! k)"
    "stage_fits E (ps_file ps) (ss_hash (?ts ! k)) (ss_dict (?ts ! k)) (slot_dir (ps_seed ps) (?ts ! k)) []" if "k < length ?ts" for k
    using inv(1, 4) that by (simp_all add: types_ok_def types_fit_def)
  have each: "slot_ok E (ps_file ps') (ps_seed ps) (?P k) (ps_types ps' ! k)
      \<and> slot_view E (ps_file ps') (ps_seed ps) (ps_types ps' ! k) = slot_view E (ps_file ps) (ps_seed ps) (?ts ! k)
      \<and> stage_fits E (ps_file ps') (ss_hash (ps_types ps' ! k)) (ss_dict (ps_types ps' ! k)) (slot_dir (ps_seed ps) (ps_types ps' ! k)) []
      \<and> ss_hash (ps_types ps' ! k) = ss_hash (?ts ! k)" if k: "k < length ?ts" for k
  proof (cases "k \<in> pl_idx ` set plans")
    case True
    then obtain n where n: "n < length plans" "pl_idx (plans ! n) = k" by (auto simp: in_set_conv_nth)
    have "moves_ok ps (plans ! n)" using assms(2) n(1) by simp
    from moved_slot [OF p(2) po n(1) this refl, unfolded n(2), OF slot [OF k] refl] show ?thesis by simp
  next
    case False
    then have "ps_types ps' ! k = ?ts ! k" using slots_after_nth(2) [OF pd k] pr r(4) by simp
    then show ?thesis using settled_other [OF p(2) nth_mem [OF k] slot [OF k]] by simp
  qed
  have hash: "map ss_hash (ps_types ps') = map ss_hash ?ts" using each len by (intro nth_equalityI) auto
  have seed: "ps_seed ps' = ps_seed ps" "ps_pending ps' = ps_pending ps" using arg_cong [OF r(1), of ps_seed] arg_cong [OF r(1), of ps_pending] by simp_all
  have drafted: "slot_drafted E (ps_seed ps) (?ts ! pl_idx (plans ! n)) (?ts ! pl_idx (plans ! n)) (plans ! n)" "pl_idx (plans ! n) < length ?ts"
    if n: "n < length plans" for n
  proof -
    have m: "moves_ok ps (plans ! n)" using assms(2) n by simp
    show i: "pl_idx (plans ! n) < length ?ts" using m by (simp add: moves_ok_def)
    show "slot_drafted E (ps_seed ps) (?ts ! pl_idx (plans ! n)) (?ts ! pl_idx (plans ! n)) (plans ! n)"
      by (rule moves_drafted [OF m refl slot_okD(1) [OF slot(1) [OF i]]])
  qed
  have dirs: "\<forall>s\<in>set ?ts. dir_len (slot_dir (ps_seed ps) s) < 2 ^ 32"
    unfolding all_set_conv_all_nth using slot_okD(1) [OF slot(1)] by (simp add: slot_pages_ok_def staged_ok_def dir_ok_def)
  have same: "ps\<lparr>ps_types := ?ts\<rparr> = ps" by simp
  have dist: "distinct (map ss_hash ?ts)" using inv(1) by (simp add: types_ok_def)
  have log: "log_ok E ps'"
    by (rule log_drafted [where ps = ps and ?types1.0 = ?ts, unfolded same, OF p(2) po drafted refl refl pr dist dirs inv(5)])
  show thesis
  proof (rule that [of ps'])
    show "relocate E plans ps = (ps', Ok ())" using p(1) by (simp add: relocate_def)
    have "types_ok E (ps_file ps') (ps_seed ps) ?P (ps_types ps')" using each len hash dist by (simp add: types_ok_def)
    moreover have "types_fit E ps'" unfolding types_fit_def all_set_conv_all_nth len seed using each by blast
    ultimately show "engine_inv E ps'" using inv(2) r(5) log len seed by (simp add: engine_inv_def engine_ok_def)
    show "engine_view E ps' = engine_view E ps" unfolding seed by (rule types_view_cong [OF hash]) (use each in simp)
  qed (use r(1, 14) hash in simp_all)
qed

section \<open>A pass\<close>

text \<open>What the pass moves stays within the format's limits.\<close>

definition defrag_fits :: "libs \<Rightarrow> nat \<Rightarrow> page_store \<Rightarrow> bool" where
  "defrag_fits E budget ps \<longleftrightarrow> (case take_candidates ps budget (sort_by_value (candidates ps)) ([], 0, 0) of
     Ok (plans, _, _) \<Rightarrow> plans = [] \<or> round_fits E ps (map snd plans) | _ \<Rightarrow> True)"

lemma candidate_reads:
  assumes "engine_inv E ps" "cand_ok ps c"
  shows "\<exists>bytes. read_run (ps_file ps) (cd_run c) = Ok bytes"
proof -
  let ?s = "ps_types ps ! cd_slot c"
  obtain dir where c: "cd_slot c < length (ps_types ps)" "ss_dir ?s = Some dir" "cd_bucket c < dir_len dir"
    "is_allocated (dir_slots dir ! cd_bucket c)" "cd_run c = desc_run (dir_slots dir ! cd_bucket c)"
    using assms(2) by (auto simp: cand_ok_def)
  have "slot_ok E (ps_file ps) (ps_seed ps) (pend_ids (ps_pending ps) (cd_slot c)) ?s"
    using assms(1) c(1) by (simp add: engine_inv_def engine_ok_def types_ok_def)
  from slot_okD(1) [OF this] have "staged_ok E (ps_file ps) (ss_hash ?s) (ss_dict ?s) dir []"
    using c(2) by (simp add: slot_pages_ok_def slot_dir_def)
  then obtain p where "read_page E (ps_file ps) (ss_hash ?s) (ss_dict ?s) dir (cd_bucket c) = Ok p"
    using staged_okD [OF _ c(3)] by (metis stage_Nil)
  then show ?thesis using c(3-5) by (auto simp: read_page_def descriptor_def try_then_Ok_iff)
qed

lemma defragment_ok:
  assumes "engine_inv E ps" "defrag_fits E budget ps"
  obtains ps' report where "defragment E budget ps = (ps', Ok report)" "moved_blocks report \<le> budget" "engine_inv E ps'"
    "engine_view E ps' = engine_view E ps" "map ss_hash (ps_types ps') = map ss_hash (ps_types ps)"
    "ps' = ps\<lparr>ps_file := ps_file ps', ps_alloc := ps_alloc ps', ps_meta := ps_meta ps', ps_types := ps_types ps'\<rparr>" "spares ps ps'"
proof -
  have "\<forall>c\<in>set (sort_by_value (candidates ps)). cand_ok ps c \<and> (\<exists>bytes. read_run (ps_file ps) (cd_run c) = Ok bytes)"
    using candidates_ok candidate_reads [OF assms(1)] by (auto simp: set_sort_by_value)
  from take_candidates_ok [OF this, of "[]" 0 budget 0] obtain plans copied pages where
    t: "take_candidates ps budget (sort_by_value (candidates ps)) ([], 0, 0) = Ok (plans, copied, pages)" "taken_plans ps plans" "copied \<le> budget"
    by (auto simp: taken_plans_def)
  show thesis
  proof (cases "plans = []")
    case True
    show thesis
      by (rule that [of ps "\<lparr>moved_pages = pages, moved_blocks = copied, largest_before = largest_free_extent (ps_alloc ps),
            largest_after = largest_free_extent (ps_alloc ps)\<rparr>"]) (use assms(1) t True in \<open>simp_all add: defragment_def\<close>)
  next
    case False
    have fits: "round_fits E ps (map snd plans)" using assms(2) t(1) False by (simp add: defrag_fits_def)
    have "map pl_idx (map snd plans) = map fst plans" using t(2) by (auto simp: taken_plans_def)
    then have dist: "distinct (map pl_idx (map snd plans))" using t(2) by (simp only: taken_plans_def strict_sorted_iff)
    have ok: "\<forall>plan\<in>set (map snd plans). moves_ok ps plan \<and> pl_pages plan \<noteq> []" using t(2) by (auto simp: taken_plans_def)
    have ne: "map snd plans \<noteq> []" using False by simp
    obtain ps' where s: "relocate E (map snd plans) ps = (ps', Ok ())" "engine_inv E ps'" "engine_view E ps' = engine_view E ps"
      "map ss_hash (ps_types ps') = map ss_hash (ps_types ps)"
      "ps' = ps\<lparr>ps_file := ps_file ps', ps_alloc := ps_alloc ps', ps_meta := ps_meta ps', ps_types := ps_types ps'\<rparr>" "spares ps ps'"
      by (rule relocate_ok [OF assms(1) ok dist ne fits])
    show thesis
      by (rule that [of ps' "\<lparr>moved_pages = pages, moved_blocks = copied, largest_before = largest_free_extent (ps_alloc ps),
            largest_after = largest_free_extent (ps_alloc ps')\<rparr>", OF _ _ s(2-6)]) (use t s(1) False in \<open>simp_all add: defragment_def\<close>)
  qed
qed

end
