(* ===== verification/Engine_Refines.thy ===== *)
theory Engine_Refines
  imports Relocation
begin

text \<open>
  The page store refines a typed key-value store with a write-ahead log.  Clients read and apply batches;
  maintenance settles, drains, defragments, evicts and flushes in between, in any order.  Every observation of every
  interleaving is one the abstract store makes, maintenance being invisible to it.
\<close>

section \<open>Forward simulation\<close>

locale forward_simulation =
  fixes step :: "'c \<Rightarrow> 'e \<Rightarrow> 'c \<Rightarrow> bool" and spec :: "'a \<Rightarrow> 'e \<Rightarrow> 'a \<Rightarrow> bool" and rel :: "'c \<Rightarrow> 'a \<Rightarrow> bool"
  assumes simulates: "rel c a \<Longrightarrow> step c e c' \<Longrightarrow> \<exists>a'. spec a e a' \<and> rel c' a'"

inductive runs :: "('s \<Rightarrow> 'e \<Rightarrow> 's \<Rightarrow> bool) \<Rightarrow> 's \<Rightarrow> 'e list \<Rightarrow> 's \<Rightarrow> bool" for step where
  runs_Nil: "runs step s [] s"
| runs_Cons: "step s e t \<Longrightarrow> runs step t es u \<Longrightarrow> runs step s (e # es) u"

inductive_simps runs_simps [simp]: "runs step s [] t" "runs step s (e # es) t"

context forward_simulation
begin

lemma runs_simulate:
  assumes "runs step c es c'" "rel c a"
  shows "\<exists>a'. runs spec a es a' \<and> rel c' a'"
  using assms
proof (induction arbitrary: a)
  case (runs_Cons c e t es u)
  then obtain a1 where "spec a e a1" "rel t a1" using simulates by blast
  with runs_Cons.IH [of a1] show ?case by auto
qed auto

end

section \<open>The abstract store\<close>

record typed_store =
  ts_view :: typed_view
  ts_log :: "journal_frame list"
  ts_safe :: "journal_frame list" \<comment> \<open>what a crash cannot lose\<close>

datatype event = Read u64 wave_id "byte list option sres" | Applied "write_op list" "unit sres" | Maintained | Flushed

text \<open>The error of the first write that no registered type serves.\<close>

fun route_error :: "u64 set \<Rightarrow> write_op list \<Rightarrow> storage_error option" where
  "route_error T [] = None"
| "route_error T (w # ws) = (case write_hash w of
      Ok h \<Rightarrow> if h \<in> T then route_error T ws else Some (UnregisteredStructHash h)
    | Err e \<Rightarrow> Some e
    | None \<Rightarrow> None)"

inductive spec_step :: "u64 set \<Rightarrow> bool \<Rightarrow> typed_store \<Rightarrow> event \<Rightarrow> typed_store \<Rightarrow> bool" for T strict where
  spec_read: "spec_step T strict A (Read h i (Ok (ts_view A h (raw i)))) A"
| spec_unroutable: "route_error T b = Some e \<Longrightarrow> spec_step T strict A (Applied b (Err e)) A"
| spec_conflict: "route_error T b = None \<Longrightarrow> typed_conflict b (ts_view A) = Some i \<Longrightarrow>
    spec_step T strict A (Applied b (Err (Core (Conflict i)))) A"
| spec_commit: "route_error T b = None \<Longrightarrow> typed_conflict b (ts_view A) = None \<Longrightarrow>
    log = ts_log A @ [Batch (filter (\<lambda>w. \<not> is_expect w) b)] \<Longrightarrow> safe = log \<or> \<not> strict \<and> safe = ts_safe A \<Longrightarrow>
    spec_step T strict A (Applied b (Ok ())) \<lparr>ts_view = typed_effect b (ts_view A), ts_log = log, ts_safe = safe\<rparr>"
| spec_maintained: "spec_step T strict A Maintained A"
| spec_flushed: "spec_step T strict A Flushed (A\<lparr>ts_safe := ts_log A\<rparr>)"

section \<open>The page store's steps\<close>

inductive engine_step :: "libs \<Rightarrow> page_store \<Rightarrow> event \<Rightarrow> page_store \<Rightarrow> bool" for E where
  es_read: "engine_step E ps (Read h i (read_of E ps h i)) ps"
| es_commit: "apply_inner E elapsed b ps = Ok ps' \<Longrightarrow> engine_step E ps (Applied b (Ok ())) ps'"
| es_refuse: "apply_inner E elapsed b ps = Err e \<Longrightarrow> engine_step E ps (Applied b (Err e)) ps"
| es_panic: "apply_inner E elapsed b ps = None \<Longrightarrow> engine_step E ps (Applied b None) ps"
| es_settle: "step_fits E budget ps \<Longrightarrow> settle_step E budget ps = (ps', r) \<Longrightarrow> engine_step E ps Maintained ps'"
| es_drain: "step_fits E USIZE_MAX ps \<Longrightarrow> drain E ps = Some (ps', r) \<Longrightarrow> engine_step E ps Maintained ps'"
| es_defrag: "defrag_fits E budget ps \<Longrightarrow> defragment E budget ps = (ps', r) \<Longrightarrow> engine_step E ps Maintained ps'"
| es_evict: "engine_step E ps Maintained (evict_settled budget ps)"
| es_flush: "ps_flush ps = Ok ps' \<Longrightarrow> engine_step E ps Flushed ps'"

definition engine_rel :: "libs \<Rightarrow> u64 set \<Rightarrow> bool \<Rightarrow> page_store \<Rightarrow> typed_store \<Rightarrow> bool" where
  "engine_rel E T strict ps A \<longleftrightarrow> engine_inv E ps \<and> journaled E ps (ts_log A) (ts_safe A) \<and> ts_view A = engine_view E ps
     \<and> ss_hash ` set (ps_types ps) = T \<and> ps_relaxed ps = (\<not> strict)"

lemma engine_relD:
  assumes "engine_rel E T strict ps A"
  shows "engine_inv E ps" "engine_ok E ps" "journaled E ps (ts_log A) (ts_safe A)" "ts_view A = engine_view E ps"
    "ss_hash ` set (ps_types ps) = T" "ps_relaxed ps = (\<not> strict)"
  using assms by (auto simp: engine_rel_def engine_inv_def)

lemma slot_of_None: "slot_of ps h = None \<longleftrightarrow> h \<notin> ss_hash ` set (ps_types ps)"
  by (simp add: slot_of_def slot_pos_None)

lemma route_batch_error:
  "route_batch ps b = (case route_error (ss_hash ` set (ps_types ps)) b of None \<Rightarrow> Ok () | Some e \<Rightarrow> Err e)"
proof (induction b)
  case (Cons w b)
  have "returns (write_hash w)" by (rule write_hash_returns)
  then show ?case using Cons by (auto simp: returns_def slot_of_None split: option.splits sum.splits)
qed simp

lemma commit_inv:
  assumes "engine_inv E ps" "engine_ok E ps'" "map ss_hash (ps_types ps') = map ss_hash (ps_types ps)"
    "map ss_dir (ps_types ps') = map ss_dir (ps_types ps)" "map ss_dict (ps_types ps') = map ss_dict (ps_types ps)"
    "ps' = ps\<lparr>ps_journal := ps_journal ps', ps_fs := ps_fs ps', ps_types := ps_types ps', ps_pending := ps_pending ps'\<rparr>"
  shows "engine_inv E ps'"
proof -
  let ?ts = "ps_types ps" and ?ts' = "ps_types ps'"
  have len: "length ?ts' = length ?ts" using assms(3) by (rule map_eq_imp_length_eq)
  have nth: "ss_hash (?ts' ! n) = ss_hash (?ts ! n)" "ss_dir (?ts' ! n) = ss_dir (?ts ! n)" "ss_dict (?ts' ! n) = ss_dict (?ts ! n)"
    if "n < length ?ts" for n
    using that arg_cong [OF assms(3), of "\<lambda>xs. xs ! n"] arg_cong [OF assms(4), of "\<lambda>xs. xs ! n"] arg_cong [OF assms(5), of "\<lambda>xs. xs ! n"] len
    by simp_all
  have same: "ps_file ps' = ps_file ps" "ps_seed ps' = ps_seed ps" "ps_alloc ps' = ps_alloc ps" "ps_meta ps' = ps_meta ps"
    using arg_cong [OF assms(6), of ps_file] arg_cong [OF assms(6), of ps_seed] arg_cong [OF assms(6), of ps_alloc]
      arg_cong [OF assms(6), of ps_meta] by simp_all
  have "map slot_m ?ts' = map slot_m ?ts" using len nth by (intro nth_equalityI) (simp_all add: slot_m_def)
  then have "space_ok ps'" using assms(1) same by (simp add: engine_inv_def space_ok_def live_m_def)
  moreover have "types_fit E ps'"
    using assms(1) len nth same by (simp add: engine_inv_def types_fit_def all_set_conv_all_nth slot_dir_def)
  moreover have "log_ok E ps'" by (rule log_cong [OF assms(3-5) same(1, 2, 4)]) (use assms(1) in \<open>simp add: engine_inv_def\<close>)
  ultimately show ?thesis using assms(2) by (simp add: engine_inv_def)
qed

lemma journaled_cong:
  "ps_journal ps' = ps_journal ps \<Longrightarrow> ps_fs ps' = ps_fs ps \<Longrightarrow> journaled E ps' frames safe = journaled E ps frames safe"
  by (simp add: journaled_def)

text \<open>A maintenance step keeps the relation: it keeps the invariant, the view and the journal.\<close>

lemma maintained_rel:
  assumes "engine_rel E T strict ps A" "engine_inv E ps'" "engine_view E ps' = engine_view E ps"
    "map ss_hash (ps_types ps') = map ss_hash (ps_types ps)"
    "ps_journal ps' = ps_journal ps" "ps_fs ps' = ps_fs ps" "ps_relaxed ps' = ps_relaxed ps"
  shows "engine_rel E T strict ps' A"
proof -
  have "ss_hash ` set (ps_types ps') = ss_hash ` set (ps_types ps)" using arg_cong [OF assms(4), of set] by simp
  then show ?thesis using assms(1-3, 7) journaled_cong [OF assms(5, 6)] by (simp add: engine_rel_def)
qed

lemma applied_simulates:
  assumes "engine_rel E T strict ps A"
  obtains (unroutable) e where "apply_inner E elapsed b ps = Err e" "spec_step T strict A (Applied b (Err e)) A"
  | (conflict) i where "apply_inner E elapsed b ps = Err (Core (Conflict i))" "spec_step T strict A (Applied b (Err (Core (Conflict i)))) A"
  | (commit) ps' A' where "apply_inner E elapsed b ps = Ok ps'" "spec_step T strict A (Applied b (Ok ())) A'" "engine_rel E T strict ps' A'"
proof -
  note r = engine_relD [OF assms]
  have routed: "route_error T b = None \<longleftrightarrow> list_all (routable (ps_types ps)) b"
    using route_batch_error [of ps b] route_batch_Ok [of ps b] r(5) by (cases "route_error T b") auto
  show thesis
  proof (rule apply_inner_cases [OF r(2, 3), of elapsed b])
    fix e assume "apply_inner E elapsed b ps = Err e" "route_batch ps b = Err e"
    then show thesis using route_batch_error [of ps b] r(5)
      by (intro unroutable [of e] spec_unroutable) (auto split: option.splits)
  next
    fix i assume "apply_inner E elapsed b ps = Err (Core (Conflict i))" "list_all (routable (ps_types ps)) b"
      "typed_conflict b (engine_view E ps) = Some i"
    then show thesis using routed r(4) by (intro conflict spec_conflict) auto
  next
    fix ps' assume c: "apply_inner E elapsed b ps = Ok ps'" "list_all (routable (ps_types ps)) b"
      "typed_conflict b (engine_view E ps) = None" "engine_ok E ps'" "engine_view E ps' = typed_effect b (engine_view E ps)"
      "journaled E ps' (ts_log A @ [Batch (filter (\<lambda>w. \<not> is_expect w) b)])
         (if ps_relaxed ps \<and> \<not> elapsed then ts_safe A else ts_log A @ [Batch (filter (\<lambda>w. \<not> is_expect w) b)])"
      "map ss_hash (ps_types ps') = map ss_hash (ps_types ps)"
      "map ss_dir (ps_types ps') = map ss_dir (ps_types ps)" "map ss_dict (ps_types ps') = map ss_dict (ps_types ps)"
      "ps' = ps\<lparr>ps_journal := ps_journal ps', ps_fs := ps_fs ps', ps_types := ps_types ps', ps_pending := ps_pending ps'\<rparr>"
    let ?log = "ts_log A @ [Batch (filter (\<lambda>w. \<not> is_expect w) b)]"
    let ?A = "\<lparr>ts_view = typed_effect b (ts_view A), ts_log = ?log, ts_safe = if ps_relaxed ps \<and> \<not> elapsed then ts_safe A else ?log\<rparr>"
    have "spec_step T strict A (Applied b (Ok ())) ?A"
      using c(2, 3) routed r(4, 6) by (intro spec_commit) auto
    moreover have "ss_hash ` set (ps_types ps') = ss_hash ` set (ps_types ps)" using arg_cong [OF c(7), of set] by simp
    then have "engine_rel E T strict ps' ?A"
      using commit_inv [OF r(1) c(4, 7-10)] c(5, 6) r(4-6) arg_cong [OF c(10), of ps_relaxed] by (simp add: engine_rel_def)
    ultimately show thesis by (intro commit [OF c(1)])
  qed
qed

lemma flush_rel:
  assumes "engine_rel E T strict ps A" "ps_flush ps = Ok ps'"
  shows "engine_rel E T strict ps' (A\<lparr>ts_safe := ts_log A\<rparr>)"
proof -
  note r = engine_relD [OF assms(1)]
  obtain jd where jd: "journal_sync (ps_journal ps, ps_fs ps) = Ok jd" "journal_holds (crc32 E) jd (ts_log A) (ts_log A)"
    by (rule journal_sync_holds [OF r(3) [unfolded journaled_def]])
  have "ps' = ps\<lparr>ps_journal := fst jd, ps_fs := snd jd\<rparr>" using assms(2) jd(1) by (simp add: ps_flush_def case_prod_unfold)
  then show ?thesis using r jd(2)
    by (simp add: engine_rel_def engine_inv_def engine_ok_def journaled_def)
qed

lemma engine_simulates:
  assumes "zstd_ok E" "engine_rel E T strict ps A" "engine_step E ps e ps'"
  shows "\<exists>A'. spec_step T strict A e A' \<and> engine_rel E T strict ps' A'"
  using assms(3)
proof cases
  case (es_read h i)
  then show ?thesis
    using read_of_view [OF engine_relD(2) [OF assms(2)], of h i] engine_relD(4) [OF assms(2)] assms(2) spec_read [of T strict A h i]
    by (intro exI [of _ A]) simp
next
  case (es_commit elapsed b)
  then show ?thesis by (cases rule: applied_simulates [OF assms(2), where elapsed = elapsed and b = b]) auto
next
  case (es_refuse elapsed b e')
  then show ?thesis using assms(2) by (cases rule: applied_simulates [OF assms(2), where elapsed = elapsed and b = b]) auto
next
  case (es_panic elapsed b)
  then show ?thesis by (cases rule: applied_simulates [OF assms(2), where elapsed = elapsed and b = b]) auto
next
  case (es_settle budget r)
  obtain rnd left where t: "take_round budget (ps_pending ps) = (rnd, left)" by fastforce
  show ?thesis
  proof (rule settle_step_ok [OF assms(1) engine_relD(1) [OF assms(2)] es_settle(2) t])
    fix ps1 assume s: "settle_step E budget ps = (ps1, Ok (if rnd = [] then progress.Done else Settled))" "engine_inv E ps1"
      "engine_view E ps1 = engine_view E ps" "map ss_hash (ps_types ps1) = map ss_hash (ps_types ps)"
      "ps1 = ps\<lparr>ps_file := ps_file ps1, ps_alloc := ps_alloc ps1, ps_meta := ps_meta ps1, ps_types := ps_types ps1, ps_pending := left\<rparr>"
    have k: "ps_journal ps1 = ps_journal ps" "ps_fs ps1 = ps_fs ps" "ps_relaxed ps1 = ps_relaxed ps"
      using arg_cong [OF s(5), of ps_journal] arg_cong [OF s(5), of ps_fs] arg_cong [OF s(5), of ps_relaxed] by simp_all
    have "ps' = ps1" using es_settle(3) s(1) by simp
    with maintained_rel [OF assms(2) s(2-4) k] show ?thesis unfolding es_settle(1) by (auto intro: spec_maintained)
  qed
next
  case (es_drain r)
  show ?thesis
  proof (rule drain_ok [OF assms(1) engine_relD(1) [OF assms(2)] es_drain(2)])
    fix ps1 assume s: "drain E ps = Some (ps1, Ok ())" "engine_inv E ps1"
      "engine_view E ps1 = engine_view E ps" "map ss_hash (ps_types ps1) = map ss_hash (ps_types ps)"
      "ps1 = ps\<lparr>ps_file := ps_file ps1, ps_alloc := ps_alloc ps1, ps_meta := ps_meta ps1, ps_types := ps_types ps1, ps_pending := []\<rparr>"
    have k: "ps_journal ps1 = ps_journal ps" "ps_fs ps1 = ps_fs ps" "ps_relaxed ps1 = ps_relaxed ps"
      using arg_cong [OF s(5), of ps_journal] arg_cong [OF s(5), of ps_fs] arg_cong [OF s(5), of ps_relaxed] by simp_all
    have "ps' = ps1" using es_drain(3) s(1) by simp
    with maintained_rel [OF assms(2) s(2-4) k] show ?thesis unfolding es_drain(1) by (auto intro: spec_maintained)
  qed
next
  case (es_defrag budget r)
  show ?thesis
  proof (rule defragment_ok [OF engine_relD(1) [OF assms(2)] es_defrag(2)])
    fix ps1 report assume s: "defragment E budget ps = (ps1, Ok report)" "engine_inv E ps1"
      "engine_view E ps1 = engine_view E ps" "map ss_hash (ps_types ps1) = map ss_hash (ps_types ps)"
      "ps1 = ps\<lparr>ps_file := ps_file ps1, ps_alloc := ps_alloc ps1, ps_meta := ps_meta ps1, ps_types := ps_types ps1\<rparr>"
    have k: "ps_journal ps1 = ps_journal ps" "ps_fs ps1 = ps_fs ps" "ps_relaxed ps1 = ps_relaxed ps"
      using arg_cong [OF s(5), of ps_journal] arg_cong [OF s(5), of ps_fs] arg_cong [OF s(5), of ps_relaxed] by simp_all
    have "ps' = ps1" using es_defrag(3) s(1) by simp
    with maintained_rel [OF assms(2) s(2-4) k] show ?thesis unfolding es_defrag(1) by (auto intro: spec_maintained)
  qed
next
  case (es_evict budget)
  have "engine_rel E T strict (evict_settled budget ps) A"
    by (rule maintained_rel [OF assms(2) evict_settled_ok(1-3) [OF engine_relD(1) [OF assms(2)]]]) (simp_all add: evict_settled_def)
  then show ?thesis unfolding es_evict by (auto intro: spec_maintained)
next
  case es_flush
  then show ?thesis using flush_rel [OF assms(2)] by (auto intro: spec_flushed)
qed

interpretation engine_sim: forward_simulation "engine_step E" "spec_step T strict" "\<lambda>ps A. zstd_ok E \<and> engine_rel E T strict ps A"
  for E T strict
  by unfold_locales (use engine_simulates in blast)

end
