(* ===== verification/Opening.thy ===== *)
theory Opening
  imports Engine_Refines Checkpoint
begin

text \<open>
  Opening a store: a reset registry is the empty store, the batches of the journals replay through the
  commit and settle path one by one, and without a checkpoint the recovered store is exactly the
  journals' batches applied in order.
\<close>

section \<open>An empty engine\<close>

lemma fresh_dir_pages:
  assumes "ss_dir s = None"
  shows "staged_ok E f (ss_hash s) (ss_dict s) (slot_dir seed s) []" "page_view E f seed s = Map.empty"
    "stage_fits E f (ss_hash s) (ss_dict s) (slot_dir seed s) []"
proof -
  have d: "slot_dir seed s = dir_new seed" "dir_ok (dir_new seed)" "dir_len (dir_new seed) = 1"
    using assms by (simp_all add: slot_dir_def dir_new_def dir_ok_def dir_len_def)
  have r: "read_page E f (ss_hash s) (ss_dict s) (dir_new seed) 0 = Ok (page_new (ss_hash s))"
    by (simp add: read_page_def descriptor_def dir_new_def dir_len_def)
  show "staged_ok E f (ss_hash s) (ss_dict s) (slot_dir seed s) []"
    using r by (simp add: staged_ok_def d placed_def page_new_def page_ok_def)
  show "stage_fits E f (ss_hash s) (ss_dict s) (slot_dir seed s) []"
    using r by (simp add: stage_fits_def d page_new_def page_fits_def)
  show "page_view E f seed s = Map.empty" using page_view_fresh [OF assms] by (simp add: fun_eq_iff)
qed

text \<open>A slot with nothing cached and nothing settled.\<close>

definition fresh_slot :: "struct_storage \<Rightarrow> bool" where
  "fresh_slot s \<longleftrightarrow> ss_cache s = [] \<and> ss_dir s = None \<and> ss_dead s = [] \<and> ds_dict (ss_dict s) = dict_new \<and> ds_desc (ss_dict s) = desc_EMPTY"

lemma fresh_slot_ok:
  assumes "fresh_slot s"
  shows "slot_ok E f seed {} s" "slot_view E f seed s = Map.empty" "slot_m s = {#}"
    "stage_fits E f (ss_hash s) (ss_dict s) (slot_dir seed s) []"
  using assms fresh_dir_pages [of s E f seed]
  by (simp_all add: fresh_slot_def slot_ok_def slot_pages_ok_def slot_view_def slot_m_def dict_len_def dict_new_def fun_eq_iff)

lemma fresh_alloc_owns: "alloc_owns (fst (fresh_alloc f)) {#Run 0 RESERVED_BLOCKS#}"
proof -
  obtain r a where a: "alloc RESERVED_BLOCKS alloc_new = Some (r, a)" "r = Run 0 RESERVED_BLOCKS" by (simp add: alloc_def alloc_new_def bs_from_def)
  have "alloc_reach a [r]" using alloc_reach.step [OF alloc_reach.fresh alloc_step.intros(1) [OF a(1)]] by simp
  from alloc_reach_wf [OF this] show ?thesis unfolding alloc_owns_def using a by (intro exI [of _ "[r]"]) (simp add: fresh_alloc_def)
qed

lemma fresh_engine:
  assumes "list_all fresh_slot (ps_types ps)" "distinct (map ss_hash (ps_types ps))" "ps_pending ps = []"
    "ps_meta ps = meta_default" "ps_alloc ps = fst (fresh_alloc f)" "ps_seed ps = bf_seed (ps_file ps)"
  shows "engine_inv E ps" "engine_view E ps = (\<lambda>_. Map.empty)"
proof -
  have each: "fresh_slot s" if "s \<in> set (ps_types ps)" for s using assms(1) that by (simp add: list_all_iff)
  have "map slot_m (ps_types ps) = map (\<lambda>_. 0) (ps_types ps)" using fresh_slot_ok(3) each by (intro map_cong) auto
  then have "sum_list (map slot_m (ps_types ps)) = {#}" by (simp only: sum_list_0)
  then have "space_ok ps"
    using fresh_alloc_owns assms(4, 5) by (simp add: space_ok_def live_m_def meta_default_def meta_runs_def)
  moreover have "engine_ok E ps" "types_fit E ps"
    using assms(2, 3) fresh_slot_ok(1, 4) each by (auto simp: engine_ok_def types_ok_def types_fit_def)
  moreover have "desc_raw desc_EMPTY = 0" by (simp add: desc_EMPTY_def)
  then have "log_ok E ps" using each assms(4, 6)
    by (auto simp: log_ok_def addr_ok_def meta_default_ok replays_def replay_empty_def slot_addr_def slot_logged_def dict_ok_def
        fresh_slot_def slot_dir_def)
  ultimately show "engine_inv E ps" by (simp add: engine_inv_def)
  show "engine_view E ps = (\<lambda>_. Map.empty)"
    using fresh_slot_ok(2) each slot_pos_Some [of _ "ps_types ps"]
    by (auto simp: types_view_def fun_eq_iff split: option.splits)
qed

section \<open>Replaying the batches\<close>

lemma pend_ids_Nil [simp]: "pend_ids [] = (\<lambda>_. {})"
  by (simp add: fun_eq_iff)

fun replay_fits :: "libs \<Rightarrow> write_op list list \<Rightarrow> page_store \<Rightarrow> bool" where
  "replay_fits E [] ps \<longleftrightarrow> True"
| "replay_fits E (b # bs) ps \<longleftrightarrow> (case commit_to_caches b (ps_types ps, []) of
      None \<Rightarrow> True
    | Some (types, touched) \<Rightarrow> (touched = [] \<or> settle_fits E touched (ps\<lparr>ps_types := types\<rparr>))
        \<and> replay_fits E bs (fst (settle E touched (ps\<lparr>ps_types := types\<rparr>))))"

lemma replay_batch_ok:
  assumes "zstd_ok E" "engine_inv E ps" "ps_pending ps = []" "list_all (routable (ps_types ps)) b"
    "commit_to_caches b (ps_types ps, []) = Some (types, touched)"
    "touched = [] \<or> settle_fits E touched (ps\<lparr>ps_types := types\<rparr>)"
  obtains ps' where "settle E touched (ps\<lparr>ps_types := types\<rparr>) = (ps', Ok ())" "engine_inv E ps'" "ps_pending ps' = []"
    "engine_view E ps' = typed_effect b (engine_view E ps)" "map ss_hash (ps_types ps') = map ss_hash (ps_types ps)"
    "ps' = ps\<lparr>ps_file := ps_file ps', ps_alloc := ps_alloc ps', ps_meta := ps_meta ps', ps_types := ps_types ps'\<rparr>"
    "spares ps ps'"
proof -
  let ?ps1 = "ps\<lparr>ps_types := types\<rparr>"
  have ok: "engine_ok E ps" "space_ok ps" "types_fit E ps" using assms(2) by (simp_all add: engine_inv_def)
  have c: "types_ok E (ps_file ps) (ps_seed ps) (pend_ids touched) types" "queue_ok (length types) touched"
    "map ss_hash types = map ss_hash (ps_types ps)" "map ss_dir types = map ss_dir (ps_types ps)"
    "map ss_dict types = map ss_dict (ps_types ps)"
    "types_view E (ps_file ps) (ps_seed ps) types = typed_effect b (engine_view E ps)"
    using commit_to_caches_ok [of E "ps_file ps" "ps_seed ps" "[]" "\<lambda>_. {}" "ps_types ps" b] ok(1) assms(3-5)
    by (auto simp: engine_ok_def)
  have "engine_ok E (ps\<lparr>ps_types := types, ps_pending := touched\<rparr>)" using c(1, 2) by (simp add: engine_ok_def)
  from commit_inv [OF assms(2) this] c(3-5)
  have inv: "engine_inv E (ps\<lparr>ps_types := types, ps_pending := touched\<rparr>)" by simp
  show thesis
  proof (cases "touched = []")
    case True
    have "?ps1 = ps\<lparr>ps_types := types, ps_pending := touched\<rparr>" using True assms(3) by simp
    with inv have "engine_inv E ?ps1" by simp
    then show thesis using True assms(3) c
      by (intro that [of ?ps1]) (simp_all add: settle_def place_in_def targets_of_def spares_def)
  next
    case False
    have a: "space_ok ?ps1" "types_fit E ?ps1" and lg: "log_ok E ?ps1"
      using inv space_ok_updates(1) [of touched ?ps1] types_fit_updates(1) [of E touched ?ps1] log_ok_updates(1) [of E touched ?ps1]
      by (simp_all add: engine_inv_def)
    obtain ps' where s: "settle E touched ?ps1 = (ps', Ok ())" "types_ok E (ps_file ps') (ps_seed ?ps1) (\<lambda>_. {}) (ps_types ps')"
      "types_view E (ps_file ps') (ps_seed ?ps1) (ps_types ps') = types_view E (ps_file ?ps1) (ps_seed ?ps1) (ps_types ?ps1)"
      "space_ok ps'" "types_fit E ps'" "map ss_hash (ps_types ps') = map ss_hash (ps_types ?ps1)"
      "ps' = ?ps1\<lparr>ps_file := ps_file ps', ps_alloc := ps_alloc ps', ps_meta := ps_meta ps', ps_types := ps_types ps'\<rparr>"
      "spares ?ps1 ps'" "log_ok E ?ps1 \<longrightarrow> log_ok E ps'"
      by (rule settle_ok [OF assms(1) _ False _ a, of "\<lambda>_. {}"]) (use c(1, 2) False assms(6) in simp_all)
    have k: "ps_pending ps' = []" "ps_seed ps' = ps_seed ps"
      using arg_cong [OF s(7), of ps_pending] arg_cong [OF s(7), of ps_seed] assms(3) by simp_all
    show thesis
    proof (rule that [OF s(1)])
      show "engine_inv E ps'" using s(2, 4, 5, 9) lg k by (simp add: engine_inv_def engine_ok_def)
      show "spares ps ps'" using s(8) by (simp add: spares_def)
      show "engine_view E ps' = typed_effect b (engine_view E ps)" using s(3) c(6) k by simp
      show "map ss_hash (ps_types ps') = map ss_hash (ps_types ps)" using s(6) c(3) by simp
      show "ps' = ps\<lparr>ps_file := ps_file ps', ps_alloc := ps_alloc ps', ps_meta := ps_meta ps', ps_types := ps_types ps'\<rparr>"
        by (subst s(7)) simp
    qed (rule k)
  qed
qed

lemma replay_batches_ok:
  assumes "zstd_ok E" "engine_inv E ps" "ps_pending ps = []" "list_all (list_all (routable (ps_types ps))) bs" "replay_fits E bs ps"
  shows "\<exists>ps'. replay_batches E bs ps = Ok ps' \<and> engine_inv E ps' \<and> ps_pending ps' = []
    \<and> engine_view E ps' = fold typed_effect bs (engine_view E ps) \<and> map ss_hash (ps_types ps') = map ss_hash (ps_types ps)
    \<and> ps' = ps\<lparr>ps_file := ps_file ps', ps_alloc := ps_alloc ps', ps_meta := ps_meta ps', ps_types := ps_types ps'\<rparr> \<and> spares ps ps'"
  using assms(2-)
proof (induction bs arbitrary: ps)
  case (Cons b bs)
  have r: "list_all (routable (ps_types ps)) b" using Cons.prems(3) by simp
  obtain types touched where c: "commit_to_caches b (ps_types ps, []) = Some (types, touched)"
    using commit_to_caches_ok [of E "ps_file ps" "ps_seed ps" "[]" "\<lambda>_. {}" "ps_types ps" b] r Cons.prems(1, 2)
    by (auto simp: engine_inv_def engine_ok_def)
  have f: "touched = [] \<or> settle_fits E touched (ps\<lparr>ps_types := types\<rparr>)"
    "replay_fits E bs (fst (settle E touched (ps\<lparr>ps_types := types\<rparr>)))" using Cons.prems(4) c by simp_all
  obtain ps1 where s: "settle E touched (ps\<lparr>ps_types := types\<rparr>) = (ps1, Ok ())" "engine_inv E ps1" "ps_pending ps1 = []"
    "engine_view E ps1 = typed_effect b (engine_view E ps)" "map ss_hash (ps_types ps1) = map ss_hash (ps_types ps)"
    "ps1 = ps\<lparr>ps_file := ps_file ps1, ps_alloc := ps_alloc ps1, ps_meta := ps_meta ps1, ps_types := ps_types ps1\<rparr>" "spares ps ps1"
    by (rule replay_batch_ok [OF assms(1) Cons.prems(1, 2) r c f(1)])
  have "list_all (list_all (routable (ps_types ps1))) bs" "replay_fits E bs ps1"
    using Cons.prems(3) routable_hashes [OF s(5)] f(2) s(1) by simp_all
  from Cons.IH [OF s(2, 3) this] obtain ps' where h: "replay_batches E bs ps1 = Ok ps'" "engine_inv E ps'" "ps_pending ps' = []"
    "engine_view E ps' = fold typed_effect bs (engine_view E ps1)" "map ss_hash (ps_types ps') = map ss_hash (ps_types ps1)"
    "ps' = ps1\<lparr>ps_file := ps_file ps', ps_alloc := ps_alloc ps', ps_meta := ps_meta ps', ps_types := ps_types ps'\<rparr>" "spares ps1 ps'" by blast
  have "route_batch ps b = Ok ()" using r by (simp add: route_batch_Ok)
  moreover have "ps' = ps\<lparr>ps_file := ps_file ps', ps_alloc := ps_alloc ps', ps_meta := ps_meta ps', ps_types := ps_types ps'\<rparr>"
    by (subst h(6), subst s(6)) simp
  ultimately show ?case using h(1-5) s(1, 4, 5) c spares_trans [OF s(7) h(7)] by (intro exI [of _ ps']) simp
qed simp

end
