(* ===== verification/Recovery.thy ===== *)
theory Recovery
  imports Opening
begin

text \<open>
  Loading a commit: from the head of the addressing log alone, \<open>load_commit\<close> rebuilds the directories, the
  dictionaries and the allocator of the store that wrote it, whatever happened to the other blocks of
  the file since.
\<close>

section \<open>Slots by key\<close>

lemma slot_update_map:
  assumes "distinct (map ss_hash types)" "slot_pos h types = Some n"
  shows "types[n := g (types ! n)] = map (\<lambda>s. if ss_hash s = h then g s else s) types"
proof (rule nth_equalityI)
  have n: "n < length types" "ss_hash (types ! n) = h" using slot_pos_Some [OF assms(2)] by simp_all
  fix i assume "i < length (types[n := g (types ! n)])"
  then have i: "i < length types" by simp
  have "ss_hash (types ! i) = h \<longleftrightarrow> i = n" using n assms(1) i nth_eq_iff_index_eq [OF assms(1), of i n] by simp
  then show "types[n := g (types ! n)] ! i = map (\<lambda>s. if ss_hash s = h then g s else s) types ! i" using i by auto
qed simp

lemma keyed_sum:
  fixes F :: "'v \<Rightarrow> 'a multiset"
  assumes "distinct (map fst xs)" "fst ` set xs \<subseteq> key ` set ts" "distinct (map key ts)"
  shows "sum_list (map (\<lambda>x. F (snd x)) xs) = sum_list (map (\<lambda>t. case map_of xs (key t) of None \<Rightarrow> {#} | Some v \<Rightarrow> F v) ts)"
  using assms(1, 2)
proof (induction xs)
  case (Cons x xs)
  obtain k v where x: "x = (k, v)" by fastforce
  let ?g = "\<lambda>t. case map_of xs (key t) of None \<Rightarrow> {#} | Some v \<Rightarrow> F v"
  have none: "map_of xs k = None" using Cons.prems(1) x by (force simp: map_of_eq_None_iff)
  obtain as t bs where ts: "ts = as @ t # bs" "key t = k" using Cons.prems(2) x by (auto dest!: split_list)
  have zero: "sum_list (map (\<lambda>t. if key t = k then F v else {#}) us) = {#}" if "k \<notin> key ` set us" for us
    using that by (induction us) auto
  have v: "sum_list (map (\<lambda>t. if key t = k then F v else {#}) ts) = F v"
    using zero [of as] zero [of bs] assms(3) ts by auto
  have e: "map (\<lambda>t. case map_of (x # xs) (key t) of None \<Rightarrow> {#} | Some v \<Rightarrow> F v) ts = map (\<lambda>t. (if key t = k then F v else {#}) + ?g t) ts"
    using none x by auto
  have "sum_list (map (\<lambda>x. F (snd x)) xs) = sum_list (map ?g ts)" using Cons.IH Cons.prems by simp
  then show ?case unfolding e sum_list_addf v by (simp add: x)
qed simp

section \<open>Directories and dictionaries\<close>

definition dir_loaded :: "seed \<Rightarrow> (u64 \<times> u64 list) list \<Rightarrow> struct_storage \<Rightarrow> struct_storage" where
  "dir_loaded seed slots s = (case map_of slots (ss_hash s) of None \<Rightarrow> s | Some a \<Rightarrow> s\<lparr>ss_dir := from_slots (map BlockDescriptor a) seed\<rparr>)"

definition dict_loaded :: "(u64 \<Rightarrow> dictionary) \<Rightarrow> (u64 \<times> u64) list \<Rightarrow> struct_storage \<Rightarrow> struct_storage" where
  "dict_loaded D dicts s = (case map_of dicts (ss_hash s) of None \<Rightarrow> s
    | Some r \<Rightarrow> if is_allocated (BlockDescriptor r) then s\<lparr>ss_dict := ds_load (D (ss_hash s)) (BlockDescriptor r) (ss_dict s)\<rparr> else s)"

lemma loaded_hash [simp]: "ss_hash (dir_loaded seed slots s) = ss_hash s" "ss_hash (dict_loaded D dicts s) = ss_hash s"
  by (simp_all add: dir_loaded_def dict_loaded_def split: option.split)

lemma load_dirs_ok:
  assumes "distinct (map fst slots)" "fst ` set slots \<subseteq> ss_hash ` set types" "[] \<notin> snd ` set slots" "distinct (map ss_hash types)"
  shows "load_dirs seed slots (types, used) = Ok (map (dir_loaded seed slots) types,
    used @ concat (map (\<lambda>x. map desc_run (filter is_allocated (map BlockDescriptor (snd x)))) slots))"
  using assms
proof (induction slots arbitrary: types used)
  case Nil
  have "dir_loaded seed [] = (\<lambda>s. s)" by (simp add: fun_eq_iff dir_loaded_def)
  then show ?case by simp
next
  case (Cons x slots)
  obtain h a where x: "x = (h, a)" by fastforce
  obtain n where n: "slot_pos h types = Some n" using Cons.prems(2) x by (cases "slot_pos h types") (auto simp: slot_pos_None)
  let ?g = "\<lambda>s. s\<lparr>ss_dir := from_slots (map BlockDescriptor a) seed\<rparr>"
  let ?types = "map (\<lambda>s. if ss_hash s = h then ?g s else s) types"
  have hs: "map ss_hash ?types = map ss_hash types" by simp
  have im: "ss_hash ` set ?types = ss_hash ` set types" using arg_cong [OF hs, of set] by (simp only: set_map)
  have h: "map_of slots h = None" using Cons.prems(1) x by (force simp: map_of_eq_None_iff)
  have "load_dirs seed slots (?types, used @ map desc_run (filter is_allocated (map BlockDescriptor a)))
    = Ok (map (dir_loaded seed slots) ?types, (used @ map desc_run (filter is_allocated (map BlockDescriptor a)))
        @ concat (map (\<lambda>x. map desc_run (filter is_allocated (map BlockDescriptor (snd x)))) slots))"
    by (rule Cons.IH; (unfold hs im)?) (use Cons.prems in auto)
  moreover have "map (dir_loaded seed slots) ?types = map (dir_loaded seed (x # slots)) types"
    using h by (auto simp: x dir_loaded_def)
  ultimately show ?case
    using Cons.prems(3) slot_update_map [OF Cons.prems(4) n, of ?g] n by (auto simp: x commit_slot_of_def Let_def)
qed

lemma load_dicts_ok:
  assumes "distinct (map fst dicts)" "fst ` set dicts \<subseteq> ss_hash ` set types" "distinct (map ss_hash types)"
    "\<And>h r. (h, r) \<in> set dicts \<Longrightarrow> is_allocated (BlockDescriptor r) \<Longrightarrow>
       \<exists>bytes. read_run f (desc_run (BlockDescriptor r)) = Ok bytes \<and> dict_from_bytes E bytes = Ok (D h)"
  shows "load_dicts E f dicts (types, used) = Ok (map (dict_loaded D dicts) types,
    used @ map desc_run (filter is_allocated (map (\<lambda>x. BlockDescriptor (snd x)) dicts)))"
  using assms
proof (induction dicts arbitrary: types used)
  case Nil
  have "dict_loaded D [] = (\<lambda>s. s)" by (simp add: fun_eq_iff dict_loaded_def)
  then show ?case by simp
next
  case (Cons x dicts)
  obtain h r where x: "x = (h, r)" by fastforce
  obtain n where n: "slot_pos h types = Some n" using Cons.prems(2) x by (cases "slot_pos h types") (auto simp: slot_pos_None)
  have h: "map_of dicts h = None" using Cons.prems(1) x by (force simp: map_of_eq_None_iff)
  show ?case
  proof (cases "is_allocated (BlockDescriptor r)")
    case False
    have "load_dicts E f dicts (types, used) = Ok (map (dict_loaded D dicts) types,
        used @ map desc_run (filter is_allocated (map (\<lambda>x. BlockDescriptor (snd x)) dicts)))"
      by (rule Cons.IH) (use Cons.prems in auto)
    moreover have "map (dict_loaded D dicts) types = map (dict_loaded D (x # dicts)) types"
      using h False by (auto simp: x dict_loaded_def)
    ultimately show ?thesis using False n by (simp add: x commit_slot_of_def)
  next
    case True
    obtain bytes where b: "read_run f (desc_run (BlockDescriptor r)) = Ok bytes" "dict_from_bytes E bytes = Ok (D h)"
      using Cons.prems(4) [of h r] True x by auto
    let ?g = "\<lambda>s. s\<lparr>ss_dict := ds_load (D h) (BlockDescriptor r) (ss_dict s)\<rparr>"
    let ?types = "map (\<lambda>s. if ss_hash s = h then ?g s else s) types"
    have hs: "map ss_hash ?types = map ss_hash types" by simp
    have im: "ss_hash ` set ?types = ss_hash ` set types" using arg_cong [OF hs, of set] by (simp only: set_map)
  have im: "ss_hash ` set ?types = ss_hash ` set types" using arg_cong [OF hs, of set] by (simp only: set_map)
    have "load_dicts E f dicts (?types, used @ [desc_run (BlockDescriptor r)]) = Ok (map (dict_loaded D dicts) ?types,
        (used @ [desc_run (BlockDescriptor r)]) @ map desc_run (filter is_allocated (map (\<lambda>x. BlockDescriptor (snd x)) dicts)))"
      by (rule Cons.IH; (unfold hs im)?) (use Cons.prems in auto)
    moreover have "map (dict_loaded D dicts) ?types = map (dict_loaded D (x # dicts)) types"
      using h True by (auto simp: x dict_loaded_def)
    ultimately show ?thesis
      using slot_update_map [OF Cons.prems(3) n, of ?g] n True b by (simp add: x commit_slot_of_def Let_def)
  qed
qed

section \<open>The store a commit names\<close>

lemma pages_reloaded:
  assumes "staged_ok E f h d dir []" "ds_dict d' = ds_dict d"
    "\<And>b bytes. b < dir_len dir \<Longrightarrow> is_allocated (dir_slots dir ! b) \<Longrightarrow> read_run f (desc_run (dir_slots dir ! b)) = Ok bytes \<Longrightarrow>
       read_run f' (desc_run (dir_slots dir ! b)) = Ok bytes"
  shows "staged_ok E f' h d' dir []" "stage_view E f' h d' dir [] = stage_view E f h d dir []"
    "stage_fits E f h d dir [] \<Longrightarrow> stage_fits E f' h d' dir []"
proof -
  have "read_page E f' h d' dir b = read_page E f h d dir b" if b: "b < dir_len dir" for b
  proof -
    obtain p where p: "read_page E f h d dir b = Ok p" using staged_okD [OF assms(1) b] by auto
    have "read_page E f' h d' dir b = Ok p" by (rule read_page_kept [OF p assms(2) b refl b]) (rule assms(3) [OF b])
    with p show ?thesis by simp
  qed
  then have "\<forall>b<dir_len dir. read_page E f' h d' dir b = stage E f h d dir [] b" by simp
  note t = pages_transfer [OF assms(1) refl refl this]
  show "staged_ok E f' h d' dir []" "stage_view E f' h d' dir [] = stage_view E f h d dir []"
    "stage_fits E f h d dir [] \<Longrightarrow> stage_fits E f' h d' dir []" by (rule t; assumption?)+
qed

text \<open>A registered slot as it comes back from a commit: its pages and dictionary, nothing cached.\<close>

definition slot_reloaded :: "struct_storage \<Rightarrow> struct_storage \<Rightarrow> struct_storage" where
  "slot_reloaded s0 s = s0\<lparr>ss_dir := ss_dir s, ss_dict := ds_load (ds_dict (ss_dict s)) (ds_desc (ss_dict s)) (ss_dict s0)\<rparr>"

lemma slot_reloaded_ok:
  assumes "fresh_slot s0" "ss_hash s0 = ss_hash s" "slot_ok E f seed {} s"
    "\<And>r b. r \<in># slot_m s \<Longrightarrow> read_run f r = Ok b \<Longrightarrow> read_run f' r = Ok b"
  shows "slot_ok E f' seed {} (slot_reloaded s0 s)" "slot_view E f' seed (slot_reloaded s0 s) = slot_view E f seed s"
    "slot_m (slot_reloaded s0 s) = slot_m s" "slot_logged E f seed s \<Longrightarrow> slot_logged E f' seed (slot_reloaded s0 s)"
    "stage_fits E f (ss_hash s) (ss_dict s) (slot_dir seed s) [] \<Longrightarrow>
      stage_fits E f' (ss_hash s) (ss_dict (slot_reloaded s0 s)) (slot_dir seed (slot_reloaded s0 s)) []"
proof -
  let ?s = "slot_reloaded s0 s"
  have e: "ss_hash ?s = ss_hash s" "ds_dict (ss_dict ?s) = ds_dict (ss_dict s)" "ds_desc (ss_dict ?s) = ds_desc (ss_dict s)"
    "slot_dir seed ?s = slot_dir seed s" "ss_cache ?s = []" "ss_dead ?s = []" "ss_dir ?s = ss_dir s"
    using assms(1, 2) by (simp_all add: slot_reloaded_def ds_load_def slot_dir_def fresh_slot_def)
  have pages: "staged_ok E f (ss_hash s) (ss_dict s) (slot_dir seed s) []" "dict_len (ds_dict (ss_dict s)) \<le> DICT_CAP"
    using slot_okD(1) [OF assms(3)] by (simp_all add: slot_pages_ok_def)
  have kept: "read_run f' (desc_run (dir_slots (slot_dir seed s) ! b)) = Ok bytes"
    if "b < dir_len (slot_dir seed s)" "is_allocated (dir_slots (slot_dir seed s) ! b)"
      "read_run f (desc_run (dir_slots (slot_dir seed s) ! b)) = Ok bytes" for b bytes
  proof (rule assms(4) [OF _ that(3)])
    show "desc_run (dir_slots (slot_dir seed s) ! b) \<in># slot_m s"
    proof (cases "ss_dir s")
      case None
      with that(1, 2) show ?thesis by (simp add: slot_dir_def dir_new_def dir_len_def)
    next
      case (Some dir)
      then have d: "dir_slots dir ! b \<in> set (dir_slots dir)" "desc_run (dir_slots dir ! b) \<in># desc_m (dir_slots dir ! b)"
        using that(1, 2) by (simp_all add: slot_dir_def dir_len_def desc_m_def)
      then have "desc_run (dir_slots dir ! b) \<in># dir_m dir" unfolding dir_m_def in_sum_list_mset set_map by (blast intro: imageI)
      then show ?thesis using Some by (simp add: slot_m_def slot_dir_def)
    qed
  qed
  have p: "staged_ok E f' (ss_hash s) (ss_dict ?s) (slot_dir seed s) []"
    "stage_view E f' (ss_hash s) (ss_dict ?s) (slot_dir seed s) [] = stage_view E f (ss_hash s) (ss_dict s) (slot_dir seed s) []"
    "stage_fits E f (ss_hash s) (ss_dict s) (slot_dir seed s) [] \<Longrightarrow> stage_fits E f' (ss_hash s) (ss_dict ?s) (slot_dir seed s) []"
    by (rule pages_reloaded [OF pages(1) e(2)]; assumption?; erule (2) kept)+
  have v: "page_view E f' seed ?s = page_view E f seed s" using p(2) by (simp add: page_view_def e)
  show "slot_ok E f' seed {} ?s" using p(1) pages(2) by (simp add: slot_ok_def slot_pages_ok_def e)
  show "slot_view E f' seed ?s = slot_view E f seed s"
    using slot_view_unqueued [OF assms(3)] v by (simp add: fun_eq_iff slot_view_def e)
  show "slot_m ?s = slot_m s" by (simp add: slot_m_def e)
  show "stage_fits E f (ss_hash s) (ss_dict s) (slot_dir seed s) [] \<Longrightarrow> stage_fits E f' (ss_hash s) (ss_dict ?s) (slot_dir seed ?s) []"
    using p(3) by (simp add: e)
  show "slot_logged E f' seed ?s" if "slot_logged E f seed s"
  proof -
    have "dict_ok E f s" "dir_seed (slot_dir seed s) = seed" using that by (simp_all add: slot_logged_def)
    moreover have "desc_run (ds_desc (ss_dict s)) \<in># slot_m s" if "is_allocated (ds_desc (ss_dict s))"
      using that by (simp add: slot_m_def desc_m_def)
    ultimately show ?thesis using assms(4) unfolding slot_logged_def dict_ok_def e by (auto split: if_splits)
  qed
qed

text \<open>Every run the store names is readable.\<close>

lemma live_readable:
  assumes "engine_inv E ps" "r \<in># live_m ps"
  shows "r = Run 0 RESERVED_BLOCKS \<or> (\<exists>b. read_run (ps_file ps) r = Ok b)"
proof -
  have ok: "engine_ok E ps" and lg: "log_ok E ps" using assms(1) by (simp_all add: engine_inv_def)
  note log = log_okD [OF lg]
  have chain: "meta_ok (ps_meta ps)" "links E (ps_file ps) desc_EMPTY (chain_of (ps_meta ps))" using log(1) by (simp_all add: addr_ok_def)
  consider "r = Run 0 RESERVED_BLOCKS" | s where "s \<in> set (ps_types ps)" "r \<in># slot_m s" | "r \<in># mset (meta_runs (ps_meta ps))"
    using assms(2) by (auto simp: live_m_def in_sum_list_mset)
  then show ?thesis
  proof cases
    case 2
    obtain k where k: "k < length (ps_types ps)" "s = ps_types ps ! k" using 2(1) by (auto simp: in_set_conv_nth)
    have st: "staged_ok E (ps_file ps) (ss_hash s) (ss_dict s) (slot_dir (ps_seed ps) s) []"
      using ok k by (simp add: engine_ok_def types_ok_def slot_ok_def slot_pages_ok_def)
    have dk: "dict_ok E (ps_file ps) s" using log(3) [OF 2(1)] by (simp add: slot_logged_def)
    consider dir d where "ss_dir s = Some dir" "d \<in> set (dir_slots dir)" "r \<in># desc_m d" | "r \<in># desc_m (ds_desc (ss_dict s))"
      using 2(2) by (auto simp: slot_m_def dir_m_def in_sum_list_mset split: option.splits)
    then show ?thesis
    proof cases
      case 1
      obtain b where b: "b < dir_len dir" "d = dir_slots dir ! b" using 1(2) by (auto simp: in_set_conv_nth dir_len_def)
      have "slot_dir (ps_seed ps) s = dir" using 1(1) by (simp add: slot_dir_def)
      with staged_okD [OF st, of b] b obtain p where "read_page E (ps_file ps) (ss_hash s) (ss_dict s) dir b = Ok p" by auto
      with 1(3) b show ?thesis
        by (auto simp: desc_m_def read_page_def descriptor_def try_then_Ok_iff split: if_splits)
    qed (use dk in \<open>auto simp: desc_m_def dict_ok_def split: if_splits\<close>)
  next
    case 3
    then obtain d where "d \<in> set (chain_of (ps_meta ps))" "r = desc_run d" using chain_runs [OF chain(1), symmetric] by auto
    moreover have "\<exists>c. read_chunk E (ps_file ps) (desc_run d) = Ok c" if "d \<in> set cs" "links E (ps_file ps) p cs" for d p cs
      using that by (induction cs arbitrary: p) auto
    ultimately show ?thesis using chain(2) by (fastforce simp: read_chunk_def try_then_Ok_iff)
  qed simp
qed

lemma protected_blocks:
  assumes "alloc_owns a (mset rs)"
  shows "ext_blocks (set (protected (set_protected rs a))) = \<Union> (blocks ` set rs)"
proof -
  have "alloc_wf a rs" using assms alloc_owns_iff by blast
  then have t: "tiles a (rs @ deferred a)" by (simp add: alloc_wf_def)
  have pos: "\<forall>r\<in>set rs. 0 < run_count r" using t by (simp add: tiles_def)
  then have all: "filter (\<lambda>r. 0 < run_count r) rs = rs" by (simp add: filter_id_conv)
  have "r = q" if "r \<in> set rs" "q \<in> set rs" "run_start r = run_start q" for r q
  proof (rule ccontr)
    assume ne: "r \<noteq> q"
    have "run_start r \<in> blocks r \<inter> blocks q" using that pos by (auto simp: blocks_def run_end_def)
    with tiles_disjoint [OF t _ _ ne] that show False by auto
  qed
  then have "\<forall>r\<in>set rs. \<forall>q\<in>set rs. run_start r = run_start q \<longrightarrow> r = q" by blast
  from fold_bt_insert [of "[]", OF _ this]
  have "set (fold (\<lambda>r m. bt_insert (run_start r) (run_count r) m) rs []) = (\<lambda>r. (run_start r, run_count r)) ` set rs" by simp
  then show ?thesis
    by (auto simp: set_protected_def retry_pending_def free_all_gens Let_def all ext_blocks_def blocks_def run_end_def)
qed

lemma owns_layout:
  assumes "alloc_owns a0 M" "mset used = M" "\<And>r. r \<in># M \<Longrightarrow> run_end r \<le> n"
  shows "alloc_owns (set_protected used (from_layout n used)) M"
    "previous_gen (set_protected used (from_layout n used)) = []"
    "ext_blocks (set (protected (set_protected used (from_layout n used)))) = \<Union> (blocks ` set_mset M)"
proof -
  have wf: "alloc_wf a0 used" using assms(1) alloc_owns_iff [OF assms(2)] by simp
  then have t: "tiles a0 (used @ deferred a0)" by (simp add: alloc_wf_def)
  have "owners b used \<le> 1" for b
  proof -
    have "owners b (used @ deferred a0) \<le> 1" using t by (auto simp: tiles_def of_bool_def dest!: spec [of _ b] split: if_splits)
    then show ?thesis by simp
  qed
  moreover have "\<forall>r\<in>set used. run_end r \<le> n" using assms(2, 3) by auto
  ultimately have l: "alloc_wf (from_layout n used) (filter (\<lambda>r. 0 < run_count r) used)" "protected (from_layout n used) = []"
    using from_layout_wf by blast+
  have id: "filter (\<lambda>r. 0 < run_count r) used = used" using t by (simp add: tiles_def filter_id_conv)
  have "alloc_owns (from_layout n used) (mset used)" using l(1) unfolding id alloc_owns_iff [OF refl] .
  from protected_blocks [OF this]
  show "ext_blocks (set (protected (set_protected used (from_layout n used)))) = \<Union> (blocks ` set_mset M)"
    using arg_cong [OF assms(2), of set_mset] by simp
  from id set_protected_wf [OF l(1), of used] show "alloc_owns (set_protected used (from_layout n used)) M"
    using alloc_owns_iff [OF assms(2)] by simp
  show "previous_gen (set_protected used (from_layout n used)) = []"
    using l(2) by (simp add: set_protected_def retry_pending_def Let_def free_all_gens)
qed

lemma allocated_runs: "mset (map desc_run (filter is_allocated ds)) = sum_list (map desc_m ds)"
  by (induction ds) (simp_all add: desc_m_def)

lemma allocated_concat:
  "mset (concat (map (\<lambda>x. map desc_run (filter is_allocated (g x))) xs)) = sum_list (map (\<lambda>x. sum_list (map desc_m (g x))) xs)"
  by (induction xs) (simp_all only: concat.simps list.map mset_append mset.simps sum_list.Nil sum_list.Cons allocated_runs)

text \<open>The folded log names the slots of the store; \<open>dict_for\<close> is the dictionary it leads to.\<close>

definition log_names :: "libs \<Rightarrow> block_file \<Rightarrow> seed \<Rightarrow> replay_state \<Rightarrow> struct_storage list \<Rightarrow> bool" where
  "log_names E f seed rp types \<longleftrightarrow> replays rp types \<and> distinct (map ss_hash types)
     \<and> (\<forall>s\<in>set types. slot_logged E f seed s \<and> 0 < dir_len (slot_dir seed s))"

definition dict_for :: "struct_storage list \<Rightarrow> u64 \<Rightarrow> dictionary" where
  "dict_for types h = (case slot_pos h types of None \<Rightarrow> dict_new | Some n \<Rightarrow> ds_dict (ss_dict (types ! n)))"

lemma log_namesD:
  assumes "log_names E f seed rp types"
  shows "distinct (map fst (rp_slots rp))" "distinct (map fst (rp_dicts rp))" "distinct (map ss_hash types)"
    "fst ` set (rp_slots rp) \<subseteq> ss_hash ` set types" "fst ` set (rp_dicts rp) \<subseteq> ss_hash ` set types"
  using assms by (auto simp: log_names_def replays_def strict_sorted_iff dom_map_of_conv_image_fst)

lemma log_names_slot:
  assumes "log_names E f seed rp types" "s \<in> set types"
  shows "map_of (rp_slots rp) (ss_hash s) = slot_addr s"
    "(case map_of (rp_dicts rp) (ss_hash s) of None \<Rightarrow> 0 | Some r \<Rightarrow> r) = desc_raw (ds_desc (ss_dict s))"
    "dict_ok E f s" "dir_seed (slot_dir seed s) = seed" "0 < dir_len (slot_dir seed s)" "dict_for types (ss_hash s) = ds_dict (ss_dict s)"
proof -
  show "dict_for types (ss_hash s) = ds_dict (ss_dict s)"
    using slot_pos_nth [OF log_namesD(3) [OF assms(1)]] assms(2) by (auto simp: dict_for_def in_set_conv_nth)
qed (use assms in \<open>simp_all add: log_names_def replays_def slot_logged_def\<close>)

lemma log_slots_nonempty:
  assumes "log_names E f seed rp types"
  shows "[] \<notin> snd ` set (rp_slots rp)"
proof
  assume "[] \<in> snd ` set (rp_slots rp)"
  then obtain h where h: "(h, []) \<in> set (rp_slots rp)" by auto
  then obtain s where s: "s \<in> set types" "h = ss_hash s" using log_namesD(4) [OF assms] by force
  note at = log_names_slot [OF assms s(1)]
  have "slot_addr s = Some []" using at(1) map_of_is_SomeI [OF log_namesD(1) [OF assms] h] s(2) by simp
  then obtain dir where "ss_dir s = Some dir" "dir_slots dir = []" by (auto simp: slot_addr_def)
  then show False using at(5) by (simp add: slot_dir_def dir_len_def)
qed

lemma log_dict_reads:
  assumes "log_names E f seed rp types" "\<And>r b. r \<in># sum_list (map slot_m types) \<Longrightarrow> read_run f r = Ok b \<Longrightarrow> read_run f' r = Ok b"
    "(h, r) \<in> set (rp_dicts rp)" "is_allocated (BlockDescriptor r)"
  shows "\<exists>bytes. read_run f' (desc_run (BlockDescriptor r)) = Ok bytes \<and> dict_from_bytes E bytes = Ok (dict_for types h)"
proof -
  obtain s where s: "s \<in> set types" "h = ss_hash s" using log_namesD(5) [OF assms(1)] assms(3) by force
  note at = log_names_slot [OF assms(1) s(1)]
  have "r = desc_raw (ds_desc (ss_dict s))" using at(2) map_of_is_SomeI [OF log_namesD(2) [OF assms(1)] assms(3)] s(2) by simp
  then have d: "BlockDescriptor r = ds_desc (ss_dict s)" by simp
  have "desc_run (ds_desc (ss_dict s)) \<in># slot_m s" using assms(4) by (simp add: slot_m_def desc_m_def d)
  then have "desc_run (ds_desc (ss_dict s)) \<in># sum_list (map slot_m types)" using s(1) by (auto simp: in_sum_list_mset)
  then show ?thesis using at(3) assms(2, 4) at(6) unfolding dict_ok_def d s(2) by auto
qed

lemma log_slot_reloaded:
  assumes "log_names E f seed rp types" "s \<in> set types" "ss_hash old = ss_hash s" "fresh_slot old"
  shows "dict_loaded (dict_for types) (rp_dicts rp) (dir_loaded seed (rp_slots rp) old) = slot_reloaded old s"
proof -
  note at = log_names_slot [OF assms(1, 2)]
  have dir: "dir_loaded seed (rp_slots rp) old = old\<lparr>ss_dir := ss_dir s\<rparr>"
    using at(1, 4, 5) assms(3, 4)
    by (cases "ss_dir s") (auto simp: dir_loaded_def slot_addr_def from_slots_def fresh_slot_def slot_dir_def comp_def dir_len_def)
  show ?thesis
  proof (cases "is_allocated (ds_desc (ss_dict s))")
    case True
    then have "map_of (rp_dicts rp) (ss_hash s) = Some (desc_raw (ds_desc (ss_dict s)))"
      using at(2) by (auto simp: is_allocated_def desc_count_def split: option.splits)
    then show ?thesis unfolding dir using True at(6) assms(3) by (simp add: dict_loaded_def slot_reloaded_def)
  next
    case False
    then have "ds_dict (ss_dict s) = dict_new" "ds_desc (ss_dict s) = desc_EMPTY" using at(3) by (simp_all add: dict_ok_def)
    moreover have "\<not> is_allocated (BlockDescriptor r)" if "map_of (rp_dicts rp) (ss_hash s) = Some r" for r
      using that at(2) False by auto
    ultimately show ?thesis unfolding dir using assms(3, 4)
      by (auto simp: dict_loaded_def slot_reloaded_def ds_load_def fresh_slot_def split: option.split)
  qed
qed

text \<open>The runs the log names are those of the slots.\<close>

lemma log_runs:
  assumes "log_names E f seed rp types"
  shows "mset (concat (map (\<lambda>x. map desc_run (filter is_allocated (map BlockDescriptor (snd x)))) (rp_slots rp)))
    + mset (map desc_run (filter is_allocated (map (\<lambda>x. BlockDescriptor (snd x)) (rp_dicts rp)))) = sum_list (map slot_m types)"
    (is "mset ?pages + mset ?dicts = _")
proof -
  note at = log_names_slot [OF assms] and keys = log_namesD [OF assms]
  have "mset ?pages = sum_list (map (\<lambda>x. sum_list (map desc_m (map BlockDescriptor (snd x)))) (rp_slots rp))" by (rule allocated_concat)
  also have "\<dots> = sum_list (map (\<lambda>s. case map_of (rp_slots rp) (ss_hash s) of None \<Rightarrow> {#} | Some a \<Rightarrow> sum_list (map desc_m (map BlockDescriptor a))) types)"
    by (rule keyed_sum [OF keys(1, 4, 3)])
  also have "\<dots> = sum_list (map (\<lambda>s. case ss_dir s of None \<Rightarrow> {#} | Some dir \<Rightarrow> dir_m dir) types)"
    using at(1) by (intro arg_cong [of _ _ sum_list] map_cong refl) (auto simp: slot_addr_def dir_m_def comp_def split: option.split)
  finally have a: "mset ?pages = sum_list (map (\<lambda>s. case ss_dir s of None \<Rightarrow> {#} | Some dir \<Rightarrow> dir_m dir) types)" .
  have "mset ?dicts = sum_list (map (\<lambda>x. desc_m (BlockDescriptor (snd x))) (rp_dicts rp))" by (simp only: allocated_runs list.map_comp comp_def)
  also have "\<dots> = sum_list (map (\<lambda>s. case map_of (rp_dicts rp) (ss_hash s) of None \<Rightarrow> {#} | Some r \<Rightarrow> desc_m (BlockDescriptor r)) types)"
    by (rule keyed_sum [OF keys(2, 5, 3)])
  also have "\<dots> = sum_list (map (\<lambda>s. desc_m (ds_desc (ss_dict s))) types)"
  proof (intro arg_cong [of _ _ sum_list] map_cong refl)
    fix s assume "s \<in> set types"
    from at(2) [OF this] show "(case map_of (rp_dicts rp) (ss_hash s) of None \<Rightarrow> {#} | Some r \<Rightarrow> desc_m (BlockDescriptor r)) = desc_m (ds_desc (ss_dict s))"
      by (cases "ds_desc (ss_dict s)") (auto simp: desc_m_def is_allocated_def desc_count_def split: option.splits)
  qed
  finally show ?thesis unfolding a slot_m_def sum_list_addf by simp
qed

text \<open>Folding the log over fresh slots gives the slots of the store and accounts for every run of it.\<close>

lemma log_loads:
  assumes "log_names E f seed rp types" "map ss_hash types0 = map ss_hash types" "list_all fresh_slot types0"
    "\<And>r b. r \<in># sum_list (map slot_m types) \<Longrightarrow> read_run f r = Ok b \<Longrightarrow> read_run f' r = Ok b"
  obtains st used' where "load_dirs seed (rp_slots rp) (types0, used) = Ok st"
    "load_dicts E f' (rp_dicts rp) st = Ok (map2 slot_reloaded types0 types, used')" "mset used' = mset used + sum_list (map slot_m types)"
proof -
  let ?types1 = "map (dir_loaded seed (rp_slots rp)) types0"
  note keys = log_namesD [OF assms(1)]
  have im: "ss_hash ` set types0 = ss_hash ` set types" using arg_cong [OF assms(2), of set] by simp
  have hs: "map ss_hash ?types1 = map ss_hash types" using assms(2) by (simp add: comp_def)
  have im1: "ss_hash ` set ?types1 = ss_hash ` set types" using arg_cong [OF hs, of set] by (simp only: set_map)
  have len: "length types0 = length types" using assms(2) by (rule map_eq_imp_length_eq)
  have "dict_loaded (dict_for types) (rp_dicts rp) (?types1 ! k) = slot_reloaded (types0 ! k) (types ! k)" if "k < length types" for k
    using that len arg_cong [OF assms(2), of "\<lambda>xs. xs ! k"] assms(3)
    by (simp add: list_all_length log_slot_reloaded [OF assms(1)])
  then have t: "map (dict_loaded (dict_for types) (rp_dicts rp)) ?types1 = map2 slot_reloaded types0 types"
    using len by (intro nth_equalityI) simp_all
  show thesis
  proof (rule that)
    show "load_dirs seed (rp_slots rp) (types0, used) = Ok (?types1,
        used @ concat (map (\<lambda>x. map desc_run (filter is_allocated (map BlockDescriptor (snd x)))) (rp_slots rp)))" (is "_ = Ok (_, ?used1)")
      by (rule load_dirs_ok [OF keys(1) _ log_slots_nonempty [OF assms(1)]]; (unfold assms(2) im)?) (use keys(3, 4) in auto)
    show "load_dicts E f' (rp_dicts rp) (?types1, ?used1) = Ok (map2 slot_reloaded types0 types,
        ?used1 @ map desc_run (filter is_allocated (map (\<lambda>x. BlockDescriptor (snd x)) (rp_dicts rp))))"
      unfolding t [symmetric]
      by (rule load_dicts_ok [OF keys(2)]; (unfold hs im1)?) (use keys(3, 5) log_dict_reads [OF assms(1, 4)] in auto)
  qed (simp only: mset_append add.assoc log_runs [OF assms(1)])
qed

lemma reloaded_engine:
  assumes "engine_inv E ps" "ps_pending ps = []" "map ss_hash types0 = map ss_hash (ps_types ps)" "list_all fresh_slot types0"
    "\<And>r b. r \<in># live_m ps \<Longrightarrow> read_run (ps_file ps) r = Ok b \<Longrightarrow> read_run (ps_file ps') r = Ok b"
    "alloc_owns (ps_alloc ps') (live_m ps)" "ps_types ps' = map2 slot_reloaded types0 (ps_types ps)"
    "ps_meta ps' = meta_restored (chain_of (ps_meta ps))" "ps_seed ps' = ps_seed ps" "bf_seed (ps_file ps') = ps_seed ps" "ps_pending ps' = []"
  shows "engine_inv E ps'" "engine_view E ps' = engine_view E ps" "live_m ps' = live_m ps"
proof -
  let ?f = "ps_file ps" and ?f' = "ps_file ps'" and ?ts = "ps_types ps" and ?ts' = "ps_types ps'" and ?m = "ps_meta ps" and ?seed = "ps_seed ps"
  have ok: "engine_ok E ps" "space_ok ps" "types_fit E ps" "log_ok E ps" using assms(1) by (simp_all add: engine_inv_def)
  note log = log_okD [OF ok(4)]
  have m: "meta_ok ?m" "links E ?f desc_EMPTY (chain_of ?m)" "\<forall>s\<in>set ?ts. ss_dir s = None \<longrightarrow> ds_desc (ss_dict s) = desc_EMPTY"
    using log(1) by (simp_all add: addr_ok_def)
  have len0: "length types0 = length ?ts" using assms(3) by (rule map_eq_imp_length_eq)
  have len: "length ?ts' = length ?ts" using len0 assms(7) by simp
  have at: "?ts' ! k = slot_reloaded (types0 ! k) (?ts ! k)" "ss_hash (types0 ! k) = ss_hash (?ts ! k)" "fresh_slot (types0 ! k)"
    if "k < length ?ts" for k
    using that len0 assms(4, 7) arg_cong [OF assms(3), of "\<lambda>xs. xs ! k"] by (simp_all add: list_all_length)
  have fields: "ss_hash (?ts' ! k) = ss_hash (?ts ! k)" "slot_addr (?ts' ! k) = slot_addr (?ts ! k)" "ss_dir (?ts' ! k) = ss_dir (?ts ! k)"
    "ds_desc (ss_dict (?ts' ! k)) = ds_desc (ss_dict (?ts ! k))" if "k < length ?ts" for k
    using at [OF that] by (simp_all add: slot_reloaded_def slot_addr_def ds_load_def)
  then have hs: "map ss_hash ?ts' = map ss_hash ?ts" using len by (intro nth_equalityI) simp_all
  have each: "slot_ok E ?f' ?seed {} (?ts' ! k)" "slot_view E ?f' ?seed (?ts' ! k) = slot_view E ?f ?seed (?ts ! k)"
    "slot_m (?ts' ! k) = slot_m (?ts ! k)" "slot_logged E ?f' ?seed (?ts' ! k)"
    "stage_fits E ?f' (ss_hash (?ts' ! k)) (ss_dict (?ts' ! k)) (slot_dir ?seed (?ts' ! k)) []" if k: "k < length ?ts" for k
  proof -
    have "slot_ok E ?f ?seed {} (?ts ! k)" using ok(1) assms(2) k by (simp add: engine_ok_def types_ok_def)
    note r = slot_reloaded_ok [OF at(3, 2) [OF k] this, of ?f', folded at(1) [OF k]]
    have live: "r \<in># live_m ps" if "r \<in># slot_m (?ts ! k)" for r using that k by (auto simp: live_m_def in_sum_list_mset)
    note r = r [OF assms(5) [OF live]]
    show "slot_ok E ?f' ?seed {} (?ts' ! k)" "slot_view E ?f' ?seed (?ts' ! k) = slot_view E ?f ?seed (?ts ! k)"
      "slot_m (?ts' ! k) = slot_m (?ts ! k)" by (rule r(1-3); assumption)+
    show "slot_logged E ?f' ?seed (?ts' ! k)" by (rule r(4) [OF _ _ log(3)]) (use k in simp_all)
    show "stage_fits E ?f' (ss_hash (?ts' ! k)) (ss_dict (?ts' ! k)) (slot_dir ?seed (?ts' ! k)) []"
      unfolding fields(1) [OF k] by (rule r(5)) (use ok(3) k in \<open>simp_all add: types_fit_def\<close>)
  qed
  have links: "links E ?f' desc_EMPTY (chain_of ?m)" by (rule links_kept [OF _ m(2)]) (rule assms(5) [OF live_chain [OF m(1)]])
  have "length (chain_of ?m) \<le> MAX_EDIT_CHUNKS + 1" using m(1) by (auto simp: meta_ok_def chain_of_def)
  then have m': "meta_ok (ps_meta ps')" "chain_of (ps_meta ps') = chain_of ?m"
    using chain_restored [OF links_allocated [OF links]] by (simp_all add: assms(8))
  have "map slot_m ?ts' = map slot_m ?ts" using each(3) len by (intro nth_equalityI) simp_all
  moreover have "mset (meta_runs (ps_meta ps')) = mset (meta_runs ?m)" using chain_runs [OF m'(1)] chain_runs [OF m(1)] m'(2) by simp
  ultimately show live: "live_m ps' = live_m ps" by (simp add: live_m_def)
  obtain rp where rp: "replay_chain E ?f (chain_of ?m) replay_empty = Ok rp" "replays rp ?ts" using log(1) by (auto simp: addr_ok_def)
  have "replay_chain E ?f' (chain_of ?m) replay_empty = Ok rp" by (rule replay_chain_kept [OF _ rp(1)]) (rule assms(5) [OF live_chain [OF m(1)]])
  moreover have "ss_hash ` set ?ts' = ss_hash ` set ?ts" using arg_cong [OF hs, of set] by (simp only: set_map)
  then have "replays rp ?ts'" using rp(2) fields unfolding replays_def all_set_conv_all_nth len by simp
  ultimately have "addr_ok E ?f' (ps_meta ps') ?ts'"
    using m' links m(3) fields unfolding addr_ok_def all_set_conv_all_nth len by auto
  then have "log_ok E ps'" using each(4) assms(9, 10) unfolding log_ok_def all_set_conv_all_nth len by auto
  moreover have "space_ok ps'" using assms(6) live m'(1) by (simp add: space_ok_def meta_ok_def)
  moreover have "types_fit E ps'" using each(5) assms(9) unfolding types_fit_def all_set_conv_all_nth len by simp
  moreover have "engine_ok E ps'"
    using ok(1) each(1) assms(9, 11) len hs by (simp add: engine_ok_def types_ok_def)
  ultimately show "engine_inv E ps'" by (simp add: engine_inv_def)
  show "engine_view E ps' = engine_view E ps"
    using each(2) slot_pos_hashes [OF hs] slot_pos_Some [of _ ?ts] assms(9) by (auto simp: fun_eq_iff types_view_def split: option.split)
qed

lemma load_commit_ok:
  assumes "engine_inv E ps" "ps_pending ps = []" "bf_seed f' = ps_seed ps" "0 < len_blocks f'"
    "\<And>r b. r \<in># live_m ps \<Longrightarrow> read_run (ps_file ps) r = Ok b \<Longrightarrow> read_run f' r = Ok b"
    "map ss_hash types0 = map ss_hash (ps_types ps)" "list_all fresh_slot types0"
  obtains a m types' where "load_commit E f' (CommitFrame ts (meta_head (ps_meta ps))) types0 = Ok (a, m, types')"
    "ext_blocks (set (protected a)) = \<Union> (blocks ` set_mset (live_m ps))" "previous_gen a = []"
    "map ss_hash types' = map ss_hash types0"
    "\<And>ps'. ps_file ps' = f' \<Longrightarrow> ps_alloc ps' = a \<Longrightarrow> ps_meta ps' = m \<Longrightarrow> ps_types ps' = types' \<Longrightarrow>
      ps_seed ps' = ps_seed ps \<Longrightarrow> ps_pending ps' = [] \<Longrightarrow>
      engine_inv E ps' \<and> engine_view E ps' = engine_view E ps \<and> live_m ps' = live_m ps"
proof -
  let ?f = "ps_file ps" and ?ts = "ps_types ps" and ?m = "ps_meta ps" and ?seed = "ps_seed ps"
  have ok: "engine_ok E ps" "space_ok ps" "types_fit E ps" "log_ok E ps" using assms(1) by (simp_all add: engine_inv_def)
  note log = log_okD [OF ok(4)]
  have slots: "distinct (map ss_hash ?ts)" "\<And>k. k < length ?ts \<Longrightarrow> slot_ok E ?f ?seed {} (?ts ! k)"
    using ok(1) assms(2) by (simp_all add: engine_ok_def types_ok_def)
  have m: "meta_ok ?m" "links E ?f desc_EMPTY (chain_of ?m)" "\<forall>s\<in>set ?ts. ss_dir s = None \<longrightarrow> ds_desc (ss_dict s) = desc_EMPTY"
    using log(1) by (simp_all add: addr_ok_def)
  obtain rp where rp: "replay_chain E ?f (chain_of ?m) replay_empty = Ok rp" "replays rp ?ts" using log(1) by (auto simp: addr_ok_def)
  have "0 < dir_len (slot_dir ?seed s)" if "s \<in> set ?ts" for s
    using slots(2) that by (fastforce simp: in_set_conv_nth slot_ok_def slot_pages_ok_def staged_ok_def dir_ok_def)
  then have names: "log_names E ?f ?seed rp ?ts" using rp(2) slots(1) log(3) by (simp add: log_names_def)
  have kept: "read_run f' r = Ok b" if "r \<in> desc_run ` set (chain_of ?m)" "read_run ?f r = Ok b" for r b
    using assms(5) [OF live_chain [OF m(1) that(1)] that(2)] .
  have links: "links E f' desc_EMPTY (chain_of ?m)" by (rule links_kept [OF kept m(2)])
  have len: "length (chain_of ?m) \<le> MAX_EDIT_CHUNKS + 1" using m(1) by (auto simp: meta_ok_def chain_of_def)
  have walk: "walk E f' (BlockDescriptor (meta_head ?m)) = Ok (chain_of ?m)"
    unfolding chain_head [OF m(1)] by (rule walk_links [OF links len])
  have rp': "replay_chain E f' (chain_of ?m) replay_empty = Ok rp" by (rule replay_chain_kept [OF kept rp(1)])
  have "read_run f' r = Ok b" if "r \<in># sum_list (map slot_m ?ts)" "read_run ?f r = Ok b" for r b
    by (rule assms(5) [OF _ that(2)]) (use that(1) in \<open>simp add: live_m_def\<close>)
  from log_loads [OF names assms(6, 7) this, where used = "Run 0 RESERVED_BLOCKS # map desc_run (chain_of ?m)"]
  obtain st used where l: "load_dirs ?seed (rp_slots rp) (types0, Run 0 RESERVED_BLOCKS # map desc_run (chain_of ?m)) = Ok st"
    "load_dicts E f' (rp_dicts rp) st = Ok (map2 slot_reloaded types0 ?ts, used)"
    "mset used = mset (Run 0 RESERVED_BLOCKS # map desc_run (chain_of ?m)) + sum_list (map slot_m ?ts)" by blast
  have used: "mset used = live_m ps" using l(3) chain_runs [OF m(1)] by (simp add: live_m_def)
  let ?a = "set_protected used (from_layout (len_blocks f') used)" and ?types = "map2 slot_reloaded types0 ?ts" and ?m' = "meta_restored (chain_of ?m)"
  have m': "meta_ok ?m'" "chain_of ?m' = chain_of ?m" using chain_restored [OF links_allocated [OF links] len] by simp_all
  have fit: "run_end r \<le> len_blocks f'" if "r \<in># live_m ps" for r
  proof -
    have "r = Run 0 RESERVED_BLOCKS \<or> run_end r * BLOCK_SIZE \<le> length (bf_bytes f')"
      using live_readable [OF assms(1) that] assms(5) [OF that] by (auto simp: read_run_Ok)
    then show ?thesis using assms(4) div_le_mono [of "run_end r * BLOCK_SIZE" _ BLOCK_SIZE] by (auto simp: len_blocks_def run_end_def)
  qed
  note own = owns_layout [OF _ used fit]
  have "alloc_owns (ps_alloc ps) (live_m ps)" using ok(2) by (simp add: space_ok_def)
  note own = own [OF this]
  show thesis
  proof (rule that [of ?a ?m' ?types])
    show "load_commit E f' (CommitFrame ts (meta_head ?m)) types0 = Ok (?a, ?m', ?types)"
      using walk rp' l(1, 2) assms(3) by (simp add: load_commit_def)
    show "engine_inv E ps' \<and> engine_view E ps' = engine_view E ps \<and> live_m ps' = live_m ps"
      if "ps_file ps' = f'" "ps_alloc ps' = ?a" "ps_meta ps' = ?m'" "ps_types ps' = ?types" "ps_seed ps' = ?seed" "ps_pending ps' = []" for ps'
      using reloaded_engine [OF assms(1, 2, 6, 7), of ps'] assms(3, 5) own(1) that by simp
    have "length types0 = length ?ts" using assms(6) by (rule map_eq_imp_length_eq)
    then show "map ss_hash ?types = map ss_hash types0" by (intro nth_equalityI) (simp_all add: slot_reloaded_def)
  qed (use used own in simp_all)
qed

end
