(* ===== verification/Generations.thy ===== *)
theory Generations
  imports Journal_Laws Checkpoint
begin

text \<open>
  The journals of a store as generations: each opens with the commit frame of the checkpoint that started
  it, or with none, and goes on with batches.  What a set of journals recovers to is a history of
  batches; cutting every journal anywhere behind its durable part gives a prefix of that history, and
  opening the journals computes exactly what the cuts recover to.
\<close>

section \<open>Histories\<close>

type_synonym history = "write_op list list"

record generation =
  gn_ts :: u64
  gn_root :: "(commit_frame \<times> history) option" \<comment> \<open>the commit frame that opens it, and the history it stands for\<close>
  gn_batches :: history
  gn_safe :: nat \<comment> \<open>frames known durable\<close>

definition gn_frames :: "generation \<Rightarrow> journal_frame list" where
  "gn_frames g = (case gn_root g of None \<Rightarrow> [] | Some (c, _) \<Rightarrow> [Commit c]) @ map Batch (gn_batches g)"

definition gn_full :: "generation \<Rightarrow> bool" where
  "gn_full g \<longleftrightarrow> gn_safe g = length (gn_frames g)"

definition gn_cut :: "nat \<Rightarrow> generation \<Rightarrow> generation" where
  "gn_cut n g = g\<lparr>gn_root := (if n = 0 then None else gn_root g),
     gn_batches := take (case gn_root g of None \<Rightarrow> n | Some _ \<Rightarrow> n - 1) (gn_batches g),
     gn_safe := min n (length (gn_frames g))\<rparr>"

lemma gn_cut_facts [simp]: "gn_ts (gn_cut n g) = gn_ts g" "gn_frames (gn_cut n g) = take n (gn_frames g)" "gn_full (gn_cut n g)"
proof -
  show "gn_ts (gn_cut n g) = gn_ts g" by (simp add: gn_cut_def)
  show f: "gn_frames (gn_cut n g) = take n (gn_frames g)"
    by (cases "gn_root g"; cases n) (auto simp: gn_cut_def gn_frames_def take_map)
  show "gn_full (gn_cut n g)" unfolding gn_full_def f by (simp add: gn_cut_def min.commute)
qed

lemma gn_cut_root: "gn_root (gn_cut n g) = (if n = 0 then None else gn_root g)"
  by (simp add: gn_cut_def)

text \<open>What a list of generations recovers to, from a history on: a commit frame replaces what precedes it.\<close>

fun outcome :: "history \<Rightarrow> generation list \<Rightarrow> history" where
  "outcome h [] = h"
| "outcome h (g # gs) = outcome ((case gn_root g of None \<Rightarrow> h | Some (_, W) \<Rightarrow> W) @ gn_batches g) gs"

text \<open>No batch sits in a journal without its own commit frame while an earlier journal can still lose its
  tail, and a commit frame that can be lost stands for exactly the history before it.\<close>

fun history_ok :: "bool \<Rightarrow> history \<Rightarrow> generation list \<Rightarrow> bool" where
  "history_ok full h [] \<longleftrightarrow> True"
| "history_ok full h (g # gs) \<longleftrightarrow> gn_safe g \<le> length (gn_frames g) \<and>
     (case gn_root g of
        None \<Rightarrow> (gn_batches g = [] \<or> full) \<and> history_ok (full \<and> gn_full g) (h @ gn_batches g) gs
      | Some (_, W) \<Rightarrow> (W = h \<or> 0 < gn_safe g) \<and> history_ok (gn_full g) (W @ gn_batches g) gs)"

text \<open>Whether everything so far survives every crash.\<close>

fun solid :: "bool \<Rightarrow> generation list \<Rightarrow> bool" where
  "solid full [] = full"
| "solid full (g # gs) = solid (gn_full g \<and> (gn_root g = None \<longrightarrow> full)) gs"

lemma history_append: "history_ok full h (gs @ gs') \<longleftrightarrow> history_ok full h gs \<and> history_ok (solid full gs) (outcome h gs) gs'"
  by (induction gs arbitrary: full h) (auto split: option.splits simp: conj_commute)

lemma solid_full: "list_all gn_full gs \<Longrightarrow> solid True gs"
  by (induction gs) simp_all

lemma full_history: "list_all gn_full gs \<Longrightarrow> history_ok True h gs"
  by (induction gs arbitrary: h) (auto simp: gn_full_def gn_frames_def split: option.split)

lemma history_safe: "history_ok full h gs \<Longrightarrow> g \<in> set gs \<Longrightarrow> gn_safe g \<le> length (gn_frames g)"
  by (induction gs arbitrary: full h) (auto split: option.splits)

lemma cut_batches:
  "gn_root g = None \<Longrightarrow> gn_batches (gn_cut n g) = take n (gn_batches g)"
  "gn_root g \<noteq> None \<Longrightarrow> gn_batches (gn_cut n g) = take (n - 1) (gn_batches g)"
  by (auto simp: gn_cut_def)

lemma length_frames: "length (gn_frames g) = (if gn_root g = None then 0 else 1) + length (gn_batches g)"
  by (auto simp: gn_frames_def split: option.split)

lemma take_prefix: "n \<le> m \<Longrightarrow> prefix (take n xs) (take m xs)"
  by (metis min.absorb1 take_is_prefix take_take)

lemma outcome_cut:
  "outcome h (gn_cut n g # gs) = outcome (case gn_root g of None \<Rightarrow> h @ take n (gn_batches g)
     | Some (_, W) \<Rightarrow> (if n = 0 then h else W) @ take (n - 1) (gn_batches g)) gs"
  by (auto simp: gn_cut_root cut_batches split: option.split)

text \<open>Cutting less loses less, and what is lost is a suffix.\<close>

lemma outcome_mono:
  assumes "history_ok full h gs" "list_all2 (\<lambda>g n. gn_safe g \<le> n) gs ns" "list_all2 (\<le>) ns ms"
    "prefix h1 h2" "prefix h2 h" "full \<Longrightarrow> h1 = h"
  shows "prefix (outcome h1 (map2 gn_cut ns gs)) (outcome h2 (map2 gn_cut ms gs)) \<and> prefix (outcome h2 (map2 gn_cut ms gs)) (outcome h gs)"
  using assms
proof (induction gs arbitrary: full h h1 h2 ns ms)
  case Nil
  then show ?case by simp
next
  case (Cons g gs)
  obtain n ns' where ns: "ns = n # ns'" "gn_safe g \<le> n" "list_all2 (\<lambda>g n. gn_safe g \<le> n) gs ns'"
    using Cons.prems(2) by (auto simp: list_all2_Cons1)
  obtain m ms' where ms: "ms = m # ms'" "n \<le> m" "list_all2 (\<le>) ns' ms'" using Cons.prems(3) ns(1) by (auto simp: list_all2_Cons1)
  have eqs: "map2 gn_cut (k # ks) (g # gs) = gn_cut k g # map2 gn_cut ks gs" for k ks by simp
  show ?case
  proof (cases "gn_root g")
    case None
    then have ok: "gn_batches g = [] \<or> full" "history_ok (full \<and> gn_full g) (h @ gn_batches g) gs" using Cons.prems(1) by simp_all
    have "h2 = h" if full using that Cons.prems(4-6) by (simp add: prefix_order.antisym)
    then have p: "prefix (h1 @ take n (gn_batches g)) (h2 @ take m (gn_batches g))" "prefix (h2 @ take m (gn_batches g)) (h @ gn_batches g)"
      using ok(1) Cons.prems(4-6) take_prefix [OF ms(2), of "gn_batches g"] by (auto simp: take_is_prefix)
    have full: "h1 @ take n (gn_batches g) = h @ gn_batches g" if "full \<and> gn_full g"
      using that Cons.prems(6) ns(2) None by (simp add: gn_full_def length_frames)
    show ?thesis
      unfolding ns(1) ms(1) eqs outcome_cut using Cons.IH [OF ok(2) ns(3) ms(3) p full] None by simp
  next
    case (Some r)
    obtain c W where r: "r = (c, W)" by fastforce
    then have ok: "W = h \<or> 0 < gn_safe g" "history_ok (gn_full g) (W @ gn_batches g) gs" using Some Cons.prems(1) by simp_all
    let ?cut = "\<lambda>h n. (if n = 0 then h else W) @ take (n - 1) (gn_batches g)"
    have p: "prefix (?cut h1 n) (?cut h2 m)" "prefix (?cut h2 m) (W @ gn_batches g)"
    proof -
      have "prefix (take (n - 1) (gn_batches g)) (take (m - 1) (gn_batches g))" using ms(2) by (intro take_prefix) simp
      moreover have "W = h" if "n = 0" using ok(1) ns(2) that by simp
      ultimately show "prefix (?cut h1 n) (?cut h2 m)" "prefix (?cut h2 m) (W @ gn_batches g)"
        using ms(2) Cons.prems(4, 5) by (auto simp: take_is_prefix intro: prefix_order.trans prefix_prefix)
    qed
    have full: "?cut h1 n = W @ gn_batches g" if "gn_full g" using that ns(2) Some by (simp add: gn_full_def length_frames)
    show ?thesis
      unfolding ns(1) ms(1) eqs outcome_cut using Cons.IH [OF ok(2) ns(3) ms(3) p full] Some r by (simp del: if_split)
  qed
qed

lemma map2_cut_all: "outcome h (map2 gn_cut (map (length \<circ> gn_frames) gs) gs) = outcome h gs"
proof (induction gs arbitrary: h)
  case (Cons g gs)
  have "(case gn_root (gn_cut (length (gn_frames g)) g) of None \<Rightarrow> h | Some (_, W) \<Rightarrow> W) @ gn_batches (gn_cut (length (gn_frames g)) g)
    = (case gn_root g of None \<Rightarrow> h | Some (_, W) \<Rightarrow> W) @ gn_batches g"
    by (auto simp: gn_cut_def length_frames split: option.split)
  with Cons show ?case by simp
qed simp

text \<open>The history that survives every crash.\<close>

definition safe_history :: "generation list \<Rightarrow> history" where
  "safe_history gs = outcome [] (map2 gn_cut (map gn_safe gs) gs)"

lemma cuts_between:
  assumes "history_ok True [] gs" "list_all2 (\<lambda>g n. gn_safe g \<le> n) gs ns"
  shows "prefix (safe_history gs) (outcome [] (map2 gn_cut ns gs))" "prefix (outcome [] (map2 gn_cut ns gs)) (outcome [] gs)"
proof -
  have "list_all2 (\<lambda>g n. gn_safe g \<le> n) gs (map gn_safe gs)" "list_all2 (\<le>) (map gn_safe gs) ns"
    using assms(2) by (auto simp: list_all2_conv_all_nth)
  from outcome_mono [OF assms(1) this, of "[]" "[]"]
  show "prefix (safe_history gs) (outcome [] (map2 gn_cut ns gs))" "prefix (outcome [] (map2 gn_cut ns gs)) (outcome [] gs)"
    by (simp_all add: safe_history_def)
qed

lemma solid_outcome:
  assumes "solid full gs" "full \<Longrightarrow> h1 = h" "\<forall>g\<in>set gs. gn_safe g \<le> length (gn_frames g)"
  shows "outcome h1 (map2 gn_cut (map gn_safe gs) gs) = outcome h gs"
  using assms
proof (induction gs arbitrary: full h h1)
  case (Cons g gs)
  let ?cut = "gn_cut (gn_safe g) g" and ?after = "\<lambda>h g. (case gn_root g of None \<Rightarrow> h | Some (_, W) \<Rightarrow> W) @ gn_batches g"
  have "?after h1 ?cut = ?after h g" if "gn_full g \<and> (gn_root g = None \<longrightarrow> full)"
    using that Cons.prems(2) by (auto simp: gn_full_def gn_cut_def length_frames split: option.split)
  then show ?case using Cons.IH [OF Cons.prems(1) [unfolded solid.simps]] Cons.prems(3) by simp
qed simp

lemma solid_safe: "history_ok True [] gs \<Longrightarrow> solid True gs \<Longrightarrow> safe_history gs = outcome [] gs"
  unfolding safe_history_def using solid_outcome [of True gs "[]" "[]"] history_safe by blast

lemma solid_snoc: "solid full (gs @ [g]) \<longleftrightarrow> gn_full g \<and> (gn_root g = None \<longrightarrow> solid full gs)"
  by (induction gs arbitrary: full) auto

lemma outcome_snoc: "outcome h (gs @ [g]) = (case gn_root g of None \<Rightarrow> outcome h gs | Some (_, W) \<Rightarrow> W) @ gn_batches g"
  by (induction gs arbitrary: h) (auto split: option.split)

text \<open>Everything before the newest commit frame is replaced by it.\<close>

lemma outcome_append: "outcome h (gs @ gs') = outcome (outcome h gs) gs'"
  by (induction gs arbitrary: h) auto

lemma outcome_unrooted: "list_all (\<lambda>g. gn_root g = None) gs \<Longrightarrow> outcome h gs = h @ concat (map gn_batches gs)"
  by (induction gs arbitrary: h) auto

lemma newest_root_cases:
  obtains (none) "list_all (\<lambda>g. gn_root g = None) gs"
  | (newest) as g bs c W where "gs = as @ g # bs" "gn_root g = Some (c, W)" "list_all (\<lambda>g. gn_root g = None) bs"
proof (cases "list_all (\<lambda>g. gn_root g = None) gs")
  case False
  then have "\<exists>g\<in>set gs. gn_root g \<noteq> None" by (auto simp: list_all_iff)
  from split_list_last_prop [OF this] obtain as g bs where g: "gs = as @ g # bs" "gn_root g \<noteq> None" "\<forall>z\<in>set bs. gn_root z = None" by blast
  then show thesis using newest by (auto simp: list_all_iff)
qed

section \<open>The journals on disk\<close>

lemma journal_name_mem [simp]: "journal_name ts \<in> journal_name ` T \<longleftrightarrow> ts \<in> T"
  by (auto simp: journal_name_inject)

lemma newest_all:
  "fold (\<lambda>f c. case f of Commit c' \<Rightarrow> Some c' | Batch _ \<Rightarrow> c) (concat (map gn_frames gs)) c0
    = fold (\<lambda>g c. case gn_root g of None \<Rightarrow> c | Some (c', _) \<Rightarrow> Some c') gs c0"
proof (induction gs arbitrary: c0)
  case (Cons g gs)
  have "fold (\<lambda>f c. case f of Commit c' \<Rightarrow> Some c' | Batch _ \<Rightarrow> c) (map Batch bs) c0 = c0" for bs c0
    by (induction bs arbitrary: c0) simp_all
  then have "fold (\<lambda>f c. case f of Commit c' \<Rightarrow> Some c' | Batch _ \<Rightarrow> c) (gn_frames g) c0 = (case gn_root g of None \<Rightarrow> c0 | Some (c', _) \<Rightarrow> Some c')"
    by (auto simp: gn_frames_def split: option.split)
  with Cons show ?case by simp
qed simp

lemma newest_unrooted: "list_all (\<lambda>g. gn_root g = None) gs \<Longrightarrow> fold (\<lambda>g c. case gn_root g of None \<Rightarrow> c | Some (c', _) \<Rightarrow> Some c') gs c0 = c0"
  by (induction gs arbitrary: c0) auto

lemma newest_commit_facts:
  "list_all (\<lambda>g. gn_root g = None) gs \<Longrightarrow> newest_commit (concat (map gn_frames gs)) = None"
  "list_all (\<lambda>g. gn_root g = None) bs \<Longrightarrow> gn_root g = Some (c, W) \<Longrightarrow> newest_commit (concat (map gn_frames (as @ g # bs))) = Some c"
  unfolding newest_commit_def newest_all by (simp_all add: newest_unrooted)

lemma batches_of_frames [simp]: "batches_of (gn_frames g) = gn_batches g"
proof -
  have "batches_of (map Batch bs) = bs" for bs by (induction bs) (simp_all add: batches_of_def List.map_filter_simps)
  moreover have "batches_of (Commit c # fs) = batches_of fs" for c fs by (simp add: batches_of_def List.map_filter_simps)
  ultimately show ?thesis by (simp add: gn_frames_def split: option.split)
qed

text \<open>Journals by time, each commit frame covering exactly the earlier ones.\<close>

definition covers_ok :: "generation list \<Rightarrow> bool" where
  "covers_ok gs \<longleftrightarrow> sorted_wrt (\<lambda>g g'. gn_ts g < gn_ts g' \<and> (\<forall>c W. gn_root g' = Some (c, W) \<longrightarrow> gn_ts g \<le> journal_ts c)) gs
     \<and> (\<forall>g\<in>set gs. \<forall>c W. gn_root g = Some (c, W) \<longrightarrow> journal_ts c < gn_ts g)"

definition journal_at :: "(byte list \<Rightarrow> u32) \<Rightarrow> fs \<Rightarrow> generation \<Rightarrow> bool" where
  "journal_at crc d g \<longleftrightarrow> content d (journal_name (gn_ts g)) = Some (log_image crc (gn_frames g)) \<and> list_all valid_frame (gn_frames g)
     \<and> (case synced d (journal_name (gn_ts g)) of None \<Rightarrow> [] | Some s \<Rightarrow> s) = log_image crc (take (gn_safe g) (gn_frames g))"

definition disk_holds :: "(byte list \<Rightarrow> u32) \<Rightarrow> fs \<Rightarrow> generation list \<Rightarrow> bool" where
  "disk_holds crc d gs \<longleftrightarrow> covers_ok gs \<and> (\<forall>g\<in>set gs. journal_at crc d g) \<and> dom (content d) = journal_name ` gn_ts ` set gs
     \<and> dom (synced d) \<subseteq> dom (content d)"

lemma disk_holdsD:
  assumes "disk_holds crc d gs"
  shows "covers_ok gs" "\<forall>g\<in>set gs. journal_at crc d g" "dom (content d) = journal_name ` gn_ts ` set gs" "dom (synced d) \<subseteq> dom (content d)"
  using assms unfolding disk_holds_def by blast+

lemma covers_cut:
  assumes "covers_ok gs" "length ns = length gs"
  shows "covers_ok (map2 gn_cut ns gs)"
proof -
  have "sorted_wrt (\<lambda>g g'. gn_ts g < gn_ts g' \<and> (\<forall>c W. gn_root g' = Some (c, W) \<longrightarrow> gn_ts g \<le> journal_ts c)) (map2 gn_cut ns gs)"
    using assms by (auto simp: covers_ok_def sorted_wrt_iff_nth_less gn_cut_root)
  moreover have "\<forall>g\<in>set (map2 gn_cut ns gs). \<forall>c W. gn_root g = Some (c, W) \<longrightarrow> journal_ts c < gn_ts g"
    using assms(1) by (auto simp: covers_ok_def gn_cut_root split: if_splits dest!: set_zip_rightD)
  ultimately show ?thesis by (simp add: covers_ok_def)
qed

lemma covers_suffix: "covers_ok (as @ bs) \<Longrightarrow> covers_ok bs"
  by (simp add: covers_ok_def sorted_wrt_append)

lemma covers_distinct: "covers_ok gs \<Longrightarrow> distinct (map gn_ts gs)"
  by (auto simp: covers_ok_def distinct_conv_nth sorted_wrt_iff_nth_less) (metis less_irrefl nat_neq_iff)

text \<open>The scan finds exactly the generations, oldest first, in whatever order the directory lists them.\<close>

lemma scan_generations:
  assumes "covers_ok gs" "distinct entries" "set entries = journal_name ` gn_ts ` set gs"
  shows "scan entries = map (\<lambda>g. (gn_ts g, journal_name (gn_ts g))) gs"
proof -
  let ?f = "\<lambda>ts. (ts, journal_name ts)"
  have inj: "inj ?f" by (simp add: inj_def)
  have srt: "sorted_wrt (<) (map gn_ts gs)" using assms(1) by (auto simp: covers_ok_def sorted_wrt_map intro: sorted_wrt_mono_rel [rotated])
  have set: "set (scan entries) = ?f ` gn_ts ` set gs" by (auto simp: set_scan assms(3) journal_name_inject)
  have "distinct (map fst (scan entries))"
  proof -
    have "distinct (List.map_filter (\<lambda>name. map_option (\<lambda>ts. (ts, name)) (parse_journal_name name)) entries)"
      using assms(2) by (auto simp: List.map_filter_def distinct_map inj_on_def)
    then have "distinct (scan entries)" by (simp add: scan_def)
    moreover have "inj_on fst (set (scan entries))" unfolding set by (auto simp: inj_on_def)
    ultimately show ?thesis by (simp add: distinct_map)
  qed
  moreover have "set (map fst (scan entries)) = set (map gn_ts gs)" using set by force
  ultimately have "map fst (scan entries) = map gn_ts gs"
    using sorted_scan [of entries] srt by (intro sorted_distinct_set_unique) (auto simp: strict_sorted_iff)
  moreover have "scan entries = map ?f (map fst (scan entries))"
    using set by (auto simp: list_eq_iff_nth_eq) (metis (no_types, lifting) fst_conv image_iff nth_mem)
  ultimately show ?thesis by (simp add: comp_def)
qed

section \<open>A crash\<close>

text \<open>A crash keeps the names, and of each journal its synced bytes and any part of those appended since.\<close>

definition dir_crash :: "fs \<Rightarrow> fs \<Rightarrow> bool" where
  "dir_crash d d' \<longleftrightarrow> synced d' = content d' \<and> dom (content d') = dom (content d)
     \<and> (\<forall>p c. content d p = Some c \<longrightarrow> (\<exists>n. length (case synced d p of None \<Rightarrow> [] | Some s \<Rightarrow> s) \<le> n \<and> content d' p = Some (take n c)))"

lemma dir_crashD:
  "dir_crash d d' \<Longrightarrow> content d p = Some c \<Longrightarrow> \<exists>n. length (case synced d p of None \<Rightarrow> [] | Some s \<Rightarrow> s) \<le> n \<and> content d' p = Some (take n c)"
  by (simp add: dir_crash_def)

text \<open>A torn journal: its bytes replay to a number of whole frames.\<close>

definition torn_at :: "(byte list \<Rightarrow> u32) \<Rightarrow> fs \<Rightarrow> generation \<Rightarrow> nat \<Rightarrow> bool" where
  "torn_at crc d g m \<longleftrightarrow> (\<exists>bytes. content d (journal_name (gn_ts g)) = Some bytes
     \<and> replay_loop crc bytes 0 = Some (take m (gn_frames g), length (log_image crc (take m (gn_frames g))))
     \<and> take (length (log_image crc (take m (gn_frames g)))) bytes = log_image crc (take m (gn_frames g)))"

lemma log_image_mono: "n \<le> m \<Longrightarrow> length (log_image crc (take n fs)) \<le> length (log_image crc (take m fs))"
proof -
  assume "n \<le> m"
  then obtain rest where "take m fs = take n fs @ rest" using take_prefix [of n m fs] by (auto simp: prefix_def)
  then show ?thesis by simp
qed

lemma crash_tears:
  assumes "journal_at crc d g" "dir_crash d d'" "gn_safe g \<le> length (gn_frames g)"
  shows "\<exists>m. gn_safe g \<le> m \<and> torn_at crc d' g m"
proof -
  let ?fs = "gn_frames g"
  have j: "content d (journal_name (gn_ts g)) = Some (log_image crc ?fs)"
    "(case synced d (journal_name (gn_ts g)) of None \<Rightarrow> [] | Some s \<Rightarrow> s) = log_image crc (take (gn_safe g) ?fs)"
    using assms(1) by (simp_all add: journal_at_def)
  from dir_crashD [OF assms(2) j(1), unfolded j(2)] obtain n where
    n: "length (log_image crc (take (gn_safe g) ?fs)) \<le> n" "content d' (journal_name (gn_ts g)) = Some (take n (log_image crc ?fs))" by blast
  have v: "list_all valid_frame ?fs" using assms(1) by (simp add: journal_at_def)
  let ?n = "min n (length (log_image crc ?fs))"
  obtain m where m: "m \<le> length ?fs" "length (log_image crc (take m ?fs)) \<le> ?n"
    "m < length ?fs \<Longrightarrow> ?n < length (log_image crc (take (Suc m) ?fs))"
    "replay_loop crc (take ?n (log_image crc ?fs)) 0 = Some (take m ?fs, length (log_image crc (take m ?fs)))"
    "take (length (log_image crc (take m ?fs))) (take ?n (log_image crc ?fs)) = log_image crc (take m ?fs)"
    using replay_loop_prefix [OF v, of ?n crc] by (metis min.cobounded2)
  have "gn_safe g \<le> m"
  proof (rule ccontr)
    assume "\<not> gn_safe g \<le> m"
    then have "m < length ?fs" "length (log_image crc (take (Suc m) ?fs)) \<le> length (log_image crc (take (gn_safe g) ?fs))"
      using assms(3) by (simp_all add: log_image_mono)
    moreover have "length (log_image crc (take (gn_safe g) ?fs)) \<le> length (log_image crc ?fs)"
      using log_image_mono [of "gn_safe g" "length ?fs" crc ?fs] assms(3) by simp
    ultimately show False using m(3) n(1) by linarith
  qed
  moreover have "torn_at crc d' g m" using n(2) m(4, 5) unfolding torn_at_def by (simp add: take_all_iff min_def split: if_splits)
  ultimately show ?thesis by blast
qed

section \<open>Opening the journals\<close>

definition reopened :: "(byte list \<Rightarrow> u32) \<Rightarrow> generation \<Rightarrow> journal" where
  "reopened crc g = \<lparr>j_path = journal_name (gn_ts g), j_ts = gn_ts g, j_end = length (log_image crc (gn_frames g)), j_syncs = 0\<rparr>"

lemma open_torn:
  assumes "torn_at crc d g m" "synced d = content d"
  obtains j0 d1 where "journal_open (journal_name (gn_ts g)) (gn_ts g) d = Ok j0" "replay crc (j0, d) = Ok (gn_frames (gn_cut m g), reopened crc (gn_cut m g), d1)"
    "content d1 = (content d)(journal_name (gn_ts g) \<mapsto> log_image crc (gn_frames (gn_cut m g)))" "synced d1 = content d1"
proof -
  let ?p = "journal_name (gn_ts g)" and ?fs = "take m (gn_frames g)"
  let ?e = "length (log_image crc ?fs)"
  obtain bytes where b: "content d ?p = Some bytes" "replay_loop crc bytes 0 = Some (?fs, ?e)" "take ?e bytes = log_image crc ?fs"
    using assms(1) by (auto simp: torn_at_def)
  have le: "?e \<le> length bytes" using replay_loop_end [OF b(2)] by simp
  let ?j = "\<lparr>j_path = ?p, j_ts = gn_ts g, j_end = length bytes, j_syncs = 0\<rparr>"
  let ?d1 = "d\<lparr>content := (content d)(?p \<mapsto> log_image crc ?fs), synced := (content d)(?p \<mapsto> log_image crc ?fs)\<rparr>"
  have o: "journal_open ?p (gn_ts g) d = Ok ?j" using b(1) by (simp add: journal_open_def)
  show thesis
  proof (cases "?e < length bytes")
    case True
    have "replay crc (?j, d) = Ok (?fs, ?j\<lparr>j_end := ?e\<rparr>, ?d1)"
      using b le True assms(2) by (simp add: replay_def fs_set_len_def fs_sync_def)
    then show thesis by (intro that [OF o, of ?d1]) (simp_all add: reopened_def)
  next
    case False
    then have "length bytes \<le> ?e" by linarith
    from take_all [OF this] b(3) have bytes: "bytes = log_image crc ?fs" by (rule trans [OF sym])
    then have c: "content d = (content d)(?p \<mapsto> log_image crc ?fs)" using b(1) by (simp add: map_upd_triv)
    have "replay crc (?j, d) = Ok (?fs, ?j, d)" using b False by (simp add: replay_def)
    then have r: "replay crc (?j, d) = Ok (gn_frames (gn_cut m g), reopened crc (gn_cut m g), d)" by (simp add: reopened_def bytes)
    show thesis by (rule that [OF o r _ assms(2)]) (use c in simp)
  qed
qed

lemma open_journals_torn:
  assumes "list_all2 (torn_at (crc32 E) d) gs ms" "synced d = content d" "distinct (map gn_ts gs)"
  shows "\<exists>d'. open_journals E (map (\<lambda>g. (gn_ts g, journal_name (gn_ts g))) gs) d
      = Ok (map (\<lambda>g. (gn_ts g, reopened (crc32 E) g, gn_frames g)) (map2 gn_cut ms gs), d')
    \<and> synced d' = content d' \<and> (\<forall>p. p \<notin> journal_name ` gn_ts ` set gs \<longrightarrow> content d' p = content d p)
    \<and> (\<forall>g\<in>set (map2 gn_cut ms gs). content d' (journal_name (gn_ts g)) = Some (log_image (crc32 E) (gn_frames g)))"
  using assms
proof (induction gs arbitrary: ms d)
  case (Cons g gs)
  let ?crc = "crc32 E" and ?p = "journal_name (gn_ts g)"
  obtain m ms' where ms: "ms = m # ms'" "torn_at ?crc d g m" "list_all2 (torn_at ?crc d) gs ms'"
    using Cons.prems(1) by (auto simp: list_all2_Cons1)
  obtain j0 d1 where o: "journal_open ?p (gn_ts g) d = Ok j0" "replay ?crc (j0, d) = Ok (gn_frames (gn_cut m g), reopened ?crc (gn_cut m g), d1)"
    "content d1 = (content d)(?p \<mapsto> log_image ?crc (gn_frames (gn_cut m g)))" "synced d1 = content d1"
    by (rule open_torn [OF ms(2) Cons.prems(2)])
  have other: "?p \<notin> journal_name ` gn_ts ` set gs" using Cons.prems(3) by (auto simp: journal_name_inject)
  then have same: "torn_at ?crc d1 x k = torn_at ?crc d x k" if "x \<in> set gs" for x k
  proof -
    have "journal_name (gn_ts x) \<noteq> ?p" using that other by (metis imageI)
    then have "content d1 (journal_name (gn_ts x)) = content d (journal_name (gn_ts x))" by (simp add: o(3))
    then show ?thesis by (simp add: torn_at_def)
  qed
  have "list_all2 (torn_at ?crc d1) gs ms'" by (rule list.rel_mono_strong [OF ms(3)]) (simp add: same)
  from Cons.IH [OF this o(4)] Cons.prems(3) obtain d' where
    h: "open_journals E (map (\<lambda>g. (gn_ts g, journal_name (gn_ts g))) gs) d1
      = Ok (map (\<lambda>g. (gn_ts g, reopened ?crc g, gn_frames g)) (map2 gn_cut ms' gs), d')"
    "synced d' = content d'" "\<forall>p. p \<notin> journal_name ` gn_ts ` set gs \<longrightarrow> content d' p = content d1 p"
    "\<forall>g\<in>set (map2 gn_cut ms' gs). content d' (journal_name (gn_ts g)) = Some (log_image ?crc (gn_frames g))" by auto
  have "content d' ?p = Some (log_image ?crc (gn_frames (gn_cut m g)))" using h(3) other o(3) by simp
  then show ?case using h o ms(1) by (intro exI [of _ d']) simp
qed simp

text \<open>After a crash the journals reopen as a cut of the generations, all of it durable.\<close>

lemma journals_reopen:
  assumes "disk_holds (crc32 E) d gs" "history_ok True [] gs" "dir_crash d d'" "distinct entries" "set entries = dom (content d')"
  obtains ns d1 where "list_all2 (\<lambda>g n. gn_safe g \<le> n) gs ns" "scan entries = map (\<lambda>g. (gn_ts g, journal_name (gn_ts g))) gs"
    "open_journals E (scan entries) d' = Ok (map (\<lambda>g. (gn_ts g, reopened (crc32 E) g, gn_frames g)) (map2 gn_cut ns gs), d1)"
    "disk_holds (crc32 E) d1 (map2 gn_cut ns gs)" "list_all gn_full (map2 gn_cut ns gs)" "length ns = length gs"
proof -
  let ?crc = "crc32 E"
  have disk: "covers_ok gs" "\<forall>g\<in>set gs. journal_at ?crc d g" "dom (content d) = journal_name ` gn_ts ` set gs"
    using assms(1) by (simp_all add: disk_holds_def)
  have crash: "synced d' = content d'" "dom (content d') = dom (content d)" using assms(3) by (simp_all add: dir_crash_def)
  have scan: "scan entries = map (\<lambda>g. (gn_ts g, journal_name (gn_ts g))) gs"
    by (rule scan_generations [OF disk(1) assms(4)]) (simp add: assms(5) crash(2) disk(3))
  have "\<forall>g\<in>set gs. \<exists>m. gn_safe g \<le> m \<and> torn_at ?crc d' g m"
    using crash_tears [OF _ assms(3)] disk(2) history_safe [OF assms(2)] by blast
  then obtain f where f: "\<forall>g\<in>set gs. gn_safe g \<le> f g \<and> torn_at ?crc d' g (f g)" by (auto dest!: bchoice)
  let ?ns = "map f gs"
  have "list_all2 (torn_at ?crc d') gs ?ns" using f by (auto simp: list_all2_conv_all_nth)
  from open_journals_torn [OF this crash(1) covers_distinct [OF disk(1)]] obtain d1 where
    o: "open_journals E (scan entries) d' = Ok (map (\<lambda>g. (gn_ts g, reopened ?crc g, gn_frames g)) (map2 gn_cut ?ns gs), d1)"
    "synced d1 = content d1" "\<forall>p. p \<notin> journal_name ` gn_ts ` set gs \<longrightarrow> content d1 p = content d' p"
    "\<forall>g\<in>set (map2 gn_cut ?ns gs). content d1 (journal_name (gn_ts g)) = Some (log_image ?crc (gn_frames g))"
    unfolding scan by blast
  have ts: "gn_ts ` set (map2 gn_cut ?ns gs) = gn_ts ` set gs" by (force simp: set_zip image_iff in_set_conv_nth)
  have at: "journal_at ?crc d1 g" if g: "g \<in> set (map2 gn_cut ?ns gs)" for g
  proof -
    obtain g0 n where g0: "g0 \<in> set gs" "g = gn_cut n g0" using g by (auto dest: set_zip_rightD)
    then have "list_all valid_frame (gn_frames g)" using disk(2) by (auto simp: journal_at_def list_all_iff dest!: in_set_takeD)
    moreover have "take (gn_safe g) (gn_frames g) = gn_frames g" using gn_cut_facts(3) [of n g0] unfolding g0(2) [symmetric] gn_full_def by simp
    moreover have "content d1 (journal_name (gn_ts g)) = Some (log_image ?crc (gn_frames g))" using o(4) g by blast
    ultimately show ?thesis by (simp add: journal_at_def o(2))
  qed
  have "dom (content d1) = journal_name ` gn_ts ` set gs"
  proof (intro set_eqI iffI)
    fix p assume "p \<in> dom (content d1)"
    then show "p \<in> journal_name ` gn_ts ` set gs" using o(3) disk(3) crash(2) by (metis domIff)
  next
    fix p assume "p \<in> journal_name ` gn_ts ` set gs"
    then have "p \<in> journal_name ` gn_ts ` set (map2 gn_cut ?ns gs)" unfolding ts .
    then obtain g where "g \<in> set (map2 gn_cut ?ns gs)" "p = journal_name (gn_ts g)" unfolding image_iff by blast
    then show "p \<in> dom (content d1)" using o(4) by blast
  qed
  then have "disk_holds ?crc d1 (map2 gn_cut ?ns gs)"
    using covers_cut [OF disk(1), of ?ns] at ts o(2) by (simp add: disk_holds_def)
  moreover have "list_all gn_full (map2 gn_cut ?ns gs)" by (auto simp: list_all_iff)
  moreover have "list_all2 (\<lambda>g n. gn_safe g \<le> n) gs ?ns" using f by (auto simp: list_all2_conv_all_nth)
  ultimately show thesis using that [of ?ns d1] scan o(1) by simp
qed

section \<open>Covered journals go, the others replay\<close>

abbreviation journal_entry :: "(byte list \<Rightarrow> u32) \<Rightarrow> generation \<Rightarrow> u64 \<times> journal \<times> journal_frame list" where
  "journal_entry crc g \<equiv> (gn_ts g, reopened crc g, gn_frames g)"

lemma collect_kept:
  assumes "\<forall>g\<in>set gs. c = None \<or> journal_ts (the c) < gn_ts g"
  shows "collect_replay c (map (journal_entry crc) gs) cur d
    = Ok (concat (map gn_batches gs), if gs = [] then cur else Some (reopened crc (last gs)), d)"
  using assms
proof (induction gs arbitrary: cur)
  case (Cons g gs)
  then have e: "(c \<noteq> None \<and> gn_ts g \<le> journal_ts (the c)) = False" by auto
  show ?case using Cons unfolding list.map collect_replay.simps e by simp
qed simp

lemma collect_covered:
  assumes "\<forall>g\<in>set as. gn_ts g \<le> journal_ts c" "distinct (map gn_ts as)" "\<forall>g\<in>set as. content d (journal_name (gn_ts g)) \<noteq> None"
  obtains d' where "collect_replay (Some c) (map (journal_entry crc) as @ js) cur d = collect_replay (Some c) js cur d'"
    "\<forall>p. content d' p = (if p \<in> journal_name ` gn_ts ` set as then None else content d p)"
    "\<forall>p. synced d' p = (if p \<in> journal_name ` gn_ts ` set as then None else synced d p)"
proof -
  have "\<exists>d'. collect_replay (Some c) (map (journal_entry crc) as @ js) cur d = collect_replay (Some c) js cur d'
    \<and> (\<forall>p. content d' p = (if p \<in> journal_name ` gn_ts ` set as then None else content d p))
    \<and> (\<forall>p. synced d' p = (if p \<in> journal_name ` gn_ts ` set as then None else synced d p))"
    using assms
  proof (induction as arbitrary: d)
    case (Cons g as)
    let ?p = "journal_name (gn_ts g)"
    let ?d = "d\<lparr>content := (content d)(?p := None), synced := (synced d)(?p := None)\<rparr>"
    have del: "delete_file ?p d = Ok ?d" using Cons.prems(3) by (auto simp: delete_file_def fs_remove_def)
    have other: "?p \<notin> journal_name ` gn_ts ` set as" using Cons.prems(2) by (auto simp: journal_name_inject)
    have "gn_ts x \<noteq> gn_ts g" if "x \<in> set as" for x using Cons.prems(2) that by (metis distinct.simps(2) list.map(2) image_eqI set_map)
    then have "\<forall>x\<in>set as. content ?d (journal_name (gn_ts x)) \<noteq> None" using Cons.prems(3) by (simp add: journal_name_inject)
    with Cons.IH [of ?d] Cons.prems(1, 2) obtain d' where
      h: "collect_replay (Some c) (map (journal_entry crc) as @ js) cur ?d = collect_replay (Some c) js cur d'"
      "\<forall>p. content d' p = (if p \<in> journal_name ` gn_ts ` set as then None else content ?d p)"
      "\<forall>p. synced d' p = (if p \<in> journal_name ` gn_ts ` set as then None else synced ?d p)" by auto
    show ?case using h del Cons.prems(1) by (intro exI [of _ d']) (auto simp: reopened_def)
  qed auto
  then show thesis using that by blast
qed

text \<open>What opening hands on: the newest commit frame, the batches after it, the last journal, and a disk
  that holds only the generations still needed.\<close>

lemma journals_collected:
  assumes "disk_holds crc d gs" "gs \<noteq> []" "list_all gn_full gs"
  obtains (unrooted) "list_all (\<lambda>g. gn_root g = None) gs" "newest_commit (concat (map gn_frames gs)) = None"
      "collect_replay None (map (journal_entry crc) gs) None d = Ok (outcome [] gs, Some (reopened crc (last gs)), d)"
  | (rooted) as g bs c W d' where "gs = as @ g # bs" "gn_root g = Some (c, W)" "list_all (\<lambda>g. gn_root g = None) bs"
      "newest_commit (concat (map gn_frames gs)) = Some c"
      "collect_replay (Some c) (map (journal_entry crc) gs) None d
         = Ok (concat (map gn_batches (g # bs)), Some (reopened crc (last gs)), d')"
      "disk_holds crc d' (g # bs)" "W @ concat (map gn_batches (g # bs)) = outcome [] gs" "outcome [] (g # bs) = outcome [] gs"
proof (cases rule: newest_root_cases [of gs])
  case none
  then show thesis
    using unrooted newest_commit_facts(1) collect_kept [of gs None crc None d] assms(2) outcome_unrooted [OF none, of "[]"] by simp
next
  case (newest as g bs c W)
  have disk: "covers_ok gs" "\<forall>g\<in>set gs. journal_at crc d g" "dom (content d) = journal_name ` gn_ts ` set gs"
    using assms(1) by (simp_all add: disk_holds_def)
  have srt: "\<forall>x\<in>set as. gn_ts x \<le> journal_ts c" "journal_ts c < gn_ts g" "\<forall>x\<in>set bs. gn_ts g < gn_ts x"
    using disk(1) newest(1, 2) by (auto simp: covers_ok_def sorted_wrt_append)
  have dist: "distinct (map gn_ts gs)" by (rule covers_distinct [OF disk(1)])
  have "\<forall>x\<in>set as. content d (journal_name (gn_ts x)) \<noteq> None" using disk(2) newest(1) by (auto simp: journal_at_def)
  from collect_covered [OF srt(1) _ this, of crc "map (journal_entry crc) (g # bs)" None] dist newest(1) obtain d' where
    d': "collect_replay (Some c) (map (journal_entry crc) gs) None d = collect_replay (Some c) (map (journal_entry crc) (g # bs)) None d'"
    "\<forall>p. content d' p = (if p \<in> journal_name ` gn_ts ` set as then None else content d p)"
    "\<forall>p. synced d' p = (if p \<in> journal_name ` gn_ts ` set as then None else synced d p)" by auto
  have "\<forall>x\<in>set (g # bs). Some c = None \<or> journal_ts (the (Some c)) < gn_ts x" using srt(2, 3) by force
  note kept = collect_kept [OF this, of crc None d']
  have apart: "journal_name (gn_ts x) \<notin> journal_name ` gn_ts ` set as" if "x \<in> set (g # bs)" for x
    using dist newest(1) that by auto
  have "journal_at crc d' x" if "x \<in> set (g # bs)" for x
  proof -
    have "journal_at crc d x" using disk(2) that newest(1) by auto
    then show ?thesis using apart [OF that] by (simp add: journal_at_def d'(2, 3))
  qed
  moreover have "dom (content d') = journal_name ` gn_ts ` set (g # bs)"
  proof (intro set_eqI iffI)
    fix p assume "p \<in> dom (content d')"
    then have p: "p \<notin> journal_name ` gn_ts ` set as" "p \<in> dom (content d)" by (auto simp: d'(2) domIff split: if_splits)
    then show "p \<in> journal_name ` gn_ts ` set (g # bs)" unfolding disk(3) newest(1) by auto
  next
    fix p assume "p \<in> journal_name ` gn_ts ` set (g # bs)"
    then obtain x where x: "x \<in> set (g # bs)" "p = journal_name (gn_ts x)" unfolding image_iff by blast
    then have "p \<in> dom (content d)" unfolding disk(3) newest(1) by auto
    then show "p \<in> dom (content d')" using apart [OF x(1)] x(2) by (simp add: domIff d'(2))
  qed
  moreover have "covers_ok (g # bs)" using covers_suffix disk(1) newest(1) by blast
  moreover have "dom (synced d') \<subseteq> dom (content d')"
    using assms(1) by (auto simp: disk_holds_def d'(2, 3) dom_def subset_iff split: if_splits)
  ultimately have "disk_holds crc d' (g # bs)" by (simp add: disk_holds_def)
  moreover have "W @ concat (map gn_batches (g # bs)) = outcome [] gs" "outcome [] (g # bs) = outcome [] gs"
    using newest(1, 2) outcome_unrooted [OF newest(3)] by (simp_all add: outcome_append)
  moreover have "newest_commit (concat (map gn_frames gs)) = Some c" unfolding newest(1) by (rule newest_commit_facts(2) [OF newest(3, 2)])
  ultimately show thesis using rooted [OF newest] d'(1) kept newest(1) by simp
qed

section \<open>Rotating\<close>

lemma disk_create:
  assumes "disk_holds crc d (gs @ [g])" "gn_ts g < ts"
  obtains j d' where "journal_create ts d = Ok (j, d')" "j = \<lparr>j_path = journal_name ts, j_ts = ts, j_end = 0, j_syncs = 0\<rparr>"
    "disk_holds crc d' (gs @ [g, \<lparr>gn_ts = ts, gn_root = None, gn_batches = [], gn_safe = 0\<rparr>])"
    "content d' = (content d)(journal_name ts \<mapsto> [])" "synced d' = synced d"
proof -
  let ?f = "\<lparr>gn_ts = ts, gn_root = None, gn_batches = [], gn_safe = 0\<rparr>"
  have h: "covers_ok (gs @ [g])" "\<forall>x\<in>set (gs @ [g]). journal_at crc d x" "dom (content d) = journal_name ` gn_ts ` set (gs @ [g])"
    "dom (synced d) \<subseteq> dom (content d)" by (rule disk_holdsD [OF assms(1)])+
  have less: "\<forall>x\<in>set (gs @ [g]). gn_ts x < ts" using h(1) assms(2) by (force simp: covers_ok_def sorted_wrt_append)
  then have new: "journal_name ts \<notin> dom (content d)" unfolding h(3) journal_name_mem by auto
  let ?d = "d\<lparr>content := (content d)(journal_name ts \<mapsto> [])\<rparr>"
  have "covers_ok (gs @ [g, ?f])" using h(1) less by (auto simp: covers_ok_def sorted_wrt_append)
  moreover have "journal_at crc ?d x" if x: "x \<in> set (gs @ [g])" for x
  proof -
    have "gn_ts x \<noteq> ts" using less x by auto
    moreover have "journal_at crc d x" using h(2) x by blast
    ultimately show ?thesis by (simp add: journal_at_def journal_name_inject)
  qed
  moreover have "journal_at crc ?d ?f" using new h(4) by (auto simp: journal_at_def gn_frames_def dom_def split: option.split)
  ultimately have "disk_holds crc ?d (gs @ [g, ?f])" using h(3, 4) by (auto simp: disk_holds_def)
  then show thesis using that [of _ ?d] new by (auto simp: journal_create_def domIff Let_def)
qed

lemma disk_sync:
  assumes "disk_holds crc d (xs @ g # ys)" "j_path j = journal_name (gn_ts g)"
  obtains d' where "journal_sync (j, d) = Ok (j\<lparr>j_syncs := j_syncs j + 1\<rparr>, d')"
    "disk_holds crc d' (xs @ g\<lparr>gn_safe := length (gn_frames g)\<rparr> # ys)" "content d' = content d"
proof -
  let ?g = "g\<lparr>gn_safe := length (gn_frames g)\<rparr>" and ?p = "journal_name (gn_ts g)"
  have h: "covers_ok (xs @ g # ys)" "\<forall>x\<in>set (xs @ g # ys). journal_at crc d x" "dom (content d) = journal_name ` gn_ts ` set (xs @ g # ys)"
    "dom (synced d) \<subseteq> dom (content d)" by (rule disk_holdsD [OF assms(1)])+
  have at: "content d ?p = Some (log_image crc (gn_frames g))" "list_all valid_frame (gn_frames g)" using h(2) by (simp_all add: journal_at_def)
  let ?d = "d\<lparr>synced := (synced d)(?p \<mapsto> log_image crc (gn_frames g))\<rparr>"
  have dist: "gn_ts x \<noteq> gn_ts g" if "x \<in> set xs \<union> set ys" for x using h(1) that by (auto simp: covers_ok_def sorted_wrt_append)
  have frames: "gn_frames ?g = gn_frames g" by (simp add: gn_frames_def)
  have "journal_at crc ?d x" if "x \<in> set xs \<union> set ys" for x
    using h(2) that dist [OF that] by (auto simp: journal_at_def journal_name_inject)
  moreover have "journal_at crc ?d ?g" using at by (simp add: journal_at_def frames)
  moreover have "covers_ok (xs @ ?g # ys)" using h(1) by (auto simp: covers_ok_def sorted_wrt_append)
  ultimately have "disk_holds crc ?d (xs @ ?g # ys)" using h(3, 4) by (auto simp: disk_holds_def)
  moreover have "journal_sync (j, d) = Ok (j\<lparr>j_syncs := j_syncs j + 1\<rparr>, ?d)" using at(1) assms(2) by (simp add: journal_sync_def fs_sync_def)
  ultimately show thesis using that [of ?d] by simp
qed

lemma disk_delete:
  assumes "disk_holds crc d (xs @ g # ys)"
  obtains d' where "delete_file (journal_name (gn_ts g)) d = Ok d'" "disk_holds crc d' (xs @ ys)"
proof -
  let ?p = "journal_name (gn_ts g)"
  have h: "covers_ok (xs @ g # ys)" "\<forall>x\<in>set (xs @ g # ys). journal_at crc d x" "dom (content d) = journal_name ` gn_ts ` set (xs @ g # ys)"
    "dom (synced d) \<subseteq> dom (content d)" by (rule disk_holdsD [OF assms(1)])+
  let ?d = "d\<lparr>content := (content d)(?p := None), synced := (synced d)(?p := None)\<rparr>"
  have dist: "gn_ts x \<noteq> gn_ts g" if "x \<in> set (xs @ ys)" for x using h(1) that by (auto simp: covers_ok_def sorted_wrt_append)
  have "journal_at crc ?d x" if "x \<in> set (xs @ ys)" for x
    using h(2) that dist [OF that] by (auto simp: journal_at_def journal_name_inject)
  moreover have "covers_ok (xs @ ys)" using h(1) by (auto simp: covers_ok_def sorted_wrt_append)
  moreover have "dom (content ?d) = journal_name ` gn_ts ` set (xs @ ys)"
  proof -
    have "gn_ts g \<notin> gn_ts ` set (xs @ ys)" using dist by (metis imageE)
    then have "journal_name (gn_ts g) \<notin> journal_name ` gn_ts ` set (xs @ ys)" by (simp only: journal_name_mem not_False_eq_True)
    then show ?thesis using h(3) by auto
  qed
  moreover have "dom (synced ?d) \<subseteq> dom (content ?d)" using h(4) by auto
  ultimately have "disk_holds crc ?d (xs @ ys)" by (simp only: disk_holds_def) blast
  moreover have "content d ?p \<noteq> None" using h(2) by (simp add: journal_at_def)
  then have "delete_file ?p d = Ok ?d" by (auto simp: delete_file_def fs_remove_def)
  ultimately show thesis using that by blast
qed

end
