(* ===== verification/Crash_Safety.thy ===== *)
theory Crash_Safety
  imports Recovery Generations
begin

text \<open>
  What a running store keeps so that a crash at any moment can be recovered from: its journals hold the
  history of its batches, every checkpoint that a crash could fall back to still has its blocks, on
  disk and unchanged, and the superblock is intact.
\<close>

section \<open>Roots\<close>

definition hist_view :: "history \<Rightarrow> typed_view" where
  "hist_view h = fold typed_effect h (\<lambda>_. Map.empty)"

definition durable_file :: "block_file \<Rightarrow> block_file" where
  "durable_file f = f\<lparr>bf_bytes := bf_durable f\<rparr>"

lemma read_durable_cong: "bf_durable f' = bf_durable f \<Longrightarrow> read_run (durable_file f') r = read_run (durable_file f) r"
  by (simp add: durable_file_def read_run_def Let_def)

text \<open>The store a commit frame stands for, with every run it names inside the protected blocks \<open>G\<close> and
  unchanged in the file and in its durable image.\<close>

definition root_held :: "libs \<Rightarrow> nat set \<Rightarrow> page_store \<Rightarrow> commit_frame \<Rightarrow> history \<Rightarrow> bool" where
  "root_held E G ps c W \<longleftrightarrow> (\<exists>snap. engine_inv E snap \<and> ps_pending snap = [] \<and> engine_view E snap = hist_view W
     \<and> map ss_hash (ps_types snap) = map ss_hash (ps_types ps) \<and> ps_seed snap = ps_seed ps \<and> commit_head c = meta_head (ps_meta snap)
     \<and> (\<forall>r. r \<in># live_m snap \<longrightarrow> blocks r \<subseteq> G)
     \<and> (\<forall>r b. r \<in># live_m snap \<longrightarrow> read_run (ps_file snap) r = Ok b \<longrightarrow>
          read_run (ps_file ps) r = Ok b \<and> read_run (durable_file (ps_file ps)) r = Ok b))"

lemma root_held_kept:
  assumes "root_held E G ps c W" "map ss_hash (ps_types ps') = map ss_hash (ps_types ps)" "ps_seed ps' = ps_seed ps"
    "\<And>r b. 0 < run_count r \<Longrightarrow> blocks r \<subseteq> G \<Longrightarrow> read_run (ps_file ps) r = Ok b \<Longrightarrow> read_run (durable_file (ps_file ps)) r = Ok b \<Longrightarrow>
       read_run (ps_file ps') r = Ok b \<and> read_run (durable_file (ps_file ps')) r = Ok b"
  shows "root_held E G ps' c W"
proof -
  obtain snap where s: "engine_inv E snap" "ps_pending snap = []" "engine_view E snap = hist_view W"
    "map ss_hash (ps_types snap) = map ss_hash (ps_types ps)" "ps_seed snap = ps_seed ps" "commit_head c = meta_head (ps_meta snap)"
    "\<And>r. r \<in># live_m snap \<Longrightarrow> blocks r \<subseteq> G"
    "\<And>r b. r \<in># live_m snap \<Longrightarrow> read_run (ps_file snap) r = Ok b \<Longrightarrow> read_run (ps_file ps) r = Ok b \<and> read_run (durable_file (ps_file ps)) r = Ok b"
    using assms(1) unfolding root_held_def by blast
  have "0 < run_count r" if "r \<in># live_m snap" for r
    using owns_positive [OF _ that, of "ps_alloc snap"] s(1) by (simp add: engine_inv_def space_ok_def)
  then have "read_run (ps_file ps') r = Ok b \<and> read_run (durable_file (ps_file ps')) r = Ok b"
    if "r \<in># live_m snap" "read_run (ps_file snap) r = Ok b" for r b
    using assms(4) [OF _ s(7) [OF that(1)]] s(8) [OF that] that(1) by blast
  then show ?thesis unfolding root_held_def using s(1-7) assms(2, 3) by (intro exI [of _ snap]) simp
qed

abbreviation unrooted :: "generation \<Rightarrow> bool" where
  "unrooted g \<equiv> gn_root g = None"

text \<open>The roots a crash could fall back to: no later commit frame is durable.  The newest is the protected
  generation, one before it the previous generation.\<close>

definition roots_held :: "libs \<Rightarrow> page_store \<Rightarrow> generation list \<Rightarrow> bool" where
  "roots_held E ps gs \<longleftrightarrow> (\<forall>as g bs c W. gs = as @ g # bs \<longrightarrow> gn_root g = Some (c, W) \<longrightarrow>
     (\<forall>x\<in>set bs. \<not> unrooted x \<longrightarrow> gn_safe x = 0) \<longrightarrow>
     root_held E (ext_blocks (set (if list_all unrooted bs then protected (ps_alloc ps) else previous_gen (ps_alloc ps)))) ps c W)"

lemma roots_heldD:
  assumes "roots_held E ps gs" "gs = as @ g # bs" "gn_root g = Some (c, W)" "\<forall>x\<in>set bs. \<not> unrooted x \<longrightarrow> gn_safe x = 0"
  shows "root_held E (ext_blocks (set (if list_all unrooted bs then protected (ps_alloc ps) else previous_gen (ps_alloc ps)))) ps c W"
  using assms unfolding roots_held_def by blast

definition superblock_ok :: "libs \<Rightarrow> page_store \<Rightarrow> bool" where
  "superblock_ok E ps \<longleftrightarrow> (\<exists>sb. read_run (ps_file ps) (Run 0 RESERVED_BLOCKS) = Ok sb
     \<and> read_run (durable_file (ps_file ps)) (Run 0 RESERVED_BLOCKS) = Ok sb
     \<and> (\<forall>rest random. \<exists>f. bf_open E random (sb @ rest) = Ok f \<and> bf_seed f = ps_seed ps))"

section \<open>The invariant\<close>

definition log_here :: "libs \<Rightarrow> page_store \<Rightarrow> generation list \<Rightarrow> bool" where
  "log_here E ps gs \<longleftrightarrow> gs \<noteq> [] \<and> disk_holds (crc32 E) (ps_fs ps) gs \<and> j_path (ps_journal ps) = journal_name (gn_ts (last gs))
     \<and> j_ts (ps_journal ps) = gn_ts (last gs) \<and> j_end (ps_journal ps) = length (log_image (crc32 E) (gn_frames (last gs)))"

text \<open>The newest commit frame is durable unless its retirement is still pending.\<close>

definition newest_safe :: "generation list \<Rightarrow> bool" where
  "newest_safe gs \<longleftrightarrow> (\<forall>as g bs. gs = as @ g # bs \<longrightarrow> \<not> unrooted g \<longrightarrow> list_all unrooted bs \<longrightarrow> 0 < gn_safe g)"

definition retiring_ok :: "page_store \<Rightarrow> generation list \<Rightarrow> bool" where
  "retiring_ok ps gs \<longleftrightarrow> (case ps_retiring ps of
      None \<Rightarrow> newest_safe gs
    | Some (old, mark) \<Rightarrow> \<exists>xs g0 g. gs = xs @ [g0, g] \<and> \<not> unrooted g \<and> j_path old = journal_name (gn_ts g0)
        \<and> mark \<le> j_syncs (ps_journal ps) \<and> (mark < j_syncs (ps_journal ps) \<longrightarrow> 0 < gn_safe g))"

definition store_ok :: "libs \<Rightarrow> generation list \<Rightarrow> page_store \<Rightarrow> bool" where
  "store_ok E gs ps \<longleftrightarrow> engine_inv E ps \<and> engine_view E ps = hist_view (outcome [] gs)
     \<and> list_all (list_all (routable (ps_types ps))) (outcome [] gs) \<and> log_here E ps gs \<and> history_ok True [] gs
     \<and> roots_held E ps gs \<and> superblock_ok E ps \<and> retiring_ok ps gs"

lemma store_okD:
  assumes "store_ok E gs ps"
  shows "engine_inv E ps" "engine_view E ps = hist_view (outcome [] gs)" "list_all (list_all (routable (ps_types ps))) (outcome [] gs)"
    "log_here E ps gs" "history_ok True [] gs" "roots_held E ps gs" "superblock_ok E ps" "retiring_ok ps gs"
  using assms unfolding store_ok_def by blast+

text \<open>Whether the journal may take a batch: it opens with its commit frame, or all before it is durable.\<close>

definition appendable :: "generation list \<Rightarrow> bool" where
  "appendable gs \<longleftrightarrow> \<not> unrooted (last gs) \<or> solid True (butlast gs)"

section \<open>Maintenance\<close>

lemma roots_union: "roots a = ext_blocks (set (protected a)) \<union> ext_blocks (set (previous_gen a))"
  by (auto simp: ext_blocks_def)

lemma spared_reads:
  assumes "spares ps ps'" "0 < run_count r" "blocks r \<subseteq> insert 0 (roots (ps_alloc ps))"
    "read_run (ps_file ps) r = Ok b" "read_run (durable_file (ps_file ps)) r = Ok b"
  shows "read_run (ps_file ps') r = Ok b \<and> read_run (durable_file (ps_file ps')) r = Ok b"
proof -
  have "read_run (durable_file (ps_file ps')) r = read_run (durable_file (ps_file ps)) r"
    using assms(1) by (intro read_durable_cong) (simp add: spares_def)
  then show ?thesis using assms by (auto simp: spares_def)
qed

lemma spared_roots:
  assumes "spares ps ps'" "roots_held E ps gs" "map ss_hash (ps_types ps') = map ss_hash (ps_types ps)" "ps_seed ps' = ps_seed ps"
  shows "roots_held E ps' gs"
  unfolding roots_held_def
proof (intro allI impI)
  fix as g bs c W assume g: "gs = as @ g # bs" "gn_root g = Some (c, W)" "\<forall>x\<in>set bs. \<not> unrooted x \<longrightarrow> gn_safe x = 0"
  let ?m = "\<lambda>ps. if list_all unrooted bs then protected (ps_alloc ps) else previous_gen (ps_alloc ps)"
  have held: "root_held E (ext_blocks (set (?m ps))) ps c W" using assms(2) g unfolding roots_held_def by blast
  have "?m ps' = ?m ps" using assms(1) by (simp add: spares_def)
  moreover have "root_held E (ext_blocks (set (?m ps))) ps' c W"
  proof (rule root_held_kept [OF held assms(3, 4)])
    fix r b assume r: "0 < run_count r" "blocks r \<subseteq> ext_blocks (set (?m ps))" "read_run (ps_file ps) r = Ok b" "read_run (durable_file (ps_file ps)) r = Ok b"
    have "blocks r \<subseteq> insert 0 (roots (ps_alloc ps))" using r(2) unfolding roots_union by (auto split: if_splits)
    from spared_reads [OF assms(1) r(1) this r(3, 4)] show "read_run (ps_file ps') r = Ok b \<and> read_run (durable_file (ps_file ps')) r = Ok b" .
  qed
  ultimately show "root_held E (ext_blocks (set (?m ps'))) ps' c W" by simp
qed

lemma spared_superblock:
  assumes "spares ps ps'" "superblock_ok E ps" "ps_seed ps' = ps_seed ps"
  shows "superblock_ok E ps'"
proof -
  obtain sb where sb: "read_run (ps_file ps) (Run 0 RESERVED_BLOCKS) = Ok sb" "read_run (durable_file (ps_file ps)) (Run 0 RESERVED_BLOCKS) = Ok sb"
    "\<forall>rest random. \<exists>f. bf_open E random (sb @ rest) = Ok f \<and> bf_seed f = ps_seed ps"
    using assms(2) unfolding superblock_ok_def by blast
  have "blocks (Run 0 RESERVED_BLOCKS) \<subseteq> insert 0 (roots (ps_alloc ps))" by (auto simp: blocks_def run_end_def)
  from spared_reads [OF assms(1) _ this sb(1, 2)] sb(3) show ?thesis unfolding superblock_ok_def assms(3) by (intro exI [of _ sb]) simp
qed

lemma routable_history: "map ss_hash types' = map ss_hash types \<Longrightarrow> list_all (list_all (routable types')) h = list_all (list_all (routable types)) h"
  by (drule routable_hashes) simp

text \<open>Settling, draining and eviction keep the invariant.\<close>

lemma maintained_ok:
  assumes "store_ok E gs ps" "engine_inv E ps'" "engine_view E ps' = engine_view E ps" "map ss_hash (ps_types ps') = map ss_hash (ps_types ps)"
    "spares ps ps'" "ps_journal ps' = ps_journal ps" "ps_fs ps' = ps_fs ps" "ps_retiring ps' = ps_retiring ps" "ps_seed ps' = ps_seed ps"
  shows "store_ok E gs ps'"
proof -
  note ok = store_okD [OF assms(1)]
  have "log_here E ps' gs" using ok(4) assms(6, 7) by (simp add: log_here_def)
  moreover have "retiring_ok ps' gs" using ok(8) unfolding retiring_ok_def assms(6, 8) .
  ultimately show ?thesis unfolding store_ok_def
    using assms(2) ok(2, 3, 5) spared_roots [OF assms(5) ok(6) assms(4, 9)] spared_superblock [OF assms(5) ok(7) assms(9)]
    unfolding routable_history [OF assms(4)] assms(3) by blast
qed

section \<open>Journal writes\<close>

text \<open>What a journal operation leaves alone: the file it appends to keeps its name, the others their bytes.\<close>

definition only_journal :: "journal \<times> fs \<Rightarrow> journal \<times> fs \<Rightarrow> bool" where
  "only_journal jd jd' \<longleftrightarrow> j_path (fst jd') = j_path (fst jd) \<and> j_ts (fst jd') = j_ts (fst jd)
     \<and> (\<forall>p. p \<noteq> j_path (fst jd) \<longrightarrow> content (snd jd') p = content (snd jd) p \<and> synced (snd jd') p = synced (snd jd) p)"

lemma only_journal_trans: "only_journal a b \<Longrightarrow> only_journal b c \<Longrightarrow> only_journal a c"
  by (simp add: only_journal_def)

lemma write_frame_only:
  "write_frame crc f jd = Ok jd' \<Longrightarrow> only_journal jd jd' \<and> j_syncs (fst jd') = j_syncs (fst jd)"
  by (cases jd) (auto simp: write_frame_def fs_write_at_def only_journal_def try_then_Ok_iff Let_def split: option.splits)

lemma journal_sync_only: "journal_sync jd = Ok jd' \<Longrightarrow> only_journal jd jd' \<and> j_syncs (fst jd') = j_syncs (fst jd) + 1"
  by (cases jd) (auto simp: journal_sync_def fs_sync_def only_journal_def try_then_Ok_iff split: option.splits)

lemma log_batch_only:
  assumes "log_batch E elapsed frame ps = Ok jd"
  shows "only_journal (ps_journal ps, ps_fs ps) jd"
    "j_syncs (fst jd) = (if ps_relaxed ps \<and> \<not> elapsed then j_syncs (ps_journal ps) else j_syncs (ps_journal ps) + 1)"
proof -
  have "only_journal (ps_journal ps, ps_fs ps) jd
    \<and> j_syncs (fst jd) = (if ps_relaxed ps \<and> \<not> elapsed then j_syncs (ps_journal ps) else j_syncs (ps_journal ps) + 1)"
    using assms unfolding log_batch_def append_def append_deferred_def
    by (auto simp: try_then_Ok_iff split: if_splits
        dest!: write_frame_only journal_sync_only intro: only_journal_trans)
  then show "only_journal (ps_journal ps, ps_fs ps) jd"
    "j_syncs (fst jd) = (if ps_relaxed ps \<and> \<not> elapsed then j_syncs (ps_journal ps) else j_syncs (ps_journal ps) + 1)" by simp_all
qed

text \<open>The current journal as a generation, and the generations after it is rewritten.\<close>

lemma log_here_holds:
  assumes "log_here E ps (as @ [g])"
  shows "journal_holds (crc32 E) (ps_journal ps, ps_fs ps) (gn_frames g) (take (gn_safe g) (gn_frames g))"
  using assms by (simp add: log_here_def disk_holds_def journal_at_def journal_holds_def)

lemma covers_replace:
  assumes "covers_ok (as @ [g])" "gn_ts g' = gn_ts g" "\<And>c W. gn_root g' = Some (c, W) \<Longrightarrow> (\<forall>x\<in>set as. gn_ts x \<le> journal_ts c) \<and> journal_ts c < gn_ts g"
  shows "covers_ok (as @ [g'])"
  using assms by (auto simp: covers_ok_def sorted_wrt_append)

lemma log_here_replace:
  assumes "log_here E ps (as @ [g])" "only_journal (ps_journal ps, ps_fs ps) (ps_journal ps', ps_fs ps')"
    "journal_holds (crc32 E) (ps_journal ps', ps_fs ps') (gn_frames g') (take (gn_safe g') (gn_frames g'))"
    "gn_ts g' = gn_ts g" "list_all valid_frame (gn_frames g')" "covers_ok (as @ [g'])"
  shows "log_here E ps' (as @ [g'])"
proof -
  have h: "covers_ok (as @ [g])" "\<forall>x\<in>set (as @ [g]). journal_at (crc32 E) (ps_fs ps) x"
    "dom (content (ps_fs ps)) = journal_name ` gn_ts ` set (as @ [g])" "j_path (ps_journal ps) = journal_name (gn_ts g)"
    "j_ts (ps_journal ps) = gn_ts g" using assms(1) by (simp_all add: log_here_def disk_holds_def)
  have j: "j_path (ps_journal ps') = journal_name (gn_ts g)" "j_ts (ps_journal ps') = gn_ts g" using assms(2) h(4, 5) by (simp_all add: only_journal_def)
  have other: "content (ps_fs ps') p = content (ps_fs ps) p" "synced (ps_fs ps') p = synced (ps_fs ps) p" if "p \<noteq> journal_name (gn_ts g)" for p
    using assms(2) that h(4) by (simp_all add: only_journal_def)
  have new: "journal_at (crc32 E) (ps_fs ps') g'" using assms(3-5) j(1) by (simp add: journal_holds_def journal_at_def)
  have old: "journal_at (crc32 E) (ps_fs ps') x" if x: "x \<in> set as" for x
  proof -
    have "gn_ts x \<noteq> gn_ts g" using h(1) x by (auto simp: covers_ok_def sorted_wrt_append)
    then have "journal_name (gn_ts x) \<noteq> journal_name (gn_ts g)" by (simp add: journal_name_inject)
    then show ?thesis using h(2) x other by (simp add: journal_at_def)
  qed
  have "dom (content (ps_fs ps')) = journal_name ` gn_ts ` set (as @ [g'])"
  proof (rule set_eqI)
    fix p
    show "p \<in> dom (content (ps_fs ps')) \<longleftrightarrow> p \<in> journal_name ` gn_ts ` set (as @ [g'])"
    proof (cases "p = journal_name (gn_ts g)")
      case True
      then show ?thesis using new assms(4) by (auto simp: journal_at_def)
    next
      case False
      then have "p \<in> dom (content (ps_fs ps')) \<longleftrightarrow> p \<in> dom (content (ps_fs ps))" using other(1) by (simp add: domIff)
      also have "\<dots> \<longleftrightarrow> p \<in> journal_name ` gn_ts ` set (as @ [g'])" unfolding h(3) using assms(4) by simp
      finally show ?thesis .
    qed
  qed
  moreover have "dom (synced (ps_fs ps')) \<subseteq> dom (content (ps_fs ps'))"
  proof
    fix p assume p: "p \<in> dom (synced (ps_fs ps'))"
    show "p \<in> dom (content (ps_fs ps'))"
    proof (cases "p = journal_name (gn_ts g)")
      case False
      have "p \<in> dom (synced (ps_fs ps))" using p other(2) [OF False] by (simp add: domIff)
      moreover have "dom (synced (ps_fs ps)) \<subseteq> dom (content (ps_fs ps))" using assms(1) disk_holdsD(4) unfolding log_here_def by blast
      ultimately show ?thesis using other(1) [OF False] by (auto simp: domIff)
    qed (use new assms(4) in \<open>auto simp: journal_at_def\<close>)
  qed
  ultimately show ?thesis using new old j assms(3, 4, 6) by (simp add: log_here_def disk_holds_def journal_holds_def)
qed

section \<open>Batches and barriers\<close>

text \<open>The last generation grows: the same commit frame, more batches, more of it durable.\<close>

definition gn_grows :: "generation \<Rightarrow> generation \<Rightarrow> bool" where
  "gn_grows g g' \<longleftrightarrow> gn_ts g' = gn_ts g \<and> gn_root g' = gn_root g \<and> prefix (gn_batches g) (gn_batches g')
     \<and> gn_safe g \<le> gn_safe g' \<and> gn_safe g' \<le> length (gn_frames g')"

lemma roots_held_cong:
  assumes "roots_held E ps gs" "ps_file ps' = ps_file ps" "ps_alloc ps' = ps_alloc ps" "ps_seed ps' = ps_seed ps"
    "map ss_hash (ps_types ps') = map ss_hash (ps_types ps)"
  shows "roots_held E ps' gs"
  using assms(1) unfolding roots_held_def root_held_def assms(2-5) .

lemma roots_held_grows:
  assumes "roots_held E ps (as @ [g])" "gn_grows g g'"
  shows "roots_held E ps (as @ [g'])"
  unfolding roots_held_def
proof (intro allI impI)
  fix xs y ys c W assume y: "as @ [g'] = xs @ y # ys" "gn_root y = Some (c, W)" "\<forall>x\<in>set ys. \<not> unrooted x \<longrightarrow> gn_safe x = 0"
  have r: "gn_root g' = gn_root g" "gn_safe g' = 0 \<Longrightarrow> gn_safe g = 0" using assms(2) by (simp_all add: gn_grows_def)
  show "root_held E (ext_blocks (set (if list_all unrooted ys then protected (ps_alloc ps) else previous_gen (ps_alloc ps)))) ps c W"
  proof (cases ys rule: rev_cases)
    case Nil
    then have "as = xs" "y = g'" using y(1) by simp_all
    then show ?thesis using roots_heldD [OF assms(1), of xs g "[]" c W] y(2) r(1) Nil by simp
  next
    case (snoc zs z)
    then have e: "z = g'" "as = xs @ y # zs" using y(1) by simp_all
    have "\<forall>x\<in>set (zs @ [g]). \<not> unrooted x \<longrightarrow> gn_safe x = 0" using y(3) snoc e(1) r by auto
    from roots_heldD [OF assms(1) _ y(2) this] e(2) have "root_held E (ext_blocks (set (if list_all unrooted (zs @ [g]) then protected (ps_alloc ps) else previous_gen (ps_alloc ps)))) ps c W" by simp
    moreover have "list_all unrooted (zs @ [g]) = list_all unrooted ys" using snoc e(1) r(1) by simp
    ultimately show ?thesis by simp
  qed
qed

lemma newest_safe_grows:
  assumes "newest_safe (as @ [g])" "gn_grows g g'"
  shows "newest_safe (as @ [g'])"
  unfolding newest_safe_def
proof (intro allI impI)
  fix xs y ys assume y: "as @ [g'] = xs @ y # ys" "\<not> unrooted y" "list_all unrooted ys"
  have r: "gn_root g' = gn_root g" "gn_safe g \<le> gn_safe g'" using assms(2) by (simp_all add: gn_grows_def)
  note safe = assms(1) [unfolded newest_safe_def, rule_format]
  show "0 < gn_safe y"
  proof (cases ys rule: rev_cases)
    case Nil
    then have "as = xs" "y = g'" using y(1) by simp_all
    then show ?thesis using safe [of xs g "[]"] y(2) r by simp
  next
    case (snoc zs z)
    then have "z = g'" "as = xs @ y # zs" using y(1) by simp_all
    then show ?thesis using safe [of xs y "zs @ [g]"] y(2, 3) r snoc by simp
  qed
qed

lemma history_grows:
  assumes "history_ok True [] (as @ [g])" "gn_grows g g'" "appendable (as @ [g]) \<or> gn_batches g' = gn_batches g"
  shows "history_ok True [] (as @ [g'])"
proof -
  have r: "gn_root g' = gn_root g" "gn_safe g \<le> gn_safe g'" "gn_safe g' \<le> length (gn_frames g')" using assms(2) by (simp_all add: gn_grows_def)
  have "gn_root g = None \<Longrightarrow> gn_batches g' = [] \<or> solid True as"
    using assms(1, 3) by (auto simp: history_append appendable_def)
  then show ?thesis using assms(1) r by (auto simp: history_append split: option.splits)
qed

text \<open>A store whose current journal grew.\<close>

lemma grown_ok:
  assumes "store_ok E (as @ [g]) ps" "gn_grows g g'" "appendable (as @ [g]) \<or> gn_batches g' = gn_batches g" "list_all valid_frame (gn_frames g')"
    "only_journal (ps_journal ps, ps_fs ps) (ps_journal ps', ps_fs ps')"
    "journal_holds (crc32 E) (ps_journal ps', ps_fs ps') (gn_frames g') (take (gn_safe g') (gn_frames g'))"
    "engine_inv E ps'" "engine_view E ps' = hist_view (outcome [] (as @ [g']))"
    "list_all (list_all (routable (ps_types ps))) (outcome [] (as @ [g']))" "map ss_hash (ps_types ps') = map ss_hash (ps_types ps)"
    "ps_file ps' = ps_file ps" "ps_alloc ps' = ps_alloc ps" "ps_seed ps' = ps_seed ps" "ps_retiring ps' = ps_retiring ps"
    "j_syncs (ps_journal ps) \<le> j_syncs (ps_journal ps')" "j_syncs (ps_journal ps) < j_syncs (ps_journal ps') \<Longrightarrow> gn_full g'"
  shows "store_ok E (as @ [g']) ps'"
proof -
  note ok = store_okD [OF assms(1)]
  have r: "gn_ts g' = gn_ts g" "gn_root g' = gn_root g" "gn_safe g \<le> gn_safe g'" using assms(2) by (simp_all add: gn_grows_def)
  have "covers_ok (as @ [g])" using ok(4) by (simp add: log_here_def disk_holds_def)
  then have "covers_ok (as @ [g'])" using r(1, 2) by (auto simp: covers_ok_def sorted_wrt_append)
  then have "log_here E ps' (as @ [g'])" by (rule log_here_replace [OF ok(4) assms(5, 6) r(1) assms(4)])
  moreover have "roots_held E ps' (as @ [g'])"
    by (rule roots_held_cong [OF roots_held_grows [OF ok(6) assms(2)] assms(11-13, 10)])
  moreover have "superblock_ok E ps'" using ok(7) unfolding superblock_ok_def assms(11, 13) .
  moreover have "retiring_ok ps' (as @ [g'])"
  proof (cases "ps_retiring ps")
    case None
    then show ?thesis using ok(8) newest_safe_grows [OF _ assms(2)] assms(14) by (simp add: retiring_ok_def)
  next
    case (Some om)
    obtain old mark where om: "om = (old, mark)" by fastforce
    obtain xs g0 where x: "as = xs @ [g0]" "\<not> unrooted g" "j_path old = journal_name (gn_ts g0)" "mark \<le> j_syncs (ps_journal ps)"
      "mark < j_syncs (ps_journal ps) \<longrightarrow> 0 < gn_safe g" using ok(8) Some om by (auto simp: retiring_ok_def)
    have "0 < gn_safe g'" if "mark < j_syncs (ps_journal ps')"
    proof (cases "j_syncs (ps_journal ps) < j_syncs (ps_journal ps')")
      case True
      from assms(16) [OF this] x(2) r(2) show ?thesis by (auto simp: gn_full_def length_frames)
    qed (use that x(5) r(3) assms(15) in linarith)
    then show ?thesis using x r(2) assms(14, 15) Some om by (auto simp: retiring_ok_def)
  qed
  ultimately show ?thesis unfolding store_ok_def
    using assms(7, 8) history_grows [OF ok(5) assms(2, 3)] assms(9) routable_history [OF assms(10)] by blast
qed

lemma frames_snoc: "gn_frames (g\<lparr>gn_batches := gn_batches g @ [b], gn_safe := n\<rparr>) = gn_frames g @ [Batch b]" "gn_frames (g\<lparr>gn_safe := n\<rparr>) = gn_frames g"
  by (simp_all add: gn_frames_def)

lemma gn_cut_all: "gn_full g \<Longrightarrow> gn_cut (gn_safe g) g = g"
  by (cases "gn_root g") (auto simp: gn_full_def gn_cut_def length_frames intro!: generation.equality)

lemma safe_last: "safe_history (as @ [g]) = (case gn_root (gn_cut (gn_safe g) g) of None \<Rightarrow> safe_history as | Some (_, W) \<Rightarrow> W) @ gn_batches (gn_cut (gn_safe g) g)"
  by (simp add: safe_history_def outcome_snoc zip_append split: option.split)

lemma apply_inner_log:
  assumes "apply_inner E elapsed b ps = Ok ps'"
  shows "log_batch E elapsed (Batch (filter (\<lambda>w. \<not> is_expect w) b)) ps = Ok (ps_journal ps', ps_fs ps')"
proof -
  let ?frame = "Batch (filter (\<lambda>w. \<not> is_expect w) b)"
  have "apply_inner E elapsed b ps = try_then (route_batch ps b) (\<lambda>_. try_then (check_guards E ps b) (\<lambda>_.
      try_then (log_batch E elapsed ?frame ps) (\<lambda>(j, d). case commit_to_caches (filter (\<lambda>w. \<not> is_expect w) b) (ps_types ps, []) of
          None \<Rightarrow> None
        | Some (types, touched) \<Rightarrow> Ok (ps\<lparr>ps_journal := j, ps_fs := d, ps_types := types, ps_pending := merge_touched touched (ps_pending ps)\<rparr>))))"
    by (simp only: apply_inner_def log_batch_def Let_def)
  with assms show ?thesis by (auto simp: try_then_Ok_iff split: option.splits prod.splits)
qed

text \<open>A committed batch is the next of the history, durable at once unless the window is open.\<close>

lemma applied_ok:
  fixes b defines "b' \<equiv> filter (\<lambda>w. \<not> is_expect w) b"
  assumes "store_ok E gs ps" "appendable gs" "apply_inner E elapsed b ps = Ok ps'" "valid_frame (Batch b')"
  obtains gs' where "store_ok E gs' ps'" "appendable gs'" "outcome [] gs' = outcome [] gs @ [b']" "prefix (safe_history gs) (safe_history gs')"
    "\<not> (ps_relaxed ps \<and> \<not> elapsed) \<Longrightarrow> safe_history gs' = outcome [] gs'" "map ss_hash (ps_types ps') = map ss_hash (ps_types ps)"
    "ps_relaxed ps' = ps_relaxed ps"
proof -
  let ?lazy = "ps_relaxed ps \<and> \<not> elapsed"
  note ok = store_okD [OF assms(2)]
  have "gs \<noteq> []" using ok(4) by (simp add: log_here_def)
  then obtain as g where gs: "gs = as @ [g]" by (cases gs rule: rev_cases) auto
  define g' where "g' = g\<lparr>gn_batches := gn_batches g @ [b'], gn_safe := if ?lazy then gn_safe g else length (gn_frames g) + 1\<rparr>"
  have f: "gn_frames g' = gn_frames g @ [Batch b']" by (simp add: g'_def gn_frames_def)
  have fields: "gn_ts g' = gn_ts g" "gn_root g' = gn_root g" "gn_batches g' = gn_batches g @ [b']"
    "gn_safe g' = (if ?lazy then gn_safe g else length (gn_frames g) + 1)" by (simp_all add: g'_def)
  have le: "gn_safe g \<le> length (gn_frames g)" using history_safe [OF ok(5), of g] gs by simp
  have grows: "gn_grows g g'" using le f by (simp add: gn_grows_def fields)
  have safe: "take (gn_safe g') (gn_frames g') = (if ?lazy then take (gn_safe g) (gn_frames g) else gn_frames g @ [Batch b'])"
    using le by (simp add: f fields)
  have e: "engine_ok E ps" using ok(1) by (simp add: engine_inv_def)
  have j: "journaled E ps (gn_frames g) (take (gn_safe g) (gn_frames g))" using log_here_holds [of E ps as g] ok(4) gs by (simp add: journaled_def)
  have out: "outcome [] (as @ [g']) = outcome [] gs @ [b']" by (simp add: gs outcome_snoc fields split: option.split)
  show thesis
  proof (rule apply_inner_cases [OF e j, of elapsed b], goal_cases)
    case (3 ps1)
    then have ps1: "ps1 = ps'" using assms(4) by simp
    note c = 3 [unfolded ps1, folded b'_def]
    have only: "only_journal (ps_journal ps, ps_fs ps) (ps_journal ps', ps_fs ps')"
      "j_syncs (ps_journal ps') = (if ?lazy then j_syncs (ps_journal ps) else j_syncs (ps_journal ps) + 1)"
      using log_batch_only [OF apply_inner_log [OF assms(4)]] by simp_all
    have same: "ps_file ps' = ps_file ps" "ps_alloc ps' = ps_alloc ps" "ps_seed ps' = ps_seed ps" "ps_retiring ps' = ps_retiring ps" "ps_relaxed ps' = ps_relaxed ps"
      using arg_cong [OF c(10), of ps_file] arg_cong [OF c(10), of ps_alloc] arg_cong [OF c(10), of ps_seed]
        arg_cong [OF c(10), of ps_retiring] arg_cong [OF c(10), of ps_relaxed] by simp_all
    have valid: "list_all valid_frame (gn_frames g')"
      using ok(4) assms(5) gs by (simp add: f log_here_def disk_holds_def journal_at_def)
    have inv: "engine_inv E ps'" by (rule commit_inv [OF ok(1) c(4, 7-10)])
    have view: "engine_view E ps' = hist_view (outcome [] (as @ [g']))"
      using c(5) ok(2) typed_effect_filter [of b] by (simp add: out hist_view_def b'_def)
    have "list_all (routable (ps_types ps)) b'" using c(2) by (auto simp: b'_def list_all_iff)
    then have route: "list_all (list_all (routable (ps_types ps))) (outcome [] (as @ [g']))" using ok(3) by (simp add: out)
    have holds: "journal_holds (crc32 E) (ps_journal ps', ps_fs ps') (gn_frames g') (take (gn_safe g') (gn_frames g'))"
      unfolding safe unfolding f using c(6) by (simp add: journaled_def)
    have "store_ok E (as @ [g']) ps'"
      by (rule grown_ok [OF assms(2) [unfolded gs] grows _ valid only(1) holds inv view route c(7) same(1-4)])
        (use assms(3) gs only(2) in \<open>auto simp: gn_full_def f fields split: if_splits\<close>)
    moreover have app: "appendable (as @ [g'])" using assms(3) gs by (simp add: appendable_def fields)
    moreover have full: "safe_history (as @ [g']) = outcome [] (as @ [g'])" if "\<not> ?lazy"
    proof -
      have "gn_cut (gn_safe g') g' = g'" using that f by (intro gn_cut_all) (auto simp: gn_full_def fields)
      moreover have "gn_root g' = None \<Longrightarrow> safe_history as = outcome [] as"
        using app ok(5) gs by (intro solid_safe) (auto simp: appendable_def history_append)
      ultimately show ?thesis by (simp add: safe_last outcome_snoc split: option.split)
    qed
    moreover have "prefix (safe_history gs) (safe_history (as @ [g']))"
    proof (cases ?lazy)
      case True
      then have "gn_root (gn_cut (gn_safe g') g') = gn_root (gn_cut (gn_safe g) g)" "gn_batches (gn_cut (gn_safe g') g') = gn_batches (gn_cut (gn_safe g) g)"
        using le by (auto simp: gn_cut_def length_frames fields split: option.split if_splits)
      then show ?thesis by (simp add: gs safe_last)
    next
      case False
      have "prefix (safe_history gs) (outcome [] gs)"
        using cuts_between [OF ok(5), of "map (length \<circ> gn_frames) gs"] history_safe [OF ok(5)] by (simp add: map2_cut_all list_all2_conv_all_nth)
      then show ?thesis using full [OF False] out by simp
    qed
    ultimately show thesis using that out c(7) same(5) by blast
  qed (use assms(4) in simp_all)
qed

lemma flushed_ok:
  assumes "store_ok E gs ps" "ps_flush ps = Ok ps'"
  obtains gs' where "store_ok E gs' ps'" "appendable gs \<Longrightarrow> appendable gs'" "outcome [] gs' = outcome [] gs" "prefix (safe_history gs) (safe_history gs')"
    "appendable gs \<Longrightarrow> safe_history gs' = outcome [] gs'" "map ss_hash (ps_types ps') = map ss_hash (ps_types ps)" "ps_relaxed ps' = ps_relaxed ps"
    "gn_full (last gs')" "butlast gs' = butlast gs" "gn_root (last gs') = gn_root (last gs)" "gn_ts (last gs') = gn_ts (last gs)"
    "ps' = ps\<lparr>ps_journal := ps_journal ps', ps_fs := ps_fs ps'\<rparr>"
proof -
  note ok = store_okD [OF assms(1)]
  have "gs \<noteq> []" using ok(4) by (simp add: log_here_def)
  then obtain as g where gs: "gs = as @ [g]" by (cases gs rule: rev_cases) auto
  define g' where "g' = g\<lparr>gn_safe := length (gn_frames g)\<rparr>"
  have f: "gn_frames g' = gn_frames g" "gn_batches g' = gn_batches g" "gn_root g' = gn_root g" "gn_full g'" by (simp_all add: g'_def frames_snoc gn_full_def)
  have le: "gn_safe g \<le> length (gn_frames g)" using history_safe [OF ok(5), of g] gs by simp
  have grows: "gn_grows g g'" using le by (simp add: gn_grows_def g'_def frames_snoc)
  obtain jd where jd: "journal_sync (ps_journal ps, ps_fs ps) = Ok jd" "journal_holds (crc32 E) jd (gn_frames g) (gn_frames g)"
    by (rule journal_sync_holds [OF log_here_holds]) (use ok(4) gs in simp)
  have ps': "ps' = ps\<lparr>ps_journal := fst jd, ps_fs := snd jd\<rparr>" using assms(2) jd(1) by (simp add: ps_flush_def case_prod_unfold)
  have valid: "list_all valid_frame (gn_frames g')" using ok(4) gs by (simp add: f log_here_def disk_holds_def journal_at_def)
  have out: "outcome [] (as @ [g']) = outcome [] gs" by (simp add: gs outcome_snoc f split: option.split)
  have "store_ok E (as @ [g']) ps'"
  proof (rule grown_ok [OF assms(1) [unfolded gs] grows _ valid])
    show "only_journal (ps_journal ps, ps_fs ps) (ps_journal ps', ps_fs ps')" using journal_sync_only [OF jd(1)] by (simp add: ps')
    show "journal_holds (crc32 E) (ps_journal ps', ps_fs ps') (gn_frames g') (take (gn_safe g') (gn_frames g'))"
      using jd(2) f(4) by (simp add: ps' f(1) gn_full_def)
    show "engine_inv E ps'" using ok(1) by (simp add: ps' engine_inv_def engine_ok_def)
    show "engine_view E ps' = hist_view (outcome [] (as @ [g']))" using ok(2) by (simp add: ps' out)
    show "list_all (list_all (routable (ps_types ps))) (outcome [] (as @ [g']))" using ok(3) by (simp add: out)
    show "j_syncs (ps_journal ps) \<le> j_syncs (ps_journal ps')" using journal_sync_only [OF jd(1)] by (simp add: ps')
  qed (simp_all add: ps' f)
  moreover have app: "appendable (as @ [g'])" if "appendable gs" using that gs f(3) by (simp add: appendable_def)
  moreover have "gn_cut (gn_safe g') g' = g'" by (rule gn_cut_all [OF f(4)])
  then have last: "safe_history (as @ [g']) = (case gn_root g of None \<Rightarrow> safe_history as | Some (_, W) \<Rightarrow> W) @ gn_batches g" by (simp add: safe_last f)
  moreover have "safe_history (as @ [g']) = outcome [] (as @ [g'])" if a: "appendable gs"
  proof -
    have "gn_root g = None \<Longrightarrow> safe_history as = outcome [] as"
      using a ok(5) gs by (intro solid_safe) (auto simp: appendable_def history_append)
    then show ?thesis by (simp add: last outcome_snoc f split: option.split)
  qed
  moreover have "prefix (safe_history gs) (safe_history (as @ [g']))"
  proof -
    have "history_ok True [] (as @ [g'])" using history_grows [OF ok(5) [unfolded gs] grows] f(2) by simp
    moreover have "list_all2 (\<lambda>g n. gn_safe g \<le> n) gs (map gn_safe (as @ [g']))" "length as = length (map gn_safe as)"
      using le by (auto simp: gs list_all2_conv_all_nth nth_append g'_def)
    moreover have "outcome [] (map2 gn_cut (map gn_safe (as @ [g'])) gs) = safe_history (as @ [g'])"
      by (simp add: gs safe_history_def zip_append outcome_snoc gn_cut_def g'_def frames_snoc gn_frames_def split: option.split)
    ultimately show ?thesis using cuts_between(1) [OF ok(5)] by metis
  qed
  ultimately show thesis using that [of "as @ [g']"] out gs f by (simp add: ps' g'_def)
qed

end
