(* ===== verification/Checkpoint_Laws.thy ===== *)
theory Checkpoint_Laws
  imports Crash_Safety
begin

text \<open>
  Checkpoints keep the store recoverable at every point of their course: the rotation, the retirement of
  the generation before, the drain, and the commit frame.
\<close>

section \<open>The file after a barrier\<close>

lemma read_page_sync [simp]: "read_page E (bf_sync f) = read_page E f"
  by (simp add: fun_eq_iff read_page_def split: option.split)

lemma stage_sync [simp]: "stage E (bf_sync f) = stage E f"
  by (simp add: fun_eq_iff stage_def split: option.split)

lemma pages_sync [simp]:
  "staged_ok E (bf_sync f) = staged_ok E f" "stage_view E (bf_sync f) = stage_view E f" "stage_fits E (bf_sync f) = stage_fits E f"
  unfolding fun_eq_iff staged_ok_def stage_view_def stage_fits_def by simp_all

lemma slot_sync [simp]: "slot_ok E (bf_sync f) = slot_ok E f" "slot_view E (bf_sync f) = slot_view E f" "dict_ok E (bf_sync f) = dict_ok E f"
  unfolding fun_eq_iff slot_ok_def slot_pages_ok_def page_view_def slot_view_def dict_ok_def by (simp_all split: option.split)

lemma types_sync [simp]: "types_ok E (bf_sync f) = types_ok E f" "types_view E (bf_sync f) = types_view E f"
  unfolding fun_eq_iff types_ok_def types_view_def by (simp_all split: option.split)

lemma log_sync [simp]:
  "links E (bf_sync f) p cs = links E f p cs" "replay_chain E (bf_sync f) cs rp = replay_chain E f cs rp"
  "bf_seed (bf_sync f) = bf_seed f" "bf_bytes (bf_sync f) = bf_bytes f" "bf_durable (bf_sync f) = bf_bytes f"
proof -
  have c: "read_chunk E (bf_sync f) = read_chunk E f" by (simp add: fun_eq_iff read_chunk_def)
  show "links E (bf_sync f) p cs = links E f p cs" by (induction cs arbitrary: p) (simp_all add: c)
  have "\<forall>rp. replay_chain E (bf_sync f) cs rp = replay_chain E f cs rp"
  proof (induction cs)
    case (Cons d cs)
    then have "replay_chain E (bf_sync f) cs = replay_chain E f cs" by (simp add: fun_eq_iff)
    then show ?case by (simp add: c)
  qed simp
  then show "replay_chain E (bf_sync f) cs rp = replay_chain E f cs rp" by blast
qed (simp_all add: bf_sync_def)

lemma read_durable_sync [simp]: "read_run (durable_file (bf_sync f)) r = read_run f r"
  by (simp add: durable_file_def read_run_def Let_def bf_sync_def)

lemma engine_inv_sync:
  assumes "engine_inv E ps" "alloc_owns a (live_m ps)"
  shows "engine_inv E (ps\<lparr>ps_file := bf_sync (ps_file ps), ps_alloc := a\<rparr>)"
proof -
  have ok: "engine_ok E ps" "space_ok ps" "types_fit E ps" "log_ok E ps" using assms(1) by (simp_all add: engine_inv_def)
  let ?ps = "ps\<lparr>ps_file := bf_sync (ps_file ps), ps_alloc := a\<rparr>"
  have "engine_ok E ?ps" using ok(1) by (simp add: engine_ok_def)
  moreover have "space_ok ?ps" using ok(2) assms(2) by (simp add: space_ok_def live_m_def)
  moreover have "types_fit E ?ps" using ok(3) by (simp add: types_fit_def)
  moreover have "slot_logged E (bf_sync (ps_file ps)) seed s = slot_logged E (ps_file ps) seed s" for seed s by (simp add: slot_logged_def)
  then have "log_ok E ?ps" using log_okD [OF ok(4)] by (simp add: log_ok_def addr_ok_def)
  ultimately show ?thesis by (simp add: engine_inv_def)
qed

section \<open>Generations of the allocator\<close>

lemma release_gens [simp]: "protected (release_previous a) = protected a" "previous_gen (release_previous a) = []"
  by (simp_all add: release_previous_def retry_pending_def free_all_gens)

lemma protect_gens [simp]: "previous_gen (set_protected rs a) = protected a"
  by (simp add: set_protected_def retry_pending_def free_all_gens Let_def)

lemma used_runs_live: "mset (used_runs ps) = live_m ps"
proof -
  have s: "mset (slot_runs s) = slot_m s" for s
    using allocated_runs by (auto simp: slot_runs_def slot_m_def dir_m_def desc_m_def split: option.split)
  have "mset (concat (map slot_runs ss)) = sum_list (map slot_m ss)" for ss by (induction ss) (simp_all add: s)
  then show ?thesis by (simp add: used_runs_def live_m_def)
qed

lemma owns_release: "alloc_owns a M \<Longrightarrow> alloc_owns (release_previous a) M"
  using release_wf by (auto simp: alloc_owns_def)

lemma owns_protect: "alloc_owns a M \<Longrightarrow> mset rs = M \<Longrightarrow> alloc_owns (set_protected rs a) M"
  using set_protected_wf [of a rs rs] alloc_owns_iff [of rs M] by auto

section \<open>A new journal\<close>

text \<open>What recovery needs of a state, wherever the store is in its course.\<close>

definition crash_ok :: "libs \<Rightarrow> generation list \<Rightarrow> page_store \<Rightarrow> bool" where
  "crash_ok E gs ps \<longleftrightarrow> gs \<noteq> [] \<and> disk_holds (crc32 E) (ps_fs ps) gs \<and> history_ok True [] gs
     \<and> list_all (list_all (routable (ps_types ps))) (outcome [] gs) \<and> roots_held E ps gs \<and> superblock_ok E ps"

lemma store_crash_ok: "store_ok E gs ps \<Longrightarrow> crash_ok E gs ps"
  by (simp add: store_ok_def crash_ok_def log_here_def)

lemma roots_held_snoc:
  assumes "roots_held E ps gs" "unrooted f"
  shows "roots_held E ps (gs @ [f])"
  unfolding roots_held_def
proof (intro allI impI)
  fix xs y ys c W assume y: "gs @ [f] = xs @ y # ys" "gn_root y = Some (c, W)" "\<forall>x\<in>set ys. \<not> unrooted x \<longrightarrow> gn_safe x = 0"
  show "root_held E (ext_blocks (set (if list_all unrooted ys then protected (ps_alloc ps) else previous_gen (ps_alloc ps)))) ps c W"
  proof (cases ys rule: rev_cases)
    case Nil
    then show ?thesis using y(1, 2) assms(2) by simp
  next
    case (snoc zs z)
    then have "z = f" "gs = xs @ y # zs" using y(1) by simp_all
    then show ?thesis using roots_heldD [OF assms(1) _ y(2), of xs zs] y(3) snoc assms(2) by simp
  qed
qed

lemma newest_safe_snoc:
  assumes "newest_safe gs" "unrooted f"
  shows "newest_safe (gs @ [f])"
  unfolding newest_safe_def
proof (intro allI impI)
  fix xs y ys assume y: "gs @ [f] = xs @ y # ys" "\<not> unrooted y" "list_all unrooted ys"
  show "0 < gn_safe y"
  proof (cases ys rule: rev_cases)
    case Nil
    then show ?thesis using y(1, 2) assms(2) by simp
  next
    case (snoc zs z)
    then have "gs = xs @ y # zs" using y(1) by simp
    then show ?thesis using assms(1) y(2, 3) snoc unfolding newest_safe_def by auto
  qed
qed

abbreviation fresh_gen :: "u64 \<Rightarrow> generation" where
  "fresh_gen ts \<equiv> \<lparr>gn_ts = ts, gn_root = None, gn_batches = [], gn_safe = 0\<rparr>"

lemma history_fresh: "history_ok True [] gs \<Longrightarrow> history_ok True [] (gs @ [fresh_gen ts])"
  by (simp add: history_append)

lemma outcome_fresh: "outcome h (gs @ [fresh_gen ts]) = outcome h gs"
  by (simp add: outcome_snoc)

lemma safe_fresh: "safe_history (gs @ [fresh_gen ts]) = safe_history gs"
  by (simp add: safe_last gn_cut_def)

text \<open>Just after the new journal is created, before anything is retired.\<close>

definition created :: "u64 \<Rightarrow> page_store \<Rightarrow> page_store" where
  "created now ps = (case journal_create (next_ts now (j_ts (ps_journal ps))) (ps_fs ps) of
      Ok (fresh, d) \<Rightarrow> ps\<lparr>ps_retiring := None, ps_journal := fresh, ps_fs := d\<rparr>
    | _ \<Rightarrow> ps)"

lemma created_ok:
  assumes "store_ok E gs ps" "j_ts (ps_journal ps) \<noteq> - 1"
  obtains ts fresh d where "journal_create (next_ts now (j_ts (ps_journal ps))) (ps_fs ps) = Ok (fresh, d)"
    "fresh = \<lparr>j_path = journal_name ts, j_ts = ts, j_end = 0, j_syncs = 0\<rparr>" "created now ps = ps\<lparr>ps_retiring := None, ps_journal := fresh, ps_fs := d\<rparr>"
    "crash_ok E (gs @ [fresh_gen ts]) (created now ps)" "disk_holds (crc32 E) d (gs @ [fresh_gen ts])"
proof -
  note ok = store_okD [OF assms(1)]
  have l: "gs \<noteq> []" "disk_holds (crc32 E) (ps_fs ps) gs" "j_ts (ps_journal ps) = gn_ts (last gs)" using ok(4) by (simp_all add: log_here_def)
  then obtain as g where gs: "gs = as @ [g]" by (cases gs rule: rev_cases) auto
  let ?ts = "next_ts now (gn_ts g)"
  have "gn_ts g < ?ts" using next_ts_greater [of "gn_ts g" now] assms(2) l(3) gs by simp
  from disk_create [OF l(2) [unfolded gs] this] obtain j d where
    c: "journal_create ?ts (ps_fs ps) = Ok (j, d)" "j = \<lparr>j_path = journal_name ?ts, j_ts = ?ts, j_end = 0, j_syncs = 0\<rparr>"
    "disk_holds (crc32 E) d (gs @ [fresh_gen ?ts])" unfolding gs append_assoc append_Cons append_Nil by blast
  have cr: "created now ps = ps\<lparr>ps_retiring := None, ps_journal := j, ps_fs := d\<rparr>" using c(1) l(3) gs by (simp add: created_def)
  have "roots_held E (created now ps) (gs @ [fresh_gen ?ts])"
    by (rule roots_held_cong [OF roots_held_snoc [OF ok(6)]]) (simp_all add: cr)
  moreover have "superblock_ok E (created now ps)" using ok(7) by (simp add: cr superblock_ok_def)
  ultimately have "crash_ok E (gs @ [fresh_gen ?ts]) (created now ps)"
    using c(3) history_fresh [OF ok(5)] ok(3) by (simp add: crash_ok_def outcome_fresh cr)
  then show thesis using that [of j d ?ts] c cr l(3) gs by simp
qed

section \<open>Retiring the generation before\<close>

text \<open>The generation before goes once the commit frame that covers it is durable.\<close>

lemma covered_goes:
  assumes "history_ok True [] (xs @ [g0, g] @ ys)" "gn_root g = Some (c, W)" "gn_safe g' \<le> length (gn_frames g')" "0 < gn_safe g'"
    "gn_root g' = gn_root g" "gn_batches g' = gn_batches g" "gn_safe g \<le> gn_safe g'" "list_all (\<lambda>x. unrooted x \<and> gn_batches x = [] \<and> gn_safe x = 0) ys"
  shows "history_ok True [] (xs @ [g'] @ ys)" "outcome [] (xs @ [g'] @ ys) = outcome [] (xs @ [g0, g] @ ys)"
    "prefix (safe_history (xs @ [g0, g] @ ys)) (safe_history (xs @ [g'] @ ys))"
proof -
  have quiet: "history_ok full h ys" "outcome h ys = h" "outcome h (map2 gn_cut (map gn_safe ys) ys) = h" for full h
    using assms(8) by (induction ys arbitrary: full h) (auto simp: gn_frames_def gn_cut_def)
  show "history_ok True [] (xs @ [g'] @ ys)" using assms(1-6) by (simp add: history_append quiet)
  show "outcome [] (xs @ [g'] @ ys) = outcome [] (xs @ [g0, g] @ ys)" using assms(2, 5, 6) by (simp add: outcome_append)
  let ?ns = "map gn_safe (xs @ [g0, g'] @ ys)"
  have "list_all2 (\<lambda>g n. gn_safe g \<le> n) (xs @ [g0, g] @ ys) ?ns"
    using assms(7) by (auto simp: list_all2_append list_all2_map2 list_all2_same)
  from cuts_between(1) [OF assms(1) this]
  have "prefix (safe_history (xs @ [g0, g] @ ys)) (outcome [] (map2 gn_cut ?ns (xs @ [g0, g] @ ys)))" .
  moreover have "outcome [] (map2 gn_cut ?ns (xs @ [g0, g] @ ys)) = safe_history (xs @ [g'] @ ys)"
    using assms(2, 4-6) by (simp add: safe_history_def zip_append outcome_append quiet gn_cut_root cut_batches)
  ultimately show "prefix (safe_history (xs @ [g0, g] @ ys)) (safe_history (xs @ [g'] @ ys))" by simp
qed

lemma roots_covered:
  assumes "roots_held E ps (xs @ [g0, g] @ ys)" "gn_root g = Some (c, W)" "gn_root g' = gn_root g" "0 < gn_safe g'" "list_all unrooted ys"
    "ps_file ps' = ps_file ps" "protected (ps_alloc ps') = protected (ps_alloc ps)" "ps_seed ps' = ps_seed ps"
    "map ss_hash (ps_types ps') = map ss_hash (ps_types ps)"
  shows "roots_held E ps' (xs @ [g'] @ ys)"
  unfolding roots_held_def
proof (intro allI impI)
  fix as y bs c' W' assume y: "xs @ [g'] @ ys = as @ y # bs" "gn_root y = Some (c', W')" "\<forall>x\<in>set bs. \<not> unrooted x \<longrightarrow> gn_safe x = 0"
  have "\<not> unrooted g'" using assms(2, 3) by simp
  then have "g' \<notin> set bs" using y(3) assms(4) by auto
  moreover have "y \<notin> set ys" using y(2) assms(5) by (auto simp: list_all_iff)
  ultimately have e: "as = xs" "y = g'" "bs = ys" using y(1) by (auto simp: append_eq_append_conv2 append_eq_Cons_conv Cons_eq_append_conv)
  have "root_held E (ext_blocks (set (protected (ps_alloc ps)))) ps c' W'"
    using roots_heldD [OF assms(1), of "xs @ [g0]" g ys c' W'] y(2) e assms(3, 5) by (auto simp: list_all_iff)
  from root_held_kept [OF this assms(9, 8)] assms(6)
  show "root_held E (ext_blocks (set (if list_all unrooted bs then protected (ps_alloc ps') else previous_gen (ps_alloc ps')))) ps' c' W'"
    using assms(5, 7) e(3) by simp
qed

lemma newest_covered: "\<not> unrooted g' \<Longrightarrow> 0 < gn_safe g' \<Longrightarrow> list_all unrooted ys \<Longrightarrow> newest_safe (xs @ [g'] @ ys)"
  unfolding newest_safe_def
proof (intro allI impI)
  fix as y bs assume a: "\<not> unrooted g'" "0 < gn_safe g'" "list_all unrooted ys" "xs @ [g'] @ ys = as @ y # bs" "\<not> unrooted y" "list_all unrooted bs"
  have "g' \<notin> set bs" "y \<notin> set ys" using a(1, 3, 5, 6) by (auto simp: list_all_iff)
  then have "y = g'" using a(4) by (auto simp: append_eq_append_conv2 append_eq_Cons_conv Cons_eq_append_conv)
  then show "0 < gn_safe y" using a(2) by simp
qed

text \<open>The first half of a checkpoint: the new journal, and the retirement the last checkpoint left pending.\<close>

definition rotate :: "u64 \<Rightarrow> page_store \<Rightarrow> page_store \<times> journal \<times> unit sres" where
  "rotate now ps = (case journal_create (next_ts now (j_ts (ps_journal ps))) (ps_fs ps) of
      None \<Rightarrow> (ps\<lparr>ps_retiring := None\<rparr>, ps_journal ps, None)
    | Err e \<Rightarrow> (ps\<lparr>ps_retiring := None\<rparr>, ps_journal ps, Err e)
    | Ok (fresh, d) \<Rightarrow> retire_previous (ps_retiring ps) (ps_journal ps) (ps\<lparr>ps_retiring := None, ps_journal := fresh, ps_fs := d\<rparr>))"

lemma commit_journal_rotate:
  assumes "rotate now ps = (ps1, old, Ok ())"
  shows "commit_journal E now ps = Option.bind (drain E ps1) (\<lambda>(ps2, r). case r of
      None \<Rightarrow> Some (ps2, None) | Err e \<Rightarrow> Some (ps2, Err e) | Ok _ \<Rightarrow> Some (seal E old ps2))"
  using assms
  by (cases "journal_create (next_ts now (j_ts (ps_journal ps))) (ps_fs ps)")
    (auto simp: commit_journal_def rotate_def Let_def split: sum.splits prod.splits)

lemma disposed:
  assumes "disk_holds (crc32 E) (ps_fs ps) (xs @ g0 # ys)" "j_path (fst retiring) = journal_name (gn_ts g0)"
  obtains d where "dispose retiring ps = (ps\<lparr>ps_alloc := release_previous (ps_alloc ps), ps_fs := d\<rparr>, Ok ())" "disk_holds (crc32 E) d (xs @ ys)"
proof -
  obtain d where d: "delete_file (journal_name (gn_ts g0)) (ps_fs ps) = Ok d" "disk_holds (crc32 E) d (xs @ ys)" by (rule disk_delete [OF assms(1)])
  then show thesis using that [of d] assms(2) by (simp add: dispose_def)
qed

lemma released_inv: "engine_inv E ps \<Longrightarrow> engine_inv E (ps\<lparr>ps_alloc := release_previous (ps_alloc ps)\<rparr>)"
  by (simp add: engine_inv_def engine_ok_def space_ok_def live_m_def owns_release)

text \<open>The carrier's commit frame is durable when its retirement is taken up: a barrier since, or one now.\<close>

lemma carrier_synced:
  assumes "disk_holds (crc32 E) d (xs @ g # ys)" "j_path carrier = journal_name (gn_ts g)" "\<not> unrooted g"
    "mark < j_syncs carrier \<longrightarrow> 0 < gn_safe g" "gn_safe g \<le> length (gn_frames g)"
  obtains g' carrier' d' where "(if j_syncs carrier \<le> mark then journal_sync (carrier, d) else Ok (carrier, d)) = Ok (carrier', d')"
    "disk_holds (crc32 E) d' (xs @ g' # ys)" "0 < gn_safe g'" "gn_safe g \<le> gn_safe g'" "gn_safe g' \<le> length (gn_frames g')"
    "gn_ts g' = gn_ts g" "gn_root g' = gn_root g" "gn_batches g' = gn_batches g" "j_ts carrier' = j_ts carrier" "j_path carrier' = j_path carrier"
proof (cases "j_syncs carrier \<le> mark")
  case True
  obtain d' where d': "journal_sync (carrier, d) = Ok (carrier\<lparr>j_syncs := j_syncs carrier + 1\<rparr>, d')"
    "disk_holds (crc32 E) d' (xs @ g\<lparr>gn_safe := length (gn_frames g)\<rparr> # ys)" by (rule disk_sync [OF assms(1, 2)])
  have "gn_frames (g\<lparr>gn_safe := length (gn_frames g)\<rparr>) = gn_frames g" "0 < length (gn_frames g)"
    using assms(3) by (simp_all only: frames_snoc length_frames) simp
  then show thesis using that [OF _ d'(2)] d'(1) True assms(5) by (simp add: length_frames)
next
  case False
  then show thesis using that [OF _ assms(1)] assms(4, 5) by simp
qed

lemma rotate_ok:
  assumes "store_ok E gs ps" "j_ts (ps_journal ps) \<noteq> - 1"
  obtains ps1 old zs g ts where "rotate now ps = (ps1, old, Ok ())" "store_ok E (zs @ [g, fresh_gen ts]) ps1"
    "outcome [] (zs @ [g, fresh_gen ts]) = outcome [] gs" "prefix (safe_history gs) (safe_history (zs @ [g, fresh_gen ts]))"
    "ps_retiring ps1 = None" "j_ts old = gn_ts g" "j_path old = journal_name (gn_ts g)"
    "ps1 = ps\<lparr>ps_retiring := None, ps_journal := ps_journal ps1, ps_fs := ps_fs ps1, ps_alloc := ps_alloc ps1\<rparr>"
proof -
  note ok = store_okD [OF assms(1)]
  obtain ts fresh d where c: "journal_create (next_ts now (j_ts (ps_journal ps))) (ps_fs ps) = Ok (fresh, d)"
    "fresh = \<lparr>j_path = journal_name ts, j_ts = ts, j_end = 0, j_syncs = 0\<rparr>" "created now ps = ps\<lparr>ps_retiring := None, ps_journal := fresh, ps_fs := d\<rparr>"
    "crash_ok E (gs @ [fresh_gen ts]) (created now ps)" "disk_holds (crc32 E) d (gs @ [fresh_gen ts])"
    by (rule created_ok [OF assms])
  have l: "gs \<noteq> []" "j_path (ps_journal ps) = journal_name (gn_ts (last gs))" "j_ts (ps_journal ps) = gn_ts (last gs)"
    using ok(4) by (simp_all add: log_here_def)
  let ?f = "fresh_gen ts"
  have rot: "rotate now ps = retire_previous (ps_retiring ps) (ps_journal ps) (created now ps)" by (simp add: rotate_def c(1, 3))
  show thesis
  proof (cases "ps_retiring ps")
    case None
    obtain zs g where gs: "gs = zs @ [g]" using l(1) by (cases gs rule: rev_cases) auto
    have "newest_safe gs" using ok(8) None by (simp add: retiring_ok_def)
    then have "retiring_ok (created now ps) (gs @ [?f])" using newest_safe_snoc [of gs ?f] by (simp add: retiring_ok_def c(3))
    moreover have "log_here E (created now ps) (gs @ [?f])" using c(5) by (simp add: log_here_def c(2, 3) gn_frames_def)
    moreover have "engine_inv E (created now ps)" using ok(1) by (simp add: c(3) engine_inv_def engine_ok_def)
    ultimately have "store_ok E (gs @ [?f]) (created now ps)"
      using c(4) ok(2) unfolding store_ok_def crash_ok_def by (simp add: outcome_fresh c(3))
    then show thesis
      using that [of "created now ps" "ps_journal ps" zs g ts] rot None gs l(2, 3) outcome_fresh [of "[]" gs ts] safe_fresh [of gs ts]
      by (simp add: retire_previous_def c(3))
  next
    case (Some om)
    obtain oldj mark where om: "om = (oldj, mark)" by fastforce
    obtain xs g0 g where x: "gs = xs @ [g0, g]" "\<not> unrooted g" "j_path oldj = journal_name (gn_ts g0)"
      "mark < j_syncs (ps_journal ps) \<longrightarrow> 0 < gn_safe g" using ok(8) Some om by (auto simp: retiring_ok_def)
    then obtain cf W where root: "gn_root g = Some (cf, W)" by auto
    have "disk_holds (crc32 E) d ((xs @ [g0]) @ g # [?f])" using c(5) x(1) by simp
    have path: "j_path (ps_journal ps) = journal_name (gn_ts g)" and le: "gn_safe g \<le> length (gn_frames g)"
      using l(2) x(1) history_safe [OF ok(5), of g] by simp_all
    from carrier_synced [OF \<open>disk_holds (crc32 E) d ((xs @ [g0]) @ g # [?f])\<close> path x(2, 4) le] obtain g' old d1 where
      s: "(if j_syncs (ps_journal ps) \<le> mark then journal_sync (ps_journal ps, d) else Ok (ps_journal ps, d)) = Ok (old, d1)"
      "disk_holds (crc32 E) d1 (xs @ g0 # [g', ?f])" "0 < gn_safe g'" "gn_safe g \<le> gn_safe g'" "gn_safe g' \<le> length (gn_frames g')"
      "gn_ts g' = gn_ts g" "gn_root g' = gn_root g" "gn_batches g' = gn_batches g" "j_ts old = j_ts (ps_journal ps)" "j_path old = j_path (ps_journal ps)"
      unfolding append_assoc append_Cons append_Nil by blast
    let ?ps0 = "(created now ps)\<lparr>ps_fs := d1\<rparr>"
    obtain d2 where d2: "dispose (oldj, mark) ?ps0 = (?ps0\<lparr>ps_alloc := release_previous (ps_alloc ?ps0), ps_fs := d2\<rparr>, Ok ())"
      "disk_holds (crc32 E) d2 (xs @ [g', ?f])"
      by (rule disposed [of E ?ps0 xs g0 "[g', ?f]" "(oldj, mark)"]) (use s(2) x(3) in simp_all)
    let ?ps1 = "ps\<lparr>ps_retiring := None, ps_journal := fresh, ps_fs := d2, ps_alloc := release_previous (ps_alloc ps)\<rparr>"
    have ps1: "rotate now ps = (?ps1, old, Ok ())"
    proof (cases "j_syncs (ps_journal ps) \<le> mark")
      case True
      then show ?thesis using s(1) d2(1) rot Some om by (simp add: retire_previous_def c(3))
    next
      case False
      then have "old = ps_journal ps" "d1 = d" using s(1) by simp_all
      then show ?thesis using False d2(1) rot Some om by (simp add: retire_previous_def c(3))
    qed
    have h: "history_ok True [] (xs @ [g0, g] @ [?f])" using history_fresh [OF ok(5)] x(1) by simp
    note gone = covered_goes [OF h root s(5, 3, 7, 8, 4)]
    have gone: "history_ok True [] (xs @ [g'] @ [?f])" "outcome [] (xs @ [g'] @ [?f]) = outcome [] gs"
      "prefix (safe_history gs) (safe_history (xs @ [g'] @ [?f]))"
      using gone outcome_fresh [of "[]" gs ts] safe_fresh [of gs ts] x(1) by simp_all
    have "roots_held E ps (xs @ [g0, g] @ [?f])" using roots_held_snoc [OF ok(6), of ?f] x(1) by simp
    then have roots: "roots_held E ?ps1 (xs @ [g'] @ [?f])" by (rule roots_covered [OF _ root s(7, 3)]) simp_all
    have "newest_safe (xs @ [g'] @ [?f])" by (rule newest_covered) (use x(2) s(3, 7) in simp_all)
    moreover have "log_here E ?ps1 (xs @ [g'] @ [?f])" using d2(2) by (simp add: log_here_def c(2) gn_frames_def)
    moreover have "engine_inv E ?ps1" using released_inv [OF ok(1)] by (simp add: engine_inv_def engine_ok_def space_ok_def live_m_def)
    moreover have "superblock_ok E ?ps1" using ok(7) by (simp add: superblock_ok_def)
    ultimately have "store_ok E (xs @ [g'] @ [?f]) ?ps1"
      using ok(2, 3) gone(1, 2) roots by (simp add: store_ok_def retiring_ok_def)
    then show thesis
      using that [OF ps1, of xs g' ts] gone(2, 3) s(6, 9, 10) l(2, 3) x(1) by simp
  qed
qed

section \<open>The commit frame\<close>

lemma held_synced: "root_held E G ps c W \<Longrightarrow> ps_file ps' = bf_sync (ps_file ps) \<Longrightarrow> ps_seed ps' = ps_seed ps \<Longrightarrow>
    map ss_hash (ps_types ps') = map ss_hash (ps_types ps) \<Longrightarrow> root_held E G ps' c W"
  by (rule root_held_kept) simp_all

lemma own_root:
  assumes "engine_inv E ps" "ps_pending ps = []" "engine_view E ps = hist_view W" "ps_file ps' = bf_sync (ps_file ps)" "ps_seed ps' = ps_seed ps"
    "map ss_hash (ps_types ps') = map ss_hash (ps_types ps)" "\<Union> (blocks ` set (used_runs ps)) \<subseteq> G"
  shows "root_held E G ps' (CommitFrame t (meta_head (ps_meta ps))) W"
proof -
  have "blocks r \<subseteq> G" if "r \<in># live_m ps" for r using that assms(7) unfolding used_runs_live [symmetric] by auto
  then show ?thesis unfolding root_held_def using assms by (intro exI [of _ ps]) simp
qed

text \<open>The protected generation becomes the previous one, the store itself the protected one.\<close>

lemma roots_sealed:
  assumes "roots_held E ps (zs @ [f])" "newest_safe (zs @ [f])" "unrooted f" "gn_root f' = Some (c, W)"
    "ps_file ps' = bf_sync (ps_file ps)" "ps_seed ps' = ps_seed ps" "map ss_hash (ps_types ps') = map ss_hash (ps_types ps)"
    "previous_gen (ps_alloc ps') = protected (ps_alloc ps)" "root_held E (ext_blocks (set (protected (ps_alloc ps')))) ps' c W"
  shows "roots_held E ps' (zs @ [f'])"
  unfolding roots_held_def
proof (intro allI impI)
  fix xs y ys c' W' assume y: "zs @ [f'] = xs @ y # ys" "gn_root y = Some (c', W')" "\<forall>x\<in>set ys. \<not> unrooted x \<longrightarrow> gn_safe x = 0"
  show "root_held E (ext_blocks (set (if list_all unrooted ys then protected (ps_alloc ps') else previous_gen (ps_alloc ps')))) ps' c' W'"
  proof (cases ys rule: rev_cases)
    case Nil
    then show ?thesis using y(1, 2) assms(4, 9) by simp
  next
    case (snoc bs z)
    then have e: "z = f'" "zs = xs @ y # bs" using y(1) by simp_all
    have none: "list_all unrooted bs"
    proof (rule ccontr)
      assume "\<not> list_all unrooted bs"
      then have "\<exists>x\<in>set bs. \<not> unrooted x" by (auto simp: list_all_iff)
      from split_list_last_prop [OF this] obtain as x cs where x: "bs = as @ x # cs" "\<not> unrooted x" "\<forall>z\<in>set cs. \<not> \<not> unrooted z" by blast
      have "zs @ [f] = (xs @ y # as) @ x # (cs @ [f])" using e(2) x(1) by simp
      moreover have "list_all unrooted (cs @ [f])" using x(3) assms(3) unfolding list_all_iff not_not by auto
      ultimately have "0 < gn_safe x" using assms(2) x(2) unfolding newest_safe_def by blast
      then show False using y(3) snoc x(1, 2) by auto
    qed
    have "root_held E (ext_blocks (set (protected (ps_alloc ps)))) ps c' W'"
      using roots_heldD [OF assms(1), of xs y "bs @ [f]" c' W'] e(2) y(2) none assms(3) by (auto simp: list_all_iff)
    from held_synced [OF this assms(5-7)] show ?thesis using snoc e(1) assms(4, 8) by simp
  qed
qed

lemma sealed_ok:
  assumes "store_ok E (zs @ [g, fresh_gen ts]) ps" "ps_retiring ps = None" "ps_pending ps = []" "j_ts old = gn_ts g" "j_path old = journal_name (gn_ts g)"
  obtains ps' gs' where "seal E old ps = (ps', Ok ())" "store_ok E gs' ps'" "appendable gs'" "outcome [] gs' = outcome [] (zs @ [g, fresh_gen ts])"
    "safe_history gs' = safe_history (zs @ [g, fresh_gen ts])"
    "ps' = ps\<lparr>ps_alloc := ps_alloc ps', ps_file := ps_file ps', ps_journal := ps_journal ps', ps_fs := ps_fs ps', ps_retiring := ps_retiring ps'\<rparr>"
proof -
  let ?f = "fresh_gen ts" and ?as = "zs @ [g]"
  note ok = store_okD [OF assms(1)]
  define H where "H = outcome [] ?as"
  have H: "outcome [] (?as @ [?f]) = H" unfolding H_def by (rule outcome_fresh)
  define c where "c = CommitFrame (gn_ts g) (meta_head (ps_meta ps))"
  define f' where "f' = ?f\<lparr>gn_root := Some (c, H)\<rparr>"
  have f': "gn_ts f' = ts" "gn_root f' = Some (c, H)" "gn_batches f' = []" "gn_safe f' = 0" "gn_frames f' = [Commit c]" "gn_frames ?f = []"
    by (simp_all add: f'_def gn_frames_def)
  define a where "a = set_protected (used_runs ps) (ps_alloc ps)"
  define ps1 where "ps1 = ps\<lparr>ps_alloc := a, ps_file := bf_sync (ps_file ps)\<rparr>"
  have log: "log_here E ps1 (?as @ [?f])" using ok(4) by (simp add: ps1_def log_here_def)
  obtain jd where w: "write_frame (crc32 E) (Commit c) (ps_journal ps, ps_fs ps) = Ok jd"
    "journal_holds (crc32 E) jd [Commit c] []"
  proof (rule write_frame_holds [OF log_here_holds [OF log], of "Commit c"])
    fix jd assume "write_frame (crc32 E) (Commit c) (ps_journal ps1, ps_fs ps1) = Ok jd"
      "journal_holds (crc32 E) jd (gn_frames ?f @ [Commit c]) (take (gn_safe ?f) (gn_frames ?f))"
    then show thesis using that by (simp add: f'(6) ps1_def)
  qed
  define ps' where "ps' = ps1\<lparr>ps_journal := fst jd, ps_fs := snd jd, ps_retiring := Some (old, j_syncs (fst jd))\<rparr>"
  have seal: "seal E old ps = (ps', Ok ())"
    using w(1) assms(4) by (simp add: seal_def append_deferred_def ps'_def ps1_def a_def c_def Let_def case_prod_unfold)
  have owns: "alloc_owns (ps_alloc ps) (live_m ps)" using ok(1) by (simp add: engine_inv_def space_ok_def)
  have inv: "engine_inv E ps'"
  proof -
    have "ps1 = ps\<lparr>ps_file := bf_sync (ps_file ps), ps_alloc := a\<rparr>" by (simp add: ps1_def)
    then have "engine_inv E ps1" using engine_inv_sync [OF ok(1) owns_protect [OF owns used_runs_live]] by (simp add: a_def)
    then show ?thesis by (simp add: ps'_def engine_inv_def engine_ok_def)
  qed
  have cov: "covers_ok (?as @ [f'])"
    by (rule covers_replace [of ?as ?f]) (use disk_holdsD(1) ok(4) in \<open>auto simp: log_here_def disk_holds_def f' c_def covers_ok_def sorted_wrt_append\<close>)
  have log': "log_here E ps' (?as @ [f'])"
    by (rule log_here_replace [OF log _ _ _ _ cov]) (use write_frame_only [OF w(1)] w(2) in \<open>simp_all add: ps'_def ps1_def f'\<close>)
  have "history_ok True [] (?as @ [?f])" using ok(5) by simp
  then have hist: "history_ok True [] (?as @ [f'])" unfolding history_append [of True "[]" ?as] by (simp add: f' H_def)
  have same: "ps_file ps' = bf_sync (ps_file ps)" "ps_seed ps' = ps_seed ps" "map ss_hash (ps_types ps') = map ss_hash (ps_types ps)"
    "previous_gen (ps_alloc ps') = protected (ps_alloc ps)" "ps_alloc ps' = a" by (simp_all add: ps'_def ps1_def a_def)
  have "ext_blocks (set (protected a)) = \<Union> (blocks ` set (used_runs ps))"
    unfolding a_def by (rule protected_blocks) (simp add: used_runs_live owns)
  then have own: "root_held E (ext_blocks (set (protected (ps_alloc ps')))) ps' c H"
    unfolding c_def using ok(2) H same by (intro own_root [OF ok(1) assms(3)]) simp_all
  have newest: "newest_safe (?as @ [?f])" using ok(8) assms(2) by (simp add: retiring_ok_def)
  have roots: "roots_held E ps' (?as @ [f'])"
    by (rule roots_sealed [OF _ newest _ f'(2) same(1-4) own]) (use ok(6) in simp_all)
  have out: "outcome [] (?as @ [f']) = outcome [] (?as @ [?f])" unfolding H outcome_snoc [of "[]" ?as f'] by (simp add: f')
  have "retiring_ok ps' (?as @ [f'])" using assms(5) f' by (auto simp: retiring_ok_def ps'_def)
  moreover have "superblock_ok E ps'" using ok(7) by (auto simp: superblock_ok_def same)
  moreover have "engine_view E ps' = hist_view (outcome [] (?as @ [f']))" using ok(2) out by (simp add: ps'_def ps1_def)
  moreover have "list_all (list_all (routable (ps_types ps'))) (outcome [] (?as @ [f']))" using ok(3) out by (simp add: ps'_def ps1_def)
  ultimately have "store_ok E (?as @ [f']) ps'" unfolding store_ok_def using inv log' hist roots by blast
  moreover have "safe_history (?as @ [f']) = safe_history (zs @ [g, ?f])"
    using safe_fresh [of ?as ts] unfolding safe_last [of ?as f'] by (simp add: f' gn_cut_def)
  ultimately show thesis using that [OF seal, of "?as @ [f']"] out by (simp add: appendable_def f' ps'_def ps1_def)
qed

section \<open>The whole checkpoint\<close>

text \<open>The states a checkpoint passes through.\<close>

definition checkpoint_stage :: "libs \<Rightarrow> u64 \<Rightarrow> page_store \<Rightarrow> page_store \<Rightarrow> bool" where
  "checkpoint_stage E now ps q \<longleftrightarrow> q = created now ps \<or> (\<exists>old. rotate now ps = (q, old, Ok ()))
     \<or> (\<exists>ps1 old r. rotate now ps = (ps1, old, Ok ()) \<and> drain E ps1 = Some (q, r))"

definition checkpoint_fits :: "libs \<Rightarrow> u64 \<Rightarrow> page_store \<Rightarrow> bool" where
  "checkpoint_fits E now ps \<longleftrightarrow> j_ts (ps_journal ps) \<noteq> - 1 \<and> step_fits E USIZE_MAX (fst (rotate now ps))"

lemma drained_ok:
  assumes "zstd_ok E" "store_ok E gs ps" "step_fits E USIZE_MAX ps"
  obtains ps' where "drain E ps = Some (ps', Ok ())" "store_ok E gs ps'" "ps_pending ps' = []"
    "map ss_hash (ps_types ps') = map ss_hash (ps_types ps)"
    "ps' = ps\<lparr>ps_file := ps_file ps', ps_alloc := ps_alloc ps', ps_meta := ps_meta ps', ps_types := ps_types ps', ps_pending := []\<rparr>"
proof -
  obtain ps' where d: "drain E ps = Some (ps', Ok ())" "engine_inv E ps'" "engine_view E ps' = engine_view E ps" "ps_pending ps' = []"
    "map ss_hash (ps_types ps') = map ss_hash (ps_types ps)"
    "ps' = ps\<lparr>ps_file := ps_file ps', ps_alloc := ps_alloc ps', ps_meta := ps_meta ps', ps_types := ps_types ps', ps_pending := []\<rparr>" "spares ps ps'"
    by (rule drain_ok [OF assms(1) store_okD(1) [OF assms(2)] assms(3)])
  have "store_ok E gs ps'"
    by (rule maintained_ok [OF assms(2) d(2, 3, 5, 7)]) (subst d(6), simp)+
  then show thesis using that d by blast
qed

lemma checkpoint_ok:
  assumes "zstd_ok E" "store_ok E gs ps" "checkpoint_fits E now ps"
  obtains ps' gs' where "commit_journal E now ps = Some (ps', Ok ())" "store_ok E gs' ps'" "appendable gs'" "outcome [] gs' = outcome [] gs"
    "prefix (safe_history gs) (safe_history gs')" "map ss_hash (ps_types ps') = map ss_hash (ps_types ps)" "ps_relaxed ps' = ps_relaxed ps"
proof -
  obtain ps1 old zs g ts where r: "rotate now ps = (ps1, old, Ok ())" "store_ok E (zs @ [g, fresh_gen ts]) ps1"
    "outcome [] (zs @ [g, fresh_gen ts]) = outcome [] gs" "prefix (safe_history gs) (safe_history (zs @ [g, fresh_gen ts]))"
    "ps_retiring ps1 = None" "j_ts old = gn_ts g" "j_path old = journal_name (gn_ts g)"
    "ps1 = ps\<lparr>ps_retiring := None, ps_journal := ps_journal ps1, ps_fs := ps_fs ps1, ps_alloc := ps_alloc ps1\<rparr>"
    using rotate_ok [OF assms(2)] assms(3) unfolding checkpoint_fits_def by metis
  have "step_fits E USIZE_MAX ps1" using assms(3) r(1) by (simp add: checkpoint_fits_def)
  from drained_ok [OF assms(1) r(2) this] obtain ps2 where
    d: "drain E ps1 = Some (ps2, Ok ())" "store_ok E (zs @ [g, fresh_gen ts]) ps2" "ps_pending ps2 = []"
    "map ss_hash (ps_types ps2) = map ss_hash (ps_types ps1)"
    "ps2 = ps1\<lparr>ps_file := ps_file ps2, ps_alloc := ps_alloc ps2, ps_meta := ps_meta ps2, ps_types := ps_types ps2, ps_pending := []\<rparr>" by blast
  have "ps_retiring ps2 = None" by (subst d(5)) (simp add: r(5))
  from sealed_ok [OF d(2) this d(3) r(6, 7)] obtain ps' gs' where
    s: "seal E old ps2 = (ps', Ok ())" "store_ok E gs' ps'" "appendable gs'" "outcome [] gs' = outcome [] (zs @ [g, fresh_gen ts])"
    "safe_history gs' = safe_history (zs @ [g, fresh_gen ts])"
    "ps' = ps2\<lparr>ps_alloc := ps_alloc ps', ps_file := ps_file ps', ps_journal := ps_journal ps', ps_fs := ps_fs ps', ps_retiring := ps_retiring ps'\<rparr>" by blast
  have "commit_journal E now ps = Some (ps', Ok ())" using commit_journal_rotate [OF r(1), of E] d(1) s(1) by simp
  moreover have "map ss_hash (ps_types ps') = map ss_hash (ps_types ps)" "ps_relaxed ps' = ps_relaxed ps"
    using arg_cong [OF s(6), of ps_types] arg_cong [OF s(6), of ps_relaxed] arg_cong [OF d(5), of ps_relaxed]
      arg_cong [OF r(8), of ps_relaxed] arg_cong [OF r(8), of ps_types] d(4) by simp_all
  ultimately show thesis using that s(2-5) r(3, 4) by simp
qed

text \<open>Whatever the checkpoint has done so far, the store can be recovered.\<close>

lemma stage_ok:
  assumes "zstd_ok E" "store_ok E gs ps" "checkpoint_fits E now ps" "checkpoint_stage E now ps q"
  obtains gs' where "crash_ok E gs' q" "outcome [] gs' = outcome [] gs" "prefix (safe_history gs) (safe_history gs')"
    "map ss_hash (ps_types q) = map ss_hash (ps_types ps)" "ps_relaxed q = ps_relaxed ps" "ps_seed q = ps_seed ps"
proof -
  have j: "j_ts (ps_journal ps) \<noteq> - 1" using assms(3) by (simp add: checkpoint_fits_def)
  obtain ps1 old zs g ts where r: "rotate now ps = (ps1, old, Ok ())" "store_ok E (zs @ [g, fresh_gen ts]) ps1"
    "outcome [] (zs @ [g, fresh_gen ts]) = outcome [] gs" "prefix (safe_history gs) (safe_history (zs @ [g, fresh_gen ts]))"
    "ps1 = ps\<lparr>ps_retiring := None, ps_journal := ps_journal ps1, ps_fs := ps_fs ps1, ps_alloc := ps_alloc ps1\<rparr>"
    using rotate_ok [OF assms(2) j] by metis
  have f1: "ps_types ps1 = ps_types ps" "ps_relaxed ps1 = ps_relaxed ps" "ps_seed ps1 = ps_seed ps"
    using arg_cong [OF r(5), of ps_types] arg_cong [OF r(5), of ps_relaxed] arg_cong [OF r(5), of ps_seed] by simp_all
  have "step_fits E USIZE_MAX ps1" using assms(3) r(1) by (simp add: checkpoint_fits_def)
  from drained_ok [OF assms(1) r(2) this] obtain ps2 where
    d: "drain E ps1 = Some (ps2, Ok ())" "store_ok E (zs @ [g, fresh_gen ts]) ps2"
    "map ss_hash (ps_types ps2) = map ss_hash (ps_types ps1)"
    "ps2 = ps1\<lparr>ps_file := ps_file ps2, ps_alloc := ps_alloc ps2, ps_meta := ps_meta ps2, ps_types := ps_types ps2, ps_pending := []\<rparr>" by blast
  have f2: "ps_relaxed ps2 = ps_relaxed ps" "ps_seed ps2 = ps_seed ps"
    using arg_cong [OF d(4), of ps_relaxed] arg_cong [OF d(4), of ps_seed] f1 by simp_all
  consider "q = created now ps" | "q = ps1" | "q = ps2" using assms(4) r(1) d(1) by (auto simp: checkpoint_stage_def)
  then show thesis
  proof cases
    case 1
    obtain ts fresh d where c: "created now ps = ps\<lparr>ps_retiring := None, ps_journal := fresh, ps_fs := d\<rparr>"
      "crash_ok E (gs @ [fresh_gen ts]) (created now ps)" using created_ok [OF assms(2) j] by metis
    then show thesis using that [of "gs @ [fresh_gen ts]"] 1 by (simp add: outcome_fresh safe_fresh)
  next
    case 2
    then show thesis using that store_crash_ok [OF r(2)] r(3, 4) f1 by simp
  next
    case 3
    then show thesis using that store_crash_ok [OF d(2)] r(3, 4) f1 f2 d(3) by simp
  qed
qed

lemma force_retirement_ok:
  assumes "store_ok E gs ps"
  obtains ps' gs' where "force_retirement ps = (ps', Ok ())" "store_ok E gs' ps'" "appendable gs \<Longrightarrow> appendable gs'" "outcome [] gs' = outcome [] gs"
    "prefix (safe_history gs) (safe_history gs')" "map ss_hash (ps_types ps') = map ss_hash (ps_types ps)" "ps_relaxed ps' = ps_relaxed ps"
    "ps_retiring ps' = None"
proof (cases "ps_retiring ps")
  case None
  then show thesis using that [of ps gs] assms by (simp add: force_retirement_def is_retiring_def)
next
  case (Some om)
  note ok = store_okD [OF assms]
  obtain oldj mark where om: "om = (oldj, mark)" by fastforce
  obtain xs g0 g where x: "gs = xs @ [g0, g]" "\<not> unrooted g" "j_path oldj = journal_name (gn_ts g0)" using ok(8) Some om by (auto simp: retiring_ok_def)
  then obtain c W where root: "gn_root g = Some (c, W)" by auto
  have l: "j_path (ps_journal ps) = journal_name (gn_ts g)" "j_ts (ps_journal ps) = gn_ts g"
    "j_end (ps_journal ps) = length (log_image (crc32 E) (gn_frames g))" "disk_holds (crc32 E) (ps_fs ps) ((xs @ [g0]) @ g # [])"
    using ok(4) x(1) by (simp_all add: log_here_def)
  define g' where "g' = g\<lparr>gn_safe := length (gn_frames g)\<rparr>"
  have g': "gn_frames g' = gn_frames g" "gn_ts g' = gn_ts g" "gn_root g' = gn_root g" "gn_batches g' = gn_batches g" "gn_safe g' = length (gn_frames g)"
    by (simp_all add: g'_def frames_snoc)
  have pos: "0 < gn_safe g'" "gn_safe g \<le> gn_safe g'" "gn_safe g' \<le> length (gn_frames g')"
    using x(1) history_safe [OF ok(5), of g] root by (simp_all add: g' length_frames)
  obtain d where d: "journal_sync (ps_journal ps, ps_fs ps) = Ok (ps_journal ps\<lparr>j_syncs := j_syncs (ps_journal ps) + 1\<rparr>, d)"
    "disk_holds (crc32 E) d ((xs @ [g0]) @ g' # [])" using disk_sync [OF l(4, 1)] unfolding g'_def by metis
  let ?ps0 = "ps\<lparr>ps_journal := ps_journal ps\<lparr>j_syncs := j_syncs (ps_journal ps) + 1\<rparr>, ps_fs := d, ps_retiring := None\<rparr>"
  obtain d2 where d2: "dispose (oldj, mark) ?ps0 = (?ps0\<lparr>ps_alloc := release_previous (ps_alloc ?ps0), ps_fs := d2\<rparr>, Ok ())"
    "disk_holds (crc32 E) d2 (xs @ [g'])"
    by (rule disposed [of E ?ps0 xs g0 "[g']" "(oldj, mark)"]) (use d(2) x(3) in simp_all)
  let ?ps = "ps\<lparr>ps_journal := ps_journal ps\<lparr>j_syncs := j_syncs (ps_journal ps) + 1\<rparr>, ps_fs := d2, ps_retiring := None, ps_alloc := release_previous (ps_alloc ps)\<rparr>"
  have fr: "force_retirement ps = (?ps, Ok ())" using d(1) d2(1) Some om by (simp add: force_retirement_def is_retiring_def Let_def)
  have h: "history_ok True [] (xs @ [g0, g] @ [])" using ok(5) x(1) by simp
  note gone = covered_goes [OF h root pos(3, 1) g'(3, 4) pos(2)]
  have "roots_held E ps (xs @ [g0, g] @ [])" using ok(6) x(1) by simp
  then have roots: "roots_held E ?ps (xs @ [g'] @ [])" by (rule roots_covered [OF _ root g'(3) pos(1)]) simp_all
  have "newest_safe (xs @ [g'] @ [])" by (rule newest_covered) (use x(2) pos(1) g'(3) in simp_all)
  moreover have "log_here E ?ps (xs @ [g'] @ [])" using d2(2) l by (simp add: log_here_def g')
  moreover have "engine_inv E ?ps" using released_inv [OF ok(1)] by (simp add: engine_inv_def engine_ok_def space_ok_def live_m_def)
  moreover have "superblock_ok E ?ps" using ok(7) by (simp add: superblock_ok_def)
  ultimately have "store_ok E (xs @ [g'] @ []) ?ps"
    using ok(2, 3) gone(1, 2) roots x(1) by (simp add: store_ok_def retiring_ok_def)
  then show thesis using that [OF fr] gone(2, 3) x(1, 2) g'(3) by (simp add: appendable_def)
qed

end
