(* ===== verification/Crash_Recovery.thy ===== *)
theory Crash_Recovery
  imports Checkpoint_Laws
begin

text \<open>
  Opening after a crash: whatever blocks written since the last barrier hold, and wherever the journals'
  unsynced tails were cut, the store opens on a prefix of its history that contains everything durable,
  and goes on from there.
\<close>

section \<open>The registry\<close>

lemma dedup_sorted: "sorted (map ss_hash ss) \<Longrightarrow> sorted_wrt (<) (map ss_hash (dedup_slots ss)) \<and> ss_hash ` set (dedup_slots ss) \<subseteq> ss_hash ` set ss"
proof (induction ss rule: dedup_slots.induct)
  case (1 s t ss)
  show ?case
  proof (cases "ss_hash t = ss_hash s")
    case True
    then show ?thesis using 1 by auto
  next
    case False
    have lt: "ss_hash s < ss_hash x" if "x \<in> set (t # ss)" for x using 1(3) False that by (auto simp: order_le_less)
    have "ss_hash s < h" if "h \<in> ss_hash ` set (dedup_slots (t # ss))" for h
      using 1(2) [OF False] 1(3) that lt by (auto simp: image_iff)
    then show ?thesis using 1(2) [OF False] 1(3) False by auto
  qed
qed auto

lemma registry_ok: "distinct (map ss_hash (registry types))" "list_all fresh_slot (registry types)"
proof -
  have "sorted_wrt (<) (map ss_hash (dedup_slots (sort_key ss_hash (types @ [BPTREE_NODE_STORAGE]))))"
    using dedup_sorted by (metis sorted_sort_key)
  then show "distinct (map ss_hash (registry types))" by (simp add: registry_def comp_def ss_reset_def strict_sorted_iff)
  show "list_all fresh_slot (registry types)" by (simp add: registry_def list_all_iff fresh_slot_def ss_reset_def ds_reset_def)
qed

section \<open>The data file\<close>

text \<open>A crash keeps the superblock and the blocks of the checkpoints a commit frame names, as far as they
  read the same in the file and in its durable image.  Every other block, those of a settle round caught
  in the middle included, may hold anything.\<close>

definition data_survives :: "page_store \<Rightarrow> byte list \<Rightarrow> bool" where
  "data_survives ps bs \<longleftrightarrow> (\<forall>r b. 0 < run_count r \<longrightarrow> blocks r \<subseteq> insert 0 (roots (ps_alloc ps)) \<longrightarrow>
     read_run (durable_file (ps_file ps)) r = Ok b \<longrightarrow> read_run (ps_file ps) r = Ok b \<longrightarrow>
     read_run ((ps_file ps)\<lparr>bf_bytes := bs\<rparr>) r = Ok b)"

lemma read_run_bytes: "bf_bytes f' = bf_bytes f \<Longrightarrow> read_run f' r = read_run f r"
  by (simp add: read_run_def Let_def)

lemma data_reopens:
  assumes "superblock_ok E ps" "data_survives ps bs"
  obtains f sb where "bf_open E random bs = Ok f" "bf_seed f = ps_seed ps" "bf_bytes f = bs" "bf_durable f = bs" "0 < len_blocks f"
    "read_run f (Run 0 RESERVED_BLOCKS) = Ok sb" "\<forall>rest random. \<exists>f. bf_open E random (sb @ rest) = Ok f \<and> bf_seed f = ps_seed ps"
    "take BLOCK_SIZE bs = sb"
proof -
  obtain sb where sb: "read_run (ps_file ps) (Run 0 RESERVED_BLOCKS) = Ok sb" "read_run (durable_file (ps_file ps)) (Run 0 RESERVED_BLOCKS) = Ok sb"
    "\<forall>rest random. \<exists>f. bf_open E random (sb @ rest) = Ok f \<and> bf_seed f = ps_seed ps"
    using assms(1) unfolding superblock_ok_def by blast
  have "blocks (Run 0 RESERVED_BLOCKS) \<subseteq> insert 0 (roots (ps_alloc ps))" "0 < run_count (Run 0 RESERVED_BLOCKS)"
    by (auto simp: blocks_def run_end_def)
  with assms(2) sb(1, 2) have "read_run ((ps_file ps)\<lparr>bf_bytes := bs\<rparr>) (Run 0 RESERVED_BLOCKS) = Ok sb"
    unfolding data_survives_def by blast
  then have len: "BLOCK_SIZE \<le> length bs" "take BLOCK_SIZE bs = sb"
    by (auto simp: read_run_Ok run_slice_def run_end_def byte_len_def byte_offset_def)
  then have "bs = sb @ drop BLOCK_SIZE bs" by (metis append_take_drop_id)
  with sb(3) obtain f where f: "bf_open E random bs = Ok f" "bf_seed f = ps_seed ps" by metis
  have "bs \<noteq> []" using len(1) by auto
  then have bytes: "bf_bytes f = bs" "bf_durable f = bs" using f(1) by (auto simp: bf_open_def try_then_Ok_iff)
  moreover have "0 < len_blocks f" using len(1) bytes by (simp add: len_blocks_def div_greater_zero_iff)
  moreover have "read_run f (Run 0 RESERVED_BLOCKS) = Ok sb"
    using len bytes by (auto simp: read_run_Ok run_slice_def run_end_def byte_len_def byte_offset_def)
  ultimately show thesis using that f sb(3) len(2) by blast
qed

section \<open>Opening\<close>

text \<open>The store \<open>open_with\<close> builds before it replays the batches.\<close>

definition opened :: "block_file \<Rightarrow> recovered \<Rightarrow> bool \<Rightarrow> page_store" where
  "opened f rc relaxed = \<lparr>ps_file = rc_file rc, ps_fs = rc_fs rc, ps_journal = rc_journal rc, ps_alloc = rc_alloc rc, ps_meta = rc_meta rc,
     ps_retiring = None, ps_types = rc_types rc, ps_seed = bf_seed f, ps_target = DEFAULT_TARGET_BLOCKS_PER_BUCKET,
     ps_pending = [], ps_relaxed = relaxed\<rparr>"

lemma opened_fields [simp]: "ps_file (opened f rc relaxed) = rc_file rc" "ps_fs (opened f rc relaxed) = rc_fs rc" "ps_journal (opened f rc relaxed) = rc_journal rc"
  "ps_alloc (opened f rc relaxed) = rc_alloc rc" "ps_meta (opened f rc relaxed) = rc_meta rc" "ps_retiring (opened f rc relaxed) = None"
  "ps_types (opened f rc relaxed) = rc_types rc" "ps_seed (opened f rc relaxed) = bf_seed f" "ps_pending (opened f rc relaxed) = []"
  "ps_relaxed (opened f rc relaxed) = relaxed"
  by (simp_all add: opened_def)

lemma open_with_opened:
  "bf_open E random bs = Ok f \<Longrightarrow> restore E now entries True f d (registry types) = Ok rc \<Longrightarrow>
    open_with E now random False entries (Some bs) d types relaxed = replay_batches E (rc_replay rc) (opened f rc relaxed)"
  by (simp add: open_with_def opened_def)

text \<open>The replay stays within the format's limits.\<close>

definition open_fits :: "libs \<Rightarrow> u64 \<Rightarrow> seed \<Rightarrow> string list \<Rightarrow> byte list \<Rightarrow> fs \<Rightarrow> struct_storage list \<Rightarrow> bool \<Rightarrow> bool" where
  "open_fits E now random entries bs d types relaxed \<longleftrightarrow> (\<forall>f rc. bf_open E random bs = Ok f \<longrightarrow>
     restore E now entries True f d (registry types) = Ok rc \<longrightarrow> replay_fits E (rc_replay rc) (opened f rc relaxed))"

text \<open>Replaying the batches over a recovered store.\<close>

lemma replayed_ok:
  assumes "zstd_ok E" "bf_open E random bs = Ok f" "restore E now entries True f d (registry types) = Ok rc"
    "open_fits E now random entries bs d types relaxed" "engine_inv E (opened f rc relaxed)" "engine_view E (opened f rc relaxed) = hist_view W"
    "list_all (list_all (routable (rc_types rc))) (W @ rc_replay rc)" "outcome [] gs = W @ rc_replay rc" "gs \<noteq> []" "list_all gn_full gs"
    "disk_holds (crc32 E) (rc_fs rc) gs" "rc_journal rc = reopened (crc32 E) (last gs)"
    "roots_held E (opened f rc relaxed) gs" "superblock_ok E (opened f rc relaxed)"
  obtains ps' where "open_with E now random False entries (Some bs) d types relaxed = Ok ps'" "store_ok E gs ps'" "appendable gs"
    "map ss_hash (ps_types ps') = map ss_hash (rc_types rc)" "ps_relaxed ps' = relaxed"
proof -
  let ?ps = "opened f rc relaxed"
  have fits: "replay_fits E (rc_replay rc) ?ps" using assms(2-4) by (simp add: open_fits_def)
  have route: "list_all (list_all (routable (ps_types ?ps))) (rc_replay rc)" using assms(7) by simp
  from replay_batches_ok [OF assms(1, 5) _ route fits] obtain ps' where
    p: "replay_batches E (rc_replay rc) ?ps = Ok ps'" "engine_inv E ps'" "ps_pending ps' = []"
    "engine_view E ps' = fold typed_effect (rc_replay rc) (engine_view E ?ps)" "map ss_hash (ps_types ps') = map ss_hash (ps_types ?ps)"
    "ps' = ?ps\<lparr>ps_file := ps_file ps', ps_alloc := ps_alloc ps', ps_meta := ps_meta ps', ps_types := ps_types ps'\<rparr>" "spares ?ps ps'" by auto
  have k: "ps_fs ps' = rc_fs rc" "ps_journal ps' = rc_journal rc" "ps_retiring ps' = None" "ps_seed ps' = bf_seed f" "ps_relaxed ps' = relaxed"
    using arg_cong [OF p(6), of ps_fs] arg_cong [OF p(6), of ps_journal] arg_cong [OF p(6), of ps_retiring]
      arg_cong [OF p(6), of ps_seed] arg_cong [OF p(6), of ps_relaxed] by simp_all
  have "log_here E ps' gs" using assms(9, 11, 12) k by (simp add: log_here_def reopened_def)
  moreover have "history_ok True [] gs" by (rule full_history [OF assms(10)])
  moreover have "roots_held E ps' gs" by (rule spared_roots [OF p(7) assms(13) p(5)]) (simp add: k)
  moreover have "superblock_ok E ps'" by (rule spared_superblock [OF p(7) assms(14)]) (simp add: k)
  moreover have "newest_safe gs" using assms(10) by (auto simp: newest_safe_def gn_full_def length_frames)
  then have "retiring_ok ps' gs" by (simp add: retiring_ok_def k)
  moreover have "engine_view E ps' = hist_view (outcome [] gs)" using p(4) assms(6, 8) by (simp add: hist_view_def)
  moreover have "list_all (list_all (routable (ps_types ps'))) (outcome [] gs)"
    unfolding routable_history [OF p(5)] assms(8) using assms(7) by simp
  ultimately have "store_ok E gs ps'" using p(2) unfolding store_ok_def by blast
  moreover have "list_all gn_full (butlast gs)" using assms(10) by (auto simp: list_all_iff dest: in_set_butlastD)
  then have "appendable gs" using solid_full by (simp add: appendable_def)
  ultimately show thesis using that p(1, 5) k(5) open_with_opened [OF assms(2, 3)] by simp
qed

section \<open>Reopening on a commit\<close>

text \<open>The generation whose commit frame survived a cut as the newest one.\<close>

lemma cut_newest:
  assumes "map2 gn_cut ns gs = as @ g # bs" "list_all2 (\<lambda>g n. gn_safe g \<le> n) gs ns" "gn_root g = Some (c, W)" "list_all unrooted bs"
  obtains as' g' bs' where "gs = as' @ g' # bs'" "gn_root g' = Some (c, W)" "\<forall>x\<in>set bs'. \<not> unrooted x \<longrightarrow> gn_safe x = 0"
proof -
  have len: "length ns = length gs" using assms(2) by (simp add: list_all2_lengthD)
  have "length (as @ g # bs) = length gs" using len unfolding assms(1) [symmetric] by simp
  then have i: "length as < length gs" "length gs = length as + Suc (length bs)" by simp_all
  have at: "gn_cut (ns ! k) (gs ! k) = (as @ g # bs) ! k" "gn_safe (gs ! k) \<le> ns ! k" if "k < length gs" for k
    using that len assms(2) arg_cong [OF assms(1), of "\<lambda>xs. xs ! k"] by (simp_all add: list_all2_conv_all_nth)
  have "gn_cut (ns ! length as) (gs ! length as) = g" using at(1) [OF i(1)] by simp
  then have root: "gn_root (gs ! length as) = Some (c, W)" using assms(3) gn_cut_root by (metis option.distinct(1))
  have "gn_safe x = 0" if x: "x \<in> set (drop (Suc (length as)) gs)" "\<not> unrooted x" for x
  proof -
    obtain k where k: "k < length gs - Suc (length as)" "x = gs ! (Suc (length as) + k)" using x(1) by (auto simp: in_set_conv_nth)
    then have K: "Suc (length as) + k < length gs" "k < length bs" using i(2) by simp_all
    have "gn_cut (ns ! (Suc (length as) + k)) x = bs ! k" using at(1) [OF K(1)] k(2) by (simp add: nth_append)
    moreover have "unrooted (bs ! k)" using assms(4) K(2) by (simp add: list_all_length)
    ultimately have "ns ! (Suc (length as) + k) = 0" using x(2) gn_cut_root by metis
    then show ?thesis using at(2) [OF K(1)] k(2) by simp
  qed
  then show thesis using that [OF id_take_nth_drop [OF i(1)] root] by blast
qed

lemma root_reopens:
  assumes "root_held E G ps c W" "G \<subseteq> roots (ps_alloc ps)" "data_survives ps bs" "bf_bytes f = bs" "bf_durable f = bs" "bf_seed f = ps_seed ps" "0 < len_blocks f"
    "map ss_hash types0 = map ss_hash (ps_types ps)" "list_all fresh_slot types0"
  obtains a m types' where "load_commit E f c types0 = Ok (a, m, types')" "previous_gen a = []" "map ss_hash types' = map ss_hash types0"
    "\<And>ps' :: page_store. ps_file ps' = f \<Longrightarrow> ps_alloc ps' = a \<Longrightarrow> ps_meta ps' = m \<Longrightarrow> ps_types ps' = types' \<Longrightarrow> ps_seed ps' = ps_seed ps \<Longrightarrow> ps_pending ps' = [] \<Longrightarrow>
      engine_inv E ps' \<and> engine_view E ps' = hist_view W \<and> root_held E (ext_blocks (set (protected a))) ps' c W"
proof -
  obtain snap where snap: "engine_inv E snap" "ps_pending snap = []" "engine_view E snap = hist_view W"
    "map ss_hash (ps_types snap) = map ss_hash (ps_types ps)" "ps_seed snap = ps_seed ps" "commit_head c = meta_head (ps_meta snap)"
    "\<And>r b. r \<in># live_m snap \<Longrightarrow> read_run (ps_file snap) r = Ok b \<Longrightarrow> read_run (ps_file ps) r = Ok b \<and> read_run (durable_file (ps_file ps)) r = Ok b"
    "\<And>r. r \<in># live_m snap \<Longrightarrow> blocks r \<subseteq> G"
    using assms(1) unfolding root_held_def by blast
  have live: "0 < run_count r" "blocks r \<subseteq> insert 0 (roots (ps_alloc ps))" if "r \<in># live_m snap" for r
    using owns_positive [OF _ that, of "ps_alloc snap"] snap(1, 8) that assms(2) by (auto simp: engine_inv_def space_ok_def)
  have reads: "read_run f r = Ok b" if "r \<in># live_m snap" "read_run (ps_file snap) r = Ok b" for r b
  proof -
    have "read_run ((ps_file ps)\<lparr>bf_bytes := bs\<rparr>) r = Ok b" using assms(3) snap(7) [OF that] live [OF that(1)] by (simp add: data_survives_def)
    then show ?thesis using read_run_bytes [of f "(ps_file ps)\<lparr>bf_bytes := bs\<rparr>" r] assms(4) by simp
  qed
  have durable: "read_run (durable_file f) r = read_run f r" for r
    using assms(4, 5) by (intro read_run_bytes) (simp add: durable_file_def)
  have c: "c = CommitFrame (journal_ts c) (meta_head (ps_meta snap))" using snap(6) by (metis commit_frame.collapse)
  have seed: "bf_seed f = ps_seed snap" and hashes: "map ss_hash types0 = map ss_hash (ps_types snap)" using assms(6, 8) snap(4, 5) by simp_all
  obtain a m types' where l: "load_commit E f (CommitFrame (journal_ts c) (meta_head (ps_meta snap))) types0 = Ok (a, m, types')"
    "ext_blocks (set (protected a)) = \<Union> (blocks ` set_mset (live_m snap))" "previous_gen a = []" "map ss_hash types' = map ss_hash types0"
    "\<And>ps' :: page_store. ps_file ps' = f \<Longrightarrow> ps_alloc ps' = a \<Longrightarrow> ps_meta ps' = m \<Longrightarrow> ps_types ps' = types' \<Longrightarrow>
      ps_seed ps' = ps_seed snap \<Longrightarrow> ps_pending ps' = [] \<Longrightarrow>
      engine_inv E ps' \<and> engine_view E ps' = engine_view E snap \<and> live_m ps' = live_m snap"
    by (rule load_commit_ok [OF snap(1, 2) seed assms(7) _ hashes assms(9), where ts = "journal_ts c"]) (use reads in blast)+
  show thesis
  proof (rule that [OF _ l(3, 4)])
    show "load_commit E f c types0 = Ok (a, m, types')" using l(1) c by simp
    fix ps' :: page_store
    assume ps': "ps_file ps' = f" "ps_alloc ps' = a" "ps_meta ps' = m" "ps_types ps' = types'" "ps_seed ps' = ps_seed ps" "ps_pending ps' = []"
    have "ps_seed ps' = ps_seed snap" using ps'(5) snap(5) by simp
    from l(5) [OF ps'(1-4) this ps'(6)] have e: "engine_inv E ps'" "engine_view E ps' = hist_view W" using snap(3) by simp_all
    have "map ss_hash (ps_types snap) = map ss_hash (ps_types ps')" "ps_seed snap = ps_seed ps'" using hashes l(4) ps'(4, 5) snap(5) by simp_all
    moreover have "\<forall>r. r \<in># live_m snap \<longrightarrow> blocks r \<subseteq> ext_blocks (set (protected a))" using l(2) by blast
    moreover have "read_run (ps_file ps') r = Ok b \<and> read_run (durable_file (ps_file ps')) r = Ok b"
      if "r \<in># live_m snap" "read_run (ps_file snap) r = Ok b" for r b using reads [OF that] durable ps'(1) by simp
    ultimately have "root_held E (ext_blocks (set (protected a))) ps' c W"
      unfolding root_held_def using snap(1-3, 6) by blast
    then show "engine_inv E ps' \<and> engine_view E ps' = hist_view W \<and> root_held E (ext_blocks (set (protected a))) ps' c W" using e by blast
  qed
qed

section \<open>Reopening after a crash\<close>

lemma restore_fresh:
  assumes "scan entries \<noteq> []" "open_journals E (scan entries) d = Ok (js, d1)" "newest_commit (concat (map (\<lambda>(_, _, fr). fr) js)) = None"
    "collect_replay None js None d1 = Ok (batches, Some j, d2)"
  shows "restore E now entries True f d types = Ok \<lparr>rc_alloc = fst (fresh_alloc f), rc_journal = j, rc_replay = batches, rc_meta = meta_default,
      rc_file = truncate_to_blocks RESERVED_BLOCKS f, rc_fs = d2, rc_types = types\<rparr>"
  using assms by (simp add: restore_def require_journal_for_def Let_def fresh_alloc_def)

lemma restore_commit:
  assumes "scan entries \<noteq> []" "open_journals E (scan entries) d = Ok (js, d1)" "newest_commit (concat (map (\<lambda>(_, _, fr). fr) js)) = Some c"
    "load_commit E f c types = Ok (a, m, types')" "collect_replay (Some c) js None d1 = Ok (batches, Some j, d2)"
  shows "restore E now entries True f d types = Ok \<lparr>rc_alloc = a, rc_journal = j, rc_replay = batches, rc_meta = m,
      rc_file = f, rc_fs = d2, rc_types = types'\<rparr>"
  using assms by (simp add: restore_def require_journal_for_def Let_def)

lemma entries_frames: "map (\<lambda>(_, _, fr). fr) (map (journal_entry crc) gs) = map gn_frames gs"
  by simp

lemma truncated_superblock:
  assumes "read_run f (Run 0 RESERVED_BLOCKS) = Ok sb"
  shows "read_run (truncate_to_blocks RESERVED_BLOCKS f) (Run 0 RESERVED_BLOCKS) = Ok sb"
proof -
  have "BLOCK_SIZE \<le> length (bf_bytes f)" "take BLOCK_SIZE (bf_bytes f) = sb"
    using assms by (auto simp: read_run_Ok run_slice_def run_end_def byte_len_def byte_offset_def)
  then show ?thesis
    by (auto simp: read_run_Ok run_slice_def run_end_def byte_len_def byte_offset_def truncate_to_blocks_def set_file_len_def)
qed

text \<open>The store as it is before the replay: what a crash may leave of the journals, and the recovered
  state for it.\<close>

lemma restored_ok:
  assumes "crash_ok E gs ps" "dir_crash (ps_fs ps) d'" "data_survives ps bs" "distinct entries" "set entries = dom (content d')"
    "map ss_hash (registry types) = map ss_hash (ps_types ps)"
  obtains f rc gs' W where "bf_open E random bs = Ok f" "restore E now entries True f d' (registry types) = Ok rc"
    "engine_inv E (opened f rc relaxed)" "engine_view E (opened f rc relaxed) = hist_view W" "outcome [] gs' = W @ rc_replay rc"
    "gs' \<noteq> []" "list_all gn_full gs'" "disk_holds (crc32 E) (rc_fs rc) gs'" "rc_journal rc = reopened (crc32 E) (last gs')"
    "roots_held E (opened f rc relaxed) gs'" "superblock_ok E (opened f rc relaxed)" "map ss_hash (rc_types rc) = map ss_hash (ps_types ps)"
    "prefix (safe_history gs) (outcome [] gs')" "prefix (outcome [] gs') (outcome [] gs)"
proof -
  have ok: "gs \<noteq> []" "disk_holds (crc32 E) (ps_fs ps) gs" "history_ok True [] gs" "roots_held E ps gs" "superblock_ok E ps"
    using assms(1) by (simp_all add: crash_ok_def)
  obtain f sb where f: "bf_open E random bs = Ok f" "bf_seed f = ps_seed ps" "bf_bytes f = bs" "bf_durable f = bs" "0 < len_blocks f"
    and sb: "read_run f (Run 0 RESERVED_BLOCKS) = Ok sb" "\<forall>rest random. \<exists>f. bf_open E random (sb @ rest) = Ok f \<and> bf_seed f = ps_seed ps"
    by (rule data_reopens [OF ok(5) assms(3)])
  obtain ns d1 where j: "list_all2 (\<lambda>g n. gn_safe g \<le> n) gs ns" "scan entries = map (\<lambda>g. (gn_ts g, journal_name (gn_ts g))) gs"
    "open_journals E (scan entries) d' = Ok (map (journal_entry (crc32 E)) (map2 gn_cut ns gs), d1)"
    "disk_holds (crc32 E) d1 (map2 gn_cut ns gs)" "list_all gn_full (map2 gn_cut ns gs)" "length ns = length gs"
    by (rule journals_reopen [OF ok(2, 3) assms(2, 4, 5)])
  define gs1 where "gs1 = map2 gn_cut ns gs"
  have ne: "scan entries \<noteq> []" "gs1 \<noteq> []" using ok(1) j(2, 6) by (auto simp: gs1_def)
  have pre: "prefix (safe_history gs) (outcome [] gs1)" "prefix (outcome [] gs1) (outcome [] gs)"
    using cuts_between [OF ok(3) j(1)] by (simp_all add: gs1_def)
  have durable: "read_run (durable_file f) r = read_run f r" for r using f(3, 4) by (intro read_run_bytes) (simp add: durable_file_def)
  have open_js: "open_journals E (scan entries) d' = Ok (map (journal_entry (crc32 E)) gs1, d1)" using j(3) by (simp add: gs1_def)
  have disk: "disk_holds (crc32 E) d1 gs1" and full: "list_all gn_full gs1" using j(4, 5) by (simp_all add: gs1_def)
  from disk ne(2) full show thesis
  proof (cases rule: journals_collected)
    case unrooted
    note R = restore_fresh [OF ne(1) open_js, unfolded entries_frames, OF unrooted(2, 3), of now f "registry types"]
    let ?rc = "\<lparr>rc_alloc = fst (fresh_alloc f), rc_journal = reopened (crc32 E) (last gs1), rc_replay = outcome [] gs1, rc_meta = meta_default,
      rc_file = truncate_to_blocks RESERVED_BLOCKS f, rc_fs = d1, rc_types = registry types\<rparr>"
    have seed: "bf_seed (truncate_to_blocks RESERVED_BLOCKS f) = bf_seed f" by (simp add: truncate_to_blocks_def)
    have e: "engine_inv E (opened f ?rc relaxed)" "engine_view E (opened f ?rc relaxed) = (\<lambda>_. Map.empty)"
      using fresh_engine [of "opened f ?rc relaxed" f E] registry_ok [of types] seed by simp_all
    have roots: "roots_held E (opened f ?rc relaxed) gs1"
      using unrooted(1) unfolding roots_held_def by (auto simp: list_all_iff)
    have "read_run (durable_file (truncate_to_blocks RESERVED_BLOCKS f)) r = read_run f r" for r
      using f(3, 4) by (intro read_run_bytes) (simp add: durable_file_def truncate_to_blocks_def)
    then have super: "superblock_ok E (opened f ?rc relaxed)"
      using truncated_superblock [OF sb(1)] sb f(2) by (auto simp: superblock_ok_def)
    have "engine_view E (opened f ?rc relaxed) = hist_view []" "outcome [] gs1 = [] @ rc_replay ?rc"
      using e(2) by (simp_all add: hist_view_def)
    then show thesis using that [OF f(1) R e(1) _ _ ne(2) full _ _ roots super] assms(6) pre disk by simp
  next
    case (rooted as g bs0 c W d2)
    obtain as' g' bs' where cut: "gs = as' @ g' # bs'" "gn_root g' = Some (c, W)" "\<forall>x\<in>set bs'. \<not> unrooted x \<longrightarrow> gn_safe x = 0"
      by (rule cut_newest [OF rooted(1) [unfolded gs1_def] j(1) rooted(2, 3)])
    have gens: "ext_blocks (set (if list_all unrooted bs' then protected (ps_alloc ps) else previous_gen (ps_alloc ps))) \<subseteq> roots (ps_alloc ps)"
      by (simp add: roots_union)
    obtain a m types' where l: "load_commit E f c (registry types) = Ok (a, m, types')" "previous_gen a = []"
        "map ss_hash types' = map ss_hash (registry types)"
      and e: "\<And>ps' :: page_store. ps_file ps' = f \<Longrightarrow> ps_alloc ps' = a \<Longrightarrow> ps_meta ps' = m \<Longrightarrow> ps_types ps' = types' \<Longrightarrow> ps_seed ps' = ps_seed ps \<Longrightarrow>
        ps_pending ps' = [] \<Longrightarrow> engine_inv E ps' \<and> engine_view E ps' = hist_view W \<and> root_held E (ext_blocks (set (protected a))) ps' c W"
      by (rule root_reopens [OF roots_heldD [OF ok(4) cut] gens assms(3) f(3, 4, 2, 5) assms(6) registry_ok(2)]) (rule that; blast)
    note R = restore_commit [OF ne(1) open_js, unfolded entries_frames, OF rooted(4) l(1) rooted(5), of now]
    let ?rc = "\<lparr>rc_alloc = a, rc_journal = reopened (crc32 E) (last gs1), rc_replay = concat (map gn_batches (g # bs0)), rc_meta = m,
      rc_file = f, rc_fs = d2, rc_types = types'\<rparr>"
    have "ps_seed (opened f ?rc relaxed) = ps_seed ps" using f(2) by simp
    from e [of "opened f ?rc relaxed", OF _ _ _ _ this]
    have e': "engine_inv E (opened f ?rc relaxed)" "engine_view E (opened f ?rc relaxed) = hist_view W"
      "root_held E (ext_blocks (set (protected a))) (opened f ?rc relaxed) c W" by simp_all
    have roots: "roots_held E (opened f ?rc relaxed) (g # bs0)"
      unfolding roots_held_def
    proof (intro allI impI)
      fix xs h ys c' W'
      assume h: "g # bs0 = xs @ h # ys" "gn_root h = Some (c', W')"
      have "xs = []" using h rooted(3) by (cases xs) (auto simp: list_all_iff)
      then show "root_held E (ext_blocks (set (if list_all unrooted ys then protected (ps_alloc (opened f ?rc relaxed))
          else previous_gen (ps_alloc (opened f ?rc relaxed))))) (opened f ?rc relaxed) c' W'"
        using h rooted(2, 3) e'(3) by simp
    qed
    have super: "superblock_ok E (opened f ?rc relaxed)" using sb f(2) durable by (auto simp: superblock_ok_def)
    have full': "list_all gn_full (g # bs0)" using full rooted(1) by simp
    have last: "last (g # bs0) = last gs1" using rooted(1) by simp
    have out: "outcome [] (g # bs0) = W @ rc_replay ?rc" "prefix (safe_history gs) (outcome [] (g # bs0))" "prefix (outcome [] (g # bs0)) (outcome [] gs)"
      using rooted(7, 8) pre by simp_all
    show thesis
      by (rule that [OF f(1) R e'(1, 2) out(1) _ full' _ _ roots super _ out(2, 3)]) (simp_all add: last rooted(6) l(3) assms(6) del: last.simps)
  qed
qed

theorem reopen_ok:
  assumes "zstd_ok E" "crash_ok E gs ps" "dir_crash (ps_fs ps) d'" "data_survives ps bs" "distinct entries" "set entries = dom (content d')"
    "map ss_hash (registry types) = map ss_hash (ps_types ps)" "open_fits E now random entries bs d' types relaxed"
  obtains ps' gs' where "open_with E now random False entries (Some bs) d' types relaxed = Ok ps'" "store_ok E gs' ps'" "appendable gs'"
    "prefix (safe_history gs) (outcome [] gs')" "prefix (outcome [] gs') (outcome [] gs)" "safe_history gs' = outcome [] gs'"
    "map ss_hash (ps_types ps') = map ss_hash (ps_types ps)" "ps_relaxed ps' = relaxed"
proof -
  obtain f rc gs' W where r: "bf_open E random bs = Ok f" "restore E now entries True f d' (registry types) = Ok rc"
    "engine_inv E (opened f rc relaxed)" "engine_view E (opened f rc relaxed) = hist_view W" "outcome [] gs' = W @ rc_replay rc"
    "gs' \<noteq> []" "list_all gn_full gs'" "disk_holds (crc32 E) (rc_fs rc) gs'" "rc_journal rc = reopened (crc32 E) (last gs')"
    "roots_held E (opened f rc relaxed) gs'" "superblock_ok E (opened f rc relaxed)" "map ss_hash (rc_types rc) = map ss_hash (ps_types ps)"
    "prefix (safe_history gs) (outcome [] gs')" "prefix (outcome [] gs') (outcome [] gs)"
    by (rule restored_ok [OF assms(2-7), of random now relaxed])
  have "list_all (list_all (routable (ps_types ps))) (outcome [] gs)" using assms(2) by (simp add: crash_ok_def)
  then have route: "list_all (list_all (routable (rc_types rc))) (W @ rc_replay rc)"
    unfolding routable_history [OF r(12)] r(5) [symmetric] using r(14) by (auto simp: prefix_def)
  obtain ps' where p: "open_with E now random False entries (Some bs) d' types relaxed = Ok ps'" "store_ok E gs' ps'" "appendable gs'"
    "map ss_hash (ps_types ps') = map ss_hash (rc_types rc)" "ps_relaxed ps' = relaxed"
    by (rule replayed_ok [OF assms(1) r(1, 2) assms(8) r(3, 4) route r(5-11)])
  have "safe_history gs' = outcome [] gs'" using solid_safe [OF full_history [OF r(7)] solid_full [OF r(7)]] .
  then show thesis using that p r(12-14) by simp
qed

end
