(* ===== verification/Crash_Refines.thy ===== *)
theory Crash_Refines
  imports Crash_Recovery
begin

text \<open>
  The page store with crashes refines a durable log.  The abstract state is the sequence of batches
  committed so far and the part of it that survives any crash; a crash falls back to some prefix in
  between.  Clients read and commit, maintenance settles, drains, defragments, evicts, flushes, checkpoints and
  retires, and the power may go at any moment, in the middle of a batch's journal write or between the
  stages of a checkpoint included.
\<close>

section \<open>The durable log\<close>

record durable_log =
  dl_done :: history \<comment> \<open>the batches committed, in order\<close>
  dl_safe :: history \<comment> \<open>the part no crash can take back\<close>
  dl_strict :: bool

datatype log_event =
    Observed u64 wave_id "byte list option sres"
  | Wrote "write_op list" "unit sres"
  | Upkeep
  | Barrier
  | Crashed bool \<comment> \<open>and reopened, with or without a durability window\<close>
  | Torn "write_op list" bool \<comment> \<open>crashed while the batch was being written\<close>

inductive log_step :: "u64 set \<Rightarrow> durable_log \<Rightarrow> log_event \<Rightarrow> durable_log \<Rightarrow> bool" for T where
  log_read: "log_step T L (Observed h i (Ok (hist_view (dl_done L) h (raw i)))) L"
| log_unroutable: "route_error T b = Some e \<Longrightarrow> log_step T L (Wrote b (Err e)) L"
| log_conflict: "route_error T b = None \<Longrightarrow> typed_conflict b (hist_view (dl_done L)) = Some i \<Longrightarrow>
    log_step T L (Wrote b (Err (Core (Conflict i)))) L"
| log_commit: "route_error T b = None \<Longrightarrow> typed_conflict b (hist_view (dl_done L)) = None \<Longrightarrow>
    H = dl_done L @ [filter (\<lambda>w. \<not> is_expect w) b] \<Longrightarrow> prefix (dl_safe L) S \<Longrightarrow> prefix S H \<Longrightarrow> (dl_strict L \<Longrightarrow> S = H) \<Longrightarrow>
    log_step T L (Wrote b (Ok ())) (L\<lparr>dl_done := H, dl_safe := S\<rparr>)"
| log_upkeep: "prefix (dl_safe L) S \<Longrightarrow> prefix S (dl_done L) \<Longrightarrow> log_step T L Upkeep (L\<lparr>dl_safe := S\<rparr>)"
| log_barrier: "log_step T L Barrier (L\<lparr>dl_safe := dl_done L\<rparr>)"
| log_crash: "prefix (dl_safe L) H \<Longrightarrow> prefix H (dl_done L) \<Longrightarrow> log_step T L (Crashed relaxed) \<lparr>dl_done = H, dl_safe = H, dl_strict = (\<not> relaxed)\<rparr>"
| log_torn: "prefix (dl_safe L) H \<Longrightarrow> prefix H (dl_done L @ [filter (\<lambda>w. \<not> is_expect w) b]) \<Longrightarrow>
    log_step T L (Torn b relaxed) \<lparr>dl_done = H, dl_safe = H, dl_strict = (\<not> relaxed)\<rparr>"

section \<open>The page store's steps\<close>

text \<open>What the next process finds and makes of it: the journals cut somewhere after their last barrier,
  and a data file that keeps only what a barrier wrote of the rooted blocks.\<close>

inductive reopens :: "libs \<Rightarrow> page_store \<Rightarrow> bool \<Rightarrow> page_store \<Rightarrow> bool" for E where
  "dir_crash (ps_fs ps) d \<Longrightarrow> data_survives ps bs \<Longrightarrow> distinct entries \<Longrightarrow> set entries = dom (content d) \<Longrightarrow>
    map ss_hash (registry types) = map ss_hash (ps_types ps) \<Longrightarrow> open_fits E now random entries bs d types relaxed \<Longrightarrow>
    open_with E now random False entries (Some bs) d types relaxed = Ok ps' \<Longrightarrow> reopens E ps relaxed ps'"

text \<open>The states a checkpoint passes through, and a batch written to the journal with its barrier still to come.\<close>

definition crash_point :: "libs \<Rightarrow> page_store \<Rightarrow> page_store \<Rightarrow> bool" where
  "crash_point E ps q \<longleftrightarrow> q = ps \<or> (\<exists>now. checkpoint_fits E now ps \<and> checkpoint_stage E now ps q)"

definition batch_written :: "libs \<Rightarrow> write_op list \<Rightarrow> page_store \<Rightarrow> page_store \<Rightarrow> bool" where
  "batch_written E b ps q \<longleftrightarrow> valid_frame (Batch (filter (\<lambda>w. \<not> is_expect w) b)) \<and> apply_inner E False b (ps\<lparr>ps_relaxed := True\<rparr>) = Ok q"

inductive store_step :: "libs \<Rightarrow> page_store \<Rightarrow> log_event \<Rightarrow> page_store \<Rightarrow> bool" for E where
  ss_read: "store_step E ps (Observed h i (read_of E ps h i)) ps"
| ss_commit: "valid_frame (Batch (filter (\<lambda>w. \<not> is_expect w) b)) \<Longrightarrow> apply_inner E elapsed b ps = Ok ps' \<Longrightarrow> store_step E ps (Wrote b (Ok ())) ps'"
| ss_refuse: "apply_inner E elapsed b ps = Err e \<Longrightarrow> store_step E ps (Wrote b (Err e)) ps"
| ss_panic: "apply_inner E elapsed b ps = None \<Longrightarrow> store_step E ps (Wrote b None) ps"
| ss_settle: "step_fits E budget ps \<Longrightarrow> settle_step E budget ps = (ps', r) \<Longrightarrow> store_step E ps Upkeep ps'"
| ss_drain: "step_fits E USIZE_MAX ps \<Longrightarrow> drain E ps = Some (ps', r) \<Longrightarrow> store_step E ps Upkeep ps'"
| ss_defrag: "defrag_fits E budget ps \<Longrightarrow> defragment E budget ps = (ps', r) \<Longrightarrow> store_step E ps Upkeep ps'"
| ss_evict: "store_step E ps Upkeep (evict_settled budget ps)"
| ss_checkpoint: "checkpoint_fits E now ps \<Longrightarrow> commit_journal E now ps = Some (ps', r) \<Longrightarrow> store_step E ps Upkeep ps'"
| ss_retire: "force_retirement ps = (ps', r) \<Longrightarrow> store_step E ps Upkeep ps'"
| ss_flush: "ps_flush ps = Ok ps' \<Longrightarrow> store_step E ps Barrier ps'"
| ss_crash: "crash_point E ps q \<Longrightarrow> reopens E q relaxed ps' \<Longrightarrow> store_step E ps (Crashed relaxed) ps'"
| ss_torn: "batch_written E b ps q \<Longrightarrow> reopens E q relaxed ps' \<Longrightarrow> store_step E ps (Torn b relaxed) ps'"

section \<open>The simulation\<close>

definition durable_rel :: "libs \<Rightarrow> u64 set \<Rightarrow> page_store \<Rightarrow> durable_log \<Rightarrow> bool" where
  "durable_rel E T ps L \<longleftrightarrow> (\<exists>gs. store_ok E gs ps \<and> appendable gs \<and> outcome [] gs = dl_done L \<and> safe_history gs = dl_safe L)
     \<and> ss_hash ` set (ps_types ps) = T \<and> ps_relaxed ps = (\<not> dl_strict L)"

lemma durable_relI:
  assumes "store_ok E gs ps'" "appendable gs" "outcome [] gs = dl_done L" "safe_history gs = dl_safe L"
    "map ss_hash (ps_types ps') = map ss_hash (ps_types ps)" "ss_hash ` set (ps_types ps) = T" "ps_relaxed ps' = (\<not> dl_strict L)"
  shows "durable_rel E T ps' L"
proof -
  have "ss_hash ` set (ps_types ps') = ss_hash ` set (ps_types ps)" using arg_cong [OF assms(5), of set] by simp
  then show ?thesis using assms unfolding durable_rel_def by blast
qed

lemma safe_prefix: "history_ok True [] gs \<Longrightarrow> prefix (safe_history gs) (outcome [] gs)"
  using cuts_between [of gs "map gn_safe gs"] by (simp add: safe_history_def list_all2_conv_all_nth)

lemma durable_relE:
  assumes "durable_rel E T ps L"
  obtains gs where "store_ok E gs ps" "appendable gs" "outcome [] gs = dl_done L" "safe_history gs = dl_safe L"
    "engine_inv E ps" "engine_ok E ps" "engine_view E ps = hist_view (dl_done L)" "ss_hash ` set (ps_types ps) = T" "ps_relaxed ps = (\<not> dl_strict L)"
    "journaled E ps (gn_frames (last gs)) (take (gn_safe (last gs)) (gn_frames (last gs)))"
proof -
  obtain gs where gs: "store_ok E gs ps" "appendable gs" "outcome [] gs = dl_done L" "safe_history gs = dl_safe L"
    "ss_hash ` set (ps_types ps) = T" "ps_relaxed ps = (\<not> dl_strict L)" using assms unfolding durable_rel_def by blast
  note ok = store_okD [OF gs(1)]
  have "gs \<noteq> []" using ok(4) by (simp add: log_here_def)
  then have "log_here E ps (butlast gs @ [last gs])" using ok(4) by simp
  from log_here_holds [OF this] have "journaled E ps (gn_frames (last gs)) (take (gn_safe (last gs)) (gn_frames (last gs)))"
    by (simp add: journaled_def)
  moreover have "engine_ok E ps" using ok(1) by (simp add: engine_inv_def)
  ultimately show thesis using that gs ok(1, 2) by simp
qed

text \<open>A batch is refused as the specification says, or committed.\<close>

lemma wrote_simulates:
  assumes "durable_rel E T ps L"
  obtains (refused) e where "apply_inner E elapsed b ps = Err e" "log_step T L (Wrote b (Err e)) L"
  | (committed) ps' where "apply_inner E elapsed b ps = Ok ps'" "route_error T b = None" "typed_conflict b (hist_view (dl_done L)) = None"
proof -
  obtain gs where r: "engine_ok E ps" "engine_view E ps = hist_view (dl_done L)" "ss_hash ` set (ps_types ps) = T"
    "journaled E ps (gn_frames (last gs)) (take (gn_safe (last gs)) (gn_frames (last gs)))"
    using durable_relE [OF assms] by metis
  have routed: "route_error T b = None \<longleftrightarrow> list_all (routable (ps_types ps)) b"
    using route_batch_error [of ps b] route_batch_Ok [of ps b] r(3) by (cases "route_error T b") auto
  show thesis
  proof (cases rule: apply_inner_cases [OF r(1, 4), of elapsed b])
    case (1 e)
    then have "route_error T b = Some e" using route_batch_error [of ps b] r(3) by (auto split: option.splits)
    then show thesis using 1(1) by (intro refused log_unroutable)
  next
    case (2 i)
    then show thesis using routed r(2) by (intro refused [OF 2(1)] log_conflict) auto
  next
    case (3 ps')
    then show thesis using routed r(2) by (intro committed [OF 3(1)]) auto
  qed
qed

lemma commit_simulates:
  assumes "durable_rel E T ps L" "valid_frame (Batch (filter (\<lambda>w. \<not> is_expect w) b))" "apply_inner E elapsed b ps = Ok ps'"
  shows "\<exists>L'. log_step T L (Wrote b (Ok ())) L' \<and> durable_rel E T ps' L'"
proof -
  obtain gs where r: "store_ok E gs ps" "appendable gs" "outcome [] gs = dl_done L" "safe_history gs = dl_safe L"
    "ss_hash ` set (ps_types ps) = T" "ps_relaxed ps = (\<not> dl_strict L)" by (rule durable_relE [OF assms(1)])
  obtain gs' where g: "store_ok E gs' ps'" "appendable gs'" "outcome [] gs' = outcome [] gs @ [filter (\<lambda>w. \<not> is_expect w) b]"
    "prefix (safe_history gs) (safe_history gs')" "\<not> (ps_relaxed ps \<and> \<not> elapsed) \<Longrightarrow> safe_history gs' = outcome [] gs'"
    "map ss_hash (ps_types ps') = map ss_hash (ps_types ps)" "ps_relaxed ps' = ps_relaxed ps"
    by (rule applied_ok [OF r(1, 2) assms(3, 2)]) (rule that; blast)
  have "route_error T b = None" "typed_conflict b (hist_view (dl_done L)) = None"
    using assms(3) by (cases rule: wrote_simulates [OF assms(1), of elapsed b]; simp)+
  from log_commit [OF this, of "outcome [] gs'" "safe_history gs'"]
  have "log_step T L (Wrote b (Ok ())) (L\<lparr>dl_done := outcome [] gs', dl_safe := safe_history gs'\<rparr>)"
    using g(3-5) r(3, 4, 6) safe_prefix [OF store_okD(5) [OF g(1)]] by simp
  moreover have "durable_rel E T ps' (L\<lparr>dl_done := outcome [] gs', dl_safe := safe_history gs'\<rparr>)"
    by (rule durable_relI [OF g(1, 2) _ _ g(6) r(5)]) (simp_all add: g(7) r(6))
  ultimately show ?thesis by blast
qed

text \<open>Maintenance leaves the committed batches and may make more of them durable.\<close>

lemma upkeep_simulates:
  assumes "durable_rel E T ps L" "ss_hash ` set (ps_types ps) = T" "store_ok E gs' ps'" "appendable gs'" "outcome [] gs' = dl_done L"
    "prefix (dl_safe L) (safe_history gs')" "map ss_hash (ps_types ps') = map ss_hash (ps_types ps)" "ps_relaxed ps' = (\<not> dl_strict L)"
  shows "\<exists>L'. log_step T L Upkeep L' \<and> durable_rel E T ps' L'"
proof -
  have "log_step T L Upkeep (L\<lparr>dl_safe := safe_history gs'\<rparr>)"
    using safe_prefix [OF store_okD(5) [OF assms(3)]] assms(5, 6) by (intro log_upkeep) simp_all
  moreover have "durable_rel E T ps' (L\<lparr>dl_safe := safe_history gs'\<rparr>)"
    by (rule durable_relI [OF assms(3, 4) _ _ assms(7, 2)]) (simp_all add: assms(5, 8))
  ultimately show ?thesis by blast
qed

lemma settled_simulates:
  assumes "durable_rel E T ps L" "engine_inv E ps'" "engine_view E ps' = engine_view E ps" "map ss_hash (ps_types ps') = map ss_hash (ps_types ps)" "spares ps ps'"
    "ps' = ps\<lparr>ps_file := ps_file ps', ps_alloc := ps_alloc ps', ps_meta := ps_meta ps', ps_types := ps_types ps', ps_pending := q\<rparr>"
  shows "\<exists>L'. log_step T L Upkeep L' \<and> durable_rel E T ps' L'"
proof -
  obtain gs where r: "store_ok E gs ps" "appendable gs" "outcome [] gs = dl_done L" "safe_history gs = dl_safe L"
    "ss_hash ` set (ps_types ps) = T" "ps_relaxed ps = (\<not> dl_strict L)" by (rule durable_relE [OF assms(1)])
  have k: "ps_journal ps' = ps_journal ps" "ps_fs ps' = ps_fs ps" "ps_retiring ps' = ps_retiring ps" "ps_seed ps' = ps_seed ps" "ps_relaxed ps' = ps_relaxed ps"
    using arg_cong [OF assms(6), of ps_journal] arg_cong [OF assms(6), of ps_fs] arg_cong [OF assms(6), of ps_retiring]
      arg_cong [OF assms(6), of ps_seed] arg_cong [OF assms(6), of ps_relaxed] by simp_all
  show ?thesis
    by (rule upkeep_simulates [OF assms(1) r(5) maintained_ok [OF r(1) assms(2-5) k(1-4)] r(2, 3) _ assms(4)]) (simp_all add: r(4, 6) k(5))
qed

lemma relaxed_ok: "store_ok E gs (ps\<lparr>ps_relaxed := r\<rparr>) \<longleftrightarrow> store_ok E gs ps"
proof -
  have "engine_inv E (ps\<lparr>ps_relaxed := r\<rparr>) = engine_inv E ps" for ps r
    by (simp add: engine_inv_def engine_ok_def space_ok_def live_m_def types_fit_def log_ok_def addr_ok_def)
  then have "store_ok E gs (ps\<lparr>ps_relaxed := r\<rparr>)" if "store_ok E gs ps" for ps r
    using that store_okD(1) [OF that] by (intro maintained_ok [OF that]) (simp_all add: spares_def)
  from this [of ps r] this [of "ps\<lparr>ps_relaxed := r\<rparr>" "ps_relaxed ps"] show ?thesis by auto
qed

lemma reopens_simulates:
  assumes "zstd_ok E" "crash_ok E gs q" "reopens E q relaxed ps'" "ss_hash ` set (ps_types q) = T"
  obtains H where "prefix (safe_history gs) H" "prefix H (outcome [] gs)"
    "durable_rel E T ps' \<lparr>dl_done = H, dl_safe = H, dl_strict = (\<not> relaxed)\<rparr>"
  using assms(3)
proof cases
  case (1 d bs entries types now random)
  obtain ps1 gs' where o: "open_with E now random False entries (Some bs) d types relaxed = Ok ps1" "store_ok E gs' ps1" "appendable gs'"
    "prefix (safe_history gs) (outcome [] gs')" "prefix (outcome [] gs') (outcome [] gs)" "safe_history gs' = outcome [] gs'"
    "map ss_hash (ps_types ps1) = map ss_hash (ps_types q)" "ps_relaxed ps1 = relaxed"
    by (rule reopen_ok [OF assms(1, 2) 1(1-6)])
  have "ps1 = ps'" using o(1) 1(7) by simp
  moreover have "durable_rel E T ps1 \<lparr>dl_done = outcome [] gs', dl_safe = outcome [] gs', dl_strict = (\<not> relaxed)\<rparr>"
    by (rule durable_relI [OF o(2, 3) _ _ o(7) assms(4)]) (simp_all add: o(6, 8))
  ultimately show thesis using that o(4, 5) by blast
qed

lemma crash_point_ok:
  assumes "zstd_ok E" "store_ok E gs ps" "crash_point E ps q"
  obtains gs' where "crash_ok E gs' q" "outcome [] gs' = outcome [] gs" "prefix (safe_history gs) (safe_history gs')"
    "map ss_hash (ps_types q) = map ss_hash (ps_types ps)"
proof (cases "q = ps")
  case True
  then show thesis using that [of gs] store_crash_ok [OF assms(2)] by simp
next
  case False
  then obtain now where "checkpoint_fits E now ps" "checkpoint_stage E now ps q" using assms(3) by (auto simp: crash_point_def)
  from assms(1, 2) this show thesis by (rule stage_ok) (rule that)
qed

lemma crash_simulates:
  assumes "zstd_ok E" "durable_rel E T ps L" "crash_point E ps q" "reopens E q relaxed ps'"
  shows "\<exists>L'. log_step T L (Crashed relaxed) L' \<and> durable_rel E T ps' L'"
proof -
  obtain gs where r: "store_ok E gs ps" "outcome [] gs = dl_done L" "safe_history gs = dl_safe L" "ss_hash ` set (ps_types ps) = T"
    by (rule durable_relE [OF assms(2)])
  obtain gs' where g: "crash_ok E gs' q" "outcome [] gs' = outcome [] gs" "prefix (safe_history gs) (safe_history gs')"
    "map ss_hash (ps_types q) = map ss_hash (ps_types ps)" by (rule crash_point_ok [OF assms(1) r(1) assms(3)])
  have T: "ss_hash ` set (ps_types q) = T" using arg_cong [OF g(4), of set] r(4) by simp
  obtain H where H: "prefix (safe_history gs') H" "prefix H (outcome [] gs')"
    "durable_rel E T ps' \<lparr>dl_done = H, dl_safe = H, dl_strict = (\<not> relaxed)\<rparr>" by (rule reopens_simulates [OF assms(1) g(1) assms(4) T])
  have "prefix (dl_safe L) H" using g(3) H(1) r(3) prefix_order.trans by metis
  from log_crash [OF this H(2) [unfolded g(2) r(2)], of T relaxed] H(3) show ?thesis by (intro exI conjI)
qed

lemma torn_simulates:
  assumes "zstd_ok E" "durable_rel E T ps L" "batch_written E b ps q" "reopens E q relaxed ps'"
  shows "\<exists>L'. log_step T L (Torn b relaxed) L' \<and> durable_rel E T ps' L'"
proof -
  obtain gs where r: "store_ok E gs ps" "appendable gs" "outcome [] gs = dl_done L" "safe_history gs = dl_safe L" "ss_hash ` set (ps_types ps) = T"
    by (rule durable_relE [OF assms(2)])
  have w: "valid_frame (Batch (filter (\<lambda>w. \<not> is_expect w) b))" "apply_inner E False b (ps\<lparr>ps_relaxed := True\<rparr>) = Ok q"
    using assms(3) by (simp_all add: batch_written_def)
  have "store_ok E gs (ps\<lparr>ps_relaxed := True\<rparr>)" using r(1) relaxed_ok by blast
  from this r(2) w(2, 1) obtain gs' where g: "store_ok E gs' q" "outcome [] gs' = outcome [] gs @ [filter (\<lambda>w. \<not> is_expect w) b]"
    "prefix (safe_history gs) (safe_history gs')" "map ss_hash (ps_types q) = map ss_hash (ps_types (ps\<lparr>ps_relaxed := True\<rparr>))"
    by (rule applied_ok)
  have T: "ss_hash ` set (ps_types q) = T" using arg_cong [OF g(4), of set] r(5) by simp
  obtain H where H: "prefix (safe_history gs') H" "prefix H (outcome [] gs')"
    "durable_rel E T ps' \<lparr>dl_done = H, dl_safe = H, dl_strict = (\<not> relaxed)\<rparr>"
    by (rule reopens_simulates [OF assms(1) store_crash_ok [OF g(1)] assms(4) T])
  have "prefix (dl_safe L) H" using g(3) H(1) r(4) prefix_order.trans by metis
  from log_torn [OF this H(2) [unfolded g(2) r(3)], of T relaxed] H(3) show ?thesis by (intro exI conjI)
qed

lemma store_simulates:
  assumes "zstd_ok E" "durable_rel E T ps L" "store_step E ps e ps'"
  shows "\<exists>L'. log_step T L e L' \<and> durable_rel E T ps' L'"
proof -
  obtain gs where r: "store_ok E gs ps" "appendable gs" "outcome [] gs = dl_done L" "safe_history gs = dl_safe L"
    "engine_inv E ps" "engine_ok E ps" "engine_view E ps = hist_view (dl_done L)"
    "ss_hash ` set (ps_types ps) = T" "ps_relaxed ps = (\<not> dl_strict L)" by (rule durable_relE [OF assms(2)])
  note up = upkeep_simulates [OF assms(2) r(8)]
  from assms(3) show ?thesis
  proof cases
    case (ss_read h i)
    then show ?thesis using read_of_view [OF r(6), of h i] r(7) assms(2) log_read [of T L h i] by auto
  next
    case (ss_commit b elapsed)
    then show ?thesis using commit_simulates [OF assms(2)] by blast
  next
    case (ss_refuse elapsed b e')
    then show ?thesis using assms(2) by (cases rule: wrote_simulates [OF assms(2), where elapsed = elapsed and b = b]) auto
  next
    case (ss_panic elapsed b)
    then show ?thesis by (cases rule: wrote_simulates [OF assms(2), where elapsed = elapsed and b = b]) auto
  next
    case (ss_settle budget r')
    obtain rnd left where t: "take_round budget (ps_pending ps) = (rnd, left)" by fastforce
    obtain ps1 where s: "settle_step E budget ps = (ps1, Ok (if rnd = [] then progress.Done else Settled))" "engine_inv E ps1"
      "engine_view E ps1 = engine_view E ps" "map ss_hash (ps_types ps1) = map ss_hash (ps_types ps)"
      "ps1 = ps\<lparr>ps_file := ps_file ps1, ps_alloc := ps_alloc ps1, ps_meta := ps_meta ps1, ps_types := ps_types ps1, ps_pending := left\<rparr>"
      "spares ps ps1" by (rule settle_step_ok [OF assms(1) r(5) ss_settle(2) t])
    show ?thesis unfolding ss_settle(1)
      using settled_simulates [OF assms(2) s(2-4, 6, 5)] s(1) ss_settle(3) by simp
  next
    case (ss_drain r')
    obtain ps1 where s: "drain E ps = Some (ps1, Ok ())" "engine_inv E ps1"
      "engine_view E ps1 = engine_view E ps" "map ss_hash (ps_types ps1) = map ss_hash (ps_types ps)"
      "ps1 = ps\<lparr>ps_file := ps_file ps1, ps_alloc := ps_alloc ps1, ps_meta := ps_meta ps1, ps_types := ps_types ps1, ps_pending := []\<rparr>"
      "spares ps ps1" by (rule drain_ok [OF assms(1) r(5) ss_drain(2)])
    show ?thesis unfolding ss_drain(1)
      using settled_simulates [OF assms(2) s(2-4, 6, 5)] s(1) ss_drain(3) by simp
  next
    case (ss_defrag budget r')
    obtain ps1 report where s: "defragment E budget ps = (ps1, Ok report)" "engine_inv E ps1"
      "engine_view E ps1 = engine_view E ps" "map ss_hash (ps_types ps1) = map ss_hash (ps_types ps)"
      "ps1 = ps\<lparr>ps_file := ps_file ps1, ps_alloc := ps_alloc ps1, ps_meta := ps_meta ps1, ps_types := ps_types ps1\<rparr>"
      "spares ps ps1" by (rule defragment_ok [OF r(5) ss_defrag(2)])
    have "ps1 = ps\<lparr>ps_file := ps_file ps1, ps_alloc := ps_alloc ps1, ps_meta := ps_meta ps1, ps_types := ps_types ps1, ps_pending := ps_pending ps\<rparr>"
      by (subst s(5)) simp
    from settled_simulates [OF assms(2) s(2-4, 6) this] show ?thesis unfolding ss_defrag(1) using s(1) ss_defrag(3) by simp
  next
    case (ss_evict budget)
    show ?thesis unfolding ss_evict(1, 2)
      by (rule settled_simulates [OF assms(2) evict_settled_ok(1-3) [OF r(5)], of _ "ps_pending ps"]) (simp_all add: evict_settled_def spares_def)
  next
    case (ss_checkpoint now r')
    obtain ps1 gs' where c: "commit_journal E now ps = Some (ps1, Ok ())" "store_ok E gs' ps1" "appendable gs'" "outcome [] gs' = outcome [] gs"
      "prefix (safe_history gs) (safe_history gs')" "map ss_hash (ps_types ps1) = map ss_hash (ps_types ps)" "ps_relaxed ps1 = ps_relaxed ps"
      by (rule checkpoint_ok [OF assms(1) r(1) ss_checkpoint(2)])
    have "ps' = ps1" using c(1) ss_checkpoint(3) by simp
    then show ?thesis unfolding ss_checkpoint(1) using up [OF c(2, 3) _ _ c(6)] c(4, 5, 7) r(3, 4, 9) by simp
  next
    case (ss_retire r')
    obtain ps1 gs' where c: "force_retirement ps = (ps1, Ok ())" "store_ok E gs' ps1" "appendable gs \<Longrightarrow> appendable gs'" "outcome [] gs' = outcome [] gs"
      "prefix (safe_history gs) (safe_history gs')" "map ss_hash (ps_types ps1) = map ss_hash (ps_types ps)" "ps_relaxed ps1 = ps_relaxed ps"
      by (rule force_retirement_ok [OF r(1)]) (rule that; blast)
    have "ps' = ps1" using c(1) ss_retire(2) by simp
    then show ?thesis unfolding ss_retire(1) using up [OF c(2) c(3) [OF r(2)] _ _ c(6)] c(4, 5, 7) r(3, 4, 9) by simp
  next
    case ss_flush
    obtain gs' where c: "store_ok E gs' ps'" "appendable gs \<Longrightarrow> appendable gs'" "outcome [] gs' = outcome [] gs"
      "appendable gs \<Longrightarrow> safe_history gs' = outcome [] gs'" "map ss_hash (ps_types ps') = map ss_hash (ps_types ps)" "ps_relaxed ps' = ps_relaxed ps"
      by (rule flushed_ok [OF r(1) ss_flush(2)]) (rule that; blast)
    have "durable_rel E T ps' (L\<lparr>dl_safe := dl_done L\<rparr>)"
      by (rule durable_relI [OF c(1) c(2) [OF r(2)] _ _ c(5) r(8)]) (use c(3, 6) c(4) [OF r(2)] r(3, 9) in simp_all)
    then show ?thesis unfolding ss_flush(1) by (blast intro: log_barrier)
  next
    case (ss_crash q relaxed)
    then show ?thesis using crash_simulates [OF assms(1, 2)] by blast
  next
    case (ss_torn b q relaxed)
    then show ?thesis using torn_simulates [OF assms(1, 2)] by blast
  qed
qed

interpretation store_sim: forward_simulation "store_step E" "log_step T" "\<lambda>ps L. zstd_ok E \<and> durable_rel E T ps L"
  for E T
  by unfold_locales (use store_simulates in blast)

end
