(* ===== verification/Engine_Props.thy ===== *)
theory Engine_Props
  imports Opening
begin

text \<open>
  What the storage engine promises, and the runs that show the promises are not vacuous: a store with one
  registered type, freshly created, that takes a batch, settles it and answers from its pages.
\<close>

section \<open>An example store\<close>

definition demo_libs :: libs where
  "demo_libs = \<lparr>crc32 = (\<lambda>_. 0), hash_seeded = (\<lambda>_ _. 0), zstd_compress = (\<lambda>_ x. x), zstd_decompress = (\<lambda>_ x _. Some x)\<rparr>"

definition demo_file :: block_file where
  "demo_file = \<lparr>bf_bytes = [], bf_durable = [], bf_seed = (0, 0, 0, 0), bf_cache = pc_new 0\<rparr>"

definition demo_journal :: journal where
  "demo_journal = \<lparr>j_path = journal_name 1, j_ts = 1, j_end = 0, j_syncs = 0\<rparr>"

abbreviation demo_hash :: u64 where
  "demo_hash \<equiv> BPTREE_NODE_STRUCT_HASH"

definition demo_store :: page_store where
  "demo_store = \<lparr>ps_file = demo_file, ps_fs = \<lparr>content = [journal_name 1 \<mapsto> []], synced = Map.empty\<rparr>, ps_journal = demo_journal,
     ps_alloc = fst (fresh_alloc demo_file), ps_meta = meta_default, ps_retiring = None, ps_types = [without_compression demo_hash],
     ps_seed = (0, 0, 0, 0), ps_target = DEFAULT_TARGET_BLOCKS_PER_BUCKET, ps_pending = [], ps_relaxed = False\<rparr>"

abbreviation demo_rec :: "byte list" where
  "demo_rec \<equiv> to_le_bytes 8 demo_hash @ [42]"

abbreviation demo_id :: wave_id where
  "demo_id \<equiv> WaveId 5"

lemma demo_libs_ok: "zstd_ok demo_libs"
  by (simp add: zstd_ok_def demo_libs_def)

lemma demo_inv: "engine_inv demo_libs demo_store" "engine_view demo_libs demo_store = (\<lambda>_. Map.empty)"
  by (rule fresh_engine [of demo_store demo_file demo_libs];
      simp add: demo_store_def demo_file_def fresh_slot_def without_compression_def ds_new_def)+

lemma demo_journaled: "journaled demo_libs demo_store [] []"
  by (simp add: journaled_def journal_holds_def demo_store_def demo_journal_def)

text \<open>The store with one record committed and not yet settled.\<close>

definition demo_put :: page_store where
  "demo_put = demo_store\<lparr>ps_types := [(without_compression demo_hash)\<lparr>ss_cache := [(5, demo_rec)]\<rparr>], ps_pending := [(0, [demo_id])]\<rparr>"

lemma demo_put_inv: "engine_inv demo_libs demo_put"
proof (rule commit_inv [OF demo_inv(1)])
  let ?s = "without_compression demo_hash :: struct_storage"
  have "fresh_slot ?s" by (simp add: fresh_slot_def without_compression_def ds_new_def)
  from put_slot_ok(1) [OF fresh_slot_ok(1) [OF this], of demo_libs demo_file "(0, 0, 0, 0)" demo_id demo_rec]
  show "engine_ok demo_libs demo_put"
    by (simp add: engine_ok_def types_ok_def demo_put_def demo_store_def put_slot_def clear_removed_def without_compression_def
        bt_insert_def bs_remove_def)
qed (simp_all add: demo_put_def demo_store_def without_compression_def)

abbreviation demo_page :: slot_page where
  "demo_page \<equiv> \<lparr>sp_struct_hash = demo_hash, sp_records = [(5, demo_rec)]\<rparr>"

abbreviation demo_slot :: struct_storage where
  "demo_slot \<equiv> (without_compression demo_hash)\<lparr>ss_cache := [(5, demo_rec)]\<rparr>"

abbreviation demo_plan :: slot_plan where
  "demo_plan \<equiv> \<lparr>pl_idx = 0, pl_dir = dir_new (0, 0, 0, 0), pl_pages = [(0, image_of demo_libs (ds_new False) demo_page)],
     pl_dict = None, pl_cleared = []\<rparr>"

lemma demo_bucket: "bucket_of (hash_seeded demo_libs) (dir_new (0, 0, 0, 0)) k = 0"
  using bucket_of_less [of "dir_new (0, 0, 0, 0)" "hash_seeded demo_libs" k] by (simp add: dir_ok_def dir_len_def dir_new_def)

lemma demo_image: "blocks_of (image_of demo_libs (ds_new False) demo_page) = 1"
proof -
  let ?e = "PageEnvelope demo_hash (payload_of demo_libs dict_new False (to_wire wire_body [(5, demo_rec)]))"
  have f: "page_fits [(5, demo_rec)]" by (simp add: page_fits_def)
  have "length (to_wire wire_envelope ?e) \<le> 30 + length (payload_bytes (env_payload ?e))"
    by (rule length_envelope) (simp add: valid_payload_of f)
  then have "length (image_of demo_libs (ds_new False) demo_page) \<le> 4096" "0 < length (image_of demo_libs (ds_new False) demo_page)"
    using payload_of_shorter [of demo_libs dict_new False "to_wire wire_body [(5, demo_rec)]"] length_body [OF f]
    by (simp_all add: image_of_def ds_new_def page_to_bytes_eq length_frame_image length_checked)
  then show ?thesis unfolding blocks_of_def by (intro div_nat_eqI) (simp_all add: Suc_le_eq)
qed

lemma demo_read: "read_page demo_libs f demo_hash d (dir_new (0, 0, 0, 0)) 0 = Ok (page_new demo_hash)"
  by (simp add: read_page_def descriptor_def dir_new_def dir_len_def)

lemma demo_ids: "plan_ids demo_libs f demo_slot (dir_new (0, 0, 0, 0)) [demo_id]
    \<lparr>pa_dict = ds_new False, pa_staged = [], pa_cleared = [], pa_grew = False\<rparr>
  = (ds_new False, Ok \<lparr>pa_dict = ds_new False, pa_staged = [(0, demo_page)], pa_cleared = [], pa_grew = False\<rparr>)"
  by (simp add: Let_def demo_bucket staged_page_def demo_read ss_get_def without_compression_def ds_sample_def
      page_new_def page_upsert_def bt_insert_def ds_new_def)

lemma demo_split: "unat (dir_next_split (dir_new (0, 0, 0, 0))) = 0"
  using next_split_dir [of "dir_new (0, 0, 0, 0)"] ilog2.simps [of 1] by (simp add: dir_ok_def dir_len_def dir_new_def)

lemma demo_plan_slot: "plan_slot demo_libs f (0, 0, 0, 0) DEFAULT_TARGET_BLOCKS_PER_BUCKET 0 [demo_id] demo_slot = (demo_slot, Ok demo_plan)"
proof -
  have "plan_splits demo_libs f demo_hash DEFAULT_TARGET_BLOCKS_PER_BUCKET (ds_new False) (Suc n) (dir_new (0, 0, 0, 0), staged, pl_pages demo_plan)
      = Ok (dir_new (0, 0, 0, 0), staged, pl_pages demo_plan)" for n staged
    using demo_image by (simp add: demo_split planned_blocks_def)
  from this [of "MAX_SPLITS_PER_ROUND - 1"] show ?thesis
    using demo_ids by (simp add: plan_slot_def without_compression_def)
qed

text \<open>Settling that record stays within the limits, in any store that has settled nothing yet.\<close>

lemma demo_settle_fits:
  assumes "ps_types ps = [demo_slot]" "ps_seed ps = (0, 0, 0, 0)" "ps_meta ps = meta_default" "ps_alloc ps = fst (fresh_alloc f)"
    "ps_target ps = DEFAULT_TARGET_BLOCKS_PER_BUCKET"
  shows "settle_fits demo_libs [(0, [demo_id])] ps"
proof -
  have p: "plan_all demo_libs [(0, [demo_id])] ps = (ps, Ok [demo_plan])"
    using demo_plan_slot [of "ps_file ps"] assms by simp
  have c: "round_chunk ps [demo_plan] [] = \<lparr>ec_prev = 0, ec_slots = [\<lparr>se_hash = demo_hash, se_buckets = 1, se_changed = [(0, 0)], se_dict = None\<rparr>]\<rparr>"
    by (simp add: round_chunk_def chunk_of_def planned_edit_def assms prev_link_def meta_default_def
        without_compression_def dir_new_def dir_len_def wants_snapshot_def desc_EMPTY_def desc_count_def meta_head_def)
  have v: "valid_chunk (round_chunk ps [demo_plan] [])" by (simp add: c valid_chunk_def edit_bytes_def)
  have "blocks_of (edit_encode demo_libs (round_chunk ps [demo_plan] [])) = 1"
    using length_edit_encode [OF v, of demo_libs] by (simp add: c edit_bytes_def blocks_of_def)
  moreover have "total_blocks (ps_alloc ps) = 1"
    by (simp add: assms fresh_alloc_def alloc_def alloc_new_def bs_from_def)
  ultimately have "round_fits demo_libs ps [demo_plan]"
    using demo_image v by (simp add: round_fits_def round_sizes_def targets_of_def size_of_def image_at_def assms)
  moreover have "ids_fit demo_libs (ps_file ps) (0, 0, 0, 0) demo_slot [demo_id]"
    using demo_ids by (simp add: ids_fit_def slot_dir_def without_compression_def page_fits_def)
  moreover have "dir_len (slot_dir (0, 0, 0, 0) demo_slot) + MAX_SPLITS_PER_ROUND < 2 ^ 32"
    by (simp add: slot_dir_def without_compression_def dir_new_def dir_len_def)
  ultimately show ?thesis unfolding settle_fits_def p by (simp add: assms)
qed

lemma demo_round: "step_fits demo_libs 1 demo_put"
proof -
  have "settle_fits demo_libs [(0, [demo_id])] (demo_put\<lparr>ps_pending := []\<rparr>)"
    by (rule demo_settle_fits) (simp_all add: demo_put_def demo_store_def)
  then show ?thesis by (simp add: step_fits_def take_round_def USIZE_MAX_def demo_put_def)
qed

section \<open>Properties\<close>

text \<open>C6: Settling finishes.  From a store satisfying the invariant, whose rounds stay within the format's
  limits, repeating \<open>settle_step\<close> with any positive budget reports \<open>Settled\<close> at most as many times as ids
  are queued and then \<open>Done\<close> on an empty queue; no round changes what the store answers or breaks the
  invariant.\<close>

theorem settling_drains_queue:
  assumes "zstd_ok E" "0 < budget" "engine_inv E ps" "\<forall>n. step_fits E budget (settle_times E budget n ps)"
  shows "\<exists>n\<le>queued (ps_pending ps). let ps' = settle_times E budget n ps in
    ps_pending ps' = [] \<and> engine_inv E ps' \<and> (\<forall>h i. read_of E ps' h i = read_of E ps h i)
    \<and> (\<forall>m<n. snd (settle_step E budget (settle_times E budget m ps)) = Ok Settled) \<and> settle_step E budget ps' = (ps', Ok progress.Done)"
proof -
  obtain n where n: "n \<le> queued (ps_pending ps)" "let ps' = settle_times E budget n ps in
    ps_pending ps' = [] \<and> engine_inv E ps' \<and> engine_view E ps' = engine_view E ps
    \<and> (\<forall>m<n. snd (settle_step E budget (settle_times E budget m ps)) = Ok Settled) \<and> settle_step E budget ps' = (ps', Ok progress.Done)"
    using settle_drains [OF assms] by blast
  then have "engine_ok E (settle_times E budget n ps)" "engine_ok E ps" using assms(3) by (simp_all add: engine_inv_def Let_def)
  with n show ?thesis by (intro exI [of _ n]) (simp add: Let_def read_of_view)
qed

theorem settling_drains_queue_witness:
  "\<exists>n\<le>1. ps_pending (settle_times demo_libs 1 n demo_put) = []
     \<and> read_of demo_libs (settle_times demo_libs 1 n demo_put) demo_hash demo_id = read_of demo_libs demo_put demo_hash demo_id"
proof -
  have t: "take_round 1 (ps_pending demo_put) = (ps_pending demo_put, [])"
    by (simp add: take_round_def USIZE_MAX_def demo_put_def)
  obtain ps' where s: "settle_step demo_libs 1 demo_put = (ps', Ok (if ps_pending demo_put = [] then progress.Done else Settled))"
    "ps_pending ps' = []" by (rule settle_step_ok [OF demo_libs_ok demo_put_inv demo_round t])
  have e: "settle_step demo_libs 1 ps' = (ps', Ok progress.Done)" using s(2) by (simp add: settle_step_def take_round_def)
  have "settle_times demo_libs 1 n ps' = ps'" for n by (induction n) (simp_all add: e del: One_nat_def)
  then have "step_fits demo_libs 1 (settle_times demo_libs 1 n demo_put)" for n
    using demo_round s by (cases n) (simp_all add: step_fits_def take_round_def del: One_nat_def)
  then have "\<exists>n\<le>queued (ps_pending demo_put). let ps' = settle_times demo_libs 1 n demo_put in
    ps_pending ps' = [] \<and> engine_inv demo_libs ps' \<and> (\<forall>h i. read_of demo_libs ps' h i = read_of demo_libs demo_put h i)
    \<and> (\<forall>m<n. snd (settle_step demo_libs 1 (settle_times demo_libs 1 m demo_put)) = Ok Settled) \<and> settle_step demo_libs 1 ps' = (ps', Ok progress.Done)"
    by (intro settling_drains_queue [OF demo_libs_ok _ demo_put_inv]) simp_all
  then show ?thesis by (auto simp: Let_def demo_put_def)
qed



text \<open>C5: The page store refines a typed key-value store with a write-ahead log.  Take any interleaving of
  reads, batches, settle rounds, drains, defragmentation passes, evictions and flushes from a store
  satisfying the invariant with its journal whole.  What the clients observe is a run of the abstract store: reads return the
  current value, a batch is refused with the first unregistered type, refused with the first conflicting
  guard, or committed whole and logged, and maintenance changes nothing; the store ends with the
  invariant, every read equal to the abstract value, and a journal holding exactly the committed
  batches, all of them durable when no window was asked for.\<close>

theorem page_store_refines_typed_store:
  assumes "zstd_ok E" "engine_inv E ps" "journaled E ps frames safe" "runs (engine_step E) ps events ps'"
  shows "\<exists>A. runs (spec_step (ss_hash ` set (ps_types ps)) (\<not> ps_relaxed ps))
      \<lparr>ts_view = engine_view E ps, ts_log = frames, ts_safe = safe\<rparr> events A
    \<and> engine_inv E ps' \<and> journaled E ps' (ts_log A) (ts_safe A) \<and> (\<forall>h i. read_of E ps' h i = Ok (ts_view A h (raw i)))"
proof -
  let ?T = "ss_hash ` set (ps_types ps)" and ?A = "\<lparr>ts_view = engine_view E ps, ts_log = frames, ts_safe = safe\<rparr>"
  have "engine_rel E ?T (\<not> ps_relaxed ps) ps ?A" using assms(2, 3) by (simp add: engine_rel_def)
  then obtain A where A: "runs (spec_step ?T (\<not> ps_relaxed ps)) ?A events A" "engine_rel E ?T (\<not> ps_relaxed ps) ps' A"
    using engine_sim.runs_simulate [OF assms(4)] assms(1) by blast
  note r = engine_relD [OF A(2)]
  then show ?thesis using A(1) read_of_view [OF r(2)] by auto
qed

theorem page_store_refines_typed_store_witness:
  "\<exists>A ps'. runs (engine_step demo_libs) demo_put [Read demo_hash demo_id (Ok (Some demo_rec)), Maintained, Read demo_hash demo_id (Ok (Some demo_rec))] ps'
    \<and> runs (spec_step {demo_hash} True) \<lparr>ts_view = engine_view demo_libs demo_put, ts_log = [], ts_safe = []\<rparr>
         [Read demo_hash demo_id (Ok (Some demo_rec)), Maintained, Read demo_hash demo_id (Ok (Some demo_rec))] A
    \<and> read_of demo_libs ps' demo_hash demo_id = Ok (ts_view A demo_hash 5)"
proof -
  have t: "take_round 1 (ps_pending demo_put) = (ps_pending demo_put, [])"
    by (simp add: take_round_def USIZE_MAX_def demo_put_def)
  obtain ps' where s: "settle_step demo_libs 1 demo_put = (ps', Ok (if ps_pending demo_put = [] then progress.Done else Settled))"
    "engine_inv demo_libs ps'" "engine_view demo_libs ps' = engine_view demo_libs demo_put"
    by (rule settle_step_ok [OF demo_libs_ok demo_put_inv demo_round t])
  have r0: "read_of demo_libs demo_put demo_hash demo_id = Ok (Some demo_rec)"
    by (simp add: demo_put_def demo_store_def read_of_def slot_of_def ss_get_def without_compression_def)
  have r1: "read_of demo_libs ps' demo_hash demo_id = Ok (Some demo_rec)"
    using r0 s(2, 3) demo_put_inv by (simp add: read_of_view engine_inv_def)
  have run: "runs (engine_step demo_libs) demo_put [Read demo_hash demo_id (Ok (Some demo_rec)), Maintained, Read demo_hash demo_id (Ok (Some demo_rec))] ps'"
    using es_read [of demo_libs demo_put demo_hash demo_id] es_read [of demo_libs ps' demo_hash demo_id] es_settle [OF demo_round s(1)] by (auto simp: r0 r1)
  have "journaled demo_libs demo_put [] []" using demo_journaled by (simp add: journaled_def demo_put_def)
  from page_store_refines_typed_store [OF demo_libs_ok demo_put_inv this run] run show ?thesis
    by (fastforce simp: demo_put_def demo_store_def without_compression_def)
qed

end
