(* ===== verification/Crash_Props.thy ===== *)
theory Crash_Props
  imports Crash_Refines Engine_Props
begin

text \<open>
  What a database promises from its creation on, crashes included, and a run that crashes: a database
  with the tree-node type, one committed record, a power loss, and the record read back.
\<close>

section \<open>A new database\<close>

text \<open>A directory with no journal and no data file opens on the empty history.\<close>

definition empty_dir :: fs where
  "empty_dir = \<lparr>content = Map.empty, synced = Map.empty\<rparr>"

lemma new_superblock:
  assumes "bf_open E random [] = Ok f"
  shows "bf_seed f = random" "length (bf_bytes f) = BLOCK_SIZE" "bf_durable f = bf_bytes f"
  using assms by (auto simp: bf_open_def write_superblock_def Let_def write_at_def ensure_len_def length_super MAGIC_def)

lemma new_database:
  obtains ps f where "open_with E now random False [] None empty_dir types relaxed = Ok ps" "store_ok E [fresh_gen (max now 1)] ps"
    "ps_types ps = registry types" "ps_seed ps = random" "ps_meta ps = meta_default" "ps_alloc ps = fst (fresh_alloc f)" "ps_pending ps = []"
    "ps_target ps = DEFAULT_TARGET_BLOCKS_PER_BUCKET" "ps_relaxed ps = relaxed" "content (ps_fs ps) = [journal_name (max now 1) \<mapsto> []]"
    "j_path (ps_journal ps) = journal_name (max now 1)"
proof -
  let ?ts = "max now 1"
  obtain f where f: "bf_open E random [] = Ok f" by (simp add: bf_open_def Let_def)
  note n = new_superblock [OF f]
  define j where "j = \<lparr>j_path = journal_name ?ts, j_ts = ?ts, j_end = 0, j_syncs = 0\<rparr>"
  define d where "d = empty_dir\<lparr>content := [journal_name ?ts \<mapsto> []]\<rparr>"
  define rc where "rc = \<lparr>rc_alloc = fst (fresh_alloc f), rc_journal = j, rc_replay = [], rc_meta = meta_default,
    rc_file = f, rc_fs = d, rc_types = registry types\<rparr>"
  have same: "truncate_to_blocks RESERVED_BLOCKS f = f" using n(2) by (simp add: truncate_to_blocks_def set_file_len_def)
  have "scan [] = []" by (simp add: scan_def)
  then have "restore E now [] False f empty_dir (registry types) = Ok rc"
    by (simp add: restore_def require_journal_for_def rc_def fresh_alloc_def same journal_create_def next_ts_def empty_dir_def j_def d_def Let_def
        del: One_nat_def)
  then have o: "open_with E now random False [] None empty_dir types relaxed = Ok (opened f rc relaxed)"
    using f by (simp add: open_with_def opened_def rc_def)
  have e: "engine_inv E (opened f rc relaxed)" "engine_view E (opened f rc relaxed) = (\<lambda>_. Map.empty)"
    using fresh_engine [of "opened f rc relaxed" f E] registry_ok [of types] by (simp_all add: rc_def)
  have "disk_holds (crc32 E) d [fresh_gen ?ts]"
    by (simp add: disk_holds_def covers_ok_def journal_at_def gn_frames_def d_def empty_dir_def)
  then have here: "log_here E (opened f rc relaxed) [fresh_gen ?ts]" by (simp add: log_here_def rc_def j_def gn_frames_def)
  have "read_run f (Run 0 RESERVED_BLOCKS) = Ok (bf_bytes f)" using n(2)
    by (simp add: read_run_Ok run_slice_def run_end_def byte_len_def byte_offset_def)
  moreover have "read_run (durable_file f) r = read_run f r" for r using n(3) by (intro read_run_bytes) (simp add: durable_file_def)
  ultimately have "superblock_ok E (opened f rc relaxed)"
    using reopen_keeps_seed [OF f] n(1) by (auto simp: superblock_ok_def rc_def)
  moreover have "roots_held E (opened f rc relaxed) [fresh_gen ?ts]" by (auto simp: roots_held_def Cons_eq_append_conv)
  moreover have "retiring_ok (opened f rc relaxed) [fresh_gen ?ts]" by (auto simp: retiring_ok_def newest_safe_def Cons_eq_append_conv)
  ultimately have "store_ok E [fresh_gen ?ts] (opened f rc relaxed)"
    using e here by (simp add: store_ok_def hist_view_def gn_frames_def)
  then show thesis
    using that [OF o] n(1) by (simp add: rc_def d_def j_def opened_def)
qed

lemma new_log:
  assumes "open_with E now random False [] None empty_dir types relaxed = Ok ps"
  shows "durable_rel E (ss_hash ` set (registry types)) ps \<lparr>dl_done = [], dl_safe = [], dl_strict = (\<not> relaxed)\<rparr>"
proof -
  obtain ps' f where n: "open_with E now random False [] None empty_dir types relaxed = Ok ps'" "store_ok E [fresh_gen (max now 1)] ps'"
    "ps_types ps' = registry types" "ps_relaxed ps' = relaxed" by (rule new_database)
  have "ps' = ps" using n(1) assms by simp
  then show ?thesis using n(2-4)
    by (intro durable_relI [of E "[fresh_gen (max now 1)]" _ _ ps]) (simp_all add: appendable_def safe_history_def gn_cut_def)
qed

section \<open>Without a durability window\<close>

text \<open>The batches a client was told are committed, and those that reached the journal.\<close>

fun acknowledged :: "log_event list \<Rightarrow> history" where
  "acknowledged [] = []"
| "acknowledged (Wrote b (Ok _) # es) = filter (\<lambda>w. \<not> is_expect w) b # acknowledged es"
| "acknowledged (_ # es) = acknowledged es"

fun attempted :: "log_event list \<Rightarrow> history" where
  "attempted [] = []"
| "attempted (Wrote b (Ok _) # es) = filter (\<lambda>w. \<not> is_expect w) b # attempted es"
| "attempted (Torn b _ # es) = filter (\<lambda>w. \<not> is_expect w) b # attempted es"
| "attempted (_ # es) = attempted es"

fun strict_event :: "log_event \<Rightarrow> bool" where
  "strict_event (Crashed relaxed) = (\<not> relaxed)"
| "strict_event (Torn b relaxed) = (\<not> relaxed)"
| "strict_event _ = True"

lemma strict_log_step:
  assumes "log_step T L e L'" "dl_strict L" "dl_safe L = dl_done L" "strict_event e"
  obtains H where "dl_done L' = dl_done L @ H" "dl_strict L'" "dl_safe L' = dl_done L'"
    "\<forall>es. acknowledged (e # es) = acknowledged [e] @ acknowledged es" "\<forall>es. attempted (e # es) = attempted [e] @ attempted es"
    "subseq (acknowledged [e]) H" "subseq H (attempted [e])"
  using assms
proof cases
  case (log_torn H b relaxed)
  have "H = dl_done L \<or> H = dl_done L @ [filter (\<lambda>w. \<not> is_expect w) b]"
    using log_torn(3, 4) assms(3) by (auto simp: prefix_snoc dest: prefix_order.antisym)
  then show thesis using that [of "drop (length (dl_done L)) H"] log_torn(1, 2) assms(4) by auto
qed (use that in \<open>force dest: prefix_order.antisym\<close>)+

lemma strict_log:
  assumes "runs (log_step T) L es L'" "dl_strict L" "dl_safe L = dl_done L" "list_all strict_event es"
  shows "\<exists>H. dl_done L' = dl_done L @ H \<and> subseq (acknowledged es) H \<and> subseq H (attempted es)"
  using assms
proof (induction rule: runs.induct)
  case (runs_Cons L e M es N)
  have "strict_event e" "list_all strict_event es" using runs_Cons.prems(3) by simp_all
  from strict_log_step [OF runs_Cons.hyps(1) runs_Cons.prems(1, 2) this(1)]
  obtain H where H: "dl_done M = dl_done L @ H" "dl_strict M" "dl_safe M = dl_done M"
    "acknowledged (e # es) = acknowledged [e] @ acknowledged es" "attempted (e # es) = attempted [e] @ attempted es"
    "subseq (acknowledged [e]) H" "subseq H (attempted [e])" by metis
  from runs_Cons.IH [OF H(2, 3) \<open>list_all strict_event es\<close>] obtain K where
    K: "dl_done N = dl_done M @ K" "subseq (acknowledged es) K" "subseq K (attempted es)" by blast
  show ?case unfolding H(4, 5) using H(1, 6, 7) K by (intro exI [of _ "H @ K"]) (auto intro: list_emb_append_mono)
qed simp

section \<open>A database that loses power\<close>

lemma nothing_lost: "dir_crash d (d\<lparr>synced := content d\<rparr>)"
proof -
  have "\<exists>n. length s \<le> n \<and> c = take n c" for s c :: "byte list" by (rule exI [of _ "max (length s) (length c)"]) simp
  then show ?thesis by (simp add: dir_crash_def)
qed

abbreviation demo_batch :: "write_op list" where
  "demo_batch \<equiv> [Put demo_id demo_rec]"

abbreviation demo_seed :: seed where
  "demo_seed \<equiv> (0, 0, 0, 0)"

lemma demo_registry: "registry [] = [without_compression demo_hash]"
  by (simp add: registry_def BPTREE_NODE_STORAGE_def without_compression_def ss_reset_def ds_new_def ds_reset_def)

lemma demo_types: "ss_hash ` set (registry []) = {demo_hash}"
  by (simp add: demo_registry without_compression_def)

lemma demo_rec_hash: "struct_hash_of demo_rec = Ok demo_hash"
  by (simp add: struct_hash_of_def)

lemma demo_caches: "commit_to_caches demo_batch ([without_compression demo_hash], []) = Some ([demo_slot], [(0, [demo_id])])"
  using demo_rec_hash by (simp add: without_compression_def clear_removed_def bt_insert_def bs_remove_def Let_def)

lemma demo_effective: "filter (\<lambda>w. \<not> is_expect w) demo_batch = demo_batch"
  by (simp add: is_expect_def)

lemma demo_frame: "valid_frame (Batch demo_batch)"
  by (simp add: valid_write_def field_sel_def wire_write_def wire_id_def wire_enum_def)

text \<open>The journal with that batch opens on it.\<close>

lemma demo_restore:
  assumes "content d = [journal_name 1 \<mapsto> log_image (crc32 E) [Batch demo_batch]]" "synced d = content d"
    "restore E now [journal_name 1] True f d types = Ok rc"
  shows "rc_alloc rc = fst (fresh_alloc f)" "rc_replay rc = [demo_batch]" "rc_meta rc = meta_default" "rc_types rc = types"
proof -
  define g where "g = \<lparr>gn_ts = 1, gn_root = None, gn_batches = [demo_batch], gn_safe = 1\<rparr>"
  have frames: "gn_frames g = [Batch demo_batch]" by (simp add: gn_frames_def g_def)
  have at: "journal_at (crc32 E) d g" unfolding journal_at_def frames using assms demo_frame by (simp add: g_def del: valid_frame.simps)
  then have disk: "disk_holds (crc32 E) d [g]" using assms by (simp add: disk_holds_def covers_ok_def g_def)
  have crash: "dir_crash d d" using assms(2) by (auto simp: dir_crash_def intro: exI [of _ "length _"])
  have one: "distinct [journal_name 1]" "set [journal_name 1] = dom (content d)" using assms(1) by simp_all
  have hist: "history_ok True [] [g]" by (rule full_history) (simp add: gn_full_def frames, simp add: g_def)
  obtain ns d1 where j: "list_all2 (\<lambda>g n. gn_safe g \<le> n) [g] ns" "scan [journal_name 1] = map (\<lambda>g. (gn_ts g, journal_name (gn_ts g))) [g]"
    "open_journals E (scan [journal_name 1]) d = Ok (map (journal_entry (crc32 E)) (map2 gn_cut ns [g]), d1)"
    "disk_holds (crc32 E) d1 (map2 gn_cut ns [g])" "list_all gn_full (map2 gn_cut ns [g])"
    by (rule journals_reopen [OF disk hist crash one])
  obtain n where n: "ns = [n]" "1 \<le> n" using j(1) by (auto simp: list_all2_Cons1 g_def)
  then have cut: "map2 gn_cut ns [g] = [g]" by (simp add: gn_cut_def frames) (simp add: g_def)
  have root: "gn_root g = None" by (simp add: g_def)
  have ne: "scan [journal_name 1] \<noteq> []" using j(2) by simp
  have "newest_commit (concat (map gn_frames [g])) = None" by (rule newest_commit_facts(1)) (simp add: root)
  moreover have "collect_replay None (map (journal_entry (crc32 E)) [g]) None d1 = Ok ([demo_batch], Some (reopened (crc32 E) (last [g])), d1)"
    using collect_kept [of "[g]" None "crc32 E" None d1] by (simp add: g_def)
  ultimately
  have "rc = \<lparr>rc_alloc = fst (fresh_alloc f), rc_journal = reopened (crc32 E) (last [g]), rc_replay = [demo_batch], rc_meta = meta_default,
      rc_file = truncate_to_blocks RESERVED_BLOCKS f, rc_fs = d1, rc_types = types\<rparr>"
    using restore_fresh [OF ne j(3) [unfolded cut], unfolded entries_frames, of "[demo_batch]" _ d1 now f types] assms(3) by simp
  then show "rc_alloc rc = fst (fresh_alloc f)" "rc_replay rc = [demo_batch]" "rc_meta rc = meta_default" "rc_types rc = types"
    by (simp_all add: g_def)
qed

lemma demo_opens:
  assumes "content d = [journal_name 1 \<mapsto> log_image (crc32 demo_libs) [Batch demo_batch]]" "synced d = content d"
    "\<And>f. bf_open demo_libs demo_seed bs = Ok f \<Longrightarrow> bf_seed f = demo_seed"
  shows "open_fits demo_libs 1 demo_seed [journal_name 1] bs d [] False"
  unfolding open_fits_def
proof (intro allI impI)
  fix f rc assume f: "bf_open demo_libs demo_seed bs = Ok f" and rc: "restore demo_libs 1 [journal_name 1] True f d (registry []) = Ok rc"
  note r = demo_restore [OF assms(1, 2) rc]
  have "settle_fits demo_libs [(0, [demo_id])] ((opened f rc False)\<lparr>ps_types := [demo_slot]\<rparr>)"
    by (rule demo_settle_fits [of _ f]) (simp_all add: opened_def r assms(3) [OF f])
  then show "replay_fits demo_libs (rc_replay rc) (opened f rc False)" using demo_caches by (simp add: r demo_registry)
qed

lemma demo_crash:
  obtains ps0 ps1 ps2 where "open_with demo_libs 1 demo_seed False [] None empty_dir [] False = Ok ps0"
    "apply_inner demo_libs False demo_batch ps0 = Ok ps1" "reopens demo_libs ps1 False ps2"
proof -
  obtain ps0 f where n: "open_with demo_libs 1 demo_seed False [] None empty_dir [] False = Ok ps0" "store_ok demo_libs [fresh_gen 1] ps0"
    "ps_types ps0 = registry []" "ps_seed ps0 = demo_seed" "content (ps_fs ps0) = [journal_name 1 \<mapsto> []]" "j_path (ps_journal ps0) = journal_name 1"
    using new_database [of demo_libs 1 demo_seed "[]" False] by auto
  note rel = new_log [OF n(1), unfolded demo_types]
  have "route_error {demo_hash} demo_batch = None" by (simp add: write_hash_def demo_rec_hash)
  then obtain ps1 where a: "apply_inner demo_libs False demo_batch ps0 = Ok ps1"
    by (cases rule: wrote_simulates [OF rel, where elapsed = False and b = demo_batch]) (auto elim: log_step.cases)
  have start: "appendable [fresh_gen 1]" "valid_frame (Batch (filter (\<lambda>w. \<not> is_expect w) demo_batch))"
    using demo_frame unfolding demo_effective by (simp_all add: appendable_def del: valid_frame.simps)
  obtain gs where gs: "store_ok demo_libs gs ps1" and hashes: "map ss_hash (ps_types ps1) = map ss_hash (ps_types ps0)"
    by (rule applied_ok [OF n(2) start(1) a start(2)])
  have l: "log_batch demo_libs False (Batch demo_batch) ps0 = Ok (ps_journal ps1, ps_fs ps1)" using apply_inner_log [OF a] unfolding demo_effective .
  have "journaled demo_libs ps0 [] []" using log_here_holds [of demo_libs ps0 "[]" "fresh_gen 1"] store_okD(4) [OF n(2)]
    by (simp add: journaled_def gn_frames_def)
  from log_batch_holds [OF this, of False "Batch demo_batch"] l
  have "content (ps_fs ps1) (j_path (ps_journal ps1)) = Some (log_image (crc32 demo_libs) [Batch demo_batch])"
    by (auto simp: journal_holds_def)
  then have c: "content (ps_fs ps1) = [journal_name 1 \<mapsto> log_image (crc32 demo_libs) [Batch demo_batch]]"
    using log_batch_only(1) [OF l] n(5, 6) by (intro ext) (auto simp: only_journal_def)
  have seed: "ps_seed ps1 = demo_seed" using a n(4) by (auto simp: apply_inner_def try_then_Ok_iff Let_def split: option.splits)
  let ?bs = "bf_bytes (ps_file ps1)" and ?d = "(ps_fs ps1)\<lparr>synced := content (ps_fs ps1)\<rparr>"
  have d: "data_survives ps1 ?bs" by (simp add: data_survives_def)
  have e: "distinct [journal_name 1]" "set [journal_name 1] = dom (content ?d)" using c by simp_all
  have r: "map ss_hash (registry []) = map ss_hash (ps_types ps1)" using hashes n(3) by simp
  have "bf_seed f = demo_seed" if "bf_open demo_libs demo_seed ?bs = Ok f" for f
    using data_reopens [OF store_okD(7) [OF gs] d, of demo_seed] that seed by auto
  then have fits: "open_fits demo_libs 1 demo_seed [journal_name 1] ?bs ?d [] False" using c by (intro demo_opens) auto
  obtain ps2 where "open_with demo_libs 1 demo_seed False [journal_name 1] (Some ?bs) ?d [] False = Ok ps2"
    by (rule reopen_ok [OF demo_libs_ok store_crash_ok [OF gs] nothing_lost d e r fits])
  from reopens.intros [OF nothing_lost d e r fits this] show thesis by (rule that [OF n(1) a])
qed

lemma demo_crash_run:
  obtains ps ps' where "open_with demo_libs 1 demo_seed False [] None empty_dir [] False = Ok ps"
    "runs (store_step demo_libs) ps [Wrote demo_batch (Ok ()), Crashed False] ps'"
proof -
  obtain ps0 ps1 ps2 where d: "open_with demo_libs 1 demo_seed False [] None empty_dir [] False = Ok ps0"
    "apply_inner demo_libs False demo_batch ps0 = Ok ps1" "reopens demo_libs ps1 False ps2" by (rule demo_crash)
  have "store_step demo_libs ps0 (Wrote demo_batch (Ok ())) ps1"
    using ss_commit [OF _ d(2)] demo_frame unfolding demo_effective by blast
  moreover have "store_step demo_libs ps1 (Crashed False) ps2"
    by (rule ss_crash [OF _ d(3)]) (simp add: crash_point_def)
  ultimately show thesis using that [OF d(1)] by auto
qed

section \<open>Runs of a database\<close>

lemma after_run:
  assumes "zstd_ok E" "open_with E now random False [] None empty_dir types relaxed = Ok ps" "runs (store_step E) ps events ps'"
  shows "\<exists>L. runs (log_step (ss_hash ` set (registry types))) \<lparr>dl_done = [], dl_safe = [], dl_strict = (\<not> relaxed)\<rparr> events L
    \<and> durable_rel E (ss_hash ` set (registry types)) ps' L \<and> (\<forall>h i. read_of E ps' h i = Ok (hist_view (dl_done L) h (raw i)))"
proof -
  obtain L where L: "runs (log_step (ss_hash ` set (registry types))) \<lparr>dl_done = [], dl_safe = [], dl_strict = (\<not> relaxed)\<rparr> events L"
    "durable_rel E (ss_hash ` set (registry types)) ps' L"
    using store_sim.runs_simulate [OF assms(3)] new_log [OF assms(2)] assms(1) by blast
  obtain gs where "engine_ok E ps'" "engine_view E ps' = hist_view (dl_done L)" by (rule durable_relE [OF L(2)])
  then have "\<forall>h i. read_of E ps' h i = Ok (hist_view (dl_done L) h (raw i))" by (simp add: read_of_view)
  with L show ?thesis by (intro exI [of _ L] conjI)
qed

definition typed_ok :: "typed_view \<Rightarrow> bool" where
  "typed_ok V \<longleftrightarrow> (\<forall>h k b. V h k = Some b \<longrightarrow> from_le_bytes (take 8 b) = h)"

lemma typed_ok_update [intro]:
  "typed_ok V \<Longrightarrow> typed_ok (V(from_le_bytes (take 8 b) := (V (from_le_bytes (take 8 b)))(k \<mapsto> b)))"
  "typed_ok V \<Longrightarrow> typed_ok (V(h := (V h)(k := None)))"
  by (simp_all add: typed_ok_def)

lemma typed_effect_ok: "typed_ok V \<Longrightarrow> typed_ok (typed_effect ws V)"
  by (induction ws V rule: typed_effect.induct) (auto simp: Let_def)

lemma hist_view_typed: "typed_ok (hist_view H)"
  by (induction H rule: rev_induct) (simp_all add: hist_view_def typed_effect_ok, simp add: typed_ok_def)

section \<open>Properties\<close>

text \<open>C1: The storage engine, crashes included, refines a durable log.  Create a database and run any
  interleaving of reads, batches, settle rounds, drains, defragmentation passes, evictions, flushes,
  checkpoints, retirements and power losses, at rest, in the middle of a batch's journal write or between the stages of a checkpoint,
  each followed by reopening what is left of the journals and the data file.  What the clients observe is
  a run of the log: batches commit whole and in order, a crash falls back to a prefix of the committed
  batches that contains everything a barrier had made durable, nothing torn is ever replayed, and every
  read is the fold of the surviving batches.\<close>

theorem crash_recovery_refines_log:
  assumes "zstd_ok E" "open_with E now random False [] None empty_dir types relaxed = Ok ps" "runs (store_step E) ps events ps'"
  shows "\<exists>L. runs (log_step (ss_hash ` set (registry types))) \<lparr>dl_done = [], dl_safe = [], dl_strict = (\<not> relaxed)\<rparr> events L
    \<and> (\<forall>h i. read_of E ps' h i = Ok (hist_view (dl_done L) h (raw i)))"
  using after_run [OF assms] by blast

theorem crash_recovery_refines_log_witness:
  "\<exists>ps ps'. open_with demo_libs 1 demo_seed False [] None empty_dir [] False = Ok ps
    \<and> runs (store_step demo_libs) ps [Wrote demo_batch (Ok ()), Crashed False] ps'
    \<and> (\<exists>L. runs (log_step {demo_hash}) \<lparr>dl_done = [], dl_safe = [], dl_strict = True\<rparr> [Wrote demo_batch (Ok ()), Crashed False] L
        \<and> read_of demo_libs ps' demo_hash demo_id = Ok (hist_view (dl_done L) demo_hash 5))"
proof -
  obtain ps ps' where r: "open_with demo_libs 1 demo_seed False [] None empty_dir [] False = Ok ps"
    "runs (store_step demo_libs) ps [Wrote demo_batch (Ok ()), Crashed False] ps'" by (rule demo_crash_run)
  from crash_recovery_refines_log [OF demo_libs_ok r] obtain L where
    L: "runs (log_step {demo_hash}) \<lparr>dl_done = [], dl_safe = [], dl_strict = True\<rparr> [Wrote demo_batch (Ok ()), Crashed False] L"
    "\<forall>h i. read_of demo_libs ps' h i = Ok (hist_view (dl_done L) h (raw i))" by (auto simp: demo_types)
  from L(2) have "read_of demo_libs ps' demo_hash demo_id = Ok (hist_view (dl_done L) demo_hash 5)" by simp
  then show ?thesis using r L(1) by blast
qed

text \<open>C2: With no durability window, no acknowledged batch is ever lost.  After any interleaving of
  the steps of the engine from the creation of a database, power losses included, every read is the fold of a sequence of batches that contains
  each acknowledged one, in order, and nothing but those and batches that were being written when the power
  went.\<close>

theorem acknowledged_batches_survive:
  assumes "zstd_ok E" "open_with E now random False [] None empty_dir types False = Ok ps" "runs (store_step E) ps events ps'"
    "list_all strict_event events"
  shows "\<exists>H. subseq (acknowledged events) H \<and> subseq H (attempted events) \<and> (\<forall>h i. read_of E ps' h i = Ok (hist_view H h (raw i)))"
proof -
  obtain L where L: "runs (log_step (ss_hash ` set (registry types))) \<lparr>dl_done = [], dl_safe = [], dl_strict = True\<rparr> events L"
    "\<forall>h i. read_of E ps' h i = Ok (hist_view (dl_done L) h (raw i))" using after_run [OF assms(1-3)] by auto
  from strict_log [OF L(1) _ _ assms(4)] L(2) show ?thesis by auto
qed

theorem acknowledged_batches_survive_witness:
  "\<exists>ps ps'. open_with demo_libs 1 demo_seed False [] None empty_dir [] False = Ok ps
    \<and> runs (store_step demo_libs) ps [Wrote demo_batch (Ok ()), Crashed False] ps' \<and> read_of demo_libs ps' demo_hash demo_id = Ok (Some demo_rec)"
proof -
  obtain ps ps' where r: "open_with demo_libs 1 demo_seed False [] None empty_dir [] False = Ok ps"
    "runs (store_step demo_libs) ps [Wrote demo_batch (Ok ()), Crashed False] ps'" by (rule demo_crash_run)
  from acknowledged_batches_survive [OF demo_libs_ok r] obtain H where H: "subseq [demo_batch] H" "subseq H [demo_batch]"
    "\<forall>h i. read_of demo_libs ps' h i = Ok (hist_view H h (raw i))" by (auto simp: is_expect_def)
  have "H = [demo_batch]" using H(1, 2) by (rule subseq_order.antisym [symmetric])
  then have "read_of demo_libs ps' demo_hash demo_id = Ok (Some demo_rec)" using H(3) by (simp add: hist_view_def Let_def)
  then show ?thesis using r by blast
qed

text \<open>C3: Opening never refuses what a crash leaves.  However a database was used, and wherever the power
  goes, the stages of a checkpoint included, the journals cut after their last barrier and the data file
  with only its rooted blocks intact are opened, as long as the replay stays within the format's limits.\<close>

theorem reopening_succeeds:
  assumes "zstd_ok E" "open_with E now random False [] None empty_dir types relaxed = Ok ps" "runs (store_step E) ps events ps'"
    "crash_point E ps' q" "dir_crash (ps_fs q) d" "data_survives q bs" "distinct entries" "set entries = dom (content d)"
    "map ss_hash (registry types') = map ss_hash (ps_types q)" "open_fits E now' random' entries bs d types' relaxed'"
  shows "\<exists>ps''. open_with E now' random' False entries (Some bs) d types' relaxed' = Ok ps''"
proof -
  obtain L where "durable_rel E (ss_hash ` set (registry types)) ps' L" using after_run [OF assms(1-3)] by blast
  then obtain gs where "store_ok E gs ps'" by (rule durable_relE)
  then obtain gs' where g: "crash_ok E gs' q" by (rule crash_point_ok [OF assms(1) _ assms(4)])
  obtain ps'' where "open_with E now' random' False entries (Some bs) d types' relaxed' = Ok ps''"
    by (rule reopen_ok [OF assms(1) g assms(5-10)])
  then show ?thesis by blast
qed

theorem reopening_succeeds_witness:
  "\<exists>ps ps' now random entries bs d types ps''. runs (store_step demo_libs) ps [Wrote demo_batch (Ok ())] ps' \<and> dir_crash (ps_fs ps') d \<and> data_survives ps' bs
    \<and> set entries = dom (content d) \<and> open_with demo_libs now random False entries (Some bs) d types False = Ok ps''"
proof -
  obtain ps0 ps1 ps2 where d: "open_with demo_libs 1 demo_seed False [] None empty_dir [] False = Ok ps0"
    "apply_inner demo_libs False demo_batch ps0 = Ok ps1" "reopens demo_libs ps1 False ps2" by (rule demo_crash)
  have r: "runs (store_step demo_libs) ps0 [Wrote demo_batch (Ok ())] ps1"
    using ss_commit [OF _ d(2)] demo_frame unfolding demo_effective by auto
  have q: "crash_point demo_libs ps1 ps1" by (simp add: crash_point_def)
  from d(3) show ?thesis
  proof cases
    case (1 dir bs entries types now random)
    from reopening_succeeds [OF demo_libs_ok d(1) r q 1(1-6)] obtain ps'' where
      "open_with demo_libs now random False entries (Some bs) dir types False = Ok ps''" by blast
    with r 1(1, 2, 4) show ?thesis by blast
  qed
qed

text \<open>C4: A record is only ever found under its own type: in a database run from its creation, crashes
  included, whatever \<open>get_of\<close> returns for a struct hash carries that hash in its first eight bytes.\<close>

theorem records_keep_their_type:
  assumes "zstd_ok E" "open_with E now random False [] None empty_dir types relaxed = Ok ps" "runs (store_step E) ps events ps'"
    "read_of E ps' h i = Ok (Some b)"
  shows "from_le_bytes (take 8 b) = h"
proof -
  obtain L :: durable_log where "\<forall>h i. read_of E ps' h i = Ok (hist_view (dl_done L) h (raw i))" using after_run [OF assms(1-3)] by blast
  then have "hist_view (dl_done L) h (raw i) = Some b" using assms(4) by simp
  then show ?thesis using hist_view_typed unfolding typed_ok_def by blast
qed

theorem records_keep_their_type_witness:
  "\<exists>ps ps'. runs (store_step demo_libs) ps [Wrote demo_batch (Ok ()), Crashed False] ps'
    \<and> (\<forall>b. read_of demo_libs ps' demo_hash demo_id = Ok (Some b) \<longrightarrow> from_le_bytes (take 8 b) = demo_hash)"
proof -
  obtain ps ps' where r: "open_with demo_libs 1 demo_seed False [] None empty_dir [] False = Ok ps"
    "runs (store_step demo_libs) ps [Wrote demo_batch (Ok ()), Crashed False] ps'" by (rule demo_crash_run)
  then show ?thesis using records_keep_their_type [OF demo_libs_ok r] by blast
qed

end
