(* ===== verification/Spec2Isabelle.thy ===== *)
theory Spec2Isabelle
  imports Bp_Query Chain_Props Crash_Props
begin

text \<open>
  WaveDB: verification of the core of the database.

  \<^bold>\<open>The program.\<close>  WaveDB (\<open>src/crates\<close>) stores typed records under 128-bit ids.  Every value that
  reaches disk or the network passes the codec of \<open>wavedb-wire\<close>.  \<open>wavedb-core\<close> holds the data model (ids,
  metadata, records with their version chain, index keys) and the index structures, planned as batches of
  writes against the \<open>Store\<close> trait.  \<open>wavedb-storage\<close> is the native engine behind that trait: batches go to
  a write-ahead journal and to per-type caches, rounds of settling move them into hashed pages in
  \<open>data.bin\<close>, an addressing log records where pages are, and a checkpoint ties the log's head into a new
  journal so that the old ones can be deleted.  The remaining crates are the server, the client, the
  network and the macros.

  \<^bold>\<open>The theories\<close>, in dependency order, with the files under \<open>src/crates\<close> they translate.  Fallible code
  returns \<open>'a cres\<close> (or another error type): \<open>Ok\<close>, \<open>Err\<close>, or \<open>None\<close> for a panic or a loop that does not
  end.

  \<^item> \<open>Prelude\<close>: machine integers, byte images, the result type.  \<open>Wire\<close>, \<open>Wire_Laws\<close>
    (\<open>wavedb-wire/src\<close>, \<open>wavedb-wire-derive/src\<close>): cursors, the trait as the record \<open>'a wire\<close>, every
    implementation; the contract as the locales \<open>wave_wire\<close> (round trip) and \<open>total_wire\<close> (decoding any
    bytes ends), interpreted for each implementation.
  \<^item> \<open>Idents\<close> (\<open>u48.rs\<close>, \<open>id.rs\<close>, \<open>local_id.rs\<close>, \<open>error.rs\<close>, \<open>mint.rs\<close>, \<open>traits.rs\<close>, platform \<open>time.rs\<close>):
    ids, packing, minting, instants with wrap-around.
  \<^item> \<open>Store\<close> (\<open>store.rs\<close>, \<open>overlay.rs\<close>, \<open>index/mem_store.rs\<close>, client \<open>cache/idb_store.rs\<close>): batches,
    the contract of a store as the locale \<open>batch_store\<close>, interpreted for the flat and the browser store,
    and the overlay that plans read through.
  \<^item> \<open>Metadata\<close>, \<open>Records\<close> (\<open>metadata.rs\<close>, \<open>permission.rs\<close>, \<open>record.rs\<close>, \<open>record_unique.rs\<close>,
    \<open>notify.rs\<close>): envelopes, chained saves, the history walk, unique records.
  \<^item> \<open>Index_Key\<close> (\<open>index/key.rs\<close>, \<open>mod.rs\<close>, \<open>node_key.rs\<close>): order-preserving key images and bounds.
    \<open>Bp_Tree\<close> (\<open>index/node.rs\<close>, \<open>tree.rs\<close>, \<open>tree_insert.rs\<close>, \<open>tree_delete.rs\<close>) with \<open>Bp_Laws\<close>, \<open>Bp_Insert\<close>,
    \<open>Bp_Delete\<close>, \<open>Bp_Query\<close>: the tree refines a finite set, over every lawful key type and store.
  \<^item> \<open>Sparse_Index\<close> (\<open>index/segment.rs\<close>, \<open>sparse.rs\<close>, \<open>sparse_write.rs\<close>) with \<open>Sparse_Laws\<close>: chain
    segments and the counted index above them; the tree is the list of its slots, lookups return the slot
    that covers a key, upserts and removals edit that list.
  \<^item> \<open>Record_Chain\<close> (\<open>index/chain.rs\<close>, \<open>chain_remove.rs\<close>) with \<open>Chain_Laws\<close>, \<open>Chain_Insert\<close>,
    \<open>Chain_Remove\<close>, \<open>Chain_Props\<close>: linked segments under that index, or without one.  A chain is the run
    of its segments; splits, merges and redistributions keep entries, links, size band and index in step,
    and the chain refines a finite map (locales \<open>chain_payload\<close> and \<open>chain_store\<close>, interpreted for the
    payloads and stores the system uses).
  \<^item> \<open>Ordered_Maps\<close>, \<open>Block_Alloc\<close>, \<open>Alloc_Laws\<close> (\<open>block.rs\<close>, \<open>alloc.rs\<close>): runs, descriptors, the
    allocator with two protected generations; free, live and deferred blocks partition the file.
  \<^item> \<open>Journal\<close>, \<open>Journal_Laws\<close> (\<open>journal.rs\<close>, \<open>error.rs\<close>), \<open>Directory\<close> (\<open>directory.rs\<close>), \<open>Page\<close> (\<open>page.rs\<close>,
    \<open>dictionary.rs\<close>), \<open>Block_File\<close> (\<open>block_file.rs\<close>, \<open>page_cache.rs\<close>): frames and torn tails, linear
    hashing, page images, the block device and its cache.
  \<^item> \<open>Slot_Plan\<close>, \<open>Slot_Laws\<close> (\<open>struct_storage.rs\<close>, \<open>directory_pages.rs\<close>, \<open>plan.rs\<close>), \<open>Edit_Log\<close> (\<open>edit.rs\<close>,
    \<open>meta_log.rs\<close>), \<open>Page_Store\<close> (\<open>page_store.rs\<close>, \<open>apply.rs\<close>, \<open>read_through.rs\<close>, \<open>settle.rs\<close>,
    \<open>checkpoint.rs\<close>), \<open>Checkpoint\<close> (\<open>commit.rs\<close>, \<open>retire.rs\<close>, \<open>defrag.rs\<close>, opening): the engine.
  \<^item> \<open>Engine_View\<close>, \<open>Space_Laws\<close>, \<open>Place_Laws\<close>, \<open>Round_Laws\<close>, \<open>Log_Laws\<close>, \<open>Settle_Laws\<close>, \<open>Engine_Steps\<close>,
    \<open>Relocation\<close>, \<open>Engine_Refines\<close>, \<open>Opening\<close>, \<open>Engine_Props\<close>: what a store answers is the view of its caches over its
    pages; settling, draining, moving pages and eviction keep it; every interleaving of clients and maintenance refines
    a typed key-value store (locale \<open>forward_simulation\<close>, interpreted on the engine).
  \<^item> \<open>Recovery\<close>, \<open>Generations\<close>, \<open>Crash_Safety\<close>, \<open>Checkpoint_Laws\<close>, \<open>Crash_Recovery\<close>, \<open>Crash_Refines\<close>,
    \<open>Crash_Props\<close>: power loss.  Journals are generations; a crash cuts every journal anywhere behind its
    durable part and leaves every block written since the last barrier arbitrary; opening what is left
    gives a prefix of the history that contains everything a barrier covered.  With crashes the engine
    refines a durable log.

  \<^bold>\<open>What the properties show.\<close>  C1 to C4: the engine with crashes.  C5 to C7: the engine without them.  C8 to
  C11: the B+tree.  C12: record chains.  C13 to C16: records.  C17 to C25: allocator, journal, directory,
  pages and cache.  C26 to C28: stores and batches.  The rest: codec, identifiers and index keys, with the boundary cases where the
  code departs from its documentation.

  \<^bold>\<open>Bounds.\<close>  Values that are stored, sent, packed or hashed are words of the width they have in the code.
  Block numbers, lengths, offsets and capacities, which the code keeps in \<open>u64\<close> and \<open>usize\<close> and which the file
  format holds below 2^40 blocks, are \<open>nat\<close>: the additions on them do not wrap.  The statements carry the
  limits the formats impose.  \<open>step_fits\<close>, \<open>defrag_fits\<close>, \<open>checkpoint_fits\<close> and \<open>open_fits\<close> say that a round, a pass, a checkpoint or a replay stays
  within the 2^40-block address space and the 4 GiB images; \<open>caps_ok\<close>, \<open>sparse_caps\<close> and \<open>chain_caps\<close> that a full
  node or segment with keys of a mebibyte stays below 4 GiB, which the default capacities satisfy;
  \<open>chain_mints\<close> bounds the ids a sequence of chain operations mints.  Loops that end are total functions; loops
  whose end depends on stored data (\<open>partial_function\<close>) return \<open>None\<close> when they would not end, and the
  theorems show that they return.  No fuel is used.

  \<^bold>\<open>Parameters.\<close>  CRC-32, SeaHash and zstd are arguments; zstd is assumed to decompress what it compressed.
  Clock readings, random seeds and minted ids are arguments, ids being distinct where a theorem says so.

  \<^bold>\<open>Not modelled.\<close>  System calls that fail and the durability of directory entries; a power loss during the
  opening itself; a process exit without power loss; scheduling inside an async operation (an operation is
  one step, the checkpoint has its stages); IndexedDB request faults.  Collections, fuzzy search, query streams,
  exposed functions and the macros are generated or generic glue over the modelled operations;
  server, network, client and browser bindings are I/O.
\<close>

end
